(* ===== verification/Sdb_Prelude.thy ===== *)
theory Sdb_Prelude
  imports Main "HOL-Library.Word"
begin

text \<open>
  What every component shares: the names of the C integer types of \<^verbatim>\<open>include/ssc.h\<close>, the
  collections of rewrite rules that carry the component proofs, the reading of 32-bit words as
  unsigned and two's complement integers, and the value of a string of bytes read with its most
  significant byte first.
\<close>

unbundle bit_operations_syntax

section \<open>Machine integers\<close>

text \<open>
  \<^verbatim>\<open>ss_byte_t\<close>, \<^verbatim>\<open>ss_uint2_t\<close>, \<^verbatim>\<open>ss_uint4_t\<close> and \<^verbatim>\<open>ulong\<close>/\<^verbatim>\<open>SS_NATIVE_UINT8_T\<close> on a 64-bit
  platform. Signed types (\<^verbatim>\<open>ss_int4_t\<close>, \<^verbatim>\<open>long\<close>) use the same word types and are read by
  \<open>sint\<close>, as two's complement.
\<close>

type_synonym u8 = "8 word"
type_synonym u16 = "16 word"
type_synonym u32 = "32 word"
type_synonym u64 = "64 word"

section \<open>Collections\<close>

named_theorems ti_simps \<open>definitions of the transaction-state operations, unfolded together\<close>

section \<open>Words\<close>

lemma u8_bounds: "0 \<le> uint (w :: u8)" "uint (w :: u8) < 256"
  using uint_lt2p [of w] by simp_all

lemma u8_pos: "b \<noteq> 0 \<Longrightarrow> 1 \<le> uint (b :: u8)"
proof -
  assume "b \<noteq> 0"
  then have "uint b \<noteq> 0"
    by (simp add: word_uint_eq_iff)
  then show ?thesis
    using u8_bounds(1) [of b] by linarith
qed

lemma u32_bounds: "0 \<le> uint (w :: u32)" "uint (w :: u32) < 4294967296"
  using uint_lt2p [of w] by simp_all

lemma u64_bounds: "0 \<le> uint (w :: u64)" "uint (w :: u64) < 18446744073709551616"
  using uint_lt2p [of w] by simp_all

text \<open>A word has no bits beyond its length; with these, \<open>auto simp: bit_simps\<close> decides views.\<close>

lemma bit_beyond [simp]:
  "8 \<le> n \<Longrightarrow> \<not> bit (v8 :: u8) n" "16 \<le> n \<Longrightarrow> \<not> bit (v16 :: u16) n"
  "32 \<le> n \<Longrightarrow> \<not> bit (v32 :: u32) n" "64 \<le> n \<Longrightarrow> \<not> bit (v64 :: u64) n"
  using bit_imp_le_length [of v8 n] bit_imp_le_length [of v16 n] bit_imp_le_length [of v32 n]
    bit_imp_le_length [of v64 n] by auto

lemma mod_half_shift:
  assumes "0 \<le> x" "x < 2 * h"
  shows "(x + h) mod (2 * h) = (if x < h then x + h else x - (h :: int))"
proof (cases "x < h")
  case False
  have "(x + h) mod (2 * h) = ((x - h) + 2 * h) mod (2 * h)"
    by (rule arg_cong [where f = "\<lambda>y. y mod (2 * h)"]) simp
  also have "\<dots> = (x - h) mod (2 * h)"
    by (rule mod_add_self2)
  also have "\<dots> = x - h"
    using assms False by (intro mod_pos_pos_trivial) auto
  finally show ?thesis
    using False by simp
qed (use assms in simp)

lemma sint32:
  "sint (w :: u32) = (if uint w < 2147483648 then uint w else uint w - 4294967296)"
proof -
  have "sint w = (uint w + 2147483648) mod 4294967296 - 2147483648"
    by (simp add: sint_uint signed_take_bit_eq_take_bit_shift take_bit_eq_mod)
  then show ?thesis
    using mod_half_shift [of "uint w" 2147483648] u32_bounds [of w] by simp
qed

lemma sint64:
  "sint (w :: u64) =
    (if uint w < 9223372036854775808 then uint w else uint w - 18446744073709551616)"
proof -
  have "sint w = (uint w + 9223372036854775808) mod 18446744073709551616 - 9223372036854775808"
    by (simp add: sint_uint signed_take_bit_eq_take_bit_shift take_bit_eq_mod)
  then show ?thesis
    using mod_half_shift [of "uint w" 9223372036854775808] u64_bounds [of w] by simp
qed

text \<open>Sums of signed 64-bit integers: exact unless they leave the signed range.\<close>

definition signed64 :: "int \<Rightarrow> int" where
  "signed64 x = (if x < 9223372036854775808 then x else x - 18446744073709551616)"

definition wrap64 :: "int \<Rightarrow> int" where
  "wrap64 d = (if d < - 9223372036854775808 then d + 18446744073709551616
    else if d < 9223372036854775808 then d else d - 18446744073709551616)"

lemma signed64_bounds:
  assumes "0 \<le> x" "x < 18446744073709551616"
  shows "- 9223372036854775808 \<le> signed64 x" "signed64 x < 9223372036854775808"
  using assms by (auto simp: signed64_def)

lemma signed64_add:
  assumes "0 \<le> x" "x < 18446744073709551616" "0 \<le> y" "y < 18446744073709551616"
  shows "signed64 (if x + y < 18446744073709551616 then x + y else x + y - 18446744073709551616) =
    wrap64 (signed64 x + signed64 y)"
  using assms by (auto simp: signed64_def wrap64_def)

lemma sint_signed64: "sint (w :: u64) = signed64 (uint w)"
  by (simp add: sint64 signed64_def)

lemma sint64_bounds:
  "- 9223372036854775808 \<le> sint (w :: u64)" "sint (w :: u64) < 9223372036854775808"
  unfolding sint_signed64 by (rule signed64_bounds; rule u64_bounds)+

lemma sint_add64: "sint (a + b :: u64) = wrap64 (sint a + sint b)"
proof -
  have "uint (a + b) = (if uint a + uint b < 18446744073709551616 then uint a + uint b
      else uint a + uint b - 18446744073709551616)"
    by (simp add: uint_plus_if')
  then show ?thesis
    unfolding sint_signed64 by (simp only: signed64_add [OF u64_bounds u64_bounds])
qed

lemma wrap64_eq_iff:
  assumes "- 18446744073709551616 \<le> d" "d < 18446744073709551616"
  shows "wrap64 d = d \<longleftrightarrow> - 9223372036854775808 \<le> d \<and> d < 9223372036854775808"
  using assms by (auto simp: wrap64_def)

lemma uint_sub32:
  "uint (a - b :: u32) =
    (if uint b \<le> uint a then uint a - uint b else uint a - uint b + 4294967296)"
  by (simp add: uint_sub_if')

lemma uint_add32:
  "uint (a + b :: u32) =
    (if uint a + uint b < 4294967296 then uint a + uint b else uint a + uint b - 4294967296)"
  by (simp add: uint_plus_if')

text \<open>
  The signed difference of two words: the mathematical difference, moved into the range of a
  signed 32-bit integer.
\<close>

definition wrap32 :: "int \<Rightarrow> int" where
  "wrap32 d = (if d < - 2147483648 then d + 4294967296
    else if d < 2147483648 then d else d - 4294967296)"

lemma wrap32_cases:
  assumes "0 \<le> x" "x < 4294967296" "0 \<le> y" "y < 4294967296"
  shows "(if (if y \<le> x then x - y else x - y + 4294967296) < 2147483648
      then (if y \<le> x then x - y else x - y + 4294967296)
      else (if y \<le> x then x - y else x - y + 4294967296) - 4294967296) = wrap32 (x - y)"
  using assms by (auto simp: wrap32_def)

lemma sint_sub32: "sint (a - b :: u32) = wrap32 (uint a - uint b)"
  unfolding sint32 uint_sub32 by (rule wrap32_cases) (rule u32_bounds)+

lemma wrap32_small: "- 2147483648 \<le> d \<Longrightarrow> d < 2147483648 \<Longrightarrow> wrap32 d = d"
  by (simp add: wrap32_def)

lemma wrap32_swap:
  assumes "- 4294967296 < d" "d < 4294967296" "d \<noteq> 2147483648" "d \<noteq> - 2147483648"
  shows "wrap32 (- d) = - wrap32 d"
  using assms by (auto simp: wrap32_def)

lemmas word32_arith = uint_sub32 uint_add32 sint32 word_less_def word_le_def word_uint_eq_iff

section \<open>The value of a byte string, most significant byte first\<close>

primrec be_val :: "u8 list \<Rightarrow> int" where
  "be_val [] = 0"
| "be_val (b # bs) = uint b * 256 ^ length bs + be_val bs"

lemma be_val_nonneg [simp]: "0 \<le> be_val bs"
  by (induction bs) auto

lemma be_val_bound: "be_val bs < 256 ^ length bs"
proof (induction bs)
  case (Cons b bs)
  have "uint b * 256 ^ length bs \<le> 255 * 256 ^ length bs"
    using u8_bounds [of b] by (intro mult_right_mono) auto
  moreover have "be_val (b # bs) = uint b * 256 ^ length bs + be_val bs"
    by simp
  moreover have "(256::int) ^ length (b # bs) = 255 * 256 ^ length bs + 256 ^ length bs"
    by simp
  ultimately show ?case
    using Cons by linarith
qed simp

lemma be_val_append: "be_val (xs @ ys) = be_val xs * 256 ^ length ys + be_val ys"
  by (induction xs) (auto simp: algebra_simps power_add)

text \<open>Bytes of equal length compare as their values: the first difference decides.\<close>

lemma be_val_first_diff:
  assumes "length xs = length ys" "uint x < uint y"
  shows "be_val (x # xs) < be_val (y # ys)"
proof -
  let ?p = "(256::int) ^ length ys"
  have "uint x * ?p + ?p \<le> uint y * ?p"
    using mult_right_mono [of "uint x + 1" "uint y" ?p] assms(2) by (simp add: algebra_simps)
  moreover have "be_val xs < ?p" "0 \<le> be_val ys"
    using be_val_bound [of xs] assms(1) by simp_all
  ultimately show ?thesis
    unfolding be_val.simps assms(1) by linarith
qed

lemma be_val_inject: "length xs = length ys \<Longrightarrow> be_val xs = be_val ys \<longleftrightarrow> xs = ys"
proof (induction xs ys rule: list_induct2)
  case (Cons x xs y ys)
  then show ?case
    using be_val_first_diff [of xs ys x y] be_val_first_diff [of ys xs y x]
    by (cases "uint x" "uint y" rule: linorder_cases) (auto simp: word_uint_eq_iff)
qed simp

section \<open>Three-way comparisons\<close>

text \<open>
  The contract of the program's comparison functions: on the values they are meant for (\<open>ok\<close>),
  the sign of the result is the order of a measure of the two arguments. Every \<^verbatim>\<open>..._cmp\<close> and
  \<^verbatim>\<open>..._compare\<close> routine modelled here is an instance; what their callers rely on (the result is
  antisymmetric and transitive, 0 is equality of the measures, a running maximum is the largest
  value) is proved here once.
\<close>

definition three_way :: "'b::linorder \<Rightarrow> 'b \<Rightarrow> int" where
  "three_way x y = (if x < y then - 1 else if x = y then 0 else 1)"

lemma three_way_sgn [simp]: "sgn (three_way x y) = three_way x y"
  by (simp add: three_way_def)

lemma three_way_iff:
  "three_way x y < 0 \<longleftrightarrow> x < y" "three_way x y = 0 \<longleftrightarrow> x = y" "three_way x y > 0 \<longleftrightarrow> y < x"
  "three_way x y \<le> 0 \<longleftrightarrow> x \<le> y" "three_way x y \<ge> 0 \<longleftrightarrow> y \<le> x"
  by (auto simp: three_way_def)

lemma three_way_swap: "three_way y x = - three_way x y"
  by (auto simp: three_way_def)

locale cmp_order =
  fixes cmp :: "'a \<Rightarrow> 'a \<Rightarrow> int"
    and ok :: "'a \<Rightarrow> bool"
    and val :: "'a \<Rightarrow> 'b::linorder"
  assumes cmp_val: "ok x \<Longrightarrow> ok y \<Longrightarrow> sgn (cmp x y) = three_way (val x) (val y)"
begin

lemma less_iff: "ok x \<Longrightarrow> ok y \<Longrightarrow> cmp x y < 0 \<longleftrightarrow> val x < val y"
  using cmp_val [of x y] three_way_iff(1) [of "val x" "val y"] by (auto simp: sgn_if split: if_splits)

lemma eq_iff: "ok x \<Longrightarrow> ok y \<Longrightarrow> cmp x y = 0 \<longleftrightarrow> val x = val y"
  using cmp_val [of x y] three_way_iff(2) [of "val x" "val y"] by (auto simp: sgn_if split: if_splits)

lemma greater_iff: "ok x \<Longrightarrow> ok y \<Longrightarrow> cmp x y > 0 \<longleftrightarrow> val y < val x"
  using cmp_val [of x y] three_way_iff(3) [of "val x" "val y"] by (auto simp: sgn_if split: if_splits)

lemma le_iff: "ok x \<Longrightarrow> ok y \<Longrightarrow> cmp x y \<le> 0 \<longleftrightarrow> val x \<le> val y"
  using greater_iff [of x y] by auto

lemma ge_iff: "ok x \<Longrightarrow> ok y \<Longrightarrow> cmp x y \<ge> 0 \<longleftrightarrow> val y \<le> val x"
  using less_iff [of x y] by auto

lemma antisym: "ok x \<Longrightarrow> ok y \<Longrightarrow> sgn (cmp y x) = - sgn (cmp x y)"
  using cmp_val [of x y] cmp_val [of y x] by (simp add: three_way_swap [of "val y"])

lemma trans_le: "ok x \<Longrightarrow> ok y \<Longrightarrow> ok z \<Longrightarrow> cmp x y \<le> 0 \<Longrightarrow> cmp y z \<le> 0 \<Longrightarrow> cmp x z \<le> 0"
  by (auto simp: le_iff)

lemma trans_less: "ok x \<Longrightarrow> ok y \<Longrightarrow> ok z \<Longrightarrow> cmp x y < 0 \<Longrightarrow> cmp y z \<le> 0 \<Longrightarrow> cmp x z < 0"
  by (auto simp: less_iff le_iff)

end

end
