(* ===== verification/Trx_Num.thy ===== *)
theory Trx_Num
  imports Sdb_Prelude
begin

text \<open>
  Transaction ids and transaction numbers (\<^verbatim>\<open>dbe/dbe0type.c\<close>, \<^verbatim>\<open>include/dbe0type.h\<close>): 32-bit
  counters that wrap, with a gap of reserved values below \<open>2 ^ 32\<close> and 0 as the null value, and
  the comparison that reads the sign of their difference. \<^verbatim>\<open>dbe_trxid_t\<close> and \<^verbatim>\<open>dbe_trxnum_t\<close> are
  \<^verbatim>\<open>ss_int4_t\<close> in the production build, so both are words here and read by \<open>sint\<close> where the code
  looks at a sign; the difference of two ids wraps as the compilers the program is built with do.
\<close>

section \<open>Constants\<close>

type_synonym dbe_trxid_t = u32
type_synonym dbe_trxnum_t = u32

definition DBE_CTR_MAXLIMIT :: u32 where
  "DBE_CTR_MAXLIMIT = 0xFFFFFFFF - 11000"

definition DBE_TYPE_GAP :: u32 where
  "DBE_TYPE_GAP = 1024 * 1024 * 1024 - 1024"

definition DBE_TRXNUM_NULL :: dbe_trxnum_t where "DBE_TRXNUM_NULL = 0"
definition DBE_TRXID_NULL :: dbe_trxid_t where "DBE_TRXID_NULL = 0"
definition DBE_TRXID_ILLEGAL :: dbe_trxid_t where "DBE_TRXID_ILLEGAL = - 1"

lemma maxlimit_uint [simp]: "uint DBE_CTR_MAXLIMIT = 4294956295"
  by (simp add: DBE_CTR_MAXLIMIT_def)

lemma gap_uint [simp]: "uint DBE_TYPE_GAP = 1073740800"
  by (simp add: DBE_TYPE_GAP_def)

section \<open>Operations\<close>

text \<open>The direction is the C \<^verbatim>\<open>int\<close> that was added; only its sign matters here.\<close>

definition dbe_type_skipgap :: "u32 \<Rightarrow> int \<Rightarrow> u32" where
  "dbe_type_skipgap curval direction =
    (if curval - 1 \<ge> DBE_CTR_MAXLIMIT - 1
     then (if direction < 0 then DBE_CTR_MAXLIMIT - 1 else 1)
     else curval)"

definition dbe_trxnum_sum :: "dbe_trxnum_t \<Rightarrow> int \<Rightarrow> dbe_trxnum_t" where
  "dbe_trxnum_sum trxnum n = dbe_type_skipgap (trxnum + word_of_int n) n"

definition dbe_trxid_sum :: "dbe_trxid_t \<Rightarrow> int \<Rightarrow> dbe_trxid_t" where
  "dbe_trxid_sum trxid n = dbe_type_skipgap (trxid + word_of_int n) n"

definition dbe_trxnum_cmp :: "dbe_trxnum_t \<Rightarrow> dbe_trxnum_t \<Rightarrow> int" where
  "dbe_trxnum_cmp trxnum1 trxnum2 =
    (let diff = trxnum1 - trxnum2 in
     if diff = 0 then 0
     else if trxnum1 = 0 then - 1
     else if trxnum2 = 0 then 1
     else if sint diff < 0 then - 1 else 1)"

definition dbe_trxid_cmp :: "dbe_trxid_t \<Rightarrow> dbe_trxid_t \<Rightarrow> int" where
  "dbe_trxid_cmp trxid1 trxid2 =
    (let diff = trxid1 - trxid2 in
     if diff = 0 then 0
     else if trxid1 = 0 then - 1
     else if trxid2 = 0 then 1
     else if sint diff < 0 then - 1 else 1)"

lemma trxid_cmp_eq_trxnum_cmp: "dbe_trxid_cmp = dbe_trxnum_cmp"
  by (intro ext) (simp add: dbe_trxid_cmp_def dbe_trxnum_cmp_def)

lemma trxid_sum_eq_trxnum_sum: "dbe_trxid_sum = dbe_trxnum_sum"
  by (intro ext) (simp add: dbe_trxid_sum_def dbe_trxnum_sum_def)

section \<open>The legal values\<close>

text \<open>A counter value is legal when it is neither null nor in the gap.\<close>

definition legal :: "u32 \<Rightarrow> bool" where
  "legal v \<longleftrightarrow> v \<noteq> 0 \<and> v < DBE_CTR_MAXLIMIT"

lemma legal_uint: "legal v \<longleftrightarrow> 0 < uint v \<and> uint v < 4294956295"
  by (auto simp: legal_def word_less_def word_uint_eq_iff order_less_le)

lemma skipgap_test: "curval - 1 \<ge> DBE_CTR_MAXLIMIT - 1 \<longleftrightarrow> \<not> legal curval"
proof -
  have "uint (DBE_CTR_MAXLIMIT - 1) = 4294956294"
    by (simp add: DBE_CTR_MAXLIMIT_def)
  moreover have "uint (curval - 1) = (if 1 \<le> uint curval then uint curval - 1 else uint curval + 4294967295)"
    by (simp add: uint_sub32)
  ultimately show ?thesis
    using u32_bounds [of curval] by (auto simp: word_le_def legal_uint)
qed

lemma skipgap_cases:
  "dbe_type_skipgap v n = (if legal v then v else if n < 0 then DBE_CTR_MAXLIMIT - 1 else 1)"
  by (simp add: dbe_type_skipgap_def skipgap_test)

lemma legal_skipgap [simp]: "legal (dbe_type_skipgap v n)"
  by (auto simp: skipgap_cases) (simp_all add: legal_def DBE_CTR_MAXLIMIT_def)

section \<open>The order of the values inside a half-range window\<close>

text \<open>
  \<open>in_window base v\<close>: \<open>v\<close> is not null and lies less than \<open>2 ^ 31\<close> after \<open>base\<close>, counting through
  the wrap. The position in the window is what the comparison compares.
\<close>

definition window_pos :: "u32 \<Rightarrow> u32 \<Rightarrow> int" where
  "window_pos base v = uint (v - base)"

definition in_window :: "u32 \<Rightarrow> u32 \<Rightarrow> bool" where
  "in_window base v \<longleftrightarrow> v \<noteq> 0 \<and> window_pos base v < 2147483648"

lemma window_diff:
  assumes "in_window base a" "in_window base b"
  shows "sint (a - b) = window_pos base a - window_pos base b"
proof -
  have "a - b = (a - base) - (b - base)"
    by simp
  then have "sint (a - b) = sint ((a - base) - (b - base))"
    by simp
  then show ?thesis
    using assms u32_bounds(1) [of "a - base"] u32_bounds(1) [of "b - base"]
      wrap32_small [of "uint (a - base) - uint (b - base)"]
    unfolding in_window_def window_pos_def sint_sub32 [of "a - base" "b - base"]
    by linarith
qed

interpretation trxnum_window: cmp_order dbe_trxnum_cmp "in_window base" "window_pos base" for base
proof
  fix a b
  assume ab: "in_window base a" "in_window base b"
  then have "a \<noteq> 0" "b \<noteq> 0"
    by (auto simp: in_window_def)
  moreover have "a = b \<longleftrightarrow> window_pos base a = window_pos base b"
    unfolding window_pos_def by (metis diff_add_cancel word_uint_eq_iff)
  ultimately show "sgn (dbe_trxnum_cmp a b) = three_way (window_pos base a) (window_pos base b)"
    using window_diff [OF ab] by (auto simp: dbe_trxnum_cmp_def three_way_def Let_def)
qed

lemma trxid_sum_greater_aux:
  assumes "legal v" "0 < n" "n < 2147472646"
  shows "legal (dbe_trxid_sum v n) \<and> dbe_trxid_cmp (dbe_trxid_sum v n) v = 1"
proof -
  have n: "uint (word_of_int n :: u32) = n"
    using assms by (simp add: uint_word_of_int)
  define s where "s = v + word_of_int n"
  have s: "uint s = (if uint v + n < 4294967296 then uint v + n else uint v + n - 4294967296)"
    unfolding s_def uint_add32 n ..
  have v: "0 < uint v" "uint v < 4294956295"
    using assms(1) by (auto simp: legal_uint)
  have r: "dbe_trxid_sum v n = (if legal s then s else 1)"
    using assms(2) by (simp add: dbe_trxid_sum_def skipgap_cases s_def)
  have "uint ((if legal s then s else 1) - v) = (if legal s then n else 4294967297 - uint v)"
    using s v assms(2,3) by (auto simp: uint_sub32 legal_uint)
  moreover have "4294967297 - uint v < 2147483648" if "\<not> legal s"
    using that s v assms(2,3) u32_bounds(1) [of s] unfolding legal_uint by (auto split: if_splits)
  ultimately have "0 < sint ((if legal s then s else 1) - v)"
    using assms v unfolding sint32 by auto
  moreover have "(if legal s then s else 1) \<noteq> (0::u32)" "v \<noteq> 0"
    using v by (auto simp: legal_uint)
  moreover have "legal (dbe_trxid_sum v n)"
    by (simp add: dbe_trxid_sum_def)
  ultimately show ?thesis
    by (auto simp: r dbe_trxid_cmp_def Let_def)
qed

text \<open>
  C31. Inside any window of \<open>2 ^ 31\<close> consecutive values, wherever the 32-bit wrap falls in it, the
  comparison of two transaction numbers is the order of their positions in the window: it returns
  -1, 0 and 1 exactly when the first comes before, is, or comes after the second.
\<close>

theorem trxnum_cmp_window:
  assumes "in_window base a" "in_window base b"
  shows "dbe_trxnum_cmp a b = three_way (window_pos base a) (window_pos base b)"
proof -
  have "dbe_trxnum_cmp a b = sgn (dbe_trxnum_cmp a b)"
    by (simp add: dbe_trxnum_cmp_def Let_def)
  then show ?thesis
    using trxnum_window.cmp_val [OF assms] by simp
qed

lemma trxnum_cmp_window_witness:
  "dbe_trxnum_cmp 0xFFFFFFFE 5 = - 1"
  using trxnum_cmp_window [of "0xFFFFFFF0" "0xFFFFFFFE" 5]
  by (simp add: in_window_def window_pos_def three_way_def)

text \<open>
  The comparison is antisymmetric on all values but the pairs exactly \<open>2 ^ 31\<close> apart, and the
  null value compares below every other.
\<close>

theorem trxid_cmp_antisym:
  assumes "a - b \<noteq> 0x80000000"
  shows "dbe_trxid_cmp b a = - dbe_trxid_cmp a b \<and> (a \<noteq> 0 \<longrightarrow> dbe_trxid_cmp DBE_TRXID_NULL a = - 1)"
proof -
  have "uint (a - b) \<noteq> 2147483648"
    using assms by (simp add: word_uint_eq_iff)
  then have "uint a - uint b \<noteq> 2147483648" "uint a - uint b \<noteq> - 2147483648"
    unfolding uint_sub32 by (auto split: if_splits)
  then have "sint (b - a) = - sint (a - b)"
    using u32_bounds [of a] u32_bounds [of b] wrap32_swap [of "uint a - uint b"]
    unfolding sint_sub32 minus_diff_eq by linarith
  moreover have "a \<noteq> b \<Longrightarrow> sint (a - b) \<noteq> 0"
    by (metis eq_iff_diff_eq_0 signed_0 signed_word_eqI)
  ultimately show ?thesis
    by (auto simp: dbe_trxid_cmp_def DBE_TRXID_NULL_def Let_def)
qed

lemma trxid_cmp_antisym_witness:
  "dbe_trxid_cmp 7 0xFFFFFF00 = - dbe_trxid_cmp 0xFFFFFF00 7 \<and>
    dbe_trxid_cmp DBE_TRXID_NULL 0xFFFFFF00 = - 1"
  using trxid_cmp_antisym [of "0xFFFFFF00" 7] by simp

text \<open>
  Adding a positive amount below \<open>2 ^ 31 - 11002\<close> to a legal id gives a legal id that compares
  greater, also when the sum runs into the gap or past the wrap and is moved to the other side.
\<close>

theorem trxid_sum_greater:
  assumes "legal v" "0 < n" "n < 2147472646"
  shows "legal (dbe_trxid_sum v n) \<and> dbe_trxid_cmp (dbe_trxid_sum v n) v = 1"
  using assms by (rule trxid_sum_greater_aux)

lemma trxid_sum_greater_witness:
  "legal (dbe_trxid_sum (DBE_CTR_MAXLIMIT - 1) 1) \<and>
    dbe_trxid_cmp (dbe_trxid_sum (DBE_CTR_MAXLIMIT - 1) 1) (DBE_CTR_MAXLIMIT - 1) = 1"
  by (rule trxid_sum_greater) (simp_all add: legal_uint DBE_CTR_MAXLIMIT_def)

end
