(* ===== verification/Ss_Limits.thy ===== *)
theory Ss_Limits
  imports Sdb_Prelude
begin

text \<open>
  The byte-order macros of \<^verbatim>\<open>include/sslimits.h\<close>: a 16 or 32-bit integer written to and read
  from a byte buffer, least significant byte first for the disk format and most significant byte
  first for the formats that compare as bytes. A store to \<^verbatim>\<open>p\<close> is the list of the bytes it
  writes; a load reads the first bytes of the list at \<^verbatim>\<open>p\<close>. Reading past the end of the list
  has no counterpart in the code (the callers own the buffer) and gives 0.
\<close>

section \<open>Stores\<close>

definition SS_UINT2_STORETODISK :: "u16 \<Rightarrow> u8 list" where
  "SS_UINT2_STORETODISK v = [ucast v, ucast (drop_bit 8 v)]"

definition SS_UINT4_STORETODISK :: "u32 \<Rightarrow> u8 list" where
  "SS_UINT4_STORETODISK v =
    [ucast v, ucast (drop_bit 8 v), ucast (drop_bit 16 v), ucast (drop_bit 24 v)]"

definition SS_UINT4_STORE_MSB1ST :: "u32 \<Rightarrow> u8 list" where
  "SS_UINT4_STORE_MSB1ST v =
    [ucast (drop_bit 24 v), ucast (drop_bit 16 v), ucast (drop_bit 8 v), ucast v]"

definition SS_CHAR2_STORE :: "u16 \<Rightarrow> u8 list" where
  "SS_CHAR2_STORE v = [ucast (drop_bit 8 v), ucast v]"

section \<open>Loads\<close>

fun SS_CHAR2_LOAD :: "u8 list \<Rightarrow> u16" where
  "SS_CHAR2_LOAD (b0 # b1 # _) = push_bit 8 (ucast b0) OR ucast b1"
| "SS_CHAR2_LOAD _ = 0"

fun SS_UINT2_LOADFROMDISK :: "u8 list \<Rightarrow> u16" where
  "SS_UINT2_LOADFROMDISK (b0 # b1 # _) = ucast b0 OR push_bit 8 (ucast b1)"
| "SS_UINT2_LOADFROMDISK _ = 0"

fun SS_UINT4_LOADFROMDISK :: "u8 list \<Rightarrow> u32" where
  "SS_UINT4_LOADFROMDISK (b0 # b1 # b2 # b3 # _) =
    ucast b0 OR push_bit 8 (ucast b1) OR push_bit 16 (ucast b2) OR push_bit 24 (ucast b3)"
| "SS_UINT4_LOADFROMDISK _ = 0"

fun SS_UINT4_LOAD_MSB1ST :: "u8 list \<Rightarrow> u32" where
  "SS_UINT4_LOAD_MSB1ST (b0 # b1 # b2 # b3 # _) =
    push_bit 24 (ucast b0) OR push_bit 16 (ucast b1) OR push_bit 8 (ucast b2) OR ucast b3"
| "SS_UINT4_LOAD_MSB1ST _ = 0"

section \<open>Buffers\<close>

text \<open>
  \<open>buf_write at bs buf\<close> is the buffer after the bytes \<open>bs\<close> were stored at offset \<open>at\<close>
  (\<^verbatim>\<open>memcpy\<close>); \<open>buf_move\<close> is \<^verbatim>\<open>memmove\<close> inside one buffer.
\<close>

definition buf_write :: "nat \<Rightarrow> 'a list \<Rightarrow> 'a list \<Rightarrow> 'a list" where
  "buf_write at bs buf = take at buf @ bs @ drop (at + length bs) buf"

definition buf_move :: "nat \<Rightarrow> nat \<Rightarrow> nat \<Rightarrow> 'a list \<Rightarrow> 'a list" where
  "buf_move dst src n buf = buf_write dst (take n (drop src buf)) buf"

lemma buf_write_0 [simp]: "buf_write 0 bs buf = bs @ drop (length bs) buf"
  by (simp add: buf_write_def)

lemma buf_write_append:
  "at = length xs \<Longrightarrow> buf_write at bs (xs @ ys) = xs @ bs @ drop (length bs) ys"
  by (simp add: buf_write_def)

lemma buf_write_append_Cons:
  "at = Suc (length xs) \<Longrightarrow> buf_write at bs (x # xs @ ys) = x # xs @ bs @ drop (length bs) ys"
  by (simp add: buf_write_def)

lemma buf_write_length [simp]:
  "at + length bs \<le> length buf \<Longrightarrow> length (buf_write at bs buf) = length buf"
  by (simp add: buf_write_def)

section \<open>Round trips\<close>

lemma bytes32:
  "(ucast (ucast v :: u8) :: u32) OR push_bit 8 (ucast (ucast (drop_bit 8 v) :: u8)) OR
    push_bit 16 (ucast (ucast (drop_bit 16 v) :: u8)) OR
    push_bit 24 (ucast (ucast (drop_bit 24 v) :: u8)) = v"
  (is "?l = v")
proof (rule bit_word_eqI)
  fix n
  assume n: "n < LENGTH(32)"
  then consider "n < 8" | "8 \<le> n \<and> n < 16" | "16 \<le> n \<and> n < 24" | "24 \<le> n \<and> n < 32"
    by force
  then show "bit ?l n = bit v n"
    by cases (auto simp: bit_simps)
qed

lemma bytes16:
  "(ucast (ucast v :: u8) :: u16) OR push_bit 8 (ucast (ucast (drop_bit 8 v) :: u8)) = v"
  (is "?l = v")
proof (rule bit_word_eqI)
  fix n
  assume n: "n < LENGTH(16)"
  then consider "n < 8" | "8 \<le> n \<and> n < 16"
    by force
  then show "bit ?l n = bit v n"
    by cases (auto simp: bit_simps)
qed

lemma load_store2 [simp]: "SS_UINT2_LOADFROMDISK (SS_UINT2_STORETODISK v @ r) = v"
  by (simp add: SS_UINT2_STORETODISK_def bytes16)

lemma load_store_char2 [simp]: "SS_CHAR2_LOAD (SS_CHAR2_STORE v @ r) = v"
  using bytes16 [of v] by (simp add: SS_CHAR2_STORE_def or.commute)

lemma store_char2_length [simp]: "length (SS_CHAR2_STORE v) = 2"
  by (simp add: SS_CHAR2_STORE_def)

lemma load_store4 [simp]: "SS_UINT4_LOADFROMDISK (SS_UINT4_STORETODISK v @ r) = v"
  by (simp add: SS_UINT4_STORETODISK_def bytes32)

lemma load_store4_end [simp]: "SS_UINT4_LOADFROMDISK (SS_UINT4_STORETODISK v) = v"
  using load_store4 [of v "[]"] by simp

lemma load_store4_msb1st [simp]: "SS_UINT4_LOAD_MSB1ST (SS_UINT4_STORE_MSB1ST v @ r) = v"
  using bytes32 [of v] by (simp add: SS_UINT4_STORE_MSB1ST_def or.commute or.left_commute)

lemma store2_length [simp]: "length (SS_UINT2_STORETODISK v) = 2"
  by (simp add: SS_UINT2_STORETODISK_def)

lemma store4_length [simp]: "length (SS_UINT4_STORETODISK v) = 4"
  by (simp add: SS_UINT4_STORETODISK_def)

lemma store4_msb1st_length [simp]: "length (SS_UINT4_STORE_MSB1ST v) = 4"
  by (simp add: SS_UINT4_STORE_MSB1ST_def)

lemma drop_store4 [simp]: "drop 4 (SS_UINT4_STORETODISK v @ r) = r"
  by simp

section \<open>The value of the stored bytes\<close>

lemma uint_drop32: "uint (drop_bit n (v :: u32)) = uint v div 2 ^ n"
proof -
  have "uint (drop_bit n v) = int (drop_bit n (unat v))"
    by (simp only: uint_nat unat_drop_bit_eq)
  then show ?thesis
    by (simp add: drop_bit_eq_div zdiv_int)
qed

lemma uint_byte_drop: "uint (ucast (drop_bit n (v :: u32)) :: u8) = uint v div 2 ^ n mod 256"
  by (simp only: unsigned_ucast_eq uint_drop32) (simp add: take_bit_eq_mod)

lemma uint_byte_0: "uint (ucast (v :: u32) :: u8) = uint v mod 256"
  by (simp add: unsigned_ucast_eq take_bit_eq_mod)

lemma be_val_store4_msb1st: "be_val (SS_UINT4_STORE_MSB1ST v) = uint v"
proof -
  define x where "x = uint v"
  have x: "0 \<le> x" "x < 4294967296"
    using u32_bounds [of v] by (simp_all add: x_def)
  have q: "x div 65536 = x div 256 div 256" "x div 16777216 = x div 256 div 256 div 256"
    by (simp_all add: zdiv_zmult2_eq [symmetric])
  have "x div 256 div 256 div 256 < 256"
    using x by (simp add: zdiv_zmult2_eq [symmetric])
  moreover have "0 \<le> x div 256 div 256 div 256"
    using x by (simp add: pos_imp_zdiv_nonneg_iff)
  ultimately have "x div 256 div 256 div 256 mod 256 = x div 256 div 256 div 256"
    by simp
  then have "x div 16777216 mod 256 * 16777216 + x div 65536 mod 256 * 65536 +
      x div 256 mod 256 * 256 + x mod 256 = x"
    using mult_div_mod_eq [of 256 x] mult_div_mod_eq [of 256 "x div 256"]
      mult_div_mod_eq [of 256 "x div 256 div 256"] unfolding q by linarith
  moreover have "be_val (SS_UINT4_STORE_MSB1ST v) = x div 16777216 mod 256 * 16777216 +
      (x div 65536 mod 256 * 65536 + (x div 256 mod 256 * 256 + x mod 256))"
    unfolding SS_UINT4_STORE_MSB1ST_def be_val.simps uint_byte_0 uint_drop32 x_def list.size
    by simp
  ultimately show ?thesis
    by (simp only: x_def add.assoc)
qed

end
