(* ===== verification/Va_Base.thy ===== *)
theory Va_Base
  imports Ss_Limits "HOL-Library.List_Lexorder"
begin

text \<open>
  v-attributes (\<^verbatim>\<open>uti/uti0vab.c\<close>, \<^verbatim>\<open>include/uti0va.h\<close>): a value of the database as a byte
  string with its length in front, one byte below 254 and otherwise the byte 254 and four length
  bytes. A v-attribute is the list of the bytes from its address on, so a store writes into the
  buffer it is given and a load reads a prefix; the lengths are \<^verbatim>\<open>va_index_t\<close>, 32-bit words.
  \<^verbatim>\<open>va_compare\<close> of \<^verbatim>\<open>uti/uti0vcmp.c\<close> and \<^verbatim>\<open>SsMemcmp\<close> of \<^verbatim>\<open>ss/ssmemcmp.c\<close> are here too.
\<close>

section \<open>Length fields\<close>

definition VA_LONGVALIMIT :: u8 where "VA_LONGVALIMIT = 0xFE"
definition VA_BLOBVABYTE :: u8 where "VA_BLOBVABYTE = 0xFF"
definition VA_MAXINDEX :: u32 where "VA_MAXINDEX = - 5"

definition BYTE_LEN_TEST :: "u32 \<Rightarrow> bool" where
  "BYTE_LEN_TEST first_byte = (first_byte < ucast VA_LONGVALIMIT)"

text \<open>\<^verbatim>\<open>va->c[0]\<close>, widened as the code's comparisons and additions do.\<close>

definition va_c0 :: "u8 list \<Rightarrow> u32" where
  "va_c0 va = ucast (va ! 0)"

definition FOUR_BYTE_LEN :: "u8 list \<Rightarrow> u32" where
  "FOUR_BYTE_LEN va = SS_UINT4_LOADFROMDISK (drop 1 va)"

definition SET_FOUR_BYTE_LEN :: "u8 list \<Rightarrow> u32 \<Rightarrow> u8 list" where
  "SET_FOUR_BYTE_LEN va datalen =
    buf_write 1 (SS_UINT4_STORETODISK datalen) (buf_write 0 [VA_LONGVALIMIT] va)"

definition va_netlen :: "u8 list \<Rightarrow> u32" where
  "va_netlen va = (if BYTE_LEN_TEST (va_c0 va) then va_c0 va else FOUR_BYTE_LEN va)"

definition va_netlen_long :: "u8 list \<Rightarrow> u32" where
  "va_netlen_long va = (if BYTE_LEN_TEST (va_c0 va) then va_c0 va else FOUR_BYTE_LEN va)"

definition va_grosslen :: "u8 list \<Rightarrow> u32" where
  "va_grosslen va = (if BYTE_LEN_TEST (va_c0 va) then va_c0 va + 1 else FOUR_BYTE_LEN va + 5)"

definition va_grosslen_long :: "u8 list \<Rightarrow> u32" where
  "va_grosslen_long va = (if BYTE_LEN_TEST (va_c0 va) then va_c0 va + 1 else FOUR_BYTE_LEN va + 5)"

definition va_lenlen :: "u8 list \<Rightarrow> nat" where
  "va_lenlen va = (if BYTE_LEN_TEST (va_c0 va) then 1 else 5)"

text \<open>\<^verbatim>\<open>VA_GETDATA\<close>: the address of the data as the bytes from there on, and the length.\<close>

definition va_getdata :: "u8 list \<Rightarrow> u8 list \<times> u32" where
  "va_getdata va =
    (if BYTE_LEN_TEST (va_c0 va) then (drop 1 va, va_c0 va) else (drop 5 va, FOUR_BYTE_LEN va))"

definition va_getasciiz :: "u8 list \<Rightarrow> u8 list" where
  "va_getasciiz va = (if BYTE_LEN_TEST (va_c0 va) then drop 1 va else drop 5 va)"

section \<open>Stores\<close>

definition va_setva :: "u8 list \<Rightarrow> u8 list \<Rightarrow> u8 list" where
  "va_setva target_va source_va =
    buf_write 0 (take (unat (va_grosslen source_va)) source_va) target_va"

definition va_setdata :: "u8 list \<Rightarrow> u8 list option \<Rightarrow> u32 \<Rightarrow> u8 list" where
  "va_setdata target_va p_data datalen =
    (let (va, p_va) =
       (if BYTE_LEN_TEST datalen then (buf_write 0 [ucast datalen] target_va, 1)
        else (SET_FOUR_BYTE_LEN target_va datalen, 5))
     in case p_data of None \<Rightarrow> va | Some d \<Rightarrow> buf_write p_va (take (unat datalen) d) va)"

definition strlen :: "u8 list \<Rightarrow> nat" where
  "strlen s = length (takeWhile (\<lambda>c. c \<noteq> 0) s)"

definition va_setasciiz :: "u8 list \<Rightarrow> u8 list \<Rightarrow> u8 list" where
  "va_setasciiz target_va val = va_setdata target_va (Some val) (word_of_nat (strlen val + 1))"

text \<open>The loops that store characters two bytes each, and the final zero byte.\<close>

fun store_char2_loop :: "nat \<Rightarrow> u16 list \<Rightarrow> u8 list \<Rightarrow> u8 list" where
  "store_char2_loop p [] va = buf_write p [0] va"
| "store_char2_loop p (c # cs) va = store_char2_loop (p + 2) cs (buf_write p (SS_CHAR2_STORE c) va)"

definition va_setdatachar1to2 :: "u8 list \<Rightarrow> u8 list \<Rightarrow> u8 list" where
  "va_setdatachar1to2 target_va val =
    (let p_va = va_setdata target_va None (word_of_nat (length val * 2 + 1))
     in store_char2_loop (va_lenlen p_va) (map ucast val) p_va)"

definition va_setdatachar2 :: "u8 list \<Rightarrow> u16 list \<Rightarrow> u8 list" where
  "va_setdatachar2 target_va val =
    (let p_va = va_setdata target_va None (word_of_nat (length val * 2 + 1))
     in store_char2_loop (va_lenlen p_va) val p_va)"

text \<open>
  The narrowing loops. A character above 255 is replaced by the default character (a global of
  \<^verbatim>\<open>ss/sswcs.c\<close>, an argument here) and the result says so.
\<close>

fun char2to1_loop :: "u8 \<Rightarrow> u16 list \<Rightarrow> bool \<Rightarrow> u8 list \<Rightarrow> bool \<times> u8 list" where
  "char2to1_loop defchar [] succp out = (succp, out)"
| "char2to1_loop defchar (c # cs) succp out =
    (if c AND 0xFF00 \<noteq> 0 then char2to1_loop defchar cs False (out @ [defchar])
     else char2to1_loop defchar cs succp (out @ [ucast c]))"

definition SsWbuf2Str :: "u8 \<Rightarrow> u16 list \<Rightarrow> bool \<times> u8 list" where
  "SsWbuf2Str defchar s = char2to1_loop defchar s True []"

fun load_char2s :: "nat \<Rightarrow> u8 list \<Rightarrow> u16 list" where
  "load_char2s 0 p = []"
| "load_char2s (Suc n) p = SS_CHAR2_LOAD p # load_char2s n (drop 2 p)"

definition va_setvadatachar2to1 :: "u8 \<Rightarrow> u8 list \<Rightarrow> u8 list \<Rightarrow> nat \<Rightarrow> bool \<times> u8 list" where
  "va_setvadatachar2to1 defchar target_va p_data2 n =
    (let p_va = va_setdata target_va None (word_of_nat (n + 1));
         (succp, out) = char2to1_loop defchar (load_char2s n p_data2) True []
     in (succp, buf_write (va_lenlen p_va) (out @ [0]) p_va))"

definition va_setdatachar2to1 :: "u8 \<Rightarrow> u8 list \<Rightarrow> u16 list \<Rightarrow> bool \<times> u8 list" where
  "va_setdatachar2to1 defchar target_va val =
    (let p_va = va_setdata target_va None (word_of_nat (length val + 1));
         (succp, out) = SsWbuf2Str defchar val
     in (succp, buf_write (va_lenlen p_va + length val) [0] (buf_write (va_lenlen p_va) out p_va)))"

definition va_setdataandnull :: "u8 list \<Rightarrow> u8 list option \<Rightarrow> u32 \<Rightarrow> u8 list" where
  "va_setdataandnull target_va p_data datalen =
    (let resultdatalen = datalen + 1;
         (va, p_vadata) =
           (if BYTE_LEN_TEST resultdatalen
            then (buf_write 0 [ucast resultdatalen] target_va, 1)
            else (SET_FOUR_BYTE_LEN target_va resultdatalen, 5));
         va = (case p_data of None \<Rightarrow> va | Some d \<Rightarrow> buf_write p_vadata (take (unat datalen) d) va)
     in buf_write (p_vadata + unat datalen) [0] va)"

definition va_setblobdata ::
  "u8 list \<Rightarrow> u8 list option \<Rightarrow> u32 \<Rightarrow> u8 list option \<Rightarrow> u32 \<Rightarrow> u8 list" where
  "va_setblobdata target_va p_data datalen p_blobref blobreflen =
    (let va = SET_FOUR_BYTE_LEN target_va (datalen + blobreflen);
         va = buf_write 0 [VA_BLOBVABYTE] va;
         va = (case p_data of None \<Rightarrow> va | Some d \<Rightarrow> buf_write 5 (take (unat datalen) d) va)
     in (case p_blobref of None \<Rightarrow> va
         | Some r \<Rightarrow> buf_write (5 + unat datalen) (take (unat blobreflen) r) va))"

section \<open>Appending\<close>

definition VA_SET_LEN_ONLY :: "u8 list \<Rightarrow> u32 \<Rightarrow> u8 list" where
  "VA_SET_LEN_ONLY va len =
    (if BYTE_LEN_TEST len then buf_write 0 [ucast len] va else SET_FOUR_BYTE_LEN va len)"

definition va_appdata_ex :: "u8 list \<Rightarrow> u8 list \<Rightarrow> u32 \<Rightarrow> u8 list" where
  "va_appdata_ex target_va p_data datalen =
    (let (len_target, data_target) =
       (if BYTE_LEN_TEST (va_c0 target_va) then (va_c0 target_va, 1)
        else (FOUR_BYTE_LEN target_va, 5));
         new_len = len_target + datalen;
         (va, data_target) =
           (if BYTE_LEN_TEST len_target \<and> \<not> BYTE_LEN_TEST new_len
            then (buf_move (data_target + 4) data_target (unat len_target) target_va, data_target + 4)
            else (target_va, data_target));
         va = buf_write (data_target + unat len_target) (take (unat datalen) p_data) va
     in VA_SET_LEN_ONLY va new_len)"

definition va_appva :: "u8 list \<Rightarrow> u8 list \<Rightarrow> u8 list" where
  "va_appva target_va source_va =
    (let (source_data, source_len) = va_getdata source_va
     in va_appdata_ex target_va source_data source_len)"

text \<open>
  \<^verbatim>\<open>va_appdataarea_ex\<close> leaves the new data area for its caller to fill: the result is the buffer
  and the offset of the area, or \<open>None\<close> where its assertion stops the program.
\<close>

definition va_appdataarea_ex :: "u8 list \<Rightarrow> u32 \<Rightarrow> (u8 list \<times> nat) option" where
  "va_appdataarea_ex target_va datalen =
    (let len_target = (if BYTE_LEN_TEST (va_c0 target_va) then va_c0 target_va
                       else FOUR_BYTE_LEN target_va)
     in if \<not> len_target < VA_MAXINDEX - datalen then None
        else let new_len = len_target + datalen in
          if BYTE_LEN_TEST new_len
          then Some (buf_write 0 [ucast new_len] target_va, 1 + unat len_target)
          else let va = (if BYTE_LEN_TEST len_target
                         then buf_move 5 1 (unat len_target) target_va else target_va)
               in Some (SET_FOUR_BYTE_LEN va new_len, 5 + unat len_target))"

section \<open>Lengths written behind the data\<close>

text \<open>\<open>va_invnetlen buf p\<close> reads the length whose last byte is at offset \<open>p\<close> of the buffer.\<close>

definition va_invnetlen :: "u8 list \<Rightarrow> nat \<Rightarrow> u32" where
  "va_invnetlen buf p =
    (let last_byte = (ucast (buf ! p) :: u32)
     in if BYTE_LEN_TEST last_byte then last_byte else FOUR_BYTE_LEN (drop (p - 5) buf))"

definition va_appinvlen :: "u8 list \<Rightarrow> u8 list" where
  "va_appinvlen va =
    (let p = unat (va_grosslen va)
     in if \<not> BYTE_LEN_TEST (va_c0 va)
        then buf_write (p + 4) [va ! 0] (buf_write p (take 4 (drop 1 va)) va)
        else buf_write p [va ! 0] va)"

definition va_patchinvlen :: "u8 list \<Rightarrow> u8 list \<Rightarrow> u8 list" where
  "va_patchinvlen target_buf va =
    (if \<not> BYTE_LEN_TEST (va_c0 va)
     then buf_write 4 [va ! 0] (buf_write 0 (take 4 (drop 1 va)) target_buf)
     else buf_write 0 [va ! 0] target_buf)"

section \<open>Copying characters out\<close>

text \<open>The result is what is written to the caller's buffer and \<^verbatim>\<open>*n_copied\<close>.\<close>

definition va_copydatachar2 :: "u8 list \<Rightarrow> nat \<Rightarrow> nat \<Rightarrow> u16 list \<times> nat" where
  "va_copydatachar2 p_va start n =
    (let (p, len) = va_getdata p_va; datalen = unat len div 2
     in if start \<ge> datalen then ([], 0)
        else let p = drop (2 * start) p;
                 datalen = (if datalen > start then datalen - start else 0);
                 (datalen, n) = (if datalen > n then (n, n) else (datalen, datalen))
             in (load_char2s datalen p, n))"

text \<open>The loop stops at the first character that does not fit a byte.\<close>

fun copychar2to1_loop :: "nat \<Rightarrow> u8 list \<Rightarrow> nat \<Rightarrow> u8 list \<Rightarrow> bool \<times> u8 list \<times> nat" where
  "copychar2to1_loop n p 0 buf = (True, buf, n)"
| "copychar2to1_loop n p (Suc datalen) buf =
    (let c = SS_CHAR2_LOAD p
     in if c > 0xFF then (False, buf, n - Suc datalen)
        else copychar2to1_loop n (drop 2 p) datalen (buf @ [ucast c]))"

definition va_copydatachar2to1 :: "u8 list \<Rightarrow> nat \<Rightarrow> nat \<Rightarrow> bool \<times> u8 list \<times> nat" where
  "va_copydatachar2to1 p_va start n =
    (let (p, len) = va_getdata p_va; datalen = unat len div 2
     in if start \<ge> datalen then (True, [], 0)
        else let p = drop (2 * start) p;
                 datalen = (if datalen > start then datalen - start else 0);
                 (datalen, n) = (if datalen > n then (n, n) else (datalen, datalen))
             in copychar2to1_loop n p datalen [])"

section \<open>Comparison\<close>

primrec SsMemcmp :: "u8 list \<Rightarrow> u8 list \<Rightarrow> nat \<Rightarrow> int" where
  "SsMemcmp p1 p2 0 = 0"
| "SsMemcmp p1 p2 (Suc n) =
    (let diff = uint (hd p1) - uint (hd p2)
     in if diff \<noteq> 0 then diff else SsMemcmp (tl p1) (tl p2) n)"

text \<open>\<^verbatim>\<open>len1 - len2\<close> is a difference of unsigned words, returned as an \<^verbatim>\<open>int\<close>.\<close>

definition va_compare :: "u8 list \<Rightarrow> u8 list \<Rightarrow> int" where
  "va_compare va1 va2 =
    (let (data1, len1) = va_getdata va1; (data2, len2) = va_getdata va2;
         comp_res = SsMemcmp data1 data2 (unat (min len1 len2))
     in if comp_res = 0 then sint (len1 - len2) else comp_res)"

section \<open>The encoding\<close>

text \<open>
  What a v-attribute is: the length field and the data. \<open>va_fits\<close> is the size the four-byte length
  can express together with its own field.
\<close>

definition va_lenfield :: "nat \<Rightarrow> u8 list" where
  "va_lenfield n =
    (if n < 254 then [word_of_nat n] else VA_LONGVALIMIT # SS_UINT4_STORETODISK (word_of_nat n))"

definition va_encode :: "u8 list \<Rightarrow> u8 list" where
  "va_encode d = va_lenfield (length d) @ d"

definition va_fits :: "'a list \<Rightarrow> bool" where
  "va_fits d \<longleftrightarrow> length d < 4294967291"

lemma unat_word_of_nat32: "n < 4294967296 \<Longrightarrow> unat (word_of_nat n :: u32) = n"
  by (simp add: unat_of_nat)

lemma byte_len_test_of_nat [simp]:
  "n < 4294967296 \<Longrightarrow> BYTE_LEN_TEST (word_of_nat n) \<longleftrightarrow> n < 254"
  by (simp add: BYTE_LEN_TEST_def VA_LONGVALIMIT_def word_less_nat_alt unat_of_nat)

lemma byte_len_test_limit [simp]: "\<not> BYTE_LEN_TEST 254"
  by (simp add: BYTE_LEN_TEST_def VA_LONGVALIMIT_def)

lemma ucast_of_nat_small [simp]: "n < 256 \<Longrightarrow> (ucast (word_of_nat n :: u8) :: u32) = word_of_nat n"
  by (simp add: unsigned_of_nat take_bit_nat_eq_self)

lemma ucast_u32_of_nat [simp]: "(ucast (word_of_nat n :: u32) :: u8) = word_of_nat n"
  by (rule bit_word_eqI) (auto simp: bit_simps)

lemma lenfield_length: "length (va_lenfield n) = (if n < 254 then 1 else 5)"
  by (simp add: va_lenfield_def)

lemma c0_lenfield: "va_c0 (va_lenfield n @ r) = (if n < 254 then word_of_nat n else 254)"
  by (simp add: va_c0_def va_lenfield_def VA_LONGVALIMIT_def)

lemma four_byte_lenfield: "\<not> n < 254 \<Longrightarrow> FOUR_BYTE_LEN (va_lenfield n @ r) = word_of_nat n"
  by (simp add: FOUR_BYTE_LEN_def va_lenfield_def)

lemmas lenfield_simps = lenfield_length c0_lenfield four_byte_lenfield

lemma encode_length: "length (va_encode d) = length d + (if length d < 254 then 1 else 5)"
  by (simp add: va_encode_def lenfield_length)

lemma netlen_encode [simp]:
  "va_fits d \<Longrightarrow> va_netlen (va_encode d @ r) = word_of_nat (length d)"
  by (simp add: va_netlen_def va_encode_def lenfield_simps va_fits_def)

lemma grosslen_encode:
  "va_fits d \<Longrightarrow> va_grosslen (va_encode d @ r) = word_of_nat (length (va_encode d))"
  by (simp add: va_grosslen_def va_encode_def lenfield_simps va_fits_def)

lemma unat_grosslen_encode [simp]:
  assumes "va_fits d"
  shows "unat (va_grosslen (va_encode d @ r)) = length (va_encode d)"
  unfolding grosslen_encode [OF assms]
  by (rule unat_word_of_nat32) (use assms in \<open>simp add: encode_length va_fits_def\<close>)

lemma lenlen_encode [simp]:
  "va_fits d \<Longrightarrow> va_lenlen (va_encode d @ r) = (if length d < 254 then 1 else 5)"
  by (simp add: va_lenlen_def va_encode_def lenfield_simps va_fits_def)

lemma getdata_encode [simp]:
  "va_fits d \<Longrightarrow> va_getdata (va_encode d @ r) = (d @ r, word_of_nat (length d))"
  by (simp add: va_getdata_def va_encode_def lenfield_simps va_fits_def)

lemma set_len_only:
  assumes "n < 4294967296"
  shows "VA_SET_LEN_ONLY va (word_of_nat n) = va_lenfield n @ drop (length (va_lenfield n)) va"
  using assms
  by (auto simp: VA_SET_LEN_ONLY_def SET_FOUR_BYTE_LEN_def va_lenfield_def buf_write_def
      SS_UINT4_STORETODISK_def)

lemma drop_5_plus: "drop (5 + n) (x0 # x1 # x2 # x3 # x4 # xs) = drop n xs"
  by (simp add: numeral_eq_Suc)

lemma drop_1_5: "drop (5 + n) (x0 # xs) = drop (4 + n) xs"
  by (simp add: numeral_eq_Suc)

lemma setdata_encode:
  assumes "va_fits d"
  shows "va_setdata target (Some (d @ r)) (word_of_nat (length d)) =
    va_encode d @ drop (length (va_encode d)) target"
  using assms
  by (auto simp: va_setdata_def SET_FOUR_BYTE_LEN_def va_encode_def va_lenfield_def buf_write_def
      va_fits_def unat_word_of_nat32 SS_UINT4_STORETODISK_def drop_5_plus)

lemma encode_append: "va_encode (a @ b) @ r = va_lenfield (length (a @ b)) @ a @ b @ r"
  by (simp add: va_encode_def)

text \<open>
  Appending at the end of a v-attribute. The buffer holds the encoded data \<open>a\<close> and at least as many
  bytes more as are appended, and four for the length field that may have to grow.
\<close>

lemma appdata_encode:
  assumes "length a + length b < 4294967291" "length b + 4 \<le> length pad"
  shows "va_appdata_ex (va_encode a @ pad) (b @ r) (word_of_nat (length b)) =
    va_encode (a @ b) @
      drop (length (va_lenfield (length (a @ b))) - length (va_lenfield (length a)) + length b) pad"
proof -
  let ?n = "length a + length b"
  have n: "(word_of_nat (length a) + word_of_nat (length b) :: u32) = word_of_nat ?n"
    by simp
  consider "?n < 254" | "length a < 254" "\<not> ?n < 254" | "\<not> length a < 254"
    by linarith
  then show ?thesis
  proof cases
    case 1
    then show ?thesis
      using assms
      by (simp add: va_appdata_ex_def va_encode_def c0_lenfield n set_len_only unat_word_of_nat32
          del: of_nat_add)
         (simp add: va_lenfield_def buf_write_def)
  next
    case 2
    let ?h = "take 5 (word_of_nat (length a) # a @ pad)"
    have h: "length ?h = 5"
      using assms by simp
    have "buf_move 5 1 (length a) (word_of_nat (length a) # a @ pad) = ?h @ a @ drop 4 pad"
      using 2 assms by (simp add: buf_move_def buf_write_def drop_1_5)
    moreover have "buf_write (5 + length a) b (?h @ a @ drop 4 pad) =
        ?h @ a @ b @ drop (length b + 4) pad"
      using buf_write_append [of "5 + length a" "?h @ a" b "drop 4 pad"] h
      by (simp add: drop_drop add.commute)
    ultimately show ?thesis
      using 2 assms h
      by (simp add: va_appdata_ex_def va_encode_def c0_lenfield n set_len_only unat_word_of_nat32
          lenfield_length add.commute del: of_nat_add)
         (simp add: va_lenfield_def)
  next
    case 3
    then have "buf_write (5 + length a) b (va_lenfield (length a) @ a @ pad) =
        va_lenfield (length a) @ a @ b @ drop (length b) pad"
      using buf_write_append [of "5 + length a" "va_lenfield (length a) @ a" b pad]
      by (simp add: lenfield_length)
    then show ?thesis
      using 3 assms
      by (simp add: va_appdata_ex_def va_encode_def c0_lenfield four_byte_lenfield n set_len_only
          unat_word_of_nat32 lenfield_length del: of_nat_add)
  qed
qed

lemma appinvlen_encode:
  assumes "va_fits d" "5 \<le> length pad"
  shows "va_appinvlen (va_encode d @ pad) =
    va_encode d @ (if length d < 254 then [word_of_nat (length d)]
      else SS_UINT4_STORETODISK (word_of_nat (length d)) @ [VA_LONGVALIMIT]) @
      drop (if length d < 254 then 1 else 5) pad"
proof (cases "length d < 254")
  case True
  have g: "unat (va_grosslen (va_encode d @ pad)) = length (va_encode d)"
    by (rule unat_grosslen_encode [OF assms(1)])
  have c: "BYTE_LEN_TEST (va_c0 (va_encode d @ pad))" "(va_encode d @ pad) ! 0 = word_of_nat (length d)"
    using True by (simp_all add: va_encode_def va_lenfield_def va_c0_def)
  have "va_appinvlen (va_encode d @ pad) = va_encode d @ [word_of_nat (length d)] @ drop 1 pad"
    by (simp add: va_appinvlen_def Let_def c g buf_write_append)
  then show ?thesis
    using True by simp
next
  case False
  let ?n = "word_of_nat (length d) :: u32"
  have l: "va_encode d = VA_LONGVALIMIT # SS_UINT4_STORETODISK ?n @ d"
    using False by (simp add: va_encode_def va_lenfield_def)
  have g: "unat (va_grosslen (va_encode d @ pad)) = length (va_encode d)"
    by (rule unat_grosslen_encode [OF assms(1)])
  have f: "take 4 (drop 1 (va_encode d @ pad)) = SS_UINT4_STORETODISK ?n"
    by (simp add: l)
  have c: "\<not> BYTE_LEN_TEST (va_c0 (va_encode d @ pad))" "(va_encode d @ pad) ! 0 = VA_LONGVALIMIT"
    using False by (simp_all add: l va_c0_def VA_LONGVALIMIT_def)
  have "buf_write (length (va_encode d)) (SS_UINT4_STORETODISK ?n) (va_encode d @ pad) =
      (va_encode d @ SS_UINT4_STORETODISK ?n) @ drop 4 pad"
    by (simp add: buf_write_append)
  then have "va_appinvlen (va_encode d @ pad) = buf_write (length (va_encode d) + 4)
      [VA_LONGVALIMIT] ((va_encode d @ SS_UINT4_STORETODISK ?n) @ drop 4 pad)"
    by (simp only: va_appinvlen_def Let_def c g f not_False_eq_True if_True)
  also have "\<dots> = (va_encode d @ SS_UINT4_STORETODISK ?n) @ [VA_LONGVALIMIT] @ drop 1 (drop 4 pad)"
    by (subst buf_write_append) simp_all
  finally show ?thesis
    using False by simp
qed

lemma invnetlen_append:
  assumes "va_fits d" "\<not> length d < 254"
  shows "va_invnetlen (xs @ [x] @ SS_UINT4_STORETODISK (word_of_nat (length d)) @ [VA_LONGVALIMIT] @ r)
    (length xs + 5) = word_of_nat (length d)"
proof -
  have "(xs @ [x] @ SS_UINT4_STORETODISK v @ [VA_LONGVALIMIT] @ r) ! (length xs + 5) = VA_LONGVALIMIT"
    for v
    by (simp add: nth_append)
  then show ?thesis
    by (simp add: va_invnetlen_def FOUR_BYTE_LEN_def VA_LONGVALIMIT_def)
qed

section \<open>Comparison as the order of the data\<close>

lemma be_val_less_lex: "length xs = length ys \<Longrightarrow> be_val xs < be_val ys \<Longrightarrow> xs < ys"
proof (induction xs ys rule: list_induct2)
  case (Cons x xs y ys)
  then show ?case
    using be_val_first_diff [of ys xs y x]
    by (cases "uint x" "uint y" rule: linorder_cases) (auto simp: word_less_def word_uint_eq_iff)
qed simp

lemma memcmp_self_prefix [simp]: "SsMemcmp (a @ x) (a @ y) (length a) = 0"
  by (induction a) auto

lemma memcmp_order:
  "sgn (let c = SsMemcmp (a @ x) (b @ y) (min (length a) (length b))
    in if c = 0 then int (length a) - int (length b) else c) = three_way a b"
proof (induction a b rule: list_induct2')
  case (4 p a q b)
  then show ?case
    by (auto simp: three_way_def Let_def word_less_def word_uint_eq_iff split: if_splits)
qed (auto simp: three_way_def)

text \<open>\<open>va_cmpable\<close>: the length differences stay inside a signed 32-bit integer.\<close>

definition va_cmpable :: "u8 list \<Rightarrow> bool" where
  "va_cmpable d \<longleftrightarrow> length d < 2147483648"

lemma va_cmpable_fits: "va_cmpable d \<Longrightarrow> va_fits d"
  by (simp add: va_cmpable_def va_fits_def)

lemma va_compare_encode:
  assumes "va_cmpable a" "va_cmpable b"
  shows "va_compare (va_encode a @ x) (va_encode b @ y) =
    (let c = SsMemcmp (a @ x) (b @ y) (min (length a) (length b))
     in if c = 0 then int (length a) - int (length b) else c)"
proof -
  have "uint (word_of_nat (length a) :: u32) = int (length a)"
    "uint (word_of_nat (length b) :: u32) = int (length b)"
    using assms by (simp_all add: va_cmpable_def unsigned_of_nat take_bit_nat_eq_self)
  then have "sint (word_of_nat (length a) - word_of_nat (length b) :: u32) =
      int (length a) - int (length b)"
    using assms by (simp add: sint_sub32 wrap32_small va_cmpable_def)
  moreover have "unat (min (word_of_nat (length a)) (word_of_nat (length b)) :: u32) =
      min (length a) (length b)"
    using assms
    by (auto simp: min_def word_le_nat_alt unat_word_of_nat32 va_cmpable_def)
  ultimately show ?thesis
    using assms by (simp add: va_compare_def va_cmpable_fits Let_def)
qed

interpretation va_order: cmp_order "\<lambda>a b. va_compare (va_encode a) (va_encode b)" va_cmpable
  "\<lambda>d. d"
proof
  fix a b
  assume "va_cmpable a" "va_cmpable b"
  then show "sgn (va_compare (va_encode a) (va_encode b)) = three_way a b"
    using va_compare_encode [of a b "[]" "[]"] memcmp_order [of a "[]" b "[]"] by simp
qed

section \<open>Characters\<close>

lemma store_char2_loop:
  "store_char2_loop (length xs) cs (xs @ ys) =
    xs @ concat (map SS_CHAR2_STORE cs) @ [0] @ drop (2 * length cs + 1) ys"
proof (induction cs arbitrary: xs ys)
  case (Cons c cs)
  have "store_char2_loop (length xs + 2) cs (buf_write (length xs) (SS_CHAR2_STORE c) (xs @ ys)) =
      store_char2_loop (length (xs @ SS_CHAR2_STORE c)) cs ((xs @ SS_CHAR2_STORE c) @ drop 2 ys)"
    by (simp add: buf_write_append)
  also have "\<dots> = (xs @ SS_CHAR2_STORE c) @ concat (map SS_CHAR2_STORE cs) @ [0] @
      drop (2 * length cs + 1) (drop 2 ys)"
    by (rule Cons.IH)
  finally show ?case
    by (simp add: add.commute)
qed (simp add: buf_write_append)

lemma load_char2s_store:
  "load_char2s (length cs) (concat (map SS_CHAR2_STORE cs) @ r) = cs"
  by (induction cs) simp_all

lemma byte_as_char: "\<not> 0xFF < (ucast (c :: u8) :: u16)" "(ucast (ucast c :: u16) :: u8) = c"
proof -
  have "uint (ucast c :: u16) = uint c"
    using u8_bounds [of c] by (simp add: unsigned_ucast_eq take_bit_int_eq_self)
  then show "\<not> 0xFF < (ucast c :: u16)"
    using u8_bounds(2) [of c] by (simp add: word_less_def)
  show "(ucast (ucast c :: u16) :: u8) = c"
    by (rule bit_word_eqI) (auto simp: bit_simps)
qed

lemma copychar2to1_loop_bytes:
  "copychar2to1_loop n (concat (map SS_CHAR2_STORE (map ucast s)) @ r) (length s) buf =
    (True, buf @ s, n)"
  by (induction s arbitrary: buf) (simp_all add: byte_as_char)

lemma char2to1_loop_bytes: "char2to1_loop dc (map ucast s) ok out = (ok, out @ s)"
proof (induction s arbitrary: out)
  case (Cons c s)
  have "(ucast c :: u16) AND push_bit 8 (mask 8) = 0"
    by (rule bit_word_eqI) (auto simp: bit_simps dest: bit_imp_le_length)
  moreover have "push_bit 8 (mask 8) = (0xFF00 :: u16)"
    by (simp add: mask_eq_exp_minus_1 push_bit_eq_mult)
  ultimately have "(ucast c :: u16) AND 0xFF00 = 0"
    by simp
  with Cons show ?case
    by (simp add: byte_as_char)
qed simp

lemma setdata_none:
  "n < 4294967296 \<Longrightarrow>
    va_setdata target None (word_of_nat n) = va_lenfield n @ drop (length (va_lenfield n)) target"
  by (simp add: va_setdata_def SET_FOUR_BYTE_LEN_def va_lenfield_def buf_write_def
      SS_UINT4_STORETODISK_def)

lemma lenlen_lenfield: "n < 4294967296 \<Longrightarrow> va_lenlen (va_lenfield n @ r) = length (va_lenfield n)"
  by (simp add: va_lenlen_def lenfield_simps)

lemma setdatachar2_encode:
  assumes "length cs * 2 + 1 < 4294967291"
  shows "va_setdatachar2 target cs =
    va_encode (concat (map SS_CHAR2_STORE cs) @ [0]) @
      drop (length (va_encode (concat (map SS_CHAR2_STORE cs) @ [0]))) target"
proof -
  have l: "length (concat (map SS_CHAR2_STORE cs) @ [0]) = length cs * 2 + 1"
    by (induction cs) simp_all
  define n where "n = length cs * 2 + 1"
  have n: "n < 4294967296" "length (concat (map SS_CHAR2_STORE cs) @ [0]) = n"
    using assms l by (simp_all add: n_def)
  have "va_setdatachar2 target cs = store_char2_loop (length (va_lenfield n)) cs
      (va_lenfield n @ drop (length (va_lenfield n)) target)"
    unfolding va_setdatachar2_def Let_def n_def [symmetric] setdata_none [OF n(1)]
    by (simp add: lenlen_lenfield n(1))
  also have "\<dots> = va_lenfield n @ concat (map SS_CHAR2_STORE cs) @ [0] @
      drop n (drop (length (va_lenfield n)) target)"
    by (simp only: store_char2_loop n_def mult.commute)
  also have "\<dots> = va_lenfield n @ (concat (map SS_CHAR2_STORE cs) @ [0]) @
      drop (length (va_lenfield n @ (concat (map SS_CHAR2_STORE cs) @ [0]))) target"
    unfolding length_append [of "va_lenfield n"] n(2) by (simp add: add.commute)
  finally show ?thesis
    unfolding va_encode_def n(2) by simp
qed

section \<open>Properties\<close>

text \<open>
  Storing data in a v-attribute and reading it back gives the data, its length and the gross
  length for every size the four-byte length field can express, in the one-byte and in the
  five-byte format, and nothing behind the v-attribute is touched.
\<close>

theorem va_setdata_roundtrip:
  assumes "va_fits d"
  shows "let va = va_setdata target (Some d) (word_of_nat (length d)) in
    (case va_getdata va of (p, len) \<Rightarrow> take (unat len) p = d) \<and>
    unat (va_netlen va) = length d \<and>
    unat (va_grosslen va) = length d + va_lenlen va \<and>
    drop (unat (va_grosslen va)) va = drop (unat (va_grosslen va)) target"
proof -
  have "va_setdata target (Some d) (word_of_nat (length d)) =
      va_encode d @ drop (length (va_encode d)) target"
    using setdata_encode [OF assms, of target "[]"] by simp
  moreover have "unat (word_of_nat (length d) :: u32) = length d"
    using assms by (simp add: va_fits_def unat_word_of_nat32)
  ultimately show ?thesis
    using assms by (simp add: Let_def) (simp add: encode_length)
qed

lemma va_setdata_roundtrip_witness:
  "let va = va_setdata [9, 9, 9] (Some [1]) (word_of_nat (length [1 :: u8])) in
    (case va_getdata va of (p, len) \<Rightarrow> take (unat len) p = [1]) \<and>
    unat (va_netlen va) = length [1 :: u8] \<and>
    unat (va_grosslen va) = length [1 :: u8] + va_lenlen va \<and>
    drop (unat (va_grosslen va)) va = drop (unat (va_grosslen va)) [9, 9, 9]"
  by (rule va_setdata_roundtrip) (simp add: va_fits_def)

text \<open>
  Appending one v-attribute to another in a buffer with room for it gives the v-attribute of
  the concatenated data, also when the result no longer fits the one-byte length and the data has
  to move up by four bytes.
\<close>

theorem va_appva_concat:
  assumes "length a + length b < 4294967291" "length b + 4 \<le> length pad"
  shows "take (length (va_encode (a @ b))) (va_appva (va_encode a @ pad) (va_encode b @ r)) =
    va_encode (a @ b)"
  using assms appdata_encode [of a b pad r] by (simp add: va_appva_def va_fits_def)

lemma va_appva_concat_witness:
  "take (length (va_encode ([7, 8] @ [1])))
    (va_appva (va_encode [7, 8] @ replicate 9 0) (va_encode [1] @ [5])) = va_encode ([7, 8] @ [1])"
  by (rule va_appva_concat) simp_all

text \<open>
  A v-attribute with its length appended behind it can be read from its end: at the last byte
  \<^verbatim>\<open>va_invnetlen\<close> finds the data length that stands in front, in both formats, and the
  v-attribute itself is unchanged.
\<close>

theorem va_appinvlen_readable:
  assumes "va_fits d" "5 \<le> length pad"
  shows "let buf = va_appinvlen (va_encode d @ pad);
      last = length (va_encode d) + va_lenlen buf - 1 in
    unat (va_invnetlen buf last) = length d \<and> take (length (va_encode d)) buf = va_encode d"
proof -
  have u: "unat (word_of_nat (length d) :: u32) = length d"
    using assms by (simp add: va_fits_def unat_word_of_nat32)
  show ?thesis
  proof (cases "length d < 254")
    case True
    then have "va_appinvlen (va_encode d @ pad) = va_encode d @ word_of_nat (length d) # drop 1 pad"
      using assms by (simp add: appinvlen_encode)
    then show ?thesis
      using True u assms by (simp add: va_invnetlen_def Let_def nth_append)
  next
    case False
    define z where "z = last (va_encode d)"
    have e: "va_encode d = butlast (va_encode d) @ [z]"
      using False by (simp add: z_def encode_length flip: length_greater_0_conv)
    have "va_appinvlen (va_encode d @ pad) =
        va_encode d @ SS_UINT4_STORETODISK (word_of_nat (length d)) @ [VA_LONGVALIMIT] @ drop 5 pad"
      using False assms by (simp add: appinvlen_encode)
    moreover from this have "va_appinvlen (va_encode d @ pad) = butlast (va_encode d) @ [z] @
        SS_UINT4_STORETODISK (word_of_nat (length d)) @ [VA_LONGVALIMIT] @ drop 5 pad"
      using e by (metis append_assoc)
    then have "va_invnetlen (va_appinvlen (va_encode d @ pad)) (length (va_encode d) + 4) =
        word_of_nat (length d)"
      using invnetlen_append [OF assms(1) False, of "butlast (va_encode d)" z "drop 5 pad"]
        False by (simp add: encode_length)
    ultimately show ?thesis
      using False assms u by (simp add: Let_def add.commute)
  qed
qed

lemma va_appinvlen_readable_witness:
  "let buf = va_appinvlen (va_encode [1, 2] @ replicate 5 0);
      last = length (va_encode [1, 2]) + va_lenlen buf - 1 in
    unat (va_invnetlen buf last) = length [1, 2 :: u8] \<and>
    take (length (va_encode [1, 2])) buf = va_encode [1, 2]"
  by (rule va_appinvlen_readable) (simp_all add: va_fits_def)

text \<open>
  C35. \<^verbatim>\<open>va_compare\<close> orders v-attributes as their data bytes, compared position by position as
  unsigned values with a proper prefix first, whatever bytes follow them in memory.
\<close>

theorem va_compare_lexicographic:
  assumes "va_cmpable a" "va_cmpable b"
  shows "sgn (va_compare (va_encode a @ x) (va_encode b @ y)) = three_way a b"
  using va_compare_encode [OF assms, of x y] memcmp_order [of a x b y] by simp

lemma va_compare_lexicographic_witness:
  "sgn (va_compare (va_encode [1, 2] @ [9]) (va_encode [1, 2, 0] @ [])) = three_way [1, 2 :: u8] [1, 2, 0]"
  by (rule va_compare_lexicographic) (simp_all add: va_cmpable_def)

text \<open>
  An 8-bit string stored two bytes per character is copied back out unchanged, with the number
  of characters asked for and without a conversion error.
\<close>

theorem va_char1to2_copy_back:
  assumes "length s < 2147483640"
  shows "va_copydatachar2to1 (va_setdatachar1to2 target s) 0 (length s) = (True, s, length s)"
proof -
  let ?d = "concat (map SS_CHAR2_STORE (map ucast s)) @ [0]"
  have l: "length ?d = length s * 2 + 1"
    by (induction s) simp_all
  have f: "va_fits ?d"
    using assms unfolding va_fits_def l by simp
  have e: "va_setdatachar1to2 target s = va_encode ?d @ drop (length (va_encode ?d)) target"
    using setdatachar2_encode [of "map ucast s" target] assms
    by (simp add: va_setdatachar1to2_def va_setdatachar2_def)
  have "unat (word_of_nat (length ?d) :: u32) div 2 = length s"
    using f l unat_word_of_nat32 [of "length ?d"] unfolding va_fits_def by simp
  then show ?thesis
    using copychar2to1_loop_bytes [of "length s" s "[0] @ drop (length (va_encode ?d)) target" "[]"]
    unfolding va_copydatachar2to1_def e getdata_encode [OF f] by (auto simp: Let_def)
qed

lemma va_char1to2_copy_back_witness:
  "va_copydatachar2to1 (va_setdatachar1to2 [] [72, 0xE9]) 0 (length [72, 0xE9 :: u8]) =
    (True, [72, 0xE9], length [72, 0xE9 :: u8])"
  by (rule va_char1to2_copy_back) simp

end
