(* ===== verification/Ss_Int8.thy ===== *)
theory Ss_Int8
  imports Ss_Limits
begin

text \<open>
  The 64-bit integers of \<^verbatim>\<open>ss/ssint8.c\<close> and \<^verbatim>\<open>include/ssint8.h\<close>, which the program computes on
  halves of 32 bits and quarters of 16. The union \<^verbatim>\<open>ss_int8_t\<close> is a 64-bit word; its members
  \<^verbatim>\<open>u4\<close>, \<^verbatim>\<open>u2\<close> and \<^verbatim>\<open>u1\<close> are views of it, least significant part at index 0 as on the Intel
  byte order of the build. A function that stores through \<^verbatim>\<open>p_result\<close> and returns a success flag
  is a function to the pair of both.
\<close>

section \<open>The union and its views\<close>

type_synonym ss_int8_t = u64

definition i8_u4 :: "ss_int8_t \<Rightarrow> nat \<Rightarrow> u32" where
  "i8_u4 i8 i = ucast (drop_bit (32 * i) i8)"

definition i8_u2 :: "ss_int8_t \<Rightarrow> nat \<Rightarrow> u16" where
  "i8_u2 i8 i = ucast (drop_bit (16 * i) i8)"

definition i8_u1 :: "ss_int8_t \<Rightarrow> nat \<Rightarrow> u8" where
  "i8_u1 i8 i = ucast (drop_bit (8 * i) i8)"

definition i8_set_u4 :: "nat \<Rightarrow> u32 \<Rightarrow> ss_int8_t \<Rightarrow> ss_int8_t" where
  "i8_set_u4 i v i8 = (i8 AND NOT (push_bit (32 * i) (mask 32))) OR push_bit (32 * i) (ucast v)"

definition i8_set_u2 :: "nat \<Rightarrow> u16 \<Rightarrow> ss_int8_t \<Rightarrow> ss_int8_t" where
  "i8_set_u2 i v i8 = (i8 AND NOT (push_bit (16 * i) (mask 16))) OR push_bit (16 * i) (ucast v)"

definition i8_set_u1 :: "nat \<Rightarrow> u8 \<Rightarrow> ss_int8_t \<Rightarrow> ss_int8_t" where
  "i8_set_u1 i v i8 = (i8 AND NOT (push_bit (8 * i) (mask 8))) OR push_bit (8 * i) (ucast v)"

definition I8_SET_2_U4 :: "u32 \<Rightarrow> u32 \<Rightarrow> ss_int8_t \<Rightarrow> ss_int8_t" where
  "I8_SET_2_U4 u4hi u4lo i8 = i8_set_u4 1 u4hi (i8_set_u4 0 u4lo i8)"

section \<open>Construction and access\<close>

definition SsInt8Set2Uint4s :: "ss_int8_t \<Rightarrow> u32 \<Rightarrow> u32 \<Rightarrow> ss_int8_t" where
  "SsInt8Set2Uint4s i8 u4high u4low = I8_SET_2_U4 u4high u4low i8"

text \<open>The result is an uninitialised local that both halves overwrite; it is 0 here.\<close>

definition SsInt8InitFrom2Uint4s :: "u32 \<Rightarrow> u32 \<Rightarrow> ss_int8_t" where
  "SsInt8InitFrom2Uint4s u4high u4low = I8_SET_2_U4 u4high u4low 0"

definition SsInt8GetLeastSignificantUint4 :: "ss_int8_t \<Rightarrow> u32" where
  "SsInt8GetLeastSignificantUint4 i8 = i8_u4 i8 0"

definition SsInt8GetMostSignificantUint4 :: "ss_int8_t \<Rightarrow> u32" where
  "SsInt8GetMostSignificantUint4 i8 = i8_u4 i8 1"

definition SsInt8SetUint4 :: "u32 \<Rightarrow> ss_int8_t" where
  "SsInt8SetUint4 u4 = I8_SET_2_U4 0 u4 0"

definition SsInt8Set0 :: ss_int8_t where
  "SsInt8Set0 = I8_SET_2_U4 0 0 0"

definition I4_ISNEG :: "u32 \<Rightarrow> bool" where
  "I4_ISNEG i4 = (drop_bit 31 i4 \<noteq> 0)"

definition I2_ISNEG :: "u16 \<Rightarrow> bool" where
  "I2_ISNEG i2 = (drop_bit 15 i2 \<noteq> 0)"

definition I8_ISNEG :: "ss_int8_t \<Rightarrow> bool" where
  "I8_ISNEG i8 = I4_ISNEG (i8_u4 i8 1)"

definition I8_IS_0 :: "ss_int8_t \<Rightarrow> bool" where
  "I8_IS_0 i8 = (i8_u4 i8 0 OR i8_u4 i8 1 = 0)"

definition SsInt8SetInt4 :: "u32 \<Rightarrow> ss_int8_t" where
  "SsInt8SetInt4 i4 = I8_SET_2_U4 (- of_bool (I4_ISNEG i4)) i4 0"

definition SsInt8Equal :: "ss_int8_t \<Rightarrow> ss_int8_t \<Rightarrow> bool" where
  "SsInt8Equal i8_1 i8_2 = (i8_u4 i8_1 0 = i8_u4 i8_2 0 \<and> i8_u4 i8_1 1 = i8_u4 i8_2 1)"

definition SsInt8ConvertToInt4 :: "ss_int8_t \<Rightarrow> u32 \<times> bool" where
  "SsInt8ConvertToInt4 i8 =
    (let result = i8_u4 i8 0
     in if I8_ISNEG i8
        then (result, \<not> (i8_u4 i8 1 \<noteq> NOT 0 \<or> \<not> I4_ISNEG result))
        else (result, \<not> (i8_u4 i8 1 \<noteq> 0 \<or> I4_ISNEG result)))"

text \<open>The byte loop of \<^verbatim>\<open>SsInt8ShrBy8Bits\<close> writes the bytes 0 to 6 and then clears byte 7.\<close>

definition SsInt8ShrBy8Bits :: "ss_int8_t \<Rightarrow> ss_int8_t" where
  "SsInt8ShrBy8Bits i8 =
    i8_set_u1 7 0 (foldl (\<lambda>r i. i8_set_u1 i (i8_u1 i8 (i + 1)) r) 0 [0..<7])"

definition SsInt8GetNthOrderByte :: "ss_int8_t \<Rightarrow> nat \<Rightarrow> u8" where
  "SsInt8GetNthOrderByte i8 n = i8_u1 i8 n"

section \<open>Addition\<close>

text \<open>
  The carry loop. Its index runs from the limb of the shift to limb 3, where it leaves; the first
  argument counts the limbs still above the current one.
\<close>

primrec add_uint2_loop :: "ss_int8_t \<Rightarrow> nat \<Rightarrow> u16 \<Rightarrow> ss_int8_t \<Rightarrow> ss_int8_t" where
  "add_uint2_loop i8 0 u2 result =
    (if u2 = 0 then result
     else let u4 = (ucast (i8_u2 i8 3) + ucast u2 :: u32) in i8_set_u2 3 (ucast u4) result)"
| "add_uint2_loop i8 (Suc r) u2 result =
    (if u2 = 0 then result
     else let i = 3 - Suc r; u4 = (ucast (i8_u2 i8 i) + ucast u2 :: u32)
       in add_uint2_loop i8 r (ucast (drop_bit 16 u4)) (i8_set_u2 i (ucast u4) result))"

definition SsInt8AddUint2WithShift :: "ss_int8_t \<Rightarrow> u16 \<Rightarrow> nat \<Rightarrow> ss_int8_t \<times> bool" where
  "SsInt8AddUint2WithShift i8 u2 shift =
    (let wasneg = I8_ISNEG i8; result = add_uint2_loop i8 (3 - shift) u2 i8
     in (result, \<not> (\<not> wasneg \<and> I8_ISNEG result)))"

definition SsInt8AddUint2 :: "ss_int8_t \<Rightarrow> u16 \<Rightarrow> ss_int8_t \<times> bool" where
  "SsInt8AddUint2 i8 u2 = SsInt8AddUint2WithShift i8 u2 0"

definition SsInt8AddUint4 :: "ss_int8_t \<Rightarrow> u32 \<Rightarrow> ss_int8_t \<times> bool" where
  "SsInt8AddUint4 i8 u4 =
    (let (tmp_result, succp) = SsInt8AddUint2WithShift i8 (ucast u4) 0;
         (result, succp2) = SsInt8AddUint2WithShift tmp_result (ucast (drop_bit 16 u4)) 1
     in (result, succp \<and> succp2))"

definition SsInt8Negate :: "ss_int8_t \<Rightarrow> ss_int8_t \<times> bool" where
  "SsInt8Negate i8 =
    (let wasneg = I8_ISNEG i8;
         i8 = i8_set_u4 0 (NOT (i8_u4 i8 0)) i8;
         i8 = i8_set_u4 1 (NOT (i8_u4 i8 1)) i8;
         result = fst (SsInt8AddUint2 i8 1)
     in (result, \<not> (wasneg \<and> I8_ISNEG result)))"

definition SsInt8AddInt8 :: "ss_int8_t \<Rightarrow> ss_int8_t \<Rightarrow> ss_int8_t \<times> bool" where
  "SsInt8AddInt8 i8_1 i8_2 =
    (let isneg1 = I8_ISNEG i8_1; isneg2 = I8_ISNEG i8_2;
         result = foldl (\<lambda>r shift. fst (SsInt8AddUint2WithShift r (i8_u2 i8_2 shift) shift))
           i8_1 [0, 1, 2, 3]
     in (result, \<not> (isneg1 = isneg2 \<and> isneg1 \<noteq> I8_ISNEG result)))"

definition SsInt8SubtractInt8 :: "ss_int8_t \<Rightarrow> ss_int8_t \<Rightarrow> ss_int8_t \<times> bool" where
  "SsInt8SubtractInt8 i8_1 i8_2 =
    (let (neg2, succp) = SsInt8Negate i8_2; (result, succp2) = SsInt8AddInt8 i8_1 neg2
     in (result, succp \<and> succp2))"

section \<open>Multiplication\<close>

text \<open>The loop over the limbs: the result so far and the carry \<^verbatim>\<open>val\<close>.\<close>

definition mul_int2_step :: "ss_int8_t \<Rightarrow> u32 \<Rightarrow> ss_int8_t \<times> u32 \<Rightarrow> nat \<Rightarrow> ss_int8_t \<times> u32" where
  "mul_int2_step i8 multiplier st i =
    (let (result, carry) = st; v = ucast (i8_u2 i8 i) * multiplier + carry
     in (i8_set_u2 i (ucast v) result, drop_bit 16 v))"

definition SsInt8MultiplyByInt2 :: "ss_int8_t \<Rightarrow> u16 \<Rightarrow> ss_int8_t \<times> bool" where
  "SsInt8MultiplyByInt2 i8 i2 =
    (let neg1 = I8_ISNEG i8;
         i8 = (if neg1 then fst (SsInt8Negate i8) else i8);
         neg2 = I2_ISNEG i2;
         i2 = (if neg2 then - i2 else i2);
         multiplier = ucast i2;
         neg = (neg1 \<noteq> neg2);
         (result, carry) = foldl (mul_int2_step i8 multiplier) (0, 0) [0, 1, 2, 3];
         succp = \<not> (carry \<noteq> 0 \<or> I8_ISNEG result);
         result = (if neg then fst (SsInt8Negate result) else result)
     in (result, succp))"

text \<open>
  The loop of \<^verbatim>\<open>SsInt8MultiplyByUint2WithShift\<close>: at limb \<open>i\<close>, with \<open>r\<close> limbs left before the
  limit \<open>3 - shift\<close>. It returns the last partial product's high half with the result.
\<close>

fun mul_uint2_loop ::
  "ss_int8_t \<Rightarrow> u16 \<Rightarrow> nat \<Rightarrow> nat \<Rightarrow> nat \<Rightarrow> ss_int8_t \<Rightarrow> bool \<Rightarrow> ss_int8_t \<times> bool \<times> u32" where
  "mul_uint2_loop i8 u2 shift i r result succp =
    (let u4 = (ucast (i8_u2 i8 i) * ucast u2 :: u32);
         (result, s) = SsInt8AddUint2WithShift result (ucast u4) (shift + i);
         succp = (succp \<and> s);
         u4 = drop_bit 16 u4
     in case r of 0 \<Rightarrow> (result, succp, u4)
        | Suc r' \<Rightarrow>
            (let (result, s) = SsInt8AddUint2WithShift result (ucast u4) (1 + shift + i)
             in mul_uint2_loop i8 u2 shift (i + 1) r' result (succp \<and> s)))"

definition SsInt8MultiplyByUint2WithShift ::
  "ss_int8_t \<Rightarrow> ss_int8_t \<Rightarrow> u16 \<Rightarrow> nat \<Rightarrow> ss_int8_t \<times> bool" where
  "SsInt8MultiplyByUint2WithShift p_result i8 u2 shift =
    (let (result, succp, u4) = mul_uint2_loop i8 u2 shift 0 (3 - shift) p_result True
     in (result, if u4 \<noteq> 0 then False else succp))"

definition mul_int8_step ::
  "ss_int8_t \<Rightarrow> ss_int8_t \<Rightarrow> ss_int8_t \<times> bool \<Rightarrow> nat \<Rightarrow> ss_int8_t \<times> bool" where
  "mul_int8_step i8_1 i8_2 st i =
    (let (result, succp) = st; u2 = i8_u2 i8_2 i
     in if u2 \<noteq> 0
        then let (result, s) = SsInt8MultiplyByUint2WithShift result i8_1 u2 i
             in (result, succp \<and> s)
        else (result, succp))"

definition SsInt8MultiplyByInt8 :: "ss_int8_t \<Rightarrow> ss_int8_t \<Rightarrow> ss_int8_t \<times> bool" where
  "SsInt8MultiplyByInt8 i8_1 i8_2 =
    (let neg1 = I8_ISNEG i8_1;
         (i8_1, s1) = (if neg1 then SsInt8Negate i8_1 else (i8_1, True));
         neg2 = I8_ISNEG i8_2;
         (i8_2, s2) = (if neg2 then SsInt8Negate i8_2 else (i8_2, True));
         (result, succp) = foldl (mul_int8_step i8_1 i8_2) (SsInt8Set0, s1 \<and> s2) [0, 1, 2, 3]
     in if neg1 \<noteq> neg2
        then let (result, s) = SsInt8Negate result in (result, succp \<and> s)
        else (result, succp))"

section \<open>Comparison\<close>

text \<open>The loop goes from the most significant limb down and leaves at the first difference.\<close>

primrec cmp_loop :: "ss_int8_t \<Rightarrow> ss_int8_t \<Rightarrow> nat \<Rightarrow> int \<Rightarrow> int" where
  "cmp_loop i8_1 i8_2 0 cmp = (if cmp = 0 then uint (i8_u2 i8_1 0) - uint (i8_u2 i8_2 0) else cmp)"
| "cmp_loop i8_1 i8_2 (Suc i) cmp =
    (if cmp = 0 then cmp_loop i8_1 i8_2 i (uint (i8_u2 i8_1 (Suc i)) - uint (i8_u2 i8_2 (Suc i)))
     else cmp)"

definition SsInt8Cmp :: "ss_int8_t \<Rightarrow> ss_int8_t \<Rightarrow> int" where
  "SsInt8Cmp i8_1 i8_2 = cmp_loop i8_1 i8_2 3 (of_bool (I8_ISNEG i8_2) - of_bool (I8_ISNEG i8_1))"

definition I8_UNSIGNEDCMP :: "ss_int8_t \<Rightarrow> ss_int8_t \<Rightarrow> int" where
  "I8_UNSIGNEDCMP i8_1 i8_2 =
    (if i8_u4 i8_1 1 < i8_u4 i8_2 1 then - 1
     else if i8_u4 i8_1 1 > i8_u4 i8_2 1 then 1
     else if i8_u4 i8_1 0 < i8_u4 i8_2 0 then - 1
     else if i8_u4 i8_1 0 > i8_u4 i8_2 0 then 1 else 0)"

definition SsInt8UnsignedCmp :: "ss_int8_t \<Rightarrow> ss_int8_t \<Rightarrow> int" where
  "SsInt8UnsignedCmp i8a i8b = I8_UNSIGNEDCMP i8a i8b"

section \<open>Division\<close>

definition I8_UNSIGNEDSHIFTRIGHT1 :: "ss_int8_t \<Rightarrow> ss_int8_t" where
  "I8_UNSIGNEDSHIFTRIGHT1 i8 =
    (let i8 = i8_set_u4 0 (drop_bit 1 (i8_u4 i8 0) OR push_bit 31 (i8_u4 i8 1)) i8
     in i8_set_u4 1 (drop_bit 1 (i8_u4 i8 1)) i8)"

definition I8_UNSIGNEDSHIFTLEFT1 :: "ss_int8_t \<Rightarrow> ss_int8_t" where
  "I8_UNSIGNEDSHIFTLEFT1 i8 =
    (let i8 = i8_set_u4 1 (push_bit 1 (i8_u4 i8 1) OR (drop_bit 31 (i8_u4 i8 0) AND 1)) i8
     in i8_set_u4 0 (push_bit 1 (i8_u4 i8 0)) i8)"

text \<open>
  The two loops of \<^verbatim>\<open>SsInt8UnsignedDivide\<close>: shifting the divisor up to the dividend, then
  subtracting it and shifting it down again (the inner \<^verbatim>\<open>while\<close> and the outer loop are one
  recursion, a step of either at a time). A loop that does not end is \<open>None\<close>.
\<close>

partial_function (option) div_shift_loop ::
  "ss_int8_t \<Rightarrow> ss_int8_t \<Rightarrow> ss_int8_t \<Rightarrow> nat \<Rightarrow> (ss_int8_t \<times> ss_int8_t \<times> nat) option" where
  "div_shift_loop dividend divisor resbit bitshift =
    (if \<not> I8_ISNEG divisor \<and> I8_UNSIGNEDCMP dividend divisor > 0
     then div_shift_loop dividend (I8_UNSIGNEDSHIFTLEFT1 divisor) (I8_UNSIGNEDSHIFTLEFT1 resbit)
       (bitshift + 1)
     else Some (divisor, resbit, bitshift))"

partial_function (option) div_sub_loop ::
  "ss_int8_t \<Rightarrow> ss_int8_t \<Rightarrow> ss_int8_t \<Rightarrow> nat \<Rightarrow> ss_int8_t \<Rightarrow> (ss_int8_t \<times> ss_int8_t) option" where
  "div_sub_loop dividend divisor resbit bitshift result =
    (if I8_UNSIGNEDCMP dividend divisor < 0
     then if bitshift = 0 then Some (result, dividend)
       else div_sub_loop dividend (I8_UNSIGNEDSHIFTRIGHT1 divisor) (I8_UNSIGNEDSHIFTRIGHT1 resbit)
         (bitshift - 1) result
     else div_sub_loop (fst (SsInt8SubtractInt8 dividend divisor)) divisor resbit bitshift
       (fst (SsInt8AddInt8 result resbit)))"

text \<open>
  The result is \<open>Some\<close> of the quotient and remainder with the success flag \<open>True\<close>, or the flag
  \<open>False\<close> alone for a zero divisor, which leaves the outputs unset.
\<close>

definition SsInt8UnsignedDivide ::
  "ss_int8_t \<Rightarrow> ss_int8_t \<Rightarrow> (ss_int8_t \<times> ss_int8_t) option option" where
  "SsInt8UnsignedDivide dividend divisor =
    (if I8_IS_0 divisor then Some None
     else case div_shift_loop dividend divisor (I8_SET_2_U4 0 1 0) 0 of
       None \<Rightarrow> None
     | Some (divisor, resbit, bitshift) \<Rightarrow>
         map_option Some (div_sub_loop dividend divisor resbit bitshift SsInt8Set0))"

definition SsInt8DivWithRemByInt8 ::
  "ss_int8_t \<Rightarrow> ss_int8_t \<Rightarrow> (ss_int8_t \<times> ss_int8_t) option option" where
  "SsInt8DivWithRemByInt8 dividend divisor =
    (let dividend_wasneg = I8_ISNEG dividend; divisor_wasneg = I8_ISNEG divisor;
         result_isneg = (dividend_wasneg \<noteq> divisor_wasneg)
     in if I8_IS_0 divisor then Some None
        else let dividend = (if dividend_wasneg then fst (SsInt8Negate dividend) else dividend);
                 divisor = (if divisor_wasneg then fst (SsInt8Negate divisor) else divisor)
          in map_option (map_option (\<lambda>(result, remainder).
               (if result_isneg then fst (SsInt8Negate result) else result,
                if dividend_wasneg then fst (SsInt8Negate remainder) else remainder)))
             (SsInt8UnsignedDivide dividend divisor))"

definition SsInt8DivideByInt8 :: "ss_int8_t \<Rightarrow> ss_int8_t \<Rightarrow> ss_int8_t option option" where
  "SsInt8DivideByInt8 dividend divisor =
    (let dividend_wasneg = I8_ISNEG dividend; divisor_wasneg = I8_ISNEG divisor;
         result_isneg = (dividend_wasneg \<noteq> divisor_wasneg)
     in if I8_IS_0 divisor then Some None
        else let dividend = (if dividend_wasneg then fst (SsInt8Negate dividend) else dividend);
                 divisor = (if divisor_wasneg then fst (SsInt8Negate divisor) else divisor)
          in map_option (map_option (\<lambda>(result, _).
               if result_isneg then fst (SsInt8Negate result) else result))
             (SsInt8UnsignedDivide dividend divisor))"

definition SsInt8RemainderByInt8 :: "ss_int8_t \<Rightarrow> ss_int8_t \<Rightarrow> ss_int8_t option option" where
  "SsInt8RemainderByInt8 dividend divisor =
    (let dividend_wasneg = I8_ISNEG dividend; divisor_wasneg = I8_ISNEG divisor
     in if I8_IS_0 divisor then Some None
        else let dividend = (if dividend_wasneg then fst (SsInt8Negate dividend) else dividend);
                 divisor = (if divisor_wasneg then fst (SsInt8Negate divisor) else divisor)
          in map_option (map_option (\<lambda>(_, remainder).
               if dividend_wasneg then fst (SsInt8Negate remainder) else remainder))
             (SsInt8UnsignedDivide dividend divisor))"

section \<open>The views and the word\<close>

lemma set_2_u4_value: "I8_SET_2_U4 hi lo i8 = push_bit 32 (ucast hi) OR ucast lo"
  by (rule bit_word_eqI) (auto simp: I8_SET_2_U4_def i8_set_u4_def bit_simps)

lemma u4_set_2_u4 [simp]:
  "i8_u4 (I8_SET_2_U4 hi lo i8) 0 = lo" "i8_u4 (I8_SET_2_U4 hi lo i8) (Suc 0) = hi"
  by (rule bit_word_eqI, auto simp: set_2_u4_value i8_u4_def bit_simps)+

lemma set_2_u4_parts [simp]: "I8_SET_2_U4 (i8_u4 i8 (Suc 0)) (i8_u4 i8 0) j8 = i8"
  by (rule bit_word_eqI) (auto simp: set_2_u4_value i8_u4_def bit_simps)

lemma uint_set_2_u4: "uint (I8_SET_2_U4 hi lo i8) = uint hi * 4294967296 + uint lo"
proof -
  have d: "push_bit 32 (ucast hi) AND (ucast lo :: u64) = 0"
    by (rule bit_word_eqI) (auto simp: bit_simps)
  have "uint (push_bit 32 (ucast hi) :: u64) = push_bit 32 (uint hi)"
    by (rule bit_eqI) (auto simp: bit_simps dest: bit_imp_le_length)
  then have "uint (push_bit 32 (ucast hi) :: u64) = uint hi * 4294967296"
    by (simp add: push_bit_eq_mult)
  moreover have "uint (ucast lo :: u64) = uint lo"
    using u32_bounds [of lo] by (simp add: unsigned_ucast_eq take_bit_int_eq_self)
  moreover have "push_bit 32 (ucast hi) OR (ucast lo :: u64) = push_bit 32 (ucast hi) + ucast lo"
    using disjunctive_add_eq_or [OF d] by simp
  ultimately show ?thesis
    using u32_bounds [of hi] u32_bounds [of lo] unfolding set_2_u4_value
    by (simp add: uint_plus_if')
qed

text \<open>A limb as the part of the word it stands for.\<close>

definition limb :: "nat \<Rightarrow> u16 \<Rightarrow> u64" where
  "limb i v = push_bit (16 * i) (ucast v)"

lemma limb_split: "i < 4 \<Longrightarrow> (x AND NOT (push_bit (16 * i) (mask 16))) + limb i (i8_u2 x i) = x"
proof -
  assume "i < 4"
  have "(x AND NOT (push_bit (16 * i) (mask 16))) AND limb i (i8_u2 x i) = 0"
    by (rule bit_word_eqI) (auto simp: limb_def bit_simps)
  then have "(x AND NOT (push_bit (16 * i) (mask 16))) + limb i (i8_u2 x i) =
      (x AND NOT (push_bit (16 * i) (mask 16))) OR limb i (i8_u2 x i)"
    by (rule disjunctive_add_eq_or)
  also have "\<dots> = x"
    by (rule bit_word_eqI) (auto simp: limb_def i8_u2_def bit_simps)
  finally show ?thesis .
qed

lemma set_u2_split: "i8_set_u2 i v x = (x AND NOT (push_bit (16 * i) (mask 16))) + limb i v"
proof -
  have "(x AND NOT (push_bit (16 * i) (mask 16))) AND limb i v = 0"
    by (rule bit_word_eqI) (auto simp: limb_def bit_simps)
  then show ?thesis
    by (simp add: i8_set_u2_def limb_def disjunctive_add_eq_or)
qed

lemma set_u2_eq: "i < 4 \<Longrightarrow> i8_set_u2 i v x = x - limb i (i8_u2 x i) + limb i v"
  using limb_split [of i x] by (simp add: set_u2_split algebra_simps)

lemma u2_set_u2:
  "i < 4 \<Longrightarrow> j < 4 \<Longrightarrow> i8_u2 (i8_set_u2 i v x) j = (if i = j then v else i8_u2 x j)"
  by (rule bit_word_eqI) (auto simp: i8_u2_def i8_set_u2_def bit_simps; presburger)

lemma limb_0 [simp]: "limb i 0 = 0"
  by (simp add: limb_def)

lemma limbs_sum: "limb 0 (i8_u2 x 0) + limb (Suc 0) (i8_u2 x (Suc 0)) + limb 2 (i8_u2 x 2) + limb 3 (i8_u2 x 3) = x"
proof -
  define y1 where "y1 = x AND NOT (mask 16)"
  have x: "x = y1 + limb 0 (i8_u2 x 0)"
    using limb_split [of 0 x] by (simp add: y1_def)
  define y2 where "y2 = y1 AND NOT (push_bit 16 (mask 16))"
  have 1: "y1 = y2 + limb (Suc 0) (i8_u2 y1 (Suc 0))"
    using limb_split [of "Suc 0" y1] by (simp add: y2_def)
  define y3 where "y3 = y2 AND NOT (push_bit 32 (mask 16))"
  have 2: "y2 = y3 + limb 2 (i8_u2 y2 2)"
    using limb_split [of 2 y2] by (simp add: y3_def)
  have "y3 = limb 3 (i8_u2 x 3)"
    unfolding y3_def y2_def y1_def
    by (rule bit_word_eqI) (auto simp: limb_def i8_u2_def bit_simps)
  moreover have "i8_u2 y1 (Suc 0) = i8_u2 x (Suc 0)" "i8_u2 y2 2 = i8_u2 x 2"
    unfolding y2_def y1_def
    by (rule bit_word_eqI, auto simp: limb_def i8_u2_def bit_simps)+
  ultimately show ?thesis
    using x 1 2 by (simp add: algebra_simps)
qed

lemma limb_u4:
  "limb i (ucast s) + limb (Suc i) (ucast (drop_bit 16 s)) = push_bit (16 * i) (ucast (s :: u32))"
proof -
  have "(ucast (ucast s :: u16) :: u64) AND push_bit 16 (ucast (ucast (drop_bit 16 s) :: u16)) = 0"
    by (rule bit_word_eqI) (auto simp: bit_simps)
  then have "(ucast (ucast s :: u16) :: u64) + push_bit 16 (ucast (ucast (drop_bit 16 s) :: u16)) =
      ucast (ucast s :: u16) OR push_bit 16 (ucast (ucast (drop_bit 16 s) :: u16))"
    by (rule disjunctive_add_eq_or)
  also have "\<dots> = ucast s"
    by (rule bit_word_eqI) (auto simp: bit_simps dest: bit_imp_le_length)
  finally have "push_bit (16 * i) ((ucast (ucast s :: u16) :: u64) +
      push_bit 16 (ucast (ucast (drop_bit 16 s) :: u16))) = push_bit (16 * i) (ucast s)"
    by simp
  then show ?thesis
    unfolding limb_def push_bit_add by (simp add: push_bit_push_bit add.commute)
qed

lemma limb_carry:
  "limb i (ucast (ucast a + ucast b :: u32)) + limb (Suc i) (ucast (drop_bit 16 (ucast a + ucast b :: u32)))
    = limb i a + limb i b"
proof -
  have b16: "uint a < 65536" "uint b < 65536"
    using uint_lt2p [of a] uint_lt2p [of b] by simp_all
  then have "uint (ucast a + ucast b :: u32) = uint a + uint b"
    by (simp add: uint_plus_if' unsigned_ucast_eq take_bit_int_eq_self)
  then have "(ucast (ucast a + ucast b :: u32) :: u64) = ucast a + ucast b"
    using b16 by (simp add: word_uint_eq_iff uint_plus_if' unsigned_ucast_eq take_bit_int_eq_self)
  then show ?thesis
    unfolding limb_u4 by (simp add: limb_def push_bit_add)
qed

lemma add_uint2_loop:
  assumes "r < 4" "\<And>j. 3 - r \<le> j \<Longrightarrow> j < 4 \<Longrightarrow> i8_u2 result j = i8_u2 i8 j"
  shows "add_uint2_loop i8 r u2 result = result + limb (3 - r) u2"
  using assms
proof (induction r arbitrary: u2 result)
  case 0
  define s where "s = (ucast (i8_u2 i8 3) + ucast u2 :: u32)"
  have "limb (Suc 3) (ucast (drop_bit 16 s)) = 0"
    unfolding limb_def by (rule bit_word_eqI) (auto simp: bit_simps)
  then have "limb 3 (ucast s) = limb 3 (i8_u2 i8 3) + limb 3 u2"
    using limb_carry [of 3 "i8_u2 i8 3" u2] by (simp add: s_def)
  moreover have "i8_u2 result 3 = i8_u2 i8 3"
    using "0.prems"(2) [of 3] by simp
  ultimately show ?case
    by (simp add: set_u2_eq s_def [symmetric] Let_def)
next
  case (Suc r)
  define i where "i = 3 - Suc r"
  have i: "i < 4" "3 - r = Suc i"
    using Suc.prems(1) by (simp_all add: i_def)
  define s where "s = (ucast (i8_u2 i8 i) + ucast u2 :: u32)"
  let ?res = "i8_set_u2 i (ucast s) result"
  have eq: "i8_u2 result i = i8_u2 i8 i"
    using Suc.prems(2) [of i] i by (simp add: i_def)
  have IH: "add_uint2_loop i8 r (ucast (drop_bit 16 s)) ?res = ?res + limb (3 - r) (ucast (drop_bit 16 s))"
  proof (rule Suc.IH)
    fix j
    assume "3 - r \<le> j" "j < 4"
    then show "i8_u2 ?res j = i8_u2 i8 j"
      using i Suc.prems(2) [of j] by (simp add: u2_set_u2 i_def)
  qed (use Suc.prems in simp)
  have "?res + limb (Suc i) (ucast (drop_bit 16 s)) = result + limb i u2"
    using limb_carry [of i "i8_u2 i8 i" u2, folded s_def] i eq
    by (simp add: set_u2_eq algebra_simps)
  moreover have "2 - r = i"
    by (simp add: i_def)
  ultimately show ?case
    using IH i by (simp add: Let_def s_def [symmetric])
qed

lemma isneg_bit: "I8_ISNEG i8 \<longleftrightarrow> bit i8 63"
proof -
  have "bit (drop_bit 31 (i8_u4 i8 1)) 0 = bit i8 63"
    by (simp add: i8_u4_def bit_simps)
  moreover have "drop_bit 31 (i8_u4 i8 1) \<noteq> 0 \<longleftrightarrow> bit (drop_bit 31 (i8_u4 i8 1)) 0"
  proof
    assume "drop_bit 31 (i8_u4 i8 1) \<noteq> 0"
    then obtain n where n: "bit (drop_bit 31 (i8_u4 i8 1)) n"
      by (metis bit_eqI bit_0_eq bot_fun_def bot_bool_def)
    then have "bit (i8_u4 i8 1) (31 + n)"
      by (simp add: bit_simps)
    then have "n = 0"
      using bit_beyond(3) [of "31 + n" "i8_u4 i8 1"] by (cases n) auto
    with n show "bit (drop_bit 31 (i8_u4 i8 1)) 0"
      by simp
  qed auto
  ultimately show ?thesis
    by (simp add: I8_ISNEG_def I4_ISNEG_def)
qed

lemma isneg_sint: "I8_ISNEG i8 \<longleftrightarrow> sint i8 < 0"
  by (simp add: isneg_bit sint_uint signed_take_bit_negative_iff bit_uint_iff)

lemma add_uint2_shift:
  "shift < 4 \<Longrightarrow> SsInt8AddUint2WithShift i8 u2 shift =
    (i8 + limb shift u2, \<not> (\<not> I8_ISNEG i8 \<and> I8_ISNEG (i8 + limb shift u2)))"
  by (simp add: SsInt8AddUint2WithShift_def add_uint2_loop Let_def)

lemma limb_0_ucast: "limb 0 u = ucast u"
  by (simp add: limb_def)

lemma add_uint2:
  "SsInt8AddUint2 i8 u2 = (i8 + ucast u2, \<not> (\<not> I8_ISNEG i8 \<and> I8_ISNEG (i8 + ucast u2)))"
  by (simp add: SsInt8AddUint2_def add_uint2_shift limb_0_ucast)

lemma complement_halves:
  "i8_set_u4 1 (NOT (i8_u4 (i8_set_u4 0 (NOT (i8_u4 i8 0)) i8) 1)) (i8_set_u4 0 (NOT (i8_u4 i8 0)) i8)
    = NOT i8"
  by (rule bit_word_eqI) (auto simp: i8_set_u4_def i8_u4_def bit_simps)

lemma negate: "SsInt8Negate i8 = (- i8, \<not> (I8_ISNEG i8 \<and> I8_ISNEG (- i8)))"
  unfolding SsInt8Negate_def Let_def complement_halves add_uint2
  by (simp add: not_eq_complement)

lemma add_int8_value: "fst (SsInt8AddInt8 a b) = a + b"
  using limbs_sum [of b]
  by (simp add: SsInt8AddInt8_def add_uint2_shift Let_def algebra_simps)

section \<open>Overflow and order\<close>

definition in_int64 :: "int \<Rightarrow> bool" where
  "in_int64 d \<longleftrightarrow> - 9223372036854775808 \<le> d \<and> d < 9223372036854775808"

lemma wrap64_sign:
  assumes "in_int64 x" "in_int64 y"
  shows "((x < 0) = (y < 0) \<and> (x < 0) \<noteq> (wrap64 (x + y) < 0)) \<longleftrightarrow> \<not> in_int64 (x + y)"
  using assms by (auto simp: in_int64_def wrap64_def)

lemma in_int64_sint [simp]: "in_int64 (sint (w :: u64))"
  using sint64_bounds [of w] by (simp add: in_int64_def)

lemma add_int8: "SsInt8AddInt8 a b = (a + b, in_int64 (sint a + sint b))"
proof -
  have "snd (SsInt8AddInt8 a b) \<longleftrightarrow>
      \<not> (I8_ISNEG a = I8_ISNEG b \<and> I8_ISNEG a \<noteq> I8_ISNEG (fst (SsInt8AddInt8 a b)))"
    by (simp add: SsInt8AddInt8_def Let_def)
  also have "\<dots> \<longleftrightarrow> in_int64 (sint a + sint b)"
    unfolding add_int8_value isneg_sint sint_add64 using wrap64_sign [of "sint a" "sint b"] by simp
  finally show ?thesis
    using add_int8_value [of a b] by (intro prod_eqI) simp_all
qed

lemma sint_exact_add:
  "in_int64 (sint a + sint b) \<Longrightarrow> sint (a + b :: u64) = sint a + sint b"
  by (simp add: sint_add64 wrap64_def in_int64_def)

lemma subtract_int8:
  "SsInt8SubtractInt8 a b =
    (a - b, \<not> (I8_ISNEG b \<and> I8_ISNEG (- b)) \<and> in_int64 (sint a + sint (- b)))"
  by (simp add: SsInt8SubtractInt8_def negate add_int8)

lemma negate_min: "I8_ISNEG b \<and> I8_ISNEG (- b) \<longleftrightarrow> b = 0x8000000000000000"
proof -
  have "sint b < 0 \<and> sint (- b) < 0 \<longleftrightarrow> uint b = 9223372036854775808"
  proof -
    have "uint (- b) = (if uint b = 0 then 0 else 18446744073709551616 - uint b)"
      using u64_bounds [of b] by (simp add: uint_word_ariths zmod_zminus1_eq_if)
    then show ?thesis
      using u64_bounds(2) [of b] unfolding sint64 by auto
  qed
  also have "\<dots> \<longleftrightarrow> b = 0x8000000000000000"
    by (simp add: word_uint_eq_iff)
  finally show ?thesis
    by (simp add: isneg_sint)
qed

lemma uint_ucast16 [simp]: "uint (ucast (v :: u16) :: u64) = uint v"
  using uint_lt2p [of v] by (simp add: unsigned_ucast_eq take_bit_int_eq_self)

lemma uint_limb: "i < 4 \<Longrightarrow> uint (limb i v) = uint v * 2 ^ (16 * i)"
proof -
  assume "i < 4"
  then have "uint (limb i v) = push_bit (16 * i) (uint v)"
    by (intro bit_eqI) (auto simp: limb_def bit_simps dest: bit_imp_le_length)
  then show ?thesis
    by (simp add: push_bit_eq_mult)
qed

lemma u16_bounds: "0 \<le> uint (v :: u16)" "uint (v :: u16) < 65536"
  using uint_lt2p [of v] by simp_all

lemma uint_limbs:
  "uint x = uint (i8_u2 x 3) * 281474976710656 + uint (i8_u2 x 2) * 4294967296 +
    uint (i8_u2 x (Suc 0)) * 65536 + uint (i8_u2 x 0)"
proof -
  note b = u16_bounds [of "i8_u2 x 0"] u16_bounds [of "i8_u2 x (Suc 0)"] u16_bounds [of "i8_u2 x 2"]
    u16_bounds [of "i8_u2 x 3"]
  have l: "uint (limb 0 (i8_u2 x 0)) = uint (i8_u2 x 0)"
    "uint (limb (Suc 0) (i8_u2 x (Suc 0))) = uint (i8_u2 x (Suc 0)) * 65536"
    "uint (limb 2 (i8_u2 x 2)) = uint (i8_u2 x 2) * 4294967296"
    "uint (limb 3 (i8_u2 x 3)) = uint (i8_u2 x 3) * 281474976710656"
    using uint_limb [of 0] uint_limb [of "Suc 0"] uint_limb [of 2] uint_limb [of 3] by simp_all
  have s1: "uint (limb 0 (i8_u2 x 0) + limb (Suc 0) (i8_u2 x (Suc 0))) =
      uint (i8_u2 x 0) + uint (i8_u2 x (Suc 0)) * 65536"
    using b by (simp add: uint_plus_if' l)
  have s2: "uint (limb 0 (i8_u2 x 0) + limb (Suc 0) (i8_u2 x (Suc 0)) + limb 2 (i8_u2 x 2)) =
      uint (i8_u2 x 0) + uint (i8_u2 x (Suc 0)) * 65536 + uint (i8_u2 x 2) * 4294967296"
    using b s1 l by (subst uint_plus_if') simp
  have "uint (limb 0 (i8_u2 x 0) + limb (Suc 0) (i8_u2 x (Suc 0)) + limb 2 (i8_u2 x 2) + limb 3 (i8_u2 x 3)) =
      uint (i8_u2 x 0) + uint (i8_u2 x (Suc 0)) * 65536 + uint (i8_u2 x 2) * 4294967296 +
      uint (i8_u2 x 3) * 281474976710656"
    using b s2 l by (subst uint_plus_if') simp
  then show ?thesis
    unfolding limbs_sum by simp
qed

lemma three_way_digit:
  assumes "0 \<le> y" "y < 65536" "0 \<le> y'" "y' < 65536"
  shows "three_way (x * 65536 + y) (x' * 65536 + y') =
    (if x = x' then three_way y y' else three_way x (x' :: int))"
  using assms by (auto simp: three_way_def)

lemma digit_eq_iff:
  assumes "0 \<le> y" "y < 65536" "0 \<le> y'" "y' < 65536"
  shows "x * 65536 + y = x' * 65536 + y' \<longleftrightarrow> x = x' \<and> y = (y' :: int)"
  using assms by (cases x x' rule: linorder_cases) auto

lemma uint_horner:
  "uint x = ((uint (i8_u2 x 3) * 65536 + uint (i8_u2 x 2)) * 65536 + uint (i8_u2 x (Suc 0))) * 65536 +
    uint (i8_u2 x 0)"
  by (subst uint_limbs) simp

lemma cmp_loop_sgn: "sgn (cmp_loop a b 3 0) = three_way (uint a) (uint b)"
proof -
  have d: "sgn (if x - y = 0 then v else x - y :: int) = (if x = y then sgn v else three_way x y)" for x y v
    by (simp add: three_way_def)
  have "sgn (cmp_loop a b 3 0) =
      (if uint (i8_u2 a 3) = uint (i8_u2 b 3)
       then if uint (i8_u2 a 2) = uint (i8_u2 b 2)
         then if uint (i8_u2 a (Suc 0)) = uint (i8_u2 b (Suc 0))
           then three_way (uint (i8_u2 a 0)) (uint (i8_u2 b 0))
           else three_way (uint (i8_u2 a (Suc 0))) (uint (i8_u2 b (Suc 0)))
         else three_way (uint (i8_u2 a 2)) (uint (i8_u2 b 2))
       else three_way (uint (i8_u2 a 3)) (uint (i8_u2 b 3)))"
    by (simp add: numeral_3_eq_3 numeral_2_eq_2 three_way_def)
  also have "\<dots> = three_way (uint a) (uint b)"
    unfolding uint_horner [of a] uint_horner [of b] three_way_digit [OF u16_bounds u16_bounds]
      digit_eq_iff [OF u16_bounds u16_bounds] by auto
  finally show ?thesis .
qed

lemma three_way_signed64:
  assumes "0 \<le> x" "x < 18446744073709551616" "0 \<le> y" "y < 18446744073709551616"
  shows "three_way (signed64 x) (signed64 y) =
    (if (signed64 x < 0) = (signed64 y < 0) then three_way x y
     else if signed64 x < 0 then - 1 else 1)"
  using assms by (auto simp: signed64_def three_way_def)

lemma cmp_sgn: "sgn (SsInt8Cmp a b) = three_way (sint a) (sint b)"
proof -
  have "cmp_loop a b 3 c = c" if "c \<noteq> 0" for c
    using that by (simp add: numeral_3_eq_3)
  then have "sgn (SsInt8Cmp a b) = (if I8_ISNEG a = I8_ISNEG b then three_way (uint a) (uint b)
      else if I8_ISNEG a then - 1 else 1)"
    using cmp_loop_sgn [of a b] by (auto simp: SsInt8Cmp_def)
  then show ?thesis
    unfolding isneg_sint sint_signed64 three_way_signed64 [OF u64_bounds u64_bounds] .
qed

interpretation int8_order: cmp_order SsInt8Cmp "\<lambda>_. True" "sint :: u64 \<Rightarrow> int"
  by unfold_locales (rule cmp_sgn)

lemma uint_halves: "uint x = uint (i8_u4 x (Suc 0)) * 4294967296 + uint (i8_u4 x 0)"
  using uint_set_2_u4 [of "i8_u4 x (Suc 0)" "i8_u4 x 0" x] by simp

lemma unsigned_cmp: "I8_UNSIGNEDCMP a b = three_way (uint a) (uint b)"
proof -
  have "three_way (x * 4294967296 + y) (x' * 4294967296 + y') =
      (if x < x' then - 1 else if x > x' then 1 else if y < y' then - 1 else if y > y' then 1 else 0)"
    if "0 \<le> y" "y < 4294967296" "0 \<le> y'" "y' < 4294967296" for x y x' y' :: int
    using that by (auto simp: three_way_def)
  then show ?thesis
    unfolding uint_halves [of a] uint_halves [of b] I8_UNSIGNEDCMP_def word_less_def One_nat_def
    using u32_bounds by simp
qed

section \<open>Unsigned division\<close>

lemma halves_eq_0: "0 \<le> a \<Longrightarrow> 0 \<le> b \<Longrightarrow> a * 4294967296 + b = 0 \<longleftrightarrow> a = 0 \<and> b = (0 :: int)"
  by auto

lemma is_0_iff: "I8_IS_0 d \<longleftrightarrow> d = 0"
proof -
  have "i8_u4 d 0 OR i8_u4 d 1 = 0 \<longleftrightarrow> i8_u4 d (Suc 0) = 0 \<and> i8_u4 d 0 = 0"
    by (auto simp: or_eq_0_iff)
  also have "\<dots> \<longleftrightarrow> uint d = 0"
    unfolding uint_halves [of d] halves_eq_0 [OF u32_bounds(1) u32_bounds(1)]
    by (simp add: word_uint_eq_iff)
  finally show ?thesis
    by (simp add: I8_IS_0_def word_uint_eq_iff)
qed

lemma bit_double_right: "bit (a * 2 :: 'a::len word) n \<longleftrightarrow> n \<noteq> 0 \<and> n < LENGTH('a) \<and> bit a (n - 1)"
  using bit_double_iff [of a n] by (auto simp: mult.commute)

lemma shl1: "I8_UNSIGNEDSHIFTLEFT1 x = push_bit 1 x"
proof (rule bit_word_eqI)
  fix n
  assume "n < LENGTH(64)"
  then consider "n = 0" | "0 < n \<and> n < 32" | "n = 32" | "32 < n \<and> n < 64"
    by force
  then show "bit (I8_UNSIGNEDSHIFTLEFT1 x) n = bit (push_bit 1 x) n"
    by cases (auto simp: I8_UNSIGNEDSHIFTLEFT1_def i8_set_u4_def i8_u4_def bit_simps bit_1_iff Let_def
        bit_double_right)
qed

lemma shr1: "I8_UNSIGNEDSHIFTRIGHT1 x = drop_bit 1 x"
proof (rule bit_word_eqI)
  fix n
  assume "n < LENGTH(64)"
  then consider "n < 31" | "n = 31" | "31 < n \<and> n < 63" | "n = 63"
    by force
  then show "bit (I8_UNSIGNEDSHIFTRIGHT1 x) n = bit (drop_bit 1 x) n"
    by cases (auto simp: I8_UNSIGNEDSHIFTRIGHT1_def i8_set_u4_def i8_u4_def bit_simps Let_def)
qed

text \<open>
  The state of the loops: the divisor and the result bit are the original divisor and 1, both
  shifted up by the same amount without loss.
\<close>

definition shifted :: "u64 \<Rightarrow> u64 \<Rightarrow> u64 \<Rightarrow> nat \<Rightarrow> bool" where
  "shifted d divisor resbit k \<longleftrightarrow> uint divisor = uint d * 2 ^ k \<and> uint resbit = 2 ^ k"

lemma uint_shr1: "uint (drop_bit 1 (x :: u64)) = uint x div 2"
proof -
  have "uint (drop_bit 1 x) = int (drop_bit 1 (unat x))"
    by (simp only: uint_nat unat_drop_bit_eq)
  then show ?thesis
    by (simp add: drop_bit_eq_div zdiv_int)
qed

lemma uint_shl1: "uint (x :: u64) < 9223372036854775808 \<Longrightarrow> uint (push_bit 1 x) = 2 * uint x"
proof -
  assume a: "uint x < 9223372036854775808"
  have "push_bit 1 x = x + x"
    by (simp add: push_bit_eq_mult)
  moreover have "uint (x + x) = 2 * uint x"
    using a by (subst uint_plus_if') simp
  ultimately show ?thesis
    by (simp only:)
qed

lemma shifted_down:
  assumes "shifted d divisor resbit (Suc k)"
  shows "shifted d (I8_UNSIGNEDSHIFTRIGHT1 divisor) (I8_UNSIGNEDSHIFTRIGHT1 resbit) k"
  using assms unfolding shifted_def shr1 uint_shr1 by simp

lemma shifted_up:
  assumes "shifted d divisor resbit k" "d \<noteq> 0" "\<not> I8_ISNEG divisor"
  shows "shifted d (I8_UNSIGNEDSHIFTLEFT1 divisor) (I8_UNSIGNEDSHIFTLEFT1 resbit) (Suc k)"
proof -
  have d: "1 \<le> uint d"
    using assms(2) u64_bounds(1) [of d] by (metis int_one_le_iff_zero_less order_le_less uint_0_iff)
  have n: "uint divisor < 9223372036854775808"
    using assms(3) u64_bounds(2) [of divisor] by (simp add: isneg_sint sint64 split: if_splits)
  have "2 ^ k \<le> uint d * 2 ^ k"
    using d mult_right_mono [of 1 "uint d" "2 ^ k"] by simp
  then have "uint resbit < 9223372036854775808"
    using n assms(1) unfolding shifted_def by linarith
  then show ?thesis
    using assms(1) unfolding shifted_def shl1 uint_shl1 [OF n] by (simp only: uint_shl1) simp
qed

lemma shifted_bound: "shifted d divisor resbit k \<Longrightarrow> k < 64"
proof -
  assume "shifted d divisor resbit k"
  then have "(2 :: int) ^ k < 2 ^ 64"
    using u64_bounds(2) [of resbit] by (simp add: shifted_def)
  then show ?thesis
    using power_less_imp_less_exp [of "2 :: int" k 64] by simp
qed

lemma div_shift_loop:
  assumes "shifted d divisor resbit k" "d \<noteq> 0"
  shows "\<exists>divisor' resbit' k'.
    div_shift_loop x divisor resbit k = Some (divisor', resbit', k') \<and> shifted d divisor' resbit' k'"
  using assms(1)
proof (induction "64 - k" arbitrary: k divisor resbit rule: less_induct)
  case less
  show ?case
  proof (cases "\<not> I8_ISNEG divisor \<and> I8_UNSIGNEDCMP x divisor > 0")
    case True
    have "shifted d (I8_UNSIGNEDSHIFTLEFT1 divisor) (I8_UNSIGNEDSHIFTLEFT1 resbit) (Suc k)"
      using shifted_up [OF less.prems assms(2)] True by blast
    then show ?thesis
      using less.hyps [of "Suc k"] shifted_bound [OF less.prems] True
      by (subst div_shift_loop.simps) simp
  next
    case False
    then show ?thesis
      using less.prems by (subst div_shift_loop.simps) auto
  qed
qed

lemma shifted_sub:
  assumes "shifted d divisor resbit k" "d \<noteq> 0" "uint divisor \<le> uint x"
    and X: "uint res * uint d + uint x = X" "X < 18446744073709551616"
  shows "uint (x - divisor) = uint x - uint divisor" "uint (x - divisor) < uint x"
    "uint (res + resbit) * uint d + uint (x - divisor) = X"
proof -
  show x: "uint (x - divisor) = uint x - uint divisor"
    using assms(3) by (simp add: uint_sub_if')
  have d: "1 \<le> uint d"
    using assms(2) u64_bounds(1) [of d] by (metis int_one_le_iff_zero_less order_le_less uint_0_iff)
  have dr: "uint divisor = uint resbit * uint d" "1 \<le> uint resbit"
    using assms(1) by (simp_all add: shifted_def mult.commute)
  have "1 \<le> uint divisor"
    unfolding dr(1) using mult_mono [of 1 "uint resbit" 1 "uint d"] d dr(2) by simp
  then show "uint (x - divisor) < uint x"
    using x by simp
  have "(uint res + uint resbit) * uint d + (uint x - uint divisor) = X"
    using X(1) by (simp add: dr(1) algebra_simps)
  moreover have "uint res + uint resbit \<le> (uint res + uint resbit) * uint d"
    using d mult_left_mono [of 1 "uint d" "uint res + uint resbit"] by simp
  ultimately have "uint res + uint resbit < 18446744073709551616"
    using X(2) assms(3) by linarith
  then have "uint (res + resbit) = uint res + uint resbit"
    by (simp add: uint_plus_if')
  with x show "uint (res + resbit) * uint d + uint (x - divisor) = X"
    using X(1) by (simp add: dr(1) algebra_simps)
qed

lemma div_sub_loop:
  assumes "shifted d divisor resbit k" "d \<noteq> 0" "uint res * uint d + uint x = X"
    "X < 18446744073709551616"
  shows "\<exists>q r. div_sub_loop x divisor resbit k res = Some (q, r) \<and>
    uint q * uint d + uint r = X \<and> uint r < uint d"
  using assms(1,3)
proof (induction "(k, unat x)" arbitrary: k x divisor resbit res
    rule: wf_induct_rule [OF wf_lex_prod [OF wf_less_than wf_less_than]])
  case (1 k x)
  consider (low) "uint x < uint divisor" "k = 0" | (shift) k' where "uint x < uint divisor" "k = Suc k'"
    | (sub) "uint divisor \<le> uint x"
    by (cases k) force+
  then show ?case
  proof cases
    case low
    then show ?thesis
      using "1.prems" by (subst div_sub_loop.simps) (auto simp: unsigned_cmp three_way_iff shifted_def)
  next
    case (shift k')
    have "shifted d (I8_UNSIGNEDSHIFTRIGHT1 divisor) (I8_UNSIGNEDSHIFTRIGHT1 resbit) k'"
      using shifted_down "1.prems"(1) shift by blast
    then show ?thesis
      using "1.hyps" [of k' x, OF _ _ "1.prems"(2)] shift
      by (subst div_sub_loop.simps) (simp add: unsigned_cmp three_way_iff)
  next
    case sub
    note s = shifted_sub [OF "1.prems"(1) assms(2) sub "1.prems"(2) assms(4)]
    have "unat (x - divisor) < unat x"
      using s(2) by (simp add: unat_mono word_less_def)
    then show ?thesis
      using "1.hyps" [of k "x - divisor", OF _ "1.prems"(1) s(3)] sub
      by (subst div_sub_loop.simps)
        (simp add: unsigned_cmp three_way_iff subtract_int8 add_int8_value)
  qed
qed

lemma unsigned_divide:
  assumes "d \<noteq> 0"
  shows "SsInt8UnsignedDivide x d = Some (Some (x div d, x mod d))"
proof -
  have "shifted d d (I8_SET_2_U4 0 1 0) 0"
    by (simp add: shifted_def uint_set_2_u4)
  then obtain divisor resbit k where 1:
    "div_shift_loop x d (I8_SET_2_U4 0 1 0) 0 = Some (divisor, resbit, k)" "shifted d divisor resbit k"
    using div_shift_loop [OF _ assms] by blast
  moreover have "uint SsInt8Set0 * uint d + uint x = uint x"
    by (simp add: SsInt8Set0_def uint_set_2_u4)
  ultimately obtain q r where 2: "div_sub_loop x divisor resbit k SsInt8Set0 = Some (q, r)"
    "uint q * uint d + uint r = uint x" "uint r < uint d"
    using div_sub_loop [OF 1(2) assms _ u64_bounds(2)] by blast
  have e: "uint x = uint d * uint q + uint r"
    using 2(2) by (simp add: mult.commute)
  have "uint q = uint x div uint d" "uint r = uint x mod uint d"
    using int_div_pos_eq [OF e u64_bounds(1) 2(3)] int_mod_pos_eq [OF e u64_bounds(1) 2(3)] by simp_all
  then have "q = x div d" "r = x mod d"
    by (simp_all add: word_uint_eq_iff uint_div uint_mod)
  then show ?thesis
    using 1 2 assms by (simp add: SsInt8UnsignedDivide_def is_0_iff)
qed

section \<open>Multiplication\<close>

text \<open>The product of two limbs fits 32 bits, with room for a carry.\<close>

lemma limb_product:
  "uint (ucast (a :: u16) * ucast (b :: u16) :: u32) = uint a * uint b"
  "(ucast (ucast (a :: u16) * ucast (b :: u16) :: u32) :: u64) = ucast a * ucast b"
proof -
  have "uint a * uint b \<le> 65535 * 65535"
    using u16_bounds [of a] u16_bounds [of b] by (intro mult_mono) auto
  then show 1: "uint (ucast a * ucast b :: u32) = uint a * uint b"
    using u16_bounds [of a] u16_bounds [of b]
    by (simp add: uint_word_ariths unsigned_ucast_eq take_bit_int_eq_self)
  have "uint a * uint b < 4294967296"
    using \<open>uint a * uint b \<le> 65535 * 65535\<close> by simp
  then show "(ucast (ucast a * ucast b :: u32) :: u64) = ucast a * ucast b"
    using 1 by (simp add: word_uint_eq_iff uint_word_ariths unsigned_ucast_eq take_bit_int_eq_self)
qed

lemma limb_beyond [simp]: "4 \<le> i \<Longrightarrow> limb i v = 0"
  unfolding limb_def by (rule bit_word_eqI) (auto simp: bit_simps)

lemma mul_uint2_loop_value:
  assumes "shift + i + r = 3"
  shows "fst (mul_uint2_loop i8 u2 shift i r result s) =
    result + (\<Sum>j = i..i + r. push_bit (16 * (shift + j)) (ucast (i8_u2 i8 j) * ucast u2))"
  using assms
proof (induction r arbitrary: i result s)
  case 0
  let ?u4 = "ucast (i8_u2 i8 i) * ucast u2 :: u32"
  have i: "shift + i = 3"
    using 0 by simp
  have "limb 3 (ucast ?u4) = push_bit 48 (ucast ?u4)"
    using limb_u4 [of 3 ?u4] by simp
  then show ?case
    by (simp add: i add_uint2_shift limb_product(2) Let_def)
next
  case (Suc r)
  let ?u4 = "ucast (i8_u2 i8 i) * ucast u2 :: u32"
  have i: "shift + i < 3" "Suc (shift + i) < 4" "shift + Suc i + r = 3"
    using Suc.prems by simp_all
  have e: "result + limb (shift + i) (ucast ?u4) + limb (Suc (shift + i)) (ucast (drop_bit 16 ?u4)) =
      result + push_bit (16 * (shift + i)) (ucast (i8_u2 i8 i) * ucast u2)"
    using limb_u4 [of "shift + i" ?u4] by (simp add: limb_product(2) add.assoc)
  have "\<exists>s'. mul_uint2_loop i8 u2 shift i (Suc r) result s = mul_uint2_loop i8 u2 shift (Suc i) r
      (result + limb (shift + i) (ucast ?u4) + limb (Suc (shift + i)) (ucast (drop_bit 16 ?u4))) s'"
    using i by (subst mul_uint2_loop.simps)
      (simp add: add_uint2_shift Let_def del: mul_uint2_loop.simps, blast)
  then obtain s' where "mul_uint2_loop i8 u2 shift i (Suc r) result s = mul_uint2_loop i8 u2 shift (Suc i) r
      (result + push_bit (16 * (shift + i)) (ucast (i8_u2 i8 i) * ucast u2)) s'"
    unfolding e by blast
  then show ?case
    using Suc.IH [OF i(3)] by (simp add: sum.atLeast_Suc_atMost add.assoc del: mul_uint2_loop.simps)
qed

lemma limbs_sum_right:
  "push_bit n (ucast (i8_u2 x 0) * y) + push_bit (16 + n) (ucast (i8_u2 x (Suc 0)) * y) +
    push_bit (32 + n) (ucast (i8_u2 x 2) * y) + push_bit (48 + n) (ucast (i8_u2 x 3) * y) =
    push_bit n (x * (y :: u64))"
proof -
  have "push_bit n (x * y) = push_bit n ((limb 0 (i8_u2 x 0) + limb 1 (i8_u2 x 1) +
      limb 2 (i8_u2 x 2) + limb 3 (i8_u2 x 3)) * y)"
    by (simp only: limbs_sum One_nat_def)
  then show ?thesis
    by (simp add: limb_def push_bit_eq_mult power_add algebra_simps)
qed

lemma push_bit_beyond [simp]: "64 \<le> n \<Longrightarrow> push_bit n (x :: u64) = 0"
  by (rule bit_word_eqI) (auto simp: bit_simps)

lemma numerals_beyond:
  "(18446744073709551616 :: u64) = 0" "(1208925819614629174706176 :: u64) = 0"
  "(79228162514264337593543950336 :: u64) = 0"
  by (simp_all add: word_uint_eq_iff)

lemma mul_uint2_shift_value:
  assumes "shift < 4"
  shows "fst (SsInt8MultiplyByUint2WithShift p i8 u2 shift) = p + push_bit (16 * shift) (i8 * ucast u2)"
proof -
  have "fst (SsInt8MultiplyByUint2WithShift p i8 u2 shift) =
      p + (\<Sum>j = 0..3 - shift. push_bit (16 * (shift + j)) (ucast (i8_u2 i8 j) * ucast u2))"
    using mul_uint2_loop_value [of shift 0 "3 - shift" i8 u2 p True] assms
    by (simp add: SsInt8MultiplyByUint2WithShift_def Let_def split_def del: mul_uint2_loop.simps)
  also have "\<dots> = p + push_bit (16 * shift) (i8 * ucast u2)"
  proof -
    consider "shift = 0" | "shift = 1" | "shift = 2" | "shift = 3"
      using assms by linarith
    then show ?thesis
      using limbs_sum_right [of "16 * shift" i8 "ucast u2"]
      by cases (simp_all add: numeral_eq_Suc sum.atLeast_Suc_atMost add.assoc numerals_beyond)
  qed
  finally show ?thesis .
qed

lemma mul_int8_step_value:
  "i < 4 \<Longrightarrow> fst (mul_int8_step a b st i) = fst st + push_bit (16 * i) (ucast (i8_u2 b i) * a)"
  using mul_uint2_shift_value [of i "fst st" a "i8_u2 b i"]
  by (auto simp: mul_int8_step_def Let_def split_def mult.commute)

lemma mul_fold_value: "fst (foldl (mul_int8_step a b) (0, ok) [0, 1, 2, 3]) = a * b"
  using limbs_sum_right [of 0 b a] by (simp add: mul_int8_step_value mult.commute)

lemma multiply_int8_value: "fst (SsInt8MultiplyByInt8 a b) = a * b"
proof -
  have z: "SsInt8Set0 = 0"
    by (simp add: SsInt8Set0_def word_uint_eq_iff uint_set_2_u4)
  show ?thesis
    unfolding SsInt8MultiplyByInt8_def Let_def negate z
    by (auto simp: split_def negate mul_fold_value simp del: foldl.simps One_nat_def)
qed

lemma signed64_negate:
  assumes "0 \<le> x" "x < 18446744073709551616" "x \<noteq> 9223372036854775808"
  shows "signed64 (if x = 0 then 0 else 18446744073709551616 - x) = - signed64 x"
  using assms by (auto simp: signed64_def)

lemma sint_negate: "b \<noteq> 0x8000000000000000 \<Longrightarrow> sint (- b :: u64) = - sint b"
proof -
  assume "b \<noteq> 0x8000000000000000"
  then have "uint b \<noteq> 9223372036854775808"
    by (simp add: word_uint_eq_iff)
  moreover have "uint (- b) = (if uint b = 0 then 0 else 18446744073709551616 - uint b)"
    using u64_bounds [of b] by (simp add: uint_word_ariths zmod_zminus1_eq_if)
  ultimately show ?thesis
    using signed64_negate [OF u64_bounds, of b] unfolding sint_signed64 by simp
qed

section \<open>Properties\<close>

text \<open>
  Addition of 64-bit integers by carrying through four 16-bit limbs is the two's complement sum,
  and the success flag is set exactly when the mathematical sum of the signed values fits 64 bits.
\<close>

theorem int8_add_exact:
  "SsInt8AddInt8 a b = (a + b, in_int64 (sint a + sint b)) \<and>
    (snd (SsInt8AddInt8 a b) \<longrightarrow> sint (fst (SsInt8AddInt8 a b)) = sint a + sint b)"
  by (simp add: add_int8 sint_exact_add)

lemma int8_add_exact_witness:
  "SsInt8AddInt8 (- 1) 0x10000 = (0xFFFF, True)"
  using int8_add_exact [of "- 1" "0x10000"] by (simp add: in_int64_def)

text \<open>
  Subtraction negates and adds. The result is always the two's complement difference, but for
  the smallest integer as subtrahend the flag reports a failure even where the difference is
  representable: -1 minus the smallest integer is the largest one, and is refused.
\<close>

theorem int8_subtract_flag:
  "fst (SsInt8SubtractInt8 a b) = a - b \<and>
    (snd (SsInt8SubtractInt8 a b) \<longleftrightarrow> b \<noteq> 0x8000000000000000 \<and> in_int64 (sint a - sint b)) \<and>
    SsInt8SubtractInt8 0xFFFFFFFFFFFFFFFF 0x8000000000000000 = (0x7FFFFFFFFFFFFFFF, False)"
proof -
  have m: "sint (- b) = - sint b" if "b \<noteq> 0x8000000000000000"
    by (rule sint_negate [OF that])
  have "snd (SsInt8SubtractInt8 a b) \<longleftrightarrow> b \<noteq> 0x8000000000000000 \<and> in_int64 (sint a - sint b)"
    unfolding subtract_int8 negate_min using m by auto
  moreover have "SsInt8SubtractInt8 0xFFFFFFFFFFFFFFFF 0x8000000000000000 = (0x7FFFFFFFFFFFFFFF, False)"
    unfolding subtract_int8 negate_min by simp
  ultimately show ?thesis
    by (simp add: subtract_int8)
qed

text \<open>The comparison of 64-bit integers by limbs is the order of their signed values.\<close>

theorem int8_cmp_signed: "sgn (SsInt8Cmp a b) = three_way (sint a) (sint b)"
  by (rule cmp_sgn)

text \<open>
  C38. Division of 64-bit integers by shifting and subtracting ends for every dividend and every
  nonzero divisor, and its quotient and remainder are those of the unsigned values; a zero divisor
  is reported as an error.
\<close>

theorem int8_unsigned_divide:
  "SsInt8UnsignedDivide x d = Some (if d = 0 then None else Some (x div d, x mod d))"
  using unsigned_divide [of d x] by (simp add: SsInt8UnsignedDivide_def is_0_iff)

text \<open>
  C39. The product of 64-bit integers by limbs is the two's complement product, but the success
  flag misses overflows: limbs of the first factor that the shift moves out of the result are never
  looked at. The product of \<open>2 ^ 48\<close> and \<open>2 ^ 16\<close> is reported as a successful 0.
\<close>

theorem int8_multiply_overflow_unreported:
  "fst (SsInt8MultiplyByInt8 a b) = a * b \<and>
    SsInt8MultiplyByInt8 0x1000000000000 0x10000 = (0, True)"
proof
  show "fst (SsInt8MultiplyByInt8 a b) = a * b"
    by (rule multiply_int8_value)
  show "SsInt8MultiplyByInt8 0x1000000000000 0x10000 = (0, True)"
    by code_simp
qed

end
