(* ===== verification/Tuple_Num.thy ===== *)
theory Tuple_Num
  imports Va_Base Ss_Int8
begin

text \<open>
  Tuple numbers (\<^verbatim>\<open>res/rs0tnum.c\<close>, \<^verbatim>\<open>include/rs0tnum.h\<close>): the 64-bit row counter of a table, kept
  as eight bytes with the most significant first, and stored in an index as a v-attribute of a
  length byte and the bytes after the leading zeros, so that v-attributes compare as numbers.
\<close>

section \<open>Operations\<close>

type_synonym rs_tuplenum_t = "u8 list"

definition RS_TUPLENUM_SIZE :: nat where "RS_TUPLENUM_SIZE = 8"

definition rs_tuplenum_init :: rs_tuplenum_t where
  "rs_tuplenum_init = replicate RS_TUPLENUM_SIZE 0"

text \<open>The arguments are \<^verbatim>\<open>ulong\<close>; the store macro keeps their low 32 bits.\<close>

definition rs_tuplenum_ulonginit :: "u64 \<Rightarrow> u64 \<Rightarrow> rs_tuplenum_t" where
  "rs_tuplenum_ulonginit msl lsl =
    SS_UINT4_STORE_MSB1ST (ucast msl) @ SS_UINT4_STORE_MSB1ST (ucast lsl)"

definition rs_tuplenum_int8init :: "ss_int8_t \<Rightarrow> rs_tuplenum_t" where
  "rs_tuplenum_int8init i8 =
    SS_UINT4_STORE_MSB1ST (SsInt8GetMostSignificantUint4 i8) @
    SS_UINT4_STORE_MSB1ST (SsInt8GetLeastSignificantUint4 i8)"

text \<open>
  The loop that steps over leading zero bytes is a recursion on the bytes not yet looked at; the
  v-attribute is written to a buffer \<open>target\<close>.
\<close>

fun tnum_skip_zeros :: "u8 list \<Rightarrow> u8 list" where
  "tnum_skip_zeros [] = []"
| "tnum_skip_zeros (b # bs) = (if b = 0 then tnum_skip_zeros bs else b # bs)"

definition rs_tuplenum_getva :: "rs_tuplenum_t \<Rightarrow> u8 list \<Rightarrow> u8 list" where
  "rs_tuplenum_getva tnum target =
    (let rest = tnum_skip_zeros tnum; len = length rest;
         vadata = (word_of_nat len :: u8) # rest
     in va_setdata target (Some vadata) (word_of_nat (len + 1)))"

text \<open>\<^verbatim>\<open>*data\<close> is a \<^verbatim>\<open>char\<close>; the lengths written are 0 to 8, so its sign does not matter.\<close>

definition rs_tuplenum_gettuplenumfromva :: "u8 list \<Rightarrow> rs_tuplenum_t" where
  "rs_tuplenum_gettuplenumfromva va =
    (let (p, _) = va_getdata va; len = unat (p ! 0); zerolen = RS_TUPLENUM_SIZE - len
     in replicate zerolen 0 @ take len (drop 1 p))"

definition rs_tuplenum_cmp :: "rs_tuplenum_t \<Rightarrow> rs_tuplenum_t \<Rightarrow> int" where
  "rs_tuplenum_cmp tnum1 tnum2 = va_compare (rs_tuplenum_getva tnum1 []) (rs_tuplenum_getva tnum2 [])"

definition rs_tuplenum_getlsl :: "rs_tuplenum_t \<Rightarrow> u64" where
  "rs_tuplenum_getlsl tnum = ucast (SS_UINT4_LOAD_MSB1ST (drop 4 tnum))"

definition rs_tuplenum_getmsl :: "rs_tuplenum_t \<Rightarrow> u64" where
  "rs_tuplenum_getmsl tnum = ucast (SS_UINT4_LOAD_MSB1ST tnum)"

definition rs_tuplenum_inc :: "rs_tuplenum_t \<Rightarrow> rs_tuplenum_t" where
  "rs_tuplenum_inc tnum =
    (let tl_2 = SS_UINT4_LOAD_MSB1ST (drop 4 tnum)
     in if tl_2 = 0xFFFFFFFF
        then let tl_1 = SS_UINT4_LOAD_MSB1ST tnum + 1
             in buf_write 4 (SS_UINT4_STORE_MSB1ST 0) (buf_write 0 (SS_UINT4_STORE_MSB1ST tl_1) tnum)
        else buf_write 4 (SS_UINT4_STORE_MSB1ST (tl_2 + 1)) tnum)"

definition rs_tuplenum_getint8 :: "rs_tuplenum_t \<Rightarrow> ss_int8_t" where
  "rs_tuplenum_getint8 tnum =
    SsInt8Set2Uint4s 0 (SS_UINT4_LOAD_MSB1ST tnum) (SS_UINT4_LOAD_MSB1ST (drop 4 tnum))"

section \<open>The number of a tuple number\<close>

text \<open>A tuple number has eight bytes; its number is their value.\<close>

definition tnum_ok :: "rs_tuplenum_t \<Rightarrow> bool" where
  "tnum_ok tnum \<longleftrightarrow> length tnum = 8"

lemma int8init_ok [simp]: "tnum_ok (rs_tuplenum_int8init i8)"
  by (simp add: tnum_ok_def rs_tuplenum_int8init_def)

lemma getint8_int8init: "rs_tuplenum_getint8 (rs_tuplenum_int8init i8) = i8"
proof -
  have "SS_UINT4_LOAD_MSB1ST (rs_tuplenum_int8init i8) = i8_u4 i8 1"
    "SS_UINT4_LOAD_MSB1ST (drop 4 (rs_tuplenum_int8init i8)) = i8_u4 i8 0"
    using load_store4_msb1st [of "i8_u4 i8 0" "[]"]
    by (simp_all add: rs_tuplenum_int8init_def SsInt8GetMostSignificantUint4_def
        SsInt8GetLeastSignificantUint4_def)
  then show ?thesis
    by (simp add: rs_tuplenum_getint8_def SsInt8Set2Uint4s_def)
qed

lemma be_val_int8init: "be_val (rs_tuplenum_int8init i8) = uint i8"
proof -
  have "uint i8 = uint (i8_u4 i8 1) * 4294967296 + uint (i8_u4 i8 0)"
    using uint_set_2_u4 [of "i8_u4 i8 1" "i8_u4 i8 0" i8] by simp
  then show ?thesis
    by (simp add: rs_tuplenum_int8init_def be_val_append be_val_store4_msb1st
        SsInt8GetMostSignificantUint4_def SsInt8GetLeastSignificantUint4_def)
qed

lemma int8init_getint8:
  assumes "tnum_ok t"
  shows "rs_tuplenum_int8init (rs_tuplenum_getint8 t) = t"
proof -
  obtain a b c d e f g h where t: "t = [a, b, c, d, e, f, g, h]"
    using assms by (auto simp: tnum_ok_def length_Suc_conv numeral_eq_Suc)
  have "SS_UINT4_STORE_MSB1ST (SS_UINT4_LOAD_MSB1ST (w # x # y # z # r)) = [w, x, y, z]"
    for w x y z and r :: "u8 list"
    by (simp add: SS_UINT4_STORE_MSB1ST_def) (intro conjI; rule bit_word_eqI; auto simp: bit_simps)
  then show ?thesis
    by (simp add: t rs_tuplenum_int8init_def rs_tuplenum_getint8_def SsInt8Set2Uint4s_def
        SsInt8GetMostSignificantUint4_def SsInt8GetLeastSignificantUint4_def
        del: SS_UINT4_LOAD_MSB1ST.simps)
qed

lemma uint_getint8: "tnum_ok t \<Longrightarrow> uint (rs_tuplenum_getint8 t) = be_val t"
  using be_val_int8init [of "rs_tuplenum_getint8 t"] by (simp add: int8init_getint8)

section \<open>The stored form\<close>

text \<open>The v-attribute data of a tuple number: the count of its significant bytes, then the bytes.\<close>

definition tnum_data :: "rs_tuplenum_t \<Rightarrow> u8 list" where
  "tnum_data tnum = word_of_nat (length (tnum_skip_zeros tnum)) # tnum_skip_zeros tnum"

lemma skip_zeros_length: "length (tnum_skip_zeros t) \<le> length t"
  by (induction t) (auto simp: le_SucI)

lemma skip_zeros_split: "t = replicate (length t - length (tnum_skip_zeros t)) 0 @ tnum_skip_zeros t"
proof (induction t)
  case (Cons b t)
  then show ?case
    using skip_zeros_length [of t] by (cases "b = 0") (simp_all add: Suc_diff_le)
qed simp

lemma be_val_zeros [simp]: "be_val (replicate n 0 @ bs) = be_val bs"
  by (induction n) simp_all

lemma be_val_skip_zeros: "be_val (tnum_skip_zeros t) = be_val t"
  by (induction t) auto

lemma skip_zeros_value:
  "tnum_skip_zeros t \<noteq> [] \<Longrightarrow> 256 ^ (length (tnum_skip_zeros t) - 1) \<le> be_val (tnum_skip_zeros t)"
proof (induction t)
  case (Cons b t)
  have "256 ^ length t \<le> uint b * 256 ^ length t" if "b \<noteq> 0"
    using u8_pos [OF that] mult_right_mono [of 1 "uint b" "256 ^ length t"] by simp
  with Cons show ?case
    by (auto simp: add_increasing2)
qed simp

lemma tnum_data_fits: "tnum_ok t \<Longrightarrow> va_cmpable (tnum_data t)"
  using skip_zeros_length [of t] by (simp add: tnum_data_def va_cmpable_def tnum_ok_def)

lemma getva_encode:
  assumes "tnum_ok t"
  shows "rs_tuplenum_getva t target =
    va_encode (tnum_data t) @ drop (length (va_encode (tnum_data t))) target"
  using setdata_encode [OF va_cmpable_fits [OF tnum_data_fits [OF assms]], of target "[]"]
  by (simp add: rs_tuplenum_getva_def tnum_data_def Let_def)

text \<open>More significant bytes mean a larger number; with as many, the bytes decide.\<close>

lemma tnum_data_less:
  assumes "tnum_ok s" "tnum_ok t" "be_val s < be_val t"
  shows "tnum_data s < tnum_data t"
proof -
  let ?s = "tnum_skip_zeros s" and ?t = "tnum_skip_zeros t"
  have l: "length ?s \<le> 8" "length ?t \<le> 8"
    using assms skip_zeros_length [of s] skip_zeros_length [of t] by (simp_all add: tnum_ok_def)
  have v: "be_val ?s < be_val ?t"
    using assms by (simp add: be_val_skip_zeros)
  have "length ?s \<le> length ?t"
  proof (rule ccontr)
    assume "\<not> length ?s \<le> length ?t"
    then have "256 ^ length ?t \<le> (256::int) ^ (length ?s - 1)"
      by (intro power_increasing) auto
    moreover have "256 ^ (length ?s - 1) \<le> be_val ?s"
      using \<open>\<not> length ?s \<le> length ?t\<close> by (intro skip_zeros_value) auto
    ultimately show False
      using v be_val_bound [of ?t] by linarith
  qed
  moreover have "?s < ?t" if "length ?s = length ?t"
    using that v by (rule be_val_less_lex)
  ultimately show ?thesis
    using l by (auto simp: tnum_data_def word_less_nat_alt unat_of_nat order_le_less)
qed

lemma be_val_tnum_inject: "tnum_ok s \<Longrightarrow> tnum_ok t \<Longrightarrow> be_val s = be_val t \<longleftrightarrow> s = t"
  by (simp add: tnum_ok_def be_val_inject)

interpretation tnum_order: cmp_order rs_tuplenum_cmp tnum_ok be_val
proof
  fix s t
  assume st: "tnum_ok s" "tnum_ok t"
  have "rs_tuplenum_cmp s t = va_compare (va_encode (tnum_data s)) (va_encode (tnum_data t))"
    using getva_encode [OF st(1), of "[]"] getva_encode [OF st(2), of "[]"]
    by (simp add: rs_tuplenum_cmp_def)
  then have "sgn (rs_tuplenum_cmp s t) = three_way (tnum_data s) (tnum_data t)"
    using va_order.cmp_val [OF tnum_data_fits [OF st(1)] tnum_data_fits [OF st(2)]] by simp
  also have "\<dots> = three_way (be_val s) (be_val t)"
    using tnum_data_less [OF st] tnum_data_less [OF st(2,1)] be_val_tnum_inject [OF st]
    by (cases "be_val s" "be_val t" rule: linorder_cases) (auto simp: three_way_def)
  finally show "sgn (rs_tuplenum_cmp s t) = three_way (be_val s) (be_val t)" .
qed

lemma inc_value:
  assumes "tnum_ok t"
  shows "rs_tuplenum_getint8 (rs_tuplenum_inc t) = rs_tuplenum_getint8 t + 1"
    and "tnum_ok (rs_tuplenum_inc t)"
proof -
  define hi lo where "hi = SS_UINT4_LOAD_MSB1ST t" and "lo = SS_UINT4_LOAD_MSB1ST (drop 4 t)"
  have t: "length t = 8"
    using assms by (simp add: tnum_ok_def)
  then show "tnum_ok (rs_tuplenum_inc t)"
    by (simp add: rs_tuplenum_inc_def tnum_ok_def Let_def buf_write_def)
  have g: "rs_tuplenum_getint8 t = I8_SET_2_U4 hi lo 0"
    by (simp add: rs_tuplenum_getint8_def SsInt8Set2Uint4s_def hi_def lo_def)
  have s: "SS_UINT4_STORE_MSB1ST hi @ SS_UINT4_STORE_MSB1ST lo = t"
    using int8init_getint8 [OF assms] unfolding g
    by (simp add: rs_tuplenum_int8init_def SsInt8GetMostSignificantUint4_def
        SsInt8GetLeastSignificantUint4_def)
  have l: "SS_UINT4_LOAD_MSB1ST (SS_UINT4_STORE_MSB1ST v) = v" for v
    using load_store4_msb1st [of v "[]"] by simp
  have "rs_tuplenum_inc t = (if lo = 0xFFFFFFFF
      then SS_UINT4_STORE_MSB1ST (hi + 1) @ SS_UINT4_STORE_MSB1ST 0
      else SS_UINT4_STORE_MSB1ST hi @ SS_UINT4_STORE_MSB1ST (lo + 1))"
    unfolding rs_tuplenum_inc_def Let_def hi_def [symmetric] lo_def [symmetric]
    by (subst (1 2) s [symmetric]) (simp add: buf_write_def)
  then have "rs_tuplenum_getint8 (rs_tuplenum_inc t) =
      (if lo = 0xFFFFFFFF then I8_SET_2_U4 (hi + 1) 0 0 else I8_SET_2_U4 hi (lo + 1) 0)"
    by (simp add: rs_tuplenum_getint8_def SsInt8Set2Uint4s_def l)
  then have "uint (rs_tuplenum_getint8 (rs_tuplenum_inc t)) = (if lo = 0xFFFFFFFF
      then uint (hi + 1) * 4294967296 else uint hi * 4294967296 + uint (lo + 1))"
    by (simp add: uint_set_2_u4)
  also have "\<dots> = uint (I8_SET_2_U4 hi lo 0 + 1)"
  proof -
    have "uint hi < 4294967295" if "hi \<noteq> 0xFFFFFFFF"
      using u32_bounds [of hi] that by (simp add: word_uint_eq_iff)
    moreover have "uint lo < 4294967295" if "lo \<noteq> 0xFFFFFFFF"
      using u32_bounds [of lo] that by (simp add: word_uint_eq_iff)
    ultimately show ?thesis
      using u32_bounds [of hi]
      by (cases "hi = 0xFFFFFFFF"; cases "lo = 0xFFFFFFFF")
        (auto simp: uint_set_2_u4 uint_plus_if')
  qed
  finally show "rs_tuplenum_getint8 (rs_tuplenum_inc t) = rs_tuplenum_getint8 t + 1"
    by (simp add: g word_uint_eq_iff)
qed

section \<open>Properties\<close>

text \<open>
  Writing a tuple number as a v-attribute and reading it back gives the same eight bytes, for
  every number of leading zero bytes.
\<close>

theorem tuplenum_va_roundtrip:
  assumes "tnum_ok t"
  shows "rs_tuplenum_gettuplenumfromva (rs_tuplenum_getva t target) = t"
proof -
  have "length (tnum_skip_zeros t) \<le> 8"
    using assms skip_zeros_length [of t] by (simp add: tnum_ok_def)
  moreover have "va_fits (tnum_data t)"
    by (rule va_cmpable_fits [OF tnum_data_fits [OF assms]])
  ultimately show ?thesis
    using skip_zeros_split [of t] assms unfolding getva_encode [OF assms]
    by (simp add: rs_tuplenum_gettuplenumfromva_def tnum_data_def unat_of_nat tnum_ok_def
        RS_TUPLENUM_SIZE_def)
qed

lemma tuplenum_va_roundtrip_witness:
  "rs_tuplenum_gettuplenumfromva (rs_tuplenum_getva [0, 0, 0, 0, 0, 1, 0, 2] [7, 7]) =
    [0, 0, 0, 0, 0, 1, 0, 2]"
  by (rule tuplenum_va_roundtrip) (simp add: tnum_ok_def)

text \<open>
  Incrementing a tuple number adds one to its 64-bit value, carrying from the low into the
  high half, and the stored forms of any two tuple numbers compare as their values: after an
  increment that does not wrap the new number compares greater than the old one.
\<close>

theorem tuplenum_inc_order:
  assumes "tnum_ok s" "tnum_ok t"
  shows "rs_tuplenum_getint8 (rs_tuplenum_inc t) = rs_tuplenum_getint8 t + 1 \<and>
    sgn (rs_tuplenum_cmp s t) = three_way (rs_tuplenum_getint8 s) (rs_tuplenum_getint8 t) \<and>
    (rs_tuplenum_getint8 t \<noteq> 0xFFFFFFFFFFFFFFFF \<longrightarrow> rs_tuplenum_cmp (rs_tuplenum_inc t) t > 0)"
proof (intro conjI impI)
  show i: "rs_tuplenum_getint8 (rs_tuplenum_inc t) = rs_tuplenum_getint8 t + 1"
    by (rule inc_value [OF assms(2)])
  show "sgn (rs_tuplenum_cmp s t) = three_way (rs_tuplenum_getint8 s) (rs_tuplenum_getint8 t)"
    using tnum_order.cmp_val [OF assms] uint_getint8 [OF assms(1)] uint_getint8 [OF assms(2)]
    by (auto simp: three_way_def word_less_def word_uint_eq_iff)
  assume "rs_tuplenum_getint8 t \<noteq> 0xFFFFFFFFFFFFFFFF"
  then have "uint (rs_tuplenum_getint8 t) \<noteq> 18446744073709551615"
    by (simp add: word_uint_eq_iff)
  then have "uint (rs_tuplenum_getint8 t + 1) = uint (rs_tuplenum_getint8 t) + 1"
    using u64_bounds [of "rs_tuplenum_getint8 t"] by (simp add: uint_plus_if')
  then show "rs_tuplenum_cmp (rs_tuplenum_inc t) t > 0"
    unfolding tnum_order.greater_iff [OF inc_value(2) [OF assms(2)] assms(2)]
      uint_getint8 [OF assms(2), symmetric] uint_getint8 [OF inc_value(2) [OF assms(2)], symmetric] i
    by simp
qed

lemma tuplenum_inc_order_witness:
  "rs_tuplenum_getint8 (rs_tuplenum_inc [0,0,0,0,0,0,0,255]) =
      rs_tuplenum_getint8 [0,0,0,0,0,0,0,255] + 1 \<and>
    sgn (rs_tuplenum_cmp [0,0,0,0,0,0,1,0] [0,0,0,0,0,0,0,255]) =
      three_way (rs_tuplenum_getint8 [0,0,0,0,0,0,1,0]) (rs_tuplenum_getint8 [0,0,0,0,0,0,0,255])"
  using tuplenum_inc_order [of "[0,0,0,0,0,0,1,0]" "[0,0,0,0,0,0,0,255]"]
  by (simp only: tnum_ok_def) simp

end
