(* ===== verification/Counter.thy ===== *)
theory Counter
  imports Trx_Num Tuple_Num
begin

text \<open>
  The database counters (\<^verbatim>\<open>dbe/dbe7ctr.c\<close>, \<^verbatim>\<open>include/dbe7ctr.h\<close>): transaction ids and numbers
  kept as two 32-bit words, tuple numbers, object ids, and their exchange with the start record
  on disk and with the replica of a hot-standby pair. The record has the fields of
  \<^verbatim>\<open>struct dbe_counter_st\<close> but for its mutexes, which make each operation atomic; a function that
  returns a value and changes the counters returns the pair of both, and one that can stop the
  program at an assertion returns an option. The monitor values (\<^verbatim>\<open>SS_PMON_SET\<close>) are not part of
  the state.
\<close>

section \<open>State\<close>

record trxctr_t =
  tc_lo :: u32
  tc_hi :: u32

record dbe_counter_t =
  ctr_trxid :: trxctr_t
  ctr_maxtrxnum :: trxctr_t
  ctr_committrxnum :: trxctr_t
  ctr_mergetrxnum :: trxctr_t
  ctr_storagetrxnum :: trxctr_t
  ctr_cpnum :: u32
  ctr_tuplenum :: rs_tuplenum_t
  ctr_attrid :: u64
  ctr_keyid :: u64
  ctr_userid :: u64
  ctr_logfnum :: u32
  ctr_blobg2id :: ss_int8_t
  ctr_mergectr :: u64
  ctr_tupleversion :: rs_tuplenum_t
  ctr_syncmsgid :: u64
  ctr_synctupleversion :: rs_tuplenum_t
  ctr_attrid_used :: "bool list option"
  ctr_attrid_idx :: int
  ctr_keyid_used :: "bool list option"
  ctr_keyid_idx :: int
  ctr_convert :: bool
  ctr_activemergetrxnum :: dbe_trxnum_t

text \<open>The start record of the index file; the disk addresses are not touched here.\<close>

record dbe_startrec_t =
  sr_cpnum :: u32
  sr_bonsairoot :: u32
  sr_permroot :: u32
  sr_freelistaddr :: u32
  sr_chlistaddr :: u32
  sr_cplistaddr :: u32
  sr_trxlistaddr :: u32
  sr_filesize :: u32
  sr_maxtrxnum :: u32
  sr_maxtrxnum_res :: u32
  sr_committrxnum :: u32
  sr_committrxnum_res :: u32
  sr_mergetrxnum :: u32
  sr_mergetrxnum_res :: u32
  sr_trxid :: u32
  sr_trxid_res :: u32
  sr_tuplenum :: rs_tuplenum_t
  sr_attrid :: u32
  sr_keyid :: u32
  sr_userid :: u32
  sr_logfnum :: u32
  sr_blobg2id :: ss_int8_t
  sr_mergectr :: u32
  sr_tupleversion :: rs_tuplenum_t
  sr_stmttrxlistaddr :: u32
  sr_sequencelistaddr :: u32
  sr_mmiroot :: u32
  sr_rtrxlistaddr :: u32
  sr_syncmsgid :: u32
  sr_synctupleversion :: rs_tuplenum_t
  sr_firstmmeaddrpage :: u32
  sr_storagetrxnum :: u32
  sr_storagetrxnum_res :: u32

datatype dbe_sysctrid_t =
    DBE_CTR_TRXID | DBE_CTR_MAXTRXNUM | DBE_CTR_COMMITTRXNUM | DBE_CTR_MERGETRXNUM | DBE_CTR_CPNUM
  | DBE_CTR_TUPLENUM | DBE_CTR_ATTRID | DBE_CTR_KEYID | DBE_CTR_USERID | DBE_CTR_LOGFNUM
  | DBE_CTR_BLOBID | DBE_CTR_MERGECTR | DBE_CTR_TUPLEVERSION | DBE_CTR_SYNCMSGID
  | DBE_CTR_SYNCTUPLEVERSION | DBE_CTR_BLOBG2ID | DBE_CTR_STORAGETRXNUM

definition DBE_SYS_SQL_ID_START :: int where "DBE_SYS_SQL_ID_START = 8000"
definition DBE_USER_ID_START :: int where "DBE_USER_ID_START = 10000"

section \<open>Two-word counters\<close>

definition trxctr_init :: "u32 \<Rightarrow> u32 \<Rightarrow> trxctr_t" where
  "trxctr_init low high = \<lparr>tc_lo = low, tc_hi = high\<rparr>"

text \<open>The increment is a nonnegative \<^verbatim>\<open>ss_int4_t\<close>, added as a word.\<close>

definition trxctr_inc :: "trxctr_t \<Rightarrow> u32 \<Rightarrow> u32 \<times> trxctr_t" where
  "trxctr_inc trxctr increment =
    (let nv = tc_lo trxctr + increment
     in if nv - 1 \<ge> DBE_CTR_MAXLIMIT - 1
        then (1, trxctr\<lparr>tc_hi := tc_hi trxctr + 1, tc_lo := 1\<rparr>)
        else (nv, trxctr\<lparr>tc_lo := nv\<rparr>))"

definition trxctr_cmp :: "trxctr_t \<Rightarrow> trxctr_t \<Rightarrow> int" where
  "trxctr_cmp trxctr1 trxctr2 =
    (let (cmp1, cmp2) =
       (if tc_hi trxctr1 = tc_hi trxctr2 then (tc_lo trxctr1, tc_lo trxctr2)
        else (tc_hi trxctr1, tc_hi trxctr2))
     in if cmp1 < cmp2 then - 1 else if cmp1 > cmp2 then 1 else 0)"

definition trxctr_calculatehigh4bytes :: "trxctr_t \<Rightarrow> u32 \<Rightarrow> u32" where
  "trxctr_calculatehigh4bytes trxctr low4bytes =
    (let diff = sint (tc_lo trxctr - low4bytes)
     in if diff < 0 \<and> low4bytes < tc_lo trxctr then tc_hi trxctr + 1
        else if diff > 0 \<and> low4bytes > tc_lo trxctr then tc_hi trxctr - 1
        else tc_hi trxctr)"

definition trxctr_setlow4bytes :: "trxctr_t \<Rightarrow> u32 \<Rightarrow> trxctr_t" where
  "trxctr_setlow4bytes trxctr low4bytes =
    (let high4bytes = trxctr_calculatehigh4bytes trxctr low4bytes
     in trxctr\<lparr>tc_hi := high4bytes, tc_lo := low4bytes\<rparr>)"

section \<open>Start and end of life\<close>

definition dbe_counter_init :: dbe_counter_t where
  "dbe_counter_init = \<lparr>
    ctr_trxid = trxctr_init 0 0,
    ctr_maxtrxnum = trxctr_init 1 0,
    ctr_committrxnum = trxctr_init 0 0,
    ctr_mergetrxnum = trxctr_init 0 0,
    ctr_storagetrxnum = trxctr_init 0 0,
    ctr_cpnum = 1,
    ctr_tuplenum = rs_tuplenum_init,
    ctr_attrid = word_of_int DBE_SYS_SQL_ID_START,
    ctr_keyid = word_of_int DBE_SYS_SQL_ID_START,
    ctr_userid = 1,
    ctr_logfnum = 1,
    ctr_blobg2id = SsInt8Set2Uint4s 0 0 1,
    ctr_mergectr = 0,
    ctr_tupleversion = rs_tuplenum_init,
    ctr_syncmsgid = 0,
    ctr_synctupleversion = rs_tuplenum_init,
    ctr_attrid_used = None,
    ctr_attrid_idx = - 1,
    ctr_keyid_used = None,
    ctr_keyid_idx = - 1,
    ctr_convert = False,
    ctr_activemergetrxnum = DBE_TRXNUM_NULL\<rparr>"

definition dbe_counter_convert_init ::
  "dbe_counter_t \<Rightarrow> bool list \<Rightarrow> bool list \<Rightarrow> dbe_counter_t" where
  "dbe_counter_convert_init ctr used_attrid used_keyid =
    ctr\<lparr>ctr_convert := False, ctr_attrid_used := Some used_attrid,
        ctr_attrid_idx := DBE_SYS_SQL_ID_START, ctr_keyid_used := Some used_keyid,
        ctr_keyid_idx := DBE_SYS_SQL_ID_START\<rparr>"

definition dbe_counter_convert_set :: "dbe_counter_t \<Rightarrow> bool \<Rightarrow> dbe_counter_t" where
  "dbe_counter_convert_set ctr b = ctr\<lparr>ctr_convert := b\<rparr>"

definition dbe_counter_convert_done :: "dbe_counter_t \<Rightarrow> dbe_counter_t" where
  "dbe_counter_convert_done ctr =
    ctr\<lparr>ctr_convert := False, ctr_attrid_used := None, ctr_keyid_used := None,
        ctr_synctupleversion := rs_tuplenum_inc (ctr_synctupleversion ctr)\<rparr>"

definition dbe_counter_newdbinit :: "dbe_counter_t \<Rightarrow> dbe_counter_t" where
  "dbe_counter_newdbinit ctr =
    ctr\<lparr>ctr_attrid := word_of_int DBE_USER_ID_START, ctr_keyid := word_of_int DBE_USER_ID_START,
        ctr_synctupleversion := rs_tuplenum_inc (ctr_synctupleversion ctr)\<rparr>"

definition dbe_counter_getinfofromstartrec :: "dbe_counter_t \<Rightarrow> dbe_startrec_t \<Rightarrow> dbe_counter_t" where
  "dbe_counter_getinfofromstartrec ctr sr =
    ctr\<lparr>ctr_cpnum := sr_cpnum sr,
        ctr_logfnum := sr_logfnum sr,
        ctr_maxtrxnum := trxctr_init (sr_maxtrxnum sr) (sr_maxtrxnum_res sr),
        ctr_committrxnum := trxctr_init (sr_committrxnum sr) (sr_committrxnum_res sr),
        ctr_mergetrxnum := trxctr_init (sr_mergetrxnum sr) (sr_mergetrxnum_res sr),
        ctr_storagetrxnum := trxctr_init (sr_storagetrxnum sr) (sr_storagetrxnum_res sr),
        ctr_trxid := trxctr_init (sr_trxid sr) (sr_trxid_res sr),
        ctr_tuplenum := sr_tuplenum sr,
        ctr_attrid := ucast (sr_attrid sr),
        ctr_keyid := ucast (sr_keyid sr),
        ctr_userid := ucast (sr_userid sr),
        ctr_blobg2id := sr_blobg2id sr,
        ctr_mergectr := ucast (sr_mergectr sr),
        ctr_tupleversion := sr_tupleversion sr,
        ctr_syncmsgid := ucast (sr_syncmsgid sr),
        ctr_synctupleversion := sr_synctupleversion sr\<rparr>"

definition dbe_counter_putinfotostartrec :: "dbe_counter_t \<Rightarrow> dbe_startrec_t \<Rightarrow> dbe_startrec_t" where
  "dbe_counter_putinfotostartrec ctr sr =
    sr\<lparr>sr_cpnum := ctr_cpnum ctr,
       sr_logfnum := ctr_logfnum ctr,
       sr_maxtrxnum := tc_lo (ctr_maxtrxnum ctr),
       sr_maxtrxnum_res := tc_hi (ctr_maxtrxnum ctr),
       sr_committrxnum := tc_lo (ctr_committrxnum ctr),
       sr_committrxnum_res := tc_hi (ctr_committrxnum ctr),
       sr_mergetrxnum := tc_lo (ctr_mergetrxnum ctr),
       sr_mergetrxnum_res := tc_hi (ctr_mergetrxnum ctr),
       sr_storagetrxnum := tc_lo (ctr_storagetrxnum ctr),
       sr_storagetrxnum_res := tc_hi (ctr_storagetrxnum ctr),
       sr_trxid := tc_lo (ctr_trxid ctr),
       sr_trxid_res := tc_hi (ctr_trxid ctr),
       sr_tuplenum := ctr_tuplenum ctr,
       sr_attrid := ucast (ctr_attrid ctr),
       sr_keyid := ucast (ctr_keyid ctr),
       sr_userid := ucast (ctr_userid ctr),
       sr_blobg2id := ctr_blobg2id ctr,
       sr_mergectr := ucast (ctr_mergectr ctr),
       sr_tupleversion := ctr_tupleversion ctr,
       sr_syncmsgid := ucast (ctr_syncmsgid ctr),
       sr_synctupleversion := ctr_synctupleversion ctr\<rparr>"

section \<open>Transaction ids and numbers\<close>

definition dbe_counter_gettrxid :: "dbe_counter_t \<Rightarrow> dbe_trxid_t" where
  "dbe_counter_gettrxid ctr = tc_lo (ctr_trxid ctr)"

definition dbe_counter_getcommittrxnum :: "dbe_counter_t \<Rightarrow> dbe_trxnum_t" where
  "dbe_counter_getcommittrxnum ctr = tc_lo (ctr_committrxnum ctr)"

definition dbe_counter_getmaxtrxnum :: "dbe_counter_t \<Rightarrow> dbe_trxnum_t" where
  "dbe_counter_getmaxtrxnum ctr = tc_lo (ctr_maxtrxnum ctr)"

definition dbe_counter_getmergetrxnum :: "dbe_counter_t \<Rightarrow> dbe_trxnum_t" where
  "dbe_counter_getmergetrxnum ctr = tc_lo (ctr_mergetrxnum ctr)"

definition dbe_counter_getstoragetrxnum :: "dbe_counter_t \<Rightarrow> dbe_trxnum_t" where
  "dbe_counter_getstoragetrxnum ctr = tc_lo (ctr_storagetrxnum ctr)"

definition dbe_counter_getnewtrxid :: "dbe_counter_t \<Rightarrow> dbe_trxid_t \<times> dbe_counter_t" where
  "dbe_counter_getnewtrxid ctr =
    (let (trxid, c) = trxctr_inc (ctr_trxid ctr) 1 in (trxid, ctr\<lparr>ctr_trxid := c\<rparr>))"

definition dbe_counter_getnewint8trxid :: "dbe_counter_t \<Rightarrow> ss_int8_t \<times> dbe_counter_t" where
  "dbe_counter_getnewint8trxid ctr =
    (let (_, c) = trxctr_inc (ctr_trxid ctr) 1; ctr = ctr\<lparr>ctr_trxid := c\<rparr>
     in (SsInt8Set2Uint4s 0 (tc_hi (ctr_trxid ctr)) (tc_lo (ctr_trxid ctr)), ctr))"

definition dbe_counter_setint8trxid :: "dbe_counter_t \<Rightarrow> ss_int8_t \<Rightarrow> dbe_counter_t" where
  "dbe_counter_setint8trxid ctr int8trxid =
    (let c_int8trxid = SsInt8Set2Uint4s 0 (tc_hi (ctr_trxid ctr)) (tc_lo (ctr_trxid ctr))
     in if SsInt8Cmp c_int8trxid int8trxid < 0
        then ctr\<lparr>ctr_trxid := (ctr_trxid ctr)\<lparr>tc_hi := SsInt8GetMostSignificantUint4 int8trxid,
               tc_lo := SsInt8GetLeastSignificantUint4 int8trxid\<rparr>\<rparr>
        else ctr)"

definition dbe_counter_settrxid :: "dbe_counter_t \<Rightarrow> dbe_trxid_t \<Rightarrow> dbe_counter_t" where
  "dbe_counter_settrxid ctr trxid =
    (if dbe_trxid_cmp trxid (tc_lo (ctr_trxid ctr)) > 0
     then ctr\<lparr>ctr_trxid := trxctr_setlow4bytes (ctr_trxid ctr) trxid\<rparr> else ctr)"

text \<open>The result is what \<^verbatim>\<open>p_low4bytes\<close> and \<^verbatim>\<open>p_high4bytes\<close> receive.\<close>

definition dbe_counter_get8bytetrxid :: "dbe_counter_t \<Rightarrow> dbe_trxid_t \<Rightarrow> u32 \<times> u32" where
  "dbe_counter_get8bytetrxid ctr trxid =
    (trxid, trxctr_calculatehigh4bytes (ctr_trxid ctr) trxid)"

text \<open>\<^verbatim>\<open>dbe_cfg_mergecleanup\<close> is the configuration flag of \<^verbatim>\<open>dbe7cfg.h\<close>.\<close>

definition dbe_counter_getnewcommittrxnum :: "bool \<Rightarrow> dbe_counter_t \<Rightarrow> dbe_trxnum_t \<times> dbe_counter_t" where
  "dbe_counter_getnewcommittrxnum dbe_cfg_mergecleanup ctr =
    (if dbe_cfg_mergecleanup
     then let (committrxnum, c) = trxctr_inc (ctr_trxid ctr) 1; ctr = ctr\<lparr>ctr_trxid := c\<rparr>
          in (committrxnum, ctr\<lparr>ctr_committrxnum := ctr_trxid ctr\<rparr>)
     else let (committrxnum, c) = trxctr_inc (ctr_committrxnum ctr) 1
          in (committrxnum, ctr\<lparr>ctr_committrxnum := c\<rparr>))"

definition dbe_counter_setmaxtrxnum :: "dbe_counter_t \<Rightarrow> dbe_trxnum_t \<Rightarrow> dbe_counter_t" where
  "dbe_counter_setmaxtrxnum ctr maxtrxnum =
    (if dbe_trxnum_cmp maxtrxnum (tc_lo (ctr_maxtrxnum ctr)) > 0
     then ctr\<lparr>ctr_maxtrxnum := trxctr_setlow4bytes (ctr_maxtrxnum ctr) maxtrxnum\<rparr> else ctr)"

definition dbe_counter_setmergetrxnum :: "dbe_counter_t \<Rightarrow> dbe_trxnum_t \<Rightarrow> dbe_counter_t" where
  "dbe_counter_setmergetrxnum ctr mergetrxnum =
    (if dbe_trxnum_cmp mergetrxnum (tc_lo (ctr_mergetrxnum ctr)) > 0
     then ctr\<lparr>ctr_mergetrxnum := trxctr_setlow4bytes (ctr_mergetrxnum ctr) mergetrxnum\<rparr> else ctr)"

definition dbe_counter_setactivemergetrxnum :: "dbe_counter_t \<Rightarrow> dbe_trxnum_t \<Rightarrow> dbe_counter_t" where
  "dbe_counter_setactivemergetrxnum ctr activemergetrxnum =
    ctr\<lparr>ctr_activemergetrxnum := activemergetrxnum\<rparr>"

definition dbe_counter_getactivemergetrxnum :: "dbe_counter_t \<Rightarrow> dbe_trxnum_t \<times> dbe_trxnum_t" where
  "dbe_counter_getactivemergetrxnum ctr = (tc_lo (ctr_mergetrxnum ctr), ctr_activemergetrxnum ctr)"

definition dbe_counter_setstoragetrxnum :: "dbe_counter_t \<Rightarrow> dbe_trxnum_t \<Rightarrow> dbe_counter_t" where
  "dbe_counter_setstoragetrxnum ctr storagetrxnum =
    (if dbe_trxnum_cmp storagetrxnum (tc_lo (ctr_storagetrxnum ctr)) > 0
     then ctr\<lparr>ctr_storagetrxnum := trxctr_setlow4bytes (ctr_storagetrxnum ctr) storagetrxnum\<rparr> else ctr)"

text \<open>
  \<^verbatim>\<open>dbe_type_updateconst\<close> of \<^verbatim>\<open>dbe/dbe0type.c\<close> moves the constants that stand for the least and the
  greatest number and id to follow the counters: the new minima and maxima.
\<close>

definition dbe_type_updateconst ::
  "dbe_counter_t \<Rightarrow> dbe_trxnum_t \<times> dbe_trxnum_t \<times> dbe_trxid_t \<times> dbe_trxid_t" where
  "dbe_type_updateconst ctr =
    (let curtrxnum = dbe_counter_getcommittrxnum ctr; curtrxid = dbe_counter_gettrxid ctr
     in (dbe_type_skipgap (curtrxnum - DBE_TYPE_GAP) 1, dbe_type_skipgap (curtrxnum + DBE_TYPE_GAP) 1,
         dbe_type_skipgap (curtrxid - DBE_TYPE_GAP) 1, dbe_type_skipgap (curtrxid + DBE_TYPE_GAP) 1))"

section \<open>Tuple numbers and versions\<close>

definition dbe_counter_getnewtuplenum :: "dbe_counter_t \<Rightarrow> rs_tuplenum_t \<times> dbe_counter_t" where
  "dbe_counter_getnewtuplenum ctr =
    (let ctr = ctr\<lparr>ctr_tuplenum := rs_tuplenum_inc (ctr_tuplenum ctr)\<rparr> in (ctr_tuplenum ctr, ctr))"

definition dbe_counter_getcurtuplenum :: "dbe_counter_t \<Rightarrow> rs_tuplenum_t" where
  "dbe_counter_getcurtuplenum ctr = ctr_tuplenum ctr"

definition dbe_counter_getnewint8tuplenum :: "dbe_counter_t \<Rightarrow> ss_int8_t \<times> dbe_counter_t" where
  "dbe_counter_getnewint8tuplenum ctr =
    (let ctr = ctr\<lparr>ctr_tuplenum := rs_tuplenum_inc (ctr_tuplenum ctr)\<rparr>
     in (rs_tuplenum_getint8 (ctr_tuplenum ctr), ctr))"

definition dbe_counter_getcurint8tuplenum :: "dbe_counter_t \<Rightarrow> ss_int8_t" where
  "dbe_counter_getcurint8tuplenum ctr = rs_tuplenum_getint8 (ctr_tuplenum ctr)"

definition dbe_counter_getnewtupleversion :: "dbe_counter_t \<Rightarrow> rs_tuplenum_t \<times> dbe_counter_t" where
  "dbe_counter_getnewtupleversion ctr =
    (let ctr = ctr\<lparr>ctr_tupleversion := rs_tuplenum_inc (ctr_tupleversion ctr)\<rparr>
     in (ctr_tupleversion ctr, ctr))"

definition dbe_counter_getcurtupleversion :: "dbe_counter_t \<Rightarrow> rs_tuplenum_t" where
  "dbe_counter_getcurtupleversion ctr = ctr_tupleversion ctr"

definition dbe_counter_getnewint8tupleversion :: "dbe_counter_t \<Rightarrow> ss_int8_t \<times> dbe_counter_t" where
  "dbe_counter_getnewint8tupleversion ctr =
    (let ctr = ctr\<lparr>ctr_tupleversion := rs_tuplenum_inc (ctr_tupleversion ctr)\<rparr>
     in (rs_tuplenum_getint8 (ctr_tupleversion ctr), ctr))"

definition dbe_counter_getcurint8tupleversion :: "dbe_counter_t \<Rightarrow> ss_int8_t" where
  "dbe_counter_getcurint8tupleversion ctr = rs_tuplenum_getint8 (ctr_tupleversion ctr)"

definition dbe_counter_settupleversion :: "dbe_counter_t \<Rightarrow> rs_tuplenum_t \<Rightarrow> dbe_counter_t" where
  "dbe_counter_settupleversion ctr tupleversion = ctr\<lparr>ctr_tupleversion := tupleversion\<rparr>"

definition dbe_counter_getnewsyncmsgid :: "dbe_counter_t \<Rightarrow> u64 \<times> dbe_counter_t" where
  "dbe_counter_getnewsyncmsgid ctr =
    (let ctr = ctr\<lparr>ctr_syncmsgid := ctr_syncmsgid ctr + 1\<rparr> in (ctr_syncmsgid ctr, ctr))"

definition dbe_counter_getsynctupleversion :: "dbe_counter_t \<Rightarrow> rs_tuplenum_t" where
  "dbe_counter_getsynctupleversion ctr = ctr_synctupleversion ctr"

definition dbe_counter_getnewsynctupleversion :: "dbe_counter_t \<Rightarrow> rs_tuplenum_t \<times> dbe_counter_t" where
  "dbe_counter_getnewsynctupleversion ctr =
    (let ctr = ctr\<lparr>ctr_synctupleversion := rs_tuplenum_inc (ctr_synctupleversion ctr)\<rparr>
     in (ctr_synctupleversion ctr, ctr))"

section \<open>Object ids\<close>

text \<open>
  The search of the conversion mode for the first unused system id: the index where the loop leaves,
  which is \<^verbatim>\<open>DBE_USER_ID_START\<close> when every id is used.
\<close>

function search_unused :: "bool list \<Rightarrow> int \<Rightarrow> int" where
  "search_unused used idx =
    (if idx < DBE_USER_ID_START
     then if \<not> used ! nat idx then idx else search_unused used (idx + 1)
     else idx)"
  by pat_completeness auto

termination search_unused
  by (relation "measure (\<lambda>(_, idx). nat (DBE_USER_ID_START - idx))") auto

declare search_unused.simps [simp del]

text \<open>
  In conversion mode the array must be there (a null pointer ends the program: \<open>None\<close>). When all ids
  are used, \<^verbatim>\<open>dbe_counter_getnewattrid\<close> asserts; the two other functions only do so in a debug
  build and return the id 0.
\<close>

definition dbe_counter_getnewrelid :: "dbe_counter_t \<Rightarrow> (u64 \<times> dbe_counter_t) option" where
  "dbe_counter_getnewrelid ctr =
    (if ctr_convert ctr
     then case ctr_keyid_used ctr of None \<Rightarrow> None
       | Some used \<Rightarrow>
          (let idx = search_unused used (ctr_keyid_idx ctr)
           in if idx < DBE_USER_ID_START
              then Some (word_of_int idx,
                ctr\<lparr>ctr_keyid_idx := idx, ctr_keyid_used := Some (used[nat idx := True])\<rparr>)
              else Some (0, ctr\<lparr>ctr_keyid_idx := idx\<rparr>))
     else Some (ctr_keyid ctr, ctr\<lparr>ctr_keyid := ctr_keyid ctr + 1\<rparr>))"

definition dbe_counter_getcurrelid :: "dbe_counter_t \<Rightarrow> u64" where
  "dbe_counter_getcurrelid ctr = ctr_keyid ctr"

definition dbe_counter_setnewrelid :: "dbe_counter_t \<Rightarrow> u64 \<Rightarrow> dbe_counter_t" where
  "dbe_counter_setnewrelid ctr relid =
    (if relid > ctr_keyid ctr then ctr\<lparr>ctr_keyid := relid\<rparr> else ctr)"

definition dbe_counter_getnewattrid :: "dbe_counter_t \<Rightarrow> (u64 \<times> dbe_counter_t) option" where
  "dbe_counter_getnewattrid ctr =
    (if ctr_convert ctr
     then case ctr_attrid_used ctr of None \<Rightarrow> None
       | Some used \<Rightarrow>
          (let idx = search_unused used (ctr_attrid_idx ctr)
           in if idx < DBE_USER_ID_START
              then Some (word_of_int idx,
                ctr\<lparr>ctr_attrid_idx := idx, ctr_attrid_used := Some (used[nat idx := True])\<rparr>)
              else None)
     else Some (ctr_attrid ctr, ctr\<lparr>ctr_attrid := ctr_attrid ctr + 1\<rparr>))"

definition dbe_counter_getnewkeyid :: "dbe_counter_t \<Rightarrow> (u64 \<times> dbe_counter_t) option" where
  "dbe_counter_getnewkeyid ctr =
    (if ctr_convert ctr
     then case ctr_keyid_used ctr of None \<Rightarrow> None
       | Some used \<Rightarrow>
          (let idx = search_unused used (ctr_keyid_idx ctr)
           in if idx < DBE_USER_ID_START
              then Some (word_of_int idx,
                ctr\<lparr>ctr_keyid_idx := idx, ctr_keyid_used := Some (used[nat idx := True])\<rparr>)
              else Some (0, ctr\<lparr>ctr_keyid_idx := idx\<rparr>))
     else Some (ctr_keyid ctr, ctr\<lparr>ctr_keyid := ctr_keyid ctr + 1\<rparr>))"

definition dbe_counter_setnewkeyid :: "dbe_counter_t \<Rightarrow> u64 \<Rightarrow> dbe_counter_t" where
  "dbe_counter_setnewkeyid ctr keyid = dbe_counter_setnewrelid ctr keyid"

definition dbe_counter_getnewuserid :: "dbe_counter_t \<Rightarrow> u64 \<times> dbe_counter_t" where
  "dbe_counter_getnewuserid ctr = (ctr_userid ctr, ctr\<lparr>ctr_userid := ctr_userid ctr + 1\<rparr>)"

section \<open>Checkpoint and log file numbers, merge counter\<close>

definition dbe_counter_getcpnum :: "dbe_counter_t \<Rightarrow> u32" where
  "dbe_counter_getcpnum ctr = ctr_cpnum ctr"

definition dbe_counter_setcpnum :: "dbe_counter_t \<Rightarrow> u32 \<Rightarrow> dbe_counter_t" where
  "dbe_counter_setcpnum ctr cpnum = ctr\<lparr>ctr_cpnum := cpnum\<rparr>"

definition dbe_counter_inccpnum :: "dbe_counter_t \<Rightarrow> u32 \<times> dbe_counter_t" where
  "dbe_counter_inccpnum ctr =
    (let ctr = ctr\<lparr>ctr_cpnum := ctr_cpnum ctr + 1\<rparr> in (ctr_cpnum ctr, ctr))"

definition dbe_counter_getlogfnum :: "dbe_counter_t \<Rightarrow> u32" where
  "dbe_counter_getlogfnum ctr = ctr_logfnum ctr"

definition dbe_counter_inclogfnum :: "dbe_counter_t \<Rightarrow> u32 \<times> dbe_counter_t" where
  "dbe_counter_inclogfnum ctr =
    (let ctr = ctr\<lparr>ctr_logfnum := ctr_logfnum ctr + 1\<rparr> in (ctr_logfnum ctr, ctr))"

definition dbe_counter_setlogfnum :: "dbe_counter_t \<Rightarrow> u32 \<Rightarrow> dbe_counter_t" where
  "dbe_counter_setlogfnum ctr logfnum = ctr\<lparr>ctr_logfnum := logfnum\<rparr>"

definition dbe_counter_getmergectr :: "dbe_counter_t \<Rightarrow> u64" where
  "dbe_counter_getmergectr ctr = ctr_mergectr ctr"

definition dbe_counter_setmergectr :: "dbe_counter_t \<Rightarrow> u64 \<Rightarrow> dbe_counter_t" where
  "dbe_counter_setmergectr ctr mergectr = ctr\<lparr>ctr_mergectr := mergectr\<rparr>"

section \<open>Blob ids\<close>

definition dbe_counter_getnewblobid :: "dbe_counter_t \<Rightarrow> u32 \<times> dbe_counter_t" where
  "dbe_counter_getnewblobid ctr =
    (let blob_id = SsInt8GetLeastSignificantUint4 (ctr_blobg2id ctr);
         (blob_id, increment) = (if blob_id = 0 then (1, 2) else (blob_id, 1))
     in (blob_id, ctr\<lparr>ctr_blobg2id := fst (SsInt8AddUint2 (ctr_blobg2id ctr) increment)\<rparr>))"

definition dbe_counter_getnewblobg2id :: "dbe_counter_t \<Rightarrow> ss_int8_t \<times> dbe_counter_t" where
  "dbe_counter_getnewblobg2id ctr =
    (ctr_blobg2id ctr, ctr\<lparr>ctr_blobg2id := fst (SsInt8AddUint2 (ctr_blobg2id ctr) 1)\<rparr>)"

definition dbe_counter_setblobg2id :: "dbe_counter_t \<Rightarrow> ss_int8_t \<Rightarrow> dbe_counter_t" where
  "dbe_counter_setblobg2id ctr bid =
    (if SsInt8Cmp (ctr_blobg2id ctr) bid < 0 then ctr\<lparr>ctr_blobg2id := bid\<rparr> else ctr)"

section \<open>Increment by counter id\<close>

fun dbe_counter_incctrbyid :: "bool \<Rightarrow> dbe_counter_t \<Rightarrow> dbe_sysctrid_t \<Rightarrow> dbe_counter_t option" where
  "dbe_counter_incctrbyid mc ctr DBE_CTR_TRXID = Some (snd (dbe_counter_getnewtrxid ctr))"
| "dbe_counter_incctrbyid mc ctr DBE_CTR_MAXTRXNUM =
    Some (dbe_counter_setmaxtrxnum ctr (dbe_trxnum_sum (dbe_counter_getmaxtrxnum ctr) 1))"
| "dbe_counter_incctrbyid mc ctr DBE_CTR_COMMITTRXNUM = Some (snd (dbe_counter_getnewcommittrxnum mc ctr))"
| "dbe_counter_incctrbyid mc ctr DBE_CTR_MERGETRXNUM =
    Some (dbe_counter_setmergetrxnum ctr (dbe_trxnum_sum (dbe_counter_getmergetrxnum ctr) 1))"
| "dbe_counter_incctrbyid mc ctr DBE_CTR_CPNUM = Some (snd (dbe_counter_inccpnum ctr))"
| "dbe_counter_incctrbyid mc ctr DBE_CTR_TUPLENUM = Some (snd (dbe_counter_getnewtuplenum ctr))"
| "dbe_counter_incctrbyid mc ctr DBE_CTR_ATTRID = map_option snd (dbe_counter_getnewattrid ctr)"
| "dbe_counter_incctrbyid mc ctr DBE_CTR_KEYID = map_option snd (dbe_counter_getnewkeyid ctr)"
| "dbe_counter_incctrbyid mc ctr DBE_CTR_USERID = Some (snd (dbe_counter_getnewuserid ctr))"
| "dbe_counter_incctrbyid mc ctr DBE_CTR_LOGFNUM = Some (snd (dbe_counter_inclogfnum ctr))"
| "dbe_counter_incctrbyid mc ctr DBE_CTR_BLOBID = Some (snd (dbe_counter_getnewblobid ctr))"
| "dbe_counter_incctrbyid mc ctr DBE_CTR_BLOBG2ID = Some (snd (dbe_counter_getnewblobg2id ctr))"
| "dbe_counter_incctrbyid mc ctr DBE_CTR_MERGECTR =
    Some (dbe_counter_setmergectr ctr (dbe_counter_getmergectr ctr + 1))"
| "dbe_counter_incctrbyid mc ctr DBE_CTR_TUPLEVERSION = Some (snd (dbe_counter_getnewtupleversion ctr))"
| "dbe_counter_incctrbyid mc ctr DBE_CTR_SYNCMSGID = Some (snd (dbe_counter_getnewsyncmsgid ctr))"
| "dbe_counter_incctrbyid mc ctr DBE_CTR_SYNCTUPLEVERSION =
    Some (snd (dbe_counter_getnewsynctupleversion ctr))"
| "dbe_counter_incctrbyid mc ctr DBE_CTR_STORAGETRXNUM = None"

section \<open>Replica\<close>

text \<open>What one node of a hot-standby pair sends the other.\<close>

record replica_counters =
  rc_keyid :: u64
  rc_attrid :: u64
  rc_userid :: u64
  rc_tuplenum :: rs_tuplenum_t
  rc_tupleversion :: rs_tuplenum_t
  rc_syncmsgid :: u64
  rc_synctupleversion :: rs_tuplenum_t
  rc_trxid :: trxctr_t
  rc_blobg2id :: ss_int8_t

text \<open>
  \<^verbatim>\<open>counter_replicaupdate\<close> is a sequence of guarded assignments, each of which sets the
  \<^verbatim>\<open>changes\<close> flag; \<open>raise\<close> is one of them, on the counters and the flag.
\<close>

definition raise ::
  "(dbe_counter_t \<Rightarrow> bool) \<Rightarrow> (dbe_counter_t \<Rightarrow> dbe_counter_t) \<Rightarrow> dbe_counter_t \<times> bool \<Rightarrow> dbe_counter_t \<times> bool" where
  "raise cond upd st = (if cond (fst st) then (upd (fst st), True) else st)"

definition counter_replicaupdate :: "dbe_counter_t \<Rightarrow> bool \<Rightarrow> replica_counters \<Rightarrow> dbe_counter_t \<times> bool" where
  "counter_replicaupdate ctr hsbg2 r =
    (let st = (ctr, False);
         st = raise (\<lambda>c. ctr_keyid c < rc_keyid r) (ctr_keyid_update (\<lambda>_. rc_keyid r)) st;
         st = raise (\<lambda>c. ctr_attrid c < rc_attrid r) (ctr_attrid_update (\<lambda>_. rc_attrid r)) st;
         st = raise (\<lambda>c. ctr_userid c < rc_userid r) (ctr_userid_update (\<lambda>_. rc_userid r)) st;
         st = raise (\<lambda>c. rs_tuplenum_cmp (ctr_tuplenum c) (rc_tuplenum r) < 0)
                (ctr_tuplenum_update (\<lambda>_. rc_tuplenum r)) st;
         st = raise (\<lambda>c. rs_tuplenum_cmp (ctr_tupleversion c) (rc_tupleversion r) < 0)
                (ctr_tupleversion_update (\<lambda>_. rc_tupleversion r)) st;
         st = raise (\<lambda>c. ctr_syncmsgid c < rc_syncmsgid r) (ctr_syncmsgid_update (\<lambda>_. rc_syncmsgid r)) st;
         st = raise (\<lambda>c. rs_tuplenum_cmp (ctr_synctupleversion c) (rc_synctupleversion r) < 0)
                (ctr_synctupleversion_update (\<lambda>_. rc_synctupleversion r)) st
     in if hsbg2
        then let st = raise (\<lambda>c. trxctr_cmp (ctr_trxid c) (rc_trxid r) < 0)
                        (ctr_trxid_update (\<lambda>_. rc_trxid r)) st
             in raise (\<lambda>c. SsInt8Cmp (ctr_blobg2id c) (rc_blobg2id r) < 0)
                  (ctr_blobg2id_update (\<lambda>_. rc_blobg2id r)) st
        else st)"

definition counter_getreplicacounters :: "dbe_counter_t \<Rightarrow> replica_counters" where
  "counter_getreplicacounters ctr = \<lparr>
    rc_keyid = ctr_keyid ctr,
    rc_attrid = ctr_attrid ctr,
    rc_userid = ctr_userid ctr,
    rc_tuplenum = ctr_tuplenum ctr,
    rc_tupleversion = ctr_tupleversion ctr,
    rc_syncmsgid = ctr_syncmsgid ctr,
    rc_synctupleversion = ctr_synctupleversion ctr,
    rc_trxid = ctr_trxid ctr,
    rc_blobg2id = ctr_blobg2id ctr\<rparr>"

definition DBE_HSBSYSCTR_SIZE :: nat where "DBE_HSBSYSCTR_SIZE = 14 * 4"
definition DBE_HSBSYSCTR_OLDSIZE :: nat where "DBE_HSBSYSCTR_OLDSIZE = 10 * 4"

text \<open>The message and the size given to the caller; the whole buffer is filled in either case.\<close>

definition dbe_counter_getreplicacounters :: "dbe_counter_t \<Rightarrow> bool \<Rightarrow> u8 list \<times> nat" where
  "dbe_counter_getreplicacounters ctr hsbg2 =
    (let r = counter_getreplicacounters ctr;
         data = concat (map SS_UINT4_STORETODISK
           [ucast (rc_keyid r), ucast (rc_attrid r), ucast (rc_userid r),
            ucast (rs_tuplenum_getmsl (rc_tuplenum r)), ucast (rs_tuplenum_getlsl (rc_tuplenum r)),
            ucast (rs_tuplenum_getmsl (rc_tupleversion r)), ucast (rs_tuplenum_getlsl (rc_tupleversion r)),
            ucast (rc_syncmsgid r),
            ucast (rs_tuplenum_getmsl (rc_synctupleversion r)),
            ucast (rs_tuplenum_getlsl (rc_synctupleversion r)),
            tc_hi (rc_trxid r), tc_lo (rc_trxid r),
            SsInt8GetMostSignificantUint4 (rc_blobg2id r), SsInt8GetLeastSignificantUint4 (rc_blobg2id r)])
     in (data, if hsbg2 then DBE_HSBSYSCTR_SIZE else DBE_HSBSYSCTR_OLDSIZE))"

text \<open>\<open>p4 data n\<close> is \<^verbatim>\<open>SS_UINT4_LOADFROMDISK(&p[n])\<close>.\<close>

definition p4 :: "u8 list \<Rightarrow> nat \<Rightarrow> u32" where
  "p4 data n = SS_UINT4_LOADFROMDISK (drop (4 * n) data)"

definition dbe_counter_setreplicacounters :: "dbe_counter_t \<Rightarrow> bool \<Rightarrow> u8 list \<Rightarrow> dbe_counter_t \<times> bool" where
  "dbe_counter_setreplicacounters ctr hsbg2 data =
    counter_replicaupdate ctr hsbg2 \<lparr>
      rc_keyid = ucast (p4 data 0),
      rc_attrid = ucast (p4 data 1),
      rc_userid = ucast (p4 data 2),
      rc_tuplenum = rs_tuplenum_ulonginit (ucast (p4 data 3)) (ucast (p4 data 4)),
      rc_tupleversion = rs_tuplenum_ulonginit (ucast (p4 data 5)) (ucast (p4 data 6)),
      rc_syncmsgid = ucast (p4 data 7),
      rc_synctupleversion = rs_tuplenum_ulonginit (ucast (p4 data 8)) (ucast (p4 data 9)),
      rc_trxid = (if hsbg2 then trxctr_init (p4 data 11) (p4 data 10) else trxctr_init 0 0),
      rc_blobg2id = (if hsbg2 then SsInt8InitFrom2Uint4s (p4 data 12) (p4 data 13) else SsInt8Set0)\<rparr>"

section \<open>Two-word counters as numbers\<close>

definition ctr64 :: "trxctr_t \<Rightarrow> int" where
  "ctr64 c = uint (tc_hi c) * 4294967296 + uint (tc_lo c)"

lemma three_way_words:
  assumes "0 \<le> y" "y < 4294967296" "0 \<le> y'" "y' < 4294967296"
  shows "three_way (x * 4294967296 + y) (x' * 4294967296 + y') =
    (if x = x' then three_way y y' else three_way x (x' :: int))"
  using assms by (auto simp: three_way_def)

interpretation trxctr_order: cmp_order trxctr_cmp "\<lambda>_. True" ctr64
proof
  fix c d
  show "sgn (trxctr_cmp c d) = three_way (ctr64 c) (ctr64 d)"
    unfolding ctr64_def three_way_words [OF u32_bounds u32_bounds]
    by (auto simp: trxctr_cmp_def three_way_def word_less_def word_uint_eq_iff)
qed

lemma ctr64_int8: "uint (SsInt8Set2Uint4s i (tc_hi c) (tc_lo c)) = ctr64 c"
  by (simp add: SsInt8Set2Uint4s_def uint_set_2_u4 ctr64_def)

text \<open>A low word the counters can hold: the initial 0 or a legal value.\<close>

definition ctr_low_ok :: "u32 \<Rightarrow> bool" where
  "ctr_low_ok lo \<longleftrightarrow> lo = 0 \<or> legal lo"

lemma trxctr_inc_cases:
  "trxctr_inc c n =
    (if legal (tc_lo c + n) then (tc_lo c + n, c\<lparr>tc_lo := tc_lo c + n\<rparr>)
     else (1, c\<lparr>tc_hi := tc_hi c + 1, tc_lo := 1\<rparr>))"
  by (auto simp: trxctr_inc_def Let_def skipgap_test)

lemma uint_inc32: "(x :: u32) \<noteq> 0xFFFFFFFF \<Longrightarrow> uint (x + 1) = uint x + 1"
proof -
  assume "x \<noteq> 0xFFFFFFFF"
  then have "uint x \<noteq> 4294967295"
    by (simp add: word_uint_eq_iff)
  then show ?thesis
    using u32_bounds [of x] by (simp add: uint_add32)
qed

lemma low_ok_inc: "ctr_low_ok lo \<Longrightarrow> uint (lo + 1) = uint lo + 1"
  by (rule uint_inc32) (auto simp: ctr_low_ok_def legal_uint)

lemma trxctr_inc_1:
  assumes "ctr_low_ok (tc_lo c)" "tc_hi c \<noteq> 0xFFFFFFFF" "trxctr_inc c 1 = (v, c')"
  shows "legal v" "tc_lo c' = v" "ctr64 c < ctr64 c'" "dbe_trxid_cmp v (tc_lo c) = 1"
proof -
  show v: "legal v" "tc_lo c' = v"
    using assms(3) by (auto simp: trxctr_inc_cases legal_uint split: if_splits)
  have lo: "uint (tc_lo c + 1) = uint (tc_lo c) + 1"
    by (rule low_ok_inc [OF assms(1)])
  show "ctr64 c < ctr64 c'"
    using assms(3) lo uint_inc32 [OF assms(2)] u32_bounds [of "tc_lo c"]
    by (auto simp: trxctr_inc_cases ctr64_def split: if_splits)
  show "dbe_trxid_cmp v (tc_lo c) = 1"
  proof (cases "tc_lo c = 0")
    case True
    then show ?thesis
      using v by (auto simp: dbe_trxid_cmp_def legal_def Let_def)
  next
    case False
    then have l: "legal (tc_lo c)"
      using assms(1) by (simp add: ctr_low_ok_def)
    have "v = dbe_trxid_sum (tc_lo c) 1"
      using assms(3) by (auto simp: trxctr_inc_cases dbe_trxid_sum_def skipgap_cases split: if_splits)
    then show ?thesis
      using trxid_sum_greater_aux [OF l, of 1] by simp
  qed
qed

section \<open>Setting a counter forward\<close>

text \<open>
  The contract of the functions that move a counter to a given number: \<open>get\<close> reads the low word,
  \<open>put\<close> stores one, and the new number is stored only when it compares greater.
\<close>

locale forward_setter =
  fixes get :: "'s \<Rightarrow> u32" and put :: "'s \<Rightarrow> u32 \<Rightarrow> 's" and set_to :: "'s \<Rightarrow> u32 \<Rightarrow> 's"
  assumes get_put: "get (put s v) = v"
    and set_to: "set_to s v = (if dbe_trxnum_cmp v (get s) > 0 then put s v else s)"
begin

lemma get_set_to: "get (set_to s v) = (if dbe_trxnum_cmp v (get s) > 0 then v else get s)"
  by (simp add: set_to get_put)

lemma not_below: "dbe_trxnum_cmp (get (set_to s v)) (get s) \<ge> 0"
  by (simp add: get_set_to dbe_trxnum_cmp_def)

lemma set_to_idem: "set_to (set_to s v) v = set_to s v"
  by (simp add: set_to get_put dbe_trxnum_cmp_def)

lemma max_in_window:
  assumes "in_window base (get s)" "in_window base v"
  shows "window_pos base (get (set_to s v)) = max (window_pos base (get s)) (window_pos base v)"
  using trxnum_window.greater_iff [OF assms(2,1)] by (simp add: get_set_to)

lemma fold_max:
  assumes "in_window base (get s)" "\<forall>v\<in>set vs. in_window base v"
  shows "in_window base (get (foldl set_to s vs)) \<and>
    window_pos base (get (foldl set_to s vs)) = foldl max (window_pos base (get s)) (map (window_pos base) vs)"
  using assms
proof (induction vs arbitrary: s)
  case (Cons v vs)
  then have "in_window base (get (set_to s v))"
    by (simp add: get_set_to)
  with Cons show ?case
    by (simp add: max_in_window)
qed simp

end

interpretation maxtrxnum: forward_setter dbe_counter_getmaxtrxnum
  "\<lambda>s v. s\<lparr>ctr_maxtrxnum := trxctr_setlow4bytes (ctr_maxtrxnum s) v\<rparr>" dbe_counter_setmaxtrxnum
  by unfold_locales (auto simp: dbe_counter_getmaxtrxnum_def dbe_counter_setmaxtrxnum_def
      trxctr_setlow4bytes_def)

interpretation mergetrxnum: forward_setter dbe_counter_getmergetrxnum
  "\<lambda>s v. s\<lparr>ctr_mergetrxnum := trxctr_setlow4bytes (ctr_mergetrxnum s) v\<rparr>" dbe_counter_setmergetrxnum
  by unfold_locales (auto simp: dbe_counter_getmergetrxnum_def dbe_counter_setmergetrxnum_def
      trxctr_setlow4bytes_def)

interpretation storagetrxnum: forward_setter dbe_counter_getstoragetrxnum
  "\<lambda>s v. s\<lparr>ctr_storagetrxnum := trxctr_setlow4bytes (ctr_storagetrxnum s) v\<rparr>" dbe_counter_setstoragetrxnum
  by unfold_locales (auto simp: dbe_counter_getstoragetrxnum_def dbe_counter_setstoragetrxnum_def
      trxctr_setlow4bytes_def)

interpretation settrxid: forward_setter dbe_counter_gettrxid
  "\<lambda>s v. s\<lparr>ctr_trxid := trxctr_setlow4bytes (ctr_trxid s) v\<rparr>" dbe_counter_settrxid
  by unfold_locales (auto simp: dbe_counter_gettrxid_def dbe_counter_settrxid_def
      trxctr_setlow4bytes_def trxid_cmp_eq_trxnum_cmp)

section \<open>The high word\<close>

lemma calculatehigh_ints:
  assumes "0 \<le> lo" "lo < 4294967296" "0 \<le> l" "l < 4294967296"
    and "\<bar>(h * 4294967296 + l) - (hi * 4294967296 + lo)\<bar> < 2147483648"
  shows "(if wrap32 (lo - l) < 0 \<and> l < lo then hi + 1
      else if wrap32 (lo - l) > 0 \<and> lo < l then hi - 1 else hi) = (h :: int)"
proof -
  consider "h \<le> hi - 2" | "h = hi - 1" | "h = hi" | "h = hi + 1" | "h \<ge> hi + 2"
    by linarith
  then show ?thesis
    using assms by cases (auto simp: wrap32_def)
qed

lemma calculatehigh:
  assumes "\<bar>(h * 4294967296 + uint l) - ctr64 c\<bar> < 2147483648" "0 \<le> h" "h < 4294967296"
  shows "uint (trxctr_calculatehigh4bytes c l) = h"
proof -
  have "(if wrap32 (uint (tc_lo c) - uint l) < 0 \<and> uint l < uint (tc_lo c) then uint (tc_hi c) + 1
      else if wrap32 (uint (tc_lo c) - uint l) > 0 \<and> uint (tc_lo c) < uint l then uint (tc_hi c) - 1
      else uint (tc_hi c)) = h"
    using calculatehigh_ints [OF u32_bounds [of "tc_lo c"] u32_bounds [of l], of h "uint (tc_hi c)"]
      assms(1) by (simp only: ctr64_def)
  then show ?thesis
    using assms(2,3) unfolding trxctr_calculatehigh4bytes_def Let_def sint_sub32
    by (auto simp: word_less_def uint_add32 uint_sub32 split: if_splits)
qed

section \<open>Ids, blob ids and constants\<close>

text \<open>The ids that the start record keeps in 32 bits fit them.\<close>

definition fits32 :: "dbe_counter_t \<Rightarrow> bool" where
  "fits32 ctr \<longleftrightarrow> uint (ctr_attrid ctr) < 4294967296 \<and> uint (ctr_keyid ctr) < 4294967296 \<and>
    uint (ctr_userid ctr) < 4294967296 \<and> uint (ctr_mergectr ctr) < 4294967296 \<and>
    uint (ctr_syncmsgid ctr) < 4294967296"

lemma ucast_ucast64: "uint (x :: u64) < 4294967296 \<Longrightarrow> ucast (ucast x :: u32) = x"
proof -
  assume "uint x < 4294967296"
  then have 1: "uint (ucast x :: u32) = uint x"
    by (simp add: unsigned_ucast_eq take_bit_int_eq_self)
  have "uint (ucast y :: u64) = uint y" for y :: u32
    using u32_bounds [of y] by (simp add: unsigned_ucast_eq take_bit_int_eq_self)
  with 1 show ?thesis
    by (simp only: word_uint_eq_iff)
qed

lemma search_unused_ge: "idx \<le> search_unused used idx"
proof (induction used idx rule: search_unused.induct)
  case (1 used idx)
  then show ?case
    by (subst search_unused.simps) (simp split del: if_split, force)
qed

lemma search_unused_used:
  "idx \<le> i \<Longrightarrow> i < search_unused used idx \<Longrightarrow> i < DBE_USER_ID_START \<Longrightarrow> used ! nat i"
proof (induction used idx rule: search_unused.induct)
  case (1 used idx)
  show ?case
  proof (cases "i = idx")
    case True
    then show ?thesis
      using "1.prems" by (subst (asm) search_unused.simps) (auto split: if_splits)
  next
    case False
    then show ?thesis
      using "1.prems" "1.IH" by (simp add: search_unused.simps [of used idx] split: if_splits)
  qed
qed

lemma search_unused_free:
  "search_unused used idx < DBE_USER_ID_START \<Longrightarrow> \<not> used ! nat (search_unused used idx)"
proof (induction used idx rule: search_unused.induct)
  case (1 used idx)
  then show ?case
    by (cases "idx < DBE_USER_ID_START"; cases "used ! nat idx")
      (simp_all add: search_unused.simps [of used idx])
qed

lemma low_add: "i8_u4 (b + ucast (n :: u16)) 0 = i8_u4 b 0 + ucast n"
proof -
  have "(ucast (b + c) :: u32) = ucast b + ucast c" for c :: u64
    by (simp add: word_uint_eq_iff unsigned_ucast_eq take_bit_eq_mod uint_word_ariths mod_simps
        mod_mod_cancel)
  then show ?thesis
    by (simp add: i8_u4_def) (rule bit_word_eqI, auto simp: bit_simps)
qed

lemma gap_above:
  assumes "legal v"
  shows "dbe_trxnum_cmp (dbe_type_skipgap (v + DBE_TYPE_GAP) 1) v = 1"
proof -
  have "word_of_int 1073740800 = DBE_TYPE_GAP"
    by (simp add: word_uint_eq_iff)
  then have "dbe_trxid_sum v 1073740800 = dbe_type_skipgap (v + DBE_TYPE_GAP) 1"
    by (simp add: dbe_trxid_sum_def skipgap_cases)
  then show ?thesis
    using trxid_sum_greater_aux [OF assms, of 1073740800] by (simp add: trxid_cmp_eq_trxnum_cmp)
qed

lemma gap_below_ints:
  assumes "0 < v" "v < 4294956295"
    and d: "d = (if 1073740800 \<le> v then v - 1073740800 else v - 1073740800 + 4294967296)"
    and m: "m = (if 0 < d \<and> d < 4294956295 then d else 1)"
  shows "wrap32 (m - v) < 0" "m \<noteq> (v :: int)"
  using assms by (auto simp: wrap32_def)

lemma gap_below:
  assumes "legal v"
  shows "dbe_trxnum_cmp (dbe_type_skipgap (v - DBE_TYPE_GAP) 1) v = - 1"
proof -
  define m where "m = dbe_type_skipgap (v - DBE_TYPE_GAP) 1"
  have u: "uint m = (if 0 < uint (v - DBE_TYPE_GAP) \<and> uint (v - DBE_TYPE_GAP) < 4294956295
      then uint (v - DBE_TYPE_GAP) else 1)"
    by (simp add: m_def skipgap_cases legal_uint)
  have "wrap32 (uint m - uint v) < 0" "uint m \<noteq> uint v"
    using gap_below_ints [of "uint v", OF _ _ _ u] assms
    by (simp_all add: legal_uint uint_sub32)
  moreover have "m \<noteq> 0" "v \<noteq> 0"
    using assms by (auto simp: m_def legal_def skipgap_cases)
  ultimately show ?thesis
    unfolding m_def [symmetric] by (auto simp: dbe_trxnum_cmp_def sint_sub32 Let_def)
qed

section \<open>The replica message\<close>

lemma p4_concat: "n < length ws \<Longrightarrow> p4 (concat (map SS_UINT4_STORETODISK ws) @ r) n = ws ! n"
proof (induction ws arbitrary: n)
  case (Cons w ws)
  then show ?case
    by (cases n) (simp_all add: p4_def)
qed simp

lemma ucast_down_up: "(ucast (ucast (w :: u32) :: u64) :: u32) = w"
  by (rule bit_word_eqI) (auto simp: bit_simps)

lemma ulonginit_parts:
  assumes "tnum_ok t"
  shows "rs_tuplenum_ulonginit (ucast (ucast (rs_tuplenum_getmsl t) :: u32))
    (ucast (ucast (rs_tuplenum_getlsl t) :: u32)) = t"
  using int8init_getint8 [OF assms]
  by (simp add: rs_tuplenum_ulonginit_def rs_tuplenum_getmsl_def rs_tuplenum_getlsl_def ucast_down_up
      rs_tuplenum_int8init_def rs_tuplenum_getint8_def SsInt8Set2Uint4s_def
      SsInt8GetMostSignificantUint4_def SsInt8GetLeastSignificantUint4_def)

definition tnums_ok :: "dbe_counter_t \<Rightarrow> bool" where
  "tnums_ok ctr \<longleftrightarrow> tnum_ok (ctr_tuplenum ctr) \<and> tnum_ok (ctr_tupleversion ctr) \<and>
    tnum_ok (ctr_synctupleversion ctr)"

lemma setreplica_getreplica:
  assumes "fits32 src" "tnums_ok src"
  shows "dbe_counter_setreplicacounters dst hsbg2 (fst (dbe_counter_getreplicacounters src hsbg2)) =
    counter_replicaupdate dst hsbg2 (if hsbg2 then counter_getreplicacounters src
      else (counter_getreplicacounters src)\<lparr>rc_trxid := trxctr_init 0 0, rc_blobg2id := SsInt8Set0\<rparr>)"
proof -
  define ws where "ws = [ucast (ctr_keyid src), ucast (ctr_attrid src), ucast (ctr_userid src),
    ucast (rs_tuplenum_getmsl (ctr_tuplenum src)), ucast (rs_tuplenum_getlsl (ctr_tuplenum src)),
    ucast (rs_tuplenum_getmsl (ctr_tupleversion src)), ucast (rs_tuplenum_getlsl (ctr_tupleversion src)),
    ucast (ctr_syncmsgid src),
    ucast (rs_tuplenum_getmsl (ctr_synctupleversion src)),
    ucast (rs_tuplenum_getlsl (ctr_synctupleversion src)),
    tc_hi (ctr_trxid src), tc_lo (ctr_trxid src),
    i8_u4 (ctr_blobg2id src) 1, i8_u4 (ctr_blobg2id src) 0 :: u32]"
  have d: "fst (dbe_counter_getreplicacounters src hsbg2) = concat (map SS_UINT4_STORETODISK ws)"
    unfolding dbe_counter_getreplicacounters_def Let_def ws_def
    by (simp add: counter_getreplicacounters_def SsInt8GetMostSignificantUint4_def
        SsInt8GetLeastSignificantUint4_def)
  have p: "n < 14 \<Longrightarrow> p4 (concat (map SS_UINT4_STORETODISK ws)) n = ws ! n" for n
    using p4_concat [of n ws "[]"] by (simp add: ws_def)
  have w: "ws ! 0 = ucast (ctr_keyid src)" "ws ! 1 = ucast (ctr_attrid src)" "ws ! 2 = ucast (ctr_userid src)"
    "ws ! 3 = ucast (rs_tuplenum_getmsl (ctr_tuplenum src))"
    "ws ! 4 = ucast (rs_tuplenum_getlsl (ctr_tuplenum src))"
    "ws ! 5 = ucast (rs_tuplenum_getmsl (ctr_tupleversion src))"
    "ws ! 6 = ucast (rs_tuplenum_getlsl (ctr_tupleversion src))"
    "ws ! 7 = ucast (ctr_syncmsgid src)"
    "ws ! 8 = ucast (rs_tuplenum_getmsl (ctr_synctupleversion src))"
    "ws ! 9 = ucast (rs_tuplenum_getlsl (ctr_synctupleversion src))"
    "ws ! 10 = tc_hi (ctr_trxid src)" "ws ! 11 = tc_lo (ctr_trxid src)"
    "ws ! 12 = i8_u4 (ctr_blobg2id src) 1" "ws ! 13 = i8_u4 (ctr_blobg2id src) 0"
    by (simp_all add: ws_def)
  have t: "trxctr_init (tc_lo c) (tc_hi c) = c" for c
    by (simp add: trxctr_init_def)
  have b: "SsInt8InitFrom2Uint4s (i8_u4 x 1) (i8_u4 x 0) = x" for x
    by (simp add: SsInt8InitFrom2Uint4s_def)
  show ?thesis
    unfolding dbe_counter_setreplicacounters_def d
    using assms by (simp add: p w t b ulonginit_parts ucast_ucast64 fits32_def tnums_ok_def
        counter_getreplicacounters_def del: One_nat_def)
qed

text \<open>What each guarded assignment does to the counters and to the flag.\<close>

lemma raise_max:
  "raise (\<lambda>c. ctr_keyid c < i) (ctr_keyid_update (\<lambda>_. i)) (ctr, ch) =
    (ctr\<lparr>ctr_keyid := max (ctr_keyid ctr) i\<rparr>, ch \<or> ctr_keyid ctr < i)"
  "raise (\<lambda>c. ctr_attrid c < i) (ctr_attrid_update (\<lambda>_. i)) (ctr, ch) =
    (ctr\<lparr>ctr_attrid := max (ctr_attrid ctr) i\<rparr>, ch \<or> ctr_attrid ctr < i)"
  "raise (\<lambda>c. ctr_userid c < i) (ctr_userid_update (\<lambda>_. i)) (ctr, ch) =
    (ctr\<lparr>ctr_userid := max (ctr_userid ctr) i\<rparr>, ch \<or> ctr_userid ctr < i)"
  "raise (\<lambda>c. ctr_syncmsgid c < i) (ctr_syncmsgid_update (\<lambda>_. i)) (ctr, ch) =
    (ctr\<lparr>ctr_syncmsgid := max (ctr_syncmsgid ctr) i\<rparr>, ch \<or> ctr_syncmsgid ctr < i)"
  by (simp_all add: raise_def max_def)

lemma raise_if:
  "tnum_ok (ctr_tuplenum ctr) \<Longrightarrow> tnum_ok t \<Longrightarrow>
    raise (\<lambda>c. rs_tuplenum_cmp (ctr_tuplenum c) t < 0) (ctr_tuplenum_update (\<lambda>_. t)) (ctr, ch) =
    (ctr\<lparr>ctr_tuplenum := if be_val (ctr_tuplenum ctr) < be_val t then t else ctr_tuplenum ctr\<rparr>,
     ch \<or> be_val (ctr_tuplenum ctr) < be_val t)"
  "tnum_ok (ctr_tupleversion ctr) \<Longrightarrow> tnum_ok t \<Longrightarrow>
    raise (\<lambda>c. rs_tuplenum_cmp (ctr_tupleversion c) t < 0) (ctr_tupleversion_update (\<lambda>_. t)) (ctr, ch) =
    (ctr\<lparr>ctr_tupleversion := if be_val (ctr_tupleversion ctr) < be_val t then t else ctr_tupleversion ctr\<rparr>,
     ch \<or> be_val (ctr_tupleversion ctr) < be_val t)"
  "tnum_ok (ctr_synctupleversion ctr) \<Longrightarrow> tnum_ok t \<Longrightarrow>
    raise (\<lambda>c. rs_tuplenum_cmp (ctr_synctupleversion c) t < 0) (ctr_synctupleversion_update (\<lambda>_. t)) (ctr, ch) =
    (ctr\<lparr>ctr_synctupleversion :=
       if be_val (ctr_synctupleversion ctr) < be_val t then t else ctr_synctupleversion ctr\<rparr>,
     ch \<or> be_val (ctr_synctupleversion ctr) < be_val t)"
  "raise (\<lambda>c. trxctr_cmp (ctr_trxid c) x < 0) (ctr_trxid_update (\<lambda>_. x)) (ctr, ch) =
    (ctr\<lparr>ctr_trxid := if ctr64 (ctr_trxid ctr) < ctr64 x then x else ctr_trxid ctr\<rparr>,
     ch \<or> ctr64 (ctr_trxid ctr) < ctr64 x)"
  "raise (\<lambda>c. SsInt8Cmp (ctr_blobg2id c) b < 0) (ctr_blobg2id_update (\<lambda>_. b)) (ctr, ch) =
    (ctr\<lparr>ctr_blobg2id := if sint (ctr_blobg2id ctr) < sint b then b else ctr_blobg2id ctr\<rparr>,
     ch \<or> sint (ctr_blobg2id ctr) < sint b)"
  by (simp_all add: raise_def tnum_order.less_iff trxctr_order.less_iff int8_order.less_iff)

text \<open>The counters after an update, with each field at the larger of the two values.\<close>

definition replica_max :: "dbe_counter_t \<Rightarrow> bool \<Rightarrow> replica_counters \<Rightarrow> dbe_counter_t" where
  "replica_max ctr hsbg2 r = ctr\<lparr>
    ctr_keyid := max (ctr_keyid ctr) (rc_keyid r),
    ctr_attrid := max (ctr_attrid ctr) (rc_attrid r),
    ctr_userid := max (ctr_userid ctr) (rc_userid r),
    ctr_tuplenum := (if be_val (ctr_tuplenum ctr) < be_val (rc_tuplenum r) then rc_tuplenum r
                     else ctr_tuplenum ctr),
    ctr_tupleversion := (if be_val (ctr_tupleversion ctr) < be_val (rc_tupleversion r)
                         then rc_tupleversion r else ctr_tupleversion ctr),
    ctr_syncmsgid := max (ctr_syncmsgid ctr) (rc_syncmsgid r),
    ctr_synctupleversion := (if be_val (ctr_synctupleversion ctr) < be_val (rc_synctupleversion r)
                             then rc_synctupleversion r else ctr_synctupleversion ctr),
    ctr_trxid := (if hsbg2 \<and> ctr64 (ctr_trxid ctr) < ctr64 (rc_trxid r) then rc_trxid r
                  else ctr_trxid ctr),
    ctr_blobg2id := (if hsbg2 \<and> sint (ctr_blobg2id ctr) < sint (rc_blobg2id r) then rc_blobg2id r
                     else ctr_blobg2id ctr)\<rparr>"

definition rc_tnums_ok :: "replica_counters \<Rightarrow> bool" where
  "rc_tnums_ok r \<longleftrightarrow> tnum_ok (rc_tuplenum r) \<and> tnum_ok (rc_tupleversion r) \<and> tnum_ok (rc_synctupleversion r)"

definition replica_ahead :: "dbe_counter_t \<Rightarrow> bool \<Rightarrow> replica_counters \<Rightarrow> bool" where
  "replica_ahead ctr hsbg2 r \<longleftrightarrow>
    ctr_keyid ctr < rc_keyid r \<or> ctr_attrid ctr < rc_attrid r \<or> ctr_userid ctr < rc_userid r \<or>
    be_val (ctr_tuplenum ctr) < be_val (rc_tuplenum r) \<or>
    be_val (ctr_tupleversion ctr) < be_val (rc_tupleversion r) \<or>
    ctr_syncmsgid ctr < rc_syncmsgid r \<or>
    be_val (ctr_synctupleversion ctr) < be_val (rc_synctupleversion r) \<or>
    hsbg2 \<and> (ctr64 (ctr_trxid ctr) < ctr64 (rc_trxid r) \<or> sint (ctr_blobg2id ctr) < sint (rc_blobg2id r))"

lemma replicaupdate_max:
  assumes "tnums_ok ctr" "rc_tnums_ok r"
  shows "counter_replicaupdate ctr hsbg2 r = (replica_max ctr hsbg2 r, replica_ahead ctr hsbg2 r)"
  using assms
  by (cases hsbg2) (simp_all add: counter_replicaupdate_def raise_max raise_if replica_max_def
      replica_ahead_def tnums_ok_def rc_tnums_ok_def cong: if_cong split del: if_split)

lemma replica_max_same_iff:
  "replica_max ctr hsbg2 r = ctr \<longleftrightarrow> \<not> replica_ahead ctr hsbg2 r"
proof
  assume e: "replica_max ctr hsbg2 r = ctr"
  have "ctr_keyid (replica_max ctr hsbg2 r) = ctr_keyid ctr"
    "ctr_attrid (replica_max ctr hsbg2 r) = ctr_attrid ctr"
    "ctr_userid (replica_max ctr hsbg2 r) = ctr_userid ctr"
    "ctr_syncmsgid (replica_max ctr hsbg2 r) = ctr_syncmsgid ctr"
    "ctr_tuplenum (replica_max ctr hsbg2 r) = ctr_tuplenum ctr"
    "ctr_tupleversion (replica_max ctr hsbg2 r) = ctr_tupleversion ctr"
    "ctr_synctupleversion (replica_max ctr hsbg2 r) = ctr_synctupleversion ctr"
    "ctr_trxid (replica_max ctr hsbg2 r) = ctr_trxid ctr"
    "ctr_blobg2id (replica_max ctr hsbg2 r) = ctr_blobg2id ctr"
    using e by simp_all
  then show "\<not> replica_ahead ctr hsbg2 r"
    unfolding replica_max_def replica_ahead_def
    by (simp split: if_splits) (auto simp: max_def split: if_splits)
next
  assume "\<not> replica_ahead ctr hsbg2 r"
  then show "replica_max ctr hsbg2 r = ctr"
    by (cases hsbg2) (simp_all add: replica_max_def replica_ahead_def max_absorb1 not_less)
qed

section \<open>Properties\<close>

text \<open>
  A new transaction id is legal (not null, not in the gap), compares greater than the id given
  out before it, and the 64-bit counter behind it has grown; no other counter changes.
\<close>

theorem newtrxid_increases:
  assumes "ctr_low_ok (tc_lo (ctr_trxid ctr))" "tc_hi (ctr_trxid ctr) \<noteq> 0xFFFFFFFF"
    and "dbe_counter_getnewtrxid ctr = (trxid, ctr')"
  shows "legal trxid \<and> dbe_counter_gettrxid ctr' = trxid \<and>
    dbe_trxid_cmp trxid (dbe_counter_gettrxid ctr) = 1 \<and>
    trxctr_cmp (ctr_trxid ctr) (ctr_trxid ctr') < 0 \<and>
    ctr'\<lparr>ctr_trxid := ctr_trxid ctr\<rparr> = ctr"
proof -
  obtain c where c: "trxctr_inc (ctr_trxid ctr) 1 = (trxid, c)" "ctr' = ctr\<lparr>ctr_trxid := c\<rparr>"
    using assms(3) by (auto simp: dbe_counter_getnewtrxid_def split: prod.splits)
  show ?thesis
    using trxctr_inc_1 [OF assms(1,2) c(1)]
    by (simp add: c(2) dbe_counter_gettrxid_def trxctr_order.less_iff)
qed

lemma newtrxid_increases_witness:
  "legal 1 \<and> dbe_counter_gettrxid (dbe_counter_init\<lparr>ctr_trxid := \<lparr>tc_lo = 1, tc_hi = 6\<rparr>\<rparr>) = 1 \<and>
    dbe_trxid_cmp 1 (dbe_counter_gettrxid (dbe_counter_init\<lparr>ctr_trxid := \<lparr>tc_lo = 4294956294, tc_hi = 5\<rparr>\<rparr>)) = 1 \<and>
    trxctr_cmp \<lparr>tc_lo = 4294956294, tc_hi = 5\<rparr> \<lparr>tc_lo = 1, tc_hi = 6\<rparr> < 0"
  using newtrxid_increases [of "dbe_counter_init\<lparr>ctr_trxid := \<lparr>tc_lo = 4294956294, tc_hi = 5\<rparr>\<rparr>" 1
      "dbe_counter_init\<lparr>ctr_trxid := \<lparr>tc_lo = 1, tc_hi = 6\<rparr>\<rparr>"]
  by (simp add: ctr_low_ok_def legal_uint dbe_counter_getnewtrxid_def trxctr_inc_cases)

text \<open>
  C25. The full 64-bit id of a transaction is recovered from its low word: for every number less
  than \<open>2 ^ 31\<close> before or after the current counter, across the wrap of the low word in either
  direction, the high word calculated is the number's own.
\<close>

theorem get8bytetrxid_recovers:
  assumes "\<bar>uint v - ctr64 (ctr_trxid ctr)\<bar> < 2147483648"
  shows "dbe_counter_get8bytetrxid ctr (SsInt8GetLeastSignificantUint4 v) =
    (SsInt8GetLeastSignificantUint4 v, SsInt8GetMostSignificantUint4 v)"
proof -
  have "uint (trxctr_calculatehigh4bytes (ctr_trxid ctr) (i8_u4 v 0)) = uint (i8_u4 v (Suc 0))"
    using assms calculatehigh [OF _ u32_bounds] by (simp only: uint_halves [of v])
  then show ?thesis
    by (simp add: dbe_counter_get8bytetrxid_def SsInt8GetLeastSignificantUint4_def
        SsInt8GetMostSignificantUint4_def word_uint_eq_iff)
qed

lemma get8bytetrxid_recovers_witness:
  "dbe_counter_get8bytetrxid (dbe_counter_init\<lparr>ctr_trxid := \<lparr>tc_lo = 5, tc_hi = 3\<rparr>\<rparr>)
      (SsInt8GetLeastSignificantUint4 0x2FFFFFFF0) =
    (SsInt8GetLeastSignificantUint4 0x2FFFFFFF0, SsInt8GetMostSignificantUint4 0x2FFFFFFF0)"
  by (rule get8bytetrxid_recovers) (simp add: ctr64_def)

text \<open>
  However often and in whatever order transactions report their numbers, the maximum transaction
  number ends at the largest of them in window order and never moves back; the merge and storage
  numbers follow the same rule.
\<close>

theorem setmaxtrxnum_largest:
  assumes "in_window base (dbe_counter_getmaxtrxnum ctr)" "\<forall>v\<in>set vs. in_window base v"
  shows "window_pos base (dbe_counter_getmaxtrxnum (foldl dbe_counter_setmaxtrxnum ctr vs)) =
    foldl max (window_pos base (dbe_counter_getmaxtrxnum ctr)) (map (window_pos base) vs)"
  using maxtrxnum.fold_max [OF assms] by blast

lemma setmaxtrxnum_largest_witness:
  "window_pos 0xFFFFFFF0 (dbe_counter_getmaxtrxnum (foldl dbe_counter_setmaxtrxnum dbe_counter_init [0xFFFFFFF5, 9, 3])) =
    foldl max (window_pos 0xFFFFFFF0 (dbe_counter_getmaxtrxnum dbe_counter_init))
      (map (window_pos 0xFFFFFFF0) [0xFFFFFFF5, 9, 3])"
  by (rule setmaxtrxnum_largest)
    (simp_all add: in_window_def window_pos_def dbe_counter_getmaxtrxnum_def dbe_counter_init_def
      trxctr_init_def)

text \<open>
  The counters survive a round trip through the start record: what a new counter object reads
  back is every counter that was written, when the ids the record keeps in 32 bits fit them; the
  other fields of the record are left as they were.
\<close>

theorem startrec_roundtrip:
  assumes "fits32 ctr"
  shows "dbe_counter_getinfofromstartrec ctr0 (dbe_counter_putinfotostartrec ctr sr) =
    ctr\<lparr>ctr_attrid_used := ctr_attrid_used ctr0, ctr_attrid_idx := ctr_attrid_idx ctr0,
        ctr_keyid_used := ctr_keyid_used ctr0, ctr_keyid_idx := ctr_keyid_idx ctr0,
        ctr_convert := ctr_convert ctr0, ctr_activemergetrxnum := ctr_activemergetrxnum ctr0\<rparr> \<and>
    sr_bonsairoot (dbe_counter_putinfotostartrec ctr sr) = sr_bonsairoot sr \<and>
    sr_trxlistaddr (dbe_counter_putinfotostartrec ctr sr) = sr_trxlistaddr sr"
  using assms
  by (simp add: dbe_counter_getinfofromstartrec_def dbe_counter_putinfotostartrec_def trxctr_init_def
      fits32_def ucast_ucast64)

lemma startrec_roundtrip_witness:
  "\<forall>sr. dbe_counter_getinfofromstartrec dbe_counter_init
      (dbe_counter_putinfotostartrec (dbe_counter_init\<lparr>ctr_keyid := 12345\<rparr>) sr) =
    dbe_counter_init\<lparr>ctr_keyid := 12345\<rparr>"
proof
  fix sr
  show "dbe_counter_getinfofromstartrec dbe_counter_init
      (dbe_counter_putinfotostartrec (dbe_counter_init\<lparr>ctr_keyid := 12345\<rparr>) sr) =
    dbe_counter_init\<lparr>ctr_keyid := 12345\<rparr>"
    using startrec_roundtrip [of "dbe_counter_init\<lparr>ctr_keyid := 12345\<rparr>" dbe_counter_init sr]
    by (simp add: fits32_def dbe_counter_init_def DBE_SYS_SQL_ID_START_def)
qed

text \<open>
  In conversion mode a new attribute id is one of the system ids that was not in use, is marked
  used, and no smaller id from the search position on was free; when all are in use the program
  stops instead of giving out an id.
\<close>

theorem getnewattrid_converts:
  assumes "ctr_convert ctr" "ctr_attrid_used ctr = Some used" "DBE_USER_ID_START \<le> int (length used)"
    "0 \<le> ctr_attrid_idx ctr"
  shows "case dbe_counter_getnewattrid ctr of
      None \<Rightarrow> \<forall>i. ctr_attrid_idx ctr \<le> i \<and> i < DBE_USER_ID_START \<longrightarrow> used ! nat i
    | Some (attr_id, ctr') \<Rightarrow>
        ctr_attrid_idx ctr \<le> uint attr_id \<and> uint attr_id < DBE_USER_ID_START \<and>
        \<not> used ! nat (uint attr_id) \<and>
        (\<forall>i. ctr_attrid_idx ctr \<le> i \<and> i < uint attr_id \<longrightarrow> used ! nat i) \<and>
        ctr_attrid_used ctr' = Some (used[nat (uint attr_id) := True])"
proof -
  define idx where "idx = search_unused used (ctr_attrid_idx ctr)"
  have s: "ctr_attrid_idx ctr \<le> idx"
    "\<And>i. ctr_attrid_idx ctr \<le> i \<Longrightarrow> i < idx \<Longrightarrow> i < DBE_USER_ID_START \<Longrightarrow> used ! nat i"
    "idx < DBE_USER_ID_START \<Longrightarrow> \<not> used ! nat idx"
    using search_unused_ge search_unused_used search_unused_free by (auto simp: idx_def)
  show ?thesis
  proof (cases "idx < DBE_USER_ID_START")
    case True
    then have "0 \<le> idx" "idx < 18446744073709551616"
      using s(1) assms(4) by (simp_all add: DBE_USER_ID_START_def)
    then have "uint (word_of_int idx :: u64) = idx"
      by (simp add: uint_word_of_int)
    moreover from this have "unat (word_of_int idx :: u64) = nat idx"
      by (simp only: unat_eq_nat_uint)
    ultimately show ?thesis
      using True s assms by (simp add: dbe_counter_getnewattrid_def idx_def [symmetric])
  next
    case False
    then show ?thesis
      using s(2) assms by (auto simp: dbe_counter_getnewattrid_def idx_def [symmetric])
  qed
qed

lemma getnewattrid_converts_witness:
  "let used = replicate 9999 True @ [False];
      ctr = dbe_counter_init\<lparr>ctr_convert := True, ctr_attrid_idx := 9999, ctr_attrid_used := Some used\<rparr>
    in case dbe_counter_getnewattrid ctr of None \<Rightarrow> False
      | Some (attr_id, ctr') \<Rightarrow> uint attr_id = 9999 \<and>
          ctr_attrid_used ctr' = Some (used[nat (uint attr_id) := True])"
proof -
  define used where "used = replicate 9999 True @ [False]"
  define ctr where "ctr =
    dbe_counter_init\<lparr>ctr_convert := True, ctr_attrid_idx := 9999, ctr_attrid_used := Some used\<rparr>"
  have u: "length used = 10000" "\<not> used ! nat 9999"
    unfolding used_def by (simp, simp add: nth_append)
  have c: "ctr_convert ctr" "ctr_attrid_used ctr = Some used" "ctr_attrid_idx ctr = 9999"
    by (simp_all add: ctr_def)
  have "\<not> (\<forall>i. ctr_attrid_idx ctr \<le> i \<and> i < DBE_USER_ID_START \<longrightarrow> used ! nat i)"
    using u(2) c(3) by (auto simp: DBE_USER_ID_START_def intro!: exI [of _ 9999])
  with getnewattrid_converts [OF c(1,2)] u(1) c(3)
  have "case dbe_counter_getnewattrid ctr of None \<Rightarrow> False
      | Some (attr_id, ctr') \<Rightarrow> uint attr_id = 9999 \<and>
          ctr_attrid_used ctr' = Some (used[nat (uint attr_id) := True])"
    by (auto simp: DBE_USER_ID_START_def split: option.splits)
  then show ?thesis
    unfolding used_def [symmetric] Let_def ctr_def [symmetric] .
qed

text \<open>
  A 32-bit blob id given out is never 0, which stands for no blob, and the 64-bit blob counter
  behind it moves on by one id, or by two where the low half was 0 and is skipped, so that the next
  id is never the same.
\<close>

theorem newblobid_not_null:
  assumes "dbe_counter_getnewblobid ctr = (bid, ctr')" "dbe_counter_getnewblobid ctr' = (bid', ctr'')"
  shows "bid \<noteq> 0 \<and> bid' \<noteq> 0 \<and> bid' \<noteq> bid \<and>
    ctr_blobg2id ctr' = ctr_blobg2id ctr + (if i8_u4 (ctr_blobg2id ctr) 0 = 0 then 2 else 1)"
proof -
  have lo: "i8_u4 (b + 1) 0 = i8_u4 b 0 + 1" "i8_u4 (b + 2) 0 = i8_u4 b 0 + 2" for b :: u64
    using low_add [of b 1] low_add [of b 2] by simp_all
  have ne: "(x :: u32) + 1 \<noteq> x" "(2 :: u32) \<noteq> 1"
    by simp_all
  show ?thesis
    using assms lo [of "ctr_blobg2id ctr"] ne
    by (auto simp: dbe_counter_getnewblobid_def SsInt8GetLeastSignificantUint4_def add_uint2 Let_def
        split: if_splits)
qed

lemma newblobid_not_null_witness:
  "(1 :: u32) \<noteq> 0 \<and> (2 :: u32) \<noteq> 0 \<and> (2 :: u32) \<noteq> 1 \<and>
    ctr_blobg2id (dbe_counter_init\<lparr>ctr_blobg2id := 0x500000002\<rparr>) =
      ctr_blobg2id (dbe_counter_init\<lparr>ctr_blobg2id := 0x500000000\<rparr>) + 2"
  using newblobid_not_null [of "dbe_counter_init\<lparr>ctr_blobg2id := 0x500000000\<rparr>" 1
      "dbe_counter_init\<lparr>ctr_blobg2id := 0x500000002\<rparr>" 2 "dbe_counter_init\<lparr>ctr_blobg2id := 0x500000003\<rparr>"]
  by (simp add: dbe_counter_getnewblobid_def SsInt8GetLeastSignificantUint4_def add_uint2 i8_u4_def)

text \<open>
  After \<^verbatim>\<open>dbe_type_updateconst\<close> the constants for the least and the greatest transaction number
  and id are legal and lie strictly below and above the current counters in comparison order.
\<close>

theorem updateconst_brackets:
  assumes "legal (dbe_counter_getcommittrxnum ctr)" "legal (dbe_counter_gettrxid ctr)"
    and "dbe_type_updateconst ctr = (trxnum_min, trxnum_max, trxid_min, trxid_max)"
  shows "legal trxnum_min \<and> legal trxnum_max \<and> legal trxid_min \<and> legal trxid_max \<and>
    dbe_trxnum_cmp trxnum_min (dbe_counter_getcommittrxnum ctr) = - 1 \<and>
    dbe_trxnum_cmp trxnum_max (dbe_counter_getcommittrxnum ctr) = 1 \<and>
    dbe_trxid_cmp trxid_min (dbe_counter_gettrxid ctr) = - 1 \<and>
    dbe_trxid_cmp trxid_max (dbe_counter_gettrxid ctr) = 1"
  using assms gap_below [of "dbe_counter_getcommittrxnum ctr"] gap_below [of "dbe_counter_gettrxid ctr"]
    gap_above [of "dbe_counter_getcommittrxnum ctr"] gap_above [of "dbe_counter_gettrxid ctr"]
  by (auto simp: dbe_type_updateconst_def Let_def trxid_cmp_eq_trxnum_cmp)

lemma updateconst_brackets_witness:
  "legal 3221231485 \<and> legal 1073740809 \<and>
    dbe_trxnum_cmp 3221231485 (dbe_counter_getcommittrxnum (dbe_counter_init\<lparr>ctr_committrxnum := \<lparr>tc_lo = 4989, tc_hi = 1\<rparr>\<rparr>)) = - 1"
  using updateconst_brackets [of "dbe_counter_init\<lparr>ctr_committrxnum := \<lparr>tc_lo = 4989, tc_hi = 1\<rparr>,
      ctr_trxid := \<lparr>tc_lo = 9, tc_hi = 1\<rparr>\<rparr>" 3221231485 1073745789 3221226505 1073740809]
  by (simp add: legal_uint dbe_type_updateconst_def dbe_counter_getcommittrxnum_def dbe_counter_gettrxid_def
      skipgap_cases DBE_TYPE_GAP_def)

text \<open>
  Sending the counters of one node of a hot-standby pair to the other and applying them there
  leaves each exchanged counter at the larger of the two values, compared in its own order, changes
  nothing else, and reports a change exactly when some counter of the sender was ahead. The
  transaction id and the blob id take part only in the newer protocol.
\<close>

theorem replica_exchange:
  assumes "fits32 src" "tnums_ok src" "tnums_ok dst"
    and "dbe_counter_setreplicacounters dst hsbg2 (fst (dbe_counter_getreplicacounters src hsbg2)) =
      (dst', changes)"
  shows "dst' = replica_max dst hsbg2 (counter_getreplicacounters src) \<and>
    (changes \<longleftrightarrow> dst' \<noteq> dst) \<and>
    ctr_keyid dst' = max (ctr_keyid dst) (ctr_keyid src) \<and>
    rs_tuplenum_getint8 (ctr_tuplenum dst') =
      max (rs_tuplenum_getint8 (ctr_tuplenum dst)) (rs_tuplenum_getint8 (ctr_tuplenum src)) \<and>
    ctr64 (ctr_trxid dst') =
      (if hsbg2 then max (ctr64 (ctr_trxid dst)) (ctr64 (ctr_trxid src)) else ctr64 (ctr_trxid dst))"
proof -
  let ?r = "if hsbg2 then counter_getreplicacounters src
      else (counter_getreplicacounters src)\<lparr>rc_trxid := trxctr_init 0 0, rc_blobg2id := SsInt8Set0\<rparr>"
  have r: "rc_tnums_ok ?r" "replica_max dst hsbg2 ?r = replica_max dst hsbg2 (counter_getreplicacounters src)"
    using assms(2) by (simp_all add: rc_tnums_ok_def tnums_ok_def counter_getreplicacounters_def replica_max_def)
  have "(dst', changes) = (replica_max dst hsbg2 ?r, replica_ahead dst hsbg2 ?r)"
    using setreplica_getreplica [OF assms(1,2), of dst hsbg2] replicaupdate_max [OF assms(3) r(1)]
      assms(4) by simp
  then have d: "dst' = replica_max dst hsbg2 (counter_getreplicacounters src)" "changes \<longleftrightarrow> dst' \<noteq> dst"
    using r(2) replica_max_same_iff [of dst hsbg2 ?r] by auto
  have "uint (rs_tuplenum_getint8 (ctr_tuplenum dst)) = be_val (ctr_tuplenum dst)"
    "uint (rs_tuplenum_getint8 (ctr_tuplenum src)) = be_val (ctr_tuplenum src)"
    using assms(2,3) by (simp_all add: tnums_ok_def uint_getint8)
  then have "rs_tuplenum_getint8 (if be_val (ctr_tuplenum dst) < be_val (ctr_tuplenum src)
      then ctr_tuplenum src else ctr_tuplenum dst) =
      max (rs_tuplenum_getint8 (ctr_tuplenum dst)) (rs_tuplenum_getint8 (ctr_tuplenum src))"
    by (auto simp: max_def word_le_def word_uint_eq_iff)
  moreover have "ctr_tuplenum dst' = (if be_val (ctr_tuplenum dst) < be_val (ctr_tuplenum src)
      then ctr_tuplenum src else ctr_tuplenum dst)"
    "ctr_keyid dst' = max (ctr_keyid dst) (ctr_keyid src)"
    "ctr_trxid dst' = (if hsbg2 \<and> ctr64 (ctr_trxid dst) < ctr64 (ctr_trxid src) then ctr_trxid src
      else ctr_trxid dst)"
    by (simp_all add: d(1) replica_max_def counter_getreplicacounters_def cong: if_cong)
  ultimately show ?thesis
    using d by (simp add: max_def)
qed

lemma replica_exchange_witness:
  "let src = dbe_counter_init\<lparr>ctr_trxid := \<lparr>tc_lo = 7, tc_hi = 1\<rparr>, ctr_keyid := 12000\<rparr>;
      dst = dbe_counter_init\<lparr>ctr_trxid := \<lparr>tc_lo = 9, tc_hi = 0\<rparr>\<rparr>;
      (dst', changes) =
        dbe_counter_setreplicacounters dst True (fst (dbe_counter_getreplicacounters src True))
    in (changes \<longleftrightarrow> dst' \<noteq> dst) \<and> ctr_keyid dst' = max (ctr_keyid dst) (ctr_keyid src)"
proof -
  define src dst where "src = dbe_counter_init\<lparr>ctr_trxid := \<lparr>tc_lo = 7, tc_hi = 1\<rparr>, ctr_keyid := 12000\<rparr>"
    and "dst = dbe_counter_init\<lparr>ctr_trxid := \<lparr>tc_lo = 9, tc_hi = 0\<rparr>\<rparr>"
  obtain dst' changes where
    r: "dbe_counter_setreplicacounters dst True (fst (dbe_counter_getreplicacounters src True)) = (dst', changes)"
    by fastforce
  have "fits32 src" "tnums_ok src" "tnums_ok dst"
    by (simp_all add: src_def dst_def fits32_def tnums_ok_def dbe_counter_init_def tnum_ok_def
        rs_tuplenum_init_def RS_TUPLENUM_SIZE_def DBE_SYS_SQL_ID_START_def)
  from replica_exchange [OF this r]
  have "changes \<longleftrightarrow> dst' \<noteq> dst" "ctr_keyid dst' = max (ctr_keyid dst) (ctr_keyid src)"
    by blast+
  then show ?thesis
    unfolding src_def [symmetric] dst_def [symmetric] Let_def r by (simp only: prod.case)
qed

end
