(* ===== verification/Lock_Mode.thy ===== *)
theory Lock_Mode
  imports Sdb_Prelude
begin

text \<open>
  The lock modes of \<^verbatim>\<open>include/dbe0type.h\<close> and the tables of \<^verbatim>\<open>dbe/dbe6lmgr.c\<close> over them: the
  mode that covers two modes (\<open>lock_max\<close>), the compatibility of a requested with a granted mode
  (\<open>lock_compat\<close>), the table lock that goes with a row lock (\<open>lockmgr_getrellockmode\<close>), and the
  lock durations (\<open>lock_class\<close>). The C enumerations are ordered by their position, which the code
  uses (\<open>mode <= req->lr_mode\<close>, \<open>SS_MAX\<close>), so both types are instances of \<open>linorder\<close>.

  The lemmas say what the tables promise: what is compatible with the covering mode of two modes
  is compatible with both, with two exceptions: \<open>LOCK_SIX\<close> covers \<open>LOCK_U\<close> but is compatible with
  \<open>LOCK_IS\<close>, and \<open>LOCK_S\<close> covers \<open>LOCK_IS\<close> but lets \<open>LOCK_U\<close> in. Compatibility is symmetric
  except that \<open>LOCK_U\<close> may join \<open>LOCK_S\<close> but not the other way round. Two families of modes avoid
  the exceptions: the modes used on rows and the modes used on tables.
\<close>

section \<open>Modes\<close>

datatype lock_mode = LOCK_FREE | LOCK_IS | LOCK_IX | LOCK_S | LOCK_SIX | LOCK_U | LOCK_X

fun mode_index :: "lock_mode \<Rightarrow> nat" where
  "mode_index LOCK_FREE = 0"
| "mode_index LOCK_IS = 1"
| "mode_index LOCK_IX = 2"
| "mode_index LOCK_S = 3"
| "mode_index LOCK_SIX = 4"
| "mode_index LOCK_U = 5"
| "mode_index LOCK_X = 6"

lemma mode_index_inj [simp]: "mode_index a = mode_index b \<longleftrightarrow> a = b"
  by (cases a; cases b) simp_all

instantiation lock_mode :: linorder
begin

definition less_eq_lock_mode :: "lock_mode \<Rightarrow> lock_mode \<Rightarrow> bool" where
  "less_eq_lock_mode a b = (mode_index a \<le> mode_index b)"

definition less_lock_mode :: "lock_mode \<Rightarrow> lock_mode \<Rightarrow> bool" where
  "less_lock_mode a b = (mode_index a < mode_index b)"

instance
  by standard (auto simp: less_eq_lock_mode_def less_lock_mode_def order.strict_iff_not)

end

lemmas lock_mode_order = less_eq_lock_mode_def less_lock_mode_def

definition convert_matrix :: "lock_mode \<Rightarrow> lock_mode list" where
  "convert_matrix m = (case m of
     LOCK_FREE \<Rightarrow> [LOCK_FREE, LOCK_IS, LOCK_IX, LOCK_S, LOCK_SIX, LOCK_U, LOCK_X]
   | LOCK_IS \<Rightarrow> [LOCK_IS, LOCK_IS, LOCK_IX, LOCK_S, LOCK_SIX, LOCK_U, LOCK_X]
   | LOCK_IX \<Rightarrow> [LOCK_IX, LOCK_IX, LOCK_IX, LOCK_SIX, LOCK_SIX, LOCK_X, LOCK_X]
   | LOCK_S \<Rightarrow> [LOCK_S, LOCK_S, LOCK_SIX, LOCK_S, LOCK_SIX, LOCK_U, LOCK_X]
   | LOCK_SIX \<Rightarrow> [LOCK_SIX, LOCK_SIX, LOCK_SIX, LOCK_SIX, LOCK_SIX, LOCK_SIX, LOCK_X]
   | LOCK_U \<Rightarrow> [LOCK_U, LOCK_U, LOCK_X, LOCK_U, LOCK_SIX, LOCK_U, LOCK_X]
   | LOCK_X \<Rightarrow> [LOCK_X, LOCK_X, LOCK_X, LOCK_X, LOCK_X, LOCK_X, LOCK_X])"

definition lock_max :: "lock_mode \<Rightarrow> lock_mode \<Rightarrow> lock_mode" where
  "lock_max req_mode granted_mode = convert_matrix req_mode ! mode_index granted_mode"

text \<open>
  The first row is never used (the code asserts \<open>req_mode > LOCK_FREE\<close>); it holds mode numbers
  where the others hold truth values, of which only \<open>LOCK_FREE\<close>, 0, is false.
\<close>

definition compat_matrix :: "lock_mode \<Rightarrow> bool list" where
  "compat_matrix m = (case m of
     LOCK_FREE \<Rightarrow> [False, True, True, True, True, True, True]
   | LOCK_IS \<Rightarrow> [True, True, True, True, True, False, False]
   | LOCK_IX \<Rightarrow> [True, True, True, False, False, False, False]
   | LOCK_S \<Rightarrow> [True, True, False, True, False, False, False]
   | LOCK_SIX \<Rightarrow> [True, True, False, False, False, False, False]
   | LOCK_U \<Rightarrow> [True, False, False, True, False, False, False]
   | LOCK_X \<Rightarrow> [True, False, False, False, False, False, False])"

definition lock_compat :: "lock_mode \<Rightarrow> lock_mode \<Rightarrow> bool" where
  "lock_compat req_mode granted_mode = compat_matrix req_mode ! mode_index granted_mode"

definition lockmgr_getrellockmode :: "lock_mode \<Rightarrow> lock_mode" where
  "lockmgr_getrellockmode rowlockmode =
    [LOCK_FREE, LOCK_IS, LOCK_IX, LOCK_IS, LOCK_IX, LOCK_IX, LOCK_IX] ! mode_index rowlockmode"

section \<open>Durations, states and replies\<close>

datatype lock_class = LOCK_INSTANT | LOCK_SHORT | LOCK_MEDIUM | LOCK_LONG | LOCK_VERY_LONG

fun class_index :: "lock_class \<Rightarrow> nat" where
  "class_index LOCK_INSTANT = 0"
| "class_index LOCK_SHORT = 1"
| "class_index LOCK_MEDIUM = 2"
| "class_index LOCK_LONG = 3"
| "class_index LOCK_VERY_LONG = 4"

lemma class_index_inj [simp]: "class_index a = class_index b \<longleftrightarrow> a = b"
  by (cases a; cases b) simp_all

instantiation lock_class :: linorder
begin

definition less_eq_lock_class :: "lock_class \<Rightarrow> lock_class \<Rightarrow> bool" where
  "less_eq_lock_class a b = (class_index a \<le> class_index b)"

definition less_lock_class :: "lock_class \<Rightarrow> lock_class \<Rightarrow> bool" where
  "less_lock_class a b = (class_index a < class_index b)"

instance
  by standard (auto simp: less_eq_lock_class_def less_lock_class_def order.strict_iff_not)

end

lemmas lock_class_order = less_eq_lock_class_def less_lock_class_def

definition class_max :: "lock_class \<Rightarrow> lock_class \<Rightarrow> lock_class" where
  "class_max new_class old_class = (if new_class > old_class then new_class else old_class)"

datatype lock_status = LOCK_GRANTED | LOCK_CONVERTING | LOCK_WAITING | LOCK_DENIED

datatype lock_reply = LOCK_OK | LOCK_TIMEOUT | LOCK_DEADLOCK | LOCK_WAIT

section \<open>What the tables promise\<close>

named_theorems lock_tables \<open>the tables, unfolded to decide statements about given modes\<close>

declare lock_max_def [lock_tables] convert_matrix_def [lock_tables] lock_compat_def [lock_tables]
  compat_matrix_def [lock_tables] lock_mode_order [lock_tables]

lemma lock_max_free [simp]: "lock_max m LOCK_FREE = m"
  by (cases m) (simp_all add: lock_tables)

lemma lock_max_self [simp]: "lock_max m m = m"
  by (cases m) (simp_all add: lock_tables)

lemma lock_max_commute: "lock_max a b = lock_max b a"
  by (cases a; cases b) (simp_all add: lock_tables)

lemma lock_max_neq_free [simp]: "a \<noteq> LOCK_FREE \<Longrightarrow> lock_max a b \<noteq> LOCK_FREE"
  by (cases a; cases b) (simp_all add: lock_tables)

lemma lock_compat_free [simp]: "lock_compat m LOCK_FREE \<longleftrightarrow> m \<noteq> LOCK_FREE"
  by (cases m) (simp_all add: lock_tables)

text \<open>Two modes that different transactions may hold together.\<close>

definition together :: "lock_mode \<Rightarrow> lock_mode \<Rightarrow> bool" where
  "together a b = (lock_compat a b \<or> lock_compat b a)"

lemma together_commute: "together a b = together b a"
  by (auto simp: together_def)

lemma together_X [simp]: "b \<noteq> LOCK_FREE \<Longrightarrow> \<not> together LOCK_X b"
  "b \<noteq> LOCK_FREE \<Longrightarrow> \<not> together b LOCK_X"
  by (cases b; simp add: together_def lock_tables)+

lemma together_U: "a \<noteq> LOCK_FREE \<Longrightarrow> together LOCK_U a \<longleftrightarrow> a = LOCK_S"
  by (cases a) (simp_all add: together_def lock_tables)

text \<open>The modes used on rows and the modes used on tables; both families are closed.\<close>

definition row_modes :: "lock_mode set" where
  "row_modes = {LOCK_S, LOCK_U, LOCK_X}"

definition table_modes :: "lock_mode set" where
  "table_modes = {LOCK_IS, LOCK_IX, LOCK_S, LOCK_SIX, LOCK_X}"

definition mode_family :: "lock_mode set \<Rightarrow> bool" where
  "mode_family M = (M = row_modes \<or> M = table_modes)"

lemma family_free [simp]: "mode_family M \<Longrightarrow> LOCK_FREE \<notin> M"
  by (auto simp: mode_family_def row_modes_def table_modes_def)

lemma family_max:
  "mode_family M \<Longrightarrow> a \<in> M \<Longrightarrow> b \<in> insert LOCK_FREE M \<Longrightarrow> lock_max a b \<in> M"
  by (cases a; cases b) (auto simp: mode_family_def row_modes_def table_modes_def lock_tables)

lemma family_rellockmode:
  "m \<in> row_modes \<Longrightarrow> m > LOCK_IX \<Longrightarrow> lockmgr_getrellockmode m \<in> table_modes"
  by (cases m) (auto simp: row_modes_def table_modes_def lockmgr_getrellockmode_def lock_mode_order)

text \<open>What is compatible with a covering mode is compatible with what it covers.\<close>

lemma compat_max_mode:
  assumes "lock_compat m (lock_max a b)" "m \<noteq> LOCK_FREE" "{a, b} \<noteq> {LOCK_U, LOCK_SIX}"
    and "m = LOCK_U \<Longrightarrow> {a, b} \<noteq> {LOCK_IS, LOCK_S}"
  shows "lock_compat m a \<and> lock_compat m b"
  using assms by (cases m; cases a; cases b; simp add: lock_tables doubleton_eq_iff)

lemma compat_max:
  assumes "mode_family M" "m \<in> M" "a \<in> insert LOCK_FREE M" "b \<in> insert LOCK_FREE M"
    and "lock_compat m (lock_max a b)"
  shows "lock_compat m a \<and> lock_compat m b"
proof (rule compat_max_mode [OF assms(5)])
  show "m \<noteq> LOCK_FREE"
    using assms(1,2) family_free by blast
  show "{a, b} \<noteq> {LOCK_U, LOCK_SIX}"
    using assms(1,3,4)
    by (auto simp: mode_family_def row_modes_def table_modes_def doubleton_eq_iff)
  show "{a, b} \<noteq> {LOCK_IS, LOCK_S}" if "m = LOCK_U"
    using assms(1,2,3,4) that
    by (auto simp: mode_family_def row_modes_def table_modes_def doubleton_eq_iff)
qed

lemma compat_join_mode:
  "lock_compat m a \<Longrightarrow> lock_compat m b \<Longrightarrow> m \<noteq> LOCK_FREE \<Longrightarrow> lock_compat m (lock_max a b)"
  by (cases m; cases a; cases b; simp add: lock_tables)

section \<open>Properties\<close>

text \<open>
  Within a family of modes (those used on rows, or those used on tables), the mode that
  \<open>lock_max\<close> gives for two granted modes stands for both: a request is compatible with it exactly
  when it is compatible with each. This is what lets the lock head keep a single granted mode.
\<close>

theorem compat_max_iff:
  assumes "mode_family M" "m \<in> M" "a \<in> insert LOCK_FREE M" "b \<in> insert LOCK_FREE M"
  shows "lock_compat m (lock_max a b) = (lock_compat m a \<and> lock_compat m b)"
  using compat_max [OF assms] compat_join_mode [of m a b] family_free [OF assms(1)] assms(2)
  by blast

theorem compat_max_iff_witness:
  "lock_compat LOCK_IX (lock_max LOCK_IS LOCK_IX) = True \<and>
    lock_compat LOCK_IS (lock_max LOCK_S LOCK_IX) = True \<and>
    lock_compat LOCK_S (lock_max LOCK_S LOCK_IX) = False"
  using compat_max_iff [of table_modes LOCK_IX LOCK_IS LOCK_IX]
    compat_max_iff [of table_modes LOCK_IS LOCK_S LOCK_IX]
    compat_max_iff [of table_modes LOCK_S LOCK_S LOCK_IX]
  by (simp_all add: mode_family_def table_modes_def lock_tables)

end
