(* ===== verification/Lock_Mgr.thy ===== *)
theory Lock_Mgr
  imports Lock_Mode
begin

text \<open>
  The lock manager, \<^verbatim>\<open>dbe/dbe6lmgr.c\<close>, in the configuration the repository builds
  (\<^verbatim>\<open>LMGR_SPLITMUTEX\<close>, \<^verbatim>\<open>DBE_LOCK_MSEC\<close>, \<^verbatim>\<open>DBE_LOCKESCALATE_OPT\<close>): a hash table of lock heads, a
  queue of requests under each, and for each transaction the list of its requests per mutex.

  Requests, heads and transactions are heap objects reached through identifiers, because the code
  shares them by pointer: a request is on the queue of its head, on a list of its transaction, and
  it may be the one its transaction waits for. A chain through \<open>lr_queue\<close>, \<open>lh_chain\<close> or
  \<open>lr_tran_next\<close> is the list of the identifiers on it, \<open>NULL\<close> is the empty list or \<open>None\<close>. Freed
  objects go to the free lists of their mutex and are taken again from there, with their old
  contents, as in the code. The field \<open>lr_wakeup_task\<close>, which is only ever set to \<open>NULL\<close>, and the
  debug fields are left out.

  An operation runs under its mutex, so each is one step on the state. Calls to the client
  (\<^verbatim>\<open>rs_sysi_...\<close>) are logged in \<open>lm_events\<close>; the time and the client's answer to
  \<^verbatim>\<open>rs_sysi_task\<close> are arguments. \<open>lm_failed\<close> records that an \<^verbatim>\<open>ss_assert\<close> failed or a null
  pointer was followed; where \<^verbatim>\<open>ss_error\<close> is reached the operation has no result (\<open>None\<close>).
\<close>

section \<open>State\<close>

type_synonym rid = nat
type_synonym hid = nat
type_synonym tid = nat
type_synonym cd = nat

text \<open>\<open>ulong\<close> relation ids and lock names: they are only compared and reduced modulo a size.\<close>

type_synonym relid = nat
type_synonym lockname = nat

record lock_request =
  lr_head :: hid
  lr_status :: lock_status
  lr_mode :: lock_mode
  lr_convert_mode :: lock_mode
  lr_count :: int
  lr_okcount :: int
  lr_class :: lock_class
  lr_tran :: tid
  lr_timeout :: u64
  lr_name :: lockname

record lock_head =
  lh_relid :: relid
  lh_name :: lockname
  lh_queue :: "rid list"
  lh_granted_mode :: lock_mode
  lh_waiting :: bool

record locktran =
  lt_cd :: "cd option"
  lt_locks :: "nat \<Rightarrow> rid list"
  lt_wait :: "rid option"
  lt_cycle :: "tid option"

datatype lm_event =
    startlockwaitwithtimeout tid u64
  | lockwakeup tid
  | setdisablerowspermessage tid bool

record lockmgr =
  lm_req :: "rid \<Rightarrow> lock_request"
  lm_head :: "hid \<Rightarrow> lock_head"
  lm_tran :: "tid \<Rightarrow> locktran"
  lm_nextreq :: rid
  lm_nexthead :: hid
  lm_nexttran :: tid
  lm_hash :: "nat \<Rightarrow> hid list"
  lm_hashsize :: nat
  lm_nmutexes :: nat
  lm_lockcnt :: int
  lm_lockokcnt :: u64
  lm_lockwaitcnt :: u64
  lm_retrylockwaitcnt :: u64
  lm_locktimeoutcnt :: u64
  lm_useescalation :: bool
  lm_escalatelimit :: u64
  lm_uselocks :: bool
  lm_disablerowspermessage :: bool
  lm_cachedrelid :: relid
  lm_cachedlock :: "hid option"
  lm_freelock :: "nat \<Rightarrow> hid list"
  lm_nfreelocks :: "nat \<Rightarrow> nat"
  lm_maxfreelocks :: nat
  lm_freerequest :: "nat \<Rightarrow> rid list"
  lm_nfreerequests :: "nat \<Rightarrow> nat"
  lm_maxfreerequests :: nat
  lm_maxnlocks :: int
  lm_nchains :: int
  lm_maxnchains :: int
  lm_maxpath :: nat
  lm_events :: "lm_event list"
  lm_failed :: bool

text \<open>
  The configuration: the \<^verbatim>\<open>dbe_cfg_...\<close> globals, and whether \<^verbatim>\<open>rs_sysi_task\<close> of a client
  data object is a task (code of the server, not under this component).
\<close>

record lm_config =
  cfg_fastdeadlockdetect :: bool
  cfg_deadlockdetectmaxdepth :: int
  cfg_deadlockdetectmaxlocks :: int
  cfg_task :: "cd \<Rightarrow> bool"

definition N_FREE_LOCKS :: nat where
  "N_FREE_LOCKS = 2000"

definition N_FREE_REQUESTS :: nat where
  "N_FREE_REQUESTS = 4000"

definition LMGR_NMUTEXES :: nat where
  "LMGR_NMUTEXES = 101"

definition DBE_LOCKRELID_REL :: relid where
  "DBE_LOCKRELID_REL = 0"

definition DBE_LOCKRELID_MAXSPECIAL :: relid where
  "DBE_LOCKRELID_MAXSPECIAL = 10"

definition LMGR_MUTEX :: "lockmgr \<Rightarrow> lockname \<Rightarrow> nat" where
  "LMGR_MUTEX lm name = name mod lm_hashsize lm mod lm_nmutexes lm"

subsection \<open>Access and update through identifiers\<close>

definition upd_req :: "rid \<Rightarrow> (lock_request \<Rightarrow> lock_request) \<Rightarrow> lockmgr \<Rightarrow> lockmgr" where
  "upd_req r f lm = lm\<lparr>lm_req := (lm_req lm)(r := f (lm_req lm r))\<rparr>"

definition upd_head :: "hid \<Rightarrow> (lock_head \<Rightarrow> lock_head) \<Rightarrow> lockmgr \<Rightarrow> lockmgr" where
  "upd_head h f lm = lm\<lparr>lm_head := (lm_head lm)(h := f (lm_head lm h))\<rparr>"

definition upd_tran :: "tid \<Rightarrow> (locktran \<Rightarrow> locktran) \<Rightarrow> lockmgr \<Rightarrow> lockmgr" where
  "upd_tran t f lm = lm\<lparr>lm_tran := (lm_tran lm)(t := f (lm_tran lm t))\<rparr>"

abbreviation queue :: "lockmgr \<Rightarrow> hid \<Rightarrow> rid list" where
  "queue lm h \<equiv> lh_queue (lm_head lm h)"

abbreviation status :: "lockmgr \<Rightarrow> rid \<Rightarrow> lock_status" where
  "status lm r \<equiv> lr_status (lm_req lm r)"

abbreviation mode :: "lockmgr \<Rightarrow> rid \<Rightarrow> lock_mode" where
  "mode lm r \<equiv> lr_mode (lm_req lm r)"

abbreviation owner :: "lockmgr \<Rightarrow> rid \<Rightarrow> tid" where
  "owner lm r \<equiv> lr_tran (lm_req lm r)"

definition lm_emit :: "lm_event \<Rightarrow> lockmgr \<Rightarrow> lockmgr" where
  "lm_emit e lm = lm\<lparr>lm_events := lm_events lm @ [e]\<rparr>"

definition lm_check :: "bool \<Rightarrow> lockmgr \<Rightarrow> lockmgr" where
  "lm_check b lm = lm\<lparr>lm_failed := (lm_failed lm \<or> \<not> b)\<rparr>"

section \<open>Allocation\<close>

text \<open>
  A request is taken from the free list of its mutex, or is new, and becomes the first of the
  list of its transaction. The field \<open>lr_timeout\<close> is not initialised.
\<close>

definition lock_request_alloc ::
  "lockmgr \<Rightarrow> tid \<Rightarrow> hid \<Rightarrow> lock_mode \<Rightarrow> lock_class \<Rightarrow> lockname \<Rightarrow> lockmgr \<times> rid" where
  "lock_request_alloc lm me lock m cls name =
    (let i = LMGR_MUTEX lm name;
         (lm1, req) = (case lm_freerequest lm i of
            r # rs \<Rightarrow> (lm\<lparr>lm_freerequest := (lm_freerequest lm)(i := rs),
                lm_nfreerequests := (lm_nfreerequests lm)(i := lm_nfreerequests lm i - 1)\<rparr>, r)
          | [] \<Rightarrow> (lm\<lparr>lm_nextreq := lm_nextreq lm + 1\<rparr>, lm_nextreq lm));
         lm2 = upd_req req (\<lambda>r. r\<lparr>lr_head := lock, lr_status := LOCK_GRANTED, lr_mode := m,
            lr_convert_mode := LOCK_FREE, lr_count := 1, lr_okcount := 0, lr_class := cls,
            lr_tran := me, lr_name := name\<rparr>) lm1
     in (upd_tran me (\<lambda>t. t\<lparr>lt_locks := (lt_locks t)(i := req # lt_locks t i)\<rparr>) lm2, req))"

definition lock_request_free :: "lockmgr \<Rightarrow> rid \<Rightarrow> lockmgr" where
  "lock_request_free lm req =
    (let i = LMGR_MUTEX lm (lr_name (lm_req lm req));
         lm1 = upd_tran (owner lm req)
            (\<lambda>t. t\<lparr>lt_locks := (lt_locks t)(i := removeAll req (lt_locks t i))\<rparr>) lm
     in if lm_nfreerequests lm i < lm_maxfreerequests lm
        then lm1\<lparr>lm_freerequest := (lm_freerequest lm)(i := req # lm_freerequest lm i),
                lm_nfreerequests := (lm_nfreerequests lm)(i := lm_nfreerequests lm i + 1)\<rparr>
        else lm1)"

definition lock_head_alloc :: "lockmgr \<Rightarrow> relid \<Rightarrow> lockname \<Rightarrow> lock_mode \<Rightarrow> lockmgr \<times> hid" where
  "lock_head_alloc lm rel name m =
    (let i = LMGR_MUTEX lm name;
         (lm1, lock) = (case lm_freelock lm i of
            h # hs \<Rightarrow> (lm\<lparr>lm_freelock := (lm_freelock lm)(i := hs),
                lm_nfreelocks := (lm_nfreelocks lm)(i := lm_nfreelocks lm i - 1)\<rparr>, h)
          | [] \<Rightarrow> (lm\<lparr>lm_nexthead := lm_nexthead lm + 1\<rparr>, lm_nexthead lm))
     in (upd_head lock (\<lambda>h. h\<lparr>lh_relid := rel, lh_name := name, lh_queue := [],
            lh_granted_mode := m, lh_waiting := False\<rparr>) lm1, lock))"

definition lock_head_free :: "lockmgr \<Rightarrow> hid \<Rightarrow> lockmgr" where
  "lock_head_free lm lock =
    (let i = LMGR_MUTEX lm (lh_name (lm_head lm lock));
         lm1 = (if lm_cachedlock lm = Some lock
            then lm\<lparr>lm_cachedrelid := 0, lm_cachedlock := None\<rparr> else lm)
     in if lm_nfreelocks lm i < lm_maxfreelocks lm
        then lm1\<lparr>lm_freelock := (lm_freelock lm)(i := lock # lm_freelock lm i),
                lm_nfreelocks := (lm_nfreelocks lm)(i := lm_nfreelocks lm i + 1)\<rparr>
        else lm1)"

section \<open>Deadlock detection\<close>

text \<open>
  \<open>lmgr_isdeadlock\<close> follows, from a waiting transaction, the transactions before it on the queue
  it waits on, and from each of them on, marking the path in \<open>lt_cycle\<close> (the map \<open>cyc\<close> here, which
  is all of the state it changes). It gives up when \<open>level\<close> is used up, or when more than
  \<open>maxlocks\<close> requests were looked at; the counter is shared by all levels.
\<close>

function (sequential) lmgr_isdeadlock ::
    "lockmgr \<Rightarrow> (tid \<Rightarrow> tid option) \<Rightarrow> tid \<Rightarrow> int \<Rightarrow> int \<Rightarrow> bool \<times> (tid \<Rightarrow> tid option) \<times> int"
  and isdeadlock_queue ::
    "lockmgr \<Rightarrow> (tid \<Rightarrow> tid option) \<Rightarrow> tid \<Rightarrow> rid \<Rightarrow> int \<Rightarrow> int \<Rightarrow> rid list \<Rightarrow>
      bool \<times> (tid \<Rightarrow> tid option) \<times> int"
where
  "lmgr_isdeadlock lm cyc me level maxlocks =
    (case lt_wait (lm_tran lm me) of
       None \<Rightarrow> (False, cyc, maxlocks)
     | Some wait \<Rightarrow>
         if level - 1 = 0 then (False, cyc, maxlocks)
         else isdeadlock_queue lm cyc me wait (level - 1) maxlocks
                (queue lm (lr_head (lm_req lm wait))))"
| "isdeadlock_queue lm cyc me wait level maxlocks [] = (False, cyc, maxlocks)"
| "isdeadlock_queue lm cyc me wait level maxlocks (req # reqs) =
    (if owner lm req = me \<and> status lm req \<noteq> LOCK_GRANTED then (False, cyc, maxlocks)
     else if maxlocks \<le> 0 then (False, cyc, maxlocks - 1)
     else if owner lm req \<noteq> me \<and>
        (\<not> lock_compat (mode lm req) (mode lm wait) \<or> status lm req \<noteq> LOCK_GRANTED)
     then
       (case (if (cyc(me := Some (owner lm req))) (owner lm req) \<noteq> None
              then (True, cyc(me := Some (owner lm req)), maxlocks - 1)
              else lmgr_isdeadlock lm (cyc(me := Some (owner lm req))) (owner lm req) level
                (maxlocks - 1)) of
          (deadlock, cyc2, maxlocks2) \<Rightarrow>
            if deadlock then (True, cyc2(me := None), maxlocks2)
            else isdeadlock_queue lm (cyc2(me := None)) me wait level maxlocks2 reqs)
     else isdeadlock_queue lm cyc me wait level (maxlocks - 1) reqs)"
  by pat_completeness auto

text \<open>The counter never grows, so the search ends whatever the state is.\<close>

lemma isdeadlock_maxlocks_dom:
  "lmgr_isdeadlock_isdeadlock_queue_dom (Inl (lm, cyc, me, level, maxlocks)) \<Longrightarrow>
    snd (snd (lmgr_isdeadlock lm cyc me level maxlocks)) \<le> maxlocks"
  "lmgr_isdeadlock_isdeadlock_queue_dom (Inr (lm, cyc, me, wait, level, maxlocks, q)) \<Longrightarrow>
    snd (snd (isdeadlock_queue lm cyc me wait level maxlocks q)) \<le> maxlocks"
proof (induction rule: lmgr_isdeadlock_isdeadlock_queue.pinduct)
  case (1 lm cyc me level maxlocks)
  then show ?case
    by (auto simp: lmgr_isdeadlock.psimps split: option.splits)
next
  case (3 lm cyc me wait level maxlocks req reqs)
  then show ?case
    by (fastforce simp: isdeadlock_queue.psimps split: prod.splits if_splits)
qed (simp add: isdeadlock_queue.psimps)

termination lmgr_isdeadlock
apply (relation "measures
    [\<lambda>x. case x of Inl (lm, cyc, me, level, m) \<Rightarrow> Suc (2 * nat m)
       | Inr (lm, cyc, me, wait, level, m, q) \<Rightarrow> 2 * nat m,
     \<lambda>x. case x of Inl _ \<Rightarrow> 0 | Inr (lm, cyc, me, wait, level, m, q) \<Rightarrow> length q]")
    apply simp_all
  subgoal by linarith
  subgoal for lm cyc me wait level maxlocks req x y xa ya
    using isdeadlock_maxlocks_dom(1) [of lm "cyc(me \<mapsto> owner lm req)" "owner lm req" level "maxlocks - 1"]
    by (cases "cyc (owner lm req)";
      cases "lmgr_isdeadlock lm (cyc(me \<mapsto> owner lm req)) (owner lm req) level (maxlocks - 1)")
      auto
  done

declare lmgr_isdeadlock.simps [simp del] isdeadlock_queue.simps(2) [simp del]

section \<open>Unlocking\<close>

text \<open>The search of a lock in its hash chain, which both locking and unlocking start with.\<close>

definition lmgr_findlock :: "lockmgr \<Rightarrow> relid \<Rightarrow> lockname \<Rightarrow> lockmgr \<times> hid option" where
  "lmgr_findlock lm rel name =
    (let chain = lm_hash lm (name mod lm_hashsize lm);
         other = (\<lambda>h. \<not> (lh_relid (lm_head lm h) = rel \<and> lh_name (lm_head lm h) = name));
         path = length (takeWhile other chain) + 1;
         lm1 = (if path > lm_maxpath lm then lm\<lparr>lm_maxpath := path\<rparr> else lm)
     in (lm1, case dropWhile other chain of [] \<Rightarrow> None | h # _ \<Rightarrow> Some h))"

definition own_request :: "lockmgr \<Rightarrow> tid \<Rightarrow> hid \<Rightarrow> rid option" where
  "own_request lm me lock = find (\<lambda>r. owner lm r = me) (queue lm lock)"

text \<open>The mode of the granted requests at the head of a queue.\<close>

fun granted_group :: "lockmgr \<Rightarrow> rid list \<Rightarrow> lock_mode \<Rightarrow> lock_mode" where
  "granted_group lm [] g = g"
| "granted_group lm (req # reqs) g =
    (if status lm req = LOCK_GRANTED then granted_group lm reqs (lock_max (mode lm req) g) else g)"

text \<open>The mode held by the requests before a converting one.\<close>

fun others_before :: "lockmgr \<Rightarrow> rid \<Rightarrow> rid list \<Rightarrow> lock_mode \<Rightarrow> lock_mode" where
  "others_before lm req [] g = g"
| "others_before lm req (t # ts) g =
    (if t \<noteq> req then
       (if status lm t = LOCK_GRANTED \<or> status lm t = LOCK_CONVERTING
        then others_before lm req ts (lock_max (mode lm t) g) else g)
     else g)"

definition lmgr_grant :: "lockmgr \<Rightarrow> hid \<Rightarrow> rid \<Rightarrow> lock_mode \<Rightarrow> lockmgr" where
  "lmgr_grant lm lock req m =
    lm_emit (lockwakeup (owner lm req))
      (lm_check (lt_cd (lm_tran lm (owner lm req)) \<noteq> None)
        (upd_head lock (\<lambda>h. h\<lparr>lh_granted_mode := lock_max m (lh_granted_mode h)\<rparr>)
          (upd_req req (\<lambda>r. r\<lparr>lr_status := LOCK_GRANTED, lr_mode := m\<rparr>) lm)))"

text \<open>
  The loop that wakes waiters. \<open>first\<close> is the owner of the first request of the queue as long as
  all requests seen are its own; its requests are granted without looking at the modes.
\<close>

fun lmgr_wake_loop :: "lockmgr \<Rightarrow> hid \<Rightarrow> tid option \<Rightarrow> rid list \<Rightarrow> lockmgr" where
  "lmgr_wake_loop lm lock fst_tran [] = lm"
| "lmgr_wake_loop lm lock fst_tran (req # reqs) =
    (let first = (if Some (owner lm req) \<noteq> fst_tran then None else fst_tran) in
     case status lm req of
       LOCK_WAITING \<Rightarrow>
         if Some (owner lm req) = first
            \<or> lock_compat (mode lm req) (lh_granted_mode (lm_head lm lock))
         then lmgr_wake_loop (lmgr_grant lm lock req (mode lm req)) lock first reqs
         else upd_head lock (\<lambda>h. h\<lparr>lh_waiting := True\<rparr>) lm
     | LOCK_CONVERTING \<Rightarrow>
         let granted_mode = others_before lm req (queue lm lock) LOCK_FREE;
             req_mode = lock_max (lr_convert_mode (lm_req lm req)) (mode lm req)
         in if Some (owner lm req) = first \<or> lock_compat req_mode granted_mode
            then lmgr_wake_loop (lmgr_grant lm lock req req_mode) lock first reqs
            else upd_head lock (\<lambda>h. h\<lparr>lh_waiting := True\<rparr>) lm
     | _ \<Rightarrow> lmgr_wake_loop lm lock first reqs)"

text \<open>The request is the only one of its lock: the lock goes away with it.\<close>

definition lmgr_unlock_only :: "lockmgr \<Rightarrow> hid \<Rightarrow> rid \<Rightarrow> lockname \<Rightarrow> lockmgr" where
  "lmgr_unlock_only lm lock req name =
    (let bucket = name mod lm_hashsize lm;
         chain = removeAll lock (lm_hash lm bucket);
         lm1 = lm\<lparr>lm_hash := (lm_hash lm)(bucket := chain),
                  lm_nchains := (if chain = [] then lm_nchains lm - 1 else lm_nchains lm)\<rparr>;
         lm2 = lock_request_free (lock_head_free lm1 lock) req
     in lm2\<lparr>lm_lockcnt := lm_lockcnt lm2 - 1\<rparr>)"

text \<open>Others remain: the granted mode is computed again and the waiters are looked at.\<close>

definition lmgr_unlock_leave :: "lockmgr \<Rightarrow> hid \<Rightarrow> rid \<Rightarrow> lockmgr" where
  "lmgr_unlock_leave lm lock req =
    (let lm1 = lock_request_free
            (upd_head lock (\<lambda>h. h\<lparr>lh_queue := removeAll req (lh_queue h)\<rparr>) lm) req;
         q = queue lm1 lock;
         lm2 = upd_head lock (\<lambda>h. h\<lparr>lh_waiting := False,
            lh_granted_mode := granted_group lm1 q LOCK_FREE\<rparr>)
            (lm1\<lparr>lm_lockcnt := lm_lockcnt lm1 - 1\<rparr>)
     in lmgr_wake_loop lm2 lock (Some (owner lm2 (hd q))) q)"

definition lmgr_unlock :: "lockmgr \<Rightarrow> tid \<Rightarrow> relid \<Rightarrow> lockname \<Rightarrow> lockmgr" where
  "lmgr_unlock lm0 me rel name =
    (case lmgr_findlock lm0 rel name of
       (lm, None) \<Rightarrow> lm
     | (lm, Some lock) \<Rightarrow>
         (case own_request lm me lock of
            None \<Rightarrow> lm
          | Some req \<Rightarrow>
              if lr_class (lm_req lm req) > LOCK_LONG \<or> lr_count (lm_req lm req) > 1
              then upd_req req (\<lambda>r. r\<lparr>lr_count := lr_count r - 1\<rparr>) lm
              else if queue lm lock = [req] then lmgr_unlock_only lm lock req name
              else lmgr_unlock_leave lm lock req))"

section \<open>Locking\<close>

text \<open>
  What \<open>lmgr_lock\<close> returns: the state, the reply, the request stored through \<open>p_req\<close>, and the
  flag stored through \<open>p_newlock\<close>.
\<close>

type_synonym lock_result = "lockmgr \<times> lock_reply \<times> rid option \<times> bool"

definition lt_task :: "lm_config \<Rightarrow> lockmgr \<Rightarrow> tid \<Rightarrow> bool" where
  "lt_task cfg lm me = (case lt_cd (lm_tran lm me) of None \<Rightarrow> False | Some cd \<Rightarrow> cfg_task cfg cd)"

text \<open>\<^verbatim>\<open>SsTimeCmp\<close> of \<^verbatim>\<open>ss/sstime.c\<close>, of which only the sign matters.\<close>

definition SsTimeCmp :: "u64 \<Rightarrow> u64 \<Rightarrow> int" where
  "SsTimeCmp t1 t2 = (let diff = sint (t1 - t2) in if diff < 0 then - 1 else if diff = 0 then 0 else 1)"

text \<open>The request was denied or timed out: it is made an instant one and unlocked.\<close>

definition lmgr_give_up :: "lockmgr \<Rightarrow> tid \<Rightarrow> rid \<Rightarrow> lockmgr" where
  "lmgr_give_up lm me req =
    (let lm1 = upd_req req (\<lambda>r. r\<lparr>lr_class := LOCK_INSTANT\<rparr>)
           (upd_tran me (\<lambda>t. t\<lparr>lt_wait := None\<rparr>)
             (lm\<lparr>lm_locktimeoutcnt := lm_locktimeoutcnt lm + 1\<rparr>));
         lock = lm_head lm1 (lr_head (lm_req lm1 req))
     in lmgr_unlock lm1 me (lh_relid lock) (lh_name lock))"

text \<open>A call by a transaction that already waits: is the lock granted, timed out, or neither?\<close>

definition lmgr_lock_retry :: "lm_config \<Rightarrow> u64 \<Rightarrow> lockmgr \<Rightarrow> tid \<Rightarrow> rid \<Rightarrow> lock_result" where
  "lmgr_lock_retry cfg now lm me req =
    (case status lm req of
       LOCK_GRANTED \<Rightarrow>
         (upd_req req (\<lambda>r. r\<lparr>lr_okcount := lr_okcount r + 1\<rparr>)
           (upd_tran me (\<lambda>t. t\<lparr>lt_wait := None\<rparr>)
             (lm\<lparr>lm_lockokcnt := lm_lockokcnt lm + 1\<rparr>)), LOCK_OK, Some req, False)
     | LOCK_DENIED \<Rightarrow> \<comment> \<open>the status, number 3, is returned as the reply\<close>
         (lmgr_give_up lm me req, LOCK_WAIT, None, False)
     | st \<Rightarrow>
         if SsTimeCmp now (lr_timeout (lm_req lm req)) < 0
         then (lm_emit (startlockwaitwithtimeout me (lr_timeout (lm_req lm req) - now))
                (lm_check (lt_task cfg lm me)
                  (lm\<lparr>lm_retrylockwaitcnt := lm_retrylockwaitcnt lm + 1\<rparr>)), LOCK_WAIT, None, False)
         else
           let lm1 = (if st = LOCK_CONVERTING
                 then upd_req req (\<lambda>r. r\<lparr>lr_status := LOCK_DENIED\<rparr>) lm else lm)
           in (lmgr_give_up lm1 me req, LOCK_TIMEOUT, None, False))"

text \<open>The test for a deadlock, which leaves its marks in \<open>lt_cycle\<close>.\<close>

definition lmgr_test_deadlock :: "lm_config \<Rightarrow> lockmgr \<Rightarrow> tid \<Rightarrow> u64 \<Rightarrow> lockmgr \<times> bool" where
  "lmgr_test_deadlock cfg lm me timeout =
    (if cfg_fastdeadlockdetect cfg \<and> timeout \<noteq> 0 then
       case lmgr_isdeadlock lm (\<lambda>t. lt_cycle (lm_tran lm t)) me (cfg_deadlockdetectmaxdepth cfg)
          (cfg_deadlockdetectmaxlocks cfg) of
         (deadlock, cyc, _) \<Rightarrow>
           (lm\<lparr>lm_tran := (\<lambda>t. (lm_tran lm t)\<lparr>lt_cycle := cyc t\<rparr>)\<rparr>, deadlock)
     else (lm, False))"

definition lmgr_start_wait :: "u64 \<Rightarrow> lockmgr \<Rightarrow> tid \<Rightarrow> hid \<Rightarrow> rid \<Rightarrow> u64 \<Rightarrow> lockmgr" where
  "lmgr_start_wait now lm me lock req timeout =
    lm_emit (startlockwaitwithtimeout me timeout)
      (upd_req req (\<lambda>r. r\<lparr>lr_timeout := now + timeout\<rparr>)
        (upd_head lock (\<lambda>h. h\<lparr>lh_waiting := True\<rparr>) lm))"

text \<open>The end of both cases that must wait: wait for the lock, or give the request up at once.\<close>

definition lmgr_must_wait ::
  "lm_config \<Rightarrow> u64 \<Rightarrow> lockmgr \<Rightarrow> tid \<Rightarrow> hid \<Rightarrow> rid \<Rightarrow> u64 \<Rightarrow> lock_result" where
  "lmgr_must_wait cfg now lm0 me lock req timeout0 =
    (let lm = upd_tran me (\<lambda>t. t\<lparr>lt_wait := Some req\<rparr>)
           (lm_check (lt_cd (lm_tran lm0 me) \<noteq> None)
             (lm0\<lparr>lm_lockwaitcnt := lm_lockwaitcnt lm0 + 1\<rparr>));
         (lm1, deadlock) = lmgr_test_deadlock cfg lm me timeout0;
         timeout = (if deadlock then 0 else timeout0)
     in if timeout \<noteq> 0 \<and> lt_task cfg lm1 me
        then (lmgr_start_wait now lm1 me lock req timeout, LOCK_WAIT, None, True)
        else
          (lmgr_give_up (upd_req req (\<lambda>r. r\<lparr>lr_status := LOCK_DENIED, lr_timeout := 0\<rparr>) lm1) me req,
           LOCK_TIMEOUT, None, True))"

text \<open>The name is not locked by anyone.\<close>

definition lmgr_lock_free ::
  "lockmgr \<Rightarrow> tid \<Rightarrow> relid \<Rightarrow> lockname \<Rightarrow> lock_mode \<Rightarrow> lock_class \<Rightarrow> bool \<Rightarrow> lock_result" where
  "lmgr_lock_free lm me rel name m cls bouncep =
    (if bouncep then (lm, LOCK_OK, None, False)
     else
       let (lm1, lock) = lock_head_alloc lm rel name m;
           (lm2, req) = lock_request_alloc lm1 me lock m cls name;
           bucket = name mod lm_hashsize lm2;
           lm3 = upd_req req (\<lambda>r. r\<lparr>lr_okcount := lr_okcount r + 1\<rparr>)
             (upd_head lock (\<lambda>h. h\<lparr>lh_queue := [req]\<rparr>) lm2);
           nchains = (if lm_hash lm2 bucket = [] then lm_nchains lm2 + 1 else lm_nchains lm2)
       in (lm3\<lparr>lm_lockcnt := lm_lockcnt lm3 + 1,
              lm_lockokcnt := lm_lockokcnt lm3 + 1,
              lm_hash := (lm_hash lm3)(bucket := lock # lm_hash lm3 bucket),
              lm_nchains := nchains,
              lm_maxnchains := (if nchains > lm_maxnchains lm3 then nchains else lm_maxnchains lm3)\<rparr>,
            LOCK_OK, Some req, True))"

text \<open>The transaction has no request for this lock yet.\<close>

definition lmgr_lock_new ::
  "lm_config \<Rightarrow> u64 \<Rightarrow> lockmgr \<Rightarrow> tid \<Rightarrow> hid \<Rightarrow> lockname \<Rightarrow> lock_mode \<Rightarrow> lock_class \<Rightarrow> u64 \<Rightarrow>
    bool \<Rightarrow> lock_result" where
  "lmgr_lock_new cfg now lm me lock name m cls timeout bouncep =
    (let grant = (\<not> lh_waiting (lm_head lm lock) \<and>
           lock_compat m (lh_granted_mode (lm_head lm lock)))
     in if bouncep then (lm, if grant then LOCK_OK else LOCK_TIMEOUT, None, True)
        else
          let (lm1, req) = lock_request_alloc lm me lock m cls name;
              lm2 = upd_head lock (\<lambda>h. h\<lparr>lh_queue := lh_queue h @ [req]\<rparr>)
                (lm1\<lparr>lm_lockcnt := lm_lockcnt lm1 + 1\<rparr>);
              lm3 = lm_check (queue lm lock \<noteq> []) lm2
          in if grant
             then (upd_req req (\<lambda>r. r\<lparr>lr_okcount := lr_okcount r + 1\<rparr>)
                    (upd_head lock (\<lambda>h. h\<lparr>lh_granted_mode := lock_max m (lh_granted_mode h)\<rparr>)
                      (lm3\<lparr>lm_lockokcnt := lm_lockokcnt lm3 + 1\<rparr>)), LOCK_OK, Some req, True)
             else lmgr_must_wait cfg now
                    (upd_req req (\<lambda>r. r\<lparr>lr_status := LOCK_WAITING\<rparr>) lm3) me lock req timeout)"

text \<open>The mode held by the other transactions at the head of the queue.\<close>

fun others_granted :: "lockmgr \<Rightarrow> tid \<Rightarrow> rid list \<Rightarrow> lock_mode \<Rightarrow> lock_mode" where
  "others_granted lm me [] g = g"
| "others_granted lm me (t # ts) g =
    (if owner lm t \<noteq> me then
       (if status lm t = LOCK_GRANTED \<or> status lm t = LOCK_CONVERTING
        then others_granted lm me ts (lock_max (mode lm t) g) else g)
     else others_granted lm me ts g)"

text \<open>The transaction has a request already: the same lock again, or a conversion.\<close>

definition lmgr_lock_again ::
  "lm_config \<Rightarrow> u64 \<Rightarrow> lockmgr \<Rightarrow> tid \<Rightarrow> hid \<Rightarrow> rid \<Rightarrow> lockname \<Rightarrow> lock_mode \<Rightarrow> lock_class \<Rightarrow> u64 \<Rightarrow>
    lock_result" where
  "lmgr_lock_again cfg now lm me lock req name m cls timeout =
    (let req_mode = lock_max m (mode lm req);
         again = (\<lambda>r. r\<lparr>lr_class := class_max cls (lr_class r), lr_count := lr_count r + 1,
           lr_okcount := lr_okcount r + 1\<rparr>)
     in if m \<le> mode lm req
        then (upd_req req again (lm\<lparr>lm_lockokcnt := lm_lockokcnt lm + 1\<rparr>), LOCK_OK, Some req, False)
        else if lock_compat req_mode (others_granted lm me (queue lm lock) LOCK_FREE)
        then (upd_head lock (\<lambda>h. h\<lparr>lh_granted_mode := lock_max req_mode (lh_granted_mode h)\<rparr>)
               (upd_req req (\<lambda>r. (again r)\<lparr>lr_status := LOCK_GRANTED, lr_mode := req_mode\<rparr>)
                 (lm\<lparr>lm_lockokcnt := lm_lockokcnt lm + 1\<rparr>)), LOCK_OK, Some req, False)
        else
          let (lm1, req1) = lock_request_alloc lm me lock m cls name;
              lm2 = upd_head lock (\<lambda>h. h\<lparr>lh_queue := lh_queue h @ [req1]\<rparr>)
                (lm1\<lparr>lm_lockcnt := lm_lockcnt lm1 + 1\<rparr>)
          in lmgr_must_wait cfg now
               (upd_req req1 (\<lambda>r. r\<lparr>lr_status := LOCK_CONVERTING, lr_convert_mode := m\<rparr>) lm2)
               me lock req1 timeout)"

definition lmgr_lock ::
  "lm_config \<Rightarrow> u64 \<Rightarrow> lockmgr \<Rightarrow> tid \<Rightarrow> relid \<Rightarrow> lockname \<Rightarrow> lock_mode \<Rightarrow> lock_class \<Rightarrow> u64 \<Rightarrow>
    bool \<Rightarrow> lock_result" where
  "lmgr_lock cfg now lm0 me rel name m cls timeout bouncep =
    (let lm = (if rel > DBE_LOCKRELID_MAXSPECIAL \<and> lm_disablerowspermessage lm0
           then lm_emit (setdisablerowspermessage me True) lm0 else lm0)
     in case lt_wait (lm_tran lm me) of
          Some req \<Rightarrow> lmgr_lock_retry cfg now lm me req
        | None \<Rightarrow>
            if \<not> lm_uselocks lm then (lm, LOCK_OK, None, False)
            else
              (case lmgr_findlock lm rel name of
                 (lm1, None) \<Rightarrow> lmgr_lock_free lm1 me rel name m cls bouncep
               | (lm1, Some lock) \<Rightarrow>
                   let lm2 = (if rel = DBE_LOCKRELID_REL
                         then lm1\<lparr>lm_cachedrelid := name, lm_cachedlock := Some lock\<rparr> else lm1)
                   in case own_request lm2 me lock of
                        None \<Rightarrow> lmgr_lock_new cfg now lm2 me lock name m cls timeout bouncep
                      | Some req \<Rightarrow> lmgr_lock_again cfg now lm2 me lock req name m cls timeout))"

section \<open>The operations of the lock manager\<close>

definition dbe_lockmgr_init :: "lm_config \<Rightarrow> nat \<Rightarrow> u64 \<Rightarrow> (tid \<Rightarrow> locktran) \<Rightarrow> tid \<Rightarrow> lockmgr" where
  "dbe_lockmgr_init cfg hashsize escalatelimit ts nexttran =
    (let n = (if cfg_fastdeadlockdetect cfg then 1 else LMGR_NMUTEXES)
     in \<lparr>lm_req = (\<lambda>_. \<lparr>lr_head = 0, lr_status = LOCK_GRANTED, lr_mode = LOCK_FREE,
             lr_convert_mode = LOCK_FREE, lr_count = 0, lr_okcount = 0, lr_class = LOCK_INSTANT,
             lr_tran = 0, lr_timeout = 0, lr_name = 0\<rparr>),
         lm_head = (\<lambda>_. \<lparr>lh_relid = 0, lh_name = 0, lh_queue = [], lh_granted_mode = LOCK_FREE,
             lh_waiting = False\<rparr>),
         lm_tran = ts, lm_nextreq = 0, lm_nexthead = 0, lm_nexttran = nexttran,
         lm_hash = (\<lambda>_. []), lm_hashsize = hashsize, lm_nmutexes = n,
         lm_lockcnt = 0, lm_lockokcnt = 0, lm_lockwaitcnt = 0, lm_retrylockwaitcnt = 0,
         lm_locktimeoutcnt = 0, lm_useescalation = False, lm_escalatelimit = escalatelimit,
         lm_uselocks = True, lm_disablerowspermessage = False, lm_cachedrelid = 0,
         lm_cachedlock = None, lm_freelock = (\<lambda>_. []), lm_nfreelocks = (\<lambda>_. 0),
         lm_maxfreelocks = N_FREE_LOCKS div n, lm_freerequest = (\<lambda>_. []),
         lm_nfreerequests = (\<lambda>_. 0), lm_maxfreerequests = N_FREE_REQUESTS div n,
         lm_maxnlocks = 0, lm_nchains = 0, lm_maxnchains = 0, lm_maxpath = 0,
         lm_events = [], lm_failed = False\<rparr>)"

definition dbe_locktran_init :: "lockmgr \<Rightarrow> cd \<Rightarrow> lockmgr \<times> tid" where
  "dbe_locktran_init lm cd =
    (let t = lm_nexttran lm
     in (lm\<lparr>lm_tran := (lm_tran lm)(t := \<lparr>lt_cd = Some cd, lt_locks = (\<lambda>_. []), lt_wait = None,
            lt_cycle = None\<rparr>), lm_nexttran := t + 1\<rparr>, t))"

definition dbe_lockmgr_setuselocks :: "lockmgr \<Rightarrow> bool \<Rightarrow> lockmgr" where
  "dbe_lockmgr_setuselocks lm uselocks = lm\<lparr>lm_uselocks := uselocks\<rparr>"

definition dbe_lockmgr_setlockdisablerowspermessage :: "lockmgr \<Rightarrow> bool \<Rightarrow> lockmgr" where
  "dbe_lockmgr_setlockdisablerowspermessage lm b = lm\<lparr>lm_disablerowspermessage := b\<rparr>"

definition dbe_lockmgr_setuseescalation :: "lockmgr \<Rightarrow> bool \<Rightarrow> lockmgr" where
  "dbe_lockmgr_setuseescalation lm b = lm\<lparr>lm_useescalation := b\<rparr>"

definition dbe_lockmgr_getlockcount :: "lockmgr \<Rightarrow> int" where
  "dbe_lockmgr_getlockcount lm = (if lm_lockcnt lm < 0 then 0 else lm_lockcnt lm)"

definition is_lock :: "lockmgr \<Rightarrow> relid \<Rightarrow> lockname \<Rightarrow> rid \<Rightarrow> bool" where
  "is_lock lm rel name r =
    (let lock = lm_head lm (lr_head (lm_req lm r)) in lh_relid lock = rel \<and> lh_name lock = name)"

definition dbe_lockmgr_unlock :: "lockmgr \<Rightarrow> tid \<Rightarrow> relid \<Rightarrow> lockname \<Rightarrow> lockmgr" where
  "dbe_lockmgr_unlock lm me rel name =
    (case find (is_lock lm rel name) (lt_locks (lm_tran lm me) (LMGR_MUTEX lm name)) of
       None \<Rightarrow> lm
     | Some req \<Rightarrow>
         let lm1 = lmgr_unlock (upd_req req (\<lambda>r. r\<lparr>lr_class := LOCK_INSTANT, lr_count := 1\<rparr>) lm)
               me rel name
         in if lt_wait (lm_tran lm1 me) = Some req
            then upd_tran me (\<lambda>t. t\<lparr>lt_wait := None\<rparr>) lm1 else lm1)"

definition dbe_lockmgr_unlock_shared :: "lockmgr \<Rightarrow> tid \<Rightarrow> relid \<Rightarrow> lockname \<Rightarrow> lockmgr" where
  "dbe_lockmgr_unlock_shared lm me rel name =
    (case find (is_lock lm rel name) (lt_locks (lm_tran lm me) (LMGR_MUTEX lm name)) of
       None \<Rightarrow> lm
     | Some _ \<Rightarrow> lmgr_unlock lm me rel name)"

definition dbe_lockmgr_cancelwaiting :: "lockmgr \<Rightarrow> tid \<Rightarrow> lockmgr" where
  "dbe_lockmgr_cancelwaiting lm me =
    (case lt_wait (lm_tran lm me) of
       None \<Rightarrow> lm_check False lm
     | Some req \<Rightarrow>
         let lock = lm_head lm (lr_head (lm_req lm req));
             lm1 = (if status lm req \<noteq> LOCK_GRANTED then
                 if lr_count (lm_req lm req) > 1
                 then upd_req req (\<lambda>r. r\<lparr>lr_status := LOCK_GRANTED, lr_count := lr_count r - 1\<rparr>) lm
                 else lmgr_unlock (upd_req req (\<lambda>r. r\<lparr>lr_class := LOCK_INSTANT\<rparr>) lm) me
                   (lh_relid lock) (lh_name lock)
               else lm)
         in upd_tran me (\<lambda>t. t\<lparr>lt_wait := None\<rparr>) lm1)"

text \<open>
  The loop of \<open>lmgr_unlock_class\<close> over one list of the transaction. The next request is read before
  the unlock, which may free it: it is visited all the same, with its old contents. Requests behind
  it that the unlock frees are unlinked and not visited.
\<close>

function unlock_class_loop ::
  "lockmgr \<Rightarrow> tid \<Rightarrow> lock_class \<Rightarrow> bool \<Rightarrow> nat \<Rightarrow> rid list \<Rightarrow> lockmgr" where
  "unlock_class_loop lm me cls alt_less i [] = lm"
| "unlock_class_loop lm me cls alt_less i (req # reqs) =
    (let lock = lm_head lm (lr_head (lm_req lm req));
         c = lr_class (lm_req lm req);
         lm1 = (if c = cls \<or> c < cls \<and> alt_less
           then lmgr_unlock (upd_req req (\<lambda>r. r\<lparr>lr_class := LOCK_INSTANT, lr_count := 1\<rparr>) lm) me
             (lh_relid lock) (lh_name lock)
           else lm)
     in unlock_class_loop lm1 me cls alt_less i
          (case reqs of [] \<Rightarrow> []
           | nxt # rest \<Rightarrow> nxt # filter (\<lambda>r. r \<in> set (lt_locks (lm_tran lm1 me) i)) rest))"
  by pat_completeness auto

termination unlock_class_loop
  by (relation "measure (\<lambda>(lm, me, cls, a, i, reqs). length reqs)")
    (auto split: list.splits simp: less_Suc_eq_le length_filter_le)

definition lmgr_unlock_class :: "lockmgr \<Rightarrow> tid \<Rightarrow> lock_class \<Rightarrow> bool \<Rightarrow> lockmgr" where
  "lmgr_unlock_class lm me cls alt_less =
    foldl (\<lambda>lm i. unlock_class_loop lm me cls alt_less i (lt_locks (lm_tran lm me) i)) lm
      [0..<lm_nmutexes lm]"

definition dbe_lockmgr_getlock ::
  "lockmgr \<Rightarrow> tid \<Rightarrow> relid \<Rightarrow> lockname \<Rightarrow> (lock_mode \<times> bool) option" where
  "dbe_lockmgr_getlock lm me rel name =
    (case find (is_lock lm rel name)
        (concat (map (lt_locks (lm_tran lm me)) [0..<lm_nmutexes lm])) of
       None \<Rightarrow> None
     | Some req \<Rightarrow> Some (mode lm req, lr_class (lm_req lm req) > LOCK_LONG))"

text \<open>
  \<open>lt_locks\<close> is an array, so the tests \<^verbatim>\<open>lt_locks != NULL\<close> before the next two always succeed.
\<close>

definition dbe_lockmgr_unlockall :: "lockmgr \<Rightarrow> tid \<Rightarrow> lockmgr" where
  "dbe_lockmgr_unlockall lm me =
    upd_tran me (\<lambda>t. t\<lparr>lt_wait := None\<rparr>) (lmgr_unlock_class lm me LOCK_LONG True)"

definition lmgr_fill_mme_pmon :: "lockmgr \<Rightarrow> lockmgr" where
  "lmgr_fill_mme_pmon lm =
    (if lm_lockcnt lm > lm_maxnlocks lm then lm\<lparr>lm_maxnlocks := lm_lockcnt lm\<rparr> else lm)"

definition dbe_lockmgr_unlockall_mme :: "lockmgr \<Rightarrow> tid \<Rightarrow> lockmgr" where
  "dbe_lockmgr_unlockall_mme lm me =
    lmgr_fill_mme_pmon
      (upd_tran me (\<lambda>t. t\<lparr>lt_wait := None\<rparr>) (lmgr_unlock_class lm me LOCK_LONG True))"

definition dbe_lockmgr_unlockall_long :: "lockmgr \<Rightarrow> tid \<Rightarrow> lockmgr" where
  "dbe_lockmgr_unlockall_long lm me =
    upd_tran me (\<lambda>t. t\<lparr>lt_wait := None\<rparr>) (lmgr_unlock_class lm me LOCK_VERY_LONG True)"

text \<open>
  The next two reach \<^verbatim>\<open>ss_error\<close> when lock escalation is used on a user relation: they have no
  result then. \<open>dbe_lockmgr_unlockall_nomutex\<close>, whose first statement is \<^verbatim>\<open>ss_error\<close>, never has one.
\<close>

definition dbe_lockmgr_lock ::
  "lm_config \<Rightarrow> u64 \<Rightarrow> lockmgr \<Rightarrow> tid \<Rightarrow> relid \<Rightarrow> lockname \<Rightarrow> lock_mode \<Rightarrow> u64 \<Rightarrow> bool \<Rightarrow>
    (lockmgr \<times> lock_reply \<times> bool) option" where
  "dbe_lockmgr_lock cfg now lm me rel name m timeout bouncep =
    (if rel > DBE_LOCKRELID_MAXSPECIAL \<and> lm_useescalation lm then None
     else case lmgr_lock cfg now lm me rel name m LOCK_LONG timeout bouncep of
       (lm1, reply, _, newlock) \<Rightarrow> Some (lm1, reply, newlock))"

definition dbe_lockmgr_lock_long ::
  "lm_config \<Rightarrow> u64 \<Rightarrow> lockmgr \<Rightarrow> tid \<Rightarrow> relid \<Rightarrow> lockname \<Rightarrow> lock_mode \<Rightarrow> u64 \<Rightarrow> bool \<Rightarrow>
    (lockmgr \<times> lock_reply) option" where
  "dbe_lockmgr_lock_long cfg now lm me rel name m timeout bouncep =
    (if rel > DBE_LOCKRELID_MAXSPECIAL \<and> lm_useescalation lm then None
     else case lmgr_lock cfg now lm me rel name m LOCK_VERY_LONG timeout bouncep of
       (lm1, reply, _, _) \<Rightarrow> Some (lm1, reply))"

definition dbe_lockmgr_lock_convert ::
  "lm_config \<Rightarrow> u64 \<Rightarrow> lockmgr \<Rightarrow> tid \<Rightarrow> relid \<Rightarrow> lockname \<Rightarrow> lock_mode \<Rightarrow>
    (lockmgr \<times> lock_reply \<times> bool) option" where
  "dbe_lockmgr_lock_convert cfg now lm me rel name m =
    dbe_lockmgr_lock cfg now (dbe_lockmgr_unlock lm me rel name) me rel name m 0 False"

text \<open>
  Row locks of the main memory engine. With escalation the table is locked first, in the mode that
  goes with the row's; once the table was locked more often than \<open>lm_escalatelimit\<close>, the table is
  locked instead of the row. A row locked again is not counted again. The result holds the lock
  that was tried last; the request of the table is read even when none was stored, in which case
  (locks are not used) there is no result.
\<close>

definition lock_mme_row ::
  "lm_config \<Rightarrow> u64 \<Rightarrow> lockmgr \<Rightarrow> tid \<Rightarrow> relid \<Rightarrow> lockname \<Rightarrow> lock_mode \<Rightarrow> u64 \<Rightarrow> bool \<Rightarrow> bool \<Rightarrow>
    rid option \<Rightarrow> (lockmgr \<times> lock_reply \<times> relid \<times> lockname) option" where
  "lock_mme_row cfg now lm me rel name m timeout bouncep escalatep tablereq =
    (case lmgr_lock cfg now lm me rel name m LOCK_LONG timeout bouncep of
       (lm1, reply, rowreq, _) \<Rightarrow>
         if reply = LOCK_OK \<and> escalatep \<and> rel \<noteq> DBE_LOCKRELID_REL then
           (case rowreq of
              None \<Rightarrow> None
            | Some row \<Rightarrow>
                if lr_okcount (lm_req lm1 row) > 1 then
                  (case tablereq of
                     None \<Rightarrow> None
                   | Some tab \<Rightarrow>
                       let lm2 = (if lr_okcount (lm_req lm1 tab) > 1
                             then upd_req tab (\<lambda>r. r\<lparr>lr_okcount := lr_okcount r - 1\<rparr>) lm1 else lm1)
                       in Some (lmgr_fill_mme_pmon lm2, reply, rel, name))
                else Some (lmgr_fill_mme_pmon lm1, reply, rel, name))
         else Some (lmgr_fill_mme_pmon lm1, reply, rel, name))"

definition dbe_lockmgr_lock_mme ::
  "lm_config \<Rightarrow> u64 \<Rightarrow> lockmgr \<Rightarrow> tid \<Rightarrow> relid \<Rightarrow> lockname \<Rightarrow> lock_mode \<Rightarrow> u64 \<Rightarrow> bool \<Rightarrow> bool \<Rightarrow>
    (lockmgr \<times> lock_reply \<times> relid \<times> lockname) option" where
  "dbe_lockmgr_lock_mme cfg now lm me rel name m timeout bouncep escalatep =
    (if \<not> (escalatep \<and> lm_useescalation lm)
     then lock_mme_row cfg now lm me rel name m timeout bouncep False None
     else
       case lmgr_lock cfg now lm me DBE_LOCKRELID_REL rel (lockmgr_getrellockmode m) LOCK_LONG
              timeout bouncep of
         (lm1, reply, tablereq, _) \<Rightarrow>
           if reply \<noteq> LOCK_OK
           then Some (lmgr_fill_mme_pmon lm1, reply, DBE_LOCKRELID_REL, rel)
           else if bouncep
           then lock_mme_row cfg now lm1 me rel name m timeout bouncep True tablereq
           else
             case tablereq of
               None \<Rightarrow> None
             | Some tab \<Rightarrow>
                 if word_of_int (lr_okcount (lm_req lm1 tab)) > lm_escalatelimit lm1
                 then
                   let m1 = (if m = LOCK_U then LOCK_X else m)
                   in if mode lm1 tab \<ge> m1
                      then Some (lmgr_fill_mme_pmon lm1, LOCK_OK, rel, name)
                      else lock_mme_row cfg now lm1 me DBE_LOCKRELID_REL rel m1 timeout bouncep True tablereq
                 else lock_mme_row cfg now lm1 me rel name m timeout bouncep True tablereq)"

definition dbe_lockmgr_relock_mme ::
  "lm_config \<Rightarrow> u64 \<Rightarrow> lockmgr \<Rightarrow> tid \<Rightarrow> relid \<Rightarrow> lockname \<Rightarrow> lock_mode \<Rightarrow> u64 \<Rightarrow> lockmgr \<times> lock_reply" where
  "dbe_lockmgr_relock_mme cfg now lm me rel name m timeout =
    (case lmgr_lock cfg now lm me rel name m LOCK_LONG timeout False of
       (lm1, reply, _, _) \<Rightarrow> (lm1, reply))"

section \<open>Evaluation\<close>

text \<open>The equations that compute a run of operations from a given state.\<close>

lemmas lm_eval = Let_def upd_req_def upd_head_def upd_tran_def lm_emit_def lm_check_def
  dbe_lockmgr_init_def lmgr_lock_def lmgr_findlock_def own_request_def lmgr_lock_free_def
  lmgr_lock_new_def lmgr_lock_again_def lmgr_lock_retry_def lock_head_alloc_def
  lock_request_alloc_def LMGR_MUTEX_def LMGR_NMUTEXES_def N_FREE_LOCKS_def N_FREE_REQUESTS_def
  DBE_LOCKRELID_REL_def DBE_LOCKRELID_MAXSPECIAL_def lmgr_must_wait_def lmgr_test_deadlock_def
  lmgr_start_wait_def lmgr_give_up_def lt_task_def lmgr_unlock_def lmgr_unlock_only_def
  lmgr_unlock_leave_def lock_request_free_def lock_head_free_def lmgr_wake_loop.simps lmgr_grant_def
  dbe_lockmgr_unlock_def dbe_lockmgr_unlockall_def lmgr_unlock_class_def is_lock_def class_max_def
  lmgr_isdeadlock.simps isdeadlock_queue.simps lock_tables lock_class_order

text \<open>A lock manager with four transactions, and the row locks of one table.\<close>

definition example_config :: "bool \<Rightarrow> lm_config" where
  "example_config fast = \<lparr>cfg_fastdeadlockdetect = fast, cfg_deadlockdetectmaxdepth = 3,
    cfg_deadlockdetectmaxlocks = 100, cfg_task = (\<lambda>_. True)\<rparr>"

definition example_init :: lockmgr where
  "example_init = dbe_lockmgr_init (example_config True) 10 1000
    (\<lambda>t. \<lparr>lt_cd = Some t, lt_locks = (\<lambda>_. []), lt_wait = None, lt_cycle = None\<rparr>) 4"

definition example_lock :: "bool \<Rightarrow> lockmgr \<Rightarrow> tid \<Rightarrow> lockname \<Rightarrow> lock_mode \<Rightarrow> u64 \<Rightarrow> lock_result" where
  "example_lock fast lm me name m timeout =
    lmgr_lock (example_config fast) 5 lm me 100 name m LOCK_LONG timeout False"

lemmas example_eval = example_config_def example_init_def example_lock_def lm_eval

end
