(* ===== verification/Lock_Inv.thy ===== *)
theory Lock_Inv
  imports Lock_Mgr
begin

text \<open>
  The invariant of the lock manager and its preservation by the operations of \<open>Lock_Mgr\<close>:
  \<open>heap_ok\<close> says that hash chains, queues and free lists share no object, \<open>members_ok\<close> says of the
  requests on a queue that those granted come first and that different transactions hold modes that
  go together, \<open>queue_ok\<close> adds what the lock head summarises.
\<close>

section \<open>The invariant\<close>

definition live :: "lockmgr \<Rightarrow> hid \<Rightarrow> bool" where
  "live lm h = (\<exists>b. h \<in> set (lm_hash lm b))"

text \<open>The modes used on tables, and those used on rows, sequences and indexes.\<close>

definition modes_of :: "relid \<Rightarrow> lock_mode set" where
  "modes_of rel = (if rel = DBE_LOCKRELID_REL then table_modes else row_modes)"

lemma modes_of_family [simp]: "mode_family (modes_of rel)"
  by (simp add: modes_of_def mode_family_def)

definition heads_ok :: "lockmgr \<Rightarrow> bool" where
  "heads_ok lm =
    ((\<forall>b. distinct (lm_hash lm b)) \<and> (\<forall>i. distinct (lm_freelock lm i)) \<and>
     (\<forall>b h. h \<in> set (lm_hash lm b) \<longrightarrow>
        lh_name (lm_head lm h) mod lm_hashsize lm = b \<and> h < lm_nexthead lm \<and>
        (\<forall>i. h \<notin> set (lm_freelock lm i))) \<and>
     (\<forall>i h. h \<in> set (lm_freelock lm i) \<longrightarrow>
        LMGR_MUTEX lm (lh_name (lm_head lm h)) = i \<and> h < lm_nexthead lm))"

definition reqs_ok :: "lockmgr \<Rightarrow> bool" where
  "reqs_ok lm =
    ((\<forall>i. distinct (lm_freerequest lm i)) \<and>
     (\<forall>i r. r \<in> set (lm_freerequest lm i) \<longrightarrow>
        LMGR_MUTEX lm (lr_name (lm_req lm r)) = i \<and> r < lm_nextreq lm) \<and>
     (\<forall>h. live lm h \<longrightarrow> queue lm h \<noteq> [] \<and> distinct (queue lm h)) \<and>
     (\<forall>h r. live lm h \<longrightarrow> r \<in> set (queue lm h) \<longrightarrow>
        lr_head (lm_req lm r) = h \<and> r < lm_nextreq lm \<and> (\<forall>i. r \<notin> set (lm_freerequest lm i))))"

definition heap_ok :: "lockmgr \<Rightarrow> bool" where
  "heap_ok lm = (heads_ok lm \<and> reqs_ok lm)"

definition request_ok :: "lock_mode set \<Rightarrow> lockmgr \<Rightarrow> rid \<Rightarrow> bool" where
  "request_ok M lm r = (mode lm r \<in> M \<and> status lm r \<noteq> LOCK_DENIED \<and>
    (status lm r = LOCK_CONVERTING \<longrightarrow> lr_convert_mode (lm_req lm r) = mode lm r))"

text \<open>Granted requests of different transactions go together; the granted requests come first.\<close>

definition pairs_ok :: "lockmgr \<Rightarrow> rid list \<Rightarrow> bool" where
  "pairs_ok lm q = (\<forall>r s. r \<in> set q \<longrightarrow> s \<in> set q \<longrightarrow> status lm r = LOCK_GRANTED \<longrightarrow>
     status lm s = LOCK_GRANTED \<longrightarrow> owner lm r \<noteq> owner lm s \<longrightarrow> together (mode lm r) (mode lm s))"

fun granted_first :: "lockmgr \<Rightarrow> rid list \<Rightarrow> bool" where
  "granted_first lm [] = True"
| "granted_first lm (r # rs) =
    (if status lm r = LOCK_GRANTED then granted_first lm rs
     else \<forall>s \<in> set rs. status lm s \<noteq> LOCK_GRANTED)"

definition members_ok :: "lock_mode set \<Rightarrow> lockmgr \<Rightarrow> rid list \<Rightarrow> bool" where
  "members_ok M lm q = ((\<forall>r \<in> set q. request_ok M lm r) \<and> pairs_ok lm q \<and> granted_first lm q)"

text \<open>A granted mode that stands for the modes of the granted requests.\<close>

definition covers :: "lock_mode set \<Rightarrow> lock_mode \<Rightarrow> lock_mode \<Rightarrow> bool" where
  "covers M g a = (\<forall>m \<in> M. lock_compat m g \<longrightarrow> lock_compat m a)"

definition queue_ok :: "lockmgr \<Rightarrow> hid \<Rightarrow> bool" where
  "queue_ok lm h =
    (let M = modes_of (lh_relid (lm_head lm h)); g = lh_granted_mode (lm_head lm h) in
     members_ok M lm (queue lm h) \<and> g \<in> insert LOCK_FREE M \<and>
     (\<forall>r \<in> set (queue lm h). status lm r = LOCK_GRANTED \<longrightarrow> covers M g (mode lm r)) \<and>
     (\<not> lh_waiting (lm_head lm h) \<longrightarrow> (\<forall>r \<in> set (queue lm h). status lm r = LOCK_GRANTED)))"

definition lm_inv :: "lockmgr \<Rightarrow> bool" where
  "lm_inv lm = (heap_ok lm \<and> (\<forall>h. live lm h \<longrightarrow> queue_ok lm h))"

section \<open>What the invariant looks at\<close>

text \<open>
  Two states with the same heads, the same requests, or the same requests on one queue, as far as
  the invariant is concerned; updates of anything else are harmless.
\<close>

definition same_heads :: "lockmgr \<Rightarrow> lockmgr \<Rightarrow> bool" where
  "same_heads lm lm' = (lm_hash lm' = lm_hash lm \<and> lm_hashsize lm' = lm_hashsize lm \<and>
    lm_nmutexes lm' = lm_nmutexes lm \<and> lm_nexthead lm' = lm_nexthead lm \<and>
    lm_freelock lm' = lm_freelock lm \<and> (\<forall>h. lh_relid (lm_head lm' h) = lh_relid (lm_head lm h)) \<and>
    (\<forall>h. lh_name (lm_head lm' h) = lh_name (lm_head lm h)))"

definition same_reqs :: "lockmgr \<Rightarrow> lockmgr \<Rightarrow> bool" where
  "same_reqs lm lm' = (lm_nextreq lm' = lm_nextreq lm \<and> lm_freerequest lm' = lm_freerequest lm \<and>
    (\<forall>r. lr_head (lm_req lm' r) = lr_head (lm_req lm r)) \<and>
    (\<forall>r. lr_name (lm_req lm' r) = lr_name (lm_req lm r)) \<and>
    (\<forall>h. queue lm' h = queue lm h))"

definition same_members :: "rid list \<Rightarrow> lockmgr \<Rightarrow> lockmgr \<Rightarrow> bool" where
  "same_members q lm lm' = (\<forall>r. r \<in> set q \<longrightarrow> status lm' r = status lm r \<and> mode lm' r = mode lm r \<and>
    lr_convert_mode (lm_req lm' r) = lr_convert_mode (lm_req lm r) \<and> owner lm' r = owner lm r)"

definition same_queue :: "hid \<Rightarrow> lockmgr \<Rightarrow> lockmgr \<Rightarrow> bool" where
  "same_queue h lm lm' = (queue lm' h = queue lm h \<and>
    lh_relid (lm_head lm' h) = lh_relid (lm_head lm h) \<and>
    lh_granted_mode (lm_head lm' h) = lh_granted_mode (lm_head lm h) \<and>
    lh_waiting (lm_head lm' h) = lh_waiting (lm_head lm h) \<and> same_members (queue lm h) lm lm')"

lemmas same_defs = same_heads_def same_reqs_def same_members_def same_queue_def

lemmas lm_updates = upd_req_def upd_head_def upd_tran_def lm_emit_def lm_check_def

lemma heads_ok_cong: "same_heads lm lm' \<Longrightarrow> heads_ok lm' = heads_ok lm"
  by (simp add: same_heads_def heads_ok_def LMGR_MUTEX_def)

lemma live_cong: "same_heads lm lm' \<Longrightarrow> live lm' h = live lm h"
  by (simp add: live_def same_heads_def)

lemma reqs_ok_cong: "same_heads lm lm' \<Longrightarrow> same_reqs lm lm' \<Longrightarrow> reqs_ok lm' = reqs_ok lm"
  by (simp add: same_heads_def same_reqs_def reqs_ok_def LMGR_MUTEX_def live_def)

lemma heap_ok_cong: "same_heads lm lm' \<Longrightarrow> same_reqs lm lm' \<Longrightarrow> heap_ok lm' = heap_ok lm"
  by (simp add: heap_ok_def heads_ok_cong reqs_ok_cong)

lemma same_trans:
  "same_heads a b \<Longrightarrow> same_heads b c \<Longrightarrow> same_heads a c"
  "same_reqs a b \<Longrightarrow> same_reqs b c \<Longrightarrow> same_reqs a c"
  by (simp_all add: same_defs)

lemma granted_first_cong: "same_members q lm lm' \<Longrightarrow> granted_first lm' q = granted_first lm q"
  by (induction q) (auto simp: same_members_def)

lemma members_ok_cong: "same_members q lm lm' \<Longrightarrow> members_ok M lm' q = members_ok M lm q"
proof -
  assume *: "same_members q lm lm'"
  then have "pairs_ok lm' q = pairs_ok lm q"
    unfolding pairs_ok_def same_members_def by metis
  then show ?thesis
    using * granted_first_cong [OF *] by (simp add: same_members_def members_ok_def request_ok_def)
qed

lemma queue_ok_cong: "same_queue h lm lm' \<Longrightarrow> queue_ok lm' h = queue_ok lm h"
  using members_ok_cong [of "queue lm h" lm lm']
  by (simp add: same_queue_def queue_ok_def Let_def) (simp add: same_members_def)

lemma lm_inv_cong:
  assumes "same_heads lm lm'" "same_reqs lm lm'" "\<And>h. live lm h \<Longrightarrow> same_queue h lm lm'"
  shows "lm_inv lm' = lm_inv lm"
  using heap_ok_cong [OF assms(1,2)] live_cong [OF assms(1)] queue_ok_cong [OF assms(3)]
  by (auto simp: lm_inv_def)

text \<open>Updates that the invariant does not see.\<close>

lemma lm_inv_updates [simp]:
  "lm_inv (upd_tran t f lm) = lm_inv lm"
  "lm_inv (lm_emit e lm) = lm_inv lm"
  "lm_inv (lm_check b lm) = lm_inv lm"
  "lm_inv (lm\<lparr>lm_tran := ts\<rparr>) = lm_inv lm"
  "lm_inv (lm\<lparr>lm_maxpath := n\<rparr>) = lm_inv lm"
  "lm_inv (lm\<lparr>lm_lockcnt := i\<rparr>) = lm_inv lm"
  "lm_inv (lm\<lparr>lm_lockokcnt := w\<rparr>) = lm_inv lm"
  "lm_inv (lm\<lparr>lm_lockwaitcnt := w\<rparr>) = lm_inv lm"
  "lm_inv (lm\<lparr>lm_retrylockwaitcnt := w\<rparr>) = lm_inv lm"
  "lm_inv (lm\<lparr>lm_locktimeoutcnt := w\<rparr>) = lm_inv lm"
  "lm_inv (lm\<lparr>lm_cachedrelid := r, lm_cachedlock := c\<rparr>) = lm_inv lm"
  by (rule lm_inv_cong; simp add: same_defs lm_updates)+

lemma lm_inv_upd_req:
  assumes "\<And>r. lr_head (f r) = lr_head r \<and> lr_name (f r) = lr_name r \<and> lr_tran (f r) = lr_tran r \<and>
    lr_status (f r) = lr_status r \<and> lr_mode (f r) = lr_mode r \<and>
    lr_convert_mode (f r) = lr_convert_mode r"
  shows "lm_inv (upd_req req f lm) = lm_inv lm"
  by (rule lm_inv_cong; simp add: same_defs lm_updates assms)

section \<open>Waking the waiters of a lock\<close>

lemma covers_trans: "covers M a b \<Longrightarrow> covers M b c \<Longrightarrow> covers M a c"
  by (auto simp: covers_def)

lemma covers_refl [simp]: "covers M a a"
  by (simp add: covers_def)

lemma covers_max:
  assumes "mode_family M" "a \<in> insert LOCK_FREE M" "b \<in> insert LOCK_FREE M"
  shows "covers M (lock_max a b) a" "covers M (lock_max a b) b"
  using compat_max [OF assms(1) _ assms(2,3)] by (auto simp: covers_def)

lemma max_in_family:
  assumes "mode_family M" "a \<in> M" "g \<in> insert LOCK_FREE M"
  shows "lock_max a g \<in> insert LOCK_FREE M"
  using family_max [OF assms] by simp

lemma granted_first_append:
  "\<forall>r \<in> set pre. status lm r = LOCK_GRANTED \<Longrightarrow> granted_first lm (pre @ q) = granted_first lm q"
  by (induction pre) auto

lemma granted_none: "\<forall>s \<in> set q. status lm s \<noteq> LOCK_GRANTED \<Longrightarrow> granted_first lm q"
  by (induction q) auto

lemma granted_first_filter: "granted_first lm q \<Longrightarrow> granted_first lm (filter P q)"
proof (induction q)
  case (Cons r q)
  then show ?case
    using granted_none [of "filter P q" lm] by (auto split: if_splits)
qed simp

lemma members_ok_filter: "members_ok M lm q \<Longrightarrow> members_ok M lm (filter P q)"
  by (auto simp: members_ok_def pairs_ok_def granted_first_filter)

lemma granted_group_covers:
  assumes "mode_family M" "\<forall>r \<in> set q. mode lm r \<in> M" "g \<in> insert LOCK_FREE M" "granted_first lm q"
  shows "granted_group lm q g \<in> insert LOCK_FREE M \<and> covers M (granted_group lm q g) g \<and>
    (\<forall>r \<in> set q. status lm r = LOCK_GRANTED \<longrightarrow> covers M (granted_group lm q g) (mode lm r))"
  using assms(2-)
proof (induction q arbitrary: g)
  case (Cons r q)
  let ?g = "lock_max (mode lm r) g"
  have "?g \<in> insert LOCK_FREE M" "covers M ?g (mode lm r)" "covers M ?g g"
    using Cons.prems max_in_family [OF assms(1), of "mode lm r" g]
      covers_max [OF assms(1), of "mode lm r" g] by auto
  then show ?case
    using Cons.IH [of ?g] Cons.prems covers_trans [of M] by (auto split: if_splits)
qed simp

lemma others_before_covers:
  assumes "mode_family M" "\<forall>r \<in> set pre. mode lm r \<in> M \<and> status lm r = LOCK_GRANTED"
    and "g \<in> insert LOCK_FREE M" "req \<notin> set pre"
  shows "covers M (others_before lm req (pre @ req # post) g) g \<and>
    (\<forall>r \<in> set pre. covers M (others_before lm req (pre @ req # post) g) (mode lm r))"
  using assms(2-)
proof (induction pre arbitrary: g)
  case (Cons r pre)
  let ?g = "lock_max (mode lm r) g"
  have "?g \<in> insert LOCK_FREE M" "covers M ?g (mode lm r)" "covers M ?g g"
    using Cons.prems max_in_family [OF assms(1), of "mode lm r" g]
      covers_max [OF assms(1), of "mode lm r" g] by auto
  then show ?case
    using Cons.IH [of ?g] Cons.prems covers_trans [of M] by auto
qed simp

text \<open>A loop that wakes waiters changes the requests it is given and the head, and no links.\<close>

lemma lmgr_grant_frame:
  "same_heads lm (lmgr_grant lm h req m)" "same_reqs lm (lmgr_grant lm h req m)"
  "r \<noteq> req \<Longrightarrow> lm_req (lmgr_grant lm h req m) r = lm_req lm r"
  "h' \<noteq> h \<Longrightarrow> lm_head (lmgr_grant lm h req m) h' = lm_head lm h'"
  "owner (lmgr_grant lm h req m) r = owner lm r"
  by (simp_all add: lmgr_grant_def lm_updates same_defs)

abbreviation first_still :: "lockmgr \<Rightarrow> rid \<Rightarrow> tid option \<Rightarrow> tid option" where
  "first_still lm req f \<equiv> (if Some (owner lm req) \<noteq> f then None else f)"

text \<open>One turn of the loop passes over the request, grants it, or stops.\<close>

lemma wake_loop_turn:
  obtains (skip) "status lm req = LOCK_GRANTED \<or> status lm req = LOCK_DENIED"
    "lmgr_wake_loop lm h f (req # reqs) = lmgr_wake_loop lm h (first_still lm req f) reqs"
  | (waiting) "status lm req = LOCK_WAITING"
    "Some (owner lm req) = first_still lm req f \<or>
      lock_compat (mode lm req) (lh_granted_mode (lm_head lm h))"
    "lmgr_wake_loop lm h f (req # reqs) =
      lmgr_wake_loop (lmgr_grant lm h req (mode lm req)) h (first_still lm req f) reqs"
  | (converting) m where "status lm req = LOCK_CONVERTING"
    "m = lock_max (lr_convert_mode (lm_req lm req)) (mode lm req)"
    "Some (owner lm req) = first_still lm req f \<or>
      lock_compat m (others_before lm req (queue lm h) LOCK_FREE)"
    "lmgr_wake_loop lm h f (req # reqs) =
      lmgr_wake_loop (lmgr_grant lm h req m) h (first_still lm req f) reqs"
  | (stop) "status lm req = LOCK_WAITING \<or> status lm req = LOCK_CONVERTING"
    "lmgr_wake_loop lm h f (req # reqs) = upd_head h (\<lambda>h. h\<lparr>lh_waiting := True\<rparr>) lm"
proof (cases "status lm req")
  case LOCK_WAITING
  then show ?thesis
    using waiting stop
    by (cases "Some (owner lm req) = first_still lm req f \<or>
      lock_compat (mode lm req) (lh_granted_mode (lm_head lm h))") (simp_all add: Let_def)
next
  case LOCK_CONVERTING
  then show ?thesis
    using converting [OF LOCK_CONVERTING refl] stop
    by (cases "Some (owner lm req) = first_still lm req f \<or>
      lock_compat (lock_max (lr_convert_mode (lm_req lm req)) (mode lm req))
        (others_before lm req (queue lm h) LOCK_FREE)") (simp_all add: Let_def)
qed (use skip in \<open>simp_all add: Let_def\<close>)

declare lmgr_wake_loop.simps(2) [simp del]

lemma wake_loop_frame:
  "same_heads lm (lmgr_wake_loop lm h f reqs) \<and> same_reqs lm (lmgr_wake_loop lm h f reqs) \<and>
   (\<forall>r. r \<notin> set reqs \<longrightarrow> lm_req (lmgr_wake_loop lm h f reqs) r = lm_req lm r) \<and>
   (\<forall>h'. h' \<noteq> h \<longrightarrow> lm_head (lmgr_wake_loop lm h f reqs) h' = lm_head lm h')"
proof (induction reqs arbitrary: lm f)
  case (Cons req reqs)
  have grant: "same_heads lm lm' \<and> same_reqs lm lm' \<and>
      (\<forall>r. r \<notin> set (req # reqs) \<longrightarrow> lm_req lm' r = lm_req lm r) \<and>
      (\<forall>h'. h' \<noteq> h \<longrightarrow> lm_head lm' h' = lm_head lm h')"
    if "lm' = lmgr_wake_loop (lmgr_grant lm h req m) h f reqs" for lm' m f
    using Cons.IH [of "lmgr_grant lm h req m" f]
      same_trans(1) [OF lmgr_grant_frame(1) [of lm h req m]]
      same_trans(2) [OF lmgr_grant_frame(2) [of lm h req m]]
      lmgr_grant_frame(3,4) [where lm = lm and h = h and req = req and m = m]
    by (auto simp: that)
  show ?case
  proof (cases rule: wake_loop_turn [where lm = lm and req = req and h = h and f = f and reqs = reqs])
    case skip
    then show ?thesis
      using Cons.IH [of lm] by auto
  next
    case waiting
    show ?thesis
      using grant [OF waiting(3)] .
  next
    case converting
    show ?thesis
      using grant [OF converting(4)] .
  next
    case stop
    then show ?thesis
      by (auto simp: lm_updates same_defs)
  qed
qed (simp add: same_defs)

text \<open>
  The loop has passed over \<open>pre\<close>, all of it granted; while \<open>f\<close> is a transaction, all of it
  belongs to that transaction.
\<close>

definition wake_state ::
  "lock_mode set \<Rightarrow> lockmgr \<Rightarrow> hid \<Rightarrow> rid list \<Rightarrow> rid list \<Rightarrow> tid option \<Rightarrow> bool" where
  "wake_state M lm h pre reqs f =
    (M = modes_of (lh_relid (lm_head lm h)) \<and> queue lm h = pre @ reqs \<and> distinct (pre @ reqs) \<and>
     members_ok M lm (pre @ reqs) \<and> (\<forall>r \<in> set pre. status lm r = LOCK_GRANTED) \<and>
     lh_granted_mode (lm_head lm h) \<in> insert LOCK_FREE M \<and> \<not> lh_waiting (lm_head lm h) \<and>
     (\<forall>r \<in> set (pre @ reqs). status lm r = LOCK_GRANTED \<longrightarrow>
        covers M (lh_granted_mode (lm_head lm h)) (mode lm r)) \<and>
     (\<forall>t. f = Some t \<longrightarrow> (\<forall>r \<in> set pre. owner lm r = t)))"

lemma wake_state_grant:
  assumes ws: "wake_state M lm h pre (req # reqs) f"
    and st: "status lm req \<noteq> LOCK_GRANTED"
    and ok: "Some (owner lm req) = first_still lm req f \<or>
      (\<forall>r \<in> set pre. lock_compat (mode lm req) (mode lm r))"
  shows "wake_state M (lmgr_grant lm h req (mode lm req)) h (pre @ [req]) reqs (first_still lm req f)"
proof -
  let ?lm = "lmgr_grant lm h req (mode lm req)"
  have M: "mode_family M" "M = modes_of (lh_relid (lm_head lm h))"
    using ws by (simp_all add: wake_state_def)
  have rest: "\<forall>s \<in> set reqs. status lm s \<noteq> LOCK_GRANTED"
    using ws st by (auto simp: wake_state_def members_ok_def granted_first_append)
  have dist: "req \<notin> set pre" "req \<notin> set reqs"
    using ws by (auto simp: wake_state_def)
  have frame: "status ?lm r = (if r = req then LOCK_GRANTED else status lm r)" "mode ?lm r = mode lm r"
    "owner ?lm r = owner lm r" "lr_convert_mode (lm_req ?lm r) = lr_convert_mode (lm_req lm r)"
    "queue ?lm h = queue lm h" "lh_relid (lm_head ?lm h) = lh_relid (lm_head lm h)"
    "lh_waiting (lm_head ?lm h) = lh_waiting (lm_head lm h)"
    "lh_granted_mode (lm_head ?lm h) = lock_max (mode lm req) (lh_granted_mode (lm_head lm h))" for r
    by (simp_all add: lmgr_grant_def lm_updates)
  have owner_first: "owner lm r = owner lm req"
    if "r \<in> set pre" "Some (owner lm req) = first_still lm req f" for r
    using ws that by (auto simp: wake_state_def split: if_splits)
  have tog: "together (mode lm req) (mode lm r)" if "r \<in> set pre" "owner lm r \<noteq> owner lm req" for r
    using ok owner_first that by (auto simp: together_def)
  have members: "members_ok M ?lm (pre @ req # reqs)"
    unfolding members_ok_def
  proof (intro conjI)
    show "\<forall>r \<in> set (pre @ req # reqs). request_ok M ?lm r"
      using ws by (auto simp: wake_state_def members_ok_def request_ok_def frame)
    have pre: "together (mode lm r) (mode lm s)"
      if "r \<in> set pre" "s \<in> set pre" "owner lm r \<noteq> owner lm s" for r s
      using ws that by (auto simp: wake_state_def members_ok_def pairs_ok_def)
    have tog': "together (mode lm r) (mode lm req)"
      if "r \<in> set pre" "owner lm r \<noteq> owner lm req" for r
      unfolding together_commute [of "mode lm r"] by (rule tog [OF that])
    show "pairs_ok ?lm (pre @ req # reqs)"
      unfolding pairs_ok_def frame
    proof (intro allI impI)
      fix r s
      assume "r \<in> set (pre @ req # reqs)" "s \<in> set (pre @ req # reqs)" "owner lm r \<noteq> owner lm s"
        and "(if r = req then LOCK_GRANTED else status lm r) = LOCK_GRANTED"
        and "(if s = req then LOCK_GRANTED else status lm s) = LOCK_GRANTED"
      then have "r \<in> set pre \<or> r = req" "s \<in> set pre \<or> s = req" "owner lm r \<noteq> owner lm s"
        using rest by auto
      then show "together (mode lm r) (mode lm s)"
        using pre tog tog' by metis
    qed
    have "granted_first ?lm reqs"
      using rest dist(2) by (induction reqs) (auto simp: frame)
    then show "granted_first ?lm (pre @ req # reqs)"
      using ws dist by (subst granted_first_append) (auto simp: wake_state_def frame)
  qed
  have m: "mode lm req \<in> M" and g: "lh_granted_mode (lm_head lm h) \<in> insert LOCK_FREE M"
    using ws by (auto simp: wake_state_def members_ok_def request_ok_def)
  have cov: "covers M (lock_max (mode lm req) (lh_granted_mode (lm_head lm h))) (mode lm r)"
    if "r \<in> set pre \<or> r = req" for r
  proof (cases "r = req")
    case True
    then show ?thesis
      using covers_max(1) [OF M(1) insertI2 [OF m] g] by simp
  next
    case False
    then have "covers M (lh_granted_mode (lm_head lm h)) (mode lm r)"
      using that ws unfolding wake_state_def by auto
    then show ?thesis
      using covers_trans [OF covers_max(2) [OF M(1) insertI2 [OF m] g]] by blast
  qed
  have owners: "\<forall>r \<in> set (pre @ [req]). owner lm r = t" if "first_still lm req f = Some t" for t
    using that owner_first by (auto split: if_splits)
  have parts: "queue lm h = pre @ req # reqs" "distinct (pre @ req # reqs)"
    "\<forall>r \<in> set pre. status lm r = LOCK_GRANTED" "\<not> lh_waiting (lm_head lm h)"
    using ws by (simp_all add: wake_state_def)
  have list: "(pre @ [req]) @ reqs = pre @ req # reqs"
    by simp
  have granted: "\<forall>r \<in> set (pre @ req # reqs). (if r = req then LOCK_GRANTED else status lm r) = LOCK_GRANTED \<longrightarrow>
      covers M (lock_max (mode lm req) (lh_granted_mode (lm_head lm h))) (mode lm r)"
    using rest cov by auto
  show ?thesis
    unfolding wake_state_def frame list
    using parts(3) by (intro conjI allI impI M(2) parts(1,2,4) members max_in_family [OF M(1) m g]
        granted owners) auto
qed

lemma wake_loop_queue_ok:
  "wake_state M lm h pre reqs f \<Longrightarrow> queue_ok (lmgr_wake_loop lm h f reqs) h"
proof (induction reqs arbitrary: lm pre f)
  case Nil
  then show ?case
    by (auto simp: wake_state_def queue_ok_def)
next
  case (Cons req reqs)
  note ws = Cons.prems
  have M: "mode_family M" "M = modes_of (lh_relid (lm_head lm h))"
    using ws by (simp_all add: wake_state_def)
  have req: "mode lm req \<in> M" "status lm req \<noteq> LOCK_DENIED"
    "status lm req = LOCK_CONVERTING \<Longrightarrow> lr_convert_mode (lm_req lm req) = mode lm req"
    using ws by (auto simp: wake_state_def members_ok_def request_ok_def)
  show ?case
  proof (cases rule: wake_loop_turn [where lm = lm and req = req and h = h and f = f and reqs = reqs])
    case skip
    then have "wake_state M lm h (pre @ [req]) reqs (first_still lm req f)"
      using ws req(2) by (auto simp: wake_state_def split: if_splits)
    then show ?thesis
      unfolding skip(2) by (rule Cons.IH)
  next
    case waiting
    have "lock_compat (mode lm req) (mode lm r)"
      if "lock_compat (mode lm req) (lh_granted_mode (lm_head lm h))" "r \<in> set pre" for r
      using ws that req(1) by (auto simp: wake_state_def covers_def)
    then have "wake_state M (lmgr_grant lm h req (mode lm req)) h (pre @ [req]) reqs (first_still lm req f)"
      using waiting(1,2) by (intro wake_state_grant [OF ws]) auto
    then show ?thesis
      unfolding waiting(3) by (rule Cons.IH)
  next
    case (converting m)
    have m: "m = mode lm req"
      using converting(1,2) req(3) by simp
    have "\<forall>r \<in> set pre. covers M (others_before lm req (queue lm h) LOCK_FREE) (mode lm r)"
      using others_before_covers [OF M(1), of pre lm LOCK_FREE req reqs] ws
      by (auto simp: wake_state_def members_ok_def request_ok_def)
    then have "wake_state M (lmgr_grant lm h req m) h (pre @ [req]) reqs (first_still lm req f)"
      using converting(1,3) req(1) unfolding m
      by (intro wake_state_grant [OF ws]) (auto simp: covers_def)
    then show ?thesis
      unfolding converting(4) by (rule Cons.IH)
  next
    case stop
    have "members_ok M (upd_head h (\<lambda>h. h\<lparr>lh_waiting := True\<rparr>) lm) (pre @ req # reqs) =
        members_ok M lm (pre @ req # reqs)"
      by (rule members_ok_cong) (simp add: same_members_def lm_updates)
    then show ?thesis
      unfolding stop(2) using ws by (auto simp: wake_state_def queue_ok_def lm_updates)
  qed
qed

section \<open>Unlocking keeps the invariant\<close>

lemma request_free_frame [simp]:
  "lm_req (lock_request_free lm r) = lm_req lm" "lm_head (lock_request_free lm r) = lm_head lm"
  "lm_hash (lock_request_free lm r) = lm_hash lm" "lm_hashsize (lock_request_free lm r) = lm_hashsize lm"
  "lm_nmutexes (lock_request_free lm r) = lm_nmutexes lm"
  "lm_nextreq (lock_request_free lm r) = lm_nextreq lm"
  "lm_nexthead (lock_request_free lm r) = lm_nexthead lm"
  "lm_freelock (lock_request_free lm r) = lm_freelock lm"
  "lm_lockcnt (lock_request_free lm r) = lm_lockcnt lm"
  by (simp_all add: lock_request_free_def Let_def lm_updates)

lemma request_free_list:
  "lm_freerequest (lock_request_free lm r) = lm_freerequest lm \<or>
   lm_freerequest (lock_request_free lm r) =
     (lm_freerequest lm)(LMGR_MUTEX lm (lr_name (lm_req lm r)) :=
        r # lm_freerequest lm (LMGR_MUTEX lm (lr_name (lm_req lm r))))"
  by (simp add: lock_request_free_def Let_def lm_updates)

lemma reqs_okD:
  assumes "reqs_ok lm"
  shows "distinct (lm_freerequest lm i)"
    and "r \<in> set (lm_freerequest lm i) \<Longrightarrow> LMGR_MUTEX lm (lr_name (lm_req lm r)) = i \<and> r < lm_nextreq lm"
    and "live lm h \<Longrightarrow> queue lm h \<noteq> [] \<and> distinct (queue lm h)"
    and "live lm h \<Longrightarrow> r \<in> set (queue lm h) \<Longrightarrow>
      lr_head (lm_req lm r) = h \<and> r < lm_nextreq lm \<and> r \<notin> set (lm_freerequest lm i)"
  using assms by (simp_all add: reqs_ok_def)

text \<open>After the loop the invariant holds, if the other locks satisfied it before.\<close>

lemma wake_loop_inv:
  assumes ok: "heap_ok lm" and live: "live lm h" and ws: "wake_state M lm h [] q f"
    and q: "set q \<subseteq> set (queue lm h)"
    and others: "\<And>h'. live lm h' \<Longrightarrow> h' \<noteq> h \<Longrightarrow> queue_ok lm h'"
  shows "lm_inv (lmgr_wake_loop lm h f q)"
proof -
  let ?lm = "lmgr_wake_loop lm h f q"
  have frame: "same_heads lm ?lm" "same_reqs lm ?lm"
    "\<And>r. r \<notin> set q \<Longrightarrow> lm_req ?lm r = lm_req lm r" "\<And>h'. h' \<noteq> h \<Longrightarrow> lm_head ?lm h' = lm_head lm h'"
    using wake_loop_frame [of lm h f q] by auto
  have "queue_ok ?lm h'" if h': "live lm h'" for h'
  proof (cases "h' = h")
    case True
    then show ?thesis
      using wake_loop_queue_ok [OF ws] by simp
  next
    case False
    have "r \<notin> set q" if "r \<in> set (queue lm h')" for r
      using reqs_okD(4) [OF _ h' that] reqs_okD(4) [OF _ live] ok False q
      by (auto simp: heap_ok_def)
    then have "same_queue h' lm ?lm"
      using frame(3,4) False by (simp add: same_queue_def same_members_def)
    then show ?thesis
      using others [OF h' False] queue_ok_cong by blast
  qed
  then show ?thesis
    using ok heap_ok_cong [OF frame(1,2)] live_cong [OF frame(1)] by (simp add: lm_inv_def)
qed

lemma reqs_ok_free:
  assumes ok: "reqs_ok lm" and live: "live lm h" "req \<in> set (queue lm h)"
    and lm': "lm_req lm' = lm_req lm"
      "\<And>h'. live lm' h' \<Longrightarrow> live lm h' \<and> queue lm' h' = removeAll req (queue lm h') \<and> queue lm' h' \<noteq> []"
      "lm_nextreq lm' = lm_nextreq lm" "LMGR_MUTEX lm' = LMGR_MUTEX lm"
      "lm_freerequest lm' = lm_freerequest lm \<or>
       lm_freerequest lm' = (lm_freerequest lm)(i := req # lm_freerequest lm i)"
      "i = LMGR_MUTEX lm (lr_name (lm_req lm req))"
  shows "reqs_ok lm'"
proof -
  note D = reqs_okD [OF ok]
  have free: "set (lm_freerequest lm' j) \<subseteq> set (lm_freerequest lm j) \<union> (if j = i then {req} else {})" for j
    using lm'(5) by auto
  have "distinct (lm_freerequest lm' j)" for j
    using lm'(5) D(1) [of j] D(4) [OF live, of j] by auto
  moreover have "LMGR_MUTEX lm (lr_name (lm_req lm r)) = j \<and> r < lm_nextreq lm"
    if "r \<in> set (lm_freerequest lm' j)" for r j
    using free [of j] that D(2) [of r j] D(4) [OF live] lm'(6) by (auto split: if_splits)
  moreover have "queue lm' h' \<noteq> [] \<and> distinct (queue lm' h')" if "live lm' h'" for h'
    using D(3) [of h'] lm'(2) [OF that] by (auto simp: distinct_removeAll)
  moreover have "lr_head (lm_req lm r) = h' \<and> r < lm_nextreq lm \<and> r \<notin> set (lm_freerequest lm' j)"
    if h': "live lm' h'" "r \<in> set (queue lm' h')" for r h' j
    using D(4) [of h' r j] lm'(2) [OF h'(1)] h'(2) free [of j] by (auto split: if_splits)
  ultimately show ?thesis
    unfolding reqs_ok_def lm'(1,3,4) by blast
qed

lemma other_queue:
  assumes "reqs_ok lm" "live lm h" "req \<in> set (queue lm h)" "live lm h'" "h' \<noteq> h"
  shows "req \<notin> set (queue lm h')"
  using reqs_okD(4) [OF assms(1,2,3)] reqs_okD(4) [OF assms(1,4)] assms(5) by blast

lemma unlock_leave_inv:
  assumes ok: "heap_ok lm" and live: "live lm h" "req \<in> set (queue lm h)"
    and q: "removeAll req (queue lm h) \<noteq> []"
    and members: "members_ok (modes_of (lh_relid (lm_head lm h))) lm (removeAll req (queue lm h))"
    and others: "\<And>h'. live lm h' \<Longrightarrow> h' \<noteq> h \<Longrightarrow> queue_ok lm h'"
  shows "lm_inv (lmgr_unlock_leave lm h req)"
proof -
  let ?q = "removeAll req (queue lm h)"
  let ?M = "modes_of (lh_relid (lm_head lm h))"
  define lm1 where "lm1 = lock_request_free
    (upd_head h (\<lambda>h. h\<lparr>lh_queue := removeAll req (lh_queue h)\<rparr>) lm) req"
  define lm2 where "lm2 = upd_head h (\<lambda>h. h\<lparr>lh_waiting := False,
      lh_granted_mode := granted_group lm1 ?q LOCK_FREE\<rparr>) (lm1\<lparr>lm_lockcnt := lm_lockcnt lm1 - 1\<rparr>)"
  let ?f = "Some (owner lm2 (hd ?q))"
  have leave: "lmgr_unlock_leave lm h req = lmgr_wake_loop lm2 h ?f ?q"
    by (simp add: lmgr_unlock_leave_def Let_def lm1_def lm2_def lm_updates)
  have rok: "reqs_ok lm"
    using ok by (simp add: heap_ok_def)
  have heads: "same_heads lm lm2"
    by (simp add: lm1_def lm2_def same_heads_def lm_updates)
  have req2: "lm_req lm2 = lm_req lm"
    by (simp add: lm1_def lm2_def lm_updates)
  have queues: "queue lm2 h' = (if h' = h then ?q else queue lm h')" for h'
    by (simp add: lm1_def lm2_def lm_updates)
  have free: "lm_freerequest lm2 = lm_freerequest lm \<or>
    lm_freerequest lm2 = (lm_freerequest lm)(LMGR_MUTEX lm (lr_name (lm_req lm req)) :=
        req # lm_freerequest lm (LMGR_MUTEX lm (lr_name (lm_req lm req))))"
    using request_free_list [of "upd_head h (\<lambda>h. h\<lparr>lh_queue := removeAll req (lh_queue h)\<rparr>) lm" req]
    by (simp add: lm1_def lm2_def lm_updates LMGR_MUTEX_def)
  have "reqs_ok lm2"
  proof (rule reqs_ok_free [OF rok live req2 _ _ _ free refl])
    show "live lm h' \<and> queue lm2 h' = removeAll req (queue lm h') \<and> queue lm2 h' \<noteq> []"
      if "live lm2 h'" for h'
      using that live_cong [OF heads] other_queue [OF rok live, of h'] reqs_okD(3) [OF rok, of h'] q
      by (auto simp: queues removeAll_id)
    show "lm_nextreq lm2 = lm_nextreq lm"
      by (simp add: lm1_def lm2_def lm_updates)
    show "LMGR_MUTEX lm2 = LMGR_MUTEX lm"
      using heads by (simp add: LMGR_MUTEX_def same_heads_def fun_eq_iff)
  qed
  then have heap2: "heap_ok lm2"
    using ok heads_ok_cong [OF heads] by (simp add: heap_ok_def)
  have dist: "distinct ?q"
    using reqs_okD(3) [OF rok live(1)] by (simp add: distinct_removeAll)
  have gg: "granted_group lm1 ?q LOCK_FREE \<in> insert LOCK_FREE ?M \<and>
      (\<forall>r \<in> set ?q. status lm1 r = LOCK_GRANTED \<longrightarrow> covers ?M (granted_group lm1 ?q LOCK_FREE) (mode lm1 r))"
    using granted_group_covers [OF modes_of_family, of ?q lm1 _ LOCK_FREE] members
      granted_first_cong [of ?q lm lm1]
    by (simp add: members_ok_def request_ok_def same_members_def lm1_def lm_updates)
  have "members_ok ?M lm2 ?q"
    using members members_ok_cong [of ?q lm lm2] req2 by (simp add: same_members_def)
  then have ws: "wake_state ?M lm2 h [] ?q ?f"
    using gg dist unfolding wake_state_def queues
    by (simp add: lm2_def lm1_def lm_updates)
  have others2: "queue_ok lm2 h'" if h': "live lm2 h'" "h' \<noteq> h" for h'
  proof -
    have "lm_head lm2 h' = lm_head lm h'"
      using h'(2) by (simp add: lm2_def lm1_def lm_updates)
    then have "same_queue h' lm lm2"
      using req2 by (simp add: same_queue_def same_members_def)
    then show ?thesis
      using others [OF _ h'(2)] h'(1) live_cong [OF heads] queue_ok_cong by blast
  qed
  have "live lm2 h" "set ?q \<subseteq> set (queue lm2 h)"
    using live live_cong [OF heads] by (simp_all add: queues)
  then show ?thesis
    unfolding leave by (intro wake_loop_inv [OF heap2 _ ws _ others2]) simp_all
qed

lemma head_free_frame [simp]:
  "lm_req (lock_head_free lm h) = lm_req lm" "lm_head (lock_head_free lm h) = lm_head lm"
  "lm_hash (lock_head_free lm h) = lm_hash lm" "lm_hashsize (lock_head_free lm h) = lm_hashsize lm"
  "lm_nmutexes (lock_head_free lm h) = lm_nmutexes lm"
  "lm_nextreq (lock_head_free lm h) = lm_nextreq lm"
  "lm_nexthead (lock_head_free lm h) = lm_nexthead lm"
  "lm_freerequest (lock_head_free lm h) = lm_freerequest lm"
  by (simp_all add: lock_head_free_def Let_def)

lemma head_free_list:
  "lm_freelock (lock_head_free lm h) = lm_freelock lm \<or>
   lm_freelock (lock_head_free lm h) =
     (lm_freelock lm)(LMGR_MUTEX lm (lh_name (lm_head lm h)) :=
        h # lm_freelock lm (LMGR_MUTEX lm (lh_name (lm_head lm h))))"
  by (simp add: lock_head_free_def Let_def)

lemma heads_okD:
  assumes "heads_ok lm"
  shows "distinct (lm_hash lm b)" "distinct (lm_freelock lm i)"
    and "h \<in> set (lm_hash lm b) \<Longrightarrow> lh_name (lm_head lm h) mod lm_hashsize lm = b \<and>
      h < lm_nexthead lm \<and> h \<notin> set (lm_freelock lm i)"
    and "h \<in> set (lm_freelock lm i) \<Longrightarrow> LMGR_MUTEX lm (lh_name (lm_head lm h)) = i \<and> h < lm_nexthead lm"
  using assms by (simp_all add: heads_ok_def)

lemma heads_ok_remove:
  assumes ok: "heads_ok lm" and h: "h \<in> set (lm_hash lm b)"
    and lm': "lm_head lm' = lm_head lm" "lm_hash lm' = (lm_hash lm)(b := removeAll h (lm_hash lm b))"
      "lm_hashsize lm' = lm_hashsize lm" "lm_nmutexes lm' = lm_nmutexes lm"
      "lm_nexthead lm' = lm_nexthead lm"
      "lm_freelock lm' = lm_freelock lm \<or>
       lm_freelock lm' = (lm_freelock lm)(i := h # lm_freelock lm i)"
      "i = LMGR_MUTEX lm (lh_name (lm_head lm h))"
  shows "heads_ok lm'"
proof -
  note D = heads_okD [OF ok]
  have mutex: "LMGR_MUTEX lm' = LMGR_MUTEX lm"
    by (simp add: LMGR_MUTEX_def lm'(3,4) fun_eq_iff)
  have free: "set (lm_freelock lm' j) \<subseteq> set (lm_freelock lm j) \<union> (if j = i then {h} else {})" for j
    using lm'(6) by auto
  have chain: "h' \<in> set (lm_hash lm' c) \<Longrightarrow> h' \<in> set (lm_hash lm c) \<and> h' \<noteq> h" for h' c
    using D(3) [OF h] D(3) [of h c] by (auto simp: lm'(2) split: if_splits)
  have "distinct (lm_hash lm' c)" for c
    using D(1) by (simp add: lm'(2) distinct_removeAll)
  moreover have "distinct (lm_freelock lm' j)" for j
    using lm'(6) D(2) [of j] D(3) [OF h, of j] by auto
  moreover have "lh_name (lm_head lm h') mod lm_hashsize lm = c \<and> h' < lm_nexthead lm \<and>
      h' \<notin> set (lm_freelock lm' j)" if "h' \<in> set (lm_hash lm' c)" for h' c j
    using chain [OF that] D(3) [of h' c j] free [of j] by (auto split: if_splits)
  moreover have "LMGR_MUTEX lm (lh_name (lm_head lm h')) = j \<and> h' < lm_nexthead lm"
    if "h' \<in> set (lm_freelock lm' j)" for h' j
    using free [of j] that D(4) [of h' j] D(3) [OF h] lm'(7) by (auto split: if_splits)
  ultimately show ?thesis
    unfolding heads_ok_def lm'(1,3,5) mutex by blast
qed

lemma unlock_only_inv:
  assumes ok: "heap_ok lm" and h: "h \<in> set (lm_hash lm (name mod lm_hashsize lm))"
    and q: "queue lm h = [req]"
    and others: "\<And>h'. live lm h' \<Longrightarrow> h' \<noteq> h \<Longrightarrow> queue_ok lm h'"
  shows "lm_inv (lmgr_unlock_only lm h req name)"
proof -
  let ?b = "name mod lm_hashsize lm"
  let ?lm = "lmgr_unlock_only lm h req name"
  let ?lm1 = "lm\<lparr>lm_hash := (lm_hash lm)(?b := removeAll h (lm_hash lm ?b)),
      lm_nchains := (if removeAll h (lm_hash lm ?b) = [] then lm_nchains lm - 1 else lm_nchains lm)\<rparr>"
  have live: "live lm h" and rok: "reqs_ok lm" and hok: "heads_ok lm"
    using h ok by (auto simp: live_def heap_ok_def)
  have frame: "lm_req ?lm = lm_req lm" "lm_head ?lm = lm_head lm" "lm_nextreq ?lm = lm_nextreq lm"
    "lm_hash ?lm = (lm_hash lm)(?b := removeAll h (lm_hash lm ?b))"
    "lm_hashsize ?lm = lm_hashsize lm" "lm_nmutexes ?lm = lm_nmutexes lm"
    "lm_nexthead ?lm = lm_nexthead lm" "LMGR_MUTEX ?lm = LMGR_MUTEX lm"
    by (simp_all add: lmgr_unlock_only_def Let_def LMGR_MUTEX_def fun_eq_iff)
  have live': "live ?lm h' \<Longrightarrow> live lm h' \<and> h' \<noteq> h" for h'
    using heads_okD(3) [OF hok h] heads_okD(3) [OF hok, of h] frame(4)
    by (auto simp: live_def split: if_splits)
  have mutex1: "LMGR_MUTEX ?lm1 = LMGR_MUTEX lm" "LMGR_MUTEX (lock_head_free ?lm1 h) = LMGR_MUTEX lm"
    by (simp_all add: LMGR_MUTEX_def fun_eq_iff)
  have "heads_ok ?lm"
  proof (rule heads_ok_remove [OF hok h frame(2,4,5,6,7) _ refl])
    show "lm_freelock ?lm = lm_freelock lm \<or> lm_freelock ?lm =
        (lm_freelock lm)(LMGR_MUTEX lm (lh_name (lm_head lm h)) :=
          h # lm_freelock lm (LMGR_MUTEX lm (lh_name (lm_head lm h))))"
      using head_free_list [of ?lm1 h] by (simp add: lmgr_unlock_only_def Let_def mutex1)
  qed
  moreover have "reqs_ok ?lm"
  proof (rule reqs_ok_free [OF rok live _ frame(1) _ frame(3,8) _ refl])
    show "lm_freerequest ?lm = lm_freerequest lm \<or> lm_freerequest ?lm =
        (lm_freerequest lm)(LMGR_MUTEX lm (lr_name (lm_req lm req)) :=
          req # lm_freerequest lm (LMGR_MUTEX lm (lr_name (lm_req lm req))))"
      using request_free_list [of "lock_head_free ?lm1 h" req]
      by (simp add: lmgr_unlock_only_def Let_def mutex1)
    show "live lm h' \<and> queue ?lm h' = removeAll req (queue lm h') \<and> queue ?lm h' \<noteq> []"
      if "live ?lm h'" for h'
      using live' [OF that] other_queue [OF rok live, of req h'] reqs_okD(3) [OF rok, of h'] q
      by (simp add: frame(2) removeAll_id)
  qed (simp add: q)
  moreover have "queue_ok ?lm h'" if "live ?lm h'" for h'
  proof -
    have "same_queue h' lm ?lm"
      by (simp add: same_queue_def same_members_def frame)
    then show ?thesis
      using others live' [OF that] queue_ok_cong by blast
  qed
  ultimately show ?thesis
    by (simp add: lm_inv_def heap_ok_def)
qed

lemma findlock_state:
  "\<exists>n. fst (lmgr_findlock lm rel name) = lm\<lparr>lm_maxpath := n\<rparr>"
proof -
  have "\<exists>n. (if b then lm\<lparr>lm_maxpath := p\<rparr> else lm) = lm\<lparr>lm_maxpath := n\<rparr>" for b p
    by (cases b; rule exI [of _ "if b then p else lm_maxpath lm"]; simp)
  then show ?thesis
    unfolding lmgr_findlock_def Let_def fst_conv .
qed

lemma findlock_found:
  assumes "snd (lmgr_findlock lm rel name) = Some h"
  shows "h \<in> set (lm_hash lm (name mod lm_hashsize lm))" "lh_relid (lm_head lm h) = rel"
    "lh_name (lm_head lm h) = name" "live lm h"
proof -
  let ?P = "\<lambda>h. \<not> (lh_relid (lm_head lm h) = rel \<and> lh_name (lm_head lm h) = name)"
  let ?c = "lm_hash lm (name mod lm_hashsize lm)"
  obtain hs where hs: "dropWhile ?P ?c = h # hs"
    using assms by (auto simp: lmgr_findlock_def Let_def split: list.splits)
  show "h \<in> set ?c"
    using set_dropWhileD [of h ?P ?c] hs by simp
  then show "live lm h"
    by (auto simp: live_def)
  show "lh_relid (lm_head lm h) = rel" "lh_name (lm_head lm h) = name"
    using hd_dropWhile [of ?P ?c] unfolding hs by simp_all
qed

lemma findlock_cong:
  "same_heads lm lm' \<Longrightarrow> snd (lmgr_findlock lm' rel name) = snd (lmgr_findlock lm rel name)"
  by (simp add: lmgr_findlock_def Let_def same_heads_def)

lemma own_request_found:
  "own_request lm me h = Some r \<Longrightarrow> r \<in> set (queue lm h) \<and> owner lm r = me"
  by (auto simp: own_request_def find_Some_iff)

lemma own_request_none: "own_request lm me h = None \<Longrightarrow> r \<in> set (queue lm h) \<Longrightarrow> owner lm r \<noteq> me"
  by (auto simp: own_request_def find_None_iff)

lemma own_request_maxpath [simp]: "own_request (lm\<lparr>lm_maxpath := n\<rparr>) me h = own_request lm me h"
  by (simp add: own_request_def)

lemma heap_ok_maxpath [simp]: "heap_ok (lm\<lparr>lm_maxpath := n\<rparr>) = heap_ok lm"
  and live_maxpath [simp]: "live (lm\<lparr>lm_maxpath := n\<rparr>) h = live lm h"
  and queue_ok_maxpath [simp]: "queue_ok (lm\<lparr>lm_maxpath := n\<rparr>) h = queue_ok lm h"
  and members_ok_maxpath [simp]: "members_ok M (lm\<lparr>lm_maxpath := n\<rparr>) q = members_ok M lm q"
  by (rule heap_ok_cong live_cong queue_ok_cong members_ok_cong; simp add: same_defs)+

lemma queue_not_only: "distinct q \<Longrightarrow> r \<in> set q \<Longrightarrow> q \<noteq> [r] \<Longrightarrow> removeAll r q \<noteq> []"
  by (cases q; cases "tl q") auto

text \<open>The request that goes away need not satisfy the invariant itself.\<close>

lemma lmgr_unlock_drop_inv:
  assumes ok: "heap_ok lm" and found: "snd (lmgr_findlock lm rel name) = Some h"
    and own: "own_request lm me h = Some req"
    and real: "\<not> (lr_class (lm_req lm req) > LOCK_LONG \<or> lr_count (lm_req lm req) > 1)"
    and members: "members_ok (modes_of rel) lm (removeAll req (queue lm h))"
    and others: "\<And>h'. live lm h' \<Longrightarrow> h' \<noteq> h \<Longrightarrow> queue_ok lm h'"
  shows "lm_inv (lmgr_unlock lm me rel name)"
proof -
  obtain n where n: "lmgr_findlock lm rel name = (lm\<lparr>lm_maxpath := n\<rparr>, Some h)"
    using findlock_state [of lm rel name] found by (cases "lmgr_findlock lm rel name") auto
  note h = findlock_found [OF found]
  have req: "req \<in> set (queue lm h)" "distinct (queue lm h)"
    using own_request_found [OF own] reqs_okD(3) [OF _ h(4)] ok by (auto simp: heap_ok_def)
  show ?thesis
  proof (cases "queue lm h = [req]")
    case True
    have "lm_inv (lmgr_unlock_only (lm\<lparr>lm_maxpath := n\<rparr>) h req name)"
      using ok h(1) True others by (intro unlock_only_inv) simp_all
    then show ?thesis
      using n own real True by (simp add: lmgr_unlock_def)
  next
    case False
    have "lm_inv (lmgr_unlock_leave (lm\<lparr>lm_maxpath := n\<rparr>) h req)"
      using ok h req queue_not_only [OF req(2,1) False] members others
      by (intro unlock_leave_inv) simp_all
    then show ?thesis
      using n own real False by (simp add: lmgr_unlock_def)
  qed
qed

lemma lm_inv_count: "lm_inv (upd_req req (\<lambda>r. r\<lparr>lr_count := f r\<rparr>) lm) = lm_inv lm"
  by (rule lm_inv_upd_req) simp

lemma lmgr_unlock_inv:
  assumes "lm_inv lm"
  shows "lm_inv (lmgr_unlock lm me rel name)"
proof (cases "snd (lmgr_findlock lm rel name)")
  case None
  then show ?thesis
    using assms findlock_state [of lm rel name]
    by (cases "lmgr_findlock lm rel name") (auto simp: lmgr_unlock_def)
next
  case (Some h)
  obtain n where n: "lmgr_findlock lm rel name = (lm\<lparr>lm_maxpath := n\<rparr>, Some h)"
    using findlock_state [of lm rel name] Some by (cases "lmgr_findlock lm rel name") auto
  show ?thesis
  proof (cases "own_request lm me h")
    case None
    then show ?thesis
      using assms n by (simp add: lmgr_unlock_def)
  next
    case own: (Some req)
    show ?thesis
    proof (cases "lr_class (lm_req lm req) > LOCK_LONG \<or> lr_count (lm_req lm req) > 1")
      case True
      then show ?thesis
        using assms n own by (auto simp: lmgr_unlock_def lm_inv_count)
    next
      case False
      have "queue_ok lm h" "lh_relid (lm_head lm h) = rel"
        using assms findlock_found [OF Some] by (simp_all add: lm_inv_def)
      then have "members_ok (modes_of rel) lm (removeAll req (queue lm h))"
        unfolding removeAll_filter_not_eq by (intro members_ok_filter) (simp add: queue_ok_def Let_def)
      then show ?thesis
        using assms False by (intro lmgr_unlock_drop_inv [OF _ Some own]) (simp_all add: lm_inv_def)
    qed
  qed
qed

end
