(* ===== verification/Lock_Safety.thy ===== *)
theory Lock_Safety
  imports Lock_Inv
begin

text \<open>
  Locking keeps the invariant of \<open>Lock_Inv\<close>, the states reachable through the operations of the
  lock manager satisfy it, and what follows: the properties of the lock manager. The steps of
  \<open>lm_reachable\<close> leave out what breaks the invariant in the code, a refused lock conversion; the
  last section shows how it does.
\<close>

section \<open>Locking keeps the invariant\<close>

lemma request_alloc_frame:
  assumes "lock_request_alloc lm me lock m cls name = (lm', req)"
  shows "lm_head lm' = lm_head lm" "same_heads lm lm'" "lm_nextreq lm \<le> lm_nextreq lm'"
    and "r \<noteq> req \<Longrightarrow> lm_req lm' r = lm_req lm r"
    and "lr_head (lm_req lm' req) = lock" "lr_name (lm_req lm' req) = name" "owner lm' req = me"
    and "status lm' req = LOCK_GRANTED" "mode lm' req = m" "lr_count (lm_req lm' req) = 1"
    and "lr_convert_mode (lm_req lm' req) = LOCK_FREE"
    and "lt_wait (lm_tran lm' t) = lt_wait (lm_tran lm t)"
  using assms
  by (auto simp: lock_request_alloc_def Let_def lm_updates same_heads_def split: list.splits prod.splits)

text \<open>The request allocated is not on a queue, and no longer on a free list.\<close>

lemma request_alloc_fresh:
  assumes ok: "reqs_ok lm" and alloc: "lock_request_alloc lm me lock m cls name = (lm', req)"
  shows "live lm h \<Longrightarrow> req \<notin> set (queue lm h)" "req < lm_nextreq lm'"
    and "set (lm_freerequest lm' i) \<subseteq> set (lm_freerequest lm i) - {req}" "distinct (lm_freerequest lm' i)"
proof -
  note D = reqs_okD [OF ok]
  show "req < lm_nextreq lm'" "distinct (lm_freerequest lm' i)"
    using alloc D(1) [of i] D(2) [of req "LMGR_MUTEX lm name"] D(1) [of "LMGR_MUTEX lm name"]
    by (auto simp: lock_request_alloc_def Let_def lm_updates split: list.splits)
  show "req \<notin> set (queue lm h)" if "live lm h"
    using alloc D(4) [OF that, of req "LMGR_MUTEX lm name"]
    by (auto simp: lock_request_alloc_def Let_def lm_updates split: list.splits)
  show "set (lm_freerequest lm' i) \<subseteq> set (lm_freerequest lm i) - {req}"
  proof (cases "lm_freerequest lm (LMGR_MUTEX lm name)")
    case Nil
    then show ?thesis
      using alloc D(2) [of req i]
      by (auto simp: lock_request_alloc_def Let_def lm_updates)
  next
    case (Cons r rs)
    then have "lm_freerequest lm' = (lm_freerequest lm)(LMGR_MUTEX lm name := rs)" "req = r"
      using alloc by (auto simp: lock_request_alloc_def Let_def lm_updates)
    moreover have "LMGR_MUTEX lm name = i" if "r \<in> set (lm_freerequest lm i)"
      using D(2) [OF that] D(2) [of r "LMGR_MUTEX lm name"] Cons by simp
    moreover have "r \<notin> set rs"
      using D(1) [of "LMGR_MUTEX lm name"] Cons by simp
    ultimately show ?thesis
      using Cons by (cases "r \<in> set (lm_freerequest lm i)") auto
  qed
qed

text \<open>A request is allocated and put at the end of a queue; the head may be new.\<close>

lemma reqs_ok_alloc:
  assumes ok: "reqs_ok lm" and alloc: "lock_request_alloc lm me h m cls name = (lm', req)"
    and lm2: "\<And>r. lr_head (lm_req lm2 r) = lr_head (lm_req lm' r)"
      "\<And>r. lr_name (lm_req lm2 r) = lr_name (lm_req lm' r)"
      "\<And>h'. live lm2 h' \<Longrightarrow> h' = h \<or> live lm h' \<and> queue lm2 h' = queue lm h'"
      "queue lm2 h = q @ [req]" "q = [] \<or> live lm h \<and> q = queue lm h"
      "lm_nextreq lm2 = lm_nextreq lm'" "LMGR_MUTEX lm2 = LMGR_MUTEX lm"
      "lm_freerequest lm2 = lm_freerequest lm'"
  shows "reqs_ok lm2"
proof -
  note D = reqs_okD [OF ok]
  note A = request_alloc_frame [OF alloc]
  note F = request_alloc_fresh [OF ok alloc]
  have free: "LMGR_MUTEX lm (lr_name (lm_req lm' r)) = i \<and> r < lm_nextreq lm'"
    if "r \<in> set (lm_freerequest lm' i)" for i r
  proof -
    have "r \<noteq> req" "r \<in> set (lm_freerequest lm i)"
      using that F(3) [of i] by auto
    then show ?thesis
      using D(2) [of r i] A(4) [of r] A(3) by simp
  qed
  have old: "lr_head (lm_req lm' r) = h' \<and> r < lm_nextreq lm' \<and> r \<notin> set (lm_freerequest lm' i)"
    if "live lm h'" "r \<in> set (queue lm h')" for h' r i
  proof -
    have "r \<noteq> req"
      using F(1) [OF that(1)] that(2) by blast
    then show ?thesis
      using D(4) [OF that, of i] F(3) [of i] A(3) A(4) [of r] by auto
  qed
  have q: "distinct q" "req \<notin> set q" "\<And>r. r \<in> set q \<Longrightarrow> live lm h \<and> r \<in> set (queue lm h)"
    using lm2(5) D(3) F(1) by auto
  have new: "req \<notin> set (lm_freerequest lm' i)" for i
    using F(3) [of i] by blast
  have "queue lm2 h' \<noteq> [] \<and> distinct (queue lm2 h')" if "live lm2 h'" for h'
    using lm2(3) [OF that] D(3) [of h'] q(1,2) lm2(4) by (cases "h' = h") auto
  moreover have "lr_head (lm_req lm' r) = h' \<and> r < lm_nextreq lm' \<and> r \<notin> set (lm_freerequest lm' i)"
    if "live lm2 h'" "r \<in> set (queue lm2 h')" for h' r i
    using lm2(3) [OF that(1)] that(2) old [of h' r i] q(3) [of r] new [of i] A(5) F(2) lm2(4)
    by (cases "h' = h") auto
  ultimately show ?thesis
    using F(4) free unfolding reqs_ok_def lm2(1,2,6,7,8) by blast
qed

text \<open>The state after a request was put at the end of the queue of a lock.\<close>

definition appended :: "lockmgr \<Rightarrow> hid \<Rightarrow> rid \<Rightarrow> lockmgr \<Rightarrow> bool" where
  "appended lm h req lm' = (heap_ok lm' \<and> same_heads lm lm' \<and> queue lm' h = queue lm h @ [req] \<and>
    req \<notin> set (queue lm h) \<and> lr_head (lm_req lm' req) = h \<and> lr_count (lm_req lm' req) = 1 \<and>
    (\<forall>r. r \<noteq> req \<longrightarrow> lm_req lm' r = lm_req lm r) \<and> (\<forall>h'. h' \<noteq> h \<longrightarrow> lm_head lm' h' = lm_head lm h') \<and>
    (\<forall>h'. live lm h' \<longrightarrow> h' \<noteq> h \<longrightarrow> req \<notin> set (queue lm h')))"

lemma appended_others:
  assumes "lm_inv lm" "appended lm h req lm'" "live lm' h'" "h' \<noteq> h"
  shows "queue_ok lm' h'"
proof -
  have "live lm h'"
    using assms(2,3) live_cong [of lm lm'] by (simp add: appended_def)
  moreover have "same_queue h' lm lm'"
    using assms(2,4) \<open>live lm h'\<close> unfolding appended_def same_queue_def same_members_def by metis
  ultimately show ?thesis
    using assms(1) queue_ok_cong by (auto simp: lm_inv_def)
qed

lemma append_request:
  assumes inv: "lm_inv lm" and live: "live lm h"
    and alloc: "lock_request_alloc lm me h m cls name = (lm1, req)"
    and lm2: "lm2 = upd_head h (\<lambda>h. h\<lparr>lh_queue := lh_queue h @ [req]\<rparr>) (lm1\<lparr>lm_lockcnt := n\<rparr>)"
  shows "appended lm h req lm2" "owner lm2 req = me" "status lm2 req = LOCK_GRANTED" "mode lm2 req = m"
    "lh_granted_mode (lm_head lm2 h) = lh_granted_mode (lm_head lm h)"
    "lh_waiting (lm_head lm2 h) = lh_waiting (lm_head lm h)"
proof -
  note A = request_alloc_frame [OF alloc]
  have ok: "reqs_ok lm" "heads_ok lm"
    using inv by (simp_all add: lm_inv_def heap_ok_def)
  note F = request_alloc_fresh [OF ok(1) alloc]
  have heads: "same_heads lm lm2"
    using A(2) by (simp add: lm2 lm_updates same_heads_def)
  have "reqs_ok lm2"
  proof (rule reqs_ok_alloc [OF ok(1) alloc])
    show "LMGR_MUTEX lm2 = LMGR_MUTEX lm"
      using heads by (simp add: LMGR_MUTEX_def same_heads_def fun_eq_iff)
    show "h' = h \<or> live lm h' \<and> queue lm2 h' = queue lm h'" if "live lm2 h'" for h'
      using that live_cong [OF heads] A(1) by (simp add: lm2 lm_updates)
    show "queue lm h = [] \<or> live lm h \<and> queue lm h = queue lm h"
      using live by simp
  qed (simp_all add: lm2 lm_updates A(1))
  then show "appended lm h req lm2"
    using heads_ok_cong [OF heads] ok heads F(1) live A
    by (simp add: appended_def heap_ok_def lm2 lm_updates)
qed (simp_all add: lm2 lm_updates request_alloc_frame [OF alloc])

lemma members_ok_snoc:
  assumes "members_ok M lm q" "status lm req \<noteq> LOCK_GRANTED" "request_ok M lm req"
  shows "members_ok M lm (q @ [req])"
proof -
  have "granted_first lm (q @ [req])" if "granted_first lm q"
    using that assms(2) by (induction q) auto
  then show ?thesis
    using assms by (auto simp: members_ok_def pairs_ok_def)
qed

lemma members_ok_granted:
  assumes "members_ok M lm q" "\<forall>r \<in> set q. status lm r = LOCK_GRANTED"
    and "status lm req = LOCK_GRANTED" "mode lm req \<in> M"
    and "\<forall>r \<in> set q. together (mode lm req) (mode lm r)"
  shows "members_ok M lm (q @ [req])"
proof -
  have "granted_first lm (q @ [req])"
    using assms(2,3) by (induction q) auto
  moreover have "together (mode lm r) (mode lm req)" if "r \<in> set q" for r
    using assms(5) that unfolding together_commute [of "mode lm r"] by blast
  ultimately show ?thesis
    using assms by (auto simp: members_ok_def pairs_ok_def request_ok_def)
qed

lemma appendedD:
  assumes "appended lm h req lm'"
  shows "heap_ok lm'" "same_heads lm lm'" "queue lm' h = queue lm h @ [req]" "req \<notin> set (queue lm h)"
    "lr_head (lm_req lm' req) = h" "lr_count (lm_req lm' req) = 1"
    and "r \<noteq> req \<Longrightarrow> lm_req lm' r = lm_req lm r" "h' \<noteq> h \<Longrightarrow> lm_head lm' h' = lm_head lm h'"
    and "live lm h' \<Longrightarrow> h' \<noteq> h \<Longrightarrow> req \<notin> set (queue lm h')"
    and "same_members (queue lm h) lm lm'"
  using assms unfolding appended_def same_members_def by metis+

lemma queue_okD:
  assumes "queue_ok lm h" "lh_relid (lm_head lm h) = rel"
  shows "members_ok (modes_of rel) lm (queue lm h)"
    "lh_granted_mode (lm_head lm h) \<in> insert LOCK_FREE (modes_of rel)"
    "r \<in> set (queue lm h) \<Longrightarrow> status lm r = LOCK_GRANTED \<Longrightarrow>
      covers (modes_of rel) (lh_granted_mode (lm_head lm h)) (mode lm r)"
    "\<not> lh_waiting (lm_head lm h) \<Longrightarrow> r \<in> set (queue lm h) \<Longrightarrow> status lm r = LOCK_GRANTED"
  using assms by (simp_all add: queue_ok_def Let_def)

lemma queue_okI:
  assumes "lh_relid (lm_head lm h) = rel" "members_ok (modes_of rel) lm (queue lm h)"
    "lh_granted_mode (lm_head lm h) \<in> insert LOCK_FREE (modes_of rel)"
    "\<And>r. r \<in> set (queue lm h) \<Longrightarrow> status lm r = LOCK_GRANTED \<Longrightarrow>
      covers (modes_of rel) (lh_granted_mode (lm_head lm h)) (mode lm r)"
    "\<And>r. \<not> lh_waiting (lm_head lm h) \<Longrightarrow> r \<in> set (queue lm h) \<Longrightarrow> status lm r = LOCK_GRANTED"
  shows "queue_ok lm h"
  using assms by (simp add: queue_ok_def Let_def)

text \<open>The request at the end of the queue waits.\<close>

lemma appended_waits_inv:
  assumes inv: "lm_inv lm" and live: "live lm h" and rel: "lh_relid (lm_head lm h) = rel"
    and app: "appended lm h req lm3"
    and req: "status lm3 req \<noteq> LOCK_GRANTED" "request_ok (modes_of rel) lm3 req"
    and same: "same_heads lm3 lm6" "same_reqs lm3 lm6" "\<And>h'. h' \<noteq> h \<Longrightarrow> same_queue h' lm3 lm6"
      "\<And>q. same_members q lm3 lm6"
    and head: "lh_granted_mode (lm_head lm6 h) = lh_granted_mode (lm_head lm h)"
      "lh_waiting (lm_head lm6 h)"
  shows "lm_inv lm6"
proof -
  note A = appendedD [OF app]
  have ok: "queue_ok lm h"
    using inv live by (simp add: lm_inv_def)
  note Q = queue_okD [OF ok rel]
  have q: "queue lm6 h = queue lm h @ [req]" "lh_relid (lm_head lm6 h) = rel"
    using same(1,2) A(2,3) rel by (simp_all add: same_defs)
  have st: "status lm6 r = status lm3 r" "mode lm6 r = mode lm3 r" for r
    using same(4) [of "[r]"] by (simp_all add: same_members_def)
  have "members_ok (modes_of rel) lm3 (queue lm h)"
    using Q(1) members_ok_cong [OF A(10)] by simp
  then have members: "members_ok (modes_of rel) lm6 (queue lm6 h)"
    using members_ok_snoc [OF _ req] members_ok_cong [OF same(4)] by (simp add: q(1))
  have "queue_ok lm6 h"
  proof (rule queue_okI [OF q(2) members])
    show "covers (modes_of rel) (lh_granted_mode (lm_head lm6 h)) (mode lm6 r)"
      if "r \<in> set (queue lm6 h)" "status lm6 r = LOCK_GRANTED" for r
    proof -
      have "r \<in> set (queue lm h)" "r \<noteq> req"
        using that req(1) A(4) by (auto simp: q(1) st)
      then show ?thesis
        using Q(3) [of r] that(2) A(7) [of r] by (simp add: st head)
    qed
  qed (use Q(2) head in simp_all)
  moreover have "queue_ok lm6 h'" if "live lm3 h'" "h' \<noteq> h" for h'
    using appended_others [OF inv app that] queue_ok_cong [OF same(3) [OF that(2)]] by simp
  ultimately show ?thesis
    using A(1) heap_ok_cong [OF same(1,2)] live_cong [OF same(1)] by (auto simp: lm_inv_def)
qed

text \<open>The request at the end of the queue, the only one of its owner, is given up.\<close>

lemma appended_dropped_inv:
  assumes inv: "lm_inv lm" and found: "snd (lmgr_findlock lm rel name) = Some h"
    and app: "appended lm h req lm3" and none: "own_request lm me h = None"
    and same: "same_heads lm3 lm6" "same_reqs lm3 lm6" "lm_head lm6 = lm_head lm3"
      "\<And>r. r \<noteq> req \<Longrightarrow> lm_req lm6 r = lm_req lm3 r"
    and req: "lr_count (lm_req lm6 req) = 1" "lr_class (lm_req lm6 req) = LOCK_INSTANT" "owner lm6 req = me"
  shows "lm_inv (lmgr_unlock lm6 me rel name)"
proof (rule lmgr_unlock_drop_inv)
  note h = findlock_found [OF found]
  note A = appendedD [OF app]
  have heads: "same_heads lm lm6"
    using A(2) same(1) same_trans(1) by blast
  have q: "queue lm6 h = queue lm h @ [req]"
    by (simp add: same(3) A(3))
  have members: "same_members (queue lm h) lm lm6"
    using A(4,7) same(4) unfolding same_members_def by metis
  show "heap_ok lm6"
    using A(1) heap_ok_cong [OF same(1,2)] by simp
  show "snd (lmgr_findlock lm6 rel name) = Some h"
    using found findlock_cong [OF heads] by simp
  have "find (\<lambda>r. owner lm6 r = me) (q @ [req]) = Some req"
    if "\<forall>r \<in> set q. owner lm6 r \<noteq> me" for q
    using that req(3) by (induction q) auto
  moreover have "\<forall>r \<in> set (queue lm h). owner lm6 r \<noteq> me"
    using own_request_none [OF none] members by (simp add: same_members_def)
  ultimately show "own_request lm6 me h = Some req"
    unfolding own_request_def q by blast
  show "\<not> (lr_class (lm_req lm6 req) > LOCK_LONG \<or> lr_count (lm_req lm6 req) > 1)"
    by (simp add: req lock_class_order)
  have "removeAll req (queue lm6 h) = queue lm h"
    using q A(4) by (simp add: removeAll_id)
  then show "members_ok (modes_of rel) lm6 (removeAll req (queue lm6 h))"
    using queue_okD(1) [OF _ h(2)] inv h(4) members_ok_cong [OF members] by (simp add: lm_inv_def)
  show "queue_ok lm6 h'" if h': "live lm6 h'" "h' \<noteq> h" for h'
  proof -
    have live3: "live lm3 h'" "live lm h'"
      using h'(1) live_cong [OF same(1)] live_cong [OF heads] by simp_all
    then have "req \<notin> set (queue lm3 h')"
      using A(9) [OF _ h'(2)] A(8) [OF h'(2)] by simp
    then have "same_queue h' lm3 lm6"
      using same(3,4) unfolding same_queue_def same_members_def by metis
    then show ?thesis
      using appended_others [OF inv app live3(1) h'(2)] queue_ok_cong by blast
  qed
qed

lemma test_deadlock_state:
  "\<exists>ts. fst (lmgr_test_deadlock cfg lm me timeout) = lm\<lparr>lm_tran := ts\<rparr>"
proof -
  have "\<exists>ts. lm = lm\<lparr>lm_tran := ts\<rparr>"
    by (rule exI [of _ "lm_tran lm"]) simp
  then show ?thesis
    unfolding lmgr_test_deadlock_def by (auto split: prod.splits)
qed

lemma must_wait_inv:
  assumes inv: "lm_inv lm" and found: "snd (lmgr_findlock lm rel name) = Some h"
    and app: "appended lm h req lm3"
    and granted: "lh_granted_mode (lm_head lm3 h) = lh_granted_mode (lm_head lm h)"
    and req: "status lm3 req \<noteq> LOCK_GRANTED" "request_ok (modes_of rel) lm3 req" "owner lm3 req = me"
    and res: "lmgr_must_wait cfg now lm3 me h req timeout = (lm', reply, p_req, newlock)"
    and refused: "reply = LOCK_TIMEOUT \<Longrightarrow> own_request lm me h = None"
  shows "lm_inv lm'"
proof -
  note h = findlock_found [OF found]
  note A = appendedD [OF app]
  define lm4 where "lm4 = upd_tran me (\<lambda>t. t\<lparr>lt_wait := Some req\<rparr>)
      (lm_check (lt_cd (lm_tran lm3 me) \<noteq> None) (lm3\<lparr>lm_lockwaitcnt := lm_lockwaitcnt lm3 + 1\<rparr>))"
  obtain ts deadlock where test: "lmgr_test_deadlock cfg lm4 me timeout = (lm4\<lparr>lm_tran := ts\<rparr>, deadlock)"
    using test_deadlock_state [of cfg lm4 me timeout] by (metis prod.collapse)
  note res' = res [unfolded lmgr_must_wait_def Let_def, folded lm4_def, unfolded test prod.case]
  let ?lm5 = "lm4\<lparr>lm_tran := ts\<rparr>"
  let ?t = "if deadlock then 0 else timeout"
  have same5: "lm_req ?lm5 = lm_req lm3" "lm_head ?lm5 = lm_head lm3" "same_heads lm3 ?lm5" "same_reqs lm3 ?lm5"
    by (simp_all add: lm4_def lm_updates same_defs)
  show ?thesis
  proof (cases "?t \<noteq> 0 \<and> lt_task cfg ?lm5 me")
    case True
    have "lm_inv (lmgr_start_wait now ?lm5 me h req ?t)"
      by (rule appended_waits_inv [OF inv h(4,2) app req(1,2)])
        (use same5 granted in \<open>simp_all add: lmgr_start_wait_def lm_updates same_defs\<close>)
    then show ?thesis
      using res' True by auto
  next
    case False
    let ?lm6 = "upd_req req (\<lambda>r. r\<lparr>lr_class := LOCK_INSTANT\<rparr>) (upd_tran me (\<lambda>t. t\<lparr>lt_wait := None\<rparr>)
      ((upd_req req (\<lambda>r. r\<lparr>lr_status := LOCK_DENIED, lr_timeout := 0\<rparr>) ?lm5)
        \<lparr>lm_locktimeoutcnt := lm_locktimeoutcnt ?lm5 + 1\<rparr>))"
    have refuse: "own_request lm me h = None"
      by (rule refused) (use res' False in auto)
    have "lm_inv (lmgr_unlock ?lm6 me rel name)"
      by (rule appended_dropped_inv [OF inv found app refuse])
        (use same5 A(6) req(3) in \<open>simp_all add: lm_updates same_defs\<close>)
    moreover have "lm' = lmgr_unlock ?lm6 me rel name"
      using res' False h(2,3) A(2,5) same5
      by (auto simp: lmgr_give_up_def Let_def lm_updates same_heads_def)
    ultimately show ?thesis
      by simp
  qed
qed

text \<open>A head that is allocated is not in the hash table, and no longer on a free list.\<close>

lemma head_alloc_frame:
  assumes "lock_head_alloc lm rel name m = (lm', h)"
  shows "lm_req lm' = lm_req lm" "lm_hash lm' = lm_hash lm" "lm_hashsize lm' = lm_hashsize lm"
    "lm_nmutexes lm' = lm_nmutexes lm" "lm_nextreq lm' = lm_nextreq lm"
    "lm_freerequest lm' = lm_freerequest lm" "lm_nexthead lm \<le> lm_nexthead lm'"
    and "h' \<noteq> h \<Longrightarrow> lm_head lm' h' = lm_head lm h'"
    and "lm_head lm' h = \<lparr>lh_relid = rel, lh_name = name, lh_queue = [], lh_granted_mode = m,
      lh_waiting = False\<rparr>"
  using assms by (auto simp: lock_head_alloc_def Let_def lm_updates split: list.splits)

lemma head_alloc_fresh:
  assumes ok: "heads_ok lm" and alloc: "lock_head_alloc lm rel name m = (lm', h)"
  shows "\<not> live lm h" "h < lm_nexthead lm'"
    and "set (lm_freelock lm' i) \<subseteq> set (lm_freelock lm i) - {h}" "distinct (lm_freelock lm' i)"
proof -
  note D = heads_okD [OF ok]
  show "h < lm_nexthead lm'" "distinct (lm_freelock lm' i)"
    using alloc D(2) [of i] D(4) [of h "LMGR_MUTEX lm name"] D(2) [of "LMGR_MUTEX lm name"]
    by (auto simp: lock_head_alloc_def Let_def lm_updates split: list.splits)
  show "\<not> live lm h"
    using alloc D(3) [of h _ "LMGR_MUTEX lm name"]
    by (auto simp: lock_head_alloc_def Let_def lm_updates live_def split: list.splits)
  show "set (lm_freelock lm' i) \<subseteq> set (lm_freelock lm i) - {h}"
  proof (cases "lm_freelock lm (LMGR_MUTEX lm name)")
    case Nil
    then show ?thesis
      using alloc D(4) [of h i] by (auto simp: lock_head_alloc_def Let_def lm_updates)
  next
    case (Cons r rs)
    then have "lm_freelock lm' = (lm_freelock lm)(LMGR_MUTEX lm name := rs)" "h = r"
      using alloc by (auto simp: lock_head_alloc_def Let_def lm_updates)
    moreover have "LMGR_MUTEX lm name = i" if "r \<in> set (lm_freelock lm i)"
      using D(4) [OF that] D(4) [of r "LMGR_MUTEX lm name"] Cons by simp
    moreover have "r \<notin> set rs"
      using D(2) [of "LMGR_MUTEX lm name"] Cons by simp
    ultimately show ?thesis
      using Cons by (cases "r \<in> set (lm_freelock lm i)") auto
  qed
qed

lemma heads_ok_alloc:
  assumes ok: "heads_ok lm" and alloc: "lock_head_alloc lm rel name m = (lm', h)"
    and lm2: "\<And>h. lh_name (lm_head lm2 h) = lh_name (lm_head lm' h)"
      "lm_hash lm2 = (lm_hash lm)(name mod lm_hashsize lm := h # lm_hash lm (name mod lm_hashsize lm))"
      "lm_hashsize lm2 = lm_hashsize lm" "lm_nmutexes lm2 = lm_nmutexes lm"
      "lm_nexthead lm2 = lm_nexthead lm'" "lm_freelock lm2 = lm_freelock lm'"
  shows "heads_ok lm2"
proof -
  note D = heads_okD [OF ok]
  note A = head_alloc_frame [OF alloc]
  note F = head_alloc_fresh [OF ok alloc]
  have mutex: "LMGR_MUTEX lm2 = LMGR_MUTEX lm"
    by (simp add: LMGR_MUTEX_def lm2(3,4) fun_eq_iff)
  have notin: "h \<notin> set (lm_hash lm b)" "h \<notin> set (lm_freelock lm' i)" for b i
    using F(1) F(3) [of i] by (auto simp: live_def)
  have "distinct (lm_hash lm2 b)" for b
    using D(1) notin(1) by (auto simp: lm2(2))
  moreover have "lh_name (lm_head lm' h') mod lm_hashsize lm = b \<and> h' < lm_nexthead lm' \<and>
      h' \<notin> set (lm_freelock lm' i)" if "h' \<in> set (lm_hash lm2 b)" for h' b i
  proof (cases "h' = h")
    case True
    then show ?thesis
      using that notin F(2) A(9) by (auto simp: lm2(2) split: if_splits)
  next
    case False
    then have "h' \<in> set (lm_hash lm b)"
      using that by (auto simp: lm2(2) split: if_splits)
    then show ?thesis
      using D(3) [of h' b i] F(3) [of i] A(7) A(8) [OF False] by auto
  qed
  moreover have "LMGR_MUTEX lm (lh_name (lm_head lm' h')) = i \<and> h' < lm_nexthead lm'"
    if "h' \<in> set (lm_freelock lm' i)" for h' i
  proof -
    have "h' \<noteq> h" "h' \<in> set (lm_freelock lm i)"
      using that F(3) [of i] by auto
    then show ?thesis
      using D(4) [of h' i] A(7) A(8) [of h'] by simp
  qed
  ultimately show ?thesis
    using F(4) unfolding heads_ok_def lm2(1,3,5,6) mutex by blast
qed

lemma lock_free_inv:
  assumes inv: "lm_inv lm" and m: "m \<in> modes_of rel"
  shows "lm_inv (fst (lmgr_lock_free lm me rel name m cls bouncep))"
proof (cases bouncep)
  case True
  then show ?thesis
    using inv by (simp add: lmgr_lock_free_def)
next
  case False
  have ok: "heads_ok lm" "reqs_ok lm"
    using inv by (simp_all add: lm_inv_def heap_ok_def)
  obtain lm1 h where head: "lock_head_alloc lm rel name m = (lm1, h)"
    by (cases "lock_head_alloc lm rel name m") auto
  obtain lm2 req where alloc: "lock_request_alloc lm1 me h m cls name = (lm2, req)"
    by (cases "lock_request_alloc lm1 me h m cls name") auto
  note H = head_alloc_frame [OF head] and HF = head_alloc_fresh [OF ok(1) head]
  note A = request_alloc_frame [OF alloc]
  define lm' where "lm' = fst (lmgr_lock_free lm me rel name m cls bouncep)"
  have hash: "lm_hash lm2 = lm_hash lm" "lm_hashsize lm2 = lm_hashsize lm" "lm_nmutexes lm2 = lm_nmutexes lm"
    "lm_nexthead lm2 = lm_nexthead lm1" "lm_freelock lm2 = lm_freelock lm1"
    using A(2) H by (simp_all add: same_heads_def)
  have lm': "lm_head lm' = (lm_head lm1)(h := (lm_head lm1 h)\<lparr>lh_queue := [req]\<rparr>)"
    "lm_req lm' = (lm_req lm2)(req := (lm_req lm2 req)\<lparr>lr_okcount := lr_okcount (lm_req lm2 req) + 1\<rparr>)"
    "lm_hash lm' = (lm_hash lm)(name mod lm_hashsize lm := h # lm_hash lm (name mod lm_hashsize lm))"
    "lm_hashsize lm' = lm_hashsize lm" "lm_nmutexes lm' = lm_nmutexes lm"
    "lm_nexthead lm' = lm_nexthead lm1" "lm_freelock lm' = lm_freelock lm1"
    "lm_nextreq lm' = lm_nextreq lm2" "lm_freerequest lm' = lm_freerequest lm2"
    using False by (simp_all add: lm'_def lmgr_lock_free_def head alloc Let_def lm_updates hash A(1))
  have live: "live lm' h' \<Longrightarrow> h' = h \<or> live lm h'" "live lm1 h' = live lm h'" for h'
    by (auto simp: live_def lm'(3) H(2) split: if_splits)
  have rok1: "reqs_ok lm1"
    using ok(2) HF(1) H(8) unfolding reqs_ok_def LMGR_MUTEX_def live(2) H(1,3,4,5,6) by metis
  have "heads_ok lm'"
    by (rule heads_ok_alloc [OF ok(1) head _ lm'(3,4,5,6,7)]) (simp add: lm'(1))
  moreover have "reqs_ok lm'"
  proof (rule reqs_ok_alloc [OF rok1 alloc _ _ _ _ _ lm'(8) _ lm'(9)])
    show "queue lm' h = [] @ [req]"
      by (simp add: lm'(1))
    show "h' = h \<or> live lm1 h' \<and> queue lm' h' = queue lm1 h'" if "live lm' h'" for h'
      using live(1) [OF that] live(2) by (auto simp: lm'(1))
    show "LMGR_MUTEX lm' = LMGR_MUTEX lm1"
      by (simp add: LMGR_MUTEX_def lm'(4,5) H(3,4) fun_eq_iff)
  qed (simp_all add: lm'(2))
  moreover have "queue_ok lm' h'" if "live lm' h'" for h'
  proof (cases "h' = h")
    case True
    then show ?thesis
      using m A(8,9) H(9)
      by (auto simp: queue_ok_def Let_def lm'(1,2) members_ok_def request_ok_def pairs_ok_def)
  next
    case False
    then have h': "live lm h'" "live lm1 h'"
      using live that by auto
    have "req \<notin> set (queue lm1 h')"
      using request_alloc_fresh(1) [OF rok1 alloc h'(2)] .
    then have "same_queue h' lm lm'"
      using H(1) H(8) [OF False] A(4) False unfolding same_queue_def same_members_def lm'(1,2) by simp
    then show ?thesis
      using inv h'(1) queue_ok_cong by (auto simp: lm_inv_def)
  qed
  ultimately show ?thesis
    unfolding lm'_def [symmetric] by (simp add: lm_inv_def heap_ok_def)
qed

text \<open>A mode compatible with the granted mode goes together with every granted request.\<close>

lemma granted_together:
  assumes "queue_ok lm h" "lh_relid (lm_head lm h) = rel" "m \<in> modes_of rel"
    and "lock_compat m (lh_granted_mode (lm_head lm h))" "r \<in> set (queue lm h)" "status lm r = LOCK_GRANTED"
  shows "together m (mode lm r)"
  using queue_okD(3) [OF assms(1,2,5,6)] assms(3,4) by (auto simp: covers_def together_def)

text \<open>The request at the end of the queue is granted at once.\<close>

lemma appended_granted_inv:
  assumes inv: "lm_inv lm" and live: "live lm h" and rel: "lh_relid (lm_head lm h) = rel"
    and app: "appended lm h req lm2" and m: "m \<in> modes_of rel"
    and ok: "\<not> lh_waiting (lm_head lm h)" "lock_compat m (lh_granted_mode (lm_head lm h))"
    and same: "same_heads lm2 lm4" "same_reqs lm2 lm4" "\<And>h'. h' \<noteq> h \<Longrightarrow> same_queue h' lm2 lm4"
      "\<And>q. same_members q lm2 lm4"
    and head: "lh_granted_mode (lm_head lm4 h) = lock_max m (lh_granted_mode (lm_head lm h))"
      "status lm4 req = LOCK_GRANTED" "mode lm4 req = m"
  shows "lm_inv lm4"
proof -
  note A = appendedD [OF app]
  have Q: "queue_ok lm h"
    using inv live by (simp add: lm_inv_def)
  have q: "queue lm4 h = queue lm h @ [req]" "lh_relid (lm_head lm4 h) = rel"
    using A(2,3) rel same(1,2) by (simp_all add: same_defs)
  have members: "same_members (queue lm h) lm lm4"
    using A(10) same(4) by (simp add: same_members_def)
  have granted: "status lm r = LOCK_GRANTED" "status lm4 r = LOCK_GRANTED" "mode lm4 r = mode lm r"
    if "r \<in> set (queue lm h)" for r
    using queue_okD(4) [OF Q rel ok(1) that] members that by (auto simp: same_members_def)
  have g: "lh_granted_mode (lm_head lm h) \<in> insert LOCK_FREE (modes_of rel)"
    using queue_okD(2) [OF Q rel] .
  note cov = covers_max [OF modes_of_family insertI2 [OF m] g]
  have "queue_ok lm4 h"
  proof (rule queue_okI [OF q(2)])
    have "\<forall>r \<in> set (queue lm h). together (mode lm4 req) (mode lm4 r)"
      using granted_together [OF Q rel m ok(2)] granted by (simp add: head)
    then show "members_ok (modes_of rel) lm4 (queue lm4 h)"
      unfolding q(1) using queue_okD(1) [OF Q rel] members_ok_cong [OF members] granted head m
      by (intro members_ok_granted) simp_all
    show "covers (modes_of rel) (lh_granted_mode (lm_head lm4 h)) (mode lm4 r)"
      if "r \<in> set (queue lm4 h)" for r
      using that granted queue_okD(3) [OF Q rel] cov covers_trans [OF cov(2)]
      by (auto simp: head q)
  qed (use granted head q max_in_family [OF modes_of_family m g] in auto)
  moreover have "queue_ok lm4 h'" if "live lm2 h'" "h' \<noteq> h" for h'
    using appended_others [OF inv app that] queue_ok_cong [OF same(3) [OF that(2)]] by simp
  ultimately show ?thesis
    using A(1) heap_ok_cong [OF same(1,2)] live_cong [OF same(1)] by (auto simp: lm_inv_def)
qed

lemma appended_update:
  assumes "appended lm h req lm2" "same_heads lm2 lm4" "same_reqs lm2 lm4" "lm_head lm4 = lm_head lm2"
    and "\<And>r. r \<noteq> req \<Longrightarrow> lm_req lm4 r = lm_req lm2 r" "lr_count (lm_req lm4 req) = lr_count (lm_req lm2 req)"
  shows "appended lm h req lm4"
  using assms heap_ok_cong [OF assms(2,3)] same_trans(1) [OF _ assms(2)]
  by (simp add: appended_def) (simp add: same_reqs_def)

lemma lock_new_inv:
  assumes inv: "lm_inv lm" and found: "snd (lmgr_findlock lm rel name) = Some h"
    and none: "own_request lm me h = None" and m: "m \<in> modes_of rel"
    and res: "lmgr_lock_new cfg now lm me h name m cls timeout bouncep = (lm', reply, p_req, newlock)"
  shows "lm_inv lm'"
proof (cases bouncep)
  case True
  then show ?thesis
    using inv res by (simp add: lmgr_lock_new_def Let_def)
next
  case False
  note h = findlock_found [OF found]
  obtain lm1 req where alloc: "lock_request_alloc lm me h m cls name = (lm1, req)"
    by (cases "lock_request_alloc lm me h m cls name") auto
  define lm2 where "lm2 = upd_head h (\<lambda>h. h\<lparr>lh_queue := lh_queue h @ [req]\<rparr>)
      (lm1\<lparr>lm_lockcnt := lm_lockcnt lm1 + 1\<rparr>)"
  note P = append_request [OF inv h(4) alloc lm2_def]
  let ?lm3 = "lm_check (queue lm h \<noteq> []) lm2"
  show ?thesis
  proof (cases "\<not> lh_waiting (lm_head lm h) \<and> lock_compat m (lh_granted_mode (lm_head lm h))")
    case True
    have "lm_inv (upd_req req (\<lambda>r. r\<lparr>lr_okcount := lr_okcount r + 1\<rparr>)
        (upd_head h (\<lambda>h. h\<lparr>lh_granted_mode := lock_max m (lh_granted_mode h)\<rparr>)
          (?lm3\<lparr>lm_lockokcnt := lm_lockokcnt ?lm3 + 1\<rparr>)))"
      using True by (intro appended_granted_inv [OF inv h(4,2) P(1) m])
        (simp_all add: lm_updates same_defs P)
    then show ?thesis
      using res True False by (auto simp: lmgr_lock_new_def Let_def alloc lm2_def [symmetric])
  next
    case must_wait: False
    let ?lm4 = "upd_req req (\<lambda>r. r\<lparr>lr_status := LOCK_WAITING\<rparr>) ?lm3"
    have app: "appended lm h req ?lm4"
      by (rule appended_update [OF P(1)]) (simp_all add: lm_updates same_defs)
    have res': "lmgr_must_wait cfg now ?lm4 me h req timeout = (lm', reply, p_req, newlock)"
      using res must_wait False by (auto simp: lmgr_lock_new_def Let_def alloc lm2_def [symmetric])
    show ?thesis
      by (rule must_wait_inv [OF inv found app _ _ _ _ res' none])
        (simp_all add: lm_updates request_ok_def P m)
  qed
qed

text \<open>The modes of the other transactions at the head of the queue.\<close>

lemma others_granted_covers:
  assumes "mode_family M" "\<forall>r \<in> set q. mode lm r \<in> M" "g \<in> insert LOCK_FREE M" "granted_first lm q"
  shows "covers M (others_granted lm me q g) g \<and>
    (\<forall>r \<in> set q. status lm r = LOCK_GRANTED \<longrightarrow> owner lm r \<noteq> me \<longrightarrow>
      covers M (others_granted lm me q g) (mode lm r))"
  using assms(2-)
proof (induction q arbitrary: g)
  case (Cons r q)
  let ?g = "lock_max (mode lm r) g"
  have "?g \<in> insert LOCK_FREE M" "covers M ?g (mode lm r)" "covers M ?g g"
    using Cons.prems max_in_family [OF assms(1), of "mode lm r" g]
      covers_max [OF assms(1), of "mode lm r" g] by auto
  note g = this
  have gf: "granted_first lm q"
    using Cons.prems(3) granted_none by (auto split: if_splits)
  have modes: "\<forall>r \<in> set q. mode lm r \<in> M"
    using Cons.prems(1) by simp
  note IH = Cons.IH [OF modes g(1) gf] Cons.IH [OF modes Cons.prems(2) gf]
  show ?case
  proof (cases "owner lm r \<noteq> me")
    case other: True
    show ?thesis
    proof (cases "status lm r = LOCK_GRANTED \<or> status lm r = LOCK_CONVERTING")
      case True
      then have "others_granted lm me (r # q) g = others_granted lm me q ?g"
        using other by simp
      then show ?thesis
        using IH(1) covers_trans [OF _ g(2)] covers_trans [OF _ g(3)] by auto
    next
      case False
      then show ?thesis
        using other Cons.prems(3) by auto
    qed
  qed (use IH(2) in auto)
qed simp

text \<open>A granted request is upgraded to a mode compatible with what the others hold.\<close>

lemma upgrade_inv:
  assumes inv: "lm_inv lm" and live: "live lm h" and rel: "lh_relid (lm_head lm h) = rel"
    and own: "own_request lm me h = Some req" and st: "status lm req = LOCK_GRANTED"
    and m: "m \<in> modes_of rel" and compat: "lock_compat m (others_granted lm me (queue lm h) LOCK_FREE)"
    and same: "same_heads lm lm'" "same_reqs lm lm'" "\<And>h'. h' \<noteq> h \<Longrightarrow> lm_head lm' h' = lm_head lm h'"
      "\<And>r. r \<noteq> req \<Longrightarrow> lm_req lm' r = lm_req lm r"
    and head: "lh_granted_mode (lm_head lm' h) = lock_max m (lh_granted_mode (lm_head lm h))"
      "lh_waiting (lm_head lm' h) = lh_waiting (lm_head lm h)"
    and req: "status lm' req = LOCK_GRANTED" "mode lm' req = m" "owner lm' req = owner lm req"
  shows "lm_inv lm'"
proof -
  have ok: "queue_ok lm h" "reqs_ok lm"
    using inv live by (simp_all add: lm_inv_def heap_ok_def)
  note Q = queue_okD [OF ok(1) rel]
  have q: "queue lm' h = queue lm h" "lh_relid (lm_head lm' h) = rel"
    using same(1,2) rel by (simp_all add: same_defs)
  have in_q: "req \<in> set (queue lm h)" "owner lm req = me"
    using own_request_found [OF own] by simp_all
  have status: "status lm' r = status lm r" "owner lm' r = owner lm r" for r
    using same(4) [of r] req st by (cases "r = req"; simp)+
  have tog: "together m (mode lm r)" "together (mode lm r) m"
    if "r \<in> set (queue lm h)" "status lm r = LOCK_GRANTED" "owner lm r \<noteq> me" for r
  proof -
    have "\<forall>r \<in> set (queue lm h). mode lm r \<in> modes_of rel" "granted_first lm (queue lm h)"
      using Q(1) by (simp_all add: members_ok_def request_ok_def)
    then have "covers (modes_of rel) (others_granted lm me (queue lm h) LOCK_FREE) (mode lm r)"
      using others_granted_covers [OF modes_of_family, of "queue lm h" lm rel LOCK_FREE me] that by simp
    then show "together m (mode lm r)" "together (mode lm r) m"
      using compat m by (auto simp: covers_def together_def)
  qed
  have "granted_first lm' q" if "granted_first lm q" for q
    using that by (induction q) (auto simp: status split: if_splits)
  moreover have "pairs_ok lm' (queue lm h)"
    unfolding pairs_ok_def
  proof (intro allI impI)
    fix r s
    assume *: "r \<in> set (queue lm h)" "s \<in> set (queue lm h)" "status lm' r = LOCK_GRANTED"
      "status lm' s = LOCK_GRANTED" "owner lm' r \<noteq> owner lm' s"
    then have "r \<noteq> req \<Longrightarrow> s \<noteq> req \<Longrightarrow> together (mode lm r) (mode lm s)"
      using Q(1) by (simp add: members_ok_def pairs_ok_def status)
    then show "together (mode lm' r) (mode lm' s)"
      using * tog [of r] tog [of s] same(4) [of r] same(4) [of s] req in_q
      by (cases "r = req"; cases "s = req") (simp_all add: status)
  qed
  moreover have "request_ok (modes_of rel) lm' r" if "r \<in> set (queue lm h)" for r
    using Q(1) that same(4) [of r] req m by (cases "r = req") (auto simp: members_ok_def request_ok_def)
  ultimately have members: "members_ok (modes_of rel) lm' (queue lm' h)"
    using Q(1) by (simp add: members_ok_def q)
  note cov = covers_max [OF modes_of_family insertI2 [OF m] Q(2)]
  have "queue_ok lm' h"
  proof (rule queue_okI [OF q(2) members])
    show "covers (modes_of rel) (lh_granted_mode (lm_head lm' h)) (mode lm' r)"
      if "r \<in> set (queue lm' h)" "status lm' r = LOCK_GRANTED" for r
      using that Q(3) [of r] cov covers_trans [OF cov(2)] same(4) [of r] req(2)
      by (cases "r = req") (simp_all add: head q status)
  qed (use Q(4) head max_in_family [OF modes_of_family m Q(2)] in \<open>simp_all add: q status\<close>)
  moreover have "queue_ok lm' h'" if "live lm h'" "h' \<noteq> h" for h'
  proof -
    have "req \<notin> set (queue lm h')"
      using other_queue [OF ok(2) live in_q(1) that] .
    then have "same_queue h' lm lm'"
      using same(3) [OF that(2)] same(4) unfolding same_queue_def same_members_def by metis
    then show ?thesis
      using inv that(1) queue_ok_cong by (auto simp: lm_inv_def)
  qed
  ultimately show ?thesis
    using inv heap_ok_cong [OF same(1,2)] live_cong [OF same(1)] by (auto simp: lm_inv_def)
qed

lemma lock_again_inv:
  assumes inv: "lm_inv lm" and found: "snd (lmgr_findlock lm rel name) = Some h"
    and own: "own_request lm me h = Some req" and st: "status lm req = LOCK_GRANTED"
    and m: "m \<in> modes_of rel"
    and res: "lmgr_lock_again cfg now lm me h req name m cls timeout = (lm', reply, p_req, newlock)"
    and reply: "reply \<noteq> LOCK_TIMEOUT"
  shows "lm_inv lm'"
proof -
  note h = findlock_found [OF found]
  let ?m = "lock_max m (mode lm req)"
  consider (again) "m \<le> mode lm req"
    | (upgrade) "\<not> m \<le> mode lm req" "lock_compat ?m (others_granted lm me (queue lm h) LOCK_FREE)"
    | (wait) "\<not> m \<le> mode lm req" "\<not> lock_compat ?m (others_granted lm me (queue lm h) LOCK_FREE)"
    by blast
  then show ?thesis
  proof cases
    case again
    then show ?thesis
      using res inv by (auto simp: lmgr_lock_again_def Let_def lm_inv_upd_req)
  next
    case upgrade
    have "mode lm req \<in> modes_of rel"
      using inv h own_request_found [OF own] queue_okD(1) [OF _ h(2)]
      by (simp add: lm_inv_def members_ok_def request_ok_def)
    then have m': "?m \<in> modes_of rel"
      using family_max [OF modes_of_family m] by simp
    show ?thesis
      using res upgrade
      by (intro upgrade_inv [OF inv h(4,2) own st m' upgrade(2)])
        (auto simp: lmgr_lock_again_def Let_def lm_updates same_defs)
  next
    case wait
    obtain lm1 req1 where alloc: "lock_request_alloc lm me h m cls name = (lm1, req1)"
      by (cases "lock_request_alloc lm me h m cls name") auto
    define lm2 where "lm2 = upd_head h (\<lambda>h. h\<lparr>lh_queue := lh_queue h @ [req1]\<rparr>)
        (lm1\<lparr>lm_lockcnt := lm_lockcnt lm1 + 1\<rparr>)"
    note P = append_request [OF inv h(4) alloc lm2_def]
    let ?lm4 = "upd_req req1 (\<lambda>r. r\<lparr>lr_status := LOCK_CONVERTING, lr_convert_mode := m\<rparr>) lm2"
    have app: "appended lm h req1 ?lm4"
      by (rule appended_update [OF P(1)]) (simp_all add: lm_updates same_defs)
    have res': "lmgr_must_wait cfg now ?lm4 me h req1 timeout = (lm', reply, p_req, newlock)"
      using res wait by (simp add: lmgr_lock_again_def Let_def alloc lm2_def [symmetric])
    show ?thesis
      by (rule must_wait_inv [OF inv found app _ _ _ _ res'])
        (simp_all add: lm_updates request_ok_def P m reply)
  qed
qed

lemma give_up_inv:
  assumes "lm_inv lm"
  shows "lm_inv (lmgr_give_up lm me req)"
  unfolding lmgr_give_up_def Let_def using assms
  by (intro lmgr_unlock_inv) (simp add: lm_inv_upd_req)

text \<open>
  What the caller has to see to: a lock conversion is not refused, neither at once nor when its
  time is out, and a transaction that does not wait and locks a name again holds it (the
  \<^verbatim>\<open>ss_dassert\<close> of the code).
\<close>

definition lock_guard :: "lockmgr \<Rightarrow> tid \<Rightarrow> relid \<Rightarrow> lockname \<Rightarrow> lock_reply \<Rightarrow> bool" where
  "lock_guard lm me rel name reply =
    (case lt_wait (lm_tran lm me) of
       Some r \<Rightarrow> \<not> (reply = LOCK_TIMEOUT \<and> status lm r = LOCK_CONVERTING)
     | None \<Rightarrow>
         (case snd (lmgr_findlock lm rel name) of
            None \<Rightarrow> True
          | Some h \<Rightarrow>
              (case own_request lm me h of
                 None \<Rightarrow> True
               | Some r \<Rightarrow> status lm r = LOCK_GRANTED \<and> reply \<noteq> LOCK_TIMEOUT)))"

lemma lock_retry_inv:
  assumes inv: "lm_inv lm" and res: "lmgr_lock_retry cfg now lm me req = (lm', reply, p_req, newlock)"
    and guard: "\<not> (reply = LOCK_TIMEOUT \<and> status lm req = LOCK_CONVERTING)"
  shows "lm_inv lm'"
proof (cases "status lm req")
  case LOCK_GRANTED
  then show ?thesis
    using res inv by (auto simp: lmgr_lock_retry_def lm_inv_upd_req)
next
  case LOCK_CONVERTING
  then show ?thesis
    using res inv guard by (auto simp: lmgr_lock_retry_def Let_def split: if_splits)
next
  case LOCK_WAITING
  then show ?thesis
    using res inv give_up_inv by (auto simp: lmgr_lock_retry_def Let_def split: if_splits)
next
  case LOCK_DENIED
  then show ?thesis
    using res inv give_up_inv by (auto simp: lmgr_lock_retry_def)
qed

lemma lmgr_lock_inv:
  assumes inv: "lm_inv lm" and m: "m \<in> modes_of rel"
    and res: "lmgr_lock cfg now lm me rel name m cls timeout bouncep = (lm', reply, p_req, newlock)"
    and guard: "lock_guard lm me rel name reply"
  shows "lm_inv lm'"
proof -
  define lm0 where "lm0 = (if rel > DBE_LOCKRELID_MAXSPECIAL \<and> lm_disablerowspermessage lm
      then lm_emit (setdisablerowspermessage me True) lm else lm)"
  have lm0: "lm_inv lm0" "lm_req lm0 = lm_req lm" "lm_head lm0 = lm_head lm" "lm_tran lm0 = lm_tran lm"
    "same_heads lm lm0"
    using inv by (simp_all add: lm0_def) (simp_all add: lm_updates same_heads_def)
  note res' = res [unfolded lmgr_lock_def Let_def, folded lm0_def]
  show ?thesis
  proof (cases "lt_wait (lm_tran lm me)")
    case (Some req)
    then have "lmgr_lock_retry cfg now lm0 me req = (lm', reply, p_req, newlock)"
      using res' lm0(4) by simp
    then show ?thesis
      by (rule lock_retry_inv [OF lm0(1)]) (use guard Some in \<open>simp add: lock_guard_def lm0(2)\<close>)
  next
    case no_wait: None
    obtain n where n: "fst (lmgr_findlock lm0 rel name) = lm0\<lparr>lm_maxpath := n\<rparr>"
      using findlock_state [of lm0 rel name] by blast
    have find: "lmgr_findlock lm0 rel name = (lm0\<lparr>lm_maxpath := n\<rparr>, snd (lmgr_findlock lm rel name))"
      unfolding n [symmetric] findlock_cong [OF lm0(5), symmetric] by simp
    let ?lm1 = "lm0\<lparr>lm_maxpath := n\<rparr>"
    show ?thesis
    proof (cases "lm_uselocks lm0")
      case False
      then show ?thesis
        using res' no_wait lm0 by auto
    next
      case True
      show ?thesis
      proof (cases "snd (lmgr_findlock lm rel name)")
        case None
        then have "lm' = fst (lmgr_lock_free ?lm1 me rel name m cls bouncep)"
          using res' no_wait lm0 True find by auto
        then show ?thesis
          using lock_free_inv [OF _ m] lm0(1) by simp
      next
        case (Some h)
        define lm2 where "lm2 = (if rel = DBE_LOCKRELID_REL
            then ?lm1\<lparr>lm_cachedrelid := name, lm_cachedlock := Some h\<rparr> else ?lm1)"
        have lm2: "lm_inv lm2" "same_heads lm lm2" "lm_req lm2 = lm_req lm" "lm_head lm2 = lm_head lm"
          using lm0 by (simp_all add: lm2_def same_heads_def)
        have found: "snd (lmgr_findlock lm2 rel name) = Some h"
          using Some findlock_cong [OF lm2(2)] by simp
        have own: "own_request lm2 me h = own_request lm me h"
          by (simp add: own_request_def lm2)
        have res2: "(case own_request lm me h of
            None \<Rightarrow> lmgr_lock_new cfg now lm2 me h name m cls timeout bouncep
          | Some req \<Rightarrow> lmgr_lock_again cfg now lm2 me h req name m cls timeout) =
            (lm', reply, p_req, newlock)"
          using res' no_wait lm0(2,4) True find Some own [unfolded lm2_def]
          by (cases "own_request lm me h") (simp_all add: lm2_def)
        show ?thesis
        proof (cases "own_request lm me h")
          case None
          then have "lmgr_lock_new cfg now lm2 me h name m cls timeout bouncep = (lm', reply, p_req, newlock)"
            using res2 by simp
          then show ?thesis
            using None own by (intro lock_new_inv [OF lm2(1) found _ m]) simp_all
        next
          case (Some r)
          then have again: "lmgr_lock_again cfg now lm2 me h r name m cls timeout = (lm', reply, p_req, newlock)"
            and own2: "own_request lm2 me h = Some r"
            using res2 own by simp_all
          have "status lm2 r = LOCK_GRANTED" "reply \<noteq> LOCK_TIMEOUT"
            using guard no_wait Some \<open>snd (lmgr_findlock lm rel name) = Some h\<close>
            by (simp_all add: lm2 lock_guard_def)
          then show ?thesis
            by (rule lock_again_inv [OF lm2(1) found own2 _ m again])
        qed
      qed
    qed
  qed
qed

section \<open>Reachable states\<close>

lemma unlock_class_loop_inv: "lm_inv lm \<Longrightarrow> lm_inv (unlock_class_loop lm me cls a i reqs)"
proof (induction lm me cls a i reqs rule: unlock_class_loop.induct)
  case (2 lm me cls a i req reqs)
  let ?lm1 = "if lr_class (lm_req lm req) = cls \<or> lr_class (lm_req lm req) < cls \<and> a
    then lmgr_unlock (upd_req req (\<lambda>r. r\<lparr>lr_class := LOCK_INSTANT, lr_count := 1\<rparr>) lm) me
      (lh_relid (lm_head lm (lr_head (lm_req lm req)))) (lh_name (lm_head lm (lr_head (lm_req lm req))))
    else lm"
  have "lm_inv ?lm1"
    using 2(2) by (auto intro!: lmgr_unlock_inv simp: lm_inv_upd_req)
  from 2(1) [OF refl refl refl this] show ?case
    by (simp add: Let_def)
qed simp

lemma unlock_class_inv: "lm_inv lm \<Longrightarrow> lm_inv (lmgr_unlock_class lm me cls a)"
proof -
  have "lm_inv lm \<Longrightarrow>
      lm_inv (foldl (\<lambda>lm i. unlock_class_loop lm me cls a i (lt_locks (lm_tran lm me) i)) lm is)" for "is"
    by (induction "is" arbitrary: lm) (simp_all add: unlock_class_loop_inv)
  then show "lm_inv lm \<Longrightarrow> lm_inv (lmgr_unlock_class lm me cls a)"
    by (simp add: lmgr_unlock_class_def)
qed

lemma lm_inv_init: "lm_inv (dbe_lockmgr_init cfg hashsize limit ts n)"
  by (simp add: dbe_lockmgr_init_def Let_def lm_inv_def heap_ok_def heads_ok_def reqs_ok_def live_def)

text \<open>
  The operations, as steps. Row locks of the main memory engine are sequences of \<open>lock\<close> steps.
  A waiting transaction may be cancelled unless it waits for a conversion asked for again.
\<close>

inductive lm_reachable :: "lm_config \<Rightarrow> lockmgr \<Rightarrow> bool" for cfg where
  init: "lm_reachable cfg (dbe_lockmgr_init cfg hashsize limit ts n)"
| lock: "lm_reachable cfg lm \<Longrightarrow> m \<in> modes_of rel \<Longrightarrow>
    lmgr_lock cfg now lm me rel name m cls timeout bouncep = (lm', reply, p_req, newlock) \<Longrightarrow>
    lock_guard lm me rel name reply \<Longrightarrow> lm_reachable cfg lm'"
| unlock: "lm_reachable cfg lm \<Longrightarrow> lm_reachable cfg (dbe_lockmgr_unlock lm me rel name)"
| unlock_shared: "lm_reachable cfg lm \<Longrightarrow> lm_reachable cfg (dbe_lockmgr_unlock_shared lm me rel name)"
| unlockall: "lm_reachable cfg lm \<Longrightarrow> lm_reachable cfg (dbe_lockmgr_unlockall lm me)"
| unlockall_mme: "lm_reachable cfg lm \<Longrightarrow> lm_reachable cfg (dbe_lockmgr_unlockall_mme lm me)"
| unlockall_long: "lm_reachable cfg lm \<Longrightarrow> lm_reachable cfg (dbe_lockmgr_unlockall_long lm me)"
| cancelwaiting: "lm_reachable cfg lm \<Longrightarrow> lt_wait (lm_tran lm me) = Some r \<Longrightarrow>
    \<not> lr_count (lm_req lm r) > 1 \<Longrightarrow> lm_reachable cfg (dbe_lockmgr_cancelwaiting lm me)"
| locktran: "lm_reachable cfg lm \<Longrightarrow> lm_reachable cfg (fst (dbe_locktran_init lm cd))"
| setuselocks: "lm_reachable cfg lm \<Longrightarrow> lm_reachable cfg (dbe_lockmgr_setuselocks lm b)"
| setescalation: "lm_reachable cfg lm \<Longrightarrow> lm_reachable cfg (dbe_lockmgr_setuseescalation lm b)"
| setdisablerows: "lm_reachable cfg lm \<Longrightarrow>
    lm_reachable cfg (dbe_lockmgr_setlockdisablerowspermessage lm b)"

lemma lm_inv_fields [simp]:
  "lm_inv (lm\<lparr>lm_tran := ts, lm_nexttran := n\<rparr>) = lm_inv lm"
  "lm_inv (lm\<lparr>lm_uselocks := b\<rparr>) = lm_inv lm"
  "lm_inv (lm\<lparr>lm_useescalation := b\<rparr>) = lm_inv lm"
  "lm_inv (lm\<lparr>lm_disablerowspermessage := b\<rparr>) = lm_inv lm"
  "lm_inv (lm\<lparr>lm_maxnlocks := i\<rparr>) = lm_inv lm"
  by (rule lm_inv_cong; simp add: same_defs)+

lemma reachable_inv: "lm_reachable cfg lm \<Longrightarrow> lm_inv lm"
proof (induction rule: lm_reachable.induct)
  case (lock lm m rel now me name cls timeout bouncep lm' reply p_req newlock)
  then show ?case
    using lmgr_lock_inv by blast
next
  case (unlock lm me rel name)
  then show ?case
    by (auto simp: dbe_lockmgr_unlock_def Let_def lm_inv_upd_req intro!: lmgr_unlock_inv split: option.splits)
next
  case (cancelwaiting lm me r)
  then show ?case
    by (auto simp: dbe_lockmgr_cancelwaiting_def Let_def lm_inv_upd_req intro!: lmgr_unlock_inv)
qed (auto simp: lm_inv_init dbe_lockmgr_unlock_shared_def dbe_lockmgr_unlockall_def
    dbe_lockmgr_unlockall_mme_def dbe_lockmgr_unlockall_long_def lmgr_fill_mme_pmon_def
    dbe_locktran_init_def dbe_lockmgr_setuselocks_def dbe_lockmgr_setuseescalation_def
    dbe_lockmgr_setlockdisablerowspermessage_def Let_def
    intro: lmgr_unlock_inv unlock_class_inv split: option.splits)

lemma reachable_lock:
  assumes "lm_reachable cfg lm" "m \<in> modes_of rel"
    and "lock_guard lm me rel name (fst (snd (lmgr_lock cfg now lm me rel name m cls timeout bouncep)))"
  shows "lm_reachable cfg (fst (lmgr_lock cfg now lm me rel name m cls timeout bouncep))"
proof -
  obtain lm' reply p n where r: "lmgr_lock cfg now lm me rel name m cls timeout bouncep = (lm', reply, p, n)"
    by (cases "lmgr_lock cfg now lm me rel name m cls timeout bouncep") auto
  show ?thesis
    using lm_reachable.lock [OF assms(1,2) r] assms(3) unfolding r by simp
qed

section \<open>Properties\<close>

text \<open>
  C1. Mutual exclusion: in every reachable state, two different transactions with granted
  requests on the same lock hold modes that go together, and neither is exclusive.
\<close>

theorem lock_safety:
  assumes "lm_reachable cfg lm" "live lm h" "r \<in> set (queue lm h)" "s \<in> set (queue lm h)"
    and "status lm r = LOCK_GRANTED" "status lm s = LOCK_GRANTED" "owner lm r \<noteq> owner lm s"
  shows "together (mode lm r) (mode lm s) \<and> mode lm r \<noteq> LOCK_X"
proof -
  have q: "members_ok (modes_of (lh_relid (lm_head lm h))) lm (queue lm h)"
    using reachable_inv [OF assms(1)] assms(2) queue_okD(1) by (simp add: lm_inv_def)
  then have "together (mode lm r) (mode lm s)"
    using assms(3-) by (simp add: members_ok_def pairs_ok_def)
  moreover have "mode lm s \<noteq> LOCK_FREE"
    using q assms(4) family_free [OF modes_of_family] by (auto simp: members_ok_def request_ok_def)
  ultimately show ?thesis
    by auto
qed

text \<open>One transaction holds a shared lock, a second one an update lock.\<close>

definition example_shared :: lockmgr where
  "example_shared = fst (example_lock True (fst (example_lock True example_init 0 1 LOCK_S 0)) 1 1 LOCK_U 0)"

lemma example_shared_reachable: "lm_reachable (example_config True) example_shared"
  unfolding example_shared_def example_lock_def
  by (rule reachable_lock [OF reachable_lock]; (unfold example_init_def, rule lm_reachable.init)?)
    (simp_all add: lock_guard_def example_eval modes_of_def row_modes_def)

theorem lock_safety_witness:
  "together LOCK_S LOCK_U \<and> mode example_shared 0 = LOCK_S \<and> mode example_shared 1 = LOCK_U"
proof -
  have "live example_shared 0" "0 \<in> set (queue example_shared 0)" "1 \<in> set (queue example_shared 0)"
    "status example_shared 0 = LOCK_GRANTED" "status example_shared 1 = LOCK_GRANTED"
    "owner example_shared 0 \<noteq> owner example_shared 1"
    and modes: "mode example_shared 0 = LOCK_S" "mode example_shared 1 = LOCK_U"
    by (auto simp: live_def example_shared_def example_eval)
  from lock_safety [OF example_shared_reachable this(1-6)] show ?thesis
    unfolding modes by simp
qed

text \<open>
  C2. No waiter is overlooked or overtaken: in every reachable state, when a request on a lock is
  not granted, the lock is marked as having waiters, so that later requests queue up, and no request
  behind it is granted.
\<close>

theorem lock_waiters_in_order:
  assumes "lm_reachable cfg lm" "live lm h" "queue lm h = pre @ r # post"
    and "status lm r \<noteq> LOCK_GRANTED" "s \<in> set post"
  shows "lh_waiting (lm_head lm h) \<and> status lm s \<noteq> LOCK_GRANTED"
proof -
  have ok: "queue_ok lm h"
    using reachable_inv [OF assms(1)] assms(2) by (simp add: lm_inv_def)
  then have "granted_first lm (pre @ r # post)"
    using queue_okD(1) [OF ok refl] assms(3) by (simp add: members_ok_def)
  then have "status lm s \<noteq> LOCK_GRANTED"
    using assms(4,5) by (induction pre) (auto split: if_splits)
  moreover have "lh_waiting (lm_head lm h)"
    using queue_okD(4) [OF ok refl, of r] assms(3,4) by auto
  ultimately show ?thesis
    by simp
qed

definition example_waiting :: lockmgr where
  "example_waiting = fst (example_lock True (fst (example_lock True example_shared 2 1 LOCK_X 1000)) 3 1 LOCK_S 1000)"

theorem lock_waiters_in_order_witness:
  "lh_waiting (lm_head example_waiting 0) \<and> status example_waiting 3 \<noteq> LOCK_GRANTED"
proof -
  have "lm_reachable (example_config True) example_waiting"
    unfolding example_waiting_def example_lock_def
    by (rule reachable_lock [OF reachable_lock [OF example_shared_reachable]])
      (simp_all add: lock_guard_def example_shared_def example_eval modes_of_def row_modes_def)
  moreover have "live example_waiting 0" "queue example_waiting 0 = [0, 1] @ 2 # [3]"
    "status example_waiting 2 \<noteq> LOCK_GRANTED"
    by (auto simp: live_def example_waiting_def example_shared_def example_eval)
  ultimately show ?thesis
    using lock_waiters_in_order [of "example_config True" example_waiting 0 "[0, 1]" 2 "[3]" 3] by simp
qed

text \<open>The state after a free name was locked.\<close>

lemma lock_free_result:
  assumes inv: "lm_inv lm" and lm': "lm' = fst (lmgr_lock_free lm me rel name m cls False)"
  obtains h req where "\<not> live lm h" "snd (lmgr_lock_free lm me rel name m cls False) = (LOCK_OK, Some req, True)"
    "lm_hash lm' = (lm_hash lm)(name mod lm_hashsize lm := h # lm_hash lm (name mod lm_hashsize lm))"
    "lm_hashsize lm' = lm_hashsize lm" "lm_nmutexes lm' = lm_nmutexes lm"
    "lm_lockcnt lm' = lm_lockcnt lm + 1" "\<And>h'. h' \<noteq> h \<Longrightarrow> lm_head lm' h' = lm_head lm h'"
    "lh_relid (lm_head lm' h) = rel" "lh_name (lm_head lm' h) = name" "queue lm' h = [req]"
    "lr_head (lm_req lm' req) = h" "owner lm' req = me"
    "lt_locks (lm_tran lm' me) (LMGR_MUTEX lm name) = req # lt_locks (lm_tran lm me) (LMGR_MUTEX lm name)"
proof -
  obtain lm1 h where head: "lock_head_alloc lm rel name m = (lm1, h)"
    by (cases "lock_head_alloc lm rel name m") auto
  obtain lm2 req where alloc: "lock_request_alloc lm1 me h m cls name = (lm2, req)"
    by (cases "lock_request_alloc lm1 me h m cls name") auto
  note H = head_alloc_frame [OF head] and A = request_alloc_frame [OF alloc]
  have hok: "heads_ok lm"
    using inv by (simp add: lm_inv_def heap_ok_def)
  have hash: "lm_hash lm2 = lm_hash lm" "lm_hashsize lm2 = lm_hashsize lm" "lm_nmutexes lm2 = lm_nmutexes lm"
    using A(2) H by (simp_all add: same_heads_def)
  have cnt: "lm_lockcnt lm2 = lm_lockcnt lm"
    and tran: "lt_locks (lm_tran lm2 me) (LMGR_MUTEX lm name) = req # lt_locks (lm_tran lm me) (LMGR_MUTEX lm name)"
    using head alloc by (auto simp: lock_head_alloc_def lock_request_alloc_def Let_def lm_updates
        LMGR_MUTEX_def split: list.splits)
  show thesis
    by (rule that [of h req])
      (use head_alloc_fresh(1) [OF hok head] A H hash cnt tran in
        \<open>simp_all add: lm' lmgr_lock_free_def head alloc Let_def lm_updates\<close>)
qed

lemma findlock_none:
  "snd (lmgr_findlock lm rel name) = None \<longleftrightarrow>
    (\<forall>h \<in> set (lm_hash lm (name mod lm_hashsize lm)).
       \<not> (lh_relid (lm_head lm h) = rel \<and> lh_name (lm_head lm h) = name))"
proof -
  have "(case xs of [] \<Rightarrow> None | h # _ \<Rightarrow> Some h) = None \<longleftrightarrow> xs = []" for xs :: "hid list"
    by (cases xs) auto
  then show ?thesis
    unfolding lmgr_findlock_def Let_def snd_conv by (simp add: dropWhile_eq_Nil_conv)
qed

text \<open>Unlocking the only request of a lock.\<close>

lemma unlock_only_result:
  assumes "h \<notin> set c" "lm_hash lm (name mod lm_hashsize lm) = h # c"
    and "lh_relid (lm_head lm h) = rel" "lh_name (lm_head lm h) = name" "queue lm h = [req]"
    and "lr_head (lm_req lm req) = h" "owner lm req = me"
    and "lt_locks (lm_tran lm me) (LMGR_MUTEX lm name) = req # rs"
  shows "lm_hash (dbe_lockmgr_unlock lm me rel name) = (lm_hash lm)(name mod lm_hashsize lm := c)"
    "lm_lockcnt (dbe_lockmgr_unlock lm me rel name) = lm_lockcnt lm - 1"
    "lm_head (dbe_lockmgr_unlock lm me rel name) = lm_head lm"
    "lm_hashsize (dbe_lockmgr_unlock lm me rel name) = lm_hashsize lm"
proof -
  let ?lm1 = "upd_req req (\<lambda>r. r\<lparr>lr_class := LOCK_INSTANT, lr_count := 1\<rparr>) lm"
  have found: "find (is_lock lm rel name) (lt_locks (lm_tran lm me) (LMGR_MUTEX lm name)) = Some req"
    by (simp add: assms is_lock_def)
  have "snd (lmgr_findlock ?lm1 rel name) = Some h"
    using assms(2,3,4) by (simp add: lmgr_findlock_def Let_def upd_req_def)
  then obtain n where find: "lmgr_findlock ?lm1 rel name = (?lm1\<lparr>lm_maxpath := n\<rparr>, Some h)"
    using findlock_state [of ?lm1 rel name] by (cases "lmgr_findlock ?lm1 rel name") auto
  have own: "own_request ?lm1 me h = Some req"
    using assms(5,7) by (simp add: own_request_def upd_req_def)
  have q: "queue ?lm1 h = [req]"
    "lr_class (lm_req ?lm1 req) = LOCK_INSTANT" "lr_count (lm_req ?lm1 req) = 1"
    using assms(5) by (simp_all add: upd_req_def)
  have unlock: "lmgr_unlock ?lm1 me rel name = lmgr_unlock_only (?lm1\<lparr>lm_maxpath := n\<rparr>) h req name"
    by (simp add: lmgr_unlock_def find own q lock_class_order)
  have "lm_hash (lmgr_unlock ?lm1 me rel name) = (lm_hash lm)(name mod lm_hashsize lm := c)"
    "lm_lockcnt (lmgr_unlock ?lm1 me rel name) = lm_lockcnt lm - 1"
    "lm_head (lmgr_unlock ?lm1 me rel name) = lm_head lm"
    "lm_hashsize (lmgr_unlock ?lm1 me rel name) = lm_hashsize lm"
    unfolding unlock lmgr_unlock_only_def Let_def using assms(1,2)
    by (simp_all add: upd_req_def removeAll_id lock_head_free_def Let_def)
  then show "lm_hash (dbe_lockmgr_unlock lm me rel name) = (lm_hash lm)(name mod lm_hashsize lm := c)"
    "lm_lockcnt (dbe_lockmgr_unlock lm me rel name) = lm_lockcnt lm - 1"
    "lm_head (dbe_lockmgr_unlock lm me rel name) = lm_head lm"
    "lm_hashsize (dbe_lockmgr_unlock lm me rel name) = lm_hashsize lm"
    by (simp_all add: dbe_lockmgr_unlock_def found Let_def) (simp_all add: upd_tran_def)
qed

text \<open>
  Locking a free name and unlocking it again leaves the lock table as it was: the lock is
  granted, the chains and the number of locks are the old ones, and the name is free.
\<close>

theorem lock_unlock_free:
  assumes "lm_reachable cfg lm" "snd (lmgr_findlock lm rel name) = None"
    and "lt_wait (lm_tran lm me) = None" "lm_uselocks lm" "cls \<le> LOCK_LONG"
    and "lmgr_lock cfg now lm me rel name m cls timeout False = (lm1, reply, p_req, newlock)"
    and "lm2 = dbe_lockmgr_unlock lm1 me rel name"
  shows "reply = LOCK_OK \<and> newlock \<and> lm_hash lm2 = lm_hash lm \<and> lm_lockcnt lm2 = lm_lockcnt lm \<and>
    snd (lmgr_findlock lm2 rel name) = None"
proof -
  define lm0 where "lm0 = (if rel > DBE_LOCKRELID_MAXSPECIAL \<and> lm_disablerowspermessage lm
      then lm_emit (setdisablerowspermessage me True) lm else lm)"
  have same: "lm_inv lm0" "lm_head lm0 = lm_head lm" "lm_tran lm0 = lm_tran lm" "lm_uselocks lm0"
    "lm_hash lm0 = lm_hash lm" "lm_hashsize lm0 = lm_hashsize lm" "lm_lockcnt lm0 = lm_lockcnt lm"
    using reachable_inv [OF assms(1)] assms(4) by (simp_all add: lm0_def) (simp_all add: lm_emit_def)
  have free: "snd (lmgr_findlock lm0 rel name) = None"
    using assms(2) by (simp add: lmgr_findlock_def same Let_def)
  obtain n where find: "lmgr_findlock lm0 rel name = (lm0\<lparr>lm_maxpath := n\<rparr>, None)"
    using findlock_state [of lm0 rel name] free by (cases "lmgr_findlock lm0 rel name") auto
  let ?lm0 = "lm0\<lparr>lm_maxpath := n\<rparr>"
  let ?b = "name mod lm_hashsize lm"
  have res: "lmgr_lock_free ?lm0 me rel name m cls False = (lm1, reply, p_req, newlock)"
    using assms(3,6) unfolding lmgr_lock_def Let_def lm0_def [symmetric] by (simp add: find same)
  have "lm_inv ?lm0" "lm1 = fst (lmgr_lock_free ?lm0 me rel name m cls False)"
    using same res by simp_all
  then obtain h req where R: "\<not> live ?lm0 h"
      "snd (lmgr_lock_free ?lm0 me rel name m cls False) = (LOCK_OK, Some req, True)"
      "lm_hash lm1 = (lm_hash lm)(?b := h # lm_hash lm ?b)"
      "lm_hashsize lm1 = lm_hashsize lm" "lm_nmutexes lm1 = lm_nmutexes ?lm0" "lm_lockcnt lm1 = lm_lockcnt lm + 1"
      "\<And>h'. h' \<noteq> h \<Longrightarrow> lm_head lm1 h' = lm_head lm h'"
      "lh_relid (lm_head lm1 h) = rel" "lh_name (lm_head lm1 h) = name" "queue lm1 h = [req]"
      "lr_head (lm_req lm1 req) = h" "owner lm1 req = me"
      "lt_locks (lm_tran lm1 me) (LMGR_MUTEX ?lm0 name) = req # lt_locks (lm_tran lm me) (LMGR_MUTEX ?lm0 name)"
    by (rule lock_free_result) (simp_all add: same)
  have h: "h \<notin> set (lm_hash lm ?b)"
    using R(1) by (auto simp: live_def same)
  have mutex: "LMGR_MUTEX lm1 name = LMGR_MUTEX ?lm0 name"
    by (simp add: LMGR_MUTEX_def R(4,5) same)
  have U: "lm_hash lm2 = (lm_hash lm1)(name mod lm_hashsize lm1 := lm_hash lm ?b)"
    "lm_lockcnt lm2 = lm_lockcnt lm1 - 1" "lm_head lm2 = lm_head lm1" "lm_hashsize lm2 = lm_hashsize lm1"
    unfolding assms(7)
    by (rule unlock_only_result [OF h _ R(8,9,10,11,12)];
      (rule R(13) [folded mutex])?; simp add: R(3,4))+
  have hash: "lm_hash lm2 = lm_hash lm"
    using U(1) R(3,4) by simp
  have other: "lm_head lm2 h' = lm_head lm h'" if "h' \<in> set (lm_hash lm ?b)" for h'
    using that h R(7) [of h'] U(3) by auto
  have "snd (lmgr_findlock lm2 rel name) = None \<longleftrightarrow> snd (lmgr_findlock lm rel name) = None"
    using other by (simp add: findlock_none hash U(4) R(4))
  then show ?thesis
    using hash U(2) R(6) assms(2) res R(2) by simp
qed

theorem lock_unlock_free_witness:
  "fst (snd (example_lock True example_shared 2 7 LOCK_X 0)) = LOCK_OK \<and>
   lm_hash (dbe_lockmgr_unlock (fst (example_lock True example_shared 2 7 LOCK_X 0)) 2 100 7) =
     lm_hash example_shared"
proof -
  obtain lm1 reply p n where res: "example_lock True example_shared 2 7 LOCK_X 0 = (lm1, reply, p, n)"
    by (cases "example_lock True example_shared 2 7 LOCK_X 0") auto
  have "snd (lmgr_findlock example_shared 100 7) = None" "lt_wait (lm_tran example_shared 2) = None"
    "lm_uselocks example_shared"
    by (simp_all add: example_shared_def example_eval)
  from lock_unlock_free [OF example_shared_reachable this _ res [unfolded example_lock_def] refl]
  show ?thesis
    unfolding res by (simp add: lock_class_order)
qed

end
