(* ===== verification/Lock_Deadlock.thy ===== *)
theory Lock_Deadlock
  imports Lock_Mgr
begin

text \<open>
  What the deadlock detector \<open>lmgr_isdeadlock\<close> finds: the relation it searches, the soundness of
  its answer, and that it leaves the marks of the transactions as it found them.
\<close>

section \<open>The waits-for relation\<close>

text \<open>The requests before the own waiting one on the queue of the lock a transaction waits for.\<close>

definition before_own :: "lockmgr \<Rightarrow> tid \<Rightarrow> rid list \<Rightarrow> rid list" where
  "before_own lm me q = takeWhile (\<lambda>r. \<not> (owner lm r = me \<and> status lm r \<noteq> LOCK_GRANTED)) q"

inductive waits_for :: "lockmgr \<Rightarrow> tid \<Rightarrow> tid \<Rightarrow> bool" for lm where
  "lt_wait (lm_tran lm me) = Some wait \<Longrightarrow>
   req \<in> set (before_own lm me (queue lm (lr_head (lm_req lm wait)))) \<Longrightarrow> owner lm req \<noteq> me \<Longrightarrow>
   \<not> lock_compat (mode lm req) (mode lm wait) \<or> status lm req \<noteq> LOCK_GRANTED \<Longrightarrow>
   waits_for lm me (owner lm req)"

inductive_simps waits_for_iff: "waits_for lm me t"

section \<open>Soundness\<close>

text \<open>All marked transactions wait, directly or not, for the one being looked at.\<close>

definition on_path :: "lockmgr \<Rightarrow> (tid \<Rightarrow> tid option) \<Rightarrow> tid \<Rightarrow> bool" where
  "on_path lm cyc me = (\<forall>t. cyc t \<noteq> None \<longrightarrow> (waits_for lm)\<^sup>+\<^sup>+ t me)"

definition in_deadlock :: "lockmgr \<Rightarrow> tid \<Rightarrow> bool" where
  "in_deadlock lm me = (\<exists>t. (waits_for lm)\<^sup>*\<^sup>* me t \<and> (waits_for lm)\<^sup>+\<^sup>+ t t)"

lemma in_deadlock_step: "waits_for lm me t \<Longrightarrow> in_deadlock lm t \<Longrightarrow> in_deadlock lm me"
  unfolding in_deadlock_def by (blast intro: converse_rtranclp_into_rtranclp)

lemma on_path_step:
  assumes "on_path lm cyc me" "waits_for lm me t"
  shows "on_path lm (cyc(me := Some u)) t"
proof -
  have "(waits_for lm)\<^sup>+\<^sup>+ x t" if "(cyc(me := Some u)) x \<noteq> None" for x
  proof (cases "x = me")
    case True
    then show ?thesis
      using assms(2) by blast
  next
    case False
    then have "(waits_for lm)\<^sup>+\<^sup>+ x me"
      using assms(1) that by (simp add: on_path_def)
    then show ?thesis
      using assms(2) by (rule tranclp.trancl_into_trancl)
  qed
  then show ?thesis
    by (simp add: on_path_def)
qed

lemma isdeadlock_sound_restores:
  shows "cyc me = None \<Longrightarrow> on_path lm cyc me \<Longrightarrow>
    fst (snd (lmgr_isdeadlock lm cyc me level maxlocks)) = cyc \<and>
    (fst (lmgr_isdeadlock lm cyc me level maxlocks) \<longrightarrow> in_deadlock lm me)"
  and "cyc me = None \<Longrightarrow> on_path lm cyc me \<Longrightarrow> lt_wait (lm_tran lm me) = Some wait \<Longrightarrow>
    set (before_own lm me q) \<subseteq> set (before_own lm me (queue lm (lr_head (lm_req lm wait)))) \<Longrightarrow>
    fst (snd (isdeadlock_queue lm cyc me wait level maxlocks q)) = cyc \<and>
    (fst (isdeadlock_queue lm cyc me wait level maxlocks q) \<longrightarrow> in_deadlock lm me)"
proof (induction lm cyc me level maxlocks and lm cyc me wait level maxlocks q
    rule: lmgr_isdeadlock_isdeadlock_queue.induct)
  case (1 lm cyc me level maxlocks)
  then show ?case
    by (simp add: lmgr_isdeadlock.simps split: option.splits)
next
  case (3 lm cyc me wait level maxlocks req reqs)
  let ?stop = "owner lm req = me \<and> status lm req \<noteq> LOCK_GRANTED"
  let ?blocks = "owner lm req \<noteq> me \<and>
    (\<not> lock_compat (mode lm req) (mode lm wait) \<or> status lm req \<noteq> LOCK_GRANTED)"
  show ?case
  proof (cases "?stop \<or> maxlocks \<le> 0")
    case True
    then show ?thesis
      by (auto simp: isdeadlock_queue.simps)
  next
    case False
    then have rest: "set (before_own lm me reqs) \<subseteq> set (before_own lm me (queue lm (lr_head (lm_req lm wait))))"
      and req: "req \<in> set (before_own lm me (queue lm (lr_head (lm_req lm wait))))"
      using 3(7) by (auto simp: before_own_def)
    show ?thesis
    proof (cases ?blocks)
      case no: False
      then show ?thesis
        using False 3(3) [OF _ _ _ 3(4,5,6) rest] by (auto simp: isdeadlock_queue.simps)
    next
      case blocks: True
      let ?t = "owner lm req"
      let ?cyc1 = "cyc(me := Some ?t)"
      have wf: "waits_for lm me ?t"
        using 3(6) req blocks by (intro waits_for.intros) auto
      show ?thesis
      proof (cases "cyc ?t")
        case (Some u)
        then have "(waits_for lm)\<^sup>+\<^sup>+ ?t me"
          using 3(5) by (simp add: on_path_def)
        then have "in_deadlock lm me"
          unfolding in_deadlock_def using wf by (blast intro: tranclp_into_tranclp2)
        then show ?thesis
          using False blocks Some 3(4) by (auto simp: isdeadlock_queue.simps)
      next
        case None
        obtain d c2 m2 where res: "lmgr_isdeadlock lm ?cyc1 ?t level (maxlocks - 1) = (d, c2, m2)"
          by (cases "lmgr_isdeadlock lm ?cyc1 ?t level (maxlocks - 1)") auto
        have cyc1: "?cyc1 ?t = None"
          using None blocks by simp
        have "\<not> ?stop" "\<not> maxlocks \<le> 0" "\<not> ?cyc1 ?t \<noteq> None"
          using False cyc1 by auto
        from 3(1) [OF this(1,2) blocks this(3) cyc1 on_path_step [OF 3(5) wf]]
        have IH: "c2 = ?cyc1" "d \<Longrightarrow> in_deadlock lm ?t"
          unfolding res by (simp_all add: fun_upd_def)
        have c: "c2(me := None) = cyc"
          using IH(1) 3(4) by auto
        show ?thesis
        proof (cases d)
          case True
          then show ?thesis
            using False blocks res cyc1 c IH(2) in_deadlock_step [OF wf]
            by (auto simp: isdeadlock_queue.simps)
        next
          case no: False
          have "fst (snd (isdeadlock_queue lm cyc me wait level m2 reqs)) = cyc \<and>
            (fst (isdeadlock_queue lm cyc me wait level m2 reqs) \<longrightarrow> in_deadlock lm me)"
            using 3(2) [OF _ _ blocks _ refl no] False cyc1 res c [unfolded fun_upd_def] 3(4,5,6) rest
            by (simp add: fun_upd_def)
          then show ?thesis
            using False blocks res cyc1 c no by (auto simp: isdeadlock_queue.simps)
        qed
      qed
    qed
  qed
qed simp

section \<open>Properties\<close>

text \<open>
  C6. When no transaction is marked by another search, a deadlock reported by the detector is one:
  from the transaction the waits-for relation leads to a transaction that waits for itself,
  directly or through others. Whatever the answer, all marks are cleared again, and nothing but the
  marks has changed.
\<close>

theorem deadlock_sound:
  assumes "\<forall>t. lt_cycle (lm_tran lm t) = None"
    and "lmgr_test_deadlock cfg lm me timeout = (lm', deadlock)"
  shows "(deadlock \<longrightarrow> (\<exists>t. (waits_for lm)\<^sup>*\<^sup>* me t \<and> (waits_for lm)\<^sup>+\<^sup>+ t t)) \<and> lm' = lm"
proof -
  let ?cyc = "\<lambda>t. lt_cycle (lm_tran lm t)"
  let ?r = "lmgr_isdeadlock lm ?cyc me (cfg_deadlockdetectmaxdepth cfg) (cfg_deadlockdetectmaxlocks cfg)"
  have "on_path lm ?cyc me"
    using assms(1) by (simp add: on_path_def)
  then have sound: "fst (snd ?r) = ?cyc" "fst ?r \<longrightarrow> in_deadlock lm me"
    using isdeadlock_sound_restores(1) [of ?cyc me lm] assms(1) by simp_all
  have same: "lm\<lparr>lm_tran := (\<lambda>t. (lm_tran lm t)\<lparr>lt_cycle := ?cyc t\<rparr>)\<rparr> = lm"
    by simp
  show ?thesis
  proof (cases "cfg_fastdeadlockdetect cfg \<and> timeout \<noteq> 0")
    case True
    obtain d c n where r: "?r = (d, c, n)"
      by (cases ?r) auto
    have "(lm', deadlock) = (lm\<lparr>lm_tran := (\<lambda>t. (lm_tran lm t)\<lparr>lt_cycle := c t\<rparr>)\<rparr>, d)"
      using assms(2) True unfolding lmgr_test_deadlock_def r by simp
    moreover have "c = ?cyc" "d \<longrightarrow> in_deadlock lm me"
      using sound unfolding r by simp_all
    ultimately show ?thesis
      unfolding in_deadlock_def using same by blast
  next
    case False
    then show ?thesis
      using assms(2) by (auto simp: lmgr_test_deadlock_def)
  qed
qed

text \<open>Two transactions hold a lock each and wait for the lock of the other.\<close>

definition example_deadlock :: lockmgr where
  "example_deadlock =
    (let lm1 = fst (example_lock False example_init 0 1 LOCK_X 0);
         lm2 = fst (example_lock False lm1 1 2 LOCK_X 0);
         lm3 = fst (example_lock False lm2 0 2 LOCK_X 1000)
     in fst (example_lock False lm3 1 1 LOCK_X 1000))"

theorem deadlock_sound_witness:
  "snd (lmgr_test_deadlock (example_config True) example_deadlock 1 1000) \<and>
   (\<exists>t. (waits_for example_deadlock)\<^sup>*\<^sup>* 1 t \<and> (waits_for example_deadlock)\<^sup>+\<^sup>+ t t)"
proof -
  have "snd (lmgr_test_deadlock (example_config True) example_deadlock 1 1000)"
    by (simp add: example_deadlock_def example_eval)
  moreover have "\<forall>t. lt_cycle (lm_tran example_deadlock t) = None"
    by (simp add: example_deadlock_def example_eval)
  ultimately show ?thesis
    using deadlock_sound [of example_deadlock "example_config True" 1 1000, OF _ prod.collapse [symmetric]]
    by blast
qed

end
