(* ===== verification/Lock_Conversion.thy ===== *)
theory Lock_Conversion
  imports Lock_Safety
begin

text \<open>
  Lock conversions that are refused, or that wait when their transaction ends, and locks asked for
  again: what \<^verbatim>\<open>lmgr_lock\<close> and \<^verbatim>\<open>dbe_lockmgr_unlockall\<close> of \<^verbatim>\<open>dbe/dbe6lmgr.c\<close> do in every
  state of the lock manager.
\<close>

section \<open>Requests that stay on a queue\<close>

text \<open>The wake loop grants a waiting request or leaves it alone, and touches no transaction.\<close>

lemma wake_loop_request:
  "lm_req (lmgr_wake_loop lm h f reqs) r = lm_req lm r \<or>
    (status lm r = LOCK_WAITING \<or> status lm r = LOCK_CONVERTING) \<and>
    status (lmgr_wake_loop lm h f reqs) r = LOCK_GRANTED"
proof (induction reqs arbitrary: lm f)
  case (Cons req reqs)
  have granted: "status (lmgr_grant lm h req m) req = LOCK_GRANTED" for m
    by (simp add: lmgr_grant_def lm_updates)
  note grant = Cons.IH [of "lmgr_grant lm h req m" for m] lmgr_grant_frame(3) [of r req lm h] granted
  show ?case
  proof (cases rule: wake_loop_turn [where lm = lm and req = req and h = h and f = f and reqs = reqs])
    case skip
    then show ?thesis
      using Cons.IH [of lm] by simp
  next
    case waiting
    then show ?thesis
      using grant by (cases "r = req") (auto split: if_splits)
  next
    case (converting m)
    then show ?thesis
      using grant by (cases "r = req") (auto split: if_splits)
  next
    case stop
    then show ?thesis
      by (simp add: lm_updates)
  qed
qed simp

lemma wake_loop_tran:
  "lm_tran (lmgr_wake_loop lm h f reqs) = lm_tran lm \<and> owner (lmgr_wake_loop lm h f reqs) r = owner lm r"
proof (induction reqs arbitrary: lm f)
  case (Cons req reqs)
  have "lm_tran (lmgr_grant lm h req m) = lm_tran lm \<and> owner (lmgr_grant lm h req m) r = owner lm r" for m
    by (simp add: lmgr_grant_def lm_updates)
  then show ?case
    using Cons by (cases rule: wake_loop_turn [where lm = lm and req = req and h = h and f = f and reqs = reqs])
      (simp_all add: lm_updates)
qed simp

text \<open>The request that leaves, and what becomes of the others.\<close>

lemma unlock_leave_result:
  assumes "lm' = lmgr_unlock_leave lm h req"
  shows "queue lm' h = removeAll req (queue lm h)"
    and "lm_req lm' r = lm_req lm r \<or>
      (status lm r = LOCK_WAITING \<or> status lm r = LOCK_CONVERTING) \<and> status lm' r = LOCK_GRANTED"
    and "owner lm' r = owner lm r"
    and "lt_locks (lm_tran lm' t) j = [] \<or> lt_locks (lm_tran lm t) j \<noteq> []"
proof -
  define lm1 where "lm1 = lock_request_free (upd_head h (\<lambda>k. k\<lparr>lh_queue := removeAll req (lh_queue k)\<rparr>) lm) req"
  define lm2 where "lm2 = upd_head h (\<lambda>k. k\<lparr>lh_waiting := False,
      lh_granted_mode := granted_group lm1 (queue lm1 h) LOCK_FREE\<rparr>) (lm1\<lparr>lm_lockcnt := lm_lockcnt lm1 - 1\<rparr>)"
  have lm': "lm' = lmgr_wake_loop lm2 h (Some (owner lm2 (hd (queue lm1 h)))) (queue lm1 h)"
    unfolding assms lmgr_unlock_leave_def Let_def lm2_def lm1_def ..
  have lm2: "lm_req lm2 = lm_req lm" "queue lm2 h = removeAll req (queue lm h)"
    by (simp_all add: lm2_def lm1_def lm_updates)
  note W = wake_loop_frame [of lm2 h "Some (owner lm2 (hd (queue lm1 h)))" "queue lm1 h", folded lm']
  show "queue lm' h = removeAll req (queue lm h)" "owner lm' r = owner lm r"
    using W lm2 wake_loop_tran [of lm2 h "Some (owner lm2 (hd (queue lm1 h)))" "queue lm1 h" r]
    by (simp_all add: same_reqs_def lm')
  show "lm_req lm' r = lm_req lm r \<or>
      (status lm r = LOCK_WAITING \<or> status lm r = LOCK_CONVERTING) \<and> status lm' r = LOCK_GRANTED"
    using wake_loop_request [of lm2 h "Some (owner lm2 (hd (queue lm1 h)))" "queue lm1 h" r]
    unfolding lm' lm2(1) .
  have "lm_tran lm' = lm_tran lm1"
    by (simp add: lm' wake_loop_tran lm2_def lm_updates)
  then show "lt_locks (lm_tran lm' t) j = [] \<or> lt_locks (lm_tran lm t) j \<noteq> []"
    by (auto simp: lm1_def lock_request_free_def Let_def lm_updates)
qed

text \<open>Which lock and which request \<open>lmgr_unlock\<close> finds.\<close>

lemma unlock_finds:
  assumes "snd (lmgr_findlock lm rel name) = Some h" "own_request lm me h = Some req"
  obtains n where "lmgr_unlock lm me rel name =
    (let lm1 = lm\<lparr>lm_maxpath := n\<rparr> in
     if lr_class (lm_req lm req) > LOCK_LONG \<or> lr_count (lm_req lm req) > 1
     then upd_req req (\<lambda>r. r\<lparr>lr_count := lr_count r - 1\<rparr>) lm1
     else if queue lm h = [req] then lmgr_unlock_only lm1 h req name else lmgr_unlock_leave lm1 h req)"
proof -
  obtain n where "lmgr_findlock lm rel name = (lm\<lparr>lm_maxpath := n\<rparr>, Some h)"
    using findlock_state [of lm rel name] assms(1) by (cases "lmgr_findlock lm rel name") auto
  then show thesis
    using that [of n] assms(2) by (simp add: lmgr_unlock_def Let_def)
qed

text \<open>The request found is still found when others change or join, and its owner stays.\<close>

lemma own_request_kept:
  assumes "own_request lm me h = Some req" "queue lm' h = queue lm h @ rs"
    and "\<And>s. s \<in> set (queue lm h) \<Longrightarrow> owner lm' s = owner lm s"
  shows "own_request lm' me h = Some req"
proof -
  have "find P (xs @ ys) = Some x" if "find P xs = Some x" for P ys x and xs :: "rid list"
    using that by (induction xs) (auto split: if_splits)
  moreover have "find (\<lambda>s. owner lm' s = me) (queue lm h) = find (\<lambda>s. owner lm s = me) (queue lm h)"
    using assms(3) by (intro find_cong) simp_all
  ultimately show ?thesis
    using assms(1,2) by (simp add: own_request_def)
qed

section \<open>Asking again\<close>

text \<open>A transaction that holds a request and does not wait reaches \<open>lmgr_lock_again\<close>.\<close>

lemma lock_reaches_again:
  assumes "lt_wait (lm_tran lm me) = None" "lm_uselocks lm" "snd (lmgr_findlock lm rel name) = Some h"
    and "own_request lm me h = Some req"
  obtains lm2 where "lm_req lm2 = lm_req lm" "lm_head lm2 = lm_head lm" "same_heads lm lm2"
    "lm_inv lm \<Longrightarrow> lm_inv lm2" "lmgr_lock cfg now lm me rel name m cls timeout bouncep =
      lmgr_lock_again cfg now lm2 me h req name m cls timeout"
proof -
  define lm0 where "lm0 = (if rel > DBE_LOCKRELID_MAXSPECIAL \<and> lm_disablerowspermessage lm
      then lm_emit (setdisablerowspermessage me True) lm else lm)"
  have lm0: "lm_inv lm \<Longrightarrow> lm_inv lm0" "lm_req lm0 = lm_req lm" "lm_head lm0 = lm_head lm"
    "lm_tran lm0 = lm_tran lm" "lm_uselocks lm0 = lm_uselocks lm" "same_heads lm lm0"
    by (simp_all add: lm0_def) (simp_all add: lm_updates same_heads_def)
  obtain n where n: "lmgr_findlock lm0 rel name = (lm0\<lparr>lm_maxpath := n\<rparr>, Some h)"
    using findlock_state [of lm0 rel name] findlock_cong [OF lm0(6), of rel name] assms(3)
    by (cases "lmgr_findlock lm0 rel name") auto
  define lm2 where "lm2 = (if rel = DBE_LOCKRELID_REL
      then lm0\<lparr>lm_maxpath := n, lm_cachedrelid := name, lm_cachedlock := Some h\<rparr> else lm0\<lparr>lm_maxpath := n\<rparr>)"
  have own: "own_request lm2 me h = Some req"
    using assms(4) lm0 by (simp add: own_request_def lm2_def)
  show thesis
  proof (rule that [of lm2])
    show "lmgr_lock cfg now lm me rel name m cls timeout bouncep =
      lmgr_lock_again cfg now lm2 me h req name m cls timeout"
      using assms(1,2) own lm0(4,5) n unfolding lmgr_lock_def Let_def lm0_def [symmetric] lm2_def
      by auto
  qed (use lm0 in \<open>simp_all add: lm2_def same_heads_def\<close>)
qed

section \<open>Properties\<close>


text \<open>
  C27. A conversion that is refused takes the lock away. In every reachable state, when a
  transaction that holds a request on a lock and does not wait asks for more and is answered with a
  time-out, the request that stays on the queue is the new one, denied but with the mode asked for;
  the one given up is the first request of the transaction on the queue: it loses one of its counts,
  or is removed when it has one count and no very long duration.
\<close>

theorem conversion_refused:
  assumes "lm_reachable cfg lm" "lt_wait (lm_tran lm me) = None" "lm_uselocks lm"
    and "snd (lmgr_findlock lm rel name) = Some h" "own_request lm me h = Some req"
    and "lmgr_lock cfg now lm me rel name m cls timeout bouncep = (lm', LOCK_TIMEOUT, p_req, newlock)"
  shows "\<exists>r. r \<notin> set (queue lm h) \<and> owner lm' r = me \<and> status lm' r = LOCK_DENIED \<and> mode lm' r = m \<and>
    (if lr_class (lm_req lm req) > LOCK_LONG \<or> lr_count (lm_req lm req) > 1
     then queue lm' h = queue lm h @ [r] \<and>
       lr_count (lm_req lm' req) = lr_count (lm_req lm req) - 1
     else queue lm' h = removeAll req (queue lm h) @ [r])"
proof -
  obtain lm2 where lm2: "lm_req lm2 = lm_req lm" "lm_head lm2 = lm_head lm" "same_heads lm lm2" "lm_inv lm2"
      "lmgr_lock cfg now lm me rel name m cls timeout bouncep = lmgr_lock_again cfg now lm2 me h req name m cls timeout"
    using lock_reaches_again [OF assms(2-5), of cfg now m cls timeout bouncep] reachable_inv [OF assms(1)]
    by blast
  have found2: "snd (lmgr_findlock lm2 rel name) = Some h"
    using assms(4) findlock_cong [OF lm2(3)] by simp
  note h = findlock_found [OF found2]
  obtain lm3 r where alloc: "lock_request_alloc lm2 me h m cls name = (lm3, r)"
    by (cases "lock_request_alloc lm2 me h m cls name") auto
  define lm4 where "lm4 = upd_head h (\<lambda>k. k\<lparr>lh_queue := lh_queue k @ [r]\<rparr>) (lm3\<lparr>lm_lockcnt := lm_lockcnt lm3 + 1\<rparr>)"
  note A = append_request [OF lm2(4) h(4) alloc lm4_def]
  define lm5 where "lm5 = upd_req r (\<lambda>r. r\<lparr>lr_status := LOCK_CONVERTING, lr_convert_mode := m\<rparr>) lm4"
  have "lmgr_lock_again cfg now lm2 me h req name m cls timeout = (lm', LOCK_TIMEOUT, p_req, newlock)"
    using lm2(5) assms(6) by simp
  then have wait: "lmgr_must_wait cfg now lm5 me h r timeout = (lm', LOCK_TIMEOUT, p_req, newlock)"
    unfolding lmgr_lock_again_def Let_def alloc prod.case lm4_def [symmetric] lm5_def [symmetric]
    by (simp split: if_splits)
  define lm6 where "lm6 = upd_tran me (\<lambda>t. t\<lparr>lt_wait := Some r\<rparr>)
      (lm_check (lt_cd (lm_tran lm5 me) \<noteq> None) (lm5\<lparr>lm_lockwaitcnt := lm_lockwaitcnt lm5 + 1\<rparr>))"
  obtain ts deadlock where test: "lmgr_test_deadlock cfg lm6 me timeout = (lm6\<lparr>lm_tran := ts\<rparr>, deadlock)"
    using test_deadlock_state [of cfg lm6 me timeout] by (metis prod.collapse)
  define lm7 where "lm7 = upd_req r (\<lambda>r. r\<lparr>lr_class := LOCK_INSTANT\<rparr>) (upd_tran me (\<lambda>t. t\<lparr>lt_wait := None\<rparr>)
      ((upd_req r (\<lambda>r. r\<lparr>lr_status := LOCK_DENIED, lr_timeout := 0\<rparr>) (lm6\<lparr>lm_tran := ts\<rparr>))
        \<lparr>lm_locktimeoutcnt := lm_locktimeoutcnt lm6 + 1\<rparr>))"
  have seven: "lm_head lm7 = lm_head lm4" "same_heads lm4 lm7" "\<And>s. s \<noteq> r \<Longrightarrow> lm_req lm7 s = lm_req lm4 s"
    "status lm7 r = LOCK_DENIED" "mode lm7 r = mode lm4 r" "owner lm7 r = owner lm4 r"
    "lr_head (lm_req lm7 r) = lr_head (lm_req lm4 r)"
    by (simp_all add: lm7_def lm6_def lm5_def lm_updates same_heads_def)
  have app: "queue lm4 h = queue lm h @ [r]" "r \<notin> set (queue lm h)" "lr_head (lm_req lm4 r) = h"
    "same_heads lm2 lm4" "\<And>s. s \<noteq> r \<Longrightarrow> lm_req lm4 s = lm_req lm s"
    using A(1) lm2(1,2) by (simp_all add: appended_def)
  have name: "lh_relid (lm_head lm7 h) = rel" "lh_name (lm_head lm7 h) = name"
    using h(2,3) app(4) seven(1) by (simp_all add: same_heads_def)
  have lm': "lm' = lmgr_unlock lm7 me rel name"
    using wait name app(3) seven(1,7)
    unfolding lmgr_must_wait_def Let_def lm6_def [symmetric] test prod.case lmgr_give_up_def
    by (auto simp: lm7_def lm_updates split: if_splits)
  have found7: "snd (lmgr_findlock lm7 rel name) = Some h"
    using found2 findlock_cong [OF app(4)] findlock_cong [OF seven(2)] by simp
  have req: "req \<in> set (queue lm h)" "req \<noteq> r" "owner lm req = me"
    using own_request_found [OF assms(5)] app(2) by auto
  have own7: "own_request lm7 me h = Some req"
  proof (rule own_request_kept [OF assms(5)])
    show "queue lm7 h = queue lm h @ [r]"
      using seven(1) app(1) by simp
    show "owner lm7 s = owner lm s" if "s \<in> set (queue lm h)" for s
      using seven(3) [of s] app(5) [of s] app(2) that by (cases "s = r") simp_all
  qed
  have req7: "lm_req lm7 req = lm_req lm req" and r7: "owner lm7 r = me" "mode lm7 r = m"
    using seven app(5) req(2) A(2,4) by simp_all
  obtain n where unlock: "lmgr_unlock lm7 me rel name = (let lm1 = lm7\<lparr>lm_maxpath := n\<rparr> in
     if lr_class (lm_req lm7 req) > LOCK_LONG \<or> lr_count (lm_req lm7 req) > 1
     then upd_req req (\<lambda>r. r\<lparr>lr_count := lr_count r - 1\<rparr>) lm1
     else if queue lm7 h = [req] then lmgr_unlock_only lm1 h req name else lmgr_unlock_leave lm1 h req)"
    using unlock_finds [OF found7 own7] by blast
  show ?thesis
  proof (cases "lr_class (lm_req lm req) > LOCK_LONG \<or> lr_count (lm_req lm req) > 1")
    case True
    then have "lm' = upd_req req (\<lambda>r. r\<lparr>lr_count := lr_count r - 1\<rparr>) (lm7\<lparr>lm_maxpath := n\<rparr>)"
      using unlock req7 by (simp add: lm')
    then show ?thesis
      using True r7 req7 seven(1,4) app(1,2) req(2) by (intro exI [of _ r]) (simp add: lm_updates)
  next
    case False
    then have leave: "lm' = lmgr_unlock_leave (lm7\<lparr>lm_maxpath := n\<rparr>) h req"
      using unlock req7 seven(1) app(1) req(1,2) by (auto simp: lm' append_eq_Cons_conv Let_def)
    note L = unlock_leave_result [OF leave]
    show ?thesis
      using False L(1) L(2,3) [of r] r7 seven(1,4) app(1,2) req(2)
      by (intro exI [of _ r]) auto
  qed
qed

text \<open>The loop over the lists of a transaction: empty lists are passed over.\<close>

lemma unlock_class_empty:
  "\<forall>i\<in>set is. lt_locks (lm_tran lm me) i = [] \<Longrightarrow>
    foldl (\<lambda>lm i. unlock_class_loop lm me cls a i (lt_locks (lm_tran lm me) i)) lm is = lm"
  by (induction "is") simp_all

lemma unlock_class_one:
  assumes "lt_locks (lm_tran lm me) = (\<lambda>_. [])(i := reqs)" "i < lm_nmutexes lm"
    and "lm' = unlock_class_loop lm me cls a i reqs" "\<And>j. lt_locks (lm_tran lm' me) j = [] \<or> j = i"
  shows "lmgr_unlock_class lm me cls a = lm'"
proof -
  have "[0..<lm_nmutexes lm] = [0..<i] @ i # [Suc i..<lm_nmutexes lm]"
    using assms(2) upt_add_eq_append [of 0 i "lm_nmutexes lm - i"] upt_conv_Cons [of i "lm_nmutexes lm"] by simp
  moreover have "\<forall>j\<in>set [0..<i]. lt_locks (lm_tran lm me) j = []"
    using assms(1) by simp
  moreover have "\<forall>j\<in>set [Suc i..<lm_nmutexes lm]. lt_locks (lm_tran lm' me) j = []"
    using assms(4) by (metis Suc_n_not_le_n atLeastLessThan_iff set_upt)
  ultimately show ?thesis
    using unlock_class_empty [of "[0..<i]" lm me cls a]
      unlock_class_empty [of "[Suc i..<lm_nmutexes lm]" lm' me cls a] assms(1,3)
    by (simp add: lmgr_unlock_class_def)
qed

text \<open>
  C28. Releasing all locks does not release a waiting conversion. In every reachable state, when a
  transaction has two requests, one on a lock it locked more than once and a later one with which it
  waits to convert that lock, neither of very long duration, then \<open>dbe_lockmgr_unlockall\<close> removes the
  first and leaves the second on the queue, waiting or granted, although the transaction waits for
  nothing any more.
\<close>

theorem unlockall_leaves_conversion:
  assumes "lm_reachable cfg lm" "snd (lmgr_findlock lm rel name) = Some h" "own_request lm me h = Some req"
    and "lr_count (lm_req lm req) > 1" "lr_class (lm_req lm req) \<le> LOCK_LONG"
    and "conv \<in> set (queue lm h)" "conv \<noteq> req" "owner lm conv = me" "status lm conv = LOCK_CONVERTING"
    and "lr_class (lm_req lm conv) \<le> LOCK_LONG"
    and "lt_locks (lm_tran lm me) = (\<lambda>_. [])(i := [conv, req])" "i < lm_nmutexes lm"
    and "lm' = dbe_lockmgr_unlockall lm me"
  shows "queue lm' h = removeAll req (queue lm h) \<and> conv \<in> set (queue lm' h) \<and> owner lm' conv = me \<and>
    (status lm' conv = LOCK_CONVERTING \<or> status lm' conv = LOCK_GRANTED) \<and> lt_wait (lm_tran lm' me) = None"
proof -
  let ?F = "\<lambda>r. r\<lparr>lr_class := LOCK_INSTANT, lr_count := 1\<rparr>"
  note h = findlock_found [OF assms(2)]
  have ok: "reqs_ok lm"
    using reachable_inv [OF assms(1)] by (simp add: lm_inv_def heap_ok_def)
  have heads: "lr_head (lm_req lm conv) = h" "lr_head (lm_req lm req) = h"
    using reqs_okD(4) [OF ok h(4)] assms(6) own_request_found [OF assms(3)] by blast+
  have found: "snd (lmgr_findlock lm1 rel name) = Some h" if "same_heads lm lm1" for lm1
    using findlock_cong [OF that] assms(2) by simp
  let ?lm0 = "upd_req conv ?F lm"
  have "own_request ?lm0 me h = Some req"
    using assms(3) by (rule own_request_kept [where rs = "[]"]) (simp_all add: upd_req_def)
  then obtain n where "lmgr_unlock ?lm0 me rel name = (let lm1 = ?lm0\<lparr>lm_maxpath := n\<rparr> in
      if lr_class (lm_req ?lm0 req) > LOCK_LONG \<or> lr_count (lm_req ?lm0 req) > 1
      then upd_req req (\<lambda>r. r\<lparr>lr_count := lr_count r - 1\<rparr>) lm1
      else if queue ?lm0 h = [req] then lmgr_unlock_only lm1 h req name else lmgr_unlock_leave lm1 h req)"
    using unlock_finds [OF found [of ?lm0]] by (auto simp: same_heads_def upd_req_def)
  then have one: "lmgr_unlock ?lm0 me rel name = upd_req req (\<lambda>r. r\<lparr>lr_count := lr_count r - 1\<rparr>) (?lm0\<lparr>lm_maxpath := n\<rparr>)"
    using assms(4,7) by (simp add: upd_req_def)
  let ?lm1 = "upd_req req ?F (upd_req req (\<lambda>r. r\<lparr>lr_count := lr_count r - 1\<rparr>) (?lm0\<lparr>lm_maxpath := n\<rparr>))"
  have own1: "own_request ?lm1 me h = Some req"
    using assms(3) by (rule own_request_kept [where rs = "[]"]) (simp_all add: upd_req_def)
  obtain n' where "lmgr_unlock ?lm1 me rel name = (let lm1 = ?lm1\<lparr>lm_maxpath := n'\<rparr> in
      if lr_class (lm_req ?lm1 req) > LOCK_LONG \<or> lr_count (lm_req ?lm1 req) > 1
      then upd_req req (\<lambda>r. r\<lparr>lr_count := lr_count r - 1\<rparr>) lm1
      else if queue ?lm1 h = [req] then lmgr_unlock_only lm1 h req name else lmgr_unlock_leave lm1 h req)"
    using unlock_finds [OF found [of ?lm1] own1] by (auto simp: same_heads_def upd_req_def)
  moreover have "queue lm h \<noteq> [req]"
    using assms(6,7) by auto
  ultimately have two: "lmgr_unlock ?lm1 me rel name = lmgr_unlock_leave (?lm1\<lparr>lm_maxpath := n'\<rparr>) h req"
    by (simp add: upd_req_def lock_class_order)
  define lm2 where "lm2 = lmgr_unlock_leave (?lm1\<lparr>lm_maxpath := n'\<rparr>) h req"
  note L = unlock_leave_result [OF lm2_def]
  have "unlock_class_loop lm me LOCK_LONG True i [conv, req] = lm2"
    using assms(5,7,10) one two heads h(2,3) by (auto simp: Let_def upd_req_def lm2_def order.order_iff_strict)
  moreover have "lt_locks (lm_tran lm2 me) j = [] \<or> j = i" for j
    using L(4) [of me j] assms(11) by (auto simp: upd_req_def split: if_splits)
  ultimately have "lmgr_unlock_class lm me LOCK_LONG True = lm2"
    using unlock_class_one [OF assms(11,12)] by simp
  then have lm': "lm' = upd_tran me (\<lambda>t. t\<lparr>lt_wait := None\<rparr>) lm2"
    by (simp add: assms(13) dbe_lockmgr_unlockall_def)
  have "queue lm2 h = removeAll req (queue lm h)" "owner lm2 conv = me"
    "status lm2 conv = LOCK_CONVERTING \<or> status lm2 conv = LOCK_GRANTED"
    using L(1) L(2,3) [of conv] assms(7,8,9) by (auto simp: upd_req_def)
  then show ?thesis
    using assms(6,7) by (simp add: lm' upd_tran_def)
qed

section \<open>Witnesses\<close>




text \<open>Two transactions share a row; the first asks for the exclusive lock, without waiting.\<close>

definition example_rows :: lockmgr where
  "example_rows = fst (example_lock True (fst (example_lock True example_init 0 1 LOCK_S 0)) 1 1 LOCK_S 0)"

lemma example_rows_reachable: "lm_reachable (example_config True) example_rows"
  unfolding example_rows_def example_lock_def
  by (rule reachable_lock [OF reachable_lock]; (unfold example_init_def, rule lm_reachable.init)?)
    (simp_all add: lock_guard_def example_eval modes_of_def row_modes_def)

lemma must_not_wait: "snd (lmgr_must_wait cfg now lm me h r 0) = (LOCK_TIMEOUT, None, True)"
  by (auto simp: lmgr_must_wait_def Let_def split: prod.splits)

theorem conversion_refused_witness:
  "fst (snd (example_lock True example_rows 0 1 LOCK_X 0)) = LOCK_TIMEOUT \<and>
   (\<exists>r. queue (fst (example_lock True example_rows 0 1 LOCK_X 0)) 0 = [1, r] \<and>
     owner (fst (example_lock True example_rows 0 1 LOCK_X 0)) r = 0 \<and>
     status (fst (example_lock True example_rows 0 1 LOCK_X 0)) r = LOCK_DENIED)"
proof -
  obtain lm' reply p n where res: "example_lock True example_rows 0 1 LOCK_X 0 = (lm', reply, p, n)"
    by (cases "example_lock True example_rows 0 1 LOCK_X 0") auto
  have state: "lt_wait (lm_tran example_rows 0) = None" "lm_uselocks example_rows"
    "snd (lmgr_findlock example_rows 100 1) = Some 0" "own_request example_rows 0 0 = Some 0"
    and row: "queue example_rows 0 = [0, 1]" "lr_class (lm_req example_rows 0) = LOCK_LONG"
      "lr_count (lm_req example_rows 0) = 1"
    by (simp_all add: example_rows_def example_eval)
  have reply: "fst (snd (example_lock True example_rows 0 1 LOCK_X 0)) = LOCK_TIMEOUT"
    by (simp add: example_rows_def example_eval must_not_wait del: lmgr_must_wait_def)
  have "lmgr_lock (example_config True) 5 example_rows 0 100 1 LOCK_X LOCK_LONG 0 False = (lm', LOCK_TIMEOUT, p, n)"
    using res reply by (simp add: example_lock_def)
  from conversion_refused [OF example_rows_reachable state this] show ?thesis
    using reply unfolding res by (auto simp: row)
qed

text \<open>A transaction locks a row twice and waits to convert the lock.\<close>

definition example_twice :: lockmgr where
  "example_twice = fst (example_lock True example_rows 0 1 LOCK_S 0)"

definition example_converting :: lockmgr where
  "example_converting = fst (example_lock True example_twice 0 1 LOCK_X 10)"

theorem unlockall_leaves_conversion_witness:
  "queue (dbe_lockmgr_unlockall example_converting 0) 0 = [1, 2] \<and>
   owner (dbe_lockmgr_unlockall example_converting 0) 2 = 0"
proof -
  have "lm_reachable (example_config True) example_twice"
    unfolding example_twice_def example_lock_def
    by (rule reachable_lock [OF example_rows_reachable])
      (simp_all add: lock_guard_def example_rows_def example_eval modes_of_def row_modes_def)
  then have reach: "lm_reachable (example_config True) example_converting"
    unfolding example_converting_def example_lock_def
    by (rule reachable_lock)
      (simp_all add: lock_guard_def example_twice_def example_rows_def example_eval modes_of_def row_modes_def)
  have "lt_locks (lm_tran example_converting 0) = (\<lambda>_. [])(0 := [Suc (Suc 0), 0])"
    by (simp add: example_converting_def example_twice_def example_rows_def example_eval)
  then have lists: "lt_locks (lm_tran example_converting 0) = (\<lambda>_. [])(0 := [2, 0])"
    by (simp only: numeral_2_eq_2)
  have state: "snd (lmgr_findlock example_converting 100 1) = Some 0" "own_request example_converting 0 0 = Some 0"
    "lr_count (lm_req example_converting 0) > 1" "lr_class (lm_req example_converting 0) \<le> LOCK_LONG"
    "2 \<in> set (queue example_converting 0)" "(2 :: rid) \<noteq> 0" "owner example_converting 2 = 0"
    "status example_converting 2 = LOCK_CONVERTING" "lr_class (lm_req example_converting 2) \<le> LOCK_LONG"
    and mutex: "0 < lm_nmutexes example_converting"
    and row: "queue example_converting 0 = [0, 1, 2]"
    by (simp_all add: example_converting_def example_twice_def example_rows_def example_eval)
  from unlockall_leaves_conversion [OF reach state lists mutex refl] show ?thesis
    by (simp add: row)
qed

end
