(* ===== verification/Trx_Info.thy ===== *)
theory Trx_Info
  imports Trx_Num
begin

text \<open>
  The transaction info structure (\<^verbatim>\<open>dbe/dbe7trxi.c\<close>, \<^verbatim>\<open>include/dbe7trxi.h\<close>): the state of a
  transaction that its statements share, with the number of references to it. The state word holds
  the state of \<^verbatim>\<open>dbe_trxstate_t\<close> in its bits 0-2 and flags above them. The operations are those of
  the production build; a mutex makes each of them one step.
\<close>

section \<open>States and flags\<close>

definition DBE_TRXST_BEGIN :: u32 where "DBE_TRXST_BEGIN = 0"
definition DBE_TRXST_VALIDATE :: u32 where "DBE_TRXST_VALIDATE = 1"
definition DBE_TRXST_COMMIT :: u32 where "DBE_TRXST_COMMIT = 2"
definition DBE_TRXST_ABORT :: u32 where "DBE_TRXST_ABORT = 3"
definition DBE_TRXST_SAVED :: u32 where "DBE_TRXST_SAVED = 4"
definition DBE_TRXST_TOBEABORTED :: u32 where "DBE_TRXST_TOBEABORTED = 5"

definition DBE_TRXST_BITMASK :: u32 where "DBE_TRXST_BITMASK = 7"
definition DBE_TRXST_HSB_UNKNOWN :: u32 where "DBE_TRXST_HSB_UNKNOWN = push_bit 3 1"
definition DBE_TRXST_HSB_OPENDDOP :: u32 where "DBE_TRXST_HSB_OPENDDOP = push_bit 4 1"
definition DBE_TRXST_CANREMOVEREADLEVEL :: u32 where "DBE_TRXST_CANREMOVEREADLEVEL = push_bit 5 1"
definition DBE_TRXST_MTABLETRX :: u32 where "DBE_TRXST_MTABLETRX = push_bit 6 1"

lemmas trxst_defs = DBE_TRXST_BEGIN_def DBE_TRXST_VALIDATE_def DBE_TRXST_COMMIT_def
  DBE_TRXST_ABORT_def DBE_TRXST_SAVED_def DBE_TRXST_TOBEABORTED_def DBE_TRXST_BITMASK_def
  DBE_TRXST_HSB_UNKNOWN_def DBE_TRXST_HSB_OPENDDOP_def DBE_TRXST_CANREMOVEREADLEVEL_def
  DBE_TRXST_MTABLETRX_def

text \<open>\<open>ti_actlistnode\<close> and \<open>ti_hsbcd\<close> are pointers to objects of other components.\<close>

record trxinfo =
  ti_nlinks :: int
  ti_state :: u32
  ti_usertrxid :: dbe_trxid_t
  ti_maxtrxnum :: dbe_trxnum_t
  ti_committrxnum :: dbe_trxnum_t
  ti_actlistnode :: "nat option"
  ti_hsbcd :: "nat option"

definition dbe_trxinfo_initbuf :: trxinfo where
  "dbe_trxinfo_initbuf = \<lparr>ti_nlinks = 1, ti_state = DBE_TRXST_BEGIN, ti_usertrxid = DBE_TRXID_NULL,
    ti_maxtrxnum = DBE_TRXNUM_NULL, ti_committrxnum = DBE_TRXNUM_NULL, ti_actlistnode = None,
    ti_hsbcd = None\<rparr>"

definition dbe_trxinfo_getstate :: "trxinfo \<Rightarrow> u32" where
  "dbe_trxinfo_getstate ti = ti_state ti AND DBE_TRXST_BITMASK"

text \<open>
  The macros that set a state are written \<^verbatim>\<open>((ti->ti_state = S) | (ti->ti_state & ~BITMASK))\<close>: the
  parenthesis closes before the flags are merged in, and every caller drops the value, so that the
  state word becomes \<open>S\<close> and nothing else.
\<close>

definition dbe_trxinfo_setbegin :: "trxinfo \<Rightarrow> trxinfo" where
  "dbe_trxinfo_setbegin ti = ti\<lparr>ti_state := DBE_TRXST_BEGIN\<rparr>"

definition dbe_trxinfo_setvalidate :: "trxinfo \<Rightarrow> trxinfo" where
  "dbe_trxinfo_setvalidate ti = ti\<lparr>ti_state := DBE_TRXST_VALIDATE\<rparr>"

definition dbe_trxinfo_setcommitted :: "trxinfo \<Rightarrow> trxinfo" where
  "dbe_trxinfo_setcommitted ti = ti\<lparr>ti_state := DBE_TRXST_COMMIT\<rparr>"

definition dbe_trxinfo_setaborted :: "trxinfo \<Rightarrow> trxinfo" where
  "dbe_trxinfo_setaborted ti = ti\<lparr>ti_state := DBE_TRXST_ABORT\<rparr>"

definition dbe_trxinfo_setsaved :: "trxinfo \<Rightarrow> trxinfo" where
  "dbe_trxinfo_setsaved ti = ti\<lparr>ti_state := DBE_TRXST_SAVED\<rparr>"

definition dbe_trxinfo_settobeaborted :: "trxinfo \<Rightarrow> trxinfo" where
  "dbe_trxinfo_settobeaborted ti = ti\<lparr>ti_state := DBE_TRXST_TOBEABORTED\<rparr>"

definition dbe_trxinfo_isbegin :: "trxinfo \<Rightarrow> bool" where
  "dbe_trxinfo_isbegin ti \<longleftrightarrow> ti_state ti AND DBE_TRXST_BITMASK = DBE_TRXST_BEGIN"

definition dbe_trxinfo_isvalidate :: "trxinfo \<Rightarrow> bool" where
  "dbe_trxinfo_isvalidate ti \<longleftrightarrow> ti_state ti AND DBE_TRXST_BITMASK = DBE_TRXST_VALIDATE"

definition dbe_trxinfo_iscommitted :: "trxinfo \<Rightarrow> bool" where
  "dbe_trxinfo_iscommitted ti \<longleftrightarrow> ti_state ti AND DBE_TRXST_BITMASK = DBE_TRXST_COMMIT"

definition dbe_trxinfo_isaborted :: "trxinfo \<Rightarrow> bool" where
  "dbe_trxinfo_isaborted ti \<longleftrightarrow> ti_state ti AND DBE_TRXST_BITMASK = DBE_TRXST_ABORT"

definition dbe_trxinfo_isended :: "trxinfo \<Rightarrow> bool" where
  "dbe_trxinfo_isended ti \<longleftrightarrow> ti_state ti AND DBE_TRXST_BITMASK = DBE_TRXST_COMMIT \<or>
    ti_state ti AND DBE_TRXST_BITMASK = DBE_TRXST_ABORT"

definition dbe_trxinfo_issaved :: "trxinfo \<Rightarrow> bool" where
  "dbe_trxinfo_issaved ti \<longleftrightarrow> ti_state ti AND DBE_TRXST_BITMASK = DBE_TRXST_SAVED"

definition dbe_trxinfo_istobeaborted :: "trxinfo \<Rightarrow> bool" where
  "dbe_trxinfo_istobeaborted ti \<longleftrightarrow> ti_state ti AND DBE_TRXST_BITMASK = DBE_TRXST_TOBEABORTED"

definition dbe_trxinfo_setunknown :: "trxinfo \<Rightarrow> trxinfo" where
  "dbe_trxinfo_setunknown ti = ti\<lparr>ti_state := DBE_TRXST_HSB_UNKNOWN OR ti_state ti\<rparr>"

definition dbe_trxinfo_isunknown :: "trxinfo \<Rightarrow> bool" where
  "dbe_trxinfo_isunknown ti \<longleftrightarrow> ti_state ti AND DBE_TRXST_HSB_UNKNOWN \<noteq> 0"

definition dbe_trxinfo_setopenddop :: "trxinfo \<Rightarrow> trxinfo" where
  "dbe_trxinfo_setopenddop ti = ti\<lparr>ti_state := DBE_TRXST_HSB_OPENDDOP OR ti_state ti\<rparr>"

definition dbe_trxinfo_isopenddop :: "trxinfo \<Rightarrow> bool" where
  "dbe_trxinfo_isopenddop ti \<longleftrightarrow> ti_state ti AND DBE_TRXST_HSB_OPENDDOP \<noteq> 0"

definition dbe_trxinfo_setcanremovereadlevel :: "trxinfo \<Rightarrow> trxinfo" where
  "dbe_trxinfo_setcanremovereadlevel ti =
    ti\<lparr>ti_state := ti_state ti OR DBE_TRXST_CANREMOVEREADLEVEL\<rparr>"

definition dbe_trxinfo_clearcanremovereadlevel :: "trxinfo \<Rightarrow> trxinfo" where
  "dbe_trxinfo_clearcanremovereadlevel ti =
    ti\<lparr>ti_state := ti_state ti AND NOT DBE_TRXST_CANREMOVEREADLEVEL\<rparr>"

definition dbe_trxinfo_canremovereadlevel :: "trxinfo \<Rightarrow> bool" where
  "dbe_trxinfo_canremovereadlevel ti \<longleftrightarrow> ti_state ti AND DBE_TRXST_CANREMOVEREADLEVEL \<noteq> 0"

definition dbe_trxinfo_setmtabletrx :: "trxinfo \<Rightarrow> trxinfo" where
  "dbe_trxinfo_setmtabletrx ti = ti\<lparr>ti_state := ti_state ti OR DBE_TRXST_MTABLETRX\<rparr>"

definition dbe_trxinfo_ismtabletrx :: "trxinfo \<Rightarrow> bool" where
  "dbe_trxinfo_ismtabletrx ti \<longleftrightarrow> ti_state ti AND DBE_TRXST_MTABLETRX \<noteq> 0"

lemmas trxinfo_set_defs [ti_simps] = dbe_trxinfo_setbegin_def dbe_trxinfo_setvalidate_def
  dbe_trxinfo_setcommitted_def dbe_trxinfo_setaborted_def dbe_trxinfo_setsaved_def
  dbe_trxinfo_settobeaborted_def dbe_trxinfo_setunknown_def dbe_trxinfo_setopenddop_def
  dbe_trxinfo_setcanremovereadlevel_def dbe_trxinfo_clearcanremovereadlevel_def
  dbe_trxinfo_setmtabletrx_def

lemmas trxinfo_is_defs [ti_simps] = dbe_trxinfo_getstate_def dbe_trxinfo_isbegin_def
  dbe_trxinfo_isvalidate_def dbe_trxinfo_iscommitted_def dbe_trxinfo_isaborted_def
  dbe_trxinfo_isended_def dbe_trxinfo_issaved_def dbe_trxinfo_istobeaborted_def
  dbe_trxinfo_isunknown_def dbe_trxinfo_isopenddop_def dbe_trxinfo_canremovereadlevel_def
  dbe_trxinfo_ismtabletrx_def

section \<open>References\<close>

text \<open>
  \<open>dbe_trxinfo_donebuf_nomutex\<close> and the last \<open>dbe_trxinfo_done_nomutex\<close> end the object: a
  structure without references is freed memory.
\<close>

definition dbe_trxinfo_donebuf_nomutex :: "trxinfo \<Rightarrow> trxinfo" where
  "dbe_trxinfo_donebuf_nomutex ti = (case ti_hsbcd ti of None \<Rightarrow> ti | Some _ \<Rightarrow> ti\<lparr>ti_hsbcd := None\<rparr>)"

definition dbe_trxinfo_done_nomutex :: "trxinfo \<Rightarrow> trxinfo" where
  "dbe_trxinfo_done_nomutex ti =
    (let ti1 = ti\<lparr>ti_nlinks := ti_nlinks ti - 1\<rparr>
     in if ti_nlinks ti1 = 0 then dbe_trxinfo_donebuf_nomutex ti1 else ti1)"

definition dbe_trxinfo_link :: "trxinfo \<Rightarrow> trxinfo" where
  "dbe_trxinfo_link ti = ti\<lparr>ti_nlinks := ti_nlinks ti + 1\<rparr>"

definition dbe_trxinfo_removehsbcd :: "trxinfo \<Rightarrow> trxinfo" where
  "dbe_trxinfo_removehsbcd ti = (case ti_hsbcd ti of None \<Rightarrow> ti | Some _ \<Rightarrow> ti\<lparr>ti_hsbcd := None\<rparr>)"

text \<open>What a reader of the transaction buffer sees of a transaction.\<close>

definition trx_view :: "trxinfo \<Rightarrow> u32 \<times> dbe_trxnum_t \<times> dbe_trxid_t" where
  "trx_view ti = (ti_state ti, ti_committrxnum ti, ti_usertrxid ti)"

lemma view_done [simp]: "trx_view (dbe_trxinfo_done_nomutex ti) = trx_view ti"
  by (simp add: trx_view_def dbe_trxinfo_done_nomutex_def dbe_trxinfo_donebuf_nomutex_def Let_def
      split: option.split)

lemma view_link [simp]: "trx_view (dbe_trxinfo_link ti) = trx_view ti"
  by (simp add: trx_view_def dbe_trxinfo_link_def)

lemma nlinks_done [simp]: "ti_nlinks (dbe_trxinfo_done_nomutex ti) = ti_nlinks ti - 1"
  by (simp add: dbe_trxinfo_done_nomutex_def dbe_trxinfo_donebuf_nomutex_def Let_def
      split: option.split)

lemma nlinks_link [simp]: "ti_nlinks (dbe_trxinfo_link ti) = ti_nlinks ti + 1"
  by (simp add: dbe_trxinfo_link_def)

lemma nlinks_set [simp]:
  "ti_nlinks (dbe_trxinfo_setbegin ti) = ti_nlinks ti"
  "ti_nlinks (dbe_trxinfo_setvalidate ti) = ti_nlinks ti"
  "ti_nlinks (dbe_trxinfo_setcommitted ti) = ti_nlinks ti"
  "ti_nlinks (dbe_trxinfo_setaborted ti) = ti_nlinks ti"
  "ti_nlinks (dbe_trxinfo_setsaved ti) = ti_nlinks ti"
  "ti_nlinks (dbe_trxinfo_settobeaborted ti) = ti_nlinks ti"
  "ti_nlinks (dbe_trxinfo_setunknown ti) = ti_nlinks ti"
  "ti_nlinks (dbe_trxinfo_setmtabletrx ti) = ti_nlinks ti"
  by (simp_all add: trxinfo_set_defs)

end
