(* ===== verification/Trx_Buf.thy ===== *)
theory Trx_Buf
  imports Trx_Info
begin

text \<open>
  The transaction buffer, \<^verbatim>\<open>dbe/dbe7trxb.c\<close>: from statement transaction ids to the state of their
  transaction, which is what decides whether a reader sees a row. A hash table chains the
  statements by id, and each of the 16 slots of \<open>tb_tbslottable\<close> keeps a list of the statements that
  hash to it.

  Statements and transaction infos are heap objects reached through identifiers, because several
  statements share the info of their transaction. A chain through \<open>ts_bufnext\<close> or \<open>ts_listnext\<close> is
  the list of the identifiers on it. \<open>ts_self\<close> says that \<open>ts_bufnext\<close> points to the statement
  itself, the mark of \<open>dbe_trxbuf_marktoberemoved\<close>. Where a null pointer is followed or
  \<^verbatim>\<open>ss_error\<close> is reached the operation has no result (\<open>None\<close>). An operation runs under the mutex of
  its slot, so each is one step.
\<close>

section \<open>State\<close>

type_synonym tiid = nat
type_synonym tsid = nat

record trxstmt =
  ts_stmttrxid :: dbe_trxid_t
  ts_trxinfo :: tiid
  ts_self :: bool

record trxbuf =
  tb_ti :: "tiid \<Rightarrow> trxinfo"
  tb_ts :: "tsid \<Rightarrow> trxstmt"
  tb_nextti :: tiid
  tb_nextts :: tsid
  tb_table :: "nat \<Rightarrow> tsid list"
  tb_tablesize :: nat
  tb_aborttrxid :: dbe_trxid_t
  tb_visiblealltrxid :: dbe_trxid_t
  tb_usevisiblealltrxid :: bool
  tb_nbufslots :: nat
  tb_list :: "nat \<Rightarrow> tsid list"
  tb_listlen :: "nat \<Rightarrow> int"
  tb_disabletrxid :: dbe_trxid_t
  tb_bsea_disabletrxid :: dbe_trxid_t

text \<open>The transactions open when a merge started; \<open>oti_len\<close> is the length of the table.\<close>

record opentrxinfo =
  oti_tablemin :: dbe_trxid_t
  oti_tablemax :: dbe_trxid_t
  oti_table :: "dbe_trxid_t list"

definition SS_MAXALLOCSIZE :: nat where
  "SS_MAXALLOCSIZE = 512 * 1024 * 1024"

definition TB_NBUFSLOTS :: nat where
  "TB_NBUFSLOTS = 16"

subsection \<open>Access through identifiers\<close>

definition upd_ti :: "tiid \<Rightarrow> (trxinfo \<Rightarrow> trxinfo) \<Rightarrow> trxbuf \<Rightarrow> trxbuf" where
  "upd_ti i f tb = tb\<lparr>tb_ti := (tb_ti tb)(i := f (tb_ti tb i))\<rparr>"

definition upd_ts :: "tsid \<Rightarrow> (trxstmt \<Rightarrow> trxstmt) \<Rightarrow> trxbuf \<Rightarrow> trxbuf" where
  "upd_ts s f tb = tb\<lparr>tb_ts := (tb_ts tb)(s := f (tb_ts tb s))\<rparr>"

abbreviation stmt_id :: "trxbuf \<Rightarrow> tsid \<Rightarrow> dbe_trxid_t" where
  "stmt_id tb s \<equiv> ts_stmttrxid (tb_ts tb s)"

abbreviation stmt_info :: "trxbuf \<Rightarrow> tsid \<Rightarrow> tiid" where
  "stmt_info tb s \<equiv> ts_trxinfo (tb_ts tb s)"

abbreviation info :: "trxbuf \<Rightarrow> tsid \<Rightarrow> trxinfo" where
  "info tb s \<equiv> tb_ti tb (stmt_info tb s)"

text \<open>\<open>trxbuf_getbufslot\<close>: the hash of an id, sign-extended to \<^verbatim>\<open>ulong\<close>, and its slot.\<close>

definition tb_index :: "trxbuf \<Rightarrow> dbe_trxid_t \<Rightarrow> nat" where
  "tb_index tb trxid = unat (scast trxid :: u64) mod tb_tablesize tb"

definition tb_slot :: "trxbuf \<Rightarrow> dbe_trxid_t \<Rightarrow> nat" where
  "tb_slot tb trxid = tb_index tb trxid mod tb_nbufslots tb"

text \<open>The walk down a hash chain, which every operation on one statement starts with.\<close>

definition tb_find :: "trxbuf \<Rightarrow> dbe_trxid_t \<Rightarrow> tsid option" where
  "tb_find tb trxid = find (\<lambda>s. stmt_id tb s = trxid) (tb_table tb (tb_index tb trxid))"

section \<open>Creation\<close>

definition dbe_trxbuf_init :: "nat \<Rightarrow> dbe_trxid_t \<Rightarrow> bool \<Rightarrow> trxbuf option" where
  "dbe_trxbuf_init tablesize aborttrxid usevisiblealltrxid =
    (if 8 * tablesize \<le> SS_MAXALLOCSIZE
     then Some \<lparr>tb_ti = (\<lambda>_. dbe_trxinfo_initbuf),
       tb_ts = (\<lambda>_. \<lparr>ts_stmttrxid = DBE_TRXID_NULL, ts_trxinfo = 0, ts_self = False\<rparr>),
       tb_nextti = 0, tb_nextts = 0, tb_table = (\<lambda>_. []), tb_tablesize = tablesize,
       tb_aborttrxid = aborttrxid, tb_visiblealltrxid = aborttrxid,
       tb_usevisiblealltrxid = usevisiblealltrxid, tb_nbufslots = TB_NBUFSLOTS,
       tb_list = (\<lambda>_. []), tb_listlen = (\<lambda>_. 0), tb_disabletrxid = DBE_TRXID_NULL,
       tb_bsea_disabletrxid = DBE_TRXID_NULL\<rparr>
     else None)"

definition dbe_trxinfo_init :: "trxbuf \<Rightarrow> trxbuf \<times> tiid" where
  "dbe_trxinfo_init tb =
    (tb\<lparr>tb_ti := (tb_ti tb)(tb_nextti tb := dbe_trxinfo_initbuf), tb_nextti := tb_nextti tb + 1\<rparr>,
     tb_nextti tb)"

section \<open>Levels\<close>

definition dbe_trxbuf_getaborttrxid :: "trxbuf \<Rightarrow> dbe_trxid_t" where
  "dbe_trxbuf_getaborttrxid tb =
    (if tb_usevisiblealltrxid tb then tb_visiblealltrxid tb else tb_aborttrxid tb)"

definition dbe_trxbuf_setusevisiblealltrxid :: "trxbuf \<Rightarrow> dbe_trxid_t \<Rightarrow> bool \<Rightarrow> trxbuf" where
  "dbe_trxbuf_setusevisiblealltrxid tb aborttrxid usevisiblealltrxid =
    tb\<lparr>tb_usevisiblealltrxid := usevisiblealltrxid, tb_visiblealltrxid := aborttrxid,
      tb_aborttrxid := aborttrxid\<rparr>"

definition dbe_trxbuf_setaborttrxid :: "trxbuf \<Rightarrow> dbe_trxid_t \<Rightarrow> trxbuf" where
  "dbe_trxbuf_setaborttrxid tb aborttrxid =
    (if \<not> tb_usevisiblealltrxid tb \<and> dbe_trxid_cmp aborttrxid (tb_aborttrxid tb) > 0
     then tb\<lparr>tb_aborttrxid := aborttrxid\<rparr> else tb)"

section \<open>Adding and removing a statement\<close>

definition dbe_trxbuf_addstmt :: "trxbuf \<Rightarrow> dbe_trxid_t \<Rightarrow> tiid \<Rightarrow> trxbuf" where
  "dbe_trxbuf_addstmt tb stmttrxid ti =
    (let tb1 = upd_ti ti dbe_trxinfo_link tb;
         ts = tb_nextts tb1;
         tb2 = tb1\<lparr>tb_nextts := ts + 1, tb_ts := (tb_ts tb1)
           (ts := \<lparr>ts_stmttrxid = stmttrxid, ts_trxinfo = ti, ts_self = False\<rparr>)\<rparr>;
         index = tb_index tb2 stmttrxid;
         slot = tb_slot tb2 stmttrxid
     in tb2\<lparr>tb_list := (tb_list tb2)(slot := ts # tb_list tb2 slot),
          tb_listlen := (tb_listlen tb2)(slot := tb_listlen tb2 slot + 1),
          tb_table := (tb_table tb2)(index := ts # tb_table tb2 index)\<rparr>)"

definition dbe_trxbuf_add :: "trxbuf \<Rightarrow> tiid \<Rightarrow> trxbuf" where
  "dbe_trxbuf_add tb ti = dbe_trxbuf_addstmt tb (ti_usertrxid (tb_ti tb ti)) ti"

text \<open>The first element of a chain with a property is unlinked; \<open>None\<close> when the chain ends first.\<close>

fun chain_remove :: "('a \<Rightarrow> bool) \<Rightarrow> 'a list \<Rightarrow> 'a list option" where
  "chain_remove P [] = None"
| "chain_remove P (x # xs) = (if P x then Some xs else map_option (Cons x) (chain_remove P xs))"

definition trxbuf_tableremove :: "trxbuf \<Rightarrow> dbe_trxid_t \<Rightarrow> trxbuf option" where
  "trxbuf_tableremove tb stmttrxid =
    (let index = tb_index tb stmttrxid
     in map_option (\<lambda>chain. tb\<lparr>tb_table := (tb_table tb)(index := chain)\<rparr>)
          (chain_remove (\<lambda>s. stmt_id tb s = stmttrxid) (tb_table tb index)))"

definition trxbuf_listdeletefun :: "trxbuf \<Rightarrow> tsid \<Rightarrow> trxbuf" where
  "trxbuf_listdeletefun tb ts = upd_ti (stmt_info tb ts) dbe_trxinfo_done_nomutex tb"

text \<open>
  The walks that delete statements share their body: unlink from the list of the slot, remove from
  the hash table (unless the statement is off it, \<open>tab\<close>), release the info, count.
\<close>

definition stmt_delete :: "bool \<Rightarrow> nat \<Rightarrow> trxbuf \<Rightarrow> tsid \<Rightarrow> trxbuf option" where
  "stmt_delete tab i tb ts =
    (let tb1 = tb\<lparr>tb_list := (tb_list tb)(i := remove1 ts (tb_list tb i))\<rparr>
     in case (if tab then trxbuf_tableremove tb1 (stmt_id tb1 ts) else Some tb1) of
          None \<Rightarrow> None
        | Some tb2 \<Rightarrow>
            (let tb3 = trxbuf_listdeletefun tb2 ts
             in Some (tb3\<lparr>tb_listlen := (tb_listlen tb3)(i := tb_listlen tb3 i - 1)\<rparr>)))"

text \<open>The walk down the list of a slot, with the number of deleted statements.\<close>

fun delete_loop ::
  "(trxbuf \<Rightarrow> tsid \<Rightarrow> bool) \<Rightarrow> bool \<Rightarrow> nat \<Rightarrow> trxbuf \<Rightarrow> tsid list \<Rightarrow> (trxbuf \<times> int) option" where
  "delete_loop P tab i tb [] = Some (tb, 0)"
| "delete_loop P tab i tb (ts # tss) =
    (if P tb ts
     then (case stmt_delete tab i tb ts of
         None \<Rightarrow> None
       | Some tb1 \<Rightarrow> map_option (\<lambda>(tb2, n). (tb2, n + 1)) (delete_loop P tab i tb1 tss))
     else delete_loop P tab i tb tss)"

text \<open>A loop over slots, with the sum of their counts.\<close>

fun slots_loop ::
  "(nat \<Rightarrow> trxbuf \<Rightarrow> (trxbuf \<times> int) option) \<Rightarrow> trxbuf \<Rightarrow> nat list \<Rightarrow> (trxbuf \<times> int) option" where
  "slots_loop f tb [] = Some (tb, 0)"
| "slots_loop f tb (i # is) =
    (case f i tb of
       None \<Rightarrow> None
     | Some (tb1, n) \<Rightarrow> map_option (\<lambda>(tb2, m). (tb2, n + m)) (slots_loop f tb1 is))"

section \<open>Statement abort\<close>

definition dbe_trxbuf_abortstmt :: "trxbuf \<Rightarrow> dbe_trxnum_t \<Rightarrow> dbe_trxid_t \<Rightarrow> trxbuf option" where
  "dbe_trxbuf_abortstmt tb aborttrxnum stmttrxid =
    (if tb_table tb (tb_index tb stmttrxid) = [] then None
     else case tb_find tb stmttrxid of
       None \<Rightarrow> Some tb
     | Some ts \<Rightarrow>
         (case dbe_trxinfo_init tb of (tb1, ti) \<Rightarrow>
           (let tb2 = upd_ti ti (\<lambda>x. dbe_trxinfo_setaborted
                  (x\<lparr>ti_usertrxid := stmttrxid, ti_committrxnum := aborttrxnum\<rparr>)) tb1;
                old = stmt_info tb2 ts;
                tb3 = (if dbe_trxinfo_istobeaborted (tb_ti tb2 old)
                  then upd_ti old dbe_trxinfo_setbegin tb2 else tb2);
                tb4 = upd_ti old dbe_trxinfo_done_nomutex tb3
            in Some (upd_ts ts (\<lambda>s. s\<lparr>ts_trxinfo := ti\<rparr>) tb4))))"

section \<open>Masking a statement during recovery\<close>

definition dbe_trxbuf_disablestmt :: "trxbuf \<Rightarrow> dbe_trxid_t \<Rightarrow> (trxbuf \<times> tsid) option" where
  "dbe_trxbuf_disablestmt tb stmttrxid =
    (case tb_find tb stmttrxid of
       None \<Rightarrow> None
     | Some ts \<Rightarrow>
         Some ((upd_ts ts (\<lambda>s. s\<lparr>ts_stmttrxid := DBE_TRXID_NULL\<rparr>) tb)
             \<lparr>tb_disabletrxid := stmttrxid, tb_bsea_disabletrxid := stmttrxid\<rparr>, ts))"

definition dbe_trxbuf_enablestmt :: "trxbuf \<Rightarrow> tsid \<Rightarrow> dbe_trxid_t \<Rightarrow> trxbuf" where
  "dbe_trxbuf_enablestmt tb ctx stmttrxid =
    (upd_ts ctx (\<lambda>s. s\<lparr>ts_stmttrxid := stmttrxid\<rparr>) tb)
      \<lparr>tb_disabletrxid := DBE_TRXID_NULL, tb_bsea_disabletrxid := DBE_TRXID_NULL\<rparr>"

section \<open>Cleaning after a merge\<close>

definition dbe_trxbuf_isopentrx :: "opentrxinfo option \<Rightarrow> dbe_trxid_t \<Rightarrow> bool" where
  "dbe_trxbuf_isopentrx oti trxid =
    (case oti of
       None \<Rightarrow> False
     | Some o1 \<Rightarrow>
         if oti_table o1 = [] then False
         else if dbe_trxid_cmp trxid (oti_tablemin o1) < 0 \<or> dbe_trxid_cmp trxid (oti_tablemax o1) > 0
         then False
         else trxid \<in> set (oti_table o1))"

definition clean_removes ::
  "dbe_trxnum_t \<Rightarrow> dbe_trxid_t \<Rightarrow> opentrxinfo option \<Rightarrow> trxbuf \<Rightarrow> tsid \<Rightarrow> bool" where
  "clean_removes cleantrxnum mergestart_aborttrxid oti tb ts =
    (let trxinfo = info tb ts in
     if dbe_trxinfo_isended trxinfo then
       if dbe_trxinfo_ismtabletrx trxinfo then True
       else if dbe_trxinfo_iscommitted trxinfo
         \<and> dbe_trxnum_cmp (ti_committrxnum trxinfo) cleantrxnum \<le> 0
       then \<not> dbe_trxbuf_isopentrx oti (ti_usertrxid trxinfo)
       else if tb_usevisiblealltrxid tb then
         if mergestart_aborttrxid = DBE_TRXID_NULL then False
         else if dbe_trxinfo_isaborted trxinfo
           \<and> dbe_trxid_cmp (stmt_id tb ts) mergestart_aborttrxid \<le> 0
         then \<not> (dbe_trxnum_cmp (ti_committrxnum trxinfo) mergestart_aborttrxid > 0
           \<or> dbe_trxbuf_isopentrx oti (ti_usertrxid trxinfo))
         else False
       else dbe_trxinfo_isaborted trxinfo
         \<and> dbe_trxid_cmp (stmt_id tb ts) mergestart_aborttrxid \<le> 0
     else False)"

definition clean_slot ::
  "dbe_trxnum_t \<Rightarrow> dbe_trxid_t \<Rightarrow> opentrxinfo option \<Rightarrow> nat \<Rightarrow> trxbuf \<Rightarrow> (trxbuf \<times> int) option" where
  "clean_slot cleantrxnum mergestart_aborttrxid oti i tb =
    map_option (\<lambda>(tb1, n).
      (if tb_usevisiblealltrxid tb1 \<and> dbe_trxid_cmp cleantrxnum (tb_visiblealltrxid tb1) > 0
       then tb1\<lparr>tb_visiblealltrxid := cleantrxnum\<rparr> else tb1, n))
      (delete_loop (clean_removes cleantrxnum mergestart_aborttrxid oti) True i tb (tb_list tb i))"

definition dbe_trxbuf_clean ::
  "trxbuf \<Rightarrow> dbe_trxnum_t \<Rightarrow> dbe_trxid_t \<Rightarrow> opentrxinfo option \<Rightarrow> (trxbuf \<times> int) option" where
  "dbe_trxbuf_clean tb cleantrxnum mergestart_aborttrxid oti =
    slots_loop (clean_slot cleantrxnum mergestart_aborttrxid oti) tb [0..<tb_nbufslots tb]"

section \<open>The state of a transaction\<close>

text \<open>State, commit number and user transaction id; \<open>None\<close> is \<^verbatim>\<open>ss_rc_error\<close> on an unknown state.\<close>

definition gettrxstate_found :: "trxinfo \<Rightarrow> (u32 \<times> dbe_trxnum_t \<times> dbe_trxid_t) option" where
  "gettrxstate_found ti =
    (let trxresult = dbe_trxinfo_getstate ti in
     if trxresult = DBE_TRXST_BEGIN \<or> trxresult = DBE_TRXST_TOBEABORTED
     then Some (trxresult, DBE_TRXNUM_NULL, ti_usertrxid ti)
     else if trxresult = DBE_TRXST_VALIDATE
     then Some (trxresult, ti_committrxnum ti, ti_usertrxid ti)
     else if trxresult = DBE_TRXST_COMMIT \<or> trxresult = DBE_TRXST_ABORT
     then Some (trxresult, ti_committrxnum ti, ti_usertrxid ti)
     else None)"

definition gettrxstate_notfound :: "trxbuf \<Rightarrow> dbe_trxid_t \<Rightarrow> u32 \<times> dbe_trxnum_t \<times> dbe_trxid_t" where
  "gettrxstate_notfound tb keytrxid =
    (if tb_disabletrxid tb = keytrxid
     then (DBE_TRXST_BEGIN, DBE_TRXNUM_NULL, keytrxid)
     else if \<not> tb_usevisiblealltrxid tb \<and> dbe_trxid_cmp keytrxid (tb_aborttrxid tb) \<le> 0
     then (DBE_TRXST_ABORT, DBE_TRXNUM_NULL, DBE_TRXID_NULL)
     else if tb_usevisiblealltrxid tb \<and> dbe_trxid_cmp keytrxid (tb_visiblealltrxid tb) \<le> 0
     then (DBE_TRXST_COMMIT, tb_visiblealltrxid tb, tb_visiblealltrxid tb)
     else (DBE_TRXST_BEGIN, DBE_TRXNUM_NULL, keytrxid))"

definition dbe_trxbuf_gettrxstate ::
  "trxbuf \<Rightarrow> dbe_trxid_t \<Rightarrow> (u32 \<times> dbe_trxnum_t \<times> dbe_trxid_t) option" where
  "dbe_trxbuf_gettrxstate tb keytrxid =
    (case tb_find tb keytrxid of
       Some ts \<Rightarrow> gettrxstate_found (info tb ts)
     | None \<Rightarrow> Some (gettrxstate_notfound tb keytrxid))"

definition dbe_trxbuf_gettrxinfo :: "trxbuf \<Rightarrow> dbe_trxid_t \<Rightarrow> tiid option" where
  "dbe_trxbuf_gettrxinfo tb trxid = map_option (stmt_info tb) (tb_find tb trxid)"

definition dbe_trxbuf_gettrxinfo_linked :: "trxbuf \<Rightarrow> dbe_trxid_t \<Rightarrow> trxbuf \<times> tiid option" where
  "dbe_trxbuf_gettrxinfo_linked tb trxid =
    (case tb_find tb trxid of
       None \<Rightarrow> (tb, None)
     | Some ts \<Rightarrow> (upd_ti (stmt_info tb ts) dbe_trxinfo_link tb, Some (stmt_info tb ts)))"

definition dbe_trxbuf_getcount :: "trxbuf \<Rightarrow> u64" where
  "dbe_trxbuf_getcount tb =
    foldl (\<lambda>count i. count + word_of_int (tb_listlen tb i)) 0 (rev [0..<tb_nbufslots tb])"

section \<open>Ending what was left open\<close>

definition dbe_trxbuf_cleanuncommitted :: "trxbuf \<Rightarrow> dbe_trxnum_t \<Rightarrow> trxbuf option" where
  "dbe_trxbuf_cleanuncommitted tb aborttrxnum =
    map_option fst (slots_loop (\<lambda>i tb.
      if tb_usevisiblealltrxid tb
      then Some (foldl (\<lambda>tb ts. if \<not> dbe_trxinfo_iscommitted (info tb ts)
          then upd_ti (stmt_info tb ts)
            (\<lambda>ti. (dbe_trxinfo_setaborted ti)\<lparr>ti_committrxnum := aborttrxnum\<rparr>) tb
          else tb) tb (tb_list tb i), 0)
      else delete_loop (\<lambda>tb ts. \<not> dbe_trxinfo_iscommitted (info tb ts)) True i tb (tb_list tb i))
      tb [0..<tb_nbufslots tb])"

definition dbe_trxbuf_marktoberemoved :: "trxbuf \<Rightarrow> dbe_trxid_t \<Rightarrow> trxbuf" where
  "dbe_trxbuf_marktoberemoved tb trxid =
    (case tb_find tb trxid of
       None \<Rightarrow> tb
     | Some ts \<Rightarrow>
         (case trxbuf_tableremove tb trxid of
            None \<Rightarrow> tb
          | Some tb1 \<Rightarrow> upd_ts ts (\<lambda>s. s\<lparr>ts_self := True\<rparr>) tb1))"

definition dbe_trxbuf_removemarked :: "trxbuf \<Rightarrow> trxbuf option" where
  "dbe_trxbuf_removemarked tb =
    map_option fst (slots_loop (\<lambda>i tb. delete_loop (\<lambda>tb ts. ts_self (tb_ts tb ts)) False i tb (tb_list tb i))
      tb [0..<tb_nbufslots tb])"

section \<open>Aborting everything\<close>

text \<open>
  \<open>dbe_trxbuf_abortall\<close> writes an abort record for each transaction it aborts and updates the
  cardinalities of its client data. These calls go to the log and to the server and are returned
  as events; a record carries the flags and the transaction id.
\<close>

definition DBE_LOGI_COMMIT_DDRELOAD :: u32 where "DBE_LOGI_COMMIT_DDRELOAD = push_bit 3 1"
definition DBE_LOGI_COMMIT_LOCAL :: u32 where "DBE_LOGI_COMMIT_LOCAL = push_bit 4 1"

datatype abort_event = puttrxmark u32 dbe_trxid_t | cardintrans nat

text \<open>The inner loop that skips ended statements to see whether the aborted one is the last.\<close>

fun abortall_skip :: "trxbuf \<Rightarrow> bool \<Rightarrow> tsid list \<Rightarrow> bool \<times> tsid list" where
  "abortall_skip tb reload [] = (reload, [])"
| "abortall_skip tb reload (ts # tss) =
    (let reload1 = (reload \<or> dbe_trxinfo_isunknown (info tb ts) \<or> dbe_trxinfo_isopenddop (info tb ts))
     in if \<not> dbe_trxinfo_isaborted (info tb ts) \<and> \<not> dbe_trxinfo_iscommitted (info tb ts)
        then (reload1, ts # tss) else abortall_skip tb reload1 tss)"

lemma abortall_skip_length: "length (snd (abortall_skip tb reload tss)) \<le> length tss"
  by (induction tb reload tss rule: abortall_skip.induct) (auto simp: Let_def le_SucI)

function abortall_loop ::
  "dbe_trxnum_t \<Rightarrow> bool \<Rightarrow> trxbuf \<Rightarrow> bool \<Rightarrow> int \<Rightarrow> abort_event list \<Rightarrow> tsid list \<Rightarrow>
    trxbuf \<times> bool \<times> int \<times> abort_event list" where
  "abortall_loop num log tb reload n evs [] = (tb, reload, n, evs)"
| "abortall_loop num log tb reload n evs (ts # tss) =
    (if \<not> dbe_trxinfo_isaborted (info tb ts) \<and> \<not> dbe_trxinfo_iscommitted (info tb ts) then
       let reload1 = (reload \<or> dbe_trxinfo_isunknown (info tb ts) \<or> dbe_trxinfo_isopenddop (info tb ts));
           tb1 = upd_ti (stmt_info tb ts) (\<lambda>ti. (dbe_trxinfo_setaborted ti)\<lparr>ti_committrxnum := num\<rparr>) tb;
           skip = abortall_skip tb1 reload1 tss;
           flags = (if snd skip = [] then DBE_LOGI_COMMIT_LOCAL OR DBE_LOGI_COMMIT_DDRELOAD
             else DBE_LOGI_COMMIT_LOCAL);
           evs1 = evs @ (if log then [puttrxmark flags (ti_usertrxid (info tb1 ts))] else []) @
             (case ti_hsbcd (info tb1 ts) of None \<Rightarrow> [] | Some cd \<Rightarrow> [cardintrans cd])
       in abortall_loop num log tb1 (fst skip) (n + 1) evs1 (snd skip)
     else abortall_loop num log tb reload n evs tss)"
  by pat_completeness auto

termination abortall_loop
  by (relation "measure (\<lambda>(num, log, tb, reload, n, evs, tss). length tss)")
    (auto simp: Let_def less_Suc_eq_le abortall_skip_length)

text \<open>The buffer, whether the HSB buffer is to be reloaded, the number of aborts and the events.\<close>

definition dbe_trxbuf_abortall ::
  "trxbuf \<Rightarrow> dbe_trxnum_t \<Rightarrow> bool \<Rightarrow> trxbuf \<times> bool \<times> int \<times> abort_event list" where
  "dbe_trxbuf_abortall tb aborttrxnum log =
    foldl (\<lambda>(tb, reload, n, evs) i. abortall_loop aborttrxnum log tb reload n evs (tb_list tb i))
      (tb, False, 0, []) [0..<tb_nbufslots tb]"

end
