(* ===== verification/Trx_Buf_Inv.thy ===== *)
theory Trx_Buf_Inv
  imports Trx_Buf
begin

text \<open>
  The invariant of the transaction buffer and the abstract map it represents. A hash chain is
  determined by the list of its slot; an id occurs once; and the reference count of an info is the
  number of its statements plus the references \<open>own\<close> that other components hold.
\<close>

section \<open>The invariant\<close>

definition refs :: "trxbuf \<Rightarrow> tiid \<Rightarrow> nat" where
  "refs tb i = (\<Sum>j<tb_nbufslots tb. length (filter (\<lambda>s. stmt_info tb s = i) (tb_list tb j)))"

text \<open>Statements in the lists; the chain of an index as the slot's list determines it.\<close>

definition in_lists :: "trxbuf \<Rightarrow> tsid \<Rightarrow> bool" where
  "in_lists tb s \<longleftrightarrow> (\<exists>j<tb_nbufslots tb. s \<in> set (tb_list tb j))"

definition chain_of :: "trxbuf \<Rightarrow> nat \<Rightarrow> tsid list" where
  "chain_of tb j = filter (\<lambda>s. \<not> ts_self (tb_ts tb s) \<and> tb_index tb (stmt_id tb s) = j)
    (tb_list tb (j mod tb_nbufslots tb))"

definition lists_ok :: "trxbuf \<Rightarrow> bool" where
  "lists_ok tb \<longleftrightarrow> (\<forall>j<tb_nbufslots tb. distinct (tb_list tb j) \<and>
      tb_listlen tb j = int (length (tb_list tb j)) \<and>
      (\<forall>s\<in>set (tb_list tb j). s < tb_nextts tb \<and> tb_slot tb (stmt_id tb s) = j))"

definition table_ok :: "trxbuf \<Rightarrow> bool" where
  "table_ok tb \<longleftrightarrow> (\<forall>j<tb_tablesize tb. tb_table tb j = chain_of tb j)"

definition ids_ok :: "trxbuf \<Rightarrow> bool" where
  "ids_ok tb \<longleftrightarrow> (\<forall>s s'. in_lists tb s \<and> in_lists tb s' \<and> \<not> ts_self (tb_ts tb s) \<and>
      \<not> ts_self (tb_ts tb s') \<and> stmt_id tb s = stmt_id tb s' \<longrightarrow> s = s')"

definition links_ok :: "trxbuf \<Rightarrow> (tiid \<Rightarrow> nat) \<Rightarrow> bool" where
  "links_ok tb own \<longleftrightarrow>
    (\<forall>i<tb_nextti tb. ti_nlinks (tb_ti tb i) = int (own i + refs tb i)) \<and>
    (\<forall>s. in_lists tb s \<longrightarrow> stmt_info tb s < tb_nextti tb)"

definition tb_inv :: "trxbuf \<Rightarrow> (tiid \<Rightarrow> nat) \<Rightarrow> bool" where
  "tb_inv tb own \<longleftrightarrow> 0 < tb_tablesize tb \<and> 0 < tb_nbufslots tb \<and>
    lists_ok tb \<and> table_ok tb \<and> ids_ok tb \<and> links_ok tb own"

definition unmarked :: "trxbuf \<Rightarrow> bool" where
  "unmarked tb \<longleftrightarrow> (\<forall>s. in_lists tb s \<longrightarrow> \<not> ts_self (tb_ts tb s))"

section \<open>Lists and chains\<close>

lemma chain_remove_filter:
  assumes "distinct xs" "x \<in> set xs" "Q x" "P x" "\<And>y. y \<in> set xs \<Longrightarrow> Q y \<Longrightarrow> P y \<Longrightarrow> y = x"
  shows "chain_remove P (filter Q xs) = Some (filter Q (remove1 x xs))"
  using assms
proof (induction xs)
  case (Cons a xs)
  show ?case
  proof (cases "a = x")
    case False
    then have "\<not> (Q a \<and> P a)"
      using Cons.prems(5) [of a] by auto
    moreover have "chain_remove P (filter Q xs) = Some (filter Q (remove1 x xs))"
      using Cons.prems False by (intro Cons.IH) simp_all
    ultimately show ?thesis
      using False by simp
  qed (use Cons.prems(1,3,4) in simp)
next
  case Nil
  show ?case
    using Nil.prems(2) by simp
qed

lemma chain_remove_None: "(\<And>y. y \<in> set xs \<Longrightarrow> \<not> P y) \<Longrightarrow> chain_remove P xs = None"
  by (induction xs) auto

lemma filter_remove1_other: "\<not> Q x \<Longrightarrow> filter Q (remove1 x xs) = filter Q xs"
  by (induction xs) auto

lemma length_filter_remove1:
  "x \<in> set xs \<Longrightarrow>
    length (filter Q (remove1 x xs)) = length (filter Q xs) - (if Q x then 1 else 0)"
proof (induction xs)
  case (Cons a xs)
  have "x \<in> set xs \<Longrightarrow> Q x \<Longrightarrow> 0 < length (filter Q xs)"
    by (auto simp: filter_empty_conv)
  then show ?case
    using Cons by (auto simp: Suc_diff_le)
qed simp

lemma find_unique:
  assumes "x \<in> set xs" "P x" "\<And>y. y \<in> set xs \<Longrightarrow> P y \<Longrightarrow> y = x"
  shows "find P xs = Some x"
proof (cases "find P xs")
  case None
  then show ?thesis
    using assms(1,2) by (auto simp: find_None_iff)
next
  case (Some y)
  then have "y \<in> set xs" "P y"
    by (auto simp: find_Some_iff)
  then show ?thesis
    using assms(3) Some by auto
qed

lemma opt_eqI: "(\<And>s. x = Some s \<longleftrightarrow> y = Some s) \<Longrightarrow> x = y"
  by (cases x; cases y) auto

text \<open>The references of an info when the list of one slot changes.\<close>

lemma refs_change:
  fixes cnt cnt' :: "nat \<Rightarrow> nat"
  assumes "i < n" "\<And>j. j < n \<Longrightarrow> j \<noteq> i \<Longrightarrow> cnt' j = cnt j" "cnt' i + a = cnt i + b"
  shows "(\<Sum>j<n. cnt' j) + a = (\<Sum>j<n. cnt j) + b"
proof -
  have "(\<Sum>j\<in>{..<n} - {i}. cnt' j) = (\<Sum>j\<in>{..<n} - {i}. cnt j)"
    using assms(2) by (intro sum.cong) auto
  then show ?thesis
    using sum.remove [of "{..<n}" i cnt] sum.remove [of "{..<n}" i cnt'] assms(1,3) by simp
qed

section \<open>Frames\<close>

lemma ti_update_same [simp]:
  "tb_ts (upd_ti i f tb) = tb_ts tb" "tb_table (upd_ti i f tb) = tb_table tb"
  "tb_list (upd_ti i f tb) = tb_list tb" "tb_listlen (upd_ti i f tb) = tb_listlen tb"
  "tb_nbufslots (upd_ti i f tb) = tb_nbufslots tb" "tb_tablesize (upd_ti i f tb) = tb_tablesize tb"
  "tb_nextts (upd_ti i f tb) = tb_nextts tb" "tb_nextti (upd_ti i f tb) = tb_nextti tb"
  "tb_usevisiblealltrxid (upd_ti i f tb) = tb_usevisiblealltrxid tb"
  "tb_visiblealltrxid (upd_ti i f tb) = tb_visiblealltrxid tb"
  "tb_aborttrxid (upd_ti i f tb) = tb_aborttrxid tb"
  "tb_disabletrxid (upd_ti i f tb) = tb_disabletrxid tb"
  "in_lists (upd_ti i f tb) = in_lists tb" "tb_index (upd_ti i f tb) = tb_index tb"
  by (simp_all add: upd_ti_def in_lists_def [abs_def] tb_index_def [abs_def])

lemma tb_ti_upd_ti: "tb_ti (upd_ti i f tb) = (tb_ti tb)(i := f (tb_ti tb i))"
  by (simp add: upd_ti_def)

text \<open>The parts of the state each conjunct depends on.\<close>

definition same_shape :: "trxbuf \<Rightarrow> trxbuf \<Rightarrow> bool" where
  "same_shape tb tb' \<longleftrightarrow> tb_ts tb' = tb_ts tb \<and> tb_table tb' = tb_table tb \<and>
    tb_list tb' = tb_list tb \<and> tb_listlen tb' = tb_listlen tb \<and>
    tb_nbufslots tb' = tb_nbufslots tb \<and> tb_tablesize tb' = tb_tablesize tb \<and>
    tb_nextts tb' = tb_nextts tb \<and> tb_nextti tb' = tb_nextti tb"

lemma same_shape_upd_ti [simp]: "same_shape tb (upd_ti i f tb)"
  by (simp add: same_shape_def)

lemma same_shape_refl [simp]: "same_shape tb tb"
  by (simp add: same_shape_def)

lemma same_shape_trans: "same_shape a b \<Longrightarrow> same_shape b c \<Longrightarrow> same_shape a c"
  by (simp add: same_shape_def)

lemma same_shape_parts:
  assumes "same_shape tb tb'"
  shows "tb_index tb' = tb_index tb" "tb_slot tb' = tb_slot tb" "refs tb' = refs tb"
    "in_lists tb' = in_lists tb" "lists_ok tb' = lists_ok tb" "table_ok tb' = table_ok tb"
    "ids_ok tb' = ids_ok tb" "tb_find tb' = tb_find tb" "unmarked tb' = unmarked tb"
proof -
  show index: "tb_index tb' = tb_index tb" and slot: "tb_slot tb' = tb_slot tb"
    using assms by (auto simp: same_shape_def tb_index_def tb_slot_def fun_eq_iff)
  show lists: "in_lists tb' = in_lists tb" and "refs tb' = refs tb"
    using assms by (auto simp: same_shape_def in_lists_def refs_def fun_eq_iff)
  show "lists_ok tb' = lists_ok tb" "table_ok tb' = table_ok tb"
    using assms index slot by (auto simp: same_shape_def lists_ok_def table_ok_def chain_of_def)
  show "ids_ok tb' = ids_ok tb" "unmarked tb' = unmarked tb"
    using assms lists by (auto simp: same_shape_def ids_ok_def unmarked_def)
  show "tb_find tb' = tb_find tb"
    using assms index by (auto simp: same_shape_def tb_find_def fun_eq_iff)
qed

text \<open>Changes of infos that keep the counts keep the invariant.\<close>

lemma tb_inv_infos:
  assumes "tb_inv tb own" "same_shape tb tb'"
    "\<And>i. i < tb_nextti tb \<Longrightarrow> ti_nlinks (tb_ti tb' i) = int (own' i + refs tb i)"
  shows "tb_inv tb' own'"
  using assms same_shape_parts [OF assms(2)]
  by (simp add: tb_inv_def links_ok_def) (simp add: same_shape_def)

lemma tb_inv_upd_ti:
  assumes "tb_inv tb own" "\<And>ti. ti_nlinks (f ti) = ti_nlinks ti"
  shows "tb_inv (upd_ti i f tb) own"
  using assms(1)
  by (rule tb_inv_infos) (use assms in \<open>auto simp: tb_ti_upd_ti tb_inv_def links_ok_def\<close>)

section \<open>Finding a statement\<close>

lemma tb_slot_less: "tb_inv tb own \<Longrightarrow> tb_slot tb k < tb_nbufslots tb"
  by (simp add: tb_inv_def tb_slot_def)

lemma tb_index_less: "tb_inv tb own \<Longrightarrow> tb_index tb k < tb_tablesize tb"
  by (simp add: tb_inv_def tb_index_def)

lemma tb_table_chain: "tb_inv tb own \<Longrightarrow> tb_table tb (tb_index tb k) = chain_of tb (tb_index tb k)"
  by (simp add: tb_inv_def table_ok_def tb_index_def)

text \<open>The statement found is the unmarked one in the lists with the id.\<close>

lemma tb_find_iff:
  assumes inv: "tb_inv tb own"
  shows "tb_find tb k = Some s \<longleftrightarrow> in_lists tb s \<and> \<not> ts_self (tb_ts tb s) \<and> stmt_id tb s = k"
    (is "_ \<longleftrightarrow> ?R s")
proof
  assume "tb_find tb k = Some s"
  then have "s \<in> set (chain_of tb (tb_index tb k))" "stmt_id tb s = k"
    by (auto simp: tb_find_def tb_table_chain [OF inv] find_Some_iff)
  then show "?R s"
    using tb_slot_less [OF inv, of k] by (auto simp: chain_of_def in_lists_def tb_slot_def)
next
  assume R: "?R s"
  then obtain j where j: "j < tb_nbufslots tb" "s \<in> set (tb_list tb j)"
    by (auto simp: in_lists_def)
  then have "j = tb_slot tb k"
    using inv R by (auto simp: tb_inv_def lists_ok_def)
  then have "s \<in> set (chain_of tb (tb_index tb k))"
    using R j by (auto simp: chain_of_def tb_slot_def)
  moreover have "y = s" if "y \<in> set (chain_of tb (tb_index tb k))" "stmt_id tb y = k" for y
    using that R inv tb_slot_less [OF inv, of k]
    by (auto simp: chain_of_def tb_inv_def ids_ok_def in_lists_def tb_slot_def)
  ultimately show "tb_find tb k = Some s"
    unfolding tb_find_def tb_table_chain [OF inv] using R by (blast intro: find_unique)
qed

lemma tb_find_None:
  assumes inv: "tb_inv tb own"
  shows "tb_find tb k = None \<longleftrightarrow>
    (\<forall>s. in_lists tb s \<and> \<not> ts_self (tb_ts tb s) \<longrightarrow> stmt_id tb s \<noteq> k)"
  using tb_find_iff [OF inv, of k] by (cases "tb_find tb k") auto

section \<open>New infos and statements\<close>

definition tb_view :: "trxbuf \<Rightarrow> dbe_trxid_t \<Rightarrow> (u32 \<times> dbe_trxnum_t \<times> dbe_trxid_t) option" where
  "tb_view tb k = map_option (\<lambda>s. trx_view (info tb s)) (tb_find tb k)"

lemma refs_fresh:
  assumes "tb_inv tb own" "tb_nextti tb \<le> i"
  shows "refs tb i = 0"
proof -
  have "filter (\<lambda>s. stmt_info tb s = i) (tb_list tb j) = []" if "j < tb_nbufslots tb" for j
    using assms that by (fastforce simp: tb_inv_def links_ok_def in_lists_def filter_empty_conv)
  then show ?thesis
    by (simp add: refs_def)
qed

lemma trxinfo_init_inv:
  assumes inv: "tb_inv tb own" and eq: "dbe_trxinfo_init tb = (tb', i)"
  shows "i = tb_nextti tb" "tb_inv tb' (own(i := 1))" "tb_find tb' = tb_find tb"
    "tb_view tb' = tb_view tb" "tb_ti tb' = (tb_ti tb)(i := dbe_trxinfo_initbuf)"
    "tb_ts tb' = tb_ts tb" "tb_nextti tb' = tb_nextti tb + 1" "tb_table tb' = tb_table tb"
    "tb_index tb' = tb_index tb" "in_lists tb' = in_lists tb" "refs tb' = refs tb"
    "tb_list tb' = tb_list tb" "tb_nbufslots tb' = tb_nbufslots tb" "unmarked tb' = unmarked tb"
proof -
  have i: "i = tb_nextti tb"
    and tb': "tb' = tb\<lparr>tb_ti := (tb_ti tb)(i := dbe_trxinfo_initbuf), tb_nextti := i + 1\<rparr>"
    using eq by (auto simp: dbe_trxinfo_init_def)
  have parts: "tb_index tb' = tb_index tb" "tb_slot tb' = tb_slot tb" "refs tb' = refs tb"
    "in_lists tb' = in_lists tb" "tb_find tb' = tb_find tb"
    by (auto simp: tb' tb_index_def tb_slot_def refs_def in_lists_def tb_find_def fun_eq_iff)
  show "i = tb_nextti tb" "tb_find tb' = tb_find tb" "tb_index tb' = tb_index tb"
    "in_lists tb' = in_lists tb" "refs tb' = refs tb"
    by (fact i parts)+
  show "tb_ti tb' = (tb_ti tb)(i := dbe_trxinfo_initbuf)" "tb_ts tb' = tb_ts tb"
    "tb_nextti tb' = tb_nextti tb + 1" "tb_table tb' = tb_table tb" "tb_list tb' = tb_list tb"
    "tb_nbufslots tb' = tb_nbufslots tb" "unmarked tb' = unmarked tb"
    using parts by (simp_all add: tb' i unmarked_def)
  have "lists_ok tb' \<and> table_ok tb' \<and> ids_ok tb'"
    using inv parts by (simp add: tb_inv_def lists_ok_def table_ok_def ids_ok_def chain_of_def tb')
  moreover have "ti_nlinks (tb_ti tb' k) = int ((own(i := 1)) k + refs tb k)" if "k < i + 1" for k
    using that inv refs_fresh [OF inv, of i]
    by (auto simp: tb' tb_inv_def links_ok_def i dbe_trxinfo_initbuf_def)
  moreover have "stmt_info tb s < i + 1" if "in_lists tb s" for s
    using that inv by (fastforce simp: tb_inv_def links_ok_def i)
  moreover have "tb_nextti tb' = i + 1" "tb_ts tb' = tb_ts tb" "tb_tablesize tb' = tb_tablesize tb"
    "tb_nbufslots tb' = tb_nbufslots tb"
    by (simp_all add: tb')
  ultimately show "tb_inv tb' (own(i := 1))"
    using inv unfolding tb_inv_def links_ok_def parts by simp
  have "stmt_info tb s \<noteq> i" if "tb_find tb k = Some s" for s k
    using that inv tb_find_iff [OF inv, of k s] by (auto simp: tb_inv_def links_ok_def i)
  then show "tb_view tb' = tb_view tb"
    using parts by (auto simp: tb_view_def tb' fun_eq_iff split: option.split
        intro!: map_option_cong)
qed

lemma addstmt_fields:
  fixes tb k i
  defines "tb' \<equiv> dbe_trxbuf_addstmt tb k i"
  shows "tb_ti tb' = (tb_ti tb)(i := dbe_trxinfo_link (tb_ti tb i))"
    "tb_ts tb' = (tb_ts tb)(tb_nextts tb := \<lparr>ts_stmttrxid = k, ts_trxinfo = i, ts_self = False\<rparr>)"
    "tb_list tb' = (tb_list tb)(tb_slot tb k := tb_nextts tb # tb_list tb (tb_slot tb k))"
    "tb_listlen tb' = (tb_listlen tb)(tb_slot tb k := tb_listlen tb (tb_slot tb k) + 1)"
    "tb_table tb' = (tb_table tb)(tb_index tb k := tb_nextts tb # tb_table tb (tb_index tb k))"
    "tb_nextts tb' = tb_nextts tb + 1" "tb_nextti tb' = tb_nextti tb"
    "tb_tablesize tb' = tb_tablesize tb" "tb_nbufslots tb' = tb_nbufslots tb"
    "tb_index tb' = tb_index tb" "tb_slot tb' = tb_slot tb"
    "tb_usevisiblealltrxid tb' = tb_usevisiblealltrxid tb"
    "tb_visiblealltrxid tb' = tb_visiblealltrxid tb" "tb_aborttrxid tb' = tb_aborttrxid tb"
    "tb_disabletrxid tb' = tb_disabletrxid tb"
  by (simp_all add: tb'_def dbe_trxbuf_addstmt_def Let_def tb_ti_upd_ti tb_index_def [abs_def]
      tb_slot_def [abs_def])

lemma addstmt_inv:
  assumes inv: "tb_inv tb own" and i: "i < tb_nextti tb" and k: "tb_find tb k = None"
  shows "tb_inv (dbe_trxbuf_addstmt tb k i) own"
    "tb_find (dbe_trxbuf_addstmt tb k i) = (tb_find tb)(k \<mapsto> tb_nextts tb)"
    "unmarked tb \<Longrightarrow> unmarked (dbe_trxbuf_addstmt tb k i)"
proof -
  let ?tb' = "dbe_trxbuf_addstmt tb k i" and ?n = "tb_nextts tb"
  note f = addstmt_fields [of tb k i]
  have slot: "tb_slot tb k < tb_nbufslots tb" and index: "tb_index tb k < tb_tablesize tb"
    using tb_slot_less [OF inv] tb_index_less [OF inv] by auto
  have lists: "lists_ok tb"
    using inv by (simp add: tb_inv_def)
  have fresh: "?n \<notin> set (tb_list tb j)" if "j < tb_nbufslots tb" for j
    using lists that by (auto simp: lists_ok_def)
  have in_lists: "in_lists ?tb' s \<longleftrightarrow> s = ?n \<or> in_lists tb s" for s
    using slot by (auto simp: in_lists_def f split: if_splits) (metis+)?
  have not_n: "in_lists tb s \<Longrightarrow> s \<noteq> ?n" for s
    using fresh by (auto simp: in_lists_def)
  have lists': "lists_ok ?tb'"
    using lists fresh slot unfolding lists_ok_def f
    by (auto simp: less_Suc_eq)
  have "chain_of ?tb' j = (if j = tb_index tb k then ?n # chain_of tb j else chain_of tb j)"
    if "j < tb_tablesize tb" for j
  proof -
    let ?Q = "\<lambda>s. \<not> ts_self (tb_ts tb s) \<and> tb_index tb (stmt_id tb s) = j"
    let ?Q' = "\<lambda>s. \<not> ts_self (tb_ts ?tb' s) \<and> tb_index tb (stmt_id ?tb' s) = j"
    have old: "filter ?Q' (tb_list tb (j mod tb_nbufslots tb)) = chain_of tb j"
      using fresh [of "j mod tb_nbufslots tb"] slot unfolding chain_of_def
      by (intro filter_cong) (auto simp: f)
    have new: "?Q' ?n \<longleftrightarrow> j = tb_index tb k"
      by (auto simp: f)
    have "chain_of ?tb' j =
        filter ?Q' (((tb_list tb)(tb_slot tb k := ?n # tb_list tb (tb_slot tb k))) (j mod tb_nbufslots tb))"
      by (simp add: chain_of_def f(3,9,10))
    also have "\<dots> = (if j = tb_index tb k then ?n # filter ?Q' (tb_list tb (j mod tb_nbufslots tb))
        else filter ?Q' (tb_list tb (j mod tb_nbufslots tb)))"
      using new by (cases "j mod tb_nbufslots tb = tb_slot tb k") (auto simp: tb_slot_def)
    finally show ?thesis
      unfolding old .
  qed
  then have table': "table_ok ?tb'"
    using inv index by (auto simp: table_ok_def f tb_inv_def)
  have ids': "ids_ok ?tb'"
    using inv k not_n unfolding ids_ok_def in_lists tb_find_None [OF inv]
    by (auto simp: f tb_inv_def ids_ok_def)
  have "refs ?tb' l + 0 = refs tb l + (if l = i then 1 else 0)" for l
    unfolding refs_def f(9)
  proof (rule refs_change [OF slot])
    fix j
    assume "j < tb_nbufslots tb" "j \<noteq> tb_slot tb k"
    then show "length (filter (\<lambda>s. stmt_info ?tb' s = l) (tb_list ?tb' j)) =
        length (filter (\<lambda>s. stmt_info tb s = l) (tb_list tb j))"
      using fresh [of j] by (auto simp: f intro!: arg_cong [where f = length] filter_cong)
  next
    have "filter (\<lambda>s. stmt_info ?tb' s = l) (tb_list tb (tb_slot tb k)) =
        filter (\<lambda>s. stmt_info tb s = l) (tb_list tb (tb_slot tb k))"
      using fresh [OF slot] by (intro filter_cong) (auto simp: f)
    moreover have "stmt_info ?tb' ?n = i"
      by (simp add: f(2))
    ultimately show "length (filter (\<lambda>s. stmt_info ?tb' s = l) (tb_list ?tb' (tb_slot tb k))) + 0 =
        length (filter (\<lambda>s. stmt_info tb s = l) (tb_list tb (tb_slot tb k))) +
        (if l = i then 1 else 0)"
      by (cases "l = i") (simp_all add: f(3))
  qed
  then have "links_ok ?tb' own"
    using inv i not_n in_lists unfolding tb_inv_def links_ok_def
    by (auto simp: f)
  with lists' table' ids' show inv': "tb_inv ?tb' own"
    using inv by (simp add: tb_inv_def f)
  show "tb_find ?tb' = (tb_find tb)(k \<mapsto> ?n)"
  proof
    fix l
    show "tb_find ?tb' l = ((tb_find tb)(k \<mapsto> ?n)) l"
    proof (cases "l = k")
      case True
      have "tb_find ?tb' k = Some ?n"
        unfolding tb_find_iff [OF inv'] by (simp add: in_lists f)
      with True show ?thesis
        by simp
    next
      case False
      have "tb_find ?tb' l = Some s \<longleftrightarrow> tb_find tb l = Some s" for s
        using False not_n unfolding tb_find_iff [OF inv'] tb_find_iff [OF inv] in_lists
        by (auto simp: f)
      then show ?thesis
        using False by (simp add: option.map_comp) (metis not_None_eq)
    qed
  qed
  show "unmarked ?tb'" if "unmarked tb"
    using that not_n by (auto simp: unmarked_def in_lists f)
qed

section \<open>Deleting a statement\<close>

definition same_levels :: "trxbuf \<Rightarrow> trxbuf \<Rightarrow> bool" where
  "same_levels tb tb' \<longleftrightarrow> tb_usevisiblealltrxid tb' = tb_usevisiblealltrxid tb \<and>
    tb_visiblealltrxid tb' = tb_visiblealltrxid tb \<and> tb_aborttrxid tb' = tb_aborttrxid tb \<and>
    tb_disabletrxid tb' = tb_disabletrxid tb"

text \<open>The result of deleting \<open>ts\<close> from slot \<open>i\<close>.\<close>

definition deleted :: "nat \<Rightarrow> tsid \<Rightarrow> trxbuf \<Rightarrow> trxbuf \<Rightarrow> bool" where
  "deleted i ts tb tb' \<longleftrightarrow>
    tb_list tb' = (tb_list tb)(i := remove1 ts (tb_list tb i)) \<and>
    tb_listlen tb' = (tb_listlen tb)(i := tb_listlen tb i - 1) \<and>
    tb_ti tb' = (tb_ti tb)(stmt_info tb ts := dbe_trxinfo_done_nomutex (info tb ts)) \<and>
    tb_ts tb' = tb_ts tb \<and> tb_nextti tb' = tb_nextti tb \<and> tb_nextts tb' = tb_nextts tb \<and>
    tb_tablesize tb' = tb_tablesize tb \<and> tb_nbufslots tb' = tb_nbufslots tb \<and> same_levels tb tb'"

lemma slot_of_listed:
  "tb_inv tb own \<Longrightarrow> i < tb_nbufslots tb \<Longrightarrow> ts \<in> set (tb_list tb i) \<Longrightarrow> tb_slot tb (stmt_id tb ts) = i"
  by (auto simp: tb_inv_def lists_ok_def)

lemma stmt_delete_result:
  assumes inv: "tb_inv tb own" and i: "i < tb_nbufslots tb" and ts: "ts \<in> set (tb_list tb i)"
  obtains tb' where "stmt_delete (\<not> ts_self (tb_ts tb ts)) i tb ts = Some tb'" "deleted i ts tb tb'"
    "table_ok tb'"
proof -
  let ?id = "stmt_id tb ts" and ?xs = "tb_list tb i"
  let ?j = "tb_index tb ?id"
  let ?Q = "\<lambda>j s. \<not> ts_self (tb_ts tb s) \<and> tb_index tb (stmt_id tb s) = j"
  let ?tb1 = "tb\<lparr>tb_list := (tb_list tb)(i := remove1 ts ?xs)\<rparr>"
  have slot: "?j mod tb_nbufslots tb = i"
    using slot_of_listed [OF inv i ts] by (simp add: tb_slot_def)
  have other: "filter (?Q j) (remove1 ts ?xs) = filter (?Q j) ?xs" if "\<not> ?Q j ts" for j
    using that by (rule filter_remove1_other)
  have table: "tb_table tb j = chain_of tb j" if "j < tb_tablesize tb" for j
    using inv that by (simp add: tb_inv_def table_ok_def)
  have index1: "tb_index ?tb1 = tb_index tb"
    by (simp add: tb_index_def [abs_def])
  show ?thesis
  proof (cases "ts_self (tb_ts tb ts)")
    case True
    let ?tb' = "(upd_ti (stmt_info tb ts) dbe_trxinfo_done_nomutex ?tb1)
      \<lparr>tb_listlen := (tb_listlen tb)(i := tb_listlen tb i - 1)\<rparr>"
    show ?thesis
    proof (rule that [of ?tb'])
      show "stmt_delete (\<not> ts_self (tb_ts tb ts)) i tb ts = Some ?tb'"
        using True by (simp add: stmt_delete_def trxbuf_listdeletefun_def Let_def)
      show "deleted i ts tb ?tb'"
        by (simp add: deleted_def same_levels_def tb_ti_upd_ti)
      show "table_ok ?tb'"
        using table other True
        by (auto simp: table_ok_def chain_of_def tb_index_def)
    qed
  next
    case False
    let ?new = "filter (?Q ?j) (remove1 ts ?xs)"
    have "chain_remove (\<lambda>s. stmt_id tb s = ?id) (filter (?Q ?j) ?xs) = Some ?new"
    proof (rule chain_remove_filter [OF _ ts])
      show "distinct ?xs"
        using inv i by (simp add: tb_inv_def lists_ok_def)
      fix s
      assume "s \<in> set ?xs" "?Q ?j s" "stmt_id tb s = ?id"
      then show "s = ts"
        using inv i ts False unfolding tb_inv_def ids_ok_def in_lists_def by blast
    qed (use False in auto)
    moreover have "tb_table tb ?j = filter (?Q ?j) ?xs"
      using table [OF tb_index_less [OF inv]] slot by (simp add: chain_of_def)
    ultimately have "trxbuf_tableremove ?tb1 ?id = Some (?tb1\<lparr>tb_table := (tb_table tb)(?j := ?new)\<rparr>)"
      by (simp add: trxbuf_tableremove_def Let_def index1)
    then have res: "stmt_delete (\<not> ts_self (tb_ts tb ts)) i tb ts =
      Some ((upd_ti (stmt_info tb ts) dbe_trxinfo_done_nomutex (?tb1\<lparr>tb_table := (tb_table tb)(?j := ?new)\<rparr>))
        \<lparr>tb_listlen := (tb_listlen tb)(i := tb_listlen tb i - 1)\<rparr>)" (is "_ = Some ?tb'")
      using False by (simp add: stmt_delete_def trxbuf_listdeletefun_def Let_def)
    show ?thesis
    proof (rule that [OF res])
      show "deleted i ts tb ?tb'"
        by (simp add: deleted_def same_levels_def tb_ti_upd_ti)
      have "tb_index ?tb' = tb_index tb"
        by (simp add: tb_index_def [abs_def])
      then show "table_ok ?tb'"
        using table other slot by (auto simp: table_ok_def chain_of_def)
    qed
  qed
qed

lemma deleted_parts:
  assumes inv: "tb_inv tb own" and i: "i < tb_nbufslots tb" and ts: "ts \<in> set (tb_list tb i)"
    and del: "deleted i ts tb tb'"
  shows "tb_index tb' = tb_index tb" "tb_slot tb' = tb_slot tb"
    "in_lists tb' s \<longleftrightarrow> in_lists tb s \<and> s \<noteq> ts" "lists_ok tb'"
    "refs tb' l + (if stmt_info tb ts = l then 1 else 0) = refs tb l"
proof -
  note d = del [unfolded deleted_def]
  show index: "tb_index tb' = tb_index tb" and slot: "tb_slot tb' = tb_slot tb"
    using d by (auto simp: tb_index_def tb_slot_def fun_eq_iff)
  have dist: "distinct (tb_list tb j)" if "j < tb_nbufslots tb" for j
    using inv that by (simp add: tb_inv_def lists_ok_def)
  have only: "j = i" if "j < tb_nbufslots tb" "ts \<in> set (tb_list tb j)" for j
    using slot_of_listed [OF inv that] slot_of_listed [OF inv i ts] by simp
  have "set (tb_list tb' j) = set (tb_list tb j) - {ts}" if "j < tb_nbufslots tb" for j
    using d dist [OF i] only [OF that] by (auto simp: set_remove1_eq)
  moreover have "tb_nbufslots tb' = tb_nbufslots tb"
    using d by simp
  ultimately show "in_lists tb' s \<longleftrightarrow> in_lists tb s \<and> s \<noteq> ts"
    unfolding in_lists_def by auto
  have "int (length (tb_list tb i) - Suc 0) = int (length (tb_list tb i)) - 1"
    using ts by (cases "tb_list tb i") auto
  then show "lists_ok tb'"
    using inv d slot dist i ts unfolding lists_ok_def tb_inv_def
    by (auto simp: length_remove1 set_remove1_eq)
  have "refs tb' l + (if stmt_info tb ts = l then 1 else 0) = refs tb l + 0"
    unfolding refs_def using d
  proof (elim conjE, simp only:, intro refs_change [OF i])
    show "length (filter (\<lambda>s. stmt_info tb s = l) (((tb_list tb)(i := remove1 ts (tb_list tb i))) i)) +
        (if stmt_info tb ts = l then 1 else 0) =
      length (filter (\<lambda>s. stmt_info tb s = l) (tb_list tb i)) + 0"
      using length_filter_remove1 [OF ts, of "\<lambda>s. stmt_info tb s = l"] ts
        filter_empty_conv [of "\<lambda>s. stmt_info tb s = l" "tb_list tb i"]
      by (cases "filter (\<lambda>s. stmt_info tb s = l) (tb_list tb i)") auto
  qed simp
  then show "refs tb' l + (if stmt_info tb ts = l then 1 else 0) = refs tb l"
    by simp
qed

lemma deleted_inv:
  assumes inv: "tb_inv tb own" and i: "i < tb_nbufslots tb" and ts: "ts \<in> set (tb_list tb i)"
    and del: "deleted i ts tb tb'" and table: "table_ok tb'"
  shows "tb_inv tb' own"
proof -
  note d = del [unfolded deleted_def]
  note p = deleted_parts [OF inv i ts del]
  have "ids_ok tb'"
    using inv d unfolding tb_inv_def ids_ok_def p(3) by metis
  moreover have "links_ok tb' own"
    unfolding links_ok_def
  proof (intro conjI allI impI)
    fix l
    assume "l < tb_nextti tb'"
    then have "ti_nlinks (tb_ti tb l) = int (own l + refs tb l)"
      using inv d by (simp add: tb_inv_def links_ok_def)
    then show "ti_nlinks (tb_ti tb' l) = int (own l + refs tb' l)"
      using d p(5) [of l] by (auto split: if_splits)
  next
    fix s
    assume "in_lists tb' s"
    then show "stmt_info tb' s < tb_nextti tb'"
      using inv d by (simp add: p(3) tb_inv_def links_ok_def)
  qed
  ultimately show ?thesis
    using inv d table p(4) by (simp add: tb_inv_def)
qed

lemma deleted_view:
  assumes inv: "tb_inv tb own" and i: "i < tb_nbufslots tb" and ts: "ts \<in> set (tb_list tb i)"
    and del: "deleted i ts tb tb'" and table: "table_ok tb'"
  shows "tb_find tb' = (if ts_self (tb_ts tb ts) then tb_find tb else (tb_find tb)(stmt_id tb ts := None))"
    "trx_view (info tb' s) = trx_view (info tb s)"
proof -
  note d = del [unfolded deleted_def]
  note inv' = deleted_inv [OF inv i ts del table]
  note p = deleted_parts [OF inv i ts del]
  have "in_lists tb ts"
    using i ts by (auto simp: in_lists_def)
  then have find: "tb_find tb' k = Some s \<longleftrightarrow> tb_find tb k = Some s \<and> (ts_self (tb_ts tb ts) \<or> k \<noteq> stmt_id tb ts)"
    for k s
  proof -
    have "s = ts" if "in_lists tb s" "\<not> ts_self (tb_ts tb s)" "\<not> ts_self (tb_ts tb ts)"
      "stmt_id tb s = stmt_id tb ts"
      using inv that \<open>in_lists tb ts\<close> unfolding tb_inv_def ids_ok_def by blast
    moreover have "tb_ts tb' = tb_ts tb"
      using d by simp
    ultimately show ?thesis
      unfolding tb_find_iff [OF inv'] tb_find_iff [OF inv] p(3) by auto
  qed
  show "tb_find tb' = (if ts_self (tb_ts tb ts) then tb_find tb else (tb_find tb)(stmt_id tb ts := None))"
  proof
    fix k
    show "tb_find tb' k =
        (if ts_self (tb_ts tb ts) then tb_find tb else (tb_find tb)(stmt_id tb ts := None)) k"
      by (rule opt_eqI) (simp add: find)
  qed
  show "trx_view (info tb' s) = trx_view (info tb s)"
    using d by simp
qed

section \<open>The deleting walks\<close>

text \<open>The state with only the statements \<open>K\<close> left in the lists, and everything a reader sees kept.\<close>

definition filtered :: "(tsid \<Rightarrow> bool) \<Rightarrow> trxbuf \<Rightarrow> trxbuf \<Rightarrow> bool" where
  "filtered K tb tb' \<longleftrightarrow> (\<forall>j<tb_nbufslots tb. tb_list tb' j = filter K (tb_list tb j)) \<and>
    tb_ts tb' = tb_ts tb \<and> tb_nbufslots tb' = tb_nbufslots tb \<and> tb_tablesize tb' = tb_tablesize tb \<and>
    (\<forall>s. trx_view (info tb' s) = trx_view (info tb s)) \<and>
    tb_usevisiblealltrxid tb' = tb_usevisiblealltrxid tb \<and> tb_aborttrxid tb' = tb_aborttrxid tb \<and>
    tb_disabletrxid tb' = tb_disabletrxid tb"

text \<open>A condition on a statement that only depends on what the walks keep.\<close>

definition view_pred :: "(trxbuf \<Rightarrow> tsid \<Rightarrow> bool) \<Rightarrow> bool" where
  "view_pred P \<longleftrightarrow> (\<forall>K tb tb' s. filtered K tb tb' \<longrightarrow> P tb' s = P tb s)"

lemma view_predD: "view_pred P \<Longrightarrow> filtered K tb tb' \<Longrightarrow> P tb' = P tb"
  unfolding view_pred_def by blast

lemma filtered_refl: "filtered (\<lambda>_. True) tb tb"
  by (simp add: filtered_def)

lemma filtered_trans: "filtered K tb tb1 \<Longrightarrow> filtered L tb1 tb2 \<Longrightarrow> filtered (\<lambda>s. K s \<and> L s) tb tb2"
  by (auto simp: filtered_def conj_commute)

lemma filtered_cong:
  assumes "filtered K tb tb'" "\<And>j s. j < tb_nbufslots tb \<Longrightarrow> s \<in> set (tb_list tb j) \<Longrightarrow> K s = L s"
  shows "filtered L tb tb'"
  using assms by (auto simp: filtered_def intro!: filter_cong)

lemma filtered_in_lists: "filtered K tb tb' \<Longrightarrow> in_lists tb' s \<longleftrightarrow> in_lists tb s \<and> K s"
  by (auto simp: filtered_def in_lists_def)

lemma filtered_find:
  assumes "tb_inv tb own" "tb_inv tb' own'" "filtered K tb tb'"
  shows "tb_find tb' k = (case tb_find tb k of None \<Rightarrow> None | Some s \<Rightarrow> if K s then Some s else None)"
proof (rule opt_eqI)
  fix s
  have "tb_find tb' k = Some s \<longleftrightarrow> tb_find tb k = Some s \<and> K s"
    using assms(3) unfolding tb_find_iff [OF assms(2)] tb_find_iff [OF assms(1)]
      filtered_in_lists [OF assms(3)] by (auto simp: filtered_def)
  then show "tb_find tb' k = Some s \<longleftrightarrow>
      (case tb_find tb k of None \<Rightarrow> None | Some s \<Rightarrow> if K s then Some s else None) = Some s"
    by (cases "tb_find tb k") auto
qed

lemma filtered_view:
  assumes "tb_inv tb own" "tb_inv tb' own'" "filtered K tb tb'"
  shows "tb_view tb' k = (case tb_find tb k of None \<Rightarrow> None | Some s \<Rightarrow> if K s then tb_view tb k else None)"
  using filtered_find [OF assms, of k] assms(3)
  by (auto simp: tb_view_def filtered_def split: option.splits)

lemma deleted_filtered:
  assumes "tb_inv tb own" "i < tb_nbufslots tb" "ts \<in> set (tb_list tb i)" "deleted i ts tb tb'"
  shows "filtered (\<lambda>s. s \<noteq> ts) tb tb'"
proof -
  note d = assms(4) [unfolded deleted_def same_levels_def]
  have "tb_list tb' j = filter (\<lambda>s. s \<noteq> ts) (tb_list tb j)" if j: "j < tb_nbufslots tb" for j
  proof (cases "j = i")
    case True
    moreover have "distinct (tb_list tb i)"
      using assms(1,2) by (simp add: tb_inv_def lists_ok_def)
    ultimately show ?thesis
      using d by (simp add: distinct_remove1_removeAll removeAll_filter_not_eq neq_commute)
  next
    case False
    then have "ts \<notin> set (tb_list tb j)"
      using slot_of_listed [OF assms(1) j] slot_of_listed [OF assms(1-3)] by auto
    then show ?thesis
      using False d by (auto simp: filter_id_conv intro!: sym [OF filter_True])
  qed
  then show ?thesis
    using d by (simp add: filtered_def)
qed

lemma delete_loop_ok:
  assumes "tb_inv tb own" "i < tb_nbufslots tb" "distinct tss" "set tss \<subseteq> set (tb_list tb i)"
    "view_pred P" "\<And>ts. ts \<in> set tss \<Longrightarrow> P tb ts \<Longrightarrow> tab = (\<not> ts_self (tb_ts tb ts))"
  shows "\<exists>tb'. delete_loop P tab i tb tss = Some (tb', int (length (filter (P tb) tss))) \<and>
    tb_inv tb' own \<and> filtered (\<lambda>s. \<not> (s \<in> set tss \<and> P tb s)) tb tb' \<and>
    tb_visiblealltrxid tb' = tb_visiblealltrxid tb"
  using assms(1-4,6)
proof (induction tss arbitrary: tb)
  case Nil
  then show ?case
    using filtered_refl by auto
next
  case (Cons ts tss)
  show ?case
  proof (cases "P tb ts")
    case False
    obtain tb' where "delete_loop P tab i tb tss = Some (tb', int (length (filter (P tb) tss)))"
      "tb_inv tb' own" "filtered (\<lambda>s. \<not> (s \<in> set tss \<and> P tb s)) tb tb'"
      "tb_visiblealltrxid tb' = tb_visiblealltrxid tb"
      using Cons.IH [of tb] Cons.prems by auto
    then show ?thesis
      using False by (intro exI [of _ tb']) (auto elim!: filtered_cong)
  next
    case True
    have ts: "ts \<in> set (tb_list tb i)" and tab: "tab = (\<not> ts_self (tb_ts tb ts))"
      using Cons.prems(4,5) True by auto
    obtain tb1 where del: "stmt_delete tab i tb ts = Some tb1" "deleted i ts tb tb1" "table_ok tb1"
      using stmt_delete_result [OF Cons.prems(1,2) ts, folded tab] by blast
    have inv1: "tb_inv tb1 own"
      using deleted_inv [OF Cons.prems(1,2) ts del(2,3)] .
    have filt: "filtered (\<lambda>s. s \<noteq> ts) tb tb1"
      using deleted_filtered [OF Cons.prems(1,2) ts del(2)] .
    have P: "P tb1 = P tb"
      using view_predD [OF assms(5) filt] .
    have ts1: "tb_ts tb1 = tb_ts tb"
      using filt by (simp add: filtered_def)
    have "\<exists>tb'. delete_loop P tab i tb1 tss = Some (tb', int (length (filter (P tb1) tss))) \<and>
        tb_inv tb' own \<and> filtered (\<lambda>s. \<not> (s \<in> set tss \<and> P tb1 s)) tb1 tb' \<and>
        tb_visiblealltrxid tb' = tb_visiblealltrxid tb1"
    proof (rule Cons.IH [OF inv1])
      show "i < tb_nbufslots tb1" "distinct tss" "set tss \<subseteq> set (tb_list tb1 i)"
        using Cons.prems filt by (auto simp: filtered_def)
      show "tab = (\<not> ts_self (tb_ts tb1 s))" if "s \<in> set tss" "P tb1 s" for s
        using Cons.prems(5) [of s] that P ts1 by simp
    qed
    then obtain tb' where tb': "delete_loop P tab i tb1 tss = Some (tb', int (length (filter (P tb) tss)))"
      "tb_inv tb' own" "filtered (\<lambda>s. \<not> (s \<in> set tss \<and> P tb s)) tb1 tb'"
      "tb_visiblealltrxid tb' = tb_visiblealltrxid tb1"
      unfolding P by blast
    have "filtered (\<lambda>s. \<not> (s \<in> set (ts # tss) \<and> P tb s)) tb tb'"
      using filtered_trans [OF filt tb'(3)] True by (auto elim!: filtered_cong)
    moreover have "tb_visiblealltrxid tb' = tb_visiblealltrxid tb"
      using tb'(4) del(2) by (simp add: deleted_def same_levels_def)
    ultimately show ?thesis
      using True del(1) tb'(1,2) by auto
  qed
qed

text \<open>
  A loop over the slots whose body deletes the statements \<open>P\<close> of the slot and maps the visibility
  level by \<open>g\<close>, where all statements satisfy \<open>R\<close>.
\<close>

definition slot_deletes ::
  "(trxbuf \<Rightarrow> tsid \<Rightarrow> bool) \<Rightarrow> (trxstmt \<Rightarrow> bool) \<Rightarrow> (dbe_trxid_t \<Rightarrow> dbe_trxid_t) \<Rightarrow> bool \<Rightarrow> (tiid \<Rightarrow> nat) \<Rightarrow>
    (nat \<Rightarrow> trxbuf \<Rightarrow> (trxbuf \<times> int) option) \<Rightarrow> bool" where
  "slot_deletes P R g u own f \<longleftrightarrow> (\<forall>tb i. tb_inv tb own \<and> i < tb_nbufslots tb \<and>
    tb_usevisiblealltrxid tb = u \<and> (\<forall>s. in_lists tb s \<longrightarrow> R (tb_ts tb s)) \<longrightarrow>
    (\<exists>tb'. f i tb = Some (tb', int (length (filter (P tb) (tb_list tb i)))) \<and> tb_inv tb' own \<and>
      filtered (\<lambda>s. \<not> (s \<in> set (tb_list tb i) \<and> P tb s)) tb tb' \<and>
      tb_visiblealltrxid tb' = g (tb_visiblealltrxid tb)))"

definition removed_count :: "(trxbuf \<Rightarrow> tsid \<Rightarrow> bool) \<Rightarrow> trxbuf \<Rightarrow> nat list \<Rightarrow> int" where
  "removed_count P tb is = (\<Sum>i\<leftarrow>is. int (length (filter (P tb) (tb_list tb i))))"

lemma slots_loop_ok:
  assumes step: "slot_deletes P R g u own f" and vp: "view_pred P" and idem: "\<And>v. g (g v) = g v"
    and inv: "tb_inv tb own" and dist: "distinct is" and sub: "\<forall>i\<in>set is. i < tb_nbufslots tb"
    and u: "tb_usevisiblealltrxid tb = u" and R: "\<And>s. in_lists tb s \<Longrightarrow> R (tb_ts tb s)"
  shows "\<exists>tb'. slots_loop f tb is = Some (tb', removed_count P tb is) \<and> tb_inv tb' own \<and>
    filtered (\<lambda>s. \<not> ((\<exists>i\<in>set is. s \<in> set (tb_list tb i)) \<and> P tb s)) tb tb' \<and>
    (is \<noteq> [] \<longrightarrow> tb_visiblealltrxid tb' = g (tb_visiblealltrxid tb))"
  using inv dist sub u R
proof (induction "is" arbitrary: tb)
  case Nil
  then show ?case
    using filtered_refl by (auto simp: removed_count_def)
next
  case (Cons i "is")
  have i: "i < tb_nbufslots tb"
    using Cons.prems(3) by simp
  obtain tb1 where tb1: "f i tb = Some (tb1, int (length (filter (P tb) (tb_list tb i))))"
    "tb_inv tb1 own" "filtered (\<lambda>s. \<not> (s \<in> set (tb_list tb i) \<and> P tb s)) tb tb1"
    "tb_visiblealltrxid tb1 = g (tb_visiblealltrxid tb)"
    using step Cons.prems(1,4,5) i unfolding slot_deletes_def by blast
  have P: "P tb1 = P tb"
    using view_predD [OF vp tb1(3)] .
  have same: "tb_list tb1 j = tb_list tb j" if "j \<in> set is" for j
  proof -
    have j: "j < tb_nbufslots tb" "j \<noteq> i"
      using that Cons.prems(2,3) by auto
    then have "s \<notin> set (tb_list tb i)" if "s \<in> set (tb_list tb j)" for s
      using slot_of_listed [OF Cons.prems(1) j(1) that] slot_of_listed [OF Cons.prems(1) i, of s]
      by auto
    then show ?thesis
      using tb1(3) j by (auto simp: filtered_def filter_id_conv)
  qed
  have "\<exists>tb'. slots_loop f tb1 is = Some (tb', removed_count P tb1 is) \<and> tb_inv tb' own \<and>
    filtered (\<lambda>s. \<not> ((\<exists>i\<in>set is. s \<in> set (tb_list tb1 i)) \<and> P tb1 s)) tb1 tb' \<and>
    (is \<noteq> [] \<longrightarrow> tb_visiblealltrxid tb' = g (tb_visiblealltrxid tb1))"
  proof (rule Cons.IH [OF tb1(2)])
    show "distinct is" "\<forall>i\<in>set is. i < tb_nbufslots tb1" "tb_usevisiblealltrxid tb1 = u"
      using Cons.prems tb1(3) by (auto simp: filtered_def)
    show "R (tb_ts tb1 s)" if "in_lists tb1 s" for s
      using that Cons.prems(5) filtered_in_lists [OF tb1(3)] tb1(3) by (simp add: filtered_def)
  qed
  then obtain tb' where tb': "slots_loop f tb1 is = Some (tb', removed_count P tb1 is)"
    "tb_inv tb' own"
    "filtered (\<lambda>s. \<not> ((\<exists>i\<in>set is. s \<in> set (tb_list tb1 i)) \<and> P tb1 s)) tb1 tb'"
    "is \<noteq> [] \<longrightarrow> tb_visiblealltrxid tb' = g (tb_visiblealltrxid tb1)"
    by blast
  have "removed_count P tb1 is = removed_count P tb is"
    unfolding removed_count_def P using same by (intro arg_cong [where f = sum_list] map_cong) simp_all
  then have "slots_loop f tb (i # is) = Some (tb', removed_count P tb (i # is))"
    using tb1(1) tb'(1) by (simp add: removed_count_def)
  moreover have "filtered (\<lambda>s. \<not> ((\<exists>i\<in>set (i # is). s \<in> set (tb_list tb i)) \<and> P tb s)) tb tb'"
    using filtered_trans [OF tb1(3) tb'(3)]
    by (rule filtered_cong) (use same in \<open>auto simp: P\<close>)
  moreover have "tb_visiblealltrxid tb' = g (tb_visiblealltrxid tb)"
    using tb'(4) tb1(4) idem tb'(1) by (cases "is = []") auto
  ultimately show ?case
    using tb'(2) by blast
qed

section \<open>Cleaning\<close>

lemma trx_view_eqD:
  assumes "trx_view ti' = trx_view ti"
  shows "ti_state ti' = ti_state ti" "ti_committrxnum ti' = ti_committrxnum ti"
    "ti_usertrxid ti' = ti_usertrxid ti"
  using assms by (simp_all add: trx_view_def)

lemma trx_view_is:
  assumes "trx_view ti' = trx_view ti"
  shows "dbe_trxinfo_isended ti' = dbe_trxinfo_isended ti"
    "dbe_trxinfo_iscommitted ti' = dbe_trxinfo_iscommitted ti"
    "dbe_trxinfo_isaborted ti' = dbe_trxinfo_isaborted ti"
    "dbe_trxinfo_ismtabletrx ti' = dbe_trxinfo_ismtabletrx ti"
    "gettrxstate_found ti' = gettrxstate_found ti"
  using trx_view_eqD [OF assms] by (simp_all add: trxinfo_is_defs gettrxstate_found_def Let_def)

lemma view_pred_clean: "view_pred (clean_removes cleantrxnum msa oti)"
  unfolding view_pred_def
proof (intro allI impI)
  fix K tb tb' s
  assume "filtered K tb tb'"
  then have same: "tb_ts tb' = tb_ts tb" "tb_usevisiblealltrxid tb' = tb_usevisiblealltrxid tb"
    and v: "trx_view (tb_ti tb' (stmt_info tb s)) = trx_view (info tb s)"
    by (auto simp: filtered_def)
  show "clean_removes cleantrxnum msa oti tb' s = clean_removes cleantrxnum msa oti tb s"
    unfolding clean_removes_def Let_def same trx_view_is [OF v] trx_view_eqD [OF v] ..
qed

text \<open>How the clean moves the level below which everything is visible.\<close>

definition clean_level :: "bool \<Rightarrow> dbe_trxnum_t \<Rightarrow> dbe_trxid_t \<Rightarrow> dbe_trxid_t" where
  "clean_level u cleantrxnum v = (if u \<and> dbe_trxid_cmp cleantrxnum v > 0 then cleantrxnum else v)"

lemma clean_slot_deletes:
  "slot_deletes (clean_removes cleantrxnum msa oti) (\<lambda>ts. \<not> ts_self ts)
    (clean_level u cleantrxnum) u own (clean_slot cleantrxnum msa oti)"
  unfolding slot_deletes_def
proof (intro allI impI)
  fix tb i
  assume a: "tb_inv tb own \<and> i < tb_nbufslots tb \<and> tb_usevisiblealltrxid tb = u \<and>
    (\<forall>s. in_lists tb s \<longrightarrow> \<not> ts_self (tb_ts tb s))"
  let ?P = "clean_removes cleantrxnum msa oti"
  have "distinct (tb_list tb i)"
    using a by (simp add: tb_inv_def lists_ok_def)
  then obtain tb1 where tb1: "delete_loop ?P True i tb (tb_list tb i) =
      Some (tb1, int (length (filter (?P tb) (tb_list tb i))))" "tb_inv tb1 own"
    "filtered (\<lambda>s. \<not> (s \<in> set (tb_list tb i) \<and> ?P tb s)) tb tb1"
    "tb_visiblealltrxid tb1 = tb_visiblealltrxid tb"
    using delete_loop_ok [OF _ _ _ subset_refl view_pred_clean, of tb own i] a
    by (metis (no_types, lifting) in_lists_def)
  let ?tb' = "if tb_usevisiblealltrxid tb1 \<and> dbe_trxid_cmp cleantrxnum (tb_visiblealltrxid tb1) > 0
       then tb1\<lparr>tb_visiblealltrxid := cleantrxnum\<rparr> else tb1"
  have shape: "same_shape tb1 ?tb'" and ti: "tb_ti ?tb' = tb_ti tb1"
    by (simp_all add: same_shape_def)
  have "tb_inv ?tb' own"
    using tb1(2) shape by (rule tb_inv_infos)
      (use tb1(2) in \<open>simp add: ti tb_inv_def links_ok_def\<close>)
  moreover have "filtered (\<lambda>s. \<not> (s \<in> set (tb_list tb i) \<and> ?P tb s)) tb ?tb'"
    using tb1(3) by (auto simp: filtered_def)
  moreover have "tb_visiblealltrxid ?tb' = clean_level u cleantrxnum (tb_visiblealltrxid tb)"
    using tb1(3,4) a by (simp add: clean_level_def filtered_def)
  ultimately show "\<exists>tb'. clean_slot cleantrxnum msa oti i tb =
      Some (tb', int (length (filter (?P tb) (tb_list tb i)))) \<and> tb_inv tb' own \<and>
      filtered (\<lambda>s. \<not> (s \<in> set (tb_list tb i) \<and> ?P tb s)) tb tb' \<and>
      tb_visiblealltrxid tb' = clean_level u cleantrxnum (tb_visiblealltrxid tb)"
    using tb1(1) by (intro exI [of _ ?tb']) (simp add: clean_slot_def)
qed

lemma clean_ok:
  assumes inv: "tb_inv tb own" and "unmarked tb"
  shows "\<exists>tb'. dbe_trxbuf_clean tb cleantrxnum msa oti =
      Some (tb', removed_count (clean_removes cleantrxnum msa oti) tb [0..<tb_nbufslots tb]) \<and>
    tb_inv tb' own \<and> filtered (\<lambda>s. \<not> clean_removes cleantrxnum msa oti tb s) tb tb' \<and>
    tb_visiblealltrxid tb' = clean_level (tb_usevisiblealltrxid tb) cleantrxnum (tb_visiblealltrxid tb)"
proof -
  let ?P = "clean_removes cleantrxnum msa oti"
  have "\<exists>tb'. dbe_trxbuf_clean tb cleantrxnum msa oti =
      Some (tb', removed_count ?P tb [0..<tb_nbufslots tb]) \<and> tb_inv tb' own \<and>
    filtered (\<lambda>s. \<not> ((\<exists>i\<in>set [0..<tb_nbufslots tb]. s \<in> set (tb_list tb i)) \<and> ?P tb s)) tb tb' \<and>
    ([0..<tb_nbufslots tb] \<noteq> [] \<longrightarrow> tb_visiblealltrxid tb' =
      clean_level (tb_usevisiblealltrxid tb) cleantrxnum (tb_visiblealltrxid tb))"
    unfolding dbe_trxbuf_clean_def
    by (rule slots_loop_ok [OF clean_slot_deletes view_pred_clean _ inv])
      (use assms(2) in \<open>auto simp: unmarked_def clean_level_def dbe_trxid_cmp_def\<close>)
  then obtain tb' where tb': "dbe_trxbuf_clean tb cleantrxnum msa oti =
      Some (tb', removed_count ?P tb [0..<tb_nbufslots tb])" "tb_inv tb' own"
    "filtered (\<lambda>s. \<not> ((\<exists>i\<in>set [0..<tb_nbufslots tb]. s \<in> set (tb_list tb i)) \<and> ?P tb s)) tb tb'"
    "[0..<tb_nbufslots tb] \<noteq> [] \<longrightarrow> tb_visiblealltrxid tb' =
      clean_level (tb_usevisiblealltrxid tb) cleantrxnum (tb_visiblealltrxid tb)"
    by blast
  moreover have "filtered (\<lambda>s. \<not> ?P tb s) tb tb'"
    using tb'(3) by (rule filtered_cong) auto
  moreover have "[0..<tb_nbufslots tb] \<noteq> []"
    using inv by (simp add: tb_inv_def)
  ultimately show ?thesis
    by blast
qed

end
