(* ===== verification/Trx_Buf_Ops.thy ===== *)
theory Trx_Buf_Ops
  imports Trx_Buf_Inv
begin

text \<open>
  Statement abort, the marks of roll-forward recovery, and the end of recovery keep the invariant of
  the transaction buffer; what each of them changes for a reader.
\<close>

section \<open>Aborting a statement\<close>

lemma length_filter_fun_upd:
  assumes "distinct xs" "x \<in> set xs"
  shows "length (filter (\<lambda>s. (f(x := v)) s = l) xs) + (if f x = l then 1 else 0) =
    length (filter (\<lambda>s. f s = l) xs) + (if v = l then 1 else 0)"
  using assms
proof (induction xs)
  case (Cons a xs)
  show ?case
  proof (cases "a = x")
    case True
    then have "filter (\<lambda>s. (f(x := v)) s = l) xs = filter (\<lambda>s. f s = l) xs"
      using Cons.prems by (intro filter_cong) auto
    with True show ?thesis
      by simp
  qed (use Cons in auto)
qed simp

lemma upd_ts_fields [simp]:
  "tb_ti (upd_ts s f tb) = tb_ti tb" "tb_table (upd_ts s f tb) = tb_table tb"
  "tb_list (upd_ts s f tb) = tb_list tb" "tb_listlen (upd_ts s f tb) = tb_listlen tb"
  "tb_nbufslots (upd_ts s f tb) = tb_nbufslots tb" "tb_tablesize (upd_ts s f tb) = tb_tablesize tb"
  "tb_nextts (upd_ts s f tb) = tb_nextts tb" "tb_nextti (upd_ts s f tb) = tb_nextti tb"
  "tb_ts (upd_ts s f tb) = (tb_ts tb)(s := f (tb_ts tb s))"
  "tb_usevisiblealltrxid (upd_ts s f tb) = tb_usevisiblealltrxid tb"
  "tb_visiblealltrxid (upd_ts s f tb) = tb_visiblealltrxid tb"
  "tb_aborttrxid (upd_ts s f tb) = tb_aborttrxid tb"
  "tb_disabletrxid (upd_ts s f tb) = tb_disabletrxid tb"
  "tb_index (upd_ts s f tb) = tb_index tb" "tb_slot (upd_ts s f tb) = tb_slot tb"
  "in_lists (upd_ts s f tb) = in_lists tb"
  by (simp_all add: upd_ts_def tb_index_def [abs_def] tb_slot_def [abs_def] in_lists_def [abs_def])

text \<open>Moving a statement to another info moves one reference.\<close>

lemma refs_move:
  assumes inv: "tb_inv tb own" and s: "in_lists tb s"
  shows "refs (upd_ts s (\<lambda>x. x\<lparr>ts_trxinfo := i\<rparr>) tb) l + (if stmt_info tb s = l then 1 else 0) =
    refs tb l + (if i = l then 1 else 0)"
proof -
  obtain j where j: "j < tb_nbufslots tb" "s \<in> set (tb_list tb j)"
    using s by (auto simp: in_lists_def)
  have eq: "stmt_info (upd_ts s (\<lambda>x. x\<lparr>ts_trxinfo := i\<rparr>) tb) t = ((stmt_info tb)(s := i)) t" for t
    by simp
  show ?thesis
    unfolding refs_def eq unfolding upd_ts_fields(3,5)
  proof (rule refs_change [OF j(1)])
    fix k
    assume k: "k < tb_nbufslots tb" "k \<noteq> j"
    then have "s \<notin> set (tb_list tb k)"
      using slot_of_listed [OF inv j] slot_of_listed [OF inv k(1), of s] by auto
    then show "length (filter (\<lambda>t. ((stmt_info tb)(s := i)) t = l) (tb_list tb k)) =
        length (filter (\<lambda>t. stmt_info tb t = l) (tb_list tb k))"
      by (intro arg_cong [where f = length] filter_cong) auto
  next
    have "distinct (tb_list tb j)"
      using inv j(1) by (simp add: tb_inv_def lists_ok_def)
    then show "length (filter (\<lambda>t. ((stmt_info tb)(s := i)) t = l) (tb_list tb j)) +
        (if stmt_info tb s = l then 1 else 0) =
      length (filter (\<lambda>t. stmt_info tb t = l) (tb_list tb j)) + (if i = l then 1 else 0)"
      using j(2) by (rule length_filter_fun_upd)
  qed
qed

lemma move_inv:
  assumes inv: "tb_inv tb own" and s: "in_lists tb s" and i: "i < tb_nextti tb"
    and links: "\<And>l. l < tb_nextti tb \<Longrightarrow> ti_nlinks (tb_ti tb' l) =
      int (own' l + refs (upd_ts s (\<lambda>x. x\<lparr>ts_trxinfo := i\<rparr>) tb) l)"
    and shape: "same_shape (upd_ts s (\<lambda>x. x\<lparr>ts_trxinfo := i\<rparr>) tb) tb'"
  shows "tb_inv tb' own'" "tb_find tb' = tb_find tb"
proof -
  let ?tb1 = "upd_ts s (\<lambda>x. x\<lparr>ts_trxinfo := i\<rparr>) tb"
  note p = same_shape_parts [OF shape]
  have "stmt_id ?tb1 = stmt_id tb" and "(\<lambda>t. ts_self (tb_ts ?tb1 t)) = (\<lambda>t. ts_self (tb_ts tb t))"
    by auto
  then have eq: "stmt_id ?tb1 t = stmt_id tb t" "ts_self (tb_ts ?tb1 t) = ts_self (tb_ts tb t)" for t
    by (auto simp: fun_eq_iff)
  have "lists_ok ?tb1 \<and> table_ok ?tb1 \<and> ids_ok ?tb1"
    using inv unfolding tb_inv_def lists_ok_def table_ok_def ids_ok_def chain_of_def eq
      upd_ts_fields(1-8,10-) by blast
  moreover have "links_ok tb' own'"
    unfolding links_ok_def
  proof (intro conjI allI impI)
    show "ti_nlinks (tb_ti tb' l) = int (own' l + refs tb' l)" if "l < tb_nextti tb'" for l
      using links [of l] that p shape by (simp add: same_shape_def)
    show "stmt_info tb' t < tb_nextti tb'" if "in_lists tb' t" for t
      using that p shape inv i by (auto simp: same_shape_def tb_inv_def links_ok_def)
  qed
  ultimately show "tb_inv tb' own'"
    using inv p shape by (simp add: tb_inv_def same_shape_def)
  have "tb_find ?tb1 = tb_find tb"
    unfolding tb_find_def [abs_def] eq upd_ts_fields(1-8,10-) ..
  then show "tb_find tb' = tb_find tb"
    using p(8) by simp
qed

lemma abortstmt_ok:
  assumes inv: "tb_inv tb own" and find: "tb_find tb k = Some ts"
  obtains tb' where "dbe_trxbuf_abortstmt tb num k = Some tb'" "tb_inv tb' (own(tb_nextti tb := 0))"
    "tb_find tb' = tb_find tb" "trx_view (info tb' ts) = (DBE_TRXST_ABORT, num, k)"
    "\<And>s. in_lists tb s \<Longrightarrow> s \<noteq> ts \<Longrightarrow> trx_view (info tb' s) =
      trx_view (if stmt_info tb s = stmt_info tb ts \<and> dbe_trxinfo_istobeaborted (info tb ts)
        then dbe_trxinfo_setbegin (info tb s) else info tb s)"
    "unmarked tb \<Longrightarrow> unmarked tb'" "\<And>k. gettrxstate_notfound tb' k = gettrxstate_notfound tb k"
proof -
  let ?i = "tb_nextti tb" and ?old = "stmt_info tb ts"
  obtain tb1 where init: "dbe_trxinfo_init tb = (tb1, ?i)"
    by (simp add: dbe_trxinfo_init_def)
  note t1 = trxinfo_init_inv [OF inv init]
  let ?new = "\<lambda>x. dbe_trxinfo_setaborted (x\<lparr>ti_usertrxid := k, ti_committrxnum := num\<rparr>)"
  let ?tb2 = "upd_ti ?i ?new tb1"
  let ?tb3 = "if dbe_trxinfo_istobeaborted (tb_ti ?tb2 ?old)
    then upd_ti ?old dbe_trxinfo_setbegin ?tb2 else ?tb2"
  let ?tb4 = "upd_ti ?old dbe_trxinfo_done_nomutex ?tb3"
  let ?tb' = "upd_ts ts (\<lambda>s. s\<lparr>ts_trxinfo := ?i\<rparr>) ?tb4"
  have ts: "in_lists tb ts" "stmt_id tb ts = k"
    using find tb_find_iff [OF inv] by auto
  then have old: "?old < ?i"
    using inv by (simp add: tb_inv_def links_ok_def)
  have "tb_table tb (tb_index tb k) \<noteq> []"
    using find by (auto simp: tb_find_def)
  moreover have ts2: "tb_ts ?tb2 = tb_ts tb"
    by (simp add: t1(6))
  ultimately have res: "dbe_trxbuf_abortstmt tb num k = Some ?tb'"
    using find init by (simp add: dbe_trxbuf_abortstmt_def Let_def)
  have ti: "tb_ti ?tb' l =
      (if l = ?i then ?new dbe_trxinfo_initbuf
       else if l = ?old then dbe_trxinfo_done_nomutex
         (if dbe_trxinfo_istobeaborted (info tb ts) then dbe_trxinfo_setbegin (info tb ts) else info tb ts)
       else tb_ti tb l)" for l
    using old by (auto simp: tb_ti_upd_ti t1(5))
  have shape: "same_shape (upd_ts ts (\<lambda>x. x\<lparr>ts_trxinfo := ?i\<rparr>) tb1) ?tb'"
    by (simp add: same_shape_def)
  have links: "ti_nlinks (tb_ti ?tb' l) =
      int ((own(?i := 0)) l + refs (upd_ts ts (\<lambda>x. x\<lparr>ts_trxinfo := ?i\<rparr>) tb1) l)"
    if "l < tb_nextti tb1" for l
  proof -
    have "refs (upd_ts ts (\<lambda>x. x\<lparr>ts_trxinfo := ?i\<rparr>) tb1) l + (if ?old = l then 1 else 0) =
        refs tb l + (if ?i = l then 1 else 0)"
      using refs_move [OF t1(2), of ts ?i l] ts(1) by (simp add: t1(6,10,11))
    moreover have "refs tb ?i = 0"
      by (rule refs_fresh [OF inv]) simp
    moreover have "l < ?i \<Longrightarrow> ti_nlinks (tb_ti tb l) = int (own l + refs tb l)"
      using inv by (simp add: tb_inv_def links_ok_def)
    ultimately show ?thesis
      unfolding ti using old that t1(7)
      by (auto simp: dbe_trxinfo_initbuf_def split: if_splits)
  qed
  have "in_lists tb1 ts" "?i < tb_nextti tb1"
    using ts(1) by (simp_all add: t1(7,10))
  note moved = move_inv [OF t1(2) this links shape]
  have inv': "tb_inv ?tb' (own(?i := 0))"
    by (rule moved(1))
  have find': "tb_find ?tb' = tb_find tb"
    by (rule trans [OF moved(2) t1(3)])
  show ?thesis
  proof (rule that [OF res inv' find'])
    show "trx_view (info ?tb' ts) = (DBE_TRXST_ABORT, num, k)"
    proof -
      have "stmt_info ?tb' ts = ?i"
        by simp
      then show ?thesis
        unfolding ti by (simp add: trx_view_def dbe_trxinfo_setaborted_def)
    qed
    show "trx_view (info ?tb' s) =
      trx_view (if stmt_info tb s = ?old \<and> dbe_trxinfo_istobeaborted (info tb ts)
        then dbe_trxinfo_setbegin (info tb s) else info tb s)" if "in_lists tb s" "s \<noteq> ts" for s
    proof -
      have "stmt_info tb s < ?i"
        using inv that by (simp add: tb_inv_def links_ok_def)
      moreover have "stmt_info ?tb' s = stmt_info tb s"
        using that ts2 by simp
      ultimately show ?thesis
        unfolding ti by auto
    qed
    show "unmarked ?tb'" if "unmarked tb"
      using that t1(6,10) by (auto simp: unmarked_def)
    show "gettrxstate_notfound ?tb' k = gettrxstate_notfound tb k" for k
      using init by (auto simp: gettrxstate_notfound_def dbe_trxinfo_init_def)
  qed
qed

section \<open>Marks\<close>

lemma mark_ok:
  assumes inv: "tb_inv tb own" and find: "tb_find tb k = Some ts"
  shows "tb_inv (dbe_trxbuf_marktoberemoved tb k) own"
    "tb_find (dbe_trxbuf_marktoberemoved tb k) = (tb_find tb)(k := None)"
    "tb_ts (dbe_trxbuf_marktoberemoved tb k) = (tb_ts tb)(ts := (tb_ts tb ts)\<lparr>ts_self := True\<rparr>)"
    "tb_list (dbe_trxbuf_marktoberemoved tb k) = tb_list tb"
    "tb_ti (dbe_trxbuf_marktoberemoved tb k) = tb_ti tb"
    "in_lists (dbe_trxbuf_marktoberemoved tb k) = in_lists tb"
    "gettrxstate_notfound (dbe_trxbuf_marktoberemoved tb k) = gettrxstate_notfound tb"
proof -
  have ts: "in_lists tb ts" "\<not> ts_self (tb_ts tb ts)" "stmt_id tb ts = k"
    using find tb_find_iff [OF inv] by auto
  let ?j = "tb_index tb k" and ?i = "tb_slot tb k"
  let ?Q = "\<lambda>j s. \<not> ts_self (tb_ts tb s) \<and> tb_index tb (stmt_id tb s) = j"
  have i: "?i < tb_nbufslots tb" and listed: "ts \<in> set (tb_list tb ?i)"
    using ts slot_of_listed [OF inv] tb_slot_less [OF inv] by (auto simp: in_lists_def)
  have dist: "distinct (tb_list tb ?i)"
    using inv i by (simp add: tb_inv_def lists_ok_def)
  have uniq: "s = ts" if "s \<in> set (tb_list tb ?i)" "?Q ?j s" "stmt_id tb s = k" for s
    using inv that ts i unfolding tb_inv_def ids_ok_def in_lists_def by blast
  have chain: "chain_remove (\<lambda>s. stmt_id tb s = k) (tb_table tb ?j) =
      Some (filter (?Q ?j) (remove1 ts (tb_list tb ?i)))"
    unfolding tb_table_chain [OF inv] chain_of_def tb_slot_def [symmetric]
    by (rule chain_remove_filter [OF dist listed]) (use ts uniq in auto)
  define tb1 where "tb1 = tb\<lparr>tb_table := (tb_table tb)
    (?j := filter (?Q ?j) (remove1 ts (tb_list tb ?i)))\<rparr>"
  define tb' where "tb' = upd_ts ts (\<lambda>s. s\<lparr>ts_self := True\<rparr>) tb1"
  have "dbe_trxbuf_marktoberemoved tb k = tb'"
    using find chain
    by (simp add: dbe_trxbuf_marktoberemoved_def trxbuf_tableremove_def Let_def tb'_def tb1_def)
  moreover have same: "tb_ti tb' = tb_ti tb" "tb_list tb' = tb_list tb" "tb_listlen tb' = tb_listlen tb"
    "tb_nbufslots tb' = tb_nbufslots tb" "tb_tablesize tb' = tb_tablesize tb"
    "tb_nextts tb' = tb_nextts tb" "tb_nextti tb' = tb_nextti tb" "tb_index tb' = tb_index tb"
    "tb_slot tb' = tb_slot tb" "in_lists tb' = in_lists tb"
    "gettrxstate_notfound tb' = gettrxstate_notfound tb"
    by (auto simp: tb'_def tb1_def tb_index_def tb_slot_def in_lists_def gettrxstate_notfound_def
        fun_eq_iff)
  moreover have stmt: "tb_ts tb' = (tb_ts tb)(ts := (tb_ts tb ts)\<lparr>ts_self := True\<rparr>)"
    by (simp add: tb'_def tb1_def)
  have parts: "stmt_id tb' s = stmt_id tb s" "stmt_info tb' s = stmt_info tb s"
    "ts_self (tb_ts tb' s) \<longleftrightarrow> s = ts \<or> ts_self (tb_ts tb s)" for s
    by (auto simp: stmt)
  have "table_ok tb'"
    unfolding table_ok_def same
  proof (intro allI impI)
    fix j
    assume j: "j < tb_tablesize tb"
    have "chain_of tb' j = filter (\<lambda>s. s \<noteq> ts) (chain_of tb j)"
      by (auto simp: chain_of_def same parts intro!: filter_cong)
    also have "\<dots> = tb_table tb' j"
    proof (cases "j = ?j")
      case True
      then show ?thesis
        using dist by (auto simp: tb'_def tb1_def chain_of_def tb_slot_def
            distinct_remove1_removeAll removeAll_filter_not_eq intro!: filter_cong)
    next
      case False
      then have "ts \<notin> set (chain_of tb j)"
        using ts by (auto simp: chain_of_def)
      then have "filter (\<lambda>s. s \<noteq> ts) (chain_of tb j) = chain_of tb j"
        by (auto simp: filter_id_conv)
      then show ?thesis
        using False inv j by (simp add: tb'_def tb1_def tb_inv_def table_ok_def)
    qed
    finally show "tb_table tb' j = chain_of tb' j" ..
  qed
  moreover have "lists_ok tb'" "ids_ok tb'" "links_ok tb' own"
    using inv by (auto simp: tb_inv_def lists_ok_def ids_ok_def links_ok_def refs_def same parts)
  ultimately have inv': "tb_inv tb' own"
    using inv by (simp add: tb_inv_def same)
  have "tb_find tb' l = Some s \<longleftrightarrow> ((tb_find tb)(k := None)) l = Some s" for l s
  proof (cases "l = k")
    case True
    then have "\<not> (in_lists tb s \<and> s \<noteq> ts \<and> \<not> ts_self (tb_ts tb s) \<and> stmt_id tb s = l)"
      using inv ts unfolding tb_inv_def ids_ok_def by blast
    then show ?thesis
      using True unfolding tb_find_iff [OF inv'] by (auto simp: same parts)
  next
    case False
    then show ?thesis
      using ts unfolding tb_find_iff [OF inv'] by (auto simp: same parts tb_find_iff [OF inv])
  qed
  then have find': "tb_find tb' = (tb_find tb)(k := None)"
    by (intro ext opt_eqI)
  show "tb_inv (dbe_trxbuf_marktoberemoved tb k) own"
    "tb_find (dbe_trxbuf_marktoberemoved tb k) = (tb_find tb)(k := None)"
    "tb_ts (dbe_trxbuf_marktoberemoved tb k) = (tb_ts tb)(ts := (tb_ts tb ts)\<lparr>ts_self := True\<rparr>)"
    "tb_list (dbe_trxbuf_marktoberemoved tb k) = tb_list tb"
    "tb_ti (dbe_trxbuf_marktoberemoved tb k) = tb_ti tb"
    "in_lists (dbe_trxbuf_marktoberemoved tb k) = in_lists tb"
    "gettrxstate_notfound (dbe_trxbuf_marktoberemoved tb k) = gettrxstate_notfound tb"
    unfolding \<open>dbe_trxbuf_marktoberemoved tb k = tb'\<close> by (fact inv' find' stmt same)+
qed

lemma removemarked_ok:
  assumes inv: "tb_inv tb own"
  shows "\<exists>tb'. dbe_trxbuf_removemarked tb = Some tb' \<and> tb_inv tb' own \<and> unmarked tb' \<and>
    filtered (\<lambda>s. \<not> ts_self (tb_ts tb s)) tb tb' \<and> tb_visiblealltrxid tb' = tb_visiblealltrxid tb"
proof -
  let ?P = "\<lambda>tb ts. ts_self (tb_ts tb ts)"
  let ?f = "\<lambda>i tb. delete_loop ?P False i tb (tb_list tb i)"
  have vp: "view_pred ?P"
    by (auto simp: view_pred_def filtered_def)
  have "slot_deletes ?P (\<lambda>_. True) (\<lambda>v. v) u own ?f" for u
    unfolding slot_deletes_def
  proof (intro allI impI)
    fix tb i
    assume a: "tb_inv tb own \<and> i < tb_nbufslots tb \<and> tb_usevisiblealltrxid tb = u \<and>
      (\<forall>s. in_lists tb s \<longrightarrow> True)"
    then have "distinct (tb_list tb i)"
      by (simp add: tb_inv_def lists_ok_def)
    then show "\<exists>tb'. ?f i tb = Some (tb', int (length (filter (?P tb) (tb_list tb i)))) \<and>
        tb_inv tb' own \<and> filtered (\<lambda>s. \<not> (s \<in> set (tb_list tb i) \<and> ?P tb s)) tb tb' \<and>
        tb_visiblealltrxid tb' = tb_visiblealltrxid tb"
      using a by (intro delete_loop_ok [OF _ _ _ subset_refl vp]) auto
  qed
  then obtain tb' where tb': "slots_loop ?f tb [0..<tb_nbufslots tb] =
      Some (tb', removed_count ?P tb [0..<tb_nbufslots tb])" "tb_inv tb' own"
    "filtered (\<lambda>s. \<not> ((\<exists>i\<in>set [0..<tb_nbufslots tb]. s \<in> set (tb_list tb i)) \<and> ?P tb s)) tb tb'"
    "[0..<tb_nbufslots tb] \<noteq> [] \<longrightarrow> tb_visiblealltrxid tb' = tb_visiblealltrxid tb"
    using slots_loop_ok [OF _ vp _ inv distinct_upt, of "\<lambda>_. True" "\<lambda>v. v" "tb_usevisiblealltrxid tb" ?f
        0 "tb_nbufslots tb"] by auto
  have filt: "filtered (\<lambda>s. \<not> ?P tb s) tb tb'"
    using tb'(3) by (rule filtered_cong) auto
  moreover have "unmarked tb'"
    using filtered_in_lists [OF filt] filt by (auto simp: unmarked_def filtered_def)
  ultimately show ?thesis
    using tb' inv by (auto simp: dbe_trxbuf_removemarked_def tb_inv_def)
qed

section \<open>Walks that change infos\<close>

definition map_infos :: "(trxinfo \<Rightarrow> trxinfo) \<Rightarrow> tiid set \<Rightarrow> trxbuf \<Rightarrow> trxbuf" where
  "map_infos f S tb = tb\<lparr>tb_ti := (\<lambda>i. if i \<in> S then f (tb_ti tb i) else tb_ti tb i)\<rparr>"

lemma map_infos_fields [simp]:
  "tb_ts (map_infos f S tb) = tb_ts tb" "tb_list (map_infos f S tb) = tb_list tb"
  "tb_nbufslots (map_infos f S tb) = tb_nbufslots tb"
  "tb_usevisiblealltrxid (map_infos f S tb) = tb_usevisiblealltrxid tb"
  "tb_nextti (map_infos f S tb) = tb_nextti tb" "tb_nextts (map_infos f S tb) = tb_nextts tb"
  "gettrxstate_notfound (map_infos f S tb) = gettrxstate_notfound tb"
  "in_lists (map_infos f S tb) = in_lists tb"
  by (auto simp: map_infos_def gettrxstate_notfound_def in_lists_def fun_eq_iff)

lemma same_shape_map_infos: "same_shape tb (map_infos f S tb)"
  by (simp add: map_infos_def same_shape_def)

lemma map_infos_inv:
  "tb_inv tb own \<Longrightarrow> (\<And>ti. ti_nlinks (f ti) = ti_nlinks ti) \<Longrightarrow> tb_inv (map_infos f S tb) own"
  by (rule tb_inv_infos [OF _ same_shape_map_infos])
    (auto simp: map_infos_def tb_inv_def links_ok_def)

lemma map_infos_find: "tb_find (map_infos f S tb) = tb_find tb"
  using same_shape_parts(8) [OF same_shape_map_infos] .

lemma map_infos_empty [simp]: "map_infos f {} tb = tb"
  by (simp add: map_infos_def)

lemma map_infos_comp:
  assumes "\<And>ti. f (f ti) = f ti"
  shows "map_infos f T (map_infos f S tb) = map_infos f (S \<union> T) tb"
  using assms by (auto simp: map_infos_def fun_eq_iff)

lemma upd_ti_map_infos: "upd_ti i f tb = map_infos f {i} tb"
  by (auto simp: upd_ti_def map_infos_def fun_eq_iff)

lemma foldl_map_infos:
  assumes "\<And>ti. f (f ti) = f ti"
  shows "foldl (\<lambda>tb ts. upd_ti (stmt_info tb ts) f tb) tb tss = map_infos f (stmt_info tb ` set tss) tb"
proof (induction tss arbitrary: tb)
  case (Cons ts tss)
  then show ?case
    by (simp add: upd_ti_map_infos map_infos_comp [OF assms])
qed simp

section \<open>The end of recovery\<close>

text \<open>What \<open>dbe_trxbuf_cleanuncommitted\<close> does to an info, and what \<open>dbe_trxbuf_abortall\<close> does.\<close>

definition uncommitted_aborted :: "dbe_trxnum_t \<Rightarrow> trxinfo \<Rightarrow> trxinfo" where
  "uncommitted_aborted num ti = (if \<not> dbe_trxinfo_iscommitted ti
    then (dbe_trxinfo_setaborted ti)\<lparr>ti_committrxnum := num\<rparr> else ti)"

definition unended_aborted :: "dbe_trxnum_t \<Rightarrow> trxinfo \<Rightarrow> trxinfo" where
  "unended_aborted num ti = (if \<not> dbe_trxinfo_isaborted ti \<and> \<not> dbe_trxinfo_iscommitted ti
    then (dbe_trxinfo_setaborted ti)\<lparr>ti_committrxnum := num\<rparr> else ti)"

lemma setaborted_is [simp]:
  "dbe_trxinfo_isaborted (dbe_trxinfo_setaborted ti)"
  "\<not> dbe_trxinfo_iscommitted (dbe_trxinfo_setaborted ti)"
  "dbe_trxinfo_isaborted (ti\<lparr>ti_committrxnum := num\<rparr>) = dbe_trxinfo_isaborted ti"
  "dbe_trxinfo_iscommitted (ti\<lparr>ti_committrxnum := num\<rparr>) = dbe_trxinfo_iscommitted ti"
  by (simp_all add: trxinfo_is_defs dbe_trxinfo_setaborted_def trxst_defs)

lemma aborted_idem:
  "uncommitted_aborted num (uncommitted_aborted num ti) = uncommitted_aborted num ti"
  "unended_aborted num (unended_aborted num ti) = unended_aborted num ti"
  by (simp_all add: uncommitted_aborted_def unended_aborted_def dbe_trxinfo_setaborted_def)

lemma aborted_nlinks:
  "ti_nlinks (uncommitted_aborted num ti) = ti_nlinks ti"
  "ti_nlinks (unended_aborted num ti) = ti_nlinks ti"
  by (simp_all add: uncommitted_aborted_def unended_aborted_def)

lemma upd_ti_cond: "(if \<not> c (tb_ti tb i) then upd_ti i f tb else tb) =
    upd_ti i (\<lambda>ti. if \<not> c ti then f ti else ti) tb"
  by (auto simp: upd_ti_def)

definition listed :: "trxbuf \<Rightarrow> nat list \<Rightarrow> tsid set" where
  "listed tb is = (\<Union>i\<in>set is. set (tb_list tb i))"

lemma listed_all: "s \<in> listed tb [0..<tb_nbufslots tb] \<longleftrightarrow> in_lists tb s"
  by (auto simp: listed_def in_lists_def)

lemma uncommitted_slots:
  "tb_usevisiblealltrxid tb \<Longrightarrow> slots_loop (\<lambda>i tb.
      if tb_usevisiblealltrxid tb
      then Some (foldl (\<lambda>tb ts. if \<not> dbe_trxinfo_iscommitted (info tb ts)
          then upd_ti (stmt_info tb ts)
            (\<lambda>ti. (dbe_trxinfo_setaborted ti)\<lparr>ti_committrxnum := num\<rparr>) tb
          else tb) tb (tb_list tb i), 0)
      else delete_loop (\<lambda>tb ts. \<not> dbe_trxinfo_iscommitted (info tb ts)) True i tb (tb_list tb i)) tb is =
    Some (map_infos (uncommitted_aborted num) (stmt_info tb ` listed tb is) tb, 0)"
proof (induction "is" arbitrary: tb)
  case (Cons i "is")
  have "foldl (\<lambda>tb ts. if \<not> dbe_trxinfo_iscommitted (info tb ts)
        then upd_ti (stmt_info tb ts) (\<lambda>ti. (dbe_trxinfo_setaborted ti)\<lparr>ti_committrxnum := num\<rparr>) tb
        else tb) tb (tb_list tb i) =
      map_infos (uncommitted_aborted num) (stmt_info tb ` set (tb_list tb i)) tb"
  proof -
    have "(\<lambda>ti. if \<not> dbe_trxinfo_iscommitted ti
        then (dbe_trxinfo_setaborted ti)\<lparr>ti_committrxnum := num\<rparr> else ti) = uncommitted_aborted num"
      by (simp add: fun_eq_iff uncommitted_aborted_def)
    then show ?thesis
      unfolding upd_ti_cond by (simp only: foldl_map_infos aborted_idem)
  qed
  then show ?case
    using Cons.prems Cons.IH [of "map_infos (uncommitted_aborted num) (stmt_info tb ` set (tb_list tb i)) tb"]
    by (simp add: map_infos_comp aborted_idem listed_def image_Un)
qed (simp add: listed_def)

lemma cleanuncommitted_visible:
  assumes "tb_usevisiblealltrxid tb"
  shows "dbe_trxbuf_cleanuncommitted tb num =
    Some (map_infos (uncommitted_aborted num) (stmt_info tb ` Collect (in_lists tb)) tb)"
proof -
  have "listed tb [0..<tb_nbufslots tb] = Collect (in_lists tb)"
    using listed_all by auto
  then show ?thesis
    using uncommitted_slots [OF assms, of num "[0..<tb_nbufslots tb]"]
    by (simp add: dbe_trxbuf_cleanuncommitted_def)
qed

lemma cleanuncommitted_deletes:
  assumes inv: "tb_inv tb own" and um: "unmarked tb" and u: "\<not> tb_usevisiblealltrxid tb"
  shows "\<exists>tb'. dbe_trxbuf_cleanuncommitted tb num = Some tb' \<and> tb_inv tb' own \<and>
    filtered (\<lambda>s. dbe_trxinfo_iscommitted (info tb s)) tb tb' \<and>
    tb_visiblealltrxid tb' = tb_visiblealltrxid tb"
proof -
  let ?P = "\<lambda>tb ts. \<not> dbe_trxinfo_iscommitted (info tb ts)"
  let ?f = "\<lambda>i tb. if tb_usevisiblealltrxid tb
      then Some (foldl (\<lambda>tb ts. if \<not> dbe_trxinfo_iscommitted (info tb ts)
          then upd_ti (stmt_info tb ts)
            (\<lambda>ti. (dbe_trxinfo_setaborted ti)\<lparr>ti_committrxnum := num\<rparr>) tb
          else tb) tb (tb_list tb i), 0)
      else delete_loop ?P True i tb (tb_list tb i)"
  have vp: "view_pred ?P"
    unfolding view_pred_def
  proof (intro allI impI)
    fix K tb tb' s
    assume "filtered K tb tb'"
    then have "trx_view (info tb' s) = trx_view (info tb s)"
      by (auto simp: filtered_def)
    then show "?P tb' s = ?P tb s"
      using trx_view_is(2) [of "info tb' s" "info tb s"] by simp
  qed
  have sd: "slot_deletes ?P (\<lambda>ts. \<not> ts_self ts) (\<lambda>v. v) False own ?f"
    unfolding slot_deletes_def
  proof (intro allI impI)
    fix tb i
    assume a: "tb_inv tb own \<and> i < tb_nbufslots tb \<and> tb_usevisiblealltrxid tb = False \<and>
      (\<forall>s. in_lists tb s \<longrightarrow> \<not> ts_self (tb_ts tb s))"
    then have "distinct (tb_list tb i)" "\<And>s. s \<in> set (tb_list tb i) \<Longrightarrow> \<not> ts_self (tb_ts tb s)"
      by (auto simp: tb_inv_def lists_ok_def in_lists_def)
    then have "\<exists>tb'. delete_loop ?P True i tb (tb_list tb i) =
          Some (tb', int (length (filter (?P tb) (tb_list tb i)))) \<and>
        tb_inv tb' own \<and> filtered (\<lambda>s. \<not> (s \<in> set (tb_list tb i) \<and> ?P tb s)) tb tb' \<and>
        tb_visiblealltrxid tb' = tb_visiblealltrxid tb"
      using a by (intro delete_loop_ok [OF _ _ _ subset_refl vp]) auto
    then show "\<exists>tb'. ?f i tb = Some (tb', int (length (filter (?P tb) (tb_list tb i)))) \<and>
        tb_inv tb' own \<and> filtered (\<lambda>s. \<not> (s \<in> set (tb_list tb i) \<and> ?P tb s)) tb tb' \<and>
        tb_visiblealltrxid tb' = tb_visiblealltrxid tb"
      using a by simp
  qed
  have "\<exists>tb'. slots_loop ?f tb [0..<tb_nbufslots tb] =
      Some (tb', removed_count ?P tb [0..<tb_nbufslots tb]) \<and> tb_inv tb' own \<and>
    filtered (\<lambda>s. \<not> ((\<exists>i\<in>set [0..<tb_nbufslots tb]. s \<in> set (tb_list tb i)) \<and> ?P tb s)) tb tb' \<and>
    ([0..<tb_nbufslots tb] \<noteq> [] \<longrightarrow> tb_visiblealltrxid tb' = tb_visiblealltrxid tb)"
    by (rule slots_loop_ok [OF sd vp _ inv]) (use u um in \<open>auto simp: unmarked_def\<close>)
  then obtain tb' where tb': "slots_loop ?f tb [0..<tb_nbufslots tb] =
      Some (tb', removed_count ?P tb [0..<tb_nbufslots tb])" "tb_inv tb' own"
    "filtered (\<lambda>s. \<not> ((\<exists>i\<in>set [0..<tb_nbufslots tb]. s \<in> set (tb_list tb i)) \<and> ?P tb s)) tb tb'"
    "[0..<tb_nbufslots tb] \<noteq> [] \<longrightarrow> tb_visiblealltrxid tb' = tb_visiblealltrxid tb"
    by blast
  have "filtered (\<lambda>s. dbe_trxinfo_iscommitted (info tb s)) tb tb'"
    using tb'(3) by (rule filtered_cong) auto
  moreover have "dbe_trxbuf_cleanuncommitted tb num = Some tb'"
    unfolding dbe_trxbuf_cleanuncommitted_def tb'(1) by simp
  ultimately show ?thesis
    using tb'(2,4) inv by (auto simp: tb_inv_def)
qed

lemma abortall_skip_ended:
  "\<exists>skipped. tss = skipped @ snd (abortall_skip tb reload tss) \<and>
    (\<forall>s\<in>set skipped. dbe_trxinfo_isaborted (info tb s) \<or> dbe_trxinfo_iscommitted (info tb s))"
proof (induction tb reload tss rule: abortall_skip.induct)
  case (2 tb reload ts tss)
  show ?case
  proof (cases "\<not> dbe_trxinfo_isaborted (info tb ts) \<and> \<not> dbe_trxinfo_iscommitted (info tb ts)")
    case True
    then show ?thesis
      by (intro exI [of _ "[]"]) (simp add: Let_def)
  next
    case False
    then obtain skipped where "tss = skipped @ snd (abortall_skip tb (reload \<or>
        dbe_trxinfo_isunknown (info tb ts) \<or> dbe_trxinfo_isopenddop (info tb ts)) tss)"
      "\<forall>s\<in>set skipped. dbe_trxinfo_isaborted (info tb s) \<or> dbe_trxinfo_iscommitted (info tb s)"
      using 2 by blast
    then show ?thesis
      using False by (intro exI [of _ "ts # skipped"]) (auto simp: Let_def)
  qed
qed simp

lemma map_infos_ended:
  assumes "\<And>i. i \<in> S \<Longrightarrow> dbe_trxinfo_isaborted (tb_ti tb i) \<or> dbe_trxinfo_iscommitted (tb_ti tb i)"
  shows "map_infos (unended_aborted num) S tb = tb"
proof -
  have "unended_aborted num (tb_ti tb i) = tb_ti tb i" if "i \<in> S" for i
    using assms [OF that] by (auto simp: unended_aborted_def)
  then show ?thesis
    by (auto simp: map_infos_def fun_eq_iff intro!: trxbuf.equality)
qed

lemma abortall_loop_state:
  "fst (abortall_loop num log tb reload n evs tss) =
    map_infos (unended_aborted num) (stmt_info tb ` set tss) tb"
proof (induction num log tb reload n evs tss rule: abortall_loop.induct)
  case (2 num log tb reload n evs ts tss)
  let ?f = "unended_aborted num"
  show ?case
  proof (cases "\<not> dbe_trxinfo_isaborted (info tb ts) \<and> \<not> dbe_trxinfo_iscommitted (info tb ts)")
    case True
    let ?tb1 = "upd_ti (stmt_info tb ts) (\<lambda>ti. (dbe_trxinfo_setaborted ti)\<lparr>ti_committrxnum := num\<rparr>) tb"
    let ?reload1 = "reload \<or> dbe_trxinfo_isunknown (info tb ts) \<or> dbe_trxinfo_isopenddop (info tb ts)"
    let ?skip = "abortall_skip ?tb1 ?reload1 tss"
    have tb1: "?tb1 = map_infos ?f {stmt_info tb ts} tb"
      using True by (auto simp: upd_ti_def map_infos_def unended_aborted_def fun_eq_iff)
    obtain skipped where sk: "tss = skipped @ snd ?skip"
      "\<forall>s\<in>set skipped. dbe_trxinfo_isaborted (info ?tb1 s) \<or> dbe_trxinfo_iscommitted (info ?tb1 s)"
      using abortall_skip_ended by blast
    have "fst (abortall_loop num log tb reload n evs (ts # tss)) =
        map_infos ?f (stmt_info ?tb1 ` set (snd ?skip)) ?tb1"
      using True 2(1) by (simp add: Let_def)
    also have "\<dots> = map_infos ?f (stmt_info ?tb1 ` set (snd ?skip)) (map_infos ?f (stmt_info ?tb1 ` set skipped) ?tb1)"
      by (subst map_infos_ended [of "stmt_info ?tb1 ` set skipped" ?tb1]) (use sk(2) in auto)
    also have "\<dots> = map_infos ?f (stmt_info tb ` set tss) ?tb1"
    proof -
      have "set tss = set skipped \<union> set (snd ?skip)"
        by (subst sk(1)) simp
      then show ?thesis
        by (simp add: map_infos_comp aborted_idem image_Un)
    qed
    finally show ?thesis
      unfolding tb1 by (simp add: map_infos_comp aborted_idem)
  next
    case False
    then have "map_infos ?f (stmt_info tb ` set (ts # tss)) tb =
        map_infos ?f (stmt_info tb ` set tss) (map_infos ?f {stmt_info tb ts} tb)"
      by (simp add: map_infos_comp aborted_idem)
    also have "map_infos ?f {stmt_info tb ts} tb = tb"
      using False by (intro map_infos_ended) auto
    finally have "fst (abortall_loop num log tb reload n evs tss) =
        map_infos ?f (stmt_info tb ` set (ts # tss)) tb"
      using 2(2) [OF False] by simp
    moreover have "(\<not> dbe_trxinfo_isaborted (info tb ts) \<and> \<not> dbe_trxinfo_iscommitted (info tb ts)) = False"
      using False by blast
    ultimately show ?thesis
      by (simp only: abortall_loop.simps(2) if_False)
  qed
qed simp

lemma abortall_state:
  "fst (dbe_trxbuf_abortall tb num log) =
    map_infos (unended_aborted num) (stmt_info tb ` Collect (in_lists tb)) tb"
proof -
  have "fst (foldl (\<lambda>(tb, reload, n, evs) i. abortall_loop num log tb reload n evs (tb_list tb i))
      (tb, reload, n, evs) is) =
    map_infos (unended_aborted num) (stmt_info tb ` listed tb is) tb" for reload n evs "is"
  proof (induction "is" arbitrary: tb reload n evs)
    case (Cons i "is")
    obtain tb1 reload1 n1 evs1 where step: "abortall_loop num log tb reload n evs (tb_list tb i) =
        (tb1, reload1, n1, evs1)"
      by (cases "abortall_loop num log tb reload n evs (tb_list tb i)")
    have "tb1 = map_infos (unended_aborted num) (stmt_info tb ` set (tb_list tb i)) tb"
      using abortall_loop_state [of num log tb reload n evs "tb_list tb i"] step by simp
    then show ?case
      using step Cons.IH [of tb1 reload1 n1 evs1]
      by (simp add: map_infos_comp aborted_idem listed_def image_Un)
  qed (simp add: listed_def)
  moreover have "listed tb [0..<tb_nbufslots tb] = Collect (in_lists tb)"
    using listed_all by auto
  ultimately show ?thesis
    by (simp add: dbe_trxbuf_abortall_def)
qed

end
