(* ===== verification/Trx_Buf_Safety.thy ===== *)
theory Trx_Buf_Safety
  imports Trx_Buf_Ops
begin

text \<open>
  The states of a transaction buffer that its clients can reach, and what holds of them: reference
  counts are exact, no statement refers to a freed info, the operations do not fail, and what a
  reader sees after each operation.
\<close>

section \<open>Reachable states\<close>

text \<open>
  \<open>own i\<close> counts the references to info \<open>i\<close> that clients hold: the creator has one, \<open>link\<close> adds
  one, \<open>done\<close> takes one away, and only an owner changes an info or adds a statement for it. A
  statement id is added once (a debug assertion of \<open>dbe_trxbuf_addstmt\<close>). The merge and the end of
  recovery clean a buffer without marked statements. Roll-forward masks a statement only to read the
  buffer and unmasks it again: the two operations together are one step.
\<close>

inductive tb_reachable :: "trxbuf \<Rightarrow> (tiid \<Rightarrow> nat) \<Rightarrow> bool" where
  init: "dbe_trxbuf_init tablesize aborttrxid vis = Some tb \<Longrightarrow> 0 < tablesize \<Longrightarrow>
    tb_reachable tb (\<lambda>_. 0)"
| info_init: "tb_reachable tb own \<Longrightarrow> dbe_trxinfo_init tb = (tb', i) \<Longrightarrow> tb_reachable tb' (own(i := 1))"
| info_link: "tb_reachable tb own \<Longrightarrow> 0 < own i \<Longrightarrow>
    tb_reachable (upd_ti i dbe_trxinfo_link tb) (own(i := own i + 1))"
| info_done: "tb_reachable tb own \<Longrightarrow> 0 < own i \<Longrightarrow>
    tb_reachable (upd_ti i dbe_trxinfo_done_nomutex tb) (own(i := own i - 1))"
| info_change: "tb_reachable tb own \<Longrightarrow> 0 < own i \<Longrightarrow> (\<And>ti. ti_nlinks (f ti) = ti_nlinks ti) \<Longrightarrow>
    tb_reachable (upd_ti i f tb) own"
| addstmt: "tb_reachable tb own \<Longrightarrow> 0 < own i \<Longrightarrow> tb_find tb k = None \<Longrightarrow>
    tb_reachable (dbe_trxbuf_addstmt tb k i) own"
| abortstmt: "tb_reachable tb own \<Longrightarrow> dbe_trxbuf_abortstmt tb num k = Some tb' \<Longrightarrow> tb_reachable tb' own"
| linked: "tb_reachable tb own \<Longrightarrow> dbe_trxbuf_gettrxinfo_linked tb k = (tb', Some i) \<Longrightarrow>
    tb_reachable tb' (own(i := own i + 1))"
| clean: "tb_reachable tb own \<Longrightarrow> unmarked tb \<Longrightarrow> dbe_trxbuf_clean tb num k oti = Some (tb', n) \<Longrightarrow>
    tb_reachable tb' own"
| cleanuncommitted: "tb_reachable tb own \<Longrightarrow> unmarked tb \<Longrightarrow>
    dbe_trxbuf_cleanuncommitted tb num = Some tb' \<Longrightarrow> tb_reachable tb' own"
| abortall: "tb_reachable tb own \<Longrightarrow> tb_reachable (fst (dbe_trxbuf_abortall tb num log)) own"
| mark: "tb_reachable tb own \<Longrightarrow> tb_reachable (dbe_trxbuf_marktoberemoved tb k) own"
| removemarked: "tb_reachable tb own \<Longrightarrow> dbe_trxbuf_removemarked tb = Some tb' \<Longrightarrow> tb_reachable tb' own"
| setabort: "tb_reachable tb own \<Longrightarrow> tb_reachable (dbe_trxbuf_setaborttrxid tb k) own"
| setusevisible: "tb_reachable tb own \<Longrightarrow>
    tb_reachable (dbe_trxbuf_setusevisiblealltrxid tb k u) own"
| mask: "tb_reachable tb own \<Longrightarrow> dbe_trxbuf_disablestmt tb k = Some (tb', s) \<Longrightarrow>
    tb_reachable (dbe_trxbuf_enablestmt tb' s k) own"

definition tb_owned :: "trxbuf \<Rightarrow> (tiid \<Rightarrow> nat) \<Rightarrow> bool" where
  "tb_owned tb own \<longleftrightarrow> tb_inv tb own \<and> (\<forall>i. 0 < own i \<longrightarrow> i < tb_nextti tb)"

lemma nextti_tableremove: "trxbuf_tableremove tb k = Some tb' \<Longrightarrow> tb_nextti tb' = tb_nextti tb"
  by (auto simp: trxbuf_tableremove_def Let_def)

lemma nextti_stmt_delete:
  assumes "stmt_delete tab i tb ts = Some tb'"
  shows "tb_nextti tb' = tb_nextti tb"
proof -
  let ?tb1 = "tb\<lparr>tb_list := (tb_list tb)(i := remove1 ts (tb_list tb i))\<rparr>"
  obtain tb2 where "(if tab then trxbuf_tableremove ?tb1 (stmt_id ?tb1 ts) else Some ?tb1) = Some tb2"
    "tb_nextti tb' = tb_nextti tb2"
    using assms by (auto simp: stmt_delete_def trxbuf_listdeletefun_def Let_def split: option.splits)
  then show ?thesis
    using nextti_tableremove [of ?tb1 "stmt_id ?tb1 ts" tb2] by (cases tab) auto
qed

lemma nextti_delete_loop: "delete_loop P tab i tb tss = Some (tb', n) \<Longrightarrow> tb_nextti tb' = tb_nextti tb"
proof (induction tss arbitrary: tb n)
  case (Cons ts tss)
  show ?case
  proof (cases "P tb ts")
    case True
    then obtain tb1 m where "stmt_delete tab i tb ts = Some tb1"
      "delete_loop P tab i tb1 tss = Some (tb', m)"
      using Cons.prems by (auto split: option.splits)
    then show ?thesis
      using Cons.IH nextti_stmt_delete by metis
  qed (use Cons in auto)
qed simp

lemma nextti_slots_loop:
  assumes "\<And>i tb tb' n. f i tb = Some (tb', n) \<Longrightarrow> tb_nextti tb' = tb_nextti tb"
  shows "slots_loop f tb is = Some (tb', n) \<Longrightarrow> tb_nextti tb' = tb_nextti tb"
proof (induction "is" arbitrary: tb n)
  case (Cons i "is")
  then obtain tb1 m l where "f i tb = Some (tb1, m)" "slots_loop f tb1 is = Some (tb', l)"
    by (auto split: option.splits)
  then show ?case
    using Cons.IH assms by metis
qed simp

lemma nextti_clean:
  assumes "dbe_trxbuf_clean tb num k oti = Some (tb', n)"
  shows "tb_nextti tb' = tb_nextti tb"
  using assms unfolding dbe_trxbuf_clean_def
  by (rule nextti_slots_loop [rotated])
    (auto simp: clean_slot_def dest: nextti_delete_loop split: if_splits)

lemma nextti_cleanuncommitted:
  assumes "dbe_trxbuf_cleanuncommitted tb num = Some tb'"
  shows "tb_nextti tb' = tb_nextti tb"
proof (cases "tb_usevisiblealltrxid tb")
  case True
  then show ?thesis
    using assms by (auto simp: cleanuncommitted_visible)
next
  case False
  have fold: "tb_nextti (foldl (\<lambda>tb ts. if \<not> dbe_trxinfo_iscommitted (info tb ts)
      then upd_ti (stmt_info tb ts) g tb else tb) tb tss) = tb_nextti tb" for tb tss g
    by (induction tss arbitrary: tb) auto
  obtain n where "slots_loop (\<lambda>i tb.
      if tb_usevisiblealltrxid tb
      then Some (foldl (\<lambda>tb ts. if \<not> dbe_trxinfo_iscommitted (info tb ts)
          then upd_ti (stmt_info tb ts)
            (\<lambda>ti. (dbe_trxinfo_setaborted ti)\<lparr>ti_committrxnum := num\<rparr>) tb
          else tb) tb (tb_list tb i), 0)
      else delete_loop (\<lambda>tb ts. \<not> dbe_trxinfo_iscommitted (info tb ts)) True i tb (tb_list tb i))
      tb [0..<tb_nbufslots tb] = Some (tb', n)"
    using assms by (auto simp: dbe_trxbuf_cleanuncommitted_def)
  then show ?thesis
    by (rule nextti_slots_loop [rotated])
      (auto simp: fold dest: nextti_delete_loop split: if_splits)
qed

lemma nextti_removemarked:
  assumes "dbe_trxbuf_removemarked tb = Some tb'"
  shows "tb_nextti tb' = tb_nextti tb"
proof -
  obtain n where "slots_loop (\<lambda>i tb. delete_loop (\<lambda>tb ts. ts_self (tb_ts tb ts)) False i tb (tb_list tb i))
      tb [0..<tb_nbufslots tb] = Some (tb', n)"
    using assms by (auto simp: dbe_trxbuf_removemarked_def)
  then show ?thesis
    by (rule nextti_slots_loop [rotated]) (auto dest: nextti_delete_loop)
qed

lemma tb_inv_levels:
  "tb_inv tb own \<Longrightarrow> same_shape tb tb' \<Longrightarrow> tb_ti tb' = tb_ti tb \<Longrightarrow> tb_inv tb' own"
  by (rule tb_inv_infos) (auto simp: tb_inv_def links_ok_def)

text \<open>Masking and unmasking a statement leaves the buffer, but for the id last masked.\<close>

lemma enable_disable:
  assumes "tb_inv tb own" "dbe_trxbuf_disablestmt tb k = Some (tb', s)"
  shows "dbe_trxbuf_enablestmt tb' s k =
    tb\<lparr>tb_disabletrxid := DBE_TRXID_NULL, tb_bsea_disabletrxid := DBE_TRXID_NULL\<rparr>"
proof -
  have "tb_find tb k = Some s" and tb': "tb' = (upd_ts s (\<lambda>s. s\<lparr>ts_stmttrxid := DBE_TRXID_NULL\<rparr>) tb)
      \<lparr>tb_disabletrxid := k, tb_bsea_disabletrxid := k\<rparr>"
    using assms(2) by (auto simp: dbe_trxbuf_disablestmt_def split: option.splits)
  then have "stmt_id tb s = k"
    using tb_find_iff [OF assms(1)] by blast
  then show ?thesis
    by (auto simp: tb' dbe_trxbuf_enablestmt_def upd_ts_def intro!: trxbuf.equality)
qed

lemma reachable_owned: "tb_reachable tb own \<Longrightarrow> tb_owned tb own"
proof (induction rule: tb_reachable.induct)
  case (init tablesize aborttrxid vis tb)
  then show ?case
    by (auto simp: dbe_trxbuf_init_def tb_owned_def tb_inv_def TB_NBUFSLOTS_def lists_ok_def
        table_ok_def chain_of_def ids_ok_def links_ok_def in_lists_def split: if_splits)
next
  case (info_init tb own tb' i)
  then show ?case
    using trxinfo_init_inv(1,2,7) [of tb own tb' i] by (auto simp: tb_owned_def less_Suc_eq fun_upd_def)
next
  case (info_link tb own i)
  then have "tb_inv (upd_ti i dbe_trxinfo_link tb) (own(i := own i + 1))"
    unfolding tb_owned_def
    by (intro tb_inv_infos [OF _ same_shape_upd_ti, where own = own])
      (auto simp: tb_ti_upd_ti tb_inv_def links_ok_def)
  then show ?case
    using info_link by (auto simp: tb_owned_def fun_upd_def)
next
  case (info_done tb own i)
  then have "tb_inv (upd_ti i dbe_trxinfo_done_nomutex tb) (own(i := own i - 1))"
    unfolding tb_owned_def
    by (intro tb_inv_infos [OF _ same_shape_upd_ti, where own = own])
      (auto simp: tb_ti_upd_ti tb_inv_def links_ok_def)
  then show ?case
    using info_done by (auto simp: tb_owned_def fun_upd_def)
next
  case (info_change tb own i f)
  then show ?case
    using tb_inv_upd_ti by (auto simp: tb_owned_def)
next
  case (addstmt tb own i k)
  then show ?case
    using addstmt_inv(1) by (auto simp: tb_owned_def addstmt_fields)
next
  case (abortstmt tb own num k tb')
  then have own: "own(tb_nextti tb := 0) = own"
    by (auto simp: tb_owned_def fun_eq_iff)
  show ?case
  proof (cases "tb_find tb k")
    case None
    then show ?thesis
      using abortstmt by (auto simp: dbe_trxbuf_abortstmt_def split: if_splits)
  next
    case (Some ts)
    have inv: "tb_inv tb own"
      using abortstmt by (simp add: tb_owned_def)
    have "tb_inv tb' own"
      using abortstmt_ok [OF inv Some, of num] abortstmt(2) own by auto
    moreover have "tb_nextti tb' = tb_nextti tb + 1"
      using abortstmt(2) Some
      by (auto simp: dbe_trxbuf_abortstmt_def Let_def dbe_trxinfo_init_def split: if_splits)
    ultimately show ?thesis
      using abortstmt(3) by (auto simp: tb_owned_def less_Suc_eq)
  qed
next
  case (linked tb own k tb' i)
  then obtain ts where ts: "tb_find tb k = Some ts" "i = stmt_info tb ts" "tb' = upd_ti i dbe_trxinfo_link tb"
    by (auto simp: dbe_trxbuf_gettrxinfo_linked_def split: option.splits)
  have inv: "tb_inv tb own"
    using linked by (simp add: tb_owned_def)
  then have "i < tb_nextti tb"
    using ts(1,2) tb_find_iff [OF inv] by (auto simp: tb_inv_def links_ok_def)
  moreover have "tb_inv tb' (own(i := own i + 1))"
    unfolding ts(3) using inv
    by (intro tb_inv_infos [OF _ same_shape_upd_ti, where own = own])
      (auto simp: tb_ti_upd_ti tb_inv_def links_ok_def)
  ultimately show ?case
    using linked(3) ts(3) by (auto simp: tb_owned_def fun_upd_def)
next
  case (clean tb own num k oti tb' n)
  then show ?case
    using clean_ok [of tb own num k oti] nextti_clean by (fastforce simp: tb_owned_def)
next
  case (cleanuncommitted tb own num tb')
  have "tb_inv tb' own"
  proof (cases "tb_usevisiblealltrxid tb")
    case True
    then show ?thesis
      using cleanuncommitted cleanuncommitted_visible [OF True, of num]
      by (auto simp: tb_owned_def aborted_nlinks intro!: map_infos_inv)
  next
    case False
    then show ?thesis
      using cleanuncommitted cleanuncommitted_deletes [of tb own num] by (auto simp: tb_owned_def)
  qed
  then show ?case
    using cleanuncommitted nextti_cleanuncommitted by (auto simp: tb_owned_def)
next
  case (abortall tb own num log)
  then show ?case
    by (auto simp: abortall_state tb_owned_def aborted_nlinks intro!: map_infos_inv)
next
  case (mark tb own k)
  show ?case
  proof (cases "tb_find tb k")
    case None
    then show ?thesis
      using mark by (simp add: dbe_trxbuf_marktoberemoved_def)
  next
    case (Some ts)
    then have "tb_nextti (dbe_trxbuf_marktoberemoved tb k) = tb_nextti tb"
      by (auto simp: dbe_trxbuf_marktoberemoved_def trxbuf_tableremove_def Let_def split: option.splits)
    then show ?thesis
      using mark mark_ok(1) [OF _ Some] by (auto simp: tb_owned_def)
  qed
next
  case (removemarked tb own tb')
  then show ?case
    using removemarked_ok [of tb own] nextti_removemarked by (fastforce simp: tb_owned_def)
next
  case (setabort tb own k)
  then show ?case
    using tb_inv_levels [of tb own "dbe_trxbuf_setaborttrxid tb k"]
    by (auto simp: tb_owned_def dbe_trxbuf_setaborttrxid_def same_shape_def)
next
  case (setusevisible tb own k u)
  then show ?case
    using tb_inv_levels [of tb own "dbe_trxbuf_setusevisiblealltrxid tb k u"]
    by (auto simp: tb_owned_def dbe_trxbuf_setusevisiblealltrxid_def same_shape_def)
next
  case (mask tb own k tb' s)
  then show ?case
    using enable_disable [of tb own k tb' s] tb_inv_levels [of tb own "dbe_trxbuf_enablestmt tb' s k"]
    by (auto simp: tb_owned_def same_shape_def)
qed

lemma reachable_tb_inv: "tb_reachable tb own \<Longrightarrow> tb_inv tb own"
  using reachable_owned by (auto simp: tb_owned_def)

section \<open>What a reader sees\<close>

text \<open>The answer to a reader is a function of the abstract map and of the levels.\<close>

lemma gettrxstate_view:
  assumes "tb_find tb' k = tb_find tb k" "gettrxstate_notfound tb' k = gettrxstate_notfound tb k"
    "\<And>s. tb_find tb k = Some s \<Longrightarrow> trx_view (info tb' s) = trx_view (info tb s)"
  shows "dbe_trxbuf_gettrxstate tb' k = dbe_trxbuf_gettrxstate tb k"
proof (cases "tb_find tb k")
  case (Some s)
  then show ?thesis
    using assms(1) trx_view_is(5) [OF assms(3) [OF Some]] by (simp add: dbe_trxbuf_gettrxstate_def)
qed (use assms in \<open>simp add: dbe_trxbuf_gettrxstate_def\<close>)

lemma refs_pos:
  assumes "in_lists tb s"
  shows "0 < refs tb (stmt_info tb s)"
proof -
  obtain j where j: "j < tb_nbufslots tb" "s \<in> set (tb_list tb j)"
    using assms by (auto simp: in_lists_def)
  then have "0 < length (filter (\<lambda>t. stmt_info tb t = stmt_info tb s) (tb_list tb j))"
    by (auto simp: filter_empty_conv)
  also have "\<dots> \<le> refs tb (stmt_info tb s)"
    unfolding refs_def using j(1) by (intro member_le_sum) auto
  finally show ?thesis .
qed

lemma find_listed: "tb_inv tb own \<Longrightarrow> tb_find tb k = Some s \<Longrightarrow> in_lists tb s \<and> stmt_id tb s = k"
  using tb_find_iff by blast

subsection \<open>An example\<close>

text \<open>A buffer with one transaction and a statement of it, in the mode of a database with merges.\<close>

definition example_buffer :: trxbuf where
  "example_buffer =
    (case dbe_trxbuf_init 4 5 True of None \<Rightarrow> undefined | Some tb \<Rightarrow>
      (case dbe_trxinfo_init tb of (tb1, i) \<Rightarrow>
        dbe_trxbuf_addstmt (dbe_trxbuf_addstmt (upd_ti i (\<lambda>ti. ti\<lparr>ti_usertrxid := 7\<rparr>) tb1) 7 i) 8 i))"

lemmas tb_eval = dbe_trxbuf_init_def SS_MAXALLOCSIZE_def TB_NBUFSLOTS_def dbe_trxinfo_init_def
  dbe_trxbuf_addstmt_def upd_ti_def upd_ts_def tb_index_def tb_slot_def tb_find_def Let_def
  dbe_trxinfo_initbuf_def dbe_trxinfo_link_def DBE_TRXID_NULL_def DBE_TRXNUM_NULL_def
  dbe_trxbuf_gettrxstate_def gettrxstate_found_def gettrxstate_notfound_def trxinfo_is_defs
  trxinfo_set_defs trxst_defs dbe_trxid_cmp_def dbe_trxnum_cmp_def

lemma example_reachable: "tb_reachable example_buffer ((\<lambda>_. 0)(0 := 1))"
proof -
  obtain tb where tb: "dbe_trxbuf_init 4 5 True = Some tb"
    by (simp add: dbe_trxbuf_init_def SS_MAXALLOCSIZE_def)
  obtain tb1 i where tb1: "dbe_trxinfo_init tb = (tb1, i)"
    by (cases "dbe_trxinfo_init tb")
  have i: "i = 0"
    using tb tb1 by (auto simp: dbe_trxbuf_init_def dbe_trxinfo_init_def split: if_splits)
  let ?tb2 = "upd_ti 0 (\<lambda>ti. ti\<lparr>ti_usertrxid := 7\<rparr>) tb1"
  have "tb_reachable tb1 ((\<lambda>_. 0)(0 := 1))"
    using tb_reachable.info_init [OF tb_reachable.init [OF tb] tb1] i by simp
  then have r2: "tb_reachable ?tb2 ((\<lambda>_. 0)(0 := 1))"
    by (rule tb_reachable.info_change) simp_all
  have find: "tb_find ?tb2 k = None" for k
    using tb tb1 by (auto simp: dbe_trxbuf_init_def dbe_trxinfo_init_def tb_find_def upd_ti_def
        split: if_splits)
  have r3: "tb_reachable (dbe_trxbuf_addstmt ?tb2 7 0) ((\<lambda>_. 0)(0 := 1))"
    using r2 by (rule tb_reachable.addstmt) (simp_all add: find)
  have "tb_find (dbe_trxbuf_addstmt ?tb2 7 0) 8 = None"
    using addstmt_inv(2) [OF reachable_tb_inv [OF r2] _ find, of 0 7] find tb tb1
    by (auto simp: dbe_trxbuf_init_def dbe_trxinfo_init_def split: if_splits)
  then have "tb_reachable (dbe_trxbuf_addstmt (dbe_trxbuf_addstmt ?tb2 7 0) 8 0) ((\<lambda>_. 0)(0 := 1))"
    by (intro tb_reachable.addstmt [OF r3]) simp_all
  then show ?thesis
    using tb tb1 i by (simp add: example_buffer_def)
qed

section \<open>Properties\<close>

text \<open>
  C3. In every reachable state of the transaction buffer the reference count of an info is the
  number of its statements plus the references its clients hold, so that no statement is left with
  a freed info, and the removal of marked statements follows no null pointer. When no statement is
  marked to be removed, neither the clean after a merge nor that at the end of recovery does (a
  marked statement is in no hash chain any more, so the hypothesis is needed). The steps of
  \<open>tb_reachable\<close> are all operations of the buffer; roll-forward's masking of a statement counts as
  one step together with its unmasking.
\<close>

theorem trxbuf_links_exact:
  assumes "tb_reachable tb own"
  shows "(i < tb_nextti tb \<longrightarrow> ti_nlinks (tb_ti tb i) = int (own i + refs tb i)) \<and>
    (tb_find tb k = Some s \<longrightarrow> 0 < ti_nlinks (info tb s)) \<and>
    dbe_trxbuf_removemarked tb \<noteq> None \<and>
    (unmarked tb \<longrightarrow> dbe_trxbuf_clean tb num msa oti \<noteq> None \<and> dbe_trxbuf_cleanuncommitted tb num \<noteq> None)"
proof -
  have inv: "tb_inv tb own"
    using reachable_tb_inv [OF assms] .
  then have links: "ti_nlinks (tb_ti tb i) = int (own i + refs tb i)" if "i < tb_nextti tb" for i
    using that by (simp add: tb_inv_def links_ok_def)
  have "0 < ti_nlinks (info tb s)" if "tb_find tb k = Some s"
  proof -
    have "in_lists tb s"
      using find_listed [OF inv that] ..
    moreover from this have "stmt_info tb s < tb_nextti tb"
      using inv by (simp add: tb_inv_def links_ok_def)
    ultimately show ?thesis
      using links refs_pos [of tb s] by simp
  qed
  moreover have "dbe_trxbuf_cleanuncommitted tb num \<noteq> None" if "unmarked tb"
    using cleanuncommitted_visible [of tb num] cleanuncommitted_deletes [OF inv that, of num]
    by (cases "tb_usevisiblealltrxid tb") auto
  moreover have "dbe_trxbuf_clean tb num msa oti \<noteq> None" if "unmarked tb"
    using clean_ok [OF inv that, of num msa oti] by auto
  ultimately show ?thesis
    using links removemarked_ok [OF inv] by auto
qed

theorem trxbuf_links_exact_witness:
  "ti_nlinks (tb_ti example_buffer 0) = 3 \<and> dbe_trxbuf_removemarked example_buffer \<noteq> None"
proof -
  have "0 < tb_nextti example_buffer" "refs example_buffer 0 = 2"
    by (simp_all add: example_buffer_def tb_eval refs_def lessThan_nat_numeral lessThan_Suc)
  then show ?thesis
    using trxbuf_links_exact [OF example_reachable, of 0 0 0 1 1 None] by simp
qed

text \<open>Adding a statement, and undoing it by a mark.\<close>

lemma add_view:
  assumes inv: "tb_inv tb own" and i: "i < tb_nextti tb" and k: "tb_find tb k = None"
  shows "dbe_trxbuf_gettrxstate (dbe_trxbuf_addstmt tb k i) l =
    (if l = k then gettrxstate_found (tb_ti tb i) else dbe_trxbuf_gettrxstate tb l)"
proof (cases "l = k")
  case True
  then show ?thesis
    using trx_view_is(5) [OF view_link, of "tb_ti tb i"]
    by (simp add: dbe_trxbuf_gettrxstate_def addstmt_inv(2) [OF assms] addstmt_fields)
next
  case False
  have "dbe_trxbuf_gettrxstate (dbe_trxbuf_addstmt tb k i) l = dbe_trxbuf_gettrxstate tb l"
  proof (rule gettrxstate_view)
    show "trx_view (info (dbe_trxbuf_addstmt tb k i) s) = trx_view (info tb s)"
      if "tb_find tb l = Some s" for s
      using find_listed [OF inv that] inv
      by (auto simp: addstmt_fields in_lists_def tb_inv_def lists_ok_def)
  qed (use False in \<open>simp_all add: addstmt_inv(2) [OF assms] gettrxstate_notfound_def addstmt_fields\<close>)
  with False show ?thesis
    by simp
qed

lemma notfound_filtered:
  "filtered K tb tb' \<Longrightarrow> tb_visiblealltrxid tb' = tb_visiblealltrxid tb \<Longrightarrow>
    gettrxstate_notfound tb' = gettrxstate_notfound tb"
  by (simp add: gettrxstate_notfound_def filtered_def fun_eq_iff)

lemma undo_add:
  assumes inv: "tb_inv tb own" and i: "i < tb_nextti tb" and k: "tb_find tb k = None"
    and um: "unmarked tb"
  obtains tb' where
    "dbe_trxbuf_removemarked (dbe_trxbuf_marktoberemoved (dbe_trxbuf_addstmt tb k i) k) = Some tb'"
    "tb_find tb' = tb_find tb" "gettrxstate_notfound tb' = gettrxstate_notfound tb"
    "\<And>s. in_lists tb s \<Longrightarrow> stmt_info tb' s = stmt_info tb s \<and> trx_view (info tb' s) = trx_view (info tb s)"
    "tb_nbufslots tb' = tb_nbufslots tb" "\<And>j. j < tb_nbufslots tb \<Longrightarrow> tb_list tb' j = tb_list tb j"
proof -
  let ?add = "dbe_trxbuf_addstmt tb k i" and ?n = "tb_nextts tb"
  let ?mark = "dbe_trxbuf_marktoberemoved ?add k"
  note add = addstmt_inv [OF inv i k] and f = addstmt_fields [of tb k i]
  have fresh: "s \<noteq> ?n" if "in_lists tb s" for s
    using that inv by (auto simp: in_lists_def tb_inv_def lists_ok_def)
  have found: "tb_find ?add k = Some ?n"
    by (simp add: add(2))
  note mark = mark_ok [OF add(1) found]
  obtain tb' where tb': "dbe_trxbuf_removemarked ?mark = Some tb'" "tb_inv tb' own"
    "filtered (\<lambda>s. \<not> ts_self (tb_ts ?mark s)) ?mark tb'"
    "tb_visiblealltrxid tb' = tb_visiblealltrxid ?mark"
    using removemarked_ok [OF mark(1)] by blast
  have self: "ts_self (tb_ts ?mark s) \<longleftrightarrow> s = ?n" if "in_lists tb s \<or> s = ?n" for s
    using that um fresh unfolding mark(3) by (auto simp: f unmarked_def)
  have nb: "tb_nbufslots ?mark = tb_nbufslots tb"
    using found by (auto simp: dbe_trxbuf_marktoberemoved_def trxbuf_tableremove_def Let_def f
        split: option.splits)
  show ?thesis
  proof (rule that [OF tb'(1)])
    have "tb_find ?mark l = tb_find tb l" for l
      using k by (simp add: mark(2) add(2))
    then have "tb_find tb' l = tb_find tb l" for l
      using filtered_find [OF mark(1) tb'(2,3), of l] self find_listed [OF inv, of l] fresh
      by (auto split: option.splits)
    then show "tb_find tb' = tb_find tb" ..
    have "gettrxstate_notfound ?add = gettrxstate_notfound tb"
      by (simp add: fun_eq_iff gettrxstate_notfound_def f)
    then show "gettrxstate_notfound tb' = gettrxstate_notfound tb"
      using notfound_filtered [OF tb'(3,4)] mark(7) by simp
    show "stmt_info tb' s = stmt_info tb s \<and> trx_view (info tb' s) = trx_view (info tb s)"
      if "in_lists tb s" for s
    proof
      have "tb_ts tb' = tb_ts ?mark" "trx_view (info tb' s) = trx_view (info ?mark s)"
        using tb'(3) by (auto simp: filtered_def)
      moreover have "stmt_info ?mark s = stmt_info tb s" "trx_view (info ?mark s) = trx_view (info tb s)"
        using fresh [OF that] by (simp_all add: mark(3,5) f)
      ultimately show "stmt_info tb' s = stmt_info tb s" "trx_view (info tb' s) = trx_view (info tb s)"
        by simp_all
    qed
    show "tb_nbufslots tb' = tb_nbufslots tb"
      using tb'(3) nb by (simp add: filtered_def)
    show "tb_list tb' j = tb_list tb j" if "j < tb_nbufslots tb" for j
    proof -
      have "tb_list tb' j = filter (\<lambda>s. \<not> ts_self (tb_ts ?mark s)) (tb_list ?add j)"
        using tb'(3) that by (simp add: filtered_def mark(4) nb)
      also have "\<dots> = filter (\<lambda>s. s \<noteq> ?n) (tb_list ?add j)"
        using that self by (intro filter_cong) (auto simp: f in_lists_def split: if_splits)
      also have "\<dots> = tb_list tb j"
        using that fresh by (auto simp: f in_lists_def filter_id_conv)
      finally show ?thesis .
    qed
  qed
qed

text \<open>
  C20. Adding a statement makes its id read as the state of its transaction and changes the answer
  for no other id; marking it again and removing the marked statements takes that back, with the
  references it held.
\<close>

theorem trxbuf_add_remove:
  assumes "tb_reachable tb own" "0 < own i" "tb_find tb k = None" "unmarked tb"
  shows "dbe_trxbuf_gettrxstate (dbe_trxbuf_addstmt tb k i) l =
      (if l = k then gettrxstate_found (tb_ti tb i) else dbe_trxbuf_gettrxstate tb l) \<and>
    (\<exists>tb'. dbe_trxbuf_removemarked (dbe_trxbuf_marktoberemoved (dbe_trxbuf_addstmt tb k i) k) = Some tb' \<and>
      dbe_trxbuf_gettrxstate tb' l = dbe_trxbuf_gettrxstate tb l \<and> refs tb' i = refs tb i)"
proof -
  have inv: "tb_inv tb own" and i: "i < tb_nextti tb"
    using reachable_owned [OF assms(1)] assms(2) by (auto simp: tb_owned_def)
  obtain tb' where tb': "dbe_trxbuf_removemarked
      (dbe_trxbuf_marktoberemoved (dbe_trxbuf_addstmt tb k i) k) = Some tb'"
    "tb_find tb' = tb_find tb" "gettrxstate_notfound tb' = gettrxstate_notfound tb"
    "\<And>s. in_lists tb s \<Longrightarrow> stmt_info tb' s = stmt_info tb s \<and> trx_view (info tb' s) = trx_view (info tb s)"
    "tb_nbufslots tb' = tb_nbufslots tb" "\<And>j. j < tb_nbufslots tb \<Longrightarrow> tb_list tb' j = tb_list tb j"
    by (rule undo_add [OF inv i assms(3,4)]) blast
  have "dbe_trxbuf_gettrxstate tb' l = dbe_trxbuf_gettrxstate tb l"
  proof (rule gettrxstate_view)
    show "trx_view (info tb' s) = trx_view (info tb s)" if "tb_find tb l = Some s" for s
      using tb'(4) find_listed [OF inv that] by blast
  qed (simp_all add: tb'(2,3))
  moreover have "stmt_info tb' s = stmt_info tb s" if "j < tb_nbufslots tb" "s \<in> set (tb_list tb j)" for j s
    using tb'(4) [of s] that by (auto simp: in_lists_def)
  then have "refs tb' i = refs tb i"
    unfolding refs_def tb'(5)
    by (intro sum.cong refl arg_cong [where f = length] filter_cong) (auto simp: tb'(6))
  ultimately show ?thesis
    using add_view [OF inv i assms(3)] tb'(1) by blast
qed

theorem trxbuf_add_remove_witness:
  "dbe_trxbuf_gettrxstate (dbe_trxbuf_addstmt example_buffer 9 0) 9 =
      Some (DBE_TRXST_BEGIN, DBE_TRXNUM_NULL, 7) \<and>
    dbe_trxbuf_removemarked (dbe_trxbuf_marktoberemoved (dbe_trxbuf_addstmt example_buffer 9 0) 9) \<noteq> None"
proof -
  have "tb_find example_buffer 9 = None" "unmarked example_buffer"
    "gettrxstate_found (tb_ti example_buffer 0) = Some (DBE_TRXST_BEGIN, DBE_TRXNUM_NULL, 7)"
    by (auto simp: example_buffer_def tb_eval unmarked_def in_lists_def split: if_splits)
  then show ?thesis
    using trxbuf_add_remove [OF example_reachable, of 0 9 9] by auto
qed

text \<open>
  C19. Aborting a buffered statement makes its id read as aborted with the given number; no other id
  reads differently, except that the other statements of a transaction that was to be aborted read
  as open.
\<close>

theorem trxbuf_abortstmt_state:
  assumes "tb_reachable tb own" "tb_find tb k = Some ts"
  shows "\<exists>tb'. dbe_trxbuf_abortstmt tb num k = Some tb' \<and>
    dbe_trxbuf_gettrxstate tb' k = Some (DBE_TRXST_ABORT, num, k) \<and>
    (l = k \<or> dbe_trxbuf_gettrxstate tb' l =
      (case tb_find tb l of
         Some s \<Rightarrow> if stmt_info tb s = stmt_info tb ts \<and> dbe_trxinfo_istobeaborted (info tb ts)
           then Some (DBE_TRXST_BEGIN, DBE_TRXNUM_NULL, ti_usertrxid (info tb s))
           else dbe_trxbuf_gettrxstate tb l
       | None \<Rightarrow> dbe_trxbuf_gettrxstate tb l))"
proof -
  have inv: "tb_inv tb own"
    using reachable_tb_inv [OF assms(1)] .
  obtain tb' where tb': "dbe_trxbuf_abortstmt tb num k = Some tb'" "tb_find tb' = tb_find tb"
    "trx_view (info tb' ts) = (DBE_TRXST_ABORT, num, k)"
    "\<And>s. in_lists tb s \<Longrightarrow> s \<noteq> ts \<Longrightarrow> trx_view (info tb' s) =
      trx_view (if stmt_info tb s = stmt_info tb ts \<and> dbe_trxinfo_istobeaborted (info tb ts)
        then dbe_trxinfo_setbegin (info tb s) else info tb s)"
    "\<And>k. gettrxstate_notfound tb' k = gettrxstate_notfound tb k"
    by (rule abortstmt_ok [OF inv assms(2), of num]) blast
  have "gettrxstate_found (info tb' ts) = Some (DBE_TRXST_ABORT, num, k)"
    using tb'(3) by (simp add: trx_view_def gettrxstate_found_def dbe_trxinfo_getstate_def trxst_defs)
  then have "dbe_trxbuf_gettrxstate tb' k = Some (DBE_TRXST_ABORT, num, k)"
    using assms(2) by (simp add: dbe_trxbuf_gettrxstate_def tb'(2))
  moreover have "dbe_trxbuf_gettrxstate tb' l =
      (case tb_find tb l of
         Some s \<Rightarrow> if stmt_info tb s = stmt_info tb ts \<and> dbe_trxinfo_istobeaborted (info tb ts)
           then Some (DBE_TRXST_BEGIN, DBE_TRXNUM_NULL, ti_usertrxid (info tb s))
           else dbe_trxbuf_gettrxstate tb l
       | None \<Rightarrow> dbe_trxbuf_gettrxstate tb l)" if l: "l \<noteq> k"
  proof (cases "tb_find tb l")
    case None
    then show ?thesis
      by (simp add: dbe_trxbuf_gettrxstate_def tb'(2,5))
  next
    case (Some s)
    have "in_lists tb s" "s \<noteq> ts"
      using find_listed [OF inv Some] find_listed [OF inv assms(2)] l by auto
    moreover have "gettrxstate_found (dbe_trxinfo_setbegin ti) =
        Some (DBE_TRXST_BEGIN, DBE_TRXNUM_NULL, ti_usertrxid ti)" for ti
      by (simp add: gettrxstate_found_def dbe_trxinfo_getstate_def dbe_trxinfo_setbegin_def trxst_defs)
    ultimately show ?thesis
      using Some trx_view_is(5) [OF tb'(4)] by (simp add: dbe_trxbuf_gettrxstate_def tb'(2))
  qed
  ultimately show ?thesis
    using tb'(1) by blast
qed

theorem trxbuf_abortstmt_state_witness:
  "\<exists>tb'. dbe_trxbuf_abortstmt example_buffer 12 8 = Some tb' \<and>
    dbe_trxbuf_gettrxstate tb' 8 = Some (DBE_TRXST_ABORT, 12, 8) \<and>
    dbe_trxbuf_gettrxstate tb' 7 = Some (DBE_TRXST_BEGIN, DBE_TRXNUM_NULL, 7)"
proof -
  have "tb_find example_buffer 8 = Some 1" "tb_find example_buffer 7 = Some 0"
    "dbe_trxbuf_gettrxstate example_buffer 7 = Some (DBE_TRXST_BEGIN, DBE_TRXNUM_NULL, 7)"
    "\<not> dbe_trxinfo_istobeaborted (info example_buffer 1)"
    by (simp_all add: example_buffer_def tb_eval)
  then show ?thesis
    using trxbuf_abortstmt_state [OF example_reachable, of 8 1 12 7] by simp
qed

text \<open>
  C4. The clean after a merge does not hide a committed transaction, in the mode of a database with
  merges (\<open>tb_usevisiblealltrxid\<close>) and for a buffer without marked statements: an id that reads as
  committed reads after the clean as before, or its commit number was not above the level of the
  merge and it reads as committed at the level up to which everything is visible. The id is not that
  of an M-table transaction, whose statements the clean always removes, and not the masked one; the
  id, its commit number and the two levels lie in one window of the counter, and the transaction
  committed with a number not below its id.
\<close>

theorem trxbuf_clean_keeps_committed:
  assumes "tb_reachable tb own" "unmarked tb" "tb_usevisiblealltrxid tb"
    and "tb_find tb k = Some s" "dbe_trxbuf_gettrxstate tb k = Some (DBE_TRXST_COMMIT, c, u)"
    and "\<not> dbe_trxinfo_ismtabletrx (info tb s)" "tb_disabletrxid tb \<noteq> k"
    and "in_window base k" "in_window base c" "in_window base num" "in_window base (tb_visiblealltrxid tb)"
    and "dbe_trxid_cmp k c \<le> 0"
  shows "\<exists>tb' n. dbe_trxbuf_clean tb num msa oti = Some (tb', n) \<and>
    (dbe_trxbuf_gettrxstate tb' k = Some (DBE_TRXST_COMMIT, c, u) \<or>
     dbe_trxnum_cmp c num \<le> 0 \<and>
     dbe_trxbuf_gettrxstate tb' k =
       Some (DBE_TRXST_COMMIT, tb_visiblealltrxid tb', tb_visiblealltrxid tb'))"
proof -
  let ?P = "clean_removes num msa oti"
  have inv: "tb_inv tb own"
    using reachable_tb_inv [OF assms(1)] .
  have state: "gettrxstate_found (info tb s) = Some (DBE_TRXST_COMMIT, c, u)"
    using assms(4,5) by (simp add: dbe_trxbuf_gettrxstate_def)
  then have com: "dbe_trxinfo_iscommitted (info tb s)" "ti_committrxnum (info tb s) = c"
    by (auto simp: gettrxstate_found_def Let_def trxinfo_is_defs trxst_defs split: if_splits)
  obtain tb' where tb': "dbe_trxbuf_clean tb num msa oti =
      Some (tb', removed_count ?P tb [0..<tb_nbufslots tb])" "tb_inv tb' own"
    "filtered (\<lambda>s. \<not> ?P tb s) tb tb'"
    "tb_visiblealltrxid tb' = clean_level True num (tb_visiblealltrxid tb)"
    using clean_ok [OF inv assms(2), of num msa oti] assms(3) by auto
  have find': "tb_find tb' k = (if ?P tb s then None else Some s)"
    using filtered_find [OF inv tb'(2,3), of k] assms(4) by simp
  show ?thesis
  proof (cases "?P tb s")
    case False
    have "trx_view (info tb' s) = trx_view (info tb s)"
      using tb'(3) by (auto simp: filtered_def)
    then have "dbe_trxbuf_gettrxstate tb' k = Some (DBE_TRXST_COMMIT, c, u)"
      using False find' trx_view_is(5) [of "info tb' s" "info tb s"] state
      by (simp add: dbe_trxbuf_gettrxstate_def)
    then show ?thesis
      using tb'(1) by blast
  next
    case True
    have "\<not> dbe_trxinfo_isaborted (info tb s)"
      using com(1) by (simp add: trxinfo_is_defs trxst_defs)
    with True have low: "dbe_trxnum_cmp c num \<le> 0"
      using com assms(6) by (auto simp: clean_removes_def Let_def split: if_splits)
    have "dbe_trxid_cmp k (tb_visiblealltrxid tb') \<le> 0"
      using assms(8-12) low trxnum_window.le_iff [of base] trxnum_window.greater_iff [of base]
      by (auto simp: tb'(4) clean_level_def trxid_cmp_eq_trxnum_cmp)
    then have "dbe_trxbuf_gettrxstate tb' k =
        Some (DBE_TRXST_COMMIT, tb_visiblealltrxid tb', tb_visiblealltrxid tb')"
      using True find' assms(3,7) tb'(3)
      by (simp add: dbe_trxbuf_gettrxstate_def gettrxstate_notfound_def filtered_def)
    then show ?thesis
      using tb'(1) low by blast
  qed
qed

text \<open>The example transaction after its commit with number 10.\<close>

definition example_committed :: trxbuf where
  "example_committed =
    upd_ti 0 (\<lambda>ti. (dbe_trxinfo_setcommitted ti)\<lparr>ti_committrxnum := 10\<rparr>) example_buffer"

lemma example_committed_reachable: "tb_reachable example_committed ((\<lambda>_. 0)(0 := 1))"
  unfolding example_committed_def by (rule tb_reachable.info_change [OF example_reachable]) simp_all

lemma example_unmarked: "unmarked example_committed"
  by (auto simp: example_committed_def example_buffer_def tb_eval unmarked_def in_lists_def
      split: if_splits)

theorem trxbuf_clean_keeps_committed_witness:
  "\<exists>tb' n. dbe_trxbuf_clean example_committed 11 1 None = Some (tb', n) \<and>
    (dbe_trxbuf_gettrxstate tb' 8 = Some (DBE_TRXST_COMMIT, 10, 7) \<or>
     dbe_trxnum_cmp 10 11 \<le> 0 \<and>
     dbe_trxbuf_gettrxstate tb' 8 =
       Some (DBE_TRXST_COMMIT, tb_visiblealltrxid tb', tb_visiblealltrxid tb'))"
proof (rule trxbuf_clean_keeps_committed [OF example_committed_reachable example_unmarked, where base = 1])
  show "tb_find example_committed 8 = Some 1" "tb_usevisiblealltrxid example_committed"
    "dbe_trxbuf_gettrxstate example_committed 8 = Some (DBE_TRXST_COMMIT, 10, 7)"
    "\<not> dbe_trxinfo_ismtabletrx (info example_committed 1)" "tb_disabletrxid example_committed \<noteq> 8"
    "in_window 1 (tb_visiblealltrxid example_committed)" "dbe_trxid_cmp 8 10 \<le> 0"
    by (simp_all add: example_committed_def example_buffer_def tb_eval in_window_def window_pos_def)
qed (simp_all add: in_window_def window_pos_def)

text \<open>
  At the end of recovery in the mode of a database with merges no buffered statement is left
  open: what committed reads as before, everything else reads as aborted with the given number.
\<close>

theorem trxbuf_recovery_end:
  assumes "tb_reachable tb own" "tb_usevisiblealltrxid tb" "tb_find tb k = Some s"
  shows "\<exists>tb'. dbe_trxbuf_cleanuncommitted tb num = Some tb' \<and>
    dbe_trxbuf_gettrxstate tb' k =
      (if dbe_trxinfo_iscommitted (info tb s) then dbe_trxbuf_gettrxstate tb k
       else Some (DBE_TRXST_ABORT, num, ti_usertrxid (info tb s)))"
proof -
  let ?S = "stmt_info tb ` Collect (in_lists tb)"
  let ?tb' = "map_infos (uncommitted_aborted num) ?S tb"
  have "in_lists tb s"
    using find_listed [OF reachable_tb_inv [OF assms(1)] assms(3)] ..
  then have "info ?tb' s = uncommitted_aborted num (info tb s)"
    by (simp add: map_infos_def)
  then have "dbe_trxbuf_gettrxstate ?tb' k =
      (if dbe_trxinfo_iscommitted (info tb s) then dbe_trxbuf_gettrxstate tb k
       else Some (DBE_TRXST_ABORT, num, ti_usertrxid (info tb s)))"
    using assms(3) by (simp add: dbe_trxbuf_gettrxstate_def map_infos_find uncommitted_aborted_def
        gettrxstate_found_def dbe_trxinfo_getstate_def dbe_trxinfo_setaborted_def trxst_defs)
  then show ?thesis
    using cleanuncommitted_visible [OF assms(2), of num] by blast
qed

theorem trxbuf_recovery_end_witness:
  "\<exists>tb'. dbe_trxbuf_cleanuncommitted example_buffer 12 = Some tb' \<and>
    dbe_trxbuf_gettrxstate tb' 8 = Some (DBE_TRXST_ABORT, 12, 7)"
proof -
  have "tb_find example_buffer 8 = Some 1" "tb_usevisiblealltrxid example_buffer"
    "\<not> dbe_trxinfo_iscommitted (info example_buffer 1)" "ti_usertrxid (info example_buffer 1) = 7"
    by (simp_all add: example_buffer_def tb_eval)
  then show ?thesis
    using trxbuf_recovery_end [OF example_reachable, of 8 1 12] by simp
qed

text \<open>
  Masking a statement during roll-forward makes its id read as an open transaction of its own,
  changes the answer for no other id, and enabling it again restores the buffer.
\<close>

theorem trxbuf_disable_enable:
  assumes "tb_reachable tb own" "tb_find tb k = Some s" "k \<noteq> DBE_TRXID_NULL"
    and "tb_disabletrxid tb = DBE_TRXID_NULL" "tb_bsea_disabletrxid tb = DBE_TRXID_NULL"
  shows "\<exists>tb1. dbe_trxbuf_disablestmt tb k = Some (tb1, s) \<and>
    dbe_trxbuf_gettrxstate tb1 k = Some (DBE_TRXST_BEGIN, DBE_TRXNUM_NULL, k) \<and>
    (l = k \<or> l = DBE_TRXID_NULL \<or> dbe_trxbuf_gettrxstate tb1 l = dbe_trxbuf_gettrxstate tb l) \<and>
    dbe_trxbuf_enablestmt tb1 s k = tb"
proof -
  let ?tb1 = "(upd_ts s (\<lambda>s. s\<lparr>ts_stmttrxid := DBE_TRXID_NULL\<rparr>) tb)
    \<lparr>tb_disabletrxid := k, tb_bsea_disabletrxid := k\<rparr>"
  have inv: "tb_inv tb own"
    using reachable_tb_inv [OF assms(1)] .
  have s: "stmt_id tb s = k"
    using find_listed [OF inv assms(2)] ..
  have res: "dbe_trxbuf_disablestmt tb k = Some (?tb1, s)"
    using assms(2) by (simp add: dbe_trxbuf_disablestmt_def)
  have uniq: "t = s" if "t \<in> set (tb_table tb (tb_index tb l))" "stmt_id tb t = k" for t l
  proof -
    have "t \<in> set (chain_of tb (tb_index tb l))"
      using that(1) tb_table_chain [OF inv] by simp
    then have "tb_find tb k = Some t"
      unfolding tb_find_iff [OF inv] using that(2) tb_slot_less [OF inv, of l]
      by (auto simp: chain_of_def in_lists_def tb_slot_def)
    then show ?thesis
      using assms(2) by simp
  qed
  have index: "tb_index ?tb1 = tb_index tb"
    by (simp add: tb_index_def [abs_def])
  have "tb_find ?tb1 k = None"
    unfolding tb_find_def index find_None_iff using uniq assms(3) by auto
  then have "dbe_trxbuf_gettrxstate ?tb1 k = Some (DBE_TRXST_BEGIN, DBE_TRXNUM_NULL, k)"
    by (simp add: dbe_trxbuf_gettrxstate_def gettrxstate_notfound_def)
  moreover have "dbe_trxbuf_gettrxstate ?tb1 l = dbe_trxbuf_gettrxstate tb l"
    if l: "l \<noteq> k" "l \<noteq> DBE_TRXID_NULL"
  proof (rule gettrxstate_view)
    have "(stmt_id ?tb1 t = l) = (stmt_id tb t = l)" for t
      using l s by auto
    then show "tb_find ?tb1 l = tb_find tb l"
      unfolding tb_find_def index by simp
    show "gettrxstate_notfound ?tb1 l = gettrxstate_notfound tb l"
      using l assms(4) by (simp add: gettrxstate_notfound_def)
    show "trx_view (info ?tb1 t) = trx_view (info tb t)" for t
      by simp
  qed
  moreover have "dbe_trxbuf_enablestmt ?tb1 s k = tb"
    using s assms(4,5) by (auto simp: dbe_trxbuf_enablestmt_def upd_ts_def intro!: trxbuf.equality)
  ultimately show ?thesis
    using res by blast
qed

theorem trxbuf_disable_enable_witness:
  "\<exists>tb1. dbe_trxbuf_disablestmt example_buffer 8 = Some (tb1, 1) \<and>
    dbe_trxbuf_gettrxstate tb1 8 = Some (DBE_TRXST_BEGIN, DBE_TRXNUM_NULL, 8) \<and>
    dbe_trxbuf_gettrxstate tb1 7 = dbe_trxbuf_gettrxstate example_buffer 7 \<and>
    dbe_trxbuf_enablestmt tb1 1 8 = example_buffer"
proof -
  have "tb_find example_buffer 8 = Some 1" "tb_disabletrxid example_buffer = DBE_TRXID_NULL"
    "tb_bsea_disabletrxid example_buffer = DBE_TRXID_NULL"
    by (simp_all add: example_buffer_def tb_eval)
  then show ?thesis
    using trxbuf_disable_enable [OF example_reachable, of 8 1 7] by (simp add: DBE_TRXID_NULL_def)
qed

text \<open>
  The macros that set a state drop the flags: the M-table flag that \<^verbatim>\<open>dbe0trx.c\<close> sets before it
  ends a transaction is gone when the transaction is committed or aborted, so that the clean, which
  means to remove every ended M-table transaction, decides as if the flag had never been set.
\<close>

theorem mtable_flag_lost:
  "dbe_trxinfo_ismtabletrx (dbe_trxinfo_setmtabletrx ti) \<and>
    \<not> dbe_trxinfo_ismtabletrx (dbe_trxinfo_setcommitted (dbe_trxinfo_setmtabletrx ti)) \<and>
    \<not> dbe_trxinfo_ismtabletrx (dbe_trxinfo_setaborted (dbe_trxinfo_setmtabletrx ti)) \<and>
    clean_removes num msa oti (upd_ti i (\<lambda>ti. dbe_trxinfo_setcommitted (dbe_trxinfo_setmtabletrx ti)) tb) s =
      clean_removes num msa oti (upd_ti i dbe_trxinfo_setcommitted tb) s"
proof (intro conjI)
  have "(ti_state ti OR 64) AND 64 = (64 :: u32)"
    by (rule bit_eqI) (auto simp: bit_simps)
  then show "dbe_trxinfo_ismtabletrx (dbe_trxinfo_setmtabletrx ti)"
    by (simp add: dbe_trxinfo_ismtabletrx_def dbe_trxinfo_setmtabletrx_def DBE_TRXST_MTABLETRX_def)
  have "(\<lambda>ti. dbe_trxinfo_setcommitted (dbe_trxinfo_setmtabletrx ti)) = dbe_trxinfo_setcommitted"
    by (simp add: fun_eq_iff dbe_trxinfo_setcommitted_def dbe_trxinfo_setmtabletrx_def)
  then show "clean_removes num msa oti
      (upd_ti i (\<lambda>ti. dbe_trxinfo_setcommitted (dbe_trxinfo_setmtabletrx ti)) tb) s =
    clean_removes num msa oti (upd_ti i dbe_trxinfo_setcommitted tb) s"
    by simp
qed (simp_all add: dbe_trxinfo_ismtabletrx_def dbe_trxinfo_setcommitted_def
  dbe_trxinfo_setaborted_def DBE_TRXST_MTABLETRX_def DBE_TRXST_COMMIT_def DBE_TRXST_ABORT_def)

end
