(* ===== verification/Trx_List.thy ===== *)
theory Trx_List
  imports Ss_Limits Trx_Num
begin

text \<open>
  The transaction lists of a checkpoint, \<^verbatim>\<open>dbe/dbe8trxl.c\<close>, on block lists, \<^verbatim>\<open>dbe/dbe9blst.c\<close>:
  pairs of 32-bit numbers in a chain of disk blocks that is built from the end, each block with a
  header that counts its pairs and names the next block.

  The cache and the free list are other components. Of them the lists use that the free list hands
  out addresses (\<open>bd_free\<close>, the addresses it will hand out) and that a block reads back as what was
  last released as dirty (\<open>bd_block\<close>); a block reached for writing holds whatever was there before.
\<close>

section \<open>Block list headers\<close>

type_synonym daddr = u32

definition SU_DADDR_NULL :: daddr where "SU_DADDR_NULL = - 1"

definition DBE_BLOCK_TRXLIST :: u8 where "DBE_BLOCK_TRXLIST = 5"
definition DBE_BLOCK_STMTTRXLIST :: u8 where "DBE_BLOCK_STMTTRXLIST = 13"
definition DBE_BLOCK_RTRXLIST :: u8 where "DBE_BLOCK_RTRXLIST = 15"

definition DBE_BLOCKCPNUMOFFSET :: nat where "DBE_BLOCKCPNUMOFFSET = 1"
definition DBE_BLIST_NBLOCKSOFFSET :: nat where "DBE_BLIST_NBLOCKSOFFSET = 6"
definition DBE_BLIST_NEXTOFFSET :: nat where "DBE_BLIST_NEXTOFFSET = 8"
definition DBE_BLIST_DATAOFFSET :: nat where "DBE_BLIST_DATAOFFSET = 12"

record blheader =
  bl_type :: u8
  bl_cpnum :: u32
  bl_nblocks :: u16
  bl_next :: daddr

definition dbe_blh_init :: "u8 \<Rightarrow> u32 \<Rightarrow> blheader" where
  "dbe_blh_init type cpnum =
    \<lparr>bl_type = type, bl_cpnum = cpnum, bl_nblocks = 0, bl_next = SU_DADDR_NULL\<rparr>"

definition dbe_blh_get :: "u8 list \<Rightarrow> blheader" where
  "dbe_blh_get diskbuf =
    \<lparr>bl_type = diskbuf ! 0,
     bl_cpnum = SS_UINT4_LOADFROMDISK (drop DBE_BLOCKCPNUMOFFSET diskbuf),
     bl_nblocks = SS_UINT2_LOADFROMDISK (drop DBE_BLIST_NBLOCKSOFFSET diskbuf),
     bl_next = SS_UINT4_LOADFROMDISK (drop DBE_BLIST_NEXTOFFSET diskbuf)\<rparr>"

definition dbe_blh_put :: "blheader \<Rightarrow> u8 list \<Rightarrow> u8 list" where
  "dbe_blh_put hdr diskbuf =
    buf_write DBE_BLIST_NEXTOFFSET (SS_UINT4_STORETODISK (bl_next hdr))
      (buf_write DBE_BLIST_NBLOCKSOFFSET (SS_UINT2_STORETODISK (bl_nblocks hdr))
        (buf_write DBE_BLOCKCPNUMOFFSET (SS_UINT4_STORETODISK (bl_cpnum hdr))
          (buf_write 0 [bl_type hdr] diskbuf)))"

section \<open>Writing a list\<close>

record blockdev =
  bd_free :: "daddr list"
  bd_block :: "daddr \<Rightarrow> u8 list"

text \<open>\<open>trxl_diskbuf\<close> is the buffer of the block held in \<open>trxl_cacheslot\<close>, \<open>None\<close> when none is held.\<close>

record trxlist =
  trxl_type :: u8
  trxl_blocksize :: nat
  trxl_daddr :: daddr
  trxl_header :: blheader
  trxl_diskbuf :: "u8 list option"

definition DBE_TRXLNODE_CAPACITY :: "nat \<Rightarrow> nat" where
  "DBE_TRXLNODE_CAPACITY blocksize = (blocksize - DBE_BLIST_DATAOFFSET) div 8"

definition dbe_trxl_init :: "nat \<Rightarrow> u32 \<Rightarrow> u8 \<Rightarrow> trxlist" where
  "dbe_trxl_init blocksize cpnum blocktype =
    \<lparr>trxl_type = blocktype, trxl_blocksize = blocksize, trxl_daddr = SU_DADDR_NULL,
     trxl_header = dbe_blh_init blocktype cpnum, trxl_diskbuf = None\<rparr>"

text \<open>Both ends of a block: the header is put, the block released as dirty, the next one linked to it.\<close>

definition trxl_flush :: "blockdev \<Rightarrow> trxlist \<Rightarrow> u8 list \<Rightarrow> blockdev \<times> trxlist" where
  "trxl_flush bd l buf =
    (bd\<lparr>bd_block := (bd_block bd)(trxl_daddr l := dbe_blh_put (trxl_header l) buf)\<rparr>,
     l\<lparr>trxl_header := (trxl_header l)\<lparr>bl_nblocks := 0, bl_next := trxl_daddr l\<rparr>,
       trxl_diskbuf := None, trxl_daddr := SU_DADDR_NULL\<rparr>)"

text \<open>\<open>None\<close> is the error of the free list.\<close>

definition trxl_reach :: "blockdev \<Rightarrow> trxlist \<Rightarrow> (blockdev \<times> trxlist \<times> u8 list) option" where
  "trxl_reach bd l =
    (case trxl_diskbuf l of
       Some buf \<Rightarrow> Some (bd, l, buf)
     | None \<Rightarrow> (case bd_free bd of
         [] \<Rightarrow> None
       | a # free \<Rightarrow> Some (bd\<lparr>bd_free := free\<rparr>, l\<lparr>trxl_daddr := a\<rparr>, bd_block bd a)))"

definition trxl_addlocal :: "blockdev \<Rightarrow> trxlist \<Rightarrow> u32 \<Rightarrow> u32 \<Rightarrow> (blockdev \<times> trxlist) option" where
  "trxl_addlocal bd l trxnum1 trxnum2 =
    (case trxl_reach bd l of
       None \<Rightarrow> None
     | Some (bd1, l1, buf) \<Rightarrow>
         (let pos = DBE_BLIST_DATAOFFSET + unat (bl_nblocks (trxl_header l1)) * 8;
              buf1 = buf_write (pos + 4) (SS_UINT4_STORETODISK trxnum2)
                (buf_write pos (SS_UINT4_STORETODISK trxnum1) buf);
              l2 = l1\<lparr>trxl_header := (trxl_header l1)\<lparr>bl_nblocks := bl_nblocks (trxl_header l1) + 1\<rparr>\<rparr>
          in if unat (bl_nblocks (trxl_header l2)) = DBE_TRXLNODE_CAPACITY (trxl_blocksize l2)
             then Some (trxl_flush bd1 l2 buf1)
             else Some (bd1, l2\<lparr>trxl_diskbuf := Some buf1\<rparr>)))"

definition dbe_trxl_add ::
  "blockdev \<Rightarrow> trxlist \<Rightarrow> dbe_trxid_t \<Rightarrow> dbe_trxnum_t \<Rightarrow> (blockdev \<times> trxlist) option" where
  "dbe_trxl_add bd l usertrxid committrxnum = trxl_addlocal bd l usertrxid committrxnum"

definition dbe_trxl_addstmttrx ::
  "blockdev \<Rightarrow> trxlist \<Rightarrow> dbe_trxid_t \<Rightarrow> dbe_trxid_t \<Rightarrow> (blockdev \<times> trxlist) option" where
  "dbe_trxl_addstmttrx bd l usertrxid stmttrxid = trxl_addlocal bd l usertrxid stmttrxid"

definition dbe_trxl_addrtrx ::
  "blockdev \<Rightarrow> trxlist \<Rightarrow> dbe_trxid_t \<Rightarrow> dbe_trxid_t \<Rightarrow> (blockdev \<times> trxlist) option" where
  "dbe_trxl_addrtrx bd l remotetrxid localtrxid = trxl_addlocal bd l remotetrxid localtrxid"

text \<open>The address of the list; \<open>None\<close> is the null pointer followed when no block is held.\<close>

definition dbe_trxl_save :: "blockdev \<Rightarrow> trxlist \<Rightarrow> (blockdev \<times> trxlist \<times> daddr) option" where
  "dbe_trxl_save bd l =
    (if bl_nblocks (trxl_header l) > 0
     then (case trxl_diskbuf l of
         None \<Rightarrow> None
       | Some buf \<Rightarrow> (case trxl_flush bd l buf of (bd1, l1) \<Rightarrow> Some (bd1, l1, bl_next (trxl_header l1))))
     else Some (bd, l, bl_next (trxl_header l)))"

section \<open>Reading a list\<close>

record trxlist_iter =
  li_daddr :: daddr
  li_header :: blheader
  li_diskbuf :: "u8 list"
  li_pos :: u16

definition trxli_load :: "blockdev \<Rightarrow> daddr \<Rightarrow> trxlist_iter" where
  "trxli_load bd daddr =
    (let buf = bd_block bd daddr; hdr = dbe_blh_get buf
     in \<lparr>li_daddr = daddr, li_header = hdr, li_diskbuf = buf, li_pos = bl_nblocks hdr\<rparr>)"

definition dbe_trxli_init :: "blockdev \<Rightarrow> daddr \<Rightarrow> trxlist_iter option" where
  "dbe_trxli_init bd daddr =
    (if daddr = SU_DADDR_NULL \<or> daddr = 0 then None else Some (trxli_load bd daddr))"

text \<open>
  The loop that goes to the next block with pairs; it does not end on a cyclic chain of empty blocks.
  The inner \<open>None\<close> is the end of the list.
\<close>

partial_function (option) trxli_advance ::
  "blockdev \<Rightarrow> trxlist_iter \<Rightarrow> trxlist_iter option option" where
  "trxli_advance bd it =
    (if li_pos it \<noteq> 0 then Some (Some it)
     else if bl_next (li_header it) \<noteq> SU_DADDR_NULL
     then trxli_advance bd (trxli_load bd (bl_next (li_header it)))
     else Some None)"

definition trxli_getnextlocal ::
  "blockdev \<Rightarrow> trxlist_iter option \<Rightarrow> (trxlist_iter \<times> u32 \<times> u32) option option" where
  "trxli_getnextlocal bd p_trxli =
    (case p_trxli of
       None \<Rightarrow> Some None
     | Some it \<Rightarrow> map_option (map_option (\<lambda>it.
         (let it1 = it\<lparr>li_pos := li_pos it - 1\<rparr>;
              p = DBE_BLIST_DATAOFFSET + unat (li_pos it1) * 8
          in (it1, SS_UINT4_LOADFROMDISK (drop p (li_diskbuf it1)),
              SS_UINT4_LOADFROMDISK (drop (p + 4) (li_diskbuf it1)))))) (trxli_advance bd it))"

definition dbe_trxli_getnext ::
  "blockdev \<Rightarrow> trxlist_iter option \<Rightarrow> (trxlist_iter \<times> dbe_trxid_t \<times> dbe_trxnum_t) option option" where
  "dbe_trxli_getnext bd p_trxli = trxli_getnextlocal bd p_trxli"

definition dbe_trxli_getnextstmttrx ::
  "blockdev \<Rightarrow> trxlist_iter option \<Rightarrow> (trxlist_iter \<times> dbe_trxid_t \<times> dbe_trxid_t) option option" where
  "dbe_trxli_getnextstmttrx bd p_trxli = trxli_getnextlocal bd p_trxli"

definition dbe_trxli_getnextrtrx ::
  "blockdev \<Rightarrow> trxlist_iter option \<Rightarrow> (trxlist_iter \<times> dbe_trxid_t \<times> dbe_trxid_t) option option" where
  "dbe_trxli_getnextrtrx bd p_trxli = trxli_getnextlocal bd p_trxli"

text \<open>All pairs a reader gets, in the order it gets them.\<close>

partial_function (option) trxli_pairs ::
  "blockdev \<Rightarrow> trxlist_iter option \<Rightarrow> (u32 \<times> u32) list option" where
  "trxli_pairs bd p_trxli =
    (case trxli_getnextlocal bd p_trxli of
       None \<Rightarrow> None
     | Some None \<Rightarrow> Some []
     | Some (Some (it, e)) \<Rightarrow>
         Option.bind (trxli_pairs bd (Some it)) (\<lambda>es. Some (e # es)))"

section \<open>Deleting a list\<close>

text \<open>
  A block of the current checkpoint goes back to the free list, a block of an older one to the list
  of changed blocks with its checkpoint number; \<open>None\<close> is \<^verbatim>\<open>ss_error\<close> on a block from the future, or
  no end. The two lists are what the calls to the two components carry.
\<close>

partial_function (option) trxl_delete_loop ::
  "blockdev \<Rightarrow> u32 \<Rightarrow> daddr \<Rightarrow> (daddr list \<times> (u32 \<times> daddr) list) option" where
  "trxl_delete_loop bd cpnum start_daddr =
    (if start_daddr = SU_DADDR_NULL then Some ([], [])
     else let hdr = dbe_blh_get (bd_block bd start_daddr) in
       if bl_cpnum hdr > cpnum then None
       else Option.bind (trxl_delete_loop bd cpnum (bl_next hdr)) (\<lambda>(freed, changed).
         if bl_cpnum hdr = cpnum then Some (start_daddr # freed, changed)
         else Some (freed, (bl_cpnum hdr, start_daddr) # changed)))"

definition dbe_trxl_deletefromdisk ::
  "blockdev \<Rightarrow> u32 \<Rightarrow> daddr \<Rightarrow> (daddr list \<times> (u32 \<times> daddr) list) option" where
  "dbe_trxl_deletefromdisk bd cpnum start_daddr =
    (if start_daddr = 0 then Some ([], []) else trxl_delete_loop bd cpnum start_daddr)"

end
