(* ===== verification/Trx_List_Disk.thy ===== *)
theory Trx_List_Disk
  imports Trx_List
begin

text \<open>
  What was added to a transaction list is what a reader gets from the disk, the last pair first, and
  deleting the list gives back exactly the blocks it took.
\<close>

section \<open>Buffers\<close>

lemma take_drop_buf_write:
  assumes "p + length bs \<le> length buf" "q + n \<le> p \<or> p + length bs \<le> q"
  shows "take n (drop q (buf_write p bs buf)) = take n (drop q buf)"
  using assms
proof (elim disjE)
  assume "q + n \<le> p"
  then show ?thesis
    using assms(1) by (simp add: buf_write_def take_drop)
next
  assume q: "p + length bs \<le> q"
  then have "drop q (buf_write p bs buf) = drop q buf"
    using assms(1) by (simp add: buf_write_def)
  then show ?thesis
    by simp
qed

lemma drop_buf_write: "p + length bs \<le> length buf \<Longrightarrow> drop p (buf_write p bs buf) = bs @ drop (p + length bs) buf"
  by (simp add: buf_write_def)

lemma load4_take: "SS_UINT4_LOADFROMDISK (take 4 xs) = SS_UINT4_LOADFROMDISK xs"
proof (cases "4 \<le> length xs")
  case True
  then obtain a b c d ys where "xs = a # b # c # d # ys"
    by (metis Suc_le_length_iff numeral_eq_Suc pred_numeral_simps(2,3) BitM.simps)
  then show ?thesis
    by simp
qed simp

lemma load2_take: "SS_UINT2_LOADFROMDISK (take 2 xs) = SS_UINT2_LOADFROMDISK xs"
proof (cases "2 \<le> length xs")
  case True
  then obtain a b ys where "xs = a # b # ys"
    by (metis Suc_le_length_iff numeral_2_eq_2)
  then show ?thesis
    by simp
qed simp

lemma load4_other:
  "p + length bs \<le> length buf \<Longrightarrow> q + 4 \<le> p \<or> p + length bs \<le> q \<Longrightarrow>
    SS_UINT4_LOADFROMDISK (drop q (buf_write p bs buf)) = SS_UINT4_LOADFROMDISK (drop q buf)"
  using take_drop_buf_write [of p bs buf q 4] load4_take by metis

lemma load2_other:
  "p + length bs \<le> length buf \<Longrightarrow> q + 2 \<le> p \<or> p + length bs \<le> q \<Longrightarrow>
    SS_UINT2_LOADFROMDISK (drop q (buf_write p bs buf)) = SS_UINT2_LOADFROMDISK (drop q buf)"
  using take_drop_buf_write [of p bs buf q 2] load2_take by metis

lemma load4_written:
  "p + 4 \<le> length buf \<Longrightarrow> SS_UINT4_LOADFROMDISK (drop p (buf_write p (SS_UINT4_STORETODISK v) buf)) = v"
  by (simp add: drop_buf_write)

lemma load2_written:
  "p + 2 \<le> length buf \<Longrightarrow> SS_UINT2_LOADFROMDISK (drop p (buf_write p (SS_UINT2_STORETODISK v) buf)) = v"
  by (simp add: drop_buf_write)

lemma nth_0_other: "0 < p \<Longrightarrow> p + length bs \<le> length buf \<Longrightarrow> buf_write p bs buf ! 0 = buf ! 0"
  by (auto simp: buf_write_def nth_append)

lemmas bl_offsets = DBE_BLOCKCPNUMOFFSET_def DBE_BLIST_NBLOCKSOFFSET_def DBE_BLIST_NEXTOFFSET_def
  DBE_BLIST_DATAOFFSET_def

lemma blh_put_length [simp]: "12 \<le> length buf \<Longrightarrow> length (dbe_blh_put hdr buf) = length buf"
  by (simp add: dbe_blh_put_def bl_offsets)

lemma blh_get_put: "12 \<le> length buf \<Longrightarrow> dbe_blh_get (dbe_blh_put hdr buf) = hdr"
  by (simp add: dbe_blh_get_def dbe_blh_put_def bl_offsets load4_written load4_other load2_written
      load2_other nth_0_other)

text \<open>The pair with number \<open>i\<close> of a block.\<close>

definition pair_at :: "u8 list \<Rightarrow> nat \<Rightarrow> u32 \<times> u32" where
  "pair_at buf i = (SS_UINT4_LOADFROMDISK (drop (12 + i * 8) buf),
    SS_UINT4_LOADFROMDISK (drop (12 + i * 8 + 4) buf))"

lemma pair_at_put: "12 \<le> length buf \<Longrightarrow> pair_at (dbe_blh_put hdr buf) i = pair_at buf i"
  by (simp add: pair_at_def dbe_blh_put_def bl_offsets load4_other del: buf_write_0)

lemma pair_at_write:
  assumes "12 + i * 8 + 8 \<le> length buf"
  shows "pair_at (buf_write (12 + i * 8 + 4) (SS_UINT4_STORETODISK n2)
      (buf_write (12 + i * 8) (SS_UINT4_STORETODISK n1) buf)) j =
    (if j = i then (n1, n2) else pair_at buf j)"
proof -
  have "j * 8 + 8 \<le> i * 8 \<or> i * 8 + 8 \<le> j * 8" if "j \<noteq> i"
    using that by linarith
  then show ?thesis
    using assms by (auto simp: pair_at_def load4_written load4_other)
qed

section \<open>Stored lists\<close>

text \<open>The blocks from an address on, with their addresses and pairs.\<close>

fun stored :: "u32 \<Rightarrow> (daddr \<Rightarrow> u8 list) \<Rightarrow> daddr \<Rightarrow> (daddr \<times> (u32 \<times> u32) list) list \<Rightarrow> bool" where
  "stored cp block d [] \<longleftrightarrow> d = SU_DADDR_NULL"
| "stored cp block d ((a, es) # bs) \<longleftrightarrow> d = a \<and> a \<noteq> SU_DADDR_NULL \<and> a \<noteq> 0 \<and> es \<noteq> [] \<and>
    unat (bl_nblocks (dbe_blh_get (block a))) = length es \<and>
    bl_cpnum (dbe_blh_get (block a)) = cp \<and>
    (\<forall>i<length es. pair_at (block a) i = es ! i) \<and>
    stored cp block (bl_next (dbe_blh_get (block a))) bs"

lemma stored_cong:
  "(\<And>a. a \<in> fst ` set bs \<Longrightarrow> block' a = block a) \<Longrightarrow> stored cp block' d bs = stored cp block d bs"
proof (induction bs arbitrary: d)
  case (Cons b bs)
  then show ?case
    by (cases b) auto
qed simp

lemma advance_here: "li_pos it \<noteq> 0 \<Longrightarrow> trxli_advance bd it = Some (Some it)"
  by (subst trxli_advance.simps) simp

lemma advance_next:
  "li_pos it = 0 \<Longrightarrow> bl_next (li_header it) \<noteq> SU_DADDR_NULL \<Longrightarrow>
    trxli_advance bd it = trxli_advance bd (trxli_load bd (bl_next (li_header it)))"
  by (subst trxli_advance.simps) simp

lemma advance_end:
  "li_pos it = 0 \<Longrightarrow> bl_next (li_header it) = SU_DADDR_NULL \<Longrightarrow> trxli_advance bd it = Some None"
  by (subst trxli_advance.simps) simp

lemma pairs_same:
  "trxli_advance bd it' = trxli_advance bd it \<Longrightarrow> trxli_pairs bd (Some it') = trxli_pairs bd (Some it)"
  by (subst (1 2) trxli_pairs.simps) (simp add: trxli_getnextlocal_def)

text \<open>Reading the pairs of one block before a position, and then the rest.\<close>

lemma pairs_block:
  assumes "\<And>i. i < length es \<Longrightarrow> pair_at (li_diskbuf it) i = es ! i"
    and "bl_next (li_header it) = SU_DADDR_NULL \<and> R = [] \<or>
      bl_next (li_header it) \<noteq> SU_DADDR_NULL \<and>
      trxli_pairs bd (Some (trxli_load bd (bl_next (li_header it)))) = Some R"
    and "unat (li_pos it) \<le> length es"
  shows "trxli_pairs bd (Some it) = Some (rev (take (unat (li_pos it)) es) @ R)"
  using assms
proof (induction "unat (li_pos it)" arbitrary: it)
  case 0
  then have pos: "li_pos it = 0"
    by (simp add: unat_eq_zero)
  show ?case
  proof (cases "bl_next (li_header it) = SU_DADDR_NULL")
    case True
    then show ?thesis
      using 0 pos advance_end [OF pos True]
      by (subst trxli_pairs.simps) (simp add: trxli_getnextlocal_def)
  next
    case False
    then show ?thesis
      using 0 pos pairs_same [OF advance_next [OF pos False]] by simp
  qed
next
  case (Suc k)
  let ?it1 = "it\<lparr>li_pos := li_pos it - 1\<rparr>"
  have pos: "li_pos it \<noteq> 0"
    using Suc.hyps(2) by auto
  then have k: "unat (li_pos it - 1) = k"
    using Suc.hyps(2) by (simp add: unat_minus_one)
  have "trxli_getnextlocal bd (Some it) = Some (Some (?it1, es ! k))"
    using Suc.prems(1) [of k] Suc.prems(3) Suc.hyps(2) k
    by (simp add: trxli_getnextlocal_def advance_here [OF pos] Let_def pair_at_def bl_offsets)
  moreover have "trxli_pairs bd (Some ?it1) = Some (rev (take k es) @ R)"
    using Suc.hyps(1) [of ?it1] Suc.prems Suc.hyps(2) k by simp
  ultimately have "trxli_pairs bd (Some it) = Some (es ! k # rev (take k es) @ R)"
    by (subst trxli_pairs.simps) simp
  then show ?case
    using Suc.prems(3) by (simp add: Suc.hyps(2) [symmetric] take_Suc_conv_app_nth)
qed

lemma pairs_stored:
  "stored cp (bd_block bd) d bs \<Longrightarrow> bs \<noteq> [] \<Longrightarrow>
    trxli_pairs bd (Some (trxli_load bd d)) = Some (concat (map (\<lambda>b. rev (snd b)) bs))"
proof (induction bs arbitrary: d)
  case (Cons b bs)
  obtain a es where b: "b = (a, es)"
    by (cases b)
  let ?it = "trxli_load bd a"
  have it: "li_diskbuf ?it = bd_block bd a" "li_header ?it = dbe_blh_get (bd_block bd a)"
    "li_pos ?it = bl_nblocks (dbe_blh_get (bd_block bd a))"
    by (simp_all add: trxli_load_def Let_def)
  have s: "d = a" "unat (bl_nblocks (dbe_blh_get (bd_block bd a))) = length es"
    "\<forall>i<length es. pair_at (bd_block bd a) i = es ! i"
    "stored cp (bd_block bd) (bl_next (dbe_blh_get (bd_block bd a))) bs"
    using Cons.prems by (simp_all add: b)
  have "trxli_pairs bd (Some ?it) =
      Some (rev (take (unat (li_pos ?it)) es) @ concat (map (\<lambda>b. rev (snd b)) bs))"
  proof (rule pairs_block)
    show "bl_next (li_header ?it) = SU_DADDR_NULL \<and> concat (map (\<lambda>b. rev (snd b)) bs) = [] \<or>
      bl_next (li_header ?it) \<noteq> SU_DADDR_NULL \<and>
      trxli_pairs bd (Some (trxli_load bd (bl_next (li_header ?it)))) = Some (concat (map (\<lambda>b. rev (snd b)) bs))"
    proof (cases bs)
      case (Cons c cs)
      then show ?thesis
        using Cons.IH [OF s(4)] s(4) it(2) by (cases c) auto
    qed (use s(4) it(2) in simp)
  qed (use s it in auto)
  then show ?case
    using s(1,2) it(3) by (simp add: b)
qed simp

lemma delete_stored:
  "stored cp (bd_block bd) d bs \<Longrightarrow> trxl_delete_loop bd cp d = Some (map fst bs, [])"
proof (induction bs arbitrary: d)
  case Nil
  then show ?case
    by (subst trxl_delete_loop.simps) simp
next
  case (Cons b bs)
  then show ?case
    by (cases b) (subst trxl_delete_loop.simps, simp add: Let_def)
qed

section \<open>The writer\<close>

definition device_ok :: "nat \<Rightarrow> blockdev \<Rightarrow> bool" where
  "device_ok bsize bd \<longleftrightarrow> distinct (bd_free bd) \<and> SU_DADDR_NULL \<notin> set (bd_free bd) \<and>
    0 \<notin> set (bd_free bd) \<and> (\<forall>a. length (bd_block bd a) = bsize)"

definition blocksize_ok :: "nat \<Rightarrow> bool" where
  "blocksize_ok bsize \<longleftrightarrow> 20 \<le> bsize \<and> bsize < 524288"

lemma capacity_bounds:
  assumes "blocksize_ok bsize"
  shows "0 < DBE_TRXLNODE_CAPACITY bsize" "DBE_TRXLNODE_CAPACITY bsize < 65536"
    "12 + DBE_TRXLNODE_CAPACITY bsize * 8 \<le> bsize"
  using assms unfolding blocksize_ok_def DBE_TRXLNODE_CAPACITY_def bl_offsets by presburger+

text \<open>The block that is being filled, with the pairs in it.\<close>

definition current_ok :: "nat \<Rightarrow> trxlist \<Rightarrow> (u32 \<times> u32) list \<Rightarrow> bool" where
  "current_ok bsize l cur \<longleftrightarrow> unat (bl_nblocks (trxl_header l)) = length cur \<and>
    (case trxl_diskbuf l of
       None \<Rightarrow> cur = []
     | Some buf \<Rightarrow> cur \<noteq> [] \<and> length buf = bsize \<and> (\<forall>i<length cur. pair_at buf i = cur ! i))"

text \<open>
  The state of a writer that added \<open>xs\<close> to a list: the blocks released so far, the block held, and
  the addresses taken from the free list \<open>free0\<close>.
\<close>

definition writer_ok ::
  "nat \<Rightarrow> u32 \<Rightarrow> daddr list \<Rightarrow> (u32 \<times> u32) list \<Rightarrow> blockdev \<Rightarrow> trxlist \<Rightarrow> bool" where
  "writer_ok bsize cp free0 xs bd l \<longleftrightarrow> (\<exists>bs cur.
    xs = concat (map snd (rev bs)) @ cur \<and> stored cp (bd_block bd) (bl_next (trxl_header l)) bs \<and>
    current_ok bsize l cur \<and> length cur < DBE_TRXLNODE_CAPACITY bsize \<and>
    trxl_blocksize l = bsize \<and> bl_cpnum (trxl_header l) = cp \<and>
    (\<forall>a. length (bd_block bd a) = bsize) \<and> distinct free0 \<and> SU_DADDR_NULL \<notin> set free0 \<and> 0 \<notin> set free0 \<and>
    free0 = rev (map fst bs) @ (if trxl_diskbuf l = None then [] else [trxl_daddr l]) @ bd_free bd)"

lemma writer_init:
  assumes "device_ok bsize bd" "blocksize_ok bsize"
  shows "writer_ok bsize cp (bd_free bd) [] bd (dbe_trxl_init bsize cp type)"
  using assms capacity_bounds [OF assms(2)] unfolding writer_ok_def
  by (intro exI [of _ "[]"]) (simp add: dbe_trxl_init_def dbe_blh_init_def current_ok_def device_ok_def)

text \<open>A full block, or the last one, is released and becomes the head of the stored list.\<close>

lemma flush_stored:
  assumes "stored cp (bd_block bd) (bl_next (trxl_header l)) bs" "trxl_daddr l \<notin> fst ` set bs"
    and "trxl_daddr l \<noteq> SU_DADDR_NULL" "trxl_daddr l \<noteq> 0" "12 \<le> length buf" "cur \<noteq> []"
    and "unat (bl_nblocks (trxl_header l)) = length cur" "bl_cpnum (trxl_header l) = cp"
    and "\<forall>i<length cur. pair_at buf i = cur ! i" "trxl_flush bd l buf = (bd', l')"
  shows "stored cp (bd_block bd') (bl_next (trxl_header l')) ((trxl_daddr l, cur) # bs)"
proof -
  have "stored cp ((bd_block bd)(trxl_daddr l := dbe_blh_put (trxl_header l) buf))
      (bl_next (trxl_header l)) bs"
    using assms(1,2) stored_cong [of bs "(bd_block bd)(trxl_daddr l := dbe_blh_put (trxl_header l) buf)"
        "bd_block bd"] by (metis (no_types, lifting) fun_upd_other)
  then show ?thesis
    using assms by (auto simp: trxl_flush_def blh_get_put pair_at_put)
qed

lemma writer_add:
  assumes w: "writer_ok bsize cp free0 xs bd l" and bsize: "blocksize_ok bsize"
    and free: "bd_free bd \<noteq> [] \<or> trxl_diskbuf l \<noteq> None"
  shows "\<exists>bd' l'. trxl_addlocal bd l n1 n2 = Some (bd', l') \<and>
    writer_ok bsize cp free0 (xs @ [(n1, n2)]) bd' l' \<and> length (bd_free bd) \<le> length (bd_free bd') + 1"
proof -
  let ?cap = "DBE_TRXLNODE_CAPACITY bsize"
  note cap = capacity_bounds [OF bsize]
  obtain bs cur where s: "xs = concat (map snd (rev bs)) @ cur"
    "stored cp (bd_block bd) (bl_next (trxl_header l)) bs" "current_ok bsize l cur" "length cur < ?cap"
    "trxl_blocksize l = bsize" "bl_cpnum (trxl_header l) = cp" "\<And>a. length (bd_block bd a) = bsize"
    "distinct free0" "SU_DADDR_NULL \<notin> set free0" "0 \<notin> set free0"
    "free0 = rev (map fst bs) @ (if trxl_diskbuf l = None then [] else [trxl_daddr l]) @ bd_free bd"
    using w unfolding writer_ok_def by blast
  obtain bd1 l1 buf where reach: "trxl_reach bd l = Some (bd1, l1, buf)"
    and r: "trxl_header l1 = trxl_header l" "trxl_blocksize l1 = bsize" "bd_block bd1 = bd_block bd"
      "length buf = bsize" "free0 = rev (map fst bs) @ [trxl_daddr l1] @ bd_free bd1"
      "\<forall>i<length cur. pair_at buf i = cur ! i" "length (bd_free bd) \<le> length (bd_free bd1) + 1"
  proof (cases "trxl_diskbuf l")
    case (Some buf)
    then show ?thesis
      using that [of bd l buf] s(3,5,11) by (simp add: trxl_reach_def current_ok_def)
  next
    case None
    then obtain a free where "bd_free bd = a # free"
      using free by (cases "bd_free bd") auto
    then show ?thesis
      using that [of "bd\<lparr>bd_free := free\<rparr>" "l\<lparr>trxl_daddr := a\<rparr>" "bd_block bd a"] s(3,5,7,11) None
      by (simp add: trxl_reach_def current_ok_def)
  qed
  have fresh: "trxl_daddr l1 \<notin> fst ` set bs" "trxl_daddr l1 \<noteq> SU_DADDR_NULL" "trxl_daddr l1 \<noteq> 0"
    using s(8-10) r(5) by auto
  have nb: "unat (bl_nblocks (trxl_header l)) = length cur"
    using s(3) by (simp add: current_ok_def)
  have nb1: "unat (bl_nblocks (trxl_header l) + 1) = length cur + 1"
    using nb s(4) cap(2) by (subst unat_add_lem [THEN iffD1]) simp_all
  define buf1 where "buf1 = buf_write (12 + length cur * 8 + 4) (SS_UINT4_STORETODISK n2)
    (buf_write (12 + length cur * 8) (SS_UINT4_STORETODISK n1) buf)"
  define l2 where "l2 = l1\<lparr>trxl_header := (trxl_header l)\<lparr>bl_nblocks := bl_nblocks (trxl_header l) + 1\<rparr>\<rparr>"
  have fits: "12 + length cur * 8 + 8 \<le> length buf"
    using s(4) cap(3) r(4) by linarith
  have len: "length buf1 = bsize"
    using fits r(4) by (simp add: buf1_def)
  have pair: "pair_at buf1 j = (if j = length cur then (n1, n2) else pair_at buf j)" for j
    unfolding buf1_def by (rule pair_at_write [OF fits])
  have pairs: "\<forall>i<length (cur @ [(n1, n2)]). pair_at buf1 i = (cur @ [(n1, n2)]) ! i"
    using r(6) by (auto simp: pair nth_append less_Suc_eq)
  have add: "trxl_addlocal bd l n1 n2 =
      (if length cur + 1 = ?cap then Some (trxl_flush bd1 l2 buf1) else Some (bd1, l2\<lparr>trxl_diskbuf := Some buf1\<rparr>))"
    using reach r(1,2) nb nb1 by (simp add: trxl_addlocal_def Let_def bl_offsets buf1_def l2_def)
  show ?thesis
  proof (cases "length cur + 1 = ?cap")
    case False
    let ?l' = "l2\<lparr>trxl_diskbuf := Some buf1\<rparr>"
    have "writer_ok bsize cp free0 (xs @ [(n1, n2)]) bd1 ?l'"
      unfolding writer_ok_def
      using False s(1,2,4,6-10) r(1-5) pairs len nb1
      by (intro exI [of _ bs] exI [of _ "cur @ [(n1, n2)]"]) (auto simp: l2_def current_ok_def)
    then show ?thesis
      using add False r(7) by auto
  next
    case True
    obtain bd' l' where flush: "trxl_flush bd1 l2 buf1 = (bd', l')"
      by (cases "trxl_flush bd1 l2 buf1")
    have "stored cp (bd_block bd') (bl_next (trxl_header l')) ((trxl_daddr l2, cur @ [(n1, n2)]) # bs)"
      by (rule flush_stored [OF _ _ _ _ _ _ _ _ pairs flush])
        (use s(2,6) r(1,3) fresh nb1 len bsize in \<open>auto simp: l2_def blocksize_ok_def\<close>)
    moreover have "bd_free bd' = bd_free bd1" "\<And>a. length (bd_block bd' a) = bsize"
      "trxl_diskbuf l' = None" "unat (bl_nblocks (trxl_header l')) = 0" "trxl_blocksize l' = bsize"
      "bl_cpnum (trxl_header l') = cp"
      using flush s(6,7) r(2,3) len bsize
      by (auto simp: trxl_flush_def l2_def blocksize_ok_def)
    ultimately have "writer_ok bsize cp free0 (xs @ [(n1, n2)]) bd' l'"
      unfolding writer_ok_def using s(1,8-10) r(5) cap(1)
      by (intro exI [of _ "(trxl_daddr l2, cur @ [(n1, n2)]) # bs"] exI [of _ "[]"])
        (auto simp: current_ok_def l2_def)
    then show ?thesis
      using add True flush r(7) \<open>bd_free bd' = bd_free bd1\<close> by auto
  qed
qed

text \<open>Adding a list of pairs, as the callers do.\<close>

fun trxl_addall :: "blockdev \<Rightarrow> trxlist \<Rightarrow> (u32 \<times> u32) list \<Rightarrow> (blockdev \<times> trxlist) option" where
  "trxl_addall bd l [] = Some (bd, l)"
| "trxl_addall bd l ((n1, n2) # xs) =
    (case trxl_addlocal bd l n1 n2 of None \<Rightarrow> None | Some (bd1, l1) \<Rightarrow> trxl_addall bd1 l1 xs)"

lemma writer_addall:
  assumes "blocksize_ok bsize"
  shows "writer_ok bsize cp free0 ys bd l \<Longrightarrow> length xs \<le> length (bd_free bd) \<Longrightarrow>
    \<exists>bd' l'. trxl_addall bd l xs = Some (bd', l') \<and> writer_ok bsize cp free0 (ys @ xs) bd' l'"
proof (induction xs arbitrary: ys bd l)
  case (Cons x xs)
  obtain n1 n2 where x: "x = (n1, n2)"
    by (cases x)
  obtain bd1 l1 where "trxl_addlocal bd l n1 n2 = Some (bd1, l1)"
    "writer_ok bsize cp free0 (ys @ [x]) bd1 l1" "length (bd_free bd) \<le> length (bd_free bd1) + 1"
    using writer_add [OF Cons.prems(1) assms, of n1 n2] Cons.prems(2) unfolding x by fastforce
  then show ?case
    using Cons.IH [of "ys @ [x]" bd1 l1] Cons.prems(2) by (simp add: x)
qed auto

lemma writer_save:
  assumes w: "writer_ok bsize cp free0 xs bd l" and bsize: "blocksize_ok bsize"
  shows "\<exists>bd' l' a bs. dbe_trxl_save bd l = Some (bd', l', a) \<and> stored cp (bd_block bd') a bs \<and>
    xs = concat (map snd (rev bs)) \<and> free0 = rev (map fst bs) @ bd_free bd'"
proof -
  obtain bs cur where s: "xs = concat (map snd (rev bs)) @ cur"
    "stored cp (bd_block bd) (bl_next (trxl_header l)) bs" "current_ok bsize l cur"
    "bl_cpnum (trxl_header l) = cp" "distinct free0" "SU_DADDR_NULL \<notin> set free0" "0 \<notin> set free0"
    "free0 = rev (map fst bs) @ (if trxl_diskbuf l = None then [] else [trxl_daddr l]) @ bd_free bd"
    using w unfolding writer_ok_def by blast
  show ?thesis
  proof (cases "trxl_diskbuf l")
    case None
    then have "bl_nblocks (trxl_header l) = 0" "cur = []"
      using s(3) by (auto simp: current_ok_def unat_eq_zero)
    then show ?thesis
      using None s by (intro exI [of _ bd] exI [of _ l] exI [of _ "bl_next (trxl_header l)"] exI [of _ bs])
        (simp add: dbe_trxl_save_def)
  next
    case (Some buf)
    obtain bd' l' where flush: "trxl_flush bd l buf = (bd', l')"
      by (cases "trxl_flush bd l buf")
    have cur: "cur \<noteq> []" "length buf = bsize" "\<forall>i<length cur. pair_at buf i = cur ! i"
      "unat (bl_nblocks (trxl_header l)) = length cur"
      using s(3) Some by (auto simp: current_ok_def)
    have "stored cp (bd_block bd') (bl_next (trxl_header l')) ((trxl_daddr l, cur) # bs)"
      by (rule flush_stored [OF s(2) _ _ _ _ cur(1,4) s(4) cur(3) flush])
        (use s Some cur bsize in \<open>auto simp: blocksize_ok_def\<close>)
    moreover have "bl_nblocks (trxl_header l) > 0"
      using cur(1,4) by (metis length_0_conv unat_0 word_gt_0)
    moreover have "bd_free bd' = bd_free bd"
      using flush by (auto simp: trxl_flush_def)
    ultimately show ?thesis
      using Some s flush
      by (intro exI [of _ bd'] exI [of _ l'] exI [of _ "bl_next (trxl_header l')"]
          exI [of _ "(trxl_daddr l, cur) # bs"]) (simp add: dbe_trxl_save_def)
  qed
qed

lemma trxl_written:
  assumes "blocksize_ok bsize" "device_ok bsize bd" "length xs \<le> length (bd_free bd)"
  shows "\<exists>bd1 l1 bd2 l2 a freed.
    trxl_addall bd (dbe_trxl_init bsize cp type) xs = Some (bd1, l1) \<and>
    dbe_trxl_save bd1 l1 = Some (bd2, l2, a) \<and>
    trxli_pairs bd2 (dbe_trxli_init bd2 a) = Some (rev xs) \<and>
    dbe_trxl_deletefromdisk bd2 cp a = Some (freed, []) \<and> bd_free bd = rev freed @ bd_free bd2"
proof -
  obtain bd1 l1 where add: "trxl_addall bd (dbe_trxl_init bsize cp type) xs = Some (bd1, l1)"
    "writer_ok bsize cp (bd_free bd) xs bd1 l1"
    using writer_addall [OF assms(1) writer_init [OF assms(2,1), of cp type] assms(3)] by auto
  obtain bd2 l2 a bs where save: "dbe_trxl_save bd1 l1 = Some (bd2, l2, a)"
    "stored cp (bd_block bd2) a bs" "xs = concat (map snd (rev bs))"
    "bd_free bd = rev (map fst bs) @ bd_free bd2"
    using writer_save [OF add(2) assms(1)] by blast
  have "trxli_pairs bd2 (dbe_trxli_init bd2 a) = Some (rev xs)"
  proof (cases bs)
    case Nil
    then show ?thesis
      using save(2,3) by (subst trxli_pairs.simps) (simp add: dbe_trxli_init_def trxli_getnextlocal_def)
  next
    case (Cons b bs')
    then have "dbe_trxli_init bd2 a = Some (trxli_load bd2 a)"
      using save(2) by (cases b) (simp add: dbe_trxli_init_def)
    moreover have "rev xs = concat (map (\<lambda>b. rev (snd b)) bs)"
      by (simp add: save(3) rev_concat rev_map o_def)
    ultimately show ?thesis
      using pairs_stored [OF save(2)] Cons by simp
  qed
  moreover have "a \<noteq> 0"
    using save(2) by (cases bs) (auto simp: SU_DADDR_NULL_def)
  then have "dbe_trxl_deletefromdisk bd2 cp a = Some (map fst bs, [])"
    using delete_stored [OF save(2)] by (simp add: dbe_trxl_deletefromdisk_def)
  ultimately show ?thesis
    using add(1) save(1,4) by blast
qed

section \<open>Properties\<close>

text \<open>
  C5. The pairs added to a transaction list and saved are read back from the returned address, the
  last one first, whatever the blocks held before; and deleting the list in the same checkpoint
  returns exactly the blocks the free list had given for it. Reading and deleting end.
\<close>

theorem trxlist_roundtrip:
  assumes "blocksize_ok bsize" "device_ok bsize bd" "length xs \<le> length (bd_free bd)"
  shows "\<exists>bd1 l1 bd2 l2 a freed.
    trxl_addall bd (dbe_trxl_init bsize cp type) xs = Some (bd1, l1) \<and>
    dbe_trxl_save bd1 l1 = Some (bd2, l2, a) \<and>
    trxli_pairs bd2 (dbe_trxli_init bd2 a) = Some (rev xs) \<and>
    dbe_trxl_deletefromdisk bd2 cp a = Some (freed, []) \<and> bd_free bd = rev freed @ bd_free bd2"
  using trxl_written [OF assms] .

theorem trxlist_roundtrip_witness:
  "\<exists>bd1 l1 bd2 l2 a freed.
    trxl_addall \<lparr>bd_free = [7, 5, 9], bd_block = \<lambda>_. replicate 20 0\<rparr>
      (dbe_trxl_init 20 3 DBE_BLOCK_TRXLIST) [(4, 10), (6, 12)] = Some (bd1, l1) \<and>
    dbe_trxl_save bd1 l1 = Some (bd2, l2, a) \<and>
    trxli_pairs bd2 (dbe_trxli_init bd2 a) = Some [(6, 12), (4, 10)] \<and>
    dbe_trxl_deletefromdisk bd2 3 a = Some (freed, []) \<and> [7, 5, 9] = rev freed @ bd_free bd2"
  using trxlist_roundtrip [of 20 "\<lparr>bd_free = [7, 5, 9], bd_block = \<lambda>_. replicate 20 0\<rparr>"
      "[(4, 10), (6, 12)]" 3 DBE_BLOCK_TRXLIST]
  by (simp add: blocksize_ok_def device_ok_def SU_DADDR_NULL_def)

end
