(* ===== verification/Rbt.thy ===== *)
theory Rbt
  imports Sdb_Prelude
begin

text \<open>
  The red-black tree of \<^verbatim>\<open>su/su0rbtr.c\<close>, on the heap of its nodes: parent and child pointers are
  maps from nodes to nodes, and the loops follow them. A node is a number, new nodes are taken in
  ascending order, and freed ones are not used again. The comparison functions are fields of the
  tree as in the code; of the function that releases a key the model keeps whether there is one and
  the keys it was called with.
\<close>

section \<open>Nodes and trees\<close>

type_synonym node = nat

datatype su_rbt_color = RBT_RED | RBT_BLACK

record ('k, 's) rbt =
  rn_p :: "node \<Rightarrow> node"
  rn_left :: "node \<Rightarrow> node"
  rn_right :: "node \<Rightarrow> node"
  rn_color :: "node \<Rightarrow> su_rbt_color"
  rn_key :: "node \<Rightarrow> 'k"
  rbt_nextnode :: node
  rbt_root :: node
  rbt_nil :: node
  rbt_nelems :: u64
  rbt_icompare :: "'k \<Rightarrow> 'k \<Rightarrow> int"
  rbt_scompare :: "'s \<Rightarrow> 'k \<Rightarrow> int"
  rbt_delete :: bool
  rbt_deleted :: "'k list"

text \<open>Assignments through a pointer.\<close>

definition set_p :: "node \<Rightarrow> node \<Rightarrow> ('k, 's) rbt \<Rightarrow> ('k, 's) rbt" where
  "set_p x v h = h\<lparr>rn_p := (rn_p h)(x := v)\<rparr>"

definition set_left :: "node \<Rightarrow> node \<Rightarrow> ('k, 's) rbt \<Rightarrow> ('k, 's) rbt" where
  "set_left x v h = h\<lparr>rn_left := (rn_left h)(x := v)\<rparr>"

definition set_right :: "node \<Rightarrow> node \<Rightarrow> ('k, 's) rbt \<Rightarrow> ('k, 's) rbt" where
  "set_right x v h = h\<lparr>rn_right := (rn_right h)(x := v)\<rparr>"

definition set_color :: "node \<Rightarrow> su_rbt_color \<Rightarrow> ('k, 's) rbt \<Rightarrow> ('k, 's) rbt" where
  "set_color x c h = h\<lparr>rn_color := (rn_color h)(x := c)\<rparr>"

definition set_root :: "node \<Rightarrow> ('k, 's) rbt \<Rightarrow> ('k, 's) rbt" where
  "set_root x h = h\<lparr>rbt_root := x\<rparr>"

lemmas set_defs = set_p_def set_left_def set_right_def set_color_def set_root_def

section \<open>Walks\<close>

text \<open>A walk returns \<open>None\<close> when it does not end.\<close>

partial_function (option) tree_minimum :: "('k, 's) rbt \<Rightarrow> node \<Rightarrow> node option" where
  "tree_minimum rbt x =
    (if rn_left rbt x \<noteq> rbt_nil rbt then tree_minimum rbt (rn_left rbt x) else Some x)"

partial_function (option) tree_maximum :: "('k, 's) rbt \<Rightarrow> node \<Rightarrow> node option" where
  "tree_maximum rbt x =
    (if rn_right rbt x \<noteq> rbt_nil rbt then tree_maximum rbt (rn_right rbt x) else Some x)"

partial_function (option) up_from_right :: "('k, 's) rbt \<Rightarrow> node \<Rightarrow> node \<Rightarrow> node option" where
  "up_from_right rbt x y =
    (if y \<noteq> rbt_nil rbt \<and> x = rn_right rbt y then up_from_right rbt y (rn_p rbt y) else Some y)"

partial_function (option) up_from_left :: "('k, 's) rbt \<Rightarrow> node \<Rightarrow> node \<Rightarrow> node option" where
  "up_from_left rbt x y =
    (if y \<noteq> rbt_nil rbt \<and> x = rn_left rbt y then up_from_left rbt y (rn_p rbt y) else Some y)"

definition tree_successor :: "('k, 's) rbt \<Rightarrow> node \<Rightarrow> node option" where
  "tree_successor rbt x =
    (if rn_right rbt x \<noteq> rbt_nil rbt then tree_minimum rbt (rn_right rbt x)
     else up_from_right rbt x (rn_p rbt x))"

definition tree_predecessor :: "('k, 's) rbt \<Rightarrow> node \<Rightarrow> node option" where
  "tree_predecessor rbt x =
    (if rn_left rbt x \<noteq> rbt_nil rbt then tree_maximum rbt (rn_left rbt x)
     else up_from_left rbt x (rn_p rbt x))"

section \<open>Searches\<close>

partial_function (option) iterative_tree_search :: "('k, 's) rbt \<Rightarrow> node \<Rightarrow> 's \<Rightarrow> node option" where
  "iterative_tree_search rbt x k =
    (if x = rbt_nil rbt then Some x
     else let cmp = rbt_scompare rbt k (rn_key rbt x) in
       if cmp = 0 then Some x
       else if cmp < 0 then iterative_tree_search rbt (rn_left rbt x) k
       else iterative_tree_search rbt (rn_right rbt x) k)"

partial_function (option) iterative_tree_search_atleast ::
  "('k, 's) rbt \<Rightarrow> node \<Rightarrow> 's \<Rightarrow> node option" where
  "iterative_tree_search_atleast rbt x k =
    (if x = rbt_nil rbt then Some x
     else let cmp = rbt_scompare rbt k (rn_key rbt x) in
       if cmp = 0 then Some x
       else let y = (if cmp < 0 then rn_left rbt x else rn_right rbt x) in
         if y = rbt_nil rbt then (if cmp > 0 then tree_successor rbt x else Some x)
         else iterative_tree_search_atleast rbt y k)"

partial_function (option) iterative_tree_search_atmost ::
  "('k, 's) rbt \<Rightarrow> node \<Rightarrow> 's \<Rightarrow> node option" where
  "iterative_tree_search_atmost rbt x k =
    (if x = rbt_nil rbt then Some x
     else let cmp = rbt_scompare rbt k (rn_key rbt x) in
       if cmp = 0 then Some x
       else let y = (if cmp < 0 then rn_left rbt x else rn_right rbt x) in
         if y = rbt_nil rbt then (if cmp < 0 then tree_predecessor rbt x else Some x)
         else iterative_tree_search_atmost rbt y k)"

section \<open>Rotations\<close>

text \<open>The middle of both: \<open>b\<close> becomes a child of \<open>x\<close>, and \<open>y\<close> takes the place of \<open>x\<close>.\<close>

definition adopt :: "node \<Rightarrow> node \<Rightarrow> ('k, 's) rbt \<Rightarrow> ('k, 's) rbt" where
  "adopt b x h = (if b \<noteq> rbt_nil h then set_p b x h else h)"

definition replace_left :: "node \<Rightarrow> node \<Rightarrow> ('k, 's) rbt \<Rightarrow> ('k, 's) rbt" where
  "replace_left x y h =
    (if rn_p h x = rbt_nil h then set_root y h
     else if x = rn_left h (rn_p h x) then set_left (rn_p h x) y h
     else set_right (rn_p h x) y h)"

definition replace_right :: "node \<Rightarrow> node \<Rightarrow> ('k, 's) rbt \<Rightarrow> ('k, 's) rbt" where
  "replace_right x y h =
    (if rn_p h x = rbt_nil h then set_root y h
     else if x = rn_right h (rn_p h x) then set_right (rn_p h x) y h
     else set_left (rn_p h x) y h)"

definition left_rotate :: "('k, 's) rbt \<Rightarrow> node \<Rightarrow> ('k, 's) rbt" where
  "left_rotate h x =
    (let y = rn_right h x;
         h1 = set_right x (rn_left h y) h;
         h2 = adopt (rn_left h1 y) x h1;
         h3 = set_p y (rn_p h2 x) h2;
         h4 = replace_left x y h3
     in set_p x y (set_left y x h4))"

definition right_rotate :: "('k, 's) rbt \<Rightarrow> node \<Rightarrow> ('k, 's) rbt" where
  "right_rotate h x =
    (let y = rn_left h x;
         h1 = set_left x (rn_right h y) h;
         h2 = adopt (rn_right h1 y) x h1;
         h3 = set_p y (rn_p h2 x) h2;
         h4 = replace_right x y h3
     in set_p x y (set_right y x h4))"

section \<open>Insertion\<close>

text \<open>The walk down, with the last node \<open>y\<close> passed; the inner \<open>None\<close> is an equal key.\<close>

partial_function (option) insert_walk ::
  "('k, 's) rbt \<Rightarrow> 'k \<Rightarrow> node \<Rightarrow> node \<Rightarrow> node option option" where
  "insert_walk rbt k y x =
    (if x = rbt_nil rbt then Some (Some y)
     else let cmp = rbt_icompare rbt k (rn_key rbt x) in
       if cmp = 0 then Some None
       else if cmp < 0 then insert_walk rbt k x (rn_left rbt x)
       else insert_walk rbt k x (rn_right rbt x))"

text \<open>\<open>None\<close> is also \<^verbatim>\<open>ss_error\<close>, when the comparison of the same keys gives another result.\<close>

definition tree_insert :: "('k, 's) rbt \<Rightarrow> node \<Rightarrow> (('k, 's) rbt \<times> bool) option" where
  "tree_insert rbt z =
    (case insert_walk rbt (rn_key rbt z) (rbt_nil rbt) (rbt_root rbt) of
       None \<Rightarrow> None
     | Some None \<Rightarrow> Some (rbt, False)
     | Some (Some y) \<Rightarrow>
         (let rbt1 = set_p z y rbt in
          if y = rbt_nil rbt1 then Some (set_root z rbt1, True)
          else let cmp = rbt_icompare rbt1 (rn_key rbt1 z) (rn_key rbt1 y) in
            if cmp = 0 then None
            else if cmp < 0 then Some (set_left y z rbt1, True)
            else Some (set_right y z rbt1, True)))"

text \<open>The two branches of the loop of \<^verbatim>\<open>rb_insert\<close>: the parent is a left or a right child.\<close>

definition insert_left_case :: "('k, 's) rbt \<Rightarrow> node \<Rightarrow> ('k, 's) rbt \<times> node" where
  "insert_left_case h x =
    (let p = rn_p h x; g = rn_p h p; y = rn_right h g in
     if rn_color h y = RBT_RED
     then (set_color g RBT_RED (set_color y RBT_BLACK (set_color p RBT_BLACK h)), g)
     else
       let (h1, x1) = (if x = rn_right h p then (left_rotate h p, p) else (h, x));
           h2 = set_color (rn_p h1 x1) RBT_BLACK h1;
           h3 = set_color (rn_p h2 (rn_p h2 x1)) RBT_RED h2
       in (right_rotate h3 (rn_p h3 (rn_p h3 x1)), x1))"

definition insert_right_case :: "('k, 's) rbt \<Rightarrow> node \<Rightarrow> ('k, 's) rbt \<times> node" where
  "insert_right_case h x =
    (let p = rn_p h x; g = rn_p h p; y = rn_left h g in
     if rn_color h y = RBT_RED
     then (set_color g RBT_RED (set_color y RBT_BLACK (set_color p RBT_BLACK h)), g)
     else
       let (h1, x1) = (if x = rn_left h p then (right_rotate h p, p) else (h, x));
           h2 = set_color (rn_p h1 x1) RBT_BLACK h1;
           h3 = set_color (rn_p h2 (rn_p h2 x1)) RBT_RED h2
       in (left_rotate h3 (rn_p h3 (rn_p h3 x1)), x1))"

partial_function (option) insert_fixup :: "('k, 's) rbt \<Rightarrow> node \<Rightarrow> ('k, 's) rbt option" where
  "insert_fixup h x =
    (if x \<noteq> rbt_root h \<and> rn_color h (rn_p h x) = RBT_RED
     then (case (if rn_p h x = rn_left h (rn_p h (rn_p h x))
                 then insert_left_case h x else insert_right_case h x) of
         (h1, x1) \<Rightarrow> insert_fixup h1 x1)
     else Some (set_color (rbt_root h) RBT_BLACK h))"

definition rb_insert :: "('k, 's) rbt \<Rightarrow> node \<Rightarrow> (('k, 's) rbt \<times> bool) option" where
  "rb_insert rbt x =
    (case tree_insert rbt x of
       None \<Rightarrow> None
     | Some (rbt1, ok) \<Rightarrow>
         if \<not> ok then Some (rbt1, False)
         else map_option (\<lambda>h. (h, True)) (insert_fixup (set_color x RBT_RED rbt1) x))"

section \<open>Deletion\<close>

text \<open>The two branches of the loop of \<^verbatim>\<open>rb_delete_fixup\<close>.\<close>

definition delete_left_case :: "('k, 's) rbt \<Rightarrow> node \<Rightarrow> ('k, 's) rbt \<times> node" where
  "delete_left_case h x =
    (let w = rn_right h (rn_p h x);
         (h1, w1) = (if rn_color h w = RBT_RED
           then let ha = set_color w RBT_BLACK h;
                    hb = set_color (rn_p ha x) RBT_RED ha;
                    hc = left_rotate hb (rn_p hb x)
                in (hc, rn_right hc (rn_p hc x))
           else (h, w))
     in if rn_color h1 (rn_left h1 w1) = RBT_BLACK \<and> rn_color h1 (rn_right h1 w1) = RBT_BLACK
        then (let h2 = set_color w1 RBT_RED h1 in (h2, rn_p h2 x))
        else
          let (h2, w2) = (if rn_color h1 (rn_right h1 w1) = RBT_BLACK
                then let ha = set_color (rn_left h1 w1) RBT_BLACK h1;
                         hb = set_color w1 RBT_RED ha;
                         hc = right_rotate hb w1
                     in (hc, rn_right hc (rn_p hc x))
                else (h1, w1));
              h3 = set_color w2 (rn_color h2 (rn_p h2 x)) h2;
              h4 = set_color (rn_p h3 x) RBT_BLACK h3;
              h5 = set_color (rn_right h4 w2) RBT_BLACK h4;
              h6 = left_rotate h5 (rn_p h5 x)
          in (h6, rbt_root h6))"

definition delete_right_case :: "('k, 's) rbt \<Rightarrow> node \<Rightarrow> ('k, 's) rbt \<times> node" where
  "delete_right_case h x =
    (let w = rn_left h (rn_p h x);
         (h1, w1) = (if rn_color h w = RBT_RED
           then let ha = set_color w RBT_BLACK h;
                    hb = set_color (rn_p ha x) RBT_RED ha;
                    hc = right_rotate hb (rn_p hb x)
                in (hc, rn_left hc (rn_p hc x))
           else (h, w))
     in if rn_color h1 (rn_right h1 w1) = RBT_BLACK \<and> rn_color h1 (rn_left h1 w1) = RBT_BLACK
        then (let h2 = set_color w1 RBT_RED h1 in (h2, rn_p h2 x))
        else
          let (h2, w2) = (if rn_color h1 (rn_left h1 w1) = RBT_BLACK
                then let ha = set_color (rn_right h1 w1) RBT_BLACK h1;
                         hb = set_color w1 RBT_RED ha;
                         hc = left_rotate hb w1
                     in (hc, rn_left hc (rn_p hc x))
                else (h1, w1));
              h3 = set_color w2 (rn_color h2 (rn_p h2 x)) h2;
              h4 = set_color (rn_p h3 x) RBT_BLACK h3;
              h5 = set_color (rn_left h4 w2) RBT_BLACK h4;
              h6 = right_rotate h5 (rn_p h5 x)
          in (h6, rbt_root h6))"

partial_function (option) rb_delete_fixup :: "('k, 's) rbt \<Rightarrow> node \<Rightarrow> ('k, 's) rbt option" where
  "rb_delete_fixup h x =
    (if x \<noteq> rbt_root h \<and> rn_color h x = RBT_BLACK
     then (case (if x = rn_left h (rn_p h x) then delete_left_case h x else delete_right_case h x) of
         (h1, x1) \<Rightarrow> rb_delete_fixup h1 x1)
     else Some (set_color x RBT_BLACK h))"

text \<open>The child \<open>x\<close> of \<open>y\<close> takes its place.\<close>

definition splice_out :: "('k, 's) rbt \<Rightarrow> node \<Rightarrow> node \<Rightarrow> ('k, 's) rbt" where
  "splice_out h y x =
    (let h1 = set_p x (rn_p h y) h
     in if rn_p h1 y = rbt_nil h1 then set_root x h1
        else if y = rn_left h1 (rn_p h1 y) then set_left (rn_p h1 y) x h1
        else set_right (rn_p h1 y) x h1)"

text \<open>The node \<open>y\<close> takes the place and the color of \<open>z\<close>.\<close>

definition relink :: "('k, 's) rbt \<Rightarrow> node \<Rightarrow> node \<Rightarrow> ('k, 's) rbt" where
  "relink h z y =
    (let h1 = (if rn_left h (rn_p h z) = z then set_left (rn_p h z) y h else h);
         h2 = (if rn_right h1 (rn_p h1 z) = z then set_right (rn_p h1 z) y h1 else h1);
         h3 = (if rn_p h2 (rn_left h2 z) = z then set_p (rn_left h2 z) y h2 else h2);
         h4 = (if rn_p h3 (rn_right h3 z) = z then set_p (rn_right h3 z) y h3 else h3);
         h5 = set_left y (rn_left h4 z) h4;
         h6 = set_right y (rn_right h5 z) h5;
         h7 = set_p y (rn_p h6 z) h6;
         h8 = set_color y (rn_color h7 z) h7
     in if rbt_root h8 = z then set_root y h8 else h8)"

text \<open>The returned node, the one to free, is always \<open>z\<close>.\<close>

definition rb_delete :: "('k, 's) rbt \<Rightarrow> node \<Rightarrow> (('k, 's) rbt \<times> node) option" where
  "rb_delete rbt z =
    (case (if rn_left rbt z = rbt_nil rbt \<or> rn_right rbt z = rbt_nil rbt then Some z
           else tree_successor rbt z) of
       None \<Rightarrow> None
     | Some y \<Rightarrow>
         (let x = (if rn_left rbt y \<noteq> rbt_nil rbt then rn_left rbt y else rn_right rbt y);
              h1 = splice_out rbt y x;
              y_color = rn_color h1 y;
              h2 = (if y \<noteq> z then relink h1 z y else h1)
          in map_option (\<lambda>h. (h, z)) (if y_color = RBT_BLACK then rb_delete_fixup h2 x else Some h2)))"

section \<open>The interface\<close>

text \<open>A null key and a null node are \<open>None\<close>.\<close>

definition su_rbt_inittwocmp ::
  "('k \<Rightarrow> 'k \<Rightarrow> int) \<Rightarrow> ('s \<Rightarrow> 'k \<Rightarrow> int) \<Rightarrow> bool \<Rightarrow> ('k, 's) rbt" where
  "su_rbt_inittwocmp insert_compare search_compare delete =
    \<lparr>rn_p = (\<lambda>_. 0), rn_left = (\<lambda>_. 0), rn_right = (\<lambda>_. 0), rn_color = (\<lambda>_. RBT_BLACK),
     rn_key = (\<lambda>_. undefined), rbt_nextnode = 1, rbt_root = 0, rbt_nil = 0, rbt_nelems = 0,
     rbt_icompare = insert_compare, rbt_scompare = search_compare, rbt_delete = delete,
     rbt_deleted = []\<rparr>"

definition su_rbt_init :: "('k \<Rightarrow> 'k \<Rightarrow> int) \<Rightarrow> bool \<Rightarrow> ('k, 'k) rbt" where
  "su_rbt_init compare delete = su_rbt_inittwocmp compare compare delete"

definition node_alloc :: "('k, 's) rbt \<Rightarrow> 'k \<Rightarrow> ('k, 's) rbt \<times> node" where
  "node_alloc rbt key =
    (let x = rbt_nextnode rbt
     in (set_right x (rbt_nil rbt) (set_left x (rbt_nil rbt)
           (rbt\<lparr>rbt_nextnode := x + 1, rn_key := (rn_key rbt)(x := key)\<rparr>)), x))"

definition release_key :: "'k \<Rightarrow> ('k, 's) rbt \<Rightarrow> ('k, 's) rbt" where
  "release_key key rbt = (if rbt_delete rbt then rbt\<lparr>rbt_deleted := rbt_deleted rbt @ [key]\<rparr> else rbt)"

definition su_rbt_insert2 :: "('k, 's) rbt \<Rightarrow> 'k \<Rightarrow> (('k, 's) rbt \<times> node option) option" where
  "su_rbt_insert2 rbt key =
    (case node_alloc rbt key of (rbt1, x) \<Rightarrow>
       map_option (\<lambda>(rbt2, ok).
         if ok then (rbt2\<lparr>rbt_nelems := rbt_nelems rbt2 + 1\<rparr>, Some x)
         else (release_key key rbt2, None)) (rb_insert rbt1 x))"

definition su_rbt_insert :: "('k, 's) rbt \<Rightarrow> 'k \<Rightarrow> (('k, 's) rbt \<times> bool) option" where
  "su_rbt_insert rbt key =
    (case node_alloc rbt key of (rbt1, x) \<Rightarrow>
       map_option (\<lambda>(rbt2, ok).
         if ok then (rbt2\<lparr>rbt_nelems := rbt_nelems rbt2 + 1\<rparr>, True)
         else (release_key key rbt2, False)) (rb_insert rbt1 x))"

definition su_rbt_delete :: "('k, 's) rbt \<Rightarrow> node \<Rightarrow> (('k, 's) rbt \<times> 'k option) option" where
  "su_rbt_delete rbt z =
    (let key = (if rbt_delete rbt then None else Some (rn_key rbt z));
         rbt1 = release_key (rn_key rbt z) rbt
     in map_option (\<lambda>(rbt2, z). (rbt2\<lparr>rbt_nelems := rbt_nelems rbt2 - 1\<rparr>, key)) (rb_delete rbt1 z))"

definition su_rbt_delete_nodatadel :: "('k, 's) rbt \<Rightarrow> node \<Rightarrow> (('k, 's) rbt \<times> 'k) option" where
  "su_rbt_delete_nodatadel rbt z =
    map_option (\<lambda>(rbt1, z1). (rbt1\<lparr>rbt_nelems := rbt_nelems rbt1 - 1\<rparr>, rn_key rbt z)) (rb_delete rbt z)"

definition nonnil :: "('k, 's) rbt \<Rightarrow> node \<Rightarrow> node option" where
  "nonnil rbt x = (if x = rbt_nil rbt then None else Some x)"

definition su_rbt_search :: "('k, 's) rbt \<Rightarrow> 's \<Rightarrow> node option option" where
  "su_rbt_search rbt key = map_option (nonnil rbt) (iterative_tree_search rbt (rbt_root rbt) key)"

definition su_rbt_search_atleast :: "('k, 's) rbt \<Rightarrow> 's \<Rightarrow> node option option" where
  "su_rbt_search_atleast rbt key =
    map_option (nonnil rbt) (iterative_tree_search_atleast rbt (rbt_root rbt) key)"

definition su_rbt_search_atmost :: "('k, 's) rbt \<Rightarrow> 's \<Rightarrow> node option option" where
  "su_rbt_search_atmost rbt key =
    map_option (nonnil rbt) (iterative_tree_search_atmost rbt (rbt_root rbt) key)"

definition su_rbt_min :: "('k, 's) rbt \<Rightarrow> node option \<Rightarrow> node option option" where
  "su_rbt_min rbt x =
    (let y = (case x of None \<Rightarrow> rbt_root rbt | Some y \<Rightarrow> y)
     in if y = rbt_nil rbt then Some None else map_option Some (tree_minimum rbt y))"

definition su_rbt_max :: "('k, 's) rbt \<Rightarrow> node option \<Rightarrow> node option option" where
  "su_rbt_max rbt x =
    (let y = (case x of None \<Rightarrow> rbt_root rbt | Some y \<Rightarrow> y)
     in if y = rbt_nil rbt then Some None else map_option Some (tree_maximum rbt y))"

definition su_rbt_succ :: "('k, 's) rbt \<Rightarrow> node \<Rightarrow> node option option" where
  "su_rbt_succ rbt x = map_option (nonnil rbt) (tree_successor rbt x)"

definition su_rbt_pred :: "('k, 's) rbt \<Rightarrow> node \<Rightarrow> node option option" where
  "su_rbt_pred rbt x = map_option (nonnil rbt) (tree_predecessor rbt x)"

partial_function (option) su_rbt_deleteall :: "('k, 's) rbt \<Rightarrow> ('k, 's) rbt option" where
  "su_rbt_deleteall rbt =
    Option.bind (su_rbt_min rbt None) (\<lambda>n. case n of
      None \<Rightarrow> Some rbt
    | Some n \<Rightarrow> Option.bind (su_rbt_delete rbt n) (\<lambda>(rbt1, key). su_rbt_deleteall rbt1))"

text \<open>The keys released by the end of the tree.\<close>

partial_function (option) su_rbt_done_loop :: "('k, 's) rbt \<Rightarrow> node \<Rightarrow> 'k list option" where
  "su_rbt_done_loop rbt x =
    (if x = rbt_nil rbt then Some (rbt_deleted rbt)
     else Option.bind (rb_delete (release_key (rn_key rbt x) rbt) x) (\<lambda>(rbt1, z).
       Option.bind (tree_minimum rbt1 (rbt_root rbt1)) (\<lambda>x. su_rbt_done_loop rbt1 x)))"

definition su_rbt_done :: "('k, 's) rbt \<Rightarrow> 'k list option" where
  "su_rbt_done rbt = Option.bind (tree_minimum rbt (rbt_root rbt)) (su_rbt_done_loop rbt)"

definition su_rbtnode_getkey :: "('k, 's) rbt \<Rightarrow> node \<Rightarrow> 'k" where
  "su_rbtnode_getkey rbt rbtn = rn_key rbt rbtn"

definition su_rbt_long_compare :: "int \<Rightarrow> int \<Rightarrow> int" where
  "su_rbt_long_compare l1 l2 = (if l1 < l2 then - 1 else if l1 > l2 then 1 else 0)"

definition su_rbt_ptr_compare :: "nat \<Rightarrow> nat \<Rightarrow> int" where
  "su_rbt_ptr_compare p1 p2 = (if p1 < p2 then - 1 else if p1 > p2 then 1 else 0)"

definition su_rbt_nelems :: "('k, 's) rbt \<Rightarrow> u64" where
  "su_rbt_nelems rbt = rbt_nelems rbt"

end
