(* ===== verification/Rbt_Shape.thy ===== *)
theory Rbt_Shape
  imports Rbt "HOL-Library.Tree"
begin

text \<open>
  The heap of a red-black tree as a tree of its nodes. \<open>shape\<close> relates a pointer with its parent to
  the tree below it; \<open>seg\<close> relates it to the context above it, a list of frames from the pointer up.
  Assignments outside a tree leave its shape alone, which the simplifier uses as rewrite rules;
  distinctness of the nodes tells it what is outside.
\<close>

section \<open>Shapes and contexts\<close>

fun shape :: "node \<Rightarrow> (node \<Rightarrow> node) \<Rightarrow> (node \<Rightarrow> node) \<Rightarrow> (node \<Rightarrow> node) \<Rightarrow> node \<Rightarrow> node \<Rightarrow>
    node tree \<Rightarrow> bool" where
  "shape nil L R P p x Leaf = (x = nil)"
| "shape nil L R P p x (Node l a r) =
    (x = a \<and> a \<noteq> nil \<and> P a = p \<and> shape nil L R P a (L a) l \<and> shape nil L R P a (R a) r)"

datatype frame = LF node "node tree" | RF "node tree" node

fun fnode :: "frame \<Rightarrow> node" where
  "fnode (LF a r) = a" | "fnode (RF l a) = a"

fun fsib :: "frame \<Rightarrow> node tree" where
  "fsib (LF a r) = r" | "fsib (RF l a) = l"

fun hole_left :: "frame \<Rightarrow> bool" where
  "hole_left (LF a r) = True" | "hole_left (RF l a) = False"

fun fill :: "frame \<Rightarrow> node tree \<Rightarrow> node tree" where
  "fill (LF a r) t = Node t a r" | "fill (RF l a) t = Node l a t"

definition plug :: "frame list \<Rightarrow> node tree \<Rightarrow> node tree" where
  "plug c t = fold fill c t"

primrec seg :: "node \<Rightarrow> (node \<Rightarrow> node) \<Rightarrow> (node \<Rightarrow> node) \<Rightarrow> (node \<Rightarrow> node) \<Rightarrow> frame list \<Rightarrow> node \<Rightarrow> node \<Rightarrow>
    node \<Rightarrow> node \<Rightarrow> bool" where
  "seg nil L R P [] p x q y = (p = q \<and> x = y)"
| "seg nil L R P (f # c) p x q y =
    (p = fnode f \<and> p \<noteq> nil \<and> (if hole_left f then L p = x else R p = x) \<and>
     shape nil L R P p (if hole_left f then R p else L p) (fsib f) \<and> seg nil L R P c (P p) p q y)"

fun cnodes :: "frame list \<Rightarrow> node set" where
  "cnodes [] = {}"
| "cnodes (f # c) = insert (fnode f) (set_tree (fsib f) \<union> cnodes c)"

lemma plug_simps [simp]: "plug [] t = t" "plug (f # c) t = plug c (fill f t)"
  by (simp_all add: plug_def)

lemma plug_append: "plug (c @ d) t = plug d (plug c t)"
  by (simp add: plug_def)

lemma set_plug: "set_tree (plug c t) = cnodes c \<union> set_tree t"
proof (induction c arbitrary: t)
  case (Cons f c)
  then show ?case
    by (cases f) auto
qed simp

lemma shape_plug:
  "shape nil L R P q y (plug c t) \<longleftrightarrow> (\<exists>p x. seg nil L R P c p x q y \<and> shape nil L R P p x t)"
proof (induction c arbitrary: t)
  case (Cons f c)
  then show ?case
    by (cases f) auto
qed simp

lemma seg_append:
  "seg nil L R P (c @ d) p x q y \<longleftrightarrow> (\<exists>p' x'. seg nil L R P c p x p' x' \<and> seg nil L R P d p' x' q y)"
proof (induction c arbitrary: p x)
  case (Cons f c)
  then show ?case
    by (cases f) auto
qed simp

lemma seg_parent: "seg nil L R P (f # c) p x q y \<Longrightarrow> p = fnode f \<and> p \<noteq> nil"
  by (cases f) auto

lemma shape_root: "shape nil L R P p x t \<Longrightarrow> x = nil \<and> t = Leaf \<or> x \<noteq> nil \<and> x \<in> set_tree t \<and> P x = p"
  by (cases t) auto

lemma shape_nonnil: "shape nil L R P p x t \<Longrightarrow> nil \<notin> set_tree t"
  by (induction t arbitrary: p x) auto

lemma seg_nonnil: "seg nil L R P c p x q y \<Longrightarrow> nil \<notin> cnodes c"
proof (induction c arbitrary: p x)
  case (Cons f c)
  then show ?case
    by (cases f) (auto dest: shape_nonnil)
qed simp

section \<open>Frame rules\<close>

lemma shape_frame [simp]:
  "a \<notin> set_tree t \<Longrightarrow> shape nil (L(a := v)) R P p x t = shape nil L R P p x t"
  "a \<notin> set_tree t \<Longrightarrow> shape nil L (R(a := v)) P p x t = shape nil L R P p x t"
  "a \<notin> set_tree t \<Longrightarrow> shape nil L R (P(a := v)) p x t = shape nil L R P p x t"
  by (induction t arbitrary: p x) auto

lemma seg_frame [simp]:
  "a \<notin> cnodes c \<Longrightarrow> seg nil (L(a := v)) R P c p x q y = seg nil L R P c p x q y"
  "a \<notin> cnodes c \<Longrightarrow> seg nil L (R(a := v)) P c p x q y = seg nil L R P c p x q y"
  "a \<notin> cnodes c \<Longrightarrow> seg nil L R (P(a := v)) c p x q y = seg nil L R P c p x q y"
  by (induction c arbitrary: p x; force)+

text \<open>Giving a subtree another parent.\<close>

lemma shape_reparent:
  assumes "shape nil L R P p x t" "distinct (inorder t)"
  shows "shape nil L R (if x \<noteq> nil then P(x := q) else P) q x t"
  using assms by (cases t) auto

lemma shape_reparent':
  assumes "shape nil L R P p x t" "distinct (inorder t)" "x \<noteq> nil"
  shows "shape nil L R (P(x := q)) q x t"
  using assms by (cases t) auto

text \<open>Putting another pointer into the hole of a context.\<close>

lemma seg_refill:
  assumes "seg nil L R P (f # c) p x q y" "fnode f \<notin> set_tree (fsib f) \<union> cnodes c"
  shows "hole_left f \<Longrightarrow> seg nil (L(p := x')) R P (f # c) p x' q y"
    "\<not> hole_left f \<Longrightarrow> seg nil L (R(p := x')) P (f # c) p x' q y"
  using assms by (cases f; simp)+

section \<open>Mirror images\<close>

text \<open>The code comes in pairs that differ in the exchange of left and right.\<close>

definition mir :: "('k, 's) rbt \<Rightarrow> ('k, 's) rbt" where
  "mir h = h\<lparr>rn_left := rn_right h, rn_right := rn_left h\<rparr>"

lemma mir_fields [simp]:
  "rn_left (mir h) = rn_right h" "rn_right (mir h) = rn_left h" "rn_p (mir h) = rn_p h"
  "rn_color (mir h) = rn_color h" "rn_key (mir h) = rn_key h" "rbt_root (mir h) = rbt_root h"
  "rbt_nil (mir h) = rbt_nil h" "mir (mir h) = h"
  by (simp_all add: mir_def)

lemma mir_set [simp]:
  "mir (set_p x v h) = set_p x v (mir h)" "mir (set_left x v h) = set_right x v (mir h)"
  "mir (set_right x v h) = set_left x v (mir h)" "mir (set_color x c h) = set_color x c (mir h)"
  "mir (set_root x h) = set_root x (mir h)"
  by (simp_all add: mir_def set_defs)

lemma set_fields [simp]:
  "rn_p (set_p x v h) = (rn_p h)(x := v)" "rn_left (set_p x v h) = rn_left h"
  "rn_right (set_p x v h) = rn_right h" "rn_color (set_p x v h) = rn_color h"
  "rbt_root (set_p x v h) = rbt_root h" "rbt_nil (set_p x v h) = rbt_nil h"
  "rn_p (set_left x v h) = rn_p h" "rn_left (set_left x v h) = (rn_left h)(x := v)"
  "rn_right (set_left x v h) = rn_right h" "rn_color (set_left x v h) = rn_color h"
  "rbt_root (set_left x v h) = rbt_root h" "rbt_nil (set_left x v h) = rbt_nil h"
  "rn_p (set_right x v h) = rn_p h" "rn_left (set_right x v h) = rn_left h"
  "rn_right (set_right x v h) = (rn_right h)(x := v)" "rn_color (set_right x v h) = rn_color h"
  "rbt_root (set_right x v h) = rbt_root h" "rbt_nil (set_right x v h) = rbt_nil h"
  "rn_p (set_color x cl h) = rn_p h" "rn_left (set_color x cl h) = rn_left h"
  "rn_right (set_color x cl h) = rn_right h" "rn_color (set_color x cl h) = (rn_color h)(x := cl)"
  "rbt_root (set_color x cl h) = rbt_root h" "rbt_nil (set_color x cl h) = rbt_nil h"
  "rn_p (set_root x h) = rn_p h" "rn_left (set_root x h) = rn_left h"
  "rn_right (set_root x h) = rn_right h" "rn_color (set_root x h) = rn_color h"
  "rbt_root (set_root x h) = x" "rbt_nil (set_root x h) = rbt_nil h"
  by (simp_all add: set_defs)

lemma adopt_fields [simp]:
  "rn_p (adopt b x h) = (if b \<noteq> rbt_nil h then (rn_p h)(b := x) else rn_p h)"
  "rn_left (adopt b x h) = rn_left h" "rn_right (adopt b x h) = rn_right h"
  "rn_color (adopt b x h) = rn_color h" "rbt_root (adopt b x h) = rbt_root h"
  "rbt_nil (adopt b x h) = rbt_nil h"
  by (simp_all add: adopt_def)

lemma replace_fields [simp]:
  "rn_p (replace_left x y h) = rn_p h" "rn_color (replace_left x y h) = rn_color h"
  "rbt_nil (replace_left x y h) = rbt_nil h"
  "rn_p (replace_right x y h) = rn_p h" "rn_color (replace_right x y h) = rn_color h"
  "rbt_nil (replace_right x y h) = rbt_nil h"
  by (simp_all add: replace_left_def replace_right_def)

lemma mir_adopt: "mir (adopt b x h) = adopt b x (mir h)"
  by (simp add: adopt_def)

lemma mir_replace: "mir (replace_right x y h) = replace_left x y (mir h)"
  by (simp add: replace_left_def replace_right_def)

lemma left_rotate_mir: "left_rotate (mir h) x = mir (right_rotate h x)"
  by (simp add: left_rotate_def right_rotate_def Let_def mir_adopt mir_replace)

fun mirf :: "frame \<Rightarrow> frame" where
  "mirf (LF a r) = RF (mirror r) a" | "mirf (RF l a) = LF a (mirror l)"

lemma shape_mirror: "shape nil R L P p x (mirror t) = shape nil L R P p x t"
  by (induction t arbitrary: p x) auto

lemma seg_mirror: "seg nil R L P (map mirf c) p x q y = seg nil L R P c p x q y"
proof (induction c arbitrary: p x)
  case (Cons f c)
  then show ?case
    by (cases f) (auto simp: shape_mirror)
qed simp

lemma fill_mirror: "fill (mirf f) (mirror t) = mirror (fill f t)"
  by (cases f) auto

lemma plug_mirror: "plug (map mirf c) (mirror t) = mirror (plug c t)"
  by (induction c arbitrary: t) (auto simp: fill_mirror)

end
