(* ===== verification/Rbt_Rotate.thy ===== *)
theory Rbt_Rotate
  imports Rbt_Shape
begin

text \<open>
  What the rotations do to the tree of the nodes: they exchange a node with its child and touch
  nothing else.
\<close>

section \<open>A tree seen from one of its nodes\<close>

fun cdistinct :: "frame list \<Rightarrow> bool" where
  "cdistinct [] = True"
| "cdistinct (f # c) = (distinct (inorder (fsib f)) \<and> fnode f \<notin> set_tree (fsib f) \<union> cnodes c \<and>
    set_tree (fsib f) \<inter> cnodes c = {} \<and> cdistinct c)"

lemma distinct_plug:
  "distinct (inorder (plug c t)) \<longleftrightarrow>
    distinct (inorder t) \<and> cdistinct c \<and> set_tree t \<inter> cnodes c = {}"
proof (induction c arbitrary: t)
  case (Cons f c)
  then show ?case
    by (cases f) auto
qed simp

fun lpart :: "frame list \<Rightarrow> node list" where
  "lpart [] = []" | "lpart (LF a r # c) = lpart c" | "lpart (RF l a # c) = lpart c @ inorder l @ [a]"

fun rpart :: "frame list \<Rightarrow> node list" where
  "rpart [] = []" | "rpart (LF a r # c) = a # inorder r @ rpart c" | "rpart (RF l a # c) = rpart c"

lemma inorder_plug: "inorder (plug c t) = lpart c @ inorder t @ rpart c"
proof (induction c arbitrary: t)
  case (Cons f c)
  then show ?case
    by (cases f) auto
qed simp

lemma cnodes_append: "cnodes (c @ d) = cnodes c \<union> cnodes d"
  by (induction c) auto

lemma lpart_append: "lpart (c @ d) = lpart d @ lpart c"
proof (induction c)
  case (Cons f c)
  then show ?case
    by (cases f) auto
qed simp

abbreviation hseg :: "('k, 's) rbt \<Rightarrow> frame list \<Rightarrow> node \<Rightarrow> node \<Rightarrow> bool" where
  "hseg h c p x \<equiv> seg (rbt_nil h) (rn_left h) (rn_right h) (rn_p h) c p x (rbt_nil h) (rbt_root h)"

abbreviation hshape :: "('k, 's) rbt \<Rightarrow> node \<Rightarrow> node \<Rightarrow> node tree \<Rightarrow> bool" where
  "hshape h p x t \<equiv> shape (rbt_nil h) (rn_left h) (rn_right h) (rn_p h) p x t"

definition tree_at :: "('k, 's) rbt \<Rightarrow> frame list \<Rightarrow> node \<Rightarrow> node \<Rightarrow> node tree \<Rightarrow> bool" where
  "tree_at h c p x t \<longleftrightarrow> hseg h c p x \<and> hshape h p x t \<and> distinct (inorder (plug c t)) \<and>
    rbt_nil h \<notin> cnodes c \<union> set_tree t"

text \<open>Everything but the pointers and the colors.\<close>

definition same_data :: "('k, 's) rbt \<Rightarrow> ('k, 's) rbt \<Rightarrow> bool" where
  "same_data h h' \<longleftrightarrow> rn_key h' = rn_key h \<and> rbt_nil h' = rbt_nil h \<and> rbt_nextnode h' = rbt_nextnode h \<and>
    rbt_nelems h' = rbt_nelems h \<and> rbt_icompare h' = rbt_icompare h \<and> rbt_scompare h' = rbt_scompare h \<and>
    rbt_delete h' = rbt_delete h \<and> rbt_deleted h' = rbt_deleted h"

lemma same_data_refl [simp]: "same_data h h"
  by (simp add: same_data_def)

lemma same_data_trans [trans]: "same_data h h' \<Longrightarrow> same_data h' h'' \<Longrightarrow> same_data h h''"
  by (simp add: same_data_def)

lemma same_data_set [simp]:
  "same_data h (set_p x v h') = same_data h h'" "same_data h (set_left x v h') = same_data h h'"
  "same_data h (set_right x v h') = same_data h h'" "same_data h (set_color x c h') = same_data h h'"
  "same_data h (set_root x h') = same_data h h'" "same_data h (mir h') = same_data h h'"
  "same_data (mir h) h' = same_data h h'"
  by (auto simp: same_data_def set_defs mir_def)

lemma same_data_left_rotate [simp]: "same_data h (left_rotate h' x) = same_data h h'"
  by (simp add: left_rotate_def Let_def adopt_def replace_left_def)

lemma same_data_nil: "same_data h h' \<Longrightarrow> rbt_nil h' = rbt_nil h"
  by (simp add: same_data_def)

lemma rotate_color [simp]:
  "rn_color (left_rotate h x) = rn_color h" "rn_color (right_rotate h x) = rn_color h"
  "rbt_nil (left_rotate h x) = rbt_nil h" "rbt_nil (right_rotate h x) = rbt_nil h"
  by (simp_all add: left_rotate_def right_rotate_def Let_def)

section \<open>Left rotation\<close>

lemma tree_at_set_color [simp]: "tree_at (set_color a v h) c p x t = tree_at h c p x t"
  by (simp add: tree_at_def)

lemma tree_at_parent: "tree_at h c p x (Node l x' r) \<Longrightarrow> x' = x \<and> rn_p h x = p \<and> x \<noteq> rbt_nil h"
  by (auto simp: tree_at_def)

lemma left_rotate_frame:
  assumes "tree_at h c p x (Node A x (Node B y C))"
  shows "rn_p (left_rotate h x) (rbt_nil h) = rn_p h (rbt_nil h)"
    "rn_left (left_rotate h x) (rbt_nil h) = rn_left h (rbt_nil h)"
    "rn_right (left_rotate h x) (rbt_nil h) = rn_right h (rbt_nil h)"
  using assms by (auto simp: tree_at_def left_rotate_def Let_def replace_left_def)

lemma left_rotate_tree:
  assumes "tree_at h c p x (Node A x (Node B y C))"
  shows "tree_at (left_rotate h x) c p y (Node (Node A x B) y C)"
proof -
  let ?n = "rbt_nil h"
  have s: "hseg h c p x" and d: "distinct (inorder A)" "distinct (inorder B)" "distinct (inorder C)"
      "x \<noteq> y" "x \<notin> set_tree A \<union> set_tree B \<union> set_tree C" "y \<notin> set_tree A \<union> set_tree B \<union> set_tree C"
      "set_tree A \<inter> set_tree B = {}" "set_tree A \<inter> set_tree C = {}" "set_tree B \<inter> set_tree C = {}"
      "x \<notin> cnodes c" "y \<notin> cnodes c" "set_tree A \<inter> cnodes c = {}" "set_tree B \<inter> cnodes c = {}"
      "set_tree C \<inter> cnodes c = {}" "cdistinct c"
      "x \<noteq> ?n" "y \<noteq> ?n" "?n \<notin> set_tree A \<union> set_tree B \<union> set_tree C" "?n \<notin> cnodes c"
      "rn_p h x = p" "rn_p h y = x" "rn_right h x = y" "hshape h x (rn_left h x) A"
      "hshape h y (rn_left h y) B" "hshape h y (rn_right h y) C"
    using assms by (auto simp: tree_at_def distinct_plug)
  let ?b = "rn_left h y"
  let ?P = "if ?b \<noteq> ?n then (rn_p h)(?b := x) else rn_p h"
  have b: "?b = ?n \<and> B = Leaf \<or> ?b \<noteq> ?n \<and> ?b \<in> set_tree B"
    using shape_root [OF d(24)] by blast
  then have o: "?b \<notin> set_tree A" "?b \<notin> set_tree C" "?b \<notin> cnodes c" "?b \<noteq> x" "?b \<noteq> y"
    using d by auto
  have B: "shape ?n (rn_left h) (rn_right h) ?P x ?b B"
    by (rule shape_reparent [OF d(24) d(2)])
  show ?thesis
  proof (cases c)
    case Nil
    have "p = ?n" "x = rbt_root h"
      using s Nil by simp_all
    then have fields: "rn_right (left_rotate h x) = (rn_right h)(x := ?b)"
      "rn_left (left_rotate h x) = (rn_left h)(y := x)"
      "rn_p (left_rotate h x) = ?P(y := p, x := y)" "rbt_root (left_rotate h x) = y"
      using d(4,20,21,22) o(4,5) by (simp_all add: left_rotate_def Let_def replace_left_def)
    show ?thesis
      using d b o B Nil \<open>p = ?n\<close> by (simp add: tree_at_def fields Int_Un_distrib)
  next
    case (Cons f c')
    have p: "p = fnode f" "p \<noteq> ?n" "p \<in> cnodes c"
      using s Cons by simp_all
    have g: "p \<noteq> ?n" "p \<notin> set_tree A \<union> set_tree B \<union> set_tree C" "p \<noteq> x" "p \<noteq> y" "p = fnode f"
        "?b \<noteq> p" "p \<notin> set_tree (fsib f) \<union> cnodes c'" "set_tree (fsib f) \<inter> cnodes c' = {}"
        "x \<notin> set_tree (fsib f) \<union> cnodes c'" "y \<notin> set_tree (fsib f) \<union> cnodes c'"
        "?b \<notin> set_tree (fsib f) \<union> cnodes c'" "cdistinct c'" "distinct (inorder (fsib f))"
      using p d(10-15) o(3) Cons by auto
    have side: "(x = rn_left h p) = hole_left f"
      using s d g Cons shape_root [of ?n "rn_left h" "rn_right h" "rn_p h" p "rn_left h p" "fsib f"]
      by (auto split: if_splits)
    have dist: "distinct (inorder (plug (f # c') (Node (Node A x B) y C)))"
      using d Cons unfolding distinct_plug by auto
    have fields: "rn_right (left_rotate h x) =
        (if hole_left f then (rn_right h)(x := ?b) else (rn_right h)(x := ?b, p := y))"
      "rn_left (left_rotate h x) =
        (if hole_left f then (rn_left h)(p := y, y := x) else (rn_left h)(y := x))"
      "rn_p (left_rotate h x) = ?P(y := p, x := y)" "rbt_root (left_rotate h x) = rbt_root h"
      using d(4,16,17,20,21,22) g(1,3,4,6) side o(4,5) by (simp_all add: left_rotate_def Let_def replace_left_def fun_upd_twist)
    let ?h = "left_rotate h x"
    have "shape ?n (rn_left h) (rn_right h) ?P q z t"
      if "hshape h q z t" "?b \<notin> set_tree t" for q z t
      using that by simp
    moreover have "seg ?n (rn_left h) (rn_right h) ?P c' q z q' z'"
      if "seg ?n (rn_left h) (rn_right h) (rn_p h) c' q z q' z'" for q z q' z'
      using that g(11) by simp
    moreover have "?P p = rn_p h p"
      using g(6) by simp
    ultimately have "hseg ?h (f # c') p y"
      using s g Cons d(4,16,17) by (cases "hole_left f") (simp_all add: fields del: fun_upd_apply, simp_all)
    moreover have "hshape ?h p y (Node (Node A x B) y C)"
      using d(4-9,16-18,23-25) o B g(2-4) by (cases "hole_left f") (simp_all add: fields Int_Un_distrib)
    ultimately show ?thesis
      using dist d(16-19) Cons by (simp add: tree_at_def del: seg.simps shape.simps plug_simps)
  qed
qed

section \<open>Right rotation, by reflection\<close>

lemma set_mirror [simp]: "set_tree (mirror t) = set_tree t"
  by (induction t) auto

lemma cnodes_mir [simp]: "cnodes (map mirf c) = cnodes c"
proof (induction c)
  case (Cons f c)
  then show ?case
    by (cases f) auto
qed simp

lemma inorder_mirror: "inorder (mirror t) = rev (inorder t)"
  by (induction t) auto

lemma tree_at_mir: "tree_at (mir h) (map mirf c) p x (mirror t) = tree_at h c p x t"
  by (simp add: tree_at_def seg_mirror shape_mirror plug_mirror inorder_mirror)

lemma right_rotate_mir: "right_rotate h x = mir (left_rotate (mir h) x)"
  by (simp add: left_rotate_mir)

lemma same_data_right_rotate [simp]: "same_data h (right_rotate h' x) = same_data h h'"
  by (simp add: right_rotate_mir)

lemma right_rotate_tree:
  assumes "tree_at h c p x (Node (Node A y B) x C)"
  shows "tree_at (right_rotate h x) c p y (Node A y (Node B x C))"
proof -
  have "tree_at (mir h) (map mirf c) p x (Node (mirror C) x (Node (mirror B) y (mirror A)))"
    using assms tree_at_mir [of h c p x "Node (Node A y B) x C"] by simp
  from left_rotate_tree [OF this] show ?thesis
    unfolding right_rotate_mir
    using tree_at_mir [of "mir (left_rotate (mir h) x)" c p y "Node A y (Node B x C)"] by simp
qed

lemma right_rotate_frame:
  assumes "tree_at h c p x (Node (Node A y B) x C)"
  shows "rn_p (right_rotate h x) (rbt_nil h) = rn_p h (rbt_nil h)"
    "rn_left (right_rotate h x) (rbt_nil h) = rn_left h (rbt_nil h)"
    "rn_right (right_rotate h x) (rbt_nil h) = rn_right h (rbt_nil h)"
proof -
  have "tree_at (mir h) (map mirf c) p x (Node (mirror C) x (Node (mirror B) y (mirror A)))"
    using assms tree_at_mir [of h c p x "Node (Node A y B) x C"] by simp
  from left_rotate_frame [OF this] show
    "rn_p (right_rotate h x) (rbt_nil h) = rn_p h (rbt_nil h)"
    "rn_left (right_rotate h x) (rbt_nil h) = rn_left h (rbt_nil h)"
    "rn_right (right_rotate h x) (rbt_nil h) = rn_right h (rbt_nil h)"
    by (simp_all add: right_rotate_mir)
qed

section \<open>Moving up and down\<close>

lemma tree_at_up:
  "tree_at h (LF a r # c) p x t \<longleftrightarrow>
    p = a \<and> x = rn_left h a \<and> tree_at h c (rn_p h a) a (Node t a r)"
  "tree_at h (RF l a # c) p x t \<longleftrightarrow>
    p = a \<and> x = rn_right h a \<and> tree_at h c (rn_p h a) a (Node l a t)"
  by (auto simp: tree_at_def)

lemma tree_at_upD:
  assumes "tree_at h (f # c) p x t"
  shows "p = fnode f" "tree_at h c (rn_p h (fnode f)) (fnode f) (fill f t)"
    "(if hole_left f then rn_left h else rn_right h) (fnode f) = x"
  using assms by (cases f; simp add: tree_at_def)+

lemma tree_at_down:
  assumes "tree_at h c q a (fill f (Node l x r))"
  shows "tree_at h (f # c) (fnode f) x (Node l x r)" "rn_p h x = fnode f"
  using assms by (cases f; simp add: tree_at_def)+

lemma tree_at_child:
  "tree_at h c p a (Node (Node l x r) a s) \<Longrightarrow> rn_left h a = x"
  "tree_at h c p a (Node s a (Node l x r)) \<Longrightarrow> rn_right h a = x"
  by (auto simp: tree_at_def)

lemma left_neq_right:
  assumes "tree_at h c p a (Node l a r)" "l \<noteq> Leaf \<or> r \<noteq> Leaf"
  shows "rn_left h a \<noteq> rn_right h a"
proof -
  have "hshape h a (rn_left h a) l" "hshape h a (rn_right h a) r" "set_tree l \<inter> set_tree r = {}"
    using assms(1) by (simp_all add: tree_at_def distinct_plug)
  then show ?thesis
    using assms(2) shape_root [of "rbt_nil h" "rn_left h" "rn_right h" "rn_p h" a "rn_left h a" l]
      shape_root [of "rbt_nil h" "rn_left h" "rn_right h" "rn_p h" a "rn_right h a" r] by auto
qed

lemma tree_at_nodes:
  "tree_at h c p x t \<Longrightarrow> rbt_nil h \<notin> set_tree t" "tree_at h c p x t \<Longrightarrow> rbt_nil h \<notin> cnodes c"
  "tree_at h c p x t \<Longrightarrow> distinct (inorder t)" "tree_at h c p x t \<Longrightarrow> cdistinct c"
  "tree_at h c p x t \<Longrightarrow> set_tree t \<inter> cnodes c = {}"
  by (simp_all add: tree_at_def distinct_plug)

lemma seg_root: "seg nil L R P c p x q y \<Longrightarrow> c \<noteq> [] \<Longrightarrow> y \<in> cnodes c"
proof (induction c arbitrary: p x)
  case (Cons f c)
  then show ?case
    by (cases "c = []") auto
qed simp

lemma tree_at_root:
  assumes "tree_at h c p x t"
  shows "x = rbt_root h \<longleftrightarrow> c = []"
proof (cases "c = []")
  case False
  have "hseg h c p x" "rbt_nil h \<notin> cnodes c" "set_tree t \<inter> cnodes c = {}"
    using assms tree_at_nodes(2,5) [OF assms] unfolding tree_at_def by blast+
  moreover have "x = rbt_nil h \<or> x \<in> set_tree t"
    using assms shape_root [of "rbt_nil h" "rn_left h" "rn_right h" "rn_p h" p x t]
    unfolding tree_at_def by blast
  moreover have "rbt_root h \<in> cnodes c"
    by (rule seg_root [OF calculation(1) False])
  ultimately have "x \<noteq> rbt_root h"
    by (metis disjoint_iff)
  then show ?thesis
    using False by simp
qed (use assms in \<open>simp add: tree_at_def\<close>)

lemma mirf_mirf [simp]: "mirf (mirf f) = f" "mirf \<circ> mirf = id"
  by (cases f; simp) (auto simp: fun_eq_iff split: frame.splits; case_tac x; simp)

lemma tree_at_plug: "tree_at h c p x t \<Longrightarrow> tree_at h [] (rbt_nil h) (rbt_root h) (plug c t)"
  using shape_plug [of "rbt_nil h" "rn_left h" "rn_right h" "rn_p h" "rbt_nil h" "rbt_root h" c t]
  by (auto simp: tree_at_def set_plug)

end
