(* ===== verification/Rbt_Color.thy ===== *)
theory Rbt_Color
  imports Rbt_Rotate
begin

text \<open>
  The red-black invariants on the tree of the nodes and on the context of a node, with the colors
  read from the heap. A context expects a subtree of a certain black height.
\<close>

section \<open>Trees\<close>

type_synonym coloring = "node \<Rightarrow> su_rbt_color"

fun rootc :: "coloring \<Rightarrow> node tree \<Rightarrow> su_rbt_color" where
  "rootc col Leaf = RBT_BLACK" | "rootc col (Node l a r) = col a"

definition weight :: "coloring \<Rightarrow> node \<Rightarrow> nat" where
  "weight col a = (if col a = RBT_BLACK then 1 else 0)"

fun bh :: "coloring \<Rightarrow> node tree \<Rightarrow> nat" where
  "bh col Leaf = 0" | "bh col (Node l a r) = bh col l + weight col a"

fun invc :: "coloring \<Rightarrow> node tree \<Rightarrow> bool" where
  "invc col Leaf = True"
| "invc col (Node l a r) = (invc col l \<and> invc col r \<and>
    (col a = RBT_RED \<longrightarrow> rootc col l = RBT_BLACK \<and> rootc col r = RBT_BLACK))"

fun invh :: "coloring \<Rightarrow> node tree \<Rightarrow> bool" where
  "invh col Leaf = True"
| "invh col (Node l a r) = (invh col l \<and> invh col r \<and> bh col l = bh col r)"

lemma not_black [simp]: "c \<noteq> RBT_BLACK \<longleftrightarrow> c = RBT_RED" "c \<noteq> RBT_RED \<longleftrightarrow> c = RBT_BLACK"
  by (cases c; simp)+

lemma weight_upd [simp]:
  "weight (col(a := v)) b = (if a = b then (if v = RBT_BLACK then 1 else 0) else weight col b)"
  by (simp add: weight_def)

lemma color_frame [simp]:
  "a \<notin> set_tree t \<Longrightarrow> rootc (col(a := v)) t = rootc col t"
  "a \<notin> set_tree t \<Longrightarrow> bh (col(a := v)) t = bh col t"
  by (induction t) auto

lemma inv_frame [simp]:
  "a \<notin> set_tree t \<Longrightarrow> invc (col(a := v)) t = invc col t"
  "a \<notin> set_tree t \<Longrightarrow> invh (col(a := v)) t = invh col t"
  by (induction t) auto

section \<open>Contexts\<close>

definition pcol :: "coloring \<Rightarrow> frame list \<Rightarrow> su_rbt_color" where
  "pcol col c = (case c of [] \<Rightarrow> RBT_BLACK | f # _ \<Rightarrow> col (fnode f))"

fun ctx_c :: "coloring \<Rightarrow> frame list \<Rightarrow> bool" where
  "ctx_c col [] = True"
| "ctx_c col (f # c) = (invc col (fsib f) \<and> ctx_c col c \<and>
    (col (fnode f) = RBT_RED \<longrightarrow> rootc col (fsib f) = RBT_BLACK \<and> c \<noteq> [] \<and> pcol col c = RBT_BLACK))"

fun ctx_h :: "coloring \<Rightarrow> frame list \<Rightarrow> nat \<Rightarrow> bool" where
  "ctx_h col [] n = True"
| "ctx_h col (f # c) n = (invh col (fsib f) \<and> bh col (fsib f) = n \<and> ctx_h col c (n + weight col (fnode f)))"

lemma pcol_simps [simp]: "pcol col [] = RBT_BLACK" "pcol col (f # c) = col (fnode f)"
  by (simp_all add: pcol_def)

lemma pcol_frame [simp]: "a \<notin> cnodes c \<Longrightarrow> pcol (col(a := v)) c = pcol col c"
  by (cases c) auto

lemma ctx_frame [simp]:
  "a \<notin> cnodes c \<Longrightarrow> ctx_c (col(a := v)) c = ctx_c col c"
  "a \<notin> cnodes c \<Longrightarrow> ctx_h (col(a := v)) c n = ctx_h col c n"
  by (induction c arbitrary: n) auto

definition is_rb :: "coloring \<Rightarrow> node tree \<Rightarrow> bool" where
  "is_rb col t \<longleftrightarrow> invc col t \<and> invh col t \<and> rootc col t = RBT_BLACK"

lemma rb_plug:
  "is_rb col (plug c t) \<longleftrightarrow> ctx_c col c \<and> ctx_h col c (bh col t) \<and> invc col t \<and> invh col t \<and>
    (rootc col t = RBT_RED \<longrightarrow> c \<noteq> [] \<and> pcol col c = RBT_BLACK)"
proof (induction c arbitrary: t)
  case (Cons f c)
  then show ?case
    by (cases f) (auto simp: add.commute)
qed (auto simp: is_rb_def)

text \<open>Another node with the same color in the place of a node of the context.\<close>

lemma weight_rename:
  "weight (col(y := col z)) y = weight col z" "a \<noteq> y \<Longrightarrow> weight (col(y := v)) a = weight col a"
  by (simp_all add: weight_def)

lemma pcol_rename:
  assumes "y \<notin> cnodes (d @ RF l z # c)"
  shows "pcol (col(y := col z)) (d @ RF l y # c) = pcol col (d @ RF l z # c)"
  using assms by (cases d) simp_all

lemma ctx_c_rename:
  "y \<notin> cnodes (d @ RF l z # c) \<Longrightarrow>
    ctx_c (col(y := col z)) (d @ RF l y # c) = ctx_c col (d @ RF l z # c)"
  by (induction d) (simp_all add: pcol_rename)

lemma ctx_h_rename:
  "y \<notin> cnodes (d @ RF l z # c) \<Longrightarrow>
    ctx_h (col(y := col z)) (d @ RF l y # c) n = ctx_h col (d @ RF l z # c) n"
  by (induction d arbitrary: n) (simp_all add: weight_rename del: weight_upd)

text \<open>Mirror images.\<close>

lemma rootc_mirror [simp]: "rootc col (mirror t) = rootc col t"
  by (induction t) auto

lemma inv_mirror [simp]: "invc col (mirror t) = invc col t" "invh col (mirror t) = invh col t"
  and bh_mirror: "invh col t \<Longrightarrow> bh col (mirror t) = bh col t"
  by (induction t) auto

lemma frame_mirror [simp]:
  "fnode (mirf f) = fnode f" "fsib (mirf f) = mirror (fsib f)" "hole_left (mirf f) \<longleftrightarrow> \<not> hole_left f"
  by (cases f; simp)+

lemma pcol_mirror [simp]: "pcol col (map mirf c) = pcol col c"
  by (cases c) auto

lemma ctx_mirror [simp]:
  "ctx_c col (map mirf c) = ctx_c col c" "ctx_h col (map mirf c) n = ctx_h col c n"
  by (induction c arbitrary: n) (auto simp: bh_mirror)

end
