(* ===== verification/Rbt_Insert.thy ===== *)
theory Rbt_Insert
  imports Rbt_Color
begin

text \<open>
  The loop of \<^verbatim>\<open>rb_insert\<close>: it keeps a red-black tree but for a red node that may have a red parent,
  and ends with a red-black tree of the same nodes in the same order.
\<close>

section \<open>The invariant of the loop\<close>

definition nil_ok :: "('k, 's) rbt \<Rightarrow> bool" where
  "nil_ok h \<longleftrightarrow> rn_color h (rbt_nil h) = RBT_BLACK \<and> rn_left h (rbt_nil h) = rbt_nil h \<and>
    rn_right h (rbt_nil h) = rbt_nil h"

lemma nil_ok_set_color [simp]: "x \<noteq> rbt_nil h \<Longrightarrow> nil_ok (set_color x v h) = nil_ok h"
  by (simp add: nil_ok_def)

lemma nil_ok_set_black: "nil_ok h \<Longrightarrow> nil_ok (set_color x RBT_BLACK h)"
  by (simp add: nil_ok_def)

lemma nil_ok_mir [simp]: "nil_ok (mir h) = nil_ok h"
  by (auto simp: nil_ok_def)

lemma nil_ok_rotate:
  "tree_at h c p x (Node A x (Node B y C)) \<Longrightarrow> nil_ok (left_rotate h x) = nil_ok h"
  "tree_at h c p x (Node (Node A y B) x C) \<Longrightarrow> nil_ok (right_rotate h x) = nil_ok h"
  by (simp_all add: nil_ok_def left_rotate_frame right_rotate_frame)

definition ins_rb :: "coloring \<Rightarrow> frame list \<Rightarrow> node \<Rightarrow> node tree \<Rightarrow> node tree \<Rightarrow> bool" where
  "ins_rb col c x l r \<longleftrightarrow> col x = RBT_RED \<and> invc col l \<and> invc col r \<and> rootc col l = RBT_BLACK \<and>
    rootc col r = RBT_BLACK \<and> invh col (Node l x r) \<and> ctx_c col c \<and> ctx_h col c (bh col l)"

lemma ins_rb_mir: "ins_rb col (map mirf c) x (mirror r) (mirror l) = ins_rb col c x l r"
  by (auto simp: ins_rb_def bh_mirror)

lemma ins_rb_recolor:
  assumes "ins_rb col (f # LF g (Node yl y yr) # c) x l r" "col (fnode f) = RBT_RED" "col y = RBT_RED"
    and "distinct (inorder (plug (f # LF g (Node yl y yr) # c) (Node l x r)))"
  shows "ins_rb (col(fnode f := RBT_BLACK, y := RBT_BLACK, g := RBT_RED)) c g
    (fill f (Node l x r)) (Node yl y yr)"
proof -
  have d: "g \<noteq> fnode f" "g \<noteq> y" "fnode f \<noteq> y" "x \<noteq> g" "x \<noteq> fnode f" "x \<noteq> y"
    "g \<notin> cnodes c" "fnode f \<notin> cnodes c" "y \<notin> cnodes c"
    "g \<notin> set_tree l \<union> set_tree r \<union> set_tree (fsib f) \<union> set_tree yl \<union> set_tree yr"
    "fnode f \<notin> set_tree l \<union> set_tree r \<union> set_tree (fsib f) \<union> set_tree yl \<union> set_tree yr"
    "y \<notin> set_tree l \<union> set_tree r \<union> set_tree (fsib f) \<union> set_tree yl \<union> set_tree yr"
    using assms(4) unfolding distinct_plug by auto
  show ?thesis
    using assms(1-3) d by (cases f) (auto simp: ins_rb_def weight_def)
qed

lemma ins_rb_rotate:
  assumes "ins_rb col (LF p S # LF g Y # c) x l r" "col p = RBT_RED" "rootc col Y = RBT_BLACK"
    and "distinct (inorder (plug (LF p S # LF g Y # c) (Node l x r)))"
  shows "ins_rb (col(p := RBT_BLACK, g := RBT_RED)) (LF p (Node S g Y) # c) x l r"
proof -
  have d: "g \<noteq> p" "x \<noteq> g" "x \<noteq> p" "g \<notin> cnodes c" "p \<notin> cnodes c"
    "g \<notin> set_tree l \<union> set_tree r \<union> set_tree S \<union> set_tree Y"
    "p \<notin> set_tree l \<union> set_tree r \<union> set_tree S \<union> set_tree Y"
    using assms(4) unfolding distinct_plug by auto
  show ?thesis
    using assms(1-3) d by (auto simp: ins_rb_def weight_def)
qed

definition ins_state :: "('k, 's) rbt \<Rightarrow> frame list \<Rightarrow> node \<Rightarrow> node tree \<Rightarrow> node tree \<Rightarrow> bool" where
  "ins_state h c x l r \<longleftrightarrow> tree_at h c (rn_p h x) x (Node l x r) \<and> nil_ok h \<and> ins_rb (rn_color h) c x l r"

lemma ins_state_mir: "ins_state (mir h) (map mirf c) x (mirror r) (mirror l) = ins_state h c x l r"
  using tree_at_mir [of h c "rn_p h x" x "Node l x r"] by (simp add: ins_state_def ins_rb_mir)

lemma insert_case_mir:
  "insert_right_case h x = (case insert_left_case (mir h) x of (h1, x1) \<Rightarrow> (mir h1, x1))"
  by (simp add: insert_left_case_def insert_right_case_def Let_def right_rotate_mir)

lemma hshape_color:
  "hshape h p x t \<Longrightarrow> nil_ok h \<Longrightarrow> rn_color h x = rootc (rn_color h) t"
  by (cases t) (auto simp: nil_ok_def)

section \<open>One turn\<close>

lemma ins_state_outer:
  assumes s: "ins_state h (LF p S # LF g Y # c) x l r"
    and col: "rn_color h p = RBT_RED" "rootc (rn_color h) Y = RBT_BLACK"
  shows "ins_state (right_rotate (set_color g RBT_RED (set_color p RBT_BLACK h)) g)
    (LF p (Node S g Y) # c) x l r" (is "ins_state ?h' _ _ _ _")
proof -
  let ?h = "set_color g RBT_RED (set_color p RBT_BLACK h)"
  have t: "tree_at h (LF p S # LF g Y # c) (rn_p h x) x (Node l x r)" and ok: "nil_ok h"
    and rb: "ins_rb (rn_color h) (LF p S # LF g Y # c) x l r"
    using s by (simp_all add: ins_state_def)
  have tg: "tree_at h c (rn_p h g) g (Node (Node (Node l x r) p S) g Y)"
    using tree_at_upD(2) [OF tree_at_upD(2) [OF t]] by simp
  then have tg': "tree_at ?h c (rn_p h g) g (Node (Node (Node l x r) p S) g Y)"
    by simp
  note tr = right_rotate_tree [OF tg']
  have "tree_at ?h' (LF p (Node S g Y) # c) (rn_p ?h' x) x (Node l x r)"
    using tree_at_down [of ?h' c "rn_p h g" p "LF p (Node S g Y)" l x r] tr by simp
  moreover have "nil_ok ?h'"
    using ok tree_at_nodes(1) [OF tg] by (simp add: nil_ok_rotate(2) [OF tg'] nil_ok_set_black)
  moreover have "ins_rb (rn_color ?h') (LF p (Node S g Y) # c) x l r"
    using ins_rb_rotate [OF rb col] t by (simp add: tree_at_def)
  ultimately show ?thesis
    by (simp add: ins_state_def)
qed


lemma insert_left_turn:
  assumes s: "ins_state h (f # LF g Y # c) x l r" and red: "rn_color h (fnode f) = RBT_RED"
  shows "\<exists>h' d x' l' r'. insert_left_case h x = (h', x') \<and> ins_state h' d x' l' r' \<and>
    inorder (plug d (Node l' x' r')) = inorder (plug (f # LF g Y # c) (Node l x r)) \<and>
    same_data h h' \<and> (length d \<le> length c \<or> pcol (rn_color h') d = RBT_BLACK)"
proof -
  let ?p = "fnode f" and ?col = "rn_color h"
  have t: "tree_at h (f # LF g Y # c) (rn_p h x) x (Node l x r)" and ok: "nil_ok h"
    and rb: "ins_rb (rn_color h) (f # LF g Y # c) x l r"
    using s by (simp_all add: ins_state_def)
  note p = tree_at_upD(1) [OF t]
  note tp = tree_at_upD(2) [OF t]
  have pp: "rn_p h ?p = g"
    using tree_at_upD(1) [OF tp] by simp
  have tg: "tree_at h c (rn_p h g) g (Node (fill f (Node l x r)) g Y)"
    using tree_at_upD(2) [OF tp] by simp
  have y: "rn_color h (rn_right h g) = rootc ?col Y"
    using hshape_color [OF _ ok, of g "rn_right h g" Y] tg by (simp add: tree_at_def)
  show ?thesis
  proof (cases "rootc ?col Y = RBT_RED")
    case True
    then obtain yl y yr where Y: "Y = Node yl y yr"
      by (cases Y) auto
    have r: "rn_right h g = y"
      using tree_at_child(2) [of h c "rn_p h g" g] tg Y by simp
    let ?h = "set_color g RBT_RED (set_color y RBT_BLACK (set_color ?p RBT_BLACK h))"
    have res: "insert_left_case h x = (?h, g)"
      using True by (simp add: insert_left_case_def Let_def p pp r Y)
    have "distinct (inorder (plug (f # LF g Y # c) (Node l x r)))"
      using t unfolding tree_at_def by blast
    then have "ins_rb (rn_color ?h) c g (fill f (Node l x r)) Y"
      using ins_rb_recolor [of ?col f g yl y yr c x l r] rb red True Y by simp
    then have "ins_state ?h c g (fill f (Node l x r)) Y"
      using tg ok tree_at_nodes(1) [OF tg] by (simp add: ins_state_def nil_ok_set_black)
    then show ?thesis
      using res by fastforce
  next
    case False
    show ?thesis
    proof (cases f)
      case (LF p' S)
      have "x \<noteq> rn_right h p'"
        using tree_at_upD(3) [OF t] left_neq_right [of h "LF g Y # c" "rn_p h p'" p' "Node l x r" S] tp
        by (simp add: LF)
      then have "insert_left_case h x = (right_rotate (set_color g RBT_RED (set_color p' RBT_BLACK h)) g, x)"
        using False y p pp by (simp add: insert_left_case_def Let_def LF)
      moreover have "ins_state (right_rotate (set_color g RBT_RED (set_color p' RBT_BLACK h)) g)
          (LF p' (Node S g Y) # c) x l r"
        using s red False LF by (intro ins_state_outer) simp_all
      moreover have "p' \<noteq> g"
        using rb red by (auto simp: LF ins_rb_def)
      ultimately show ?thesis
        apply -
        by (intro exI conjI, assumption, assumption) (simp_all add: LF inorder_plug)
    next
      case (RF S p')
      let ?h = "left_rotate h p'"
      have tp': "tree_at h (LF g Y # c) g p' (Node S p' (Node l x r))"
        using tp pp by (simp add: RF)
      note tr = left_rotate_tree [OF tp']
      have x: "rn_right h p' = x"
        using tree_at_child(2) [OF tp'] .
      have t': "tree_at ?h (LF x r # LF g Y # c) (rn_p ?h p') p' (Node S p' l)"
        using tree_at_down [of ?h "LF g Y # c" g x "LF x r" S p' l] tr by simp
      have "ins_rb ?col (LF x r # LF g Y # c) p' S l"
        using rb red False by (auto simp: RF ins_rb_def weight_def)
      then have s': "ins_state ?h (LF x r # LF g Y # c) p' S l"
        using t' ok by (simp add: ins_state_def nil_ok_rotate(1) [OF tp'])
      have px: "rn_p ?h p' = x" "rn_p ?h x = g"
        using tree_at_upD(1) [OF t'] tree_at_upD(1) [OF tree_at_upD(2) [OF t']] by simp_all
      have "insert_left_case h x = (right_rotate (set_color g RBT_RED (set_color x RBT_BLACK ?h)) g, p')"
        using False y p pp by (simp add: insert_left_case_def Let_def RF x px)
      moreover have "ins_state (right_rotate (set_color g RBT_RED (set_color x RBT_BLACK ?h)) g)
          (LF x (Node r g Y) # c) p' S l"
        using ins_state_outer [OF s'] rb False by (simp add: ins_rb_def)
      moreover have "x \<noteq> g"
        using rb red by (auto simp: RF ins_rb_def)
      ultimately show ?thesis
        apply -
        by (intro exI conjI, assumption, assumption) (simp_all add: RF inorder_plug)
    qed
  qed
qed

lemma insert_right_turn:
  assumes s: "ins_state h (f # RF Y g # c) x l r" and red: "rn_color h (fnode f) = RBT_RED"
  shows "\<exists>h' d x' l' r'. insert_right_case h x = (h', x') \<and> ins_state h' d x' l' r' \<and>
    inorder (plug d (Node l' x' r')) = inorder (plug (f # RF Y g # c) (Node l x r)) \<and>
    same_data h h' \<and> (length d \<le> length c \<or> pcol (rn_color h') d = RBT_BLACK)"
proof -
  have "ins_state (mir h) (mirf f # LF g (mirror Y) # map mirf c) x (mirror r) (mirror l)"
    using s ins_state_mir [of h "f # RF Y g # c" x r l] by simp
  then obtain h' d x' l' r' where *: "insert_left_case (mir h) x = (h', x')" "ins_state h' d x' l' r'"
    "inorder (plug d (Node l' x' r')) =
      inorder (plug (mirf f # LF g (mirror Y) # map mirf c) (Node (mirror r) x (mirror l)))"
    "same_data (mir h) h'" "length d \<le> length (map mirf c) \<or> pcol (rn_color h') d = RBT_BLACK"
    using insert_left_turn [of "mir h" "mirf f" g "mirror Y" "map mirf c" x "mirror r" "mirror l"] red
    by auto
  have "inorder (plug (map mirf d) (mirror (Node l' x' r'))) =
      inorder (plug (map mirf (mirf f # LF g (mirror Y) # map mirf c)) (mirror (Node (mirror r) x (mirror l))))"
    unfolding plug_mirror inorder_mirror *(3) ..
  then have "inorder (plug (map mirf d) (Node (mirror r') x' (mirror l'))) =
      inorder (plug (f # RF Y g # c) (Node l x r))"
    by simp
  moreover have "ins_state (mir h') (map mirf d) x' (mirror r') (mirror l')"
    using *(2) by (simp add: ins_state_mir)
  moreover have "insert_right_case h x = (mir h', x')"
    using *(1) by (simp add: insert_case_mir)
  ultimately show ?thesis
    using *(4,5) apply -
    by (intro exI conjI, assumption, assumption) simp_all
qed

section \<open>The loop\<close>

definition rb_tree :: "('k, 's) rbt \<Rightarrow> node tree \<Rightarrow> bool" where
  "rb_tree h t \<longleftrightarrow> tree_at h [] (rbt_nil h) (rbt_root h) t \<and> nil_ok h \<and> is_rb (rn_color h) t"

lemma ins_state_exit:
  assumes "ins_state h c x l r" "pcol (rn_color h) c = RBT_BLACK"
  shows "insert_fixup h x = Some (set_color (rbt_root h) RBT_BLACK h)"
    "rb_tree (set_color (rbt_root h) RBT_BLACK h) (plug c (Node l x r))"
proof -
  have t: "tree_at h c (rn_p h x) x (Node l x r)" and rb: "ins_rb (rn_color h) c x l r"
    and ok: "nil_ok h"
    using assms(1) by (simp_all add: ins_state_def)
  note root = tree_at_root [OF t]
  have p: "rn_p h x = fnode f" if "c = f # c'" for f c'
    using tree_at_upD(1) t that by blast
  show "insert_fixup h x = Some (set_color (rbt_root h) RBT_BLACK h)"
    using root p assms(2) by (subst insert_fixup.simps) (cases c; simp)
  have "is_rb ((rn_color h)(rbt_root h := RBT_BLACK)) (plug c (Node l x r))"
  proof (cases c)
    case Nil
    have "x \<notin> set_tree l \<union> set_tree r"
      using tree_at_nodes(3) [OF t] by simp
    then show ?thesis
      using rb root Nil by (simp add: is_rb_def ins_rb_def)
  next
    case (Cons f c')
    have 1: "is_rb (rn_color h) (plug c (Node l x r))"
      unfolding rb_plug using rb assms(2) Cons by (auto simp: ins_rb_def weight_def)
    moreover have "rn_color h (rbt_root h) = RBT_BLACK"
      using hshape_color [OF _ ok, of "rbt_nil h" "rbt_root h" "plug c (Node l x r)"] tree_at_plug [OF t] 1
      by (simp add: tree_at_def is_rb_def)
    ultimately show ?thesis
      by (simp add: fun_upd_idem)
  qed
  then show "rb_tree (set_color (rbt_root h) RBT_BLACK h) (plug c (Node l x r))"
    using tree_at_plug [OF t] ok by (simp add: rb_tree_def nil_ok_set_black)
qed

lemma insert_fixup_ok:
  assumes "ins_state h c x l r"
  shows "\<exists>h' t. insert_fixup h x = Some h' \<and> rb_tree h' t \<and>
    inorder t = inorder (plug c (Node l x r)) \<and> same_data h h'"
  using assms
proof (induction "length c" arbitrary: h c x l r rule: less_induct)
  case less
  show ?case
  proof (cases "pcol (rn_color h) c = RBT_BLACK")
    case True
    then show ?thesis
      using ins_state_exit [OF less.prems True] by (intro exI conjI) auto
  next
    case False
    then obtain f e c' where c: "c = f # e # c'" and red: "rn_color h (fnode f) = RBT_RED"
      using less.prems by (cases c; cases "tl c") (auto simp: ins_state_def ins_rb_def)
    have t: "tree_at h (f # e # c') (rn_p h x) x (Node l x r)"
      using less.prems c by (simp add: ins_state_def)
    note up = tree_at_upD(1) [OF t] tree_at_upD(1) [OF tree_at_upD(2) [OF t]]
      tree_at_upD(3) [OF tree_at_upD(2) [OF t]]
    have turn: "(if rn_p h x = rn_left h (rn_p h (rn_p h x)) then insert_left_case h x
        else insert_right_case h x) =
      (if hole_left e then insert_left_case h x else insert_right_case h x)"
    proof (cases e)
      case (LF g Y)
      then show ?thesis
        using up by simp
    next
      case (RF Y g)
      have "rn_left h g \<noteq> rn_right h g"
        using left_neq_right [OF tree_at_upD(2) [OF tree_at_upD(2) [OF t], unfolded RF fill.simps fnode.simps]]
        by (cases f; simp)
      then show ?thesis
        using up RF by simp
    qed
    have "x \<noteq> rbt_root h"
      using tree_at_root [OF t] by simp
    then have step: "insert_fixup h x = (case (if hole_left e then insert_left_case h x
        else insert_right_case h x) of (h1, x1) \<Rightarrow> insert_fixup h1 x1)"
      using red up(1) turn by (subst insert_fixup.simps) simp
    obtain h' d x' l' r' where *: "(if hole_left e then insert_left_case h x
        else insert_right_case h x) = (h', x')" "ins_state h' d x' l' r'"
      "inorder (plug d (Node l' x' r')) = inorder (plug c (Node l x r))" "same_data h h'"
      "length d \<le> length c' \<or> pcol (rn_color h') d = RBT_BLACK"
      using insert_left_turn [of h f _ _ c' x l r] insert_right_turn [of h f _ _ c' x l r]
        less.prems red unfolding c by (cases e) fastforce+
    have "\<exists>h'' t. insert_fixup h' x' = Some h'' \<and> rb_tree h'' t \<and>
        inorder t = inorder (plug d (Node l' x' r')) \<and> same_data h' h''"
    proof (cases "length d \<le> length c'")
      case True
      then show ?thesis
        using less.hyps [OF _ *(2)] by (simp add: c)
    next
      case False
      then show ?thesis
        using ins_state_exit [OF *(2)] *(5) by (intro exI conjI) auto
    qed
    then show ?thesis
      using step *(1,3,4) same_data_trans by fastforce
  qed
qed

end
