(* ===== verification/Rbt_Ops.thy ===== *)
theory Rbt_Ops
  imports Rbt_Insert
begin

text \<open>
  The red-black tree as an ordered list of keys: \<open>rbt_ok\<close> relates the heap to the nodes in
  ascending order of their keys. Insertion, the searches and the walks from node to node are
  what the list says.
\<close>

section \<open>The tree and its nodes in order\<close>

abbreviation keys :: "('k, 's) rbt \<Rightarrow> node list \<Rightarrow> 'k list" where
  "keys h ns \<equiv> map (rn_key h) ns"

definition key_sorted :: "('k \<Rightarrow> 'b::linorder) \<Rightarrow> 'k list \<Rightarrow> bool" where
  "key_sorted val ks \<longleftrightarrow> sorted_wrt (\<lambda>k l. val k < val l) ks"

definition nodes_ok :: "('k \<Rightarrow> bool) \<Rightarrow> ('k \<Rightarrow> 'b::linorder) \<Rightarrow> ('k, 's) rbt \<Rightarrow> node list \<Rightarrow> bool" where
  "nodes_ok ok val h ns \<longleftrightarrow> key_sorted val (keys h ns) \<and>
    (\<forall>n\<in>set ns. ok (rn_key h n) \<and> n < rbt_nextnode h) \<and> rbt_nil h < rbt_nextnode h \<and>
    rbt_nelems h = word_of_nat (length ns)"

definition rbt_ok :: "('k \<Rightarrow> bool) \<Rightarrow> ('k \<Rightarrow> 'b::linorder) \<Rightarrow> ('k, 's) rbt \<Rightarrow> node list \<Rightarrow> bool" where
  "rbt_ok ok val h ns \<longleftrightarrow> (\<exists>t. rb_tree h t \<and> inorder t = ns) \<and> nodes_ok ok val h ns"

lemma rbt_ok_init:
  "rbt_ok ok val (su_rbt_inittwocmp icmp scmp del) []"
  unfolding rbt_ok_def
  by (intro conjI exI [of _ Leaf])
    (simp_all add: su_rbt_inittwocmp_def rb_tree_def tree_at_def nil_ok_def is_rb_def nodes_ok_def
      key_sorted_def)

lemma insort_middle:
  assumes "\<And>x. x \<in> set xs \<Longrightarrow> val x < val k" "\<And>y. y \<in> set ys \<Longrightarrow> val k < val y"
  shows "insort_key val k (xs @ ys) = xs @ k # ys"
  using assms
proof (induction xs)
  case Nil
  then show ?case
    by (cases ys) (auto simp: less_imp_le)
next
  case (Cons x xs)
  then show ?case
    using Cons.prems(1) [of x] by (simp add: not_le [symmetric])
qed

lemma sorted_middle:
  "key_sorted val (xs @ k # ys) \<longleftrightarrow> key_sorted val (xs @ ys) \<and>
    (\<forall>x\<in>set xs. val x < val k) \<and> (\<forall>y\<in>set ys. val k < val y)"
  by (auto simp: key_sorted_def sorted_wrt_append)

section \<open>The walk down to the place of a new key\<close>

definition around :: "('k \<Rightarrow> 'b::linorder) \<Rightarrow> ('k, 's) rbt \<Rightarrow> 'b \<Rightarrow> frame list \<Rightarrow> bool" where
  "around val h v c \<longleftrightarrow> (\<forall>a\<in>set (lpart c). val (rn_key h a) < v) \<and> (\<forall>a\<in>set (rpart c). v < val (rn_key h a))"

lemma insert_walk_ok:
  assumes "cmp_order (rbt_icompare h) ok val" "ok k"
    and "tree_at h c p x t" "around val h (val k) c" "key_sorted val (keys h (inorder t))"
    and "\<forall>a\<in>set_tree t. ok (rn_key h a)"
  shows "if \<exists>a\<in>set_tree t. val (rn_key h a) = val k then insert_walk h k p x = Some None
    else \<exists>d q. insert_walk h k p x = Some (Some q) \<and> tree_at h d q (rbt_nil h) Leaf \<and>
      plug d Leaf = plug c t \<and> around val h (val k) d"
  using assms(3-6)
proof (induction t arbitrary: c p x)
  case Leaf
  then have "x = rbt_nil h"
    by (simp add: tree_at_def)
  then show ?case
    using Leaf.prems(1,2) by (subst insert_walk.simps) auto
next
  case (Node l a r)
  have x: "x = a" "x \<noteq> rbt_nil h"
    using Node.prems(1) by (auto simp: tree_at_def)
  have tl: "tree_at h (LF a r # c) a (rn_left h a) l" and tr: "tree_at h (RF l a # c) a (rn_right h a) r"
    using Node.prems(1) by (auto simp: tree_at_def)
  have srt: "key_sorted val (keys h (inorder l))" "key_sorted val (keys h (inorder r))"
    "\<forall>b\<in>set_tree l. val (rn_key h b) < val (rn_key h a)"
    "\<forall>b\<in>set_tree r. val (rn_key h a) < val (rn_key h b)"
    using Node.prems(3) by (auto simp: key_sorted_def sorted_wrt_append sorted_wrt_map)
  have oka: "ok (rn_key h a)"
    using Node.prems(4) by simp
  consider (eq) "val k = val (rn_key h a)" | (less) "val k < val (rn_key h a)"
    | (greater) "val (rn_key h a) < val k"
    by force
  then show ?case
  proof cases
    case eq
    then have "rbt_icompare h k (rn_key h a) = 0"
      using cmp_order.eq_iff [OF assms(1)] assms(2) oka by blast
    then show ?thesis
      using eq x by (subst insert_walk.simps) auto
  next
    case less
    then have "rbt_icompare h k (rn_key h a) < 0"
      using cmp_order.less_iff [OF assms(1)] assms(2) oka by blast
    then have "insert_walk h k p x = insert_walk h k a (rn_left h a)"
      using x by (subst insert_walk.simps) simp
    moreover have "around val h (val k) (LF a r # c)"
      using Node.prems(2) less srt(4) by (fastforce simp: around_def)
    moreover have "(\<exists>b\<in>set_tree (Node l a r). val (rn_key h b) = val k) \<longleftrightarrow>
        (\<exists>b\<in>set_tree l. val (rn_key h b) = val k)"
      using less srt(4) by fastforce
    ultimately show ?thesis
      using Node.IH(1) [OF tl _ srt(1)] Node.prems(4) by (simp split: if_splits)
  next
    case greater
    then have "rbt_icompare h k (rn_key h a) > 0"
      using cmp_order.greater_iff [OF assms(1)] assms(2) oka by blast
    then have "insert_walk h k p x = insert_walk h k a (rn_right h a)"
      using x by (subst insert_walk.simps) simp
    moreover have "around val h (val k) (RF l a # c)"
      using Node.prems(2) greater srt(3) by (fastforce simp: around_def)
    moreover have "(\<exists>b\<in>set_tree (Node l a r). val (rn_key h b) = val k) \<longleftrightarrow>
        (\<exists>b\<in>set_tree r. val (rn_key h b) = val k)"
      using greater srt(3) by fastforce
    ultimately show ?thesis
      using Node.IH(2) [OF tr _ srt(2)] Node.prems(4) by (simp split: if_splits)
  qed
qed

section \<open>Insertion\<close>

definition attach :: "frame list \<Rightarrow> node \<Rightarrow> node \<Rightarrow> ('k, 's) rbt \<Rightarrow> ('k, 's) rbt" where
  "attach d q z h = (case d of [] \<Rightarrow> set_root z h
    | f # _ \<Rightarrow> if hole_left f then set_left q z h else set_right q z h)"

lemma attach_ok:
  assumes "tree_at h d q (rbt_nil h) Leaf" "z \<notin> cnodes d" "z \<noteq> rbt_nil h"
    and "rn_left h z = rbt_nil h" "rn_right h z = rbt_nil h"
  shows "tree_at (attach d q z (set_p z q h)) d q z (Node Leaf z Leaf)"
    "same_data h (attach d q z (set_p z q h))" "rn_color (attach d q z (set_p z q h)) = rn_color h"
    "rn_p (attach d q z (set_p z q h)) z = q" "nil_ok (attach d q z (set_p z q h)) = nil_ok h"
proof -
  have d: "cdistinct d" "rbt_nil h \<notin> cnodes d" and s: "hseg h d q (rbt_nil h)"
    using assms(1) tree_at_nodes [OF assms(1)] by (simp_all add: tree_at_def)
  have "distinct (inorder (plug d (Node Leaf z Leaf)))"
    unfolding distinct_plug using d assms(2) by simp
  then show "tree_at (attach d q z (set_p z q h)) d q z (Node Leaf z Leaf)"
    using s d assms(2-5)
    by (cases d) (auto simp: attach_def tree_at_def split: if_splits)
  show "same_data h (attach d q z (set_p z q h))" "rn_color (attach d q z (set_p z q h)) = rn_color h"
    "rn_p (attach d q z (set_p z q h)) z = q"
    by (simp_all add: attach_def split: list.splits)
  show "nil_ok (attach d q z (set_p z q h)) = nil_ok h"
    using s by (cases d) (simp_all add: attach_def nil_ok_def)
qed

lemma tree_insert_place:
  assumes "cmp_order (rbt_icompare h) ok val" "ok (rn_key h z)" "tree_at h d q (rbt_nil h) Leaf"
    and "around val h (val (rn_key h z)) d" "\<forall>a\<in>cnodes d. ok (rn_key h a)"
    and "insert_walk h (rn_key h z) (rbt_nil h) (rbt_root h) = Some (Some q)"
  shows "tree_insert h z = Some (attach d q z (set_p z q h), True)"
proof (cases d)
  case Nil
  then show ?thesis
    using assms(3,6) by (simp add: tree_insert_def attach_def tree_at_def)
next
  case (Cons f d')
  have q: "q = fnode f" "q \<noteq> rbt_nil h" "ok (rn_key h q)"
    using assms(3,5) by (auto simp: Cons tree_at_def)
  show ?thesis
  proof (cases f)
    case (LF a r)
    then have "rbt_icompare h (rn_key h z) (rn_key h q) < 0"
      using assms(4) q cmp_order.less_iff [OF assms(1,2) q(3)] by (simp add: Cons around_def)
    then show ?thesis
      using assms(6) q LF by (simp add: tree_insert_def attach_def Cons Let_def set_p_def)
  next
    case (RF l a)
    then have "rbt_icompare h (rn_key h z) (rn_key h q) > 0"
      using assms(4) q cmp_order.greater_iff [OF assms(1,2) q(3)] by (simp add: Cons around_def)
    then show ?thesis
      using assms(6) q RF by (simp add: tree_insert_def attach_def Cons Let_def set_p_def)
  qed
qed

lemma rb_insert_ok:
  assumes "cmp_order (rbt_icompare h) ok val" "rb_tree h t" "key_sorted val (keys h (inorder t))"
    and "\<forall>a\<in>set_tree t. ok (rn_key h a)" "ok (rn_key h z)"
    and "z \<notin> set_tree t" "z \<noteq> rbt_nil h" "rn_left h z = rbt_nil h" "rn_right h z = rbt_nil h"
  shows "if \<exists>a\<in>set_tree t. val (rn_key h a) = val (rn_key h z) then rb_insert h z = Some (h, False)
    else \<exists>h' t' xs ys. rb_insert h z = Some (h', True) \<and> rb_tree h' t' \<and> same_data h h' \<and>
      inorder t = xs @ ys \<and> inorder t' = xs @ z # ys \<and>
      (\<forall>a\<in>set xs. val (rn_key h a) < val (rn_key h z)) \<and> (\<forall>a\<in>set ys. val (rn_key h z) < val (rn_key h a))"
proof -
  have t: "tree_at h [] (rbt_nil h) (rbt_root h) t" and ok: "nil_ok h" and rb: "is_rb (rn_color h) t"
    using assms(2) by (simp_all add: rb_tree_def)
  note walk = insert_walk_ok [OF assms(1,5) t _ assms(3,4)]
  show ?thesis
  proof (cases "\<exists>a\<in>set_tree t. val (rn_key h a) = val (rn_key h z)")
    case True
    then show ?thesis
      using walk by (simp add: around_def rb_insert_def tree_insert_def)
  next
    case False
    then obtain d q where d: "insert_walk h (rn_key h z) (rbt_nil h) (rbt_root h) = Some (Some q)"
      "tree_at h d q (rbt_nil h) Leaf" "plug d Leaf = t" "around val h (val (rn_key h z)) d"
      using walk by (auto simp: around_def)
    have nodes: "set_tree t = cnodes d"
      using set_plug [of d Leaf] d(3) by simp
    let ?h1 = "attach d q z (set_p z q h)" and ?h2 = "set_color z RBT_RED (attach d q z (set_p z q h))"
    have z: "z \<notin> cnodes d"
      using assms(6) nodes by simp
    note at = attach_ok [OF d(2) z assms(7-9)]
    have ti: "tree_insert h z = Some (?h1, True)"
      using tree_insert_place [OF assms(1,5) d(2,4) _ d(1)] assms(4) nodes by simp
    have "is_rb (rn_color h) (plug d Leaf)"
      using rb d(3) by simp
    then have "ins_rb (rn_color ?h2) d z Leaf Leaf"
      unfolding rb_plug using z by (simp add: ins_rb_def at(3))
    then have st: "ins_state ?h2 d z Leaf Leaf"
      using at ok assms(7) same_data_nil [OF at(2)] by (simp add: ins_state_def)
    obtain h' t' where *: "insert_fixup ?h2 z = Some h'" "rb_tree h' t'"
      "inorder t' = inorder (plug d (Node Leaf z Leaf))" "same_data ?h2 h'"
      using insert_fixup_ok [OF st] by blast
    have "rb_insert h z = Some (h', True)"
      using *(1) by (simp add: rb_insert_def ti)
    moreover have "same_data h h'"
      using at(2) *(4) by (simp add: same_data_def set_color_def)
    moreover have "inorder t = lpart d @ rpart d" "inorder t' = lpart d @ z # rpart d"
      using d(3) *(3) inorder_plug [of d Leaf] inorder_plug [of d "Node Leaf z Leaf"] by simp_all
    ultimately show ?thesis
      using False *(2) d(4) by (auto simp: around_def)
  qed
qed

text \<open>What no operation changes.\<close>

definition same_cmp :: "('k, 's) rbt \<Rightarrow> ('k, 's) rbt \<Rightarrow> bool" where
  "same_cmp h h' \<longleftrightarrow> rbt_icompare h' = rbt_icompare h \<and> rbt_scompare h' = rbt_scompare h \<and>
    rbt_delete h' = rbt_delete h"

lemma rb_tree_fields [simp]:
  "rb_tree (h\<lparr>rbt_nelems := n\<rparr>) t = rb_tree h t" "rb_tree (h\<lparr>rbt_deleted := ks\<rparr>) t = rb_tree h t"
  "rb_tree (release_key k h) t = rb_tree h t"
  by (simp_all add: rb_tree_def tree_at_def nil_ok_def release_key_def)

lemma nodes_ok_release [simp]: "nodes_ok ok val (release_key k h) ns = nodes_ok ok val h ns"
  by (simp add: nodes_ok_def release_key_def)

lemma node_alloc_ok:
  assumes "rb_tree h t" "set_tree t \<subseteq> {..<rbt_nextnode h}" "rbt_nil h < rbt_nextnode h"
  shows "rb_tree (fst (node_alloc h k)) t"
proof -
  have "rbt_nextnode h \<notin> set_tree t"
    using assms(2) by auto
  then show ?thesis
    using assms(1,3)
    by (simp add: rb_tree_def tree_at_def nil_ok_def node_alloc_def Let_def set_left_def set_right_def)
qed

lemma su_rbt_insert_ok:
  assumes "cmp_order (rbt_icompare h) ok val" "rbt_ok ok val h ns" "ok k"
  shows "if \<exists>n\<in>set ns. val (rn_key h n) = val k
    then \<exists>h'. su_rbt_insert h k = Some (h', False) \<and> rbt_ok ok val h' ns \<and> keys h' ns = keys h ns \<and>
      same_cmp h h'
    else \<exists>h' xs ys. su_rbt_insert h k = Some (h', True) \<and> ns = xs @ ys \<and>
      rbt_ok ok val h' (xs @ rbt_nextnode h # ys) \<and>
      keys h' (xs @ rbt_nextnode h # ys) = insort_key val k (keys h ns) \<and> same_cmp h h'"
proof -
  obtain t where t: "rb_tree h t" "inorder t = ns" and ns: "nodes_ok ok val h ns"
    using assms(2) by (auto simp: rbt_ok_def)
  have st: "set_tree t = set ns"
    using t(2) by auto
  let ?z = "rbt_nextnode h"
  define h0 where "h0 = fst (node_alloc h k)"
  have lt: "\<And>n. n \<in> set ns \<Longrightarrow> n < ?z" and nil: "rbt_nil h < ?z"
    using ns by (auto simp: nodes_ok_def)
  have tz: "rb_tree h0 t"
    unfolding h0_def using node_alloc_ok [OF t(1), of k] lt nil st by auto
  have na: "node_alloc h k = (h0, ?z)" and f: "rbt_icompare h0 = rbt_icompare h" "rbt_nil h0 = rbt_nil h"
      "rn_key h0 = (rn_key h)(?z := k)" "rn_left h0 ?z = rbt_nil h" "rn_right h0 ?z = rbt_nil h"
      "rbt_nextnode h0 = ?z + 1" "rbt_nelems h0 = rbt_nelems h" "same_cmp h h0"
    by (simp_all add: h0_def node_alloc_def Let_def set_defs same_cmp_def)
  have k: "rn_key h0 n = rn_key h n" if "n \<in> set ns" for n
    using lt [OF that] f(3) by simp
  then have ks: "keys h0 ns = keys h ns"
    by simp
  have oks: "\<forall>a\<in>set_tree t. ok (rn_key h0 a)" and srt: "key_sorted val (keys h0 (inorder t))"
    using ns k unfolding t(2) st ks by (simp_all add: nodes_ok_def)
  have z: "ok (rn_key h0 ?z)" "?z \<notin> set_tree t" "?z \<noteq> rbt_nil h0"
    using assms(3) f(2,3) lt nil st by auto
  have c: "cmp_order (rbt_icompare h0) ok val"
    using assms(1) f(1) by simp
  note ins = rb_insert_ok [OF c tz srt oks z]
  have dup: "(\<exists>a\<in>set_tree t. val (rn_key h0 a) = val (rn_key h0 ?z)) \<longleftrightarrow> (\<exists>n\<in>set ns. val (rn_key h n) = val k)"
    using k f(3) st by simp
  show ?thesis
  proof (cases "\<exists>n\<in>set ns. val (rn_key h n) = val k")
    case True
    then have "rb_insert h0 ?z = Some (h0, False)"
      using ins f(2,4,5) dup by simp
    then have res: "su_rbt_insert h k = Some (release_key k h0, False)"
      by (simp add: su_rbt_insert_def na)
    have "nodes_ok ok val h0 ns"
      using ns k nil f(2,6,7) unfolding nodes_ok_def ks by auto
    then have "rbt_ok ok val (release_key k h0) ns"
      unfolding rbt_ok_def rb_tree_fields nodes_ok_release using tz t(2) by blast
    moreover have "keys (release_key k h0) ns = keys h ns" "same_cmp h (release_key k h0)"
      using ks f(8) by (simp_all add: release_key_def same_cmp_def)
    ultimately show ?thesis
      using res True unfolding if_P [OF True] by blast
  next
    case False
    then obtain h' t' xs ys where r: "rb_insert h0 ?z = Some (h', True)" "rb_tree h' t'" "same_data h0 h'"
      "inorder t = xs @ ys" "inorder t' = xs @ ?z # ys"
      "\<forall>a\<in>set xs. val (rn_key h0 a) < val (rn_key h0 ?z)"
      "\<forall>a\<in>set ys. val (rn_key h0 ?z) < val (rn_key h0 a)"
      using ins f(2,4,5) dup by auto
    let ?h' = "h'\<lparr>rbt_nelems := rbt_nelems h' + 1\<rparr>"
    have res: "su_rbt_insert h k = Some (?h', True)"
      using r(1) by (simp add: su_rbt_insert_def na)
    have d: "rn_key h' = rn_key h0" "rbt_nil h' = rbt_nil h" "rbt_nextnode h' = ?z + 1"
      "rbt_nelems h' = rbt_nelems h" "same_cmp h h'"
      using r(3) f by (auto simp: same_data_def same_cmp_def)
    have less: "\<forall>x\<in>set (keys h xs). val x < val k" "\<forall>y\<in>set (keys h ys). val k < val y"
      using r(4,6,7) k f(3) t(2) by auto
    have keys: "keys h' (xs @ ?z # ys) = keys h xs @ k # keys h ys"
      using d(1) f(3) k r(4) t(2) by auto
    have "key_sorted val (keys h' (xs @ ?z # ys))"
      using less ns r(4) t(2) unfolding keys sorted_middle by (simp add: nodes_ok_def)
    then have "nodes_ok ok val ?h' (xs @ ?z # ys)"
      using ns d k f(3) r(4) t(2) assms(3) by (auto simp: nodes_ok_def less_Suc_eq)
    then have "rbt_ok ok val ?h' (xs @ ?z # ys)"
      unfolding rbt_ok_def rb_tree_fields using r(2,5) by blast
    moreover have "keys ?h' (xs @ ?z # ys) = insort_key val k (keys h ns)"
    proof -
      have "keys h ns = keys h xs @ keys h ys"
        using r(4) t(2) by simp
      moreover have "insort_key val k (keys h xs @ keys h ys) = keys h xs @ k # keys h ys"
        by (rule insort_middle) (use less in blast)+
      ultimately show ?thesis
        using keys by simp
    qed
    moreover have "same_cmp h ?h'"
      using d(5) by (simp add: same_cmp_def)
    moreover have "ns = xs @ ys"
      using r(4) t(2) by simp
    ultimately show ?thesis
      using res unfolding if_not_P [OF False] by blast
  qed
qed

end
