(* ===== verification/Rbt_Search.thy ===== *)
theory Rbt_Search
  imports Rbt_Ops
begin

text \<open>
  The walks and the searches, on the list of the nodes: minimum and maximum are its ends, successor
  and predecessor its neighbours, and a search finds its first element with a property.
\<close>

section \<open>Focusing on a node\<close>

lemma tree_focus: "a \<in> set_tree t \<Longrightarrow> \<exists>c l r. t = plug c (Node l a r)"
proof (induction t)
  case (Node l b r)
  then consider "a = b" | "a \<in> set_tree l" | "a \<in> set_tree r"
    by auto
  then show ?case
  proof cases
    case 1
    then show ?thesis
      by (intro exI [of _ "[]"]) auto
  next
    case 2
    then obtain c l' r' where "l = plug c (Node l' a r')"
      using Node.IH(1) by blast
    then have "Node l b r = plug (c @ [LF b r]) (Node l' a r')"
      by (simp add: plug_append)
    then show ?thesis
      by blast
  next
    case 3
    then obtain c l' r' where "r = plug c (Node l' a r')"
      using Node.IH(2) by blast
    then have "Node l b r = plug (c @ [RF l b]) (Node l' a r')"
      by (simp add: plug_append)
    then show ?thesis
      by blast
  qed
qed simp

lemma tree_at_unplug:
  assumes "tree_at h [] q y (plug c t)"
  shows "\<exists>p x. tree_at h c p x t"
  using assms shape_plug [of "rbt_nil h" "rn_left h" "rn_right h" "rn_p h" q y c t]
  by (auto simp: tree_at_def set_plug)

lemma node_focus:
  assumes "tree_at h [] q y t" "inorder t = xs @ n # ys"
  obtains c p l r where "tree_at h c p n (Node l n r)" "plug c (Node l n r) = t"
    "lpart c @ inorder l = xs" "inorder r @ rpart c = ys"
proof -
  have "n \<in> set_tree t"
    using assms(2) by (metis set_inorder in_set_conv_decomp)
  then obtain c l r where c: "t = plug c (Node l n r)"
    using tree_focus by blast
  then obtain p x where at: "tree_at h c p x (Node l n r)"
    using tree_at_unplug assms(1) by blast
  then have x: "x = n"
    by (simp add: tree_at_def)
  have "distinct (xs @ n # ys)"
    using assms by (simp add: tree_at_def)
  moreover have "(lpart c @ inorder l) @ n # (inorder r @ rpart c) = xs @ n # ys"
    using assms(2) inorder_plug [of c "Node l n r"] by (simp add: c)
  ultimately have "lpart c @ inorder l = xs \<and> inorder r @ rpart c = ys"
    by (metis append_Cons_eq_iff distinct_append distinct.simps(2) disjoint_insert(1) list.simps(15)
        not_distinct_conv_prefix)
  then show thesis
    using that at x c by blast
qed

section \<open>Walks\<close>

definition node_or_nil :: "('k, 's) rbt \<Rightarrow> node list \<Rightarrow> node" where
  "node_or_nil h ns = (case ns of [] \<Rightarrow> rbt_nil h | n # _ \<Rightarrow> n)"

lemma node_or_nil_simps [simp]: "node_or_nil h [] = rbt_nil h" "node_or_nil h (n # ns) = n"
  by (simp_all add: node_or_nil_def)

lemma node_or_nil_append: "node_or_nil h (ns @ n # ms) = hd (ns @ [n])"
  by (cases ns) auto

lemma tree_minimum_ok: "hshape h p x t \<Longrightarrow> t \<noteq> Leaf \<Longrightarrow> tree_minimum h x = Some (hd (inorder t))"
proof (induction t arbitrary: p x)
  case (Node l a r)
  then show ?case
    by (subst tree_minimum.simps) (cases l; auto simp: hd_append)
qed simp

lemma tree_maximum_ok: "hshape h p x t \<Longrightarrow> t \<noteq> Leaf \<Longrightarrow> tree_maximum h x = Some (last (inorder t))"
proof (induction t arbitrary: p x)
  case (Node l a r)
  then show ?case
    by (subst tree_maximum.simps) (cases r; auto)
qed simp

lemma up_from_right_ok:
  "tree_at h c p x t \<Longrightarrow> t \<noteq> Leaf \<Longrightarrow> up_from_right h x p = Some (node_or_nil h (rpart c))"
proof (induction c arbitrary: p x t)
  case Nil
  then show ?case
    by (subst up_from_right.simps) (simp add: tree_at_def)
next
  case (Cons f c)
  note up = tree_at_upD [OF Cons.prems(1)]
  show ?case
  proof (cases f)
    case (LF a r)
    have "x \<noteq> rn_right h a"
      using left_neq_right [of h c "rn_p h a" a t r] up Cons.prems(2) by (simp add: LF)
    then show ?thesis
      using up(1) by (subst up_from_right.simps) (simp add: LF)
  next
    case (RF l a)
    have "a \<noteq> rbt_nil h"
      using tree_at_nodes(1) [OF up(2)] by (simp add: RF)
    then show ?thesis
      using up Cons.IH [of "rn_p h a" a "Node l a t"]
      by (subst up_from_right.simps) (simp add: RF)
  qed
qed

lemma up_from_left_ok:
  "tree_at h c p x t \<Longrightarrow> t \<noteq> Leaf \<Longrightarrow> up_from_left h x p = Some (node_or_nil h (rev (lpart c)))"
proof (induction c arbitrary: p x t)
  case Nil
  then show ?case
    by (subst up_from_left.simps) (simp add: tree_at_def)
next
  case (Cons f c)
  note up = tree_at_upD [OF Cons.prems(1)]
  show ?case
  proof (cases f)
    case (LF a r)
    have "a \<noteq> rbt_nil h"
      using tree_at_nodes(1) [OF up(2)] by (simp add: LF)
    then show ?thesis
      using up Cons.IH [of "rn_p h a" a "Node t a r"]
      by (subst up_from_left.simps) (simp add: LF)
  next
    case (RF l a)
    have "x \<noteq> rn_left h a"
      using left_neq_right [of h c "rn_p h a" a l t] up Cons.prems(2) by (simp add: RF eq_commute)
    then show ?thesis
      using up(1) by (subst up_from_left.simps) (simp add: RF)
  qed
qed

lemma tree_successor_ok:
  assumes "tree_at h c p x (Node l x r)"
  shows "tree_successor h x = Some (node_or_nil h (inorder r @ rpart c))"
proof (cases r)
  case Leaf
  then show ?thesis
    using assms up_from_right_ok [OF assms] by (auto simp: tree_successor_def tree_at_def)
next
  case (Node rl a rr)
  then have "rn_right h x = a" "a \<noteq> rbt_nil h" "hshape h x (rn_right h x) r"
    using assms by (auto simp: tree_at_def)
  then show ?thesis
    using tree_minimum_ok [of h x "rn_right h x" r] Node
    by (simp add: tree_successor_def node_or_nil_append hd_append)
qed

lemma tree_predecessor_ok:
  assumes "tree_at h c p x (Node l x r)"
  shows "tree_predecessor h x = Some (node_or_nil h (rev (lpart c @ inorder l)))"
proof (cases l)
  case Leaf
  then show ?thesis
    using assms up_from_left_ok [OF assms] by (auto simp: tree_predecessor_def tree_at_def)
next
  case (Node ll a lr)
  then have "rn_left h x = a" "a \<noteq> rbt_nil h" "hshape h x (rn_left h x) l"
    using assms by (auto simp: tree_at_def)
  then show ?thesis
    using tree_maximum_ok [of h x "rn_left h x" l] Node
    by (simp add: tree_predecessor_def node_or_nil_append hd_append hd_rev last_append)
qed

section \<open>Searches\<close>

definition search_ok :: "('k \<Rightarrow> bool) \<Rightarrow> ('k \<Rightarrow> 'b::linorder) \<Rightarrow> ('k, 's) rbt \<Rightarrow> 's \<Rightarrow> 'b \<Rightarrow> bool" where
  "search_ok ok val h s v \<longleftrightarrow> (\<forall>k. ok k \<longrightarrow> sgn (rbt_scompare h s k) = three_way v (val k))"

lemma search_okD:
  assumes "search_ok ok val h s v" "ok k"
  shows "rbt_scompare h s k < 0 \<longleftrightarrow> v < val k" "rbt_scompare h s k = 0 \<longleftrightarrow> v = val k"
    "rbt_scompare h s k > 0 \<longleftrightarrow> val k < v"
proof -
  have "sgn (rbt_scompare h s k) = three_way v (val k)"
    using assms by (simp add: search_ok_def)
  then show "rbt_scompare h s k < 0 \<longleftrightarrow> v < val k" "rbt_scompare h s k = 0 \<longleftrightarrow> v = val k"
    "rbt_scompare h s k > 0 \<longleftrightarrow> val k < v"
    using three_way_iff [of v "val k"] by (auto simp: sgn_if split: if_splits)
qed

definition found :: "('k, 's) rbt \<Rightarrow> node option \<Rightarrow> node" where
  "found h r = (case r of None \<Rightarrow> rbt_nil h | Some n \<Rightarrow> n)"

lemma find_skip: "\<forall>x\<in>set xs. \<not> P x \<Longrightarrow> find P (xs @ ys) = find P ys"
  by (induction xs) auto

lemma find_none: "\<forall>x\<in>set xs. \<not> P x \<Longrightarrow> find P (ys @ xs) = find P ys"
  by (induction ys) (auto simp: find_None_iff)

lemma found_head: "\<forall>x\<in>set xs. P x \<Longrightarrow> found h (find P xs) = node_or_nil h xs"
  by (cases xs) (auto simp: found_def)

lemma key_sorted_parts:
  assumes "key_sorted val (keys h (inorder (Node l a r)))"
  shows "key_sorted val (keys h (inorder l))" "key_sorted val (keys h (inorder r))"
    "\<forall>b\<in>set_tree l. val (rn_key h b) < val (rn_key h a)"
    "\<forall>b\<in>set_tree r. val (rn_key h a) < val (rn_key h b)"
  using assms by (auto simp: key_sorted_def sorted_wrt_append sorted_wrt_map)

lemma iterative_tree_search_ok:
  assumes "search_ok ok val h s v" "hshape h p x t" "key_sorted val (keys h (inorder t))"
    and "\<forall>a\<in>set_tree t. ok (rn_key h a)"
  shows "iterative_tree_search h x s = Some (found h (find (\<lambda>n. val (rn_key h n) = v) (inorder t)))"
  using assms(2-4)
proof (induction t arbitrary: p x)
  case Leaf
  then show ?case
    by (subst iterative_tree_search.simps) (simp add: found_def)
next
  case (Node l a r)
  note srt = key_sorted_parts [OF Node.prems(2)]
  have x: "x = a" "x \<noteq> rbt_nil h" "ok (rn_key h a)"
    using Node.prems(1,3) by auto
  note cmp = search_okD [OF assms(1) x(3)]
  let ?P = "\<lambda>n. val (rn_key h n) = v"
  consider (eq) "v = val (rn_key h a)" | (less) "v < val (rn_key h a)" | (greater) "val (rn_key h a) < v"
    by force
  then show ?case
  proof cases
    case eq
    then have "find ?P (inorder l @ a # inorder r) = Some a"
      using srt(3) by (subst find_skip) auto
    then show ?thesis
      using eq x cmp by (subst iterative_tree_search.simps) (simp add: found_def)
  next
    case less
    then have "find ?P (inorder l @ a # inorder r) = find ?P (inorder l)"
      using srt(4) by (intro find_none) force
    then show ?thesis
      using less x cmp Node.IH(1) [of a "rn_left h a"] Node.prems srt
      by (subst iterative_tree_search.simps) simp
  next
    case greater
    then have "find ?P (inorder l @ a # inorder r) = find ?P (inorder r)"
      using find_skip [of "inorder l @ [a]" ?P "inorder r"] srt(3) by force
    then show ?thesis
      using greater x cmp Node.IH(2) [of a "rn_right h a"] Node.prems srt
      by (subst iterative_tree_search.simps) simp
  qed
qed

lemma search_atleast_ok:
  assumes "search_ok ok val h s v" "tree_at h c p x t" "key_sorted val (keys h (inorder t))"
    and "\<forall>a\<in>set_tree t. ok (rn_key h a)" "around val h v c" "t \<noteq> Leaf"
  shows "iterative_tree_search_atleast h x s =
    Some (found h (find (\<lambda>n. v \<le> val (rn_key h n)) (inorder t @ rpart c)))"
  using assms(2-6)
proof (induction t arbitrary: c p x)
  case (Node l a r)
  note srt = key_sorted_parts [OF Node.prems(2)]
  have x: "x = a" "x \<noteq> rbt_nil h" "ok (rn_key h a)"
    using Node.prems(1,3) by (auto simp: tree_at_def)
  note cmp = search_okD [OF assms(1) x(3)]
  let ?P = "\<lambda>n. v \<le> val (rn_key h n)"
  have tl: "tree_at h (LF a r # c) a (rn_left h a) l" and tr: "tree_at h (RF l a # c) a (rn_right h a) r"
    using Node.prems(1) by (auto simp: tree_at_def)
  have nil: "rn_left h a = rbt_nil h \<longleftrightarrow> l = Leaf" "rn_right h a = rbt_nil h \<longleftrightarrow> r = Leaf"
    using tl tr by (cases l; cases r; auto simp: tree_at_def)+
  consider (eq) "v = val (rn_key h a)" | (less) "v < val (rn_key h a)" | (greater) "val (rn_key h a) < v"
    by force
  then show ?case
  proof cases
    case eq
    then have "find ?P (inorder l @ a # inorder r @ rpart c) = Some a"
      using srt(3) by (subst find_skip) auto
    then show ?thesis
      using eq x cmp by (subst iterative_tree_search_atleast.simps) (simp add: found_def)
  next
    case less
    have "around val h v (LF a r # c)"
      using less srt(4) Node.prems(4) by (fastforce simp: around_def)
    then show ?thesis
      using less x cmp nil Node.IH(1) [OF tl srt(1)] Node.prems(3)
      by (subst iterative_tree_search_atleast.simps) (auto simp: found_def)
  next
    case greater
    have ar: "around val h v (RF l a # c)"
      using greater srt(3) Node.prems(4) by (fastforce simp: around_def)
    have f: "find ?P (inorder l @ a # inorder r @ rpart c) = find ?P (inorder r @ rpart c)"
      using find_skip [of "inorder l @ [a]" ?P "inorder r @ rpart c"] greater srt(3) by force
    show ?thesis
    proof (cases "r = Leaf")
      case True
      have "tree_successor h x = Some (found h (find ?P (rpart c)))"
        using tree_successor_ok [of h c p a l r] Node.prems(1,4) x True found_head [of "rpart c" ?P h]
        by (simp add: around_def less_imp_le)
      then show ?thesis
        using greater x cmp nil True f by (subst iterative_tree_search_atleast.simps) simp
    next
      case False
      then show ?thesis
        using greater x cmp nil f Node.IH(2) [OF tr srt(2) _ ar] Node.prems(3)
        by (subst iterative_tree_search_atleast.simps) simp
    qed
  qed
qed simp

lemma search_atmost_ok:
  assumes "search_ok ok val h s v" "tree_at h c p x t" "key_sorted val (keys h (inorder t))"
    and "\<forall>a\<in>set_tree t. ok (rn_key h a)" "around val h v c" "t \<noteq> Leaf"
  shows "iterative_tree_search_atmost h x s =
    Some (found h (find (\<lambda>n. val (rn_key h n) \<le> v) (rev (lpart c @ inorder t))))"
  using assms(2-6)
proof (induction t arbitrary: c p x)
  case (Node l a r)
  note srt = key_sorted_parts [OF Node.prems(2)]
  have x: "x = a" "x \<noteq> rbt_nil h" "ok (rn_key h a)"
    using Node.prems(1,3) by (auto simp: tree_at_def)
  note cmp = search_okD [OF assms(1) x(3)]
  let ?P = "\<lambda>n. val (rn_key h n) \<le> v"
  have tl: "tree_at h (LF a r # c) a (rn_left h a) l" and tr: "tree_at h (RF l a # c) a (rn_right h a) r"
    using Node.prems(1) by (auto simp: tree_at_def)
  have nil: "rn_left h a = rbt_nil h \<longleftrightarrow> l = Leaf" "rn_right h a = rbt_nil h \<longleftrightarrow> r = Leaf"
    using tl tr by (cases l; cases r; auto simp: tree_at_def)+
  consider (eq) "v = val (rn_key h a)" | (less) "v < val (rn_key h a)" | (greater) "val (rn_key h a) < v"
    by force
  then show ?case
  proof cases
    case eq
    then have "find ?P (rev (inorder r) @ a # rev (inorder l) @ rev (lpart c)) = Some a"
      using srt(4) by (subst find_skip) (auto simp: not_le)
    then show ?thesis
      using eq x cmp by (subst iterative_tree_search_atmost.simps) (simp add: found_def)
  next
    case greater
    have "around val h v (RF l a # c)"
      using greater srt(3) Node.prems(4) by (fastforce simp: around_def)
    then show ?thesis
      using greater x cmp nil Node.IH(2) [OF tr srt(2)] Node.prems(3)
      by (subst iterative_tree_search_atmost.simps) (auto simp: found_def)
  next
    case less
    have ar: "around val h v (LF a r # c)"
      using less srt(4) Node.prems(4) by (fastforce simp: around_def)
    have f: "find ?P (rev (inorder r) @ a # rev (inorder l) @ rev (lpart c)) =
        find ?P (rev (inorder l) @ rev (lpart c))"
      using find_skip [of "rev (inorder r) @ [a]" ?P "rev (inorder l) @ rev (lpart c)"] less srt(4)
      by (force simp: not_le)
    show ?thesis
    proof (cases "l = Leaf")
      case True
      have "tree_predecessor h x = Some (found h (find ?P (rev (lpart c))))"
        using tree_predecessor_ok [of h c p a l r] Node.prems(1,4) x True found_head [of "rev (lpart c)" ?P h]
        by (simp add: around_def less_imp_le)
      then show ?thesis
        using less x cmp nil True f by (subst iterative_tree_search_atmost.simps) simp
    next
      case False
      then show ?thesis
        using less x cmp nil f Node.IH(1) [OF tl srt(1) _ ar] Node.prems(3)
        by (subst iterative_tree_search_atmost.simps) simp
    qed
  qed
qed simp

section \<open>The interface\<close>

lemma rbt_okD:
  assumes "rbt_ok ok val h ns"
  obtains t where "tree_at h [] (rbt_nil h) (rbt_root h) t" "inorder t = ns" "set_tree t = set ns"
    "key_sorted val (keys h ns)" "\<forall>n\<in>set ns. ok (rn_key h n)" "rbt_nil h \<notin> set ns" "is_rb (rn_color h) t"
    "nil_ok h"
proof -
  from assms obtain t where t: "rb_tree h t" "inorder t = ns" and ns: "nodes_ok ok val h ns"
    by (auto simp: rbt_ok_def)
  have st: "set_tree t = set ns"
    using t(2) by auto
  show thesis
    using t ns st tree_at_nodes(1) [of h "[]" "rbt_nil h" "rbt_root h" t]
    by (intro that [of t]) (auto simp: rb_tree_def nodes_ok_def)
qed

lemma nonnil_found: "rbt_nil h \<notin> set ns \<Longrightarrow> nonnil h (found h (find P ns)) = find P ns"
  by (induction ns) (auto simp: nonnil_def found_def)

lemma nonnil_node: "rbt_nil h \<notin> set ns \<Longrightarrow> nonnil h (node_or_nil h ns) = (if ns = [] then None else Some (hd ns))"
  by (cases ns) (auto simp: nonnil_def)

lemma root_nil: "tree_at h [] (rbt_nil h) (rbt_root h) t \<Longrightarrow> rbt_root h = rbt_nil h \<longleftrightarrow> t = Leaf"
  by (cases t) (auto simp: tree_at_def)

lemma su_rbt_search_ok:
  assumes "rbt_ok ok val h ns" "search_ok ok val h s v"
  shows "su_rbt_search h s = Some (find (\<lambda>n. val (rn_key h n) = v) ns)"
proof -
  obtain t where t: "tree_at h [] (rbt_nil h) (rbt_root h) t" "inorder t = ns" "set_tree t = set ns"
      "key_sorted val (keys h ns)" "\<forall>n\<in>set ns. ok (rn_key h n)" "rbt_nil h \<notin> set ns"
    using rbt_okD [OF assms(1)] by metis
  have "hshape h (rbt_nil h) (rbt_root h) t"
    using t(1) by (simp add: tree_at_def)
  then show ?thesis
    using iterative_tree_search_ok [OF assms(2)] t by (simp add: su_rbt_search_def nonnil_found)
qed

lemma su_rbt_search_atleast_ok:
  assumes "rbt_ok ok val h ns" "search_ok ok val h s v"
  shows "su_rbt_search_atleast h s = Some (find (\<lambda>n. v \<le> val (rn_key h n)) ns)"
proof -
  obtain t where t: "tree_at h [] (rbt_nil h) (rbt_root h) t" "inorder t = ns" "set_tree t = set ns"
      "key_sorted val (keys h ns)" "\<forall>n\<in>set ns. ok (rn_key h n)" "rbt_nil h \<notin> set ns"
    using rbt_okD [OF assms(1)] by metis
  show ?thesis
  proof (cases "t = Leaf")
    case True
    then show ?thesis
      using t root_nil [OF t(1)]
      by (subst su_rbt_search_atleast_def, subst iterative_tree_search_atleast.simps) (auto simp: nonnil_def)
  next
    case False
    then show ?thesis
      using search_atleast_ok [OF assms(2) t(1)] t
      by (simp add: su_rbt_search_atleast_def nonnil_found around_def)
  qed
qed

lemma su_rbt_search_atmost_ok:
  assumes "rbt_ok ok val h ns" "search_ok ok val h s v"
  shows "su_rbt_search_atmost h s = Some (find (\<lambda>n. val (rn_key h n) \<le> v) (rev ns))"
proof -
  obtain t where t: "tree_at h [] (rbt_nil h) (rbt_root h) t" "inorder t = ns" "set_tree t = set ns"
      "key_sorted val (keys h ns)" "\<forall>n\<in>set ns. ok (rn_key h n)" "rbt_nil h \<notin> set ns"
    using rbt_okD [OF assms(1)] by metis
  show ?thesis
  proof (cases "t = Leaf")
    case True
    then show ?thesis
      using t root_nil [OF t(1)]
      by (subst su_rbt_search_atmost_def, subst iterative_tree_search_atmost.simps) (auto simp: nonnil_def)
  next
    case False
    then show ?thesis
      using search_atmost_ok [OF assms(2) t(1)] t
      by (simp add: su_rbt_search_atmost_def nonnil_found around_def)
  qed
qed

lemma su_rbt_ends:
  assumes "rbt_ok ok val h ns"
  shows "su_rbt_min h None = Some (if ns = [] then None else Some (hd ns))"
    "su_rbt_max h None = Some (if ns = [] then None else Some (last ns))"
proof -
  obtain t where t: "tree_at h [] (rbt_nil h) (rbt_root h) t" "inorder t = ns"
    using rbt_okD [OF assms] by metis
  then have "hshape h (rbt_nil h) (rbt_root h) t"
    by (simp add: tree_at_def)
  moreover have "t = Leaf \<longleftrightarrow> ns = []"
    using t(2) by (cases t) auto
  ultimately show "su_rbt_min h None = Some (if ns = [] then None else Some (hd ns))"
    "su_rbt_max h None = Some (if ns = [] then None else Some (last ns))"
    using t(2) root_nil [OF t(1)] tree_minimum_ok tree_maximum_ok
    by (fastforce simp: su_rbt_min_def su_rbt_max_def)+
qed

lemma su_rbt_neighbours:
  assumes "rbt_ok ok val h (xs @ n # ys)"
  shows "su_rbt_succ h n = Some (if ys = [] then None else Some (hd ys))"
    "su_rbt_pred h n = Some (if xs = [] then None else Some (last xs))"
proof -
  obtain t where t: "tree_at h [] (rbt_nil h) (rbt_root h) t" "inorder t = xs @ n # ys"
      "rbt_nil h \<notin> set (xs @ n # ys)"
    using rbt_okD [OF assms] by metis
  obtain c p l r where c: "tree_at h c p n (Node l n r)" "lpart c @ inorder l = xs" "inorder r @ rpart c = ys"
    using node_focus [OF t(1,2)] by metis
  show "su_rbt_succ h n = Some (if ys = [] then None else Some (hd ys))"
    using tree_successor_ok [OF c(1)] c(3) t(3) nonnil_node [of h ys] by (simp add: su_rbt_succ_def)
  show "su_rbt_pred h n = Some (if xs = [] then None else Some (last xs))"
    using tree_predecessor_ok [OF c(1)] c(2) t(3) nonnil_node [of h "rev xs"]
    by (simp add: su_rbt_pred_def hd_rev)
qed

end
