(* ===== verification/Rbt_Delete.thy ===== *)
theory Rbt_Delete
  imports Rbt_Search
begin

text \<open>
  The loop of \<^verbatim>\<open>rb_delete_fixup\<close>: it starts with a subtree whose black height is one too small for
  its place, and ends with a red-black tree of the same nodes in the same order.
\<close>

section \<open>The invariant of the loop\<close>

fun invc2 :: "coloring \<Rightarrow> node tree \<Rightarrow> bool" where
  "invc2 col Leaf = True" | "invc2 col (Node l a r) = (invc col l \<and> invc col r)"

definition del_state :: "('k, 's) rbt \<Rightarrow> frame list \<Rightarrow> node \<Rightarrow> node tree \<Rightarrow> bool" where
  "del_state h c x t \<longleftrightarrow> tree_at h c (rn_p h x) x t \<and> nil_ok h \<and> invc2 (rn_color h) t \<and>
    invh (rn_color h) t \<and> ctx_c (rn_color h) c \<and> ctx_h (rn_color h) c (bh (rn_color h) t + 1)"

lemma invc2_mirror [simp]: "invc2 col (mirror t) = invc2 col t"
  by (cases t) auto

lemma invc_2: "invc col t \<Longrightarrow> invc2 col t" "invc2 col t \<Longrightarrow> rootc col t = RBT_BLACK \<Longrightarrow> invc col t"
  by (cases t; auto)+

lemma del_state_mir: "del_state (mir h) (map mirf c) x (mirror t) = del_state h c x t"
  by (auto simp: del_state_def tree_at_mir bh_mirror)

lemma tree_at_left_child:
  assumes "tree_at h c q a (Node t a S)" "x = rbt_nil h \<and> t = Leaf \<and> rn_p h x = a \<or> (\<exists>l r. t = Node l x r)"
  shows "tree_at h (LF a S # c) (rn_p h x) x t"
  using assms by (auto simp: tree_at_def)

lemma tree_at_root_of:
  "tree_at h c p x t \<Longrightarrow> x = rbt_nil h \<and> t = Leaf \<or> (\<exists>l r. t = Node l x r)"
  by (cases t) (auto simp: tree_at_def)

lemma rotate_color_pointers [simp]:
  "rn_left (set_color a v h) = rn_left h" "rn_right (set_color a v h) = rn_right h"
  by simp_all

section \<open>One turn, with a black sibling\<close>

definition left_tail :: "('k, 's) rbt \<Rightarrow> node \<Rightarrow> node \<Rightarrow> ('k, 's) rbt \<times> node" where
  "left_tail h x w =
    (if rn_color h (rn_left h w) = RBT_BLACK \<and> rn_color h (rn_right h w) = RBT_BLACK
     then (set_color w RBT_RED h, rn_p h x)
     else
       let (h2, w2) = (if rn_color h (rn_right h w) = RBT_BLACK
             then let hc = right_rotate (set_color w RBT_RED (set_color (rn_left h w) RBT_BLACK h)) w
                  in (hc, rn_right hc (rn_p hc x))
             else (h, w));
           h5 = set_color (rn_right h2 w2) RBT_BLACK (set_color (rn_p h2 x) RBT_BLACK
                  (set_color w2 (rn_color h2 (rn_p h2 x)) h2));
           h6 = left_rotate h5 (rn_p h2 x)
       in (h6, rbt_root h6))"

lemma delete_left_case_tail:
  "delete_left_case h x =
    (let w = rn_right h (rn_p h x) in
     if rn_color h w = RBT_RED
     then let hc = left_rotate (set_color (rn_p h x) RBT_RED (set_color w RBT_BLACK h)) (rn_p h x)
          in left_tail hc x (rn_right hc (rn_p hc x))
     else left_tail h x w)"
  by (simp add: delete_left_case_def left_tail_def Let_def)

lemma del_state_rotate:
  assumes s: "del_state h (LF a (Node L w R) # c) x t" and w: "rn_color h w = RBT_BLACK"
    and R: "rootc (rn_color h) R = RBT_RED" and t: "rootc (rn_color h) t = RBT_BLACK"
  defines "h' \<equiv> left_rotate (set_color (rn_right h w) RBT_BLACK (set_color a RBT_BLACK
    (set_color w (rn_color h a) h))) a"
  shows "del_state h' [] (rbt_root h') (plug c (Node (Node t a L) w R))"
proof -
  let ?col = "rn_color h"
  obtain R1 z R2 where z: "R = Node R1 z R2"
    using R by (cases R) auto
  have at: "tree_at h (LF a (Node L w R) # c) (rn_p h x) x t" and ok: "nil_ok h"
    using s by (simp_all add: del_state_def)
  have ta: "tree_at h c (rn_p h a) a (Node t a (Node L w R))"
    using tree_at_upD(2) [OF at] by simp
  then have zw: "rn_right h w = z"
    by (simp add: tree_at_def z)
  let ?h = "set_color z RBT_BLACK (set_color a RBT_BLACK (set_color w (?col a) h))"
  have ta': "tree_at ?h c (rn_p h a) a (Node t a (Node L w R))"
    using ta by simp
  note rot = left_rotate_tree [OF ta']
  have h': "h' = left_rotate ?h a" "rn_color h' = ?col(w := ?col a, a := RBT_BLACK, z := RBT_BLACK)"
    by (simp_all add: h'_def zw)
  have d: "w \<noteq> a" "z \<noteq> a" "z \<noteq> w" "a \<notin> cnodes c" "w \<notin> cnodes c" "z \<notin> cnodes c"
    "a \<notin> set_tree t \<union> set_tree L \<union> set_tree R1 \<union> set_tree R2"
    "w \<notin> set_tree t \<union> set_tree L \<union> set_tree R1 \<union> set_tree R2"
    "z \<notin> set_tree t \<union> set_tree L \<union> set_tree R1 \<union> set_tree R2"
    using tree_at_nodes(3,5) [OF ta] by (auto simp: z)
  have rb: "invc ?col t" "invh ?col t" "ctx_c ?col (LF a (Node L w R) # c)"
      "ctx_h ?col (LF a (Node L w R) # c) (bh ?col t + 1)"
    using s t by (auto simp: del_state_def invc_2)
  have "is_rb (rn_color h') (plug c (Node (Node t a L) w R))"
    unfolding rb_plug h'(2) using rb d w R t by (auto simp: z weight_def)
  moreover have "tree_at h' [] (rbt_nil h) (rbt_root h') (plug c (Node (Node t a L) w R))"
    using tree_at_plug [OF rot] by (simp add: h'(1))
  moreover have "nil_ok h'"
    using ok tree_at_nodes(1) [OF ta] by (simp add: h'(1) nil_ok_rotate(1) [OF ta'] nil_ok_set_black)
  moreover have "rn_p h' (rbt_root h') = rbt_nil h"
  proof -
    obtain l b r where "plug c (Node (Node t a L) w R) = Node l b r"
      using set_plug [of c "Node (Node t a L) w R"] by (cases "plug c (Node (Node t a L) w R)") auto
    then show ?thesis
      using calculation(2) by (auto simp: tree_at_def)
  qed
  ultimately show ?thesis
    by (simp add: del_state_def is_rb_def invc_2)
qed

lemma left_tail_ok:
  assumes s: "del_state h (LF a S # c) x t" and S: "rootc (rn_color h) S = RBT_BLACK"
    and t: "rootc (rn_color h) t = RBT_BLACK"
  shows "\<exists>h' d x' t'. left_tail h x (rn_right h a) = (h', x') \<and> del_state h' d x' t' \<and>
    inorder (plug d t') = inorder (plug (LF a S # c) t) \<and> same_data h h' \<and>
    (d = [] \<or> d = c \<and> rootc (rn_color h') t' = rn_color h a)"
proof -
  let ?col = "rn_color h"
  have at: "tree_at h (LF a S # c) (rn_p h x) x t" and ok: "nil_ok h"
    using s by (simp_all add: del_state_def)
  have rb: "invc ?col t" "invh ?col t" "ctx_c ?col (LF a S # c)" "ctx_h ?col (LF a S # c) (bh ?col t + 1)"
    using s t by (auto simp: del_state_def invc_2)
  then obtain L w R where w: "S = Node L w R" "?col w = RBT_BLACK"
    using S by (cases S) auto
  have px: "rn_p h x = a"
    using tree_at_upD(1) [OF at] by simp
  have ta: "tree_at h c (rn_p h a) a (Node t a (Node L w R))"
    using tree_at_upD(2) [OF at] w(1) by simp
  then have pw: "rn_right h a = w" "rn_p h w = a" and sh: "hshape h w (rn_left h w) L" "hshape h w (rn_right h w) R"
    by (auto simp: tree_at_def)
  have col: "rn_color h (rn_left h w) = rootc ?col L" "rn_color h (rn_right h w) = rootc ?col R"
    using hshape_color sh ok by blast+
  have d: "w \<noteq> a" "a \<notin> cnodes c" "w \<notin> cnodes c" "a \<notin> set_tree t \<union> set_tree L \<union> set_tree R"
    "w \<notin> set_tree t \<union> set_tree L \<union> set_tree R"
    using tree_at_nodes(3,5) [OF ta] by auto
  consider (recolor) "rootc ?col L = RBT_BLACK" "rootc ?col R = RBT_BLACK"
    | (outer) "rootc ?col R = RBT_RED" | (inner) "rootc ?col L = RBT_RED" "rootc ?col R = RBT_BLACK"
    by (metis not_black(1))
  then show ?thesis
  proof cases
    case recolor
    let ?h = "set_color w RBT_RED h"
    have res: "left_tail h x w = (?h, a)"
      using recolor by (simp add: left_tail_def col px)
    have "del_state ?h c a (Node t a S)"
      using ta rb d w recolor ok tree_at_nodes(1) [OF ta] by (auto simp: del_state_def weight_def)
    then show ?thesis
      using res d(1) unfolding pw(1)
      by (intro exI [of _ ?h] exI [of _ c] exI [of _ a] exI [of _ "Node t a S"]) simp
  next
    case outer
    note rot = del_state_rotate [OF s [unfolded w(1)] w(2) outer t]
    have "left_tail h x w = (left_rotate (set_color (rn_right h w) RBT_BLACK (set_color a RBT_BLACK
        (set_color w (?col a) h))) a, rbt_root (left_rotate (set_color (rn_right h w) RBT_BLACK
        (set_color a RBT_BLACK (set_color w (?col a) h))) a))"
      using outer by (simp add: left_tail_def col px Let_def)
    then show ?thesis
      using rot unfolding pw(1) apply -
      by (intro exI conjI, assumption, assumption) (simp_all add: w(1) inorder_plug)
  next
    case inner
    then obtain L1 v L2 where v: "L = Node L1 v L2"
      by (cases L) auto
    have lw: "rn_left h w = v"
      using sh(1) v by auto
    let ?h1 = "set_color w RBT_RED (set_color v RBT_BLACK h)"
    let ?h = "right_rotate ?h1 w"
    have tw: "tree_at ?h1 (RF t a # c) a w (Node (Node L1 v L2) w R)"
      using ta v by (simp add: tree_at_def)
    note rot = right_rotate_tree [OF tw]
    have ta2: "tree_at ?h c (rn_p ?h a) a (Node t a (Node L1 v (Node L2 w R)))"
      using tree_at_upD(2) [OF rot] by simp
    have "rn_p ?h (rbt_nil h) = rn_p h (rbt_nil h)"
      using right_rotate_frame(1) [OF tw] by simp
    then have at2: "tree_at ?h (LF a (Node L1 v (Node L2 w R)) # c) (rn_p ?h x) x t"
      using tree_at_root_of [OF at] px by (intro tree_at_left_child [OF ta2]) auto
    have px2: "rn_p ?h x = a" and v2: "rn_right ?h a = v"
      using tree_at_upD(1) [OF at2] ta2 by (simp_all add: tree_at_def)
    have dv: "v \<noteq> a" "v \<noteq> w" "v \<notin> cnodes c" "v \<notin> set_tree t \<union> set_tree L1 \<union> set_tree L2 \<union> set_tree R"
      using tree_at_nodes(3,5) [OF ta] by (auto simp: v)
    have "del_state ?h (LF a (Node L1 v (Node L2 w R)) # c) x t"
      using at2 ok rb d dv w inner tree_at_nodes(1) [OF ta]
      by (auto simp: del_state_def nil_ok_rotate(2) [OF tw] nil_ok_set_black invc_2 v weight_def)
    moreover have "rn_color ?h v = RBT_BLACK" "rootc (rn_color ?h) (Node L2 w R) = RBT_RED"
        "rootc (rn_color ?h) t = RBT_BLACK"
      using d dv t by simp_all
    ultimately have st: "del_state (left_rotate (set_color (rn_right ?h v) RBT_BLACK (set_color a RBT_BLACK
        (set_color v (rn_color ?h a) ?h))) a) [] (rbt_root (left_rotate (set_color (rn_right ?h v) RBT_BLACK
        (set_color a RBT_BLACK (set_color v (rn_color ?h a) ?h))) a))
        (plug c (Node (Node t a L1) v (Node L2 w R)))"
      by (rule del_state_rotate)
    have "left_tail h x w = (left_rotate (set_color (rn_right ?h v) RBT_BLACK (set_color a RBT_BLACK
        (set_color v (rn_color ?h a) ?h))) a, rbt_root (left_rotate (set_color (rn_right ?h v) RBT_BLACK
        (set_color a RBT_BLACK (set_color v (rn_color ?h a) ?h))) a))"
      using inner v by (simp add: left_tail_def col lw px2 v2 Let_def del: rotate_color)
    then show ?thesis
      using st unfolding pw(1) apply -
      by (intro exI conjI, assumption, assumption) (simp_all add: w(1) v inorder_plug)
  qed
qed

section \<open>One turn\<close>

lemma delete_left_turn:
  assumes s: "del_state h (LF a S # c) x t" and t: "rootc (rn_color h) t = RBT_BLACK"
  shows "\<exists>h' d x' t'. delete_left_case h x = (h', x') \<and> del_state h' d x' t' \<and>
    inorder (plug d t') = inorder (plug (LF a S # c) t) \<and> same_data h h' \<and>
    (length d \<le> length c \<or> rootc (rn_color h') t' = RBT_RED)"
proof -
  let ?col = "rn_color h"
  have at: "tree_at h (LF a S # c) (rn_p h x) x t" and ok: "nil_ok h"
    using s by (simp_all add: del_state_def)
  have px: "rn_p h x = a"
    using tree_at_upD(1) [OF at] by simp
  have ta: "tree_at h c (rn_p h a) a (Node t a S)"
    using tree_at_upD(2) [OF at] by simp
  then have col: "?col (rn_right h a) = rootc ?col S"
    using hshape_color [OF _ ok, of a "rn_right h a" S] by (simp add: tree_at_def)
  show ?thesis
  proof (cases "rootc ?col S = RBT_BLACK")
    case True
    then have "delete_left_case h x = left_tail h x (rn_right h a)"
      by (simp add: delete_left_case_tail px col)
    then show ?thesis
      using left_tail_ok [OF s True t] by fastforce
  next
    case False
    then obtain L w R where w: "S = Node L w R" "?col w = RBT_RED"
      by (cases S) auto
    have pw: "rn_right h a = w"
      using ta w(1) by (simp add: tree_at_def)
    let ?h1 = "set_color a RBT_RED (set_color w RBT_BLACK h)"
    let ?h = "left_rotate ?h1 a"
    have ta1: "tree_at ?h1 c (rn_p h a) a (Node t a (Node L w R))"
      using ta w(1) by simp
    note rot = left_rotate_tree [OF ta1]
    have ta2: "tree_at ?h (LF w R # c) (rn_p ?h a) a (Node t a L)"
      using tree_at_down [of ?h c "rn_p h a" w "LF w R" t a L] rot by simp
    have "rn_p ?h (rbt_nil h) = rn_p h (rbt_nil h)"
      using left_rotate_frame(1) [OF ta1] by simp
    then have at2: "tree_at ?h (LF a L # LF w R # c) (rn_p ?h x) x t"
      using tree_at_root_of [OF at] px by (intro tree_at_left_child [OF ta2]) auto
    have px2: "rn_p ?h x = a"
      using tree_at_upD(1) [OF at2] by simp
    have d: "w \<noteq> a" "a \<notin> cnodes c" "w \<notin> cnodes c" "a \<notin> set_tree t \<union> set_tree L \<union> set_tree R"
      "w \<notin> set_tree t \<union> set_tree L \<union> set_tree R"
      using tree_at_nodes(3,5) [OF ta] w(1) by auto
    have rb: "invc ?col t" "invh ?col t" "ctx_c ?col (LF a S # c)" "ctx_h ?col (LF a S # c) (bh ?col t + 1)"
      using s t by (auto simp: del_state_def invc_2)
    have nil': "nil_ok ?h"
      using ok tree_at_nodes(1) [OF ta] by (simp add: nil_ok_rotate(1) [OF ta1] nil_ok_set_black)
    have "?col a = RBT_BLACK"
      using rb(3) w by (auto simp del: not_black simp: not_black(1) [symmetric])
    then have st: "del_state ?h (LF a L # LF w R # c) x t"
      using at2 nil' rb d w by (simp add: del_state_def invc_2 weight_def)
    have bl: "rootc (rn_color ?h) L = RBT_BLACK" "rootc (rn_color ?h) t = RBT_BLACK"
      using rb(3) w d t by auto
    have "delete_left_case h x = left_tail ?h x (rn_right ?h a)"
      using w(2) by (simp add: delete_left_case_tail px pw px2 Let_def del: rotate_color)
    moreover obtain h' d' x' t' where "left_tail ?h x (rn_right ?h a) = (h', x')" "del_state h' d' x' t'"
      "inorder (plug d' t') = inorder (plug (LF a L # LF w R # c) t)" "same_data ?h h'"
      "d' = [] \<or> d' = LF w R # c \<and> rootc (rn_color h') t' = rn_color ?h a"
      using left_tail_ok [OF st bl] by blast
    moreover have "rn_color ?h a = RBT_RED"
      by simp
    moreover have "same_data h ?h"
      by simp
    ultimately show ?thesis
      using same_data_trans by (fastforce simp: w(1) inorder_plug)
  qed
qed

lemma delete_case_mir:
  "delete_right_case h x = (case delete_left_case (mir h) x of (h1, x1) \<Rightarrow> (mir h1, x1))"
  by (simp add: delete_left_case_def delete_right_case_def Let_def right_rotate_mir)

lemma delete_right_turn:
  assumes s: "del_state h (RF S a # c) x t" and t: "rootc (rn_color h) t = RBT_BLACK"
  shows "\<exists>h' d x' t'. delete_right_case h x = (h', x') \<and> del_state h' d x' t' \<and>
    inorder (plug d t') = inorder (plug (RF S a # c) t) \<and> same_data h h' \<and>
    (length d \<le> length c \<or> rootc (rn_color h') t' = RBT_RED)"
proof -
  have "del_state (mir h) (LF a (mirror S) # map mirf c) x (mirror t)"
    using s del_state_mir [of h "RF S a # c" x t] by simp
  then obtain h' d x' t' where *: "delete_left_case (mir h) x = (h', x')" "del_state h' d x' t'"
    "inorder (plug d t') = inorder (plug (LF a (mirror S) # map mirf c) (mirror t))" "same_data (mir h) h'"
    "length d \<le> length (map mirf c) \<or> rootc (rn_color h') t' = RBT_RED"
    using delete_left_turn [of "mir h" a "mirror S" "map mirf c" x "mirror t"] t by auto
  have "inorder (plug (map mirf d) (mirror t')) =
      inorder (plug (map mirf (LF a (mirror S) # map mirf c)) (mirror (mirror t)))"
    unfolding plug_mirror inorder_mirror *(3) ..
  then have "inorder (plug (map mirf d) (mirror t')) = inorder (plug (RF S a # c) t)"
    by simp
  moreover have "del_state (mir h') (map mirf d) x' (mirror t')"
    using *(2) by (simp add: del_state_mir)
  moreover have "delete_right_case h x = (mir h', x')"
    using *(1) by (simp add: delete_case_mir)
  ultimately show ?thesis
    using *(4,5) apply -
    by (intro exI conjI, assumption, assumption) simp_all
qed

section \<open>The loop\<close>

lemma del_state_exit:
  assumes "del_state h c x t" "c = [] \<or> rootc (rn_color h) t = RBT_RED"
  shows "rb_delete_fixup h x = Some (set_color x RBT_BLACK h)" "rb_tree (set_color x RBT_BLACK h) (plug c t)"
proof -
  have at: "tree_at h c (rn_p h x) x t" and ok: "nil_ok h"
    using assms(1) by (simp_all add: del_state_def)
  have col: "rn_color h x = rootc (rn_color h) t"
    using hshape_color [OF _ ok] at unfolding tree_at_def by blast
  show "rb_delete_fixup h x = Some (set_color x RBT_BLACK h)"
    using tree_at_root [OF at] assms(2) col by (subst rb_delete_fixup.simps) auto
  have "is_rb ((rn_color h)(x := RBT_BLACK)) (plug c t)"
  proof (cases t)
    case Leaf
    then have "c = []" "x = rbt_nil h"
      using assms(2) at by (simp_all add: tree_at_def)
    then show ?thesis
      using Leaf by (simp add: is_rb_def)
  next
    case (Node l y r)
    then have x: "y = x"
      using at by (simp add: tree_at_def)
    then have d: "x \<notin> set_tree l \<union> set_tree r" "x \<notin> cnodes c"
      using tree_at_nodes(3,5) [OF at] Node by auto
    have "ctx_c (rn_color h) c" "ctx_h (rn_color h) c (bh (rn_color h) l + 1)" "invc2 (rn_color h) t"
        "invh (rn_color h) t"
      using assms x Node by (auto simp: del_state_def weight_def)
    then show ?thesis
      unfolding rb_plug using d by (simp add: Node x)
  qed
  then show "rb_tree (set_color x RBT_BLACK h) (plug c t)"
    using tree_at_plug [OF at] ok by (simp add: rb_tree_def nil_ok_set_black)
qed

lemma rb_delete_fixup_ok:
  assumes "del_state h c x t"
  shows "\<exists>h' t'. rb_delete_fixup h x = Some h' \<and> rb_tree h' t' \<and>
    inorder t' = inorder (plug c t) \<and> same_data h h'"
  using assms
proof (induction "length c" arbitrary: h c x t rule: less_induct)
  case less
  show ?case
  proof (cases "c = [] \<or> rootc (rn_color h) t = RBT_RED")
    case True
    then show ?thesis
      using del_state_exit [OF less.prems True] by (intro exI conjI) auto
  next
    case False
    then obtain f c' where c: "c = f # c'" and t: "rootc (rn_color h) t = RBT_BLACK"
      by (cases c) auto
    have at: "tree_at h (f # c') (rn_p h x) x t" and ok: "nil_ok h"
      using less.prems c by (simp_all add: del_state_def)
    have sib: "fsib f \<noteq> Leaf"
      using less.prems by (auto simp: del_state_def c)
    note up = tree_at_upD [OF at]
    have turn: "(if x = rn_left h (rn_p h x) then delete_left_case h x else delete_right_case h x) =
      (if hole_left f then delete_left_case h x else delete_right_case h x)"
    proof (cases f)
      case (LF a S)
      then show ?thesis
        using up(1,3) by auto
    next
      case (RF S a)
      then have "rn_left h a \<noteq> rn_right h a"
        using left_neq_right up(2) sib by fastforce
      then show ?thesis
        using up(1,3) RF by auto
    qed
    have col: "rn_color h x = RBT_BLACK"
      using hshape_color [OF _ ok] at t unfolding tree_at_def by metis
    have "x \<noteq> rbt_root h"
      using tree_at_root [OF at] by simp
    then have step: "rb_delete_fixup h x = (case (if hole_left f then delete_left_case h x
        else delete_right_case h x) of (h1, x1) \<Rightarrow> rb_delete_fixup h1 x1)"
      using col turn by (subst rb_delete_fixup.simps) simp
    obtain h' d x' t' where *: "(if hole_left f then delete_left_case h x
        else delete_right_case h x) = (h', x')" "del_state h' d x' t'"
      "inorder (plug d t') = inorder (plug c t)" "same_data h h'"
      "length d \<le> length c' \<or> rootc (rn_color h') t' = RBT_RED"
      using delete_left_turn [of h _ _ c' x t] delete_right_turn [of h _ _ c' x t]
        less.prems t unfolding c by (cases f) fastforce+
    have "\<exists>h'' t''. rb_delete_fixup h' x' = Some h'' \<and> rb_tree h'' t'' \<and>
        inorder t'' = inorder (plug d t') \<and> same_data h' h''"
    proof (cases "length d \<le> length c'")
      case True
      then show ?thesis
        using less.hyps [OF _ *(2)] by (simp add: c)
    next
      case False
      then show ?thesis
        using del_state_exit [OF *(2)] *(5) by (intro exI conjI) auto
    qed
    then show ?thesis
      using step *(1,3,4) same_data_trans by fastforce
  qed
qed

end
