(* ===== verification/Rbt_Remove.thy ===== *)
theory Rbt_Remove
  imports Rbt_Delete
begin

text \<open>
  Taking a node out of the tree: a node with at most one child is spliced out, another gives its
  place to its successor, whose own place is spliced out. The deletion removes the node from the
  list of the nodes and keeps the others.
\<close>

section \<open>Splicing out\<close>

lemma splice_fields [simp]:
  "rn_color (splice_out h y x) = rn_color h" "rbt_nil (splice_out h y x) = rbt_nil h"
  "same_data h (splice_out h' y x) = same_data h h'"
  by (simp_all add: splice_out_def Let_def)

text \<open>Where the node hangs.\<close>

lemma tree_at_side:
  assumes "tree_at h c p y (Node l y r)" "nil_ok h"
  shows "rn_p h y = p" "p = rbt_nil h \<longleftrightarrow> c = []" "p \<noteq> y" "p \<notin> set_tree l \<union> set_tree r"
    "rn_left h p = y \<longleftrightarrow> (c \<noteq> [] \<and> hole_left (hd c))" "rn_right h p = y \<longleftrightarrow> (c \<noteq> [] \<and> \<not> hole_left (hd c))"
    "y = rbt_root h \<longleftrightarrow> c = []"
proof -
  show "rn_p h y = p"
    using assms(1) by (simp add: tree_at_def)
  show "y = rbt_root h \<longleftrightarrow> c = []"
    using tree_at_root [OF assms(1)] .
  have y: "y \<noteq> rbt_nil h" "rbt_nil h \<notin> set_tree l \<union> set_tree r"
    using tree_at_nodes(1) [OF assms(1)] by auto
  have "(p = rbt_nil h \<longleftrightarrow> c = []) \<and> p \<noteq> y \<and> p \<notin> set_tree l \<union> set_tree r \<and>
      (rn_left h p = y \<longleftrightarrow> (c \<noteq> [] \<and> hole_left (hd c))) \<and> (rn_right h p = y \<longleftrightarrow> (c \<noteq> [] \<and> \<not> hole_left (hd c)))"
  proof (cases c)
    case Nil
    then have "p = rbt_nil h"
      using assms(1) by (simp add: tree_at_def)
    then show ?thesis
      using Nil assms(2) y by (auto simp: nil_ok_def)
  next
    case (Cons f c')
    note up = tree_at_upD [OF assms(1) [unfolded Cons]]
    have "rn_left h p \<noteq> rn_right h p"
      using up left_neq_right [of h c' "rn_p h p" p] by (cases f) auto
    moreover have "p \<noteq> rbt_nil h" "p \<noteq> y" "p \<notin> set_tree l \<union> set_tree r"
      using tree_at_nodes(2,5) [OF assms(1)] up(1) Cons by auto
    ultimately show ?thesis
      using up Cons by (auto split: if_splits)
  qed
  then show "p = rbt_nil h \<longleftrightarrow> c = []" "p \<noteq> y" "p \<notin> set_tree l \<union> set_tree r"
    "rn_left h p = y \<longleftrightarrow> (c \<noteq> [] \<and> hole_left (hd c))" "rn_right h p = y \<longleftrightarrow> (c \<noteq> [] \<and> \<not> hole_left (hd c))"
    by blast+
qed

lemma splice_fields':
  assumes "tree_at h c p y (Node l y r)" "x \<noteq> y" "nil_ok h"
  shows "rn_p (splice_out h y x) = (rn_p h)(x := p)"
    "rn_left (splice_out h y x) =
      (case c of f # _ \<Rightarrow> if hole_left f then (rn_left h)(p := x) else rn_left h | _ \<Rightarrow> rn_left h)"
    "rn_right (splice_out h y x) =
      (case c of f # _ \<Rightarrow> if hole_left f then rn_right h else (rn_right h)(p := x) | _ \<Rightarrow> rn_right h)"
    "rbt_root (splice_out h y x) = (if c = [] then x else rbt_root h)"
  using tree_at_side [OF assms(1,3)] assms(2) by (cases c; auto simp: splice_out_def Let_def)+

lemma splice_ok:
  assumes "tree_at h c p y (Node l y r)" "l = Leaf \<and> t = r \<and> x = rn_right h y \<or> r = Leaf \<and> t = l \<and> x = rn_left h y"
    and "nil_ok h"
  shows "tree_at (splice_out h y x) c p x t" "rn_p (splice_out h y x) x = p" "nil_ok (splice_out h y x)"
proof -
  let ?n = "rbt_nil h"
  have s: "hseg h c p y" and x: "hshape h y x t" and d: "distinct (inorder t)" "y \<notin> set_tree t" "y \<notin> cnodes c"
      "set_tree t \<inter> cnodes c = {}" "cdistinct c" "?n \<notin> cnodes c" "?n \<notin> set_tree t" "y \<noteq> ?n"
    using assms(1,2) tree_at_nodes [OF assms(1)] by (auto simp: tree_at_def)
  have o: "x = ?n \<or> x \<in> set_tree t"
    using shape_root [OF x] by blast
  then have xy: "x \<noteq> y" "x \<notin> cnodes c"
    using d by auto
  note f = splice_fields' [OF assms(1) xy(1) assms(3)]
  have dist: "distinct (inorder (plug c t))"
    unfolding distinct_plug using d by simp
  have P: "hshape (set_p x p h) p x t"
    using x d(1,7) o by (cases t) auto
  have "hseg (splice_out h y x) c p x \<and> hshape (splice_out h y x) p x t"
  proof (cases c)
    case Nil
    then show ?thesis
      unfolding f using s P by simp
  next
    case (Cons f c')
    have p: "p = fnode f" "p \<notin> set_tree t" "p \<notin> set_tree (fsib f) \<union> cnodes c'" "x \<noteq> p"
        "x \<notin> set_tree (fsib f) \<union> cnodes c'"
      using s d xy(2) Cons by auto
    then show ?thesis
      using s P xy(2) Cons by (cases f) (simp_all add: f)
  qed
  then show "tree_at (splice_out h y x) c p x t"
    using dist d by (simp add: tree_at_def)
  show "rn_p (splice_out h y x) x = p"
    by (simp add: f)
  show "nil_ok (splice_out h y x)"
    unfolding nil_ok_def f using assms(3) d(6) s by (cases c) (auto simp: nil_ok_def)
qed

lemma tree_at_unplug':
  assumes "tree_at h c p x (plug d t)"
  shows "\<exists>p' x'. tree_at h (d @ c) p' x' t"
  using assms shape_plug [of "rbt_nil h" "rn_left h" "rn_right h" "rn_p h" p x d t]
    seg_append [of "rbt_nil h" "rn_left h" "rn_right h" "rn_p h" d c]
  by (auto simp: tree_at_def set_plug cnodes_append plug_append)

text \<open>The colors around the place of the node.\<close>

definition hole_rb :: "coloring \<Rightarrow> frame list \<Rightarrow> node tree \<Rightarrow> su_rbt_color \<Rightarrow> bool" where
  "hole_rb col c t y \<longleftrightarrow> invc col t \<and> invh col t \<and> ctx_c col c \<and>
    ctx_h col c (bh col t + (if y = RBT_BLACK then 1 else 0)) \<and> (y = RBT_RED \<longrightarrow> rootc col t = RBT_BLACK)"

lemma hole_rb_splice:
  assumes "is_rb col (plug c (Node l y r))" "l = Leaf \<and> t = r \<or> r = Leaf \<and> t = l"
  shows "hole_rb col c t (col y)"
  using assms unfolding rb_plug hole_rb_def by (auto simp: weight_def)

lemma hole_rb_red:
  assumes "hole_rb col c t RBT_RED"
  shows "is_rb col (plug c t)"
  using assms unfolding rb_plug hole_rb_def by simp

lemma remove_end:
  assumes "tree_at h c p x t" "rn_p h x = p" "nil_ok h" "hole_rb (rn_color h) c t yc"
  shows "\<exists>h' t'. (if yc = RBT_BLACK then rb_delete_fixup h x else Some h) = Some h' \<and> rb_tree h' t' \<and>
    inorder t' = inorder (plug c t) \<and> same_data h h'"
proof (cases "yc = RBT_BLACK")
  case True
  then have "del_state h c x t"
    using assms by (simp add: del_state_def hole_rb_def invc_2)
  then show ?thesis
    using rb_delete_fixup_ok [of h c x t] True by simp
next
  case False
  then have "is_rb (rn_color h) (plug c t)"
    using assms(4) hole_rb_red by simp
  then have "rb_tree h (plug c t)"
    using tree_at_plug [OF assms(1)] assms(3) by (simp add: rb_tree_def)
  then show ?thesis
    using False by auto
qed

section \<open>The successor in the place of the node\<close>

lemma relink_data [simp]:
  "rbt_nil (relink h z y) = rbt_nil h" "same_data h (relink h z y)"
  by (simp_all add: relink_def Let_def)

lemma relink_fields:
  assumes "tree_at h c p z (Node l z r)" "l \<noteq> Leaf" "nil_ok h" "y \<notin> set_tree (plug c (Node l z r))"
    and "y \<noteq> rbt_nil h" "r = Leaf \<longrightarrow> rn_p h (rbt_nil h) = z"
  defines "xl \<equiv> rn_left h z" and "xr \<equiv> rn_right h z"
  shows "rn_left (relink h z y) = (case c of f # _ \<Rightarrow> if hole_left f then (rn_left h)(p := y, y := xl)
      else (rn_left h)(y := xl) | _ \<Rightarrow> (rn_left h)(y := xl))"
    "rn_right (relink h z y) = (case c of f # _ \<Rightarrow> if hole_left f then (rn_right h)(y := xr)
      else (rn_right h)(p := y, y := xr) | _ \<Rightarrow> (rn_right h)(y := xr))"
    "rn_p (relink h z y) = (rn_p h)(xl := y, xr := y, y := p)"
    "rn_color (relink h z y) = (rn_color h)(y := rn_color h z)"
    "rbt_root (relink h z y) = (if c = [] then y else rbt_root h)"
proof -
  note side = tree_at_side [OF assms(1,3)]
  have l: "hshape h z xl l" and r: "hshape h z xr r" and sub: "set_tree l \<inter> set_tree r = {}"
      "z \<notin> set_tree l \<union> set_tree r" "z \<noteq> rbt_nil h" "rbt_nil h \<notin> set_tree l"
    using assms(1) tree_at_nodes(1,3) [OF assms(1)] by (auto simp: tree_at_def xl_def xr_def)
  have xl: "xl \<in> set_tree l" "rn_p h xl = z"
    using shape_root [OF l] assms(2) by auto
  have xr: "xr = rbt_nil h \<and> r = Leaf \<or> xr \<in> set_tree r" "rn_p h xr = z"
    using shape_root [OF r] assms(6) by auto
  then have d: "xl \<noteq> xr" "xl \<noteq> z" "xr \<noteq> z" "xl \<noteq> p"
    using xl sub side(4) by auto
  have pc: "p \<in> insert (rbt_nil h) (cnodes c)"
    using assms(1) tree_at_upD(1) by (cases c) (auto simp: tree_at_def)
  have y: "y \<noteq> z" "y \<noteq> xl" "y \<noteq> xr" "y \<noteq> p"
    using assms(4,5) xl xr pc by (auto simp: set_plug)
  show "rn_left (relink h z y) = (case c of f # _ \<Rightarrow> if hole_left f then (rn_left h)(p := y, y := xl)
      else (rn_left h)(y := xl) | _ \<Rightarrow> (rn_left h)(y := xl))"
    "rn_right (relink h z y) = (case c of f # _ \<Rightarrow> if hole_left f then (rn_right h)(y := xr)
      else (rn_right h)(p := y, y := xr) | _ \<Rightarrow> (rn_right h)(y := xr))"
    "rn_p (relink h z y) = (rn_p h)(xl := y, xr := y, y := p)"
    "rn_color (relink h z y) = (rn_color h)(y := rn_color h z)"
    "rbt_root (relink h z y) = (if c = [] then y else rbt_root h)"
    using side y d xl xr(2) unfolding xl_def xr_def
    by (cases c; auto simp: relink_def Let_def)+
qed

lemma relink_ok:
  assumes "tree_at h c p z (Node l z r)" "l \<noteq> Leaf" "nil_ok h" "y \<notin> set_tree (plug c (Node l z r))"
    and "y \<noteq> rbt_nil h" "r = Leaf \<longrightarrow> rn_p h (rbt_nil h) = z"
  shows "tree_at (relink h z y) c p y (Node l y r)" "nil_ok (relink h z y)"
proof -
  let ?n = "rbt_nil h" and ?xl = "rn_left h z" and ?xr = "rn_right h z"
  let ?P = "(rn_p h)(?xl := y, ?xr := y)"
  note f = relink_fields [OF assms]
  have l: "hshape h z ?xl l" and r: "hshape h z ?xr r" and s: "hseg h c p z"
    using assms(1) by (simp_all add: tree_at_def)
  have sub: "set_tree l \<inter> set_tree r = {}" "distinct (inorder l)" "distinct (inorder r)" "?n \<notin> set_tree l \<union> set_tree r"
      "set_tree l \<inter> cnodes c = {}" "set_tree r \<inter> cnodes c = {}" "?n \<notin> cnodes c" "cdistinct c"
    using tree_at_nodes [OF assms(1)] by auto
  have y: "y \<notin> set_tree l \<union> set_tree r" "y \<notin> cnodes c"
    using assms(4) by (auto simp: set_plug)
  have xl: "?xl \<in> set_tree l" "?xl \<noteq> ?n"
    using shape_root [OF l] assms(2) by auto
  have xr: "?xr = ?n \<and> r = Leaf \<or> ?xr \<noteq> ?n \<and> ?xr \<in> set_tree r"
    using shape_root [OF r] by auto
  have d: "?xl \<noteq> ?xr" "?xr \<notin> set_tree l" "?xl \<notin> set_tree r" "?xl \<notin> cnodes c" "?xr \<notin> cnodes c"
    using xl xr sub by auto
  have L: "shape ?n (rn_left h) (rn_right h) ?P y ?xl l"
    using shape_reparent' [OF l sub(2) xl(2), of y] d(2) by simp
  have R: "shape ?n (rn_left h) (rn_right h) ?P y ?xr r"
  proof (cases "r = Leaf")
    case False
    then show ?thesis
      using shape_reparent' [OF r sub(3), of y] xr d(3) by (simp add: fun_upd_twist [OF d(1)])
  qed (use r in simp)
  have dist: "distinct (inorder (plug c (Node l y r)))"
    unfolding distinct_plug using sub y by auto
  have "hseg (relink h z y) c p y \<and> hshape (relink h z y) p y (Node l y r)"
  proof (cases c)
    case Nil
    then show ?thesis
      unfolding relink_data f using L R s y assms(5) by simp
  next
    case (Cons g c')
    have p: "p = fnode g" "p \<notin> set_tree l \<union> set_tree r" "p \<notin> set_tree (fsib g) \<union> cnodes c'"
        "p \<noteq> ?xl" "p \<noteq> ?xr" "p \<noteq> y" "y \<notin> set_tree (fsib g) \<union> cnodes c'"
        "?xl \<notin> set_tree (fsib g) \<union> cnodes c'" "?xr \<notin> set_tree (fsib g) \<union> cnodes c'"
      using s sub d y Cons by auto
    then show ?thesis
      unfolding relink_data f using L R s y assms(5) Cons by (cases g) simp_all
  qed
  then show "tree_at (relink h z y) c p y (Node l y r)"
    using dist y sub assms(5) by (simp add: tree_at_def)
  have zn: "z \<noteq> ?n"
    using tree_at_nodes(1) [OF assms(1)] by auto
  show "nil_ok (relink h z y)"
    unfolding nil_ok_def relink_data f using assms(3,5) sub(7) s by (cases c) (auto simp: nil_ok_def)
qed

lemma hole_rb_relink:
  assumes "hole_rb col (d @ RF l z # c) t yc" "y \<notin> cnodes (d @ RF l z # c) \<union> set_tree t"
  shows "hole_rb (col(y := col z)) (d @ RF l y # c) t yc"
  using assms by (simp add: hole_rb_def ctx_c_rename ctx_h_rename)

section \<open>The deletion\<close>

lemma min_focus:
  assumes "r \<noteq> Leaf"
  shows "\<exists>d y r'. r = plug d (Node Leaf y r') \<and> lpart d = []"
  using assms
proof (induction r)
  case (Node l a r)
  show ?case
  proof (cases "l = Leaf")
    case True
    then show ?thesis
      by (intro exI [of _ "[]"]) simp
  next
    case False
    then obtain d y r' where "l = plug d (Node Leaf y r')" "lpart d = []"
      using Node.IH(1) by blast
    then have "Node l a r = plug (d @ [LF a r]) (Node Leaf y r')" "lpart (d @ [LF a r]) = []"
      by (simp_all add: plug_append lpart_append)
    then show ?thesis
      by blast
  qed
qed simp

lemma rb_delete_one_child:
  assumes "rb_tree h T" "T = plug c (Node l z r)" "l = Leaf \<or> r = Leaf"
  shows "\<exists>h' T'. rb_delete h z = Some (h', z) \<and> rb_tree h' T' \<and>
    inorder T' = lpart c @ inorder l @ inorder r @ rpart c \<and> same_data h h'"
proof -
  have T: "tree_at h [] (rbt_nil h) (rbt_root h) T" and ok: "nil_ok h" and rb: "is_rb (rn_color h) T"
    using assms(1) by (simp_all add: rb_tree_def)
  obtain p where at: "tree_at h c p z (Node l z r)"
    using tree_at_unplug T assms(2) by (metis shape.simps(2) tree_at_def)
  have nil: "rn_left h z = rbt_nil h \<longleftrightarrow> l = Leaf" "rn_right h z = rbt_nil h \<longleftrightarrow> r = Leaf"
    using at by (cases l; cases r; auto simp: tree_at_def)+
  define x t where "x = (if l \<noteq> Leaf then rn_left h z else rn_right h z)" and "t = (if l \<noteq> Leaf then l else r)"
  have x: "l = Leaf \<and> t = r \<and> x = rn_right h z \<or> r = Leaf \<and> t = l \<and> x = rn_left h z"
    using assms(3) by (auto simp: x_def t_def)
  let ?h = "splice_out h z x"
  note sp = splice_ok [OF at x ok]
  have "hole_rb (rn_color h) c t (rn_color h z)"
    using hole_rb_splice [OF rb [unfolded assms(2)]] x by blast
  then obtain h' T' where *: "(if rn_color h z = RBT_BLACK then rb_delete_fixup ?h x else Some ?h) = Some h'"
      "rb_tree h' T'" "inorder T' = inorder (plug c t)" "same_data ?h h'"
    using remove_end [OF sp, of "rn_color h z"] by auto
  have "rb_delete h z = Some (h', z)"
    using *(1) assms(3) nil unfolding rb_delete_def x_def by (auto simp: Let_def)
  moreover have "same_data h h'"
    using *(4) same_data_trans [of h ?h h'] by simp
  moreover have "inorder T' = lpart c @ inorder l @ inorder r @ rpart c"
    using *(3) x by (auto simp: inorder_plug)
  ultimately show ?thesis
    using *(2) by blast
qed

lemma rb_delete_two_children:
  assumes "rb_tree h T" "T = plug c (Node l z r)" "l \<noteq> Leaf" "r \<noteq> Leaf"
  shows "\<exists>h' T'. rb_delete h z = Some (h', z) \<and> rb_tree h' T' \<and>
    inorder T' = lpart c @ inorder l @ inorder r @ rpart c \<and> same_data h h'"
proof -
  have T: "tree_at h [] (rbt_nil h) (rbt_root h) T" and ok: "nil_ok h" and rb: "is_rb (rn_color h) T"
    using assms(1) by (simp_all add: rb_tree_def)
  obtain p where atz: "tree_at h c p z (Node l z r)"
    using tree_at_unplug T assms(2) by (metis shape.simps(2) tree_at_def)
  have nil: "rn_left h z \<noteq> rbt_nil h" "rn_right h z \<noteq> rbt_nil h"
    using atz assms(3,4) by (cases l; cases r; auto simp: tree_at_def)+
  obtain d y r' where r: "r = plug d (Node Leaf y r')" "lpart d = []"
    using min_focus [OF assms(4)] by blast
  have succ: "tree_successor h z = Some y"
    using tree_successor_ok [OF atz] by (simp add: r inorder_plug)
  let ?c = "d @ RF l z # c"
  have Ty: "T = plug ?c (Node Leaf y r')"
    by (simp add: assms(2) r plug_append)
  obtain q where at: "tree_at h ?c q y (Node Leaf y r')"
    using tree_at_unplug T Ty by (metis shape.simps(2) tree_at_def)
  have ly: "rn_left h y = rbt_nil h"
    using at by (simp add: tree_at_def)
  have yz: "y \<noteq> z" "y \<noteq> rbt_nil h" "y \<notin> cnodes ?c \<union> set_tree r'"
    using tree_at_nodes(1,3,5) [OF at] by (auto simp: cnodes_append)
  let ?x = "rn_right h y"
  have x: "Leaf = Leaf \<and> r' = r' \<and> ?x = rn_right h y \<or> r' = Leaf \<and> r' = Leaf \<and> ?x = rn_left h y"
    by simp
  let ?h = "splice_out h y ?x" and ?h2 = "relink (splice_out h y ?x) z y"
  note sp = splice_ok [OF at x ok]
  have hole: "hole_rb (rn_color ?h) ?c r' (rn_color h y)"
    using hole_rb_splice [OF rb [unfolded Ty]] by simp
  have "tree_at ?h [] (rbt_nil ?h) (rbt_root ?h) (plug c (Node l z (plug d r')))"
    using tree_at_plug [OF sp(1)] by (simp add: plug_append)
  then obtain pz where "tree_at ?h c pz z (Node l z (plug d r'))"
    using tree_at_unplug by (metis shape.simps(2) tree_at_def)
  then have sz: "tree_at ?h c (rn_p ?h z) z (Node l z (plug d r'))"
    by (auto simp: tree_at_def)
  have yT: "y \<notin> set_tree (plug c (Node l z (plug d r')))"
    using yz by (auto simp: set_plug cnodes_append)
  have "rn_p ?h (rbt_nil h) = z" if "plug d r' = Leaf"
  proof -
    have "d = []" "r' = Leaf"
      using that by (cases d rule: rev_cases; auto simp: plug_append elim!: fill.elims)+
    then have "q = z" "?x = rbt_nil h"
      using at by (simp_all add: tree_at_def)
    then show ?thesis
      using sp(2) by simp
  qed
  then have root: "plug d r' = Leaf \<longrightarrow> rn_p ?h (rbt_nil ?h) = z"
    by simp
  have yn: "y \<noteq> rbt_nil ?h"
    using yz(2) by simp
  note rl = relink_ok [OF sz assms(3) sp(3) yT yn root]
  have at2: "tree_at ?h2 (d @ RF l y # c) (rn_p ?h2 ?x) ?x r'"
  proof -
    have "tree_at ?h2 (RF l y # c) y (rn_right ?h2 y) (plug d r')"
      using rl(1) tree_at_parent [OF rl(1)] by (simp add: tree_at_up)
    then obtain p' x' where at': "tree_at ?h2 (d @ RF l y # c) p' x' r'"
      using tree_at_unplug' by blast
    show ?thesis
    proof (cases r')
      case (Node a b e)
      then have "x' = ?x" "rn_p ?h2 x' = p'"
        using tree_at_parent [OF at' [unfolded Node]] tree_at_parent [OF sp(1) [unfolded Node]] by blast+
      then show ?thesis
        using at' by blast
    next
      case Leaf
      then have x': "?x = rbt_nil h" "x' = rbt_nil h"
        using at at' by (simp_all add: tree_at_def)
      have "rn_left ?h z \<noteq> rbt_nil h" "rn_right ?h z = rbt_nil h \<longleftrightarrow> plug d r' = Leaf"
        using sz assms(3) by (cases l; cases "plug d r'"; auto simp: tree_at_def)+
      then have P: "rn_p ?h2 (rbt_nil h) = (if plug d r' = Leaf then y else q)"
        using sp(2) x' yz(2) unfolding relink_fields(3) [OF sz assms(3) sp(3) yT yn root] by auto
      have "p' = (if plug d r' = Leaf then y else q)"
      proof (cases d)
        case Nil
        then show ?thesis
          using tree_at_upD(1) [of ?h2 "RF l y" c p' x' r'] at' Leaf by simp
      next
        case (Cons f d')
        then have "plug d r' \<noteq> Leaf"
          using set_plug [of d r'] by (cases "plug d r'") auto
        then show ?thesis
          using tree_at_upD(1) [of ?h2 f _ p' x' r'] tree_at_upD(1) [of h f _ q y] at' at Cons by simp
      qed
      then show ?thesis
        using at' x' P by simp
    qed
  qed
  have "hole_rb (rn_color ?h2) (d @ RF l y # c) r' (rn_color h y)"
    using hole_rb_relink [OF hole yz(3)] relink_fields(4) [OF sz assms(3) sp(3) yT yn root] by simp
  then obtain h' T' where *: "(if rn_color h y = RBT_BLACK then rb_delete_fixup ?h2 ?x else Some ?h2) = Some h'"
      "rb_tree h' T'" "inorder T' = inorder (plug (d @ RF l y # c) r')" "same_data ?h2 h'"
    using remove_end [OF at2 refl rl(2), of "rn_color h y"] by auto
  have "rb_delete h z = Some (h', z)"
    using *(1) nil succ ly yz(1) unfolding rb_delete_def by (simp add: Let_def)
  moreover have "same_data h h'"
    using *(4) same_data_trans [of h ?h2 h'] same_data_trans [of h ?h ?h2] by simp
  moreover have "inorder T' = lpart c @ inorder l @ inorder r @ rpart c"
    using *(3) r(2) by (auto simp: inorder_plug plug_append r(1))
  ultimately show ?thesis
    using *(2) by blast
qed

lemma rb_delete_ok:
  assumes "rb_tree h T" "inorder T = xs @ z # ys"
  shows "\<exists>h' T'. rb_delete h z = Some (h', z) \<and> rb_tree h' T' \<and> inorder T' = xs @ ys \<and> same_data h h'"
proof -
  have T: "tree_at h [] (rbt_nil h) (rbt_root h) T"
    using assms(1) by (simp add: rb_tree_def)
  obtain c p l r where c: "tree_at h c p z (Node l z r)" "plug c (Node l z r) = T"
      "lpart c @ inorder l = xs" "inorder r @ rpart c = ys"
    using node_focus [OF T assms(2)] by blast
  then show ?thesis
    using rb_delete_one_child [OF assms(1), of c l z r] rb_delete_two_children [OF assms(1), of c l z r]
    by (cases "l = Leaf \<or> r = Leaf") force+
qed

section \<open>The interface\<close>

lemma remove_nodes_ok:
  assumes "nodes_ok ok val h (xs @ z # ys)" "same_data h h'"
  shows "nodes_ok ok val (h'\<lparr>rbt_nelems := rbt_nelems h' - 1\<rparr>) (xs @ ys)"
  using assms by (auto simp: nodes_ok_def same_data_def sorted_middle)

lemma remove_rbt_ok:
  assumes "rbt_ok ok val h (xs @ z # ys)"
  shows "\<exists>h'. rb_delete h z = Some (h', z) \<and> same_data h h' \<and>
    rbt_ok ok val (h'\<lparr>rbt_nelems := rbt_nelems h' - 1\<rparr>) (xs @ ys)"
proof -
  obtain T where T: "rb_tree h T" "inorder T = xs @ z # ys" and ns: "nodes_ok ok val h (xs @ z # ys)"
    using assms by (auto simp: rbt_ok_def)
  obtain h' T' where *: "rb_delete h z = Some (h', z)" "rb_tree h' T'" "inorder T' = xs @ ys" "same_data h h'"
    using rb_delete_ok [OF T] by blast
  have "rbt_ok ok val (h'\<lparr>rbt_nelems := rbt_nelems h' - 1\<rparr>) (xs @ ys)"
    unfolding rbt_ok_def rb_tree_fields using *(2,3) remove_nodes_ok [OF ns *(4)] by blast
  then show ?thesis
    using * by blast
qed

lemma release_same: "same_data h (release_key k h) \<longleftrightarrow> \<not> rbt_delete h" "same_cmp h (release_key k h)"
  "rbt_ok ok val (release_key k h) ns = rbt_ok ok val h ns" "rn_key (release_key k h) = rn_key h"
  by (simp_all add: release_key_def same_data_def same_cmp_def rbt_ok_def rb_tree_def tree_at_def nil_ok_def
      nodes_ok_def)

lemma su_rbt_delete_ok:
  assumes "rbt_ok ok val h (xs @ z # ys)"
  shows "\<exists>h'. su_rbt_delete h z = Some (h', if rbt_delete h then None else Some (rn_key h z)) \<and>
    rbt_ok ok val h' (xs @ ys) \<and> rn_key h' = rn_key h \<and> same_cmp h h' \<and>
    rbt_deleted h' = rbt_deleted h @ (if rbt_delete h then [rn_key h z] else [])"
proof -
  let ?h = "release_key (rn_key h z) h"
  obtain h' where *: "rb_delete ?h z = Some (h', z)" "same_data ?h h'"
      "rbt_ok ok val (h'\<lparr>rbt_nelems := rbt_nelems h' - 1\<rparr>) (xs @ ys)"
    using remove_rbt_ok [of ok val ?h xs z ys] assms by (auto simp: release_same(3))
  then show ?thesis
    by (auto simp: su_rbt_delete_def Let_def release_key_def same_data_def same_cmp_def)
qed

lemma su_rbt_delete_nodatadel_ok:
  assumes "rbt_ok ok val h (xs @ z # ys)"
  shows "\<exists>h'. su_rbt_delete_nodatadel h z = Some (h', rn_key h z) \<and>
    rbt_ok ok val h' (xs @ ys) \<and> rn_key h' = rn_key h \<and> same_cmp h h' \<and> rbt_deleted h' = rbt_deleted h"
proof -
  obtain h' where *: "rb_delete h z = Some (h', z)" "same_data h h'"
      "rbt_ok ok val (h'\<lparr>rbt_nelems := rbt_nelems h' - 1\<rparr>) (xs @ ys)"
    using remove_rbt_ok [OF assms] by auto
  then show ?thesis
    by (auto simp: su_rbt_delete_nodatadel_def same_data_def same_cmp_def)
qed

lemma su_rbt_deleteall_ok:
  assumes "rbt_ok ok val h ns"
  shows "\<exists>h'. su_rbt_deleteall h = Some h' \<and> rbt_ok ok val h' [] \<and> same_cmp h h' \<and>
    rbt_deleted h' = rbt_deleted h @ (if rbt_delete h then keys h ns else [])"
  using assms
proof (induction ns arbitrary: h)
  case Nil
  then show ?case
    using su_rbt_ends(1) [OF Nil] by (subst su_rbt_deleteall.simps) (simp add: same_cmp_def)
next
  case (Cons n ns)
  obtain h1 where *: "su_rbt_delete h n = Some (h1, if rbt_delete h then None else Some (rn_key h n))"
      "rbt_ok ok val h1 ns" "rn_key h1 = rn_key h" "same_cmp h h1"
      "rbt_deleted h1 = rbt_deleted h @ (if rbt_delete h then [rn_key h n] else [])"
    using su_rbt_delete_ok [of ok val h "[]" n ns] Cons.prems by auto
  have "su_rbt_deleteall h = su_rbt_deleteall h1"
    using su_rbt_ends(1) [OF Cons.prems] *(1) by (subst su_rbt_deleteall.simps) simp
  then show ?case
    using Cons.IH [OF *(2)] *(3-5) by (auto simp: same_cmp_def)
qed

lemma first_node:
  assumes "rb_tree h T" "inorder T = ns"
  shows "tree_minimum h (rbt_root h) = Some (if ns = [] then rbt_nil h else hd ns)"
proof (cases "T = Leaf")
  case True
  then show ?thesis
    using assms by (subst tree_minimum.simps) (auto simp: rb_tree_def nil_ok_def tree_at_def)
next
  case False
  then show ?thesis
    using tree_minimum_ok [of h "rbt_nil h" "rbt_root h" T] assms by (auto simp: rb_tree_def tree_at_def)
qed

lemma su_rbt_done_loop_ok:
  assumes "rb_tree h T" "inorder T = ns" "x = (if ns = [] then rbt_nil h else hd ns)"
  shows "su_rbt_done_loop h x = Some (rbt_deleted h @ (if rbt_delete h then keys h ns else []))"
  using assms
proof (induction ns arbitrary: h T x)
  case Nil
  then show ?case
    by (subst su_rbt_done_loop.simps) simp
next
  case (Cons n ns)
  let ?h = "release_key (rn_key h n) h"
  have at: "tree_at h [] (rbt_nil h) (rbt_root h) T"
    using Cons.prems(1) by (simp add: rb_tree_def)
  have "n \<in> set_tree T"
    using Cons.prems(2) by (metis list.set_intros(1) set_inorder)
  then have n: "n \<noteq> rbt_nil h"
    using tree_at_nodes(1) [OF at] by auto
  obtain h' T' where *: "rb_delete ?h n = Some (h', n)" "rb_tree h' T'" "inorder T' = ns" "same_data ?h h'"
    using rb_delete_ok [of ?h T "[]" n ns] Cons.prems by auto
  then show ?case
    using Cons.prems(3) Cons.IH [OF *(2,3) refl] first_node [OF *(2,3)] *(1,4) n
    by (subst su_rbt_done_loop.simps) (auto simp: same_data_def release_key_def)
qed

lemma su_rbt_done_ok:
  assumes "rbt_ok ok val h ns"
  shows "su_rbt_done h = Some (rbt_deleted h @ (if rbt_delete h then keys h ns else []))"
proof -
  obtain T where T: "rb_tree h T" "inorder T = ns"
    using assms by (auto simp: rbt_ok_def)
  show ?thesis
    using su_rbt_done_loop_ok [OF T refl] first_node [OF T] by (simp add: su_rbt_done_def)
qed

end
