(* ===== verification/Rbt_Interface.thy ===== *)
theory Rbt_Interface
  imports Rbt_Remove
begin

text \<open>
  What the users of the red-black tree rely on, as a locale, and the tree as an instance of it. A
  representation relates a tree to the list of its nodes in ascending order of their keys; the
  operations are described on that list. The users' loops over a tree are done once here.
\<close>

section \<open>Loops\<close>

fun fold_option :: "('a \<Rightarrow> 's \<Rightarrow> 's option) \<Rightarrow> 'a list \<Rightarrow> 's \<Rightarrow> 's option" where
  "fold_option f [] s = Some s"
| "fold_option f (x # xs) s = Option.bind (f x s) (fold_option f xs)"

lemma fold_option_append: "fold_option f (xs @ ys) s = Option.bind (fold_option f xs s) (fold_option f ys)"
  by (induction xs arbitrary: s) (auto split: Option.bind_split)

lemma fold_option_map: "fold_option f (map g xs) s = fold_option (\<lambda>x. f (g x)) xs s"
  by (induction xs arbitrary: s) (auto split: Option.bind_split)

text \<open>The loop \<^verbatim>\<open>for (n = first; n != NULL; n = succ(n))\<close> of the users of a tree.\<close>

partial_function (option) walk_loop ::
  "('n \<Rightarrow> 'n option option) \<Rightarrow> ('n \<Rightarrow> 's \<Rightarrow> 's option) \<Rightarrow> 'n option \<Rightarrow> 's \<Rightarrow> 's option" where
  "walk_loop succ body node s =
    (case node of
       None \<Rightarrow> Some s
     | Some n \<Rightarrow> Option.bind (body n s) (\<lambda>s1. Option.bind (succ n) (\<lambda>m. walk_loop succ body m s1)))"

section \<open>The interface\<close>

definition first_of :: "'n list \<Rightarrow> 'n option" where
  "first_of ns = (case ns of [] \<Rightarrow> None | n # _ \<Rightarrow> Some n)"

lemma first_of_simps [simp]: "first_of [] = None" "first_of (n # ns) = Some n"
  by (simp_all add: first_of_def)

lemma first_of_if: "(if ns = [] then None else Some (hd ns)) = first_of ns"
  by (cases ns) auto

text \<open>A key joins the keys unless an equal one is there.\<close>

definition add_key :: "('k \<Rightarrow> 'b::linorder) \<Rightarrow> 'k \<Rightarrow> 'k list \<Rightarrow> 'k list" where
  "add_key val k ks = (if \<exists>l\<in>set ks. val l = val k then ks else insort_key val k ks)"

locale ordered_nodes =
  fixes inv :: "'h \<Rightarrow> 'n list \<Rightarrow> bool"
    and key :: "'h \<Rightarrow> 'n \<Rightarrow> 'k"
    and val :: "'k \<Rightarrow> 'b::linorder"
    and ok :: "'k \<Rightarrow> bool"
    and ins :: "'h \<Rightarrow> 'k \<Rightarrow> ('h \<times> bool) option"
    and del :: "'h \<Rightarrow> 'n \<Rightarrow> ('h \<times> 'r) option"
    and least :: "'h \<Rightarrow> 'n option option"
    and succ :: "'h \<Rightarrow> 'n \<Rightarrow> 'n option option"
    and look :: "'h \<Rightarrow> 's \<Rightarrow> 'n option option"
    and atleast :: "'h \<Rightarrow> 's \<Rightarrow> 'n option option"
    and sok :: "'s \<Rightarrow> bool"
    and sval :: "'s \<Rightarrow> 'b"
  assumes keys_ok: "inv h ns \<Longrightarrow> n \<in> set ns \<Longrightarrow> ok (key h n)"
    and keys_sorted: "inv h ns \<Longrightarrow> key_sorted val (map (key h) ns)"
    and ins_ok: "inv h ns \<Longrightarrow> ok k \<Longrightarrow> \<exists>h' ns'.
      ins h k = Some (h', \<not> (\<exists>n\<in>set ns. val (key h n) = val k)) \<and> inv h' ns' \<and>
      map (key h') ns' = add_key val k (map (key h) ns)"
    and del_ok: "inv h (xs @ n # ys) \<Longrightarrow> \<exists>h' r. del h n = Some (h', r) \<and> inv h' (xs @ ys) \<and>
      key h' = key h"
    and least_ok: "inv h ns \<Longrightarrow> least h = Some (first_of ns)"
    and succ_ok: "inv h (xs @ n # ys) \<Longrightarrow> succ h n = Some (first_of ys)"
    and look_ok: "inv h ns \<Longrightarrow> sok s \<Longrightarrow> look h s = Some (find (\<lambda>n. val (key h n) = sval s) ns)"
    and atleast_ok: "inv h ns \<Longrightarrow> sok s \<Longrightarrow> atleast h s = Some (find (\<lambda>n. sval s \<le> val (key h n)) ns)"
begin

text \<open>A loop over the nodes that leaves the tree alone.\<close>

lemma walk_from:
  "inv h (xs @ ns) \<Longrightarrow> walk_loop (succ h) body (first_of ns) s = fold_option body ns s"
proof (induction ns arbitrary: xs s)
  case Nil
  then show ?case
    by (subst walk_loop.simps) simp
next
  case (Cons n ns)
  then show ?case
    using Cons.IH [of "xs @ [n]"] succ_ok [of h xs n ns]
    by (subst walk_loop.simps) (auto split: Option.bind_split)
qed

lemma walk:
  "inv h ns \<Longrightarrow> Option.bind (least h) (\<lambda>n. walk_loop (succ h) body n s) = fold_option body ns s"
  using walk_from [of h "[]" ns] by (simp add: least_ok)

text \<open>Insertions in a row.\<close>

lemma ins_all:
  "inv h ns \<Longrightarrow> \<forall>k\<in>set ks. ok k \<Longrightarrow>
    \<exists>h' ns'. fold_option (\<lambda>k h. map_option fst (ins h k)) ks h = Some h' \<and> inv h' ns' \<and>
      map (key h') ns' = fold (add_key val) ks (map (key h) ns)"
proof (induction ks arbitrary: h ns)
  case (Cons k ks)
  obtain h1 ns1 where 1: "ins h k = Some (h1, \<not> (\<exists>n\<in>set ns. val (key h n) = val k))" "inv h1 ns1"
      "map (key h1) ns1 = add_key val k (map (key h) ns)"
    using ins_ok [OF Cons.prems(1), of k] Cons.prems(2) by auto
  then show ?case
    using Cons.IH [OF 1(2)] Cons.prems(2) by simp
qed auto

text \<open>Looking up by key.\<close>

lemma find_sorted:
  assumes "inv h (xs @ n # ys)"
  shows "find (\<lambda>m. val (key h m) = val (key h n)) (xs @ n # ys) = Some n"
proof -
  have "\<forall>m\<in>set xs. val (key h m) \<noteq> val (key h n)"
    using keys_sorted [OF assms] by (auto simp: sorted_middle)
  then show ?thesis
    by (induction xs) auto
qed

lemma look_node:
  assumes "inv h (xs @ n # ys)" "sok s" "sval s = val (key h n)"
  shows "look h s = Some (Some n)"
  using look_ok [OF assms(1,2)] find_sorted [OF assms(1)] assms(3) by simp

lemma atleast_after:
  assumes "inv h (xs @ ys)" "sok s" "\<forall>m\<in>set xs. val (key h m) < sval s" "\<forall>m\<in>set ys. sval s < val (key h m)"
  shows "atleast h s = Some (first_of ys)"
proof -
  have "find (\<lambda>n. sval s \<le> val (key h n)) (xs @ ys) = first_of ys"
    using assms(3,4) find_skip [of xs "\<lambda>n. sval s \<le> val (key h n)" ys]
    by (cases ys) (auto simp: not_le less_imp_le)
  then show ?thesis
    using atleast_ok [OF assms(1,2)] by simp
qed

end

section \<open>The tree as an instance\<close>

lemma su_rbt_insert_add:
  assumes "cmp_order (rbt_icompare h) ok val" "rbt_ok ok val h ns" "ok k"
  shows "\<exists>h' ns'. su_rbt_insert h k = Some (h', \<not> (\<exists>n\<in>set ns. val (rn_key h n) = val k)) \<and>
    rbt_ok ok val h' ns' \<and> keys h' ns' = add_key val k (keys h ns) \<and> same_cmp h h'"
proof (cases "\<exists>n\<in>set ns. val (rn_key h n) = val k")
  case True
  then obtain h' where "su_rbt_insert h k = Some (h', False)" "rbt_ok ok val h' ns" "keys h' ns = keys h ns"
      "same_cmp h h'"
    using su_rbt_insert_ok [OF assms] by (metis (no_types, lifting))
  then show ?thesis
    using True by (intro exI [of _ h'] exI [of _ ns]) (simp add: add_key_def)
next
  case False
  then obtain h' ns' where "su_rbt_insert h k = Some (h', True)" "rbt_ok ok val h' ns'"
      "keys h' ns' = insort_key val k (keys h ns)" "same_cmp h h'"
    using su_rbt_insert_ok [OF assms] by (metis (no_types, lifting))
  then show ?thesis
    using False by (intro exI [of _ h'] exI [of _ ns']) (simp add: add_key_def)
qed

text \<open>Two comparisons that agree on an order, one of keys and one of a search key with a key.\<close>

locale rbt_compare = cmp_order icompare ok val
  for icompare :: "'k \<Rightarrow> 'k \<Rightarrow> int" and ok :: "'k \<Rightarrow> bool" and val :: "'k \<Rightarrow> 'b::linorder" +
  fixes scompare :: "'s \<Rightarrow> 'k \<Rightarrow> int"
    and sok :: "'s \<Rightarrow> bool"
    and sval :: "'s \<Rightarrow> 'b"
  assumes scompare_val: "sok s \<Longrightarrow> ok k \<Longrightarrow> sgn (scompare s k) = three_way (sval s) (val k)"

definition rbt_inv :: "('k \<Rightarrow> 'k \<Rightarrow> int) \<Rightarrow> ('s \<Rightarrow> 'k \<Rightarrow> int) \<Rightarrow> ('k \<Rightarrow> bool) \<Rightarrow> ('k \<Rightarrow> 'b::linorder) \<Rightarrow>
    ('k, 's) rbt \<Rightarrow> node list \<Rightarrow> bool" where
  "rbt_inv icmp scmp ok val h ns \<longleftrightarrow> rbt_ok ok val h ns \<and> rbt_icompare h = icmp \<and> rbt_scompare h = scmp"

lemma rbt_inv_init: "rbt_inv icmp scmp ok val (su_rbt_inittwocmp icmp scmp del) []"
  unfolding rbt_inv_def using rbt_ok_init by (simp add: su_rbt_inittwocmp_def)

sublocale rbt_compare \<subseteq> ordered_nodes "rbt_inv icompare scompare ok val" rn_key val ok su_rbt_insert
  su_rbt_delete "\<lambda>h. su_rbt_min h None" su_rbt_succ su_rbt_search su_rbt_search_atleast sok sval
proof
  fix h :: "('k, 's) rbt" and ns n k s xs ys
  {
    assume h: "rbt_inv icompare scompare ok val h ns"
    then have rb: "rbt_ok ok val h ns" and c: "rbt_icompare h = icompare" "rbt_scompare h = scompare"
      by (simp_all add: rbt_inv_def)
    show "n \<in> set ns \<Longrightarrow> ok (rn_key h n)" "key_sorted val (keys h ns)"
      using rb by (simp_all add: rbt_ok_def nodes_ok_def)
    show "ok k \<Longrightarrow> \<exists>h' ns'. su_rbt_insert h k = Some (h', \<not> (\<exists>n\<in>set ns. val (rn_key h n) = val k)) \<and>
        rbt_inv icompare scompare ok val h' ns' \<and> keys h' ns' = add_key val k (keys h ns)"
    proof -
      assume k: "ok k"
      have "cmp_order (rbt_icompare h) ok val"
        using c cmp_order_axioms by simp
      from su_rbt_insert_add [OF this rb k] show ?thesis
        using c by (auto simp: rbt_inv_def same_cmp_def)
    qed
    show "su_rbt_min h None = Some (first_of ns)"
      using su_rbt_ends(1) [OF rb] by (simp add: first_of_if)
    show "sok s \<Longrightarrow> su_rbt_search h s = Some (find (\<lambda>n. val (rn_key h n) = sval s) ns)"
      "sok s \<Longrightarrow> su_rbt_search_atleast h s = Some (find (\<lambda>n. sval s \<le> val (rn_key h n)) ns)"
      using su_rbt_search_ok [OF rb, of s "sval s"] su_rbt_search_atleast_ok [OF rb, of s "sval s"] c(2) scompare_val
      by (simp_all add: search_ok_def)
  next
    assume h: "rbt_inv icompare scompare ok val h (xs @ n # ys)"
    then have rb: "rbt_ok ok val h (xs @ n # ys)" and c: "rbt_icompare h = icompare" "rbt_scompare h = scompare"
      by (simp_all add: rbt_inv_def)
    show "\<exists>h' r. su_rbt_delete h n = Some (h', r) \<and> rbt_inv icompare scompare ok val h' (xs @ ys) \<and> rn_key h' = rn_key h"
      using su_rbt_delete_ok [OF rb] c by (auto simp: rbt_inv_def same_cmp_def)
    show "su_rbt_succ h n = Some (first_of ys)"
      using su_rbt_neighbours(1) [OF rb] by (simp add: first_of_if)
  }
qed

text \<open>The comparisons that come with the tree.\<close>

interpretation long_rbt: rbt_compare su_rbt_long_compare "\<lambda>_. True" id su_rbt_long_compare "\<lambda>_. True" id
  by unfold_locales (auto simp: su_rbt_long_compare_def three_way_def)

interpretation ptr_rbt: rbt_compare su_rbt_ptr_compare "\<lambda>_. True" id su_rbt_ptr_compare "\<lambda>_. True" id
  by unfold_locales (auto simp: su_rbt_ptr_compare_def three_way_def)

end
