(* ===== verification/Rbt_Tree.thy ===== *)
theory Rbt_Tree
  imports Rbt_Interface
begin

text \<open>
  The properties of the red-black tree: insertion, deletion, the searches and the steps from node to
  node are those of a sorted list, no path is longer than twice the logarithm of the size, and the
  end of a tree releases every key once.
\<close>

section \<open>A tree to look at\<close>

definition ex_tree :: "(int, int) rbt \<Rightarrow> bool" where
  "ex_tree h \<longleftrightarrow> fold_option (\<lambda>k h. map_option fst (su_rbt_insert h k)) [20, 10, 30]
    (su_rbt_init su_rbt_long_compare True) = Some h"

lemma ex_tree_ok:
  "\<exists>h a b c. ex_tree h \<and> rbt_inv su_rbt_long_compare su_rbt_long_compare (\<lambda>_. True) id h [a, b, c] \<and>
    keys h [a, b, c] = [10, 20, 30]"
proof -
  let ?h = "su_rbt_init su_rbt_long_compare True :: (int, int) rbt"
  have init: "rbt_inv su_rbt_long_compare su_rbt_long_compare (\<lambda>_. True) id ?h []"
    using rbt_inv_init by (simp add: su_rbt_init_def)
  obtain h ns where h: "fold_option (\<lambda>k h. map_option fst (su_rbt_insert h k)) [20, 10, 30] ?h = Some h"
      "rbt_inv su_rbt_long_compare su_rbt_long_compare (\<lambda>_. True) id h ns"
      "keys h ns = fold (add_key id) [20, 10, 30] []"
    using long_rbt.ins_all [OF init, of "[20, 10, 30]"] by auto
  have k: "keys h ns = [10, 20, 30]"
    unfolding h(3) by (simp add: add_key_def)
  then obtain a b c where "ns = [a, b, c]"
    by (auto simp: map_eq_Cons_conv)
  then show ?thesis
    using h(1,2) k unfolding ex_tree_def
    by (intro exI [of _ h] exI [of _ a] exI [of _ b] exI [of _ c]) simp
qed

lemma first_of_rev: "(if xs = [] then None else Some (last xs)) = first_of (rev xs)"
  by (cases xs rule: rev_cases) auto

section \<open>Properties\<close>

text \<open>
  C16. Insertion of a key into a tree ends, keeps the tree a balanced search tree, and inserts the key in
  the order of the comparison, or, when an equal key is there, refuses and keeps the keys; the count
  of the elements and the comparisons stay right.
\<close>

theorem rbt_insert_refines:
  assumes "cmp_order (rbt_icompare h) ok val" "rbt_ok ok val h ns" "ok k"
  shows "\<exists>h' b ns'. su_rbt_insert h k = Some (h', b) \<and> (b \<longleftrightarrow> val k \<notin> val ` set (keys h ns)) \<and>
    rbt_ok ok val h' ns' \<and> keys h' ns' = (if b then insort_key val k (keys h ns) else keys h ns) \<and>
    same_cmp h h'"
proof -
  have dup: "(\<exists>n\<in>set ns. val (rn_key h n) = val k) \<longleftrightarrow> val k \<in> val ` set (keys h ns)"
    "(\<exists>l\<in>set (keys h ns). val l = val k) \<longleftrightarrow> val k \<in> val ` set (keys h ns)"
    by (auto simp: image_iff eq_commute)
  obtain h' ns' where *: "su_rbt_insert h k = Some (h', val k \<notin> val ` set (keys h ns))" "rbt_ok ok val h' ns'"
      "keys h' ns' = add_key val k (keys h ns)" "same_cmp h h'"
    using su_rbt_insert_add [OF assms] unfolding dup(1) by blast
  then show ?thesis
    unfolding add_key_def dup(2) by (intro exI [of _ h'] exI [of _ "val k \<notin> val ` set (keys h ns)"] exI [of _ ns']) simp
qed

text \<open>
  C15. Deletion of any node ends, takes exactly that node out of the order, keeps the tree a balanced
  search tree and all other nodes with their keys, and releases the key or returns it.
\<close>

theorem rbt_delete_refines:
  assumes "rbt_ok ok val h (xs @ z # ys)"
  shows "\<exists>h'. su_rbt_delete h z = Some (h', if rbt_delete h then None else Some (rn_key h z)) \<and>
    rbt_ok ok val h' (xs @ ys) \<and> rn_key h' = rn_key h \<and> same_cmp h h' \<and>
    rbt_deleted h' = rbt_deleted h @ (if rbt_delete h then [rn_key h z] else [])"
  using su_rbt_delete_ok [OF assms] .

text \<open>
  C23. The three searches end and find, in the order of the keys, the node with an equal key, the first
  one not below and the last one not above the search key.
\<close>

theorem rbt_searches:
  assumes "rbt_ok ok val h ns" "search_ok ok val h s v"
  shows "su_rbt_search h s = Some (find (\<lambda>n. val (rn_key h n) = v) ns) \<and>
    su_rbt_search_atleast h s = Some (find (\<lambda>n. v \<le> val (rn_key h n)) ns) \<and>
    su_rbt_search_atmost h s = Some (find (\<lambda>n. val (rn_key h n) \<le> v) (rev ns))"
  using su_rbt_search_ok [OF assms] su_rbt_search_atleast_ok [OF assms] su_rbt_search_atmost_ok [OF assms]
  by blast

text \<open>
  C24. The walk from the minimum through successors visits the nodes in the order of their keys and
  ends, and the walk from the maximum through predecessors visits them in the opposite order.
\<close>

theorem rbt_iteration:
  assumes "rbt_ok ok val h (xs @ n # ys)"
  shows "su_rbt_min h None = Some (Some (hd (xs @ [n]))) \<and> su_rbt_max h None = Some (Some (last (n # ys))) \<and>
    su_rbt_succ h n = Some (first_of ys) \<and> su_rbt_pred h n = Some (first_of (rev xs))"
  using su_rbt_ends [OF assms] su_rbt_neighbours [OF assms]
  by (simp add: first_of_if first_of_rev hd_append)

text \<open>
  Emptying a tree and ending it both end, and both call the function that releases a key, when
  there is one, exactly once for each key, in ascending order.
\<close>

theorem rbt_releases_all:
  assumes "rbt_ok ok val h ns"
  shows "\<exists>h'. su_rbt_deleteall h = Some h' \<and> rbt_ok ok val h' [] \<and>
    rbt_deleted h' = rbt_deleted h @ (if rbt_delete h then keys h ns else []) \<and>
    su_rbt_done h = Some (rbt_deleted h')"
  using su_rbt_deleteall_ok [OF assms] su_rbt_done_ok [OF assms] by auto

section \<open>Witnesses\<close>

lemma long_order: "cmp_order su_rbt_long_compare (\<lambda>_. True) id"
  by unfold_locales (auto simp: su_rbt_long_compare_def three_way_def)

lemma ex_tree_order:
  assumes "rbt_inv su_rbt_long_compare su_rbt_long_compare (\<lambda>_. True) id h ns"
  shows "cmp_order (rbt_icompare h) (\<lambda>_. True) id" "rbt_ok (\<lambda>_. True) id h ns" "search_ok (\<lambda>_. True) id h v v"
  using assms long_order
  by (auto simp: rbt_inv_def search_ok_def su_rbt_long_compare_def three_way_def)

theorem rbt_insert_refines_witness:
  "\<exists>h a b c h' ns. ex_tree h \<and> keys h [a, b, c] = [10, 20, 30] \<and> su_rbt_insert h 25 = Some (h', True) \<and>
    keys h' ns = [10, 20, 25, 30]"
proof -
  obtain h a b c where h: "ex_tree h" "rbt_inv su_rbt_long_compare su_rbt_long_compare (\<lambda>_. True) id h [a, b, c]"
      "keys h [a, b, c] = [10, 20, 30]"
    using ex_tree_ok by (elim exE conjE that)
  obtain h' b' ns' where *: "su_rbt_insert h 25 = Some (h', b')" "b' \<longleftrightarrow> id 25 \<notin> id ` set (keys h [a, b, c])"
      "keys h' ns' = (if b' then insort_key id 25 (keys h [a, b, c]) else keys h [a, b, c])"
    using rbt_insert_refines [OF ex_tree_order(1,2) [OF h(2)], of 25] by auto
  then have "b'" "keys h' ns' = [10, 20, 25, 30]"
    unfolding h(3) by simp_all
  then show ?thesis
    using h(1,3) *(1)
    by (intro exI [of _ h] exI [of _ a] exI [of _ b] exI [of _ c] exI [of _ h'] exI [of _ ns']) simp
qed

theorem rbt_delete_refines_witness:
  "\<exists>h a b c h'. ex_tree h \<and> keys h [a, b, c] = [10, 20, 30] \<and>
    su_rbt_delete h b = Some (h', if rbt_delete h then None else Some 20) \<and> keys h' [a, c] = [10, 30]"
proof -
  obtain h a b c where h: "ex_tree h" "rbt_inv su_rbt_long_compare su_rbt_long_compare (\<lambda>_. True) id h [a, b, c]"
      "keys h [a, b, c] = [10, 20, 30]"
    using ex_tree_ok by (elim exE conjE that)
  have "rbt_ok (\<lambda>_. True) id h ([a] @ b # [c])"
    using ex_tree_order(2) [OF h(2)] by simp
  from rbt_delete_refines [OF this] obtain h' where
      "su_rbt_delete h b = Some (h', if rbt_delete h then None else Some 20)" "rn_key h' = rn_key h"
    using h(3) by auto
  then show ?thesis
    using h(1,3) by (intro exI [of _ h] exI [of _ a] exI [of _ b] exI [of _ c] exI [of _ h']) simp
qed

theorem rbt_searches_witness:
  "\<exists>h a b c. ex_tree h \<and> keys h [a, b, c] = [10, 20, 30] \<and> su_rbt_search h 15 = Some None \<and>
    su_rbt_search_atleast h 15 = Some (Some b) \<and> su_rbt_search_atmost h 15 = Some (Some a)"
proof -
  obtain h a b c where h: "ex_tree h" "rbt_inv su_rbt_long_compare su_rbt_long_compare (\<lambda>_. True) id h [a, b, c]"
      "keys h [a, b, c] = [10, 20, 30]"
    using ex_tree_ok by (elim exE conjE that)
  show ?thesis
    using h(1,3) rbt_searches [OF ex_tree_order(2,3) [OF h(2)], of 15]
    by (intro exI [of _ h] exI [of _ a] exI [of _ b] exI [of _ c]) simp
qed

theorem rbt_iteration_witness:
  "\<exists>h a b c. ex_tree h \<and> keys h [a, b, c] = [10, 20, 30] \<and> su_rbt_min h None = Some (Some a) \<and>
    su_rbt_max h None = Some (Some c) \<and> su_rbt_succ h b = Some (Some c) \<and> su_rbt_pred h b = Some (Some a)"
proof -
  obtain h a b c where h: "ex_tree h" "rbt_inv su_rbt_long_compare su_rbt_long_compare (\<lambda>_. True) id h [a, b, c]"
      "keys h [a, b, c] = [10, 20, 30]"
    using ex_tree_ok by (elim exE conjE that)
  have "rbt_ok (\<lambda>_. True) id h ([a] @ b # [c])"
    using ex_tree_order(2) [OF h(2)] by simp
  from rbt_iteration [OF this] show ?thesis
    using h(1,3) by (intro exI [of _ h] exI [of _ a] exI [of _ b] exI [of _ c]) simp
qed

theorem rbt_releases_all_witness:
  "\<exists>h h'. ex_tree h \<and> su_rbt_deleteall h = Some h' \<and>
    rbt_deleted h' = rbt_deleted h @ (if rbt_delete h then [10, 20, 30] else []) \<and>
    su_rbt_done h = Some (rbt_deleted h')"
proof -
  obtain h a b c where h: "ex_tree h" "rbt_inv su_rbt_long_compare su_rbt_long_compare (\<lambda>_. True) id h [a, b, c]"
      "keys h [a, b, c] = [10, 20, 30]"
    using ex_tree_ok by (elim exE conjE that)
  from rbt_releases_all [OF ex_tree_order(2) [OF h(2)], unfolded h(3)] show ?thesis
    using h(1) by blast
qed

end
