(* ===== verification/Rtrx_Buf.thy ===== *)
theory Rtrx_Buf
  imports Rbt_Interface Trx_List_Disk Trx_Buf
begin

text \<open>
  The translation of the transaction ids of a primary to those of its replica, \<^verbatim>\<open>dbe/dbe7rtrx.c\<close>: a
  red-black tree of mappings, ordered by one of the two ids at a time. The mappings are saved with a
  checkpoint as a list of pairs. Operations have no result (\<open>None\<close>) where a null tree is followed,
  \<^verbatim>\<open>ss_error\<close> is reached or a loop does not end. The transaction object a mapping points to is
  opaque; the data type of the pointers is a parameter.
\<close>

section \<open>State\<close>

record 'd rtrx =
  rt_remotetrxid :: dbe_trxid_t
  rt_localtrxid :: dbe_trxid_t
  rt_trxdata :: "'d option"
  rt_isdummy :: bool

datatype dbe_rtrxsearchby_t = DBE_RTRX_SEARCHBYNONE | DBE_RTRX_SEARCHBYLOCAL | DBE_RTRX_SEARCHBYREMOTE

record 'd rtrxbuf =
  rtb_searchby :: dbe_rtrxsearchby_t
  rtb_buf :: "('d rtrx, int) rbt option"

datatype rtrx_ret = RTRX_SUCC | RTRX_ERR_REDEFINITION | RTRX_ERR_NOTFOUND

section \<open>Comparisons\<close>

text \<open>A search key is the id as a \<^verbatim>\<open>long\<close> in a pointer.\<close>

definition dbe_trxid_getlong :: "dbe_trxid_t \<Rightarrow> int" where
  "dbe_trxid_getlong trxid = sint trxid"

definition dbe_trxid_init :: "int \<Rightarrow> dbe_trxid_t" where
  "dbe_trxid_init n = word_of_int n"

lemma trxid_init_getlong [simp]: "dbe_trxid_init (dbe_trxid_getlong trxid) = trxid"
  by (simp add: dbe_trxid_init_def dbe_trxid_getlong_def)

definition rtrx_init :: "dbe_trxid_t \<Rightarrow> dbe_trxid_t \<Rightarrow> 'd option \<Rightarrow> bool \<Rightarrow> 'd rtrx" where
  "rtrx_init remotetrxid localtrxid trxdata isdummy =
    \<lparr>rt_remotetrxid = remotetrxid, rt_localtrxid = localtrxid, rt_trxdata = trxdata, rt_isdummy = isdummy\<rparr>"

definition rtrx_inscmpbylocal :: "'d rtrx \<Rightarrow> 'd rtrx \<Rightarrow> int" where
  "rtrx_inscmpbylocal rtrx1 rtrx2 = dbe_trxid_cmp (rt_localtrxid rtrx1) (rt_localtrxid rtrx2)"

definition rtrx_searchcmpbylocal :: "int \<Rightarrow> 'd rtrx \<Rightarrow> int" where
  "rtrx_searchcmpbylocal localtrxid rtrx2 = dbe_trxid_cmp (dbe_trxid_init localtrxid) (rt_localtrxid rtrx2)"

definition rtrx_inscmpbyremote :: "'d rtrx \<Rightarrow> 'd rtrx \<Rightarrow> int" where
  "rtrx_inscmpbyremote rtrx1 rtrx2 = dbe_trxid_cmp (rt_remotetrxid rtrx1) (rt_remotetrxid rtrx2)"

definition rtrx_searchcmpbyremote :: "int \<Rightarrow> 'd rtrx \<Rightarrow> int" where
  "rtrx_searchcmpbyremote remotetrxid rtrx2 = dbe_trxid_cmp (dbe_trxid_init remotetrxid) (rt_remotetrxid rtrx2)"

section \<open>Operations\<close>

definition dbe_rtrxbuf_init :: "'d rtrxbuf" where
  "dbe_rtrxbuf_init = \<lparr>rtb_searchby = DBE_RTRX_SEARCHBYNONE, rtb_buf = None\<rparr>"

definition dbe_rtrxbuf_done :: "'d rtrxbuf \<Rightarrow> unit option" where
  "dbe_rtrxbuf_done rtrxbuf =
    (case rtb_buf rtrxbuf of None \<Rightarrow> Some () | Some rbt \<Rightarrow> map_option (\<lambda>_. ()) (su_rbt_done rbt))"

definition rtrx_tree :: "dbe_rtrxsearchby_t \<Rightarrow> ('d rtrx, int) rbt option" where
  "rtrx_tree searchby =
    (case searchby of
       DBE_RTRX_SEARCHBYLOCAL \<Rightarrow> Some (su_rbt_inittwocmp rtrx_inscmpbylocal rtrx_searchcmpbylocal True)
     | DBE_RTRX_SEARCHBYREMOTE \<Rightarrow> Some (su_rbt_inittwocmp rtrx_inscmpbyremote rtrx_searchcmpbyremote True)
     | DBE_RTRX_SEARCHBYNONE \<Rightarrow> None)"

text \<open>The body of the loop that copies the mappings into the new tree.\<close>

definition rtrx_copy :: "('d rtrx, int) rbt \<Rightarrow> node \<Rightarrow> ('d rtrx, int) rbt \<Rightarrow> ('d rtrx, int) rbt option" where
  "rtrx_copy buf rbtnode tmpbuf =
    (let rtrx = su_rbtnode_getkey buf rbtnode
     in map_option fst (su_rbt_insert tmpbuf (rtrx_init (rt_remotetrxid rtrx) (rt_localtrxid rtrx)
          (rt_trxdata rtrx) (rt_isdummy rtrx))))"

definition dbe_rtrxbuf_setsearchby :: "'d rtrxbuf \<Rightarrow> dbe_rtrxsearchby_t \<Rightarrow> 'd rtrxbuf option" where
  "dbe_rtrxbuf_setsearchby rtrxbuf searchby =
    (if searchby = rtb_searchby rtrxbuf then Some rtrxbuf
     else case rtrx_tree searchby of
       None \<Rightarrow> None
     | Some tmpbuf \<Rightarrow>
         if rtb_searchby rtrxbuf = DBE_RTRX_SEARCHBYNONE
         then Some (rtrxbuf\<lparr>rtb_buf := Some tmpbuf, rtb_searchby := searchby\<rparr>)
         else Option.bind (rtb_buf rtrxbuf) (\<lambda>buf.
           Option.bind (su_rbt_min buf None) (\<lambda>rbtnode.
           Option.bind (walk_loop (su_rbt_succ buf) (rtrx_copy buf) rbtnode tmpbuf) (\<lambda>tmpbuf1.
           Option.bind (su_rbt_done buf) (\<lambda>_.
             Some (rtrxbuf\<lparr>rtb_buf := Some tmpbuf1, rtb_searchby := searchby\<rparr>))))))"

definition dbe_rtrxbuf_add ::
  "'d rtrxbuf \<Rightarrow> dbe_trxid_t \<Rightarrow> dbe_trxid_t \<Rightarrow> 'd option \<Rightarrow> bool \<Rightarrow> ('d rtrxbuf \<times> rtrx_ret) option" where
  "dbe_rtrxbuf_add rtrxbuf remotetrxid localtrxid trxdata isdummy =
    Option.bind (rtb_buf rtrxbuf) (\<lambda>buf.
      map_option (\<lambda>(buf1, ok).
        (rtrxbuf\<lparr>rtb_buf := Some buf1\<rparr>, if \<not> ok then RTRX_ERR_REDEFINITION else RTRX_SUCC))
        (su_rbt_insert buf (rtrx_init remotetrxid localtrxid trxdata isdummy)))"

text \<open>The search all lookups start with.\<close>

definition rtrx_search :: "'d rtrxbuf \<Rightarrow> dbe_trxid_t \<Rightarrow> node option option" where
  "rtrx_search rtrxbuf trxid =
    Option.bind (rtb_buf rtrxbuf) (\<lambda>buf. su_rbt_search buf (dbe_trxid_getlong trxid))"

definition rtrx_getkey :: "'d rtrxbuf \<Rightarrow> node \<Rightarrow> 'd rtrx" where
  "rtrx_getkey rtrxbuf rbtnode = su_rbtnode_getkey (the (rtb_buf rtrxbuf)) rbtnode"

definition dbe_rtrxbuf_localbyremotetrxid :: "'d rtrxbuf \<Rightarrow> dbe_trxid_t \<Rightarrow> dbe_trxid_t option" where
  "dbe_rtrxbuf_localbyremotetrxid rtrxbuf remotetrxid =
    map_option (\<lambda>n. case n of None \<Rightarrow> DBE_TRXID_NULL | Some n \<Rightarrow> rt_localtrxid (rtrx_getkey rtrxbuf n))
      (rtrx_search rtrxbuf remotetrxid)"

definition dbe_rtrxbuf_localtrxbyremotetrxid :: "'d rtrxbuf \<Rightarrow> dbe_trxid_t \<Rightarrow> 'd option option" where
  "dbe_rtrxbuf_localtrxbyremotetrxid rtrxbuf remotetrxid =
    map_option (\<lambda>n. case n of None \<Rightarrow> None | Some n \<Rightarrow> rt_trxdata (rtrx_getkey rtrxbuf n))
      (rtrx_search rtrxbuf remotetrxid)"

definition dbe_rtrxbuf_isdummybyremotetrxid :: "'d rtrxbuf \<Rightarrow> dbe_trxid_t \<Rightarrow> bool option" where
  "dbe_rtrxbuf_isdummybyremotetrxid rtrxbuf remotetrxid =
    map_option (\<lambda>n. case n of None \<Rightarrow> False | Some n \<Rightarrow> rt_isdummy (rtrx_getkey rtrxbuf n))
      (rtrx_search rtrxbuf remotetrxid)"

definition dbe_rtrxbuf_localtrxbylocaltrxid :: "'d rtrxbuf \<Rightarrow> dbe_trxid_t \<Rightarrow> 'd option option" where
  "dbe_rtrxbuf_localtrxbylocaltrxid rtrxbuf localtrxid =
    map_option (\<lambda>n. case n of None \<Rightarrow> None | Some n \<Rightarrow> rt_trxdata (rtrx_getkey rtrxbuf n))
      (rtrx_search rtrxbuf localtrxid)"

definition dbe_rtrxbuf_remotebylocaltrxid :: "'d rtrxbuf \<Rightarrow> dbe_trxid_t \<Rightarrow> dbe_trxid_t option" where
  "dbe_rtrxbuf_remotebylocaltrxid rtrxbuf localtrxid =
    map_option (\<lambda>n. case n of None \<Rightarrow> DBE_TRXID_NULL | Some n \<Rightarrow> rt_remotetrxid (rtrx_getkey rtrxbuf n))
      (rtrx_search rtrxbuf localtrxid)"

definition rtrx_delete :: "'d rtrxbuf \<Rightarrow> dbe_trxid_t \<Rightarrow> ('d rtrxbuf \<times> rtrx_ret) option" where
  "rtrx_delete rtrxbuf trxid =
    Option.bind (rtb_buf rtrxbuf) (\<lambda>buf.
      Option.bind (su_rbt_search buf (dbe_trxid_getlong trxid)) (\<lambda>rbtnode. case rbtnode of
        None \<Rightarrow> Some (rtrxbuf, RTRX_ERR_NOTFOUND)
      | Some n \<Rightarrow> map_option (\<lambda>(buf1, key). (rtrxbuf\<lparr>rtb_buf := Some buf1\<rparr>, RTRX_SUCC))
          (su_rbt_delete buf n)))"

definition dbe_rtrxbuf_deletebylocaltrxid ::
  "'d rtrxbuf \<Rightarrow> dbe_trxid_t \<Rightarrow> ('d rtrxbuf \<times> rtrx_ret) option" where
  "dbe_rtrxbuf_deletebylocaltrxid rtrxbuf localtrxid = rtrx_delete rtrxbuf localtrxid"

definition dbe_rtrxbuf_deletebyremotetrxid ::
  "'d rtrxbuf \<Rightarrow> dbe_trxid_t \<Rightarrow> ('d rtrxbuf \<times> rtrx_ret) option" where
  "dbe_rtrxbuf_deletebyremotetrxid rtrxbuf remotetrxid = rtrx_delete rtrxbuf remotetrxid"

section \<open>Saving and restoring\<close>

definition rtrx_save_node :: "('d rtrx, int) rbt \<Rightarrow> node \<Rightarrow> blockdev \<times> trxlist \<Rightarrow> (blockdev \<times> trxlist) option" where
  "rtrx_save_node buf rbtnode = (\<lambda>(bd, rtrxlist).
    (let rtrx = su_rbtnode_getkey buf rbtnode in
     if rt_isdummy rtrx then dbe_trxl_addrtrx bd rtrxlist (rt_remotetrxid rtrx) DBE_TRXID_NULL
     else dbe_trxl_addrtrx bd rtrxlist (rt_remotetrxid rtrx) (rt_localtrxid rtrx)))"

definition dbe_rtrxbuf_save :: "nat \<Rightarrow> 'd rtrxbuf \<Rightarrow> blockdev \<Rightarrow> u32 \<Rightarrow> (blockdev \<times> daddr) option" where
  "dbe_rtrxbuf_save blocksize rtrxbuf bd cpnum =
    (case rtb_buf rtrxbuf of
       None \<Rightarrow> Some (bd, SU_DADDR_NULL)
     | Some buf \<Rightarrow> Option.bind (su_rbt_min buf None) (\<lambda>rbtnode. case rbtnode of
         None \<Rightarrow> Some (bd, SU_DADDR_NULL)
       | Some n \<Rightarrow>
           Option.bind (walk_loop (su_rbt_succ buf) (rtrx_save_node buf) (Some n)
             (bd, dbe_trxl_init blocksize cpnum DBE_BLOCK_RTRXLIST)) (\<lambda>(bd1, rtrxlist).
             map_option (\<lambda>(bd2, rtrxlist1, daddr). (bd2, daddr)) (dbe_trxl_save bd1 rtrxlist))))"

text \<open>
  The loop of \<^verbatim>\<open>dbe_rtrxbuf_restore\<close>; the result of the insertion is not looked at. The tree is
  followed only when there is a pair.
\<close>

definition rtrx_restore_pair :: "u32 \<times> u32 \<Rightarrow> ('d rtrx, int) rbt \<Rightarrow> ('d rtrx, int) rbt option" where
  "rtrx_restore_pair = (\<lambda>(remotetrxid, localtrxid) buf.
    map_option fst (su_rbt_insert buf
      (if localtrxid = DBE_TRXID_NULL then rtrx_init remotetrxid remotetrxid None True
       else rtrx_init remotetrxid localtrxid None False)))"

partial_function (option) rtrx_restore_loop ::
  "blockdev \<Rightarrow> trxlist_iter option \<Rightarrow> ('d rtrx, int) rbt option \<Rightarrow> ('d rtrx, int) rbt option option" where
  "rtrx_restore_loop bd rtrxli p_buf =
    Option.bind (dbe_trxli_getnextrtrx bd rtrxli) (\<lambda>next. case next of
      None \<Rightarrow> Some p_buf
    | Some (it, e) \<Rightarrow> Option.bind p_buf (\<lambda>buf.
        Option.bind (rtrx_restore_pair e buf) (\<lambda>buf1. rtrx_restore_loop bd (Some it) (Some buf1))))"

definition dbe_rtrxbuf_restore :: "'d rtrxbuf \<Rightarrow> blockdev \<Rightarrow> daddr \<Rightarrow> 'd rtrxbuf option" where
  "dbe_rtrxbuf_restore rtrxbuf bd rtrxlistdaddr =
    (if rtrxlistdaddr = SU_DADDR_NULL then Some rtrxbuf
     else map_option (\<lambda>p_buf. rtrxbuf\<lparr>rtb_buf := p_buf\<rparr>)
       (rtrx_restore_loop bd (dbe_trxli_init bd rtrxlistdaddr) (rtb_buf rtrxbuf)))"

section \<open>Iteration\<close>

definition dbe_rtrxbuf_iterate :: "'d rtrxbuf \<Rightarrow> node option \<Rightarrow> (bool \<times> node option) option" where
  "dbe_rtrxbuf_iterate rtrxbuf iter =
    (case rtb_buf rtrxbuf of
       None \<Rightarrow> Some (False, iter)
     | Some buf \<Rightarrow> map_option (\<lambda>iter1. (iter1 \<noteq> None, iter1))
         (case iter of None \<Rightarrow> su_rbt_min buf None | Some n \<Rightarrow> su_rbt_succ buf n))"

definition dbe_rtrxbuf_getitertrxdata :: "'d rtrxbuf \<Rightarrow> node \<Rightarrow> 'd option" where
  "dbe_rtrxbuf_getitertrxdata rtrxbuf iter = rt_trxdata (rtrx_getkey rtrxbuf iter)"

definition dbe_rtrxbuf_getiterlocaltrxid :: "'d rtrxbuf \<Rightarrow> node \<Rightarrow> dbe_trxid_t" where
  "dbe_rtrxbuf_getiterlocaltrxid rtrxbuf iter = rt_localtrxid (rtrx_getkey rtrxbuf iter)"

definition dbe_rtrxbuf_getiterremotetrxid :: "'d rtrxbuf \<Rightarrow> node \<Rightarrow> dbe_trxid_t" where
  "dbe_rtrxbuf_getiterremotetrxid rtrxbuf iter = rt_remotetrxid (rtrx_getkey rtrxbuf iter)"

definition dbe_rtrxbuf_getiterisdummymapping :: "'d rtrxbuf \<Rightarrow> node \<Rightarrow> bool" where
  "dbe_rtrxbuf_getiterisdummymapping rtrxbuf iter = rt_isdummy (rtrx_getkey rtrxbuf iter)"

definition dbe_rtrxbuf_setitertrxdata :: "'d rtrxbuf \<Rightarrow> node \<Rightarrow> 'd option \<Rightarrow> 'd rtrxbuf" where
  "dbe_rtrxbuf_setitertrxdata rtrxbuf iter trxdata =
    rtrxbuf\<lparr>rtb_buf := map_option (\<lambda>buf. buf\<lparr>rn_key :=
      (rn_key buf)(iter := (rn_key buf iter)\<lparr>rt_trxdata := trxdata\<rparr>)\<rparr>) (rtb_buf rtrxbuf)\<rparr>"

definition dbe_rtrxbuf_deleteall :: "'d rtrxbuf \<Rightarrow> 'd rtrxbuf option" where
  "dbe_rtrxbuf_deleteall rtrxbuf =
    Option.bind (rtb_buf rtrxbuf) (\<lambda>buf.
      map_option (\<lambda>buf1. rtrxbuf\<lparr>rtb_buf := Some buf1\<rparr>) (su_rbt_deleteall buf))"

section \<open>Removing the mappings of ended transactions\<close>

definition rtrx_gone :: "trxbuf \<Rightarrow> 'd rtrx \<Rightarrow> bool" where
  "rtrx_gone trxbuf rtrx =
    (case dbe_trxbuf_gettrxinfo trxbuf (rt_localtrxid rtrx) of
       None \<Rightarrow> True
     | Some ti \<Rightarrow> dbe_trxinfo_isended (tb_ti trxbuf ti))"

text \<open>The tree is searched again for the next mapping, because the deleted node is gone.\<close>

partial_function (option) removeaborted_loop ::
  "trxbuf \<Rightarrow> 'd rtrxbuf \<Rightarrow> node option \<Rightarrow> 'd rtrxbuf option" where
  "removeaborted_loop trxbuf rtrxbuf rbtnode =
    (case rbtnode of
       None \<Rightarrow> Some rtrxbuf
     | Some n \<Rightarrow>
         (let rtrx = rtrx_getkey rtrxbuf n in
          if rtrx_gone trxbuf rtrx
          then (let prev_trxid = (if rtb_searchby rtrxbuf = DBE_RTRX_SEARCHBYLOCAL
                  then rt_localtrxid rtrx else rt_remotetrxid rtrx)
            in Option.bind (if rtb_searchby rtrxbuf = DBE_RTRX_SEARCHBYLOCAL
                  then dbe_rtrxbuf_deletebylocaltrxid rtrxbuf prev_trxid
                  else dbe_rtrxbuf_deletebyremotetrxid rtrxbuf prev_trxid) (\<lambda>(rtrxbuf1, rc).
               Option.bind (rtb_buf rtrxbuf1) (\<lambda>buf1.
               Option.bind (su_rbt_search_atleast buf1 (dbe_trxid_getlong prev_trxid)) (\<lambda>m.
                 removeaborted_loop trxbuf rtrxbuf1 m))))
          else Option.bind (rtb_buf rtrxbuf) (\<lambda>buf.
            Option.bind (su_rbt_succ buf n) (\<lambda>m. removeaborted_loop trxbuf rtrxbuf m))))"

definition dbe_rtrxbuf_removeaborted :: "'d rtrxbuf \<Rightarrow> trxbuf \<Rightarrow> 'd rtrxbuf option" where
  "dbe_rtrxbuf_removeaborted rtrxbuf trxbuf =
    Option.bind (rtb_buf rtrxbuf) (\<lambda>buf.
      Option.bind (su_rbt_min buf None) (removeaborted_loop trxbuf rtrxbuf))"

end
