(* ===== verification/Rtrx_Map.thy ===== *)
theory Rtrx_Map
  imports Rtrx_Buf
begin

text \<open>
  The mappings of a replicated transaction buffer as a list in the order of the ids they are searched
  by, and what the operations do to it.
\<close>

section \<open>The comparisons of the two orders\<close>

definition rt_id :: "dbe_rtrxsearchby_t \<Rightarrow> 'd rtrx \<Rightarrow> dbe_trxid_t" where
  "rt_id s r = (if s = DBE_RTRX_SEARCHBYLOCAL then rt_localtrxid r else rt_remotetrxid r)"

lemma rt_id_simps [simp]:
  "rt_id DBE_RTRX_SEARCHBYLOCAL r = rt_localtrxid r" "rt_id DBE_RTRX_SEARCHBYREMOTE r = rt_remotetrxid r"
  by (simp_all add: rt_id_def)

definition rtrx_inscmp :: "dbe_rtrxsearchby_t \<Rightarrow> 'd rtrx \<Rightarrow> 'd rtrx \<Rightarrow> int" where
  "rtrx_inscmp s = (if s = DBE_RTRX_SEARCHBYLOCAL then rtrx_inscmpbylocal else rtrx_inscmpbyremote)"

definition rtrx_searchcmp :: "dbe_rtrxsearchby_t \<Rightarrow> int \<Rightarrow> 'd rtrx \<Rightarrow> int" where
  "rtrx_searchcmp s = (if s = DBE_RTRX_SEARCHBYLOCAL then rtrx_searchcmpbylocal else rtrx_searchcmpbyremote)"

text \<open>The ids of the mappings lie within half of the range of the ids, from \<open>base\<close> on.\<close>

definition rt_ok :: "dbe_rtrxsearchby_t \<Rightarrow> u32 \<Rightarrow> 'd rtrx \<Rightarrow> bool" where
  "rt_ok s base r \<longleftrightarrow> in_window base (rt_id s r)"

definition rt_val :: "dbe_rtrxsearchby_t \<Rightarrow> u32 \<Rightarrow> 'd rtrx \<Rightarrow> int" where
  "rt_val s base r = window_pos base (rt_id s r)"

lemma trxid_cmp_val:
  "in_window base a \<Longrightarrow> in_window base b \<Longrightarrow>
    sgn (dbe_trxid_cmp a b) = three_way (window_pos base a) (window_pos base b)"
  unfolding trxid_cmp_eq_trxnum_cmp by (rule trxnum_window.cmp_val)

interpretation rtrx: rbt_compare "rtrx_inscmp s" "rt_ok s base" "rt_val s base" "rtrx_searchcmp s"
  "\<lambda>n. in_window base (dbe_trxid_init n)" "\<lambda>n. window_pos base (dbe_trxid_init n)" for s base
  by unfold_locales
    (auto simp: rtrx_inscmp_def rtrx_searchcmp_def rtrx_inscmpbylocal_def rtrx_inscmpbyremote_def
      rtrx_searchcmpbylocal_def rtrx_searchcmpbyremote_def rt_ok_def rt_val_def rt_id_def trxid_cmp_val)

lemma window_pos_eq [simp]: "window_pos base a = window_pos base b \<longleftrightarrow> a = b"
  unfolding window_pos_def by (metis diff_add_cancel word_uint_eq_iff)

lemma rt_val_eq: "rt_val s base r = window_pos base v \<longleftrightarrow> rt_id s r = v"
  "rt_val s base r = rt_val s base q \<longleftrightarrow> rt_id s r = rt_id s q"
  by (simp_all add: rt_val_def)

section \<open>The representation\<close>

definition rtrx_inv :: "dbe_rtrxsearchby_t \<Rightarrow> u32 \<Rightarrow> ('d rtrx, int) rbt \<Rightarrow> node list \<Rightarrow> bool" where
  "rtrx_inv s base = rbt_inv (rtrx_inscmp s) (rtrx_searchcmp s) (rt_ok s base) (rt_val s base)"

definition rtrx_rep :: "u32 \<Rightarrow> 'd rtrxbuf \<Rightarrow> 'd rtrx list \<Rightarrow> bool" where
  "rtrx_rep base rb rs \<longleftrightarrow> rtb_searchby rb \<noteq> DBE_RTRX_SEARCHBYNONE \<and>
    (\<exists>buf ns. rtb_buf rb = Some buf \<and> rtrx_inv (rtb_searchby rb) base buf ns \<and> keys buf ns = rs)"

lemma rtrx_repE:
  assumes "rtrx_rep base rb rs"
  obtains buf ns where "rtb_searchby rb \<noteq> DBE_RTRX_SEARCHBYNONE" "rtb_buf rb = Some buf"
    "rtrx_inv (rtb_searchby rb) base buf ns" "keys buf ns = rs"
  using assms by (auto simp: rtrx_rep_def)

lemma rtrx_rep_facts:
  assumes "rtrx_rep base rb rs"
  shows "\<forall>r\<in>set rs. in_window base (rt_id (rtb_searchby rb) r)" "key_sorted (rt_val (rtb_searchby rb) base) rs"
proof -
  obtain buf ns where b: "rtrx_inv (rtb_searchby rb) base buf ns" "keys buf ns = rs"
    using rtrx_repE [OF assms] .
  have "\<forall>n\<in>set ns. in_window base (rt_id (rtb_searchby rb) (rn_key buf n))"
    using rtrx.keys_ok [OF b(1) [unfolded rtrx_inv_def]] unfolding rt_ok_def by blast
  then show "\<forall>r\<in>set rs. in_window base (rt_id (rtb_searchby rb) r)"
    using b(2) by auto
  show "key_sorted (rt_val (rtb_searchby rb) base) rs"
    using rtrx.keys_sorted [OF b(1) [unfolded rtrx_inv_def]] b(2) by simp
qed

lemma rtrx_tree_ok:
  assumes "s \<noteq> DBE_RTRX_SEARCHBYNONE"
  shows "\<exists>buf. rtrx_tree s = Some buf \<and> rtrx_inv s base buf []"
  using assms rbt_inv_init [of "rtrx_inscmp s" "rtrx_searchcmp s" "rt_ok s base" "rt_val s base" True]
  by (cases s) (auto simp: rtrx_tree_def rtrx_inv_def rtrx_inscmp_def rtrx_searchcmp_def)

section \<open>Lookups\<close>

lemma find_keys: "find (\<lambda>n. P (f n)) ns = None \<longleftrightarrow> find P (map f ns) = None"
  "map_option f (find (\<lambda>n. P (f n)) ns) = find P (map f ns)"
  by (induction ns) auto

lemma rtrx_search_ok:
  assumes "rtrx_rep base rb rs" "in_window base v"
  shows "\<exists>r. rtrx_search rb v = Some r \<and> map_option (rtrx_getkey rb) r = find (\<lambda>r. rt_id (rtb_searchby rb) r = v) rs"
proof -
  obtain buf ns where b: "rtb_buf rb = Some buf" "rtrx_inv (rtb_searchby rb) base buf ns" "keys buf ns = rs"
    using rtrx_repE [OF assms(1)] .
  have "su_rbt_search buf (dbe_trxid_getlong v) =
      Some (find (\<lambda>n. rt_id (rtb_searchby rb) (rn_key buf n) = v) ns)"
    using rtrx.look_ok [OF b(2) [unfolded rtrx_inv_def], of "dbe_trxid_getlong v"] assms(2)
    by (simp add: rt_val_eq)
  moreover have "rtrx_getkey rb = rn_key buf"
    by (simp add: rtrx_getkey_def su_rbtnode_getkey_def b(1) fun_eq_iff)
  ultimately show ?thesis
    using b(1,3) find_keys(2) [of "rn_key buf" "\<lambda>r. rt_id (rtb_searchby rb) r = v" ns]
    by (simp add: rtrx_search_def)
qed

section \<open>Adding and deleting\<close>

lemma rtrx_add_ok:
  assumes "rtrx_rep base rb rs" "in_window base (rt_id (rtb_searchby rb) r)"
    and "r = rtrx_init remote local data dummy"
  shows "\<exists>rb'. dbe_rtrxbuf_add rb remote local data dummy = Some (rb',
      if \<exists>q\<in>set rs. rt_id (rtb_searchby rb) q = rt_id (rtb_searchby rb) r then RTRX_ERR_REDEFINITION else RTRX_SUCC) \<and>
    rtb_searchby rb' = rtb_searchby rb \<and> rtrx_rep base rb' (add_key (rt_val (rtb_searchby rb) base) r rs)"
proof -
  let ?s = "rtb_searchby rb"
  obtain buf ns where b: "?s \<noteq> DBE_RTRX_SEARCHBYNONE" "rtb_buf rb = Some buf" "rtrx_inv ?s base buf ns" "keys buf ns = rs"
    using rtrx_repE [OF assms(1)] .
  obtain buf' ns' where i: "su_rbt_insert buf r = Some (buf', \<not> (\<exists>n\<in>set ns. rt_val ?s base (rn_key buf n) = rt_val ?s base r))"
      "rtrx_inv ?s base buf' ns'" "keys buf' ns' = add_key (rt_val ?s base) r (keys buf ns)"
    using rtrx.ins_ok [OF b(3) [unfolded rtrx_inv_def], of r] assms(2) by (auto simp: rt_ok_def rtrx_inv_def)
  have "(\<exists>n\<in>set ns. rt_val ?s base (rn_key buf n) = rt_val ?s base r) \<longleftrightarrow> (\<exists>q\<in>set rs. rt_id ?s q = rt_id ?s r)"
    by (auto simp: rt_val_eq b(4) [symmetric])
  then show ?thesis
    using b i assms(3) by (auto simp: dbe_rtrxbuf_add_def rtrx_rep_def)
qed

lemma find_insort:
  assumes "\<forall>l\<in>set ks. val l \<noteq> val k"
  shows "find (\<lambda>r. val r = x) (insort_key val k ks) = (if val k = x then Some k else find (\<lambda>r. val r = x) ks)"
  using assms by (induction ks) auto

lemma find_add_key:
  "find (\<lambda>r. val r = x) (add_key val k ks) =
    (case find (\<lambda>r. val r = x) ks of None \<Rightarrow> if val k = x then Some k else None | Some r \<Rightarrow> Some r)"
proof (cases "\<exists>l\<in>set ks. val l = val k")
  case True
  then have "find (\<lambda>r. val r = val k) ks \<noteq> None"
    by (auto simp: find_None_iff)
  then show ?thesis
    using True by (auto simp: add_key_def split: option.splits)
next
  case False
  then have "find (\<lambda>r. val r = val k) ks = None"
    by (auto simp: find_None_iff)
  then show ?thesis
    using False find_insort [of ks val k x] by (auto simp: add_key_def split: option.splits)
qed

lemma find_fold_add:
  "find (\<lambda>r. val r = x) (fold (add_key val) rs ks) =
    (case find (\<lambda>r. val r = x) ks of None \<Rightarrow> find (\<lambda>r. val r = x) rs | Some r \<Rightarrow> Some r)"
  by (induction rs arbitrary: ks) (auto simp: find_add_key split: option.splits)

lemma set_add_key: "set (add_key val k ks) \<subseteq> insert k (set ks)"
  "\<forall>l\<in>set ks. val l \<noteq> val k \<Longrightarrow> set (add_key val k ks) = insert k (set ks)"
  by (auto simp: add_key_def set_insort_key)

lemma set_fold_add: "set (fold (add_key val) rs ks) \<subseteq> set rs \<union> set ks"
proof (induction rs arbitrary: ks)
  case (Cons r rs)
  then show ?case
    using set_add_key(1) [of val r ks] by fastforce
qed simp

lemma distinct_map_insort:
  "distinct (map val (insort_key val r ks)) \<longleftrightarrow> val r \<notin> val ` set ks \<and> distinct (map val ks)"
  by (induction ks) (auto simp: set_insort_key)

lemma set_fold_add_distinct:
  "distinct (map val (rs @ ks)) \<Longrightarrow> set (fold (add_key val) rs ks) = set rs \<union> set ks"
proof (induction rs arbitrary: ks)
  case (Cons r rs)
  then have r: "\<forall>l\<in>set ks. val l \<noteq> val r"
    by (fastforce simp: image_iff)
  have "add_key val r ks = insort_key val r ks"
    using r by (auto simp: add_key_def)
  moreover have "distinct (map val (rs @ insort_key val r ks))"
    using Cons.prems by (auto simp: distinct_map_insort set_insort_key)
  ultimately show ?case
    using Cons.IH [of "insort_key val r ks"] by (simp add: set_insort_key)
qed simp

text \<open>Keys inserted in descending order.\<close>

lemma fold_add_sorted: "key_sorted val xs \<Longrightarrow> fold (add_key val) (rev xs) [] = xs"
proof (induction xs)
  case (Cons x xs)
  then have x: "\<forall>y\<in>set xs. val x < val y" and IH: "fold (add_key val) (rev xs) [] = xs"
    by (simp_all add: key_sorted_def)
  have "add_key val x xs = x # xs"
    using x by (cases xs) (auto simp: add_key_def less_imp_le)
  then show ?case
    by (simp add: IH)
qed (simp add: key_sorted_def)

section \<open>The other order\<close>

lemma rtrx_copy_key: "rtrx_copy buf n tmp = map_option fst (su_rbt_insert tmp (rn_key buf n))"
  by (cases "rn_key buf n") (simp add: rtrx_copy_def su_rbtnode_getkey_def rtrx_init_def Let_def)

lemma rtrx_inv_done: "rtrx_inv s base buf ns \<Longrightarrow> \<exists>ks. su_rbt_done buf = Some ks"
  unfolding rtrx_inv_def rbt_inv_def using su_rbt_done_ok by blast

lemma setsearchby_ok:
  fixes rb :: "'d rtrxbuf"
  assumes "rtrx_rep base rb rs" "s \<noteq> rtb_searchby rb" "s \<noteq> DBE_RTRX_SEARCHBYNONE"
    and "\<forall>r\<in>set rs. in_window base' (rt_id s r)"
  shows "\<exists>rb'. dbe_rtrxbuf_setsearchby rb s = Some rb' \<and> rtb_searchby rb' = s \<and>
    rtrx_rep base' rb' (fold (add_key (rt_val s base')) rs [])"
proof -
  obtain buf ns where b: "rtb_searchby rb \<noteq> DBE_RTRX_SEARCHBYNONE" "rtb_buf rb = Some buf"
      "rtrx_inv (rtb_searchby rb) base buf ns" "keys buf ns = rs"
    using rtrx_repE [OF assms(1)] .
  obtain tmp :: "('d rtrx, int) rbt" where tmp: "rtrx_tree s = Some tmp" "rtrx_inv s base' tmp []"
    using rtrx_tree_ok [OF assms(3)] by (metis (no_types))
  obtain tmp' ns' where t': "fold_option (\<lambda>k h. map_option fst (su_rbt_insert h k)) rs tmp = Some tmp'"
      "rtrx_inv s base' tmp' ns'" "keys tmp' ns' = fold (add_key (rt_val s base')) rs []"
    using rtrx.ins_all [OF tmp(2) [unfolded rtrx_inv_def], of rs] assms(4) by (auto simp: rt_ok_def rtrx_inv_def)
  have "fold_option (rtrx_copy buf) ns tmp = Some tmp'"
    using t'(1) fold_option_map [of "\<lambda>k h. map_option fst (su_rbt_insert h k)" "rn_key buf" ns tmp]
    by (simp add: b(4) rtrx_copy_key [abs_def])
  then have w: "Option.bind (su_rbt_min buf None) (\<lambda>n. walk_loop (su_rbt_succ buf) (rtrx_copy buf) n tmp) = Some tmp'"
    using rtrx.walk [OF b(3) [unfolded rtrx_inv_def], of "rtrx_copy buf" tmp] by simp
  obtain n where n: "su_rbt_min buf None = Some n" "walk_loop (su_rbt_succ buf) (rtrx_copy buf) n tmp = Some tmp'"
    using w by (auto simp: bind_eq_Some_conv)
  show ?thesis
    using rtrx_inv_done [OF b(3)] b(1,2) tmp(1) n t'(2,3) assms(2,3)
    by (auto simp: dbe_rtrxbuf_setsearchby_def rtrx_rep_def)
qed

section \<open>Saving and restoring\<close>

lemma addall_fold: "trxl_addall bd l xs = fold_option (\<lambda>(a, b) (bd, l). trxl_addlocal bd l a b) xs (bd, l)"
proof (induction xs arbitrary: bd l)
  case (Cons x xs)
  then show ?case
    by (cases x) (simp split: option.splits Option.bind_split prod.splits)
qed simp

definition rtrx_pair :: "'d rtrx \<Rightarrow> u32 \<times> u32" where
  "rtrx_pair r = (rt_remotetrxid r, if rt_isdummy r then DBE_TRXID_NULL else rt_localtrxid r)"

lemma save_node_pair:
  "rtrx_save_node buf n = (\<lambda>(bd, l). trxl_addlocal bd l (fst (rtrx_pair (rn_key buf n))) (snd (rtrx_pair (rn_key buf n))))"
  by (simp add: rtrx_save_node_def rtrx_pair_def dbe_trxl_addrtrx_def su_rbtnode_getkey_def Let_def fun_eq_iff)

lemma restore_loop_pairs:
  "trxli_pairs bd it = Some es \<Longrightarrow>
    rtrx_restore_loop bd it (Some buf) = map_option Some (fold_option rtrx_restore_pair es buf)"
proof (induction es arbitrary: it buf)
  case Nil
  then have "trxli_getnextlocal bd it = Some None"
    by (subst (asm) trxli_pairs.simps) (auto split: option.splits simp: bind_eq_Some_conv)
  then show ?case
    by (subst rtrx_restore_loop.simps) (simp add: dbe_trxli_getnextrtrx_def)
next
  case (Cons e es)
  then obtain it' where "trxli_getnextlocal bd it = Some (Some (it', e))" "trxli_pairs bd (Some it') = Some es"
    by (subst (asm) trxli_pairs.simps) (auto split: option.splits simp: bind_eq_Some_conv)
  then show ?case
    using Cons.IH [of "Some it'"]
    by (subst rtrx_restore_loop.simps) (auto simp: dbe_trxli_getnextrtrx_def split: Option.bind_split)
qed

text \<open>What a mapping is after it was saved and restored.\<close>

definition rtrx_restored :: "'d rtrx \<Rightarrow> 'd rtrx" where
  "rtrx_restored r = rtrx_init (rt_remotetrxid r)
    (if rt_isdummy r then rt_remotetrxid r else rt_localtrxid r) None (rt_isdummy r)"

lemma restore_pair_restored:
  assumes "\<not> rt_isdummy r \<longrightarrow> rt_localtrxid r \<noteq> DBE_TRXID_NULL"
  shows "rtrx_restore_pair (rtrx_pair r) buf = map_option fst (su_rbt_insert buf (rtrx_restored r))"
  using assms by (auto simp: rtrx_restore_pair_def rtrx_pair_def rtrx_restored_def)

lemma fold_option_cong:
  "(\<And>x s. x \<in> set xs \<Longrightarrow> f x s = g x s) \<Longrightarrow> fold_option f xs s = fold_option g xs s"
proof (induction xs arbitrary: s)
  case (Cons x xs)
  have "f x s = g x s"
    using Cons.prems by simp
  moreover have "fold_option f xs s' = fold_option g xs s'" for s'
    using Cons by simp
  ultimately show ?case
    by (simp split: Option.bind_split)
qed simp

lemma save_ok:
  assumes "rtrx_rep base rb rs" "rs \<noteq> []" "blocksize_ok bsize" "device_ok bsize bd" "length rs \<le> length (bd_free bd)"
  shows "\<exists>bd' a. dbe_rtrxbuf_save bsize rb bd cpnum = Some (bd', a) \<and> a \<noteq> SU_DADDR_NULL \<and>
    trxli_pairs bd' (dbe_trxli_init bd' a) = Some (rev (map rtrx_pair rs))"
proof -
  obtain buf ns where b: "rtb_buf rb = Some buf" "rtrx_inv (rtb_searchby rb) base buf ns" "keys buf ns = rs"
    using rtrx_repE [OF assms(1)] .
  let ?l = "dbe_trxl_init bsize cpnum DBE_BLOCK_RTRXLIST"
  have "length (map rtrx_pair rs) \<le> length (bd_free bd)"
    using assms(5) by simp
  from trxl_written [OF assms(3,4) this, of cpnum DBE_BLOCK_RTRXLIST] obtain bd1 l1 bd2 l2 a where
    w: "trxl_addall bd ?l (map rtrx_pair rs) = Some (bd1, l1)" "dbe_trxl_save bd1 l1 = Some (bd2, l2, a)"
      "trxli_pairs bd2 (dbe_trxli_init bd2 a) = Some (rev (map rtrx_pair rs))"
    by auto
  have "fold_option (rtrx_save_node buf) ns (bd, ?l) = Some (bd1, l1)"
    using w(1) unfolding addall_fold b(3) [symmetric] fold_option_map
    by (simp add: save_node_pair [abs_def] case_prod_beta)
  then have w2: "Option.bind (su_rbt_min buf None) (\<lambda>n. walk_loop (su_rbt_succ buf) (rtrx_save_node buf) n (bd, ?l)) = Some (bd1, l1)"
    using rtrx.walk [OF b(2) [unfolded rtrx_inv_def], of "rtrx_save_node buf" "(bd, ?l)"] by simp
  have "su_rbt_min buf None = Some (first_of ns)"
    using rtrx.least_ok [OF b(2) [unfolded rtrx_inv_def]] .
  moreover have "first_of ns \<noteq> None"
    using assms(2) b(3) by (cases ns) auto
  moreover have "a \<noteq> SU_DADDR_NULL"
  proof
    assume "a = SU_DADDR_NULL"
    then have "trxli_pairs bd2 (dbe_trxli_init bd2 a) = Some []"
      by (subst trxli_pairs.simps) (simp add: dbe_trxli_init_def trxli_getnextlocal_def)
    then show False
      using w(3) assms(2) by simp
  qed
  ultimately show ?thesis
    using b(1) w(2,3) w2 by (auto simp: dbe_rtrxbuf_save_def split: option.splits)
qed

lemma save_empty:
  assumes "rtrx_rep base rb []"
  shows "dbe_rtrxbuf_save bsize rb bd cpnum = Some (bd, SU_DADDR_NULL)"
proof -
  obtain buf ns where b: "rtb_buf rb = Some buf" "rtrx_inv (rtb_searchby rb) base buf ns" "keys buf ns = []"
    using rtrx_repE [OF assms] .
  then show ?thesis
    using rtrx.least_ok [OF b(2) [unfolded rtrx_inv_def]] by (simp add: dbe_rtrxbuf_save_def)
qed

section \<open>Removing the mappings of ended transactions\<close>

lemma rtrx_delete_node:
  assumes "rtb_buf rb = Some buf" "rtrx_inv s base buf (xs @ n # ys)" "v = rt_id s (rn_key buf n)"
  shows "\<exists>buf'. rtrx_delete rb v = Some (rb\<lparr>rtb_buf := Some buf'\<rparr>, RTRX_SUCC) \<and> rtrx_inv s base buf' (xs @ ys) \<and>
    rn_key buf' = rn_key buf"
proof -
  have ok: "in_window base v"
    using rtrx.keys_ok [OF assms(2) [unfolded rtrx_inv_def], of n] assms(3) by (simp add: rt_ok_def)
  have "su_rbt_search buf (dbe_trxid_getlong v) = Some (Some n)"
    using rtrx.look_node [OF assms(2) [unfolded rtrx_inv_def], of "dbe_trxid_getlong v"] ok assms(3)
    by (simp add: rt_val_def)
  moreover obtain buf' key where "su_rbt_delete buf n = Some (buf', key)" "rtrx_inv s base buf' (xs @ ys)" "rn_key buf' = rn_key buf"
    using rtrx.del_ok [OF assms(2) [unfolded rtrx_inv_def]] by (auto simp: rtrx_inv_def)
  ultimately show ?thesis
    using assms(1) by (intro exI [of _ buf']) (simp add: rtrx_delete_def)
qed

lemma removeaborted_loop_ok:
  assumes "rtb_buf rb = Some buf" "rtrx_inv (rtb_searchby rb) base buf (xs @ ns)"
    and "rtb_searchby rb \<noteq> DBE_RTRX_SEARCHBYNONE" "\<forall>n\<in>set xs. \<not> rtrx_gone tb (rn_key buf n)"
  shows "\<exists>buf'. removeaborted_loop tb rb (first_of ns) = Some (rb\<lparr>rtb_buf := Some buf'\<rparr>) \<and>
    rtrx_inv (rtb_searchby rb) base buf' (filter (\<lambda>n. \<not> rtrx_gone tb (rn_key buf n)) (xs @ ns)) \<and> rn_key buf' = rn_key buf"
  using assms
proof (induction ns arbitrary: rb buf xs)
  case Nil
  then show ?case
    by (subst removeaborted_loop.simps) (auto simp: filter_id_conv intro: exI [of _ buf])
next
  case (Cons n ns)
  let ?s = "rtb_searchby rb" and ?r = "rn_key buf n"
  have key: "rtrx_getkey rb n = ?r"
    by (simp add: rtrx_getkey_def su_rbtnode_getkey_def Cons.prems(1))
  show ?case
  proof (cases "rtrx_gone tb ?r")
    case False
    have "su_rbt_succ buf n = Some (first_of ns)"
      using rtrx.succ_ok [OF Cons.prems(2) [unfolded rtrx_inv_def]] .
    then have "removeaborted_loop tb rb (first_of (n # ns)) = removeaborted_loop tb rb (first_of ns)"
      using False Cons.prems(1) key by (subst removeaborted_loop.simps) simp
    then show ?thesis
      using Cons.IH [OF Cons.prems(1), of "xs @ [n]"] Cons.prems False by simp
  next
    case True
    have prev: "(if ?s = DBE_RTRX_SEARCHBYLOCAL then rt_localtrxid ?r else rt_remotetrxid ?r) = rt_id ?s ?r"
      by (simp add: rt_id_def)
    obtain buf' where d: "rtrx_delete rb (rt_id ?s ?r) = Some (rb\<lparr>rtb_buf := Some buf'\<rparr>, RTRX_SUCC)"
        "rtrx_inv ?s base buf' (xs @ ns)" "rn_key buf' = rn_key buf"
      using rtrx_delete_node [OF Cons.prems(1,2) refl] by blast
    have ok: "in_window base (rt_id ?s ?r)"
      using rtrx.keys_ok [OF Cons.prems(2) [unfolded rtrx_inv_def], of n] by (simp add: rt_ok_def)
    have "\<forall>m\<in>set xs. rt_val ?s base (rn_key buf m) < rt_val ?s base ?r"
        "\<forall>m\<in>set ns. rt_val ?s base ?r < rt_val ?s base (rn_key buf m)"
      using rtrx.keys_sorted [OF Cons.prems(2) [unfolded rtrx_inv_def]] by (auto simp: sorted_middle)
    then have "su_rbt_search_atleast buf' (dbe_trxid_getlong (rt_id ?s ?r)) = Some (first_of ns)"
      using rtrx.atleast_after [OF d(2) [unfolded rtrx_inv_def], of "dbe_trxid_getlong (rt_id ?s ?r)"] ok
      by (simp add: d(3) rt_val_def)
    then have "removeaborted_loop tb rb (first_of (n # ns)) = removeaborted_loop tb (rb\<lparr>rtb_buf := Some buf'\<rparr>) (first_of ns)"
      using True d(1) key prev
      by (subst removeaborted_loop.simps, cases "?s = DBE_RTRX_SEARCHBYLOCAL")
        (simp_all add: Let_def dbe_rtrxbuf_deletebylocaltrxid_def dbe_rtrxbuf_deletebyremotetrxid_def)
    then show ?thesis
      using Cons.IH [of "rb\<lparr>rtb_buf := Some buf'\<rparr>" buf' xs] Cons.prems(3,4) d(2,3) True by simp
  qed
qed

lemma removeaborted_ok:
  assumes "rtrx_rep base rb rs"
  shows "\<exists>rb'. dbe_rtrxbuf_removeaborted rb tb = Some rb' \<and> rtb_searchby rb' = rtb_searchby rb \<and>
    rtrx_rep base rb' (filter (\<lambda>r. \<not> rtrx_gone tb r) rs)"
proof -
  obtain buf ns where b: "rtb_searchby rb \<noteq> DBE_RTRX_SEARCHBYNONE" "rtb_buf rb = Some buf"
      "rtrx_inv (rtb_searchby rb) base buf ([] @ ns)" "keys buf ns = rs"
    using rtrx_repE [OF assms] by (metis append_Nil)
  obtain buf' where *: "removeaborted_loop tb rb (first_of ns) = Some (rb\<lparr>rtb_buf := Some buf'\<rparr>)"
    "rtrx_inv (rtb_searchby rb) base buf' (filter (\<lambda>n. \<not> rtrx_gone tb (rn_key buf n)) ns)" "rn_key buf' = rn_key buf"
    using removeaborted_loop_ok [OF b(2,3,1), of tb] by auto
  have "su_rbt_min buf None = Some (first_of ns)"
    using rtrx.least_ok [OF b(3) [unfolded rtrx_inv_def]] by simp
  then have "dbe_rtrxbuf_removeaborted rb tb = Some (rb\<lparr>rtb_buf := Some buf'\<rparr>)"
    using b(2) *(1) by (simp add: dbe_rtrxbuf_removeaborted_def)
  moreover have "keys buf' (filter (\<lambda>n. \<not> rtrx_gone tb (rn_key buf n)) ns) = filter (\<lambda>r. \<not> rtrx_gone tb r) rs"
    using *(3) b(4) by (auto simp: filter_map o_def)
  ultimately show ?thesis
    using *(2) b(1) by (auto simp: rtrx_rep_def)
qed

end
