(* ===== verification/Rtrx_Safety.thy ===== *)
theory Rtrx_Safety
  imports Rtrx_Map Trx_Buf_Safety
begin

text \<open>The properties of the replicated transaction buffer.\<close>

section \<open>Lookups in the two orders\<close>

lemma lookup_remote:
  assumes "rtrx_rep base rb rs" "rtb_searchby rb = DBE_RTRX_SEARCHBYREMOTE" "in_window base v"
  shows "dbe_rtrxbuf_localbyremotetrxid rb v =
      Some (case find (\<lambda>r. rt_remotetrxid r = v) rs of None \<Rightarrow> DBE_TRXID_NULL | Some r \<Rightarrow> rt_localtrxid r)"
    "dbe_rtrxbuf_isdummybyremotetrxid rb v =
      Some (case find (\<lambda>r. rt_remotetrxid r = v) rs of None \<Rightarrow> False | Some r \<Rightarrow> rt_isdummy r)"
    "dbe_rtrxbuf_localtrxbyremotetrxid rb v =
      Some (case find (\<lambda>r. rt_remotetrxid r = v) rs of None \<Rightarrow> None | Some r \<Rightarrow> rt_trxdata r)"
  using rtrx_search_ok [OF assms(1,3)] assms(2)
  by (auto simp: dbe_rtrxbuf_localbyremotetrxid_def dbe_rtrxbuf_isdummybyremotetrxid_def
      dbe_rtrxbuf_localtrxbyremotetrxid_def rt_id_def split: option.splits)

lemma lookup_local:
  assumes "rtrx_rep base rb rs" "rtb_searchby rb = DBE_RTRX_SEARCHBYLOCAL" "in_window base v"
  shows "dbe_rtrxbuf_remotebylocaltrxid rb v =
      Some (case find (\<lambda>r. rt_localtrxid r = v) rs of None \<Rightarrow> DBE_TRXID_NULL | Some r \<Rightarrow> rt_remotetrxid r)"
    "dbe_rtrxbuf_localtrxbylocaltrxid rb v =
      Some (case find (\<lambda>r. rt_localtrxid r = v) rs of None \<Rightarrow> None | Some r \<Rightarrow> rt_trxdata r)"
  using rtrx_search_ok [OF assms(1,3)] assms(2)
  by (auto simp: dbe_rtrxbuf_remotebylocaltrxid_def dbe_rtrxbuf_localtrxbylocaltrxid_def rt_id_def
      split: option.splits)

lemma rt_id_trxdata [simp]: "rt_id s (r\<lparr>rt_trxdata := d\<rparr>) = rt_id s r"
  "rt_val s base (r\<lparr>rt_trxdata := d\<rparr>) = rt_val s base r"
  by (simp_all add: rt_id_def rt_val_def)

lemma find_rt_id: "find (\<lambda>r. rt_id s r = v) (fold (add_key (rt_val s base)) rs ks) =
    (case find (\<lambda>r. rt_id s r = v) ks of None \<Rightarrow> find (\<lambda>r. rt_id s r = v) rs | Some r \<Rightarrow> Some r)"
  using find_fold_add [of "rt_val s base" "window_pos base v" rs ks] unfolding rt_val_eq .

section \<open>Properties\<close>

text \<open>
  Adding a mapping for a remote id that has none succeeds, makes the translation of that id the
  local one, and changes the translation of no other id.
\<close>

theorem rtrxbuf_add_lookup:
  assumes "rtrx_rep base rb rs" "rtb_searchby rb = DBE_RTRX_SEARCHBYREMOTE"
    and "in_window base remote" "remote \<notin> rt_remotetrxid ` set rs" "in_window base v"
  shows "\<exists>rb'. dbe_rtrxbuf_add rb remote local data dummy = Some (rb', RTRX_SUCC) \<and>
    dbe_rtrxbuf_localbyremotetrxid rb' v =
      (if v = remote then Some local else dbe_rtrxbuf_localbyremotetrxid rb v) \<and>
    dbe_rtrxbuf_isdummybyremotetrxid rb' v =
      (if v = remote then Some dummy else dbe_rtrxbuf_isdummybyremotetrxid rb v)"
proof -
  let ?r = "rtrx_init remote local data dummy"
  obtain rb' where *: "dbe_rtrxbuf_add rb remote local data dummy = Some (rb', RTRX_SUCC)"
      "rtb_searchby rb' = DBE_RTRX_SEARCHBYREMOTE"
      "rtrx_rep base rb' (add_key (rt_val (rtb_searchby rb) base) ?r rs)"
    using rtrx_add_ok [OF assms(1), of ?r remote local data dummy] assms(2-4)
    by (auto simp: rtrx_init_def image_iff eq_commute)
  have "find (\<lambda>r. rt_remotetrxid r = v) (add_key (rt_val (rtb_searchby rb) base) ?r rs) =
      (case find (\<lambda>r. rt_remotetrxid r = v) rs of None \<Rightarrow> if remote = v then Some ?r else None | Some r \<Rightarrow> Some r)"
    using find_rt_id [of DBE_RTRX_SEARCHBYREMOTE v base "[?r]" rs] assms(2)
    by (simp add: rtrx_init_def split: option.splits)
  moreover have "find (\<lambda>r. rt_remotetrxid r = remote) rs = None"
    using assms(4) by (auto simp: find_None_iff)
  ultimately show ?thesis
    using * lookup_remote(1,2) [OF *(3,2) assms(5)] lookup_remote(1,2) [OF assms(1,2,5)]
    by (auto simp: rtrx_init_def split: option.splits)
qed

text \<open>
  C22. Changing the id the mappings are searched by ends and rebuilds the tree in the order of the other
  id: of the mappings that share it the first one in the old order is kept and the others are dropped
  without an error; when no two share it, all are kept.
\<close>

theorem rtrxbuf_setsearchby_first:
  assumes "rtrx_rep base rb rs" "s \<noteq> rtb_searchby rb" "s \<noteq> DBE_RTRX_SEARCHBYNONE"
    and "\<forall>r\<in>set rs. in_window base' (rt_id s r)"
  shows "\<exists>rb' rs'. dbe_rtrxbuf_setsearchby rb s = Some rb' \<and> rtb_searchby rb' = s \<and> rtrx_rep base' rb' rs' \<and>
    (\<forall>v. find (\<lambda>r. rt_id s r = v) rs' = find (\<lambda>r. rt_id s r = v) rs) \<and> set rs' \<subseteq> set rs \<and>
    (distinct (map (rt_id s) rs) \<longrightarrow> set rs' = set rs)"
proof -
  let ?rs = "fold (add_key (rt_val s base')) rs []"
  obtain rb' where *: "dbe_rtrxbuf_setsearchby rb s = Some rb'" "rtb_searchby rb' = s" "rtrx_rep base' rb' ?rs"
    using setsearchby_ok [OF assms] by blast
  have "find (\<lambda>r. rt_id s r = v) ?rs = find (\<lambda>r. rt_id s r = v) rs" for v
    using find_rt_id [of s v base' rs "[]"] by simp
  moreover have "set ?rs \<subseteq> set rs"
    using set_fold_add [of "rt_val s base'" rs "[]"] by simp
  moreover have "set ?rs = set rs" if "distinct (map (rt_id s) rs)"
  proof -
    have "distinct (map (rt_val s base') rs)"
      using that by (auto simp: distinct_map inj_on_def rt_val_eq)
    then show ?thesis
      using set_fold_add_distinct [of "rt_val s base'" rs "[]"] by simp
  qed
  ultimately show ?thesis
    using * by blast
qed

text \<open>
  C18. The mappings saved with a checkpoint and restored into an empty buffer with the same search id are
  the mappings that were saved, without the pointers to transaction objects, whatever the blocks of
  the list held before; dummy mappings, whose local id is not stored, come back with the remote id.
\<close>

theorem rtrxbuf_save_restore:
  assumes "rtrx_rep base rb rs" "rtrx_rep base rb0 []" "rtb_searchby rb0 = rtb_searchby rb"
    and "blocksize_ok bsize" "device_ok bsize bd" "length rs \<le> length (bd_free bd)"
    and "\<forall>r\<in>set rs. rt_isdummy r \<longrightarrow> rt_localtrxid r = rt_remotetrxid r"
    and "\<forall>r\<in>set rs. rt_localtrxid r \<noteq> DBE_TRXID_NULL"
  shows "\<exists>bd' a rb'. dbe_rtrxbuf_save bsize rb bd cpnum = Some (bd', a) \<and> dbe_rtrxbuf_restore rb0 bd' a = Some rb' \<and>
    rtrx_rep base rb' (map (\<lambda>r. r\<lparr>rt_trxdata := None\<rparr>) rs)"
proof (cases "rs = []")
  case True
  then show ?thesis
    using save_empty [of base rb bsize bd cpnum] assms(1,2) by (simp add: dbe_rtrxbuf_restore_def)
next
  case False
  let ?s = "rtb_searchby rb" and ?rs = "map (\<lambda>r. r\<lparr>rt_trxdata := None\<rparr>) rs"
  obtain bd' a where save: "dbe_rtrxbuf_save bsize rb bd cpnum = Some (bd', a)" "a \<noteq> SU_DADDR_NULL"
      "trxli_pairs bd' (dbe_trxli_init bd' a) = Some (rev (map rtrx_pair rs))"
    using save_ok [OF assms(1) False assms(4-6)] by blast
  obtain buf ns where b: "?s \<noteq> DBE_RTRX_SEARCHBYNONE" "rtb_buf rb0 = Some buf" "rtrx_inv ?s base buf ns" "keys buf ns = []"
    using rtrx_repE [OF assms(2)] assms(3) by metis
  have restored: "rtrx_restored r = r\<lparr>rt_trxdata := None\<rparr>" if "r \<in> set rs" for r
    using assms(7) that by (intro rtrx.equality) (auto simp: rtrx_restored_def rtrx_init_def)
  have "fold_option rtrx_restore_pair (rev (map rtrx_pair rs)) buf =
      fold_option (\<lambda>r buf. map_option fst (su_rbt_insert buf r)) (rev ?rs) buf"
    unfolding rev_map fold_option_map
    by (rule fold_option_cong) (use assms(8) restored in \<open>simp add: restore_pair_restored\<close>)
  moreover obtain buf' ns' where i: "fold_option (\<lambda>k h. map_option fst (su_rbt_insert h k)) (rev ?rs) buf = Some buf'"
      "rtrx_inv ?s base buf' ns'" "keys buf' ns' = fold (add_key (rt_val ?s base)) (rev ?rs) []"
  proof -
    have "\<forall>r\<in>set (rev ?rs). rt_ok ?s base r"
      using rtrx_rep_facts(1) [OF assms(1)] by (auto simp: rt_ok_def rt_id_def)
    then show thesis
      using rtrx.ins_all [OF b(3) [unfolded rtrx_inv_def], of "rev ?rs"] that b(4) by (auto simp: rtrx_inv_def)
  qed
  moreover have "key_sorted (rt_val ?s base) ?rs"
  proof -
    show ?thesis
      using rtrx_rep_facts(2) [OF assms(1)] by (simp add: key_sorted_def sorted_wrt_map)
  qed
  then have "keys buf' ns' = ?rs"
    using i(3) fold_add_sorted by metis
  ultimately have "dbe_rtrxbuf_restore rb0 bd' a = Some (rb0\<lparr>rtb_buf := Some buf'\<rparr>)"
      "rtrx_rep base (rb0\<lparr>rtb_buf := Some buf'\<rparr>) ?rs"
    using save(2) b(1,2) restore_loop_pairs [OF save(3), of buf] assms(3)
    by (auto simp: dbe_rtrxbuf_restore_def rtrx_rep_def)
  then show ?thesis
    using save(1) by blast
qed

text \<open>
  C17. The removal after recovery ends and leaves exactly the mappings whose local transaction is still
  open in the transaction buffer, although it deletes from the tree while it walks over it.
\<close>

theorem rtrxbuf_removeaborted_filter:
  assumes "rtrx_rep base rb rs"
  shows "\<exists>rb'. dbe_rtrxbuf_removeaborted rb tb = Some rb' \<and> rtb_searchby rb' = rtb_searchby rb \<and>
    rtrx_rep base rb' (filter (\<lambda>r. case dbe_trxbuf_gettrxinfo tb (rt_localtrxid r) of None \<Rightarrow> False
      | Some ti \<Rightarrow> \<not> dbe_trxinfo_isended (tb_ti tb ti)) rs)"
proof -
  have "(\<lambda>r :: 'a rtrx. \<not> rtrx_gone tb r) = (\<lambda>r. case dbe_trxbuf_gettrxinfo tb (rt_localtrxid r) of None \<Rightarrow> False
      | Some ti \<Rightarrow> \<not> dbe_trxinfo_isended (tb_ti tb ti))"
    by (auto simp: rtrx_gone_def fun_eq_iff split: option.splits)
  then show ?thesis
    using removeaborted_ok [OF assms, of tb] by simp
qed

section \<open>Witnesses\<close>

text \<open>A buffer searched by remote ids with two mappings.\<close>

definition ex_rtrxbuf :: "unit rtrxbuf \<Rightarrow> bool" where
  "ex_rtrxbuf rb \<longleftrightarrow> (\<exists>rb0 rb1. dbe_rtrxbuf_setsearchby dbe_rtrxbuf_init DBE_RTRX_SEARCHBYREMOTE = Some rb0 \<and>
    dbe_rtrxbuf_add rb0 5 9 None False = Some (rb1, RTRX_SUCC) \<and>
    dbe_rtrxbuf_add rb1 6 8 None False = Some (rb, RTRX_SUCC))"

abbreviation ex_rtrxs :: "unit rtrx list" where
  "ex_rtrxs \<equiv> [rtrx_init 5 9 None False, rtrx_init 6 8 None False]"

lemma ex_empty: "\<exists>rb :: unit rtrxbuf. dbe_rtrxbuf_setsearchby dbe_rtrxbuf_init DBE_RTRX_SEARCHBYREMOTE = Some rb \<and>
  rtb_searchby rb = DBE_RTRX_SEARCHBYREMOTE \<and> rtrx_rep 1 rb []"
proof -
  obtain buf :: "(unit rtrx, int) rbt" where "rtrx_tree DBE_RTRX_SEARCHBYREMOTE = Some buf"
      "rtrx_inv DBE_RTRX_SEARCHBYREMOTE 1 buf []"
    using rtrx_tree_ok [of DBE_RTRX_SEARCHBYREMOTE 1] by auto
  then show ?thesis
    by (intro exI [of _ "\<lparr>rtb_searchby = DBE_RTRX_SEARCHBYREMOTE, rtb_buf = Some buf\<rparr>"])
      (simp add: dbe_rtrxbuf_setsearchby_def dbe_rtrxbuf_init_def rtrx_rep_def)
qed

lemma ex_rtrxbuf_ok: "\<exists>rb. ex_rtrxbuf rb \<and> rtb_searchby rb = DBE_RTRX_SEARCHBYREMOTE \<and> rtrx_rep 1 rb ex_rtrxs"
proof -
  obtain rb0 :: "unit rtrxbuf" where rb0: "dbe_rtrxbuf_setsearchby dbe_rtrxbuf_init DBE_RTRX_SEARCHBYREMOTE = Some rb0"
      "rtb_searchby rb0 = DBE_RTRX_SEARCHBYREMOTE" "rtrx_rep 1 rb0 []"
    using ex_empty by blast
  obtain rb1 where rb1: "dbe_rtrxbuf_add rb0 5 9 None False = Some (rb1, RTRX_SUCC)"
      "rtb_searchby rb1 = DBE_RTRX_SEARCHBYREMOTE" "rtrx_rep 1 rb1 [rtrx_init 5 9 None False]"
    using rtrx_add_ok [OF rb0(3), of "rtrx_init 5 9 None False" 5 9 None False] rb0(2)
    by (auto simp: rtrx_init_def in_window_def window_pos_def add_key_def)
  obtain rb where rb: "dbe_rtrxbuf_add rb1 6 8 None False = Some (rb, RTRX_SUCC)"
      "rtb_searchby rb = DBE_RTRX_SEARCHBYREMOTE" "rtrx_rep 1 rb ex_rtrxs"
    using rtrx_add_ok [OF rb1(3), of "rtrx_init 6 8 None False" 6 8 None False] rb1(2)
    by (auto simp: rtrx_init_def in_window_def window_pos_def add_key_def rt_val_def)
  show ?thesis
    using rb0(1) rb1(1) rb by (auto simp: ex_rtrxbuf_def)
qed

theorem rtrxbuf_add_lookup_witness:
  "\<exists>rb rb'. ex_rtrxbuf rb \<and> dbe_rtrxbuf_add rb 7 3 None True = Some (rb', RTRX_SUCC) \<and>
    dbe_rtrxbuf_localbyremotetrxid rb' 7 = Some 3 \<and> dbe_rtrxbuf_isdummybyremotetrxid rb' 7 = Some True"
proof -
  obtain rb where rb: "ex_rtrxbuf rb" "rtb_searchby rb = DBE_RTRX_SEARCHBYREMOTE" "rtrx_rep 1 rb ex_rtrxs"
    using ex_rtrxbuf_ok by blast
  show ?thesis
    using rtrxbuf_add_lookup [OF rb(3,2), of 7 7 3 None True] rb(1)
    by (auto simp: in_window_def window_pos_def rtrx_init_def)
qed

theorem rtrxbuf_setsearchby_first_witness:
  "\<exists>rb rb' rs'. ex_rtrxbuf rb \<and> dbe_rtrxbuf_setsearchby rb DBE_RTRX_SEARCHBYLOCAL = Some rb' \<and>
    rtrx_rep 1 rb' rs' \<and> set rs' = set ex_rtrxs"
proof -
  obtain rb where rb: "ex_rtrxbuf rb" "rtb_searchby rb = DBE_RTRX_SEARCHBYREMOTE" "rtrx_rep 1 rb ex_rtrxs"
    using ex_rtrxbuf_ok by blast
  have "\<forall>r\<in>set ex_rtrxs. in_window 1 (rt_id DBE_RTRX_SEARCHBYLOCAL r)"
    by (simp add: rtrx_init_def in_window_def window_pos_def)
  moreover have "distinct (map (rt_id DBE_RTRX_SEARCHBYLOCAL) ex_rtrxs)"
    by (simp add: rtrx_init_def)
  ultimately show ?thesis
    using rtrxbuf_setsearchby_first [OF rb(3), of DBE_RTRX_SEARCHBYLOCAL 1] rb(1,2) by auto
qed

theorem rtrxbuf_save_restore_witness:
  "\<exists>rb rb0 bd' a rb'. ex_rtrxbuf rb \<and>
    dbe_rtrxbuf_save 20 rb \<lparr>bd_free = [7, 5, 9], bd_block = \<lambda>_. replicate 20 0\<rparr> 3 = Some (bd', a) \<and>
    dbe_rtrxbuf_restore rb0 bd' a = Some rb' \<and> rtrx_rep 1 rb' ex_rtrxs"
proof -
  obtain rb where rb: "ex_rtrxbuf rb" "rtb_searchby rb = DBE_RTRX_SEARCHBYREMOTE" "rtrx_rep 1 rb ex_rtrxs"
    using ex_rtrxbuf_ok by blast
  obtain rb0 :: "unit rtrxbuf" where rb0: "rtb_searchby rb0 = DBE_RTRX_SEARCHBYREMOTE" "rtrx_rep 1 rb0 []"
    using ex_empty by blast
  have bd: "device_ok 20 \<lparr>bd_free = [7, 5, 9], bd_block = \<lambda>_. replicate 20 0\<rparr>" "blocksize_ok 20"
    by (simp_all add: blocksize_ok_def device_ok_def SU_DADDR_NULL_def)
  have "map (\<lambda>r. r\<lparr>rt_trxdata := None\<rparr>) ex_rtrxs = ex_rtrxs"
    by (simp add: rtrx_init_def)
  with rtrxbuf_save_restore [OF rb(3) rb0(2) _ bd(2,1), of 3] rb(1,2) rb0(1) show ?thesis
    by (fastforce simp: rtrx_init_def DBE_TRXID_NULL_def)
qed

theorem rtrxbuf_removeaborted_filter_witness:
  "\<exists>rb rb'. ex_rtrxbuf rb \<and> dbe_rtrxbuf_removeaborted rb example_buffer = Some rb' \<and>
    rtrx_rep 1 rb' [rtrx_init 6 8 None False]"
proof -
  obtain rb where rb: "ex_rtrxbuf rb" "rtrx_rep 1 rb ex_rtrxs"
    using ex_rtrxbuf_ok by blast
  have "dbe_trxbuf_gettrxinfo example_buffer 9 = None" "dbe_trxbuf_gettrxinfo example_buffer 8 = Some 0"
      "\<not> dbe_trxinfo_isended (tb_ti example_buffer 0)"
    by (simp_all add: example_buffer_def tb_eval dbe_trxbuf_gettrxinfo_def)
  then show ?thesis
    using rtrxbuf_removeaborted_filter [OF rb(2), of example_buffer] rb(1) by (auto simp: rtrx_init_def)
qed

end
