(* ===== verification/Trx_Buf_Open.thy ===== *)
theory Trx_Buf_Open
  imports Rtrx_Safety
begin

text \<open>
  The transactions a replica finds open in its transaction buffer at the end of recovery, added to the
  replicated transactions: \<^verbatim>\<open>dbe_trxbuf_addopentrx\<close> of \<^verbatim>\<open>dbe/dbe7trxb.c\<close>. A second tree remembers for
  each transaction the last statement that was added for it.
\<close>

section \<open>The tree of the transactions seen\<close>

record trxrbt_key =
  tk_trxid :: dbe_trxid_t
  tk_stmttrxid :: dbe_trxid_t

type_synonym trxrbt = "(trxrbt_key, trxrbt_key) rbt"

definition trxrbt_compare :: "trxrbt_key \<Rightarrow> trxrbt_key \<Rightarrow> int" where
  "trxrbt_compare tk1 tk2 = dbe_trxid_cmp (tk_trxid tk1) (tk_trxid tk2)"

definition trxrbt_insert :: "trxrbt \<Rightarrow> dbe_trxid_t \<Rightarrow> trxrbt option" where
  "trxrbt_insert rbt trxid = map_option fst (su_rbt_insert rbt \<lparr>tk_trxid = trxid, tk_stmttrxid = trxid\<rparr>)"

section \<open>One statement\<close>

text \<open>The first part: a transaction without a mapping gets one.\<close>

definition addopen_trx :: "dbe_trxid_t \<Rightarrow> bool \<Rightarrow> 'd rtrxbuf \<times> trxrbt \<Rightarrow> ('d rtrxbuf \<times> trxrbt) option" where
  "addopen_trx usertrxid isdummy = (\<lambda>(rtrxbuf, rbt).
    Option.bind (dbe_rtrxbuf_localbyremotetrxid rtrxbuf usertrxid) (\<lambda>localtrxid.
      if localtrxid = DBE_TRXID_NULL
      then Option.bind (dbe_rtrxbuf_add rtrxbuf usertrxid usertrxid None isdummy) (\<lambda>(rtrxbuf1, rc).
        map_option (\<lambda>rbt1. (rtrxbuf1, rbt1)) (trxrbt_insert rbt usertrxid))
      else Some (rtrxbuf, rbt)))"

text \<open>
  The second part: a statement above the last one takes its place. The stored key is changed in the
  tree. Only the transaction id of the search key is read.
\<close>

definition addopen_last :: "dbe_trxid_t \<Rightarrow> bool \<Rightarrow> node \<Rightarrow> 'd rtrxbuf \<times> trxrbt \<Rightarrow> ('d rtrxbuf \<times> trxrbt) option" where
  "addopen_last stmttrxid isdummy n = (\<lambda>(rtrxbuf, rbt).
    (let tk = su_rbtnode_getkey rbt n in
     if dbe_trxid_cmp stmttrxid (tk_stmttrxid tk) > 0
     then Option.bind (if tk_stmttrxid tk \<noteq> tk_trxid tk
            then map_option fst (dbe_rtrxbuf_deletebylocaltrxid rtrxbuf (tk_stmttrxid tk))
            else Some rtrxbuf) (\<lambda>rtrxbuf1.
       Option.bind (dbe_rtrxbuf_localbyremotetrxid rtrxbuf1 stmttrxid) (\<lambda>localtrxid.
       Option.bind (if localtrxid = DBE_TRXID_NULL
            then map_option fst (dbe_rtrxbuf_add rtrxbuf1 stmttrxid stmttrxid None isdummy)
            else Some rtrxbuf1) (\<lambda>rtrxbuf2.
         Some (rtrxbuf2, rbt\<lparr>rn_key := (rn_key rbt)(n := tk\<lparr>tk_stmttrxid := stmttrxid\<rparr>)\<rparr>))))
     else Some (rtrxbuf, rbt)))"

definition addopen_stmt ::
  "trxbuf \<Rightarrow> bool \<Rightarrow> tsid \<Rightarrow> 'd rtrxbuf \<times> trxrbt \<Rightarrow> ('d rtrxbuf \<times> trxrbt) option" where
  "addopen_stmt tb isdummy ts st =
    (let ti = tb_ti tb (ts_trxinfo (tb_ts tb ts)) in
     if dbe_trxinfo_isended ti then Some st
     else Option.bind (addopen_trx (ti_usertrxid ti) isdummy st) (\<lambda>(rtrxbuf, rbt).
       Option.bind (su_rbt_search rbt \<lparr>tk_trxid = ti_usertrxid ti, tk_stmttrxid = DBE_TRXID_NULL\<rparr>) (\<lambda>n.
       case n of
         None \<Rightarrow> map_option (\<lambda>rbt1. (rtrxbuf, rbt1)) (trxrbt_insert rbt (ti_usertrxid ti))
       | Some n \<Rightarrow> addopen_last (ts_stmttrxid (tb_ts tb ts)) isdummy n (rtrxbuf, rbt))))"

section \<open>The operation\<close>

text \<open>The statements in the order of the loops over the slots and their lists.\<close>

definition tb_statements :: "trxbuf \<Rightarrow> tsid list" where
  "tb_statements tb = concat (map (tb_list tb) [0..<tb_nbufslots tb])"

definition dbe_trxbuf_addopentrx :: "trxbuf \<Rightarrow> 'd rtrxbuf \<Rightarrow> bool \<Rightarrow> 'd rtrxbuf option" where
  "dbe_trxbuf_addopentrx tb rtrxbuf isdummy =
    Option.bind (dbe_rtrxbuf_setsearchby rtrxbuf DBE_RTRX_SEARCHBYREMOTE) (\<lambda>rtrxbuf1.
    Option.bind (fold_option (addopen_stmt tb isdummy) (tb_statements tb)
      (rtrxbuf1, su_rbt_init trxrbt_compare True)) (\<lambda>(rtrxbuf2, rbt).
    Option.bind (su_rbt_done rbt) (\<lambda>_.
      dbe_rtrxbuf_setsearchby rtrxbuf2 DBE_RTRX_SEARCHBYLOCAL)))"

section \<open>The representation of the tree\<close>

definition tk_ok :: "u32 \<Rightarrow> trxrbt_key \<Rightarrow> bool" where
  "tk_ok base tk \<longleftrightarrow> in_window base (tk_trxid tk)"

definition tk_val :: "u32 \<Rightarrow> trxrbt_key \<Rightarrow> int" where
  "tk_val base tk = window_pos base (tk_trxid tk)"

interpretation tk: rbt_compare trxrbt_compare "tk_ok base" "tk_val base" trxrbt_compare "tk_ok base" "tk_val base" for base
  by unfold_locales (auto simp: trxrbt_compare_def tk_ok_def tk_val_def trxid_cmp_val)

definition tk_inv :: "u32 \<Rightarrow> trxrbt \<Rightarrow> node list \<Rightarrow> bool" where
  "tk_inv base = rbt_inv trxrbt_compare trxrbt_compare (tk_ok base) (tk_val base)"

lemma tk_val_eq: "tk_val base l = tk_val base k \<longleftrightarrow> tk_trxid l = tk_trxid k"
  by (simp add: tk_val_def)

lemma tk_eta: "\<lparr>tk_trxid = tk_trxid l, tk_stmttrxid = tk_stmttrxid l\<rparr> = l"
  by simp

lemma key_sorted_inj:
  assumes "key_sorted val (map f ns)" "m \<in> set ns" "n \<in> set ns" "val (f m) = val (f n)"
  shows "m = n"
proof -
  have "sorted_wrt (<) (map (\<lambda>n. val (f n)) ns)"
    using assms(1) by (simp add: key_sorted_def sorted_wrt_map)
  then have "distinct (map (\<lambda>n. val (f n)) ns)"
    by (simp add: strict_sorted_iff)
  then show ?thesis
    using assms(2-4) by (auto simp: distinct_map inj_on_def)
qed

lemma key_sorted_map: "key_sorted val ks \<longleftrightarrow> sorted_wrt (<) (map val ks)"
  by (simp add: key_sorted_def sorted_wrt_map)

text \<open>Changing a stored key without changing its place.\<close>

lemma rbt_inv_rekey:
  assumes "rbt_inv icmp scmp ok val h ns" "\<forall>n\<in>set ns. val (f n) = val (rn_key h n) \<and> ok (f n)"
  shows "rbt_inv icmp scmp ok val (h\<lparr>rn_key := f\<rparr>) ns"
proof -
  obtain t where t: "rb_tree h t" "inorder t = ns" and ns: "nodes_ok ok val h ns"
    using assms(1) by (auto simp: rbt_inv_def rbt_ok_def)
  have "map val (map f ns) = map val (map (rn_key h) ns)"
    using assms(2) by simp
  then have "key_sorted val (map f ns) = key_sorted val (map (rn_key h) ns)"
    unfolding key_sorted_map by metis
  then have "nodes_ok ok val (h\<lparr>rn_key := f\<rparr>) ns"
    using ns assms(2) by (simp add: nodes_ok_def)
  moreover have "rb_tree (h\<lparr>rn_key := f\<rparr>) t"
    using t(1) by (simp add: rb_tree_def tree_at_def nil_ok_def)
  ultimately show ?thesis
    using assms(1) t(2) by (auto simp: rbt_inv_def rbt_ok_def)
qed

text \<open>The tree as a map from transactions to their last statements.\<close>

definition tk_rep :: "u32 \<Rightarrow> trxrbt \<Rightarrow> (dbe_trxid_t \<rightharpoonup> dbe_trxid_t) \<Rightarrow> bool" where
  "tk_rep base rbt K \<longleftrightarrow> (\<exists>ns. tk_inv base rbt ns \<and>
    (\<forall>u k. K u = Some k \<longleftrightarrow> \<lparr>tk_trxid = u, tk_stmttrxid = k\<rparr> \<in> set (keys rbt ns)))"

lemma tk_rep_init: "tk_rep base (su_rbt_init trxrbt_compare True) (\<lambda>_. None)"
  using rbt_inv_init [of trxrbt_compare trxrbt_compare "tk_ok base" "tk_val base" True]
  by (auto simp: tk_rep_def tk_inv_def su_rbt_init_def)

lemma tk_rep_insert:
  assumes "tk_rep base rbt K" "K u = None" "in_window base u"
  shows "\<exists>rbt'. trxrbt_insert rbt u = Some rbt' \<and> tk_rep base rbt' (K(u \<mapsto> u))"
proof -
  obtain ns where ns: "tk_inv base rbt ns"
      "\<forall>u k. K u = Some k \<longleftrightarrow> \<lparr>tk_trxid = u, tk_stmttrxid = k\<rparr> \<in> set (keys rbt ns)"
    using assms(1) unfolding tk_rep_def by blast
  let ?k = "\<lparr>tk_trxid = u, tk_stmttrxid = u\<rparr>"
  obtain rbt' b ns' where i: "su_rbt_insert rbt ?k = Some (rbt', b)" "tk_inv base rbt' ns'"
      "keys rbt' ns' = add_key (tk_val base) ?k (keys rbt ns)"
    using tk.ins_ok [OF ns(1) [unfolded tk_inv_def], of ?k] assms(3) by (auto simp: tk_ok_def tk_inv_def)
  have "\<forall>l\<in>set (keys rbt ns). tk_val base l \<noteq> tk_val base ?k"
  proof (intro ballI notI)
    fix l
    assume l: "l \<in> set (keys rbt ns)" "tk_val base l = tk_val base ?k"
    then have "l = \<lparr>tk_trxid = u, tk_stmttrxid = tk_stmttrxid l\<rparr>"
      using tk_eta [of l] by (simp add: tk_val_eq)
    then have "K u = Some (tk_stmttrxid l)"
      using ns(2) l(1) by metis
    then show False
      using assms(2) by simp
  qed
  then have set: "set (keys rbt' ns') = insert ?k (set (keys rbt ns))"
    unfolding i(3) by (rule set_add_key(2))
  have "(K(u \<mapsto> u)) v = Some k \<longleftrightarrow> \<lparr>tk_trxid = v, tk_stmttrxid = k\<rparr> \<in> set (keys rbt' ns')" for v k
    unfolding set insert_iff ns(2) [rule_format, symmetric] using assms(2) by (cases "v = u") auto
  then show ?thesis
    using i(1,2) by (auto simp: trxrbt_insert_def tk_rep_def)
qed

lemma tk_rep_search:
  assumes "tk_rep base rbt K" "in_window base u" "tk_trxid s = u"
  shows "\<exists>n. su_rbt_search rbt s = Some n \<and> (case n of None \<Rightarrow> K u = None
    | Some n \<Rightarrow> (\<exists>k. K u = Some k \<and> rn_key rbt n = \<lparr>tk_trxid = u, tk_stmttrxid = k\<rparr> \<and>
        (\<forall>s'. tk_rep base (rbt\<lparr>rn_key := (rn_key rbt)(n := \<lparr>tk_trxid = u, tk_stmttrxid = s'\<rparr>)\<rparr>) (K(u \<mapsto> s')))))"
proof -
  obtain ns where ns: "tk_inv base rbt ns"
      "\<And>u k. K u = Some k \<longleftrightarrow> \<lparr>tk_trxid = u, tk_stmttrxid = k\<rparr> \<in> set (keys rbt ns)"
    using assms(1) unfolding tk_rep_def by blast
  have look: "su_rbt_search rbt s = Some (find (\<lambda>n. tk_trxid (rn_key rbt n) = u) ns)"
    using tk.look_ok [OF ns(1) [unfolded tk_inv_def], of s] assms(2,3) by (simp add: tk_ok_def tk_val_eq)
  show ?thesis
  proof (cases "find (\<lambda>n. tk_trxid (rn_key rbt n) = u) ns")
    case None
    have "K u = None"
    proof (rule ccontr)
      assume "K u \<noteq> None"
      then obtain k where "\<lparr>tk_trxid = u, tk_stmttrxid = k\<rparr> \<in> set (keys rbt ns)"
        using ns(2) by blast
      then obtain n where "n \<in> set ns" "rn_key rbt n = \<lparr>tk_trxid = u, tk_stmttrxid = k\<rparr>"
        by auto
      then show False
        using None by (auto simp: find_None_iff)
    qed
    then show ?thesis
      using look None by simp
  next
    case (Some n)
    then have n: "n \<in> set ns" "tk_trxid (rn_key rbt n) = u"
      by (auto simp: find_Some_iff)
    let ?k = "tk_stmttrxid (rn_key rbt n)"
    have key: "rn_key rbt n = \<lparr>tk_trxid = u, tk_stmttrxid = ?k\<rparr>"
      using tk_eta [of "rn_key rbt n"] n(2) by simp
    have Ku: "K u = Some ?k"
      using ns(2) n(1) key by (metis image_eqI list.set_map)
    have only: "m = n" if "m \<in> set ns" "tk_trxid (rn_key rbt m) = u" for m
      using key_sorted_inj [OF tk.keys_sorted [OF ns(1) [unfolded tk_inv_def]] that(1) n(1)] that(2) n(2)
      by (simp add: tk_val_eq)
    have rep: "tk_rep base (rbt\<lparr>rn_key := (rn_key rbt)(n := \<lparr>tk_trxid = u, tk_stmttrxid = s'\<rparr>)\<rparr>) (K(u \<mapsto> s'))"
      (is "tk_rep base ?rbt _") for s'
    proof -
      have "tk_inv base ?rbt ns"
        unfolding tk_inv_def using tk.keys_ok [OF ns(1) [unfolded tk_inv_def]] n assms(2)
        by (intro rbt_inv_rekey [OF ns(1) [unfolded tk_inv_def]]) (auto simp: tk_val_def tk_ok_def)
      moreover have "(K(u \<mapsto> s')) v = Some k \<longleftrightarrow> \<lparr>tk_trxid = v, tk_stmttrxid = k\<rparr> \<in> set (keys ?rbt ns)" for v k
      proof (cases "v = u")
        case True
        let ?f = "(rn_key rbt)(n := \<lparr>tk_trxid = u, tk_stmttrxid = s'\<rparr>)"
        show ?thesis
        proof
          assume "(K(u \<mapsto> s')) v = Some k"
          then have "?f n = \<lparr>tk_trxid = v, tk_stmttrxid = k\<rparr>"
            using True by simp
          then show "\<lparr>tk_trxid = v, tk_stmttrxid = k\<rparr> \<in> set (keys ?rbt ns)"
            using n(1) imageI [of n "set ns" ?f] by simp
        next
          assume "\<lparr>tk_trxid = v, tk_stmttrxid = k\<rparr> \<in> set (keys ?rbt ns)"
          then obtain m where m: "m \<in> set ns" "?f m = \<lparr>tk_trxid = v, tk_stmttrxid = k\<rparr>"
            by auto
          have "m = n"
          proof (rule ccontr)
            assume "m \<noteq> n"
            then have "tk_trxid (rn_key rbt m) = u"
              using m(2) True by simp
            then show False
              using only m(1) \<open>m \<noteq> n\<close> by blast
          qed
          then show "(K(u \<mapsto> s')) v = Some k"
            using m(2) True by simp
        qed
      next
        case False
        let ?f = "(rn_key rbt)(n := \<lparr>tk_trxid = u, tk_stmttrxid = s'\<rparr>)"
        have "\<lparr>tk_trxid = v, tk_stmttrxid = k\<rparr> = ?f m \<longleftrightarrow> \<lparr>tk_trxid = v, tk_stmttrxid = k\<rparr> = rn_key rbt m" for m
          using False n(2) by (cases "m = n") (auto dest: arg_cong [of _ _ tk_trxid])
        then have "\<lparr>tk_trxid = v, tk_stmttrxid = k\<rparr> \<in> set (map ?f ns) \<longleftrightarrow> \<lparr>tk_trxid = v, tk_stmttrxid = k\<rparr> \<in> set (map (rn_key rbt) ns)"
          by (simp only: set_map image_iff)
        then show ?thesis
          using ns(2) [of v k] False by simp
      qed
      ultimately show ?thesis
        unfolding tk_rep_def by blast
    qed
    show ?thesis
    proof (intro exI conjI)
      show "su_rbt_search rbt s = Some (Some n)"
        using look Some by simp
      show "case Some n of None \<Rightarrow> K u = None
        | Some n \<Rightarrow> (\<exists>k. K u = Some k \<and> rn_key rbt n = \<lparr>tk_trxid = u, tk_stmttrxid = k\<rparr> \<and>
            (\<forall>s'. tk_rep base (rbt\<lparr>rn_key := (rn_key rbt)(n := \<lparr>tk_trxid = u, tk_stmttrxid = s'\<rparr>)\<rparr>) (K(u \<mapsto> s'))))"
        unfolding option.case using rep Ku key by blast
    qed
  qed
qed

section \<open>The buffer of mappings of ids to themselves\<close>

definition open_rep :: "u32 \<Rightarrow> bool \<Rightarrow> 'd rtrxbuf \<Rightarrow> dbe_trxid_t set \<Rightarrow> bool" where
  "open_rep base isdummy rb ids \<longleftrightarrow> rtb_searchby rb = DBE_RTRX_SEARCHBYREMOTE \<and>
    (\<exists>rs. rtrx_rep base rb rs \<and> set rs = (\<lambda>i. rtrx_init i i None isdummy) ` ids)"

lemma in_window_not_null: "in_window base v \<Longrightarrow> v \<noteq> DBE_TRXID_NULL"
  by (simp add: in_window_def DBE_TRXID_NULL_def)

lemma find_self:
  assumes "set rs = (\<lambda>i. rtrx_init i i None isdummy) ` ids"
  shows "find (\<lambda>r. rt_remotetrxid r = v) rs = (if v \<in> ids then Some (rtrx_init v v None isdummy) else None)"
proof (cases "find (\<lambda>r. rt_remotetrxid r = v) rs")
  case None
  then have "v \<notin> ids"
    using assms by (auto simp: find_None_iff rtrx_init_def)
  then show ?thesis
    using None by simp
next
  case (Some r)
  then have "r \<in> set rs" "rt_remotetrxid r = v"
    by (auto simp: find_Some_iff)
  then obtain i where "i \<in> ids" "r = rtrx_init i i None isdummy" "i = v"
    using assms by (auto simp: rtrx_init_def)
  then show ?thesis
    using Some by simp
qed

lemma open_rep_look:
  assumes "open_rep base isdummy rb ids" "in_window base v"
  shows "dbe_rtrxbuf_localbyremotetrxid rb v = Some (if v \<in> ids then v else DBE_TRXID_NULL)"
proof -
  obtain rs where rs: "rtrx_rep base rb rs" "set rs = (\<lambda>i. rtrx_init i i None isdummy) ` ids"
      "rtb_searchby rb = DBE_RTRX_SEARCHBYREMOTE"
    using assms(1) unfolding open_rep_def by blast
  show ?thesis
    using lookup_remote(1) [OF rs(1,3) assms(2)] unfolding find_self [OF rs(2)] by (simp add: rtrx_init_def)
qed

lemma open_rep_add:
  assumes "open_rep base isdummy rb ids" "in_window base v" "v \<notin> ids"
  shows "\<exists>rb'. dbe_rtrxbuf_add rb v v None isdummy = Some (rb', RTRX_SUCC) \<and> open_rep base isdummy rb' (insert v ids)"
proof -
  obtain rs where rs: "rtrx_rep base rb rs" "set rs = (\<lambda>i. rtrx_init i i None isdummy) ` ids"
      "rtb_searchby rb = DBE_RTRX_SEARCHBYREMOTE"
    using assms(1) unfolding open_rep_def by blast
  let ?r = "rtrx_init v v None isdummy"
  have new: "\<forall>q\<in>set rs. rt_val DBE_RTRX_SEARCHBYREMOTE base q \<noteq> rt_val DBE_RTRX_SEARCHBYREMOTE base ?r"
    using rs(2) assms(3) by (auto simp: rt_val_eq rtrx_init_def)
  then obtain rb' where *: "dbe_rtrxbuf_add rb v v None isdummy = Some (rb', RTRX_SUCC)"
      "rtb_searchby rb' = DBE_RTRX_SEARCHBYREMOTE"
      "rtrx_rep base rb' (add_key (rt_val DBE_RTRX_SEARCHBYREMOTE base) ?r rs)"
    using rtrx_add_ok [OF rs(1), of ?r v v None isdummy] assms(2) rs(3)
    by (auto simp: rtrx_init_def rt_val_eq)
  then show ?thesis
    using set_add_key(2) [OF new] rs(2) unfolding open_rep_def by (intro exI conjI) (assumption+, simp)
qed

lemma image_remove: "f v \<notin> A \<Longrightarrow> insert (f v) A = f ` ids \<Longrightarrow> inj f \<Longrightarrow> A = f ` (ids - {v})"
  by (simp add: image_set_diff) (metis Diff_insert_absorb)

lemma open_rep_delete:
  assumes "open_rep base isdummy rb ids" "v \<in> ids"
  shows "\<exists>rb'. dbe_rtrxbuf_deletebylocaltrxid rb v = Some (rb', RTRX_SUCC) \<and> open_rep base isdummy rb' (ids - {v})"
proof -
  obtain rs where rs: "rtrx_rep base rb rs" "set rs = (\<lambda>i. rtrx_init i i None isdummy) ` ids"
      "rtb_searchby rb = DBE_RTRX_SEARCHBYREMOTE"
    using assms(1) unfolding open_rep_def by blast
  obtain buf ns where b: "rtb_buf rb = Some buf" "rtrx_inv DBE_RTRX_SEARCHBYREMOTE base buf ns" "keys buf ns = rs"
    using rtrx_repE [OF rs(1)] rs(3) by metis
  have "rtrx_init v v None isdummy \<in> set (map (rn_key buf) ns)"
    using b(3) rs(2) assms(2) by blast
  then obtain n where n: "n \<in> set ns" "rn_key buf n = rtrx_init v v None isdummy"
    by auto
  obtain xs ys where ns: "ns = xs @ n # ys"
    using split_list [OF n(1)] by blast
  obtain buf' where d: "rtrx_delete rb v = Some (rb\<lparr>rtb_buf := Some buf'\<rparr>, RTRX_SUCC)"
      "rtrx_inv DBE_RTRX_SEARCHBYREMOTE base buf' (xs @ ys)" "rn_key buf' = rn_key buf"
    using rtrx_delete_node [OF b(1) b(2) [unfolded ns], of v] n(2) by (auto simp: rtrx_init_def)
  have sorted: "key_sorted (rt_val DBE_RTRX_SEARCHBYREMOTE base) (keys buf (xs @ n # ys))"
    using rtrx.keys_sorted [OF b(2) [unfolded rtrx_inv_def]] unfolding ns .
  have "rn_key buf n \<notin> set (keys buf (xs @ ys))"
    using sorted by (auto simp: sorted_middle)
  moreover have "insert (rn_key buf n) (set (keys buf (xs @ ys))) = (\<lambda>i. rtrx_init i i None isdummy) ` ids"
    using b(3) rs(2) unfolding ns by auto
  moreover have "inj (\<lambda>i. rtrx_init i i None isdummy)"
    by (auto simp: inj_def rtrx_init_def)
  ultimately have "set (keys buf' (xs @ ys)) = (\<lambda>i. rtrx_init i i None isdummy) ` (ids - {v})"
    unfolding d(3) n(2) by (rule image_remove)
  then show ?thesis
    using d rs(3) unfolding open_rep_def dbe_rtrxbuf_deletebylocaltrxid_def rtrx_rep_def
    by (intro exI [of _ "rb\<lparr>rtb_buf := Some buf'\<rparr>"] exI [of _ "keys buf' (xs @ ys)"] conjI)
      (simp_all add: exI [of _ "xs @ ys"])
qed

section \<open>The loop\<close>

text \<open>
  \<open>k\<close> is the last id of the transaction \<open>u\<close> among the pairs \<open>P\<close> of a transaction and a statement.
\<close>

definition is_last :: "u32 \<Rightarrow> (dbe_trxid_t \<times> dbe_trxid_t) set \<Rightarrow> dbe_trxid_t \<Rightarrow> dbe_trxid_t \<Rightarrow> bool" where
  "is_last base P u k \<longleftrightarrow> (k = u \<or> (u, k) \<in> P) \<and> window_pos base u \<le> window_pos base k \<and>
    (\<forall>s. (u, s) \<in> P \<longrightarrow> window_pos base s \<le> window_pos base k)"

definition open_ids :: "u32 \<Rightarrow> (dbe_trxid_t \<times> dbe_trxid_t) set \<Rightarrow> dbe_trxid_t set" where
  "open_ids base P = {i. \<exists>u\<in>fst ` P. i = u \<or> is_last base P u i}"

definition open_inv ::
  "u32 \<Rightarrow> bool \<Rightarrow> (dbe_trxid_t \<times> dbe_trxid_t) set \<Rightarrow> 'd rtrxbuf \<times> trxrbt \<Rightarrow> bool" where
  "open_inv base isdummy P st \<longleftrightarrow> (\<exists>K. tk_rep base (snd st) K \<and> dom K = fst ` P \<and>
    (\<forall>u k. K u = Some k \<longrightarrow> is_last base P u k) \<and>
    open_rep base isdummy (fst st) (dom K \<union> ran K))"

lemma is_last_unique: "is_last base P u k \<Longrightarrow> is_last base P u l \<Longrightarrow> k = l"
  unfolding is_last_def by (metis antisym window_pos_eq)

lemma open_inv_ids:
  assumes "open_inv base isdummy P st"
  shows "open_rep base isdummy (fst st) (open_ids base P)"
proof -
  obtain K where K: "dom K = fst ` P" "\<And>u k. K u = Some k \<Longrightarrow> is_last base P u k"
      "open_rep base isdummy (fst st) (dom K \<union> ran K)"
    using assms unfolding open_inv_def by blast
  have "K u = Some i \<longleftrightarrow> u \<in> fst ` P \<and> is_last base P u i" for u i
  proof
    assume "u \<in> fst ` P \<and> is_last base P u i"
    then obtain k where "K u = Some k" "is_last base P u i"
      using K(1) by blast
    then show "K u = Some i"
      using is_last_unique [OF K(2) [of u k]] by blast
  qed (use K in auto)
  then have "dom K \<union> ran K = open_ids base P"
    unfolding K(1) open_ids_def ran_def by blast
  then show ?thesis
    using K(3) by simp
qed

text \<open>A transaction id and the id of a statement of another transaction differ, and so do two of those.\<close>

definition ids_apart :: "(dbe_trxid_t \<times> dbe_trxid_t) set \<Rightarrow> bool" where
  "ids_apart P \<longleftrightarrow> (\<forall>u s v t. (u, s) \<in> P \<and> (v, t) \<in> P \<and> (s = t \<or> s = v) \<longrightarrow> u = v)"

lemma ids_apartD: "ids_apart P \<Longrightarrow> (u, s) \<in> P \<Longrightarrow> (v, t) \<in> P \<Longrightarrow> s = t \<or> s = v \<Longrightarrow> u = v"
  unfolding ids_apart_def by blast

lemma is_last_new:
  assumes "u \<notin> fst ` P"
  shows "is_last base (insert (u, s) P) u (if window_pos base u < window_pos base s then s else u)"
  using assms by (auto simp: is_last_def image_iff)

lemma is_last_step:
  assumes "is_last base P u k"
  shows "is_last base (insert (u, s) P) u (if window_pos base k < window_pos base s then s else k)"
  using assms by (auto simp: is_last_def)

lemma is_last_other: "v \<noteq> u \<Longrightarrow> is_last base (insert (u, s) P) v k = is_last base P v k"
  by (auto simp: is_last_def)

lemma trxid_cmp_pos:
  assumes "in_window base a" "in_window base b"
  shows "dbe_trxid_cmp a b > 0 \<longleftrightarrow> window_pos base b < window_pos base a"
  using trxid_cmp_val [OF assms] linorder_less_linear [of "window_pos base a" "window_pos base b"]
  by (auto simp: three_way_def sgn_if split: if_splits)

lemma dom_ran_upd:
  assumes "K u = Some k" "k \<noteq> u \<Longrightarrow> k \<notin> dom K \<and> (\<forall>v. K v = Some k \<longrightarrow> v = u)"
  shows "dom (K(u \<mapsto> s)) \<union> ran (K(u \<mapsto> s)) =
    insert s (if k = u then dom K \<union> ran K else (dom K \<union> ran K) - {k})"
proof -
  let ?R = "{i. \<exists>v. v \<noteq> u \<and> K v = Some i}"
  have "ran (K(u \<mapsto> s)) = insert s ?R" "ran K = insert k ?R"
    using assms(1) by (auto simp: ran_def) (metis option.inject)+
  moreover have "dom (K(u \<mapsto> s)) = dom K" "u \<in> dom K"
    using assms(1) by auto
  moreover have "k \<noteq> u \<Longrightarrow> k \<notin> dom K \<union> ?R"
    using assms(2) by blast
  ultimately show ?thesis
    by (cases "k = u") auto
qed

lemma addopen_last_ok:
  assumes rn: "rn_key rbt n = \<lparr>tk_trxid = u, tk_stmttrxid = k\<rparr>" and rep: "tk_rep base rbt K"
    and upd: "\<And>s'. tk_rep base (rbt\<lparr>rn_key := (rn_key rbt)(n := \<lparr>tk_trxid = u, tk_stmttrxid = s'\<rparr>)\<rparr>) (K(u \<mapsto> s'))"
    and k: "K u = Some k" "k \<noteq> u \<Longrightarrow> k \<notin> dom K \<and> (\<forall>v. K v = Some k \<longrightarrow> v = u)" "in_window base k"
    and ids: "open_rep base isdummy rb (dom K \<union> ran K)" and s: "in_window base s"
  shows "\<exists>rb' rbt'. addopen_last s isdummy n (rb, rbt) = Some (rb', rbt') \<and>
    (let K' = K(u \<mapsto> if window_pos base k < window_pos base s then s else k) in
      tk_rep base rbt' K' \<and> open_rep base isdummy rb' (dom K' \<union> ran K'))"
proof (cases "window_pos base k < window_pos base s")
  case False
  then have "addopen_last s isdummy n (rb, rbt) = Some (rb, rbt)"
    using trxid_cmp_pos [OF s k(3)] by (simp add: addopen_last_def su_rbtnode_getkey_def rn)
  moreover have "K(u \<mapsto> k) = K"
    using k(1) by (simp add: map_upd_triv)
  ultimately show ?thesis
    using rep ids False by simp
next
  case True
  let ?I = "if k = u then dom K \<union> ran K else (dom K \<union> ran K) - {k}"
  have cmp: "dbe_trxid_cmp s k > 0"
    using True trxid_cmp_pos [OF s k(3)] by simp
  obtain rb1 where del: "(if k \<noteq> u then map_option fst (dbe_rtrxbuf_deletebylocaltrxid rb k) else Some rb) = Some rb1"
      "open_rep base isdummy rb1 ?I"
  proof (cases "k = u")
    case False
    then obtain rb1 where "dbe_rtrxbuf_deletebylocaltrxid rb k = Some (rb1, RTRX_SUCC)"
        "open_rep base isdummy rb1 ((dom K \<union> ran K) - {k})"
      using open_rep_delete [OF ids, of k] ranI [of K, OF k(1)] by auto
    then show thesis
      using that [of rb1] False by simp
  qed (use that [of rb] ids in simp)
  obtain rb2 where add: "(if (if s \<in> ?I then s else DBE_TRXID_NULL) = DBE_TRXID_NULL
        then map_option fst (dbe_rtrxbuf_add rb1 s s None isdummy) else Some rb1) = Some rb2"
      "open_rep base isdummy rb2 (insert s ?I)"
  proof (cases "s \<in> ?I")
    case True
    then show thesis
      using that [of rb1] del(2) in_window_not_null [OF s] by (simp add: insert_absorb)
  next
    case False
    then show thesis
      using that open_rep_add [OF del(2) s False] by auto
  qed
  have "addopen_last s isdummy n (rb, rbt) =
      Some (rb2, rbt\<lparr>rn_key := (rn_key rbt)(n := \<lparr>tk_trxid = u, tk_stmttrxid = s\<rparr>)\<rparr>)"
    unfolding addopen_last_def su_rbtnode_getkey_def prod.case Let_def rn trxrbt_key.select_convs
    using cmp del(1) open_rep_look [OF del(2) s] add(1) by simp
  then show ?thesis
    using upd [of s] add(2) dom_ran_upd [of K u k s, OF k(1,2)] True by simp
qed

text \<open>A statement of an open transaction.\<close>

lemma addopen_pair_ok:
  assumes inv: "open_inv base isdummy P st" and P: "insert (u, s) P \<subseteq> Q" "ids_apart Q"
    and win: "\<forall>(u, s)\<in>Q. in_window base u \<and> in_window base s"
    and ti: "ts_stmttrxid (tb_ts tb ts) = s" "ti_usertrxid (tb_ti tb (ts_trxinfo (tb_ts tb ts))) = u"
      "\<not> dbe_trxinfo_isended (tb_ti tb (ts_trxinfo (tb_ts tb ts)))"
  shows "\<exists>st'. addopen_stmt tb isdummy ts st = Some st' \<and> open_inv base isdummy (insert (u, s) P) st'"
proof -
  obtain rb rbt K where st: "st = (rb, rbt)" and K: "tk_rep base rbt K" "dom K = fst ` P"
      "\<And>u k. K u = Some k \<Longrightarrow> is_last base P u k" and ids: "open_rep base isdummy rb (dom K \<union> ran K)"
    using inv unfolding open_inv_def by (metis prod.collapse)
  have us: "in_window base u" "in_window base s"
    using P(1) win by auto
  let ?K1 = "if K u = None then K(u \<mapsto> u) else K"
  have uniq: "v = u" if a: "K v = Some k" and b: "k = u \<or> (u, k) \<in> P" for v k
  proof -
    obtain t where t: "(v, t) \<in> Q" "k = v \<or> (v, k) \<in> Q"
      using K(2) K(3) [OF a] a P(1) by (force simp: is_last_def dom_def)
    have "k = u \<or> (u, k) \<in> Q" "(u, s) \<in> Q"
      using b P(1) by auto
    then show "v = u"
      using t ids_apartD [OF P(2)] by metis
  qed
  have dom: "u \<in> dom K" if "u \<in> ran K"
    using that uniq by (auto simp: ran_def)
  obtain rb1 rbt1 where 1: "addopen_trx u isdummy (rb, rbt) = Some (rb1, rbt1)" "tk_rep base rbt1 ?K1"
      "open_rep base isdummy rb1 (dom ?K1 \<union> ran ?K1)"
  proof (cases "K u")
    case None
    then have new: "u \<notin> dom K \<union> ran K"
      using dom by auto
    obtain rb1 where rb1: "dbe_rtrxbuf_add rb u u None isdummy = Some (rb1, RTRX_SUCC)"
        "open_rep base isdummy rb1 (insert u (dom K \<union> ran K))"
      using open_rep_add [OF ids us(1) new] by blast
    obtain rbt1 where rbt1: "trxrbt_insert rbt u = Some rbt1" "tk_rep base rbt1 (K(u \<mapsto> u))"
      using tk_rep_insert [OF K(1) None us(1)] by blast
    have "dom (K(u \<mapsto> u)) \<union> ran (K(u \<mapsto> u)) = insert u (dom K \<union> ran K)"
      using None by auto
    then show thesis
      using that [of rb1 rbt1] rb1 rbt1 None open_rep_look [OF ids us(1)] new by (simp add: addopen_trx_def)
  next
    case (Some k)
    then have "u \<in> dom K \<union> ran K"
      by auto
    then show thesis
      using that [of rb rbt] Some K(1) ids open_rep_look [OF ids us(1)] in_window_not_null [OF us(1)]
      by (simp add: addopen_trx_def)
  qed
  obtain k where k: "?K1 u = Some k" "is_last base (insert (u, u) P) u k"
  proof (cases "K u")
    case None
    then have "is_last base (insert (u, u) P) u u"
      using is_last_new [of u P base u] K(2) by auto
    then show thesis
      using that None by simp
  next
    case (Some k)
    then show thesis
      using that is_last_step [OF K(3) [OF Some], of u] K(3) [OF Some] by (auto simp: is_last_def)
  qed
  have kw: "in_window base k"
    using k(2) us(1) win P(1) by (auto simp: is_last_def)
  have kd: "k \<notin> dom ?K1 \<and> (\<forall>v. ?K1 v = Some k \<longrightarrow> v = u)" if "k \<noteq> u"
  proof -
    have uk: "(u, k) \<in> P" "K u = Some k"
      using that k by (auto simp: is_last_def split: if_splits)
    have "k \<notin> dom K"
    proof
      assume "k \<in> dom K"
      then obtain t where "(k, t) \<in> Q"
        using K(2) P(1) by auto
      then show False
        using ids_apartD [OF P(2), of u k k t] uk(1) P(1) that by auto
    qed
    then show ?thesis
      using uk uniq by auto
  qed
  obtain m where look: "su_rbt_search rbt1 \<lparr>tk_trxid = u, tk_stmttrxid = DBE_TRXID_NULL\<rparr> = Some m"
      "case m of None \<Rightarrow> ?K1 u = None
        | Some n \<Rightarrow> (\<exists>k. ?K1 u = Some k \<and> rn_key rbt1 n = \<lparr>tk_trxid = u, tk_stmttrxid = k\<rparr> \<and>
            (\<forall>s'. tk_rep base (rbt1\<lparr>rn_key := (rn_key rbt1)(n := \<lparr>tk_trxid = u, tk_stmttrxid = s'\<rparr>)\<rparr>) (?K1(u \<mapsto> s'))))"
    using tk_rep_search [OF 1(2) us(1), of "\<lparr>tk_trxid = u, tk_stmttrxid = DBE_TRXID_NULL\<rparr>"] unfolding trxrbt_key.select_convs by blast
  obtain n where n: "m = Some n"
    using look(2) k(1) by (cases m) simp_all
  have rn: "rn_key rbt1 n = \<lparr>tk_trxid = u, tk_stmttrxid = k\<rparr>"
    "\<And>s'. tk_rep base (rbt1\<lparr>rn_key := (rn_key rbt1)(n := \<lparr>tk_trxid = u, tk_stmttrxid = s'\<rparr>)\<rparr>) (?K1(u \<mapsto> s'))"
    using look(2) k(1) unfolding n option.case by auto
  let ?K' = "?K1(u \<mapsto> if window_pos base k < window_pos base s then s else k)"
  obtain rb' rbt' where fin: "addopen_last s isdummy n (rb1, rbt1) = Some (rb', rbt')"
      "tk_rep base rbt' ?K'" "open_rep base isdummy rb' (dom ?K' \<union> ran ?K')"
    using addopen_last_ok [OF rn(1) 1(2) rn(2) k(1) kd kw 1(3) us(2)] unfolding Let_def by blast
  have "addopen_stmt tb isdummy ts st = Some (rb', rbt')"
    using ti 1(1) look(1) fin(1) by (simp add: addopen_stmt_def Let_def st n)
  moreover have "dom ?K' = fst ` insert (u, s) P"
    using K(2) by auto
  moreover have "is_last base (insert (u, s) P) v j" if "?K' v = Some j" for v j
  proof (cases "v = u")
    case True
    have "is_last base (insert (u, s) P) u (if window_pos base k < window_pos base s then s else k)"
      using is_last_step [OF k(2), of s] by (auto simp: is_last_def)
    then show ?thesis
      using True that by simp
  next
    case False
    then show ?thesis
      using that K(3) by (auto simp: is_last_other split: if_splits)
  qed
  ultimately show ?thesis
    using fin(2,3) unfolding open_inv_def by (intro exI [of _ "(rb', rbt')"] conjI exI [of _ ?K']) simp_all
qed

text \<open>The open transactions of the buffer with their statements.\<close>

definition open_pairs :: "trxbuf \<Rightarrow> tsid list \<Rightarrow> (dbe_trxid_t \<times> dbe_trxid_t) set" where
  "open_pairs tb tss = {(u, s). \<exists>ts\<in>set tss. u = ti_usertrxid (tb_ti tb (ts_trxinfo (tb_ts tb ts))) \<and>
    s = ts_stmttrxid (tb_ts tb ts) \<and> \<not> dbe_trxinfo_isended (tb_ti tb (ts_trxinfo (tb_ts tb ts)))}"

lemma open_pairs_Cons: "open_pairs tb (ts # tss) =
  (if dbe_trxinfo_isended (tb_ti tb (ts_trxinfo (tb_ts tb ts))) then open_pairs tb tss
   else insert (ti_usertrxid (tb_ti tb (ts_trxinfo (tb_ts tb ts))), ts_stmttrxid (tb_ts tb ts)) (open_pairs tb tss))"
  by (auto simp: open_pairs_def)

lemma addopen_loop_ok:
  assumes "open_inv base isdummy P st" "P \<union> open_pairs tb tss \<subseteq> Q" "ids_apart Q"
    and "\<forall>(u, s)\<in>Q. in_window base u \<and> in_window base s"
  shows "\<exists>st'. fold_option (addopen_stmt tb isdummy) tss st = Some st' \<and> open_inv base isdummy (P \<union> open_pairs tb tss) st'"
  using assms
proof (induction tss arbitrary: P st)
  case Nil
  then show ?case
    by (simp add: open_pairs_def)
next
  case (Cons ts tss)
  let ?ti = "tb_ti tb (ts_trxinfo (tb_ts tb ts))"
  show ?case
  proof (cases "dbe_trxinfo_isended ?ti")
    case True
    then show ?thesis
      using Cons by (simp add: open_pairs_Cons addopen_stmt_def Let_def)
  next
    case False
    then obtain st1 where "addopen_stmt tb isdummy ts st = Some st1"
        "open_inv base isdummy (insert (ti_usertrxid ?ti, ts_stmttrxid (tb_ts tb ts)) P) st1"
      using addopen_pair_ok [OF Cons.prems(1) _ Cons.prems(3,4) refl refl False] Cons.prems(2)
      by (auto simp: open_pairs_Cons)
    then show ?thesis
      using Cons.IH [of "insert (ti_usertrxid ?ti, ts_stmttrxid (tb_ts tb ts)) P" st1] Cons.prems(2-4) False
      by (simp add: open_pairs_Cons)
  qed
qed

lemma tk_rep_done: "tk_rep base rbt K \<Longrightarrow> \<exists>ks. su_rbt_done rbt = Some ks"
  unfolding tk_rep_def tk_inv_def rbt_inv_def using su_rbt_done_ok by blast

lemma setsearchby_remote:
  assumes "rb = dbe_rtrxbuf_init \<or> rtrx_rep base rb []"
  shows "\<exists>rb'. dbe_rtrxbuf_setsearchby rb DBE_RTRX_SEARCHBYREMOTE = Some rb' \<and> open_rep base isdummy rb' {}"
proof (cases "rtb_searchby rb = DBE_RTRX_SEARCHBYREMOTE")
  case True
  then show ?thesis
    using assms by (auto simp: dbe_rtrxbuf_setsearchby_def open_rep_def dbe_rtrxbuf_init_def)
next
  case False
  show ?thesis
    using assms
  proof
    assume rb: "rb = dbe_rtrxbuf_init"
    obtain buf :: "('a rtrx, int) rbt" where "rtrx_tree DBE_RTRX_SEARCHBYREMOTE = Some buf"
        "rtrx_inv DBE_RTRX_SEARCHBYREMOTE base buf []"
      using rtrx_tree_ok [of DBE_RTRX_SEARCHBYREMOTE base] by auto
    then show ?thesis
      by (auto simp: rb dbe_rtrxbuf_setsearchby_def dbe_rtrxbuf_init_def open_rep_def rtrx_rep_def)
  next
    assume "rtrx_rep base rb []"
    from setsearchby_ok [OF this False [symmetric]] show ?thesis
      by (auto simp: open_rep_def)
  qed
qed

subsection \<open>Transactions that are mapped already\<close>





section \<open>Properties\<close>

text \<open>
  C21. Adding the open transactions of the transaction buffer to an empty replicated transaction
  buffer (fresh, or with a tree without mappings) maps to themselves the ids of exactly those
  transactions and, of the statements of each above its own id, the last one, whatever the order in
  which the hash slots present the statements; the buffer is then searched by local ids. No statement id is the id of another
  transaction or belongs to two, and the ids lie in one window of the counter. With mappings of an
  earlier run in the buffer this does not hold (\<open>addopentrx_skips_first\<close>).
\<close>

theorem addopentrx_last_statements:
  assumes "rb = dbe_rtrxbuf_init \<or> rtrx_rep base rb []"
    and "ids_apart (open_pairs tb (tb_statements tb))"
    and "\<forall>(u, s)\<in>open_pairs tb (tb_statements tb). in_window base u \<and> in_window base s"
  shows "\<exists>rb' rs. dbe_trxbuf_addopentrx tb rb isdummy = Some rb' \<and> rtb_searchby rb' = DBE_RTRX_SEARCHBYLOCAL \<and>
    rtrx_rep base rb' rs \<and>
    set rs = (\<lambda>i. rtrx_init i i None isdummy) ` open_ids base (open_pairs tb (tb_statements tb))"
proof -
  let ?P = "open_pairs tb (tb_statements tb)"
  obtain rb1 where 1: "dbe_rtrxbuf_setsearchby rb DBE_RTRX_SEARCHBYREMOTE = Some rb1" "open_rep base isdummy rb1 {}"
    using setsearchby_remote [OF assms(1)] by blast
  have "open_inv base isdummy {} (rb1, su_rbt_init trxrbt_compare True)"
    unfolding open_inv_def by (intro exI [of _ "\<lambda>_. None"]) (simp add: tk_rep_init 1(2))
  then obtain st2 where st2: "fold_option (addopen_stmt tb isdummy) (tb_statements tb) (rb1, su_rbt_init trxrbt_compare True) = Some st2"
      "open_inv base isdummy ({} \<union> ?P) st2"
    using addopen_loop_ok [OF _ _ assms(2,3)] by blast
  obtain rb2 rbt where 2: "st2 = (rb2, rbt)" "open_inv base isdummy ?P (rb2, rbt)"
    using st2(2) by (cases st2) simp
  obtain K where "tk_rep base rbt K"
    using 2(2) unfolding open_inv_def snd_conv by (elim exE conjE)
  then obtain ks where fin: "su_rbt_done rbt = Some ks"
    using tk_rep_done by blast
  obtain rs where rs: "rtrx_rep base rb2 rs" "set rs = (\<lambda>i. rtrx_init i i None isdummy) ` open_ids base ?P"
      "rtb_searchby rb2 = DBE_RTRX_SEARCHBYREMOTE"
    using open_inv_ids [OF 2(2)] unfolding open_rep_def fst_conv by blast
  have self: "rt_localtrxid r = rt_remotetrxid r" if "r \<in> set rs" for r
    using that unfolding rs(2) by (auto simp: rtrx_init_def)
  have "distinct (map rt_remotetrxid rs)"
    using rtrx_rep_facts(2) [OF rs(1)] unfolding rs(3)
    by (auto simp: key_sorted_map strict_sorted_iff distinct_map inj_on_def rt_val_eq)
  moreover have "map rt_localtrxid rs = map rt_remotetrxid rs"
    using self by simp
  ultimately have "distinct (map rt_localtrxid rs)"
    by (simp only:)
  then have dist: "distinct (map (rt_val DBE_RTRX_SEARCHBYLOCAL base) (rs @ []))"
    by (auto simp: distinct_map inj_on_def rt_val_eq)
  have "\<forall>r\<in>set rs. in_window base (rt_id DBE_RTRX_SEARCHBYLOCAL r)"
    using rtrx_rep_facts(1) [OF rs(1)] self rs(3) by simp
  then obtain rb3 where 3: "dbe_rtrxbuf_setsearchby rb2 DBE_RTRX_SEARCHBYLOCAL = Some rb3"
      "rtb_searchby rb3 = DBE_RTRX_SEARCHBYLOCAL"
      "rtrx_rep base rb3 (fold (add_key (rt_val DBE_RTRX_SEARCHBYLOCAL base)) rs [])"
    using setsearchby_ok [OF rs(1), of DBE_RTRX_SEARCHBYLOCAL base] rs(3) by auto
  have "set (fold (add_key (rt_val DBE_RTRX_SEARCHBYLOCAL base)) rs []) = set rs"
    using set_fold_add_distinct [OF dist] by simp
  moreover have "dbe_trxbuf_addopentrx tb rb isdummy = Some rb3"
    using 1(1) st2(1) 2(1) fin 3(1) by (simp add: dbe_trxbuf_addopentrx_def)
  ultimately show ?thesis
    using 3(2,3) rs(2) by (intro exI conjI) (assumption+, simp)
qed


section \<open>Witnesses\<close>

theorem addopentrx_last_statements_witness:
  "\<exists>(rb' :: unit rtrxbuf) rs. dbe_trxbuf_addopentrx example_buffer dbe_rtrxbuf_init True = Some rb' \<and>
    rtrx_rep 1 rb' rs \<and> set rs = {rtrx_init 7 7 None True, rtrx_init 8 8 None True}"
proof -
  have stmts: "tb_statements example_buffer = [1, 0]"
    by (simp add: tb_statements_def example_buffer_def tb_eval upt_rec)
  have pairs: "open_pairs example_buffer [1, 0] = {(7, 7), (7, 8)}"
    by (auto simp: open_pairs_def example_buffer_def tb_eval)
  have ids: "open_ids 1 {(7, 7), (7, 8)} = {7, 8}"
    by (auto simp: open_ids_def is_last_def window_pos_def)
  have apart: "ids_apart {(7, 7), (7, 8)}" "\<forall>(u, s)\<in>{(7, 7), (7, 8)}. in_window 1 u \<and> in_window 1 s"
    by (auto simp: ids_apart_def in_window_def window_pos_def)
  have maps: "(\<lambda>i. rtrx_init i i None True) ` {7, 8} = {rtrx_init 7 7 None True, rtrx_init 8 8 (None :: unit option) True}"
    by simp
  from addopentrx_last_statements [of "dbe_rtrxbuf_init :: unit rtrxbuf" 1 example_buffer True,
      unfolded stmts pairs ids maps, OF disjI1 [OF refl] apart]
  show ?thesis
    by blast
qed



end
