(* ===== verification/Vtpl.thy ===== *)
theory Vtpl
  imports Va_Base "HOL-Library.Sublist"
begin

text \<open>
  v-tuples (\<^verbatim>\<open>uti/uti0vtpb.c\<close>, \<^verbatim>\<open>include/uti0vtpl.h\<close>) and their comparison (\<^verbatim>\<open>vtpl_compare\<close>,
  \<^verbatim>\<open>vtpl_equal\<close> and \<^verbatim>\<open>vtpl_condcompare\<close> of \<^verbatim>\<open>uti/uti0vcmp.c\<close>): the keys and rows of the database, a
  v-attribute whose data is a sequence of v-attributes. A v-tuple is the list of the bytes from its
  address on, and a pointer into it is an offset. The loops advance past the length and the data of a
  field, so they end on damaged data too.
\<close>

type_synonym vtpl_t = "u8 list"

section \<open>Lengths and positions\<close>

definition vtpl_grosslen :: "vtpl_t \<Rightarrow> u32" where
  "vtpl_grosslen vtpl =
    (if BYTE_LEN_TEST (va_c0 vtpl) then va_c0 vtpl + 1 else FOUR_BYTE_LEN vtpl + 5)"

definition vtpl_netlen :: "vtpl_t \<Rightarrow> u32" where
  "vtpl_netlen vtpl = va_netlen vtpl"

definition VTPL_EMPTY :: vtpl_t where "VTPL_EMPTY = [0, 0, 0, 0, 0, 0]"

text \<open>The offsets of the first field and of the last byte.\<close>

definition vtpl_bounds :: "vtpl_t \<Rightarrow> nat \<times> nat" where
  "vtpl_bounds vtpl =
    (if BYTE_LEN_TEST (va_c0 vtpl) then (1, unat (va_c0 vtpl)) else (5, unat (FOUR_BYTE_LEN vtpl) + 4))"

section \<open>Comparison\<close>

function vtpl_compare_loop :: "vtpl_t \<Rightarrow> nat \<Rightarrow> vtpl_t \<Rightarrow> nat \<Rightarrow> nat \<Rightarrow> nat \<Rightarrow> int" where
  "vtpl_compare_loop vtpl1 vtpl_end1 vtpl2 vtpl_end2 p_field1 p_field2 =
    (if p_field1 \<le> vtpl_end1 \<and> p_field2 \<le> vtpl_end2
     then let (data1, len1) = va_getdata (drop p_field1 vtpl1); (data2, len2) = va_getdata (drop p_field2 vtpl2);
              comp_res = SsMemcmp data1 data2 (unat (min len1 len2))
          in if comp_res = 0
             then if len1 \<noteq> len2 then sint (len1 - len2)
               else vtpl_compare_loop vtpl1 vtpl_end1 vtpl2 vtpl_end2
                 (p_field1 + va_lenlen (drop p_field1 vtpl1) + unat len1)
                 (p_field2 + va_lenlen (drop p_field2 vtpl2) + unat len2)
             else comp_res
     else if p_field1 \<le> vtpl_end1 then 1
     else if p_field2 \<le> vtpl_end2 then - 1
     else 0)"
  by pat_completeness auto
termination
  by (relation "measure (\<lambda>(_, end1, _, _, p1, _). Suc end1 - p1)") (auto simp: va_lenlen_def)

declare vtpl_compare_loop.simps [simp del]

definition vtpl_compare :: "vtpl_t \<Rightarrow> vtpl_t \<Rightarrow> int" where
  "vtpl_compare vtpl1 vtpl2 =
    (let vtpl_len1 = va_netlen vtpl1; (p_field1, vtpl_end1) = vtpl_bounds vtpl1;
         vtpl_len2 = va_netlen vtpl2; (p_field2, vtpl_end2) = vtpl_bounds vtpl2
     in if vtpl_len1 \<le> 1 \<or> vtpl_len2 \<le> 1 then sint (vtpl_len1 - vtpl_len2)
        else vtpl_compare_loop vtpl1 vtpl_end1 vtpl2 vtpl_end2 p_field1 p_field2)"

definition vtpl_equal :: "vtpl_t \<Rightarrow> vtpl_t \<Rightarrow> bool" where
  "vtpl_equal vtpl1 vtpl2 =
    (let len1 = va_grosslen vtpl1; len2 = va_grosslen vtpl2
     in if len1 \<noteq> len2 then False else SsMemcmp vtpl1 vtpl2 (unat len1) = 0)"

subsection \<open>With conditions\<close>

definition VTPL_CMP_ASC :: nat where "VTPL_CMP_ASC = 0"
definition VTPL_CMP_DESC_NC_START :: nat where "VTPL_CMP_DESC_NC_START = 1"
definition VTPL_CMP_DESC :: nat where "VTPL_CMP_DESC = 2"

text \<open>
  The loop over the conditions, with the fields where it stopped. The length difference of the two
  unsigned lengths is cast to \<^verbatim>\<open>int\<close>.
\<close>

fun condcompare_loop :: "nat list \<Rightarrow> u8 list \<Rightarrow> u8 list \<Rightarrow> nat \<Rightarrow> int \<times> nat \<times> u8 list \<times> u8 list" where
  "condcompare_loop [] va1 va2 cond = (0, cond, va1, va2)"
| "condcompare_loop (c # cs) va1 va2 cond =
    (let (p1, l1) = va_getdata va1; (p2, l2) = va_getdata va2; l = unat (min l1 l2);
         cmp = (if l \<noteq> 0 then SsMemcmp p1 p2 l else 0)
     in if cmp = 0
        then let cmp = sint (l1 - l2) in
          if cmp \<noteq> 0 then (cmp, c, va1, va2)
          else condcompare_loop cs (drop (unat l1) p1) (drop (unat l2) p2) c
        else (cmp, c, va1, va2))"

text \<open>\<open>condarr\<close> holds the number of the conditions and then the conditions.\<close>

definition vtpl_condcompare :: "vtpl_t \<Rightarrow> vtpl_t \<Rightarrow> nat list \<Rightarrow> int" where
  "vtpl_condcompare vtpl1 vtpl2 condarr =
    (let va1 = fst (va_getdata vtpl1); va2 = fst (va_getdata vtpl2);
         (cmp, cond, va1, va2) = condcompare_loop (take (hd condarr) (tl condarr)) va1 va2 (hd condarr)
     in if cmp \<noteq> 0 \<and> cond \<noteq> VTPL_CMP_ASC
        then if cond \<noteq> VTPL_CMP_DESC_NC_START \<or> (va1 ! 0 \<noteq> 0 \<and> va2 ! 0 \<noteq> 0) then - cmp else cmp
        else cmp)"

subsection \<open>Characters\<close>

text \<open>\<^verbatim>\<open>va_compare_char1v2\<close>: 8-bit characters against 16-bit ones, both with a byte behind them.\<close>

fun char1v2_loop :: "nat \<Rightarrow> u8 list \<Rightarrow> u8 list \<Rightarrow> int" where
  "char1v2_loop 0 data1 data2 = 0"
| "char1v2_loop (Suc len) data1 data2 =
    (let comp = uint (hd data1) - uint (SS_CHAR2_LOAD data2)
     in if comp \<noteq> 0 then comp else char1v2_loop len (tl data1) (drop 2 data2))"

definition va_compare_char1v2 :: "u8 list \<Rightarrow> u8 list \<Rightarrow> int" where
  "va_compare_char1v2 va1 va2 =
    (let (data1, len1) = va_getdata va1; (data2, len2) = va_getdata va2 in
     if len1 = 0 \<or> len2 = 0 then sint (len1 - len2)
     else let len2 = len2 div 2; len1 = len1 - 1;
              comp = char1v2_loop (unat (min len1 len2)) data1 data2
          in if comp \<noteq> 0 then comp else sint (len1 - len2))"

definition va_compare_char2v1 :: "u8 list \<Rightarrow> u8 list \<Rightarrow> int" where
  "va_compare_char2v1 va1 va2 = - va_compare_char1v2 va2 va1"

section \<open>The encoding\<close>

definition fields_bytes :: "u8 list list \<Rightarrow> u8 list" where
  "fields_bytes fs = concat (map va_encode fs)"

definition vtpl_encode :: "u8 list list \<Rightarrow> vtpl_t" where
  "vtpl_encode fs = va_encode (fields_bytes fs)"

definition vtpl_fits :: "u8 list list \<Rightarrow> bool" where
  "vtpl_fits fs \<longleftrightarrow> length (fields_bytes fs) < 2147483648"

lemma fields_bytes_simps [simp]:
  "fields_bytes [] = []" "fields_bytes (f # fs) = va_encode f @ fields_bytes fs"
  "fields_bytes (fs @ gs) = fields_bytes fs @ fields_bytes gs"
  by (simp_all add: fields_bytes_def)

lemma encode_nonempty [simp]: "0 < length (va_encode d)" "va_encode d \<noteq> []"
  by (simp_all add: encode_length va_encode_def va_lenfield_def)

lemma vtpl_fits_fields: "vtpl_fits fs \<Longrightarrow> f \<in> set fs \<Longrightarrow> va_cmpable f"
proof (induction fs)
  case (Cons g fs)
  then show ?case
    by (auto simp: vtpl_fits_def va_cmpable_def encode_length split: if_splits)
qed simp

lemma vtpl_fits_va: "vtpl_fits fs \<Longrightarrow> va_fits (fields_bytes fs)"
  by (simp add: vtpl_fits_def va_fits_def)

lemma vtpl_fits_Cons: "vtpl_fits (f # fs) \<Longrightarrow> va_cmpable f \<and> vtpl_fits fs"
  using vtpl_fits_fields [of "f # fs" f] by (simp add: vtpl_fits_def)

lemma vtpl_bounds_encode:
  assumes "va_fits d"
  shows "vtpl_bounds (va_encode d @ x) = (length (va_lenfield (length d)), length (va_lenfield (length d)) + length d - 1)"
  using assms
  by (simp add: vtpl_bounds_def va_encode_def lenfield_simps va_fits_def unat_word_of_nat32)

section \<open>The order\<close>

lemma encode_pos: "0 < length (va_lenfield n)"
  by (simp add: va_lenfield_def)

lemma getdata_at:
  assumes "va_fits f" "p = length pre"
  shows "va_getdata (drop p (pre @ va_encode f @ x)) = (f @ x, word_of_nat (length f))"
    "p + va_lenlen (drop p (pre @ va_encode f @ x)) + unat (word_of_nat (length f) :: u32) = length (pre @ va_encode f)"
proof -
  show "va_getdata (drop p (pre @ va_encode f @ x)) = (f @ x, word_of_nat (length f))"
    using assms by simp
  have "va_lenlen (va_encode f @ x) + length f = length (va_encode f)"
    using assms(1) by (simp add: encode_length)
  then show "p + va_lenlen (drop p (pre @ va_encode f @ x)) + unat (word_of_nat (length f) :: u32) = length (pre @ va_encode f)"
    using assms by (simp add: unat_word_of_nat32 va_fits_def)
qed

lemma end_reached:
  assumes "p = length pre" "Suc e = length (pre @ fields_bytes fs)"
  shows "p \<le> e \<longleftrightarrow> fs \<noteq> []"
proof (cases fs)
  case (Cons f fs')
  then show ?thesis
    using assms encode_length [of f] by (simp split: if_splits)
qed (use assms in auto)

lemma word_of_nat32_inject:
  "m < 4294967296 \<Longrightarrow> n < 4294967296 \<Longrightarrow> (word_of_nat m :: u32) = word_of_nat n \<longleftrightarrow> m = n"
  by (metis unat_word_of_nat32)

lemma compare_loop_order:
  assumes "vtpl_fits fs" "vtpl_fits gs" "p1 = length pre1" "p2 = length pre2"
    and "Suc end1 = length (pre1 @ fields_bytes fs)" "Suc end2 = length (pre2 @ fields_bytes gs)"
  shows "sgn (vtpl_compare_loop (pre1 @ fields_bytes fs @ x) end1 (pre2 @ fields_bytes gs @ y) end2 p1 p2) = three_way fs gs"
  using assms
proof (induction fs arbitrary: gs pre1 pre2 p1 p2)
  case Nil
  then show ?case
    using end_reached [OF Nil.prems(4,6)] end_reached [OF Nil.prems(3) Nil.prems(5)]
    by (subst vtpl_compare_loop.simps) (cases gs, auto simp: three_way_def)
next
  case (Cons f fs)
  show ?case
  proof (cases gs)
    case Nil
    then show ?thesis
      using end_reached [OF Cons.prems(4,6)] end_reached [OF Cons.prems(3) Cons.prems(5)] by (subst vtpl_compare_loop.simps) (auto simp: three_way_def)
  next
    case gs: (Cons g gs')
    let ?x = "fields_bytes fs @ x" and ?y = "fields_bytes gs' @ y"
    have fg: "va_cmpable f" "va_cmpable g" "va_fits f" "va_fits g" "vtpl_fits fs" "vtpl_fits gs'"
      using vtpl_fits_Cons [OF Cons.prems(1)] vtpl_fits_Cons [of g gs'] Cons.prems(2) gs va_cmpable_fits by auto
    let ?c = "SsMemcmp (f @ ?x) (g @ ?y) (min (length f) (length g))"
    have min: "unat (min (word_of_nat (length f)) (word_of_nat (length g)) :: u32) = min (length f) (length g)"
      using fg(1,2) by (auto simp: min_def word_le_nat_alt unat_word_of_nat32 va_cmpable_def)
    have neq: "(word_of_nat (length f) :: u32) \<noteq> word_of_nat (length g) \<longleftrightarrow> length f \<noteq> length g"
      using fg(1,2) word_of_nat32_inject [of "length f" "length g"] by (simp add: va_cmpable_def)
    have cmp: "sgn (if ?c = 0 then sint (word_of_nat (length f) - word_of_nat (length g) :: u32) else ?c) = three_way f g"
      using va_compare_lexicographic [OF fg(1,2), of ?x ?y] fg(3,4)
      by (simp only: va_compare_def getdata_encode Let_def prod.case min)
    have "vtpl_compare_loop (pre1 @ fields_bytes (f # fs) @ x) end1 (pre2 @ fields_bytes gs @ y) end2 p1 p2 =
      (if ?c = 0 then if length f \<noteq> length g then sint (word_of_nat (length f) - word_of_nat (length g) :: u32)
         else vtpl_compare_loop ((pre1 @ va_encode f) @ ?x) end1 ((pre2 @ va_encode g) @ ?y) end2
           (length (pre1 @ va_encode f)) (length (pre2 @ va_encode g))
       else ?c)"
    proof -
      have le: "p1 \<le> end1" "p2 \<le> end2"
        using end_reached [OF Cons.prems(4,6)] end_reached [OF Cons.prems(3) Cons.prems(5)] gs by simp_all
      show ?thesis
        by (subst vtpl_compare_loop.simps)
          (simp only: le conj_absorb if_True gs fields_bytes_simps append_assoc getdata_at [OF fg(3) Cons.prems(3)]
            getdata_at [OF fg(4) Cons.prems(4)] Let_def prod.case min neq simp_thms)
    qed
    moreover have "sgn (vtpl_compare_loop ((pre1 @ va_encode f) @ ?x) end1 ((pre2 @ va_encode g) @ ?y) end2
        (length (pre1 @ va_encode f)) (length (pre2 @ va_encode g))) = three_way fs gs'"
      using Cons.IH [OF fg(5,6) refl refl, of "pre1 @ va_encode f" "pre2 @ va_encode g"] Cons.prems(5,6) gs by simp
    moreover have "f = g" if "?c = 0" "length f = length g"
      using cmp that by (auto simp: three_way_def split: if_splits)
    moreover have "three_way (f # fs) (g # gs') = (if f = g then three_way fs gs' else three_way f g)"
      by (auto simp: three_way_def)
    moreover have "f \<noteq> g" if "?c \<noteq> 0 \<or> length f \<noteq> length g"
      using that cmp by auto
    ultimately show ?thesis
      using cmp by (auto simp: gs split: if_splits)
  qed
qed

lemma netlen_vtpl: "vtpl_fits fs \<Longrightarrow> va_netlen (vtpl_encode fs @ x) = word_of_nat (length (fields_bytes fs))"
  by (simp add: vtpl_encode_def vtpl_fits_va)

lemma fields_bytes_short:
  "length (fields_bytes fs) = 0 \<longleftrightarrow> fs = []" "length (fields_bytes fs) = 1 \<longleftrightarrow> fs = [[]]"
proof -
  show "length (fields_bytes fs) = 0 \<longleftrightarrow> fs = []"
    by (cases fs) auto
  show "length (fields_bytes fs) = 1 \<longleftrightarrow> fs = [[]]"
  proof (cases fs)
    case (Cons f gs)
    then show ?thesis
      using encode_nonempty(1) [of f] encode_length [of f]
      by (cases gs) (auto simp: encode_length split: if_splits)
  qed simp
qed

lemma fields_bytes_long: "Suc 0 < length (fields_bytes fs) \<longleftrightarrow> fs \<noteq> [] \<and> fs \<noteq> [[]]"
  using fields_bytes_short [of fs] by linarith

lemma short_order:
  "[] < fs \<longleftrightarrow> fs \<noteq> []" "fs < [[]] \<longleftrightarrow> fs = []" "[[]] < fs \<longleftrightarrow> fs \<noteq> [] \<and> fs \<noteq> [[]]"
  for fs :: "u8 list list"
proof -
  show "[] < fs \<longleftrightarrow> fs \<noteq> []"
    by (cases fs) auto
  show "fs < [[]] \<longleftrightarrow> fs = []"
    by (cases fs) auto
  show "[[]] < fs \<longleftrightarrow> fs \<noteq> [] \<and> fs \<noteq> [[]]"
  proof (cases fs)
    case (Cons f gs)
    then show ?thesis
      by (cases f; cases gs) auto
  qed simp
qed

lemma vtpl_compare_lex:
  assumes "vtpl_fits fs" "vtpl_fits gs"
  shows "sgn (vtpl_compare (vtpl_encode fs @ x) (vtpl_encode gs @ y)) = three_way fs gs"
proof -
  let ?m = "length (fields_bytes fs)" and ?n = "length (fields_bytes gs)"
  have len: "va_netlen (vtpl_encode fs @ x) = word_of_nat ?m" "va_netlen (vtpl_encode gs @ y) = word_of_nat ?n"
    using netlen_vtpl assms by auto
  have one: "(word_of_nat n :: u32) \<le> 1 \<longleftrightarrow> n \<le> 1" if "n < 2147483648" for n
    using that unat_word_of_nat32 [of n] by (simp add: word_le_nat_alt)
  have b: "?m < 2147483648" "?n < 2147483648"
    using assms by (simp_all add: vtpl_fits_def)
  show ?thesis
  proof (cases "?m \<le> 1 \<or> ?n \<le> 1")
    case True
    have "uint (word_of_nat ?m :: u32) = int ?m" "uint (word_of_nat ?n :: u32) = int ?n"
      using b by (simp_all add: unsigned_of_nat take_bit_nat_eq_self)
    then have "sint (word_of_nat ?m - word_of_nat ?n :: u32) = int ?m - int ?n"
      using b by (simp add: sint_sub32 wrap32_small)
    moreover have "sgn (int ?m - int ?n) = three_way fs gs"
    proof -
      consider "fs = []" | "fs = [[]]" | "gs = []" | "gs = [[]]"
        using True fields_bytes_short [of fs] fields_bytes_short [of gs] by linarith
      then show ?thesis
        using fields_bytes_long [of fs] fields_bytes_long [of gs] short_order [of fs] short_order [of gs]
        by cases (auto simp: three_way_def sgn_if encode_length)
    qed
    ultimately show ?thesis
      using True b by (simp add: vtpl_compare_def len one Let_def split: prod.splits)
  next
    case False
    let ?a = "va_lenfield ?m" and ?b = "va_lenfield ?n"
    have "vtpl_compare (vtpl_encode fs @ x) (vtpl_encode gs @ y) =
        vtpl_compare_loop (?a @ fields_bytes fs @ x) (length ?a + ?m - 1) (?b @ fields_bytes gs @ y) (length ?b + ?n - 1)
          (length ?a) (length ?b)"
      using False b assms vtpl_fits_va
      by (simp add: vtpl_compare_def len one Let_def vtpl_encode_def vtpl_bounds_encode) (simp add: va_encode_def)
    then show ?thesis
      using compare_loop_order [OF assms, of "length ?a" ?a "length ?b" ?b "length ?a + ?m - 1" "length ?b + ?n - 1" x y]
        encode_pos [of ?m] encode_pos [of ?n] by simp
  qed
qed

text \<open>The order interface of the prelude, on a v-tuple and what follows it in memory.\<close>

interpretation vtpl_order: cmp_order "\<lambda>v w. vtpl_compare (vtpl_encode (fst v) @ snd v) (vtpl_encode (fst w) @ snd w)"
  "\<lambda>v. vtpl_fits (fst v)" "fst :: u8 list list \<times> u8 list \<Rightarrow> u8 list list"
  by unfold_locales (rule vtpl_compare_lex)

text \<open>
  C33. On v-tuples of at least one field, which is what \<^verbatim>\<open>vtpl_compare\<close> asserts of both arguments, it
  is the lexicographic order of the field lists, fields ordered by their bytes and a proper prefix
  first, in both length formats and also for the v-tuples of one empty field that the code compares
  by their lengths. The lengths fit the formats (\<open>vtpl_fits\<close>); bytes behind a v-tuple do not matter.
\<close>

theorem vtpl_compare_lexicographic:
  assumes "vtpl_fits fs" "vtpl_fits gs" "fs \<noteq> []" "gs \<noteq> []"
  shows "sgn (vtpl_compare (vtpl_encode fs @ x) (vtpl_encode gs @ y)) = three_way fs gs"
  by (rule vtpl_compare_lex [OF assms(1,2)])

text \<open>An empty field before one of a zero byte, and a field of the long format.\<close>

theorem vtpl_compare_lexicographic_witness:
  "sgn (vtpl_compare (vtpl_encode [[], [7]] @ []) (vtpl_encode [[0], replicate 254 1] @ [])) = - 1"
  using vtpl_compare_lexicographic [of "[[], [7]]" "[[0], replicate 254 1]" "[]" "[]"]
  by (simp add: vtpl_fits_def encode_length three_way_def)

end
