(* ===== verification/Vtpl_Order.thy ===== *)
theory Vtpl_Order
  imports Vtpl
begin

text \<open>
  The specification of prefix compression, on lists of fields. In a sequence of ascending v-tuples each
  is kept as the index of the first byte in which it differs from the one before and the part from
  there on; the index counts the bytes of the fields and one more for each field boundary passed.
\<close>

section \<open>Common prefixes\<close>

fun lcp :: "'a list \<Rightarrow> 'a list \<Rightarrow> nat" where
  "lcp (x # xs) (y # ys) = (if x = y then Suc (lcp xs ys) else 0)"
| "lcp _ _ = 0"

lemma lcp_le: "lcp xs ys \<le> length xs" "lcp xs ys \<le> length ys"
  by (induction xs ys rule: lcp.induct) auto

lemma lcp_take: "take (lcp xs ys) xs = take (lcp xs ys) ys"
  by (induction xs ys rule: lcp.induct) auto

lemma lcp_refl [simp]: "lcp xs xs = length xs"
  by (induction xs) auto

lemma lcp_commute: "lcp xs ys = lcp ys xs"
  by (induction xs ys rule: lcp.induct) auto

lemma lcp_append [simp]: "lcp (w @ xs) (w @ ys) = length w + lcp xs ys"
  by (induction w) auto

lemma lcp_split: "take (lcp xs ys) xs @ drop (lcp xs ys) ys = ys"
  by (subst lcp_take) (rule append_take_drop_id)

text \<open>What follows the common prefix of a list and a greater one.\<close>

lemma lcp_less:
  assumes "xs < (ys :: 'a::linorder list)"
  shows "lcp xs ys < length ys" "lcp xs ys < length xs \<Longrightarrow> xs ! lcp xs ys < ys ! lcp xs ys"
  using assms by (induction xs ys rule: lcp.induct) auto

lemma lcp_less_iff:
  "lcp xs ys < length xs \<Longrightarrow> lcp xs ys < length ys \<Longrightarrow> xs < ys \<longleftrightarrow> xs ! lcp xs ys < (ys ! lcp xs ys :: 'a::linorder)"
  by (induction xs ys rule: lcp.induct) auto

lemma nth_lcp: "i < lcp xs ys \<Longrightarrow> xs ! i = ys ! i"
  by (induction xs ys arbitrary: i rule: lcp.induct) (auto simp: nth_Cons split: nat.splits if_splits)

lemma lcp_eqI:
  "i \<le> length xs \<Longrightarrow> i \<le> length ys \<Longrightarrow> \<forall>j<i. xs ! j = ys ! j \<Longrightarrow>
    i < length xs \<and> i < length ys \<longrightarrow> xs ! i \<noteq> ys ! i \<Longrightarrow> lcp xs ys = i"
proof (induction i arbitrary: xs ys)
  case 0
  then show ?case
    by (cases xs; cases ys) auto
next
  case (Suc i)
  then obtain x xs' y ys' where l: "xs = x # xs'" "ys = y # ys'"
    by (cases xs; cases ys) auto
  have "x = y" "\<forall>j<i. xs' ! j = ys' ! j"
    using Suc.prems(3) l by fastforce+
  then show ?case
    using Suc.IH [of xs' ys'] Suc.prems l by simp
qed

section \<open>Compression and expansion\<close>

text \<open>\<open>cmpr prev next\<close>: the index of the mismatch and the fields from there on.\<close>

fun cmpr :: "'a list list \<Rightarrow> 'a list list \<Rightarrow> nat \<times> 'a list list" where
  "cmpr (p # ps) (n # ns) =
    (if p \<noteq> n then (lcp p n, drop (lcp p n) n # ns)
     else if ns = [] then (length n, [[]])
     else if ps = [] then (length n + 1, ns)
     else (length n + 1 + fst (cmpr ps ns), snd (cmpr ps ns)))"
| "cmpr _ ns = (0, ns)"

fun expd :: "'a list list \<Rightarrow> nat \<Rightarrow> 'a list list \<Rightarrow> 'a list list" where
  "expd (p # ps) i (c # cs) =
    (if i \<le> length p then (take i p @ c) # cs
     else if i - (length p + 1) = 0 then p # c # cs
     else p # expd ps (i - (length p + 1)) (c # cs))"
| "expd _ i cs = cs"

lemma cmpr_nonempty: "ns \<noteq> [] \<Longrightarrow> snd (cmpr ps ns) \<noteq> []"
  by (induction ps ns rule: cmpr.induct) auto

lemma cmpr_pos: "ps \<noteq> [] \<Longrightarrow> ns \<noteq> [] \<Longrightarrow> fst (cmpr ps ns) = 0 \<Longrightarrow> expd ps 0 (snd (cmpr ps ns)) = snd (cmpr ps ns)"
  by (cases ps; cases ns) (auto split: if_splits)

lemma expd_cmpr:
  assumes "prev \<noteq> []" "next \<noteq> []"
  shows "expd prev (fst (cmpr prev next)) (snd (cmpr prev next)) = next"
  using assms
proof (induction prev "next" rule: cmpr.induct)
  case (1 p ps n ns)
  show ?case
  proof (cases "p = n")
    case False
    then show ?thesis
      using lcp_le(1) [of p n] lcp_split [of p n] by simp
  next
    case True
    show ?thesis
    proof (cases "ns = [] \<or> ps = []")
      case True
      then show ?thesis
        using \<open>p = n\<close> by (cases ns) auto
    next
      case False
      obtain c cs where c: "snd (cmpr ps ns) = c # cs"
        using cmpr_nonempty [of ns ps] False by (cases "snd (cmpr ps ns)") auto
      have "expd ps (fst (cmpr ps ns)) (c # cs) = ns"
        using 1(1) True False c by simp
      moreover have "c # cs = ns" if "fst (cmpr ps ns) = 0"
        using cmpr_pos [of ps ns] that calculation c False by (cases ps) auto
      ultimately show ?thesis
        using True False c by auto
    qed
  qed
qed simp_all

section \<open>The search\<close>

lemma cmpr_same_field: "ns \<noteq> [] \<Longrightarrow> ps \<noteq> [] \<Longrightarrow> cmpr (p # ps) (p # ns) = (length p + 1 + fst (cmpr ps ns), snd (cmpr ps ns))"
  by simp

lemma cmpr_field_prefix:
  "cmpr ((w @ b) # vs) ((w @ a) # ks) =
    (length w + fst (cmpr (b # vs) (a # ks)), snd (cmpr (b # vs) (a # ks)))"
  by auto

lemma field_order:
  assumes "(p :: 'a::linorder list) < k" "p < v"
  shows "lcp p k = lcp p v \<Longrightarrow> k = take (lcp p k) p @ drop (lcp p k) k \<and> v = take (lcp p k) p @ drop (lcp p k) v"
    "lcp p k < lcp p v \<Longrightarrow> v < k \<and> lcp v k = lcp p k"
proof -
  show "k = take (lcp p k) p @ drop (lcp p k) k \<and> v = take (lcp p k) p @ drop (lcp p k) v" if "lcp p k = lcp p v"
    using lcp_split [of p k] lcp_split [of p v] that by simp
  assume l: "lcp p k < lcp p v"
  let ?i = "lcp p k"
  have i: "?i < length p" "?i < length v" "?i < length k"
    using l lcp_le [of p v] lcp_less(1) [OF assms(1)] by auto
  have "v ! ?i = p ! ?i" "p ! ?i < k ! ?i"
    using nth_lcp [OF l] lcp_less(2) [OF assms(1) i(1)] by simp_all
  moreover have "lcp v k = ?i"
  proof (rule lcp_eqI)
    show "\<forall>j<?i. v ! j = k ! j"
      using nth_lcp [of _ p k] nth_lcp [of _ p v] l by (metis order_less_trans)
  qed (use i calculation in auto)
  ultimately show "v < k \<and> lcp v k = ?i"
    using i lcp_less_iff [of v k] by simp
qed

lemma append_less [simp]: "w @ a < w @ b \<longleftrightarrow> a < (b :: 'a::linorder list)"
  by (induction w) auto

lemma search_order_aux:
  fixes t :: "'a::linorder list list"
  assumes "t \<noteq> []" "t < key" "t < u"
  shows "(fst (cmpr t key) = fst (cmpr t u) \<longrightarrow>
      three_way key u = three_way (snd (cmpr t key)) (snd (cmpr t u)) \<and>
      cmpr u key = (fst (cmpr t key) + fst (cmpr (snd (cmpr t u)) (snd (cmpr t key))),
        snd (cmpr (snd (cmpr t u)) (snd (cmpr t key))))) \<and>
    (fst (cmpr t key) < fst (cmpr t u) \<longrightarrow> u < key \<and> cmpr u key = cmpr t key)"
  using assms
proof (induction t arbitrary: key u)
  case (Cons p ps)
  obtain k ks where key: "key = k # ks"
    using Cons.prems(2) by (cases key) auto
  obtain v vs where u: "u = v # vs"
    using Cons.prems(3) by (cases u) auto
  consider (AA) "p < k" "p < v" | (AC) "p < k" "v = p" "ps < vs" | (CA) "k = p" "p < v" "ps < ks" | (CC) "k = p" "v = p" "ps < ks" "ps < vs"
    using Cons.prems(2,3) key u by auto
  then show ?case
  proof cases
    case AA
    have cm: "cmpr (p # ps) key = (lcp p k, drop (lcp p k) k # ks)" "cmpr (p # ps) u = (lcp p v, drop (lcp p v) v # vs)"
        "cmpr u key = (if v = k then cmpr u key else (lcp v k, drop (lcp v k) k # ks))"
      using AA key u by auto
    show ?thesis
    proof (intro conjI impI)
      assume "fst (cmpr (p # ps) key) = fst (cmpr (p # ps) u)"
      then have i: "lcp p k = lcp p v"
        by (simp add: cm(1,2))
      let ?i = "lcp p k"
      obtain w a b where w: "length w = ?i" "k = w @ a" "v = w @ b" "drop ?i k = a" "drop ?i v = b"
        using field_order(1) [OF AA i] lcp_le(1) [of p k] i by (metis length_take min.absorb2)
      have s: "snd (cmpr (p # ps) key) = a # ks" "snd (cmpr (p # ps) u) = b # vs" "fst (cmpr (p # ps) key) = length w"
        using w i by (simp_all add: cm(1,2))
      show "three_way key u = three_way (snd (cmpr (p # ps) key)) (snd (cmpr (p # ps) u))"
        unfolding s by (simp add: three_way_def key u w)
      show "cmpr u key = (fst (cmpr (p # ps) key) + fst (cmpr (snd (cmpr (p # ps) u)) (snd (cmpr (p # ps) key))),
          snd (cmpr (snd (cmpr (p # ps) u)) (snd (cmpr (p # ps) key))))"
        unfolding s unfolding key u w(2,3) by (rule cmpr_field_prefix)
    next
      assume "fst (cmpr (p # ps) key) < fst (cmpr (p # ps) u)"
      then have "v < k \<and> lcp v k = lcp p k"
        using cm(1,2) by (intro field_order(2) [OF AA]) simp
      then show "u < key" "cmpr u key = cmpr (p # ps) key"
        using cm(1) key u by auto
    qed
  next
    case AC
    have "lcp p k \<le> length p"
      by (rule lcp_le)
    then show ?thesis
      using AC key u by (auto simp: three_way_def)
  next
    case CA
    have "lcp p v \<le> length p"
      by (rule lcp_le)
    then show ?thesis
      using CA key u by auto
  next
    case CC
    then have ne: "ks \<noteq> []" "vs \<noteq> []"
      by auto
    show ?thesis
    proof (cases "ps = []")
      case True
      then show ?thesis
        using CC ne key u by (auto simp: three_way_def)
    next
      case False
      have "three_way key u = three_way ks vs"
        using CC key u by (auto simp: three_way_def)
      then show ?thesis
        using Cons.IH [OF False CC(3,4)] CC ne False key u by auto
    qed
  qed
qed simp

lemma search_order:
  fixes t :: "'a::linorder list list"
  assumes "t \<noteq> []" "t < key" "t < u"
  shows "fst (cmpr t key) = fst (cmpr t u) \<Longrightarrow>
      three_way key u = three_way (snd (cmpr t key)) (snd (cmpr t u))"
    "fst (cmpr t key) = fst (cmpr t u) \<Longrightarrow>
      cmpr u key = (fst (cmpr t key) + fst (cmpr (snd (cmpr t u)) (snd (cmpr t key))),
        snd (cmpr (snd (cmpr t u)) (snd (cmpr t key))))"
    "fst (cmpr t key) < fst (cmpr t u) \<Longrightarrow> u < key" "fst (cmpr t key) < fst (cmpr t u) \<Longrightarrow> cmpr u key = cmpr t key"
    "fst (cmpr t u) < fst (cmpr t key) \<Longrightarrow> key < u"
  using search_order_aux [OF assms] search_order_aux [OF assms(1,3,2)] by blast+

subsection \<open>Equal v-tuples\<close>

text \<open>
  In a sequence v-tuples may be equal, when what is behind the v-tuples differs. A v-tuple compressed
  against itself is one empty field at its end; one that continues it with more fields gets an index
  behind that end, and the comparison of the indices then says nothing about the order. So a
  v-tuple that occurs twice must not be continued by another one.
\<close>

definition end_index :: "'a list list \<Rightarrow> nat" where
  "end_index fs = sum_list (map length fs) + (length fs - 1)"

lemma cmpr_self: "fs \<noteq> [] \<Longrightarrow> cmpr fs fs = (end_index fs, [[]])"
proof (induction fs)
  case (Cons f fs)
  then show ?case
    by (cases fs) (auto simp: end_index_def)
qed simp

lemma cmpr_not_continued:
  assumes "\<not> strict_prefix t u" "t \<noteq> []" "t < (u :: 'a::linorder list list)"
  shows "fst (cmpr t u) < end_index t \<or> fst (cmpr t u) = end_index t \<and> (\<exists>x xs. x \<noteq> [] \<and> cmpr t u = (end_index t, x # xs) \<and>
    cmpr u t = (end_index t, [[]]))"
  using assms
proof (induction t arbitrary: u)
  case (Cons p ps)
  obtain v vs where u: "u = v # vs"
    using Cons.prems(3) by (cases u) auto
  show ?case
  proof (cases "p < v")
    case True
    have l: "lcp p v \<le> length p" "lcp p v < length v"
      using lcp_le(1) lcp_less(1) [OF True] by auto
    show ?thesis
    proof (cases "ps = []")
      case True
      then show ?thesis
        using \<open>p < v\<close> l u by (cases "lcp p v = length p") (auto simp: end_index_def lcp_commute [of v p])
    next
      case False
      then show ?thesis
        using \<open>p < v\<close> l u by (cases ps) (auto simp: end_index_def)
    qed
  next
    case False
    then have v: "v = p" "ps < vs" "\<not> strict_prefix ps vs"
      using Cons.prems(1,3) u by auto
    moreover have "ps \<noteq> []" "vs \<noteq> []"
      using v(2,3) by (auto simp: strict_prefix_def)
    moreover have "end_index (p # ps) = length p + 1 + end_index ps"
      using \<open>ps \<noteq> []\<close> by (cases ps) (auto simp: end_index_def)
    ultimately show ?thesis
      using Cons.IH [of vs] u by auto
  qed
qed simp

lemma search_order_le:
  fixes t :: "'a::linorder list list"
  assumes "t \<noteq> []" "t \<le> key" "t \<le> u" "t = key \<longrightarrow> \<not> strict_prefix key u" "t = u \<longrightarrow> \<not> strict_prefix u key"
  shows "fst (cmpr t key) = fst (cmpr t u) \<Longrightarrow>
      three_way key u = three_way (snd (cmpr t key)) (snd (cmpr t u))"
    "fst (cmpr t key) = fst (cmpr t u) \<Longrightarrow>
      cmpr u key = (fst (cmpr t key) + fst (cmpr (snd (cmpr t u)) (snd (cmpr t key))),
        snd (cmpr (snd (cmpr t u)) (snd (cmpr t key))))"
    "fst (cmpr t key) < fst (cmpr t u) \<Longrightarrow> u < key" "fst (cmpr t key) < fst (cmpr t u) \<Longrightarrow> cmpr u key = cmpr t key"
    "fst (cmpr t u) < fst (cmpr t key) \<Longrightarrow> key < u"
proof -
  note self = cmpr_self [OF assms(1)]
  have tie: "\<exists>y ys zs. cmpr t w = (end_index t, (y # ys) # zs) \<and> cmpr w t = (end_index t, [[]])"
    if "\<not> strict_prefix t w" "t < w" "fst (cmpr t w) = end_index t" for w
    using cmpr_not_continued [OF that(1) assms(1) that(2)] that(3) by (auto simp: neq_Nil_conv)
  have below: "fst (cmpr t w) \<le> end_index t" if "\<not> strict_prefix t w" "t < w" for w
    using cmpr_not_continued [OF that(1) assms(1) that(2)] by auto
  consider "t = key" "t = u" | "t = key" "t < u" "\<not> strict_prefix t u" | "t < key" "t = u" "\<not> strict_prefix t key" | "t < key" "t < u"
    using assms(2-5) by fastforce
  note cs = this
  show "three_way key u = three_way (snd (cmpr t key)) (snd (cmpr t u))" if eq: "fst (cmpr t key) = fst (cmpr t u)"
    using cs
  proof cases
    case 2
    obtain y ys zs where "cmpr t u = (end_index t, (y # ys) # zs)"
      using tie [OF 2(3,2)] eq [symmetric] self unfolding 2(1) [symmetric] by auto
    then show ?thesis
      using 2(2) self unfolding 2(1) [symmetric] by (simp add: three_way_def)
  next
    case 3
    obtain y ys zs where "cmpr t key = (end_index t, (y # ys) # zs)"
      using tie [OF 3(3,1)] eq self unfolding 3(2) [symmetric] by auto
    then show ?thesis
      using 3(1) self unfolding 3(2) [symmetric] by (auto simp: three_way_def)
  next
    case 4
    then show ?thesis
      using search_order(1) [OF assms(1)] eq by blast
  qed (simp add: three_way_def)
  show "cmpr u key = (fst (cmpr t key) + fst (cmpr (snd (cmpr t u)) (snd (cmpr t key))),
      snd (cmpr (snd (cmpr t u)) (snd (cmpr t key))))" if eq: "fst (cmpr t key) = fst (cmpr t u)"
    using cs
  proof cases
    case 1
    then show ?thesis
      using self by simp
  next
    case 2
    obtain y ys zs where "cmpr t u = (end_index t, (y # ys) # zs)" "cmpr u t = (end_index t, [[]])"
      using tie [OF 2(3,2)] eq [symmetric] self unfolding 2(1) [symmetric] by auto
    then show ?thesis
      using self unfolding 2(1) [symmetric] by simp
  next
    case 3
    obtain y ys zs where "cmpr t key = (end_index t, (y # ys) # zs)"
      using tie [OF 3(3,1)] eq self unfolding 3(2) [symmetric] by auto
    then show ?thesis
      using self unfolding 3(2) [symmetric] by simp
  next
    case 4
    then show ?thesis
      using search_order(2) [OF assms(1)] eq by blast
  qed
  show "u < key" if "fst (cmpr t key) < fst (cmpr t u)"
    using cs
  proof cases
    case 2
    then show ?thesis
      using below [OF 2(3,2)] self that by auto
  next
    case 4
    then show ?thesis
      using search_order(3) [OF assms(1)] that by blast
  qed (use that in auto)
  show "cmpr u key = cmpr t key" if "fst (cmpr t key) < fst (cmpr t u)"
    using cs
  proof cases
    case 2
    then show ?thesis
      using below [OF 2(3,2)] self that by auto
  next
    case 4
    then show ?thesis
      using search_order(4) [OF assms(1)] that by blast
  qed (use that in auto)
  show "key < u" if "fst (cmpr t u) < fst (cmpr t key)"
    using cs
  proof cases
    case 3
    then show ?thesis
      using below [OF 3(3,1)] self that by auto
  next
    case 4
    then show ?thesis
      using search_order(5) [OF assms(1)] that by blast
  qed (use that in auto)
qed

text \<open>
  Neighbours in a sequence of compressed v-tuples, \<open>t = []\<close> before the first: ascending, and no v-tuple
  continued by a later one. \<open>meets t key u\<close> is what a search for \<open>key\<close> that has come past \<open>t\<close> needs at \<open>u\<close>: the key is
  not below \<open>t\<close>, and a v-tuple equal to \<open>t\<close> is not continued by the other one.
\<close>

definition chain_ok :: "'a::linorder list list \<Rightarrow> 'a list list \<Rightarrow> bool" where
  "chain_ok t u \<longleftrightarrow> u \<noteq> [] \<and> (t \<noteq> [] \<longrightarrow> t \<le> u \<and> \<not> strict_prefix t u)"

definition meets :: "'a::linorder list list \<Rightarrow> 'a list list \<Rightarrow> 'a list list \<Rightarrow> bool" where
  "meets t key u \<longleftrightarrow> key \<noteq> [] \<and> (t \<noteq> [] \<longrightarrow> t \<le> key \<and> (t = key \<longrightarrow> \<not> strict_prefix key u) \<and> (t = u \<longrightarrow> \<not> strict_prefix u key))"

lemma chain_ok_nonempty: "chain_ok t u \<Longrightarrow> u \<noteq> []"
  by (simp add: chain_ok_def)

lemma meets_nonempty: "meets t key u \<Longrightarrow> key \<noteq> []"
  by (simp add: meets_def)

lemma between_continued:
  fixes t :: "'a::linorder list"
  assumes "t \<le> u" "u \<le> t @ w"
  shows "prefix t u"
  using assms
proof (induction t arbitrary: u)
  case (Cons a t)
  then show ?case
    by (cases u) auto
qed simp

lemma chain_ok_trans:
  assumes "chain_ok t u" "chain_ok u v"
  shows "chain_ok t v"
proof (cases "t = []")
  case False
  have "u \<noteq> []" "v \<noteq> []" "t \<le> u" "\<not> strict_prefix t u" "u \<le> v" "\<not> strict_prefix u v"
    using assms False by (auto simp: chain_ok_def)
  moreover have "\<not> strict_prefix t v"
  proof
    assume p: "strict_prefix t v"
    then obtain w where "v = t @ w"
      by (auto simp: strict_prefix_def prefix_def)
    then have "prefix t u"
      using between_continued calculation by blast
    then have "t = u"
      using calculation by (auto simp: strict_prefix_def)
    then show False
      using p calculation by simp
  qed
  ultimately show ?thesis
    by (auto simp: chain_ok_def)
qed (use assms in \<open>simp add: chain_ok_def\<close>)

lemma chain_meets: "chain_ok t key \<Longrightarrow> chain_ok t u \<Longrightarrow> meets t key u"
  by (auto simp: chain_ok_def meets_def)

lemma meetsI: "key \<noteq> [] \<Longrightarrow> t \<le> key \<Longrightarrow> chain_ok t u \<Longrightarrow> (t = u \<longrightarrow> \<not> strict_prefix u key) \<Longrightarrow> meets t key u"
  by (auto simp: chain_ok_def meets_def)

text \<open>In a sequence: a v-tuple that occurs twice is not continued by the search key.\<close>

fun twice_apart :: "'a list list \<Rightarrow> 'a list list list \<Rightarrow> bool" where
  "twice_apart key (t # u # us) \<longleftrightarrow> (t = u \<longrightarrow> \<not> strict_prefix u key) \<and> twice_apart key (u # us)"
| "twice_apart key us \<longleftrightarrow> True"

lemma twice_apart_nth: "twice_apart key us \<Longrightarrow> Suc i < length us \<Longrightarrow> us ! i = us ! Suc i \<Longrightarrow> \<not> strict_prefix (us ! Suc i) key"
proof (induction key us arbitrary: i rule: twice_apart.induct)
  case (1 key t u us)
  then show ?case
    by (cases i) auto
qed auto

lemma twice_apart_simple: "(\<forall>u\<in>set us. \<not> strict_prefix u key) \<Longrightarrow> twice_apart key us"
  by (induction key us rule: twice_apart.induct) auto

lemma search_order_chain:
  fixes t :: "'a::linorder list list"
  assumes "meets t key u" "chain_ok t u"
  shows "fst (cmpr t key) = fst (cmpr t u) \<Longrightarrow>
      three_way key u = three_way (snd (cmpr t key)) (snd (cmpr t u))"
    "fst (cmpr t key) = fst (cmpr t u) \<Longrightarrow>
      cmpr u key = (fst (cmpr t key) + fst (cmpr (snd (cmpr t u)) (snd (cmpr t key))),
        snd (cmpr (snd (cmpr t u)) (snd (cmpr t key))))"
    "fst (cmpr t key) < fst (cmpr t u) \<Longrightarrow> u < key" "fst (cmpr t key) < fst (cmpr t u) \<Longrightarrow> cmpr u key = cmpr t key"
    "fst (cmpr t u) < fst (cmpr t key) \<Longrightarrow> key < u"
proof -
  have le: "t \<le> key" "t \<le> u" "t = key \<longrightarrow> \<not> strict_prefix key u" "t = u \<longrightarrow> \<not> strict_prefix u key" if "t \<noteq> []"
    using assms that by (auto simp: chain_ok_def meets_def)
  note o = search_order_le [OF _ le]
  show "three_way key u = three_way (snd (cmpr t key)) (snd (cmpr t u))" if "fst (cmpr t key) = fst (cmpr t u)"
    using o(1) that by (cases "t = []") (simp, blast)
  show "cmpr u key = (fst (cmpr t key) + fst (cmpr (snd (cmpr t u)) (snd (cmpr t key))),
      snd (cmpr (snd (cmpr t u)) (snd (cmpr t key))))" if "fst (cmpr t key) = fst (cmpr t u)"
    using o(2) that by (cases "t = []") (simp, blast)
  show "u < key" "cmpr u key = cmpr t key" if "fst (cmpr t key) < fst (cmpr t u)"
    using o(3,4) that by (cases "t = []"; simp; blast)+
  show "key < u" if "fst (cmpr t u) < fst (cmpr t key)"
    using o(5) that by (cases "t = []") (simp, blast)
qed

lemma append_le: "w \<le> w @ (b :: 'a::linorder list)"
  by (induction w) auto

section \<open>Separators\<close>

text \<open>
  The split v-tuple of two neighbours: what they share, and one byte more of the greater one, or an
  empty field where the smaller one ends.
\<close>

fun split_fields :: "'a list list \<Rightarrow> nat \<Rightarrow> 'a list list \<Rightarrow> 'a list list" where
  "split_fields (p # ps) i (c # cs) =
    (if i \<le> length p then [take i p @ take 1 c]
     else if i - (length p + 1) = 0 then if ps = [] then [p, []] else [p, take 1 c]
     else p # split_fields ps (i - (length p + 1)) (c # cs))"
| "split_fields _ i cs = cs"

lemma split_between:
  fixes t :: "'a::linorder list list"
  assumes "t \<noteq> []" "t < u"
  shows "t < split_fields t (fst (cmpr t u)) (snd (cmpr t u)) \<and>
    split_fields t (fst (cmpr t u)) (snd (cmpr t u)) \<le> u"
  using assms
proof (induction t arbitrary: u)
  case (Cons p ps)
  obtain v vs where u: "u = v # vs"
    using Cons.prems(2) by (cases u) auto
  show ?case
  proof (cases "p < v")
    case True
    let ?i = "lcp p v"
    have i: "?i < length v" "?i < length p \<Longrightarrow> p ! ?i < v ! ?i" "?i \<le> length p"
      using lcp_less [OF True] lcp_le(1) by auto
    have v: "v = take ?i p @ [v ! ?i] @ drop (Suc ?i) v"
      using lcp_split [of p v] i(1) by (simp add: Cons_nth_drop_Suc)
    have s: "take ?i p @ take 1 (drop ?i v) = take ?i p @ [v ! ?i]"
      using i(1) by (simp add: Cons_nth_drop_Suc [symmetric])
    have "p < take ?i p @ [v ! ?i]"
    proof -
      have "p = take ?i p @ drop ?i p"
        by simp
      moreover have "drop ?i p < [v ! ?i]"
        using i by (cases "?i = length p") (auto simp: Cons_nth_drop_Suc [symmetric])
      ultimately show ?thesis
        by (metis append_less)
    qed
    moreover have "[take ?i p @ [v ! ?i]] \<le> u"
    proof -
      have "take ?i p @ [v ! ?i] \<le> take ?i p @ [v ! ?i] @ drop (Suc ?i) v"
        using append_le [of "take ?i p @ [v ! ?i]" "drop (Suc ?i) v"] by simp
      then have "take ?i p @ [v ! ?i] \<le> v"
        using v by simp
      then show ?thesis
        using u by auto
    qed
    ultimately show ?thesis
      using True u s i by simp
  next
    case False
    then have v: "v = p" "ps < vs"
      using Cons.prems(2) u by auto
    then have ne: "vs \<noteq> []"
      by auto
    show ?thesis
    proof (cases "ps = []")
      case True
      then show ?thesis
        using v u ne by (cases vs; cases "hd vs") auto
    next
      case False
      obtain c cs where c: "snd (cmpr ps vs) = c # cs"
        using cmpr_nonempty [OF ne, of ps] by (cases "snd (cmpr ps vs)") auto
      have IH: "ps < split_fields ps (fst (cmpr ps vs)) (c # cs)" "split_fields ps (fst (cmpr ps vs)) (c # cs) \<le> vs"
        using Cons.IH [OF False v(2)] c by auto
      have "split_fields ps 0 (c # cs) = [take 1 c]"
        using False by (cases ps) auto
      then show ?thesis
        using v u ne False c IH by auto
    qed
  qed
qed simp

section \<open>The point of mismatch\<close>

text \<open>Where the loop over the fields stops: the fields passed, those left, and the index in the first of them.\<close>

fun expd_point :: "'a list list \<Rightarrow> nat \<Rightarrow> 'a list list \<times> 'a list list \<times> nat" where
  "expd_point [] i = ([], [], 0)"
| "expd_point (p # ps) i =
    (if i \<le> length p then ([], p # ps, i)
     else if i - (length p + 1) = 0 then ([p], ps, 0)
     else (case expd_point ps (i - (length p + 1)) of (a, b, j) \<Rightarrow> (p # a, b, j)))"

definition idx_ok :: "'a list list \<Rightarrow> nat \<Rightarrow> bool" where
  "idx_ok ps i \<longleftrightarrow> i \<le> sum_list (map (\<lambda>p. length p + 1) ps)"

lemma expd_point_facts:
  assumes "expd_point ps i = (a, b, j)" "idx_ok ps i"
  shows "ps = a @ b" "0 < j \<Longrightarrow> b \<noteq> [] \<and> j \<le> length (hd b)"
  using assms
proof (induction ps arbitrary: i a)
  case (Cons p ps)
  { case 1 then show ?case using Cons.IH(1) [of "i - (length p + 1)"]
      by (auto simp: idx_ok_def split: if_splits prod.splits) }
  { case 2 then show ?case using Cons.IH(2) [of "i - (length p + 1)"]
      by (auto simp: idx_ok_def split: if_splits prod.splits) }
qed auto

lemma expd_via_point:
  assumes "expd_point ps i = (a, b, j)" "idx_ok ps i" "ps \<noteq> []"
  shows "expd ps i (c # cs) = a @ (take j (hd b) @ c) # cs"
  using assms
proof (induction ps arbitrary: i a)
  case (Cons p ps)
  show ?case
  proof (cases "i \<le> length p \<or> i - (length p + 1) = 0")
    case True
    then show ?thesis
      using Cons.prems(1) by (auto split: if_splits)
  next
    case False
    obtain a' where a: "expd_point ps (i - (length p + 1)) = (a', b, j)" "a = p # a'"
      using Cons.prems(1) False by (auto split: prod.splits)
    moreover have "idx_ok ps (i - (length p + 1))" "ps \<noteq> []"
      using Cons.prems(2) False by (auto simp: idx_ok_def)
    ultimately show ?thesis
      using Cons.IH False by auto
  qed
qed simp

lemma split_via_point:
  assumes "expd_point ps i = (a, b, j)" "idx_ok ps i" "ps \<noteq> []"
  shows "split_fields ps i (c # cs) = a @ [if b = [] then [] else take j (hd b) @ take 1 c]"
  using assms
proof (induction ps arbitrary: i a)
  case (Cons p ps)
  show ?case
  proof (cases "i \<le> length p \<or> i - (length p + 1) = 0")
    case True
    then show ?thesis
      using Cons.prems(1) by (auto split: if_splits)
  next
    case False
    obtain a' where a: "expd_point ps (i - (length p + 1)) = (a', b, j)" "a = p # a'"
      using Cons.prems(1) False by (auto split: prod.splits)
    moreover have "idx_ok ps (i - (length p + 1))" "ps \<noteq> []"
      using Cons.prems(2) False by (auto simp: idx_ok_def)
    ultimately show ?thesis
      using Cons.IH False by auto
  qed
qed simp

lemma cmpr_idx_ok: "idx_ok ps (fst (cmpr ps ns))"
proof (induction ps ns rule: cmpr.induct)
  case (1 p ps n ns)
  then show ?case
    using lcp_le(1) [of p n] by (auto simp: idx_ok_def)
qed (auto simp: idx_ok_def)

lemma cmpr_point_nonempty:
  fixes t :: "'a::linorder list list"
  assumes "t < u" "t \<noteq> []" "expd_point t (fst (cmpr t u)) = (a, b, j)" "b \<noteq> []"
  shows "hd (snd (cmpr t u)) \<noteq> []"
  using assms
proof (induction t arbitrary: u a)
  case (Cons p ps)
  obtain v vs where u: "u = v # vs"
    using Cons.prems(1) by (cases u) auto
  show ?case
  proof (cases "p < v")
    case True
    then show ?thesis
      using lcp_less(1) [OF True] u by auto
  next
    case False
    then have v: "v = p" "ps < vs" "vs \<noteq> []"
      using Cons.prems(1) u by auto
    show ?thesis
    proof (cases "ps = []")
      case True
      then show ?thesis
        using Cons.prems(3,4) u v by auto
    next
      case False
      note IH = Cons.IH [OF v(2) False _ Cons.prems(4)]
      show ?thesis
      proof (cases "fst (cmpr ps vs) = 0")
        case True
        have "expd_point ps 0 = ([], ps, 0)"
          using False by (cases ps) auto
        then have "b = ps" "j = 0"
          using True Cons.prems(3) u v False by auto
        then show ?thesis
          using IH [of "[]"] True u v False \<open>expd_point ps 0 = ([], ps, 0)\<close> by simp
      next
        case pos: False
        then show ?thesis
          using IH Cons.prems(3) u v False by (auto split: prod.splits)
      qed
    qed
  qed
qed simp

end
