(* ===== verification/Vtpl_Compress.thy ===== *)
theory Vtpl_Compress
  imports Vtpl_Order
begin

text \<open>
  Prefix compression of index entries (\<^verbatim>\<open>uti/uti0vcmp.c\<close>): a v-tuple compressed against the one before
  is written as the part from the first mismatch on, with the index of the mismatch, as the
  specification on lists of fields says.
\<close>

section \<open>Compression\<close>

text \<open>The number of equal bytes the comparing loop passes.\<close>

fun match_bytes :: "nat \<Rightarrow> u8 list \<Rightarrow> u8 list \<Rightarrow> nat" where
  "match_bytes 0 p_prev_data p_next_data = 0"
| "match_bytes (Suc n) p_prev_data p_next_data =
    (if hd p_prev_data \<noteq> hd p_next_data then 0 else Suc (match_bytes n (tl p_prev_data) (tl p_next_data)))"

text \<open>
  The loop over the fields, entered where the next field of \<open>prev\<close> is to be looked up and that of
  \<open>next\<close> has been. The result is the length of the mismatched portion of the field, its offset, and the
  mismatch index.
\<close>

function compress_loop ::
  "vtpl_t \<Rightarrow> nat \<Rightarrow> vtpl_t \<Rightarrow> nat \<Rightarrow> nat \<Rightarrow> nat \<Rightarrow> u32 \<Rightarrow> u32 \<Rightarrow> u32 \<times> nat \<times> u32" where
  "compress_loop prev p_prev_end next p_next_end p_prev_data p_next_data l_next_field i_mismatch =
    (let (d, l_prev_field) = va_getdata (drop p_prev_data prev);
         p_prev_data = p_prev_data + va_lenlen (drop p_prev_data prev);
         len = unat (min l_prev_field l_next_field);
         i = match_bytes len d (drop p_next_data next);
         p_prev_data = p_prev_data + i; p_next_data = p_next_data + i;
         i_mismatch = i_mismatch + word_of_nat i
     in if i < len \<or> l_prev_field \<noteq> l_next_field \<or> p_next_data \<ge> p_next_end
        then (l_next_field - word_of_nat i, p_next_data, i_mismatch)
        else let i_mismatch = i_mismatch + 1; l_next_field = snd (va_getdata (drop p_next_data next));
                 p_next_data' = p_next_data + va_lenlen (drop p_next_data next)
             in if p_prev_data \<ge> p_prev_end then (l_next_field, p_next_data', i_mismatch)
                else compress_loop prev p_prev_end next p_next_end p_prev_data p_next_data' l_next_field i_mismatch)"
  by pat_completeness auto
termination
  by (relation "measure (\<lambda>(_, _, _, p_next_end, _, p_next_data, _, _). p_next_end - p_next_data)")
    (auto simp: va_lenlen_def)

declare compress_loop.simps [simp del]

definition VA_LEN_LEN :: "u32 \<Rightarrow> nat" where
  "VA_LEN_LEN len = (if BYTE_LEN_TEST len then 1 else 5)"

text \<open>\<^verbatim>\<open>SET_FOUR_BYTE_LEN\<close> and \<^verbatim>\<open>VA_SET_LEN_ONLY\<close> at an offset of the buffer.\<close>

definition set_four_byte_len_at :: "nat \<Rightarrow> u8 list \<Rightarrow> u32 \<Rightarrow> u8 list" where
  "set_four_byte_len_at p buf len = take p buf @ SET_FOUR_BYTE_LEN (drop p buf) len"

definition set_len_at :: "nat \<Rightarrow> u8 list \<Rightarrow> u32 \<Rightarrow> u8 list" where
  "set_len_at p buf len = take p buf @ VA_SET_LEN_ONLY (drop p buf) len"

definition make_compressed :: "vtpl_t \<Rightarrow> u32 \<Rightarrow> u8 list \<Rightarrow> nat \<Rightarrow> vtpl_t" where
  "make_compressed target_vtpl l_mismatch p_next_data n =
    (let l_target = word_of_nat (VA_LEN_LEN l_mismatch + n); data = take n p_next_data in
     if BYTE_LEN_TEST l_target
     then buf_write 1 [ucast l_mismatch] (buf_write 0 [ucast l_target] (buf_write 2 data target_vtpl))
     else if BYTE_LEN_TEST l_mismatch
     then buf_write 5 [ucast l_mismatch] (set_four_byte_len_at 0 (buf_write 6 data target_vtpl) l_target)
     else set_four_byte_len_at 5 (set_four_byte_len_at 0 (buf_write 10 data target_vtpl) l_target) l_mismatch)"

definition vtpl_compress :: "vtpl_t \<Rightarrow> vtpl_t \<Rightarrow> vtpl_t \<Rightarrow> vtpl_t \<times> u32" where
  "vtpl_compress target_vtpl prev_vtpl next_vtpl =
    (let p_prev_data = va_lenlen prev_vtpl; l_prev = va_netlen prev_vtpl;
         p_next_data = va_lenlen next_vtpl; l_next = va_netlen next_vtpl;
         p_prev_end = p_prev_data + unat l_prev; p_next_end = p_next_data + unat l_next;
         l_next_field = snd (va_getdata (drop p_next_data next_vtpl));
         (l, p, i_mismatch) = compress_loop prev_vtpl p_prev_end next_vtpl p_next_end p_prev_data
           (p_next_data + va_lenlen (drop p_next_data next_vtpl)) l_next_field 0
     in (make_compressed target_vtpl l (drop p next_vtpl) (p_next_end - p), i_mismatch))"

section \<open>The compressed form\<close>

lemma match_bytes_lcp: "match_bytes (min (length a) (length b)) (a @ x) (b @ y) = lcp a b"
  by (induction a b rule: lcp.induct) auto

lemma min_of_nat32: "m < 4294967296 \<Longrightarrow> n < 4294967296 \<Longrightarrow>
  unat (min (word_of_nat m) (word_of_nat n) :: u32) = min m n"
  by (auto simp: min_def word_le_nat_alt unat_word_of_nat32)

lemma lcp_full: "lcp a b = min (length a) (length b) \<Longrightarrow> length a = length b \<Longrightarrow> a = b"
  using lcp_take [of a b] by simp

lemma vtpl_fits_word: "vtpl_fits (f # fs) \<Longrightarrow> length f < 4294967296"
  using vtpl_fits_Cons [of f fs] by (simp add: va_cmpable_def)

lemma lcp_differs: "lcp p n < min (length p) (length n) \<or> length p \<noteq> length n \<longleftrightarrow> p \<noteq> n"
proof
  assume "p \<noteq> n"
  show "lcp p n < min (length p) (length n) \<or> length p \<noteq> length n"
  proof (rule ccontr)
    assume "\<not> ?thesis"
    then have "lcp p n = min (length p) (length n)" "length p = length n"
      using lcp_le [of p n] by (auto simp: not_less)
    then show False
      using lcp_full \<open>p \<noteq> n\<close> by blast
  qed
qed auto

lemma fields_bytes_Nil_iff: "fields_bytes fs = [] \<longleftrightarrow> fs = []"
  by (cases fs) simp_all

lemma of_nat_diff32: "m \<le> n \<Longrightarrow> (word_of_nat n - word_of_nat m :: u32) = word_of_nat (n - m)"
  by (simp add: of_nat_diff)

text \<open>One round of the loop.\<close>

lemma compress_step:
  assumes "vtpl_fits (p # ps)" "vtpl_fits (n # ns)" "p_prev = length pre1" "p_next = length pre2"
    and "p_prev_end = length (pre1 @ fields_bytes (p # ps))" "p_next_end = length (pre2 @ n @ fields_bytes ns)"
  shows "compress_loop (pre1 @ fields_bytes (p # ps) @ x) p_prev_end (pre2 @ n @ fields_bytes ns @ y) p_next_end
      p_prev p_next (word_of_nat (length n)) i =
    (if p \<noteq> n \<or> ns = [] then (word_of_nat (length n - lcp p n), p_next + lcp p n, i + word_of_nat (lcp p n))
     else let d = length (pre2 @ n @ va_lenfield (length (hd ns))) in
       if ps = [] then (word_of_nat (length (hd ns)), d, i + word_of_nat (length n) + 1)
       else compress_loop (pre1 @ fields_bytes (p # ps) @ x) p_prev_end (pre2 @ n @ fields_bytes ns @ y) p_next_end
         (length (pre1 @ va_encode p)) d (word_of_nat (length (hd ns))) (i + word_of_nat (length n) + 1))"
proof -
  have len: "length p < 4294967296" "length n < 4294967296" and f: "va_fits p" "va_fits n"
    using vtpl_fits_word assms(1,2) vtpl_fits_Cons va_cmpable_fits by blast+
  have g: "va_getdata (drop p_prev (pre1 @ fields_bytes (p # ps) @ x)) = (p @ fields_bytes ps @ x, word_of_nat (length p))"
    "p_prev + va_lenlen (drop p_prev (pre1 @ fields_bytes (p # ps) @ x)) + length p = length (pre1 @ va_encode p)"
    using getdata_at [OF f(1) assms(3), of "fields_bytes ps @ x"] len
    by (simp_all only: unat_word_of_nat32 fields_bytes_simps append_assoc)
  have m: "match_bytes (unat (min (word_of_nat (length p)) (word_of_nat (length n)) :: u32)) (p @ fields_bytes ps @ x)
      (drop p_next (pre2 @ n @ fields_bytes ns @ y)) = lcp p n"
    using match_bytes_lcp [of p n "fields_bytes ps @ x" "fields_bytes ns @ y"] min_of_nat32 [OF len] assms(4) by simp
  have stop: "lcp p n < unat (min (word_of_nat (length p)) (word_of_nat (length n)) :: u32) \<or>
      (word_of_nat (length p) :: u32) \<noteq> word_of_nat (length n) \<or> p_next + lcp p n \<ge> p_next_end \<longleftrightarrow> p \<noteq> n \<or> ns = []"
  proof (cases "p = n")
    case True
    then show ?thesis
      using assms(4,6) fields_bytes_Nil_iff [of ns] len(2) by (simp add: unat_word_of_nat32)
  next
    case False
    then show ?thesis
      using lcp_differs [of p n] unfolding min_of_nat32 [OF len] word_of_nat32_inject [OF len] by blast
  qed
  show ?thesis
  proof (cases "p \<noteq> n \<or> ns = []")
    case True
    then show ?thesis
      by (subst compress_loop.simps) (simp only: g(1) prod.case Let_def m stop simp_thms if_True of_nat_diff32 [OF lcp_le(2)])
  next
    case False
    then have pn: "p = n" "ns \<noteq> []"
      by auto
    obtain n' ns' where ns: "ns = n' # ns'"
      using pn(2) by (cases ns) auto
    have f': "va_fits n'" "length n' < 4294967296"
      using vtpl_fits_Cons [of n' ns'] vtpl_fits_Cons [OF assms(2)] ns va_cmpable_fits by (auto simp: va_cmpable_def)
    have g': "va_getdata (drop (p_next + lcp p n) (pre2 @ n @ fields_bytes ns @ y)) = (n' @ fields_bytes ns' @ y, word_of_nat (length n'))"
      "p_next + lcp p n + va_lenlen (drop (p_next + lcp p n) (pre2 @ n @ fields_bytes ns @ y)) =
        length (pre2 @ n @ va_lenfield (length (hd ns)))"
      using getdata_at [OF f'(1), of "p_next + lcp p n" "pre2 @ n" "fields_bytes ns' @ y"] assms(4) pn(1) ns f'
      by (simp_all add: unat_word_of_nat32 va_encode_def)
    have e: "p_prev + va_lenlen (drop p_prev (pre1 @ fields_bytes (p # ps) @ x)) + lcp p n = length (pre1 @ va_encode p)"
      using g(2) unfolding pn(1) lcp_refl by (simp only:)
    have pe: "length (pre1 @ va_encode p) \<ge> p_prev_end \<longleftrightarrow> ps = []"
      using assms(5) fields_bytes_Nil_iff [of ps] by simp
    have i: "i + word_of_nat (lcp p n) + 1 = i + word_of_nat (length n) + 1"
      using pn(1) by simp
    have hd: "hd ns = n'"
      using ns by simp
    show ?thesis
      by (subst compress_loop.simps)
        (simp only: g(1) prod.case Let_def m stop False simp_thms if_False e g' snd_conv i pe hd)
  qed
qed

lemma compress_loop_cmpr:
  assumes "vtpl_fits (p # ps)" "vtpl_fits (n # ns)" "p_prev = length pre1" "p_next = length pre2"
    and "p_prev_end = length (pre1 @ fields_bytes (p # ps))" "p_next_end = length (pre2 @ n @ fields_bytes ns)"
  shows "\<exists>d c cs. compress_loop (pre1 @ fields_bytes (p # ps) @ x) p_prev_end (pre2 @ n @ fields_bytes ns @ y) p_next_end
      p_prev p_next (word_of_nat (length n)) i =
    (word_of_nat (length c), d, i + word_of_nat (fst (cmpr (p # ps) (n # ns)))) \<and>
    snd (cmpr (p # ps) (n # ns)) = c # cs \<and>
    drop d (pre2 @ n @ fields_bytes ns @ y) = c @ fields_bytes cs @ y \<and> d + length (c @ fields_bytes cs) = p_next_end"
  using assms
proof (induction ps arbitrary: p n ns pre1 pre2 p_prev p_next i)
  case Nil
  show ?case
  proof (cases "p \<noteq> n \<or> ns = []")
    case True
    then show ?thesis
      unfolding compress_step [OF Nil.prems]
      using Nil.prems(4,6) lcp_le(2) [of p n] by (auto intro!: exI [of _ "p_next + lcp p n"])
  next
    case False
    then show ?thesis
      unfolding compress_step [OF Nil.prems]
      using Nil.prems(4,6) by (cases ns) (auto simp: Let_def va_encode_def)
  qed
next
  case (Cons q qs)
  show ?case
  proof (cases "p \<noteq> n \<or> ns = []")
    case True
    then show ?thesis
      unfolding compress_step [OF Cons.prems]
      using Cons.prems(4,6) lcp_le(2) [of p n] by (auto intro!: exI [of _ "p_next + lcp p n"])
  next
    case False
    then obtain n' ns' where ns: "ns = n' # ns'"
      by (cases ns) auto
    let ?pre2 = "pre2 @ n @ va_lenfield (length n')"
    have fits: "vtpl_fits (q # qs)" "vtpl_fits (n' # ns')"
      using vtpl_fits_Cons [OF Cons.prems(1)] vtpl_fits_Cons [OF Cons.prems(2)] ns by auto
    have ends: "p_prev_end = length ((pre1 @ va_encode p) @ fields_bytes (q # qs))"
      "p_next_end = length (?pre2 @ n' @ fields_bytes ns')"
      using Cons.prems(5,6) ns by (simp_all add: va_encode_def)
    from Cons.IH [OF fits refl refl ends, of "i + word_of_nat (length n) + 1"]
    show ?thesis
      unfolding compress_step [OF Cons.prems]
      using False ns by (auto simp: Let_def va_encode_def add_ac)
  qed
qed

text \<open>What is written out.\<close>

lemma list_ge_10:
  assumes "10 \<le> length xs"
  obtains a b c d e f g h i j ys where "xs = a # b # c # d # e # f # g # h # i # j # ys"
  using assms by (auto simp: numeral_eq_Suc Suc_le_length_iff)

lemma fields_length: "length (fields_bytes (c # cs)) = length (va_lenfield (length c)) + length (c @ fields_bytes cs)"
  by (simp add: va_encode_def)

lemma make_compressed_bytes:
  assumes "VA_LEN_LEN (word_of_nat m) + n = L" "L < 4294967296" "m \<le> L" "take n p = D" "length D = n" "10 \<le> length target"
  shows "make_compressed target (word_of_nat m) p n =
    va_lenfield L @ va_lenfield m @ D @ drop (length (va_lenfield L) + (length (va_lenfield m) + n)) target"
proof -
  obtain t0 t1 t2 t3 t4 t5 t6 t7 t8 t9 ts where t: "target = t0 # t1 # t2 # t3 # t4 # t5 # t6 # t7 # t8 # t9 # ts"
    using assms(6) by (rule list_ge_10)
  have b: "BYTE_LEN_TEST (word_of_nat L) \<longleftrightarrow> L < 254" "BYTE_LEN_TEST (word_of_nat m) \<longleftrightarrow> m < 254"
    using assms(2,3) by simp_all
  have d: "drop (6 + n) (t0 # t1 # t2 # t3 # t4 # t5 # xs) = drop n xs"
      "drop (10 + n) (t0 # t1 # t2 # t3 # t4 # t5 # t6 # t7 # t8 # t9 # xs) = drop n xs" for xs
    by (simp_all add: numeral_eq_Suc)
  consider "L < 254" "m < 254" | "\<not> L < 254" "m < 254" | "\<not> L < 254" "\<not> m < 254"
    using assms(3) by linarith
  then show ?thesis
    unfolding make_compressed_def assms(1,4) Let_def
    by cases (simp_all add: b buf_write_def va_lenfield_def t set_four_byte_len_at_def SET_FOUR_BYTE_LEN_def
        SS_UINT4_STORETODISK_def assms(5) d)
qed

lemma make_compressed_encode:
  assumes "vtpl_fits (c # cs)" "10 \<le> length target"
  shows "make_compressed target (word_of_nat (length c)) (c @ fields_bytes cs @ y) (length (c @ fields_bytes cs)) =
    vtpl_encode (c # cs) @ drop (length (vtpl_encode (c # cs))) target"
proof -
  let ?n = "length (c @ fields_bytes cs)" and ?L = "length (fields_bytes (c # cs))"
  have L: "?L = length (va_lenfield (length c)) + ?n" "?L < 4294967296" "length c < 4294967296"
    using assms(1) by (simp_all add: fields_length vtpl_fits_def del: fields_bytes_simps)
  have l: "VA_LEN_LEN (word_of_nat (length c)) + ?n = ?L"
    using L by (simp add: VA_LEN_LEN_def lenfield_length del: fields_bytes_simps)
  have e: "vtpl_encode (c # cs) = va_lenfield ?L @ va_lenfield (length c) @ c @ fields_bytes cs"
    by (simp add: vtpl_encode_def va_encode_def)
  have lc: "length c \<le> ?L"
    using L(1) by simp
  have tk: "take ?n (c @ fields_bytes cs @ y) = c @ fields_bytes cs"
    by simp
  show ?thesis
    unfolding e make_compressed_bytes [OF l L(2) lc tk refl assms(2)] by simp
qed

lemma cmpr_length:
  assumes "ns \<noteq> []"
  shows "length (fields_bytes (snd (cmpr ps ns))) \<le> length (fields_bytes ns)"
    "fst (cmpr ps ns) \<le> length (fields_bytes ns)"
  using assms
proof (induction ps ns rule: cmpr.induct)
  case (1 p ps n ns)
  have le: "length (va_encode (drop (lcp p n) n)) \<le> length (va_encode n)" "lcp p n \<le> length (va_encode n)"
      "Suc (length n) \<le> length (va_encode n)" "length (va_encode []) \<le> length (va_encode n)"
    using lcp_le(2) [of p n] by (auto simp: encode_length)
  show "length (fields_bytes (snd (cmpr (p # ps) (n # ns)))) \<le> length (fields_bytes (n # ns))"
    using 1 le by (cases "ns = []") auto
  show "fst (cmpr (p # ps) (n # ns)) \<le> length (fields_bytes (n # ns))"
    using 1 le by (cases "ns = []") auto
qed auto

lemma cmpr_fits:
  assumes "ns \<noteq> []" "vtpl_fits ns"
  shows "vtpl_fits (snd (cmpr ps ns))" "fst (cmpr ps ns) < 2147483648"
  using cmpr_length [OF assms(1), of ps] assms(2) by (auto simp: vtpl_fits_def)

lemma vtpl_compress_cmpr:
  assumes "vtpl_fits prev" "vtpl_fits next" "prev \<noteq> []" "next \<noteq> []" "10 \<le> length target"
  shows "vtpl_compress target (vtpl_encode prev @ x) (vtpl_encode next @ y) =
    (vtpl_encode (snd (cmpr prev next)) @ drop (length (vtpl_encode (snd (cmpr prev next)))) target,
      word_of_nat (fst (cmpr prev next)))"
proof -
  obtain p ps n ns where pn: "prev = p # ps" "next = n # ns"
    using assms(3,4) by (cases prev; cases "next") auto
  let ?P = "fields_bytes prev" and ?N = "fields_bytes next"
  let ?pre1 = "va_lenfield (length ?P)" and ?pre2 = "va_lenfield (length ?N) @ va_lenfield (length n)"
  have e: "vtpl_encode prev @ x = ?pre1 @ fields_bytes (p # ps) @ x"
      "vtpl_encode next @ y = ?pre2 @ n @ fields_bytes ns @ y"
    by (simp_all add: vtpl_encode_def va_encode_def pn)
  have fits: "va_fits ?P" "va_fits ?N" "va_fits n" "length ?P < 4294967296" "length ?N < 4294967296" "length n < 4294967296"
    using vtpl_fits_va [OF assms(1)] vtpl_fits_va [OF assms(2)] vtpl_fits_Cons [of n ns] va_cmpable_fits
      vtpl_fits_word [of n ns] assms(1,2) pn(2) by (simp_all add: vtpl_fits_def)
  have ll: "va_lenlen (vtpl_encode prev @ x) = length ?pre1" "va_lenlen (vtpl_encode next @ y) = length (va_lenfield (length ?N))"
      "unat (va_netlen (vtpl_encode prev @ x)) = length ?P" "unat (va_netlen (vtpl_encode next @ y)) = length ?N"
    using fits by (simp_all add: vtpl_encode_def lenfield_length unat_word_of_nat32)
  have d: "drop (length (va_lenfield (length ?N))) (vtpl_encode next @ y) = va_encode n @ fields_bytes ns @ y"
    by (simp add: vtpl_encode_def va_encode_def pn)
  have f: "va_getdata (va_encode n @ fields_bytes ns @ y) = (n @ fields_bytes ns @ y, word_of_nat (length n))"
      "length (va_lenfield (length ?N)) + va_lenlen (va_encode n @ fields_bytes ns @ y) = length ?pre2"
    using fits by (simp_all add: lenfield_length)
  have ends: "length ?pre1 + length ?P = length (?pre1 @ fields_bytes (p # ps))"
      "length (va_lenfield (length ?N)) + length ?N = length (?pre2 @ n @ fields_bytes ns)"
    by (simp_all add: pn va_encode_def)
  have fitspn: "vtpl_fits (p # ps)" "vtpl_fits (n # ns)"
    using assms(1,2) pn by auto
  obtain d c cs where loop: "compress_loop (?pre1 @ fields_bytes (p # ps) @ x) (length ?pre1 + length ?P)
        (?pre2 @ n @ fields_bytes ns @ y) (length (va_lenfield (length ?N)) + length ?N) (length ?pre1) (length ?pre2)
        (word_of_nat (length n)) 0 = (word_of_nat (length c), d, 0 + word_of_nat (fst (cmpr (p # ps) (n # ns))))"
      "snd (cmpr (p # ps) (n # ns)) = c # cs" "drop d (?pre2 @ n @ fields_bytes ns @ y) = c @ fields_bytes cs @ y"
      "d + length (c @ fields_bytes cs) = length (va_lenfield (length ?N)) + length ?N"
    using compress_loop_cmpr [OF fitspn refl refl ends, of x y 0] by blast
  have n: "length (va_lenfield (length ?N)) + length ?N - d = length (c @ fields_bytes cs)"
    using loop(4) by linarith
  have "vtpl_fits (c # cs)"
    using cmpr_fits(1) [OF assms(4,2), of prev] loop(2) pn by simp
  note mk = make_compressed_encode [OF this assms(5), of y]
  show ?thesis
    unfolding vtpl_compress_def Let_def ll d f snd_conv
    unfolding e loop(1,3) prod.case n mk
    by (simp add: pn loop(2) del: cmpr.simps)
qed

end
