(* ===== verification/Vtpl_Expand.thy ===== *)
theory Vtpl_Expand
  imports Vtpl_Compress
begin

text \<open>
  The expansion of compressed index entries (\<^verbatim>\<open>uti_expand\<close> and its callers in \<^verbatim>\<open>include/uti0vcmp.h\<close>) into
  a buffer of their own, and the split v-tuple that separates two neighbours. Expansion over the
  previous entry itself is left out: there the code copies with \<^verbatim>\<open>memcpy\<close> between overlapping regions,
  which C does not define.
\<close>

section \<open>Expansion\<close>

lemma index_step:
  assumes "\<not> i \<le> (l :: u32)"
  shows "unat (i - (l + 1)) < unat i" "unat (i - (l + 1)) = unat i - (unat l + 1)"
proof -
  have "uint l + 1 \<le> uint i"
    using assms by (simp add: word_le_def)
  then have "uint (i - (l + 1)) = uint i - (uint l + 1)"
    using u32_bounds [of i] u32_bounds [of l] by (simp add: uint_sub32 uint_add32)
  then show "unat (i - (l + 1)) < unat i" "unat (i - (l + 1)) = unat i - (unat l + 1)"
    using \<open>uint l + 1 \<le> uint i\<close> unfolding uint_nat by linarith+
qed

text \<open>The field of \<open>prev\<close> with the point of mismatch, and the index inside it.\<close>

function expand_loop :: "vtpl_t \<Rightarrow> nat \<Rightarrow> u32 \<Rightarrow> nat \<times> nat \<times> u32 \<times> u32" where
  "expand_loop prev p_prev_field i_mismatch =
    (let l_prev_field = snd (va_getdata (drop p_prev_field prev));
         p_prev_data = p_prev_field + va_lenlen (drop p_prev_field prev)
     in if i_mismatch \<le> l_prev_field then (p_prev_field, p_prev_data, l_prev_field, i_mismatch)
        else let i_mismatch = i_mismatch - (l_prev_field + 1); p_prev_field = p_prev_data + unat l_prev_field
             in if i_mismatch = 0 then (p_prev_field, p_prev_data, l_prev_field, i_mismatch)
                else expand_loop prev p_prev_field i_mismatch)"
  by pat_completeness auto
termination
  by (relation "measure (\<lambda>(_, _, i). unat i)") (auto simp: index_step word_le_nat_alt)

declare expand_loop.simps [simp del]

text \<open>
  Copying the part the two v-tuples share, into a buffer that is not the previous v-tuple. The result is
  the buffer and the offset behind what was written.
\<close>

definition expand_copy :: "vtpl_t \<Rightarrow> vtpl_t \<Rightarrow> u32 \<Rightarrow> u32 \<Rightarrow> nat \<Rightarrow> nat \<Rightarrow> nat \<Rightarrow> nat \<Rightarrow> vtpl_t \<times> nat" where
  "expand_copy target prev l_target l_mismatch_field p_prev_start p_prev_data l_common_portion i_mismatch =
    (let b = set_len_at 0 target l_target;
         p_target_data = VA_LEN_LEN l_target;
         b = buf_write p_target_data (take l_common_portion (drop p_prev_start prev)) b;
         p_target_data = p_target_data + l_common_portion;
         b = set_len_at p_target_data b l_mismatch_field;
         p_target_data = p_target_data + VA_LEN_LEN l_mismatch_field;
         b = buf_write p_target_data (take i_mismatch (drop p_prev_data prev)) b
     in (b, p_target_data + i_mismatch))"

definition uti_expand :: "vtpl_t \<Rightarrow> vtpl_t \<Rightarrow> vtpl_t \<Rightarrow> u32 \<Rightarrow> bool \<Rightarrow> vtpl_t" where
  "uti_expand target_vtpl prev_vtpl compressed_vtpl i_mismatch f_split =
    (let p_prev_start = va_lenlen prev_vtpl; l_full = va_netlen prev_vtpl;
         p_comp_start = va_lenlen compressed_vtpl; l_comp = va_netlen compressed_vtpl;
         p_prev_end = p_prev_start + unat l_full;
         (p_prev_field, p_prev_data, l_prev_field, i_mismatch) = expand_loop prev_vtpl p_prev_start i_mismatch;
         l_comp_field = snd (va_getdata (drop p_comp_start compressed_vtpl));
         p_comp_data = p_comp_start + va_lenlen (drop p_comp_start compressed_vtpl);
         l_common_portion = p_prev_field - p_prev_start;
         (l_new_portion, l_mismatch_field) =
           (if f_split
            then let l_new_portion = word_of_int (min 1 (int p_prev_end - int p_prev_field))
                 in (l_new_portion, i_mismatch + min l_comp_field l_new_portion)
            else (word_of_int (int p_comp_start + uint l_comp - int p_comp_data), i_mismatch + l_comp_field));
         l_target = word_of_nat l_common_portion + word_of_nat (VA_LEN_LEN l_mismatch_field) + i_mismatch + l_new_portion;
         (b, p_target_data) = expand_copy target_vtpl prev_vtpl l_target l_mismatch_field p_prev_start
           p_prev_data l_common_portion (unat i_mismatch)
     in if f_split
        then if l_new_portion \<noteq> 0 then buf_write p_target_data (take 1 (drop p_comp_data compressed_vtpl)) b else b
        else buf_write p_target_data (take (unat l_new_portion) (drop p_comp_data compressed_vtpl)) b)"

definition vtpl_expand :: "vtpl_t \<Rightarrow> vtpl_t \<Rightarrow> vtpl_t \<Rightarrow> u32 \<Rightarrow> vtpl_t" where
  "vtpl_expand target_vtpl prev_vtpl compressed_vtpl i_mismatch =
    (if i_mismatch = 0 then va_setva target_vtpl compressed_vtpl
     else uti_expand target_vtpl prev_vtpl compressed_vtpl i_mismatch False)"

definition vtpl_find_split :: "vtpl_t \<Rightarrow> vtpl_t \<Rightarrow> vtpl_t \<Rightarrow> u32 \<Rightarrow> vtpl_t" where
  "vtpl_find_split target_vtpl prev_vtpl compressed_vtpl i_mismatch =
    uti_expand target_vtpl prev_vtpl compressed_vtpl i_mismatch True"

section \<open>Writing into a buffer\<close>

lemma set_len_at_append:
  assumes "n < 4294967296" "p = length pre"
  shows "set_len_at p (pre @ xs) (word_of_nat n) = pre @ va_lenfield n @ drop (length (va_lenfield n)) xs"
  using assms by (simp add: set_len_at_def set_len_only)

lemma va_len_len: "n < 4294967296 \<Longrightarrow> VA_LEN_LEN (word_of_nat n) = length (va_lenfield n)"
  by (simp add: VA_LEN_LEN_def lenfield_length)

lemma drop_behind: "length w \<le> k \<Longrightarrow> drop k (w @ drop (length w) b) = drop k b"
  by simp

section \<open>The loop over the fields\<close>

lemma expand_step:
  assumes "va_fits f" "p = length pre" "i < 4294967296"
  shows "expand_loop (pre @ va_encode f @ x) p (word_of_nat i) =
    (let d = length (pre @ va_lenfield (length f)); l = word_of_nat (length f) in
     if i \<le> length f then (p, d, l, word_of_nat i)
     else if i - (length f + 1) = 0 then (length (pre @ va_encode f), d, l, word_of_nat (i - (length f + 1)))
     else expand_loop (pre @ va_encode f @ x) (length (pre @ va_encode f)) (word_of_nat (i - (length f + 1))))"
proof -
  have l: "length f < 4294967296"
    using assms(1) by (simp add: va_fits_def)
  have le: "(word_of_nat i :: u32) \<le> word_of_nat (length f) \<longleftrightarrow> i \<le> length f"
    using l assms(3) by (simp add: word_le_nat_alt unat_word_of_nat32)
  have g: "snd (va_getdata (drop p (pre @ va_encode f @ x))) = word_of_nat (length f)"
      "p + va_lenlen (drop p (pre @ va_encode f @ x)) = length (pre @ va_lenfield (length f))"
      "length (pre @ va_lenfield (length f)) + unat (word_of_nat (length f) :: u32) = length (pre @ va_encode f)"
    using assms(1,2) l by (simp_all add: lenfield_length unat_word_of_nat32 encode_length)
  have d: "(word_of_nat i - (word_of_nat (length f) + 1) :: u32) = word_of_nat (i - (length f + 1))" if "\<not> i \<le> length f"
    using that by (simp add: of_nat_diff)
  have z: "(word_of_nat (i - (length f + 1)) :: u32) = 0 \<longleftrightarrow> i - (length f + 1) = 0"
    using assms(3) word_of_nat32_inject [of "i - (length f + 1)" 0] by (simp del: of_nat_diff)
  show ?thesis
  proof (cases "i \<le> length f")
    case True
    then show ?thesis
      by (subst expand_loop.simps) (simp only: g(1,2) Let_def le if_True)
  next
    case False
    show ?thesis
      by (subst expand_loop.simps) (simp only: g Let_def le False if_False d [OF False] z)
  qed
qed

lemma expand_loop_point:
  assumes "expd_point ps i = (a, b, j)" "idx_ok ps i" "vtpl_fits ps" "ps \<noteq> []" "i < 4294967296"
    and "p = length pre"
  shows "\<exists>d l. expand_loop (pre @ fields_bytes ps @ x) p (word_of_nat i) =
      (length (pre @ fields_bytes a), d, l, word_of_nat j) \<and>
    (0 < j \<longrightarrow> d = length (pre @ fields_bytes a @ va_lenfield (length (hd b))) \<and> l = word_of_nat (length (hd b)))"
  using assms
proof (induction ps arbitrary: i a pre p)
  case (Cons f ps)
  have f: "va_fits f" "vtpl_fits ps"
    using vtpl_fits_Cons [OF Cons.prems(3)] va_cmpable_fits by auto
  show ?case
  proof (cases "i \<le> length f \<or> i - (length f + 1) = 0")
    case True
    then show ?thesis
      using Cons.prems(1,6) expand_step [OF f(1) Cons.prems(6,5), of "fields_bytes ps @ x"]
      by (auto simp: Let_def split: if_splits)
  next
    case False
    obtain a' where a: "expd_point ps (i - (length f + 1)) = (a', b, j)" "a = f # a'"
      using Cons.prems(1) False by (auto split: prod.splits)
    moreover have "idx_ok ps (i - (length f + 1))" "ps \<noteq> []" "i - (length f + 1) < 4294967296"
      using Cons.prems(2,5) False by (auto simp: idx_ok_def)
    ultimately show ?thesis
      using Cons.IH [of "i - (length f + 1)" a' "length (pre @ va_encode f)" "pre @ va_encode f"] f(2) False
        expand_step [OF f(1) Cons.prems(6,5), of "fields_bytes ps @ x"]
      by (auto simp: Let_def)
  qed
qed simp

section \<open>Copying the common part\<close>

text \<open>
  The shape of the previous v-tuple and of the one to be written, as far as copying looks at them:
  \<open>ca\<close> the common bytes, \<open>cj\<close> what is taken over of the field with the mismatch.
\<close>

definition copy_ok :: "vtpl_t \<Rightarrow> nat \<Rightarrow> nat \<Rightarrow> nat \<Rightarrow> nat \<Rightarrow> u8 list \<Rightarrow> u8 list \<Rightarrow> bool" where
  "copy_ok prev F L m pd ca cj \<longleftrightarrow> L < 4294967296 \<and> m \<le> L \<and>
    take (length ca) (drop (length (va_lenfield F)) prev) = ca \<and> take (length cj) (drop pd prev) = cj"

lemma expand_copy_bytes:
  assumes "copy_ok prev F L m pd ca cj"
  shows "\<exists>R. expand_copy target prev (word_of_nat L) (word_of_nat m) (length (va_lenfield F)) pd (length ca) (length cj) =
    (va_lenfield L @ ca @ va_lenfield m @ cj @ R, length (va_lenfield L @ ca @ va_lenfield m) + length cj)"
proof -
  let ?w = "va_lenfield L" and ?lf = "va_lenfield m"
  have sz: "L < 4294967296" "m < 4294967296"
    and rd: "take (length ca) (drop (length (va_lenfield F)) prev) = ca" "take (length cj) (drop pd prev) = cj"
    using assms by (auto simp: copy_ok_def)
  have s0: "set_len_at 0 target (word_of_nat L) = ?w @ drop (length ?w) target"
    using set_len_at_append [of L 0 "[]" target] sz(1) by simp
  have b1: "buf_write (length ?w) ca (?w @ drop (length ?w) target) = ?w @ ca @ drop (length (?w @ ca)) target"
    by (simp add: buf_write_append add.commute)
  have s2: "set_len_at (length ?w + length ca) (?w @ ca @ drop (length (?w @ ca)) target) (word_of_nat m) =
      ?w @ ca @ ?lf @ drop (length (?w @ ca @ ?lf)) target"
    using set_len_at_append [of m "length ?w + length ca" "?w @ ca" "drop (length (?w @ ca)) target"] sz(2) by (simp add: add_ac)
  have b3: "buf_write (length ?w + length ca + length ?lf) cj (?w @ ca @ ?lf @ drop (length (?w @ ca @ ?lf)) target) =
      ?w @ ca @ ?lf @ cj @ drop (length (?w @ ca @ ?lf @ cj)) target"
    using buf_write_append [of "length ?w + length ca + length ?lf" "?w @ ca @ ?lf" cj] by (simp add: add_ac)
  show ?thesis
    unfolding expand_copy_def Let_def va_len_len [OF sz(1)] va_len_len [OF sz(2)] rd s0 b1 s2 b3 by simp
qed

section \<open>The expanded v-tuple\<close>

text \<open>
  The v-tuple \<open>prev\<close>, split at the mismatch into the fields \<open>a\<close>, the field with the mismatch and those
  behind it, and what its expansion with the field \<open>c\<close> writes before the new portion.
\<close>

lemma copy_ok_point:
  assumes "expd_point ps i = (a, b, j)" "idx_ok ps i"
    and "L = length (fields_bytes (a @ (take j (hd b) @ c) # cs))" "L < 4294967296"
    and "prev = va_lenfield (length (fields_bytes ps)) @ fields_bytes ps @ x"
    and "0 < j \<longrightarrow> pd = length (va_lenfield (length (fields_bytes ps)) @ fields_bytes a @ va_lenfield (length (hd b)))"
  shows "copy_ok prev (length (fields_bytes ps)) L (j + length c) pd (fields_bytes a) (take j (hd b))"
    "length (take j (hd b)) = j"
proof -
  note pt = expd_point_facts [OF assms(1,2)]
  show j: "length (take j (hd b)) = j"
    using pt(2) by (cases "j = 0") auto
  have "take j (drop pd prev) = take j (hd b)" if pos: "0 < j"
  proof -
    obtain h bs where b: "b = h # bs" "j \<le> length h"
      using pt(2) [OF pos] by (cases b) auto
    have "prev = (va_lenfield (length (fields_bytes ps)) @ fields_bytes a @ va_lenfield (length h)) @ h @ fields_bytes bs @ x"
      using assms(5) pt(1) b(1) by (simp add: va_encode_def)
    then show ?thesis
      using assms(6) pos b by simp
  qed
  then have "take j (drop pd prev) = take j (hd b)"
    by (cases "j = 0") simp_all
  moreover have "j + length c \<le> L"
    using assms(3) j by (simp add: va_encode_def)
  ultimately show "copy_ok prev (length (fields_bytes ps)) L (j + length c) pd (fields_bytes a) (take j (hd b))"
    using assms(4,5) pt(1) unfolding copy_ok_def j by simp
qed

text \<open>The lengths and offsets the two v-tuples are read with.\<close>

lemma vtpl_reads:
  assumes "vtpl_fits fs"
  shows "va_lenlen (vtpl_encode fs @ x) = length (va_lenfield (length (fields_bytes fs)))"
    "va_netlen (vtpl_encode fs @ x) = word_of_nat (length (fields_bytes fs))"
    "drop (length (va_lenfield (length (fields_bytes fs)))) (vtpl_encode fs @ x) = fields_bytes fs @ x"
  using vtpl_fits_va [OF assms] by (simp_all add: vtpl_encode_def lenfield_length) (simp add: va_encode_def lenfield_length)

lemma first_field_reads:
  assumes "vtpl_fits (c # cs)"
  shows "snd (va_getdata (fields_bytes (c # cs) @ y)) = word_of_nat (length c)"
    "va_lenlen (fields_bytes (c # cs) @ y) = length (va_lenfield (length c))"
    "drop (length (va_lenfield (length c))) (fields_bytes (c # cs) @ y) = c @ fields_bytes cs @ y"
proof -
  have "va_fits c"
    using vtpl_fits_Cons [OF assms] va_cmpable_fits by blast
  then show "snd (va_getdata (fields_bytes (c # cs) @ y)) = word_of_nat (length c)"
    "va_lenlen (fields_bytes (c # cs) @ y) = length (va_lenfield (length c))"
    by (simp_all add: lenfield_length)
  show "drop (length (va_lenfield (length c))) (fields_bytes (c # cs) @ y) = c @ fields_bytes cs @ y"
    by (simp add: va_encode_def)
qed

lemma uti_expand_expd:
  assumes "vtpl_fits ps" "ps \<noteq> []" "vtpl_fits (c # cs)" "idx_ok ps i" "i < 4294967296"
    and "vtpl_fits (expd ps i (c # cs))"
  shows "\<exists>R. uti_expand target (vtpl_encode ps @ x) (vtpl_encode (c # cs) @ y) (word_of_nat i) False =
    vtpl_encode (expd ps i (c # cs)) @ R"
proof -
  obtain a b j where pt: "expd_point ps i = (a, b, j)"
    by (metis prod_cases3)
  note ex = expd_via_point [OF pt assms(4,2), of c cs]
  let ?A = "fields_bytes a" and ?n = "length (c @ fields_bytes cs)" and ?prev = "vtpl_encode ps @ x"
    and ?comp = "vtpl_encode (c # cs) @ y" and ?C = "length (fields_bytes (c # cs))" and ?F = "length (fields_bytes ps)"
  define L where "L = length (fields_bytes (a @ (take j (hd b) @ c) # cs))"
  have prev: "?prev = va_lenfield ?F @ fields_bytes ps @ x"
    by (simp add: vtpl_encode_def va_encode_def)
  obtain d l where loop: "expand_loop ?prev (length (va_lenfield ?F)) (word_of_nat i) =
      (length (va_lenfield ?F @ ?A), d, l, word_of_nat j)"
    "0 < j \<longrightarrow> d = length (va_lenfield ?F @ ?A @ va_lenfield (length (hd b)))"
    using expand_loop_point [OF pt assms(4,1,2,5) refl, of "va_lenfield ?F" x] unfolding prev by blast
  have L: "L < 4294967296" "vtpl_encode (expd ps i (c # cs)) = va_lenfield L @ fields_bytes (expd ps i (c # cs))"
    using assms(6) by (simp_all add: L_def ex vtpl_fits_def vtpl_encode_def va_encode_def)
  note ok = copy_ok_point [OF pt assms(4) L_def L(1) prev loop(2)]
  obtain R where copy: "expand_copy target ?prev (word_of_nat L) (word_of_nat (j + length c))
      (length (va_lenfield ?F)) d (length ?A) j =
      (va_lenfield L @ ?A @ va_lenfield (j + length c) @ take j (hd b) @ R,
       length (va_lenfield L @ ?A @ va_lenfield (j + length c)) + j)"
    using expand_copy_bytes [OF ok(1)] unfolding ok(2) by blast
  have Lsum: "L = length ?A + length (va_lenfield (j + length c)) + j + ?n"
    using ok(2) by (simp add: L_def va_encode_def)
  have sz: "j + length c < 4294967296" "j < 4294967296" "?n < 4294967296"
    using Lsum L(1) by simp_all
  have new: "word_of_int (int (length (va_lenfield ?C)) + uint (word_of_nat ?C :: u32) -
      int (length (va_lenfield ?C) + length (va_lenfield (length c)))) = (word_of_nat ?n :: u32)"
  proof -
    have "?C < 4294967296" "?C = length (va_lenfield (length c)) + ?n"
      using assms(3) fields_length [of c cs] by (simp_all add: vtpl_fits_def)
    then have "int (length (va_lenfield ?C)) + uint (word_of_nat ?C :: u32) -
        int (length (va_lenfield ?C) + length (va_lenfield (length c))) = int ?n"
      using unat_word_of_nat32 [of ?C] unfolding uint_nat by linarith
    then show ?thesis
      by (simp only: of_int_of_nat_eq)
  qed
  have target: "word_of_nat (length ?A) + word_of_nat (length (va_lenfield (j + length c))) + word_of_nat j + word_of_nat ?n =
      (word_of_nat L :: u32)"
    unfolding Lsum by simp
  have mf: "word_of_nat j + word_of_nat (length c) = (word_of_nat (j + length c) :: u32)"
    by simp
  have common: "length (va_lenfield ?F @ ?A) - length (va_lenfield ?F) = length ?A"
    by simp
  have tail: "take ?n (drop (length (va_lenfield ?C) + length (va_lenfield (length c))) ?comp) = c @ fields_bytes cs"
  proof -
    have "drop (length (va_lenfield ?C) + length (va_lenfield (length c))) ?comp =
        drop (length (va_lenfield (length c))) (drop (length (va_lenfield ?C)) ?comp)"
      by (simp only: drop_drop add.commute [of "length (va_lenfield (length c))"])
    then show ?thesis
      unfolding vtpl_reads(3) [OF assms(3)] first_field_reads(3) [OF assms(3)] by simp
  qed
  have "buf_write (length (va_lenfield L @ ?A @ va_lenfield (j + length c)) + j) (c @ fields_bytes cs)
      (va_lenfield L @ ?A @ va_lenfield (j + length c) @ take j (hd b) @ R) =
      va_lenfield L @ ?A @ va_lenfield (j + length c) @ take j (hd b) @ c @ fields_bytes cs @ drop ?n R"
    using buf_write_append [of "length (va_lenfield L @ ?A @ va_lenfield (j + length c)) + j"
        "va_lenfield L @ ?A @ va_lenfield (j + length c) @ take j (hd b)" "c @ fields_bytes cs" R] ok(2) by simp
  then have "uti_expand target ?prev ?comp (word_of_nat i) False =
      va_lenfield L @ ?A @ va_lenfield (j + length c) @ take j (hd b) @ c @ fields_bytes cs @ drop ?n R"
    unfolding uti_expand_def Let_def vtpl_reads(1,2) [OF assms(1)] vtpl_reads [OF assms(3)] first_field_reads(1,2) [OF assms(3)]
    by (simp only: loop(1) prod.case if_False new mf common va_len_len [OF sz(1)] target unat_word_of_nat32 [OF sz(2)] copy
        unat_word_of_nat32 [OF sz(3)] tail)
  then show ?thesis
    using ok(2) unfolding L(2) by (simp add: ex va_encode_def)
qed

lemma uti_expand_split:
  assumes "vtpl_fits ps" "ps \<noteq> []" "vtpl_fits (c # cs)" "idx_ok ps i" "i < 4294967296"
    and "vtpl_fits (split_fields ps i (c # cs))"
    and "fst (snd (expd_point ps i)) \<noteq> [] \<longrightarrow> c \<noteq> []"
  shows "\<exists>R. uti_expand target (vtpl_encode ps @ x) (vtpl_encode (c # cs) @ y) (word_of_nat i) True =
    vtpl_encode (split_fields ps i (c # cs)) @ R"
proof -
  obtain a b j where pt: "expd_point ps i = (a, b, j)"
    by (metis prod_cases3)
  define c1 where "c1 = (if b = [] then [] else take 1 c)"
  have sp: "split_fields ps i (c # cs) = a @ (take j (hd b) @ c1) # []"
    using split_via_point [OF pt assms(4,2), of c cs] expd_point_facts(2) [OF pt assms(4)] by (auto simp: c1_def)
  have len1: "length c1 = of_bool (b \<noteq> [])"
    using assms(7) pt by (cases c) (auto simp: c1_def)
  let ?A = "fields_bytes a" and ?k = "length c1" and ?prev = "vtpl_encode ps @ x"
    and ?comp = "vtpl_encode (c # cs) @ y" and ?C = "length (fields_bytes (c # cs))" and ?F = "length (fields_bytes ps)"
  define L where "L = length (fields_bytes (a @ (take j (hd b) @ c1) # []))"
  have prev: "?prev = va_lenfield ?F @ fields_bytes ps @ x"
    by (simp add: vtpl_encode_def va_encode_def)
  obtain d l where loop: "expand_loop ?prev (length (va_lenfield ?F)) (word_of_nat i) =
      (length (va_lenfield ?F @ ?A), d, l, word_of_nat j)"
    "0 < j \<longrightarrow> d = length (va_lenfield ?F @ ?A @ va_lenfield (length (hd b)))"
    using expand_loop_point [OF pt assms(4,1,2,5) refl, of "va_lenfield ?F" x] unfolding prev by blast
  have L: "L < 4294967296" "vtpl_encode (split_fields ps i (c # cs)) = va_lenfield L @ fields_bytes (split_fields ps i (c # cs))"
    using assms(6) by (simp_all add: L_def sp vtpl_fits_def vtpl_encode_def va_encode_def)
  note ok = copy_ok_point [OF pt assms(4) L_def L(1) prev loop(2)]
  obtain R where copy: "expand_copy target ?prev (word_of_nat L) (word_of_nat (j + ?k))
      (length (va_lenfield ?F)) d (length ?A) j =
      (va_lenfield L @ ?A @ va_lenfield (j + ?k) @ take j (hd b) @ R,
       length (va_lenfield L @ ?A @ va_lenfield (j + ?k)) + j)"
    using expand_copy_bytes [OF ok(1)] unfolding ok(2) by blast
  have Lsum: "L = length ?A + length (va_lenfield (j + ?k)) + j + ?k"
    using ok(2) by (simp add: L_def va_encode_def)
  have sz: "j + ?k < 4294967296" "j < 4294967296"
    using Lsum L(1) by simp_all
  have F: "?F < 4294967296" "?F = length ?A + length (fields_bytes b)"
    using assms(1) expd_point_facts(1) [OF pt assms(4)] by (simp_all add: vtpl_fits_def)
  have new: "word_of_int (min 1 (int (length (va_lenfield ?F) + ?F) - int (length (va_lenfield ?F @ ?A)))) = (word_of_nat ?k :: u32)"
    using F(2) fields_bytes_Nil_iff [of b] len1 by (cases "b = []") (simp_all add: min_def Suc_le_eq)
  have "?k \<le> length c" "length c < 4294967296"
    using assms(3) vtpl_fits_word by (auto simp: c1_def)
  then have mn: "min (word_of_nat (length c)) (word_of_nat ?k) = (word_of_nat ?k :: u32)"
    by (simp add: min_def word_le_nat_alt unat_word_of_nat32)
  have target: "word_of_nat (length ?A) + word_of_nat (length (va_lenfield (j + ?k))) + word_of_nat j + word_of_nat ?k =
      (word_of_nat L :: u32)"
    unfolding Lsum by simp
  have mf: "word_of_nat j + word_of_nat ?k = (word_of_nat (j + ?k) :: u32)"
    by simp
  have common: "length (va_lenfield ?F @ ?A) - length (va_lenfield ?F) = length ?A"
    by simp
  have nz: "(word_of_nat ?k :: u32) \<noteq> 0 \<longleftrightarrow> b \<noteq> []"
    using len1 by simp
  have tail: "take 1 (drop (length (va_lenfield ?C) + length (va_lenfield (length c))) ?comp) = c1" if "b \<noteq> []"
  proof -
    have "drop (length (va_lenfield ?C) + length (va_lenfield (length c))) ?comp =
        drop (length (va_lenfield (length c))) (drop (length (va_lenfield ?C)) ?comp)"
      by (simp only: drop_drop add.commute [of "length (va_lenfield (length c))"])
    then show ?thesis
      using that assms(7) pt unfolding vtpl_reads(3) [OF assms(3)] first_field_reads(3) [OF assms(3)]
      by (cases c) (simp_all add: c1_def)
  qed
  let ?pos = "length (va_lenfield L @ ?A @ va_lenfield (j + ?k)) + j"
    and ?buf = "va_lenfield L @ ?A @ va_lenfield (j + ?k) @ take j (hd b) @ R"
  have "(if b \<noteq> [] then buf_write ?pos (take 1 (drop (length (va_lenfield ?C) + length (va_lenfield (length c))) ?comp)) ?buf
      else ?buf) = va_lenfield L @ ?A @ va_lenfield (j + ?k) @ take j (hd b) @ c1 @ drop ?k R"
  proof (cases "b = []")
    case False
    have "buf_write ?pos c1 ?buf = va_lenfield L @ ?A @ va_lenfield (j + ?k) @ take j (hd b) @ c1 @ drop ?k R"
      using buf_write_append [of ?pos "va_lenfield L @ ?A @ va_lenfield (j + ?k) @ take j (hd b)" c1 R] ok(2) by simp
    then show ?thesis
      using False tail by (simp only: not_False_eq_True if_True simp_thms)
  qed (simp add: c1_def)
  then have "uti_expand target ?prev ?comp (word_of_nat i) True =
      va_lenfield L @ ?A @ va_lenfield (j + ?k) @ take j (hd b) @ c1 @ drop ?k R"
    unfolding uti_expand_def Let_def vtpl_reads(1,2) [OF assms(1)] vtpl_reads [OF assms(3)] first_field_reads(1,2) [OF assms(3)]
    by (simp only: loop(1) prod.case if_True unat_word_of_nat32 [OF F(1)] new mn mf common va_len_len [OF sz(1)] target
        unat_word_of_nat32 [OF sz(2)] copy nz)
  then show ?thesis
    using ok(2) unfolding L(2) by (simp add: sp va_encode_def)
qed

end
