(* ===== verification/Vtpl_Search.thy ===== *)
theory Vtpl_Search
  imports Vtpl_Expand
begin

text \<open>
  Searching in a sequence of compressed index entries (\<^verbatim>\<open>vtpl_search_step_fn\<close> of \<^verbatim>\<open>uti/uti0vcmp.c\<close> and the
  macros of \<^verbatim>\<open>include/uti0vcmp.h\<close>): the search state keeps the key compressed against the greatest entry
  below it, so that most entries are decided by their mismatch index alone.
\<close>

section \<open>The search state\<close>

text \<open>
  \<open>ss_p_mismatch\<close> and \<open>ss_p_key_end\<close> are offsets into the key. The comparison function of the caller and
  the data it is called with are parameters.
\<close>

record ('k, 'd) search_state =
  ss_i_mismatch :: u32
  ss_i_ob1_inuse :: bool
  ss_i_ob1_mismatch :: u32
  ss_l_field :: u32
  ss_p_mismatch :: nat
  ss_p_key_end :: nat
  ss_key_data :: 'k
  ss_cmp_fn :: "('k \<Rightarrow> 'd \<Rightarrow> int) option"

definition vtpl_search_state_init :: "('k, 'd) search_state \<Rightarrow> vtpl_t \<Rightarrow> 'k \<Rightarrow> ('k, 'd) search_state" where
  "vtpl_search_state_init st key key_data =
    (let first_field = va_lenlen key; l_key = va_netlen key in
     st\<lparr>ss_i_mismatch := 0, ss_i_ob1_mismatch := 0, ss_key_data := key_data, ss_cmp_fn := None,
       ss_p_key_end := first_field + unat l_key,
       ss_l_field := snd (va_getdata (drop first_field key)),
       ss_p_mismatch := first_field + va_lenlen (drop first_field key)\<rparr>)"

definition vtpl_search_init :: "('k, 'd) search_state \<Rightarrow> vtpl_t \<Rightarrow> 'k \<Rightarrow> ('k, 'd) search_state" where
  "vtpl_search_init st key key_data = vtpl_search_state_init (st\<lparr>ss_i_ob1_inuse := False\<rparr>) key key_data"

definition VTPL_MME_SEARCH_INIT :: "(unit, 'd) search_state \<Rightarrow> vtpl_t \<Rightarrow> (unit, 'd) search_state" where
  "VTPL_MME_SEARCH_INIT st key = vtpl_search_state_init (st\<lparr>ss_i_ob1_inuse := True\<rparr>) key ()"

definition vtpl_search_setcmpfn :: "('k, 'd) search_state \<Rightarrow> ('k \<Rightarrow> 'd \<Rightarrow> int) \<Rightarrow> ('k, 'd) search_state" where
  "vtpl_search_setcmpfn st f = st\<lparr>ss_cmp_fn := Some f\<rparr>"

definition vtpl_search_compress :: "vtpl_t \<Rightarrow> vtpl_t \<Rightarrow> ('k, 'd) search_state \<Rightarrow> vtpl_t \<times> u32" where
  "vtpl_search_compress target_vtpl key cs =
    (make_compressed target_vtpl (ss_l_field cs) (drop (ss_p_mismatch cs) key) (ss_p_key_end cs - ss_p_mismatch cs),
     ss_i_mismatch cs)"

section \<open>One step\<close>

text \<open>The loop over the bytes of a field: the difference it stops at and the number of bytes passed.\<close>

fun step_bytes :: "nat \<Rightarrow> u8 list \<Rightarrow> u8 list \<Rightarrow> int \<times> nat" where
  "step_bytes 0 p_mismatch p_ie_data = (0, 0)"
| "step_bytes (Suc n) p_mismatch p_ie_data =
    (let comp_res = uint (hd p_mismatch) - uint (hd p_ie_data) in
     if comp_res \<noteq> 0 then (comp_res, 0)
     else let (comp_res, k) = step_bytes n (tl p_mismatch) (tl p_ie_data) in (comp_res, Suc k))"

definition call_cmp_fn :: "('k, 'd) search_state \<Rightarrow> 'd \<Rightarrow> int" where
  "call_cmp_fn st index_data = (case ss_cmp_fn st of None \<Rightarrow> 0 | Some f \<Rightarrow> f (ss_key_data st) index_data)"

text \<open>The loop over the fields: \<open>st\<close> is the caller's state and \<open>ss\<close> the copy the step works on.\<close>

function search_loop ::
  "vtpl_t \<Rightarrow> vtpl_t \<Rightarrow> nat \<Rightarrow> 'd \<Rightarrow> ('k, 'd) search_state \<Rightarrow> ('k, 'd) search_state \<Rightarrow> u32 \<Rightarrow> u32 \<Rightarrow> u32 \<Rightarrow> nat
    \<Rightarrow> int \<times> ('k, 'd) search_state" where
  "search_loop key ie p_ie_end index_data st ss i_cmp l_cmp l_ie_field p_ie_data =
    (let (comp_res, k) = step_bytes (unat l_cmp - unat i_cmp) (drop (ss_p_mismatch ss) key) (drop p_ie_data ie);
         ss = ss\<lparr>ss_p_mismatch := ss_p_mismatch ss + k\<rparr>; i_cmp = i_cmp + word_of_nat k; p_ie_data = p_ie_data + k
     in if comp_res > 0
        then (1, st\<lparr>ss_i_mismatch := ss_i_mismatch ss + i_cmp, ss_l_field := ss_l_field ss - i_cmp,
          ss_p_mismatch := ss_p_mismatch ss\<rparr>)
        else if comp_res < 0 then (- 1, st\<lparr>ss_i_ob1_mismatch := ss_i_mismatch ss + i_cmp\<rparr>)
        else if ss_l_field ss > i_cmp
        then (1, ss\<lparr>ss_i_mismatch := ss_i_mismatch ss + i_cmp, ss_l_field := ss_l_field ss - i_cmp\<rparr>)
        else if i_cmp = l_ie_field
        then if ss_p_key_end ss \<le> ss_p_mismatch ss
          then if p_ie_end \<le> p_ie_data
            then let fn_cmp = call_cmp_fn st index_data in
              if fn_cmp > 0
              then (fn_cmp, st\<lparr>ss_i_mismatch := ss_i_mismatch ss + i_cmp, ss_l_field := ss_l_field ss - i_cmp,
                ss_p_mismatch := ss_p_mismatch ss\<rparr>)
              else (fn_cmp, st\<lparr>ss_i_ob1_mismatch := ss_i_mismatch ss + i_cmp\<rparr>)
            else (- 1, st)
          else let ss = ss\<lparr>ss_i_mismatch := ss_i_mismatch ss + (i_cmp + 1),
                     ss_l_field := snd (va_getdata (drop (ss_p_mismatch ss) key)),
                     ss_p_mismatch := ss_p_mismatch ss + va_lenlen (drop (ss_p_mismatch ss) key)\<rparr>
            in if p_ie_end \<le> p_ie_data then (1, ss)
               else let l_ie_field = snd (va_getdata (drop p_ie_data ie));
                        p_ie_data' = p_ie_data + va_lenlen (drop p_ie_data ie)
                 in search_loop key ie p_ie_end index_data st ss 0 (min (ss_l_field ss) l_ie_field) l_ie_field p_ie_data'
        else (- 1, st\<lparr>ss_i_ob1_mismatch := ss_i_mismatch ss + i_cmp\<rparr>))"
  by pat_completeness auto
termination
  by (relation "measure (\<lambda>(_, _, p_ie_end, _, _, _, _, _, _, p_ie_data). p_ie_end - p_ie_data)") (auto simp: va_lenlen_def)

declare search_loop.simps [simp del]

definition vtpl_search_step_fn ::
  "vtpl_t \<Rightarrow> ('k, 'd) search_state \<Rightarrow> vtpl_t \<Rightarrow> 'd \<Rightarrow> int \<times> ('k, 'd) search_state" where
  "vtpl_search_step_fn key st index_entry index_data =
    (let p_ie_start = va_lenlen index_entry; l_ie = va_netlen index_entry;
         l_ie_field = snd (va_getdata (drop p_ie_start index_entry));
         p_ie_data = p_ie_start + va_lenlen (drop p_ie_start index_entry);
         l_cmp = min (ss_l_field st) l_ie_field; p_ie_end = p_ie_start + unat l_ie
     in if \<not> ss_i_ob1_inuse st \<and> l_cmp \<noteq> 0
        then let comp_res = uint (key ! ss_p_mismatch st) - uint (index_entry ! p_ie_data) in
          if comp_res \<noteq> 0 then (comp_res, st)
          else search_loop key index_entry p_ie_end index_data st
            (st\<lparr>ss_p_mismatch := ss_p_mismatch st + 1\<rparr>) 1 l_cmp l_ie_field (p_ie_data + 1)
        else search_loop key index_entry p_ie_end index_data st st 0 l_cmp l_ie_field p_ie_data)"

text \<open>The mismatch indexes are unsigned; their difference is an \<^verbatim>\<open>int\<close>.\<close>

definition vtpl_dbe_search_step ::
  "vtpl_t \<Rightarrow> ('k, 'd) search_state \<Rightarrow> u32 \<Rightarrow> vtpl_t \<Rightarrow> 'd \<Rightarrow> int \<times> ('k, 'd) search_state" where
  "vtpl_dbe_search_step key st ie_i_mismatch index_entry index_data =
    (let var = sint (ie_i_mismatch - ss_i_mismatch st) in
     if var = 0 then vtpl_search_step_fn key st index_entry index_data else (var, st))"

section \<open>The loop over the fields\<close>

lemma lcp_drop: "k \<le> lcp a b \<Longrightarrow> lcp (drop k a) (drop k b) = lcp a b - k"
proof (induction k arbitrary: a b)
  case (Suc k)
  then show ?case
    by (cases a; cases b) (auto split: if_splits)
qed simp

lemma step_bytes_lcp:
  "step_bytes (min (length a) (length b)) (a @ x) (b @ y) =
    (if lcp a b < min (length a) (length b) then (uint (a ! lcp a b) - uint (b ! lcp a b), lcp a b)
     else (0, min (length a) (length b)))"
  by (induction a b rule: lcp.induct) (auto simp: Let_def word_uint_eq_iff [symmetric])

lemma step_bytes_from:
  assumes "k \<le> lcp a b"
  shows "step_bytes (min (length a) (length b) - k) (drop k a @ x) (drop k b @ y) =
    (if lcp a b < min (length a) (length b) then (uint (a ! lcp a b) - uint (b ! lcp a b), lcp a b - k)
     else (0, min (length a) (length b) - k))"
proof -
  have k: "k \<le> length a" "k \<le> length b"
    using assms lcp_le [of a b] by auto
  then have m: "min (length (drop k a)) (length (drop k b)) = min (length a) (length b) - k"
    by auto
  show ?thesis
    using step_bytes_lcp [of "drop k a" "drop k b" x y] assms k unfolding m lcp_drop [OF assms] by (auto simp: min_def)
qed

definition set_mismatch :: "('k, 'd) search_state \<Rightarrow> u32 \<Rightarrow> u32 \<Rightarrow> nat \<Rightarrow> ('k, 'd) search_state" where
  "set_mismatch st i l p = st\<lparr>ss_i_mismatch := i, ss_l_field := l, ss_p_mismatch := p\<rparr>"

lemma set_mismatch_simps [simp]:
  "ss_i_mismatch (set_mismatch st i l p) = i" "ss_l_field (set_mismatch st i l p) = l"
  "ss_p_mismatch (set_mismatch st i l p) = p" "ss_p_key_end (set_mismatch st i l p) = ss_p_key_end st"
  "ss_cmp_fn (set_mismatch st i l p) = ss_cmp_fn st" "ss_key_data (set_mismatch st i l p) = ss_key_data st"
  "ss_i_ob1_inuse (set_mismatch st i l p) = ss_i_ob1_inuse st"
  "(set_mismatch st i l p)\<lparr>ss_p_mismatch := p'\<rparr> = set_mismatch st i l p'"
  "(set_mismatch st i l p)\<lparr>ss_i_mismatch := i', ss_l_field := l'\<rparr> = set_mismatch st i' l' p"
  "(set_mismatch st i l p)\<lparr>ss_i_mismatch := i', ss_l_field := l', ss_p_mismatch := p'\<rparr> = set_mismatch st i' l' p'"
  by (simp_all add: set_mismatch_def)

lemma set_mismatch_upd:
  "st\<lparr>ss_i_mismatch := i, ss_l_field := l, ss_p_mismatch := p\<rparr> = set_mismatch st i l p"
  by (simp add: set_mismatch_def)

lemma set_mismatch_again: "set_mismatch (set_mismatch st i l p) i' l' p' = set_mismatch st i' l' p'"
  by (simp add: set_mismatch_def)

lemma field_cases:
  fixes c e :: "'a::linorder list"
  obtains (Mismatch) "lcp c e < min (length c) (length e)" "c \<noteq> e" "e < c \<longleftrightarrow> e ! lcp c e < c ! lcp c e"
      "c ! lcp c e \<noteq> e ! lcp c e"
    | (Longer) "lcp c e = length e" "length e < length c" "c \<noteq> e" "e < c"
    | (Shorter) "lcp c e = length c" "length c < length e" "c \<noteq> e" "\<not> e < c"
    | (Same) "c = e"
proof (cases "lcp c e < min (length c) (length e)")
  case True
  then have l: "lcp e c < length e" "lcp e c < length c"
    by (simp_all add: lcp_commute)
  have "e < c \<longleftrightarrow> e ! lcp c e < c ! lcp c e" "c < e \<longleftrightarrow> c ! lcp c e < e ! lcp c e"
    using lcp_less_iff [OF l] lcp_less_iff [of c e] True by (simp_all add: lcp_commute [of e c])
  moreover have "c \<noteq> e"
    using True by auto
  ultimately show thesis
    using Mismatch True by (metis neq_iff)
next
  case False
  then have m: "lcp c e = min (length c) (length e)"
    using lcp_le [of c e] by (auto simp: min_def not_less)
  consider "length c = length e" | "length e < length c" | "length c < length e"
    by linarith
  then show thesis
  proof cases
    case 1
    then show ?thesis
      using Same lcp_full [OF m] by blast
  next
    case 2
    have "c = e @ drop (length e) c"
      using lcp_take [of c e] m 2 append_take_drop_id [of "length e" c] by simp
    moreover have "drop (length e) c \<noteq> []"
      using 2 by simp
    ultimately have "e < c"
      using append_le [of e "drop (length e) c"] 2 by (metis order.strict_iff_order less_irrefl)
    then show ?thesis
      using Longer m 2 by auto
  next
    case 3
    have "e = c @ drop (length c) e"
      using lcp_take [of c e] m 3 append_take_drop_id [of "length c" e] by simp
    then have "c \<le> e"
      using append_le [of c "drop (length c) e"] by simp
    then have "\<not> e < c"
      by simp
    moreover have "c \<noteq> e"
      using 3 by auto
    ultimately show ?thesis
      using Shorter m 3 by simp
  qed
qed

lemma word_of_nat32_less:
  "m < 4294967296 \<Longrightarrow> n < 4294967296 \<Longrightarrow> (word_of_nat m :: u32) < word_of_nat n \<longleftrightarrow> m < n"
  by (simp add: word_less_nat_alt unat_word_of_nat32)

lemma search_round_same:
  assumes "vtpl_fits (c # cs)" "vtpl_fits (c # es)" "k \<le> length c"
    and "ss_p_key_end st = length (pre1 @ c @ fields_bytes cs)" "p_ie_end = length (pre2 @ c @ fields_bytes es)"
    and "p1 = length pre1 + k" "p2 = length pre2 + k"
    and "key = pre1 @ c @ fields_bytes cs @ x" "ie = pre2 @ c @ fields_bytes es @ y"
  shows "search_loop key ie p_ie_end d st (set_mismatch st i (word_of_nat (length c)) p1) (word_of_nat k)
      (min (word_of_nat (length c)) (word_of_nat (length c))) (word_of_nat (length c)) p2 =
    (if cs = [] then if es = []
       then let fn = call_cmp_fn st d in
         if fn > 0 then (fn, set_mismatch st (i + word_of_nat (length c)) 0 (length pre1 + length c))
         else (fn, st\<lparr>ss_i_ob1_mismatch := i + word_of_nat (length c)\<rparr>)
       else (- 1, st)
     else let ss = set_mismatch st (i + (word_of_nat (length c) + 1)) (word_of_nat (length (hd cs)))
         (length (pre1 @ c @ va_lenfield (length (hd cs))))
       in if es = [] then (1, ss)
          else search_loop key ie p_ie_end d st ss 0 (min (word_of_nat (length (hd cs))) (word_of_nat (length (hd es))))
            (word_of_nat (length (hd es))) (length (pre2 @ c @ va_lenfield (length (hd es)))))"
proof -
  let ?n = "length c"
  have sz: "?n < 4294967296" "k < 4294967296"
    using vtpl_fits_word [OF assms(1)] assms(3) by auto
  have dk: "drop p1 key = drop k c @ fields_bytes cs @ x" "drop p2 ie = drop k c @ fields_bytes es @ y"
    using assms(3,6-9) by simp_all
  have ki: "(word_of_nat k :: u32) + word_of_nat (?n - k) = word_of_nat ?n" "p1 + (?n - k) = length pre1 + ?n"
      "p2 + (?n - k) = length pre2 + ?n"
    using assms(3,6,7) by (simp_all add: of_nat_diff)
  have st: "step_bytes (unat (min (word_of_nat ?n) (word_of_nat ?n) :: u32) - unat (word_of_nat k :: u32))
      (drop p1 key) (drop p2 ie) = (0, ?n - k)"
    unfolding min_of_nat32 [OF sz(1,1)] unat_word_of_nat32 [OF sz(2)] dk
    using step_bytes_from [of k c c] assms(3) by simp
  have pe: "p_ie_end \<le> length pre2 + ?n \<longleftrightarrow> es = []" "ss_p_key_end st \<le> length pre1 + ?n \<longleftrightarrow> cs = []"
    using assms(4,5) fields_bytes_Nil_iff [of es] fields_bytes_Nil_iff [of cs] by simp_all
  have nl: "(word_of_nat ?n - word_of_nat ?n :: u32) = 0"
    by simp
  have field: "snd (va_getdata (drop (length pre + ?n) (pre @ c @ fields_bytes gs @ z))) = word_of_nat (length (hd gs))"
      "length pre + ?n + va_lenlen (drop (length pre + ?n) (pre @ c @ fields_bytes gs @ z)) =
        length (pre @ c @ va_lenfield (length (hd gs)))"
    if "gs \<noteq> []" "vtpl_fits (c # gs)" for pre gs z
  proof -
    have "vtpl_fits (hd gs # tl gs)"
      using that vtpl_fits_Cons by simp
    note r = first_field_reads [OF this, of z]
    have "drop (length pre + ?n) (pre @ c @ fields_bytes gs @ z) = fields_bytes (hd gs # tl gs) @ z"
      using that(1) by simp
    then show "snd (va_getdata (drop (length pre + ?n) (pre @ c @ fields_bytes gs @ z))) = word_of_nat (length (hd gs))"
      "length pre + ?n + va_lenlen (drop (length pre + ?n) (pre @ c @ fields_bytes gs @ z)) =
        length (pre @ c @ va_lenfield (length (hd gs)))"
      using r(1,2) by (simp_all del: fields_bytes_simps)
  qed
  consider "cs = []" | "cs \<noteq> []" "es = []" | "cs \<noteq> []" "es \<noteq> []"
    by blast
  then show ?thesis
  proof cases
    case 1
    show ?thesis
      by (subst search_loop.simps)
        (simp only: st prod.case ki Let_def pe 1 nl less_irrefl set_mismatch_simps set_mismatch_upd
          if_True if_False not_False_eq_True simp_thms)
  next
    case 2
    note f = field [OF 2(1) assms(1), of pre1 x, folded assms(8)]
    show ?thesis
      by (subst search_loop.simps)
        (simp only: st prod.case ki Let_def pe 2 nl less_irrefl set_mismatch_simps set_mismatch_upd set_mismatch_again f
          if_True if_False not_False_eq_True simp_thms)
  next
    case 3
    note f = field [OF 3(1) assms(1), of pre1 x, folded assms(8)]
    note g = field [OF 3(2) assms(2), of pre2 y, folded assms(9)]
    show ?thesis
      by (subst search_loop.simps)
        (simp only: st prod.case ki Let_def pe 3 nl less_irrefl set_mismatch_simps set_mismatch_upd set_mismatch_again f g
          if_True if_False not_False_eq_True simp_thms)
  qed
qed

text \<open>One round, entered with \<open>k\<close> bytes of the two fields compared already.\<close>

lemma search_round:
  assumes "vtpl_fits (c # cs)" "vtpl_fits (e # es)" "k \<le> lcp c e"
    and "ss_p_key_end st = length (pre1 @ c @ fields_bytes cs)" "p_ie_end = length (pre2 @ e @ fields_bytes es)"
    and "p1 = length pre1 + k" "p2 = length pre2 + k"
    and "key = pre1 @ c @ fields_bytes cs @ x" "ie = pre2 @ e @ fields_bytes es @ y"
  shows "search_loop key ie p_ie_end d st (set_mismatch st i (word_of_nat (length c)) p1) (word_of_nat k)
      (min (word_of_nat (length c)) (word_of_nat (length e))) (word_of_nat (length e)) p2 =
    (let m = lcp c e; found = set_mismatch st (i + word_of_nat m) (word_of_nat (length c - m)) (length pre1 + m) in
     if c \<noteq> e then if e < c then (1, found) else (- 1, st\<lparr>ss_i_ob1_mismatch := i + word_of_nat m\<rparr>)
     else if cs = [] then if es = []
       then let fn = call_cmp_fn st d in
         if fn > 0 then (fn, found) else (fn, st\<lparr>ss_i_ob1_mismatch := i + word_of_nat m\<rparr>)
       else (- 1, st)
     else let ss = set_mismatch st (i + (word_of_nat (length c) + 1)) (word_of_nat (length (hd cs)))
         (length (pre1 @ c @ va_lenfield (length (hd cs))))
       in if es = [] then (1, ss)
          else search_loop key ie p_ie_end d st ss 0 (min (word_of_nat (length (hd cs))) (word_of_nat (length (hd es))))
            (word_of_nat (length (hd es))) (length (pre2 @ e @ va_lenfield (length (hd es)))))"
proof -
  let ?m = "lcp c e"
  have sz: "length c < 4294967296" "length e < 4294967296" "?m \<le> length c" "?m \<le> length e"
    using vtpl_fits_word [OF assms(1)] vtpl_fits_word [OF assms(2)] lcp_le by blast+
  have k: "unat (word_of_nat k :: u32) = k"
    using sz assms(3) by (intro unat_word_of_nat32) simp
  have dk: "drop p1 key = drop k c @ fields_bytes cs @ x" "drop p2 ie = drop k e @ fields_bytes es @ y"
    using assms(3,6-9) sz by simp_all
  have ki: "(word_of_nat k :: u32) + word_of_nat (?m - k) = word_of_nat ?m" "p1 + (?m - k) = length pre1 + ?m"
      "p2 + (?m - k) = length pre2 + ?m"
    using assms(3,6,7) by (simp_all add: of_nat_diff)
  have step: "step_bytes (unat (min (word_of_nat (length c)) (word_of_nat (length e)) :: u32) - unat (word_of_nat k :: u32))
      (drop p1 key) (drop p2 ie) =
    (if ?m < min (length c) (length e) then (uint (c ! ?m) - uint (e ! ?m), ?m - k)
     else (0, min (length c) (length e) - k))"
    unfolding k dk min_of_nat32 [OF sz(1,2)] by (rule step_bytes_from [OF assms(3)])
  show ?thesis
  proof (cases rule: field_cases [of c e])
    case Mismatch
    have u: "uint (c ! ?m) - uint (e ! ?m) > 0 \<longleftrightarrow> e < c" "uint (c ! ?m) - uint (e ! ?m) < 0 \<longleftrightarrow> \<not> e < c"
      using Mismatch(3,4) by (auto simp: word_less_def word_uint_eq_iff)
    have st: "step_bytes (unat (min (word_of_nat (length c)) (word_of_nat (length e)) :: u32) - unat (word_of_nat k :: u32))
        (drop p1 key) (drop p2 ie) = (uint (c ! ?m) - uint (e ! ?m), ?m - k)"
      unfolding step if_P [OF Mismatch(1)] ..
    show ?thesis
      by (cases "e < c"; subst search_loop.simps)
        (simp_all only: st prod.case Mismatch(2) u ki Let_def of_nat_diff32 [OF sz(3)] set_mismatch_simps
          if_True if_False not_False_eq_True simp_thms set_mismatch_upd)
  next
    case Longer
    then have st: "step_bytes (unat (min (word_of_nat (length c)) (word_of_nat (length e)) :: u32) - unat (word_of_nat k :: u32))
        (drop p1 key) (drop p2 ie) = (0, ?m - k)"
      using step by simp
    have l: "(word_of_nat ?m :: u32) < word_of_nat (length c)"
      using Longer sz by (simp add: word_of_nat32_less)
    show ?thesis
      by (subst search_loop.simps)
        (simp only: st prod.case Longer(3,4) ki Let_def l of_nat_diff32 [OF sz(3)] set_mismatch_simps
          less_irrefl if_True if_False not_False_eq_True simp_thms)
  next
    case Shorter
    then have st: "step_bytes (unat (min (word_of_nat (length c)) (word_of_nat (length e)) :: u32) - unat (word_of_nat k :: u32))
        (drop p1 key) (drop p2 ie) = (0, ?m - k)"
      using step by simp
    have l: "\<not> (word_of_nat ?m :: u32) < word_of_nat (length c)" "(word_of_nat ?m :: u32) \<noteq> word_of_nat (length e)"
      using Shorter sz word_of_nat32_inject [of ?m "length e"] by (simp_all add: word_of_nat32_less)
    show ?thesis
      by (subst search_loop.simps)
        (simp only: st prod.case Shorter(3,4) ki Let_def l set_mismatch_simps
          less_irrefl if_True if_False not_False_eq_True simp_thms)
  next
    case Same
    show ?thesis
      using search_round_same [of c cs es k st pre1 p_ie_end pre2 p1 p2 key x ie y d i] assms Same by (simp add: Let_def)
  qed
qed

section \<open>What a step decides\<close>

text \<open>The state keeps a key, from the mismatch on: index, length of the field, place in the key.\<close>

definition search_rep :: "vtpl_t \<Rightarrow> ('k, 'd) search_state \<Rightarrow> nat \<times> u8 list list \<Rightarrow> bool" where
  "search_rep key st = (\<lambda>(i, cs). cs \<noteq> [] \<and> ss_i_mismatch st = word_of_nat i \<and> ss_l_field st = word_of_nat (length (hd cs)) \<and>
    (\<exists>pre x. key = pre @ hd cs @ fields_bytes (tl cs) @ x \<and> ss_p_mismatch st = length pre \<and>
      ss_p_key_end st = length (pre @ hd cs @ fields_bytes (tl cs))))"

text \<open>What the comparison of equal v-tuples gives, and of others.\<close>

definition step_result :: "('k, 'd) search_state \<Rightarrow> 'd \<Rightarrow> u8 list list \<Rightarrow> u8 list list \<Rightarrow> int" where
  "step_result st d cs es = (if cs = es then sgn (call_cmp_fn st d) else three_way cs es)"

definition step_ok ::
  "vtpl_t \<Rightarrow> ('k, 'd) search_state \<Rightarrow> 'd \<Rightarrow> nat \<Rightarrow> u8 list list \<Rightarrow> u8 list list \<Rightarrow> int \<times> ('k, 'd) search_state \<Rightarrow> bool" where
  "step_ok key st d i cs es = (\<lambda>(r, st'). sgn r = step_result st d cs es \<and>
    (0 < r \<longrightarrow> search_rep key st' (i + fst (cmpr es cs), snd (cmpr es cs)) \<and>
      (\<exists>j l p. st' = set_mismatch st j l p)) \<and>
    (r \<le> 0 \<longrightarrow> st'\<lparr>ss_i_ob1_mismatch := 0\<rparr> = st\<lparr>ss_i_ob1_mismatch := 0\<rparr>))"

lemma step_ok_found:
  assumes "0 < r" "sgn r = step_result st d cs es" "snd (cmpr es cs) = h # hs"
    and "j = word_of_nat (i + fst (cmpr es cs))" "l = word_of_nat (length h)"
    and "key = pre @ h @ fields_bytes hs @ x" "p = length pre" "ss_p_key_end st = length (pre @ h @ fields_bytes hs)"
  shows "step_ok key st d i cs es (r, set_mismatch st j l p)"
  using assms unfolding step_ok_def search_rep_def by auto

lemma step_ok_not:
  "r \<le> 0 \<Longrightarrow> sgn r = step_result st d cs es \<Longrightarrow> st'\<lparr>ss_i_ob1_mismatch := 0\<rparr> = st\<lparr>ss_i_ob1_mismatch := 0\<rparr> \<Longrightarrow>
    step_ok key st d i cs es (r, st')"
  by (simp add: step_ok_def)

lemma search_loop_differ:
  assumes "vtpl_fits (c # cs)" "vtpl_fits (e # es)" "k \<le> lcp c e"
    and "ss_p_key_end st = length (pre1 @ c @ fields_bytes cs)" "p_ie_end = length (pre2 @ e @ fields_bytes es)"
    and "p1 = length pre1 + k" "p2 = length pre2 + k"
    and "key = pre1 @ c @ fields_bytes cs @ x" "ie = pre2 @ e @ fields_bytes es @ y" "c \<noteq> e"
  shows "step_ok key st d i (c # cs) (e # es) (search_loop key ie p_ie_end d st
    (set_mismatch st (word_of_nat i) (word_of_nat (length c)) p1) (word_of_nat k)
    (min (word_of_nat (length c)) (word_of_nat (length e))) (word_of_nat (length e)) p2)"
proof -
  let ?m = "lcp c e"
  have cm: "cmpr (e # es) (c # cs) = (?m, drop ?m c # cs)"
    using assms(10) by (simp add: lcp_commute [of e c])
  have key: "key = (pre1 @ take ?m c) @ drop ?m c @ fields_bytes cs @ x" "length pre1 + ?m = length (pre1 @ take ?m c)"
      "ss_p_key_end st = length ((pre1 @ take ?m c) @ drop ?m c @ fields_bytes cs)"
    using assms(4,8) lcp_le(1) [of c e] by simp_all
  show ?thesis
  proof (cases "e < c")
    case True
    have "step_ok key st d i (c # cs) (e # es)
        (1, set_mismatch st (word_of_nat i + word_of_nat ?m) (word_of_nat (length c - ?m)) (length pre1 + ?m))"
    proof (rule step_ok_found [OF _ _ _ _ _ key])
      show "sgn 1 = step_result st d (c # cs) (e # es)"
        using True assms(10) by (auto simp: step_result_def three_way_def)
    qed (simp_all add: cm del: cmpr.simps)
    then show ?thesis
      unfolding search_round [OF assms(1-9)] using assms(10) True by (simp add: Let_def)
  next
    case False
    then show ?thesis
      unfolding search_round [OF assms(1-9)] using assms(10)
      by (auto simp: Let_def step_result_def three_way_def intro!: step_ok_not)
  qed
qed

lemma step_ok_same_field:
  assumes "step_ok key st d (i + (length c + 1)) cs es rs" "cs \<noteq> []" "es \<noteq> []"
  shows "step_ok key st d i (c # cs) (c # es) rs"
proof -
  have "step_result st d (c # cs) (c # es) = step_result st d cs es"
    by (auto simp: step_result_def three_way_def)
  then show ?thesis
    using assms by (auto simp: step_ok_def add_ac)
qed

lemma search_loop_order:
  assumes "vtpl_fits (c # cs)" "vtpl_fits (e # es)" "k \<le> lcp c e"
    and "ss_p_key_end st = length (pre1 @ c @ fields_bytes cs)" "p_ie_end = length (pre2 @ e @ fields_bytes es)"
    and "p1 = length pre1 + k" "p2 = length pre2 + k"
    and "key = pre1 @ c @ fields_bytes cs @ x" "ie = pre2 @ e @ fields_bytes es @ y"
  shows "step_ok key st d i (c # cs) (e # es) (search_loop key ie p_ie_end d st
    (set_mismatch st (word_of_nat i) (word_of_nat (length c)) p1) (word_of_nat k)
    (min (word_of_nat (length c)) (word_of_nat (length e))) (word_of_nat (length e)) p2)"
  using assms
proof (induction cs arbitrary: c e es k pre1 pre2 p1 p2 i)
  case Nil
  show ?case
  proof (cases "c = e")
    case False
    then show ?thesis
      by (rule search_loop_differ [OF Nil.prems])
  next
    case True
    have r: "step_ok key st d i [c] [c] (fn, set_mismatch st (word_of_nat i + word_of_nat (length c)) 0 (length pre1 + length c))"
      if "0 < fn" "fn = call_cmp_fn st d" for fn
      by (rule step_ok_found [where pre = "pre1 @ c" and x = x and h = "[]" and hs = "[]"])
        (use that Nil.prems(4,8) in \<open>auto simp: step_result_def\<close>)
    show ?thesis
      using search_round_same [of c "[]" es k st pre1 p_ie_end pre2 p1 p2 key x ie y d "word_of_nat i"] Nil.prems True r
      by (auto simp: Let_def step_result_def three_way_def short_order(1) intro!: step_ok_not)
  qed
next
  case (Cons c' cs')
  show ?case
  proof (cases "c = e")
    case False
    then show ?thesis
      by (rule search_loop_differ [OF Cons.prems])
  next
    case True
    let ?pre1 = "pre1 @ c @ va_lenfield (length c')"
    let ?ss = "set_mismatch st (word_of_nat i + (word_of_nat (length c) + 1)) (word_of_nat (length c')) (length ?pre1)"
    have key: "key = ?pre1 @ c' @ fields_bytes cs' @ x" "ss_p_key_end st = length (?pre1 @ c' @ fields_bytes cs')"
      using Cons.prems(4,8) by (simp_all add: va_encode_def)
    show ?thesis
    proof (cases es)
      case Nil
      have "step_ok key st d i (c # c' # cs') [c] (1, ?ss)"
        by (rule step_ok_found [OF _ _ _ _ _ key(1) refl key(2)]) (auto simp: step_result_def three_way_def)
      then show ?thesis
        using search_round_same [of c "c' # cs'" es k st pre1 p_ie_end pre2 p1 p2 key x ie y d "word_of_nat i"] Cons.prems True Nil
        by (simp add: Let_def)
    next
      case es: (Cons e' es')
      let ?pre2 = "pre2 @ e @ va_lenfield (length e')"
      have ie: "ie = ?pre2 @ e' @ fields_bytes es' @ y" "p_ie_end = length (?pre2 @ e' @ fields_bytes es')"
        using Cons.prems(5,9) es by (simp_all add: va_encode_def)
      have fits: "vtpl_fits (c' # cs')" "vtpl_fits (e' # es')"
        using vtpl_fits_Cons [OF Cons.prems(1)] vtpl_fits_Cons [OF Cons.prems(2)] es by auto
      have "step_ok key st d (i + (length c + 1)) (c' # cs') (e' # es') (search_loop key ie p_ie_end d st
          (set_mismatch st (word_of_nat (i + (length c + 1))) (word_of_nat (length c')) (length ?pre1)) (word_of_nat 0)
          (min (word_of_nat (length c')) (word_of_nat (length e'))) (word_of_nat (length e')) (length ?pre2))"
        by (rule Cons.IH [OF fits _ key(2) ie(2) _ _ key(1) ie(1)]) simp_all
      from step_ok_same_field [OF this] have "step_ok key st d i (c # c' # cs') (c # e' # es') (search_loop key ie p_ie_end d st ?ss 0
          (min (word_of_nat (length c')) (word_of_nat (length e'))) (word_of_nat (length e')) (length ?pre2))"
        by (simp add: add_ac)
      then show ?thesis
        using search_round_same [of c "c' # cs'" es k st pre1 p_ie_end pre2 p1 p2 key x ie y d "word_of_nat i"] Cons.prems True es
        by (simp add: Let_def add_ac)
    qed
  qed
qed

lemma set_mismatch_self: "set_mismatch st (ss_i_mismatch st) (ss_l_field st) (ss_p_mismatch st) = st"
  by (simp add: set_mismatch_def)

lemma step_fn_order:
  assumes "search_rep key st (i, cs)" "vtpl_fits cs" "vtpl_fits es" "es \<noteq> []"
  shows "step_ok key st d i cs es (vtpl_search_step_fn key st (vtpl_encode es @ y) d)"
proof -
  obtain c gs where cs: "cs = c # gs"
    using assms(1) by (cases cs) (auto simp: search_rep_def)
  obtain e hs where es: "es = e # hs"
    using assms(4) by (cases es) auto
  obtain pre x where key: "key = pre @ c @ fields_bytes gs @ x" "ss_p_mismatch st = length pre"
      "ss_p_key_end st = length (pre @ c @ fields_bytes gs)"
    using assms(1) cs by (auto simp: search_rep_def)
  have st: "ss_i_mismatch st = word_of_nat i" "ss_l_field st = word_of_nat (length c)"
    using assms(1) cs by (auto simp: search_rep_def)
  have fits: "vtpl_fits (c # gs)" "vtpl_fits (e # hs)" "length c < 4294967296" "length e < 4294967296"
    using assms(2,3) cs es vtpl_fits_word by auto
  let ?C = "length (fields_bytes (e # hs))" and ?pre = "va_lenfield (length (fields_bytes (e # hs))) @ va_lenfield (length e)"
  let ?ie = "vtpl_encode (e # hs) @ y"
  have ie: "?ie = ?pre @ e @ fields_bytes hs @ y" "length (va_lenfield ?C) + ?C = length (?pre @ e @ fields_bytes hs)"
      "length (va_lenfield ?C) + length (va_lenfield (length e)) = length ?pre"
    by (simp_all add: vtpl_encode_def va_encode_def)
  have C: "?C < 4294967296"
    using fits(2) by (simp add: vtpl_fits_def)
  have loop: "step_ok key st d i (c # gs) (e # hs) (search_loop key ?ie (length (va_lenfield ?C) + ?C) d st
      (set_mismatch st (word_of_nat i) (word_of_nat (length c)) p1) (word_of_nat k)
      (min (word_of_nat (length c)) (word_of_nat (length e))) (word_of_nat (length e)) p2)"
    if "k \<le> lcp c e" "p1 = length pre + k" "p2 = length ?pre + k" for k p1 p2
    by (rule search_loop_order [OF fits(1,2) that(1) key(3) ie(2) that(2,3) key(1) ie(1)])
  have self: "set_mismatch st (word_of_nat i) (word_of_nat (length c)) (length pre) = st"
    using set_mismatch_self [of st] key(2) st by simp
  have self1: "st\<lparr>ss_p_mismatch := length pre + 1\<rparr> = set_mismatch st (word_of_nat i) (word_of_nat (length c)) (length pre + 1)"
    using self by (metis set_mismatch_simps(8))
  have min0: "min (word_of_nat (length c)) (word_of_nat (length e)) = (0 :: u32) \<longleftrightarrow> c = [] \<or> e = []"
    using min_of_nat32 [OF fits(3,4)] by (metis length_0_conv min_0L min_0R min_def unat_0 unat_eq_zero)
  have unf: "vtpl_search_step_fn key st ?ie d =
    (if \<not> ss_i_ob1_inuse st \<and> \<not> (c = [] \<or> e = [])
     then if uint (key ! length pre) - uint (?ie ! length ?pre) \<noteq> 0
       then (uint (key ! length pre) - uint (?ie ! length ?pre), st)
       else search_loop key ?ie (length (va_lenfield ?C) + ?C) d st
         (set_mismatch st (word_of_nat i) (word_of_nat (length c)) (length pre + 1)) 1
         (min (word_of_nat (length c)) (word_of_nat (length e))) (word_of_nat (length e)) (length ?pre + 1)
     else search_loop key ?ie (length (va_lenfield ?C) + ?C) d st st 0
         (min (word_of_nat (length c)) (word_of_nat (length e))) (word_of_nat (length e)) (length ?pre))"
    unfolding vtpl_search_step_fn_def Let_def vtpl_reads [OF fits(2)] first_field_reads(1,2) [OF fits(2)]
      unat_word_of_nat32 [OF C] st(2) key(2) ie(3) self1 min0 ..
  show ?thesis
  proof (cases "\<not> ss_i_ob1_inuse st \<and> \<not> (c = [] \<or> e = [])")
    case False
    then show ?thesis
      using loop [of 0 "length pre" "length ?pre"] unfolding cs es unf if_not_P [OF False] self by simp
  next
    case True
    obtain c0 cr e0 er where ce: "c = c0 # cr" "e = e0 # er"
      using True by (cases c; cases e) auto
    have hd: "(u @ v @ w) ! length u = hd v" if "v \<noteq> []" for u v w :: "u8 list"
      using that by (cases v) auto
    have "key ! length pre = hd c" "?ie ! length ?pre = hd e"
      unfolding ie(1) key(1) by (rule hd, simp add: ce)+
    then have b: "key ! length pre = c0" "?ie ! length ?pre = e0"
      by (simp_all only: ce list.sel)
    show ?thesis
    proof (cases "c0 = e0")
      case eq: True
      then show ?thesis
        using loop [of 1 "length pre + 1" "length ?pre + 1"] True unfolding cs es unf b by (simp add: ce)
    next
      case False
      let ?r = "uint c0 - uint e0"
      have r: "?r \<noteq> 0"
        using False by (simp add: word_uint_eq_iff)
      have sgn: "sgn ?r = step_result st d (c # gs) (e # hs)"
        using False by (auto simp: ce step_result_def three_way_def word_less_def sgn_if word_uint_eq_iff)
      have "step_ok key st d i (c # gs) (e # hs) (?r, st)"
      proof (cases "0 < ?r")
        case True
        have "snd (cmpr (e # hs) (c # gs)) = c # gs" "word_of_nat i = word_of_nat (i + fst (cmpr (e # hs) (c # gs)))"
          using False by (auto simp: ce)
        from step_ok_found [OF True sgn this refl key(1) refl key(3)] show ?thesis
          unfolding self .
      qed (use sgn in \<open>simp add: step_ok_not\<close>)
      then show ?thesis
        using True r unfolding cs es unf b by simp
    qed
  qed
qed

end
