(* ===== verification/Vtpl_Index.thy ===== *)
theory Vtpl_Index
  imports Vtpl_Search
begin

text \<open>
  The properties of compressed index entries: expanding gives back what was compressed, a split
  v-tuple separates its neighbours, and a search step compares the key with the entry.
\<close>

section \<open>Expansion\<close>

lemma setva_encode:
  "va_fits d \<Longrightarrow> va_setva target (va_encode d @ y) = va_encode d @ drop (length (va_encode d)) target"
  by (simp add: va_setva_def)

lemma expand_cmpr:
  assumes "vtpl_fits prev" "vtpl_fits next" "prev \<noteq> []" "next \<noteq> []"
  shows "\<exists>r. vtpl_expand target (vtpl_encode prev @ x) (vtpl_encode (snd (cmpr prev next)) @ y)
    (word_of_nat (fst (cmpr prev next))) = vtpl_encode next @ r"
proof -
  let ?i = "fst (cmpr prev next)"
  obtain c cs where c: "snd (cmpr prev next) = c # cs"
    using cmpr_nonempty [OF assms(4), of prev] by (cases "snd (cmpr prev next)") auto
  have f: "vtpl_fits (c # cs)" "?i < 4294967296"
    using cmpr_fits [OF assms(4,2), of prev] by (simp_all add: c)
  have ex: "expd prev ?i (c # cs) = next"
    using expd_cmpr [OF assms(3,4)] c by simp
  show ?thesis
  proof (cases "?i = 0")
    case True
    then have "next = c # cs"
      using cmpr_pos [OF assms(3,4)] ex c by simp
    then show ?thesis
      using True setva_encode [OF vtpl_fits_va [OF assms(2)], of target y] c
      by (auto simp: vtpl_expand_def vtpl_encode_def)
  next
    case False
    then have "(word_of_nat ?i :: u32) \<noteq> 0"
      using word_of_nat32_inject [OF f(2), of 0] by simp
    then show ?thesis
      using uti_expand_expd [OF assms(1,3) f(1) cmpr_idx_ok f(2), unfolded ex, OF assms(2)]
      unfolding vtpl_expand_def c by simp
  qed
qed

text \<open>
  A v-tuple that was compressed against another one and is expanded with the same one is the
  v-tuple again, for every two v-tuples of at least one field, in all length formats, whatever the
  target buffer has in it.
\<close>

theorem vtpl_expand_compress:
  assumes "vtpl_fits prev" "vtpl_fits next" "prev \<noteq> []" "next \<noteq> []" "10 \<le> length buf"
  shows "\<exists>r. (case vtpl_compress buf (vtpl_encode prev @ x) (vtpl_encode next @ y) of
    (compressed, i_mismatch) \<Rightarrow> vtpl_expand target (vtpl_encode prev @ x) compressed i_mismatch) =
    vtpl_encode next @ r"
  using expand_cmpr [OF assms(1-4)] unfolding vtpl_compress_cmpr [OF assms(1-5)] by simp

text \<open>A field of the long format that grows out of a short one.\<close>

theorem vtpl_expand_compress_witness:
  "\<exists>r. (case vtpl_compress (replicate 10 0) (vtpl_encode [[1, 2], [3]] @ replicate 300 0) (vtpl_encode [[1, 2], 3 # replicate 253 4] @ []) of
    (compressed, i_mismatch) \<Rightarrow> vtpl_expand (replicate 300 0)
      (vtpl_encode [[1, 2], [3]] @ replicate 300 0) compressed i_mismatch) = vtpl_encode [[1, 2], 3 # replicate 253 4] @ r"
  by (rule vtpl_expand_compress) (simp_all add: vtpl_fits_def vtpl_encode_def encode_length)

section \<open>Separators\<close>

lemma split_length:
  fixes t :: "u8 list list"
  assumes "t \<noteq> []" "u \<noteq> []"
  shows "length (fields_bytes (split_fields t (fst (cmpr t u)) (snd (cmpr t u)))) \<le> length (fields_bytes u)"
proof -
  obtain a b j where pt: "expd_point t (fst (cmpr t u)) = (a, b, j)"
    by (metis prod_cases3)
  obtain c cs where c: "snd (cmpr t u) = c # cs"
    using cmpr_nonempty [OF assms(2), of t] by (cases "snd (cmpr t u)") auto
  have "u = a @ (take j (hd b) @ c) # cs"
    using expd_via_point [OF pt cmpr_idx_ok assms(1), of c cs] expd_cmpr [OF assms] c by simp
  moreover have "split_fields t (fst (cmpr t u)) (c # cs) = a @ [if b = [] then [] else take j (hd b) @ take 1 c]"
    by (rule split_via_point [OF pt cmpr_idx_ok assms(1)])
  ultimately show ?thesis
    using c by (auto simp: encode_length)
qed

text \<open>
  C32. The split v-tuple of two ascending neighbours, the greater one given in its compressed form, is
  greater than the smaller neighbour and not greater than the other, in the order of
  \<^verbatim>\<open>vtpl_compare\<close>, so that it may separate the two in an index node.
\<close>

theorem vtpl_split_separates:
  assumes "vtpl_fits prev" "vtpl_fits next" "prev \<noteq> []" "prev < next" "10 \<le> length buf"
  shows "case vtpl_compress buf (vtpl_encode prev @ x) (vtpl_encode next @ y) of (compressed, i_mismatch) \<Rightarrow>
    vtpl_compare (vtpl_encode prev @ x) (vtpl_find_split target (vtpl_encode prev @ x) compressed i_mismatch) < 0 \<and>
    vtpl_compare (vtpl_find_split target (vtpl_encode prev @ x) compressed i_mismatch) (vtpl_encode next @ y) \<le> 0"
proof -
  let ?i = "fst (cmpr prev next)" and ?s = "split_fields prev (fst (cmpr prev next)) (snd (cmpr prev next))"
  have ne: "next \<noteq> []"
    using assms(4) by auto
  obtain c cs where c: "snd (cmpr prev next) = c # cs"
    using cmpr_nonempty [OF ne, of prev] by (cases "snd (cmpr prev next)") auto
  have f: "vtpl_fits (c # cs)" "?i < 4294967296" "vtpl_fits ?s"
    using cmpr_fits [OF ne assms(2), of prev] c split_length [OF assms(3) ne] assms(2) by (simp_all add: vtpl_fits_def)
  obtain a b j where pt: "expd_point prev ?i = (a, b, j)"
    by (metis prod_cases3)
  have b: "fst (snd (expd_point prev ?i)) \<noteq> [] \<longrightarrow> c \<noteq> []"
    using cmpr_point_nonempty [OF assms(4,3) pt] c pt by simp
  obtain r where "uti_expand target (vtpl_encode prev @ x) (vtpl_encode (c # cs) @ drop (length (vtpl_encode (c # cs))) buf)
      (word_of_nat ?i) True = vtpl_encode ?s @ r"
    using uti_expand_split [OF assms(1,3) f(1) cmpr_idx_ok f(2) f(3) [unfolded c] b, of target x] c by auto
  then have "vtpl_find_split target (vtpl_encode prev @ x) (fst (vtpl_compress buf (vtpl_encode prev @ x) (vtpl_encode next @ y)))
      (snd (vtpl_compress buf (vtpl_encode prev @ x) (vtpl_encode next @ y))) = vtpl_encode ?s @ r"
    unfolding vtpl_compress_cmpr [OF assms(1,2,3) ne assms(5)] by (simp add: vtpl_find_split_def c)
  moreover have "prev < ?s" "?s \<le> next"
    using split_between [OF assms(3,4)] by auto
  ultimately show ?thesis
    using vtpl_order.less_iff [of "(prev, x)" "(?s, r)"] vtpl_order.le_iff [of "(?s, r)" "(next, y)"] assms(1,2) f(3) by (simp add: case_prod_beta)
qed

theorem vtpl_split_separates_witness:
  "case vtpl_compress (replicate 10 0) (vtpl_encode [[1, 2], [3, 4]] @ []) (vtpl_encode [[1, 2], [3, 9, 9], [5]] @ []) of (compressed, i_mismatch) \<Rightarrow>
    vtpl_compare (vtpl_encode [[1, 2], [3, 4]] @ []) (vtpl_find_split [] (vtpl_encode [[1, 2], [3, 4]] @ []) compressed i_mismatch) < 0 \<and>
    vtpl_compare (vtpl_find_split [] (vtpl_encode [[1, 2], [3, 4]] @ []) compressed i_mismatch) (vtpl_encode [[1, 2], [3, 9, 9], [5]] @ []) \<le> 0"
  by (rule vtpl_split_separates) (simp_all add: vtpl_fits_def encode_length)

section \<open>Searching\<close>

lemma dbe_step_order:
  fixes t :: "u8 list list"
  assumes "meets t key u \<and> chain_ok t u"
    and "vtpl_fits key" "vtpl_fits u"
    and "search_rep kb st (cmpr t key)" "index = word_of_nat (fst (cmpr t u))"
  shows "step_ok kb st d 0 key u (vtpl_dbe_search_step kb st index (vtpl_encode (snd (cmpr t u)) @ y) d)"
proof -
  have ne: "key \<noteq> []" "u \<noteq> []"
    using assms(1) chain_ok_nonempty meets_nonempty by blast+
  have si: "ss_i_mismatch st = word_of_nat (fst (cmpr t key))"
    using assms(4) by (auto simp: search_rep_def split: prod.splits)
  note b = cmpr_fits [OF ne(1) assms(2), of t] cmpr_fits [OF ne(2) assms(3), of t]
  have "uint (word_of_nat (fst (cmpr t u)) :: u32) = int (fst (cmpr t u))"
      "uint (word_of_nat (fst (cmpr t key)) :: u32) = int (fst (cmpr t key))"
    using b(2,4) by (simp_all add: unsigned_of_nat take_bit_nat_eq_self)
  then have var: "sint (index - ss_i_mismatch st) = int (fst (cmpr t u)) - int (fst (cmpr t key))"
    using b(2,4) unfolding assms(5) si by (simp add: sint_sub32 wrap32_small)
  have chain: "meets t key u" "chain_ok t u"
    using assms(1) by auto
  consider "fst (cmpr t key) = fst (cmpr t u)" | "fst (cmpr t key) < fst (cmpr t u)" | "fst (cmpr t u) < fst (cmpr t key)"
    by linarith
  then show ?thesis
  proof cases
    case 1
    let ?cs = "snd (cmpr t key)" and ?es = "snd (cmpr t u)"
    note o = search_order_chain(1,2) [OF chain 1]
    then have "step_result st d key u = step_result st d ?cs ?es"
      by (auto simp: step_result_def three_way_def split: if_splits)
    moreover have "step_ok kb st d (fst (cmpr t key)) ?cs ?es (vtpl_search_step_fn kb st (vtpl_encode ?es @ y) d)"
      using step_fn_order [of kb st "fst (cmpr t key)" ?cs ?es d y] assms(4) b cmpr_nonempty [OF ne(2)] by simp
    moreover have "vtpl_dbe_search_step kb st index (vtpl_encode ?es @ y) d = vtpl_search_step_fn kb st (vtpl_encode ?es @ y) d"
      unfolding vtpl_dbe_search_step_def var using 1 by simp
    ultimately show ?thesis
      unfolding step_ok_def o(2) by simp
  next
    case 2
    note o = search_order_chain(3,4) [OF chain 2]
    have "step_ok kb st d 0 key u (int (fst (cmpr t u)) - int (fst (cmpr t key)), st)"
      using o 2 assms(4) unfolding step_ok_def step_result_def
      by (auto simp: three_way_def intro: set_mismatch_self [symmetric])
    then show ?thesis
      unfolding vtpl_dbe_search_step_def var using 2 by simp
  next
    case 3
    note o = search_order_chain(5) [OF chain 3]
    have "step_ok kb st d 0 key u (int (fst (cmpr t u)) - int (fst (cmpr t key)), st)"
      using o 3 by (intro step_ok_not) (auto simp: step_result_def three_way_def)
    then show ?thesis
      unfolding vtpl_dbe_search_step_def var using 3 by simp
  qed
qed

end
