(* ===== verification/Va_Int.thy ===== *)
theory Va_Int
  imports Va_Base Ss_Int8
begin

text \<open>
  Integer v-attributes (\<^verbatim>\<open>uti/uti0vai.c\<close>, \<^verbatim>\<open>uti/uti0vai8.c\<close>, \<^verbatim>\<open>include/uti1val.h\<close>): an integer as
  a byte string whose first byte says the sign and the number of the bytes that follow, so that the
  comparison of v-attributes as bytes is the order of the integers. The bytes after the length are the
  value plus \<open>VA_INT_BIAS\<close> where that fits one byte; otherwise the value moved towards zero by 120
  follows in as many bytes as it needs, most significant first. \<^verbatim>\<open>int\<close> and \<^verbatim>\<open>long\<close> have 32 bits, as on
  the platform whose unaligned stores are modelled.
\<close>

section \<open>Constants\<close>

definition VA_INT_BIAS :: int where "VA_INT_BIAS = 0x80"
definition VA_INT_MAX_BYTES :: int where "VA_INT_MAX_BYTES = 8"
definition VA_POS_BIAS :: int where "VA_POS_BIAS = VA_INT_BIAS + VA_INT_MAX_BYTES - 0x100"
definition VA_NEG_BIAS :: int where "VA_NEG_BIAS = VA_INT_BIAS - VA_INT_MAX_BYTES"

lemmas va_bias_defs = VA_INT_BIAS_def VA_INT_MAX_BYTES_def VA_POS_BIAS_def VA_NEG_BIAS_def

section \<open>Storing\<close>

text \<open>The unaligned store writes four bytes, the last of them 0.\<close>

definition STORE_VA_INT3 :: "u8 list \<Rightarrow> int \<Rightarrow> int \<Rightarrow> u32 \<Rightarrow> u8 list" where
  "STORE_VA_INT3 va va_len int1 value =
    buf_write 0 [word_of_int va_len, word_of_int int1, ucast (value AND 0xFF), 0] va"

definition TWO_BYTE_STORE :: "u8 list \<Rightarrow> int \<Rightarrow> int \<Rightarrow> u8 list" where
  "TWO_BYTE_STORE ptr b1 b0 = buf_write 0 [word_of_int b1, word_of_int b0] ptr"

text \<open>The bytes of \<open>mem_value\<close> from \<open>int_len - 1\<close> down, stored from offset \<open>p_va\<close> up.\<close>

fun move_value :: "nat \<Rightarrow> u32 \<Rightarrow> nat \<Rightarrow> u8 list \<Rightarrow> u8 list" where
  "move_value 0 mem_value p_va va = va"
| "move_value (Suc k) mem_value p_va va =
    move_value k mem_value (p_va + 1) (buf_write p_va [ucast (drop_bit (8 * k) mem_value)] va)"

definition va_setint :: "u8 list \<Rightarrow> u32 \<Rightarrow> u8 list" where
  "va_setint target_va value =
    (if VA_INT_MAX_BYTES - VA_INT_BIAS \<le> sint value \<and> sint value \<le> 0xFF - VA_INT_BIAS - VA_INT_MAX_BYTES
     then buf_write 1 [ucast (value + word_of_int VA_INT_BIAS)] (buf_write 0 [1] target_va)
     else if sint value < 0
     then let value = value + word_of_int VA_NEG_BIAS in
       if sint value \<ge> - 0x100 then STORE_VA_INT3 target_va 2 (VA_INT_MAX_BYTES - 1) value
       else let int_len = (if sint value \<ge> - 0x10000 then 2 else if sint value \<ge> - 0x1000000 then 3 else 4) in
         move_value int_len value 2
           (TWO_BYTE_STORE target_va (int int_len + 1) (VA_INT_MAX_BYTES - int int_len))
     else let value = value + word_of_int VA_POS_BIAS in
       if sint value < 0x100 then STORE_VA_INT3 target_va 2 (0x100 - VA_INT_MAX_BYTES) value
       else let int_len = (if sint value < 0x10000 then 2 else if sint value < 0x1000000 then 3 else 4) in
         move_value int_len value 2
           (TWO_BYTE_STORE target_va (int int_len + 1) (0xFF - VA_INT_MAX_BYTES + int int_len)))"

text \<open>With a \<^verbatim>\<open>long\<close> of the size of an \<^verbatim>\<open>int\<close> the range test always succeeds.\<close>

definition va_setlong :: "u8 list \<Rightarrow> u32 \<Rightarrow> u8 list" where
  "va_setlong target_va parvalue = va_setint target_va parvalue"

subsection \<open>64 bits\<close>

definition posbias :: ss_int8_t where "posbias = SsInt8SetInt4 (word_of_int VA_POS_BIAS)"
definition negbias :: ss_int8_t where "negbias = SsInt8SetInt4 (word_of_int VA_NEG_BIAS)"

definition value_0x1111110000000000 :: ss_int8_t where
  "value_0x1111110000000000 = SsInt8Set2Uint4s 0 0x11111100 0"
definition value_0x1111000000000000 :: ss_int8_t where
  "value_0x1111000000000000 = SsInt8Set2Uint4s 0 0x11110000 0"
definition value_0x1100000000000000 :: ss_int8_t where
  "value_0x1100000000000000 = SsInt8Set2Uint4s 0 0x11000000 0"
definition value_0x0000010000000000 :: ss_int8_t where
  "value_0x0000010000000000 = SsInt8Set2Uint4s 0 0x00000100 0"
definition value_0x0001000000000000 :: ss_int8_t where
  "value_0x0001000000000000 = SsInt8Set2Uint4s 0 0x00010000 0"
definition value_0x0100000000000000 :: ss_int8_t where
  "value_0x0100000000000000 = SsInt8Set2Uint4s 0 0x01000000 0"

text \<open>The bytes of the upper half, from right to left.\<close>

fun store_ms :: "nat \<Rightarrow> u32 \<Rightarrow> u8 list \<Rightarrow> u8 list" where
  "store_ms 0 ms_uint4 va = buf_write 2 [ucast ms_uint4] va"
| "store_ms (Suc k) ms_uint4 va = store_ms k (drop_bit 8 ms_uint4) (buf_write (2 + Suc k) [ucast ms_uint4] va)"

definition va_setint8 :: "u8 list \<Rightarrow> ss_int8_t \<Rightarrow> u8 list" where
  "va_setint8 target_va parvalue =
    (let (i4, ok) = SsInt8ConvertToInt4 parvalue in
     if ok then va_setlong target_va i4
     else let (parvalue, long_len, first) =
       (if I8_ISNEG parvalue
        then let parvalue = fst (SsInt8AddUint2 parvalue (word_of_int VA_NEG_BIAS));
                 long_len = (if SsInt8Cmp parvalue value_0x1111110000000000 \<ge> 0 then 5
                   else if SsInt8Cmp parvalue value_0x1111000000000000 \<ge> 0 then 6
                   else if SsInt8Cmp parvalue value_0x1100000000000000 \<ge> 0 then 7 else 8 :: nat)
             in (parvalue, long_len, VA_INT_MAX_BYTES - int long_len)
        else let parvalue = fst (SsInt8AddInt8 parvalue posbias);
                 long_len = (if SsInt8Cmp parvalue value_0x0000010000000000 < 0 then 5
                   else if SsInt8Cmp parvalue value_0x0001000000000000 < 0 then 6
                   else if SsInt8Cmp parvalue value_0x0100000000000000 < 0 then 7 else 8)
             in (parvalue, long_len, 0xFF - VA_INT_MAX_BYTES + int long_len));
       va = TWO_BYTE_STORE target_va (int long_len + 1) first;
       va = store_ms (long_len - 5) (SsInt8GetMostSignificantUint4 parvalue) va
     in buf_write (2 + long_len - 4) (SS_UINT4_STORE_MSB1ST (SsInt8GetLeastSignificantUint4 parvalue)) va)"

section \<open>Reading\<close>

definition va_testnull :: "u8 list \<Rightarrow> bool" where
  "va_testnull va = (va ! 0 = 0)"

fun get_bytes :: "nat \<Rightarrow> u8 list \<Rightarrow> u32 \<Rightarrow> u32" where
  "get_bytes 0 ptr result = result"
| "get_bytes (Suc k) ptr result = get_bytes k (tl ptr) (push_bit 8 result OR ucast (hd ptr))"

text \<open>The null v-attribute stops the program.\<close>

definition va_getint :: "u8 list \<Rightarrow> u32 option" where
  "va_getint va =
    (if va_testnull va then None
     else let first_byte = uint (va ! 1) in
       if VA_INT_MAX_BYTES \<le> first_byte \<and> first_byte \<le> 0xFF - VA_INT_MAX_BYTES
       then Some (scast (word_of_int (first_byte - VA_INT_BIAS) :: u8))
       else if first_byte < VA_INT_MAX_BYTES
       then Some (get_bytes (nat (VA_INT_MAX_BYTES - first_byte)) (drop 2 va) (- 1) - word_of_int VA_NEG_BIAS)
       else Some (get_bytes (nat (first_byte - (0xFF - VA_INT_MAX_BYTES))) (drop 2 va) 0 - word_of_int VA_POS_BIAS))"

text \<open>\<^verbatim>\<open>va_getlong\<close> is written out again in the code, with \<^verbatim>\<open>long\<close> for \<^verbatim>\<open>int\<close>.\<close>

definition va_getlong :: "u8 list \<Rightarrow> u32 option" where
  "va_getlong va =
    (if va_testnull va then None
     else let first_byte = uint (va ! 1) in
       if VA_INT_MAX_BYTES \<le> first_byte \<and> first_byte \<le> 0xFF - VA_INT_MAX_BYTES
       then Some (scast (word_of_int (first_byte - VA_INT_BIAS) :: u8))
       else if first_byte < VA_INT_MAX_BYTES
       then Some (get_bytes (nat (VA_INT_MAX_BYTES - first_byte)) (drop 2 va) (- 1) - word_of_int VA_NEG_BIAS)
       else Some (get_bytes (nat (first_byte - (0xFF - VA_INT_MAX_BYTES))) (drop 2 va) 0 - word_of_int VA_POS_BIAS))"

definition SIZEOF_LONG :: int where "SIZEOF_LONG = 4"

definition va_getlong_check :: "u8 list \<Rightarrow> u32" where
  "va_getlong_check va =
    (if va_testnull va then 0
     else let first_byte = uint (va ! 1) in
       if VA_INT_MAX_BYTES \<le> first_byte \<and> first_byte \<le> 0xFF - VA_INT_MAX_BYTES
       then if \<not> va ! 0 = 1 then 0
         else scast (word_of_int (first_byte - VA_INT_BIAS) :: u8)
       else if first_byte < VA_INT_MAX_BYTES
       then let first_byte = VA_INT_MAX_BYTES - first_byte in
         if \<not> first_byte \<le> SIZEOF_LONG then 0
         else if \<not> uint (va ! 0) = first_byte + 1 then 0
         else let result = get_bytes (nat first_byte) (drop 2 va) (- 1) in
           if \<not> result \<ge> word_of_int (- 0x80000000 + VA_NEG_BIAS) then 0
           else result - word_of_int VA_NEG_BIAS
       else let first_byte = first_byte - (0xFF - VA_INT_MAX_BYTES) in
         if \<not> first_byte \<le> SIZEOF_LONG then 0
         else if \<not> uint (va ! 0) = first_byte + 1 then 0
         else let result = get_bytes (nat first_byte) (drop 2 va) 0 in
           if \<not> result \<le> word_of_int (0x7FFFFFFF + VA_POS_BIAS) then 0
           else result - word_of_int VA_POS_BIAS)"

definition va_getint8 :: "u8 list \<Rightarrow> ss_int8_t option" where
  "va_getint8 p_va =
    (if va_testnull p_va then None
     else let first_byte = uint (p_va ! 1) in
       if VA_INT_MAX_BYTES \<le> first_byte \<and> first_byte \<le> 0xFF - VA_INT_MAX_BYTES
       then Some (SsInt8SetInt4 (scast (word_of_int (first_byte - VA_INT_BIAS) :: u8)))
       else let (len, init, bias) =
         (if first_byte < VA_INT_MAX_BYTES then (nat (VA_INT_MAX_BYTES - first_byte), - 1, negbias)
          else (nat (first_byte - (0xFF - VA_INT_MAX_BYTES)), 0, posbias));
         result_hi = get_bytes (len - 4) (drop 2 p_va) init;
         result_lo = get_bytes (min len 4) (drop (2 + (len - 4)) p_va) init
       in Some (fst (SsInt8SubtractInt8 (SsInt8Set2Uint4s 0 result_hi result_lo) bias)))"

section \<open>The format\<close>

text \<open>The \<open>n\<close> low bytes of an integer, most significant first.\<close>

primrec be_bytes :: "nat \<Rightarrow> int \<Rightarrow> u8 list" where
  "be_bytes 0 x = []"
| "be_bytes (Suc n) x = word_of_int (x div 256 ^ n) # be_bytes n x"

lemma be_bytes_length [simp]: "length (be_bytes n x) = n"
  by (induction n) simp_all

lemma uint_byte_of_int: "uint (word_of_int x :: u8) = x mod 256"
  by (simp add: unsigned_of_int take_bit_eq_mod)

lemma be_val_bytes: "be_val (be_bytes n x) = x mod 256 ^ n"
proof (induction n)
  case (Suc n)
  have "x mod 256 ^ Suc n = x mod (256 ^ n * 256)"
    by (simp add: mult.commute)
  also have "\<dots> = 256 ^ n * (x div 256 ^ n mod 256) + x mod 256 ^ n"
    by (rule zmod_zmult2_eq) simp
  finally show ?case
    using Suc by (simp add: uint_byte_of_int mult.commute)
qed simp

text \<open>
  The data of the v-attribute of \<open>v\<close> with \<open>n\<close> bytes after the first one (0: the value is in the
  first byte), and when \<open>n\<close> bytes are enough.
\<close>

definition vint_data :: "nat \<Rightarrow> int \<Rightarrow> u8 list" where
  "vint_data n v =
    (if n = 0 then [word_of_int (v + 128)]
     else if v < 0 then word_of_int (8 - int n) # be_bytes n (v + 120)
     else word_of_int (247 + int n) # be_bytes n (v - 120))"

definition vint_ok :: "nat \<Rightarrow> int \<Rightarrow> bool" where
  "vint_ok n v \<longleftrightarrow>
    (if - 120 \<le> v \<and> v < 120 then n = 0
     else 1 \<le> n \<and> n \<le> 8 \<and> (if v < 0 then - (256 ^ n) \<le> v + 120 else v - 120 < 256 ^ n))"

lemma vint_data_length: "length (vint_data n v) = n + 1"
  by (simp add: vint_data_def)

lemma vint_cases:
  assumes "vint_ok n v"
  obtains "n = 0" "- 120 \<le> v" "v < 120"
  | "1 \<le> n" "n \<le> 8" "v < - 120" "- (256 ^ n) \<le> v + 120"
  | "1 \<le> n" "n \<le> 8" "120 \<le> v" "v - 120 < 256 ^ n"
  using assms by (auto simp: vint_ok_def split: if_splits)

lemma vint_encode: "va_encode (vint_data n v) = word_of_nat (n + 1) # vint_data n v" if "n \<le> 8"
  using that by (simp add: va_encode_def va_lenfield_def vint_data_length)

section \<open>The order of the format\<close>

text \<open>
  Two formats compare as their values when more bytes are used for the value farther from zero.
\<close>

lemma vint_first: "vint_ok n v \<Longrightarrow> uint (hd (vint_data n v)) =
    (if n = 0 then v + 128 else if v < 0 then 8 - int n else 247 + int n)"
  by (auto simp: vint_ok_def vint_data_def uint_byte_of_int simp del: of_int_add of_int_diff split: if_splits)

lemma mod_negative: "- N \<le> x \<Longrightarrow> x < 0 \<Longrightarrow> x mod N = x + (N :: int)"
  using mod_pos_pos_trivial [of "x + N" N] by simp

lemma vint_less:
  assumes "vint_ok m a" "vint_ok n b" "a < b"
    and "a < - 120 \<Longrightarrow> b < - 120 \<Longrightarrow> n \<le> m" "120 \<le> a \<Longrightarrow> 120 \<le> b \<Longrightarrow> m \<le> n"
  shows "vint_data m a < vint_data n b"
proof -
  obtain x xs where x: "vint_data m a = x # xs" and fx: "uint x = (if m = 0 then a + 128 else if a < 0 then 8 - int m else 247 + int m)"
      and xs: "m = 0 \<longrightarrow> xs = []" "m \<noteq> 0 \<longrightarrow> xs = be_bytes m (if a < 0 then a + 120 else a - 120)"
    using vint_first [OF assms(1)] by (cases "vint_data m a") (auto simp: vint_data_def split: if_splits)
  obtain y ys where y: "vint_data n b = y # ys" and fy: "uint y = (if n = 0 then b + 128 else if b < 0 then 8 - int n else 247 + int n)"
      and ys: "n = 0 \<longrightarrow> ys = []" "n \<noteq> 0 \<longrightarrow> ys = be_bytes n (if b < 0 then b + 120 else b - 120)"
    using vint_first [OF assms(2)] by (cases "vint_data n b") (auto simp: vint_data_def split: if_splits)
  consider "uint x < uint y" | "m = n" "m \<noteq> 0" "x = y" "(a < 0) = (b < 0)"
  proof (cases "a < - 120")
    case True
    then show thesis
      using that assms fx fy unfolding word_uint_eq_iff
      by (cases "b < - 120"; cases "b < 120"; cases "m = n") (auto simp: vint_ok_def split: if_splits)
  next
    case False
    then show thesis
      using that assms fx fy unfolding word_uint_eq_iff
      by (cases "a < 120"; cases "b < 120"; cases "m = n") (auto simp: vint_ok_def split: if_splits)
  qed
  then show ?thesis
  proof cases
    case 1
    then show ?thesis
      by (simp add: x y word_less_def)
  next
    case 2
    let ?c = "if a < 0 then 120 else - 120 :: int"
    have "(a + ?c) mod 256 ^ m < (b + ?c) mod 256 ^ m"
    proof (cases "a < 0")
      case True
      have "(a + 120) mod 256 ^ m = a + 120 + 256 ^ m" "(b + 120) mod 256 ^ m = b + 120 + 256 ^ m"
        using assms(1-3) 2(1,2,4) True by (auto intro!: mod_negative simp: vint_ok_def split: if_splits)
      then show ?thesis
        using True assms(3) by simp
    next
      case False
      have "(a - 120) mod 256 ^ m = a - 120" "(b - 120) mod 256 ^ m = b - 120"
        using assms(1-3) 2(1,2,4) False by (auto intro!: mod_pos_pos_trivial simp: vint_ok_def split: if_splits)
      then show ?thesis
        using False assms(3) by simp
    qed
    then have "xs < ys"
      using 2 xs ys by (intro be_val_less_lex) (auto simp: be_val_bytes)
    then show ?thesis
      using 2(3) by (simp add: x y)
  qed
qed

section \<open>Storing produces the format\<close>

lemma byte_of_sint32:
  assumes "k < 4"
  shows "ucast (drop_bit (8 * k) (w :: u32)) = (word_of_int (sint w div 256 ^ k) :: u8)"
proof (rule bit_word_eqI)
  fix i
  assume i: "i < LENGTH(8)"
  have "sint w div 256 ^ k = drop_bit (8 * k) (sint w)"
    by (simp add: drop_bit_eq_div power_mult)
  then show "bit (ucast (drop_bit (8 * k) w) :: u8) i = bit (word_of_int (sint w div 256 ^ k) :: u8) i"
    using assms i by (cases "8 * k + i = 31") (auto simp: bit_simps min_def)
qed

lemma move_value_bytes:
  "k \<le> 4 \<Longrightarrow> p = length xs \<Longrightarrow> length r \<ge> k \<Longrightarrow>
    move_value k w p (xs @ r) = xs @ be_bytes k (sint w) @ drop k r"
proof (induction k arbitrary: p xs r)
  case (Suc k)
  have "move_value (Suc k) w p (xs @ r) = move_value k w (p + 1) ((xs @ [word_of_int (sint w div 256 ^ k)]) @ drop 1 r)"
    using Suc.prems byte_of_sint32 [of k w] by (simp add: buf_write_append)
  also have "\<dots> = (xs @ [word_of_int (sint w div 256 ^ k)]) @ be_bytes k (sint w) @ drop k (drop 1 r)"
    by (rule Suc.IH) (use Suc.prems in simp_all)
  finally show ?case
    by simp
qed simp

lemma sint_add_small:
  assumes "- 2147483648 \<le> sint (w :: u32) + c" "sint w + c < 2147483648" "- 2147483648 \<le> c" "c < 2147483648"
  shows "sint (w + word_of_int c) = sint w + c"
proof -
  have "sint (word_of_int c :: u32) = c"
    using assms(3,4) by (simp add: signed_of_int signed_take_bit_int_eq_self)
  then show ?thesis
    using assms(1,2) by (simp add: sint_word_ariths signed_take_bit_int_eq_self)
qed

text \<open>The number of bytes the 32-bit routine uses.\<close>

definition vint_len :: "int \<Rightarrow> nat" where
  "vint_len v =
    (if - 120 \<le> v \<and> v < 120 then 0
     else if v < 0 then let w = v + 120 in
       if w \<ge> - 0x100 then 1 else if w \<ge> - 0x10000 then 2 else if w \<ge> - 0x1000000 then 3 else 4
     else let w = v - 120 in
       if w < 0x100 then 1 else if w < 0x10000 then 2 else if w < 0x1000000 then 3 else 4)"

lemma vint_len_ok:
  assumes "- 2147483648 \<le> v" "v < 2147483648"
  shows "vint_ok (vint_len v) v" "vint_len v \<le> 4"
  using assms by (auto simp: vint_len_def vint_ok_def Let_def)

lemma sint32_bounds: "- 2147483648 \<le> sint (w :: u32)" "sint (w :: u32) < 2147483648"
  using sint_range_size [of w] by (simp_all add: word_size)

lemma low_byte: "(ucast (w :: u32) :: u8) = word_of_int (sint w)"
  using byte_of_sint32 [of 0 w] by (simp only: mult_0_right drop_bit_0 power_0 div_by_1) simp

lemma store_int3: "STORE_VA_INT3 t a b w = word_of_int a # word_of_int b # be_bytes 1 (sint w) @ 0 # drop 4 t"
proof -
  have "(ucast (w AND mask 8) :: u8) = ucast w"
    by (rule bit_word_eqI) (auto simp: bit_simps)
  then have "(ucast (w AND 0xFF) :: u8) = ucast w"
    by (simp add: mask_eq_exp_minus_1)
  then show ?thesis
    by (simp add: STORE_VA_INT3_def low_byte numeral_eq_Suc del: of_int_sint)
qed

lemma store_ints:
  assumes "k \<le> 4" "6 \<le> length t"
  shows "move_value k w 2 (TWO_BYTE_STORE t a b) = word_of_int a # word_of_int b # be_bytes k (sint w) @ drop (2 + k) t"
  using move_value_bytes [of k 2 "[word_of_int a, word_of_int b]" "drop 2 t" w] assms
  by (simp add: TWO_BYTE_STORE_def numeral_2_eq_2)

lemma setint_format:
  assumes "6 \<le> length t"
  shows "\<exists>r. va_setint t w = va_encode (vint_data (vint_len (sint w)) (sint w)) @ r \<and>
    length (va_setint t w) = length t"
proof -
  let ?v = "sint w"
  have t: "length (drop 2 t) + 2 = length t"
    using assms by simp
  consider (one) "- 120 \<le> ?v" "?v < 120" | (neg) "?v < - 120" | (pos) "120 \<le> ?v"
    by linarith
  then show ?thesis
  proof cases
    case one
    have "(ucast (w + word_of_int VA_INT_BIAS) :: u8) = word_of_int (?v + 128)"
      using sint_add_small [of w 128] one by (simp only: low_byte VA_INT_BIAS_def)
    then show ?thesis
      using one assms
      by (auto simp: va_setint_def va_bias_defs va_encode_def va_lenfield_def vint_len_def vint_data_def buf_write_def)
  next
    case neg
    have s: "sint (w + word_of_int 120) = ?v + 120"
      using neg sint32_bounds [of w] by (intro sint_add_small) auto
    show ?thesis
      using neg assms s
      by (auto simp: va_setint_def va_bias_defs va_encode_def va_lenfield_def vint_len_def vint_data_def Let_def
          store_int3 store_ints
          simp del: be_bytes.simps)
  next
    case pos
    have s: "sint (w + word_of_int (- 120)) = ?v - 120"
      using pos sint32_bounds [of w] sint_add_small [of w "- 120"] by auto
    show ?thesis
      using pos assms s
      by (auto simp: va_setint_def va_bias_defs va_encode_def va_lenfield_def vint_len_def vint_data_def Let_def
          store_int3 store_ints
          simp del: be_bytes.simps)
  qed
qed

text \<open>The 64-bit routine.\<close>

lemma be_bytes_map: "be_bytes n x = map (\<lambda>k. word_of_int (x div 256 ^ k)) (rev [0..<n])"
  by (induction n) simp_all

lemma byte_of_sint64:
  assumes "k < 8"
  shows "ucast (drop_bit (8 * k) (w :: u64)) = (word_of_int (sint w div 256 ^ k) :: u8)"
proof (rule bit_word_eqI)
  fix i
  assume i: "i < LENGTH(8)"
  have "sint w div 256 ^ k = drop_bit (8 * k) (sint w)"
    by (simp add: drop_bit_eq_div power_mult)
  then show "bit (ucast (drop_bit (8 * k) w) :: u8) i = bit (word_of_int (sint w div 256 ^ k) :: u8) i"
    using assms i by (cases "8 * k + i = 63") (auto simp: bit_simps min_def)
qed

lemma store_ms_bytes:
  "length xs = 2 \<Longrightarrow> Suc k \<le> length r \<Longrightarrow>
    store_ms k ms (xs @ r) = xs @ map (\<lambda>j. ucast (drop_bit (8 * j) ms)) (rev [0..<Suc k]) @ drop (Suc k) r"
proof (induction k arbitrary: ms r)
  case 0
  then show ?case
    by (simp add: buf_write_append)
next
  case (Suc k)
  let ?r = "take (Suc k) r @ [ucast ms] @ drop (Suc (Suc k)) r"
  have "buf_write (2 + Suc k) [ucast ms] (xs @ r) = xs @ ?r"
    using Suc.prems by (simp add: buf_write_def)
  then have "store_ms (Suc k) ms (xs @ r) =
      xs @ map (\<lambda>j. ucast (drop_bit (8 * j) (drop_bit 8 ms))) (rev [0..<Suc k]) @ drop (Suc k) ?r"
    using Suc.IH [of ?r "drop_bit 8 ms"] Suc.prems by simp
  moreover have "map (\<lambda>j. ucast (drop_bit (8 * j) (drop_bit 8 ms))) (rev [0..<Suc k]) @ [ucast ms] =
      map (\<lambda>j. ucast (drop_bit (8 * j) ms)) (rev [0..<Suc (Suc k)])"
  proof -
    have "[0..<Suc (Suc k)] = 0 # map Suc [0..<Suc k]"
      by (simp only: map_Suc_upt upt_conv_Cons [of 0 "Suc (Suc k)"])
    then show ?thesis
      by (simp only: rev.simps rev_map [symmetric] map_append list.map list.map_comp o_def drop_bit_drop_bit)
        (simp add: add.commute)
  qed
  ultimately show ?case
    using Suc.prems by simp
qed

lemma store_int8s:
  assumes "5 \<le> n" "n \<le> 8" "10 \<le> length t"
  shows "buf_write (2 + n - 4) (SS_UINT4_STORE_MSB1ST (SsInt8GetLeastSignificantUint4 w))
      (store_ms (n - 5) (SsInt8GetMostSignificantUint4 w) (TWO_BYTE_STORE t a b)) =
    word_of_int a # word_of_int b # be_bytes n (sint w) @ drop (2 + n) t"
proof -
  let ?ab = "[word_of_int a, word_of_int b]"
  have hi: "ucast (drop_bit (8 * j) (SsInt8GetMostSignificantUint4 w)) = (word_of_int (sint w div 256 ^ (j + 4)) :: u8)"
    if "j < 4" for j
  proof -
    have "(ucast (drop_bit (8 * j) (i8_u4 w 1)) :: u8) = ucast (drop_bit (8 * (j + 4)) w)"
      using that by (intro bit_word_eqI) (auto simp: i8_u4_def bit_simps algebra_simps)
    then show ?thesis
      using byte_of_sint64 [of "j + 4" w] that by (simp only: SsInt8GetMostSignificantUint4_def)
  qed
  have lo: "(ucast (drop_bit (8 * j) (i8_u4 w 0)) :: u8) = word_of_int (sint w div 256 ^ j)" if "j < 4" for j
  proof -
    have "(ucast (drop_bit (8 * j) (i8_u4 w 0)) :: u8) = ucast (drop_bit (8 * j) w)"
      using that by (intro bit_word_eqI) (auto simp: i8_u4_def bit_simps algebra_simps)
    then show ?thesis
      using byte_of_sint64 [of j w] that by simp
  qed
  have "SS_UINT4_STORE_MSB1ST (SsInt8GetLeastSignificantUint4 w) =
      map (\<lambda>k. word_of_int (sint w div 256 ^ k)) (rev [0..<4])"
    using lo [of 0] lo [of 1] lo [of 2] lo [of 3]
    by (simp add: SS_UINT4_STORE_MSB1ST_def SsInt8GetLeastSignificantUint4_def upt_rec)
  moreover have "map (\<lambda>j. ucast (drop_bit (8 * j) (SsInt8GetMostSignificantUint4 w))) (rev [0..<Suc (n - 5)]) =
      (map (\<lambda>k. word_of_int (sint w div 256 ^ k)) (rev [4..<n]) :: u8 list)"
  proof -
    have "[4..<n] = map (\<lambda>j. j + 4) [0..<n - 4]" "Suc (n - 5) = n - 4"
      using assms(1) map_add_upt [of 4 "n - 4"] by simp_all
    then show ?thesis
      using hi assms(2) by (auto simp: rev_map)
  qed
  moreover have "be_bytes n (sint w) =
      map (\<lambda>k. word_of_int (sint w div 256 ^ k)) (rev [4..<n]) @ map (\<lambda>k. word_of_int (sint w div 256 ^ k)) (rev [0..<4])"
    unfolding be_bytes_map map_append [symmetric] rev_append [symmetric]
    using upt_add_eq_append [of 0 4 "n - 4"] assms(1) by simp
  moreover have "TWO_BYTE_STORE t a b = ?ab @ drop 2 t"
    by (simp add: TWO_BYTE_STORE_def numeral_2_eq_2)
  moreover have e: "Suc (n - 5) = n - 4" "n - 2 = Suc (Suc (n - 4))"
    using assms(1) by linarith+
  ultimately show ?thesis
    using assms store_ms_bytes [of ?ab "n - 5" "drop 2 t" "SsInt8GetMostSignificantUint4 w"]
      buf_write_append [of "2 + n - 4" "?ab @ map (\<lambda>k. word_of_int (sint w div 256 ^ k)) (rev [4..<n])"
        "map (\<lambda>k. word_of_int (sint w div 256 ^ k)) (rev [0..<4])" "drop (n - 4) (drop 2 t)"]
    by (simp add: e)
qed

lemma convert_halves:
  assumes "0 \<le> l" "l < 4294967296" "0 \<le> h" "h < (4294967296 :: int)"
  defines "s \<equiv> if h * 4294967296 + l < 9223372036854775808 then h * 4294967296 + l
    else h * 4294967296 + l - 18446744073709551616"
  shows "- 2147483648 \<le> s \<and> s < 2147483648 \<longleftrightarrow>
    (if h \<ge> 2147483648 then h = 4294967295 \<and> l \<ge> 2147483648 else h = 0 \<and> \<not> l \<ge> 2147483648)"
    and convert_low: "- 2147483648 \<le> s \<Longrightarrow> s < 2147483648 \<Longrightarrow>
    (if l < 2147483648 then l else l - 4294967296) = s"
  using assms by (auto split: if_splits)

lemma i4_isneg: "I4_ISNEG v \<longleftrightarrow> uint v \<ge> 2147483648"
proof -
  have "I4_ISNEG v \<longleftrightarrow> uint v div 2 ^ 31 \<noteq> 0"
    by (simp add: I4_ISNEG_def word_uint_eq_iff uint_drop32)
  then show ?thesis
    using u32_bounds [of v] by (auto simp: div_eq_0_iff zdiv_eq_0_iff)
qed

lemma convert_int4: "SsInt8ConvertToInt4 w =
  (i8_u4 w 0, - 2147483648 \<le> sint w \<and> sint w < 2147483648)"
  "- 2147483648 \<le> sint w \<Longrightarrow> sint w < 2147483648 \<Longrightarrow> sint (i8_u4 w 0) = sint w"
proof -
  let ?h = "uint (i8_u4 w 1)" and ?l = "uint (i8_u4 w 0)"
  have w: "uint w = ?h * 4294967296 + ?l"
    using uint_set_2_u4 [of "i8_u4 w 1" "i8_u4 w 0" 0] set_2_u4_parts [of w 0] by simp
  have l: "0 \<le> ?l" "?l < 4294967296" and h: "0 \<le> ?h" "?h < 4294967296"
    using u32_bounds by auto
  have m: "i8_u4 w 1 = NOT 0 \<longleftrightarrow> ?h = 4294967295" "i8_u4 w 1 = 0 \<longleftrightarrow> ?h = 0"
    by (simp_all add: word_uint_eq_iff unsigned_minus_1_eq_mask mask_eq_exp_minus_1)
  show "SsInt8ConvertToInt4 w = (i8_u4 w 0, - 2147483648 \<le> sint w \<and> sint w < 2147483648)"
    unfolding SsInt8ConvertToInt4_def Let_def I8_ISNEG_def i4_isneg m de_Morgan_disj not_not
      sint_signed64 signed64_def w convert_halves [OF l h] by simp
  show "sint (i8_u4 w 0) = sint w" if "- 2147483648 \<le> sint w" "sint w < 2147483648"
    using that unfolding sint_signed64 signed64_def w sint32 by (rule convert_low [OF l h])
qed

text \<open>
  The number of bytes the 64-bit routine uses. A negative value below the 32-bit range always gets
  eight: the constants it is compared with have the digit 1 where \<open>F\<close> was meant, are positive,
  and are greater than every negative value.
\<close>

definition vint8_len :: "int \<Rightarrow> nat" where
  "vint8_len v =
    (if - 2147483648 \<le> v \<and> v < 2147483648 then vint_len v
     else if v < 0 then 8
     else let w = v - 120 in
       if w < 256 ^ 5 then 5 else if w < 256 ^ 6 then 6 else if w < 256 ^ 7 then 7 else 8)"

lemma vint8_len_ok:
  assumes "- 9223372036854775808 \<le> v" "v < 9223372036854775808"
  shows "vint_ok (vint8_len v) v"
  using assms vint_len_ok [of v] by (auto simp: vint8_len_def vint_ok_def Let_def)

lemma cmp_int8:
  "0 \<le> SsInt8Cmp a b \<longleftrightarrow> sint b \<le> sint a" "SsInt8Cmp a b < 0 \<longleftrightarrow> sint a < sint b"
  using cmp_sgn [of a b] by (auto simp: three_way_def sgn_if split: if_splits)

lemma sint_of_halves: "uint hi < 2147483648 \<Longrightarrow> sint (SsInt8Set2Uint4s x hi lo) = uint hi * 4294967296 + uint lo"
  using u32_bounds [of lo]
  by (simp add: SsInt8Set2Uint4s_def sint_signed64 signed64_def uint_set_2_u4)

lemma int8_constants:
  "sint value_0x1111110000000000 = 0x1111110000000000" "sint value_0x1111000000000000 = 0x1111000000000000"
  "sint value_0x1100000000000000 = 0x1100000000000000" "sint value_0x0000010000000000 = 256 ^ 5"
  "sint value_0x0001000000000000 = 256 ^ 6" "sint value_0x0100000000000000 = 256 ^ 7"
  by (simp_all add: value_0x1111110000000000_def value_0x1111000000000000_def value_0x1100000000000000_def
      value_0x0000010000000000_def value_0x0001000000000000_def value_0x0100000000000000_def sint_of_halves)

lemma int8_biases: "negbias = 120" "posbias = - 120"
  by (simp_all add: negbias_def posbias_def va_bias_defs SsInt8SetInt4_def I4_ISNEG_def uint_set_2_u4
      word_uint_eq_iff unsigned_minus_1_eq_mask mask_eq_exp_minus_1)

lemma sint_add8:
  "- 9223372036854775808 \<le> sint (w :: u64) + c \<Longrightarrow> sint w + c < 9223372036854775808 \<Longrightarrow>
    - 9223372036854775808 \<le> c \<Longrightarrow> c < 9223372036854775808 \<Longrightarrow> sint (w + word_of_int c) = sint w + c"
  by (simp add: sint_add64 wrap64_def signed_of_int signed_take_bit_int_eq_self)

lemma setint8_format:
  assumes "10 \<le> length t"
  shows "\<exists>r. va_setint8 t w = va_encode (vint_data (vint8_len (sint w)) (sint w)) @ r \<and>
    length (va_setint8 t w) = length t"
proof -
  let ?v = "sint w"
  consider (small) "- 2147483648 \<le> ?v" "?v < 2147483648" | (neg) "?v < - 2147483648" | (pos) "2147483648 \<le> ?v"
    by linarith
  then show ?thesis
  proof cases
    case small
    then show ?thesis
      using setint_format [of t "i8_u4 w 0"] assms convert_int4(2) [OF small]
      by (simp add: va_setint8_def convert_int4(1) va_setlong_def vint8_len_def)
  next
    case neg
    have s: "sint (w + 120) = ?v + 120"
      using sint_add8 [of w 120] neg sint64_bounds [of w] by simp
    have neg8: "I8_ISNEG w"
      using neg by (simp add: isneg_sint)
    have "va_setint8 t w = buf_write (2 + 8 - 4) (SS_UINT4_STORE_MSB1ST (SsInt8GetLeastSignificantUint4 (w + 120)))
        (store_ms (8 - 5) (SsInt8GetMostSignificantUint4 (w + 120)) (TWO_BYTE_STORE t 9 0))"
      using neg s neg8 sint64_bounds [of w]
      by (simp add: va_setint8_def convert_int4(1) va_bias_defs add_uint2 cmp_int8 int8_constants Let_def
          del: store_ms.simps)
    then show ?thesis
      using store_int8s [of 8 t "w + 120" 9 0] neg assms s
      by (auto simp: va_encode_def va_lenfield_def vint8_len_def vint_data_def simp del: be_bytes.simps)
  next
    case pos
    have s: "sint (w - 120) = ?v - 120"
      using sint_add8 [of w "- 120"] pos sint64_bounds [of w] by simp
    have neg8: "\<not> I8_ISNEG w"
      using pos by (simp add: isneg_sint)
    let ?n = "vint8_len ?v"
    have n: "5 \<le> ?n" "?n \<le> 8"
      using pos by (auto simp: vint8_len_def Let_def)
    have "va_setint8 t w = buf_write (2 + ?n - 4) (SS_UINT4_STORE_MSB1ST (SsInt8GetLeastSignificantUint4 (w - 120)))
        (store_ms (?n - 5) (SsInt8GetMostSignificantUint4 (w - 120)) (TWO_BYTE_STORE t (int ?n + 1) (247 + int ?n)))"
      using pos s neg8
      by (simp add: va_setint8_def convert_int4(1) va_bias_defs add_int8 int8_biases cmp_int8 int8_constants Let_def
          vint8_len_def del: store_ms.simps)
    then show ?thesis
      using store_int8s [of ?n t "w - 120" "int ?n + 1" "247 + int ?n"] pos assms s n
      by (auto simp: va_encode_def va_lenfield_def vint_data_def simp del: be_bytes.simps)
  qed
qed

section \<open>Reading the format\<close>

lemma push_byte: "push_bit 8 (r :: u32) OR ucast (b :: u8) = r * 256 + ucast b"
proof -
  have "push_bit 8 r AND ucast b = 0"
    by (rule bit_word_eqI) (auto simp: bit_simps)
  then show ?thesis
    by (simp add: disjunctive_add_eq_or [symmetric] push_bit_eq_mult)
qed

lemma get_bytes_value:
  "k \<le> length ptr \<Longrightarrow> get_bytes k ptr (word_of_int c) = word_of_int (c * 256 ^ k + be_val (take k ptr))"
proof (induction k arbitrary: ptr c)
  case (Suc k)
  then obtain b bs where p: "ptr = b # bs" "k \<le> length bs"
    by (cases ptr) auto
  have "push_bit 8 (word_of_int c) OR ucast b = (word_of_int (c * 256 + uint b) :: u32)"
    by (simp add: push_byte)
  then have "get_bytes (Suc k) ptr (word_of_int c) = get_bytes k bs (word_of_int (c * 256 + uint b))"
    by (simp only: get_bytes.simps p(1) list.sel)
  also have "\<dots> = word_of_int ((c * 256 + uint b) * 256 ^ k + be_val (take k bs))"
    by (rule Suc.IH [OF p(2)])
  also have "(c * 256 + uint b) * 256 ^ k + be_val (take k bs) = c * 256 ^ Suc k + be_val (take (Suc k) ptr)"
    using p(2) by (simp add: p(1) min_def algebra_simps)
  finally show ?case .
qed simp

lemma get_bytes_be: "get_bytes n (be_bytes n x @ r) (word_of_int c) = word_of_int (c * 256 ^ n + be_val (be_bytes n x))"
  using get_bytes_value [of n "be_bytes n x @ r" c] by simp

lemma set_halves: "SsInt8Set2Uint4s x (word_of_int a) (word_of_int b) = word_of_int (a * 4294967296 + b mod 4294967296)"
proof (rule word_uint_eq_iff [THEN iffD2])
  have "uint (SsInt8Set2Uint4s x (word_of_int a) (word_of_int b)) = a mod 4294967296 * 4294967296 + b mod 4294967296"
    by (simp add: SsInt8Set2Uint4s_def uint_set_2_u4 unsigned_of_int take_bit_eq_mod)
  also have "\<dots> = (a * 4294967296 + b mod 4294967296) mod (4294967296 * 4294967296)"
    using zmod_zmult2_eq [of 4294967296 "a * 4294967296 + b mod 4294967296" 4294967296] by simp
  also have "\<dots> = uint (word_of_int (a * 4294967296 + b mod 4294967296) :: u64)"
    by (simp add: unsigned_of_int take_bit_eq_mod del: of_int_add of_int_mult)
  finally show "uint (SsInt8Set2Uint4s x (word_of_int a) (word_of_int b)) =
    uint (word_of_int (a * 4294967296 + b mod 4294967296) :: u64)" .
qed

text \<open>The bytes of a format, with the number the reading loop starts from.\<close>

lemma vint_value:
  assumes "vint_ok n v" "n \<noteq> 0"
  shows "v < 0 \<Longrightarrow> - 1 * 256 ^ n + be_val (be_bytes n (v + 120)) = v + 120"
    "\<not> v < 0 \<Longrightarrow> 0 * 256 ^ n + be_val (be_bytes n (v - 120)) = v - 120"
  using assms by (auto simp: be_val_bytes vint_ok_def mod_negative split: if_splits)

lemma vint_buffer:
  fixes r
  assumes "vint_ok n v"
  defines "va \<equiv> va_encode (vint_data n v) @ r"
  shows "va ! 0 = word_of_nat (n + 1)" "\<not> va_testnull va"
    "uint (va ! 1) = (if n = 0 then v + 128 else if v < 0 then 8 - int n else 247 + int n)"
    "n \<noteq> 0 \<Longrightarrow> drop 2 va = be_bytes n (if v < 0 then v + 120 else v - 120) @ r" "n \<le> 8"
proof -
  show n: "n \<le> 8"
    using assms(1) by (auto simp: vint_ok_def split: if_splits)
  show 0: "va ! 0 = word_of_nat (n + 1)"
    using n by (simp add: va_def vint_encode)
  show "\<not> va_testnull va"
    using n unfolding va_testnull_def 0 by (simp add: word_uint_eq_iff unsigned_of_nat take_bit_nat_eq_self del: of_nat_add of_nat_Suc)
  show "uint (va ! 1) = (if n = 0 then v + 128 else if v < 0 then 8 - int n else 247 + int n)"
  proof -
    have "va ! 1 = hd (vint_data n v)"
      using n vint_data_length [of n v] by (cases "vint_data n v") (auto simp: va_def va_encode_def va_lenfield_def)
    then show ?thesis
      using vint_first [OF assms(1)] by simp
  qed
  show "drop 2 va = be_bytes n (if v < 0 then v + 120 else v - 120) @ r" if "n \<noteq> 0"
    using n that by (simp add: va_def va_encode_def va_lenfield_def vint_data_def numeral_2_eq_2)
qed

lemma sint_byte: "- 128 \<le> x \<Longrightarrow> x < 128 \<Longrightarrow> (scast (word_of_int x :: u8) :: u32) = word_of_int x"
  by (simp add: signed_of_int signed_take_bit_int_eq_self)

lemma getint_format:
  assumes "vint_ok n v"
  shows "va_getint (va_encode (vint_data n v) @ r) = Some (word_of_int v)"
proof (cases "n = 0")
  case True
  then have "- 120 \<le> v" "v < 120"
    using assms by (auto simp: vint_ok_def split: if_splits)
  then show ?thesis
    using vint_buffer(2,3) [OF assms, of r] True sint_byte [of v]
    by (simp add: va_getint_def va_bias_defs)
next
  case False
  have "get_bytes n (be_bytes n (v + 120) @ r) (- 1) = word_of_int (v + 120)" if "v < 0"
    using get_bytes_be [where n = n and x = "v + 120" and r = r and c = "- 1", unfolded vint_value(1) [OF assms False that]] by simp
  moreover have "get_bytes n (be_bytes n (v - 120) @ r) 0 = word_of_int (v - 120)" if "\<not> v < 0"
    using get_bytes_be [where n = n and x = "v - 120" and r = r and c = 0, unfolded vint_value(2) [OF assms False that]] by simp
  ultimately show ?thesis
    using vint_buffer(2-4) [OF assms, of r] vint_buffer(5) [OF assms] False by (auto simp: va_getint_def va_bias_defs)
qed

lemma set_int4: "SsInt8SetInt4 i = word_of_int (sint i)"
proof -
  have "SsInt8SetInt4 i = SsInt8Set2Uint4s 0 (word_of_int (- of_bool (I4_ISNEG i))) (word_of_int (uint i))"
    by (simp add: SsInt8SetInt4_def SsInt8Set2Uint4s_def)
  then show ?thesis
    using u32_bounds [of i] unfolding set_halves by (simp add: i4_isneg sint32 del: of_int_add of_int_diff)
qed

lemma getint8_format:
  assumes "vint_ok n v"
  shows "va_getint8 (va_encode (vint_data n v) @ r) = Some (word_of_int v)"
proof (cases "n = 0")
  case True
  then have v: "- 120 \<le> v" "v < 120"
    using assms by (auto simp: vint_ok_def split: if_splits)
  have "sint (word_of_int v :: u32) = v"
    using v by (simp add: signed_of_int signed_take_bit_int_eq_self)
  then have "SsInt8SetInt4 (word_of_int v) = word_of_int v"
    using set_int4 [of "word_of_int v"] by simp
  then show ?thesis
    using vint_buffer(2,3) [OF assms, of r] True v sint_byte [of v]
    by (simp add: va_getint8_def va_bias_defs)
next
  case False
  let ?x = "if v < 0 then v + 120 else v - 120" and ?c = "if v < 0 then - 1 else 0 :: int"
  let ?va = "va_encode (vint_data n v) @ r"
  let ?bs = "be_bytes n ?x"
  have n: "n \<le> 8" and va: "drop 2 ?va = ?bs @ r" "\<not> va_testnull ?va"
      "uint (?va ! 1) = (if v < 0 then 8 - int n else 247 + int n)"
    using vint_buffer(2-4) [OF assms, of r] vint_buffer(5) [OF assms] False by simp_all
  have x: "?c * 256 ^ n + be_val ?bs = ?x"
    using vint_value [OF assms False] by simp
  have split: "be_val ?bs = be_val (take (n - 4) ?bs) * 256 ^ (min n 4) + be_val (drop (n - 4) ?bs)"
    using be_val_append [of "take (n - 4) ?bs" "drop (n - 4) ?bs"] by (simp add: min_def)
  have hi: "get_bytes (n - 4) (drop 2 ?va) (word_of_int ?c) = word_of_int (?c * 256 ^ (n - 4) + be_val (take (n - 4) ?bs))"
    unfolding va(1) using get_bytes_value [of "n - 4" "?bs @ r" ?c] by (simp only: length_append be_bytes_length) simp
  have "drop (2 + (n - 4)) ?va = drop (n - 4) (?bs @ r)"
    by (simp only: va(1) [symmetric] drop_drop add.commute)
  also have "\<dots> = drop (n - 4) ?bs @ r"
    by simp
  finally have "drop (2 + (n - 4)) ?va = drop (n - 4) ?bs @ r" .
  then have lo: "get_bytes (min n 4) (drop (2 + (n - 4)) ?va) (word_of_int ?c) =
      word_of_int (?c * 256 ^ min n 4 + be_val (drop (n - 4) ?bs))"
    using get_bytes_value [of "min n 4" "drop (n - 4) ?bs @ r" ?c] by (simp add: min_def)
  have "(?c * 256 ^ (n - 4) + be_val (take (n - 4) ?bs)) * 4294967296 +
      (?c * 256 ^ min n 4 + be_val (drop (n - 4) ?bs)) mod 4294967296 = ?x"
  proof (cases "n \<le> 4")
    case True
    then have p: "(256::int) ^ n \<le> 256 ^ 4"
      by (intro power_increasing) simp_all
    have "(?c * 256 ^ n + be_val ?bs) mod 4294967296 = (if v < 0 then ?x + 4294967296 else ?x)"
      unfolding x using assms False p mod_negative [of 4294967296 "v + 120"] by (auto simp: vint_ok_def split: if_splits)
    then show ?thesis
      using True by (simp add: min_def)
  next
    case False
    have b: "be_val (drop (n - 4) ?bs) < 4294967296"
      using be_val_bound [of "drop (n - 4) ?bs"] False by simp
    have "(?c * 4294967296 + be_val (drop (n - 4) ?bs)) mod 4294967296 = be_val (drop (n - 4) ?bs)"
      using b by simp
    moreover have "(256::int) ^ n = 256 ^ (n - 4) * 4294967296"
      using power_add [of "256::int" "n - 4" 4] False by simp
    ultimately show ?thesis
      using x split False by (simp add: min_def algebra_simps)
  qed
  then have "SsInt8Set2Uint4s 0 (get_bytes (n - 4) (drop 2 ?va) (word_of_int ?c))
      (get_bytes (min n 4) (drop (2 + (n - 4)) ?va) (word_of_int ?c)) = word_of_int ?x"
    unfolding hi lo set_halves by simp
  then show ?thesis
    using va(2,3) n False
    by (auto simp: va_getint8_def va_bias_defs subtract_int8 int8_biases)
qed

lemma getlong_check_format:
  assumes "vint_ok n v" "n \<le> 4" "- 2147483648 \<le> v" "v < 2147483648"
  shows "va_getlong_check (va_encode (vint_data n v) @ r) = word_of_int v"
proof (cases "n = 0")
  case True
  then have "- 120 \<le> v" "v < 120"
    using assms(1) by (auto simp: vint_ok_def split: if_splits)
  then show ?thesis
    using vint_buffer(1-3) [OF assms(1), of r] True sint_byte [of v]
    by (simp add: va_getlong_check_def va_bias_defs)
next
  case False
  let ?x = "if v < 0 then v + 120 else v - 120"
  have len: "uint ((va_encode (vint_data n v) @ r) ! 0) = int n + 1"
    using vint_buffer(1) [OF assms(1), of r] assms(2)
    by (simp add: unsigned_of_nat take_bit_nat_eq_self del: of_nat_add of_nat_Suc)
  have neg: "get_bytes n (be_bytes n (v + 120) @ r) (- 1) = word_of_int (v + 120)" if "v < 0"
    using get_bytes_be [where n = n and x = "v + 120" and r = r and c = "- 1", unfolded vint_value(1) [OF assms(1) False that]] by simp
  have pos: "get_bytes n (be_bytes n (v - 120) @ r) 0 = word_of_int (v - 120)" if "\<not> v < 0"
    using get_bytes_be [where n = n and x = "v - 120" and r = r and c = 0, unfolded vint_value(2) [OF assms(1) False that]] by simp
  have range: "v < - 120 \<or> 120 \<le> v"
    using assms(1) False by (auto simp: vint_ok_def split: if_splits)
  have low: "word_of_int (- 0x80000000 + 120) \<le> (word_of_int (v + 120) :: u32)" if "v < - 120"
    using that assms(3)
    by (simp add: word_le_def unsigned_of_int take_bit_eq_mod mod_negative del: of_int_add)
  have high: "(word_of_int (v - 120) :: u32) \<le> word_of_int (0x7FFFFFFF - 120)" if "120 \<le> v"
    using that assms(4)
    by (simp add: word_le_def unsigned_of_int take_bit_eq_mod del: of_int_diff)
  show ?thesis
  proof (cases "v < 0")
    case True
    then show ?thesis
      using vint_buffer(2-4) [OF assms(1), of r] False len neg low range assms(2)
      by (simp add: va_getlong_check_def va_bias_defs SIZEOF_LONG_def)
  next
    case pos': False
    then show ?thesis
      using vint_buffer(2-4) [OF assms(1), of r] False len pos high range assms(2)
      by (simp add: va_getlong_check_def va_bias_defs SIZEOF_LONG_def)
  qed
qed

lemma vint8_len_mono:
  "a < b \<Longrightarrow> b < - 120 \<Longrightarrow> vint8_len b \<le> vint8_len a" "a < b \<Longrightarrow> 120 \<le> a \<Longrightarrow> vint8_len a \<le> vint8_len b"
  by (auto simp: vint8_len_def vint_len_def Let_def)

lemma vint8_compare:
  assumes "- 9223372036854775808 \<le> a" "a < 9223372036854775808" "- 9223372036854775808 \<le> b" "b < 9223372036854775808"
  shows "sgn (va_compare (va_encode (vint_data (vint8_len a) a) @ x) (va_encode (vint_data (vint8_len b) b) @ y)) =
    three_way a b"
proof -
  let ?d = "\<lambda>v. vint_data (vint8_len v) v"
  have ok: "vint_ok (vint8_len a) a" "vint_ok (vint8_len b) b"
    using assms vint8_len_ok by blast+
  have c: "va_cmpable (?d a)" "va_cmpable (?d b)"
    using ok by (auto simp: va_cmpable_def vint_data_length vint_ok_def split: if_splits)
  have "three_way (?d a) (?d b) = three_way a b"
  proof (cases a b rule: linorder_cases)
    case less
    then show ?thesis
      using vint_less [OF ok] vint8_len_mono [of a b] by (simp add: three_way_def)
  next
    case greater
    then show ?thesis
      using vint_less [OF ok(2,1)] vint8_len_mono [of b a] by (auto simp: three_way_def)
  qed (simp add: three_way_def)
  then show ?thesis
    unfolding va_compare_encode [OF c] using memcmp_order [of "?d a" x "?d b" y] by simp
qed

section \<open>Properties\<close>

text \<open>
  C36. Integers of 32 and of 64 bits stored as v-attributes are read back unchanged, by the checking
  reader too, and what the 32-bit routine stored reads as the sign-extended value in 64 bits.
\<close>

theorem va_int_roundtrip:
  assumes "10 \<le> length t"
  shows "va_getint8 (va_setint8 t w) = Some w \<and> va_getint (va_setint t i) = Some i \<and>
    va_getint8 (va_setint t i) = Some (SsInt8SetInt4 i) \<and> va_getlong_check (va_setlong t i) = i"
proof -
  obtain r where r: "va_setint8 t w = va_encode (vint_data (vint8_len (sint w)) (sint w)) @ r"
    using setint8_format [OF assms] by blast
  obtain r' where r': "va_setint t i = va_encode (vint_data (vint_len (sint i)) (sint i)) @ r'"
    using setint_format [of t i] assms by auto
  have "va_getint8 (va_setint8 t w) = Some w"
    unfolding r using getint8_format [OF vint8_len_ok, of "sint w"] sint64_bounds [of w] by simp
  moreover note ok = vint_len_ok [OF sint32_bounds, of i]
  ultimately show ?thesis
    unfolding va_setlong_def r'
    using getint_format [OF ok(1)] getint8_format [OF ok(1)] getlong_check_format [OF ok sint32_bounds]
    by (simp add: set_int4)
qed

text \<open>
  C37. Stored integers compare as v-attributes the way the integers do, also between values of
  different length and between the formats of the 32-bit and the 64-bit routine.
\<close>

theorem va_int_order:
  assumes "10 \<le> length t" "10 \<le> length t'"
  shows "sgn (va_compare (va_setint8 t v) (va_setint8 t' w)) = three_way (sint v) (sint w) \<and>
    sgn (va_compare (va_setint t i) (va_setint8 t' w)) = three_way (sint i) (sint w)"
proof -
  obtain r where r: "va_setint8 t v = va_encode (vint_data (vint8_len (sint v)) (sint v)) @ r"
    using setint8_format [OF assms(1)] by blast
  obtain r' where r': "va_setint8 t' w = va_encode (vint_data (vint8_len (sint w)) (sint w)) @ r'"
    using setint8_format [OF assms(2)] by blast
  obtain r'' where r'': "va_setint t i = va_encode (vint_data (vint8_len (sint i)) (sint i)) @ r''"
    using setint_format [of t i] assms(1) sint32_bounds [of i] by (auto simp: vint8_len_def)
  show ?thesis
    unfolding r r' r'' using sint64_bounds [of v] sint64_bounds [of w] sint32_bounds [of i]
    by (intro conjI vint8_compare) auto
qed

text \<open>
  C40. A negative integer below the 32-bit range always takes nine bytes of data, although up to
  \<open>2 ^ 40\<close> below zero six would do and read as the same value: the limits it is compared with are
  written with the digit 1 in place of \<open>F\<close>, so they are positive.
\<close>

theorem va_setint8_negative_nine_bytes:
  assumes "10 \<le> length t" "sint w < - 2147483648"
  shows "va_netlen (va_setint8 t w) = 9 \<and>
    (- (256 ^ 5) \<le> sint w \<longrightarrow> va_getint8 (va_encode (vint_data 5 (sint w))) = Some w \<and>
      va_netlen (va_encode (vint_data 5 (sint w))) = 6)"
proof -
  obtain r where r: "va_setint8 t w = va_encode (vint_data 8 (sint w)) @ r"
    using setint8_format [OF assms(1), of w] assms(2) by (auto simp: vint8_len_def)
  have "vint_ok 5 (sint w)" if "- (256 ^ 5) \<le> sint w"
    using that assms(2) by (simp add: vint_ok_def)
  then have "va_getint8 (va_encode (vint_data 5 (sint w)) @ []) = Some w" if "- (256 ^ 5) \<le> sint w"
    using that getint8_format [of 5 "sint w" "[]"] by simp
  moreover have fits: "va_fits (vint_data n (sint w))" if "n \<le> 8" for n
    using that by (simp add: va_fits_def vint_data_length)
  moreover have "va_netlen (va_encode (vint_data 5 (sint w)) @ []) = 6"
    using netlen_encode [OF fits [of 5], of "[]"] by (simp add: vint_data_length del: netlen_encode)
  ultimately show ?thesis
    unfolding r by (simp add: vint_data_length)
qed

section \<open>Witnesses\<close>

lemma va_int_roundtrip_witness:
  "va_getint8 (va_setint8 (replicate 10 7) (- 5000000000)) = Some (- 5000000000) \<and>
    va_getint (va_setint (replicate 10 7) 300) = Some 300"
  using va_int_roundtrip [of "replicate 10 7" "- 5000000000" 300] by simp

lemma va_int_order_witness:
  "va_compare (va_setint8 (replicate 10 0) (- 1)) (va_setint8 (replicate 12 5) 70000) < 0"
proof -
  have "sgn (va_compare (va_setint8 (replicate 10 0) (- 1)) (va_setint8 (replicate 12 5) 70000)) = - 1"
    using va_int_order [of "replicate 10 0" "replicate 12 5" "- 1" 70000 0] by (simp add: three_way_def)
  then show ?thesis
    by (simp add: sgn_if split: if_splits)
qed

lemma va_setint8_negative_nine_bytes_witness:
  "va_netlen (va_setint8 (replicate 10 0) (- 5000000000)) = 9"
proof -
  have "sint (- 5000000000 :: u64) = - 5000000000"
    by simp
  then show ?thesis
    using va_setint8_negative_nine_bytes [of "replicate 10 0" "- 5000000000"] by simp
qed

end
