(* ===== verification/Bkey.thy ===== *)
theory Bkey
  imports Vtpl_Index Va_Int Trx_Num
begin

text \<open>
  B+-tree keys (\<^verbatim>\<open>dbe/dbe6bkey.c\<close>, \<^verbatim>\<open>include/dbe6bkey.h\<close>): a header of three to eleven bytes (info, mismatch
  index, transaction number or node address, transaction id) and a v-tuple, which in a node is
  compressed against the key before. A key is the list of the bytes from its address on. The
  debug assertions are left out, and \<^verbatim>\<open>ss_error\<close>, which stops the program, is \<open>None\<close>.
\<close>

section \<open>The header\<close>

definition BKEY_1LONGUSED :: u8 where "BKEY_1LONGUSED = 1"
definition BKEY_2LONGUSED :: u8 where "BKEY_2LONGUSED = 2"
definition BKEY_LEAF :: u8 where "BKEY_LEAF = 4"
definition BKEY_DELETEMARK :: u8 where "BKEY_DELETEMARK = 8"
definition BKEY_COMMITTED :: u8 where "BKEY_COMMITTED = 16"
definition BKEY_CLUSTERING :: u8 where "BKEY_CLUSTERING = 32"
definition BKEY_BLOB :: u8 where "BKEY_BLOB = 64"
definition BKEY_UPDATE :: u8 where "BKEY_UPDATE = 128"

lemmas bkey_flags = BKEY_1LONGUSED_def BKEY_2LONGUSED_def BKEY_LEAF_def BKEY_DELETEMARK_def BKEY_COMMITTED_def
  BKEY_CLUSTERING_def BKEY_BLOB_def BKEY_UPDATE_def

type_synonym dbe_bkey_t = "u8 list"

definition BKEY_INDEX :: nat where "BKEY_INDEX = 1"
definition BKEY_ADDR :: nat where "BKEY_ADDR = 3"
definition BKEY_TRXNUM :: nat where "BKEY_TRXNUM = 3"
definition BKEY_TRXID :: nat where "BKEY_TRXID = 7"
definition BKEY_MAXHEADERLEN :: nat where "BKEY_MAXHEADERLEN = 11"
definition BKEY_HEADERLEN_FIXED :: nat where "BKEY_HEADERLEN_FIXED = 3"

definition BKEY_GETINFO :: "dbe_bkey_t \<Rightarrow> u8" where "BKEY_GETINFO k = k ! 0"
definition BKEY_INITINFO :: "dbe_bkey_t \<Rightarrow> u8 \<Rightarrow> dbe_bkey_t" where "BKEY_INITINFO k t = buf_write 0 [t] k"
definition BKEY_SETINFO :: "dbe_bkey_t \<Rightarrow> u8 \<Rightarrow> dbe_bkey_t" where "BKEY_SETINFO k t = buf_write 0 [k ! 0 OR t] k"

definition BKEY_STOREINDEX :: "dbe_bkey_t \<Rightarrow> u16 \<Rightarrow> dbe_bkey_t" where
  "BKEY_STOREINDEX k i = buf_write BKEY_INDEX (SS_UINT2_STORETODISK i) k"
definition BKEY_STORETRXNUM :: "dbe_bkey_t \<Rightarrow> dbe_trxnum_t \<Rightarrow> dbe_bkey_t" where
  "BKEY_STORETRXNUM k tn = buf_write BKEY_TRXNUM (SS_UINT4_STORETODISK tn) k"
definition BKEY_STOREADDR :: "dbe_bkey_t \<Rightarrow> u32 \<Rightarrow> dbe_bkey_t" where
  "BKEY_STOREADDR k a = buf_write BKEY_ADDR (SS_UINT4_STORETODISK a) k"
definition BKEY_STORETRXID :: "dbe_bkey_t \<Rightarrow> dbe_trxid_t \<Rightarrow> dbe_bkey_t" where
  "BKEY_STORETRXID k ti = buf_write BKEY_TRXID (SS_UINT4_STORETODISK ti) k"

definition BKEY_LOADINDEX :: "dbe_bkey_t \<Rightarrow> u16" where
  "BKEY_LOADINDEX k = SS_UINT2_LOADFROMDISK (drop BKEY_INDEX k)"
definition BKEY_LOADADDR :: "dbe_bkey_t \<Rightarrow> u32" where
  "BKEY_LOADADDR k = SS_UINT4_LOADFROMDISK (drop BKEY_ADDR k)"
definition BKEY_LOADTRXNUM :: "dbe_bkey_t \<Rightarrow> u32" where
  "BKEY_LOADTRXNUM k = SS_UINT4_LOADFROMDISK (drop BKEY_TRXNUM k)"
definition BKEY_LOADTRXID :: "dbe_bkey_t \<Rightarrow> u32" where
  "BKEY_LOADTRXID k = SS_UINT4_LOADFROMDISK (drop BKEY_TRXID k)"

definition BKEY_NLONGUSED :: "dbe_bkey_t \<Rightarrow> nat" where
  "BKEY_NLONGUSED k = unat (BKEY_GETINFO k AND (BKEY_1LONGUSED OR BKEY_2LONGUSED))"
definition BKEY_HEADERLEN :: "dbe_bkey_t \<Rightarrow> nat" where
  "BKEY_HEADERLEN k = BKEY_HEADERLEN_FIXED + 4 * BKEY_NLONGUSED k"
definition BKEY_GETVTPLPTR :: "dbe_bkey_t \<Rightarrow> vtpl_t" where "BKEY_GETVTPLPTR k = drop (BKEY_HEADERLEN k) k"

text \<open>A store through the v-tuple pointer of the key.\<close>

definition put_vtpl :: "dbe_bkey_t \<Rightarrow> vtpl_t \<Rightarrow> dbe_bkey_t" where
  "put_vtpl k vtpl = take (BKEY_HEADERLEN k) k @ vtpl"

definition BKEY_ISLEAF :: "dbe_bkey_t \<Rightarrow> bool" where "BKEY_ISLEAF k \<longleftrightarrow> BKEY_GETINFO k AND BKEY_LEAF \<noteq> 0"
definition BKEY_ISDELETEMARK :: "dbe_bkey_t \<Rightarrow> bool" where
  "BKEY_ISDELETEMARK k \<longleftrightarrow> BKEY_GETINFO k AND BKEY_DELETEMARK \<noteq> 0"

definition dbe_bkey_getlength :: "dbe_bkey_t \<Rightarrow> nat" where
  "dbe_bkey_getlength k = BKEY_HEADERLEN k + unat (vtpl_grosslen (BKEY_GETVTPLPTR k))"
definition dbe_bkey_getvtpl :: "dbe_bkey_t \<Rightarrow> vtpl_t" where "dbe_bkey_getvtpl k = BKEY_GETVTPLPTR k"
definition dbe_bkey_getmismatchindex :: "dbe_bkey_t \<Rightarrow> u32" where "dbe_bkey_getmismatchindex k = ucast (BKEY_LOADINDEX k)"
definition dbe_bkey_getaddr :: "dbe_bkey_t \<Rightarrow> u32" where "dbe_bkey_getaddr k = BKEY_LOADADDR k"
definition dbe_bkey_setaddr :: "dbe_bkey_t \<Rightarrow> u32 \<Rightarrow> dbe_bkey_t" where "dbe_bkey_setaddr k addr = BKEY_STOREADDR k addr"
definition dbe_bkey_istrxnum :: "dbe_bkey_t \<Rightarrow> bool" where
  "dbe_bkey_istrxnum k \<longleftrightarrow> BKEY_GETINFO k AND (BKEY_1LONGUSED OR BKEY_2LONGUSED) \<noteq> 0"
definition dbe_bkey_gettrxnum :: "dbe_bkey_t \<Rightarrow> dbe_trxnum_t" where "dbe_bkey_gettrxnum k = BKEY_LOADTRXNUM k"
definition dbe_bkey_settrxnum :: "dbe_bkey_t \<Rightarrow> dbe_trxnum_t \<Rightarrow> dbe_bkey_t" where
  "dbe_bkey_settrxnum k trxnum = BKEY_STORETRXNUM k trxnum"
definition dbe_bkey_istrxid :: "dbe_bkey_t \<Rightarrow> bool" where
  "dbe_bkey_istrxid k \<longleftrightarrow> BKEY_GETINFO k AND BKEY_2LONGUSED \<noteq> 0"
definition dbe_bkey_gettrxid :: "dbe_bkey_t \<Rightarrow> dbe_trxid_t" where "dbe_bkey_gettrxid k = BKEY_LOADTRXID k"
definition dbe_bkey_settrxid :: "dbe_bkey_t \<Rightarrow> dbe_trxid_t \<Rightarrow> dbe_bkey_t" where
  "dbe_bkey_settrxid k trxid = BKEY_STORETRXID k trxid"
definition dbe_bkey_isdeletemark :: "dbe_bkey_t \<Rightarrow> bool" where "dbe_bkey_isdeletemark k = BKEY_ISDELETEMARK k"
definition dbe_bkey_setdeletemark :: "dbe_bkey_t \<Rightarrow> dbe_bkey_t" where
  "dbe_bkey_setdeletemark k = BKEY_SETINFO k BKEY_DELETEMARK"
definition dbe_bkey_removedeletemark :: "dbe_bkey_t \<Rightarrow> dbe_bkey_t" where
  "dbe_bkey_removedeletemark k = BKEY_INITINFO k (BKEY_GETINFO k AND NOT BKEY_DELETEMARK)"
definition dbe_bkey_isupdate :: "dbe_bkey_t \<Rightarrow> bool" where "dbe_bkey_isupdate k \<longleftrightarrow> BKEY_GETINFO k AND BKEY_UPDATE \<noteq> 0"
definition dbe_bkey_setupdate :: "dbe_bkey_t \<Rightarrow> dbe_bkey_t" where "dbe_bkey_setupdate k = BKEY_SETINFO k BKEY_UPDATE"
definition dbe_bkey_isblob :: "dbe_bkey_t \<Rightarrow> bool" where "dbe_bkey_isblob k \<longleftrightarrow> BKEY_GETINFO k AND BKEY_BLOB \<noteq> 0"
definition dbe_bkey_setblob :: "dbe_bkey_t \<Rightarrow> dbe_bkey_t" where "dbe_bkey_setblob k = BKEY_SETINFO k BKEY_BLOB"
definition dbe_bkey_isclustering :: "dbe_bkey_t \<Rightarrow> bool" where
  "dbe_bkey_isclustering k \<longleftrightarrow> BKEY_GETINFO k AND BKEY_CLUSTERING \<noteq> 0"
definition dbe_bkey_setclustering :: "dbe_bkey_t \<Rightarrow> dbe_bkey_t" where
  "dbe_bkey_setclustering k = BKEY_SETINFO k BKEY_CLUSTERING"
definition dbe_bkey_iscommitted :: "dbe_bkey_t \<Rightarrow> bool" where
  "dbe_bkey_iscommitted k \<longleftrightarrow> BKEY_GETINFO k AND BKEY_COMMITTED \<noteq> 0"
definition dbe_bkey_setcommitted :: "dbe_bkey_t \<Rightarrow> dbe_bkey_t" where
  "dbe_bkey_setcommitted k = BKEY_SETINFO k BKEY_COMMITTED"

section \<open>Making keys\<close>

text \<open>The buffer that is allocated for a key is a parameter \<open>k\<close> of the operations that make one.\<close>

definition bkey_initleafbuf :: "dbe_bkey_t \<Rightarrow> dbe_trxnum_t \<Rightarrow> dbe_trxid_t \<Rightarrow> vtpl_t \<Rightarrow> dbe_bkey_t" where
  "bkey_initleafbuf k trxnum trxid vtpl =
    (let k = BKEY_INITINFO k (BKEY_LEAF OR BKEY_2LONGUSED); k = BKEY_STOREINDEX k 0;
         k = BKEY_STORETRXNUM k trxnum; k = BKEY_STORETRXID k trxid
     in put_vtpl k (va_setva (BKEY_GETVTPLPTR k) vtpl))"

definition dbe_bkey_initshortleafbuf :: "dbe_bkey_t \<Rightarrow> dbe_bkey_t" where
  "dbe_bkey_initshortleafbuf k =
    (let k = BKEY_INITINFO k BKEY_LEAF; k = BKEY_STOREINDEX k 0
     in put_vtpl k (va_setva (BKEY_GETVTPLPTR k) VTPL_EMPTY))"

definition dbe_bkey_initlongleafbuf :: "dbe_bkey_t \<Rightarrow> dbe_bkey_t" where
  "dbe_bkey_initlongleafbuf k =
    (let k = BKEY_INITINFO k (BKEY_LEAF OR BKEY_2LONGUSED); k = BKEY_STOREINDEX k 0;
         k = BKEY_STORETRXNUM k DBE_TRXNUM_NULL; k = BKEY_STORETRXID k DBE_TRXID_NULL
     in put_vtpl k (va_setva (BKEY_GETVTPLPTR k) VTPL_EMPTY))"

definition dbe_bkey_initpermleaf :: "dbe_bkey_t \<Rightarrow> vtpl_t \<Rightarrow> dbe_bkey_t" where
  "dbe_bkey_initpermleaf k vtpl =
    (let k = BKEY_INITINFO k BKEY_LEAF; k = BKEY_STOREINDEX k 0
     in put_vtpl k (va_setva (BKEY_GETVTPLPTR k) vtpl))"

definition dbe_bkey_initleaf :: "dbe_bkey_t \<Rightarrow> dbe_trxnum_t \<Rightarrow> dbe_trxid_t \<Rightarrow> vtpl_t \<Rightarrow> dbe_bkey_t" where
  "dbe_bkey_initleaf k trxnum trxid vtpl = bkey_initleafbuf k trxnum trxid vtpl"

definition dbe_bkey_initindex :: "dbe_bkey_t \<Rightarrow> dbe_trxid_t \<Rightarrow> u32 \<Rightarrow> vtpl_t \<Rightarrow> dbe_bkey_t" where
  "dbe_bkey_initindex k trxid addr vtpl =
    (let k = BKEY_INITINFO k BKEY_2LONGUSED; k = BKEY_STOREINDEX k 0;
         k = BKEY_STORETRXID k trxid; k = BKEY_STOREADDR k addr
     in put_vtpl k (va_setva (BKEY_GETVTPLPTR k) vtpl))"

definition dbe_bkey_setvtpl :: "dbe_bkey_t \<Rightarrow> vtpl_t \<Rightarrow> dbe_bkey_t" where
  "dbe_bkey_setvtpl tk vtpl =
    (let tk = BKEY_STOREINDEX tk 0 in put_vtpl tk (va_setva (BKEY_GETVTPLPTR tk) vtpl))"

text \<open>The v-tuples below and above all others; their buffers of 20 bytes are parameters.\<close>

definition vtpl_appva :: "vtpl_t \<Rightarrow> u8 list \<Rightarrow> vtpl_t" where
  "vtpl_appva target_vtpl source_va = va_appdata_ex target_vtpl source_va (va_grosslen source_va)"

definition va_minint :: "u8 list" where "va_minint = [1, 1, 0, 0, 0, 0, 0, 0, 0, 0]"
definition va_maxint :: "u8 list" where "va_maxint = [9, 255, 255, 255, 255, 255, 255, 255, 255, 255]"

definition dbe_bkey_settreeminvtpl :: "vtpl_t \<Rightarrow> u8 list \<Rightarrow> dbe_bkey_t \<Rightarrow> dbe_bkey_t" where
  "dbe_bkey_settreeminvtpl vtpl_buf va_buf tk =
    (let va = va_setdata va_buf (Some [0, 0]) 1; vtpl = vtpl_appva (va_setva vtpl_buf VTPL_EMPTY) va
     in dbe_bkey_setvtpl tk vtpl)"

definition dbe_bkey_setsearchminvtpl :: "vtpl_t \<Rightarrow> dbe_bkey_t \<Rightarrow> dbe_bkey_t" where
  "dbe_bkey_setsearchminvtpl vtpl_buf tk = dbe_bkey_setvtpl tk (vtpl_appva (va_setva vtpl_buf VTPL_EMPTY) va_minint)"

definition dbe_bkey_setsearchmaxvtpl :: "vtpl_t \<Rightarrow> dbe_bkey_t \<Rightarrow> dbe_bkey_t" where
  "dbe_bkey_setsearchmaxvtpl vtpl_buf tk = dbe_bkey_setvtpl tk (vtpl_appva (va_setva vtpl_buf VTPL_EMPTY) va_maxint)"

definition dbe_bkey_setbkey :: "dbe_bkey_t \<Rightarrow> dbe_bkey_t \<Rightarrow> dbe_bkey_t" where
  "dbe_bkey_setbkey tk sk =
    (let tk = BKEY_STOREINDEX tk 0; tk = put_vtpl tk (va_setva (BKEY_GETVTPLPTR tk) (BKEY_GETVTPLPTR sk));
         sk_info = BKEY_GETINFO sk;
         tk = (if dbe_bkey_istrxid tk \<and> dbe_bkey_istrxid sk then dbe_bkey_settrxid tk (dbe_bkey_gettrxid sk) else tk);
         tk = (if dbe_bkey_isdeletemark sk then dbe_bkey_setdeletemark tk else tk);
         tk = (if dbe_bkey_isupdate sk then dbe_bkey_setupdate tk else tk);
         tk = BKEY_INITINFO tk (BKEY_GETINFO tk AND NOT (BKEY_BLOB OR BKEY_CLUSTERING));
         tk = (if sk_info AND BKEY_BLOB \<noteq> 0 then BKEY_SETINFO tk BKEY_BLOB else tk)
     in if sk_info AND BKEY_CLUSTERING \<noteq> 0 then BKEY_SETINFO tk BKEY_CLUSTERING else tk)"

text \<open>The v-tuple moves to where the shorter header ends.\<close>

definition dbe_bkey_removetrxinfo :: "dbe_bkey_t \<Rightarrow> dbe_bkey_t" where
  "dbe_bkey_removetrxinfo k =
    (let old_vtpl = BKEY_HEADERLEN k; info = BKEY_GETINFO k; len = unat (vtpl_grosslen (drop old_vtpl k));
         k = (if BKEY_ISLEAF k then BKEY_INITINFO k (info AND NOT (BKEY_1LONGUSED OR BKEY_2LONGUSED))
              else BKEY_SETINFO (BKEY_INITINFO k (info AND NOT BKEY_2LONGUSED)) BKEY_1LONGUSED)
     in buf_move (BKEY_HEADERLEN k) old_vtpl len k)"

definition dbe_bkey_copy :: "dbe_bkey_t \<Rightarrow> dbe_bkey_t \<Rightarrow> dbe_bkey_t" where
  "dbe_bkey_copy tk sk = buf_write 0 (take (dbe_bkey_getlength sk) sk) tk"

definition dbe_bkey_copy_keeptargetformat :: "dbe_bkey_t \<Rightarrow> dbe_bkey_t \<Rightarrow> dbe_bkey_t" where
  "dbe_bkey_copy_keeptargetformat tk sk =
    (if BKEY_HEADERLEN tk = BKEY_HEADERLEN sk then buf_write 0 (take (dbe_bkey_getlength sk) sk) tk
     else let sinfo = BKEY_GETINFO sk AND NOT (BKEY_1LONGUSED OR BKEY_2LONGUSED);
              tk = BKEY_SETINFO tk sinfo; tk = BKEY_STOREINDEX tk (BKEY_LOADINDEX sk)
          in put_vtpl tk (va_setva (BKEY_GETVTPLPTR tk) (BKEY_GETVTPLPTR sk)))"

text \<open>\<^verbatim>\<open>memcpy\<close> of the header, as many operations begin.\<close>

definition copy_header :: "dbe_bkey_t \<Rightarrow> dbe_bkey_t \<Rightarrow> dbe_bkey_t" where
  "copy_header tk sk = buf_write 0 (take (BKEY_HEADERLEN sk) sk) tk"

definition dbe_bkey_copyheader :: "dbe_bkey_t \<Rightarrow> dbe_bkey_t \<Rightarrow> dbe_bkey_t" where
  "dbe_bkey_copyheader tk sk = BKEY_STOREINDEX (copy_header tk sk) (BKEY_LOADINDEX tk)"

definition dbe_bkey_getkeyid :: "dbe_bkey_t \<Rightarrow> u32" where
  "dbe_bkey_getkeyid k =
    (let vtpl = BKEY_GETVTPLPTR k; va = drop (va_lenlen vtpl) vtpl in
     if vtpl_grosslen vtpl \<ge> 7 \<and> va_grosslen va < 10 then va_getlong_check va else - 1)"

section \<open>Comparison\<close>

definition bkey_compare_header_gettrxid :: "dbe_bkey_t \<Rightarrow> dbe_trxid_t option" where
  "bkey_compare_header_gettrxid k =
    (let n = BKEY_GETINFO k AND (BKEY_1LONGUSED OR BKEY_2LONGUSED) in
     if BKEY_ISLEAF k
     then if n = 0 then Some DBE_TRXID_NULL
       else if n = BKEY_1LONGUSED then Some (dbe_bkey_gettrxnum k)
       else if n = BKEY_2LONGUSED then Some (BKEY_LOADTRXID k) else None
     else if n = 0 then None
       else if n = BKEY_1LONGUSED then Some DBE_TRXID_NULL
       else if n = BKEY_2LONGUSED then Some (BKEY_LOADTRXID k) else None)"

definition dbe_bkey_compare_deletemark :: "dbe_bkey_t \<Rightarrow> dbe_bkey_t \<Rightarrow> int" where
  "dbe_bkey_compare_deletemark k1 k2 =
    (if BKEY_ISDELETEMARK k1 \<and> \<not> BKEY_ISDELETEMARK k2 then - 1
     else if \<not> BKEY_ISDELETEMARK k1 \<and> BKEY_ISDELETEMARK k2 then 1 else 0)"

definition dbe_bkey_compare_header :: "dbe_bkey_t \<Rightarrow> dbe_bkey_t \<Rightarrow> int option" where
  "dbe_bkey_compare_header k1 k2 =
    (let cmp = dbe_bkey_compare_deletemark k1 k2 in
     if cmp \<noteq> 0 then Some cmp
     else Option.bind (bkey_compare_header_gettrxid k1) (\<lambda>k1_trxid.
       Option.bind (bkey_compare_header_gettrxid k2) (\<lambda>k2_trxid. Some (dbe_trxid_cmp k1_trxid k2_trxid))))"

definition DBE_BKEY_COMPARE :: "dbe_bkey_t \<Rightarrow> dbe_bkey_t \<Rightarrow> int option" where
  "DBE_BKEY_COMPARE k1 k2 =
    (let cmp = vtpl_compare (BKEY_GETVTPLPTR k1) (BKEY_GETVTPLPTR k2) in
     if cmp = 0 then dbe_bkey_compare_header k1 k2 else Some cmp)"

definition DBE_BKEY_COMPARE_VTPL :: "dbe_bkey_t \<Rightarrow> dbe_bkey_t \<Rightarrow> int" where
  "DBE_BKEY_COMPARE_VTPL k1 k2 = vtpl_compare (BKEY_GETVTPLPTR k1) (BKEY_GETVTPLPTR k2)"

definition DBE_BKEY_COMPARE_DELETE :: "dbe_bkey_t \<Rightarrow> dbe_bkey_t \<Rightarrow> int" where
  "DBE_BKEY_COMPARE_DELETE k1 k2 =
    (let cmp = vtpl_compare (BKEY_GETVTPLPTR k1) (BKEY_GETVTPLPTR k2) in
     if cmp = 0 then dbe_bkey_compare_deletemark k1 k2 else cmp)"

section \<open>Compression\<close>

text \<open>
  \<open>same\<close> says that the target is one of the two keys; the key is then made in a buffer \<open>buf\<close> and copied.
\<close>

definition dbe_bkey_compress :: "bool \<Rightarrow> dbe_bkey_t \<Rightarrow> dbe_bkey_t \<Rightarrow> dbe_bkey_t \<Rightarrow> dbe_bkey_t \<Rightarrow> dbe_bkey_t" where
  "dbe_bkey_compress same buf tk pk nk =
    (let tmpk = copy_header (if same then buf else tk) nk;
         (vtpl, index) = vtpl_compress (BKEY_GETVTPLPTR tmpk) (BKEY_GETVTPLPTR pk) (BKEY_GETVTPLPTR nk);
         tmpk = BKEY_STOREINDEX (put_vtpl tmpk vtpl) (ucast index)
     in if same then dbe_bkey_copy tk tmpk else tmpk)"

definition dbe_bkey_recompress_insert :: "dbe_bkey_t \<Rightarrow> dbe_bkey_t \<Rightarrow> dbe_bkey_t \<Rightarrow> dbe_bkey_t" where
  "dbe_bkey_recompress_insert tk pk nk =
    (let pk_index = BKEY_LOADINDEX pk; nk_index = BKEY_LOADINDEX nk in
     if pk_index \<le> nk_index
     then let tk = copy_header tk nk;
              (vtpl, index) = vtpl_compress (BKEY_GETVTPLPTR tk) (BKEY_GETVTPLPTR pk) (BKEY_GETVTPLPTR nk)
          in BKEY_STOREINDEX (put_vtpl tk vtpl) (ucast index + nk_index)
     else dbe_bkey_copy tk nk)"

definition dbe_bkey_reexpand_delete :: "dbe_bkey_t \<Rightarrow> dbe_bkey_t \<Rightarrow> dbe_bkey_t \<Rightarrow> dbe_bkey_t" where
  "dbe_bkey_reexpand_delete tk dk nk =
    (let dk_index = BKEY_LOADINDEX dk; nk_index = BKEY_LOADINDEX nk in
     if dk_index < nk_index
     then let tk = copy_header tk nk; index = ucast (nk_index - dk_index);
              vtpl = vtpl_expand (BKEY_GETVTPLPTR tk) (BKEY_GETVTPLPTR dk) (BKEY_GETVTPLPTR nk) index
          in BKEY_STOREINDEX (put_vtpl tk vtpl) dk_index
     else dbe_bkey_copy tk nk)"

text \<open>
  \<open>same\<close> says that the target is the full key. Where the headers differ in length the key is then made in
  memory \<open>mem\<close> of its own, which \<^verbatim>\<open>dbe_dynbkey_expand\<close> allocates, and copied. \<open>None\<close> stands for the v-tuple
  that is expanded over itself, which is not modelled (\<^verbatim>\<open>uti_expand\<close>).
\<close>

definition bkey_expand_here :: "dbe_bkey_t \<Rightarrow> dbe_bkey_t \<Rightarrow> dbe_bkey_t \<Rightarrow> dbe_bkey_t" where
  "bkey_expand_here tk fk ck =
    (let tk = BKEY_STOREINDEX (copy_header tk ck) 0; index = BKEY_LOADINDEX ck
     in put_vtpl tk (vtpl_expand (BKEY_GETVTPLPTR tk) (BKEY_GETVTPLPTR fk) (BKEY_GETVTPLPTR ck) (ucast index)))"

definition dynbkey_allocsize :: "dbe_bkey_t \<Rightarrow> nat" where
  "dynbkey_allocsize ck =
    BKEY_MAXHEADERLEN + 2 * unat (BKEY_LOADINDEX ck) + 5 + unat (vtpl_netlen (BKEY_GETVTPLPTR ck))"

definition dbe_dynbkey_expand :: "dbe_bkey_t \<Rightarrow> dbe_bkey_t \<Rightarrow> dbe_bkey_t \<Rightarrow> dbe_bkey_t" where
  "dbe_dynbkey_expand mem fk ck = bkey_expand_here mem fk ck"

definition dbe_bkey_expand :: "bool \<Rightarrow> dbe_bkey_t \<Rightarrow> dbe_bkey_t \<Rightarrow> dbe_bkey_t \<Rightarrow> dbe_bkey_t \<Rightarrow> dbe_bkey_t option" where
  "dbe_bkey_expand same mem tk fk ck =
    (if same \<and> BKEY_HEADERLEN fk \<noteq> BKEY_HEADERLEN ck then Some (dbe_bkey_copy tk (dbe_dynbkey_expand mem fk ck))
     else if same then None
     else Some (bkey_expand_here tk fk ck))"

section \<open>Split keys\<close>

definition bkey_initsplit_header :: "dbe_bkey_t \<Rightarrow> dbe_bkey_t \<Rightarrow> dbe_bkey_t option" where
  "bkey_initsplit_header k sk =
    (let n = BKEY_GETINFO sk AND (BKEY_1LONGUSED OR BKEY_2LONGUSED);
         long = (\<lambda>trxid. Some (BKEY_STORETRXID (BKEY_INITINFO k BKEY_2LONGUSED) trxid))
     in map_option (\<lambda>k. let k = BKEY_STOREINDEX k 0 in if dbe_bkey_isdeletemark sk then dbe_bkey_setdeletemark k else k)
       (if BKEY_ISLEAF sk
        then if n = 0 then Some (BKEY_INITINFO k BKEY_1LONGUSED)
          else if n = BKEY_1LONGUSED then long (dbe_bkey_gettrxnum sk)
          else if n = BKEY_2LONGUSED then long (dbe_bkey_gettrxid sk) else None
        else if n = 0 then None
          else if n = BKEY_1LONGUSED then Some (BKEY_INITINFO k BKEY_1LONGUSED)
          else if n = BKEY_2LONGUSED then long (dbe_bkey_gettrxid sk) else None))"

definition bkey_findsplit :: "dbe_bkey_t \<Rightarrow> dbe_bkey_t \<Rightarrow> dbe_bkey_t \<Rightarrow> dbe_bkey_t" where
  "bkey_findsplit target_split_key full_key compressed_key =
    (let tk = BKEY_STOREINDEX target_split_key 0; index = BKEY_LOADINDEX compressed_key
     in put_vtpl tk (vtpl_find_split (BKEY_GETVTPLPTR tk) (BKEY_GETVTPLPTR full_key)
       (BKEY_GETVTPLPTR compressed_key) (ucast index)))"

definition dbe_bkey_initsplit :: "dbe_bkey_t \<Rightarrow> dbe_bkey_t \<Rightarrow> dbe_bkey_t option" where
  "dbe_bkey_initsplit k split_key =
    map_option (\<lambda>k. dbe_bkey_setvtpl k (dbe_bkey_getvtpl split_key)) (bkey_initsplit_header k split_key)"

definition dbe_bkey_findsplit :: "dbe_bkey_t \<Rightarrow> dbe_bkey_t \<Rightarrow> dbe_bkey_t \<Rightarrow> dbe_bkey_t option" where
  "dbe_bkey_findsplit k full_key compressed_key =
    map_option (\<lambda>k. bkey_findsplit k full_key compressed_key) (bkey_initsplit_header k compressed_key)"

section \<open>Searching\<close>

datatype dbe_bkey_cmp_t = DBE_BKEY_CMP_VTPL | DBE_BKEY_CMP_ALL | DBE_BKEY_CMP_DELETE

record dbe_bkey_search_t =
  ks_ss :: "(dbe_bkey_t, dbe_bkey_t) search_state"
  ks_k :: dbe_bkey_t

text \<open>
  The comparison function of the search state returns an \<^verbatim>\<open>int\<close>; where the program would stop on a header
  with both flags of long fields, or an index key without any, the value 0 stands for it.
\<close>

definition dbe_bkey_search_init :: "dbe_bkey_search_t \<Rightarrow> dbe_bkey_t \<Rightarrow> dbe_bkey_cmp_t \<Rightarrow> dbe_bkey_search_t" where
  "dbe_bkey_search_init ks sk bkey_cmp =
    (let ss = vtpl_search_init (ks_ss ks) (BKEY_GETVTPLPTR sk) sk in
     \<lparr>ks_ss = (case bkey_cmp of
        DBE_BKEY_CMP_VTPL \<Rightarrow> ss
      | DBE_BKEY_CMP_ALL \<Rightarrow> vtpl_search_setcmpfn ss (\<lambda>k1 k2. case dbe_bkey_compare_header k1 k2 of Some c \<Rightarrow> c | None \<Rightarrow> 0)
      | DBE_BKEY_CMP_DELETE \<Rightarrow> vtpl_search_setcmpfn ss dbe_bkey_compare_deletemark), ks_k = sk\<rparr>)"

definition dbe_bkey_search_step :: "dbe_bkey_search_t \<Rightarrow> dbe_bkey_t \<Rightarrow> int \<times> dbe_bkey_search_t" where
  "dbe_bkey_search_step ks ck =
    (let (ret, ss) = vtpl_dbe_search_step (BKEY_GETVTPLPTR (ks_k ks)) (ks_ss ks) (ucast (BKEY_LOADINDEX ck))
       (BKEY_GETVTPLPTR ck) ck
     in (ret, ks\<lparr>ks_ss := ss\<rparr>))"

definition dbe_bkey_search_compress :: "dbe_bkey_search_t \<Rightarrow> dbe_bkey_t \<Rightarrow> dbe_bkey_t" where
  "dbe_bkey_search_compress ks tk =
    (let tk = copy_header tk (ks_k ks);
         (vtpl, index) = vtpl_search_compress (BKEY_GETVTPLPTR tk) (BKEY_GETVTPLPTR (ks_k ks)) (ks_ss ks)
     in BKEY_STOREINDEX (put_vtpl tk vtpl) (ucast index))"

text \<open>
  The search for the start of a range in \<^verbatim>\<open>bnode_getsamplevalues\<close> of \<^verbatim>\<open>dbe/dbe6bnod.c\<close>, in a node that has no
  mismatch array: \<open>n\<close> keys are left, \<open>keys\<close> is the key area from the current key on. The result is the
  position and the key where the loop ends.
\<close>

fun range_start :: "nat \<Rightarrow> nat \<Rightarrow> u8 list \<Rightarrow> dbe_bkey_search_t \<Rightarrow> nat \<times> u8 list \<times> dbe_bkey_search_t" where
  "range_start 0 i keys ks = (i, keys, ks)"
| "range_start (Suc n) i keys ks =
    (let (cmp, ks) = dbe_bkey_search_step ks keys in
     if cmp \<le> 0 then (i, keys, ks) else range_start n (Suc i) (drop (dbe_bkey_getlength keys) keys) ks)"

end
