(* ===== verification/Bkey_Node.thy ===== *)
theory Bkey_Node
  imports Bkey
begin

text \<open>
  Keys in a node: what the operations on keys do to the sequence of compressed keys, and what a search
  through it finds.
\<close>

section \<open>The bytes of a key\<close>

text \<open>A header is the info byte and the long fields behind the index.\<close>

definition header_ok :: "u8 \<times> u8 list \<Rightarrow> bool" where
  "header_ok h \<longleftrightarrow> length (snd h) = 4 * unat (fst h AND (BKEY_1LONGUSED OR BKEY_2LONGUSED))"

definition bkey_bytes :: "u8 \<times> u8 list \<Rightarrow> u16 \<Rightarrow> u8 list list \<Rightarrow> dbe_bkey_t" where
  "bkey_bytes h i fs = fst h # SS_UINT2_STORETODISK i @ snd h @ vtpl_encode fs"

text \<open>The key in a node behind a key with the fields \<open>t\<close>; \<open>t = []\<close> stands for the first key of the node.\<close>

definition bkey_after :: "u8 list list \<Rightarrow> u8 \<times> u8 list \<Rightarrow> u8 list list \<Rightarrow> dbe_bkey_t" where
  "bkey_after t h u = bkey_bytes h (word_of_nat (fst (cmpr t u))) (snd (cmpr t u))"

lemma store2_list: "SS_UINT2_STORETODISK i = [ucast i, ucast (drop_bit 8 i)]"
  by (simp add: SS_UINT2_STORETODISK_def)

lemma bkey_reads:
  assumes "header_ok h"
  shows "BKEY_GETINFO (bkey_bytes h i fs @ x) = fst h"
    "BKEY_HEADERLEN (bkey_bytes h i fs @ x) = 3 + length (snd h)"
    "BKEY_LOADINDEX (bkey_bytes h i fs @ x) = i"
    "BKEY_GETVTPLPTR (bkey_bytes h i fs @ x) = vtpl_encode fs @ x"
    "take (BKEY_HEADERLEN (bkey_bytes h i fs @ x)) (bkey_bytes h i fs @ x) = fst h # SS_UINT2_STORETODISK i @ snd h"
proof -
  show info: "BKEY_GETINFO (bkey_bytes h i fs @ x) = fst h"
    by (simp add: BKEY_GETINFO_def bkey_bytes_def)
  show len: "BKEY_HEADERLEN (bkey_bytes h i fs @ x) = 3 + length (snd h)"
    unfolding BKEY_HEADERLEN_def BKEY_NLONGUSED_def info using assms by (simp add: BKEY_HEADERLEN_FIXED_def header_ok_def)
  show "BKEY_LOADINDEX (bkey_bytes h i fs @ x) = i"
    using load_store2 [of i "snd h @ vtpl_encode fs @ x"] by (simp add: BKEY_LOADINDEX_def BKEY_INDEX_def bkey_bytes_def)
  show "BKEY_GETVTPLPTR (bkey_bytes h i fs @ x) = vtpl_encode fs @ x"
    unfolding BKEY_GETVTPLPTR_def len by (simp add: bkey_bytes_def store2_list numeral_3_eq_3)
  show "take (BKEY_HEADERLEN (bkey_bytes h i fs @ x)) (bkey_bytes h i fs @ x) = fst h # SS_UINT2_STORETODISK i @ snd h"
    unfolding len by (simp add: bkey_bytes_def store2_list numeral_3_eq_3)
qed

text \<open>A buffer that begins with a header.\<close>

lemma header_reads:
  assumes "header_ok h"
  shows "BKEY_HEADERLEN (fst h # SS_UINT2_STORETODISK i @ snd h @ v) = 3 + length (snd h)"
    "BKEY_GETVTPLPTR (fst h # SS_UINT2_STORETODISK i @ snd h @ v) = v"
    "put_vtpl (fst h # SS_UINT2_STORETODISK i @ snd h @ v) w = fst h # SS_UINT2_STORETODISK i @ snd h @ w"
    "BKEY_STOREINDEX (fst h # SS_UINT2_STORETODISK i @ snd h @ v) j = fst h # SS_UINT2_STORETODISK j @ snd h @ v"
    "BKEY_GETINFO (fst h # SS_UINT2_STORETODISK i @ snd h @ v) = fst h"
proof -
  show info: "BKEY_GETINFO (fst h # SS_UINT2_STORETODISK i @ snd h @ v) = fst h"
    by (simp add: BKEY_GETINFO_def)
  show len: "BKEY_HEADERLEN (fst h # SS_UINT2_STORETODISK i @ snd h @ v) = 3 + length (snd h)"
    unfolding BKEY_HEADERLEN_def BKEY_NLONGUSED_def info using assms by (simp add: BKEY_HEADERLEN_FIXED_def header_ok_def)
  show "BKEY_GETVTPLPTR (fst h # SS_UINT2_STORETODISK i @ snd h @ v) = v"
    unfolding BKEY_GETVTPLPTR_def len by (simp add: store2_list numeral_3_eq_3)
  show "put_vtpl (fst h # SS_UINT2_STORETODISK i @ snd h @ v) w = fst h # SS_UINT2_STORETODISK i @ snd h @ w"
    unfolding put_vtpl_def len by (simp add: store2_list numeral_3_eq_3)
  show "BKEY_STOREINDEX (fst h # SS_UINT2_STORETODISK i @ snd h @ v) j = fst h # SS_UINT2_STORETODISK j @ snd h @ v"
    by (simp add: BKEY_STOREINDEX_def BKEY_INDEX_def store2_list buf_write_def)
qed

lemma copy_header_bytes:
  assumes "header_ok h"
  shows "copy_header tk (bkey_bytes h i fs @ x) = fst h # SS_UINT2_STORETODISK i @ snd h @ drop (3 + length (snd h)) tk"
  unfolding copy_header_def bkey_reads(5) [OF assms] by (simp add: store2_list numeral_3_eq_3)

lemma getlength_bytes:
  assumes "header_ok h" "vtpl_fits fs"
  shows "dbe_bkey_getlength (bkey_bytes h i fs @ x) = length (bkey_bytes h i fs)"
proof -
  have "vtpl_grosslen (vtpl_encode fs @ x) = va_grosslen (vtpl_encode fs @ x)"
    by (simp add: vtpl_grosslen_def va_grosslen_def)
  then have "unat (vtpl_grosslen (vtpl_encode fs @ x)) = length (vtpl_encode fs)"
    using vtpl_fits_va [OF assms(2)] by (simp add: vtpl_encode_def)
  then show ?thesis
    unfolding dbe_bkey_getlength_def bkey_reads(2,4) [OF assms(1)] by (simp add: bkey_bytes_def store2_list)
qed

lemma copy_bytes:
  assumes "header_ok h" "vtpl_fits fs"
  shows "dbe_bkey_copy tk (bkey_bytes h i fs @ x) = bkey_bytes h i fs @ drop (length (bkey_bytes h i fs)) tk"
  unfolding dbe_bkey_copy_def getlength_bytes [OF assms] by simp

lemma bkey_bytes_append: "bkey_bytes h i fs @ x = fst h # SS_UINT2_STORETODISK i @ snd h @ vtpl_encode fs @ x"
  by (simp add: bkey_bytes_def)

text \<open>The index of a key fits two bytes.\<close>

lemma index_ucast:
  "n < 65536 \<Longrightarrow> (ucast (word_of_nat n :: u32) :: u16) = word_of_nat n"
  "n < 65536 \<Longrightarrow> (ucast (word_of_nat n :: u16) :: u32) = word_of_nat n"
  "n < 65536 \<Longrightarrow> unat (word_of_nat n :: u16) = n"
  by (simp_all add: unat_of_nat word_eq_iff_unsigned unsigned_ucast_eq unsigned_of_nat take_bit_nat_eq_self take_bit_eq_mod)

section \<open>Compressing and expanding\<close>

lemma put_compressed:
  assumes "header_ok h" "vtpl_fits p" "vtpl_fits n" "p \<noteq> []" "n \<noteq> []" "13 + length (snd h) \<le> length tk"
  shows "\<exists>r. (case vtpl_compress (BKEY_GETVTPLPTR (copy_header tk (bkey_bytes h i m @ y))) (vtpl_encode p @ x) (vtpl_encode n @ z)
    of (vtpl, index) \<Rightarrow> BKEY_STOREINDEX (put_vtpl (copy_header tk (bkey_bytes h i m @ y)) vtpl) (f index)) =
    bkey_bytes h (f (word_of_nat (fst (cmpr p n)))) (snd (cmpr p n)) @ r"
proof -
  have l: "10 \<le> length (drop (3 + length (snd h)) tk)"
    using assms(6) by simp
  show ?thesis
    unfolding copy_header_bytes [OF assms(1)] header_reads(2) [OF assms(1)] vtpl_compress_cmpr [OF assms(2-5) l] prod.case
      header_reads(3,4) [OF assms(1)] by (simp add: bkey_bytes_def)
qed

lemma compress_after:
  assumes "header_ok hp" "header_ok hn" "vtpl_fits t" "vtpl_fits u" "t \<noteq> []" "u \<noteq> []"
    and "fst (cmpr t u) < 65536" "13 + length (snd hn) \<le> length (if same then buf else tk)"
  shows "\<exists>r. dbe_bkey_compress same buf tk (bkey_bytes hp 0 t @ x) (bkey_bytes hn 0 u @ y) = bkey_after t hn u @ r"
proof -
  obtain r where "(case vtpl_compress (BKEY_GETVTPLPTR (copy_header (if same then buf else tk) (bkey_bytes hn 0 u @ y))) (vtpl_encode t @ x)
      (vtpl_encode u @ y) of (vtpl, index) \<Rightarrow>
      BKEY_STOREINDEX (put_vtpl (copy_header (if same then buf else tk) (bkey_bytes hn 0 u @ y)) vtpl) (ucast index)) =
    bkey_bytes hn (ucast (word_of_nat (fst (cmpr t u)) :: u32)) (snd (cmpr t u)) @ r"
    using put_compressed [OF assms(2-6,8)] by blast
  then have "dbe_bkey_compress same buf tk (bkey_bytes hp 0 t @ x) (bkey_bytes hn 0 u @ y) =
      (if same then dbe_bkey_copy tk (bkey_after t hn u @ r) else bkey_after t hn u @ r)"
    unfolding dbe_bkey_compress_def bkey_reads(4) [OF assms(1)] bkey_reads(4) [OF assms(2)] bkey_after_def index_ucast(1) [OF assms(7)]
    by (cases same) (simp_all add: Let_def case_prod_beta)
  moreover have "vtpl_fits (snd (cmpr t u))"
    by (rule cmpr_fits(1) [OF assms(6,4)])
  ultimately show ?thesis
    using copy_bytes [OF assms(2)] unfolding bkey_after_def by auto
qed

lemma put_expanded:
  assumes "header_ok h"
  shows "put_vtpl (BKEY_STOREINDEX (copy_header tk (bkey_bytes h i m @ y)) j) w = fst h # SS_UINT2_STORETODISK j @ snd h @ w"
    "BKEY_GETVTPLPTR (BKEY_STOREINDEX (copy_header tk (bkey_bytes h i m @ y)) j) = drop (3 + length (snd h)) tk"
  unfolding copy_header_bytes [OF assms] header_reads(4) [OF assms] header_reads(2,3) [OF assms] by simp_all

lemma expand_here_after:
  assumes "header_ok hp" "header_ok hn" "vtpl_fits t" "vtpl_fits u" "t \<noteq> []" "u \<noteq> []" "fst (cmpr t u) < 65536"
  shows "\<exists>r. bkey_expand_here tk (bkey_bytes hp 0 t @ x) (bkey_after t hn u @ y) = bkey_bytes hn 0 u @ r"
proof -
  obtain r where "vtpl_expand (drop (3 + length (snd hn)) tk) (vtpl_encode t @ x) (vtpl_encode (snd (cmpr t u)) @ y)
      (word_of_nat (fst (cmpr t u))) = vtpl_encode u @ r"
    using expand_cmpr [OF assms(3-6)] by blast
  then show ?thesis
    unfolding bkey_expand_here_def Let_def bkey_after_def bkey_reads(3,4) [OF assms(2)] bkey_reads(4) [OF assms(1)] put_expanded [OF assms(2)]
      index_ucast(2) [OF assms(7)] by (simp add: bkey_bytes_def)
qed

lemma expand_after:
  assumes "header_ok hp" "header_ok hn" "vtpl_fits t" "vtpl_fits u" "t \<noteq> []" "u \<noteq> []" "fst (cmpr t u) < 65536"
    and "same \<longrightarrow> length (snd hp) \<noteq> length (snd hn)"
  shows "\<exists>r. dbe_bkey_expand same mem tk (bkey_bytes hp 0 t @ x) (bkey_after t hn u @ y) = Some (bkey_bytes hn 0 u @ r)"
proof -
  have h: "BKEY_HEADERLEN (bkey_bytes hp 0 t @ x) = 3 + length (snd hp)" "BKEY_HEADERLEN (bkey_after t hn u @ y) = 3 + length (snd hn)"
    unfolding bkey_after_def by (rule bkey_reads(2), rule assms)+
  obtain r where r: "bkey_expand_here (if same then mem else tk) (bkey_bytes hp 0 t @ x) (bkey_after t hn u @ y) = bkey_bytes hn 0 u @ r"
    using expand_here_after [OF assms(1-7)] by blast
  then show ?thesis
    using assms(8) copy_bytes [OF assms(2,4), of tk 0 r] unfolding dbe_bkey_expand_def dbe_dynbkey_expand_def h by (cases same) auto
qed

text \<open>
  C14. A key compressed against another key and expanded with it is the key again, header and v-tuple,
  with index 0: for all header lengths and length formats, compressed into a buffer of its own or
  over one of the two keys, and expanded into a buffer of its own, or over the full key where the
  headers differ in length and the key goes through allocated memory. The buffers have room for
  the key; the expansion of a v-tuple over itself is not covered.
\<close>

theorem bkey_expand_compress:
  assumes "header_ok hp" "header_ok hn" "vtpl_fits t" "vtpl_fits u" "t \<noteq> []" "u \<noteq> []" "length (fields_bytes u) < 65536"
    and "13 + length (snd hn) \<le> length (if same1 then buf else ctk)" "length (bkey_bytes hn 0 u) \<le> length tk"
    and "same2 \<longrightarrow> tk = bkey_bytes hp 0 t @ x \<and> length (snd hp) \<noteq> length (snd hn) \<and> length (bkey_bytes hn 0 u) \<le> length mem"
  shows "\<exists>r. dbe_bkey_expand same2 mem tk (bkey_bytes hp 0 t @ x)
    (dbe_bkey_compress same1 buf ctk (bkey_bytes hp 0 t @ x) (bkey_bytes hn 0 u @ y)) = Some (bkey_bytes hn 0 u @ r)"
proof -
  have i: "fst (cmpr t u) < 65536"
    using cmpr_length(2) [OF assms(6), of t] assms(7) by simp
  obtain r where "dbe_bkey_compress same1 buf ctk (bkey_bytes hp 0 t @ x) (bkey_bytes hn 0 u @ y) = bkey_after t hn u @ r"
    using compress_after [OF assms(1-6) i assms(8)] by blast
  then show ?thesis
    using expand_after [OF assms(1-6) i, of same2 mem tk x r] assms(10) by simp
qed

theorem bkey_expand_compress_witness:
  "\<exists>r. dbe_bkey_expand True (replicate 30 0) (bkey_bytes (4, []) 0 [[1, 2], [3]] @ replicate 20 0) (bkey_bytes (4, []) 0 [[1, 2], [3]] @ replicate 20 0)
    (dbe_bkey_compress False [] (replicate 30 0) (bkey_bytes (4, []) 0 [[1, 2], [3]] @ replicate 20 0)
      (bkey_bytes (6, [1, 0, 0, 0, 2, 0, 0, 0]) 0 [[1, 2], [5, 6]] @ [])) = Some (bkey_bytes (6, [1, 0, 0, 0, 2, 0, 0, 0]) 0 [[1, 2], [5, 6]] @ r)"
  by (rule bkey_expand_compress)
    (simp_all add: header_ok_def bkey_flags vtpl_fits_def bkey_bytes_def store2_list vtpl_encode_def encode_length)

section \<open>Inserting and deleting\<close>

lemma recompress_after:
  assumes "header_ok hp" "header_ok hn" "vtpl_fits p" "vtpl_fits n" "chain_ok t p" "chain_ok p n"
    and "length (fields_bytes n) < 65536" "length (fields_bytes p) < 65536" "13 + length (snd hn) \<le> length tk"
  shows "\<exists>r. dbe_bkey_recompress_insert tk (bkey_after t hp p @ x) (bkey_after t hn n @ y) = bkey_after p hn n @ r"
proof -
  have ne: "p \<noteq> []" "n \<noteq> []" "p \<le> n"
    using assms(5,6) chain_ok_nonempty by (auto simp: chain_ok_def)
  have tn: "chain_ok t n"
    by (rule chain_ok_trans [OF assms(5,6)])
  note o = search_order_chain [OF chain_meets [OF tn assms(5)] assms(5)]
  let ?ip = "fst (cmpr t p)" and ?in = "fst (cmpr t n)" and ?cp = "snd (cmpr t p)" and ?cn = "snd (cmpr t n)"
  have i: "?ip < 65536" "?in < 65536" "fst (cmpr p n) < 65536"
    using cmpr_length(2) [OF ne(1), of t] cmpr_length(2) [OF ne(2), of t] cmpr_length(2) [OF ne(2), of p] assms(7,8) by simp_all
  have le: "(word_of_nat ?ip :: u16) \<le> word_of_nat ?in \<longleftrightarrow> ?ip \<le> ?in"
    by (simp add: word_le_nat_alt index_ucast(3) i)
  have fits: "vtpl_fits ?cp" "vtpl_fits ?cn" "?cp \<noteq> []" "?cn \<noteq> []"
    using cmpr_fits(1) assms(3,4) ne cmpr_nonempty by blast+
  show ?thesis
  proof (cases "?ip \<le> ?in")
    case True
    then have eq: "?in = ?ip"
      using o(5) ne(3) by (cases "?ip < ?in") auto
    have c: "cmpr p n = (?in + fst (cmpr ?cp ?cn), snd (cmpr ?cp ?cn))"
      using o(2) [OF eq] by simp
    then have ci: "fst (cmpr ?cp ?cn) < 65536"
      using i(3) by simp
    obtain r where "(case vtpl_compress (BKEY_GETVTPLPTR (copy_header tk (bkey_bytes hn (word_of_nat ?in) ?cn @ y))) (vtpl_encode ?cp @ x)
        (vtpl_encode ?cn @ y) of (vtpl, index) \<Rightarrow>
        BKEY_STOREINDEX (put_vtpl (copy_header tk (bkey_bytes hn (word_of_nat ?in) ?cn @ y)) vtpl) (ucast index + word_of_nat ?in)) =
      bkey_bytes hn (ucast (word_of_nat (fst (cmpr ?cp ?cn)) :: u32) + word_of_nat ?in) (snd (cmpr ?cp ?cn)) @ r"
      using put_compressed [OF assms(2) fits assms(9), where f = "\<lambda>index. ucast index + word_of_nat ?in"] by blast
    then show ?thesis
      using True le unfolding dbe_bkey_recompress_insert_def Let_def bkey_after_def bkey_reads(3,4) [OF assms(1)] bkey_reads(3,4) [OF assms(2)]
        index_ucast(1) [OF ci] c by (simp add: add.commute)
  next
    case False
    then have "cmpr p n = cmpr t n"
      using o(4) by simp
    then show ?thesis
      using False le copy_bytes [OF assms(2) fits(2)] unfolding dbe_bkey_recompress_insert_def Let_def bkey_after_def
        bkey_reads(3,4) [OF assms(1)] bkey_reads(3,4) [OF assms(2)] by auto
  qed
qed

text \<open>The key does not get longer, so that it may stay where it is.\<close>

lemma vtpl_encode_mono: "length (fields_bytes us) \<le> length (fields_bytes vs) \<Longrightarrow> length (vtpl_encode us) \<le> length (vtpl_encode vs)"
  by (simp add: vtpl_encode_def encode_length)

lemma recompress_shorter:
  assumes "chain_ok t p" "chain_ok p n"
  shows "length (bkey_after p hn n) \<le> length (bkey_after t hn n)"
proof -
  have ne: "p \<noteq> []" "n \<noteq> []" "p \<le> n"
    using assms chain_ok_nonempty by (auto simp: chain_ok_def)
  note o = search_order_chain [OF chain_meets [OF chain_ok_trans [OF assms] assms(1)] assms(1)]
  have "length (fields_bytes (snd (cmpr p n))) \<le> length (fields_bytes (snd (cmpr t n)))"
  proof (cases "fst (cmpr t n) = fst (cmpr t p)")
    case True
    then show ?thesis
      using o(2) cmpr_length(1) [OF cmpr_nonempty [OF ne(2)], of "snd (cmpr t p)" t] by simp
  next
    case False
    then have "cmpr p n = cmpr t n"
      using o(4,5) ne(3) by (cases "fst (cmpr t p) < fst (cmpr t n)") auto
    then show ?thesis
      by simp
  qed
  then show ?thesis
    using vtpl_encode_mono by (simp add: bkey_after_def bkey_bytes_def store2_list)
qed

text \<open>
  C12. When a key is inserted before a key of the node, the node's key is compressed again from the
  two compressed forms alone: the result is its compressed form behind the new key. The key before,
  the new one and the one behind are in order, and none continues the one before it with more fields.
\<close>

theorem bkey_recompress_insert:
  assumes "header_ok hp" "header_ok hn" "vtpl_fits p" "vtpl_fits n" "chain_ok t p" "chain_ok p n"
    and "length (fields_bytes n) < 65536" "length (fields_bytes p) < 65536" "13 + length (snd hn) \<le> length tk"
  shows "\<exists>r. dbe_bkey_recompress_insert tk (bkey_after t hp p @ x) (bkey_after t hn n @ y) = bkey_after p hn n @ r"
  by (rule recompress_after [OF assms])

theorem bkey_recompress_insert_witness:
  "\<exists>r. dbe_bkey_recompress_insert (replicate 30 0) (bkey_after [[1, 2], [3]] (4, []) [[1, 2], [5, 1]] @ [])
    (bkey_after [[1, 2], [3]] (6, [1, 0, 0, 0, 2, 0, 0, 0]) [[1, 2], [5, 6]] @ []) =
    bkey_after [[1, 2], [5, 1]] (6, [1, 0, 0, 0, 2, 0, 0, 0]) [[1, 2], [5, 6]] @ r"
  by (rule bkey_recompress_insert) (simp_all add: header_ok_def bkey_flags vtpl_fits_def chain_ok_def encode_length)

lemma reexpand_after:
  assumes "header_ok hk" "header_ok hn" "vtpl_fits d" "vtpl_fits n" "chain_ok t d" "chain_ok d n"
    and "length (fields_bytes n) < 65536" "length (fields_bytes d) < 65536"
  shows "\<exists>r. dbe_bkey_reexpand_delete tk (bkey_after t hk d @ x) (bkey_after d hn n @ y) = bkey_after t hn n @ r"
proof -
  have ne: "d \<noteq> []" "n \<noteq> []" "d \<le> n"
    using assms(5,6) chain_ok_nonempty by (auto simp: chain_ok_def)
  have tn: "chain_ok t n"
    by (rule chain_ok_trans [OF assms(5,6)])
  note o = search_order_chain [OF chain_meets [OF tn assms(5)] assms(5)]
  let ?id = "fst (cmpr t d)" and ?it = "fst (cmpr t n)" and ?cd = "snd (cmpr t d)" and ?ct = "snd (cmpr t n)"
    and ?in = "fst (cmpr d n)" and ?cn = "snd (cmpr d n)"
  have i: "?id < 65536" "?it < 65536" "?in < 65536"
    using cmpr_length(2) [OF ne(1), of t] cmpr_length(2) [OF ne(2), of t] cmpr_length(2) [OF ne(2), of d] assms(7,8) by simp_all
  have less: "(word_of_nat ?id :: u16) < word_of_nat ?in \<longleftrightarrow> ?id < ?in"
    by (simp add: word_less_nat_alt index_ucast(3) i)
  have fits: "vtpl_fits ?cd" "vtpl_fits ?ct" "?cd \<noteq> []" "?ct \<noteq> []" "vtpl_fits ?cn"
    using cmpr_fits(1) assms(3,4) ne cmpr_nonempty by blast+
  have le: "?it \<le> ?id"
    using o(5) ne(3) by (cases "?id < ?it") auto
  show ?thesis
  proof (cases "?id < ?in")
    case True
    have eq: "?it = ?id"
      using o(4) le True by (cases "?it < ?id") auto
    have c: "cmpr d n = (?it + fst (cmpr ?cd ?ct), snd (cmpr ?cd ?ct))"
      using o(2) [OF eq] by simp
    have ix: "(ucast (word_of_nat ?in - word_of_nat ?id :: u16) :: u32) = word_of_nat (fst (cmpr ?cd ?ct))"
    proof -
      have "(word_of_nat ?in - word_of_nat ?id :: u16) = word_of_nat (?in - ?id)"
        using True by (simp add: of_nat_diff)
      moreover have "?in - ?id = fst (cmpr ?cd ?ct)"
        using c eq by simp
      ultimately show ?thesis
        using i(3) index_ucast(2) [of "?in - ?id"] by simp
    qed
    obtain r where "vtpl_expand (drop (3 + length (snd hn)) tk) (vtpl_encode ?cd @ x) (vtpl_encode ?cn @ y)
        (word_of_nat (fst (cmpr ?cd ?ct))) = vtpl_encode ?ct @ r"
      using expand_cmpr [OF fits(1,2,3,4), of _ x y] c by auto
    then show ?thesis
      using True less eq unfolding dbe_bkey_reexpand_delete_def Let_def bkey_after_def bkey_reads(3,4) [OF assms(1)]
        bkey_reads(3,4) [OF assms(2)] copy_header_bytes [OF assms(2)] header_reads(2,3,4) [OF assms(2)] ix
      by (simp add: bkey_bytes_def)
  next
    case False
    have "cmpr t n = cmpr d n"
    proof (cases "?it = ?id")
      case True
      have c: "cmpr d n = (?it + fst (cmpr ?cd ?ct), snd (cmpr ?cd ?ct))"
        using o(2) [OF True] by simp
      then have z: "fst (cmpr ?cd ?ct) = 0"
        using False True by simp
      then have "snd (cmpr ?cd ?ct) = ?ct"
        using expd_cmpr [OF fits(3,4)] cmpr_pos [OF fits(3,4)] by simp
      then show ?thesis
        using c z by simp
    next
      case neq: False
      then show ?thesis
        using o(4) le by simp
    qed
    then show ?thesis
      using False less copy_bytes [OF assms(2) fits(5)] unfolding dbe_bkey_reexpand_delete_def Let_def bkey_after_def
        bkey_reads(3,4) [OF assms(1)] bkey_reads(3,4) [OF assms(2)] by auto
  qed
qed

text \<open>
  The key may get longer than the two keys it comes from, by three bytes in the field and three in the
  v-tuple, but for the header of the deleted key.
\<close>

lemma cmpr_growth_prev:
  fixes t :: "u8 list list"
  shows "u \<noteq> [] \<Longrightarrow> t \<noteq> [] \<Longrightarrow> length (fields_bytes u) \<le> length (fields_bytes t) + length (fields_bytes (snd (cmpr t u))) + 3"
proof (induction t u rule: cmpr.induct)
  case (1 p ps n ns)
  have "lcp p n \<le> length p" "lcp p n \<le> length n"
    by (rule lcp_le)+
  then show ?case
    using 1 by (cases "p = n \<and> ns \<noteq> [] \<and> ps \<noteq> []") (auto simp: encode_length)
qed auto

lemma reexpand_growth:
  assumes "chain_ok t d" "chain_ok d n"
  shows "length (bkey_after t hn n) + length (snd hk) \<le> length (bkey_after t hk d) + length (bkey_after d hn n) + 3"
proof -
  have ne: "d \<noteq> []" "n \<noteq> []" "d \<le> n"
    using assms chain_ok_nonempty by (auto simp: chain_ok_def)
  note o = search_order_chain [OF chain_meets [OF chain_ok_trans [OF assms] assms(1)] assms(1)]
  let ?cd = "snd (cmpr t d)" and ?cn = "snd (cmpr d n)" and ?ct = "snd (cmpr t n)"
  have nec: "?cd \<noteq> []" "?ct \<noteq> []"
    using cmpr_nonempty ne by blast+
  have "length (fields_bytes ?ct) \<le> length (fields_bytes ?cd) + length (fields_bytes ?cn) + 3"
  proof (cases "fst (cmpr t n) = fst (cmpr t d)")
    case True
    then show ?thesis
      using o(2) cmpr_growth_prev [OF nec(2,1)] by simp
  next
    case False
    then have "cmpr d n = cmpr t n"
      using o(4,5) ne(3) by (cases "fst (cmpr t d) < fst (cmpr t n)") auto
    then show ?thesis
      by simp
  qed
  then show ?thesis
    by (simp add: bkey_after_def bkey_bytes_def store2_list vtpl_encode_def encode_length)
qed

text \<open>
  With a short header, the memory of two neighbouring keys may be three bytes too short for what the deletion
  of the first makes of the second.
\<close>

theorem reexpand_delete_outgrows:
  "let d = [[1], 2 # replicate 99 2]; n = [[1], 2 # replicate 299 2] in
   length (bkey_after [[1], [0]] (4, []) n) = length (bkey_after [[1], [0]] (4, []) d) + length (bkey_after d (4, []) n) + 3"
proof -
  have lcp: "lcp (replicate a x) (replicate b x) = min a b" for a b :: nat and x :: u8
  proof (induction a arbitrary: b)
    case (Suc a)
    then show ?case
      by (cases b) auto
  qed simp
  have "replicate 99 (2 :: u8) \<noteq> replicate 299 2"
    by (simp only: replicate_eq_replicate) simp
  then show ?thesis
    by (simp add: Let_def bkey_after_def bkey_bytes_def store2_list vtpl_encode_def encode_length lcp)
qed

text \<open>
  C13. When a key of the node is deleted, the key behind it is expanded from the two compressed forms
  alone to its compressed form behind the key before. The three keys are in order, and none continues
  the one before it with more fields.
\<close>

theorem bkey_reexpand_delete:
  assumes "header_ok hk" "header_ok hn" "vtpl_fits d" "vtpl_fits n" "chain_ok t d" "chain_ok d n"
    and "length (fields_bytes n) < 65536" "length (fields_bytes d) < 65536"
  shows "\<exists>r. dbe_bkey_reexpand_delete tk (bkey_after t hk d @ x) (bkey_after d hn n @ y) = bkey_after t hn n @ r"
  by (rule reexpand_after [OF assms])

theorem bkey_reexpand_delete_witness:
  "\<exists>r. dbe_bkey_reexpand_delete (replicate 30 0) (bkey_after [[1, 2], [3]] (4, []) [[1, 2], [5, 1]] @ [])
    (bkey_after [[1, 2], [5, 1]] (6, [1, 0, 0, 0, 2, 0, 0, 0]) [[1, 2], [5, 6]] @ []) =
    bkey_after [[1, 2], [3]] (6, [1, 0, 0, 0, 2, 0, 0, 0]) [[1, 2], [5, 6]] @ r"
  by (rule bkey_reexpand_delete) (simp_all add: header_ok_def bkey_flags vtpl_fits_def chain_ok_def encode_length)

section \<open>Searching a node\<close>

text \<open>The header comparison looks at the headers only.\<close>

lemma load4_prefix: "length a = 4 \<Longrightarrow> SS_UINT4_LOADFROMDISK (a @ x) = SS_UINT4_LOADFROMDISK (a @ y)"
  by (auto simp: length_Suc_conv eval_nat_numeral)

lemma gettrxid_header:
  assumes "header_ok h"
  shows "bkey_compare_header_gettrxid (bkey_bytes h i fs @ x) = bkey_compare_header_gettrxid (bkey_bytes h 0 [] @ [])"
proof -
  let ?n = "fst h AND (BKEY_1LONGUSED OR BKEY_2LONGUSED)"
  have info: "BKEY_GETINFO (bkey_bytes h i fs @ x) = fst h" "BKEY_GETINFO (bkey_bytes h 0 [] @ []) = fst h"
    by (rule bkey_reads(1) [OF assms])+
  have one: "dbe_bkey_gettrxnum (bkey_bytes h i fs @ x) = dbe_bkey_gettrxnum (bkey_bytes h 0 [] @ [])" if "?n = BKEY_1LONGUSED"
  proof -
    have "length (snd h) = 4"
      using assms that by (simp add: header_ok_def BKEY_1LONGUSED_def)
    then show ?thesis
      using load4_prefix [of "snd h"] by (simp add: dbe_bkey_gettrxnum_def BKEY_LOADTRXNUM_def BKEY_TRXNUM_def bkey_bytes_def
          store2_list numeral_3_eq_3)
  qed
  have two: "BKEY_LOADTRXID (bkey_bytes h i fs @ x) = BKEY_LOADTRXID (bkey_bytes h 0 [] @ [])" if "?n = BKEY_2LONGUSED"
  proof -
    have l: "length (snd h) = 8"
      using assms that by (simp add: header_ok_def BKEY_2LONGUSED_def)
    have d: "drop BKEY_TRXID (bkey_bytes h j gs @ z) = drop 4 (snd h) @ vtpl_encode gs @ z" for j gs z
      using l by (simp add: BKEY_TRXID_def bkey_bytes_def store2_list eval_nat_numeral)
    then show ?thesis
      unfolding BKEY_LOADTRXID_def d by (intro load4_prefix) (simp add: l)
  qed
  show ?thesis
    unfolding bkey_compare_header_gettrxid_def BKEY_ISLEAF_def info Let_def using one two by simp
qed

definition header_cmp :: "u8 \<times> u8 list \<Rightarrow> u8 \<times> u8 list \<Rightarrow> int" where
  "header_cmp h1 h2 = (case dbe_bkey_compare_header (bkey_bytes h1 0 [] @ []) (bkey_bytes h2 0 [] @ []) of Some c \<Rightarrow> c | None \<Rightarrow> 0)"

lemma compare_header_bytes:
  assumes "header_ok h1" "header_ok h2"
  shows "dbe_bkey_compare_deletemark (bkey_bytes h1 i fs @ x) (bkey_bytes h2 j gs @ y) =
      dbe_bkey_compare_deletemark (bkey_bytes h1 0 [] @ []) (bkey_bytes h2 0 [] @ [])"
    "dbe_bkey_compare_header (bkey_bytes h1 i fs @ x) (bkey_bytes h2 j gs @ y) =
      dbe_bkey_compare_header (bkey_bytes h1 0 [] @ []) (bkey_bytes h2 0 [] @ [])"
proof -
  show 1: "dbe_bkey_compare_deletemark (bkey_bytes h1 i fs @ x) (bkey_bytes h2 j gs @ y) =
      dbe_bkey_compare_deletemark (bkey_bytes h1 0 [] @ []) (bkey_bytes h2 0 [] @ [])"
    unfolding dbe_bkey_compare_deletemark_def BKEY_ISDELETEMARK_def bkey_reads(1) [OF assms(1)] bkey_reads(1) [OF assms(2)] ..
  show "dbe_bkey_compare_header (bkey_bytes h1 i fs @ x) (bkey_bytes h2 j gs @ y) =
      dbe_bkey_compare_header (bkey_bytes h1 0 [] @ []) (bkey_bytes h2 0 [] @ [])"
    unfolding dbe_bkey_compare_header_def 1 gettrxid_header [OF assms(1), of i fs x] gettrxid_header [OF assms(2), of j gs y] ..
qed

text \<open>What decides between equal v-tuples.\<close>

definition tie :: "dbe_bkey_cmp_t \<Rightarrow> u8 \<times> u8 list \<Rightarrow> u8 \<times> u8 list \<Rightarrow> int" where
  "tie bkey_cmp h1 h2 = (case bkey_cmp of DBE_BKEY_CMP_VTPL \<Rightarrow> 0 | DBE_BKEY_CMP_ALL \<Rightarrow> header_cmp h1 h2
    | DBE_BKEY_CMP_DELETE \<Rightarrow> dbe_bkey_compare_deletemark (bkey_bytes h1 0 [] @ []) (bkey_bytes h2 0 [] @ []))"

text \<open>The keys of a node, each behind the one before, and when they may stand there.\<close>

fun node_bytes :: "u8 list list \<Rightarrow> ((u8 \<times> u8 list) \<times> u8 list list) list \<Rightarrow> u8 list" where
  "node_bytes t [] = []"
| "node_bytes t ((h, u) # es) = bkey_after t h u @ node_bytes u es"

fun node_ok :: "u8 list list \<Rightarrow> ((u8 \<times> u8 list) \<times> u8 list list) list \<Rightarrow> bool" where
  "node_ok t [] \<longleftrightarrow> True"
| "node_ok t ((h, u) # es) \<longleftrightarrow>
    chain_ok t u \<and> header_ok h \<and> vtpl_fits u \<and> length (fields_bytes u) < 65536 \<and> node_ok u es"

definition last_key :: "u8 list list \<Rightarrow> ((u8 \<times> u8 list) \<times> u8 list list) list \<Rightarrow> u8 list list" where
  "last_key t es = (if es = [] then t else snd (last es))"

text \<open>The keys a search goes past.\<close>

definition below :: "dbe_bkey_cmp_t \<Rightarrow> u8 \<times> u8 list \<Rightarrow> u8 list list \<Rightarrow> (u8 \<times> u8 list) \<times> u8 list list \<Rightarrow> bool" where
  "below bkey_cmp hk key e \<longleftrightarrow> snd e < key \<or> snd e = key \<and> 0 < tie bkey_cmp hk (fst e)"

text \<open>The state of a search that has gone past keys the last of which is \<open>t\<close>.\<close>

definition search_inv ::
  "dbe_bkey_cmp_t \<Rightarrow> u8 \<times> u8 list \<Rightarrow> u8 list list \<Rightarrow> u8 list \<Rightarrow> u8 list list \<Rightarrow> dbe_bkey_search_t \<Rightarrow> bool" where
  "search_inv bkey_cmp hk key z t ks \<longleftrightarrow> ks_k ks = bkey_bytes hk 0 key @ z \<and>
    search_rep (vtpl_encode key @ z) (ks_ss ks) (cmpr t key) \<and> ss_key_data (ks_ss ks) = ks_k ks \<and>
    ss_cmp_fn (ks_ss ks) = (case bkey_cmp of DBE_BKEY_CMP_VTPL \<Rightarrow> None
      | DBE_BKEY_CMP_ALL \<Rightarrow> Some (\<lambda>k1 k2. case dbe_bkey_compare_header k1 k2 of Some c \<Rightarrow> c | None \<Rightarrow> 0)
      | DBE_BKEY_CMP_DELETE \<Rightarrow> Some dbe_bkey_compare_deletemark)"

lemma call_tie:
  assumes "search_inv bkey_cmp hk key z t ks" "header_ok hk" "header_ok h"
  shows "call_cmp_fn (ks_ss ks) (bkey_after t h u @ y) = tie bkey_cmp hk h"
  using assms(1) compare_header_bytes [OF assms(2,3)]
  unfolding search_inv_def call_cmp_fn_def tie_def header_cmp_def bkey_after_def
  by (auto split: dbe_bkey_cmp_t.splits)

lemma search_init_inv:
  assumes "header_ok hk" "vtpl_fits key" "key \<noteq> []"
  shows "search_inv bkey_cmp hk key z [] (dbe_bkey_search_init ks (bkey_bytes hk 0 key @ z) bkey_cmp)"
proof -
  obtain c cs where key: "key = c # cs"
    using assms(3) by (cases key) auto
  let ?n = "length (fields_bytes key)" and ?v = "vtpl_encode key @ z"
  have n: "unat (word_of_nat ?n :: u32) = ?n"
    using assms(2) by (intro unat_word_of_nat32) (simp add: vtpl_fits_def)
  have f: "snd (va_getdata (fields_bytes key @ z)) = word_of_nat (length c)"
    "va_lenlen (fields_bytes key @ z) = length (va_lenfield (length c))"
    using first_field_reads(1,2) [of c cs z] assms(2) unfolding key by auto
  have init: "vtpl_search_init st ?v k = st\<lparr>ss_i_ob1_inuse := False, ss_i_mismatch := 0, ss_i_ob1_mismatch := 0, ss_key_data := k,
      ss_cmp_fn := None, ss_p_key_end := length (va_lenfield ?n) + ?n, ss_l_field := word_of_nat (length c),
      ss_p_mismatch := length (va_lenfield ?n) + length (va_lenfield (length c))\<rparr>" for st :: "(dbe_bkey_t, dbe_bkey_t) search_state" and k
    unfolding vtpl_search_init_def vtpl_search_state_init_def Let_def vtpl_reads [OF assms(2)] n f by simp
  have rep: "search_rep ?v st (0, key)"
    if "ss_i_mismatch st = 0" "ss_l_field st = word_of_nat (length c)" "ss_p_key_end st = length (va_lenfield ?n) + ?n"
      "ss_p_mismatch st = length (va_lenfield ?n) + length (va_lenfield (length c))" for st :: "(dbe_bkey_t, dbe_bkey_t) search_state"
    unfolding search_rep_def prod.case
  proof (intro conjI exI)
    show "?v = (va_lenfield ?n @ va_lenfield (length c)) @ hd key @ fields_bytes (tl key) @ z"
      "ss_p_key_end st = length ((va_lenfield ?n @ va_lenfield (length c)) @ hd key @ fields_bytes (tl key))"
      using that(3) by (simp_all add: key vtpl_encode_def va_encode_def)
  qed (use that in \<open>simp_all add: key\<close>)
  show ?thesis
    unfolding search_inv_def dbe_bkey_search_init_def Let_def bkey_reads(4) [OF assms(1)] init
    by (auto simp: vtpl_search_setcmpfn_def key split: dbe_bkey_cmp_t.splits intro!: rep [unfolded key])
qed

lemma same_but_ob1:
  "st'\<lparr>ss_i_ob1_mismatch := 0\<rparr> = st\<lparr>ss_i_ob1_mismatch := 0\<rparr> \<Longrightarrow>
    ss_i_mismatch st' = ss_i_mismatch st \<and> ss_l_field st' = ss_l_field st \<and> ss_p_mismatch st' = ss_p_mismatch st \<and>
    ss_p_key_end st' = ss_p_key_end st \<and> ss_key_data st' = ss_key_data st \<and> ss_cmp_fn st' = ss_cmp_fn st"
  by (cases st; cases st') simp

lemma search_step_node:
  assumes "search_inv bkey_cmp hk key z t ks" "header_ok hk" "header_ok h" "vtpl_fits key" "vtpl_fits u"
    and "meets t key u" "chain_ok t u" "length (fields_bytes u) < 65536"
    and "dbe_bkey_search_step ks (bkey_after t h u @ y) = (r, ks')"
  shows "0 < r \<longleftrightarrow> below bkey_cmp hk key (h, u)" "0 < r \<Longrightarrow> search_inv bkey_cmp hk key z u ks'"
    "r \<le> 0 \<Longrightarrow> search_inv bkey_cmp hk key z t ks'"
proof -
  let ?st = "ks_ss ks" and ?d = "bkey_after t h u @ y"
  have k: "ks_k ks = bkey_bytes hk 0 key @ z" "search_rep (vtpl_encode key @ z) ?st (cmpr t key)"
    using assms(1) by (auto simp: search_inv_def)
  have i: "fst (cmpr t u) < 65536"
    using cmpr_length(2) [OF chain_ok_nonempty [OF assms(7)], of t] assms(8) by simp
  obtain ss' where step: "vtpl_dbe_search_step (vtpl_encode key @ z) ?st (word_of_nat (fst (cmpr t u)))
      (vtpl_encode (snd (cmpr t u)) @ y) ?d = (r, ss')" "ks' = ks\<lparr>ks_ss := ss'\<rparr>"
    using assms(9) unfolding dbe_bkey_search_step_def k(1) bkey_reads(4) [OF assms(2)]
    unfolding bkey_after_def bkey_reads(3,4) [OF assms(3)] index_ucast(2) [OF i] by (auto split: prod.splits)
  have chain: "meets t key u \<and> chain_ok t u"
    using assms(6,7) by blast
  have ok: "step_ok (vtpl_encode key @ z) ?st ?d 0 key u (r, ss')"
    using dbe_step_order [OF chain assms(4,5) k(2) refl, of ?d y] unfolding step(1) .
  have tie: "call_cmp_fn ?st ?d = tie bkey_cmp hk h"
    by (rule call_tie [OF assms(1-3)])
  have "0 < r \<longleftrightarrow> 0 < step_result ?st ?d key u"
    using ok by (auto simp: step_ok_def sgn_if split: if_splits)
  then show "0 < r \<longleftrightarrow> below bkey_cmp hk key (h, u)"
    by (auto simp: below_def step_result_def tie three_way_def sgn_if split: if_splits)
  show "search_inv bkey_cmp hk key z u ks'" if "0 < r"
  proof -
    have "search_rep (vtpl_encode key @ z) ss' (cmpr u key)" "\<exists>j l p. ss' = set_mismatch ?st j l p"
      using ok that by (simp_all add: step_ok_def)
    then show ?thesis
      using assms(1) step(2) by (auto simp: search_inv_def)
  qed
  show "search_inv bkey_cmp hk key z t ks'" if "r \<le> 0"
  proof -
    have "ss'\<lparr>ss_i_ob1_mismatch := 0\<rparr> = ?st\<lparr>ss_i_ob1_mismatch := 0\<rparr>"
      using ok that by (simp add: step_ok_def)
    from same_but_ob1 [OF this] show ?thesis
      using assms(1) step(2) by (auto simp: search_inv_def search_rep_def)
  qed
qed

lemma range_start_inv:
  assumes "search_inv bkey_cmp hk key z t ks" "header_ok hk" "vtpl_fits key" "key \<noteq> []" "t \<le> key"
    and "node_ok t es" "twice_apart key (t # map snd es)"
  shows "\<exists>ks'. range_start (length es) i (node_bytes t es @ y) ks =
      (i + length (takeWhile (below bkey_cmp hk key) es),
       node_bytes (last_key t (takeWhile (below bkey_cmp hk key) es)) (dropWhile (below bkey_cmp hk key) es) @ y, ks') \<and>
    search_inv bkey_cmp hk key z (last_key t (takeWhile (below bkey_cmp hk key) es)) ks'"
  using assms
proof (induction es arbitrary: t ks i)
  case Nil
  then show ?case
    by (simp add: last_key_def)
next
  case (Cons e es)
  obtain h u where e: "e = (h, u)"
    by (cases e)
  have ok: "chain_ok t u" "header_ok h" "vtpl_fits u" "length (fields_bytes u) < 65536" "node_ok u es"
    using Cons.prems(6) e by auto
  have m: "meets t key u"
    using Cons.prems(4,5,7) ok(1) e by (intro meetsI) auto
  obtain r ks' where step: "dbe_bkey_search_step ks (bkey_after t h u @ node_bytes u es @ y) = (r, ks')"
    by fastforce
  note s = search_step_node [OF Cons.prems(1,2) ok(2) Cons.prems(3) ok(3) m ok(1,4) step]
  show ?case
  proof (cases "0 < r")
    case False
    then show ?thesis
      using s(1,3) step e by (auto simp: last_key_def)
  next
    case True
    then have b: "below bkey_cmp hk key (h, u)"
      using s(1) by simp
    have ck: "u \<le> key"
      using b by (auto simp: below_def)
    note len = getlength_bytes [OF ok(2) cmpr_fits(1) [OF chain_ok_nonempty [OF ok(1)] ok(3)]]
    have "drop (dbe_bkey_getlength (bkey_after t h u @ node_bytes u es @ y)) (bkey_after t h u @ node_bytes u es @ y) =
        node_bytes u es @ y"
      unfolding bkey_after_def len by (rule append_eq_conv_conj [THEN iffD1, THEN conjunct2, OF refl, symmetric])
    moreover have "last_key t (e # takeWhile (below bkey_cmp hk key) es) = last_key u (takeWhile (below bkey_cmp hk key) es)"
      using e by (simp add: last_key_def)
    ultimately show ?thesis
      using Cons.IH [OF s(2) [OF True] Cons.prems(2-4) ck ok(5), of "Suc i"] Cons.prems(7) True step b e by auto
  qed
qed

text \<open>What the search has found is the search key compressed for its place.\<close>

lemma search_compress_inv:
  assumes "search_inv bkey_cmp hk key z t ks" "header_ok hk" "vtpl_fits key" "key \<noteq> []" "length (fields_bytes key) < 65536"
    and "13 + length (snd hk) \<le> length tk"
  shows "\<exists>r. dbe_bkey_search_compress ks tk = bkey_after t hk key @ r"
proof -
  obtain i c cs where ck: "cmpr t key = (i, c # cs)"
    using cmpr_nonempty [OF assms(4), of t] by (metis neq_Nil_conv surj_pair snd_conv)
  have i: "i < 65536"
    using cmpr_length(2) [OF assms(4), of t] assms(5) ck by simp
  have fits: "vtpl_fits (c # cs)"
    using cmpr_fits(1) [OF assms(4,3), of t] ck by simp
  have k: "ks_k ks = bkey_bytes hk 0 key @ z" "search_rep (vtpl_encode key @ z) (ks_ss ks) (i, c # cs)"
    using assms(1) ck by (auto simp: search_inv_def)
  obtain pre x where p: "vtpl_encode key @ z = pre @ c @ fields_bytes cs @ x" "ss_p_mismatch (ks_ss ks) = length pre"
      "ss_p_key_end (ks_ss ks) = length (pre @ c @ fields_bytes cs)"
    using k(2) by (auto simp: search_rep_def)
  have st: "ss_i_mismatch (ks_ss ks) = word_of_nat i" "ss_l_field (ks_ss ks) = word_of_nat (length c)"
    using k(2) by (auto simp: search_rep_def)
  have l: "10 \<le> length (drop (3 + length (snd hk)) tk)"
    using assms(6) by simp
  have d: "drop (length pre) (vtpl_encode key @ z) = c @ fields_bytes cs @ x"
      "length (pre @ c @ fields_bytes cs) - length pre = length (c @ fields_bytes cs)"
    unfolding p(1) by simp_all
  show ?thesis
    unfolding dbe_bkey_search_compress_def Let_def k(1) copy_header_bytes [OF assms(2)] header_reads(2) [OF assms(2)]
      bkey_reads(4) [OF assms(2)] vtpl_search_compress_def prod.case st p(2,3) d make_compressed_encode [OF fits l]
      header_reads(3,4) [OF assms(2)] bkey_after_def ck fst_conv snd_conv index_ucast(1) [OF i]
    by (simp add: bkey_bytes_def)
qed

text \<open>
  C11. The search through the compressed keys of a node that has no mismatch array stops at the first key that is not
  below the search key: its position is the number of keys below, in the order of the v-tuples and, between
  equal v-tuples, of the headers as the kind of comparison asks, and the search state has the search
  key compressed as it is to be inserted there. The keys of the node are in order, and no key continues
  another one with more fields, nor does the search key continue a v-tuple that occurs twice there: otherwise the
  search may go past a greater key (\<open>search_passes_longer\<close>).
\<close>

theorem bkey_search_finds:
  assumes "header_ok hk" "vtpl_fits key" "key \<noteq> []" "node_ok [] es" "twice_apart key (map snd es)"
    and "length (fields_bytes key) < 65536" "13 + length (snd hk) \<le> length tk"
  shows "\<exists>ks' r. range_start (length es) 0 (node_bytes [] es @ y) (dbe_bkey_search_init ks (bkey_bytes hk 0 key @ z) bkey_cmp) =
      (length (takeWhile (below bkey_cmp hk key) es),
       node_bytes (last_key [] (takeWhile (below bkey_cmp hk key) es)) (dropWhile (below bkey_cmp hk key) es) @ y, ks') \<and>
    dbe_bkey_search_compress ks' tk = bkey_after (last_key [] (takeWhile (below bkey_cmp hk key) es)) hk key @ r"
proof -
  have "twice_apart key ([] # map snd es)"
    using assms(4,5) by (cases es) (auto simp: chain_ok_def)
  from range_start_inv [OF search_init_inv [OF assms(1-3)] assms(1-3) _ assms(4) this, where i = 0 and y = y]
  show ?thesis
    using search_compress_inv [OF _ assms(1-3,6,7)] by fastforce
qed

theorem bkey_search_finds_witness:
  "let es = [((4, []), [[1, 2], [3]]), ((4, []), [[1, 2], [5, 1]]), ((4, []), [[1, 3]])]; hk = (4, []); key = [[1, 2], [5, 6]] in
   \<exists>ks' r. range_start (length es) 0 (node_bytes [] es @ []) (dbe_bkey_search_init (undefined :: dbe_bkey_search_t) (bkey_bytes hk 0 key @ []) DBE_BKEY_CMP_ALL) =
      (length (takeWhile (below DBE_BKEY_CMP_ALL hk key) es),
       node_bytes (last_key [] (takeWhile (below DBE_BKEY_CMP_ALL hk key) es)) (dropWhile (below DBE_BKEY_CMP_ALL hk key) es) @ [], ks') \<and>
    dbe_bkey_search_compress ks' (replicate 20 0) = bkey_after (last_key [] (takeWhile (below DBE_BKEY_CMP_ALL hk key) es)) hk key @ r"
  unfolding Let_def
  by (rule bkey_search_finds) (simp_all add: header_ok_def bkey_flags vtpl_fits_def chain_ok_def encode_length)

lemma search_step_index:
  assumes "search_inv bkey_cmp hk key z t ks" "header_ok hk" "header_ok h" "key \<noteq> []" "u \<noteq> []"
    and "fst (cmpr t key) < fst (cmpr t u)" "length (fields_bytes key) < 65536" "length (fields_bytes u) < 65536"
  shows "\<exists>r. 0 < r \<and> dbe_bkey_search_step ks (bkey_after t h u @ y) = (r, ks)"
proof -
  let ?i = "fst (cmpr t key)" and ?j = "fst (cmpr t u)"
  have b: "?j < 65536" "?i < 65536"
    using cmpr_length(2) [OF assms(4), of t] cmpr_length(2) [OF assms(5), of t] assms(7,8) by simp_all
  have st: "ss_i_mismatch (ks_ss ks) = word_of_nat ?i" and k: "ks_k ks = bkey_bytes hk 0 key @ z"
    using assms(1) by (auto simp: search_inv_def search_rep_def split: prod.splits)
  have s: "sint (word_of_nat ?j - word_of_nat ?i :: u32) = int ?j - int ?i"
    using b by (simp add: sint_sub32 unsigned_of_nat take_bit_nat_eq_self wrap32_def)
  have "vtpl_dbe_search_step v (ks_ss ks) (word_of_nat ?j) w d = (int ?j - int ?i, ks_ss ks)" for v w d
    using assms(6) unfolding vtpl_dbe_search_step_def Let_def st s by simp
  then show ?thesis
    using assms(6) unfolding dbe_bkey_search_step_def bkey_after_def bkey_reads(3,4) [OF assms(3)] index_ucast(2) [OF b(1)]
    by simp
qed

text \<open>
  Where a key of the node continues another one, the search may go past a greater key: one that continues a
  v-tuple equal to that of the search key is compressed with an index above that of the search state.
\<close>

theorem search_passes_longer:
  "let hk = (6, [0, 0, 0, 0, 5, 0, 0, 0]); h = (6, [0, 0, 0, 0, 2, 0, 0, 0]); es = [(h, [[1]]), (h, [[1], [7]])] in
   fst (range_start 2 0 (node_bytes [] es @ y) (dbe_bkey_search_init ks (bkey_bytes hk 0 [[1]] @ z) DBE_BKEY_CMP_ALL)) = 2 \<and>
   \<not> below DBE_BKEY_CMP_ALL hk [[1]] (h, [[1], [7]])"
proof -
  let ?hk = "(6, [0, 0, 0, 0, 5, 0, 0, 0]) :: u8 \<times> u8 list" and ?h = "(6, [0, 0, 0, 0, 2, 0, 0, 0]) :: u8 \<times> u8 list"
  let ?k = "[[1]] :: u8 list list" and ?u = "[[1], [7]] :: u8 list list"
  have ok: "header_ok ?hk" "header_ok ?h" "vtpl_fits ?k" "vtpl_fits ?u" "length (fields_bytes ?k) < 65536" "length (fields_bytes ?u) < 65536"
    by (simp_all add: header_ok_def bkey_flags vtpl_fits_def encode_length)
  have chain: "chain_ok [] ?k" "meets [] ?k ?k"
    by (simp_all add: chain_ok_def meets_def)
  have tie: "0 < tie DBE_BKEY_CMP_ALL ?hk ?h"
    unfolding tie_def header_cmp_def bkey_bytes_def by code_simp
  let ?ks = "dbe_bkey_search_init ks (bkey_bytes ?hk 0 ?k @ z) DBE_BKEY_CMP_ALL"
  have init: "search_inv DBE_BKEY_CMP_ALL ?hk ?k z [] ?ks"
    by (rule search_init_inv [OF ok(1,3)]) simp
  obtain r ks1 where step: "dbe_bkey_search_step ?ks (bkey_after [] ?h ?k @ bkey_after ?k ?h ?u @ y) = (r, ks1)"
    by fastforce
  note s = search_step_node [OF init ok(1,2,3,3) chain(2,1) ok(5) step]
  have r: "0 < r" "search_inv DBE_BKEY_CMP_ALL ?hk ?k z ?k ks1"
    using s(1,2) tie by (simp_all add: below_def)
  have "fst (cmpr ?k ?k) < fst (cmpr ?k ?u)"
    by simp
  then obtain r2 where step2: "0 < r2" "dbe_bkey_search_step ks1 (bkey_after ?k ?h ?u @ y) = (r2, ks1)"
    using search_step_index [OF r(2) ok(1,2) _ _ _ ok(5,6)] by blast
  have len: "drop (dbe_bkey_getlength (bkey_after [] ?h ?k @ w)) (bkey_after [] ?h ?k @ w) = w" for w
    unfolding bkey_after_def getlength_bytes [OF ok(2) cmpr_fits(1) [OF chain_ok_nonempty [OF chain(1)] ok(3)]] by simp
  have n: "node_bytes [] [(?h, ?k), (?h, ?u)] @ y = bkey_after [] ?h ?k @ bkey_after ?k ?h ?u @ y"
    by simp
  have run: "fst (range_start 2 0 (node_bytes [] [(?h, ?k), (?h, ?u)] @ y) ?ks) = 2"
    using r(1) step2(1) unfolding n numeral_2_eq_2 range_start.simps step len step2(2) Let_def prod.case by simp
  have "\<not> below DBE_BKEY_CMP_ALL ?hk ?k (?h, ?u)"
    by (simp add: below_def)
  then show ?thesis
    unfolding Let_def using run by (rule conjI [rotated])
qed

section \<open>The memory for an expanded key\<close>

text \<open>
  An expanded field or v-tuple may need four more bytes for its length than the compressed one;
  the bytes that the two keys share stand for one of these fields when there are four of them.
\<close>

lemma cmpr_growth:
  fixes t :: "u8 list list"
  shows "u \<noteq> [] \<Longrightarrow> length (fields_bytes u) \<le> length (fields_bytes (snd (cmpr t u))) + fst (cmpr t u) + max 4 (fst (cmpr t u))"
proof (induction t u rule: cmpr.induct)
  case (1 p ps n ns)
  show ?case
  proof (cases "p = n \<and> ns \<noteq> [] \<and> ps \<noteq> []")
    case True
    then show ?thesis
      using 1 by (auto simp: encode_length)
  next
    case False
    have "lcp p n \<le> length n"
      by (rule lcp_le)
    then show ?thesis
      using False by (auto simp: encode_length)
  qed
qed auto

lemma cmpr_zero: "fst (cmpr t u) = 0 \<Longrightarrow> snd (cmpr t u) = u"
  by (induction t u rule: cmpr.induct) (auto split: if_splits)

lemma dynbkey_allocsize_after:
  assumes "header_ok h" "vtpl_fits u" "u \<noteq> []" "length (fields_bytes u) < 65536"
  shows "dynbkey_allocsize (bkey_after t h u @ y) = 16 + 2 * fst (cmpr t u) + length (fields_bytes (snd (cmpr t u)))"
proof -
  have i: "fst (cmpr t u) < 65536"
    using cmpr_length(2) [OF assms(3), of t] assms(4) by simp
  have f: "vtpl_fits (snd (cmpr t u))"
    by (rule cmpr_fits(1) [OF assms(3,2)])
  then have "unat (vtpl_netlen (vtpl_encode (snd (cmpr t u)) @ y)) = length (fields_bytes (snd (cmpr t u)))"
    using vtpl_fits_va [OF f] netlen_encode [of "fields_bytes (snd (cmpr t u))" y]
    by (simp add: vtpl_netlen_def va_netlen_def vtpl_encode_def unat_word_of_nat32 vtpl_fits_def)
  then show ?thesis
    unfolding dynbkey_allocsize_def bkey_after_def bkey_reads(3,4) [OF assms(1)] index_ucast(3) [OF i]
    by (simp add: BKEY_MAXHEADERLEN_def)
qed

lemma bkey_bytes_length: "length (bkey_bytes h i fs) = 3 + length (snd h) + length (vtpl_encode fs)"
  by (simp add: bkey_bytes_def store2_list)

text \<open>
  C34. The memory that is allocated for an expanded key is enough when the key shares nothing with the
  key before or at least four bytes, counting one for the end of a field.
\<close>

theorem dynbkey_expand_fits:
  assumes "header_ok h" "length (snd h) \<le> 8" "vtpl_fits u" "u \<noteq> []" "length (fields_bytes u) < 65536"
    and "fst (cmpr t u) = 0 \<or> 4 \<le> fst (cmpr t u)"
  shows "length (bkey_bytes h 0 u) \<le> dynbkey_allocsize (bkey_after t h u @ y)"
proof -
  have "length (fields_bytes u) \<le> length (fields_bytes (snd (cmpr t u))) + 2 * fst (cmpr t u)"
  proof (cases "fst (cmpr t u) = 0")
    case True
    then show ?thesis
      using cmpr_zero [OF True] by simp
  next
    case False
    then show ?thesis
      using cmpr_growth [OF assms(4), of t] assms(6) by simp
  qed
  then show ?thesis
    using assms(2) unfolding dynbkey_allocsize_after [OF assms(1,3,4,5)] bkey_bytes_length
    by (simp add: vtpl_encode_def va_encode_def lenfield_length)
qed

theorem dynbkey_expand_fits_witness:
  "length (bkey_bytes (6, [1, 0, 0, 0, 2, 0, 0, 0]) 0 [[1, 2], 7 # replicate 253 4]) \<le>
    dynbkey_allocsize (bkey_after [[1, 2], [7]] (6, [1, 0, 0, 0, 2, 0, 0, 0]) [[1, 2], 7 # replicate 253 4] @ [])"
  by (rule dynbkey_expand_fits) (simp_all add: header_ok_def bkey_flags vtpl_fits_def encode_length)

text \<open>
  With fewer shared bytes it may be too small: the length of the field and that of the v-tuple both grow,
  and only one of them is allowed for.
\<close>

theorem dynbkey_expand_overflow:
  "length (bkey_bytes (6, [1, 0, 0, 0, 2, 0, 0, 0]) 0 [1 # replicate 253 2]) =
    dynbkey_allocsize (bkey_after [[1]] (6, [1, 0, 0, 0, 2, 0, 0, 0]) [1 # replicate 253 2] @ []) + 3"
proof -
  let ?h = "(6, [1, 0, 0, 0, 2, 0, 0, 0]) :: u8 \<times> u8 list" and ?u = "[1 # replicate 253 2] :: u8 list list"
  have "header_ok ?h" "vtpl_fits ?u" "length (fields_bytes ?u) < 65536"
    by (simp_all add: header_ok_def bkey_flags vtpl_fits_def encode_length)
  from dynbkey_allocsize_after [OF this(1,2) _ this(3), of "[[1]]" "[]"] show ?thesis
    unfolding bkey_bytes_length by (simp add: vtpl_encode_def encode_length)
qed

end
