(* ===== verification/Bnode.thy ===== *)
theory Bnode
  imports Bkey_Node Trx_Buf
begin

text \<open>
  Nodes of the B+-tree in memory (\<^verbatim>\<open>dbe/dbe6bnod.c\<close>, \<^verbatim>\<open>include/dbe6bnod.h\<close>): searching, inserting and deleting
  in one block. The keys follow a header of twelve bytes, each compressed against the one before. In the
  first layout they lie one behind the other; in the second a mismatch array at the end of the block has
  four bytes for each key, the index and the first byte of its mismatch and its offset, and the keys may
  lie in any order. \<open>n_p\<close> is the block, and positions in it are offsets; the block has
  \<^verbatim>\<open>fd_blocksize\<close> bytes. The code is that of the production build, where \<^verbatim>\<open>BNODE_DEBUGOFFSET\<close> is 0.
\<close>

section \<open>The node\<close>

definition BNODE_CPNUM :: nat where "BNODE_CPNUM = 1"
definition BNODE_LEN :: nat where "BNODE_LEN = 5"
definition BNODE_COUNT :: nat where "BNODE_COUNT = 7"
definition BNODE_SEQINSCOUNT :: nat where "BNODE_SEQINSCOUNT = 9"
definition BNODE_LEVEL :: nat where "BNODE_LEVEL = 10"
definition BNODE_INFO :: nat where "BNODE_INFO = 11"
definition BNODE_KEYS :: nat where "BNODE_KEYS = 12"
definition BNODE_HEADERLEN :: nat where "BNODE_HEADERLEN = BNODE_KEYS"
definition BNODE_MISMATCHARRAY :: u8 where "BNODE_MISMATCHARRAY = 2"

record dbe_bnode_t =
  n_len :: nat
  n_count :: nat
  n_level :: nat
  n_info :: u8
  n_dirty :: bool
  n_bonsaip :: bool
  n_seqinscount :: u32
  n_lastinsindex :: u32
  n_cpnum :: u32
  n_p :: "u8 list"
  n_keysearchinfo_array :: nat

text \<open>
  What the operations take from their surroundings: the switches \<^verbatim>\<open>dbe_bnode_usemismatcharray\<close> and
  \<^verbatim>\<open>dbe_cfg_singledeletemark\<close>, the checkpoint number of the counters, the transaction buffer, and the
  contents of the buffer that a new key gets.
\<close>

record bnode_env =
  dbe_bnode_usemismatcharray :: bool
  dbe_cfg_singledeletemark :: bool
  go_cpnum :: u32
  go_trxbuf :: trxbuf
  bkeybuf :: dbe_bkey_t

definition fd_blocksize :: "dbe_bnode_t \<Rightarrow> nat" where "fd_blocksize n = length (n_p n)"

text \<open>The key at an offset in the key area, with what follows it, and a store of a key there.\<close>

definition bkey_at :: "dbe_bnode_t \<Rightarrow> nat \<Rightarrow> dbe_bkey_t" where "bkey_at n offset = drop (BNODE_KEYS + offset) (n_p n)"

definition put_bkey :: "nat \<Rightarrow> dbe_bkey_t \<Rightarrow> dbe_bnode_t \<Rightarrow> dbe_bnode_t" where
  "put_bkey offset k n = n\<lparr>n_p := buf_write (BNODE_KEYS + offset) (take (dbe_bkey_getlength k) k) (n_p n)\<rparr>"

definition has_mismatcharray :: "dbe_bnode_t \<Rightarrow> bool" where
  "has_mismatcharray n \<longleftrightarrow> n_info n AND BNODE_MISMATCHARRAY \<noteq> 0"

section \<open>The block and the node\<close>

definition DBE_BLOCK_TREENODE :: u8 where "DBE_BLOCK_TREENODE = 11"

definition bnode_create_empty :: "u32 \<Rightarrow> bool \<Rightarrow> u8 list \<Rightarrow> dbe_bnode_t" where
  "bnode_create_empty cpnum bonsaip p =
    \<lparr>n_len = 0, n_count = 0, n_level = 0, n_info = 0, n_dirty = True, n_bonsaip = bonsaip, n_seqinscount = 0,
      n_lastinsindex = 0, n_cpnum = cpnum, n_p = buf_write BNODE_CPNUM (SS_UINT4_STORETODISK cpnum) (buf_write 0 [DBE_BLOCK_TREENODE] p),
      n_keysearchinfo_array = 0\<rparr>"

definition bnode_info_setmismatcharray :: "bnode_env \<Rightarrow> bool \<Rightarrow> dbe_bnode_t \<Rightarrow> dbe_bnode_t" where
  "bnode_info_setmismatcharray env setp n =
    (let info = (if setp \<and> dbe_bnode_usemismatcharray env then n_info n OR BNODE_MISMATCHARRAY
                 else n_info n AND NOT BNODE_MISMATCHARRAY)
     in n\<lparr>n_info := info, n_p := buf_write BNODE_INFO [info] (n_p n)\<rparr>)"

text \<open>What \<^verbatim>\<open>dbe_bnode_writewithmode\<close> leaves in the block before it is released, and a node made from a block.\<close>

definition dbe_bnode_writewithmode :: "dbe_bnode_t \<Rightarrow> dbe_bnode_t" where
  "dbe_bnode_writewithmode n =
    (if n_dirty n
     then let p = buf_write BNODE_LEVEL [word_of_nat (n_level n)] (n_p n);
              p = buf_write BNODE_LEN (SS_UINT2_STORETODISK (word_of_nat (n_len n))) p;
              p = buf_write BNODE_COUNT (SS_UINT2_STORETODISK (word_of_nat (n_count n))) p;
              seqinscount = (if n_seqinscount n > 255 then 255 else n_seqinscount n);
              p = buf_write BNODE_SEQINSCOUNT [ucast seqinscount] p;
              p = buf_write BNODE_INFO [n_info n] p;
              p = buf_write BNODE_CPNUM (SS_UINT4_STORETODISK (n_cpnum n)) p
          in n\<lparr>n_p := p, n_seqinscount := seqinscount, n_dirty := False\<rparr>
     else n)"

definition bnode_initbyslot :: "u8 list \<Rightarrow> bool \<Rightarrow> dbe_bnode_t option" where
  "bnode_initbyslot p bonsaip =
    (let len = SS_UINT2_LOADFROMDISK (drop BNODE_LEN p); count = SS_UINT2_LOADFROMDISK (drop BNODE_COUNT p);
         info = p ! BNODE_INFO
     in if p ! 0 \<noteq> DBE_BLOCK_TREENODE then None
        else Some \<lparr>n_len = unat len, n_count = unat count, n_level = unat (p ! BNODE_LEVEL), n_info = info,
          n_dirty = False, n_bonsaip = bonsaip, n_seqinscount = ucast (p ! BNODE_SEQINSCOUNT),
          n_lastinsindex = ucast count - 1, n_cpnum = SS_UINT4_LOADFROMDISK (drop BNODE_CPNUM p), n_p = p,
          n_keysearchinfo_array = (if info AND BNODE_MISMATCHARRAY \<noteq> 0 then length p - unat count * 4 else 0)\<rparr>)"

section \<open>The mismatch array\<close>

definition bnode_getkeyoffset :: "dbe_bnode_t \<Rightarrow> int \<Rightarrow> nat" where
  "bnode_getkeyoffset n i =
    (if n_count n > 0
     then unat (SS_UINT2_LOADFROMDISK (drop (nat (int (n_keysearchinfo_array n) + 4 * i) + 2) (n_p n))) else 0)"

definition bnode_setkeysearchinfo :: "nat \<Rightarrow> nat \<Rightarrow> u8 \<Rightarrow> nat \<Rightarrow> u8 list \<Rightarrow> u8 list" where
  "bnode_setkeysearchinfo a index mismatch offset p =
    buf_write (a + 2) (SS_UINT2_STORETODISK (word_of_nat offset))
      (buf_write (a + 1) [mismatch] (buf_write a [word_of_nat index] p))"

text \<open>The index and the mismatch byte that the array has for a key; the same code stands in each operation.\<close>

definition key_searchinfo :: "dbe_bkey_t \<Rightarrow> nat \<times> u8" where
  "key_searchinfo k =
    (let (data, len) = va_getdata (drop (va_lenlen (BKEY_GETVTPLPTR k)) (BKEY_GETVTPLPTR k));
         index = (if BKEY_LOADINDEX k > 255 then 255 else unat (BKEY_LOADINDEX k))
     in (index, if len \<noteq> 0 then hd data else 0))"

fun keysearchinfo_loop :: "nat \<Rightarrow> nat \<Rightarrow> nat \<Rightarrow> u8 list \<Rightarrow> u8 list" where
  "keysearchinfo_loop 0 a offset p = p"
| "keysearchinfo_loop (Suc m) a offset p =
    (let k = drop (BNODE_KEYS + offset) p; (index, mismatch) = key_searchinfo k;
         p = bnode_setkeysearchinfo a index mismatch offset p
     in keysearchinfo_loop m (a + 4) (offset + dbe_bkey_getlength (drop (BNODE_KEYS + offset) p)) p)"

definition bnode_keysearchinfo_init :: "bnode_env \<Rightarrow> dbe_bnode_t \<Rightarrow> bool \<times> dbe_bnode_t" where
  "bnode_keysearchinfo_init env n =
    (if \<not> dbe_bnode_usemismatcharray env \<or> BNODE_HEADERLEN + n_len n + n_count n * 4 > fd_blocksize n then (False, n)
     else let a = fd_blocksize n - n_count n * 4;
              n = n\<lparr>n_p := keysearchinfo_loop (n_count n) a 0 (n_p n), n_keysearchinfo_array := a\<rparr>;
              n = bnode_info_setmismatcharray env True n
          in (True, n\<lparr>n_dirty := True\<rparr>))"

section \<open>Searching a node\<close>

text \<open>
  The loop over the keys in the first layout, as it stands in each operation: the offset of the key
  where it ends, its position, the last comparison, the length of the key passed last, and the state.
\<close>

primrec bnode_key_loop ::
  "dbe_bnode_t \<Rightarrow> nat \<Rightarrow> nat \<Rightarrow> nat \<Rightarrow> int \<Rightarrow> nat \<Rightarrow> dbe_bkey_search_t \<Rightarrow> nat \<times> nat \<times> int \<times> nat \<times> dbe_bkey_search_t" where
  "bnode_key_loop n 0 keys i cmp klen ks = (keys, i, cmp, klen, ks)"
| "bnode_key_loop n (Suc m) keys i cmp klen ks =
    (let (cmp, ks) = dbe_bkey_search_step ks (bkey_at n keys) in
     if cmp \<le> 0 then (keys, i, cmp, klen, ks)
     else let klen = dbe_bkey_getlength (bkey_at n keys) in bnode_key_loop n m (keys + klen) (Suc i) cmp klen ks)"

text \<open>
  The loop that skips keys by the array alone: \<open>Inl\<close> where a key ends the search, \<open>Inr\<close> where the
  comparison of the keys is to go on. The byte the search key is at is read through its pointer.
\<close>

primrec skip_loop ::
  "dbe_bnode_t \<Rightarrow> nat \<Rightarrow> nat \<Rightarrow> dbe_bkey_search_t \<Rightarrow> nat \<times> nat \<times> int \<times> dbe_bkey_search_t + nat \<times> dbe_bkey_search_t" where
  "skip_loop n 0 i ks = Inr (i, ks)"
| "skip_loop n (Suc m) i ks =
    (let a = n_keysearchinfo_array n + 4 * i; offset = bnode_getkeyoffset n (int i);
         index = (if n_p n ! a = 255 then ucast (BKEY_LOADINDEX (bkey_at n offset)) else ucast (n_p n ! a)) :: u32
     in if ss_i_mismatch (ks_ss ks) > index then Inr (i, ks)
        else if ss_i_mismatch (ks_ss ks) = index
        then let mismatch = n_p n ! (a + 1); c = BKEY_GETVTPLPTR (ks_k ks) ! ss_p_mismatch (ks_ss ks)
             in if c < mismatch then Inr (i, ks)
                else if c = mismatch
                then let (cmp, ks) = dbe_bkey_search_step ks (bkey_at n offset)
                     in if cmp \<le> 0 then Inl (offset, i, cmp, ks)
                        else if ss_l_field (ks_ss ks) = 0 then Inr (Suc i, ks) else skip_loop n m (Suc i) ks
                else skip_loop n m (Suc i) ks
        else skip_loop n m (Suc i) ks)"

text \<open>The comparison of keys from a position on; it ends at the last key when all have been passed.\<close>

primrec array_loop ::
  "dbe_bnode_t \<Rightarrow> nat \<Rightarrow> nat \<Rightarrow> nat \<Rightarrow> dbe_bkey_search_t \<Rightarrow> nat \<times> nat \<times> int \<times> nat \<times> dbe_bkey_search_t" where
  "array_loop n 0 i prevklen ks = (bnode_getkeyoffset n (int i), i, 1, prevklen, ks)"
| "array_loop n (Suc m) i prevklen ks =
    (let keys = bnode_getkeyoffset n (int i); (cmp, ks) = dbe_bkey_search_step ks (bkey_at n keys) in
     if cmp \<le> 0 then (keys, i, cmp, prevklen, ks)
     else let prevklen = dbe_bkey_getlength (bkey_at n keys) in
       if m = 0 then (keys, Suc i, cmp, prevklen, ks) else array_loop n m (Suc i) prevklen ks)"

definition bnode_keysearchinfo_search ::
  "dbe_bnode_t \<Rightarrow> dbe_bkey_search_t \<Rightarrow> dbe_bkey_t \<Rightarrow> dbe_bkey_cmp_t \<Rightarrow> (nat \<times> nat \<times> int \<times> nat \<times> dbe_bkey_search_t) option" where
  "bnode_keysearchinfo_search n ks k cmptype =
    (if \<not> has_mismatcharray n then None
     else let keys = bnode_getkeyoffset n 0; count = n_count n;
              (cmp, ks) = dbe_bkey_search_step (dbe_bkey_search_init ks k cmptype) (bkey_at n keys)
          in if cmp \<le> 0 then Some (keys, 0, cmp, 0, ks)
             else case (if ss_l_field (ks_ss ks) \<noteq> 0 then skip_loop n (count - 1) 1 ks else Inr (1, ks)) of
               Inl (keys, i, cmp, ks) \<Rightarrow>
                 Some (keys, i, cmp, dbe_bkey_getlength (bkey_at n (bnode_getkeyoffset n (int i - 1))), ks)
             | Inr (i, ks) \<Rightarrow>
                 if i = count
                 then Some (n_len n, i, 1, dbe_bkey_getlength (bkey_at n (bnode_getkeyoffset n (int count - 1))), ks)
                 else Some (array_loop n (count - i) i (dbe_bkey_getlength (bkey_at n (bnode_getkeyoffset n (int i - 1)))) ks))"

text \<open>The search of each operation: by the array if there is one, else by the loop.\<close>

definition bnode_search ::
  "dbe_bnode_t \<Rightarrow> dbe_bkey_search_t \<Rightarrow> dbe_bkey_t \<Rightarrow> dbe_bkey_cmp_t \<Rightarrow> nat \<times> nat \<times> int \<times> nat \<times> dbe_bkey_search_t" where
  "bnode_search n ks k cmptype =
    (case bnode_keysearchinfo_search n ks k cmptype of
       Some r \<Rightarrow> r
     | None \<Rightarrow> bnode_key_loop n (n_count n) 0 0 1 0 (dbe_bkey_search_init ks k cmptype))"

section \<open>Inserting\<close>

text \<open>The results; \<open>SS_ERROR\<close> stands for a stop of the program by \<^verbatim>\<open>ss_rc_error\<close>.\<close>

datatype bnode_ret = DBE_RC_SUCC | DBE_RC_NODESPLIT | DBE_RC_NODERELOCATE | DBE_RC_NODEEMPTY | DBE_RC_FIRSTLEAFKEY
  | DBE_ERR_UNIQUE_S | DBE_ERR_LOSTUPDATE | DBE_ERR_DELETEROWNOTFOUND | SS_ERROR

datatype bnode_splitst_t = BNODE_SPLIT_NO | BNODE_SPLIT_NO_CLEANUP | BNODE_SPLIT_YES

text \<open>The keys in the order of the array, one behind the other.\<close>

definition reorder_keys :: "dbe_bnode_t \<Rightarrow> u8 list" where
  "reorder_keys n = concat (map (\<lambda>i. let k = bkey_at n (bnode_getkeyoffset n (int i)) in take (dbe_bkey_getlength k) k)
    [0..<n_count n])"

definition bnode_reorder :: "bnode_env \<Rightarrow> bool \<Rightarrow> dbe_bnode_t \<Rightarrow> dbe_bnode_t" where
  "bnode_reorder env init_keysearchinfo n =
    (let tmp = reorder_keys n;
         n = n\<lparr>n_len := length tmp, n_p := buf_write BNODE_KEYS tmp (n_p n)\<rparr>;
         n = bnode_info_setmismatcharray env False n
     in if init_keysearchinfo then snd (bnode_keysearchinfo_init env n) else n)"

definition BNODE_SPLITNEEDED :: "dbe_bnode_t \<Rightarrow> nat \<Rightarrow> bool" where
  "BNODE_SPLITNEEDED n nklen \<longleftrightarrow> BNODE_HEADERLEN + n_len n + nklen + (n_count n + 1) * 4 > fd_blocksize n"

text \<open>
  \<open>cleanup\<close> is what \<^verbatim>\<open>dbe_bnode_cleanup\<close> makes of a leaf of the Bonsai tree: it removes keys that no reader
  needs any more, and is not modelled. The parameter \<open>split_cleanup\<close> is not used by the code.
\<close>

definition bnode_splitneeded ::
  "(dbe_bnode_t \<Rightarrow> dbe_bnode_t) \<Rightarrow> bnode_env \<Rightarrow> dbe_bnode_t \<Rightarrow> nat \<Rightarrow> bool \<Rightarrow> bnode_splitst_t \<times> dbe_bnode_t" where
  "bnode_splitneeded cleanup env n nklen split_cleanup =
    (if \<not> BNODE_SPLITNEEDED n nklen then (BNODE_SPLIT_NO, n)
     else let n = (if n_bonsaip n \<and> n_level n = 0 then cleanup n else n);
              n = (if has_mismatcharray n then bnode_reorder env False n else n)
          in if BNODE_SPLITNEEDED n nklen then (BNODE_SPLIT_YES, n)
             else (BNODE_SPLIT_NO_CLEANUP, snd (bnode_keysearchinfo_init env n)))"

text \<open>The search for a key meets an equal one.\<close>

definition bnode_insert_equal ::
  "bnode_env \<Rightarrow> dbe_bnode_t \<Rightarrow> dbe_bkey_t \<Rightarrow> nat \<Rightarrow> bnode_ret \<times> dbe_bnode_t" where
  "bnode_insert_equal env n k keys =
    (let old_deletemark = bkey_at n keys in
     if dbe_cfg_singledeletemark env \<and> n_level n = 0 \<and> n_bonsaip n \<and>
       dbe_bkey_isdeletemark k \<and> dbe_bkey_isdeletemark old_deletemark
     then if dbe_bkey_iscommitted old_deletemark then (DBE_ERR_LOSTUPDATE, n)
       else case dbe_trxbuf_gettrxstate (go_trxbuf env) (dbe_bkey_gettrxid old_deletemark) of
         None \<Rightarrow> (SS_ERROR, n)
       | Some (trxresult, committrxnum, usertrxid) \<Rightarrow>
           if trxresult \<in> {DBE_TRXST_BEGIN, DBE_TRXST_TOBEABORTED, DBE_TRXST_VALIDATE, DBE_TRXST_COMMIT}
           then (DBE_ERR_LOSTUPDATE, n)
           else if trxresult = DBE_TRXST_ABORT
           then (DBE_RC_SUCC, n\<lparr>n_p := take (BNODE_KEYS + keys) (n_p n) @ dbe_bkey_copyheader old_deletemark k\<rparr>)
           else (SS_ERROR, n)
     else (DBE_ERR_UNIQUE_S, n))"

text \<open>The key before which the new key goes is compressed again, and the new key gets its place in the array.\<close>

definition bnode_insert_before ::
  "dbe_bnode_t \<Rightarrow> dbe_bkey_t \<Rightarrow> dbe_bkey_t \<Rightarrow> nat \<Rightarrow> nat \<Rightarrow> nat \<Rightarrow> dbe_bnode_t" where
  "bnode_insert_before n nk new_next_key nkpos next_key_offset kindex =
    (let nklen = dbe_bkey_getlength nk; next_key = bkey_at n next_key_offset in
     if has_mismatcharray n
     then let n = put_bkey next_key_offset new_next_key n; a = n_keysearchinfo_array n - 4;
              p = buf_move a (a + 4) (kindex * 4) (n_p n);
              (index, mismatch) = key_searchinfo nk;
              p = bnode_setkeysearchinfo (a + kindex * 4) index mismatch (n_len n) p;
              (index, mismatch) = key_searchinfo new_next_key;
              p = bnode_setkeysearchinfo (a + (kindex + 1) * 4) index mismatch next_key_offset p
          in n\<lparr>n_p := p, n_keysearchinfo_array := a, n_len := n_len n + nklen\<rparr>
     else let gapnow = dbe_bkey_getlength next_key; gapnew = nklen + dbe_bkey_getlength new_next_key;
              n = n\<lparr>n_p := buf_move (BNODE_KEYS + nkpos + gapnew) (BNODE_KEYS + nkpos + gapnow) (n_len n - nkpos - gapnow) (n_p n)\<rparr>;
              n = put_bkey (nkpos + nklen) new_next_key n
          in n\<lparr>n_len := n_len n + gapnew - gapnow\<rparr>)"

definition bnode_insert_last :: "dbe_bnode_t \<Rightarrow> dbe_bkey_t \<Rightarrow> dbe_bnode_t" where
  "bnode_insert_last n nk =
    (let n = (if has_mismatcharray n
              then let a = n_keysearchinfo_array n - 4; p = buf_move a (a + 4) (n_count n * 4) (n_p n);
                       (index, mismatch) = key_searchinfo nk
                   in n\<lparr>n_p := bnode_setkeysearchinfo (a + n_count n * 4) index mismatch (n_len n) p, n_keysearchinfo_array := a\<rparr>
              else n)
     in n\<lparr>n_len := n_len n + dbe_bkey_getlength nk\<rparr>)"

text \<open>The only delete mark of its v-tuple: not equal to the key before or behind.\<close>

definition only_deletemark :: "dbe_bkey_t \<Rightarrow> dbe_bkey_t \<Rightarrow> bool" where
  "only_deletemark nk new_next_key \<longleftrightarrow> \<not> vtpl_netlen (dbe_bkey_getvtpl nk) \<le> 1 \<and>
    \<not> (dbe_bkey_isdeletemark new_next_key \<and> vtpl_netlen (dbe_bkey_getvtpl new_next_key) \<le> 1)"

definition bnode_insert_fits ::
  "bnode_env \<Rightarrow> dbe_bnode_t \<Rightarrow> dbe_bkey_t \<Rightarrow> nat \<Rightarrow> nat \<Rightarrow> bool \<Rightarrow> bool \<times> dbe_bnode_t" where
  "bnode_insert_fits env n nk keys kindex isonlydeletemark =
    (let nkpos = (if has_mismatcharray n then n_len n else keys);
         next_key_offset = (if has_mismatcharray n then bnode_getkeyoffset n (int kindex) else nkpos);
         new_next_key = dbe_bkey_recompress_insert (bkeybuf env) nk (bkey_at n next_key_offset);
         (only, n) =
           (if kindex < n_count n
            then (if \<not> dbe_cfg_singledeletemark env \<and> kindex > 0 \<and> dbe_bkey_isdeletemark nk
                  then only_deletemark nk new_next_key else isonlydeletemark,
                  bnode_insert_before n nk new_next_key nkpos next_key_offset kindex)
            else (isonlydeletemark, bnode_insert_last n nk));
         n = (if word_of_nat kindex = n_lastinsindex n + 1
              then n\<lparr>n_lastinsindex := word_of_nat kindex, n_seqinscount := n_seqinscount n + 1\<rparr>
              else n\<lparr>n_seqinscount := 0\<rparr>);
         n = put_bkey nkpos nk n
     in (only, n\<lparr>n_count := n_count n + 1\<rparr>))"

text \<open>
  \<^verbatim>\<open>dbe_bnode_insertkey\<close> as it is called where a split is to be left to the caller, with no split info. The second
  result is what \<^verbatim>\<open>p_isonlydeletemark\<close> gets. \<open>ks\<close> is the uninitialised search state.
\<close>

partial_function (option) dbe_bnode_insertkey ::
  "(dbe_bnode_t \<Rightarrow> dbe_bnode_t) \<Rightarrow> bnode_env \<Rightarrow> dbe_bkey_search_t \<Rightarrow> dbe_bnode_t \<Rightarrow> dbe_bkey_t \<Rightarrow> bool
    \<Rightarrow> (bnode_ret \<times> bool \<times> dbe_bnode_t) option" where
  "dbe_bnode_insertkey cleanup env ks n k split_cleanup =
    (let only = dbe_cfg_singledeletemark env in
     if n_cpnum n \<noteq> go_cpnum env then Some (DBE_RC_NODERELOCATE, only, n)
     else let n = n\<lparr>n_dirty := True\<rparr> in
     if n_count n = 0
     then let n = put_bkey 0 k (n\<lparr>n_count := 1, n_len := dbe_bkey_getlength k, n_seqinscount := 1, n_lastinsindex := 0\<rparr>)
          in Some (DBE_RC_SUCC, only, snd (bnode_keysearchinfo_init env n))
     else let n = (if has_mismatcharray n then n else snd (bnode_keysearchinfo_init env n));
              cmptype = (if dbe_cfg_singledeletemark env then DBE_BKEY_CMP_DELETE else DBE_BKEY_CMP_ALL);
              (keys, kindex, cmp, klen, ks') = bnode_search n ks k cmptype
     in if cmp = 0 then (let (rc, n) = bnode_insert_equal env n k keys in Some (rc, only, n))
     else let nk = dbe_bkey_search_compress ks' (bkeybuf env);
              (splitst, n) = bnode_splitneeded cleanup env n (dbe_bkey_getlength nk) split_cleanup
     in if splitst = BNODE_SPLIT_NO_CLEANUP then dbe_bnode_insertkey cleanup env ks n k False
     else if splitst = BNODE_SPLIT_YES then Some (DBE_RC_NODESPLIT, only, n)
     else let (only, n) = bnode_insert_fits env n nk keys kindex only in Some (DBE_RC_SUCC, only, n))"

definition dbe_bnode_insertkey_block ::
  "(dbe_bnode_t \<Rightarrow> dbe_bnode_t) \<Rightarrow> bnode_env \<Rightarrow> dbe_bkey_search_t \<Rightarrow> dbe_bnode_t \<Rightarrow> dbe_bkey_t
    \<Rightarrow> (bnode_ret \<times> dbe_bnode_t) option" where
  "dbe_bnode_insertkey_block cleanup env ks n k =
    map_option (\<lambda>(rc, _, n). (rc, n)) (dbe_bnode_insertkey cleanup env ks n k False)"

section \<open>Deleting\<close>

text \<open>
  The first result says that the node has become empty; the second has the v-tuple whose BLOBs go onto
  the list of BLOBs to unlink later.
\<close>

definition deleted_blobs :: "dbe_bnode_t \<Rightarrow> dbe_bkey_t \<Rightarrow> dbe_bkey_t \<Rightarrow> bool \<Rightarrow> vtpl_t list" where
  "deleted_blobs n dk k deleteblob =
    (if deleteblob \<and> n_level n = 0 \<and> \<not> dbe_bkey_isdeletemark dk \<and> dbe_bkey_isclustering dk \<and> dbe_bkey_isblob dk
     then [dbe_bkey_getvtpl k] else [])"

text \<open>Where the key behind the deleted one goes when there is an array; \<open>None\<close> where it has no room.\<close>

definition reexpand_offset :: "dbe_bnode_t \<Rightarrow> nat \<Rightarrow> int \<Rightarrow> nat \<Rightarrow> nat \<Rightarrow> nat \<Rightarrow> nat option" where
  "reexpand_offset n keys dkindex dklen next_key_len new_next_key_len =
    (let kpos = bnode_getkeyoffset n (dkindex + 1) in
     if new_next_key_len > next_key_len
     then if dklen \<ge> new_next_key_len \<or> keys + dklen = kpos then Some (bnode_getkeyoffset n dkindex) else None
     else Some kpos)"

partial_function (option) bnode_deletekey_atpos ::
  "bnode_env \<Rightarrow> dbe_bnode_t \<Rightarrow> nat \<Rightarrow> dbe_bkey_t \<Rightarrow> int \<Rightarrow> bool \<Rightarrow> (bool \<times> vtpl_t list \<times> dbe_bnode_t) option" where
  "bnode_deletekey_atpos env n keys k dkindex deleteblob =
    (let dk = bkey_at n keys; blobs = deleted_blobs n dk k deleteblob; n = n\<lparr>n_dirty := True\<rparr> in
     if n_count n = 1 then Some (True, blobs, n\<lparr>n_count := 0, n_len := 0\<rparr>)
     else let dklen = dbe_bkey_getlength dk in
     if has_mismatcharray n
     then if dkindex = int (n_count n) - 1
       then Some (False, blobs, n\<lparr>n_p := buf_move (n_keysearchinfo_array n + 4) (n_keysearchinfo_array n) (4 * (n_count n - 1)) (n_p n),
         n_keysearchinfo_array := n_keysearchinfo_array n + 4, n_count := n_count n - 1\<rparr>)
       else let next_key = bkey_at n (bnode_getkeyoffset n (dkindex + 1));
                new_next_key = dbe_bkey_reexpand_delete (bkeybuf env) dk next_key
       in case reexpand_offset n keys dkindex dklen (dbe_bkey_getlength next_key) (dbe_bkey_getlength new_next_key) of
         None \<Rightarrow> (let n = bnode_reorder env True n in
           Option.bind (bnode_deletekey_atpos env n (bnode_getkeyoffset n dkindex) k dkindex False)
             (\<lambda>(emptyp, _, n). Some (emptyp, blobs, n)))
       | Some kpos \<Rightarrow> (let a = n_keysearchinfo_array n + 4;
             p = buf_move a (a - 4) (4 * nat dkindex) (n_p n);
             (index, mismatch) = key_searchinfo new_next_key;
             p = bnode_setkeysearchinfo (a + 4 * nat dkindex) index mismatch kpos p;
             n = put_bkey kpos new_next_key (n\<lparr>n_p := p, n_keysearchinfo_array := a\<rparr>)
         in Some (False, blobs, n\<lparr>n_count := n_count n - 1\<rparr>))
     else if keys + dklen = n_len n then Some (False, blobs, n\<lparr>n_len := n_len n - dklen, n_count := n_count n - 1\<rparr>)
     else let next_key = bkey_at n (keys + dklen);
              new_next_key = dbe_bkey_reexpand_delete (bkeybuf env) dk next_key;
              gapnow = dklen + dbe_bkey_getlength next_key; gapnew = dbe_bkey_getlength new_next_key;
              n = n\<lparr>n_p := buf_move (BNODE_KEYS + keys + gapnew) (BNODE_KEYS + keys + gapnow) (n_len n - keys - gapnow) (n_p n),
                n_len := n_len n + gapnew - gapnow\<rparr>;
              n = put_bkey keys new_next_key n
          in Some (False, blobs, n\<lparr>n_count := n_count n - 1\<rparr>))"

text \<open>
  \<open>mergep\<close> says that the caller merges a Bonsai tree with split purge: the flag \<^verbatim>\<open>DBE_INFO_MERGE\<close> and the
  switch \<^verbatim>\<open>dbe_cfg_splitpurge\<close>. In the production build a key that is not found is only reported.
\<close>

definition dbe_bnode_deletekey ::
  "bnode_env \<Rightarrow> dbe_bkey_search_t \<Rightarrow> dbe_bnode_t \<Rightarrow> dbe_bkey_t \<Rightarrow> bool \<Rightarrow> bool \<Rightarrow> bool \<Rightarrow> bool \<Rightarrow> bool
    \<Rightarrow> (bnode_ret \<times> vtpl_t list \<times> dbe_bnode_t) option" where
  "dbe_bnode_deletekey env ks n k cmp_also_header delete_when_empty deleteblob deletefirstleafkey mergep =
    (if n_cpnum n \<noteq> go_cpnum env then Some (DBE_RC_NODERELOCATE, [], n)
     else let n = (if has_mismatcharray n then n else snd (bnode_keysearchinfo_init env n));
              n = n\<lparr>n_dirty := True, n_seqinscount := 0\<rparr>
     in if n_count n = 1
        then let keys = (if has_mismatcharray n then bnode_getkeyoffset n 0 else 0)
             in if delete_when_empty
                then map_option (\<lambda>(emptyp, blobs, n). (DBE_RC_NODEEMPTY, blobs, n)) (bnode_deletekey_atpos env n keys k 0 deleteblob)
                else Some (DBE_RC_NODEEMPTY, [], n)
        else let (keys, kpos, cmp, klen, _) = bnode_search n ks k (if cmp_also_header then DBE_BKEY_CMP_ALL else DBE_BKEY_CMP_VTPL)
        in if cmp \<noteq> 0 \<and> n_level n = 0
           then Some (if n_bonsaip n \<and> mergep then DBE_RC_SUCC else DBE_ERR_DELETEROWNOTFOUND, [], n)
           else let back = cmp < 0 \<or> kpos = n_count n; marr = has_mismatcharray n;
                    kpos = (if back \<and> marr then int kpos - 1 else int kpos);
                    keys = (if \<not> back then keys else if marr then bnode_getkeyoffset n kpos else keys - klen)
           in if n_level n > 0 \<and> kpos = 0 \<and> \<not> deletefirstleafkey then Some (DBE_RC_FIRSTLEAFKEY, [], n)
              else map_option (\<lambda>(emptyp, blobs, n). (DBE_RC_SUCC, blobs, n)) (bnode_deletekey_atpos env n keys k kpos deleteblob))"

section \<open>Descending\<close>

definition dbe_bnode_getaddrinkey :: "dbe_bkey_search_t \<Rightarrow> dbe_bnode_t \<Rightarrow> dbe_bkey_t \<Rightarrow> u32 option" where
  "dbe_bnode_getaddrinkey ks n k =
    (if n_count n = 0 \<or> n_level n = 0 then None
     else if n_count n = 1
     then let keys = (if has_mismatcharray n then bnode_getkeyoffset n 0 else 0)
          in if DBE_BKEY_COMPARE k (bkey_at n keys) = Some 0 then Some (dbe_bkey_getaddr (bkey_at n keys)) else None
     else let (keys, i, cmp, _) = bnode_search n ks k DBE_BKEY_CMP_ALL
          in if cmp = 0 then Some (dbe_bkey_getaddr (bkey_at n keys)) else None)"

definition dbe_bnode_searchnode :: "dbe_bkey_search_t \<Rightarrow> dbe_bnode_t \<Rightarrow> dbe_bkey_t \<Rightarrow> bool \<Rightarrow> u32" where
  "dbe_bnode_searchnode ks n k cmp_also_header =
    (let (keys, pos, cmp, klen, _) = bnode_search n ks k (if cmp_also_header then DBE_BKEY_CMP_ALL else DBE_BKEY_CMP_VTPL);
         keys = (if cmp < 0 \<or> pos = n_count n
                 then if has_mismatcharray n then bnode_getkeyoffset n (int pos - 1) else keys - klen
                 else keys)
     in dbe_bkey_getaddr (bkey_at n keys))"

end
