(* ===== verification/Bnode_Rep.thy ===== *)
theory Bnode_Rep
  imports Bnode
begin

text \<open>
  The keys of a node: which sequence of keys the block represents, in either layout, and that building the
  mismatch array and dropping it keep the sequence.
\<close>

section \<open>Bytes in a block\<close>

definition holds :: "u8 list \<Rightarrow> nat \<Rightarrow> u8 list \<Rightarrow> bool" where
  "holds p a k \<longleftrightarrow> (\<exists>x y. p = x @ k @ y \<and> length x = a)"

lemma holds_drop: "holds p a k \<Longrightarrow> \<exists>y. drop a p = k @ y"
  by (auto simp: holds_def)

lemma holds_length: "holds p a k \<Longrightarrow> a + length k \<le> length p"
  by (auto simp: holds_def)

lemma holds_nth: "holds p a k \<Longrightarrow> i < length k \<Longrightarrow> p ! (a + i) = k ! i"
  by (auto simp: holds_def nth_append)

lemma holds_append: "holds p a (k @ l) \<longleftrightarrow> holds p a k \<and> holds p (a + length k) l"
proof
  show "holds p a (k @ l) \<Longrightarrow> holds p a k \<and> holds p (a + length k) l"
    unfolding holds_def by (metis append.assoc length_append)
next
  assume "holds p a k \<and> holds p (a + length k) l"
  then have "\<exists>x y. p = x @ k @ y \<and> length x = a" "\<exists>v w. p = v @ l @ w \<and> length v = a + length k"
    unfolding holds_def by blast+
  then obtain x y v w where h: "p = x @ k @ y" "length x = a" "p = v @ l @ w" "length v = a + length k"
    by blast
  then have "x @ k @ y = v @ (l @ w)" "length (x @ k) = length v"
    by simp_all
  then have "v = x @ k"
    by (metis append.assoc append_eq_append_conv)
  then show "holds p a (k @ l)"
    using h unfolding holds_def by auto
qed

lemma holds_write: "a + length k \<le> length p \<Longrightarrow> holds (buf_write a k p) a k"
  unfolding holds_def buf_write_def by (metis add_leD1 length_take min.absorb2)

lemma holds_write_other:
  assumes "holds p a k" "b + length xs \<le> a \<or> a + length k \<le> b" "b + length xs \<le> length p"
  shows "holds (buf_write b xs p) a k"
proof -
  obtain x y where p: "p = x @ k @ y" "length x = a"
    using assms(1) by (auto simp: holds_def)
  show ?thesis
  proof (cases "b + length xs \<le> a")
    case True
    then have "buf_write b xs p = (take b x @ xs @ drop (b + length xs) x) @ k @ y" "length (take b x @ xs @ drop (b + length xs) x) = a"
      using p by (simp_all add: buf_write_def)
    then show ?thesis
      unfolding holds_def by blast
  next
    case False
    then have "a + length k \<le> b"
      using assms(2) by blast
    then have "buf_write b xs p = x @ k @ (take (b - a - length k) y @ xs @ drop (b + length xs - a - length k) y)"
      using p by (simp add: buf_write_def)
    then show ?thesis
      using p(2) unfolding holds_def by blast
  qed
qed

lemma buf_move_length [simp]: "dst + n \<le> length p \<Longrightarrow> src + n \<le> length p \<Longrightarrow> length (buf_move dst src n p) = length p"
  by (simp add: buf_move_def)

lemma holds_take: "holds p a k \<Longrightarrow> take (length k) (drop a p) = k"
  by (auto simp: holds_def)

lemma holds_move:
  assumes "holds p src k" "dst + length k \<le> length p"
  shows "holds (buf_move dst src (length k) p) dst k"
  using assms holds_write [of dst k p] by (simp add: buf_move_def holds_take)

lemma holds_move_other:
  assumes "holds p a k" "dst + n \<le> a \<or> a + length k \<le> dst" "dst + n \<le> length p" "src + n \<le> length p"
  shows "holds (buf_move dst src n p) a k"
  using assms holds_write_other [of p a k dst "take n (drop src p)"] by (simp add: buf_move_def)

section \<open>The pieces of a node\<close>

fun pieces :: "u8 list list \<Rightarrow> ((u8 \<times> u8 list) \<times> u8 list list) list \<Rightarrow> u8 list list" where
  "pieces t [] = []"
| "pieces t ((h, u) # es) = bkey_after t h u # pieces u es"

lemma pieces_concat: "concat (pieces t es) = node_bytes t es"
  by (induction t es rule: pieces.induct) auto

lemma pieces_length [simp]: "length (pieces t es) = length es"
  by (induction t es rule: pieces.induct) auto

text \<open>The fields of the key before a position.\<close>

definition prev_key :: "((u8 \<times> u8 list) \<times> u8 list list) list \<Rightarrow> nat \<Rightarrow> u8 list list" where
  "prev_key es i = (if i = 0 then [] else snd (es ! (i - 1)))"

lemma pieces_nth_gen:
  "i < length es \<Longrightarrow> pieces t es ! i = bkey_after (if i = 0 then t else snd (es ! (i - 1))) (fst (es ! i)) (snd (es ! i))"
proof (induction t es arbitrary: i rule: pieces.induct)
  case (2 t h u es)
  then show ?case
    by (cases i) (auto simp: nth_Cons split: nat.splits)
qed simp

lemma pieces_nth: "i < length es \<Longrightarrow> pieces [] es ! i = bkey_after (prev_key es i) (fst (es ! i)) (snd (es ! i))"
  by (simp add: pieces_nth_gen prev_key_def)

lemma node_ok_nth_gen:
  "node_ok t es \<Longrightarrow> i < length es \<Longrightarrow> chain_ok (if i = 0 then t else snd (es ! (i - 1))) (snd (es ! i)) \<and>
    header_ok (fst (es ! i)) \<and> vtpl_fits (snd (es ! i)) \<and> length (fields_bytes (snd (es ! i))) < 65536"
proof (induction t es arbitrary: i rule: node_ok.induct)
  case (2 t h u es)
  then show ?case
    using "2.IH" [of "i - 1"] by (cases i; cases "i - 1") auto
qed simp

lemma node_ok_nth:
  assumes "node_ok [] es" "i < length es"
  shows "chain_ok (prev_key es i) (snd (es ! i))" "header_ok (fst (es ! i))" "vtpl_fits (snd (es ! i))"
    "length (fields_bytes (snd (es ! i))) < 65536"
  using node_ok_nth_gen [OF assms] by (simp_all add: prev_key_def)

lemma node_ok_append: "node_ok t (es @ fs) \<longleftrightarrow> node_ok t es \<and> node_ok (last_key t es) fs"
  by (induction t es rule: node_ok.induct) (auto simp: last_key_def)

lemma pieces_append: "pieces t (es @ fs) = pieces t es @ pieces (last_key t es) fs"
  by (induction t es rule: pieces.induct) (auto simp: last_key_def)

text \<open>Reading a piece.\<close>

lemma getlength_after:
  assumes "header_ok h" "vtpl_fits u" "u \<noteq> []"
  shows "dbe_bkey_getlength (bkey_after t h u @ x) = length (bkey_after t h u)"
    "take (dbe_bkey_getlength (bkey_after t h u @ x)) (bkey_after t h u @ x) = bkey_after t h u"
proof -
  show "dbe_bkey_getlength (bkey_after t h u @ x) = length (bkey_after t h u)"
    unfolding bkey_after_def by (rule getlength_bytes [OF assms(1) cmpr_fits(1) [OF assms(3,2)]])
  then show "take (dbe_bkey_getlength (bkey_after t h u @ x)) (bkey_after t h u @ x) = bkey_after t h u"
    by simp
qed

text \<open>What the array has for a key: the index up to 255, and the first byte of the compressed key.\<close>

definition first_byte :: "u8 list list \<Rightarrow> u8" where
  "first_byte fs = (if hd fs = [] then 0 else hd (hd fs))"

lemma searchinfo_after:
  assumes "header_ok h" "vtpl_fits u" "u \<noteq> []" "length (fields_bytes u) < 65536"
  shows "key_searchinfo (bkey_after t h u @ x) = (min 255 (fst (cmpr t u)), first_byte (snd (cmpr t u)))"
proof -
  obtain c cs where c: "snd (cmpr t u) = c # cs"
    using cmpr_nonempty [OF assms(3), of t] by (cases "snd (cmpr t u)") auto
  have f: "vtpl_fits (c # cs)"
    using cmpr_fits(1) [OF assms(3,2), of t] c by simp
  have i: "fst (cmpr t u) < 65536"
    using cmpr_length(2) [OF assms(3), of t] assms(4) by simp
  have "va_fits c"
    using vtpl_fits_Cons [OF f] va_cmpable_fits by blast
  then have g: "va_getdata (fields_bytes (c # cs) @ x) = (c @ fields_bytes cs @ x, word_of_nat (length c))"
    by simp
  have z: "(word_of_nat (length c) :: u32) = 0 \<longleftrightarrow> c = []"
    using unat_word_of_nat32 [of "length c"] vtpl_fits_word [OF f] by (auto simp: word_of_nat_eq_0_iff dvd_imp_le nat_dvd_not_less)
  have l: "(255 :: u16) < word_of_nat (fst (cmpr t u)) \<longleftrightarrow> 255 < fst (cmpr t u)"
    by (simp add: word_less_nat_alt index_ucast(3) i)
  show ?thesis
    unfolding key_searchinfo_def bkey_after_def bkey_reads(3,4) [OF assms(1)] c vtpl_reads [OF f] g Let_def prod.case z l
      index_ucast(3) [OF i] by (simp add: first_byte_def min_def)
qed

section \<open>The two layouts\<close>

definition entry :: "u8 list list \<Rightarrow> u8 list list \<Rightarrow> nat \<Rightarrow> u8 list" where
  "entry t u offset = [word_of_nat (min 255 (fst (cmpr t u))), first_byte (snd (cmpr t u))] @ SS_UINT2_STORETODISK (word_of_nat offset)"

lemma entry_length [simp]: "length (entry t u offset) = 4"
  by (simp add: entry_def store2_list)

definition in_order :: "dbe_bnode_t \<Rightarrow> ((u8 \<times> u8 list) \<times> u8 list list) list \<Rightarrow> bool" where
  "in_order n es \<longleftrightarrow> \<not> has_mismatcharray n \<and> n_count n = length es \<and> n_len n = length (node_bytes [] es) \<and>
    holds (n_p n) BNODE_KEYS (node_bytes [] es) \<and> length (n_p n) \<le> 65536"

definition apart :: "u8 list list \<Rightarrow> nat list \<Rightarrow> bool" where
  "apart ps offs \<longleftrightarrow> (\<forall>i<length ps. \<forall>j<length ps. i \<noteq> j \<longrightarrow>
    offs ! i + length (ps ! i) \<le> offs ! j \<or> offs ! j + length (ps ! j) \<le> offs ! i)"

definition in_array :: "dbe_bnode_t \<Rightarrow> ((u8 \<times> u8 list) \<times> u8 list list) list \<Rightarrow> nat list \<Rightarrow> bool" where
  "in_array n es offs \<longleftrightarrow> has_mismatcharray n \<and> n_count n = length es \<and> length offs = length es \<and>
    n_keysearchinfo_array n + 4 * length es = length (n_p n) \<and> BNODE_KEYS + n_len n \<le> n_keysearchinfo_array n \<and>
    length (n_p n) \<le> 65536 \<and>
    (\<forall>i<length es. offs ! i + length (pieces [] es ! i) \<le> n_len n \<and> holds (n_p n) (BNODE_KEYS + offs ! i) (pieces [] es ! i) \<and>
      holds (n_p n) (n_keysearchinfo_array n + 4 * i) (entry (prev_key es i) (snd (es ! i)) (offs ! i))) \<and>
    apart (pieces [] es) offs"

text \<open>The keys a node has, in either layout.\<close>

definition node_has :: "dbe_bnode_t \<Rightarrow> ((u8 \<times> u8 list) \<times> u8 list list) list \<Rightarrow> bool" where
  "node_has n es \<longleftrightarrow> in_order n es \<or> (\<exists>offs. in_array n es offs)"

lemma array_reads:
  assumes "in_array n es offs" "i < length es"
  shows "bnode_getkeyoffset n (int i) = offs ! i" "\<exists>y. bkey_at n (offs ! i) = pieces [] es ! i @ y"
    "n_p n ! (n_keysearchinfo_array n + 4 * i) = word_of_nat (min 255 (fst (cmpr (prev_key es i) (snd (es ! i)))))"
    "n_p n ! (n_keysearchinfo_array n + 4 * i + 1) = first_byte (snd (cmpr (prev_key es i) (snd (es ! i))))"
proof -
  let ?a = "n_keysearchinfo_array n + 4 * i" and ?e = "entry (prev_key es i) (snd (es ! i)) (offs ! i)"
  have h: "holds (n_p n) ?a ?e" "holds (n_p n) (BNODE_KEYS + offs ! i) (pieces [] es ! i)" and o: "offs ! i < 65536" and c: "0 < n_count n"
    using assms by (auto simp: in_array_def)
  have "holds (n_p n) (?a + 2) (SS_UINT2_STORETODISK (word_of_nat (offs ! i)))"
    using h(1) unfolding entry_def holds_append by simp
  then obtain y where y: "drop (?a + 2) (n_p n) = SS_UINT2_STORETODISK (word_of_nat (offs ! i)) @ y"
    using holds_drop by blast
  have "nat (int (n_keysearchinfo_array n) + 4 * int i) + 2 = ?a + 2"
    by simp
  then show "bnode_getkeyoffset n (int i) = offs ! i"
    using c o load_store2 [of "word_of_nat (offs ! i)" y] unfolding bnode_getkeyoffset_def by (simp only: y if_True index_ucast(3))
  show "\<exists>y. bkey_at n (offs ! i) = pieces [] es ! i @ y"
    using holds_drop [OF h(2)] by (simp add: bkey_at_def)
  show "n_p n ! ?a = word_of_nat (min 255 (fst (cmpr (prev_key es i) (snd (es ! i)))))"
    "n_p n ! (?a + 1) = first_byte (snd (cmpr (prev_key es i) (snd (es ! i))))"
    using holds_nth [OF h(1), of 0] holds_nth [OF h(1), of 1] by (simp_all add: entry_def)
qed

text \<open>Where a key lies in the first layout.\<close>

definition offset_of :: "((u8 \<times> u8 list) \<times> u8 list list) list \<Rightarrow> nat \<Rightarrow> nat" where
  "offset_of es i = length (concat (take i (pieces [] es)))"

lemma offset_of_simps: "offset_of es 0 = 0" "i < length es \<Longrightarrow> offset_of es (Suc i) = offset_of es i + length (pieces [] es ! i)"
  "offset_of es (length es) = length (node_bytes [] es)"
  by (simp_all add: offset_of_def take_Suc_conv_app_nth pieces_concat)

lemma holds_piece:
  assumes "holds p a (node_bytes [] es)" "i < length es"
  shows "holds p (a + offset_of es i) (pieces [] es ! i)"
proof -
  have "pieces [] es = take i (pieces [] es) @ pieces [] es ! i # drop (Suc i) (pieces [] es)"
    using assms(2) by (simp add: Cons_nth_drop_Suc)
  then have "node_bytes [] es = concat (take i (pieces [] es)) @ pieces [] es ! i @ concat (drop (Suc i) (pieces [] es))"
    by (metis pieces_concat concat.simps(2) concat_append)
  then show ?thesis
    using assms(1) unfolding offset_of_def by (simp add: holds_append)
qed

lemma order_reads:
  assumes "in_order n es" "i < length es"
  shows "\<exists>y. bkey_at n (offset_of es i) = pieces [] es ! i @ y"
  using holds_piece [OF _ assms(2)] assms(1) holds_drop by (simp add: bkey_at_def in_order_def)

lemma piece_length:
  assumes "node_ok [] es" "i < length es"
  shows "dbe_bkey_getlength (pieces [] es ! i @ y) = length (pieces [] es ! i)"
    "take (dbe_bkey_getlength (pieces [] es ! i @ y)) (pieces [] es ! i @ y) = pieces [] es ! i"
  using getlength_after [OF node_ok_nth(2,3) [OF assms] chain_ok_nonempty [OF node_ok_nth(1) [OF assms]]] assms(2)
  by (simp_all add: pieces_nth)

end
