(* ===== verification/Bnode_Search.thy ===== *)
theory Bnode_Search
  imports Bnode_Rep
begin

text \<open>
  Searching a node: the search by the mismatch array and the loop over the keys end at the same key, with
  the same comparison and a state from which the search key is compressed.
\<close>

section \<open>One step at a position\<close>

lemma search_step_sgn:
  assumes "search_inv bkey_cmp hk key z t ks" "header_ok hk" "header_ok h" "vtpl_fits key" "vtpl_fits u"
    and "meets t key u" "chain_ok t u" "length (fields_bytes u) < 65536"
    and "dbe_bkey_search_step ks (bkey_after t h u @ y) = (r, ks')"
  shows "r = 0 \<longleftrightarrow> u = key \<and> tie bkey_cmp hk h = 0"
proof -
  let ?st = "ks_ss ks" and ?d = "bkey_after t h u @ y"
  have k: "ks_k ks = bkey_bytes hk 0 key @ z" "search_rep (vtpl_encode key @ z) ?st (cmpr t key)"
    using assms(1) by (auto simp: search_inv_def)
  have i: "fst (cmpr t u) < 65536"
    using cmpr_length(2) [OF chain_ok_nonempty [OF assms(7)], of t] assms(8) by simp
  obtain ss' where step: "vtpl_dbe_search_step (vtpl_encode key @ z) ?st (word_of_nat (fst (cmpr t u)))
      (vtpl_encode (snd (cmpr t u)) @ y) ?d = (r, ss')"
    using assms(9) unfolding dbe_bkey_search_step_def k(1) bkey_reads(4) [OF assms(2)]
    unfolding bkey_after_def bkey_reads(3,4) [OF assms(3)] index_ucast(2) [OF i] by (auto split: prod.splits)
  have chain: "meets t key u \<and> chain_ok t u"
    using assms(6,7) by blast
  have ok: "step_ok (vtpl_encode key @ z) ?st ?d 0 key u (r, ss')"
    using dbe_step_order [OF chain assms(4,5) k(2) refl, of ?d y] unfolding step .
  have "sgn r = step_result ?st ?d key u"
    using ok by (cases "0 < r") (auto simp: step_ok_def)
  then show ?thesis
    by (auto simp: step_result_def call_tie [OF assms(1-3)] three_way_def sgn_if split: if_splits)
qed

text \<open>A step that the array makes unnecessary: it goes past the key and leaves the state as it is.\<close>

lemma search_step_skip:
  assumes "search_inv bkey_cmp hk key z t ks" "header_ok hk" "header_ok h" "vtpl_fits key" "vtpl_fits u" "key \<noteq> []" "u \<noteq> []"
    and "fst (cmpr t u) = fst (cmpr t key)" "length (fields_bytes u) < 65536" "ss_l_field (ks_ss ks) \<noteq> 0"
    and "first_byte (snd (cmpr t u)) < BKEY_GETVTPLPTR (ks_k ks) ! ss_p_mismatch (ks_ss ks)"
  shows "\<exists>r. 0 < r \<and> dbe_bkey_search_step ks (bkey_after t h u @ y) = (r, ks)"
proof -
  let ?st = "ks_ss ks" and ?d = "bkey_after t h u @ y" and ?key = "vtpl_encode key @ z"
  obtain c cs where c: "snd (cmpr t key) = c # cs"
    using cmpr_nonempty [OF assms(6), of t] by (cases "snd (cmpr t key)") auto
  obtain e es where e: "snd (cmpr t u) = e # es"
    using cmpr_nonempty [OF assms(7), of t] by (cases "snd (cmpr t u)") auto
  have k: "ks_k ks = bkey_bytes hk 0 key @ z" "search_rep ?key ?st (fst (cmpr t key), c # cs)"
    using assms(1) by (simp_all add: search_inv_def flip: c)
  obtain pre x where p: "?key = pre @ c @ fields_bytes cs @ x" "ss_p_mismatch ?st = length pre"
    using k(2) by (auto simp: search_rep_def)
  have st: "ss_i_mismatch ?st = word_of_nat (fst (cmpr t key))" "ss_l_field ?st = word_of_nat (length c)"
    using k(2) by (auto simp: search_rep_def)
  have fits: "vtpl_fits (c # cs)" "vtpl_fits (e # es)"
    using cmpr_fits(1) [OF assms(6,4), of t] cmpr_fits(1) [OF assms(7,5), of t] c e by simp_all
  have len: "unat (word_of_nat (length c) :: u32) = length c" "unat (word_of_nat (length e) :: u32) = length e"
    using vtpl_fits_word [OF fits(1)] vtpl_fits_word [OF fits(2)] by (simp_all add: unat_word_of_nat32)
  have cne: "c \<noteq> []"
    using assms(10) st(2) by auto
  have keyb: "?key ! ss_p_mismatch ?st = hd c" "drop (ss_p_mismatch ?st) ?key = c @ fields_bytes cs @ x"
    unfolding p using cne by (simp_all add: nth_append hd_conv_nth)
  let ?ie = "vtpl_encode (e # es) @ y"
  let ?n = "length (fields_bytes (e # es))"
  let ?p = "length (va_lenfield ?n) + length (va_lenfield (length e))"
  have ie: "drop ?p ?ie = e @ fields_bytes es @ y"
    using first_field_reads(3) [OF fits(2), of y] vtpl_reads(3) [OF fits(2), of y] by (metis add.commute drop_drop)
  have less: "first_byte (e # es) < hd c"
    using assms(11) unfolding k(1) bkey_reads(4) [OF assms(2)] keyb(1) e .
  have step: "\<exists>r. 0 < r \<and> vtpl_search_step_fn ?key ?st ?ie ?d = (r, ?st)"
  proof (cases "e = []")
    case True
    have "0 < (word_of_nat (length c) :: u32)"
      using assms(10) st(2) by (simp add: word_neq_0_conv)
    then show ?thesis
      using True unfolding vtpl_search_step_fn_def Let_def vtpl_reads [OF fits(2)] first_field_reads(1,2) [OF fits(2)] st(2)
      by (simp add: search_loop.simps flip: st(2))
  next
    case False
    then have lt: "hd e < hd c" and "?ie ! ?p = hd e"
      using less ie nth_drop [of ?p ?ie 0] unfolding first_byte_def
      by (auto simp: nth_append hd_conv_nth vtpl_encode_def va_encode_def)
    then have b: "uint (?key ! ss_p_mismatch ?st) - uint (?ie ! ?p) = uint (hd c) - uint (hd e)" "0 < uint (hd c) - uint (hd e)"
      unfolding keyb(1) by (simp_all add: word_less_def)
    have "unat (min (word_of_nat (length c)) (word_of_nat (length e)) :: u32) = min (length c) (length e)"
      using len unfolding min_def by (auto simp: word_le_nat_alt)
    moreover obtain m where "min (length c) (length e) = Suc m"
      using cne False by (metis length_0_conv min_def not0_implies_Suc)
    ultimately have m: "unat (min (word_of_nat (length c)) (word_of_nat (length e)) :: u32) = Suc m"
      by simp
    then have nz: "min (word_of_nat (length c)) (word_of_nat (length e)) \<noteq> (0 :: u32)"
      by auto
    have sb: "step_bytes (unat (min (word_of_nat (length c)) (word_of_nat (length e)) :: u32) - unat (0 :: u32)) (c @ fields_bytes cs @ x)
        (e @ fields_bytes es @ y) = (uint (hd c) - uint (hd e), 0)"
      using m b(2) cne False by simp
    have loop: "search_loop ?key ?ie q ?d ?st ?st 0 (min (word_of_nat (length c)) (word_of_nat (length e))) l ?p = (1, ?st)" for q l
      by (subst search_loop.simps) (use b(2) in \<open>simp only: keyb(2) ie sb Let_def prod.case\<close>, simp)
    show ?thesis
      using nz b(2) loop unfolding vtpl_search_step_fn_def Let_def vtpl_reads [OF fits(2)] first_field_reads(1,2) [OF fits(2)] st(2) b(1)
      by (auto intro: exI [where x = 1])
  qed
  have i: "fst (cmpr t u) < 65536"
    using cmpr_length(2) [OF assms(7), of t] assms(9) by simp
  obtain r where "0 < r" "vtpl_search_step_fn ?key ?st ?ie ?d = (r, ?st)"
    using step by blast
  moreover have "ks\<lparr>ks_ss := ks_ss ks\<rparr> = ks"
    by simp
  ultimately show ?thesis
    unfolding dbe_bkey_search_step_def k(1) bkey_reads(4) [OF assms(2)] vtpl_dbe_search_step_def
    unfolding bkey_after_def bkey_reads(3,4) [OF assms(3)] index_ucast(2) [OF i [unfolded assms(8)]] st(1) assms(8) e by simp
qed

section \<open>Where a search ends\<close>

text \<open>A search key that is valid for a node: it does not continue a v-tuple that occurs twice there.\<close>

definition search_key_ok :: "((u8 \<times> u8 list) \<times> u8 list list) list \<Rightarrow> u8 \<times> u8 list \<Rightarrow> u8 list list \<Rightarrow> bool" where
  "search_key_ok es hk key \<longleftrightarrow> header_ok hk \<and> vtpl_fits key \<and> key \<noteq> [] \<and> length (fields_bytes key) < 65536 \<and>
    node_ok [] es \<and> twice_apart key (map snd es)"

definition found ::
  "((u8 \<times> u8 list) \<times> u8 list list) list \<Rightarrow> dbe_bkey_cmp_t \<Rightarrow> u8 \<times> u8 list \<Rightarrow> u8 list list \<Rightarrow> u8 list
    \<Rightarrow> nat \<Rightarrow> int \<Rightarrow> dbe_bkey_search_t \<Rightarrow> bool" where
  "found es bkey_cmp hk key z j cmp ks \<longleftrightarrow> j \<le> length es \<and> (\<forall>m<j. below bkey_cmp hk key (es ! m)) \<and>
    (if j < length es
     then \<not> below bkey_cmp hk key (es ! j) \<and> cmp \<le> 0 \<and> (cmp = 0 \<longleftrightarrow> snd (es ! j) = key \<and> tie bkey_cmp hk (fst (es ! j)) = 0)
     else 0 < cmp) \<and>
    search_inv bkey_cmp hk key z (prev_key es j) ks"

text \<open>What holds while the search goes on.\<close>

definition searching ::
  "((u8 \<times> u8 list) \<times> u8 list list) list \<Rightarrow> dbe_bkey_cmp_t \<Rightarrow> u8 \<times> u8 list \<Rightarrow> u8 list list \<Rightarrow> u8 list
    \<Rightarrow> nat \<Rightarrow> dbe_bkey_search_t \<Rightarrow> bool" where
  "searching es bkey_cmp hk key z i ks \<longleftrightarrow> i \<le> length es \<and> (\<forall>m<i. below bkey_cmp hk key (es ! m)) \<and>
    search_inv bkey_cmp hk key z (prev_key es i) ks"

lemma searching_meets:
  assumes "search_key_ok es hk key" "searching es bkey_cmp hk key z i ks" "i < length es"
  shows "meets (prev_key es i) key (snd (es ! i))"
proof (rule meetsI)
  have ok: "node_ok [] es"
    using assms(1) by (simp add: search_key_ok_def)
  show "key \<noteq> []" "chain_ok (prev_key es i) (snd (es ! i))"
    using assms(1) node_ok_nth(1) [OF ok assms(3)] by (simp_all add: search_key_ok_def)
  show "prev_key es i \<le> key"
    using assms(2) by (cases i) (auto simp: prev_key_def searching_def below_def)
  show "prev_key es i = snd (es ! i) \<longrightarrow> \<not> strict_prefix (snd (es ! i)) key"
  proof (cases i)
    case 0
    then show ?thesis
      using chain_ok_nonempty [OF node_ok_nth(1) [OF ok assms(3)]] by (simp add: prev_key_def)
  next
    case (Suc m)
    then show ?thesis
      using assms(1,3) twice_apart_nth [of key "map snd es" m] by (simp add: prev_key_def search_key_ok_def)
  qed
qed

text \<open>One step: the search ends here, or it goes on behind this key.\<close>

lemma step_at:
  assumes "search_key_ok es hk key" "searching es bkey_cmp hk key z i ks" "i < length es"
    and "dbe_bkey_search_step ks (pieces [] es ! i @ y) = (r, ks')"
  shows "r \<le> 0 \<Longrightarrow> found es bkey_cmp hk key z i r ks'" "0 < r \<Longrightarrow> searching es bkey_cmp hk key z (Suc i) ks'"
proof -
  have ok: "header_ok hk" "vtpl_fits key" "node_ok [] es"
    using assms(1) by (auto simp: search_key_ok_def)
  note e = node_ok_nth [OF ok(3) assms(3)]
  have inv: "search_inv bkey_cmp hk key z (prev_key es i) ks" "\<forall>m<i. below bkey_cmp hk key (es ! m)"
    using assms(2) by (auto simp: searching_def)
  note step = assms(4) [unfolded pieces_nth [OF assms(3)]]
  note s = search_step_node [OF inv(1) ok(1) e(2) ok(2) e(3) searching_meets [OF assms(1-3)] e(1,4) step, unfolded prod.collapse]
  note s0 = search_step_sgn [OF inv(1) ok(1) e(2) ok(2) e(3) searching_meets [OF assms(1-3)] e(1,4) step]
  show "found es bkey_cmp hk key z i r ks'" if "r \<le> 0"
    using that s(1,3) s0 inv(2) assms(3) unfolding found_def by auto
  show "searching es bkey_cmp hk key z (Suc i) ks'" if "0 < r"
    using that s(1,2) inv(2) assms(3) unfolding searching_def by (auto simp: prev_key_def less_Suc_eq)
qed

text \<open>A key that the array lets the search skip.\<close>

lemma skip_at:
  assumes "search_key_ok es hk key" "searching es bkey_cmp hk key z i ks" "i < length es"
    and "\<exists>r. 0 < r \<and> dbe_bkey_search_step ks (pieces [] es ! i @ y) = (r, ks)"
  shows "searching es bkey_cmp hk key z (Suc i) ks"
  using step_at(2) [OF assms(1-3)] assms(4) by blast

lemma state_index:
  assumes "search_inv bkey_cmp hk key z t ks"
  shows "ss_i_mismatch (ks_ss ks) = word_of_nat (fst (cmpr t key))"
  using assms by (auto simp: search_inv_def search_rep_def split: prod.splits)

text \<open>The loop over the keys in order.\<close>

lemma key_loop_found:
  assumes "in_order n es" "search_key_ok es hk key"
    and "searching es bkey_cmp hk key z i ks" "i + m = length es" "m = 0 \<longrightarrow> 0 < cmp"
    and "klen = (if i = 0 then 0 else length (pieces [] es ! (i - 1)))"
  shows "\<exists>j cmp' ks'. bnode_key_loop n m (offset_of es i) i cmp klen ks =
      (offset_of es j, j, cmp', if j = 0 then 0 else length (pieces [] es ! (j - 1)), ks') \<and> found es bkey_cmp hk key z j cmp' ks'"
  using assms(3-6)
proof (induction m arbitrary: i cmp klen ks)
  case 0
  then show ?case
    by (auto simp: searching_def found_def)
next
  case (Suc m)
  then have i: "i < length es"
    by simp
  obtain y where y: "bkey_at n (offset_of es i) = pieces [] es ! i @ y"
    using order_reads [OF assms(1) i] by blast
  obtain r ks' where step: "dbe_bkey_search_step ks (pieces [] es ! i @ y) = (r, ks')"
    by fastforce
  note s = step_at [OF assms(2) Suc.prems(1) i step]
  have len: "dbe_bkey_getlength (pieces [] es ! i @ y) = length (pieces [] es ! i)"
    using piece_length(1) [OF _ i] assms(2) by (simp add: search_key_ok_def)
  show ?case
  proof (cases "r \<le> 0")
    case True
    then show ?thesis
      using s(1) step Suc.prems(4) by (auto simp: y)
  next
    case False
    then show ?thesis
      using Suc.IH [of "Suc i" ks' r "length (pieces [] es ! i)"] s(2) step Suc.prems(2) i
      by (auto simp: y len offset_of_simps)
  qed
qed

text \<open>The comparison of the keys that the array leaves.\<close>

lemma array_loop_found:
  assumes "in_array n es offs" "search_key_ok es hk key"
    and "searching es bkey_cmp hk key z i ks" "i + m = length es" "0 < m"
    and "0 < i \<longrightarrow> klen = length (pieces [] es ! (i - 1))"
  shows "\<exists>keys j cmp' klen' ks'. array_loop n m i klen ks = (keys, j, cmp', klen', ks') \<and> found es bkey_cmp hk key z j cmp' ks' \<and>
    (j < length es \<longrightarrow> keys = offs ! j) \<and> (0 < j \<and> 0 < i \<longrightarrow> klen' = length (pieces [] es ! (j - 1)))"
  using assms(3-6)
proof (induction m arbitrary: i klen ks)
  case (Suc m)
  then have i: "i < length es"
    by simp
  obtain y where y: "bkey_at n (offs ! i) = pieces [] es ! i @ y"
    using array_reads(2) [OF assms(1) i] by blast
  obtain r ks' where step: "dbe_bkey_search_step ks (pieces [] es ! i @ y) = (r, ks')"
    by fastforce
  note s = step_at [OF assms(2) Suc.prems(1) i step]
  have len: "dbe_bkey_getlength (pieces [] es ! i @ y) = length (pieces [] es ! i)"
    using piece_length(1) [OF _ i] assms(2) by (simp add: search_key_ok_def)
  note off = array_reads(1) [OF assms(1) i]
  show ?case
  proof (cases "r \<le> 0")
    case True
    then show ?thesis
      using s(1) step Suc.prems(4) i by (auto simp: y off)
  next
    case False
    show ?thesis
    proof (cases "m = 0")
      case True
      then have last: "length es - Suc 0 = i"
        using Suc.prems(2) by simp
      have "found es bkey_cmp hk key z (Suc i) r ks'"
        using s(2) True False Suc.prems(2) by (auto simp: searching_def found_def)
      then show ?thesis
        using True False step Suc.prems(2) last by (auto simp: y off len)
    next
      case m: False
      have "\<exists>keys j cmp' klen' ks2. array_loop n m (Suc i) (length (pieces [] es ! i)) ks' = (keys, j, cmp', klen', ks2) \<and>
          found es bkey_cmp hk key z j cmp' ks2 \<and> (j < length es \<longrightarrow> keys = offs ! j) \<and>
          (0 < j \<and> 0 < Suc i \<longrightarrow> klen' = length (pieces [] es ! (j - 1)))"
        using s(2) False Suc.prems(2) m by (intro Suc.IH) auto
      then show ?thesis
        using m False step by (auto simp: y off len)
    qed
  qed
qed simp

text \<open>The loop over the array.\<close>

lemma u8_of_nat:
  assumes "n < 255"
  shows "(word_of_nat n :: u8) \<noteq> 255" "ucast (word_of_nat n :: u8) = (word_of_nat n :: u32)"
proof -
  have u: "unat (word_of_nat n :: u8) = n"
    using assms by (simp add: unsigned_of_nat take_bit_nat_eq_self)
  show "(word_of_nat n :: u8) \<noteq> 255"
  proof
    assume "(word_of_nat n :: u8) = 255"
    then have "unat (word_of_nat n :: u8) = 255"
      by simp
    then show False
      using u assms by simp
  qed
  show "ucast (word_of_nat n :: u8) = (word_of_nat n :: u32)"
    using assms by (simp add: word_eq_iff_unsigned unsigned_ucast_eq unsigned_of_nat take_bit_nat_eq_self take_bit_eq_mod)
qed

lemma skip_loop_found:
  assumes "in_array n es offs" "search_key_ok es hk key"
    and "searching es bkey_cmp hk key z i ks" "i + m = length es" "ss_l_field (ks_ss ks) \<noteq> 0" "0 < i"
  shows "case skip_loop n m i ks of
      Inl (keys, j, cmp, ks') \<Rightarrow> found es bkey_cmp hk key z j cmp ks' \<and> j < length es \<and> keys = offs ! j \<and> i \<le> j
    | Inr (j, ks') \<Rightarrow> searching es bkey_cmp hk key z j ks' \<and> i \<le> j"
  using assms(3-6)
proof (induction m arbitrary: i ks)
  case (Suc m)
  then have i: "i < length es"
    by simp
  obtain y where y: "bkey_at n (offs ! i) = pieces [] es ! i @ y"
    using array_reads(2) [OF assms(1) i] by blast
  let ?t = "prev_key es i" and ?h = "fst (es ! i)" and ?u = "snd (es ! i)"
  have ok: "header_ok hk" "vtpl_fits key" "key \<noteq> []" "node_ok [] es" "length (fields_bytes key) < 65536"
    using assms(2) by (auto simp: search_key_ok_def)
  note e = node_ok_nth [OF ok(4) i]
  note ne = chain_ok_nonempty [OF e(1)]
  have inv: "search_inv bkey_cmp hk key z ?t ks"
    using Suc.prems(1) by (simp add: searching_def)
  let ?iu = "fst (cmpr ?t ?u)" and ?ik = "fst (cmpr ?t key)"
  have b: "?iu < 65536" "?ik < 65536"
    using cmpr_length(2) [OF ne, of ?t] cmpr_length(2) [OF ok(3), of ?t] e(4) ok(5) by simp_all
  note r = array_reads [OF assms(1) i]
  note r4 = r(4) [unfolded Suc_eq_plus1 [symmetric]]
  have ix: "(if n_p n ! (n_keysearchinfo_array n + 4 * i) = 255 then ucast (BKEY_LOADINDEX (bkey_at n (offs ! i)))
      else ucast (n_p n ! (n_keysearchinfo_array n + 4 * i))) = (word_of_nat ?iu :: u32)"
  proof -
    have "BKEY_LOADINDEX (bkey_at n (offs ! i)) = word_of_nat ?iu"
      unfolding y pieces_nth [OF i] bkey_after_def bkey_reads(3) [OF e(2)] ..
    then show ?thesis
      using b(1) unfolding r(3) by (cases "?iu < 255") (simp_all add: index_ucast(2) min_def u8_of_nat)
  qed
  have cmpi: "(word_of_nat ?iu :: u32) < word_of_nat ?ik \<longleftrightarrow> ?iu < ?ik" "(word_of_nat ?ik :: u32) = word_of_nat ?iu \<longleftrightarrow> ?ik = ?iu"
    using b by (simp_all add: word_less_nat_alt unat_word_of_nat32 word_of_nat32_inject)
  note si = state_index [OF inv]
  let ?c = "BKEY_GETVTPLPTR (ks_k ks) ! ss_p_mismatch (ks_ss ks)"
  have skip: "searching es bkey_cmp hk key z (Suc i) ks" if "?ik < ?iu \<or> ?ik = ?iu \<and> first_byte (snd (cmpr ?t ?u)) < ?c"
  proof (rule skip_at [OF assms(2) Suc.prems(1) i, where y = y])
    show "\<exists>r. 0 < r \<and> dbe_bkey_search_step ks (pieces [] es ! i @ y) = (r, ks)"
      using that search_step_index [OF inv ok(1) e(2) ok(3) ne _ ok(5) e(4), of y]
        search_step_skip [OF inv ok(1) e(2) ok(2) e(3) ok(3) ne _ e(4) Suc.prems(3), of y]
      unfolding pieces_nth [OF i] by auto
  qed
  have IH: "case skip_loop n m (Suc i) ks' of
      Inl (keys, j, cmp, ks2) \<Rightarrow> found es bkey_cmp hk key z j cmp ks2 \<and> j < length es \<and> keys = offs ! j \<and> i \<le> j
    | Inr (j, ks2) \<Rightarrow> searching es bkey_cmp hk key z j ks2 \<and> i \<le> j"
    if "searching es bkey_cmp hk key z (Suc i) ks'" "ss_l_field (ks_ss ks') \<noteq> 0" for ks'
    using Suc.IH [OF that(1) _ that(2)] Suc.prems(2) by (auto split: sum.splits prod.splits)
  obtain q ks' where step: "dbe_bkey_search_step ks (pieces [] es ! i @ y) = (q, ks')"
    by fastforce
  note s = step_at [OF assms(2) Suc.prems(1) i step]
  consider "?iu < ?ik" | "?ik < ?iu" | "?ik = ?iu" "?c < first_byte (snd (cmpr ?t ?u))"
    | "?ik = ?iu" "?c = first_byte (snd (cmpr ?t ?u))" | "?ik = ?iu" "first_byte (snd (cmpr ?t ?u)) < ?c"
    using less_linear by metis
  then show ?case
  proof cases
    case 1
    then show ?thesis
      using Suc.prems(1) by (simp add: Let_def r(1) ix si cmpi)
  next
    case 2
    then show ?thesis
      using IH [OF skip Suc.prems(3)] by (simp add: Let_def r(1) ix si cmpi)
  next
    case 3
    then show ?thesis
      using Suc.prems(1) by (simp add: Let_def r(1) r4 ix si cmpi)
  next
    case 4
    then show ?thesis
      using s IH [of ks'] i by (auto simp: Let_def r(1) r4 ix si cmpi y step)
  next
    case 5
    then have "\<not> ?c < first_byte (snd (cmpr ?t ?u))" "?c \<noteq> first_byte (snd (cmpr ?t ?u))"
      by auto
    then show ?thesis
      using 5 IH [OF skip Suc.prems(3)] by (simp add: Let_def r(1) r4 ix si cmpi)
  qed
qed auto

section \<open>The search of a node\<close>

lemma searching_init:
  assumes "search_key_ok es hk key"
  shows "searching es bkey_cmp hk key z 0 (dbe_bkey_search_init ks (bkey_bytes hk 0 key @ z) bkey_cmp)"
  using assms search_init_inv by (simp add: searching_def search_key_ok_def prev_key_def)

lemma search_order_found:
  assumes "in_order n es" "search_key_ok es hk key" "es \<noteq> []"
  shows "\<exists>j cmp ks'. bnode_search n ks (bkey_bytes hk 0 key @ z) bkey_cmp =
      (offset_of es j, j, cmp, if j = 0 then 0 else length (pieces [] es ! (j - 1)), ks') \<and> found es bkey_cmp hk key z j cmp ks'"
proof -
  have "\<not> has_mismatcharray n" "n_count n = length es"
    using assms(1) by (simp_all add: in_order_def)
  then show ?thesis
    using key_loop_found [OF assms(1,2) searching_init [OF assms(2)], of "length es" 1 0] assms(3)
    by (simp add: bnode_search_def bnode_keysearchinfo_search_def offset_of_simps)
qed

lemma search_array_found:
  assumes "in_array n es offs" "search_key_ok es hk key" "es \<noteq> []"
  shows "\<exists>keys j cmp klen ks'. bnode_search n ks (bkey_bytes hk 0 key @ z) bkey_cmp = (keys, j, cmp, klen, ks') \<and>
    found es bkey_cmp hk key z j cmp ks' \<and> (j < length es \<longrightarrow> keys = offs ! j) \<and> (0 < j \<longrightarrow> klen = length (pieces [] es ! (j - 1)))"
proof -
  have n: "has_mismatcharray n" "n_count n = length es"
    using assms(1) by (auto simp: in_array_def)
  have e: "0 < length es" "node_ok [] es"
    using assms(2,3) by (auto simp: search_key_ok_def)
  let ?ks = "dbe_bkey_search_init ks (bkey_bytes hk 0 key @ z) bkey_cmp"
  have off: "bnode_getkeyoffset n 0 = offs ! 0"
    using array_reads(1) [OF assms(1) e(1)] by simp
  obtain y where y: "bkey_at n (offs ! 0) = pieces [] es ! 0 @ y"
    using array_reads(2) [OF assms(1) e(1)] by blast
  obtain q ks1 where step: "dbe_bkey_search_step ?ks (pieces [] es ! 0 @ y) = (q, ks1)"
    by fastforce
  note s = step_at [OF assms(2) searching_init [OF assms(2)] e(1) step]
  have plen: "dbe_bkey_getlength (bkey_at n (bnode_getkeyoffset n (int j - 1))) = length (pieces [] es ! (j - 1))"
    if "0 < j" "j \<le> length es" for j
  proof -
    have j: "j - 1 < length es" "int j - 1 = int (j - 1)"
      using that by linarith+
    show ?thesis
      using array_reads(2) [OF assms(1) j(1)] piece_length(1) [OF e(2) j(1)] unfolding j(2) array_reads(1) [OF assms(1) j(1)] by auto
  qed
  show ?thesis
  proof (cases "q \<le> 0")
    case True
    then show ?thesis
      using s(1) step n e(1) by (simp add: bnode_search_def bnode_keysearchinfo_search_def off y)
  next
    case False
    then have srch: "searching es bkey_cmp hk key z 1 ks1"
      using s(2) by simp
    let ?r = "if ss_l_field (ks_ss ks1) \<noteq> 0 then skip_loop n (n_count n - 1) 1 ks1 else Inr (1, ks1)"
    have r: "case ?r of Inl (keys, j, cmp, ks') \<Rightarrow> found es bkey_cmp hk key z j cmp ks' \<and> j < length es \<and> keys = offs ! j \<and> 1 \<le> j
        | Inr (j, ks') \<Rightarrow> searching es bkey_cmp hk key z j ks' \<and> 1 \<le> j"
      using skip_loop_found [OF assms(1,2) srch, of "n_count n - 1"] n(2) e(1) srch by auto
    have eq: "bnode_search n ks (bkey_bytes hk 0 key @ z) bkey_cmp = (case ?r of
        Inl (keys, i, cmp, ks) \<Rightarrow> (keys, i, cmp, dbe_bkey_getlength (bkey_at n (bnode_getkeyoffset n (int i - 1))), ks)
      | Inr (i, ks) \<Rightarrow> if i = n_count n then (n_len n, i, 1, dbe_bkey_getlength (bkey_at n (bnode_getkeyoffset n (int (n_count n) - 1))), ks)
          else array_loop n (n_count n - i) i (dbe_bkey_getlength (bkey_at n (bnode_getkeyoffset n (int i - 1)))) ks)"
      by (simp only: bnode_search_def bnode_keysearchinfo_search_def Let_def off y step prod.case n(1) not_True_eq_False if_False False,
        cases ?r) (simp_all only: sum.case option.case split_beta split: if_split, simp_all)
    show ?thesis
    proof (cases ?r)
      case (Inl a)
      then show ?thesis
        using r plen unfolding eq by (cases a) auto
    next
      case (Inr a)
      then obtain i ks2 where a: "a = (i, ks2)" "searching es bkey_cmp hk key z i ks2" "1 \<le> i"
        using r by (cases a) auto
      then have i: "i \<le> length es"
        by (simp add: searching_def)
      show ?thesis
      proof (cases "i = length es")
        case True
        then have "found es bkey_cmp hk key z i 1 ks2"
          using a(2) by (simp add: searching_def found_def)
        then show ?thesis
          using Inr a True plen [of i] n(2) e(1) unfolding eq by auto
      next
        case False
        then show ?thesis
          using Inr a i plen [of i] n(2) array_loop_found [OF assms(1,2) a(2), of "length es - i" "length (pieces [] es ! (i - 1))"]
          unfolding eq by (auto split: prod.splits)
      qed
    qed
  qed
qed

lemma found_takeWhile:
  assumes "found es bkey_cmp hk key z j cmp ks"
  shows "j = length (takeWhile (below bkey_cmp hk key) es)" "take j es = takeWhile (below bkey_cmp hk key) es"
    "drop j es = dropWhile (below bkey_cmp hk key) es"
proof -
  have "takeWhile (below bkey_cmp hk key) es = take j es"
    using assms by (intro takeWhile_eq_take_P_nth) (auto simp: found_def)
  then show "j = length (takeWhile (below bkey_cmp hk key) es)" "take j es = takeWhile (below bkey_cmp hk key) es"
    "drop j es = dropWhile (below bkey_cmp hk key) es"
    using assms by (auto simp: found_def dropWhile_eq_drop)
qed

lemma found_compress:
  assumes "found es bkey_cmp hk key z j cmp ks" "search_key_ok es hk key" "13 + length (snd hk) \<le> length tk"
  shows "\<exists>r. dbe_bkey_search_compress ks tk = bkey_after (prev_key es j) hk key @ r"
  using assms search_compress_inv [of bkey_cmp hk key z "prev_key es j" ks tk] by (simp add: found_def search_key_ok_def)

end
