(* ===== verification/Bnode_Layout.thy ===== *)
theory Bnode_Layout
  imports Bnode_Search
begin

text \<open>Building the mismatch array and putting the keys in order again: the node keeps its keys.\<close>

section \<open>The switch between the layouts\<close>

lemma setmismatcharray:
  "has_mismatcharray (bnode_info_setmismatcharray env b n) \<longleftrightarrow> b \<and> dbe_bnode_usemismatcharray env"
  "n_p (bnode_info_setmismatcharray env b n) = buf_write BNODE_INFO [n_info (bnode_info_setmismatcharray env b n)] (n_p n)"
  "n_count (bnode_info_setmismatcharray env b n) = n_count n" "n_len (bnode_info_setmismatcharray env b n) = n_len n"
  "n_keysearchinfo_array (bnode_info_setmismatcharray env b n) = n_keysearchinfo_array n"
proof -
  have "(i OR BNODE_MISMATCHARRAY) AND BNODE_MISMATCHARRAY = BNODE_MISMATCHARRAY" "(i AND NOT BNODE_MISMATCHARRAY) AND BNODE_MISMATCHARRAY = 0" for i
    by (auto simp: bit_eq_iff bit_simps)
  moreover have "BNODE_MISMATCHARRAY \<noteq> 0"
    by (simp add: BNODE_MISMATCHARRAY_def)
  ultimately show "has_mismatcharray (bnode_info_setmismatcharray env b n) \<longleftrightarrow> b \<and> dbe_bnode_usemismatcharray env"
    by (simp add: has_mismatcharray_def bnode_info_setmismatcharray_def Let_def)
qed (simp_all add: bnode_info_setmismatcharray_def Let_def)

lemma holds_info:
  "holds p a k \<Longrightarrow> BNODE_KEYS \<le> a \<Longrightarrow> holds (buf_write BNODE_INFO [i] p) a k"
  by (rule holds_write_other) (auto simp: BNODE_KEYS_def BNODE_INFO_def dest: holds_length)

section \<open>Building the array\<close>

lemma buf_write_twice:
  assumes "a + length xs + length ys \<le> length p" "b = a + length xs"
  shows "buf_write b ys (buf_write a xs p) = buf_write a (xs @ ys) p"
  using assms by (simp add: buf_write_def ac_simps)

lemma setinfo_write:
  assumes "a + 4 \<le> length p"
  shows "bnode_setkeysearchinfo a index mismatch offset p =
    buf_write a ([word_of_nat index, mismatch] @ SS_UINT2_STORETODISK (word_of_nat offset)) p"
  unfolding bnode_setkeysearchinfo_def using assms
  by (simp add: buf_write_twice store2_list)

lemma setinfo_holds:
  assumes "a + 4 \<le> length p"
  shows "holds (bnode_setkeysearchinfo a index mismatch offset p) a ([word_of_nat index, mismatch] @ SS_UINT2_STORETODISK (word_of_nat offset))"
    "holds p b k \<Longrightarrow> a + 4 \<le> b \<or> b + length k \<le> a \<Longrightarrow> holds (bnode_setkeysearchinfo a index mismatch offset p) b k"
    "length (bnode_setkeysearchinfo a index mismatch offset p) = length p"
proof -
  let ?e = "[word_of_nat index, mismatch] @ SS_UINT2_STORETODISK (word_of_nat offset)"
  have l: "length ?e = 4"
    by (simp add: store2_list)
  show "holds (bnode_setkeysearchinfo a index mismatch offset p) a ?e"
    "length (bnode_setkeysearchinfo a index mismatch offset p) = length p"
    unfolding setinfo_write [OF assms] using holds_write [of a ?e p] assms by (simp_all only: l buf_write_length)
  show "holds p b k \<Longrightarrow> a + 4 \<le> b \<or> b + length k \<le> a \<Longrightarrow> holds (bnode_setkeysearchinfo a index mismatch offset p) b k"
    unfolding setinfo_write [OF assms] by (rule holds_write_other) (simp_all only: l assms)
qed

lemma keysearchinfo_loop_holds:
  assumes "node_ok [] es" "i + m = length es" "a0 + 4 * length es = length p" "BNODE_KEYS + length (node_bytes [] es) \<le> a0"
    and "holds p BNODE_KEYS (node_bytes [] es)"
  shows "length (keysearchinfo_loop m (a0 + 4 * i) (offset_of es i) p) = length p \<and>
    (\<forall>b k. holds p b k \<and> b + length k \<le> a0 + 4 * i \<longrightarrow> holds (keysearchinfo_loop m (a0 + 4 * i) (offset_of es i) p) b k) \<and>
    (\<forall>j. i \<le> j \<and> j < length es \<longrightarrow> holds (keysearchinfo_loop m (a0 + 4 * i) (offset_of es i) p) (a0 + 4 * j)
      (entry (prev_key es j) (snd (es ! j)) (offset_of es j)))"
  using assms(2,3,5)
proof (induction m arbitrary: i p)
  case (Suc m)
  have i: "i < length es"
    using Suc.prems(1) by simp
  let ?a = "a0 + 4 * i" and ?k = "pieces [] es ! i"
  have a: "?a + 4 \<le> length p"
    using Suc.prems(2) i by simp
  have piece: "\<exists>y. drop (BNODE_KEYS + offset_of es i) q = ?k @ y" if "holds q BNODE_KEYS (node_bytes [] es)" for q
    using holds_piece [OF that i] holds_drop by blast
  obtain y where y: "drop (BNODE_KEYS + offset_of es i) p = ?k @ y"
    using piece [OF Suc.prems(3)] by blast
  note e = node_ok_nth [OF assms(1) i]
  have info: "key_searchinfo (?k @ y) = (min 255 (fst (cmpr (prev_key es i) (snd (es ! i)))), first_byte (snd (cmpr (prev_key es i) (snd (es ! i)))))"
    unfolding pieces_nth [OF i] by (rule searchinfo_after [OF e(2,3) chain_ok_nonempty [OF e(1)] e(4)])
  define q where "q = bnode_setkeysearchinfo ?a (min 255 (fst (cmpr (prev_key es i) (snd (es ! i)))))
    (first_byte (snd (cmpr (prev_key es i) (snd (es ! i))))) (offset_of es i) p"
  have q: "holds q ?a (entry (prev_key es i) (snd (es ! i)) (offset_of es i))" "length q = length p"
    "holds p b k \<Longrightarrow> b + length k \<le> ?a \<Longrightarrow> holds q b k" for b k
    using setinfo_holds [OF a] unfolding q_def entry_def by auto
  have qn: "holds q BNODE_KEYS (node_bytes [] es)"
    using q(3) [OF Suc.prems(3)] assms(4) by simp
  obtain y' where y': "drop (BNODE_KEYS + offset_of es i) q = ?k @ y'"
    using piece [OF qn] by blast
  have off: "offset_of es i + dbe_bkey_getlength (?k @ y') = offset_of es (Suc i)"
    using piece_length(1) [OF assms(1) i] i by (simp add: offset_of_simps)
  have eq: "keysearchinfo_loop (Suc m) ?a (offset_of es i) p = keysearchinfo_loop m (a0 + 4 * Suc i) (offset_of es (Suc i)) q"
    by (simp add: Let_def y info q_def [symmetric] y' off add.assoc add.commute [of 4])
  have IH: "length (keysearchinfo_loop m (a0 + 4 * Suc i) (offset_of es (Suc i)) q) = length q \<and>
    (\<forall>b k. holds q b k \<and> b + length k \<le> a0 + 4 * Suc i \<longrightarrow> holds (keysearchinfo_loop m (a0 + 4 * Suc i) (offset_of es (Suc i)) q) b k) \<and>
    (\<forall>j. Suc i \<le> j \<and> j < length es \<longrightarrow> holds (keysearchinfo_loop m (a0 + 4 * Suc i) (offset_of es (Suc i)) q) (a0 + 4 * j)
      (entry (prev_key es j) (snd (es ! j)) (offset_of es j)))"
    using Suc.prems(1,2) q(2) qn by (intro Suc.IH) auto
  show ?case
    unfolding eq
  proof (intro conjI allI impI)
    show "length (keysearchinfo_loop m (a0 + 4 * Suc i) (offset_of es (Suc i)) q) = length p"
      using IH q(2) by simp
    show "holds (keysearchinfo_loop m (a0 + 4 * Suc i) (offset_of es (Suc i)) q) b k" if "holds p b k \<and> b + length k \<le> a0 + 4 * i" for b k
      using IH q(3) that by force
    show "holds (keysearchinfo_loop m (a0 + 4 * Suc i) (offset_of es (Suc i)) q) (a0 + 4 * j) (entry (prev_key es j) (snd (es ! j)) (offset_of es j))"
      if "i \<le> j \<and> j < length es" for j
      using IH q(1) that by (cases "j = i") (force, auto)
  qed
qed auto

lemma offset_of_mono: "i < j \<Longrightarrow> j \<le> length es \<Longrightarrow> offset_of es i + length (pieces [] es ! i) \<le> offset_of es j"
proof (induction j)
  case (Suc j)
  then show ?case
    by (cases "i = j") (auto simp: offset_of_simps)
qed simp

lemma keysearchinfo_init_has:
  assumes "in_order n es" "node_ok [] es" "BNODE_KEYS + n_len n \<le> length (n_p n)"
  shows "case bnode_keysearchinfo_init env n of (b, n') \<Rightarrow>
    (if dbe_bnode_usemismatcharray env \<and> BNODE_HEADERLEN + n_len n + n_count n * 4 \<le> length (n_p n)
     then b \<and> in_array n' es (map (offset_of es) [0..<length es]) else \<not> b \<and> n' = n) \<and>
    n_len n' = n_len n \<and> n_cpnum n' = n_cpnum n \<and> n_level n' = n_level n \<and> n_bonsaip n' = n_bonsaip n \<and> length (n_p n') = length (n_p n)"
proof (cases "dbe_bnode_usemismatcharray env \<and> BNODE_HEADERLEN + n_len n + n_count n * 4 \<le> length (n_p n)")
  case False
  then show ?thesis
    by (auto simp: bnode_keysearchinfo_init_def fd_blocksize_def)
next
  case True
  have n: "n_count n = length es" "n_len n = length (node_bytes [] es)" "holds (n_p n) BNODE_KEYS (node_bytes [] es)" "length (n_p n) \<le> 65536"
    using assms(1) by (auto simp: in_order_def)
  let ?a = "length (n_p n) - length es * 4"
  have a: "?a + 4 * length es = length (n_p n)" "BNODE_KEYS + length (node_bytes [] es) \<le> ?a"
    using True n(1,2) by (auto simp: BNODE_HEADERLEN_def)
  let ?q = "keysearchinfo_loop (length es) ?a 0 (n_p n)"
  have loop: "length ?q = length (n_p n)" "\<And>b k. holds (n_p n) b k \<Longrightarrow> b + length k \<le> ?a \<Longrightarrow> holds ?q b k"
      "\<And>j. j < length es \<Longrightarrow> holds ?q (?a + 4 * j) (entry (prev_key es j) (snd (es ! j)) (offset_of es j))"
    using keysearchinfo_loop_holds [OF assms(2) _ a n(3), of 0 "length es"] by (auto simp: offset_of_simps)
  have keys: "holds ?q BNODE_KEYS (node_bytes [] es)"
    by (rule loop(2) [OF n(3) a(2)])
  let ?m = "bnode_info_setmismatcharray env True (n\<lparr>n_p := ?q, n_keysearchinfo_array := ?a\<rparr>)"
  have init: "bnode_keysearchinfo_init env n = (True, ?m\<lparr>n_dirty := True\<rparr>)"
    using True n(1) unfolding bnode_keysearchinfo_init_def Let_def by (simp add: fd_blocksize_def mult.commute)
  have p: "n_p ?m = buf_write BNODE_INFO [n_info ?m] ?q"
    by (simp add: setmismatcharray)
  have lp: "length (n_p ?m) = length (n_p n)"
    using a unfolding p by (simp add: loop(1) BNODE_INFO_def BNODE_KEYS_def)
  have "in_array (?m\<lparr>n_dirty := True\<rparr>) es (map (offset_of es) [0..<length es])"
    unfolding in_array_def
  proof (intro conjI allI impI)
    show "has_mismatcharray (?m\<lparr>n_dirty := True\<rparr>)"
      using True setmismatcharray(1) [of env True] by (simp add: has_mismatcharray_def)
    show "apart (pieces [] es) (map (offset_of es) [0..<length es])"
      unfolding apart_def by (auto simp: not_less_iff_gr_or_eq neq_iff intro: offset_of_mono)
    fix i assume i: "i < length es"
    show "map (offset_of es) [0..<length es] ! i + length (pieces [] es ! i) \<le> n_len (?m\<lparr>n_dirty := True\<rparr>)"
      using i offset_of_mono [of i "length es" es] n(2) by (simp add: setmismatcharray offset_of_simps)
    show "holds (n_p (?m\<lparr>n_dirty := True\<rparr>)) (BNODE_KEYS + map (offset_of es) [0..<length es] ! i) (pieces [] es ! i)"
      using i holds_info [OF holds_piece [OF keys i]] by (simp add: p)
    show "holds (n_p (?m\<lparr>n_dirty := True\<rparr>)) (n_keysearchinfo_array (?m\<lparr>n_dirty := True\<rparr>) + 4 * i)
      (entry (prev_key es i) (snd (es ! i)) (map (offset_of es) [0..<length es] ! i))"
      using i holds_info [OF loop(3) [OF i]] a(2) by (simp add: p setmismatcharray(5))
  qed (use n a lp in \<open>simp_all add: setmismatcharray\<close>)
  then show ?thesis
    using True lp unfolding init by (simp add: setmismatcharray) (simp add: bnode_info_setmismatcharray_def Let_def)
qed

end
