(* ===== verification/Bnode_Insert.thy ===== *)
theory Bnode_Insert
  imports Bnode_Layout
begin

text \<open>Putting a node in order, and inserting into it.\<close>

section \<open>Putting a node in order\<close>

text \<open>Keys that lie apart below a bound are together no longer than the bound.\<close>

lemma apart_total:
  assumes "apart ps offs" "\<forall>i<length ps. offs ! i + length (ps ! i) \<le> b"
  shows "length (concat ps) \<le> b"
proof -
  let ?I = "\<lambda>i. {offs ! i..<offs ! i + length (ps ! i)}"
  have "length (concat ps) = (\<Sum>i<length ps. card (?I i))"
    by (simp add: length_concat sum_list_sum_nth atLeast0LessThan)
  also have "\<dots> = card (\<Union>i<length ps. ?I i)"
  proof (rule card_UN_disjoint [symmetric])
    show "\<forall>i\<in>{..<length ps}. \<forall>j\<in>{..<length ps}. i \<noteq> j \<longrightarrow> ?I i \<inter> ?I j = {}"
      using assms(1) unfolding apart_def by fastforce
  qed auto
  also have "\<dots> \<le> card {..<b}"
    using assms(2) by (intro card_mono) fastforce+
  finally show ?thesis
    by simp
qed

lemma reorder_has:
  assumes "in_array n es offs" "node_ok [] es"
  shows "in_order (bnode_reorder env False n) es" "n_len (bnode_reorder env False n) \<le> n_len n"
    "length (n_p (bnode_reorder env False n)) = length (n_p n)"
proof -
  have n: "n_count n = length es" "BNODE_KEYS + n_len n \<le> length (n_p n)" "length (n_p n) \<le> 65536" "apart (pieces [] es) offs"
      "\<forall>i<length es. offs ! i + length (pieces [] es ! i) \<le> n_len n"
    using assms(1) by (auto simp: in_array_def)
  have "(let k = bkey_at n (bnode_getkeyoffset n (int i)) in take (dbe_bkey_getlength k) k) = pieces [] es ! i" if "i < length es" for i
    using array_reads(1,2) [OF assms(1) that] piece_length(2) [OF assms(2) that] by (auto simp: Let_def)
  then have "map (\<lambda>i. let k = bkey_at n (bnode_getkeyoffset n (int i)) in take (dbe_bkey_getlength k) k) [0..<length es] = pieces [] es"
    by (intro nth_equalityI) auto
  then have keys: "reorder_keys n = node_bytes [] es"
    unfolding reorder_keys_def n(1) by (simp add: pieces_concat)
  have len: "length (node_bytes [] es) \<le> n_len n"
    using apart_total [OF n(4)] n(5) by (simp add: pieces_concat)
  have h: "holds (buf_write BNODE_INFO [i] (buf_write BNODE_KEYS (node_bytes [] es) (n_p n))) BNODE_KEYS (node_bytes [] es)" for i
    using n(2) len by (intro holds_info holds_write) simp_all
  have l: "length (buf_write BNODE_INFO [i] (buf_write BNODE_KEYS (node_bytes [] es) (n_p n))) = length (n_p n)" for i
    using n(2) len by (simp add: BNODE_INFO_def BNODE_KEYS_def)
  show "in_order (bnode_reorder env False n) es" "n_len (bnode_reorder env False n) \<le> n_len n"
    "length (n_p (bnode_reorder env False n)) = length (n_p n)"
    using n len h l unfolding bnode_reorder_def Let_def keys
    by (simp_all add: in_order_def setmismatcharray)
qed

section \<open>Storing a key\<close>

lemma put_after:
  assumes "header_ok h" "vtpl_fits u" "u \<noteq> []"
  shows "put_bkey offset (bkey_after t h u @ r) n = n\<lparr>n_p := buf_write (BNODE_KEYS + offset) (bkey_after t h u) (n_p n)\<rparr>"
  unfolding put_bkey_def getlength_after(2) [OF assms] ..

lemma holds_sub: "holds p a k \<Longrightarrow> holds k b l \<Longrightarrow> holds p (a + b) l"
  unfolding holds_def by (metis append.assoc length_append)

lemma holds_move_part:
  assumes "holds p (src + b) k" "b + length k \<le> n" "dst + n \<le> length p" "src + n \<le> length p"
  shows "holds (buf_move dst src n p) (dst + b) k"
proof -
  have "holds (take n (drop src p)) b k"
  proof -
    obtain x y where p: "p = x @ k @ y" "length x = src + b"
      using assms(1) by (auto simp: holds_def)
    then have "take n (drop src p) = drop src x @ k @ take (n - b - length k) y"
      using assms(2) by simp
    then show ?thesis
      using p(2) unfolding holds_def by auto
  qed
  moreover have "holds (buf_move dst src n p) dst (take n (drop src p))"
    using assms(3,4) unfolding buf_move_def by (intro holds_write) simp
  ultimately show ?thesis
    by (rule holds_sub [rotated])
qed

section \<open>The keys with one more\<close>

definition insert_key :: "nat \<Rightarrow> 'a \<Rightarrow> 'a list \<Rightarrow> 'a list" where
  "insert_key j e es = take j es @ e # drop j es"

lemma last_key_take: "j \<le> length es \<Longrightarrow> last_key [] (take j es) = prev_key es j"
  by (cases j) (auto simp: last_key_def prev_key_def take_Suc_conv_app_nth)

lemma insert_key_nth:
  "j \<le> length es \<Longrightarrow> i < j \<Longrightarrow> insert_key j e es ! i = es ! i" "j \<le> length es \<Longrightarrow> insert_key j e es ! j = e"
  "j \<le> length es \<Longrightarrow> j < i \<Longrightarrow> insert_key j e es ! i = es ! (i - 1)" "j \<le> length es \<Longrightarrow> length (insert_key j e es) = Suc (length es)"
  by (auto simp: insert_key_def nth_append min_def dest!: less_imp_Suc_add)

lemma insert_key_prev:
  assumes "j \<le> length es"
  shows "i \<le> j \<Longrightarrow> prev_key (insert_key j e es) i = prev_key es i" "prev_key (insert_key j e es) (Suc j) = snd e"
    "Suc j < i \<Longrightarrow> prev_key (insert_key j e es) i = prev_key es (i - 1)"
  using assms insert_key_nth(1,3) [OF assms, of "i - 1" e] insert_key_nth(2) [OF assms, of e] by (auto simp: prev_key_def)

lemma insert_key_pieces:
  assumes "j \<le> length es"
  shows "i < j \<Longrightarrow> pieces [] (insert_key j e es) ! i = pieces [] es ! i"
    "pieces [] (insert_key j e es) ! j = bkey_after (prev_key es j) (fst e) (snd e)"
    "j < length es \<Longrightarrow> pieces [] (insert_key j e es) ! Suc j = bkey_after (snd e) (fst (es ! j)) (snd (es ! j))"
    "Suc j < i \<Longrightarrow> i \<le> length es \<Longrightarrow> pieces [] (insert_key j e es) ! i = pieces [] es ! (i - 1)"
  using assms by (auto simp: pieces_nth insert_key_nth insert_key_prev)

text \<open>What a key must be to go to its place.\<close>

definition fits_at :: "nat \<Rightarrow> (u8 \<times> u8 list) \<times> u8 list list \<Rightarrow> ((u8 \<times> u8 list) \<times> u8 list list) list \<Rightarrow> bool" where
  "fits_at j e es \<longleftrightarrow> j \<le> length es \<and> header_ok (fst e) \<and> vtpl_fits (snd e) \<and> length (fields_bytes (snd e)) < 65536 \<and>
    chain_ok (prev_key es j) (snd e) \<and> (j < length es \<longrightarrow> chain_ok (snd e) (snd (es ! j))) \<and> node_ok [] es"

lemma fits_node_ok:
  assumes "fits_at j e es"
  shows "node_ok [] (insert_key j e es)"
proof -
  have j: "j \<le> length es" and ok: "node_ok [] (take j es @ drop j es)"
    using assms by (simp_all add: fits_at_def)
  have "node_ok (snd e) (drop j es)"
  proof (cases "j < length es")
    case True
    then have "drop j es = es ! j # drop (Suc j) es"
      by (simp add: Cons_nth_drop_Suc)
    then show ?thesis
      using ok assms True unfolding node_ok_append by (cases "es ! j") (auto simp: fits_at_def)
  qed simp
  then show ?thesis
    using ok assms last_key_take [OF j] unfolding insert_key_def node_ok_append by (cases e) (auto simp: fits_at_def)
qed

text \<open>The key that the node keeps at a position, and what it is made of behind the new key.\<close>

lemma fits_next:
  assumes "fits_at j e es" "j < length es"
  shows "header_ok (fst (es ! j))" "vtpl_fits (snd (es ! j))" "snd (es ! j) \<noteq> []" "length (fields_bytes (snd (es ! j))) < 65536"
    "chain_ok (prev_key es j) (snd e)" "chain_ok (snd e) (snd (es ! j))"
  using assms node_ok_nth [of es j] chain_ok_nonempty [of "snd e" "snd (es ! j)"] by (auto simp: fits_at_def)

lemma recompress_at:
  assumes "fits_at j e es" "j < length es" "25 \<le> length buf"
  shows "\<exists>r. dbe_bkey_recompress_insert buf (bkey_after (prev_key es j) (fst e) (snd e) @ x) (pieces [] es ! j @ y) =
    bkey_after (snd e) (fst (es ! j)) (snd (es ! j)) @ r"
proof -
  note f = fits_next [OF assms(1,2)]
  have "length (snd (fst (es ! j))) \<le> 12"
  proof -
    have "unat (fst (fst (es ! j)) AND (BKEY_1LONGUSED OR BKEY_2LONGUSED)) \<le> 3"
      using word_and_le1 [of "fst (fst (es ! j))" "BKEY_1LONGUSED OR BKEY_2LONGUSED"] by (simp add: word_le_nat_alt bkey_flags)
    then show ?thesis
      using f(1) by (simp add: header_ok_def)
  qed
  then show ?thesis
    using recompress_after [OF _ f(1) _ f(2,5,6,4), where hp = "fst e" and tk = buf and x = x and y = y] assms
    unfolding pieces_nth [OF assms(2)] by (simp add: fits_at_def)
qed

text \<open>The first layout.\<close>

lemma insert_order:
  assumes "in_order n es" "fits_at j e es" "j < length es"
    and "NK = bkey_after (prev_key es j) (fst e) (snd e)" "NN = bkey_after (snd e) (fst (es ! j)) (snd (es ! j))"
    and "BNODE_KEYS + n_len n + length NK \<le> length (n_p n)" "p = n_p n" "off = offset_of es j" "K = pieces [] es ! j"
  shows "holds (buf_write (BNODE_KEYS + off) NK (buf_write (BNODE_KEYS + (off + length NK)) NN
      (buf_move (BNODE_KEYS + off + (length NK + length NN)) (BNODE_KEYS + off + length K) (n_len n - off - length K) p)))
      BNODE_KEYS (node_bytes [] (insert_key j e es))"
    and "n_len n + (length NK + length NN) - length K = length (node_bytes [] (insert_key j e es))"
    and "length (buf_write (BNODE_KEYS + off) NK (buf_write (BNODE_KEYS + (off + length NK)) NN
      (buf_move (BNODE_KEYS + off + (length NK + length NN)) (BNODE_KEYS + off + length K) (n_len n - off - length K) p))) = length p"
proof -
  let ?A = "concat (take j (pieces [] es))" and ?B = "concat (drop (Suc j) (pieces [] es))"
  have pcs: "pieces [] es = take j (pieces [] es) @ K # drop (Suc j) (pieces [] es)"
    using assms(3,9) by (simp add: Cons_nth_drop_Suc)
  have bytes: "node_bytes [] es = ?A @ K @ ?B"
    using arg_cong [OF pcs, of concat] by (simp add: pieces_concat)
  have new: "pieces [] (insert_key j e es) = take j (pieces [] es) @ NK # NN # drop (Suc j) (pieces [] es)"
  proof (rule nth_equalityI)
    show "length (pieces [] (insert_key j e es)) = length (take j (pieces [] es) @ NK # NN # drop (Suc j) (pieces [] es))"
      using assms(3) by (simp add: insert_key_nth)
    fix i assume "i < length (pieces [] (insert_key j e es))"
    then have i: "i \<le> length es"
      using assms(3) by (simp add: insert_key_nth)
    note q = insert_key_pieces [OF less_imp_le [OF assms(3)], where e = e]
    consider "i < j" | "i = j" | "i = Suc j" | "Suc j < i"
      by linarith
    then show "pieces [] (insert_key j e es) ! i = (take j (pieces [] es) @ NK # NN # drop (Suc j) (pieces [] es)) ! i"
    proof cases
      case 4
      then obtain m where m: "i = Suc (Suc j + m)"
        using less_imp_Suc_add by blast
      show ?thesis
        using 4 i assms(3) q(4) [of i] unfolding m by (simp add: nth_append)
    qed (use assms(3-5) q i in \<open>simp_all add: nth_append\<close>)
  qed
  have newb: "node_bytes [] (insert_key j e es) = ?A @ NK @ NN @ ?B"
    using arg_cong [OF new, of concat] by (simp add: pieces_concat)
  have n: "n_len n = length (?A @ K @ ?B)" "holds p BNODE_KEYS (?A @ K @ ?B)" "off = length ?A"
    using assms(1,7,8) bytes by (simp_all add: in_order_def offset_of_def)
  have short: "length NN \<le> length K"
    using recompress_shorter [OF fits_next(5,6) [OF assms(2,3)]] assms(3,5,9) by (simp add: pieces_nth)
  show "n_len n + (length NK + length NN) - length K = length (node_bytes [] (insert_key j e es))"
    using n(1) by (simp add: newb)
  have room: "BNODE_KEYS + length (?A @ NK @ K @ ?B) \<le> length p"
    using assms(6,7) n(1) by simp
  have h: "holds p BNODE_KEYS ?A" "holds p (BNODE_KEYS + off + length K) ?B"
    using n(2) unfolding holds_append n(3) by (simp_all add: add.assoc)
  let ?dst = "BNODE_KEYS + off + (length NK + length NN)" and ?src = "BNODE_KEYS + off + length K"
  have lb: "n_len n - off - length K = length ?B"
    using n(1,3) by simp
  let ?q = "buf_move ?dst ?src (length ?B) p"
  have bounds: "?dst + length ?B \<le> length p" "?src + length ?B \<le> length p"
    using room short n(3) by simp_all
  have q: "holds ?q BNODE_KEYS ?A" "holds ?q ?dst ?B" "length ?q = length p"
    using holds_move_other [OF h(1), of ?dst "length ?B" ?src] holds_move [OF h(2), of ?dst] bounds n(3) by simp_all
  let ?q2 = "buf_write (BNODE_KEYS + (off + length NK)) NN ?q"
  have q2: "holds ?q2 BNODE_KEYS ?A" "holds ?q2 ?dst ?B" "holds ?q2 (BNODE_KEYS + (off + length NK)) NN" "length ?q2 = length p"
    using holds_write_other [OF q(1), of "BNODE_KEYS + (off + length NK)" NN] holds_write_other [OF q(2), of "BNODE_KEYS + (off + length NK)" NN]
      holds_write [of "BNODE_KEYS + (off + length NK)" NN ?q] q(3) bounds n(3) by simp_all
  let ?q3 = "buf_write (BNODE_KEYS + off) NK ?q2"
  have q3: "holds ?q3 BNODE_KEYS ?A" "holds ?q3 ?dst ?B" "holds ?q3 (BNODE_KEYS + (off + length NK)) NN" "holds ?q3 (BNODE_KEYS + off) NK"
      "length ?q3 = length p"
    using holds_write_other [OF q2(1), of "BNODE_KEYS + off" NK] holds_write_other [OF q2(2), of "BNODE_KEYS + off" NK]
      holds_write_other [OF q2(3), of "BNODE_KEYS + off" NK] holds_write [of "BNODE_KEYS + off" NK ?q2] q2(4) bounds n(3) by simp_all
  show "holds (buf_write (BNODE_KEYS + off) NK (buf_write (BNODE_KEYS + (off + length NK)) NN
      (buf_move ?dst ?src (n_len n - off - length K) p))) BNODE_KEYS (node_bytes [] (insert_key j e es))"
    "length (buf_write (BNODE_KEYS + off) NK (buf_write (BNODE_KEYS + (off + length NK)) NN
      (buf_move ?dst ?src (n_len n - off - length K) p))) = length p"
    using q3 unfolding lb newb holds_append by (simp_all add: n(3) add.assoc)
qed

text \<open>The layout with the array: the new key goes behind the others, and the key behind it stays where it is.\<close>

lemma insert_array:
  assumes "in_array n es offs" "fits_at j e es" "j < length es"
    and "NK = bkey_after (prev_key es j) (fst e) (snd e)" "NN = bkey_after (snd e) (fst (es ! j)) (snd (es ! j))"
    and "BNODE_KEYS + n_len n + length NK + 4 * (length es + 1) \<le> length (n_p n)"
    and "a = n_keysearchinfo_array n - 4" "p1 = buf_write (BNODE_KEYS + offs ! j) NN (n_p n)" "p2 = buf_move a (a + 4) (j * 4) p1"
    and "p3 = bnode_setkeysearchinfo (a + j * 4) (min 255 (fst (cmpr (prev_key es j) (snd e)))) (first_byte (snd (cmpr (prev_key es j) (snd e)))) (n_len n) p2"
    and "p4 = bnode_setkeysearchinfo (a + (j + 1) * 4) (min 255 (fst (cmpr (snd e) (snd (es ! j))))) (first_byte (snd (cmpr (snd e) (snd (es ! j))))) (offs ! j) p3"
    and "has_mismatcharray m" "n_count m = Suc (length es)" "n_len m = n_len n + length NK" "n_keysearchinfo_array m = a"
    and "n_p m = buf_write (BNODE_KEYS + n_len n) NK p4"
  shows "in_array m (insert_key j e es) (insert_key j (n_len n) offs)"
proof -
  let ?p = "n_p n" and ?K = "\<lambda>i. pieces [] es ! i" and ?arr = "n_keysearchinfo_array n" and ?p5 = "buf_write (BNODE_KEYS + n_len n) NK p4"
  have n: "length offs = length es" "?arr + 4 * length es = length ?p" "BNODE_KEYS + n_len n \<le> ?arr" "length ?p \<le> 65536"
      "apart (pieces [] es) offs"
      "\<And>i. i < length es \<Longrightarrow> offs ! i + length (?K i) \<le> n_len n" "\<And>i. i < length es \<Longrightarrow> holds ?p (BNODE_KEYS + offs ! i) (?K i)"
      "\<And>i. i < length es \<Longrightarrow> holds ?p (?arr + 4 * i) (entry (prev_key es i) (snd (es ! i)) (offs ! i))"
    using assms(1) by (auto simp: in_array_def)
  have a: "?arr = a + 4" "BNODE_KEYS + n_len n + length NK \<le> a"
    using assms(6,7) n(2) by simp_all
  have short: "length NN \<le> length (?K j)"
    using recompress_shorter [OF fits_next(5,6) [OF assms(2,3)]] assms(3,5) by (simp add: pieces_nth)
  have jn: "offs ! j + length NN \<le> n_len n"
    using n(6) [OF assms(3)] short by simp
  have l: "length p1 = length ?p" "length p2 = length ?p" "length p3 = length ?p" "length p4 = length ?p"
    using assms(3,8-11) a n(2) jn by (simp_all add: setinfo_holds)
  have f1: "holds p1 b k" if "holds ?p b k" "b + length k \<le> BNODE_KEYS + offs ! j \<or> BNODE_KEYS + offs ! j + length NN \<le> b" for b k
    unfolding assms(8) using that jn a n(2) by (intro holds_write_other) auto
  have f2: "holds p2 b k" if "holds p1 b k" "b + length k \<le> a \<or> a + 4 * j \<le> b" for b k
    unfolding assms(9) using that a n(2) l(1) assms(3) by (intro holds_move_other) auto
  have b34: "a + j * 4 + 4 \<le> length p2" "a + (j + 1) * 4 + 4 \<le> length p3"
    using a n(2) l assms(3) by simp_all
  have f34: "holds p4 b k" if "holds p2 b k" "b + length k \<le> a + 4 * j \<or> a + 4 * j + 8 \<le> b" for b k
    unfolding assms(10,11) using that b34 by (intro setinfo_holds(2)) (auto simp: assms(10))
  have f5: "holds ?p5 b k" if "holds p4 b k" "b + length k \<le> BNODE_KEYS + n_len n \<or> BNODE_KEYS + n_len n + length NK \<le> b" for b k
    using that a n(2) l(4) by (intro holds_write_other) auto
  have key: "holds ?p5 (BNODE_KEYS + offs ! i) (?K i)" if "i < length es" "i \<noteq> j" for i
  proof (intro f5 f34 f2 f1)
    have "offs ! i + length (?K i) \<le> offs ! j \<or> offs ! j + length (?K j) \<le> offs ! i"
      using n(5) that assms(3) by (simp add: apart_def)
    then show "BNODE_KEYS + offs ! i + length (?K i) \<le> BNODE_KEYS + offs ! j \<or> BNODE_KEYS + offs ! j + length NN \<le> BNODE_KEYS + offs ! i"
      using short by linarith
  qed (use n(6,7) [OF that(1)] a in auto)
  have nn: "holds ?p5 (BNODE_KEYS + offs ! j) NN"
  proof (intro f5 f34 f2)
    show "holds p1 (BNODE_KEYS + offs ! j) NN"
      unfolding assms(8) using jn a n(2) by (intro holds_write) simp
  qed (use jn a in auto)
  have nk: "holds ?p5 (BNODE_KEYS + n_len n) NK"
    using a n(2) l(4) by (intro holds_write) simp
  have before: "holds ?p5 (a + 4 * i) (entry (prev_key es i) (snd (es ! i)) (offs ! i))" if "i < j" for i
  proof (intro f5 f34)
    have "holds p1 ((a + 4) + 4 * i) (entry (prev_key es i) (snd (es ! i)) (offs ! i))"
      using n(8) [of i] that assms(3) a jn by (intro f1) simp_all
    from holds_move_part [OF this, of "j * 4" a]
    show "holds p2 (a + 4 * i) (entry (prev_key es i) (snd (es ! i)) (offs ! i))"
      unfolding assms(9) using that a n(2) l(1) assms(3) by simp
  qed (use that a in auto)
  have behind: "holds ?p5 (a + 4 * Suc i) (entry (prev_key es i) (snd (es ! i)) (offs ! i))" if "j < i" "i < length es" for i
  proof (intro f5 f34 f2 f1)
    show "holds ?p (a + 4 * Suc i) (entry (prev_key es i) (snd (es ! i)) (offs ! i))"
      using n(8) [OF that(2)] by (simp add: a(1) add.assoc)
  qed (use that a jn in auto)
  have at: "holds ?p5 (a + 4 * j) (entry (prev_key es j) (snd e) (n_len n))"
  proof (intro f5)
    have "holds p3 (a + j * 4) (entry (prev_key es j) (snd e) (n_len n))"
      unfolding assms(10) entry_def by (rule setinfo_holds(1) [OF b34(1)])
    then show "holds p4 (a + 4 * j) (entry (prev_key es j) (snd e) (n_len n))"
      using setinfo_holds(2) [OF b34(2)] unfolding assms(11) by (simp add: mult.commute)
  qed (use a in auto)
  have nxt: "holds ?p5 (a + 4 * Suc j) (entry (snd e) (snd (es ! j)) (offs ! j))"
  proof (intro f5)
    show "holds p4 (a + 4 * Suc j) (entry (snd e) (snd (es ! j)) (offs ! j))"
      using setinfo_holds(1) [OF b34(2)] unfolding assms(11) entry_def by (simp add: mult.commute)
  qed (use a in auto)
  have j: "j \<le> length es" "j \<le> length offs"
    using assms(3) n(1) by simp_all
  note q = insert_key_pieces [OF j(1), where e = e] and ek = insert_key_nth [OF j(1), where e = e]
    and ok = insert_key_nth [OF j(2), where e = "n_len n"] and pk = insert_key_prev [OF j(1), where e = e]
  show ?thesis
    unfolding in_array_def
  proof (intro conjI allI impI)
    show "n_keysearchinfo_array m + 4 * length (insert_key j e es) = length (n_p m)" "BNODE_KEYS + n_len m \<le> n_keysearchinfo_array m"
      "length (n_p m) \<le> 65536"
      using assms(14-16) a n(2,4) l(4) ek(4) by simp_all
    fix i assume "i < length (insert_key j e es)"
    then have i: "i \<le> length es"
      by (simp add: ek(4))
    consider "i < j" | "i = j" | "i = Suc j" | m where "i = Suc m" "j < m" "m < length es"
      using i by (metis Suc_lessE less_antisym less_eq_Suc_le linorder_neqE_nat not_less_eq)
    note c = this
    show "insert_key j (n_len n) offs ! i + length (pieces [] (insert_key j e es) ! i) \<le> n_len m"
      using c n(6) [of i] n(6) [of "i - 1"] jn assms(3-5,14) q ok by cases (auto simp: n(1))
    show "holds (n_p m) (BNODE_KEYS + insert_key j (n_len n) offs ! i) (pieces [] (insert_key j e es) ! i)"
      using c key [of i] key [of "i - 1"] nn nk assms(3-5,16) q ok by cases auto
    show "holds (n_p m) (n_keysearchinfo_array m + 4 * i)
      (entry (prev_key (insert_key j e es) i) (snd (insert_key j e es ! i)) (insert_key j (n_len n) offs ! i))"
      using c before [of i] behind [of "i - 1"] at nxt assms(15,16) ek ok pk by cases auto
  next
    have old: "\<exists>k<length es. insert_key j (n_len n) offs ! i = offs ! k \<and> length (pieces [] (insert_key j e es) ! i) \<le> length (?K k) \<and>
        k = (if i < j then i else i - 1)"
      if "i \<le> length es" "i \<noteq> j" for i
      using that assms(3-5) short q(1) [of i] q(3) q(4) [of i] ok by (cases "i < j"; cases "i = Suc j") auto
    show "apart (pieces [] (insert_key j e es)) (insert_key j (n_len n) offs)"
      unfolding apart_def
    proof (intro allI impI)
      fix i k
      assume "i < length (pieces [] (insert_key j e es))" "k < length (pieces [] (insert_key j e es))" and ne: "i \<noteq> k"
      then have ik: "i \<le> length es" "k \<le> length es"
        by (simp_all add: ek(4))
      let ?R = "\<lambda>i k. insert_key j (n_len n) offs ! i + length (pieces [] (insert_key j e es) ! i) \<le> insert_key j (n_len n) offs ! k"
      have last: "?R i j" if "i \<le> length es" "i \<noteq> j" for i
        using old [OF that] n(6) ok(2) by fastforce
      show "?R i k \<or> ?R k i"
      proof (cases "i = j \<or> k = j")
        case True
        then show ?thesis
          using last ik ne by blast
      next
        case False
        then obtain i' k' where o: "i' < length es" "insert_key j (n_len n) offs ! i = offs ! i'" "length (pieces [] (insert_key j e es) ! i) \<le> length (?K i')"
            "i' = (if i < j then i else i - 1)"
            "k' < length es" "insert_key j (n_len n) offs ! k = offs ! k'" "length (pieces [] (insert_key j e es) ! k) \<le> length (?K k')"
            "k' = (if k < j then k else k - 1)"
          using old [OF ik(1)] old [OF ik(2)] by blast
        then have "i' \<noteq> k'"
          using ne False by (auto split: if_splits)
        then have "offs ! i' + length (?K i') \<le> offs ! k' \<or> offs ! k' + length (?K k') \<le> offs ! i'"
          using n(5) o(1,5) by (simp add: apart_def)
        then show ?thesis
          using o(2,3,6,7) by linarith
      qed
    qed
  qed (use assms(12,13) ek(4) ok(4) n(1) in simp_all)
qed

lemma insert_key_end: "insert_key (length es) e es = es @ [e]"
  by (simp add: insert_key_def)

lemma insert_array_last:
  assumes "in_array n es offs" "fits_at (length es) e es"
    and "NK = bkey_after (prev_key es (length es)) (fst e) (snd e)"
    and "BNODE_KEYS + n_len n + length NK + 4 * (length es + 1) \<le> length (n_p n)"
    and "a = n_keysearchinfo_array n - 4" "p2 = buf_move a (a + 4) (length es * 4) (n_p n)"
    and "p3 = bnode_setkeysearchinfo (a + length es * 4) (min 255 (fst (cmpr (prev_key es (length es)) (snd e))))
      (first_byte (snd (cmpr (prev_key es (length es)) (snd e)))) (n_len n) p2"
    and "has_mismatcharray m" "n_count m = Suc (length es)" "n_len m = n_len n + length NK" "n_keysearchinfo_array m = a"
    and "n_p m = buf_write (BNODE_KEYS + n_len n) NK p3"
  shows "in_array m (es @ [e]) (offs @ [n_len n])"
proof -
  let ?p = "n_p n" and ?K = "\<lambda>i. pieces [] es ! i" and ?arr = "n_keysearchinfo_array n" and ?p5 = "buf_write (BNODE_KEYS + n_len n) NK p3"
  have n: "length offs = length es" "?arr + 4 * length es = length ?p" "BNODE_KEYS + n_len n \<le> ?arr" "length ?p \<le> 65536"
      "apart (pieces [] es) offs"
      "\<And>i. i < length es \<Longrightarrow> offs ! i + length (?K i) \<le> n_len n" "\<And>i. i < length es \<Longrightarrow> holds ?p (BNODE_KEYS + offs ! i) (?K i)"
      "\<And>i. i < length es \<Longrightarrow> holds ?p (?arr + 4 * i) (entry (prev_key es i) (snd (es ! i)) (offs ! i))"
    using assms(1) by (auto simp: in_array_def)
  have a: "?arr = a + 4" "BNODE_KEYS + n_len n + length NK \<le> a"
    using assms(4,5) n(2) by simp_all
  have l: "length p2 = length ?p" "length p3 = length ?p"
    using assms(6,7) a n(2) by (simp_all add: setinfo_holds)
  have b3: "a + length es * 4 + 4 \<le> length p2"
    using a n(2) l by simp
  have f2: "holds p2 b k" if "holds ?p b k" "b + length k \<le> a" for b k
    unfolding assms(6) using that a n(2) by (intro holds_move_other) auto
  have f3: "holds p3 b k" if "holds p2 b k" "b + length k \<le> a + 4 * length es" for b k
    unfolding assms(7) using that b3 by (intro setinfo_holds(2)) auto
  have f5: "holds ?p5 b k" if "holds p3 b k" "b + length k \<le> BNODE_KEYS + n_len n \<or> BNODE_KEYS + n_len n + length NK \<le> b" for b k
    using that a n(2) l(2) by (intro holds_write_other) auto
  have key: "holds ?p5 (BNODE_KEYS + offs ! i) (?K i)" if "i < length es" for i
    using n(6,7) [OF that] a by (intro f5 f3 f2) auto
  have nk: "holds ?p5 (BNODE_KEYS + n_len n) NK"
    using a n(2) l(2) by (intro holds_write) simp
  have before: "holds ?p5 (a + 4 * i) (entry (prev_key es i) (snd (es ! i)) (offs ! i))" if "i < length es" for i
  proof (intro f5 f3)
    have "holds ?p ((a + 4) + 4 * i) (entry (prev_key es i) (snd (es ! i)) (offs ! i))"
      using n(8) [OF that] a by simp
    from holds_move_part [OF this, of "length es * 4" a]
    show "holds p2 (a + 4 * i) (entry (prev_key es i) (snd (es ! i)) (offs ! i))"
      unfolding assms(6) using that a n(2) by simp
  qed (use that a in auto)
  have at: "holds ?p5 (a + 4 * length es) (entry (prev_key es (length es)) (snd e) (n_len n))"
  proof (intro f5)
    have "holds p3 (a + length es * 4) (entry (prev_key es (length es)) (snd e) (n_len n))"
      unfolding assms(7) entry_def by (rule setinfo_holds(1) [OF b3])
    then show "holds p3 (a + 4 * length es) (entry (prev_key es (length es)) (snd e) (n_len n))"
      by (simp add: mult.commute)
  qed (use a in auto)
  have pcs: "pieces [] (es @ [e]) = pieces [] es @ [NK]"
    using last_key_take [of "length es" es] assms(3) by (cases e) (simp add: pieces_append)
  have prev: "prev_key (es @ [e]) i = prev_key es i" if "i \<le> length es" for i
    using that by (auto simp: prev_key_def nth_append)
  show ?thesis
    unfolding in_array_def pcs
  proof (intro conjI allI impI)
    show "n_keysearchinfo_array m + 4 * length (es @ [e]) = length (n_p m)" "BNODE_KEYS + n_len m \<le> n_keysearchinfo_array m"
      "length (n_p m) \<le> 65536"
      using assms(10-12) a n(2,4) l(2) by simp_all
    fix i assume i: "i < length (es @ [e])"
    show "(offs @ [n_len n]) ! i + length ((pieces [] es @ [NK]) ! i) \<le> n_len m"
      using i n(1) n(6) [of i] assms(10) by (auto simp: nth_append less_Suc_eq)
    show "holds (n_p m) (BNODE_KEYS + (offs @ [n_len n]) ! i) ((pieces [] es @ [NK]) ! i)"
      using i n(1) key [of i] nk assms(12) by (auto simp: nth_append less_Suc_eq)
    show "holds (n_p m) (n_keysearchinfo_array m + 4 * i) (entry (prev_key (es @ [e]) i) (snd ((es @ [e]) ! i)) ((offs @ [n_len n]) ! i))"
      using i n(1) before [of i] at assms(11,12) prev [of i] by (auto simp: nth_append less_Suc_eq)
  next
    show "apart (pieces [] es @ [NK]) (offs @ [n_len n])"
      using n(1,5,6) unfolding apart_def by (auto simp: nth_append less_Suc_eq)
  qed (use assms(8,9) n(1) in simp_all)
qed

lemma insert_order_last:
  assumes "in_order n es" "fits_at (length es) e es" "NK = bkey_after (prev_key es (length es)) (fst e) (snd e)"
    and "BNODE_KEYS + n_len n + length NK \<le> length (n_p n)"
  shows "holds (buf_write (BNODE_KEYS + n_len n) NK (n_p n)) BNODE_KEYS (node_bytes [] (es @ [e]))"
    "n_len n + length NK = length (node_bytes [] (es @ [e]))"
proof -
  have b: "node_bytes [] (es @ [e]) = node_bytes [] es @ NK"
    using last_key_take [of "length es" es] assms(3) pieces_append [of "[]" es "[e]"]
    by (cases e) (simp flip: pieces_concat)
  have n: "n_len n = length (node_bytes [] es)" "holds (n_p n) BNODE_KEYS (node_bytes [] es)"
    using assms(1) by (simp_all add: in_order_def)
  show "holds (buf_write (BNODE_KEYS + n_len n) NK (n_p n)) BNODE_KEYS (node_bytes [] (es @ [e]))"
    unfolding b holds_append using n assms(4) holds_write_other [OF n(2)] holds_write [of "BNODE_KEYS + n_len n" NK "n_p n"] by simp
  show "n_len n + length NK = length (node_bytes [] (es @ [e]))"
    by (simp add: b n(1))
qed

section \<open>The insertion of a key that fits\<close>

lemma header_length: "header_ok h \<Longrightarrow> length (snd h) \<le> 12"
proof -
  assume h: "header_ok h"
  have "unat (fst h AND (BKEY_1LONGUSED OR BKEY_2LONGUSED)) \<le> 3"
    using word_and_le1 [of "fst h" "BKEY_1LONGUSED OR BKEY_2LONGUSED"] by (simp add: word_le_nat_alt bkey_flags)
  then show ?thesis
    using h by (simp add: header_ok_def)
qed

lemma insert_fits_has:
  assumes "node_has n es" "fits_at j e es" "nk = bkey_after (prev_key es j) (fst e) (snd e) @ r"
    and "\<not> BNODE_SPLITNEEDED n (dbe_bkey_getlength nk)" "25 \<le> length (bkeybuf env)"
    and "in_order n es \<longrightarrow> keys = offset_of es j" "es \<noteq> []"
  shows "node_has (snd (bnode_insert_fits env n nk keys j only)) (insert_key j e es)"
proof -
  let ?NK = "bkey_after (prev_key es j) (fst e) (snd e)" and ?m = "snd (bnode_insert_fits env n nk keys j only)"
  have e: "header_ok (fst e)" "vtpl_fits (snd e)" "snd e \<noteq> []" "length (fields_bytes (snd e)) < 65536" "j \<le> length es" "node_ok [] es"
    using assms(2) chain_ok_nonempty by (auto simp: fits_at_def)
  have nk: "dbe_bkey_getlength nk = length ?NK" "take (length ?NK) nk = ?NK"
    "key_searchinfo nk = (min 255 (fst (cmpr (prev_key es j) (snd e))), first_byte (snd (cmpr (prev_key es j) (snd e))))"
    unfolding assms(3) by (simp_all add: getlength_after [OF e(1-3)] searchinfo_after [OF e(1-4)])
  have count: "n_count n = length es"
    using assms(1) by (auto simp: node_has_def in_order_def in_array_def)
  have room: "BNODE_KEYS + n_len n + length ?NK + 4 * (length es + 1) \<le> length (n_p n)"
    using assms(4) count by (simp add: BNODE_SPLITNEEDED_def BNODE_HEADERLEN_def fd_blocksize_def nk(1))
  consider offs where "in_array n es offs" "j < length es" | offs where "in_array n es offs" "j = length es"
    | "in_order n es" "j < length es" | "in_order n es" "j = length es"
    using assms(1) e(5) unfolding node_has_def by (metis le_neq_implies_less)
  then show ?thesis
  proof cases
    case (1 offs)
    let ?NN = "bkey_after (snd e) (fst (es ! j)) (snd (es ! j))"
    note f = fits_next [OF assms(2) 1(2)]
    obtain y where y: "bkey_at n (offs ! j) = pieces [] es ! j @ y"
      using array_reads(2) [OF 1] by blast
    obtain r' where r': "dbe_bkey_recompress_insert (bkeybuf env) nk (pieces [] es ! j @ y) = ?NN @ r'"
      using recompress_at [OF assms(2) 1(2) assms(5)] unfolding assms(3) by blast
    have nn: "take (dbe_bkey_getlength (?NN @ r')) (?NN @ r') = ?NN" "key_searchinfo (?NN @ r') =
        (min 255 (fst (cmpr (snd e) (snd (es ! j)))), first_byte (snd (cmpr (snd e) (snd (es ! j)))))"
      using getlength_after(2) [OF f(1-3)] searchinfo_after [OF f(1-4)] by blast+
    have h: "has_mismatcharray n"
      using 1(1) by (simp add: in_array_def)
    have "in_array ?m (insert_key j e es) (insert_key j (n_len n) offs)"
      by (rule insert_array [OF 1(1) assms(2) 1(2) refl refl room refl refl refl refl refl])
        (use h 1(2) count nk nn in \<open>simp_all add: bnode_insert_fits_def bnode_insert_before_def Let_def array_reads(1) [OF 1] y r'
          put_bkey_def has_mismatcharray_def\<close>)
    then show ?thesis
      by (auto simp: node_has_def)
  next
    case (2 offs)
    have h: "has_mismatcharray n"
      using 2(1) by (simp add: in_array_def)
    have "in_array ?m (es @ [e]) (offs @ [n_len n])"
      by (rule insert_array_last [OF 2(1) assms(2) [unfolded 2(2)] refl room [unfolded 2(2)] refl refl refl])
        (use h 2(2) count nk in \<open>simp_all add: bnode_insert_fits_def bnode_insert_last_def Let_def put_bkey_def has_mismatcharray_def\<close>)
    then show ?thesis
      using 2(2) by (auto simp: node_has_def insert_key_end)
  next
    case 3
    let ?NN = "bkey_after (snd e) (fst (es ! j)) (snd (es ! j))"
    note f = fits_next [OF assms(2) 3(2)]
    obtain y where y: "bkey_at n (offset_of es j) = pieces [] es ! j @ y"
      using order_reads [OF 3] by blast
    obtain r' where r': "dbe_bkey_recompress_insert (bkeybuf env) nk (pieces [] es ! j @ y) = ?NN @ r'"
      using recompress_at [OF assms(2) 3(2) assms(5)] unfolding assms(3) by blast
    have nn: "dbe_bkey_getlength (?NN @ r') = length ?NN"
      using getlength_after(1) [OF f(1-3)] .
    have h: "\<not> has_mismatcharray n"
      using 3(1) by (simp add: in_order_def)
    note o = insert_order [OF 3(1) assms(2) 3(2) refl refl _ refl refl refl]
    have "in_order ?m (insert_key j e es)"
      unfolding in_order_def
      by (intro conjI) (use h 3 count nk nn room o assms(6) piece_length(1) [OF e(6) 3(2)] insert_key_nth(4) [OF e(5)] in
        \<open>simp_all add: bnode_insert_fits_def bnode_insert_before_def Let_def y r' put_bkey_def has_mismatcharray_def in_order_def\<close>)
    then show ?thesis
      by (simp add: node_has_def)
  next
    case 4
    have h: "\<not> has_mismatcharray n"
      using 4(1) by (simp add: in_order_def)
    note o = insert_order_last [OF 4(1) assms(2) [unfolded 4(2)] refl]
    have off: "offset_of es (length es) = n_len n"
      using 4(1) by (simp add: offset_of_simps in_order_def)
    have "in_order ?m (es @ [e])"
      unfolding in_order_def
      by (intro conjI) (use h 4 count nk room o assms(6) off in
        \<open>simp_all add: bnode_insert_fits_def bnode_insert_last_def Let_def put_bkey_def has_mismatcharray_def in_order_def\<close>)
    then show ?thesis
      using 4(2) by (simp add: node_has_def insert_key_end)
  qed
qed

end
