(* ===== verification/Bnode_Insertkey.thy ===== *)
theory Bnode_Insertkey
  imports Bnode_Insert
begin

text \<open>
  \<^verbatim>\<open>dbe_bnode_insertkey\<close> as a whole: the key goes to its place, or it is there already, or there is no room
  for it even when the keys lie one behind the other.
\<close>

section \<open>What the parts keep\<close>

text \<open>The parts of a node that an operation leaves alone.\<close>

definition same_node :: "dbe_bnode_t \<Rightarrow> dbe_bnode_t \<Rightarrow> bool" where
  "same_node n n' \<longleftrightarrow> n_cpnum n' = n_cpnum n \<and> n_level n' = n_level n \<and> n_bonsaip n' = n_bonsaip n \<and> length (n_p n') = length (n_p n)"

lemma same_node_trans: "same_node a b \<Longrightarrow> same_node b c \<Longrightarrow> same_node a c"
  by (simp add: same_node_def)

lemma node_has_update [simp]:
  "node_has (n\<lparr>n_dirty := d\<rparr>) es \<longleftrightarrow> node_has n es" "node_has (n\<lparr>n_seqinscount := c\<rparr>) es \<longleftrightarrow> node_has n es"
  "in_order (n\<lparr>n_dirty := d\<rparr>) es \<longleftrightarrow> in_order n es" "in_order (n\<lparr>n_seqinscount := c\<rparr>) es \<longleftrightarrow> in_order n es"
  by (simp_all add: node_has_def in_order_def in_array_def has_mismatcharray_def)

lemma node_has_count: "node_has n es \<Longrightarrow> n_count n = length es"
  by (auto simp: node_has_def in_order_def in_array_def)

lemma node_has_room: "node_has n es \<Longrightarrow> BNODE_KEYS + n_len n \<le> length (n_p n)"
  by (auto simp: node_has_def in_order_def in_array_def dest: holds_length)

lemma node_has_block:
  assumes "\<not> has_mismatcharray n" "n_count n = length es" "n_len n = length (node_bytes [] es)"
    and "n_p n = x @ node_bytes [] es @ y" "length x = BNODE_KEYS" "length (n_p n) \<le> 65536"
  shows "node_has n es"
  using assms by (auto simp: node_has_def in_order_def holds_def)

text \<open>The array is built, where there is none, before the search.\<close>

definition with_array :: "bnode_env \<Rightarrow> dbe_bnode_t \<Rightarrow> dbe_bnode_t" where
  "with_array env n = (if has_mismatcharray n then n else snd (bnode_keysearchinfo_init env n))"

lemma with_array_has:
  assumes "node_has n es" "node_ok [] es"
  shows "node_has (with_array env n) es" "n_len (with_array env n) = n_len n" "same_node n (with_array env n)"
proof -
  have o: "in_order n es" if "\<not> has_mismatcharray n"
    using assms(1) that by (auto simp: node_has_def in_array_def)
  have "node_has (with_array env n) es \<and> n_len (with_array env n) = n_len n \<and> same_node n (with_array env n)"
  proof (cases "has_mismatcharray n")
    case False
    then show ?thesis
      using keysearchinfo_init_has [OF o [OF False] assms(2) node_has_room [OF assms(1)], of env] o
      by (auto simp: with_array_def same_node_def node_has_def split: prod.splits if_splits)
  qed (simp add: with_array_def same_node_def assms(1))
  then show "node_has (with_array env n) es" "n_len (with_array env n) = n_len n" "same_node n (with_array env n)"
    by blast+
qed

text \<open>The search, with the offset where it ends.\<close>

lemma search_found_offset:
  assumes "node_has n es" "search_key_ok es hk key" "es \<noteq> []"
  shows "\<exists>keys j cmp klen ks'. bnode_search n ks (bkey_bytes hk 0 key @ z) c = (keys, j, cmp, klen, ks') \<and> found es c hk key z j cmp ks' \<and>
    (if has_mismatcharray n then j < length es \<longrightarrow> keys = bnode_getkeyoffset n (int j)
     else keys = offset_of es j \<and> (0 < j \<longrightarrow> keys - klen = offset_of es (j - 1)))"
proof (cases "has_mismatcharray n")
  case True
  then obtain offs where a: "in_array n es offs"
    using assms(1) by (auto simp: node_has_def in_order_def)
  then show ?thesis
    using search_array_found [OF a assms(2,3), of ks z c] array_reads(1) [OF a] True by fastforce
next
  case False
  then have o: "in_order n es"
    using assms(1) by (auto simp: node_has_def in_array_def)
  from search_order_found [OF this assms(2,3), of ks z c] obtain j cmp ks' where s:
      "bnode_search n ks (bkey_bytes hk 0 key @ z) c = (offset_of es j, j, cmp, if j = 0 then 0 else length (pieces [] es ! (j - 1)), ks')"
      "found es c hk key z j cmp ks'"
    by blast
  have "j \<le> length es"
    using s(2) by (simp add: found_def)
  then have "offset_of es j - length (pieces [] es ! (j - 1)) = offset_of es (j - 1)" if "0 < j"
    using that offset_of_simps(2) [of "j - 1" es] by simp
  then show ?thesis
    using s False by auto
qed

text \<open>Where the code has the position of the key \<open>j\<close>.\<close>

definition key_place :: "dbe_bnode_t \<Rightarrow> ((u8 \<times> u8 list) \<times> u8 list list) list \<Rightarrow> nat \<Rightarrow> nat \<Rightarrow> bool" where
  "key_place n es j keys \<longleftrightarrow> (if has_mismatcharray n then j < length es \<longrightarrow> keys = bnode_getkeyoffset n (int j) else keys = offset_of es j)"

lemma key_place_order: "key_place n es j keys \<Longrightarrow> in_order n es \<Longrightarrow> keys = offset_of es j"
  by (simp add: key_place_def in_order_def)

lemma search_found:
  assumes "node_has n es" "search_key_ok es hk key" "es \<noteq> []"
  shows "\<exists>keys j cmp klen ks'. bnode_search n ks (bkey_bytes hk 0 key @ z) c = (keys, j, cmp, klen, ks') \<and>
    found es c hk key z j cmp ks' \<and> key_place n es j keys"
proof -
  obtain keys j cmp klen ks' where s: "bnode_search n ks (bkey_bytes hk 0 key @ z) c = (keys, j, cmp, klen, ks')" "found es c hk key z j cmp ks'"
    "if has_mismatcharray n then j < length es \<longrightarrow> keys = bnode_getkeyoffset n (int j)
     else keys = offset_of es j \<and> (0 < j \<longrightarrow> keys - klen = offset_of es (j - 1))"
    using search_found_offset [OF assms, of ks z c] by blast
  then have "key_place n es j keys"
    by (simp add: key_place_def split: if_splits)
  then show ?thesis
    using s(1,2) by blast
qed

text \<open>A key that may be inserted: it neither continues a key of the node nor is continued by one.\<close>

definition new_key_ok :: "((u8 \<times> u8 list) \<times> u8 list list) list \<Rightarrow> u8 \<times> u8 list \<Rightarrow> u8 list list \<Rightarrow> bool" where
  "new_key_ok es hk key \<longleftrightarrow> header_ok hk \<and> vtpl_fits key \<and> key \<noteq> [] \<and> length (fields_bytes key) < 65536 \<and> node_ok [] es \<and>
    (\<forall>e\<in>set es. \<not> strict_prefix (snd e) key \<and> \<not> strict_prefix key (snd e))"

lemma new_key_search: "new_key_ok es hk key \<Longrightarrow> search_key_ok es hk key"
  by (simp add: new_key_ok_def search_key_ok_def twice_apart_simple)

text \<open>Where the search ends without an equal key, the key fits.\<close>

lemma found_fits:
  assumes "found es bkey_cmp hk key z j cmp ks" "new_key_ok es hk key"
  shows "fits_at j (hk, key) es"
proof -
  have j: "j \<le> length es"
    using assms(1) by (simp add: found_def)
  have "chain_ok (prev_key es j) key"
  proof (cases j)
    case (Suc m)
    then have "below bkey_cmp hk key (es ! m)" "es ! m \<in> set es"
      using assms(1) j by (auto simp: found_def)
    then show ?thesis
      using assms(2) Suc by (auto simp: prev_key_def chain_ok_def below_def new_key_ok_def)
  qed (use assms(2) in \<open>simp add: prev_key_def chain_ok_def new_key_ok_def\<close>)
  moreover have "chain_ok key (snd (es ! j))" if "j < length es"
  proof -
    have le: "key \<le> snd (es ! j)" "es ! j \<in> set es"
      using assms(1) that by (auto simp: found_def below_def)
    have "key \<noteq> []"
      using assms(2) by (simp add: new_key_ok_def)
    then have "snd (es ! j) \<noteq> []"
      using le(1) by (cases "snd (es ! j)") auto
    then show ?thesis
      using assms(2) le by (auto simp: chain_ok_def new_key_ok_def)
  qed
  ultimately show ?thesis
    using assms j by (auto simp: fits_at_def new_key_ok_def)
qed

section \<open>The space a key needs\<close>

lemma splitneeded_has:
  assumes "node_has n es" "node_ok [] es" "n_bonsaip n \<and> n_level n = 0 \<longrightarrow> \<not> BNODE_SPLITNEEDED n nklen"
    and "bnode_splitneeded cleanup env n nklen split_cleanup = (s, n')"
  shows "node_has n' es" "same_node n n'" "s = BNODE_SPLIT_NO \<Longrightarrow> n' = n \<and> \<not> BNODE_SPLITNEEDED n nklen"
    "s = BNODE_SPLIT_NO_CLEANUP \<Longrightarrow> \<not> BNODE_SPLITNEEDED n' nklen"
    "s = BNODE_SPLIT_YES \<Longrightarrow> BNODE_KEYS + length (node_bytes [] es) + nklen + 4 * (length es + 1) > length (n_p n)"
proof -
  define r where "r = (if has_mismatcharray n then bnode_reorder env False n else n)"
  have "in_order r es \<and> same_node n r"
  proof (cases "has_mismatcharray n")
    case True
    then obtain offs where "in_array n es offs"
      using assms(1) by (auto simp: node_has_def in_order_def)
    from reorder_has [OF this assms(2), of env] True show ?thesis
      by (simp add: same_node_def r_def) (simp add: bnode_reorder_def bnode_info_setmismatcharray_def Let_def)
  next
    case False
    then show ?thesis
      using assms(1) by (auto simp: node_has_def in_array_def same_node_def r_def)
  qed
  then have r: "in_order r es" "same_node n r"
    by blast+
  then have nr: "node_has r es" "n_len r = length (node_bytes [] es)" "n_count r = length es" "\<not> has_mismatcharray r"
    by (simp_all add: node_has_def in_order_def)
  have w: "snd (bnode_keysearchinfo_init env r) = with_array env r"
    unfolding with_array_def using nr(4) by presburger
  note wa = with_array_has [OF nr(1) assms(2), of env]
  have sp: "BNODE_SPLITNEEDED m nklen \<longleftrightarrow> BNODE_KEYS + length (node_bytes [] es) + nklen + 4 * (length es + 1) > length (n_p n)"
    if "n_len m = length (node_bytes [] es)" "node_has m es" "same_node n m" for m
    using that(1,3) node_has_count [OF that(2)] by (simp add: BNODE_SPLITNEEDED_def BNODE_HEADERLEN_def fd_blocksize_def same_node_def algebra_simps)
  have eq: "bnode_splitneeded cleanup env n nklen split_cleanup =
    (if \<not> BNODE_SPLITNEEDED n nklen then (BNODE_SPLIT_NO, n)
     else if BNODE_SPLITNEEDED r nklen then (BNODE_SPLIT_YES, r) else (BNODE_SPLIT_NO_CLEANUP, with_array env r))"
    proof (cases "BNODE_SPLITNEEDED n nklen")
    case True
    then have "(if n_bonsaip n \<and> n_level n = 0 then cleanup n else n) = n"
      using assms(3) by auto
    then show ?thesis
      using True by (simp only: bnode_splitneeded_def Let_def r_def [symmetric] w if_True if_False simp_thms)
  qed (simp add: bnode_splitneeded_def)
  have same: "same_node n (with_array env r)"
    using same_node_trans [OF r(2) wa(3)] .
  show "node_has n' es" "same_node n n'" "s = BNODE_SPLIT_NO \<Longrightarrow> n' = n \<and> \<not> BNODE_SPLITNEEDED n nklen"
    "s = BNODE_SPLIT_NO_CLEANUP \<Longrightarrow> \<not> BNODE_SPLITNEEDED n' nklen"
    "s = BNODE_SPLIT_YES \<Longrightarrow> BNODE_KEYS + length (node_bytes [] es) + nklen + 4 * (length es + 1) > length (n_p n)"
    using assms(4) [unfolded eq] assms(1) nr(1) r(2) wa(1) same sp [OF nr(2,1) r(2)] sp [OF _ wa(1) same] wa(2) nr(2)
    by (auto simp: same_node_def split: if_splits)
qed

section \<open>The insertion\<close>

definition insert_cmp :: "bnode_env \<Rightarrow> dbe_bkey_cmp_t" where
  "insert_cmp env = (if dbe_cfg_singledeletemark env then DBE_BKEY_CMP_DELETE else DBE_BKEY_CMP_ALL)"

text \<open>The keys of the node with the key in its place; \<open>None\<close> where an equal one is there.\<close>

definition insert_spec :: "dbe_bkey_cmp_t \<Rightarrow> u8 \<times> u8 list \<Rightarrow> u8 list list \<Rightarrow> ((u8 \<times> u8 list) \<times> u8 list list) list
    \<Rightarrow> ((u8 \<times> u8 list) \<times> u8 list list) list option" where
  "insert_spec c hk key es =
    (let a = takeWhile (below c hk key) es; b = dropWhile (below c hk key) es
     in case b of e # _ \<Rightarrow> if snd e = key \<and> tie c hk (fst e) = 0 then None else Some (a @ (hk, key) # b)
        | [] \<Rightarrow> Some (a @ [(hk, key)]))"

lemma found_spec:
  assumes "found es c hk key z j cmp ks"
  shows "insert_spec c hk key es = (if cmp = 0 then None else Some (insert_key j (hk, key) es))"
proof -
  note t = found_takeWhile [OF assms]
  show ?thesis
  proof (cases "j < length es")
    case True
    then have "drop j es = es ! j # drop (Suc j) es"
      by (simp add: Cons_nth_drop_Suc)
    then show ?thesis
      using assms True unfolding insert_spec_def insert_key_def t(2,3) [symmetric] by (simp add: found_def)
  next
    case False
    then show ?thesis
      using assms unfolding insert_spec_def insert_key_def t(2,3) [symmetric] by (simp add: found_def)
  qed
qed

lemma insertkey_unfold:
  assumes "n_cpnum n = go_cpnum env" "n_count n \<noteq> 0"
    and "bnode_search (with_array env (n\<lparr>n_dirty := True\<rparr>)) ks k (insert_cmp env) = (keys, j, cmp, klen, ks')"
    and "n1 = with_array env (n\<lparr>n_dirty := True\<rparr>)" "nk = dbe_bkey_search_compress ks' (bkeybuf env)" "only = dbe_cfg_singledeletemark env"
  shows "dbe_bnode_insertkey cleanup env ks n k split_cleanup =
    (if cmp = 0 then (let (rc, n) = bnode_insert_equal env n1 k keys in Some (rc, only, n))
     else let (splitst, n) = bnode_splitneeded cleanup env n1 (dbe_bkey_getlength nk) split_cleanup
     in if splitst = BNODE_SPLIT_NO_CLEANUP then dbe_bnode_insertkey cleanup env ks n k False
     else if splitst = BNODE_SPLIT_YES then Some (DBE_RC_NODESPLIT, only, n)
     else let (only, n) = bnode_insert_fits env n nk keys j only in Some (DBE_RC_SUCC, only, n))"
  using assms(1,2) unfolding assms(4-6)
  by (subst dbe_bnode_insertkey.simps)
    (simp only: Let_def with_array_def [symmetric] insert_cmp_def [symmetric] assms(3) prod.case not_not simp_thms if_True if_False, simp)


section \<open>An equal key\<close>

text \<open>The header of a key is written over that of an equal one.\<close>

lemma new_header:
  assumes "j < length es" "es' = es[j := (hk, snd (es ! j))]"
  shows "length es' = length es" "i < length es \<Longrightarrow> snd (es' ! i) = snd (es ! i)" "prev_key es' i = prev_key es i \<or> length es < i"
    "pieces [] es' = (pieces [] es)[j := bkey_after (prev_key es j) hk (snd (es ! j))]"
proof -
  show len: "length es' = length es"
    using assms(2) by simp
  show u: "snd (es' ! i) = snd (es ! i)" if "i < length es" for i
    using that assms by (cases "i = j") simp_all
  have p: "prev_key es' i = prev_key es i" if "i \<le> length es" for i
    using that u [of "i - 1"] by (simp add: prev_key_def)
  then show "prev_key es' i = prev_key es i \<or> length es < i"
    by (meson not_less)
  show "pieces [] es' = (pieces [] es)[j := bkey_after (prev_key es j) hk (snd (es ! j))]"
  proof (rule nth_equalityI)
    fix i
    assume "i < length (pieces [] es')"
    then have i: "i < length es"
      using len by simp
    then show "pieces [] es' ! i = (pieces [] es)[j := bkey_after (prev_key es j) hk (snd (es ! j))] ! i"
      using pieces_nth [of i es'] pieces_nth [OF i] p [of i] u [OF i] len assms by (cases "i = j") simp_all
  qed (simp add: len)
qed

lemma holds_concat_update:
  assumes "holds p a (concat ps)" "j < length ps" "length k = length (ps ! j)"
  shows "holds (buf_write (a + length (concat (take j ps))) k p) a (concat (ps[j := k]))"
proof -
  obtain x y where p: "p = x @ concat ps @ y" "length x = a"
    using assms(1) by (auto simp: holds_def)
  have "ps = take j ps @ ps ! j # drop (Suc j) ps"
    using assms(2) by (simp add: Cons_nth_drop_Suc)
  then have "concat ps = concat (take j ps) @ ps ! j @ concat (drop (Suc j) ps)"
    by (metis concat.simps(2) concat_append)
  then have "buf_write (a + length (concat (take j ps))) k p = x @ (concat (take j ps) @ k @ concat (drop (Suc j) ps)) @ y"
    using p assms(3) buf_write_append [of "a + length (concat (take j ps))" "x @ concat (take j ps)" k "ps ! j @ concat (drop (Suc j) ps) @ y"] by simp
  moreover have "concat (ps[j := k]) = concat (take j ps) @ k @ concat (drop (Suc j) ps)"
    using assms(2) by (simp add: upd_conv_take_nth_drop)
  ultimately show ?thesis
    using p(2) unfolding holds_def by metis
qed

lemma new_header_has:
  assumes "node_has n es" "node_ok [] es" "j < length es" "key_place n es j keys" "length (snd hk) = length (snd (fst (es ! j)))"
    and "p = buf_write (BNODE_KEYS + keys) (bkey_after (prev_key es j) hk (snd (es ! j))) (n_p n)"
  shows "node_has (n\<lparr>n_p := p\<rparr>) (es[j := (hk, snd (es ! j))])"
proof -
  let ?es = "es[j := (hk, snd (es ! j))]" and ?k = "bkey_after (prev_key es j) hk (snd (es ! j))"
  note h = new_header [OF assms(3) refl, where hk = hk]
  have l: "length ?k = length (pieces [] es ! j)"
    unfolding pieces_nth [OF assms(3)] using assms(5) by (simp add: bkey_after_def bkey_bytes_def)
  have ls: "length (pieces [] ?es ! i) = length (pieces [] es ! i)" if "i < length es" for i
    using that l unfolding h(4) by (cases "i = j") simp_all
  show ?thesis
  proof (cases "has_mismatcharray n")
    case False
    then have o: "in_order n es"
      using assms(1) by (auto simp: node_has_def in_array_def)
    then have r: "holds (n_p n) BNODE_KEYS (node_bytes [] es)" "length (n_p n) \<le> 65536"
      by (simp_all add: in_order_def)
    have "keys = length (concat (take j (pieces [] es)))"
      using assms(4) False by (simp add: key_place_def offset_of_def)
    then have "holds p BNODE_KEYS (node_bytes [] ?es)"
      using holds_concat_update [of "n_p n" BNODE_KEYS "pieces [] es" j ?k] r(1) assms(3) l
      unfolding assms(6) pieces_concat [symmetric] h(4) by simp
    moreover have "length p = length (n_p n)"
    proof -
      have "BNODE_KEYS + keys + length ?k \<le> length (n_p n)"
        using holds_length [OF holds_piece [OF r(1) assms(3)]] key_place_order [OF assms(4) o] l by simp
      then show ?thesis
        unfolding assms(6) by simp
    qed
    moreover have "length (node_bytes [] ?es) = length (node_bytes [] es)"
      unfolding pieces_concat [symmetric] h(4) using assms(3) l by (simp add: length_concat sum_list_update map_update)
    ultimately show ?thesis
      using o by (simp add: node_has_def in_order_def has_mismatcharray_def)
  next
    case True
    then obtain offs where a: "in_array n es offs"
      using assms(1) by (auto simp: node_has_def in_order_def)
    have keys: "keys = offs ! j"
      using assms(3,4) True array_reads(1) [OF a assms(3)] by (simp add: key_place_def)
    have r: "offs ! i + length (pieces [] es ! i) \<le> n_len n" "holds (n_p n) (BNODE_KEYS + offs ! i) (pieces [] es ! i)"
        "holds (n_p n) (n_keysearchinfo_array n + 4 * i) (entry (prev_key es i) (snd (es ! i)) (offs ! i))" if "i < length es" for i
      using a that by (simp_all add: in_array_def)
    have ar: "BNODE_KEYS + n_len n \<le> n_keysearchinfo_array n" "n_keysearchinfo_array n + 4 * length es = length (n_p n)" "apart (pieces [] es) offs"
      using a by (simp_all add: in_array_def)
    have room: "BNODE_KEYS + offs ! j + length ?k \<le> length (n_p n)"
      using r(1) [OF assms(3)] l ar(1,2) by simp
    have "holds p (BNODE_KEYS + offs ! i) (pieces [] ?es ! i)" if i: "i < length es" for i
    proof (cases "i = j")
      case True
      then show ?thesis
        using holds_write [OF room] assms(3) unfolding assms(6) keys h(4) by simp
    next
      case False
      then have "offs ! i + length (pieces [] es ! i) \<le> offs ! j \<or> offs ! j + length (pieces [] es ! j) \<le> offs ! i"
        using ar(3) i assms(3) by (simp add: apart_def)
      then show ?thesis
        using holds_write_other [OF r(2) [OF i] _ room] False l unfolding assms(6) keys h(4) by auto
    qed
    moreover have "holds p (n_keysearchinfo_array n + 4 * i) (entry (prev_key ?es i) (snd (?es ! i)) (offs ! i))" if i: "i < length es" for i
      using holds_write_other [OF r(3) [OF i] _ room] r(1) [OF assms(3)] l ar(1) h(3) [of i] i unfolding assms(6) keys h(2) [OF i] by auto
    moreover have "apart (pieces [] ?es) offs"
      using ar(3) ls h(1) unfolding apart_def by simp
    moreover have "length p = length (n_p n)"
      using room unfolding assms(6) keys by simp
    ultimately have "in_array (n\<lparr>n_p := p\<rparr>) ?es offs"
      using a r(1) ls by (simp add: in_array_def has_mismatcharray_def)
    then show ?thesis
      unfolding node_has_def by blast
  qed
qed

lemma key_reads:
  assumes "node_has n es" "j < length es" "key_place n es j keys"
  shows "\<exists>y. bkey_at n keys = pieces [] es ! j @ y"
proof (cases "has_mismatcharray n")
  case True
  then obtain offs where a: "in_array n es offs"
    using assms(1) by (auto simp: node_has_def in_order_def)
  then show ?thesis
    using array_reads(1,2) [OF a assms(2)] assms(2,3) True by (auto simp: key_place_def)
next
  case False
  then have "in_order n es"
    using assms(1) by (auto simp: node_has_def in_array_def)
  then show ?thesis
    using order_reads [OF _ assms(2)] key_place_order [OF assms(3)] by simp
qed

text \<open>What becomes of an equal key: two delete marks of a Bonsai leaf, where the older one is of an aborted statement.\<close>

definition header_trxid :: "u8 \<times> u8 list \<Rightarrow> dbe_trxid_t" where
  "header_trxid h = SS_UINT4_LOADFROMDISK (drop 4 (snd h))"

definition equal_spec :: "bnode_env \<Rightarrow> dbe_bnode_t \<Rightarrow> u8 \<times> u8 list \<Rightarrow> nat \<Rightarrow> ((u8 \<times> u8 list) \<times> u8 list list) list
    \<Rightarrow> bnode_ret \<times> ((u8 \<times> u8 list) \<times> u8 list list) list" where
  "equal_spec env n hk j es =
    (let h = fst (es ! j) in
     if dbe_cfg_singledeletemark env \<and> n_level n = 0 \<and> n_bonsaip n \<and> fst hk AND BKEY_DELETEMARK \<noteq> 0 \<and> fst h AND BKEY_DELETEMARK \<noteq> 0
     then if fst h AND BKEY_COMMITTED \<noteq> 0 then (DBE_ERR_LOSTUPDATE, es)
       else case dbe_trxbuf_gettrxstate (go_trxbuf env) (header_trxid h) of
         None \<Rightarrow> (SS_ERROR, es)
       | Some (trxresult, _) \<Rightarrow>
           if trxresult \<in> {DBE_TRXST_BEGIN, DBE_TRXST_TOBEABORTED, DBE_TRXST_VALIDATE, DBE_TRXST_COMMIT} then (DBE_ERR_LOSTUPDATE, es)
           else if trxresult = DBE_TRXST_ABORT then (DBE_RC_SUCC, es[j := (hk, snd (es ! j))]) else (SS_ERROR, es)
     else (DBE_ERR_UNIQUE_S, es))"

definition bonsai_headers :: "bnode_env \<Rightarrow> dbe_bnode_t \<Rightarrow> u8 \<times> u8 list \<Rightarrow> ((u8 \<times> u8 list) \<times> u8 list list) list \<Rightarrow> bool" where
  "bonsai_headers env n hk es \<longleftrightarrow> (dbe_cfg_singledeletemark env \<and> n_level n = 0 \<and> n_bonsaip n \<longrightarrow>
    length (snd hk) = 8 \<and> (\<forall>e\<in>set es. length (snd (fst e)) = 8))"

lemma copyheader_after:
  assumes "header_ok h" "header_ok hk" "length (snd hk) = length (snd h)"
  shows "dbe_bkey_copyheader (bkey_after t h u @ y) (bkey_bytes hk 0 u @ z) = bkey_after t hk u @ y"
proof -
  have "BKEY_LOADINDEX (bkey_after t h u @ y) = word_of_nat (fst (cmpr t u))"
    unfolding bkey_after_def by (rule bkey_reads(3) [OF assms(1)])
  moreover have "drop (3 + length (snd hk)) (bkey_after t h u @ y) = vtpl_encode (snd (cmpr t u)) @ y"
    using assms(3) by (simp add: bkey_after_def bkey_bytes_def store2_list eval_nat_numeral)
  ultimately show ?thesis
    unfolding dbe_bkey_copyheader_def copy_header_bytes [OF assms(2)] header_reads(4) [OF assms(2)] by (simp add: bkey_after_def bkey_bytes_def)
qed

lemma gettrxid_after:
  assumes "length (snd h) = 8"
  shows "dbe_bkey_gettrxid (bkey_after t h u @ y) = header_trxid h"
proof -
  have "drop BKEY_TRXID (bkey_after t h u @ y) = drop 4 (snd h) @ vtpl_encode (snd (cmpr t u)) @ y"
    using assms by (simp add: BKEY_TRXID_def bkey_after_def bkey_bytes_def store2_list eval_nat_numeral)
  then show ?thesis
    using load4_prefix [of "drop 4 (snd h)" "vtpl_encode (snd (cmpr t u)) @ y" "[]"] assms
    by (simp add: dbe_bkey_gettrxid_def BKEY_LOADTRXID_def header_trxid_def)
qed

lemma insert_equal_has:
  assumes "node_has n es" "node_ok [] es" "j < length es" "key_place n es j keys" "snd (es ! j) = key" "header_ok hk"
    and "bonsai_headers env n hk es" "bnode_insert_equal env n (bkey_bytes hk 0 key @ z) keys = (rc, n')"
  shows "rc = fst (equal_spec env n hk j es)" "node_has n' (snd (equal_spec env n hk j es))"
proof -
  let ?h = "fst (es ! j)" and ?k = "bkey_bytes hk 0 key @ z"
  note e = node_ok_nth [OF assms(2,3)]
  obtain y where y: "bkey_at n keys = bkey_after (prev_key es j) ?h key @ y"
    using key_reads [OF assms(1,3,4)] unfolding pieces_nth [OF assms(3)] assms(5) by blast
  have marks: "dbe_bkey_isdeletemark ?k \<longleftrightarrow> fst hk AND BKEY_DELETEMARK \<noteq> 0" "dbe_bkey_isdeletemark (bkey_at n keys) \<longleftrightarrow> fst ?h AND BKEY_DELETEMARK \<noteq> 0"
    "dbe_bkey_iscommitted (bkey_at n keys) \<longleftrightarrow> fst ?h AND BKEY_COMMITTED \<noteq> 0"
    unfolding y bkey_after_def dbe_bkey_isdeletemark_def BKEY_ISDELETEMARK_def dbe_bkey_iscommitted_def bkey_reads(1) [OF assms(6)] bkey_reads(1) [OF e(2)]
    by (rule refl)+
  let ?m = "dbe_cfg_singledeletemark env \<and> n_level n = 0 \<and> n_bonsaip n \<and> fst hk AND BKEY_DELETEMARK \<noteq> 0 \<and> fst ?h AND BKEY_DELETEMARK \<noteq> 0"
  have "rc = fst (equal_spec env n hk j es) \<and> node_has n' (snd (equal_spec env n hk j es))"
  proof (cases ?m)
    case False
    then show ?thesis
      using assms(1,8) by (auto simp: bnode_insert_equal_def equal_spec_def Let_def marks)
  next
    case True
    then have l: "length (snd hk) = 8" "length (snd ?h) = 8"
      using assms(3,7) nth_mem [OF assms(3)] by (auto simp: bonsai_headers_def)
    then have id: "dbe_bkey_gettrxid (bkey_at n keys) = header_trxid ?h"
      unfolding y by (simp add: gettrxid_after)
    have len: "length (bkey_after (prev_key es j) hk key) = length (bkey_after (prev_key es j) ?h key)"
      using l by (simp add: bkey_after_def bkey_bytes_def)
    have "take (BNODE_KEYS + keys) (n_p n) @ dbe_bkey_copyheader (bkey_at n keys) ?k =
        buf_write (BNODE_KEYS + keys) (bkey_after (prev_key es j) hk key) (n_p n)"
    proof -
      have "drop (BNODE_KEYS + keys) (n_p n) = bkey_after (prev_key es j) ?h key @ y"
        using y by (simp add: bkey_at_def)
      then have "drop (BNODE_KEYS + keys + length (bkey_after (prev_key es j) hk key)) (n_p n) = y"
        unfolding len by (metis add.commute append_eq_conv_conj drop_drop)
      then show ?thesis
        unfolding y copyheader_after [OF e(2) assms(6) l(1) [folded l(2)]] by (simp add: buf_write_def)
    qed
    then have new: "node_has (n\<lparr>n_p := take (BNODE_KEYS + keys) (n_p n) @ dbe_bkey_copyheader (bkey_at n keys) ?k\<rparr>) (es[j := (hk, key)])"
      using new_header_has [OF assms(1-4), of hk] l assms(5) by simp
    show ?thesis
      using True assms(1,5,8) new
      by (auto simp: bnode_insert_equal_def equal_spec_def Let_def marks id split: option.splits if_splits)
  qed
  then show "rc = fst (equal_spec env n hk j es)" "node_has n' (snd (equal_spec env n hk j es))"
    by blast+
qed

text \<open>Everything an insertion needs: the search, the compressed key and its length.\<close>

lemma insertkey_parts:
  assumes "node_has n es" "new_key_ok es hk key" "es \<noteq> []" "n_cpnum n = go_cpnum env" "25 \<le> length (bkeybuf env)"
  shows "\<exists>n1 keys j cmp ks' r. node_has n1 es \<and> n_len n1 = n_len n \<and> same_node n n1 \<and> found es (insert_cmp env) hk key z j cmp ks' \<and>
    key_place n1 es j keys \<and>
    (\<forall>split_cleanup. dbe_bnode_insertkey cleanup env ks n (bkey_bytes hk 0 key @ z) split_cleanup =
      (if cmp = 0 then (let (rc, n) = bnode_insert_equal env n1 (bkey_bytes hk 0 key @ z) keys in Some (rc, dbe_cfg_singledeletemark env, n))
       else let (splitst, n) = bnode_splitneeded cleanup env n1 (length (bkey_after (prev_key es j) hk key)) split_cleanup
       in if splitst = BNODE_SPLIT_NO_CLEANUP then dbe_bnode_insertkey cleanup env ks n (bkey_bytes hk 0 key @ z) False
       else if splitst = BNODE_SPLIT_YES then Some (DBE_RC_NODESPLIT, dbe_cfg_singledeletemark env, n)
       else let (only, n) = bnode_insert_fits env n (bkey_after (prev_key es j) hk key @ r) keys j (dbe_cfg_singledeletemark env)
         in Some (DBE_RC_SUCC, only, n)))"
proof -
  have ok: "node_ok [] es" "header_ok hk" "vtpl_fits key" "key \<noteq> []"
    using assms(2) by (auto simp: new_key_ok_def)
  let ?n = "n\<lparr>n_dirty := True\<rparr>"
  have h: "node_has ?n es"
    using assms(1) by simp
  note w = with_array_has [OF h ok(1), of env]
  obtain keys j cmp klen ks' where srch: "bnode_search (with_array env ?n) ks (bkey_bytes hk 0 key @ z) (insert_cmp env) = (keys, j, cmp, klen, ks')"
      "found es (insert_cmp env) hk key z j cmp ks'" "key_place (with_array env ?n) es j keys"
    using search_found [OF w(1) new_key_search [OF assms(2)] assms(3), of ks z "insert_cmp env"] by blast
  have "13 + length (snd hk) \<le> length (bkeybuf env)"
    using header_length [OF ok(2)] assms(5) by simp
  from found_compress [OF srch(2) new_key_search [OF assms(2)] this]
  obtain r where r: "dbe_bkey_search_compress ks' (bkeybuf env) = bkey_after (prev_key es j) hk key @ r"
    by blast
  have c: "n_count n \<noteq> 0"
    using node_has_count [OF assms(1)] assms(3) by simp
  have s: "n_len (with_array env ?n) = n_len n" "same_node n (with_array env ?n)"
    using w(2,3) by (simp_all add: same_node_def)
  show ?thesis
    using insertkey_unfold [OF assms(4) c srch(1) refl refl refl] w(1) s srch(2,3)
    unfolding r getlength_after(1) [OF ok(2,3,4)] by blast
qed

lemma insertkey_fits:
  assumes "node_has n es" "new_key_ok es hk key" "es \<noteq> []" "n_cpnum n = go_cpnum env" "25 \<le> length (bkeybuf env)"
    and "insert_spec (insert_cmp env) hk key es = Some es'"
    and "j = length (takeWhile (below (insert_cmp env) hk key) es)"
    and "\<not> BNODE_SPLITNEEDED n (length (bkey_after (prev_key es j) hk key))"
  shows "\<exists>only n'. dbe_bnode_insertkey cleanup env ks n (bkey_bytes hk 0 key @ z) split_cleanup = Some (DBE_RC_SUCC, only, n') \<and> node_has n' es'"
proof -
  from insertkey_parts [OF assms(1-5), of z cleanup ks]
  obtain n1 keys i cmp ks' r where p: "node_has n1 es" "n_len n1 = n_len n" "same_node n n1" "found es (insert_cmp env) hk key z i cmp ks'"
    "key_place n1 es i keys"
    "\<And>split_cleanup. dbe_bnode_insertkey cleanup env ks n (bkey_bytes hk 0 key @ z) split_cleanup =
      (if cmp = 0 then (let (rc, n) = bnode_insert_equal env n1 (bkey_bytes hk 0 key @ z) keys in Some (rc, dbe_cfg_singledeletemark env, n))
       else let (splitst, n) = bnode_splitneeded cleanup env n1 (length (bkey_after (prev_key es i) hk key)) split_cleanup
       in if splitst = BNODE_SPLIT_NO_CLEANUP then dbe_bnode_insertkey cleanup env ks n (bkey_bytes hk 0 key @ z) False
       else if splitst = BNODE_SPLIT_YES then Some (DBE_RC_NODESPLIT, dbe_cfg_singledeletemark env, n)
       else let (only, n) = bnode_insert_fits env n (bkey_after (prev_key es i) hk key @ r) keys i (dbe_cfg_singledeletemark env)
         in Some (DBE_RC_SUCC, only, n))"
    by blast
  have i: "i = j" "cmp \<noteq> 0" "es' = insert_key j (hk, key) es"
    using found_takeWhile(1) [OF p(4)] found_spec [OF p(4)] assms(6,7) by (auto split: if_splits)
  have fit: "\<not> BNODE_SPLITNEEDED n1 (length (bkey_after (prev_key es j) hk key))"
    using assms(8) node_has_count [OF assms(1)] node_has_count [OF p(1)] p(2,3)
    by (simp add: BNODE_SPLITNEEDED_def fd_blocksize_def same_node_def)
  have len: "dbe_bkey_getlength (bkey_after (prev_key es j) hk key @ r) = length (bkey_after (prev_key es j) hk key)"
    using assms(2) by (intro getlength_after) (auto simp: new_key_ok_def)
  have "node_has (snd (bnode_insert_fits env n1 (bkey_after (prev_key es j) hk key @ r) keys j (dbe_cfg_singledeletemark env))) es'"
    unfolding i(3) using p(1) key_place_order [OF p(5)] fit assms(3,5) found_fits [OF p(4) assms(2)] len
    by (intro insert_fits_has) (simp_all add: i(1))
  then show ?thesis
    using i(2) fit unfolding p(6) i(1)
    by (cases "bnode_insert_fits env n1 (bkey_after (prev_key es j) hk key @ r) keys j (dbe_cfg_singledeletemark env)")
      (simp add: bnode_splitneeded_def)
qed

text \<open>The space of a key is at most that of the whole key.\<close>

lemma after_shorter: "key \<noteq> [] \<Longrightarrow> length (bkey_after t hk key) \<le> length (bkey_bytes hk 0 key)"
  using vtpl_encode_mono [OF cmpr_length(1) [of key t]] by (simp add: bkey_after_def bkey_bytes_def)

lemma insertkey_nonempty:
  assumes "node_has n es" "new_key_ok es hk key" "es \<noteq> []" "n_cpnum n = go_cpnum env" "25 \<le> length (bkeybuf env)"
    and "n_bonsaip n \<and> n_level n = 0 \<longrightarrow> \<not> BNODE_SPLITNEEDED n (length (bkey_bytes hk 0 key))"
    and "j = length (takeWhile (below (insert_cmp env) hk key) es)" "bonsai_headers env n hk es"
  shows "\<exists>rc only n'. dbe_bnode_insertkey cleanup env ks n (bkey_bytes hk 0 key @ z) split_cleanup = Some (rc, only, n') \<and>
    (case insert_spec (insert_cmp env) hk key es of
       None \<Rightarrow> rc = fst (equal_spec env n hk j es) \<and> node_has n' (snd (equal_spec env n hk j es))
     | Some es' \<Rightarrow> rc = DBE_RC_SUCC \<and> node_has n' es' \<or>
         rc = DBE_RC_NODESPLIT \<and> node_has n' es \<and>
         BNODE_KEYS + length (node_bytes [] es) + length (bkey_after (prev_key es j) hk key) + 4 * (length es + 1) > length (n_p n))"
proof -
  from insertkey_parts [OF assms(1-5), of z cleanup ks]
  obtain n1 keys i cmp ks' r where p: "node_has n1 es" "n_len n1 = n_len n" "same_node n n1" "found es (insert_cmp env) hk key z i cmp ks'"
    "key_place n1 es i keys"
    "\<And>split_cleanup. dbe_bnode_insertkey cleanup env ks n (bkey_bytes hk 0 key @ z) split_cleanup =
      (if cmp = 0 then (let (rc, n) = bnode_insert_equal env n1 (bkey_bytes hk 0 key @ z) keys in Some (rc, dbe_cfg_singledeletemark env, n))
       else let (splitst, n) = bnode_splitneeded cleanup env n1 (length (bkey_after (prev_key es i) hk key)) split_cleanup
       in if splitst = BNODE_SPLIT_NO_CLEANUP then dbe_bnode_insertkey cleanup env ks n (bkey_bytes hk 0 key @ z) False
       else if splitst = BNODE_SPLIT_YES then Some (DBE_RC_NODESPLIT, dbe_cfg_singledeletemark env, n)
       else let (only, n) = bnode_insert_fits env n (bkey_after (prev_key es i) hk key @ r) keys i (dbe_cfg_singledeletemark env)
         in Some (DBE_RC_SUCC, only, n))"
    by blast
  have i: "i = j" and spec: "insert_spec (insert_cmp env) hk key es = (if cmp = 0 then None else Some (insert_key j (hk, key) es))"
    using found_takeWhile(1) [OF p(4)] found_spec [OF p(4)] assms(7) by auto
  have ok: "node_ok [] es" "key \<noteq> []"
    using assms(2) by (auto simp: new_key_ok_def)
  let ?nk = "length (bkey_after (prev_key es j) hk key)"
  show ?thesis
  proof (cases "cmp = 0")
    case True
    obtain rc n2 where eq: "bnode_insert_equal env n1 (bkey_bytes hk 0 key @ z) keys = (rc, n2)"
      by fastforce
    have at: "j < length es" "snd (es ! j) = key" and hok: "header_ok hk"
      using True p(4) i assms(2) by (auto simp: found_def new_key_ok_def split: if_splits)
    have env: "bonsai_headers env n1 hk es" "equal_spec env n1 hk j es = equal_spec env n hk j es"
      using assms(8) p(3) by (simp_all add: bonsai_headers_def equal_spec_def same_node_def)
    note eq_has = insert_equal_has [OF p(1) ok(1) at(1) p(5) [unfolded i] at(2) hok env(1) eq, unfolded env(2)]
    show ?thesis
      unfolding p(6) spec using True eq eq_has by auto
  next
    case False
    obtain s n2 where sn: "bnode_splitneeded cleanup env n1 ?nk split_cleanup = (s, n2)"
      by fastforce
    have "n_bonsaip n1 \<and> n_level n1 = 0 \<longrightarrow> \<not> BNODE_SPLITNEEDED n1 ?nk"
      using assms(6) after_shorter [OF ok(2), of "prev_key es j" hk] p(2,3) node_has_count [OF assms(1)] node_has_count [OF p(1)]
      by (auto simp: BNODE_SPLITNEEDED_def fd_blocksize_def same_node_def)
    note sp = splitneeded_has [OF p(1) ok(1) this sn]
    have n2: "n_cpnum n2 = go_cpnum env"
      using p(3) sp(2) assms(4) by (simp add: same_node_def)
    show ?thesis
    proof (cases s)
      case BNODE_SPLIT_NO
      then have "\<not> BNODE_SPLITNEEDED n ?nk"
        using sp(3) p(2,3) node_has_count [OF assms(1)] node_has_count [OF p(1)]
        by (simp add: BNODE_SPLITNEEDED_def fd_blocksize_def same_node_def)
      from insertkey_fits [OF assms(1-5) _ assms(7) this, of "insert_key j (hk, key) es" cleanup ks z split_cleanup]
      show ?thesis
        using False unfolding spec by auto
    next
      case BNODE_SPLIT_NO_CLEANUP
      from insertkey_fits [OF sp(1) assms(2,3) n2 assms(5) _ assms(7) sp(4) [OF this], of "insert_key j (hk, key) es" cleanup ks z False]
      show ?thesis
        using False BNODE_SPLIT_NO_CLEANUP unfolding p(6) spec i sn by auto
    next
      case BNODE_SPLIT_YES
      then show ?thesis
        using False sp(1) sp(5) [OF BNODE_SPLIT_YES] p(3) unfolding p(6) spec i sn by (simp add: same_node_def)
    qed
  qed
qed


text \<open>The first key of an empty node.\<close>

lemma cmpr_nil: "cmpr [] key = (0, key)"
  by (cases key) simp_all

lemma insertkey_empty:
  assumes "in_order n []" "new_key_ok [] hk key" "n_cpnum n = go_cpnum env"
    and "BNODE_KEYS + length (bkey_bytes hk 0 key) + 4 \<le> length (n_p n)"
  shows "\<exists>only n'. dbe_bnode_insertkey cleanup env ks n (bkey_bytes hk 0 key @ z) split_cleanup = Some (DBE_RC_SUCC, only, n') \<and>
    node_has n' [(hk, key)]"
proof -
  have ok: "header_ok hk" "vtpl_fits key" "key \<noteq> []" "length (fields_bytes key) < 65536"
    using assms(2) by (auto simp: new_key_ok_def)
  have k: "bkey_bytes hk 0 key @ z = bkey_after [] hk key @ z"
    using ok(3) by (simp add: bkey_after_def cmpr_nil)
  let ?K = "bkey_after [] hk key"
  have node: "node_ok [] [(hk, key)]" "node_bytes [] [(hk, key)] = ?K"
    using ok by (simp_all add: chain_ok_def)
  let ?m = "n\<lparr>n_dirty := True, n_count := 1, n_len := length ?K, n_seqinscount := 1, n_lastinsindex := 0\<rparr>"
  let ?n = "put_bkey 0 (?K @ z) ?m"
  have p: "?n = ?m\<lparr>n_p := buf_write BNODE_KEYS ?K (n_p n)\<rparr>"
    unfolding put_after [OF ok(1-3)] by simp
  have l: "BNODE_KEYS + length ?K \<le> length (n_p n)"
    using assms(4) ok(3) by (simp add: bkey_after_def cmpr_nil)
  have o: "in_order ?n [(hk, key)]"
    unfolding p in_order_def node(2) using assms(1) l holds_write [OF l]
    by (simp add: in_order_def has_mismatcharray_def)
  have h: "node_has (snd (bnode_keysearchinfo_init env ?n)) [(hk, key)]"
    using with_array_has(1) [of ?n "[(hk, key)]" env] o node(1) by (simp add: node_has_def in_order_def with_array_def)
  have "n_count n = 0"
    using assms(1) by (simp add: in_order_def)
  then have "dbe_bnode_insertkey cleanup env ks n (bkey_bytes hk 0 key @ z) split_cleanup =
      Some (DBE_RC_SUCC, dbe_cfg_singledeletemark env, snd (bnode_keysearchinfo_init env ?n))"
    using assms(3) by (subst dbe_bnode_insertkey.simps) (simp add: Let_def k getlength_after(1) [OF ok(1-3)])
  then show ?thesis
    using h by blast
qed

text \<open>
  C7. Inserting a key into a node returns. Where no equal key is there, the node afterwards has its keys and the new
  one in its place, in either layout, or it is said to be full and keeps its keys, and then the keys with the
  new one would not fit even one behind the other. With an equal key the node keeps its keys and the insertion
  is refused; only with the switch for single delete marks, in a Bonsai leaf, a delete mark that was left by an
  aborted statement gets the header of the new one, and one of any other statement is a lost update. Hypotheses: the
  keys of the node are in order and none continues another with more fields, nor does the new key; the
  block is of the current checkpoint; a leaf of the Bonsai tree has room for the key (a full one is cleaned up first, which is a
  parameter of the model) and, with that switch, headers with two long numbers; the first key of an empty node fits.
\<close>

theorem bnode_insertkey_refines:
  assumes "node_has n es" "new_key_ok es hk key" "n_cpnum n = go_cpnum env" "25 \<le> length (bkeybuf env)"
    and "n_bonsaip n \<and> n_level n = 0 \<longrightarrow> \<not> BNODE_SPLITNEEDED n (length (bkey_bytes hk 0 key))"
    and "es = [] \<longrightarrow> \<not> has_mismatcharray n \<and> \<not> BNODE_SPLITNEEDED n (length (bkey_bytes hk 0 key))"
    and "j = length (takeWhile (below (insert_cmp env) hk key) es)" "bonsai_headers env n hk es"
  shows "\<exists>rc only n'. dbe_bnode_insertkey cleanup env ks n (bkey_bytes hk 0 key @ z) split_cleanup = Some (rc, only, n') \<and>
    (case insert_spec (insert_cmp env) hk key es of
       None \<Rightarrow> rc = fst (equal_spec env n hk j es) \<and> node_has n' (snd (equal_spec env n hk j es))
     | Some es' \<Rightarrow> rc = DBE_RC_SUCC \<and> node_has n' es' \<or>
         rc = DBE_RC_NODESPLIT \<and> node_has n' es \<and>
         BNODE_KEYS + length (node_bytes [] es) + length (bkey_after (prev_key es j) hk key) + 4 * (length es + 1) > length (n_p n))"
proof (cases "es = []")
  case True
  have o: "in_order n []"
    using assms(1,6) True by (auto simp: node_has_def in_array_def)
  moreover have "BNODE_KEYS + length (bkey_bytes hk 0 key) + 4 \<le> length (n_p n)"
    using assms(6) o True by (simp add: BNODE_SPLITNEEDED_def BNODE_HEADERLEN_def fd_blocksize_def in_order_def)
  ultimately show ?thesis
    using insertkey_empty [of n hk key env cleanup ks z split_cleanup] assms(2,3) True by (auto simp: insert_spec_def)
next
  case False
  then show ?thesis
    using insertkey_nonempty [OF assms(1,2) False assms(3-5,7,8)] by blast
qed


text \<open>A node with two keys in a block of 64 bytes, and a third key between them.\<close>

theorem bnode_insertkey_refines_witness:
  "let es = [((4, []), [[1], [2]]), ((4, []), [[1], [9]])]; hk = (4, []); key = [[1], [5, 6]];
     n = \<lparr>n_len = length (node_bytes [] es), n_count = 2, n_level = 0, n_info = 0, n_dirty = False, n_bonsaip = True, n_seqinscount = 0,
       n_lastinsindex = 1, n_cpnum = 7, n_p = replicate 12 0 @ node_bytes [] es @ replicate 50 0, n_keysearchinfo_array = 0\<rparr>;
     env = \<lparr>dbe_bnode_usemismatcharray = True, dbe_cfg_singledeletemark = False, go_cpnum = 7,
       go_trxbuf = the (dbe_trxbuf_init 4 0 False), bkeybuf = replicate 25 0\<rparr>;
     j = length (takeWhile (below (insert_cmp env) hk key) es)
   in \<exists>rc only n'. dbe_bnode_insertkey id env undefined n (bkey_bytes hk 0 key @ []) False = Some (rc, only, n') \<and>
    (case insert_spec (insert_cmp env) hk key es of
       None \<Rightarrow> rc = fst (equal_spec env n hk j es) \<and> node_has n' (snd (equal_spec env n hk j es))
     | Some es' \<Rightarrow> rc = DBE_RC_SUCC \<and> node_has n' es' \<or>
         rc = DBE_RC_NODESPLIT \<and> node_has n' es \<and>
         BNODE_KEYS + length (node_bytes [] es) + length (bkey_after (prev_key es j) hk key) + 4 * (length es + 1) > length (n_p n))"
  unfolding Let_def
  by (rule bnode_insertkey_refines, rule node_has_block [where x = "replicate 12 0" and y = "replicate 50 0"])
    (simp_all add: has_mismatcharray_def BNODE_KEYS_def new_key_ok_def bonsai_headers_def header_ok_def bkey_flags
      vtpl_fits_def chain_ok_def encode_length BNODE_SPLITNEEDED_def BNODE_HEADERLEN_def fd_blocksize_def bkey_bytes_def bkey_after_def vtpl_encode_def)

end
