(* ===== verification/Bnode_Find.thy ===== *)
theory Bnode_Find
  imports Bnode_Insertkey
begin

text \<open>Descending: the child a node gives for a key, and that the two layouts of a node are searched alike.\<close>

section \<open>The key where a search ends\<close>

lemma search_found_at:
  assumes "node_has n es" "search_key_ok es hk key" "es \<noteq> []"
  shows "\<exists>keys j cmp klen ks'. bnode_search n ks (bkey_bytes hk 0 key @ z) c = (keys, j, cmp, klen, ks') \<and> found es c hk key z j cmp ks' \<and>
    (j < length es \<longrightarrow> (\<exists>y. bkey_at n keys = pieces [] es ! j @ y)) \<and>
    (0 < j \<longrightarrow> (\<exists>y. bkey_at n (if has_mismatcharray n then bnode_getkeyoffset n (int j - 1) else keys - klen) = pieces [] es ! (j - 1) @ y))"
proof (cases "in_order n es")
  case True
  from search_order_found [OF True assms(2,3), of ks z c]
  obtain j cmp ks' where s: "bnode_search n ks (bkey_bytes hk 0 key @ z) c =
      (offset_of es j, j, cmp, if j = 0 then 0 else length (pieces [] es ! (j - 1)), ks')" "found es c hk key z j cmp ks'"
    by blast
  have j: "j \<le> length es"
    using s(2) by (simp add: found_def)
  have "offset_of es j - length (pieces [] es ! (j - 1)) = offset_of es (j - 1)" if "0 < j"
    using that j offset_of_simps(2) [of "j - 1" es] by simp
  then show ?thesis
    using s True j order_reads [OF True, of j] order_reads [OF True, of "j - 1"] by (auto simp: in_order_def)
next
  case False
  then obtain offs where a: "in_array n es offs"
    using assms(1) by (auto simp: node_has_def)
  from search_array_found [OF a assms(2,3), of ks z c]
  obtain keys j cmp klen ks' where s: "bnode_search n ks (bkey_bytes hk 0 key @ z) c = (keys, j, cmp, klen, ks')" "found es c hk key z j cmp ks'"
      "j < length es \<longrightarrow> keys = offs ! j"
    by blast
  have j: "j \<le> length es" and h: "has_mismatcharray n"
    using s(2) a by (simp_all add: found_def in_array_def)
  have "\<exists>y. bkey_at n (bnode_getkeyoffset n (int j - 1)) = pieces [] es ! (j - 1) @ y" if "0 < j"
  proof -
    have "j - 1 < length es" "int j - 1 = int (j - 1)"
      using that j by simp_all
    then show ?thesis
      using array_reads(1,2) [OF a] by metis
  qed
  then show ?thesis
    using s h array_reads(2) [OF a, of j] by simp
qed

section \<open>Descending\<close>

definition header_addr :: "u8 \<times> u8 list \<Rightarrow> u32" where
  "header_addr h = SS_UINT4_LOADFROMDISK (take 4 (snd h))"

lemma getaddr_after:
  assumes "4 \<le> length (snd h)"
  shows "dbe_bkey_getaddr (bkey_after t h u @ y) = header_addr h"
proof -
  obtain b where "snd h = take 4 (snd h) @ b" "length (take 4 (snd h)) = 4"
    using assms by (metis append_take_drop_id length_take min_absorb2)
  then have "drop BKEY_ADDR (bkey_after t h u @ y) = take 4 (snd h) @ (b @ vtpl_encode (snd (cmpr t u)) @ y)"
    unfolding bkey_after_def bkey_bytes_def BKEY_ADDR_def by (simp add: drop_Cons')
  then show ?thesis
    using load4_prefix [of "take 4 (snd h)" _ "[]"] assms by (simp add: dbe_bkey_getaddr_def BKEY_LOADADDR_def header_addr_def)
qed

text \<open>The key whose child is taken: the first equal one, else the last one below the search key.\<close>

definition child_key :: "dbe_bkey_cmp_t \<Rightarrow> u8 \<times> u8 list \<Rightarrow> u8 list list \<Rightarrow> ((u8 \<times> u8 list) \<times> u8 list list) list
    \<Rightarrow> (u8 \<times> u8 list) \<times> u8 list list" where
  "child_key c hk key es =
    (let a = takeWhile (below c hk key) es; b = dropWhile (below c hk key) es
     in case b of e # _ \<Rightarrow> if snd e = key \<and> tie c hk (fst e) = 0 then e else last a | [] \<Rightarrow> last a)"

definition key_cmp :: "bool \<Rightarrow> dbe_bkey_cmp_t" where
  "key_cmp cmp_also_header = (if cmp_also_header then DBE_BKEY_CMP_ALL else DBE_BKEY_CMP_VTPL)"

lemma found_child:
  assumes "found es c hk key z j cmp ks" "es \<noteq> []" "below c hk key (hd es) \<or> snd (hd es) = key \<and> tie c hk (fst (hd es)) = 0"
  shows "cmp = 0 \<Longrightarrow> j < length es \<and> child_key c hk key es = es ! j"
    "cmp \<noteq> 0 \<Longrightarrow> 0 < j \<and> (cmp < 0 \<or> j = length es) \<and> child_key c hk key es = es ! (j - 1)"
proof -
  note t = found_takeWhile [OF assms(1)]
  have d: "drop j es = (if j < length es then es ! j # drop (Suc j) es else [])"
    by (simp add: Cons_nth_drop_Suc)
  have j: "j \<le> length es"
    using assms(1) by (simp add: found_def)
  show "cmp = 0 \<Longrightarrow> j < length es \<and> child_key c hk key es = es ! j"
    using assms(1) d unfolding child_key_def t(2,3) [symmetric] by (auto simp: found_def split: if_splits)
  show "0 < j \<and> (cmp < 0 \<or> j = length es) \<and> child_key c hk key es = es ! (j - 1)" if "cmp \<noteq> 0"
  proof -
    have "0 < j"
      using assms that by (cases j) (auto simp: found_def hd_conv_nth)
    moreover have "last (take j es) = es ! (j - 1)"
      using calculation j by (subst last_conv_nth) (auto simp: min_absorb2)
    ultimately show ?thesis
      using assms(1) d that unfolding child_key_def t(2,3) [symmetric] by (auto simp: found_def split: if_splits)
  qed
qed

text \<open>
  C10. The child that a node of the index levels gives for a key is that of the last key not above it, and of the first
  equal one if there are some, in the first layout and with the mismatch array alike, where the first key of the node is
  not above the search key, as it is when the tree is descended. The keys may differ in their number of fields, as truncated
  split keys do, but none may continue another one, and the search key must not continue one that occurs twice; the key
  that is chosen has an address.
\<close>

theorem bnode_searchnode_child:
  assumes "node_has n es" "search_key_ok es hk key" "es \<noteq> []" "4 \<le> length (snd (fst (child_key (key_cmp cmp_also_header) hk key es)))"
    and "below (key_cmp cmp_also_header) hk key (hd es) \<or> snd (hd es) = key \<and> tie (key_cmp cmp_also_header) hk (fst (hd es)) = 0"
  shows "dbe_bnode_searchnode ks n (bkey_bytes hk 0 key @ z) cmp_also_header = header_addr (fst (child_key (key_cmp cmp_also_header) hk key es))"
proof -
  let ?c = "key_cmp cmp_also_header"
  from search_found_at [OF assms(1-3), of ks z ?c]
  obtain keys j cmp klen ks' where s: "bnode_search n ks (bkey_bytes hk 0 key @ z) ?c = (keys, j, cmp, klen, ks')" "found es ?c hk key z j cmp ks'"
      "j < length es \<longrightarrow> (\<exists>y. bkey_at n keys = pieces [] es ! j @ y)"
      "0 < j \<longrightarrow> (\<exists>y. bkey_at n (if has_mismatcharray n then bnode_getkeyoffset n (int j - 1) else keys - klen) = pieces [] es ! (j - 1) @ y)"
    by blast
  note f = found_child [OF s(2) assms(3,5)]
  have n: "n_count n = length es" "j \<le> length es"
    using node_has_count [OF assms(1)] s(2) by (simp_all add: found_def)
  have r: "dbe_bnode_searchnode ks n (bkey_bytes hk 0 key @ z) cmp_also_header =
      dbe_bkey_getaddr (bkey_at n (if cmp < 0 \<or> j = length es then if has_mismatcharray n then bnode_getkeyoffset n (int j - 1) else keys - klen else keys))"
    using s(1) unfolding dbe_bnode_searchnode_def key_cmp_def [symmetric] by (simp add: n(1))
  show ?thesis
  proof (cases "cmp = 0")
    case True
    then show ?thesis
      using f(1) s(3) assms(4) getaddr_after [of "fst (es ! j)"] unfolding r by (auto simp: pieces_nth)
  next
    case False
    have "j - 1 < length es"
      using f(2) [OF False] n(2) by linarith
    then show ?thesis
      using f(2) [OF False] s(4) assms(4) getaddr_after [of "fst (es ! (j - 1))"] unfolding r by (auto simp: pieces_nth)
  qed
qed

text \<open>
  C9. The search by the mismatch array and the loop over the keys agree: after the keys of a node have been put in
  order and the array dropped, a search ends at the same position with the same verdict, at a key of the
  same bytes, and compresses the search key to the same bytes. No key of the node may continue another one, nor the
  search key one that occurs twice.
\<close>

theorem bnode_search_layouts:
  assumes "in_array n es offs" "search_key_ok es hk key" "es \<noteq> []" "25 \<le> length tk"
  shows "case bnode_search n ks (bkey_bytes hk 0 key @ z) c of (keys, j, cmp, klen, ks') \<Rightarrow>
    case bnode_search (bnode_reorder env False n) ks (bkey_bytes hk 0 key @ z) c of (keys2, j2, cmp2, klen2, ks2) \<Rightarrow>
    j2 = j \<and> sgn cmp2 = sgn cmp \<and> (j = 0 \<or> klen2 = klen) \<and>
    (j = length es \<or> take (dbe_bkey_getlength (bkey_at n keys)) (bkey_at n keys) =
       take (dbe_bkey_getlength (bkey_at (bnode_reorder env False n) keys2)) (bkey_at (bnode_reorder env False n) keys2)) \<and>
    (let k = dbe_bkey_search_compress ks' tk; k2 = dbe_bkey_search_compress ks2 tk
     in take (dbe_bkey_getlength k) k = take (dbe_bkey_getlength k2) k2)"
proof -
  let ?m = "bnode_reorder env False n"
  have ok: "node_ok [] es" "header_ok hk" "vtpl_fits key" "key \<noteq> []"
    using assms(2) by (auto simp: search_key_ok_def)
  have o: "in_order ?m es"
    by (rule reorder_has(1) [OF assms(1) ok(1)])
  obtain keys j cmp klen ks' where sa: "bnode_search n ks (bkey_bytes hk 0 key @ z) c = (keys, j, cmp, klen, ks')"
    and a: "found es c hk key z j cmp ks'" "j < length es \<longrightarrow> keys = offs ! j" "0 < j \<longrightarrow> klen = length (pieces [] es ! (j - 1))"
    using search_array_found [OF assms(1-3), of ks z c] by blast
  obtain j2 cmp2 ks2 where sb: "bnode_search ?m ks (bkey_bytes hk 0 key @ z) c =
      (offset_of es j2, j2, cmp2, if j2 = 0 then 0 else length (pieces [] es ! (j2 - 1)), ks2)" and b: "found es c hk key z j2 cmp2 ks2"
    using search_order_found [OF o assms(2,3), of ks z c] by blast
  have j: "j2 = j" "j \<le> length es"
    using found_takeWhile(1) [OF a(1)] found_takeWhile(1) [OF b(1)] a(1) by (simp_all add: found_def)
  have "sgn cmp2 = sgn cmp"
    using a(1) b(1) unfolding j(1) found_def by (auto simp: sgn_if split: if_splits)
  moreover have "take (dbe_bkey_getlength (bkey_at n keys)) (bkey_at n keys) =
      take (dbe_bkey_getlength (bkey_at ?m (offset_of es j))) (bkey_at ?m (offset_of es j))" if "j < length es"
    using a(2) that array_reads(2) [OF assms(1) that] order_reads [OF o that] piece_length(2) [OF ok(1) that] by auto
  moreover have l: "13 + length (snd hk) \<le> length tk"
    using header_length [OF ok(2)] assms(4) by simp
  obtain r r2 where r: "dbe_bkey_search_compress ks' tk = bkey_after (prev_key es j) hk key @ r"
      "dbe_bkey_search_compress ks2 tk = bkey_after (prev_key es j) hk key @ r2"
    using found_compress [OF a(1) assms(2) l] found_compress [OF b(1) assms(2) l] j(1) by blast
  have "take (dbe_bkey_getlength (dbe_bkey_search_compress ks' tk)) (dbe_bkey_search_compress ks' tk) =
      take (dbe_bkey_getlength (dbe_bkey_search_compress ks2 tk)) (dbe_bkey_search_compress ks2 tk)"
    unfolding r getlength_after(2) [OF ok(2-4)] ..
  ultimately show ?thesis
    using a(3) j unfolding sa sb by (cases "j < length es") (auto simp: Let_def)
qed

text \<open>Three keys, laid out by an array at the end of the block.\<close>

lemma witness_array:
  "let es = [((4, []), [[1], [2]]), ((4, []), [[1], [5]]), ((4, []), [[2], [9]])];
     n = \<lparr>n_len = length (node_bytes [] es), n_count = 3, n_level = 0, n_info = 0, n_dirty = False, n_bonsaip = True, n_seqinscount = 0,
       n_lastinsindex = 2, n_cpnum = 7, n_p = replicate 12 0 @ node_bytes [] es @ replicate 50 0, n_keysearchinfo_array = 0\<rparr>;
     env = \<lparr>dbe_bnode_usemismatcharray = True, dbe_cfg_singledeletemark = False, go_cpnum = 7,
       go_trxbuf = the (dbe_trxbuf_init 4 0 False), bkeybuf = replicate 25 0\<rparr>
   in in_array (snd (bnode_keysearchinfo_init env n)) es (map (offset_of es) [0..<3])"
proof -
  let ?es = "[((4, []), [[1], [2]]), ((4, []), [[1], [5]]), ((4, []), [[2], [9]])] :: ((u8 \<times> u8 list) \<times> u8 list list) list"
  let ?n = "\<lparr>n_len = length (node_bytes [] ?es), n_count = 3, n_level = 0, n_info = 0, n_dirty = False, n_bonsaip = True, n_seqinscount = 0,
       n_lastinsindex = 2, n_cpnum = 7, n_p = replicate 12 0 @ node_bytes [] ?es @ replicate 50 0, n_keysearchinfo_array = 0\<rparr>"
  have "node_has ?n ?es"
    by (rule node_has_block [where x = "replicate 12 0" and y = "replicate 50 0"])
      (simp_all add: has_mismatcharray_def BNODE_KEYS_def bkey_bytes_def bkey_after_def vtpl_encode_def encode_length)
  then have o: "in_order ?n ?es"
    by (auto simp: node_has_def in_array_def has_mismatcharray_def)
  have ok: "node_ok [] ?es"
    by (simp add: header_ok_def bkey_flags vtpl_fits_def chain_ok_def encode_length)
  show ?thesis
    using keysearchinfo_init_has [OF o ok, of "\<lparr>dbe_bnode_usemismatcharray = True, dbe_cfg_singledeletemark = False, go_cpnum = 7,
       go_trxbuf = the (dbe_trxbuf_init 4 0 False), bkeybuf = replicate 25 0\<rparr>"]
    by (simp add: Let_def split_beta BNODE_HEADERLEN_def BNODE_KEYS_def eval_nat_numeral)
qed

theorem bnode_search_layouts_witness:
  "let es = [((4, []), [[1], [2]]), ((4, []), [[1], [5]]), ((4, []), [[2], [9]])];
     n0 = \<lparr>n_len = length (node_bytes [] es), n_count = 3, n_level = 0, n_info = 0, n_dirty = False, n_bonsaip = True, n_seqinscount = 0,
       n_lastinsindex = 2, n_cpnum = 7, n_p = replicate 12 0 @ node_bytes [] es @ replicate 50 0, n_keysearchinfo_array = 0\<rparr>;
     env = \<lparr>dbe_bnode_usemismatcharray = True, dbe_cfg_singledeletemark = False, go_cpnum = 7,
       go_trxbuf = the (dbe_trxbuf_init 4 0 False), bkeybuf = replicate 25 0\<rparr>;
     n = snd (bnode_keysearchinfo_init env n0); hk = (4, []); key = [[1], [7, 1]]; tk = replicate 25 0
   in case bnode_search n undefined (bkey_bytes hk 0 key @ []) DBE_BKEY_CMP_ALL of (keys, j, cmp, klen, ks') \<Rightarrow>
    case bnode_search (bnode_reorder env False n) undefined (bkey_bytes hk 0 key @ []) DBE_BKEY_CMP_ALL of (keys2, j2, cmp2, klen2, ks2) \<Rightarrow>
    j2 = j \<and> sgn cmp2 = sgn cmp \<and> (j = 0 \<or> klen2 = klen) \<and>
    (j = length es \<or> take (dbe_bkey_getlength (bkey_at n keys)) (bkey_at n keys) =
       take (dbe_bkey_getlength (bkey_at (bnode_reorder env False n) keys2)) (bkey_at (bnode_reorder env False n) keys2)) \<and>
    (let k = dbe_bkey_search_compress ks' tk; k2 = dbe_bkey_search_compress ks2 tk
     in take (dbe_bkey_getlength k) k = take (dbe_bkey_getlength k2) k2)"
  unfolding Let_def
  by (rule bnode_search_layouts [unfolded Let_def], rule witness_array [unfolded Let_def])
    (simp_all add: search_key_ok_def header_ok_def bkey_flags vtpl_fits_def chain_ok_def encode_length)

theorem bnode_searchnode_child_witness:
  "let es = [((1, [9, 0, 0, 0]), [[1]]), ((1, [8, 0, 0, 0]), [[2], [5]]), ((1, [7, 0, 0, 0]), [[3]])]; hk = (4, []); key = [[2], [7, 1]];
     n = \<lparr>n_len = length (node_bytes [] es), n_count = 3, n_level = 1, n_info = 0, n_dirty = False, n_bonsaip = True, n_seqinscount = 0,
       n_lastinsindex = 2, n_cpnum = 7, n_p = replicate 12 0 @ node_bytes [] es @ replicate 50 0, n_keysearchinfo_array = 0\<rparr>
   in dbe_bnode_searchnode undefined n (bkey_bytes hk 0 key @ []) False = header_addr (fst (child_key (key_cmp False) hk key es)) \<and>
     header_addr (fst (child_key (key_cmp False) hk key es)) = 8"
  unfolding Let_def
  by (rule conjI, rule bnode_searchnode_child, rule node_has_block [where x = "replicate 12 0" and y = "replicate 50 0"])
    (simp_all add: has_mismatcharray_def BNODE_KEYS_def search_key_ok_def header_ok_def bkey_flags child_key_def below_def key_cmp_def
      tie_def header_addr_def vtpl_fits_def chain_ok_def encode_length bkey_bytes_def bkey_after_def vtpl_encode_def)

end
