(* ===== verification/Bnode_Delete.thy ===== *)
theory Bnode_Delete
  imports Bnode_Find
begin

text \<open>Deleting a key from a node.\<close>

section \<open>The keys with one less\<close>

definition delete_key :: "nat \<Rightarrow> 'a list \<Rightarrow> 'a list" where
  "delete_key j es = take j es @ drop (Suc j) es"

lemma delete_insert: "j < length es \<Longrightarrow> insert_key j (es ! j) (delete_key j es) = es"
  by (simp add: insert_key_def delete_key_def Cons_nth_drop_Suc)

lemma delete_key_nth:
  "j < length es \<Longrightarrow> i < j \<Longrightarrow> delete_key j es ! i = es ! i" "j < length es \<Longrightarrow> j \<le> i \<Longrightarrow> delete_key j es ! i = es ! Suc i"
  "j < length es \<Longrightarrow> length (delete_key j es) = length es - 1"
  by (auto simp: delete_key_def nth_append)

lemma delete_key_prev:
  assumes "j < length es"
  shows "i \<le> j \<Longrightarrow> prev_key (delete_key j es) i = prev_key es i" "j < i \<Longrightarrow> prev_key (delete_key j es) i = prev_key es (Suc i)"
  using delete_key_nth(1,2) [OF assms, of "i - 1"] by (auto simp: prev_key_def)

lemma delete_key_pieces:
  assumes "j < length es"
  shows "i < j \<Longrightarrow> pieces [] (delete_key j es) ! i = pieces [] es ! i"
    "Suc j < length es \<Longrightarrow> pieces [] (delete_key j es) ! j = bkey_after (prev_key es j) (fst (es ! Suc j)) (snd (es ! Suc j))"
    "j < i \<Longrightarrow> Suc i < length es \<Longrightarrow> pieces [] (delete_key j es) ! i = pieces [] es ! Suc i"
  using assms delete_key_nth [OF assms] delete_key_prev [OF assms] by (auto simp: pieces_nth)

lemma node_ok_drop_first: "node_ok t (x # es) \<Longrightarrow> node_ok t es"
  by (cases x; cases es) (auto intro: chain_ok_trans)

lemma delete_node_ok:
  assumes "node_ok [] es" "j < length es"
  shows "node_ok [] (delete_key j es)"
proof -
  have "es = take j es @ es ! j # drop (Suc j) es"
    using assms(2) by (simp add: Cons_nth_drop_Suc)
  then have "node_ok [] (take j es @ es ! j # drop (Suc j) es)"
    using assms(1) by simp
  then show ?thesis
    unfolding delete_key_def node_ok_append using node_ok_drop_first by blast
qed

lemma delete_order:
  assumes "in_order n es" "Suc j < length es" "NN = bkey_after (prev_key es j) (fst (es ! Suc j)) (snd (es ! Suc j))"
    and "K = pieces [] es ! j" "K' = pieces [] es ! Suc j" "length NN \<le> length K + length K'" "off = offset_of es j" "p = n_p n"
  shows "holds (buf_write (BNODE_KEYS + off) NN
      (buf_move (BNODE_KEYS + off + length NN) (BNODE_KEYS + off + (length K + length K')) (n_len n - off - (length K + length K')) p))
      BNODE_KEYS (node_bytes [] (delete_key j es))"
    and "n_len n + length NN - (length K + length K') = length (node_bytes [] (delete_key j es))"
    and "length (buf_write (BNODE_KEYS + off) NN
      (buf_move (BNODE_KEYS + off + length NN) (BNODE_KEYS + off + (length K + length K')) (n_len n - off - (length K + length K')) p)) = length p"
proof -
  let ?A = "concat (take j (pieces [] es))" and ?B = "concat (drop (Suc (Suc j)) (pieces [] es))"
  have pcs: "pieces [] es = take j (pieces [] es) @ K # K' # drop (Suc (Suc j)) (pieces [] es)"
    using assms(2,4,5) by (simp add: Cons_nth_drop_Suc)
  have bytes: "node_bytes [] es = ?A @ K @ K' @ ?B"
    using arg_cong [OF pcs, of concat] by (simp add: pieces_concat)
  have j: "j < length es"
    using assms(2) by simp
  have new: "pieces [] (delete_key j es) = take j (pieces [] es) @ NN # drop (Suc (Suc j)) (pieces [] es)"
  proof (rule nth_equalityI)
    show "length (pieces [] (delete_key j es)) = length (take j (pieces [] es) @ NN # drop (Suc (Suc j)) (pieces [] es))"
      using assms(2) by (simp add: delete_key_nth)
    fix i assume "i < length (pieces [] (delete_key j es))"
    then have i: "Suc i < length es"
      using assms(2) by (simp add: delete_key_nth)
    note q = delete_key_pieces [OF j]
    consider "i < j" | "i = j" | "j < i"
      by linarith
    then show "pieces [] (delete_key j es) ! i = (take j (pieces [] es) @ NN # drop (Suc (Suc j)) (pieces [] es)) ! i"
    proof cases
      case 3
      then obtain m where m: "i = Suc (j + m)"
        using less_imp_Suc_add by blast
      show ?thesis
        using 3 i q(3) [of i] unfolding m by (simp add: nth_append)
    qed (use assms(2,3) q i in \<open>simp_all add: nth_append\<close>)
  qed
  have newb: "node_bytes [] (delete_key j es) = ?A @ NN @ ?B"
    using arg_cong [OF new, of concat] by (simp add: pieces_concat)
  have n: "n_len n = length (?A @ K @ K' @ ?B)" "holds p BNODE_KEYS (?A @ K @ K' @ ?B)" "off = length ?A"
    using assms(1,7,8) bytes by (simp_all add: in_order_def offset_of_def)
  show "n_len n + length NN - (length K + length K') = length (node_bytes [] (delete_key j es))"
    using n(1) by (simp add: newb)
  have room: "BNODE_KEYS + length (?A @ K @ K' @ ?B) \<le> length p"
    using holds_length [OF n(2)] .
  let ?dst = "BNODE_KEYS + off + length NN" and ?src = "BNODE_KEYS + off + (length K + length K')"
  have h: "holds p BNODE_KEYS ?A" "holds p ?src ?B"
    using n(2) unfolding holds_append n(3) by (simp_all add: add.assoc)
  have lb: "n_len n - off - (length K + length K') = length ?B"
    using n(1,3) by simp
  let ?q = "buf_move ?dst ?src (length ?B) p"
  have bounds: "?dst + length ?B \<le> length p" "?src + length ?B \<le> length p"
    using room assms(6) n(3) by simp_all
  have q: "holds ?q BNODE_KEYS ?A" "holds ?q ?dst ?B" "length ?q = length p"
    using holds_move_other [OF h(1), of ?dst "length ?B" ?src] holds_move [OF h(2), of ?dst] bounds n(3) by simp_all
  let ?q2 = "buf_write (BNODE_KEYS + off) NN ?q"
  have q2: "holds ?q2 BNODE_KEYS ?A" "holds ?q2 ?dst ?B" "holds ?q2 (BNODE_KEYS + off) NN" "length ?q2 = length p"
    using holds_write_other [OF q(1), of "BNODE_KEYS + off" NN] holds_write_other [OF q(2), of "BNODE_KEYS + off" NN]
      holds_write [of "BNODE_KEYS + off" NN ?q] q(3) bounds n(3) by simp_all
  show "holds (buf_write (BNODE_KEYS + off) NN (buf_move ?dst ?src (n_len n - off - (length K + length K')) p))
      BNODE_KEYS (node_bytes [] (delete_key j es))"
    "length (buf_write (BNODE_KEYS + off) NN (buf_move ?dst ?src (n_len n - off - (length K + length K')) p)) = length p"
    using q2 unfolding lb newb holds_append by (simp_all add: n(3) add.assoc)
qed

lemma delete_array:
  assumes "in_array n es offs" "Suc j < length es" "NN = bkey_after (prev_key es j) (fst (es ! Suc j)) (snd (es ! Suc j))"
    and "kpos = offs ! Suc j \<and> length NN \<le> length (pieces [] es ! Suc j) \<or>
      kpos = offs ! j \<and> (length NN \<le> length (pieces [] es ! j) \<or>
        offs ! j + length (pieces [] es ! j) = offs ! Suc j \<and> length NN \<le> length (pieces [] es ! j) + length (pieces [] es ! Suc j))"
    and "a = n_keysearchinfo_array n + 4" "p1 = buf_move a (a - 4) (4 * j) (n_p n)"
    and "p2 = bnode_setkeysearchinfo (a + 4 * j) (min 255 (fst (cmpr (prev_key es j) (snd (es ! Suc j)))))
      (first_byte (snd (cmpr (prev_key es j) (snd (es ! Suc j))))) kpos p1"
    and "has_mismatcharray m" "n_count m = length es - 1" "n_len m = n_len n" "n_keysearchinfo_array m = a"
    and "n_p m = buf_write (BNODE_KEYS + kpos) NN p2"
  shows "in_array m (delete_key j es) ((delete_key j offs)[j := kpos])"
proof -
  let ?p = "n_p n" and ?K = "\<lambda>i. pieces [] es ! i" and ?arr = "n_keysearchinfo_array n" and ?p3 = "buf_write (BNODE_KEYS + kpos) NN p2"
  have n: "length offs = length es" "?arr + 4 * length es = length ?p" "BNODE_KEYS + n_len n \<le> ?arr" "length ?p \<le> 65536"
      "apart (pieces [] es) offs"
      "\<And>i. i < length es \<Longrightarrow> offs ! i + length (?K i) \<le> n_len n" "\<And>i. i < length es \<Longrightarrow> holds ?p (BNODE_KEYS + offs ! i) (?K i)"
      "\<And>i. i < length es \<Longrightarrow> holds ?p (?arr + 4 * i) (entry (prev_key es i) (snd (es ! i)) (offs ! i))"
    using assms(1) by (auto simp: in_array_def)
  have j: "j < length es" "j < length offs"
    using assms(2) n(1) by simp_all
  have ap: "offs ! i + length (?K i) \<le> offs ! k \<or> offs ! k + length (?K k) \<le> offs ! i" if "i < length es" "k < length es" "i \<noteq> k" for i k
    using n(5) that by (simp add: apart_def)
  have kn: "kpos + length NN \<le> n_len n"
    using assms(4) n(6) [OF assms(2)] n(6) [OF j(1)] by auto
  have sep: "offs ! i + length (?K i) \<le> kpos \<or> kpos + length NN \<le> offs ! i" if "i < length es" "i \<noteq> j" "i \<noteq> Suc j" for i
  proof -
    have "0 < length (?K i)"
      using that(1) by (simp add: pieces_nth bkey_after_def bkey_bytes_def)
    then show ?thesis
      using assms(4) ap [OF that(1) j(1) that(2)] ap [OF that(1) assms(2) that(3)] by linarith
  qed
  have l: "length p1 = length ?p" "length p2 = length ?p"
    using assms(2,5-7) n(2) by (simp_all add: setinfo_holds)
  have b2: "a + 4 * j + 4 \<le> length p1"
    using assms(2,5) n(2) l by simp
  have f1: "holds p1 b k" if "holds ?p b k" "b + length k \<le> a \<or> a + 4 * j \<le> b" for b k
    unfolding assms(6) using that assms(2,5) n(2) by (intro holds_move_other) auto
  have f2: "holds p2 b k" if "holds p1 b k" "b + length k \<le> a + 4 * j \<or> a + 4 * Suc j \<le> b" for b k
    unfolding assms(7) using that b2 by (intro setinfo_holds(2)) auto
  have f3: "holds ?p3 b k" if "holds p2 b k" "b + length k \<le> BNODE_KEYS + kpos \<or> BNODE_KEYS + kpos + length NN \<le> b" for b k
    using that kn n(2,3) l(2) by (intro holds_write_other) auto
  have key: "holds ?p3 (BNODE_KEYS + offs ! i) (?K i)" if "i < length es" "i \<noteq> j" "i \<noteq> Suc j" for i
    using n(3) n(6,7) [OF that(1)] sep [OF that] assms(5) by (intro f3 f2 f1) auto
  have nn: "holds ?p3 (BNODE_KEYS + kpos) NN"
    using kn n(2,3) l(2) by (intro holds_write) simp
  have before: "holds ?p3 (a + 4 * i) (entry (prev_key es i) (snd (es ! i)) (offs ! i))" if "i < j" for i
  proof (intro f3 f2)
    have "holds ?p ((a - 4) + 4 * i) (entry (prev_key es i) (snd (es ! i)) (offs ! i))"
      using n(8) [of i] that assms(2,5) by simp
    from holds_move_part [OF this, of "4 * j" a]
    show "holds p1 (a + 4 * i) (entry (prev_key es i) (snd (es ! i)) (offs ! i))"
      unfolding assms(6) using that assms(2,5) n(2) by simp
  qed (use that kn n(3) assms(5) in auto)
  have behind: "holds ?p3 (a + 4 * i) (entry (prev_key es (Suc i)) (snd (es ! Suc i)) (offs ! Suc i))" if "j < i" "Suc i < length es" for i
  proof (intro f3 f2 f1)
    show "holds ?p (a + 4 * i) (entry (prev_key es (Suc i)) (snd (es ! Suc i)) (offs ! Suc i))"
      using n(8) [OF that(2)] by (simp add: assms(5) add.assoc)
  qed (use that kn n(3) assms(5) in auto)
  have at: "holds ?p3 (a + 4 * j) (entry (prev_key es j) (snd (es ! Suc j)) kpos)"
  proof (intro f3)
    show "holds p2 (a + 4 * j) (entry (prev_key es j) (snd (es ! Suc j)) kpos)"
      unfolding assms(7) entry_def by (rule setinfo_holds(1) [OF b2])
  qed (use kn n(3) assms(5) in auto)
  note q = delete_key_pieces [OF j(1)] and ek = delete_key_nth [OF j(1)] and pk = delete_key_prev [OF j(1)]
  have ok: "i < j \<Longrightarrow> (delete_key j offs)[j := kpos] ! i = offs ! i" "(delete_key j offs)[j := kpos] ! j = kpos"
    "j < i \<Longrightarrow> (delete_key j offs)[j := kpos] ! i = offs ! Suc i" "length ((delete_key j offs)[j := kpos]) = length es - 1" for i
    using delete_key_nth [OF j(2)] assms(2) n(1) by simp_all
  show ?thesis
    unfolding in_array_def
  proof (intro conjI allI impI)
    show "n_keysearchinfo_array m + 4 * length (delete_key j es) = length (n_p m)"
      using assms(2,5,11,12) n(2) l(2) kn n(3) by (simp add: ek(3))
    show "BNODE_KEYS + n_len m \<le> n_keysearchinfo_array m" "length (n_p m) \<le> 65536"
      using assms(2,5,10-12) n(2-4) l(2) kn by simp_all
    fix i assume "i < length (delete_key j es)"
    then have i: "Suc i < length es"
      by (simp add: ek(3))
    have c: "i < j \<or> i = j \<or> j < i"
      by linarith
    show "(delete_key j offs)[j := kpos] ! i + length (pieces [] (delete_key j es) ! i) \<le> n_len m"
      using c n(6) [of i] n(6) [OF i] kn i assms(2,3,10) q ok by auto
    show "holds (n_p m) (BNODE_KEYS + (delete_key j offs)[j := kpos] ! i) (pieces [] (delete_key j es) ! i)"
      using c key [of i] key [OF i] nn i assms(2,3,12) q ok by auto
    show "holds (n_p m) (n_keysearchinfo_array m + 4 * i)
      (entry (prev_key (delete_key j es) i) (snd (delete_key j es ! i)) ((delete_key j offs)[j := kpos] ! i))"
      using c before [of i] behind [of i] at i assms(11,12) ek ok pk by auto
  next
    have old: "\<exists>k<length es. (delete_key j offs)[j := kpos] ! i = offs ! k \<and> pieces [] (delete_key j es) ! i = ?K k \<and>
        k = (if i < j then i else Suc i)" if "Suc i < length es" "i \<noteq> j" for i
      using that q(1,3) [of i] ok by (cases "i < j") auto
    show "apart (pieces [] (delete_key j es)) ((delete_key j offs)[j := kpos])"
      unfolding apart_def
    proof (intro allI impI)
      fix i k
      assume "i < length (pieces [] (delete_key j es))" "k < length (pieces [] (delete_key j es))" and ne: "i \<noteq> k"
      then have ik: "Suc i < length es" "Suc k < length es"
        by (simp_all add: ek(3))
      let ?R = "\<lambda>i k. (delete_key j offs)[j := kpos] ! i + length (pieces [] (delete_key j es) ! i) \<le> (delete_key j offs)[j := kpos] ! k"
      have mid: "?R i j \<or> ?R j i" if i: "Suc i < length es" "i \<noteq> j" for i
      proof -
        obtain k where k: "k < length es" "(delete_key j offs)[j := kpos] ! i = offs ! k" "pieces [] (delete_key j es) ! i = ?K k"
            "k = (if i < j then i else Suc i)"
          using old [OF i] by blast
        then have "k \<noteq> j" "k \<noteq> Suc j"
          using i(2) by auto
        then show ?thesis
          using sep [OF k(1)] k(2,3) ok(2) q(2) [OF assms(2)] assms(3) by simp
      qed
      show "?R i k \<or> ?R k i"
      proof (cases "i = j \<or> k = j")
        case True
        then show ?thesis
          using mid ik ne by blast
      next
        case False
        then obtain i' k' where o: "i' < length es" "(delete_key j offs)[j := kpos] ! i = offs ! i'" "pieces [] (delete_key j es) ! i = ?K i'"
            "i' = (if i < j then i else Suc i)"
            "k' < length es" "(delete_key j offs)[j := kpos] ! k = offs ! k'" "pieces [] (delete_key j es) ! k = ?K k'"
            "k' = (if k < j then k else Suc k)"
          using old [OF ik(1)] old [OF ik(2)] by blast
        then have "i' \<noteq> k'"
          using ne False by (auto split: if_splits)
        then show ?thesis
          using ap [OF o(1,5)] o(2,3,6,7) by simp
      qed
    qed
  qed (use assms(8,9) ek(3) ok(4) in simp_all)
qed


lemma in_array_length: "in_array n es offs \<Longrightarrow> n_keysearchinfo_array n + 4 * length es = length (n_p n)"
  by (simp add: in_array_def)

text \<open>The last key.\<close>

lemma delete_key_last: "delete_key (length es - 1) es = butlast es"
  by (cases es rule: rev_cases) (simp_all add: delete_key_def)

lemma butlast_pieces: "pieces t (butlast es) = butlast (pieces t es)"
  by (cases es rule: rev_cases) (auto simp: pieces_append)

lemma prev_key_butlast: "i < length es \<Longrightarrow> prev_key (butlast es) i = prev_key es i"
  by (auto simp: prev_key_def nth_butlast)

lemma delete_array_last:
  assumes "in_array n es offs" "es \<noteq> []" "a = n_keysearchinfo_array n + 4"
    and "has_mismatcharray m" "n_count m = length es - 1" "n_len m = n_len n" "n_keysearchinfo_array m = a"
    and "n_p m = buf_move a (a - 4) (4 * (length es - 1)) (n_p n)"
  shows "in_array m (butlast es) (butlast offs)"
proof -
  let ?p = "n_p n" and ?arr = "n_keysearchinfo_array n"
  have n: "length offs = length es" "?arr + 4 * length es = length ?p" "BNODE_KEYS + n_len n \<le> ?arr" "length ?p \<le> 65536"
      "apart (pieces [] es) offs"
      "\<And>i. i < length es \<Longrightarrow> offs ! i + length (pieces [] es ! i) \<le> n_len n"
      "\<And>i. i < length es \<Longrightarrow> holds ?p (BNODE_KEYS + offs ! i) (pieces [] es ! i)"
      "\<And>i. i < length es \<Longrightarrow> holds ?p (?arr + 4 * i) (entry (prev_key es i) (snd (es ! i)) (offs ! i))"
    using assms(1) by (auto simp: in_array_def)
  have c: "0 < length es"
    using assms(2) by simp
  have b: "a + 4 * (length es - 1) \<le> length ?p" "a - 4 + 4 * (length es - 1) \<le> length ?p"
    using n(2) c assms(3) by linarith+
  have key: "holds (n_p m) (BNODE_KEYS + offs ! i) (pieces [] es ! i)" if "i < length es" for i
    unfolding assms(8) using n(3) n(6) [OF that] b assms(3) by (intro holds_move_other [OF n(7) [OF that]]) auto
  have ent: "holds (n_p m) (a + 4 * i) (entry (prev_key es i) (snd (es ! i)) (offs ! i))" if "Suc i < length es" for i
  proof -
    have "holds ?p ((a - 4) + 4 * i) (entry (prev_key es i) (snd (es ! i)) (offs ! i))"
      using n(8) [of i] that assms(3) by simp
    from holds_move_part [OF this, of "4 * (length es - 1)" a] show ?thesis
      unfolding assms(8) using that b by simp
  qed
  show ?thesis
    unfolding in_array_def butlast_pieces
  proof (intro conjI allI impI)
    show "n_keysearchinfo_array m + 4 * length (butlast es) = length (n_p m)"
      using n(2) c assms(3,7,8) b by simp
    show "BNODE_KEYS + n_len m \<le> n_keysearchinfo_array m" "length (n_p m) \<le> 65536"
      using n(3,4) assms(3,6-8) b by simp_all
    fix i assume "i < length (butlast es)"
    then have i: "Suc i < length es"
      by simp
    show "butlast offs ! i + length (butlast (pieces [] es) ! i) \<le> n_len m"
      using n(6) [of i] i n(1) assms(6) by (simp add: nth_butlast)
    show "holds (n_p m) (BNODE_KEYS + butlast offs ! i) (butlast (pieces [] es) ! i)"
      using key [of i] i n(1) by (simp add: nth_butlast)
    show "holds (n_p m) (n_keysearchinfo_array m + 4 * i) (entry (prev_key (butlast es) i) (snd (butlast es ! i)) (butlast offs ! i))"
      using ent [OF i] i n(1) assms(7) by (simp add: nth_butlast prev_key_butlast)
  next
    show "apart (butlast (pieces [] es)) (butlast offs)"
      using n(1,5) unfolding apart_def by (simp add: nth_butlast)
  qed (use assms(4,5) n(1) in simp_all)
qed

lemma bytes_butlast: "es \<noteq> [] \<Longrightarrow> node_bytes [] es = node_bytes [] (butlast es) @ pieces [] es ! (length es - 1)"
proof -
  assume "es \<noteq> []"
  then have "pieces [] es = butlast (pieces [] es) @ [pieces [] es ! (length es - 1)]"
    by (metis append_butlast_last_id last_conv_nth length_0_conv pieces_length)
  then have "concat (pieces [] es) = concat (butlast (pieces [] es)) @ pieces [] es ! (length es - 1)"
    by (metis concat_append concat.simps append_Nil2)
  then show ?thesis
    by (simp add: pieces_concat flip: butlast_pieces)
qed

lemma delete_order_last:
  assumes "in_order n es" "es \<noteq> []" "\<not> has_mismatcharray m" "n_count m = length es - 1" "n_p m = n_p n"
    and "n_len m = n_len n - length (pieces [] es ! (length es - 1))"
  shows "in_order m (butlast es)"
  using assms unfolding in_order_def bytes_butlast [OF assms(2)] holds_append by auto

section \<open>The deletion at a position\<close>

text \<open>What the deletion makes of the key behind.\<close>

lemma reexpand_at:
  assumes "node_ok [] es" "Suc j < length es" "NN = bkey_after (prev_key es j) (fst (es ! Suc j)) (snd (es ! Suc j))"
  shows "\<exists>r. dbe_bkey_reexpand_delete buf (pieces [] es ! j @ x) (pieces [] es ! Suc j @ y) = NN @ r"
    "dbe_bkey_getlength (NN @ r) = length NN" "put_bkey off (NN @ r) n = n\<lparr>n_p := buf_write (BNODE_KEYS + off) NN (n_p n)\<rparr>"
    "key_searchinfo (NN @ r) = (min 255 (fst (cmpr (prev_key es j) (snd (es ! Suc j)))), first_byte (snd (cmpr (prev_key es j) (snd (es ! Suc j)))))"
    "length NN + length (snd (fst (es ! j))) \<le> length (pieces [] es ! j) + length (pieces [] es ! Suc j) + 3"
proof -
  have j: "j < length es"
    using assms(2) by simp
  note a = node_ok_nth [OF assms(1) j] and b = node_ok_nth [OF assms(1,2)]
  have prev: "prev_key es (Suc j) = snd (es ! j)"
    by (simp add: prev_key_def)
  have ne: "snd (es ! Suc j) \<noteq> []"
    using chain_ok_nonempty [OF b(1)] .
  show "\<exists>r. dbe_bkey_reexpand_delete buf (pieces [] es ! j @ x) (pieces [] es ! Suc j @ y) = NN @ r"
    using reexpand_after [OF a(2) b(2) a(3) b(3) a(1) b(1) [unfolded prev] b(4) a(4)]
    unfolding assms(3) pieces_nth [OF j] pieces_nth [OF assms(2)] prev by blast
  show "dbe_bkey_getlength (NN @ r) = length NN" "put_bkey off (NN @ r) n = n\<lparr>n_p := buf_write (BNODE_KEYS + off) NN (n_p n)\<rparr>"
    unfolding assms(3) using getlength_after(1) [OF b(2,3) ne] put_after [OF b(2,3) ne] by blast+
  show "key_searchinfo (NN @ r) = (min 255 (fst (cmpr (prev_key es j) (snd (es ! Suc j)))), first_byte (snd (cmpr (prev_key es j) (snd (es ! Suc j)))))"
    unfolding assms(3) by (rule searchinfo_after [OF b(2,3) ne b(4)])
  show "length NN + length (snd (fst (es ! j))) \<le> length (pieces [] es ! j) + length (pieces [] es ! Suc j) + 3"
    using reexpand_growth [OF a(1) b(1) [unfolded prev]] unfolding assms(3) pieces_nth [OF j] pieces_nth [OF assms(2)] prev .
qed

lemma dirty_reads:
  "bkey_at (n\<lparr>n_dirty := d\<rparr>) a = bkey_at n a" "bnode_getkeyoffset (n\<lparr>n_dirty := d\<rparr>) i = bnode_getkeyoffset n i"
  "reexpand_offset (n\<lparr>n_dirty := d\<rparr>) = reexpand_offset n"
proof -
  show off: "bnode_getkeyoffset (n\<lparr>n_dirty := d\<rparr>) i = bnode_getkeyoffset n i" for i
    by (simp add: bnode_getkeyoffset_def)
  show "reexpand_offset (n\<lparr>n_dirty := d\<rparr>) = reexpand_offset n"
    by (simp add: reexpand_offset_def off fun_eq_iff Let_def)
qed (simp add: bkey_at_def)

lemma deletekey_single:
  assumes "n_count n = 1"
  shows "\<exists>n'. bnode_deletekey_atpos env n keys k dkindex deleteblob = Some (True, deleted_blobs n (bkey_at n keys) k deleteblob, n') \<and>
    n_count n' = 0 \<and> n_len n' = 0 \<and> same_node n n'"
  by (subst bnode_deletekey_atpos.simps) (simp add: assms Let_def same_node_def)

text \<open>With the array: the key behind stays, or moves to the place of the deleted one.\<close>

lemma deletekey_array_fits:
  assumes "in_array n es offs" "node_ok [] es" "1 < length es" "j < length es" "4 \<le> length (snd (fst (es ! j)))"
    and "Suc j < length es \<longrightarrow> offs ! Suc j = offs ! j + length (pieces [] es ! j) \<or>
      reexpand_offset n (offs ! j) (int j) (length (pieces [] es ! j)) (length (pieces [] es ! Suc j))
        (length (bkey_after (prev_key es j) (fst (es ! Suc j)) (snd (es ! Suc j)))) \<noteq> None"
  shows "\<exists>n'. bnode_deletekey_atpos env n (offs ! j) k (int j) deleteblob =
      Some (False, deleted_blobs n (bkey_at n (offs ! j)) k deleteblob, n') \<and> node_has n' (delete_key j es) \<and> same_node n n'"
proof -
  have n: "has_mismatcharray n" "n_count n = length es" "n_keysearchinfo_array n + 4 * length es = length (n_p n)"
    using assms(1) by (auto simp: in_array_def)
  have count: "n_count n \<noteq> 1" "n_count n = length es" "int j = int (n_count n) - 1 \<longleftrightarrow> Suc j = length es"
    using n(2) assms(3) by auto
  obtain x where x: "bkey_at n (offs ! j) = pieces [] es ! j @ x"
    using array_reads(2) [OF assms(1,4)] by blast
  have dl: "dbe_bkey_getlength (pieces [] es ! j @ x) = length (pieces [] es ! j)"
    by (rule piece_length(1) [OF assms(2,4)])
  show ?thesis
  proof (cases "Suc j = length es")
    case True
    let ?m = "n\<lparr>n_dirty := True, n_p := buf_move (n_keysearchinfo_array n + 4) (n_keysearchinfo_array n) (4 * (length es - 1)) (n_p n),
       n_keysearchinfo_array := n_keysearchinfo_array n + 4, n_count := length es - 1\<rparr>"
    have "in_array ?m (butlast es) (butlast offs)"
      using n(1) assms(4) by (intro delete_array_last [OF assms(1) _ refl]) (auto simp: has_mismatcharray_def)
    then have "node_has ?m (delete_key j es)"
      using True delete_key_last [of es] by (metis diff_Suc_1 node_has_def)
    moreover have "same_node n ?m"
      using n(3) assms(3) by (simp add: same_node_def)
    ultimately show ?thesis
      using n(1) count True
      by (intro exI [of _ ?m]) (subst bnode_deletekey_atpos.simps, simp add: Let_def has_mismatcharray_def)
  next
    case False
    then have sj: "Suc j < length es"
      using assms(4) by simp
    let ?NN = "bkey_after (prev_key es j) (fst (es ! Suc j)) (snd (es ! Suc j))"
    have ij: "bnode_getkeyoffset n (int j + 1) = offs ! Suc j" "bnode_getkeyoffset n (int j) = offs ! j"
      using array_reads(1) [OF assms(1) sj] array_reads(1) [OF assms(1,4)] by (simp_all add: add.commute)
    obtain y where y: "bkey_at n (offs ! Suc j) = pieces [] es ! Suc j @ y"
      using array_reads(2) [OF assms(1) sj] by blast
    have nl: "dbe_bkey_getlength (pieces [] es ! Suc j @ y) = length (pieces [] es ! Suc j)"
      by (rule piece_length(1) [OF assms(2) sj])
    note re = reexpand_at [OF assms(2) sj refl]
    obtain r where r: "dbe_bkey_reexpand_delete (bkeybuf env) (pieces [] es ! j @ x) (pieces [] es ! Suc j @ y) = ?NN @ r"
      using re(1) by blast
    obtain kpos where kpos: "reexpand_offset n (offs ! j) (int j) (length (pieces [] es ! j)) (length (pieces [] es ! Suc j)) (length ?NN) = Some kpos"
      using assms(6) sj ij unfolding reexpand_offset_def Let_def by (auto split: if_splits)
    have place: "kpos = offs ! Suc j \<and> length ?NN \<le> length (pieces [] es ! Suc j) \<or>
      kpos = offs ! j \<and> (length ?NN \<le> length (pieces [] es ! j) \<or>
        offs ! j + length (pieces [] es ! j) = offs ! Suc j \<and> length ?NN \<le> length (pieces [] es ! j) + length (pieces [] es ! Suc j))"
      using kpos ij re(5) assms(5) unfolding reexpand_offset_def Let_def by (auto split: if_splits)
    let ?a = "n_keysearchinfo_array n + 4"
    let ?p2 = "bnode_setkeysearchinfo (?a + 4 * j) (min 255 (fst (cmpr (prev_key es j) (snd (es ! Suc j)))))
      (first_byte (snd (cmpr (prev_key es j) (snd (es ! Suc j))))) kpos (buf_move ?a (?a - 4) (4 * j) (n_p n))"
    let ?m = "n\<lparr>n_dirty := True, n_p := buf_write (BNODE_KEYS + kpos) ?NN ?p2, n_keysearchinfo_array := ?a, n_count := length es - 1\<rparr>"
    have arr: "in_array ?m (delete_key j es) ((delete_key j offs)[j := kpos])"
      using n(1) by (intro delete_array [OF assms(1) sj refl place refl refl refl]) (simp_all add: has_mismatcharray_def)
    have "n_keysearchinfo_array ?m = ?a"
      by simp
    then have "length (n_p ?m) = length (n_p n)"
      using in_array_length [OF arr] n(3) sj delete_key_nth(3) [OF assms(4)] by linarith
    then have "same_node n ?m"
      by (simp add: same_node_def)
    moreover have "bnode_deletekey_atpos env n (offs ! j) k (int j) deleteblob =
        Some (False, deleted_blobs n (bkey_at n (offs ! j)) k deleteblob, ?m)"
      using n(1) count False x y ij kpos
      by (subst bnode_deletekey_atpos.simps)
        (simp add: Let_def has_mismatcharray_def dirty_reads dl nl r re(2-4))
    ultimately show ?thesis
      using arr by (auto simp: node_has_def)
  qed
qed


lemma reorder_same: "in_array n es offs \<Longrightarrow> node_ok [] es \<Longrightarrow> same_node n (bnode_reorder env False n)"
  using reorder_has(3) [of n es offs env] by (simp add: same_node_def) (simp add: bnode_reorder_def bnode_info_setmismatcharray_def Let_def)

text \<open>Where there is no room, the keys are put in order first; then there is.\<close>

lemma deletekey_array:
  assumes "in_array n es offs" "node_ok [] es" "1 < length es" "j < length es" "4 \<le> length (snd (fst (es ! j)))" "dbe_bnode_usemismatcharray env"
  shows "\<exists>n'. bnode_deletekey_atpos env n (offs ! j) k (int j) deleteblob =
      Some (False, deleted_blobs n (bkey_at n (offs ! j)) k deleteblob, n') \<and> node_has n' (delete_key j es) \<and> same_node n n'"
proof -
  let ?r = "reexpand_offset n (offs ! j) (int j) (length (pieces [] es ! j)) (length (pieces [] es ! Suc j))
    (length (bkey_after (prev_key es j) (fst (es ! Suc j)) (snd (es ! Suc j))))"
  show ?thesis
  proof (cases "Suc j < length es \<longrightarrow> offs ! Suc j = offs ! j + length (pieces [] es ! j) \<or> ?r \<noteq> None")
    case True
    then show ?thesis
      by (rule deletekey_array_fits [OF assms(1-5)])
  next
    case False
    then have sj: "Suc j < length es" and none: "?r = None"
      by auto
    have n: "has_mismatcharray n" "n_count n = length es" "n_keysearchinfo_array n + 4 * length es = length (n_p n)"
        "BNODE_KEYS + n_len n \<le> n_keysearchinfo_array n"
      using assms(1) by (auto simp: in_array_def)
    obtain x where x: "bkey_at n (offs ! j) = pieces [] es ! j @ x"
      using array_reads(2) [OF assms(1,4)] by blast
    obtain y where y: "bkey_at n (offs ! Suc j) = pieces [] es ! Suc j @ y"
      using array_reads(2) [OF assms(1) sj] by blast
    have l: "dbe_bkey_getlength (pieces [] es ! j @ x) = length (pieces [] es ! j)"
      "dbe_bkey_getlength (pieces [] es ! Suc j @ y) = length (pieces [] es ! Suc j)"
      using piece_length(1) [OF assms(2,4)] piece_length(1) [OF assms(2) sj] by blast+
    have ij: "bnode_getkeyoffset n (int j + 1) = offs ! Suc j"
      using array_reads(1) [OF assms(1) sj] by (simp add: add.commute)
    note re = reexpand_at [OF assms(2) sj refl]
    obtain r where r: "dbe_bkey_reexpand_delete (bkeybuf env) (pieces [] es ! j @ x) (pieces [] es ! Suc j @ y) =
        bkey_after (prev_key es j) (fst (es ! Suc j)) (snd (es ! Suc j)) @ r"
      using re(1) by blast
    let ?d = "n\<lparr>n_dirty := True\<rparr>"
    let ?o = "bnode_reorder env False ?d"
    let ?m = "snd (bnode_keysearchinfo_init env ?o)"
    have d: "in_array ?d es offs"
      using assms(1) by (simp add: in_array_def has_mismatcharray_def)
    note o = reorder_has [OF d assms(2), of env]
    have room: "BNODE_HEADERLEN + n_len ?o + n_count ?o * 4 \<le> length (n_p ?o)"
      using o n(3,4) by (simp add: BNODE_HEADERLEN_def in_order_def)
    have m: "in_array ?m es (map (offset_of es) [0..<length es])" "length (n_p ?m) = length (n_p ?o)" "same_node ?o ?m"
      using keysearchinfo_init_has [OF o(1) assms(2), of env] room assms(6) by (auto simp: same_node_def BNODE_HEADERLEN_def split: prod.splits)
    have same: "same_node n ?m"
      using reorder_same [OF d assms(2), of env] m(3) by (simp add: same_node_def)
    have adj: "map (offset_of es) [0..<length es] ! Suc j = map (offset_of es) [0..<length es] ! j + length (pieces [] es ! j)"
      using sj by (simp add: offset_of_simps)
    obtain blobs n' where n': "bnode_deletekey_atpos env ?m (bnode_getkeyoffset ?m (int j)) k (int j) False = Some (False, blobs, n')"
        "node_has n' (delete_key j es)" "same_node ?m n'"
      using deletekey_array_fits [OF m(1) assms(2-5), of env k False] adj unfolding array_reads(1) [OF m(1) assms(4)] by blast
    have re_m: "bnode_reorder env True ?d = ?m"
      by (simp add: bnode_reorder_def Let_def)
    have "bnode_deletekey_atpos env n (offs ! j) k (int j) deleteblob =
        Some (False, deleted_blobs n (bkey_at n (offs ! j)) k deleteblob, n')"
      using n(1,2) sj assms(3) x y ij none n'(1)
      by (subst bnode_deletekey_atpos.simps)
        (simp add: Let_def has_mismatcharray_def dirty_reads l r re(2) re_m)
    then show ?thesis
      using n'(2,3) same same_node_trans by blast
  qed
qed

lemma offset_of_last: "i < length es \<Longrightarrow> offset_of es i + length (pieces [] es ! i) = length (node_bytes [] es) \<longleftrightarrow> Suc i = length es"
proof -
  assume i: "i < length es"
  show ?thesis
  proof (cases "Suc i = length es")
    case True
    then show ?thesis
      using offset_of_simps(2) [OF i] offset_of_simps(3) [of es] by simp
  next
    case False
    then have "Suc i < length es"
      using i by simp
    then have "offset_of es (Suc i) + length (pieces [] es ! Suc i) \<le> length (node_bytes [] es)" "0 < length (pieces [] es ! Suc i)"
      using offset_of_mono [of "Suc i" "length es" es] by (simp_all add: offset_of_simps pieces_nth bkey_after_def bkey_bytes_def)
    then show ?thesis
      using offset_of_simps(2) [OF i] False by linarith
  qed
qed

lemma deletekey_order:
  assumes "in_order n es" "node_ok [] es" "1 < length es" "j < length es" "4 \<le> length (snd (fst (es ! j)))"
  shows "\<exists>n'. bnode_deletekey_atpos env n (offset_of es j) k dkindex deleteblob =
      Some (False, deleted_blobs n (bkey_at n (offset_of es j)) k deleteblob, n') \<and> node_has n' (delete_key j es) \<and> same_node n n'"
proof -
  have n: "\<not> has_mismatcharray n" "n_count n = length es" "n_len n = length (node_bytes [] es)" "length (n_p n) \<le> 65536"
    using assms(1) by (simp_all add: in_order_def)
  obtain x where x: "bkey_at n (offset_of es j) = pieces [] es ! j @ x"
    using order_reads [OF assms(1,4)] by blast
  have l: "dbe_bkey_getlength (pieces [] es ! j @ x) = length (pieces [] es ! j)"
    using piece_length(1) [OF assms(2,4)] by blast
  have count: "n_count n \<noteq> 1" "offset_of es j + length (pieces [] es ! j) = n_len n \<longleftrightarrow> Suc j = length es"
    using n(2,3) assms(3) offset_of_last [OF assms(4)] by auto
  show ?thesis
  proof (cases "Suc j = length es")
    case True
    let ?m = "n\<lparr>n_dirty := True, n_len := n_len n - length (pieces [] es ! j), n_count := length es - 1\<rparr>"
    have "es \<noteq> []" "length es - 1 = j"
      using assms(4) True by auto
    then have "in_order ?m (butlast es)"
      using n(1) assms(1) by (intro delete_order_last [of n]) (simp_all add: has_mismatcharray_def)
    then have "node_has ?m (delete_key j es)"
      using True delete_key_last [of es] by (metis diff_Suc_1 node_has_def)
    moreover have "same_node n ?m"
      by (simp add: same_node_def)
    moreover have "bnode_deletekey_atpos env n (offset_of es j) k dkindex deleteblob =
        Some (False, deleted_blobs n (bkey_at n (offset_of es j)) k deleteblob, ?m)"
      using n(1,2) count True x l
      by (subst bnode_deletekey_atpos.simps) (simp add: Let_def has_mismatcharray_def dirty_reads)
    ultimately show ?thesis
      by blast
  next
    case False
    then have sj: "Suc j < length es"
      using assms(4) by simp
    let ?NN = "bkey_after (prev_key es j) (fst (es ! Suc j)) (snd (es ! Suc j))" and ?K = "pieces [] es ! j" and ?K' = "pieces [] es ! Suc j"
    have off: "offset_of es j + length ?K = offset_of es (Suc j)"
      using offset_of_simps(2) [OF assms(4)] by simp
    obtain y where y: "bkey_at n (offset_of es (Suc j)) = ?K' @ y"
      using order_reads [OF assms(1) sj] by blast
    have l2: "dbe_bkey_getlength (?K' @ y) = length ?K'"
      using piece_length(1) [OF assms(2) sj] by blast
    note re = reexpand_at [OF assms(2) sj refl]
    obtain r where r: "dbe_bkey_reexpand_delete (bkeybuf env) (?K @ x) (?K' @ y) = ?NN @ r"
      using re(1) by blast
    have len: "length ?NN \<le> length ?K + length ?K'"
      using re(5) assms(5) by simp
    note o = delete_order [OF assms(1) sj refl refl refl len refl refl]
    let ?p = "buf_write (BNODE_KEYS + offset_of es j) ?NN (buf_move (BNODE_KEYS + offset_of es j + length ?NN)
      (BNODE_KEYS + offset_of es j + (length ?K + length ?K')) (n_len n - offset_of es j - (length ?K + length ?K')) (n_p n))"
    let ?m = "n\<lparr>n_dirty := True, n_p := ?p, n_len := n_len n + length ?NN - (length ?K + length ?K'), n_count := length es - 1\<rparr>"
    have "in_order ?m (delete_key j es)"
      unfolding in_order_def using n o by (simp add: has_mismatcharray_def delete_key_nth(3) [OF assms(4)])
    moreover have "same_node n ?m"
      using o(3) by (simp add: same_node_def)
    moreover have "bnode_deletekey_atpos env n (offset_of es j) k dkindex deleteblob =
        Some (False, deleted_blobs n (bkey_at n (offset_of es j)) k deleteblob, ?m)"
      using n(1,2) count False x y l l2 off
      by (subst bnode_deletekey_atpos.simps) (simp add: Let_def has_mismatcharray_def dirty_reads r re(2,3))
    ultimately show ?thesis
      by (auto simp: node_has_def)
  qed
qed

end
