(* ===== verification/Bnode_Deletekey.thy ===== *)
theory Bnode_Deletekey
  imports Bnode_Delete
begin



text \<open>The deletion at the position where a search has ended, in either layout.\<close>

lemma deletekey_at:
  assumes "node_has n es" "node_ok [] es" "1 < length es" "j < length es" "4 \<le> length (snd (fst (es ! j)))"
    and "has_mismatcharray n \<longrightarrow> dbe_bnode_usemismatcharray env \<and> keys = bnode_getkeyoffset n (int j) \<and> dkindex = int j"
    and "\<not> has_mismatcharray n \<longrightarrow> keys = offset_of es j"
  shows "\<exists>blobs n'. bnode_deletekey_atpos env n keys k dkindex deleteblob = Some (False, blobs, n') \<and> node_has n' (delete_key j es)"
proof (cases "has_mismatcharray n")
  case True
  then obtain offs where a: "in_array n es offs"
    using assms(1) by (auto simp: node_has_def in_order_def)
  then show ?thesis
    using deletekey_array [OF a assms(2-5), of env k deleteblob] array_reads(1) [OF a assms(4)] assms(6) True by auto
next
  case False
  then have "in_order n es"
    using assms(1) by (auto simp: node_has_def in_array_def)
  then show ?thesis
    using deletekey_order [OF _ assms(2-5), of n env k dkindex deleteblob] assms(7) False by auto
qed

lemma deletekey_unfold:
  assumes "n_cpnum n = go_cpnum env" "n_count n \<noteq> 1"
    and "n1 = (with_array env n)\<lparr>n_dirty := True, n_seqinscount := 0\<rparr>" "n_count n1 = n_count n"
    and "bnode_search n1 ks k (key_cmp cmp_also_header) = (keys, kpos, cmp, klen, ks')"
  shows "dbe_bnode_deletekey env ks n k cmp_also_header delete_when_empty deleteblob deletefirstleafkey mergep =
    (if cmp \<noteq> 0 \<and> n_level n1 = 0 then Some (if n_bonsaip n1 \<and> mergep then DBE_RC_SUCC else DBE_ERR_DELETEROWNOTFOUND, [], n1)
     else let back = cmp < 0 \<or> kpos = n_count n1; marr = has_mismatcharray n1;
              kpos = (if back \<and> marr then int kpos - 1 else int kpos);
              keys = (if \<not> back then keys else if marr then bnode_getkeyoffset n1 kpos else keys - klen)
     in if n_level n1 > 0 \<and> kpos = 0 \<and> \<not> deletefirstleafkey then Some (DBE_RC_FIRSTLEAFKEY, [], n1)
        else map_option (\<lambda>(emptyp, blobs, n). (DBE_RC_SUCC, blobs, n)) (bnode_deletekey_atpos env n1 keys k kpos deleteblob))"
  using assms(1,2,4) assms(5) unfolding dbe_bnode_deletekey_def key_cmp_def [symmetric] with_array_def [symmetric] assms(3) [symmetric]
  by (simp only: Let_def if_False simp_thms prod.case assms(3) [symmetric] not_not)





text \<open>A search key between the first two keys of a node.\<close>

lemma found_second:
  assumes "found es c hk key z j cmp ks'" "1 < length es" "below c hk key (es ! 0)" "\<not> below c hk key (es ! 1)"
    and "\<not> (snd (es ! 1) = key \<and> tie c hk (fst (es ! 1)) = 0)"
  shows "j = 1" "cmp < 0"
proof -
  obtain a b es' where "es = a # b # es'"
    using assms(2) by (cases es; cases "tl es") auto
  then show "j = 1"
    using found_takeWhile(1) [OF assms(1)] assms(3,4) by simp
  then show "cmp < 0"
    using assms(1,2,5) by (auto simp: found_def)
qed

lemma deletekey_start:
  assumes "node_has n es" "search_key_ok es hk key" "1 < length es" "n_cpnum n = go_cpnum env" "0 < n_level n"
    and "below c hk key (es ! 0)" "\<not> below c hk key (es ! 1)" "\<not> (snd (es ! 1) = key \<and> tie c hk (fst (es ! 1)) = 0)"
    and "c = key_cmp cmp_also_header"
  shows "\<exists>n1 keys klen. node_has n1 es \<and> 0 < n_level n1 \<and> (has_mismatcharray n1 \<longleftrightarrow> has_mismatcharray (with_array env n)) \<and>
    (\<not> has_mismatcharray n1 \<longrightarrow> keys - klen = offset_of es 0) \<and>
    dbe_bnode_deletekey env ks n (bkey_bytes hk 0 key @ z) cmp_also_header delete_when_empty deleteblob False mergep =
      (if has_mismatcharray n1 then Some (DBE_RC_FIRSTLEAFKEY, [], n1)
       else map_option (\<lambda>(emptyp, blobs, n). (DBE_RC_SUCC, blobs, n))
         (bnode_deletekey_atpos env n1 (keys - klen) (bkey_bytes hk 0 key @ z) 1 deleteblob))"
proof -
  have ok: "node_ok [] es" and ne: "es \<noteq> []"
    using assms(2,3) by (auto simp: search_key_ok_def)
  note w = with_array_has [OF assms(1) ok, of env]
  define n1 where "n1 = (with_array env n)\<lparr>n_dirty := True, n_seqinscount := 0\<rparr>"
  have n1: "node_has n1 es" "n_level n1 = n_level n" "has_mismatcharray n1 \<longleftrightarrow> has_mismatcharray (with_array env n)"
    using w by (simp_all add: n1_def same_node_def has_mismatcharray_def)
  have cn: "n_count n \<noteq> 1" "n_count n1 = n_count n"
    using node_has_count [OF assms(1)] node_has_count [OF n1(1)] assms(3) by simp_all
  obtain keys j cmp klen ks' where s: "bnode_search n1 ks (bkey_bytes hk 0 key @ z) c = (keys, j, cmp, klen, ks')" "found es c hk key z j cmp ks'"
      "if has_mismatcharray n1 then j < length es \<longrightarrow> keys = bnode_getkeyoffset n1 (int j)
       else keys = offset_of es j \<and> (0 < j \<longrightarrow> keys - klen = offset_of es (j - 1))"
    using search_found_offset [OF n1(1) assms(2) ne, of ks z c] by blast
  note u = deletekey_unfold [OF assms(4) cn(1) n1_def cn(2) s(1) [unfolded assms(9)], of delete_when_empty deleteblob False mergep]
  have "j = 1" "cmp < 0"
    using found_second [OF s(2) assms(3,6-8)] by blast+
  then show ?thesis
    using s(3) n1 assms(5) unfolding u by (intro exI [of _ n1] exI [of _ keys] exI [of _ klen]) (auto simp: Let_def split: if_splits)
qed

text \<open>
  C26. In the first layout the first key of an index node is not protected: where the search key lies between the
  first two keys, the position is not moved back together with the pointer, and the key is deleted. With the
  mismatch array the same call keeps it and returns DBE_RC_FIRSTLEAFKEY.
\<close>

theorem deletekey_first_key_lost:
  assumes "search_key_ok es hk key" "1 < length es" "4 \<le> length (snd (fst (es ! 0)))" "c = key_cmp cmp_also_header"
    and "below c hk key (es ! 0)" "\<not> below c hk key (es ! 1)" "\<not> (snd (es ! 1) = key \<and> tie c hk (fst (es ! 1)) = 0)"
    and "in_order n es" "n_cpnum n = go_cpnum env" "0 < n_level n" "\<not> fst (bnode_keysearchinfo_init env n)"
    and "in_array m es offs" "n_cpnum m = go_cpnum env" "0 < n_level m"
  shows "(\<exists>blobs n'. dbe_bnode_deletekey env ks n (bkey_bytes hk 0 key @ z) cmp_also_header delete_when_empty deleteblob False mergep =
      Some (DBE_RC_SUCC, blobs, n') \<and> node_has n' (tl es)) \<and>
    (\<exists>m'. dbe_bnode_deletekey env ks m (bkey_bytes hk 0 key @ z) cmp_also_header delete_when_empty deleteblob False mergep =
      Some (DBE_RC_FIRSTLEAFKEY, [], m') \<and> node_has m' es)"
proof
  have ok: "node_ok [] es" and len: "0 < length es"
    using assms(1,2) by (auto simp: search_key_ok_def)
  have nn: "node_has n es" "\<not> has_mismatcharray n"
    using assms(8) by (auto simp: node_has_def in_order_def)
  have init: "\<not> has_mismatcharray (with_array env n)"
    using keysearchinfo_init_has [OF assms(8) ok node_has_room [OF nn(1)], of env] nn(2) assms(11)
    by (auto simp: with_array_def split: prod.splits if_splits)
  obtain n1 keys klen where n1: "node_has n1 es" "\<not> has_mismatcharray n1" "keys - klen = offset_of es 0"
    "dbe_bnode_deletekey env ks n (bkey_bytes hk 0 key @ z) cmp_also_header delete_when_empty deleteblob False mergep =
      map_option (\<lambda>(emptyp, blobs, n). (DBE_RC_SUCC, blobs, n)) (bnode_deletekey_atpos env n1 (keys - klen) (bkey_bytes hk 0 key @ z) 1 deleteblob)"
    using deletekey_start [OF nn(1) assms(1,2,9,10,5-7,4), of ks z delete_when_empty deleteblob mergep] init by auto
  from deletekey_at [OF n1(1) ok assms(2) len assms(3), of env "offset_of es 0" 1 "bkey_bytes hk 0 key @ z" deleteblob]
  show "\<exists>blobs n'. dbe_bnode_deletekey env ks n (bkey_bytes hk 0 key @ z) cmp_also_header delete_when_empty deleteblob False mergep =
      Some (DBE_RC_SUCC, blobs, n') \<and> node_has n' (tl es)"
    using n1(2,3) unfolding n1(4) by (auto simp: delete_key_def drop_Suc)
next
  have m: "node_has m es" "has_mismatcharray (with_array env m)"
    using assms(12) by (auto simp: node_has_def in_array_def with_array_def)
  show "\<exists>m'. dbe_bnode_deletekey env ks m (bkey_bytes hk 0 key @ z) cmp_also_header delete_when_empty deleteblob False mergep =
      Some (DBE_RC_FIRSTLEAFKEY, [], m') \<and> node_has m' es"
    using deletekey_start [OF m(1) assms(1,2,13,14,5-7,4), of ks z delete_when_empty deleteblob mergep] m(2) by auto
qed



lemma block_array:
  assumes "\<not> has_mismatcharray n" "n_count n = length es" "n_len n = length (node_bytes [] es)"
    and "n_p n = x @ node_bytes [] es @ y" "length x = BNODE_KEYS" "length (n_p n) \<le> 65536" "node_ok [] es"
    and "dbe_bnode_usemismatcharray env" "BNODE_HEADERLEN + n_len n + n_count n * 4 \<le> length (n_p n)"
  shows "in_array (snd (bnode_keysearchinfo_init env n)) es (map (offset_of es) [0..<length es])"
proof -
  have "in_order n es"
    using assms by (auto simp: in_order_def holds_def)
  then show ?thesis
    using keysearchinfo_init_has [OF _ assms(7), of n env] assms(4,5,8,9) assms(3) by (auto split: prod.splits)
qed

theorem deletekey_first_key_lost_witness:
  "let es = [((1, [9, 0, 0, 0]), [[1], [2]]), ((1, [8, 0, 0, 0]), [[1], [5]]), ((1, [7, 0, 0, 0]), [[2], [9]])]; hk = (4, []); key = [[1], [3]];
     n = \<lparr>n_len = length (node_bytes [] es), n_count = 3, n_level = 1, n_info = 0, n_dirty = False, n_bonsaip = False, n_seqinscount = 0,
       n_lastinsindex = 2, n_cpnum = 7, n_p = replicate 12 0 @ node_bytes [] es @ replicate 50 0, n_keysearchinfo_array = 0\<rparr>;
     env = \<lparr>dbe_bnode_usemismatcharray = False, dbe_cfg_singledeletemark = False, go_cpnum = 7,
       go_trxbuf = the (dbe_trxbuf_init 4 0 False), bkeybuf = replicate 25 0\<rparr>;
     m = snd (bnode_keysearchinfo_init (env\<lparr>dbe_bnode_usemismatcharray := True\<rparr>) n)
   in (\<exists>blobs n'. dbe_bnode_deletekey env undefined n (bkey_bytes hk 0 key @ []) False False False False False =
      Some (DBE_RC_SUCC, blobs, n') \<and> node_has n' (tl es)) \<and>
    (\<exists>m'. dbe_bnode_deletekey env undefined m (bkey_bytes hk 0 key @ []) False False False False False =
      Some (DBE_RC_FIRSTLEAFKEY, [], m') \<and> node_has m' es)"
proof -
  let ?es = "[((1, [9, 0, 0, 0]), [[1], [2]]), ((1, [8, 0, 0, 0]), [[1], [5]]), ((1, [7, 0, 0, 0]), [[2], [9]])] :: ((u8 \<times> u8 list) \<times> u8 list list) list"
  let ?n = "\<lparr>n_len = length (node_bytes [] ?es), n_count = 3, n_level = 1, n_info = 0, n_dirty = False, n_bonsaip = False, n_seqinscount = 0,
       n_lastinsindex = 2, n_cpnum = 7, n_p = replicate 12 0 @ node_bytes [] ?es @ replicate 50 0, n_keysearchinfo_array = 0\<rparr>"
  let ?env = "\<lparr>dbe_bnode_usemismatcharray = False, dbe_cfg_singledeletemark = False, go_cpnum = 7,
       go_trxbuf = the (dbe_trxbuf_init 4 0 False), bkeybuf = replicate 25 0\<rparr>"
  let ?m = "snd (bnode_keysearchinfo_init (?env\<lparr>dbe_bnode_usemismatcharray := True\<rparr>) ?n)"
  have ok: "node_ok [] ?es"
    by (simp add: header_ok_def bkey_flags vtpl_fits_def chain_ok_def encode_length)
  have len: "length (n_p ?n) = 96" "n_len ?n = 34"
    by (simp_all add: bkey_after_def bkey_bytes_def vtpl_encode_def encode_length)
  have bytes: "length (node_bytes [] ?es) = 34"
    by (simp add: bkey_after_def bkey_bytes_def vtpl_encode_def encode_length)
  have o: "in_order ?n ?es"
    unfolding in_order_def len(1) by (auto simp: has_mismatcharray_def holds_def BNODE_KEYS_def simp del: node_bytes.simps)
  have a: "in_array ?m ?es (map (offset_of ?es) [0..<length ?es])"
    by (rule block_array [where x = "replicate 12 0" and y = "replicate 50 0"], unfold len)
      (use ok bytes in \<open>simp_all add: has_mismatcharray_def BNODE_KEYS_def BNODE_HEADERLEN_def del: node_bytes.simps\<close>)
  have m: "n_cpnum ?m = 7" "n_level ?m = 1"
    by (simp_all add: bnode_keysearchinfo_init_def bnode_info_setmismatcharray_def Let_def)
  show ?thesis
    unfolding Let_def
    by (rule deletekey_first_key_lost [OF _ _ _ refl _ _ _ o _ _ _ a])
      (use m ok in \<open>simp_all add: search_key_ok_def header_ok_def bkey_flags below_def key_cmp_def tie_def vtpl_fits_def chain_ok_def
        encode_length bnode_keysearchinfo_init_def del: node_ok.simps\<close>)
qed

end
