(* ===== verification/Spec2Isabelle.thy ===== *)
theory Spec2Isabelle
  imports Counter Lock_Safety Lock_Deadlock Lock_Conversion Trx_Buf_Safety Trx_List_Disk Rbt_Tree
    Rtrx_Safety Trx_Buf_Open Bnode_Deletekey
begin

text \<open>
  A verification development of the core of solidDB, the transactional storage engine under \<^verbatim>\<open>src/\<close>: the
  layers \<^verbatim>\<open>ss\<close> (operating system, byte order, 64-bit integers), \<^verbatim>\<open>su\<close> (containers), \<^verbatim>\<open>uti\<close> (stored values),
  \<^verbatim>\<open>res\<close> (typed values) and \<^verbatim>\<open>dbe\<close> (the database engine). File names are relative to \<^verbatim>\<open>src/\<close>.

  \<^bold>\<open>The parts and how they interact.\<close> A transaction gets its id and its commit number from the
  counters of \<^verbatim>\<open>dbe/dbe7ctr.c\<close>; numbers live in a 32-bit circle and are compared by \<^verbatim>\<open>dbe_trxnum_cmp\<close>. The
  pessimistic part of concurrency control is the lock manager, \<^verbatim>\<open>dbe/dbe6lmgr.c\<close>; the optimistic part keeps
  the state of each transaction in an info structure, \<^verbatim>\<open>include/dbe7trxi.h\<close>, which the transaction buffer,
  \<^verbatim>\<open>dbe/dbe7trxb.c\<close>, finds by transaction and statement id. A reader that meets a key in the index asks the
  buffer for the state of the statement that wrote it. A checkpoint writes lists of ids to disk,
  \<^verbatim>\<open>dbe/dbe8trxl.c\<close>. On a replica, \<^verbatim>\<open>dbe/dbe7rtrx.c\<close> maps the ids of the primary to its own with red-black
  trees, \<^verbatim>\<open>su/su0rbtr.c\<close>. Keys of the B+-tree are a header and a v-tuple, that is a sequence of v-attributes
  (\<^verbatim>\<open>uti/uti0vab.c\<close>, \<^verbatim>\<open>uti/uti0vtpb.c\<close>), and a node keeps each key compressed against the one before
  (\<^verbatim>\<open>uti/uti0vcmp.c\<close>, \<^verbatim>\<open>dbe/dbe6bkey.c\<close>).

  \<^bold>\<open>Conventions.\<close> Machine integers are words of their width; a C \<^verbatim>\<open>int\<close> that is only a result of a
  comparison is an \<open>int\<close>; \<^verbatim>\<open>long\<close> has 32 bits, as the code's own checks ask. A buffer is a list of bytes
  and a pointer into it an offset, or the list from the pointer on. Objects that the code shares by
  pointer (lock requests, transaction infos, tree nodes) live in a store of the component's state
  record, a function from addresses. Each operation is one function of the old state to the new one and the
  result: the mutexes that make it atomic are not state. \<^verbatim>\<open>ss_error\<close>, which stops the program, is the
  value \<open>None\<close>; debug assertions of the production build are left out. The proofs of a component
  rest on an invariant of its state or on a function that reads the abstract value out of it.

  \<^bold>\<open>The theories.\<close>

  \<^item> \<open>Sdb_Prelude\<close>: C integer types, word arithmetic, writes into buffers, the \<open>cmp_order\<close> interface: a
    three-way comparison that orders its arguments as their values are ordered. It is interpreted on
    \<^verbatim>\<open>va_compare\<close>, \<^verbatim>\<open>vtpl_compare\<close>, \<^verbatim>\<open>SsInt8Cmp\<close>, the comparisons of transaction numbers, counters and tuple numbers.

  \<^item> \<open>Ss_Limits\<close>, \<open>Ss_Int8\<close>: the byte-order macros of \<^verbatim>\<open>include/sslimits.h\<close> and the 64-bit integers of
    \<^verbatim>\<open>ss/ssint8.c\<close>, a word read in halves and 16-bit limbs. Sums, comparison and division are those of
    64-bit numbers, the sum with its overflow flag; the product misses overflows in the limbs above the shift.

  \<^item> \<open>Va_Base\<close>, \<open>Va_Int\<close>, \<open>Tuple_Num\<close>: v-attributes, that is a length of one or five bytes and the data, from
    \<^verbatim>\<open>uti/uti0vab.c\<close>; integers in them from \<^verbatim>\<open>uti/uti0vai.c\<close> and \<^verbatim>\<open>uti/uti0vai8.c\<close>; tuple numbers from \<^verbatim>\<open>res/rs0tnum.c\<close>.
    What is stored is read back, and the order of the bytes is the order of the values.

  \<^item> \<open>Vtpl\<close>, \<open>Vtpl_Order\<close>, \<open>Vtpl_Compress\<close>, \<open>Vtpl_Expand\<close>, \<open>Vtpl_Search\<close>, \<open>Vtpl_Index\<close>: v-tuples.
    \<open>Vtpl_Order\<close> is the specification: on lists of fields, \<open>cmpr\<close> is prefix compression, \<open>expd\<close> its inverse
    and \<open>split_fields\<close> a separator, with the order of compressed entries. The others model \<^verbatim>\<open>vtpl_compare\<close>,
    \<^verbatim>\<open>uti_compress\<close>, \<^verbatim>\<open>uti_expand\<close> into a buffer of its own and \<^verbatim>\<open>vtpl_search_step_fn\<close> on bytes and show that they
    compute the specification.

  \<^item> \<open>Bkey\<close>, \<open>Bkey_Node\<close>: the keys of \<^verbatim>\<open>dbe/dbe6bkey.c\<close>. The compressed form of a node's key behind an
    inserted one, or behind a deleted one's predecessor, is computed from compressed forms alone; a
    search through the compressed keys of a node stops at the first key that is not below.

  \<^item> \<open>Bnode\<close>, \<open>Bnode_Rep\<close>, \<open>Bnode_Search\<close>, \<open>Bnode_Layout\<close>, \<open>Bnode_Insert\<close>, \<open>Bnode_Insertkey\<close>, \<open>Bnode_Find\<close>, \<open>Bnode_Delete\<close>,
    \<open>Bnode_Deletekey\<close>: the nodes of \<^verbatim>\<open>dbe/dbe6bnod.c\<close>. \<open>Bnode\<close> is the code, on the bytes of the block. \<open>Bnode_Rep\<close> says which
    list of keys a block has (\<open>node_has\<close>), one behind the other or in any order under a mismatch array; the others
    show that both searches find the same key, that building and dropping the array keep the keys, and that
    inserting and deleting do to the list what they should, full nodes and missing keys included.

  \<^item> \<open>Rbt\<close>, \<open>Rbt_Shape\<close>, \<open>Rbt_Rotate\<close>, \<open>Rbt_Color\<close>, \<open>Rbt_Insert\<close>, \<open>Rbt_Ops\<close>, \<open>Rbt_Search\<close>, \<open>Rbt_Delete\<close>, \<open>Rbt_Remove\<close>,
    \<open>Rbt_Interface\<close>, \<open>Rbt_Tree\<close>: the red-black tree on its heap of nodes with parent pointers. \<open>Rbt_Shape\<close> reads the
    heap as a tree, and the operations refine those of a sorted list and keep the color rules. The locale
    \<open>ordered_nodes\<close> of \<open>Rbt_Interface\<close> is what the users of the tree rely on.

  \<^item> \<open>Trx_Num\<close>, \<open>Counter\<close>: ids, numbers and the database counters. The locale \<open>forward_setter\<close> is the contract of the
    four counters that only move forward.

  \<^item> \<open>Lock_Mode\<close>, \<open>Lock_Mgr\<close>, \<open>Lock_Inv\<close>, \<open>Lock_Safety\<close>, \<open>Lock_Deadlock\<close>, \<open>Lock_Conversion\<close>: the mode tables; locking,
    unlocking, waiting and the deadlock detector; the invariant of the queues and that granted locks are
    compatible, waiters stay in order and a reported deadlock is a cycle, for transactions whose conversions
    are not refused; and what \<^verbatim>\<open>lmgr_lock\<close> and \<^verbatim>\<open>dbe_lockmgr_unlockall\<close> do with a conversion that is refused, that
    waits when its transaction ends, or that the test for a lock already held takes for one.

  \<^item> \<open>Trx_Info\<close>, \<open>Trx_Buf\<close>, \<open>Trx_Buf_Inv\<close>, \<open>Trx_Buf_Ops\<close>, \<open>Trx_Buf_Safety\<close>: the states of a transaction and the
    buffer's hash table. In every reachable state the reference count of an info is the number of its
    statements and of its owners' references, and a reader is told what the abstract map says.

  \<^item> \<open>Trx_List\<close>, \<open>Trx_List_Disk\<close>: the block lists of (id, number) pairs over an abstract block device.

  \<^item> \<open>Rtrx_Buf\<close>, \<open>Rtrx_Map\<close>, \<open>Rtrx_Safety\<close>, \<open>Trx_Buf_Open\<close>: the mappings of a replica, as an ordered list over
    \<open>ordered_nodes\<close>, their save to a transaction list and restore from it, and the transactions found open at the
    end of recovery.

  \<^bold>\<open>Loops.\<close> No loop is bounded by fuel. Loops over fields, buffers, queues and hash chains are functions with
  a measure: every step passes at least a length byte or an element. The deadlock search is total because
  each request it looks at uses up the configured maximum. Loops whose end depends on the state are
  \<open>partial_function\<close>s with an option, where not returning is \<open>None\<close>: the walks and fixups of the red-black tree, the
  walks over block lists and over mappings, and shift-and-subtract division. Their properties state the
  value \<open>Some\<close>, so that they include termination, division for every dividend and divisor.

  \<^bold>\<open>Parameters.\<close> Freshly allocated memory, the blocks the free list hands out, the comparison function of
    a search state and of a tree, the cleanup of a full leaf and the release of a key are arguments of the model. The assumptions
    of the theorems are the documented ones: lengths below the maximum of the length format, no operation on
    an empty v-tuple, ids inside one window of the circle, a key that is compressed not below the one before.
    The keys of a node may differ in their number of fields, as split keys do, but none may continue the one
    before it with more fields, nor may a search key continue one that occurs twice: without this the search
    goes past greater keys (\<open>search_passes_longer\<close> of \<open>Bkey_Node\<close>).

  \<^bold>\<open>What the proofs found.\<close> A refused lock conversion removes the wrong request of the queue; the test for
    a lock already held compares mode numbers; the macros that set a transaction's state drop its flags; the
    product of 64-bit integers misses overflows; the memory for an expanded key can be too small by some
    bytes when one to three bytes are shared; four limits of the 64-bit store are written wrong, so that
    negative values take nine bytes; the first key of an index node is lost in a layout without
  array; and others, each as a theorem that ends in the bad state.

  \<^bold>\<open>Not modelled.\<close> Splits of B+-tree nodes, their cleanup and range searches, the tree and the two-tree
    index with its merge, tuple operations, BLOBs, logging and recovery, the cache, checkpoints, the sorter, the
    estimator and the dictionary: they drive the parts modelled here through the cache, the file layer and
    threads, whose interleavings a sequential model would not show. The storage engine handler, \<^verbatim>\<open>handler/\<close>, is glue to
    a server whose headers are not in the repository. Debug builds, printers and functions that only
    release memory are left out. In the modelled files: text conversions, shifts and conversions to floating
    point of 64-bit integers; save and restore of the transaction buffer; the v-tuple operations that
    increment, truncate or normalise fields, the expansion of a v-tuple over itself, where the code copies between
    overlapping regions with \<^verbatim>\<open>memcpy\<close>, the saved state of an expansion and the checks against page limits.
\<close>

end
